(* ===== verification/Cpkt_Prelude.thy ===== *)
theory Cpkt_Prelude
  imports Main "HOL-Library.Word" "HOL-Library.Sublist"
begin

text \<open>
  Shared vocabulary of the development.

  \<^item> The C integer types of the LP64 targets: \<open>size_t\<close> and \<open>unsigned long\<close> are naturals below
    \<open>2 ^ 64\<close>; arithmetic that the source leaves unguarded goes through \<open>sz\<close>, which wraps
    around as the C type does.
  \<^item> The capacity-doubling loop that every growable buffer of the sources repeats.
  \<^item> Facts on list slices, on ring indices and on prefixes that the components share.
  \<^item> The \<^theory_text>\<open>named_theorems\<close> collections: \<open>sz_simps\<close> for bounded arithmetic, \<open>slice_simps\<close>
    for slices.
\<close>

named_theorems sz_simps
named_theorems slice_simps

section \<open>Unsigned 64-bit arithmetic\<close>

definition size_max :: nat where
  "size_max = 18446744073709551615"

definition int_max :: nat where
  "int_max = 2147483647"

definition long_max :: nat where
  "long_max = 9223372036854775807"

definition sz :: "nat \<Rightarrow> nat" where
  "sz n = n mod (size_max + 1)"

definition sz_sub :: "nat \<Rightarrow> nat \<Rightarrow> nat" where
  "sz_sub a b = (a + (size_max + 1) - b) mod (size_max + 1)"

lemmas c_limits = size_max_def int_max_def long_max_def

lemma sz_le [simp]: "sz n \<le> size_max"
  by (metis sz_def add.commute less_Suc_eq_le mod_less_divisor plus_1_eq_Suc zero_less_Suc)

lemma sz_id [sz_simps]: "n \<le> size_max \<Longrightarrow> sz n = n"
  by (simp add: sz_def)

lemma sz_le_arg: "sz n \<le> n"
  by (simp add: sz_def)

lemma sz_sub_id [sz_simps]:
  assumes "b \<le> a" "a \<le> size_max"
  shows "sz_sub a b = a - b"
proof -
  have "a + (size_max + 1) - b = (a - b) + (size_max + 1)"
    using assms by simp
  moreover have "a - b < size_max + 1"
    using assms by simp
  ultimately show ?thesis
    unfolding sz_sub_def by (metis mod_add_self2 mod_less)
qed

lemma sz_sub_le [simp]: "sz_sub a b \<le> size_max"
  by (metis sz_sub_def add.commute less_Suc_eq_le mod_less_divisor plus_1_eq_Suc zero_less_Suc)

section \<open>The capacity-doubling loop\<close>

text \<open>
  \<^verbatim>\<open>
  while (next_capacity < needed) {
    if (next_capacity > ((size_t)-1) / 2U) return failure;
    next_capacity *= 2U;
  }
  \<close>
  Every caller replaces a capacity of zero by its chunk size before the loop, so the loop never
  starts from zero; the first equation only makes the recursion total.
\<close>

function grow_loop :: "nat \<Rightarrow> nat \<Rightarrow> nat option" where
  "grow_loop needed cap =
     (if cap = 0 then None
      else if cap < needed then
        (if cap > size_max div 2 then None else grow_loop needed (cap * 2))
      else Some cap)"
  by pat_completeness auto
termination
  by (relation "measure (\<lambda>(needed, cap). needed - cap)") auto

declare grow_loop.simps [simp del]

definition grow_capacity :: "nat \<Rightarrow> nat \<Rightarrow> nat \<Rightarrow> nat option" where
  "grow_capacity chunk capacity needed =
     grow_loop needed (if capacity = 0 then chunk else capacity)"

lemma grow_loop_done [simp]: "0 < cap \<Longrightarrow> needed \<le> cap \<Longrightarrow> grow_loop needed cap = Some cap"
  by (simp add: grow_loop.simps)

lemma grow_loop_step:
  "0 < cap \<Longrightarrow> cap < needed \<Longrightarrow> cap \<le> size_max div 2 \<Longrightarrow>
    grow_loop needed cap = grow_loop needed (cap * 2)"
  by (subst grow_loop.simps) simp

lemma grow_loop_Some:
  assumes "grow_loop needed cap = Some c"
  shows "needed \<le> c \<and> cap \<le> c \<and> (c = cap \<or> c < 2 * needed) \<and> (\<exists>k. c = cap * 2 ^ k)"
  using assms
proof (induction needed cap rule: grow_loop.induct)
  case (1 needed cap)
  show ?case
  proof (cases "cap < needed")
    case True
    with "1.prems" have step: "cap \<noteq> 0" "\<not> cap > size_max div 2"
        "grow_loop needed (cap * 2) = Some c"
      by (auto simp: grow_loop.simps [of needed cap] split: if_splits)
    from "1.IH" [OF step(1) True step(2) step(3)] obtain k where
      k: "needed \<le> c" "cap * 2 \<le> c" "c = cap * 2 \<or> c < 2 * needed" "c = cap * 2 * 2 ^ k"
      by blast
    have "c = cap * 2 ^ Suc k"
      using k(4) by simp
    moreover have "c < 2 * needed"
      using k(3) True by auto
    ultimately show ?thesis
      using k(1,2) by (metis le_add2 le_trans mult_2_right)
  next
    case False
    with "1.prems" have "c = cap"
      by (auto simp: grow_loop.simps [of needed cap] split: if_splits)
    with False show ?thesis
      by (auto intro: exI [of _ 0])
  qed
qed

lemma grow_loop_bound:
  assumes "grow_loop needed cap = Some c" "cap \<le> size_max"
  shows "c \<le> size_max"
  using assms
proof (induction needed cap rule: grow_loop.induct)
  case (1 needed cap)
  then show ?case
    by (auto simp: grow_loop.simps [of needed cap] split: if_splits)
qed

text \<open>The loop gives up only when doubling would overflow below the needed size.\<close>

lemma grow_loop_None:
  assumes "grow_loop needed cap = None" "0 < cap"
  shows "size_max div 2 < needed"
  using assms
proof (induction needed cap rule: grow_loop.induct)
  case (1 needed cap)
  show ?case
  proof (cases "cap > size_max div 2")
    case True
    with "1.prems" show ?thesis
      by (auto simp: grow_loop.simps [of needed cap] split: if_splits)
  next
    case False
    with "1.prems" have "cap < needed" "grow_loop needed (cap * 2) = None"
      by (auto simp: grow_loop.simps [of needed cap] split: if_splits)
    with "1.IH" False "1.prems"(2) show ?thesis
      by simp
  qed
qed

section \<open>Slices, prefixes and rings\<close>

definition slice :: "'a list \<Rightarrow> nat \<Rightarrow> nat \<Rightarrow> 'a list" where
  "slice xs i n = take n (drop i xs)"

lemma length_slice [slice_simps]: "i + n \<le> length xs \<Longrightarrow> length (slice xs i n) = n"
  by (simp add: slice_def)

lemma slice_append [slice_simps]: "i + n \<le> length xs \<Longrightarrow> slice (xs @ ys) i n = slice xs i n"
  by (simp add: slice_def)

lemma slice_to_end [slice_simps]: "i + n = length xs \<Longrightarrow> slice xs i n = drop i xs"
  by (simp add: slice_def)

lemma drop_snoc: "i \<le> length xs \<Longrightarrow> drop i (xs @ [x]) = drop i xs @ [x]"
  by simp

lemma take_Suc_snoc: "i < length xs \<Longrightarrow> take (Suc i) (xs[i := x]) = take i xs @ [x]"
  by (simp add: take_Suc_conv_app_nth)

text \<open>The last \<open>n\<close> elements of a list.\<close>

definition lastn :: "nat \<Rightarrow> 'a list \<Rightarrow> 'a list" where
  "lastn n xs = drop (length xs - n) xs"

lemma length_lastn [simp]: "length (lastn n xs) = min n (length xs)"
  by (simp add: lastn_def)

lemma lastn_0 [simp]: "lastn 0 xs = []"
  by (simp add: lastn_def)

lemma lastn_snoc: "n \<le> length xs \<Longrightarrow> lastn (Suc n) (xs @ [x]) = lastn n xs @ [x]"
  by (simp add: lastn_def)

lemma lastn_shift:
  assumes "0 < n" "n \<le> length xs"
  shows "lastn n (xs @ [x]) = tl (lastn n xs) @ [x]"
proof -
  have "drop (Suc (length xs - n)) xs = tl (drop (length xs - n) xs)"
    by (simp add: drop_Suc tl_drop)
  moreover have "Suc (length xs) - n = Suc (length xs - n)"
    using assms by (simp add: Suc_diff_le)
  ultimately show ?thesis
    using assms by (simp add: lastn_def)
qed

lemma lastn_append_lastn: "lastn n (lastn n xs @ ys) = lastn n (xs @ ys)"
proof (cases "n \<le> length xs")
  case True
  then have "length xs + length ys - (length xs - n + n) + (length xs - n) = length xs + length ys - n"
    "length xs + length ys - (length xs - n + n) - n = length xs + length ys - n - length xs"
    by simp_all
  with True show ?thesis
    by (simp add: lastn_def)
qed (simp add: lastn_def)

text \<open>Reading a ring of \<open>cap\<close> cells from index \<open>cur\<close>.\<close>

definition ring_list :: "'a list \<Rightarrow> nat \<Rightarrow> nat \<Rightarrow> nat \<Rightarrow> 'a list" where
  "ring_list cells cap cur n = map (\<lambda>i. cells ! ((cur + i) mod cap)) [0..<n]"

lemma length_ring_list [simp]: "length (ring_list cells cap cur n) = n"
  by (simp add: ring_list_def)

lemma ring_list_0 [simp]: "ring_list cells cap cur 0 = []"
  by (simp add: ring_list_def)

lemma ring_index_inj:
  fixes cap :: nat
  assumes "i < cap" "j < cap" "(cur + i) mod cap = (cur + j) mod cap"
  shows "i = j"
proof -
  have main: "a = b" if "a \<le> b" "b < cap" "(cur + a) mod cap = (cur + b) mod cap" for a b
  proof -
    have "cap dvd (cur + b) - (cur + a)"
      using that by (metis mod_eq_dvd_iff_nat add_le_cancel_left)
    then have "cap dvd b - a"
      by simp
    with that show "a = b"
      by (metis dvd_imp_le le_antisym less_imp_diff_less not_le zero_less_diff)
  qed
  show ?thesis
    using main [of i j] main [of j i] assms by (cases "i \<le> j") auto
qed

lemma ring_push_room:
  assumes "length cells = cap" "n < cap"
  shows "ring_list (cells[(cur + n) mod cap := x]) cap cur (Suc n) = ring_list cells cap cur n @ [x]"
proof -
  have idx: "(cur + n) mod cap < length cells"
    using assms by (auto intro: mod_less_divisor)
  have "map (\<lambda>i. cells[(cur + n) mod cap := x] ! ((cur + i) mod cap)) [0..<n] =
        map (\<lambda>i. cells ! ((cur + i) mod cap)) [0..<n]"
  proof (rule map_cong [OF refl])
    fix i assume "i \<in> set [0..<n]"
    then have "i < n" by simp
    then have "(cur + i) mod cap \<noteq> (cur + n) mod cap"
      using ring_index_inj [of i cap n cur] assms(2) by auto
    then show "cells[(cur + n) mod cap := x] ! ((cur + i) mod cap) = cells ! ((cur + i) mod cap)"
      by simp
  qed
  then show ?thesis
    using idx by (simp add: ring_list_def)
qed

lemma ring_push_full:
  assumes "length cells = cap" "0 < cap" "cur < cap"
  shows "ring_list (cells[cur := x]) cap ((cur + 1) mod cap) cap = tl (ring_list cells cap cur cap) @ [x]"
proof (rule nth_equalityI)
  show "length (ring_list (cells[cur := x]) cap ((cur + 1) mod cap) cap) =
      length (tl (ring_list cells cap cur cap) @ [x])"
    using assms by simp
next
  fix i assume "i < length (ring_list (cells[cur := x]) cap ((cur + 1) mod cap) cap)"
  then have i: "i < cap" by simp
  have pos: "((cur + 1) mod cap + i) mod cap = (cur + Suc i) mod cap"
    by (simp add: mod_add_left_eq)
  show "ring_list (cells[cur := x]) cap ((cur + 1) mod cap) cap ! i =
      (tl (ring_list cells cap cur cap) @ [x]) ! i"
  proof (cases "Suc i < cap")
    case True
    have "(cur + Suc i) mod cap \<noteq> cur"
      using ring_index_inj [of "Suc i" cap 0 cur] True assms by auto
    then show ?thesis
      using True i pos assms by (simp add: ring_list_def nth_append nth_tl less_diff_conv)
  next
    case False
    then have "Suc i = cap" using i by simp
    then have "(cur + Suc i) mod cap = cur" using assms by simp
    then show ?thesis
      using False i pos assms by (simp add: ring_list_def nth_append less_diff_conv)
  qed
qed

lemma prefix_take [intro]: "prefix (take n xs) xs"
  by (metis append_take_drop_id prefixI)

end
