(* ===== verification/Audio_Sample.thy ===== *)
theory Audio_Sample
  imports Cpkt_Prelude
begin

text \<open>
  Result codes and samples of \<^verbatim>\<open>src/audio.c\<close>.

  A C \<open>float\<close> is its IEEE binary32 bit pattern, a \<open>32 word\<close>; the comparisons the code makes are
  defined on the bits, with NaN unordered, so a sample or a threshold may be any pattern.
  The 10 ms time base and the millisecond-to-frame conversions of the segmenters are here too.
\<close>

unbundle bit_operations_syntax

section \<open>Result codes\<close>

datatype cpkt_audio_result =
    CPKT_AUDIO_OK
  | CPKT_AUDIO_ERR_ARG
  | CPKT_AUDIO_ERR_ALLOC
  | CPKT_AUDIO_ERR_IO
  | CPKT_AUDIO_ERR_FORMAT
  | CPKT_AUDIO_ERR_UPSTREAM
  | CPKT_AUDIO_AT_END
  | CPKT_AUDIO_TIMEOUT

text \<open>The switch has a default branch for a value outside the enumeration: \<open>None\<close> here.\<close>

fun cpkt_audio_result_string :: "cpkt_audio_result option \<Rightarrow> string" where
  "cpkt_audio_result_string (Some CPKT_AUDIO_OK) = ''ok''"
| "cpkt_audio_result_string (Some CPKT_AUDIO_ERR_ARG) = ''invalid argument''"
| "cpkt_audio_result_string (Some CPKT_AUDIO_ERR_ALLOC) = ''allocation failed''"
| "cpkt_audio_result_string (Some CPKT_AUDIO_ERR_IO) = ''I/O error''"
| "cpkt_audio_result_string (Some CPKT_AUDIO_ERR_FORMAT) = ''unsupported or invalid audio format''"
| "cpkt_audio_result_string (Some CPKT_AUDIO_ERR_UPSTREAM) = ''audio backend error''"
| "cpkt_audio_result_string (Some CPKT_AUDIO_AT_END) = ''end of stream''"
| "cpkt_audio_result_string (Some CPKT_AUDIO_TIMEOUT) = ''timeout''"
| "cpkt_audio_result_string None = ''unknown audio result''"

section \<open>Binary32 samples\<close>

type_synonym f32 = "32 word"

definition f32_mag :: "f32 \<Rightarrow> int" where
  "f32_mag x = uint (take_bit 31 x)"

definition f32_nan :: "f32 \<Rightarrow> bool" where
  "f32_nan x \<longleftrightarrow> 0x7F800000 < f32_mag x"

definition f32_key :: "f32 \<Rightarrow> int" where
  "f32_key x = (if bit x 31 then - f32_mag x else f32_mag x)"

definition f32_less :: "f32 \<Rightarrow> f32 \<Rightarrow> bool" where
  "f32_less x y \<longleftrightarrow> \<not> f32_nan x \<and> \<not> f32_nan y \<and> f32_key x < f32_key y"

definition f32_ge :: "f32 \<Rightarrow> f32 \<Rightarrow> bool" where
  "f32_ge x y \<longleftrightarrow> \<not> f32_nan x \<and> \<not> f32_nan y \<and> f32_key y \<le> f32_key x"

definition f32_neg :: "f32 \<Rightarrow> f32" where
  "f32_neg x = flip_bit 31 x"

definition cpkt_audio_absf :: "f32 \<Rightarrow> f32" where
  "cpkt_audio_absf value = (if f32_less value 0 then f32_neg value else value)"

lemma f32_mag_neg [simp]: "f32_mag (f32_neg x) = f32_mag x"
proof -
  have "take_bit 31 (flip_bit 31 x) = take_bit 31 x"
    by (rule bit_eqI) (auto simp: bit_take_bit_iff bit_flip_bit_iff)
  then show ?thesis
    by (simp add: f32_mag_def f32_neg_def)
qed

lemma f32_sign_neg [simp]: "bit (f32_neg x) 31 \<longleftrightarrow> \<not> bit x 31"
  by (simp add: f32_neg_def bit_flip_bit_iff)

lemma f32_mag_0 [simp]: "f32_mag 0 = 0"
  by (simp add: f32_mag_def)

lemma f32_mag_nonneg [simp]: "0 \<le> f32_mag x"
  by (simp add: f32_mag_def)

text \<open>
  The magnitude test of the segmenters ignores the sign bit: a frame and its negation are loud at
  the same thresholds, and a NaN frame is never loud.
\<close>

lemma f32_mag_absf [simp]: "f32_mag (cpkt_audio_absf x) = f32_mag x"
  by (simp add: cpkt_audio_absf_def)

lemma f32_key_absf:
  assumes "\<not> f32_nan x"
  shows "f32_key (cpkt_audio_absf x) = f32_mag x"
proof (cases "f32_less x 0")
  case True
  have "bit x 31"
  proof (rule ccontr)
    assume "\<not> bit x 31"
    with True have "f32_mag x < 0"
      by (simp add: f32_less_def f32_key_def)
    with f32_mag_nonneg [of x] show False
      by linarith
  qed
  with True show ?thesis
    by (simp add: cpkt_audio_absf_def f32_key_def)
next
  case False
  with assms have "bit x 31 \<Longrightarrow> f32_mag x = 0"
    using f32_mag_nonneg [of x] by (auto simp: f32_less_def f32_key_def f32_nan_def)
  with False show ?thesis
    by (auto simp: cpkt_audio_absf_def f32_key_def)
qed

lemma absf_ge_iff:
  "f32_ge (cpkt_audio_absf x) t \<longleftrightarrow> \<not> f32_nan x \<and> \<not> f32_nan t \<and> f32_key t \<le> f32_mag x"
proof (cases "f32_nan x")
  case True
  then have "f32_nan (cpkt_audio_absf x)"
    by (simp add: f32_nan_def)
  with True show ?thesis
    by (simp add: f32_ge_def)
next
  case False
  then have "\<not> f32_nan (cpkt_audio_absf x)"
    by (simp add: f32_nan_def)
  with False show ?thesis
    by (simp add: f32_ge_def f32_key_absf)
qed

section \<open>Frames and time\<close>

definition cpkt_audio_ms_to_16k_frames :: "nat \<Rightarrow> nat option" where
  "cpkt_audio_ms_to_16k_frames ms = (if ms > size_max div 16 then None else Some (ms * 16))"

definition cpkt_audio_16k_frame_to_10ms_floor :: "nat \<Rightarrow> nat" where
  "cpkt_audio_16k_frame_to_10ms_floor frame =
     (let value = frame div 160 in if value > long_max then long_max else value)"

definition cpkt_audio_16k_frame_to_10ms_ceil :: "nat \<Rightarrow> nat" where
  "cpkt_audio_16k_frame_to_10ms_ceil frame =
     (let value = frame div 160;
          value = (if frame mod 160 \<noteq> 0 \<and> value < long_max then sz (value + 1) else value)
      in if value > long_max then long_max else value)"

definition cpkt_audio_saturating_size_add :: "nat \<Rightarrow> nat \<Rightarrow> nat" where
  "cpkt_audio_saturating_size_add left right =
     (if left > size_max - right then size_max else sz (left + right))"

definition cpkt_audio_size_add :: "nat \<Rightarrow> nat \<Rightarrow> nat option" where
  "cpkt_audio_size_add left right = (if left > size_max - right then None else Some (sz (left + right)))"

lemma saturating_add_id [sz_simps]:
  "a + b \<le> size_max \<Longrightarrow> cpkt_audio_saturating_size_add a b = a + b"
  by (auto simp: cpkt_audio_saturating_size_add_def sz_simps)

lemma size_add_Some [sz_simps]: "a + b \<le> size_max \<Longrightarrow> cpkt_audio_size_add a b = Some (a + b)"
  by (auto simp: cpkt_audio_size_add_def sz_simps)

lemma size_add_cases:
  assumes "b \<le> size_max"
  shows "cpkt_audio_size_add a b = (if a + b \<le> size_max then Some (a + b) else None)"
  using assms by (auto simp: cpkt_audio_size_add_def sz_simps)

lemma floor_10ms [sz_simps]: "f \<le> size_max \<Longrightarrow> cpkt_audio_16k_frame_to_10ms_floor f = f div 160"
  by (simp add: cpkt_audio_16k_frame_to_10ms_floor_def Let_def c_limits)

lemma div_ceil_160: "(f + 159) div 160 = (if f mod 160 \<noteq> 0 then f div 160 + 1 else f div (160::nat))"
proof -
  define q r where "q = f div 160" and "r = f mod 160"
  have f: "f = r + 160 * q" and "r < 160"
    by (simp_all add: q_def r_def)
  then have "(f + 159) div 160 = (r + 159) div 160 + q"
    using div_mult_self2 [of 160 "r + 159" q] by (simp add: ac_simps)
  moreover have "(r + 159) div 160 = (if r \<noteq> 0 then 1 else 0)"
  proof (cases r)
    case (Suc m)
    with \<open>r < 160\<close> show ?thesis
      by (simp add: div_add_self2)
  qed simp
  ultimately show ?thesis
    by (simp add: q_def r_def)
qed

lemma ceil_10ms [sz_simps]: "f \<le> size_max \<Longrightarrow> cpkt_audio_16k_frame_to_10ms_ceil f = (f + 159) div 160"
proof -
  assume f: "f \<le> size_max"
  then have small: "f div 160 < long_max"
    by (simp add: c_limits)
  then have "sz (f div 160 + 1) = f div 160 + 1"
    by (simp add: sz_simps c_limits)
  moreover have "(f + 159) div 160 = (if f mod 160 \<noteq> 0 then f div 160 + 1 else f div 160)"
    by (rule div_ceil_160)
  ultimately show ?thesis
    using small by (simp add: cpkt_audio_16k_frame_to_10ms_ceil_def Let_def)
qed

end
