(* ===== verification/Audio_Spool.thy ===== *)
theory Audio_Spool
  imports Audio_Sample
begin

text \<open>
  Segment storage of the VOX and PTT segmenters (\<^verbatim>\<open>struct cpkt_audio_vox_impl\<close> and the storage
  functions of \<^verbatim>\<open>src/audio.c\<close>): the in-memory frame array, the anonymous spool file a segment
  spills to, the prebuffer ring, and the pull reader of an emitted segment.

  The record \<open>vox_impl\<close> is the C structure. The extension \<open>vox_sys\<close> adds what the structure
  meets at run time: the callbacks made so far (\<open>vx_trace\<close>) and the outcome of the \<open>n\<close>-th stdio
  call (\<open>vx_io\<close>: \<open>None\<close> is success, \<open>Some k\<close> stops after \<open>k\<close> items), with \<open>vx_tick\<close> counting those
  calls. A segment sink is an interactive program: it returns a code, or asks the segment reader
  for up to \<open>n\<close> frames and continues with what it got.

  Interfaces: the locale \<open>frame_store\<close> (append to a bounded store), \<open>segment_source\<close> (pull frames
  until the end) and \<open>frame_ring\<close> (bounded history), each interpreted here on the definitions
  below.
\<close>

section \<open>Data\<close>

record cfile =
  f_data :: "f32 list"
  f_pos :: nat

datatype cpkt_audio_vox_state = CPKT_AUDIO_VOX_TX_ON | CPKT_AUDIO_VOX_TX_OFF | CPKT_AUDIO_VOX_HARD_CUT

record cpkt_audio_vox_state_event =
  ev_state :: cpkt_audio_vox_state
  ev_segment_index :: nat
  ev_threshold :: f32

record cpkt_audio_vox_segment =
  sg_frame_count :: nat
  sg_t0 :: nat
  sg_t1 :: nat
  sg_segment_index :: nat
  sg_hard_cut :: bool
  sg_is_final :: bool

datatype sink_prog =
    SinkReturn int
  | SinkRead nat "cpkt_audio_result \<Rightarrow> f32 list \<Rightarrow> sink_prog"

type_synonym read_log = "(cpkt_audio_result \<times> f32 list) list"

datatype vox_obs =
    ObsState cpkt_audio_vox_state_event int
  | ObsSegment cpkt_audio_vox_segment read_log int

type_synonym segment_sink = "vox_obs list \<Rightarrow> cpkt_audio_vox_segment \<Rightarrow> sink_prog"
type_synonym state_sink = "vox_obs list \<Rightarrow> cpkt_audio_vox_state_event \<Rightarrow> int"

record vox_impl =
  vx_segment_sink :: segment_sink
  vx_state_sink :: "state_sink option"
  vx_frames :: "f32 list"
  vx_prebuffer_frames :: "f32 list"
  vx_frame_capacity :: nat
  vx_prebuffer_capacity :: nat
  vx_memory_frame_count :: nat
  vx_total_frame_count :: nat
  vx_speech_frame_count :: nat
  vx_read_cursor :: nat
  vx_prebuffer_count :: nat
  vx_prebuffer_cursor :: nat
  vx_source_frame_cursor :: nat
  vx_segment_start_frame :: nat
  vx_spool_file :: "cfile option"
  vx_release_silence_frames :: nat
  vx_max_segment_frames :: nat
  vx_min_segment_frames :: nat
  vx_max_spool_frames :: nat
  vx_silence_frames :: nat
  vx_segment_index :: nat
  vx_threshold :: f32
  vx_open :: bool
  vx_ptt_pressed :: bool
  vx_callback_error :: bool

record vox_sys = vox_impl +
  vx_trace :: "vox_obs list"
  vx_io :: "nat \<Rightarrow> nat option"
  vx_tick :: nat

section \<open>Standard I/O on the spool file\<close>

text \<open>One stdio call: its outcome, and the state with the call counted.\<close>

definition vox_stdio :: "vox_sys \<Rightarrow> nat option \<times> vox_sys" where
  "vox_stdio s = (vx_io s (vx_tick s), s\<lparr>vx_tick := Suc (vx_tick s)\<rparr>)"

definition io_count :: "nat option \<Rightarrow> nat \<Rightarrow> nat" where
  "io_count oc n = (case oc of None \<Rightarrow> n | Some k \<Rightarrow> min k n)"

definition file_write :: "f32 list \<Rightarrow> cfile \<Rightarrow> cfile" where
  "file_write xs f =
     f\<lparr>f_data := take (f_pos f) (f_data f) @ xs @ drop (f_pos f + length xs) (f_data f),
       f_pos := f_pos f + length xs\<rparr>"

definition vox_fwrite :: "f32 list \<Rightarrow> vox_sys \<Rightarrow> nat \<times> vox_sys" where
  "vox_fwrite xs s =
     (let (oc, s) = vox_stdio s;
          n = io_count oc (length xs)
      in (n, s\<lparr>vx_spool_file := map_option (file_write (take n xs)) (vx_spool_file s)\<rparr>))"

text \<open>\<open>fread\<close> of up to \<open>n\<close> items: the items, and whether the stream error flag is set.\<close>

definition vox_fread :: "nat \<Rightarrow> vox_sys \<Rightarrow> f32 list \<times> bool \<times> vox_sys" where
  "vox_fread n s =
     (let (oc, s) = vox_stdio s in
      case vx_spool_file s of
        None \<Rightarrow> ([], True, s)
      | Some f \<Rightarrow>
          (let want = min n (length (f_data f) - f_pos f);
               got = min (io_count oc n) want
           in (take got (drop (f_pos f) (f_data f)), got < want,
               s\<lparr>vx_spool_file := Some (f\<lparr>f_pos := f_pos f + got\<rparr>)\<rparr>)))"

section \<open>Operations\<close>

definition cpkt_audio_vox_advance_source :: "nat \<Rightarrow> vox_sys \<Rightarrow> vox_sys" where
  "cpkt_audio_vox_advance_source frame_count s =
     s\<lparr>vx_source_frame_cursor :=
         cpkt_audio_saturating_size_add (vx_source_frame_cursor s) frame_count\<rparr>"

definition cpkt_audio_vox_reset_segment :: "vox_sys \<Rightarrow> vox_sys" where
  "cpkt_audio_vox_reset_segment s =
     s\<lparr>vx_spool_file := None,
       vx_memory_frame_count := 0,
       vx_total_frame_count := 0,
       vx_speech_frame_count := 0,
       vx_read_cursor := 0,
       vx_silence_frames := 0,
       vx_open := False\<rparr>"

definition cpkt_audio_vox_reset_prebuffer :: "vox_sys \<Rightarrow> vox_sys" where
  "cpkt_audio_vox_reset_prebuffer s = s\<lparr>vx_prebuffer_count := 0, vx_prebuffer_cursor := 0\<rparr>"

definition cpkt_audio_vox_spill_to_file :: "vox_sys \<Rightarrow> cpkt_audio_result \<times> vox_sys" where
  "cpkt_audio_vox_spill_to_file s =
     (if vx_spool_file s \<noteq> None then (CPKT_AUDIO_OK, s)
      else
        let (oc, s) = vox_stdio s in
        if oc \<noteq> None then (CPKT_AUDIO_ERR_IO, s\<lparr>vx_spool_file := None\<rparr>)
        else
          let s = s\<lparr>vx_spool_file := Some \<lparr>f_data = [], f_pos = 0\<rparr>\<rparr>;
              (ok, s) =
                (if vx_memory_frame_count s > 0
                 then (let (n, s) = vox_fwrite (take (vx_memory_frame_count s) (vx_frames s)) s
                       in (n = vx_memory_frame_count s, s))
                 else (True, s))
          in if \<not> ok then (CPKT_AUDIO_ERR_IO, s)
             else (CPKT_AUDIO_OK, s\<lparr>vx_memory_frame_count := 0\<rparr>))"

text \<open>
  The pull reader. The caller always passes the segment and a \<open>frames_read\<close> pointer; whether its
  frame buffer is NULL is the first argument. \<open>*frames_read\<close> is the length of the list returned.
\<close>

definition cpkt_audio_vox_segment_read_impl ::
  "bool \<Rightarrow> nat \<Rightarrow> vox_sys \<Rightarrow> cpkt_audio_result \<times> f32 list \<times> vox_sys" where
  "cpkt_audio_vox_segment_read_impl frames_null frame_capacity s =
     (if frames_null \<and> frame_capacity \<noteq> 0 then (CPKT_AUDIO_ERR_ARG, [], s)
      else if vx_read_cursor s \<ge> vx_total_frame_count s then (CPKT_AUDIO_AT_END, [], s)
      else
        let remaining = vx_total_frame_count s - vx_read_cursor s;
            to_read = (if frame_capacity < remaining then frame_capacity else remaining)
        in
        if to_read = 0 then (CPKT_AUDIO_OK, [], s)
        else
          let (xs, err, s) =
                (if vx_spool_file s \<noteq> None then vox_fread to_read s
                 else (take to_read (drop (vx_read_cursor s) (vx_frames s)), False, s))
          in
          if length xs \<noteq> to_read \<and> err then (CPKT_AUDIO_ERR_IO, [], s)
          else
            let s = s\<lparr>vx_read_cursor := vx_read_cursor s + length xs\<rparr>
            in (if vx_read_cursor s \<ge> vx_total_frame_count s then CPKT_AUDIO_AT_END else CPKT_AUDIO_OK,
                xs, s))"

text \<open>The sink runs against the reader; its reads are logged.\<close>

primrec run_sink :: "sink_prog \<Rightarrow> vox_sys \<Rightarrow> int \<times> read_log \<times> vox_sys" where
  "run_sink (SinkReturn rc) s = (rc, [], s)"
| "run_sink (SinkRead n k) s =
     (let (r, xs, s) = cpkt_audio_vox_segment_read_impl False n s;
          (rc, log, s) = run_sink (k r xs) s
      in (rc, (r, xs) # log, s))"

definition cpkt_audio_vox_append_frame :: "f32 \<Rightarrow> vox_sys \<Rightarrow> cpkt_audio_result \<times> vox_sys" where
  "cpkt_audio_vox_append_frame frame s =
     (if vx_total_frame_count s \<ge> vx_max_spool_frames s then (CPKT_AUDIO_AT_END, s)
      else
        let (r, s) =
              (if vx_spool_file s \<noteq> None then
                 (let (n, s) = vox_fwrite [frame] s
                  in (if n \<noteq> 1 then CPKT_AUDIO_ERR_IO else CPKT_AUDIO_OK, s))
               else if vx_memory_frame_count s < vx_frame_capacity s then
                 (CPKT_AUDIO_OK,
                  s\<lparr>vx_frames := (vx_frames s)[vx_memory_frame_count s := frame],
                    vx_memory_frame_count := vx_memory_frame_count s + 1\<rparr>)
               else
                 (let (r, s) = cpkt_audio_vox_spill_to_file s in
                  if r \<noteq> CPKT_AUDIO_OK then (r, s)
                  else (let (n, s) = vox_fwrite [frame] s
                        in (if n \<noteq> 1 then CPKT_AUDIO_ERR_IO else CPKT_AUDIO_OK, s))))
        in if r \<noteq> CPKT_AUDIO_OK then (r, s)
           else (CPKT_AUDIO_OK, s\<lparr>vx_total_frame_count := vx_total_frame_count s + 1\<rparr>))"

definition cpkt_audio_vox_prebuffer_frame :: "f32 \<Rightarrow> vox_sys \<Rightarrow> vox_sys" where
  "cpkt_audio_vox_prebuffer_frame frame s =
     (if vx_prebuffer_capacity s = 0 then s
      else if vx_prebuffer_count s < vx_prebuffer_capacity s then
        (let write_index = (vx_prebuffer_cursor s + vx_prebuffer_count s) mod vx_prebuffer_capacity s
         in s\<lparr>vx_prebuffer_count := vx_prebuffer_count s + 1,
              vx_prebuffer_frames := (vx_prebuffer_frames s)[write_index := frame]\<rparr>)
      else
        (let write_index = vx_prebuffer_cursor s
         in s\<lparr>vx_prebuffer_cursor := (vx_prebuffer_cursor s + 1) mod vx_prebuffer_capacity s,
              vx_prebuffer_frames := (vx_prebuffer_frames s)[write_index := frame]\<rparr>))"

text \<open>The loop of \<open>cpkt_audio_vox_append_prebuffer\<close> from index \<open>i\<close>, \<open>n\<close> frames to go.\<close>

primrec append_prebuffer_loop :: "nat \<Rightarrow> nat \<Rightarrow> vox_sys \<Rightarrow> cpkt_audio_result \<times> vox_sys" where
  "append_prebuffer_loop 0 i s = (CPKT_AUDIO_OK, s)"
| "append_prebuffer_loop (Suc n) i s =
     (let index = (vx_prebuffer_cursor s + i) mod vx_prebuffer_capacity s;
          (r, s) = cpkt_audio_vox_append_frame (vx_prebuffer_frames s ! index) s
      in if r \<noteq> CPKT_AUDIO_OK then (r, s) else append_prebuffer_loop n (Suc i) s)"

definition cpkt_audio_vox_append_prebuffer :: "vox_sys \<Rightarrow> cpkt_audio_result \<times> vox_sys" where
  "cpkt_audio_vox_append_prebuffer s =
     (let (r, s) = append_prebuffer_loop (vx_prebuffer_count s) 0 s
      in if r \<noteq> CPKT_AUDIO_OK then (r, s) else (CPKT_AUDIO_OK, cpkt_audio_vox_reset_prebuffer s))"

section \<open>What the operations leave alone\<close>

text \<open>The state without the fields an append writes, and without those a read writes.\<close>

definition store_frame :: "vox_sys \<Rightarrow> vox_sys" where
  "store_frame s = s\<lparr>vx_frames := [], vx_memory_frame_count := 0, vx_total_frame_count := 0,
     vx_spool_file := None, vx_tick := 0\<rparr>"

definition read_frame :: "vox_sys \<Rightarrow> vox_sys" where
  "read_frame s = s\<lparr>vx_read_cursor := 0, vx_spool_file := None, vx_tick := 0\<rparr>"

lemma append_store_frame:
  "cpkt_audio_vox_append_frame x s = (r, s') \<Longrightarrow> store_frame s' = store_frame s"
  by (auto simp: store_frame_def cpkt_audio_vox_append_frame_def cpkt_audio_vox_spill_to_file_def
      vox_fwrite_def vox_stdio_def Let_def split: if_splits prod.splits)

lemma fread_read_frame: "vox_fread n s = (xs, e, s') \<Longrightarrow> read_frame s' = read_frame s"
  by (auto simp: read_frame_def vox_fread_def vox_stdio_def Let_def split: option.splits)

lemma segment_read_frame:
  "cpkt_audio_vox_segment_read_impl b n s = (r, xs, s') \<Longrightarrow> read_frame s' = read_frame s"
  by (auto simp: cpkt_audio_vox_segment_read_impl_def Let_def read_frame_def
      dest!: fread_read_frame split: if_splits prod.splits)

lemma store_frame_fields:
  assumes "store_frame s' = store_frame s"
  shows "vx_segment_sink s' = vx_segment_sink s" "vx_state_sink s' = vx_state_sink s"
    "vx_prebuffer_frames s' = vx_prebuffer_frames s" "vx_frame_capacity s' = vx_frame_capacity s"
    "vx_prebuffer_capacity s' = vx_prebuffer_capacity s"
    "vx_speech_frame_count s' = vx_speech_frame_count s" "vx_read_cursor s' = vx_read_cursor s"
    "vx_prebuffer_count s' = vx_prebuffer_count s" "vx_prebuffer_cursor s' = vx_prebuffer_cursor s"
    "vx_source_frame_cursor s' = vx_source_frame_cursor s"
    "vx_segment_start_frame s' = vx_segment_start_frame s"
    "vx_release_silence_frames s' = vx_release_silence_frames s"
    "vx_max_segment_frames s' = vx_max_segment_frames s"
    "vx_min_segment_frames s' = vx_min_segment_frames s"
    "vx_max_spool_frames s' = vx_max_spool_frames s" "vx_silence_frames s' = vx_silence_frames s"
    "vx_segment_index s' = vx_segment_index s" "vx_threshold s' = vx_threshold s"
    "vx_open s' = vx_open s" "vx_ptt_pressed s' = vx_ptt_pressed s"
    "vx_callback_error s' = vx_callback_error s" "vx_trace s' = vx_trace s" "vx_io s' = vx_io s"
  using assms by (cases s; cases s'; simp add: store_frame_def)+

lemma read_frame_fields:
  assumes "read_frame s' = read_frame s"
  shows "store_frame s' = store_frame (s\<lparr>vx_read_cursor := vx_read_cursor s'\<rparr>)"
    "vx_frames s' = vx_frames s" "vx_memory_frame_count s' = vx_memory_frame_count s"
    "vx_total_frame_count s' = vx_total_frame_count s"
  using assms by (cases s; cases s'; simp add: store_frame_def read_frame_def)+

section \<open>The store: frames appended so far\<close>

definition stored :: "vox_sys \<Rightarrow> f32 list" where
  "stored s = (case vx_spool_file s of
     None \<Rightarrow> take (vx_memory_frame_count s) (vx_frames s) | Some f \<Rightarrow> f_data f)"

definition store_inv :: "vox_sys \<Rightarrow> bool" where
  "store_inv s \<longleftrightarrow>
     length (vx_frames s) = vx_frame_capacity s \<and>
     vx_memory_frame_count s \<le> vx_frame_capacity s \<and>
     vx_total_frame_count s = length (stored s) \<and>
     vx_total_frame_count s \<le> vx_max_spool_frames s \<and>
     (\<forall>f. vx_spool_file s = Some f \<longrightarrow> vx_memory_frame_count s = 0 \<and> f_pos f = length (f_data f))"

lemma io_count_le: "io_count oc n \<le> n"
  by (simp add: io_count_def split: option.splits)

lemma fwrite_stored:
  assumes "vox_fwrite xs s = (n, s')" "vx_spool_file s = Some f" "f_pos f = length (f_data f)"
    "n = length xs"
  shows "\<exists>f'. vx_spool_file s' = Some f' \<and> f_data f' = f_data f @ xs \<and> f_pos f' = length (f_data f')"
  using assms by (auto simp: vox_fwrite_def vox_stdio_def file_write_def Let_def)

lemma fwrite_frame:
  assumes "vox_fwrite xs s = (n, s')"
  shows "\<exists>sp. s' = s\<lparr>vx_spool_file := sp, vx_tick := Suc (vx_tick s)\<rparr>"
proof
  show "s' = s\<lparr>vx_spool_file := vx_spool_file s', vx_tick := Suc (vx_tick s)\<rparr>"
    using assms by (auto simp: vox_fwrite_def vox_stdio_def Let_def)
qed

lemma spill_stored:
  assumes "cpkt_audio_vox_spill_to_file s = (CPKT_AUDIO_OK, s')" "store_inv s" "vx_spool_file s = None"
  shows "\<exists>f. vx_spool_file s' = Some f \<and> f_data f = stored s \<and> f_pos f = length (f_data f) \<and>
    vx_memory_frame_count s' = 0"
  using assms
  by (auto simp: cpkt_audio_vox_spill_to_file_def Let_def vox_fwrite_def vox_stdio_def file_write_def
      stored_def store_inv_def split: if_splits prod.splits)


lemma append_frame_full:
  assumes "vx_max_spool_frames s \<le> vx_total_frame_count s"
  shows "cpkt_audio_vox_append_frame x s = (CPKT_AUDIO_AT_END, s)"
  using assms by (simp add: cpkt_audio_vox_append_frame_def)

lemma spill_result: "fst (cpkt_audio_vox_spill_to_file s) \<in> {CPKT_AUDIO_OK, CPKT_AUDIO_ERR_IO}"
  by (auto simp: cpkt_audio_vox_spill_to_file_def Let_def split: prod.splits)

lemma append_frame_room:
  assumes "vx_total_frame_count s < vx_max_spool_frames s"
  shows "fst (cpkt_audio_vox_append_frame x s) \<in> {CPKT_AUDIO_OK, CPKT_AUDIO_ERR_IO}"
proof (cases "cpkt_audio_vox_spill_to_file s")
  case (Pair r t)
  then have "r \<in> {CPKT_AUDIO_OK, CPKT_AUDIO_ERR_IO}"
    using spill_result [of s] by simp
  with Pair assms show ?thesis
    by (auto simp: cpkt_audio_vox_append_frame_def Let_def split: prod.splits)
qed

lemma append_frame_total:
  assumes "cpkt_audio_vox_append_frame x s = (CPKT_AUDIO_OK, s')"
  shows "vx_total_frame_count s' = Suc (vx_total_frame_count s)"
    "vx_total_frame_count s < vx_max_spool_frames s"
  using assms
  by (auto simp: cpkt_audio_vox_append_frame_def cpkt_audio_vox_spill_to_file_def Let_def vox_fwrite_def
      vox_stdio_def split: if_splits prod.splits)

lemma append_frame_file:
  assumes "cpkt_audio_vox_append_frame x s = (CPKT_AUDIO_OK, s')" "store_inv s" "vx_spool_file s = Some f"
  shows "stored s' = stored s @ [x] \<and> store_inv s'"
proof -
  obtain n t where w: "vox_fwrite [x] s = (n, t)" by force
  with assms have n: "n = 1" and s': "s' = t\<lparr>vx_total_frame_count := vx_total_frame_count t + 1\<rparr>"
    by (auto simp: cpkt_audio_vox_append_frame_def Let_def split: if_splits)
  obtain f' where f': "vx_spool_file t = Some f'" "f_data f' = f_data f @ [x]" "f_pos f' = length (f_data f')"
    using fwrite_stored [OF w assms(3)] assms(2,3) n by (auto simp: store_inv_def)
  have t: "t = s\<lparr>vx_spool_file := Some f', vx_tick := Suc (vx_tick s)\<rparr>"
    using fwrite_frame [OF w] f'(1) by auto
  show ?thesis
    using assms(2,3) f' append_frame_total [OF assms(1)] unfolding s' t
    by (auto simp: store_inv_def stored_def)
qed

lemma append_frame_memory:
  assumes "store_inv s" "vx_spool_file s = None" "vx_memory_frame_count s < vx_frame_capacity s"
    "cpkt_audio_vox_append_frame x s = (CPKT_AUDIO_OK, s')"
  shows "stored s' = stored s @ [x] \<and> store_inv s'"
  using assms append_frame_total [OF assms(4)]
  by (auto simp: cpkt_audio_vox_append_frame_def Let_def store_inv_def stored_def take_Suc_snoc
      split: if_splits)

lemma spill_frame:
  assumes "cpkt_audio_vox_spill_to_file s = (r, s')"
  shows "\<exists>sp m k. s' = s\<lparr>vx_spool_file := sp, vx_memory_frame_count := m, vx_tick := k\<rparr>"
proof (intro exI)
  show "s' = s\<lparr>vx_spool_file := vx_spool_file s', vx_memory_frame_count := vx_memory_frame_count s',
      vx_tick := vx_tick s'\<rparr>"
    using assms
    by (auto simp: cpkt_audio_vox_spill_to_file_def Let_def vox_fwrite_def vox_stdio_def
        split: if_splits prod.splits)
qed

lemma append_frame_spill:
  assumes "store_inv s" "vx_spool_file s = None" "\<not> vx_memory_frame_count s < vx_frame_capacity s"
    "cpkt_audio_vox_append_frame x s = (CPKT_AUDIO_OK, s')"
  shows "stored s' = stored s @ [x] \<and> store_inv s'"
proof -
  obtain r t where sp: "cpkt_audio_vox_spill_to_file s = (r, t)" by force
  with assms have r: "r = CPKT_AUDIO_OK"
    by (auto simp: cpkt_audio_vox_append_frame_def Let_def split: if_splits)
  obtain f where f: "vx_spool_file t = Some f" "f_data f = stored s" "f_pos f = length (f_data f)"
      "vx_memory_frame_count t = 0"
    using spill_stored [OF _ assms(1,2)] sp r by auto
  obtain k where t: "t = s\<lparr>vx_spool_file := Some f, vx_memory_frame_count := 0, vx_tick := k\<rparr>"
    using spill_frame [OF sp] f by auto
  have inv_t: "store_inv t" and stored_t: "stored t = stored s"
    using assms(1) f by (simp_all add: t store_inv_def stored_def)
  have "cpkt_audio_vox_append_frame x t = (CPKT_AUDIO_OK, s')"
    using assms(2-4) sp r f(1) t
    by (simp add: cpkt_audio_vox_append_frame_def Let_def split: if_splits)
  from append_frame_file [OF this inv_t f(1)] stored_t show ?thesis
    by simp
qed

lemma append_frame_ok:
  assumes "store_inv s" "cpkt_audio_vox_append_frame x s = (CPKT_AUDIO_OK, s')"
  shows "stored s' = stored s @ [x]" "store_inv s'"
  using append_frame_file [OF assms(2,1)] append_frame_memory [OF assms(1) _ _ assms(2)]
    append_frame_spill [OF assms(1) _ _ assms(2)]
  by (cases "vx_spool_file s"; blast)+

section \<open>Interfaces\<close>

text \<open>A bounded store that a client appends to, frame by frame.\<close>

locale frame_store =
  fixes append :: "'a \<Rightarrow> 's \<Rightarrow> cpkt_audio_result \<times> 's"
    and contents :: "'s \<Rightarrow> 'a list"
    and invar :: "'s \<Rightarrow> bool"
    and limit :: "'s \<Rightarrow> nat"
  assumes append_ok: "invar s \<Longrightarrow> append x s = (CPKT_AUDIO_OK, s') \<Longrightarrow>
      contents s' = contents s @ [x] \<and> invar s' \<and> limit s' = limit s"
    and append_full: "invar s \<Longrightarrow> limit s \<le> length (contents s) \<Longrightarrow>
      append x s = (CPKT_AUDIO_AT_END, s)"
    and append_room: "invar s \<Longrightarrow> length (contents s) < limit s \<Longrightarrow>
      fst (append x s) \<noteq> CPKT_AUDIO_AT_END"
    and bounded: "invar s \<Longrightarrow> length (contents s) \<le> limit s"
begin

primrec append_all :: "'a list \<Rightarrow> 's \<Rightarrow> cpkt_audio_result \<times> 's" where
  "append_all [] s = (CPKT_AUDIO_OK, s)"
| "append_all (x # xs) s =
     (case append x s of (r, s) \<Rightarrow> if r = CPKT_AUDIO_OK then append_all xs s else (r, s))"

lemma append_all_ok:
  "invar s \<Longrightarrow> append_all xs s = (CPKT_AUDIO_OK, s') \<Longrightarrow>
    contents s' = contents s @ xs \<and> invar s' \<and> limit s' = limit s"
proof (induction xs arbitrary: s)
  case (Cons x xs)
  then obtain t where t: "append x s = (CPKT_AUDIO_OK, t)" "append_all xs t = (CPKT_AUDIO_OK, s')"
    by (auto split: prod.splits if_splits)
  with append_ok [OF Cons.prems(1) t(1)] Cons.IH [of t] show ?case
    by simp
qed simp

lemma append_all_room:
  "invar s \<Longrightarrow> length (contents s) + length xs \<le> limit s \<Longrightarrow>
    fst (append_all xs s) \<noteq> CPKT_AUDIO_AT_END"
proof (induction xs arbitrary: s)
  case (Cons x xs)
  obtain r t where t: "append x s = (r, t)" by force
  then have "r \<noteq> CPKT_AUDIO_AT_END"
    using append_room [of s x] Cons.prems by simp
  moreover have "fst (append_all xs t) \<noteq> CPKT_AUDIO_AT_END" if "r = CPKT_AUDIO_OK"
    using append_ok [of s x t] Cons.prems Cons.IH [of t] t that by simp
  ultimately show ?case
    using t by simp
qed simp

lemma append_all_overflow:
  assumes "invar s" "limit s < length (contents s) + length xs"
  shows "fst (append_all xs s) \<noteq> CPKT_AUDIO_OK"
proof
  assume "fst (append_all xs s) = CPKT_AUDIO_OK"
  then obtain t where "append_all xs s = (CPKT_AUDIO_OK, t)"
    by (metis prod.collapse)
  with append_all_ok [OF assms(1) this] bounded [of t] assms(2) show False
    by simp
qed

end

text \<open>A source that delivers its remaining frames on demand and reports the end with the last ones.\<close>

locale segment_source =
  fixes read :: "nat \<Rightarrow> 's \<Rightarrow> cpkt_audio_result \<times> 'a list \<times> 's"
    and rest :: "'s \<Rightarrow> 'a list"
    and invar :: "'s \<Rightarrow> bool"
  assumes read_ok: "invar s \<Longrightarrow> read n s = (CPKT_AUDIO_OK, xs, s') \<Longrightarrow>
      rest s = xs @ rest s' \<and> invar s' \<and> length xs \<le> n \<and> rest s' \<noteq> [] \<and> (0 < n \<longrightarrow> xs \<noteq> [])"
    and read_end: "invar s \<Longrightarrow> read n s = (CPKT_AUDIO_AT_END, xs, s') \<Longrightarrow>
      rest s = xs \<and> rest s' = [] \<and> invar s' \<and> length xs \<le> n"
    and read_fail: "invar s \<Longrightarrow> read n s = (r, xs, s') \<Longrightarrow>
      r \<noteq> CPKT_AUDIO_OK \<Longrightarrow> r \<noteq> CPKT_AUDIO_AT_END \<Longrightarrow> r = CPKT_AUDIO_ERR_IO \<and> xs = []"
begin

lemma read_enough:
  assumes "invar s" "read n s = (r, xs, s')" "r \<noteq> CPKT_AUDIO_ERR_IO" "length (rest s) \<le> n"
    "0 < n"
  shows "r = CPKT_AUDIO_AT_END \<or> length xs < length (rest s)"
  using read_ok [of s n xs s'] read_end [of s n xs s'] read_fail [of s n r xs s'] assms
  by (cases r) auto

end

text \<open>A bounded history: the last \<open>cap\<close> items pushed.\<close>

locale frame_ring =
  fixes push :: "'a \<Rightarrow> 's \<Rightarrow> 's"
    and items :: "'s \<Rightarrow> 'a list"
    and invar :: "'s \<Rightarrow> bool"
    and cap :: "'s \<Rightarrow> nat"
  assumes push_items: "invar s \<Longrightarrow> items (push x s) = lastn (cap s) (items s @ [x])"
    and push_invar: "invar s \<Longrightarrow> invar (push x s)"
    and push_cap: "invar s \<Longrightarrow> cap (push x s) = cap s"
    and items_le: "invar s \<Longrightarrow> length (items s) \<le> cap s"
begin

lemma push_all:
  "invar s \<Longrightarrow>
    invar (fold push xs s) \<and> cap (fold push xs s) = cap s \<and>
    items (fold push xs s) = lastn (cap s) (items s @ xs)"
proof (induction xs arbitrary: s)
  case Nil
  then show ?case
    using items_le [of s] by (simp add: lastn_def)
next
  case (Cons x xs)
  then show ?case
    using push_invar [of s x] push_cap [of s x] push_items [of s x] Cons.IH [of "push x s"]
    by (simp add: lastn_append_lastn)
qed

end

section \<open>The interfaces hold for the code\<close>

interpretation vox_store: frame_store cpkt_audio_vox_append_frame stored store_inv vx_max_spool_frames
proof unfold_locales
  fix s x s'
  assume "store_inv s" "cpkt_audio_vox_append_frame x s = (CPKT_AUDIO_OK, s')"
  then show "stored s' = stored s @ [x] \<and> store_inv s' \<and> vx_max_spool_frames s' = vx_max_spool_frames s"
    using append_frame_ok append_store_frame store_frame_fields(15) by blast
next
  fix s x
  assume "store_inv s" "vx_max_spool_frames s \<le> length (stored s)"
  then show "cpkt_audio_vox_append_frame x s = (CPKT_AUDIO_AT_END, s)"
    by (simp add: append_frame_full store_inv_def)
next
  fix s x
  assume "store_inv s" "length (stored s) < vx_max_spool_frames s"
  then show "fst (cpkt_audio_vox_append_frame x s) \<noteq> CPKT_AUDIO_AT_END"
    using append_frame_room [of s x] by (auto simp: store_inv_def)
next
  fix s
  assume "store_inv s"
  then show "length (stored s) \<le> vx_max_spool_frames s"
    by (simp add: store_inv_def)
qed

subsection \<open>The prebuffer ring\<close>

definition prebuffered :: "vox_sys \<Rightarrow> f32 list" where
  "prebuffered s = ring_list (vx_prebuffer_frames s) (vx_prebuffer_capacity s)
     (vx_prebuffer_cursor s) (vx_prebuffer_count s)"

definition prebuffer_inv :: "vox_sys \<Rightarrow> bool" where
  "prebuffer_inv s \<longleftrightarrow>
     length (vx_prebuffer_frames s) = vx_prebuffer_capacity s \<and>
     vx_prebuffer_count s \<le> vx_prebuffer_capacity s \<and>
     (0 < vx_prebuffer_capacity s \<longrightarrow> vx_prebuffer_cursor s < vx_prebuffer_capacity s)"

lemma length_prebuffered [simp]: "length (prebuffered s) = vx_prebuffer_count s"
  by (simp add: prebuffered_def)

interpretation vox_ring: frame_ring cpkt_audio_vox_prebuffer_frame prebuffered prebuffer_inv vx_prebuffer_capacity
proof unfold_locales
  fix s x
  assume inv: "prebuffer_inv s"
  let ?cells = "vx_prebuffer_frames s" and ?cap = "vx_prebuffer_capacity s"
  let ?cur = "vx_prebuffer_cursor s" and ?n = "vx_prebuffer_count s"
  show "prebuffered (cpkt_audio_vox_prebuffer_frame x s) = lastn ?cap (prebuffered s @ [x])"
  proof (cases "?n < ?cap")
    case True
    then show ?thesis
      using ring_push_room [of ?cells ?cap ?n ?cur x] inv
      by (simp add: cpkt_audio_vox_prebuffer_frame_def Let_def prebuffered_def prebuffer_inv_def lastn_def)
  next
    case False
    show ?thesis
    proof (cases "?cap = 0")
      case True
      with inv show ?thesis
        by (simp add: cpkt_audio_vox_prebuffer_frame_def prebuffered_def prebuffer_inv_def)
    next
      case cap: False
      then have n: "?n = ?cap" and cur: "?cur < ?cap"
        using False inv by (auto simp: prebuffer_inv_def)
      have "lastn ?cap (prebuffered s @ [x]) = tl (prebuffered s) @ [x]"
        using lastn_shift [of ?cap "prebuffered s" x] cap n by (simp add: lastn_def)
      then show ?thesis
        using ring_push_full [of ?cells ?cap ?cur x] inv False cap n cur
        by (simp add: cpkt_audio_vox_prebuffer_frame_def Let_def prebuffered_def prebuffer_inv_def)
    qed
  qed
qed (auto simp: cpkt_audio_vox_prebuffer_frame_def prebuffer_inv_def Let_def)

subsection \<open>The segment reader\<close>

definition unread :: "vox_sys \<Rightarrow> f32 list" where
  "unread s = drop (vx_read_cursor s) (stored s)"

definition read_inv :: "vox_sys \<Rightarrow> bool" where
  "read_inv s \<longleftrightarrow>
     vx_total_frame_count s = length (stored s) \<and> vx_read_cursor s \<le> vx_total_frame_count s \<and>
     (\<forall>f. vx_spool_file s = Some f \<longrightarrow> f_pos f = vx_read_cursor s)"

lemma fread_cases:
  assumes "vox_fread n s = (xs, err, s')" "vx_spool_file s = Some f" "f_pos f + n \<le> length (f_data f)"
  shows "err \<and> length xs \<noteq> n \<or>
    xs = take n (drop (f_pos f) (f_data f)) \<and> length xs = n \<and>
    s' = s\<lparr>vx_spool_file := Some (f\<lparr>f_pos := f_pos f + n\<rparr>), vx_tick := Suc (vx_tick s)\<rparr>"
proof -
  define got where "got = min (io_count (vx_io s (vx_tick s)) n) n"
  have got: "got \<le> n" by (simp add: got_def)
  have xs: "xs = take got (drop (f_pos f) (f_data f))" and err: "err \<longleftrightarrow> got < n"
    and s': "s' = s\<lparr>vx_spool_file := Some (f\<lparr>f_pos := f_pos f + got\<rparr>), vx_tick := Suc (vx_tick s)\<rparr>"
    using assms by (auto simp: vox_fread_def vox_stdio_def Let_def got_def)
  have len: "length xs = got"
    using got assms(3) unfolding xs by simp
  show ?thesis
  proof (cases "got < n")
    case True
    with err len show ?thesis
      by simp
  next
    case False
    with got have "got = n" by simp
    with xs s' len show ?thesis
      by blast
  qed
qed

lemma segment_read_file:
  assumes inv: "read_inv s" and rd: "cpkt_audio_vox_segment_read_impl False n s = (r, xs, s')"
    and f: "vx_spool_file s = Some f" and n: "0 < n" and more: "vx_read_cursor s < vx_total_frame_count s"
  shows "r = CPKT_AUDIO_ERR_IO \<and> xs = [] \<or>
    r = (if unread s' = [] then CPKT_AUDIO_AT_END else CPKT_AUDIO_OK) \<and> xs = take n (unread s) \<and>
    unread s' = drop n (unread s) \<and> read_inv s'"
proof -
  define m where "m = min n (vx_total_frame_count s - vx_read_cursor s)"
  have pos: "f_pos f = vx_read_cursor s" and len: "vx_total_frame_count s = length (f_data f)"
    using inv f by (simp_all add: read_inv_def stored_def)
  have m: "0 < m" "f_pos f + m \<le> length (f_data f)" "take n (unread s) = take m (drop (f_pos f) (f_data f))"
      "drop n (unread s) = drop (f_pos f + m) (f_data f)"
    using n more f pos len by (auto simp: m_def unread_def stored_def min_def add.commute)
  obtain ys err t where fr: "vox_fread m s = (ys, err, t)" by (metis prod_cases3)
  have m_eq: "(if n < vx_total_frame_count s - vx_read_cursor s then n
      else vx_total_frame_count s - vx_read_cursor s) = m"
    by (auto simp: m_def)
  have rd': "(if length ys \<noteq> m \<and> err then (CPKT_AUDIO_ERR_IO, [], t)
      else (if vx_total_frame_count t \<le> vx_read_cursor t + length ys then CPKT_AUDIO_AT_END
            else CPKT_AUDIO_OK, ys, t\<lparr>vx_read_cursor := vx_read_cursor t + length ys\<rparr>)) = (r, xs, s')"
    using rd fr m_eq m(1) more f by (auto simp: cpkt_audio_vox_segment_read_impl_def Let_def split: if_splits)
  from fread_cases [OF fr f m(2)] show ?thesis
  proof
    assume "err \<and> length ys \<noteq> m"
    with rd' show ?thesis
      by simp
  next
    assume ok: "ys = take m (drop (f_pos f) (f_data f)) \<and> length ys = m \<and>
      t = s\<lparr>vx_spool_file := Some (f\<lparr>f_pos := f_pos f + m\<rparr>), vx_tick := Suc (vx_tick s)\<rparr>"
    then have ym: "length ys = m" and tt: "vx_read_cursor t = f_pos f" "vx_total_frame_count t = length (f_data f)"
      using pos len by auto
    have s': "s' = t\<lparr>vx_read_cursor := f_pos f + m\<rparr>" "xs = ys"
        "r = (if length (f_data f) \<le> f_pos f + m then CPKT_AUDIO_AT_END else CPKT_AUDIO_OK)"
      using rd' unfolding ym tt by simp_all
    show ?thesis
      unfolding m(3,4) s' using ok len m(2)
      by (simp add: unread_def stored_def read_inv_def)
  qed
qed

lemma segment_read_cases:
  assumes inv: "read_inv s" and rd: "cpkt_audio_vox_segment_read_impl False n s = (r, xs, s')"
  shows "r = CPKT_AUDIO_ERR_IO \<and> xs = [] \<or>
    r = (if unread s' = [] then CPKT_AUDIO_AT_END else CPKT_AUDIO_OK) \<and> xs = take n (unread s) \<and>
    unread s' = drop n (unread s) \<and> read_inv s'"
proof (cases "vx_spool_file s")
  case None
  show ?thesis
  proof (cases "n < vx_total_frame_count s - vx_read_cursor s")
    case True
    with None inv rd show ?thesis
      by (auto simp: cpkt_audio_vox_segment_read_impl_def Let_def read_inv_def unread_def stored_def
          take_drop min_def split: if_splits)
  next
    case False
    then have all: "take n (unread s) = unread s" "drop n (unread s) = []"
      using inv by (simp_all add: unread_def read_inv_def)
    show ?thesis
      unfolding all using None inv rd False
      by (auto simp: cpkt_audio_vox_segment_read_impl_def Let_def read_inv_def unread_def stored_def
          take_drop min_def split: if_splits)
  qed
next
  case (Some f)
  show ?thesis
  proof (cases "0 < n \<and> vx_read_cursor s < vx_total_frame_count s")
    case True
    with segment_read_file [OF inv rd Some] show ?thesis
      by blast
  next
    case False
    with inv rd show ?thesis
      by (auto simp: cpkt_audio_vox_segment_read_impl_def Let_def read_inv_def unread_def split: if_splits)
  qed
qed


interpretation vox_reader: segment_source "cpkt_audio_vox_segment_read_impl False" unread read_inv
proof unfold_locales
  fix n xs and s s' :: vox_sys
  assume inv: "read_inv s"
  {
    assume "cpkt_audio_vox_segment_read_impl False n s = (CPKT_AUDIO_OK, xs, s')"
    from segment_read_cases [OF inv this]
    show "unread s = xs @ unread s' \<and> read_inv s' \<and> length xs \<le> n \<and> unread s' \<noteq> [] \<and>
        (0 < n \<longrightarrow> xs \<noteq> [])"
      by (auto split: if_splits)
  next
    assume "cpkt_audio_vox_segment_read_impl False n s = (CPKT_AUDIO_AT_END, xs, s')"
    from segment_read_cases [OF inv this]
    show "unread s = xs \<and> unread s' = [] \<and> read_inv s' \<and> length xs \<le> n"
      by (auto split: if_splits)
  next
    fix r
    assume "cpkt_audio_vox_segment_read_impl False n s = (r, xs, s')"
      "r \<noteq> CPKT_AUDIO_OK" "r \<noteq> CPKT_AUDIO_AT_END"
    with segment_read_cases [OF inv this(1)] show "r = CPKT_AUDIO_ERR_IO \<and> xs = []"
      by (auto split: if_splits)
  }
qed

text \<open>
  What the sink saw: the frames its successful reads delivered before the first failure.
\<close>

definition read_good :: "cpkt_audio_result \<times> f32 list \<Rightarrow> bool" where
  "read_good e \<longleftrightarrow> fst e = CPKT_AUDIO_OK \<or> fst e = CPKT_AUDIO_AT_END"

definition log_frames :: "read_log \<Rightarrow> f32 list" where
  "log_frames log = concat (map snd (takeWhile read_good log))"

lemma run_sink_frame: "run_sink p s = (rc, log, s') \<Longrightarrow> read_frame s' = read_frame s"
proof (induction p arbitrary: s rc log)
  case (SinkRead n k)
  obtain r xs t where rd: "cpkt_audio_vox_segment_read_impl False n s = (r, xs, t)"
    by (metis prod_cases3)
  with SinkRead.prems obtain log' where "run_sink (k r xs) t = (rc, log', s')"
    by (auto split: prod.splits)
  with SinkRead.IH [of "k r" "k r xs" t] segment_read_frame [OF rd] show ?case
    by auto
qed simp

lemma run_sink_log:
  "read_inv s \<Longrightarrow> run_sink p s = (rc, log, s') \<Longrightarrow>
    prefix (log_frames log) (unread s) \<and>
    ((\<exists>xs. (CPKT_AUDIO_AT_END, xs) \<in> set (takeWhile read_good log)) \<longrightarrow> log_frames log = unread s)"
proof (induction p arbitrary: s rc log)
  case (SinkRead n k)
  obtain r xs t where rd: "cpkt_audio_vox_segment_read_impl False n s = (r, xs, t)"
    by (metis prod_cases3)
  obtain log' where log: "log = (r, xs) # log'" "run_sink (k r xs) t = (rc, log', s')"
    using SinkRead.prems(2) rd by (auto split: prod.splits)
  show ?case
  proof (cases "read_good (r, xs)")
    case True
    then have "r \<noteq> CPKT_AUDIO_ERR_IO"
      by (auto simp: read_good_def)
    with segment_read_cases [OF SinkRead.prems(1) rd]
    have step: "xs = take n (unread s)" "unread t = drop n (unread s)" "read_inv t"
        "r = CPKT_AUDIO_AT_END \<longrightarrow> unread t = []"
      by (auto split: if_splits)
    then have s: "unread s = xs @ unread t"
      by simp
    have frames: "log_frames log = xs @ log_frames log'"
      using True by (simp add: log log_frames_def)
    have "prefix (log_frames log') (unread t)"
        "(\<exists>ys. (CPKT_AUDIO_AT_END, ys) \<in> set (takeWhile read_good log')) \<longrightarrow> log_frames log' = unread t"
      using SinkRead.IH [of "k r" "k r xs" t rc log'] step(3) log(2) by auto
    with True step(4) show ?thesis
      unfolding frames s by (auto simp: log)
  next
    case False
    then show ?thesis
      by (simp add: log log_frames_def)
  qed
qed (simp_all add: log_frames_def)

section \<open>Properties of the storage\<close>

text \<open>A structure as \<open>calloc\<close> leaves it: the base of concrete states.\<close>

definition vox_blank :: vox_sys where
  "vox_blank = \<lparr>vx_segment_sink = (\<lambda>_ _. SinkReturn 0), vx_state_sink = None, vx_frames = [],
     vx_prebuffer_frames = [], vx_frame_capacity = 0, vx_prebuffer_capacity = 0,
     vx_memory_frame_count = 0, vx_total_frame_count = 0, vx_speech_frame_count = 0,
     vx_read_cursor = 0, vx_prebuffer_count = 0, vx_prebuffer_cursor = 0,
     vx_source_frame_cursor = 0, vx_segment_start_frame = 0, vx_spool_file = None,
     vx_release_silence_frames = 0, vx_max_segment_frames = 0, vx_min_segment_frames = 0,
     vx_max_spool_frames = 0, vx_silence_frames = 0, vx_segment_index = 0, vx_threshold = 0,
     vx_open = False, vx_ptt_pressed = False, vx_callback_error = False, vx_trace = [],
     vx_io = (\<lambda>_. None), vx_tick = 0\<rparr>"

text \<open>
  C27: The prebuffer ring keeps history: starting from a well-formed ring, prebuffering the frames
  \<open>xs\<close> one after another leaves exactly the last \<open>prebuffer_capacity\<close> frames of the earlier contents
  followed by \<open>xs\<close>, in order, whatever the position of the cursor.
\<close>

theorem prebuffer_keeps_last:
  assumes "prebuffer_inv s"
  shows "prebuffered (fold cpkt_audio_vox_prebuffer_frame xs s) =
      lastn (vx_prebuffer_capacity s) (prebuffered s @ xs) \<and>
    prebuffer_inv (fold cpkt_audio_vox_prebuffer_frame xs s)"
  using vox_ring.push_all [OF assms] by auto

theorem prebuffer_keeps_last_witness:
  "prebuffered (fold cpkt_audio_vox_prebuffer_frame [3, 4, 5]
      (vox_blank\<lparr>vx_prebuffer_capacity := 2, vx_prebuffer_frames := [0, 0]\<rparr>)) = [4, 5]"
proof -
  have "prebuffer_inv (vox_blank\<lparr>vx_prebuffer_capacity := 2, vx_prebuffer_frames := [0, 0]\<rparr>)"
    by (simp add: prebuffer_inv_def vox_blank_def)
  from prebuffer_keeps_last [OF this, of "[3, 4, 5]"] show ?thesis
    by (simp add: prebuffered_def vox_blank_def lastn_def)
qed

end
