(* ===== verification/Audio_Segment.thy ===== *)
theory Audio_Segment
  imports Audio_Spool
begin

text \<open>
  Emission of segments and state events (\<^verbatim>\<open>cpkt_audio_vox_emit\<close>, \<^verbatim>\<open>cpkt_audio_vox_emit_state\<close>,
  \<^verbatim>\<open>cpkt_audio_vox_note_loudness\<close>), shared by the VOX and the PTT segmenter.

  The specification of a segmenter is the predicate \<open>seg_chain\<close>: against the history \<open>H\<close> of source
  frames, the segments of a callback trace are slices of \<open>H\<close> in order and without overlap, with the
  index, the 10 ms bounds and the length the structure announces, and what the sink reads of a
  segment is a prefix of its slice. The lemmas show that one emission extends such a chain.
\<close>

section \<open>Operations\<close>

definition cpkt_audio_vox_note_loudness :: "bool \<Rightarrow> vox_sys \<Rightarrow> vox_sys" where
  "cpkt_audio_vox_note_loudness loud s =
     (if loud then s\<lparr>vx_speech_frame_count := sz (vx_speech_frame_count s + 1), vx_silence_frames := 0\<rparr>
      else if vx_silence_frames s < size_max
      then s\<lparr>vx_silence_frames := vx_silence_frames s + 1\<rparr>
      else s)"

definition cpkt_audio_vox_emit_state ::
  "cpkt_audio_vox_state \<Rightarrow> vox_sys \<Rightarrow> cpkt_audio_result \<times> vox_sys" where
  "cpkt_audio_vox_emit_state state s =
     (case vx_state_sink s of
        None \<Rightarrow> (CPKT_AUDIO_OK, s)
      | Some sink \<Rightarrow>
          (let event = \<lparr>ev_state = state, ev_segment_index = vx_segment_index s,
                        ev_threshold = vx_threshold s\<rparr>;
               callback_result = sink (vx_trace s) event;
               s = s\<lparr>vx_trace := vx_trace s @ [ObsState event callback_result]\<rparr>
           in if callback_result \<noteq> 0 then (CPKT_AUDIO_ERR_IO, s\<lparr>vx_callback_error := True\<rparr>)
              else (CPKT_AUDIO_OK, s)))"

text \<open>\<open>fflush\<close> and \<open>fseek\<close> to the start of the spool file, where there is one.\<close>

definition vox_rewind :: "vox_sys \<Rightarrow> bool \<times> vox_sys" where
  "vox_rewind s =
     (case vx_spool_file s of
        None \<Rightarrow> (True, s)
      | Some f \<Rightarrow>
          (let (oc, s) = vox_stdio s in
           if oc \<noteq> None then (False, s)
           else
             let (oc, s) = vox_stdio s in
             if oc \<noteq> None then (False, s)
             else (True, s\<lparr>vx_spool_file := Some (f\<lparr>f_pos := 0\<rparr>)\<rparr>)))"

definition vox_segment_of :: "bool \<Rightarrow> bool \<Rightarrow> vox_sys \<Rightarrow> cpkt_audio_vox_segment" where
  "vox_segment_of hard_cut is_final s =
     \<lparr>sg_frame_count = vx_total_frame_count s,
      sg_t0 = cpkt_audio_16k_frame_to_10ms_floor (vx_segment_start_frame s),
      sg_t1 = cpkt_audio_16k_frame_to_10ms_ceil
        (cpkt_audio_saturating_size_add (vx_segment_start_frame s) (vx_total_frame_count s)),
      sg_segment_index = vx_segment_index s,
      sg_hard_cut = hard_cut,
      sg_is_final = is_final\<rparr>"

definition cpkt_audio_vox_emit :: "bool \<Rightarrow> bool \<Rightarrow> vox_sys \<Rightarrow> cpkt_audio_result \<times> vox_sys" where
  "cpkt_audio_vox_emit hard_cut is_final s =
     (if is_final \<and> vx_speech_frame_count s < vx_min_segment_frames s
      then (CPKT_AUDIO_OK, cpkt_audio_vox_reset_segment s)
      else if vx_total_frame_count s < vx_min_segment_frames s
      then (CPKT_AUDIO_OK, cpkt_audio_vox_reset_segment s)
      else
        let (ok, s) = vox_rewind s in
        if \<not> ok then (CPKT_AUDIO_ERR_IO, s)
        else
          let s = s\<lparr>vx_read_cursor := 0\<rparr>;
              segment = vox_segment_of hard_cut is_final s;
              (callback_result, log, s) = run_sink (vx_segment_sink s (vx_trace s) segment) s;
              s = s\<lparr>vx_trace := vx_trace s @ [ObsSegment segment log callback_result]\<rparr>
          in
          if callback_result \<noteq> 0 then (CPKT_AUDIO_ERR_IO, s\<lparr>vx_callback_error := True\<rparr>)
          else (CPKT_AUDIO_OK,
                cpkt_audio_vox_reset_segment (s\<lparr>vx_segment_index := sz (vx_segment_index s + 1)\<rparr>)))"

text \<open>A state event followed by the segment, as the segmenters close a segment.\<close>

definition vox_close_segment ::
  "cpkt_audio_vox_state \<Rightarrow> bool \<Rightarrow> bool \<Rightarrow> vox_sys \<Rightarrow> cpkt_audio_result \<times> vox_sys" where
  "vox_close_segment state hard_cut is_final s =
     (let (r, s) = cpkt_audio_vox_emit_state state s in
      if r \<noteq> CPKT_AUDIO_OK then (r, s) else cpkt_audio_vox_emit hard_cut is_final s)"

section \<open>Specification: chains of segments\<close>

definition seg_spans :: "f32 list \<Rightarrow> cpkt_audio_vox_segment \<Rightarrow> read_log \<Rightarrow> nat \<Rightarrow> nat \<Rightarrow> nat \<Rightarrow> bool" where
  "seg_spans H seg log k a n \<longleftrightarrow>
     sg_frame_count seg = n \<and> sg_segment_index seg = sz k \<and>
     sg_t0 seg = a div 160 \<and> sg_t1 seg = (a + n + 159) div 160 \<and>
     prefix (log_frames log) (slice H a n) \<and>
     ((\<exists>xs. (CPKT_AUDIO_AT_END, xs) \<in> set (takeWhile read_good log)) \<longrightarrow> log_frames log = slice H a n)"

inductive seg_chain :: "nat \<Rightarrow> nat \<Rightarrow> f32 list \<Rightarrow> vox_obs list \<Rightarrow> nat \<Rightarrow> nat \<Rightarrow> bool"
  for lo hi H where
  chain_nil: "seg_chain lo hi H [] 0 0"
| chain_state: "seg_chain lo hi H tr k e \<Longrightarrow> ev_segment_index ev = sz k \<Longrightarrow>
    seg_chain lo hi H (tr @ [ObsState ev rc]) k e"
| chain_seg: "seg_chain lo hi H tr k e \<Longrightarrow> e \<le> a \<Longrightarrow> a + n \<le> length H \<Longrightarrow> lo \<le> n \<Longrightarrow> n \<le> hi \<Longrightarrow>
    seg_spans H seg log k a n \<Longrightarrow> seg_chain lo hi H (tr @ [ObsSegment seg log rc]) (Suc k) (a + n)"

lemma seg_chain_mono: "seg_chain lo hi H tr k e \<Longrightarrow> seg_chain lo hi (H @ ys) tr k e"
proof (induction rule: seg_chain.induct)
  case (chain_seg tr k e a n seg log rc)
  then have "slice (H @ ys) a n = slice H a n"
    by (simp add: slice_simps)
  with chain_seg show ?case
    by (intro seg_chain.chain_seg) (auto simp: seg_spans_def)
qed (auto intro: seg_chain.intros)

lemma seg_chain_end: "seg_chain lo hi H tr k e \<Longrightarrow> e \<le> length H"
  by (induction rule: seg_chain.induct) auto

definition vox_traced :: "nat \<Rightarrow> nat \<Rightarrow> f32 list \<Rightarrow> vox_sys \<Rightarrow> bool" where
  "vox_traced lo hi H s \<longleftrightarrow> (\<exists>k e. seg_chain lo hi H (vx_trace s) k e)"

lemma vox_traced_mono: "vox_traced lo hi H s \<Longrightarrow> vox_traced lo hi (H @ ys) s"
  by (auto simp: vox_traced_def intro: seg_chain_mono)

section \<open>What an emission leaves alone\<close>

definition emit_frame :: "vox_sys \<Rightarrow> vox_sys" where
  "emit_frame s = s\<lparr>vx_spool_file := None, vx_memory_frame_count := 0, vx_total_frame_count := 0,
     vx_speech_frame_count := 0, vx_read_cursor := 0, vx_silence_frames := 0, vx_open := False,
     vx_segment_index := 0, vx_callback_error := False, vx_trace := [], vx_tick := 0\<rparr>"

lemma emit_frame_fields:
  assumes "emit_frame s' = emit_frame s"
  shows "vx_segment_sink s' = vx_segment_sink s" "vx_state_sink s' = vx_state_sink s"
    "vx_frames s' = vx_frames s" "vx_prebuffer_frames s' = vx_prebuffer_frames s"
    "vx_frame_capacity s' = vx_frame_capacity s" "vx_prebuffer_capacity s' = vx_prebuffer_capacity s"
    "vx_prebuffer_count s' = vx_prebuffer_count s" "vx_prebuffer_cursor s' = vx_prebuffer_cursor s"
    "vx_source_frame_cursor s' = vx_source_frame_cursor s"
    "vx_segment_start_frame s' = vx_segment_start_frame s"
    "vx_release_silence_frames s' = vx_release_silence_frames s"
    "vx_max_segment_frames s' = vx_max_segment_frames s"
    "vx_min_segment_frames s' = vx_min_segment_frames s"
    "vx_max_spool_frames s' = vx_max_spool_frames s" "vx_threshold s' = vx_threshold s"
    "vx_ptt_pressed s' = vx_ptt_pressed s" "vx_io s' = vx_io s"
  using assms by (cases s; cases s'; simp add: emit_frame_def)+

lemma emit_frame_of_read: "read_frame s' = read_frame s \<Longrightarrow> emit_frame s' = emit_frame s"
  by (cases s; cases s') (simp add: emit_frame_def read_frame_def)

lemma emit_frame_of_reset: "emit_frame (cpkt_audio_vox_reset_segment s) = emit_frame s"
  by (simp add: cpkt_audio_vox_reset_segment_def emit_frame_def)

lemma rewind_frame:
  "vox_rewind s = (ok, s') \<Longrightarrow> read_frame s' = read_frame s"
  by (auto simp: vox_rewind_def vox_stdio_def read_frame_def split: option.splits if_splits)

lemma emit_cases:
  assumes "cpkt_audio_vox_emit hc fin s = (r, s')"
  obtains (dropped) "r = CPKT_AUDIO_OK" "s' = cpkt_audio_vox_reset_segment s"
  | (rewind_failed) "r = CPKT_AUDIO_ERR_IO" "read_frame s' = read_frame s" "vox_rewind s = (False, s')"
  | (sunk) t rc log u where
      "vox_rewind s = (True, t)" "vx_min_segment_frames s \<le> vx_total_frame_count s"
      "run_sink (vx_segment_sink s (vx_trace s) (vox_segment_of hc fin s)) (t\<lparr>vx_read_cursor := 0\<rparr>) = (rc, log, u)"
      "read_frame u = read_frame s"
      "if rc \<noteq> 0
       then r = CPKT_AUDIO_ERR_IO \<and>
         s' = u\<lparr>vx_trace := vx_trace s @ [ObsSegment (vox_segment_of hc fin s) log rc], vx_callback_error := True\<rparr>
       else r = CPKT_AUDIO_OK \<and>
         s' = cpkt_audio_vox_reset_segment (u\<lparr>vx_trace := vx_trace s @ [ObsSegment (vox_segment_of hc fin s) log rc],
           vx_segment_index := sz (vx_segment_index s + 1)\<rparr>)"
proof -
  let ?small = "fin \<and> vx_speech_frame_count s < vx_min_segment_frames s \<or>
    vx_total_frame_count s < vx_min_segment_frames s"
  obtain ok t where rw: "vox_rewind s = (ok, t)" by force
  have fr: "read_frame t = read_frame s"
    by (rule rewind_frame [OF rw])
  consider "?small" | "\<not> ?small" "\<not> ok" | "\<not> ?small" "ok" by blast
  then show thesis
  proof cases
    case 1
    with assms have "r = CPKT_AUDIO_OK" "s' = cpkt_audio_vox_reset_segment s"
      by (auto simp: cpkt_audio_vox_emit_def split: if_splits)
    then show thesis by (rule dropped)
  next
    case 2
    with assms rw have "r = CPKT_AUDIO_ERR_IO" "s' = t"
      by (auto simp: cpkt_audio_vox_emit_def)
    with fr rw 2 show thesis by (intro rewind_failed) auto
  next
    case 3
    have seg: "vox_segment_of hc fin (t\<lparr>vx_read_cursor := 0\<rparr>) = vox_segment_of hc fin s"
      and sk: "vx_segment_sink t = vx_segment_sink s" "vx_trace t = vx_trace s"
      using fr by (cases s; cases t; simp add: read_frame_def vox_segment_of_def)+
    obtain rc log u where rs: "run_sink (vx_segment_sink s (vx_trace s) (vox_segment_of hc fin s))
        (t\<lparr>vx_read_cursor := 0\<rparr>) = (rc, log, u)"
      by (metis prod_cases3)
    have fu: "read_frame u = read_frame s"
      using run_sink_frame [OF rs] fr by (simp add: read_frame_def)
    then have u: "vx_trace u = vx_trace s" "vx_segment_index u = vx_segment_index s"
      by (cases s; cases u; simp add: read_frame_def)+
    show thesis
    proof (rule sunk [OF _ _ rs fu])
      show "vox_rewind s = (True, t)" "vx_min_segment_frames s \<le> vx_total_frame_count s"
        using rw 3 by auto
      show "if rc \<noteq> 0
       then r = CPKT_AUDIO_ERR_IO \<and>
         s' = u\<lparr>vx_trace := vx_trace s @ [ObsSegment (vox_segment_of hc fin s) log rc], vx_callback_error := True\<rparr>
       else r = CPKT_AUDIO_OK \<and>
         s' = cpkt_audio_vox_reset_segment (u\<lparr>vx_trace := vx_trace s @ [ObsSegment (vox_segment_of hc fin s) log rc],
           vx_segment_index := sz (vx_segment_index s + 1)\<rparr>)"
        using assms 3 rw rs u unfolding cpkt_audio_vox_emit_def
        by (auto simp: seg sk Let_def split: if_splits)
    qed
  qed
qed

lemma emit_emit_frame:
  assumes "cpkt_audio_vox_emit hc fin s = (r, s')"
  shows "emit_frame s' = emit_frame s"
  using assms
proof (cases rule: emit_cases)
  case (sunk t rc log u)
  from emit_frame_of_read [OF sunk(4)] sunk(5) show ?thesis
    by (auto simp: emit_frame_def cpkt_audio_vox_reset_segment_def split: if_splits)
qed (auto simp: emit_frame_of_reset dest: emit_frame_of_read)

lemma emit_state_frame:
  assumes "cpkt_audio_vox_emit_state st s = (r, s')"
  shows "emit_frame s' = emit_frame s"
  using assms
  by (auto simp: cpkt_audio_vox_emit_state_def emit_frame_def Let_def split: option.splits if_splits)

lemma close_segment_frame:
  assumes "vox_close_segment st hc fin s = (r, s')"
  shows "emit_frame s' = emit_frame s"
  using assms emit_state_frame emit_emit_frame
  by (fastforce simp: vox_close_segment_def split: prod.splits if_splits)

section \<open>An emission extends the chain\<close>

text \<open>The chain ends at or before \<open>b\<close>, and the structure numbers the next segment after it.\<close>

definition vox_linked :: "nat \<Rightarrow> nat \<Rightarrow> f32 list \<Rightarrow> nat \<Rightarrow> vox_sys \<Rightarrow> bool" where
  "vox_linked lo hi H b s \<longleftrightarrow>
     (\<exists>k e. seg_chain lo hi H (vx_trace s) k e \<and> e \<le> b \<and> vx_segment_index s = sz k)"

definition vox_closed :: "vox_sys \<Rightarrow> bool" where
  "vox_closed s \<longleftrightarrow> \<not> vx_open s \<and> vx_spool_file s = None \<and> vx_memory_frame_count s = 0 \<and>
     vx_total_frame_count s = 0"

text \<open>An open segment holds the history from its start frame on.\<close>

definition seg_holds :: "f32 list \<Rightarrow> vox_sys \<Rightarrow> bool" where
  "seg_holds H s \<longleftrightarrow> store_inv s \<and> vx_segment_start_frame s + vx_total_frame_count s = length H \<and>
     stored s = drop (vx_segment_start_frame s) H \<and> length H \<le> size_max"

lemma linked_traced: "vox_linked lo hi H b s \<Longrightarrow> vox_traced lo hi H s"
  by (auto simp: vox_linked_def vox_traced_def)

lemma linked_mono: "vox_linked lo hi H b s \<Longrightarrow> b \<le> b' \<Longrightarrow> vox_linked lo hi (H @ ys) b' s"
  unfolding vox_linked_def using seg_chain_mono le_trans by blast

lemma linked_cong:
  "vx_trace s' = vx_trace s \<Longrightarrow> vx_segment_index s' = vx_segment_index s \<Longrightarrow>
    vox_linked lo hi H b s' = vox_linked lo hi H b s"
  by (simp add: vox_linked_def)

lemma reset_closed: "vox_closed (cpkt_audio_vox_reset_segment s)"
  by (simp add: vox_closed_def cpkt_audio_vox_reset_segment_def)

lemma reset_fields [simp]:
  "vx_trace (cpkt_audio_vox_reset_segment s) = vx_trace s"
  "vx_segment_index (cpkt_audio_vox_reset_segment s) = vx_segment_index s"
  "vx_callback_error (cpkt_audio_vox_reset_segment s) = vx_callback_error s"
  by (simp_all add: cpkt_audio_vox_reset_segment_def)

lemma rewind_read_inv:
  assumes "vox_rewind s = (True, t)" "store_inv s"
  shows "read_inv (t\<lparr>vx_read_cursor := 0\<rparr>)" "unread (t\<lparr>vx_read_cursor := 0\<rparr>) = stored s"
  using assms
  by (auto simp: vox_rewind_def vox_stdio_def read_inv_def unread_def stored_def store_inv_def
      split: option.splits if_splits)

lemma sunk_spans:
  assumes rw: "vox_rewind s = (True, t)"
    and rs: "run_sink p (t\<lparr>vx_read_cursor := 0\<rparr>) = (rc, log, u)"
    and h: "seg_holds H s" and k: "vx_segment_index s = sz k"
  shows "seg_spans H (vox_segment_of hc fin s) log k (vx_segment_start_frame s) (vx_total_frame_count s)"
proof -
  let ?a = "vx_segment_start_frame s" and ?n = "vx_total_frame_count s"
  have inv: "store_inv s" and an: "?a + ?n = length H" and st: "stored s = drop ?a H"
    and small: "length H \<le> size_max"
    using h by (simp_all add: seg_holds_def)
  have sl: "slice H ?a ?n = stored s"
    using an st by (simp add: slice_simps)
  have log: "prefix (log_frames log) (stored s)"
    "(\<exists>xs. (CPKT_AUDIO_AT_END, xs) \<in> set (takeWhile read_good log)) \<longrightarrow> log_frames log = stored s"
    using run_sink_log [OF rewind_read_inv(1) [OF rw inv] rs] rewind_read_inv(2) [OF rw inv] by auto
  have "cpkt_audio_saturating_size_add ?a ?n = ?a + ?n"
    using an small by (simp add: sz_simps)
  then show ?thesis
    using log an small k by (simp add: seg_spans_def vox_segment_of_def sl sz_simps)
qed

lemma emit_state_linked:
  assumes "cpkt_audio_vox_emit_state st s = (r, s')" "vox_linked lo hi H b s"
  shows "vox_linked lo hi H b s'"
  using assms
  by (fastforce simp: cpkt_audio_vox_emit_state_def vox_linked_def Let_def
      split: option.splits if_splits intro: chain_state)

lemma emit_state_keeps:
  assumes "cpkt_audio_vox_emit_state st s = (r, s')"
  shows "\<exists>tr ce. s' = s\<lparr>vx_trace := tr, vx_callback_error := ce\<rparr> \<and> (ce \<longleftrightarrow> vx_callback_error s \<or> r \<noteq> CPKT_AUDIO_OK) \<and>
    r \<in> {CPKT_AUDIO_OK, CPKT_AUDIO_ERR_IO}"
proof (intro exI)
  show "s' = s\<lparr>vx_trace := vx_trace s', vx_callback_error := vx_callback_error s'\<rparr> \<and>
      (vx_callback_error s' \<longleftrightarrow> vx_callback_error s \<or> r \<noteq> CPKT_AUDIO_OK) \<and>
      r \<in> {CPKT_AUDIO_OK, CPKT_AUDIO_ERR_IO}"
    using assms by (auto simp: cpkt_audio_vox_emit_state_def Let_def split: option.splits if_splits)
qed

lemma seg_holds_cong:
  "seg_holds H (s\<lparr>vx_trace := tr, vx_callback_error := ce\<rparr>) = seg_holds H s"
  by (simp add: seg_holds_def store_inv_def stored_def split: option.splits)

lemma linked_segment:
  assumes "vox_linked lo hi H (vx_segment_start_frame s) s" "seg_holds H s"
    and "lo \<le> vx_total_frame_count s" "vx_total_frame_count s \<le> hi"
    and sp: "\<And>k. vx_segment_index s = sz k \<Longrightarrow>
      seg_spans H seg log k (vx_segment_start_frame s) (vx_total_frame_count s)"
  shows "\<exists>k. seg_chain lo hi H (vx_trace s @ [ObsSegment seg log rc]) (Suc k) (length H) \<and>
    vx_segment_index s = sz k"
proof -
  from assms(1) obtain k e where ch: "seg_chain lo hi H (vx_trace s) k e"
      "e \<le> vx_segment_start_frame s" "vx_segment_index s = sz k"
    by (auto simp: vox_linked_def)
  have an: "vx_segment_start_frame s + vx_total_frame_count s = length H"
    using assms(2) by (simp add: seg_holds_def)
  from chain_seg [OF ch(1,2) _ assms(3,4) sp [OF ch(3)], of rc] an ch(3) show ?thesis
    by auto
qed

lemma sz_Suc [sz_simps]: "sz (Suc (sz k)) = sz (Suc k)"
  by (simp add: sz_def mod_Suc_eq)

lemma emit_linked:
  assumes em: "cpkt_audio_vox_emit hc fin s = (r, s')"
    and ln: "vox_linked lo hi H (vx_segment_start_frame s) s" and h: "seg_holds H s"
    and lo: "lo = vx_min_segment_frames s" and hi: "vx_total_frame_count s \<le> hi"
  shows "vox_traced lo hi H s' \<and>
    (r = CPKT_AUDIO_OK \<longrightarrow> vox_closed s' \<and> vox_linked lo hi H (length H) s' \<and>
      vx_callback_error s' = vx_callback_error s)"
  using em
proof (cases rule: emit_cases)
  case dropped
  have "vox_linked lo hi H (length H) s"
    using linked_mono [OF ln, of "length H" "[]"] h by (simp add: seg_holds_def)
  with dropped show ?thesis
    using linked_traced [OF ln]
    by (simp add: reset_closed vox_linked_def vox_traced_def)
next
  case rewind_failed
  then have "vx_trace s' = vx_trace s"
    by (cases s; cases s'; simp add: read_frame_def)
  with linked_traced [OF ln] rewind_failed show ?thesis
    by (simp add: vox_traced_def)
next
  case (sunk t rc log u)
  from linked_segment [OF ln h _ hi sunk_spans [OF sunk(1,3) h]] sunk(2) lo obtain k where
    k: "seg_chain lo hi H (vx_trace s @ [ObsSegment (vox_segment_of hc fin s) log rc]) (Suc k) (length H)"
      "vx_segment_index s = sz k"
    by blast
  have "vx_callback_error u = vx_callback_error s"
    using sunk(4) by (cases s; cases u; simp add: read_frame_def)
  with sunk(5) k show ?thesis
    by (auto simp: vox_traced_def vox_linked_def reset_closed sz_Suc split: if_splits)
qed

lemma close_segment_linked:
  assumes cl: "vox_close_segment st hc fin s = (r, s')"
    and ln: "vox_linked lo hi H (vx_segment_start_frame s) s" and h: "seg_holds H s"
    and lo: "lo = vx_min_segment_frames s" and hi: "vx_total_frame_count s \<le> hi"
  shows "vox_traced lo hi H s' \<and>
    (r = CPKT_AUDIO_OK \<longrightarrow> vox_closed s' \<and> vox_linked lo hi H (length H) s' \<and>
      vx_callback_error s' = vx_callback_error s)"
proof -
  obtain q t where es: "cpkt_audio_vox_emit_state st s = (q, t)" by force
  have tl: "vox_linked lo hi H (vx_segment_start_frame s) t"
    by (rule emit_state_linked [OF es ln])
  obtain tr ce where t: "t = s\<lparr>vx_trace := tr, vx_callback_error := ce\<rparr>"
      "ce \<longleftrightarrow> vx_callback_error s \<or> q \<noteq> CPKT_AUDIO_OK"
    using emit_state_keeps [OF es] by blast
  show ?thesis
  proof (cases "q = CPKT_AUDIO_OK")
    case True
    with cl es have em: "cpkt_audio_vox_emit hc fin t = (r, s')"
      by (simp add: vox_close_segment_def)
    have "vox_linked lo hi H (vx_segment_start_frame t) t" "seg_holds H t"
      using tl h by (simp_all add: t seg_holds_cong)
    from emit_linked [OF em this] lo hi True show ?thesis
      by (simp add: t)
  next
    case False
    with cl es have "r = q" "s' = t"
      by (simp_all add: vox_close_segment_def)
    with False tl show ?thesis
      by (auto dest: linked_traced)
  qed
qed

lemma emit_result: "fst (cpkt_audio_vox_emit hc fin s) \<in> {CPKT_AUDIO_OK, CPKT_AUDIO_ERR_IO}"
  by (auto simp: cpkt_audio_vox_emit_def Let_def split: prod.splits)

lemma close_segment_result:
  "fst (vox_close_segment st hc fin s) \<in> {CPKT_AUDIO_OK, CPKT_AUDIO_ERR_IO}"
  using emit_result
  by (auto simp: vox_close_segment_def cpkt_audio_vox_emit_state_def Let_def split: option.splits)

end
