(* ===== verification/Audio_Vox.thy ===== *)
theory Audio_Vox
  imports Audio_Segment
begin

text \<open>
  The voice-operated segmenter of \<^verbatim>\<open>src/audio.c\<close>: \<^verbatim>\<open>cpkt_audio_vox_open\<close> and the push, flush and
  destroy methods.

  The push loop is \<open>partial_function\<close>: the C loop decrements its index and runs the same frame
  again after a full spool was cut, so it ends only because the cut empties the spool, which is
  proved. A NULL receiver or frame pointer is \<open>None\<close>. The invariant \<open>vox_inv H\<close> ties the structure
  to the history \<open>H\<close> of all frames pushed so far.
\<close>

section \<open>Operations\<close>

datatype frame_step = FrameDone | FrameRetry | FrameReturn cpkt_audio_result

text \<open>The opening branch of the loop body: the fields are reset, TX_ON is sent, the prebuffer moved.\<close>

definition vox_open_segment :: "vox_sys \<Rightarrow> cpkt_audio_result \<times> vox_sys" where
  "vox_open_segment s =
     (let frame_position = vx_source_frame_cursor s;
          s = s\<lparr>vx_open := True,
                vx_segment_start_frame :=
                  (if frame_position \<ge> vx_prebuffer_count s
                   then frame_position - vx_prebuffer_count s else 0),
                vx_silence_frames := 0,
                vx_memory_frame_count := 0,
                vx_total_frame_count := 0,
                vx_speech_frame_count := 0,
                vx_read_cursor := 0\<rparr>;
          (r, s) = cpkt_audio_vox_emit_state CPKT_AUDIO_VOX_TX_ON s
      in if r \<noteq> CPKT_AUDIO_OK then (r, s) else cpkt_audio_vox_append_prebuffer s)"

definition step_of :: "frame_step \<Rightarrow> cpkt_audio_result \<times> vox_sys \<Rightarrow> frame_step \<times> vox_sys" where
  "step_of next rs = (let (r, s) = rs in if r \<noteq> CPKT_AUDIO_OK then (FrameReturn r, s) else (next, s))"

text \<open>The part of the loop body after the segment is open.\<close>

definition vox_push_open :: "bool \<Rightarrow> f32 \<Rightarrow> vox_sys \<Rightarrow> frame_step \<times> vox_sys" where
  "vox_push_open loud frame s =
     (let (r, s) = cpkt_audio_vox_append_frame frame s in
      if r = CPKT_AUDIO_AT_END then
        step_of FrameRetry (vox_close_segment CPKT_AUDIO_VOX_HARD_CUT True False s)
      else if r \<noteq> CPKT_AUDIO_OK then (FrameReturn r, s)
      else
        let s = cpkt_audio_vox_note_loudness loud (cpkt_audio_vox_advance_source 1 s) in
        if vx_release_silence_frames s \<noteq> 0 \<and> vx_silence_frames s \<ge> vx_release_silence_frames s then
          step_of FrameDone (vox_close_segment CPKT_AUDIO_VOX_TX_OFF False False s)
        else if vx_max_segment_frames s \<noteq> 0 \<and> vx_total_frame_count s \<ge> vx_max_segment_frames s then
          step_of FrameDone (vox_close_segment CPKT_AUDIO_VOX_HARD_CUT True False s)
        else (FrameDone, s))"

definition vox_push_frame :: "f32 \<Rightarrow> vox_sys \<Rightarrow> frame_step \<times> vox_sys" where
  "vox_push_frame frame s =
     (let loud = f32_ge (cpkt_audio_absf frame) (vx_threshold s) in
      if \<not> vx_open s \<and> \<not> loud then
        (FrameDone, cpkt_audio_vox_advance_source 1 (cpkt_audio_vox_prebuffer_frame frame s))
      else if \<not> vx_open s then
        (let (r, s) = vox_open_segment s in
         if r \<noteq> CPKT_AUDIO_OK then (FrameReturn r, s) else vox_push_open loud frame s)
      else vox_push_open loud frame s)"

partial_function (option) vox_push_loop ::
  "f32 list \<Rightarrow> vox_sys \<Rightarrow> (cpkt_audio_result \<times> vox_sys) option" where
  "vox_push_loop frames s =
     (case frames of
        [] \<Rightarrow> Some (CPKT_AUDIO_OK, s)
      | x # xs \<Rightarrow>
          (case vox_push_frame x s of
             (FrameDone, s) \<Rightarrow> vox_push_loop xs s
           | (FrameRetry, s) \<Rightarrow> vox_push_loop (x # xs) s
           | (FrameReturn r, s) \<Rightarrow> Some (r, s)))"

declare vox_push_loop.simps [code]

definition cpkt_audio_vox_push_f32_mono_16k_impl ::
  "vox_sys option \<Rightarrow> f32 list option \<Rightarrow> nat \<Rightarrow> (cpkt_audio_result \<times> vox_sys option) option" where
  "cpkt_audio_vox_push_f32_mono_16k_impl self frames frame_count =
     (case self of
        None \<Rightarrow> Some (CPKT_AUDIO_ERR_ARG, None)
      | Some s \<Rightarrow>
          if frames = None \<and> frame_count \<noteq> 0 then Some (CPKT_AUDIO_ERR_ARG, Some s)
          else if vx_callback_error s then Some (CPKT_AUDIO_ERR_IO, Some s)
          else map_option (\<lambda>(r, s). (r, Some s))
            (vox_push_loop (case frames of None \<Rightarrow> [] | Some xs \<Rightarrow> take frame_count xs) s))"

definition cpkt_audio_vox_flush_impl :: "vox_sys option \<Rightarrow> cpkt_audio_result \<times> vox_sys option" where
  "cpkt_audio_vox_flush_impl self =
     (case self of
        None \<Rightarrow> (CPKT_AUDIO_ERR_ARG, None)
      | Some s \<Rightarrow>
          if vx_callback_error s then (CPKT_AUDIO_ERR_IO, Some s)
          else if \<not> vx_open s \<or> vx_total_frame_count s = 0 then (CPKT_AUDIO_OK, Some s)
          else map_prod id Some (vox_close_segment CPKT_AUDIO_VOX_TX_OFF False True s))"

text \<open>Destroying releases everything; the second component counts the frees and closes made.\<close>

definition cpkt_audio_vox_destroy_impl :: "vox_sys option \<Rightarrow> vox_sys option \<times> string list" where
  "cpkt_audio_vox_destroy_impl self =
     (case self of
        None \<Rightarrow> (None, [])
      | Some s \<Rightarrow>
          (None, (if vx_spool_file s \<noteq> None then [''fclose spool_file''] else []) @
             [''free frames'', ''free prebuffer_frames'', ''free impl'', ''free self'']))"

section \<open>Opening\<close>

record cpkt_audio_vox_config =
  vc_threshold :: f32
  vc_release_silence_ms :: nat
  vc_prebuffer_ms :: nat
  vc_max_segment_ms :: nat
  vc_min_segment_ms :: nat
  vc_memory_spool_bytes :: nat
  vc_max_spool_bytes :: nat
  vc_segment_sink :: "segment_sink option"
  vc_state_sink :: "state_sink option"

text \<open>The binary32 pattern of \<open>0.05f\<close>.\<close>

definition f32_0_05 :: f32 where
  "f32_0_05 = 0x3D4CCCCD"

text \<open>
  Spool limits common to both segmenters: \<open>None\<close> is the ERR_ARG branch, else the memory and total
  spool in frames.
\<close>

definition spool_limits :: "nat \<Rightarrow> nat \<Rightarrow> (nat \<times> nat) option" where
  "spool_limits memory_bytes max_bytes =
     (let memory_spool_bytes = (if memory_bytes \<noteq> 0 then memory_bytes else 1048576);
          max_spool_bytes = (if max_bytes \<noteq> 0 then max_bytes else 1073741824)
      in if memory_spool_bytes < 4 \<or> max_spool_bytes < 4 \<or> memory_spool_bytes > max_spool_bytes then None
         else
           let memory_spool_frames = memory_spool_bytes div 4;
               max_spool_frames = max_spool_bytes div 4
           in if memory_spool_frames = 0 \<or> max_spool_frames = 0 \<or> memory_spool_frames > size_max div 4
              then None
              else Some (memory_spool_frames, max_spool_frames))"

text \<open>
  The validated settings: release, maximum and minimum segment and prebuffer length in frames,
  memory and total spool in frames.
\<close>

definition vox_settings ::
  "cpkt_audio_vox_config \<Rightarrow> (nat \<times> nat \<times> nat \<times> nat \<times> nat \<times> nat) option" where
  "vox_settings config =
     (let release_ms = (if vc_release_silence_ms config \<noteq> 0 then vc_release_silence_ms config else 1500);
          min_ms = (if vc_min_segment_ms config \<noteq> 0 then vc_min_segment_ms config else 100);
          prebuffer_ms = (if vc_prebuffer_ms config \<noteq> 0 then vc_prebuffer_ms config else 10)
      in case (cpkt_audio_ms_to_16k_frames release_ms, cpkt_audio_ms_to_16k_frames min_ms,
               cpkt_audio_ms_to_16k_frames prebuffer_ms,
               if vc_max_segment_ms config \<noteq> 0
               then cpkt_audio_ms_to_16k_frames (vc_max_segment_ms config) else Some 0) of
           (Some release_frames, Some min_frames, Some prebuffer_frames, Some max_frames) \<Rightarrow>
             if max_frames \<noteq> 0 \<and> min_frames > max_frames then None
             else (case spool_limits (vc_memory_spool_bytes config) (vc_max_spool_bytes config) of
                     None \<Rightarrow> None
                   | Some (memory_spool_frames, max_spool_frames) \<Rightarrow>
                       if min_frames > max_spool_frames \<or>
                          (prebuffer_frames \<noteq> 0 \<and> prebuffer_frames > size_max div 4) then None
                       else Some (release_frames, max_frames, min_frames, prebuffer_frames,
                                  memory_spool_frames, max_spool_frames))
         | _ \<Rightarrow> None)"

text \<open>
  \<open>malloc\<close> is an argument: the \<open>n\<close>-th allocation of the call either fails or gives a block of the
  asked number of cells with arbitrary contents; \<open>io\<close> is the environment of the new structure.
\<close>

definition cpkt_audio_vox_open ::
  "(nat \<Rightarrow> nat \<Rightarrow> f32 list option) \<Rightarrow> (nat \<Rightarrow> nat option) \<Rightarrow> bool \<Rightarrow> cpkt_audio_vox_config option \<Rightarrow>
    cpkt_audio_result \<times> vox_sys option" where
  "cpkt_audio_vox_open malloc io out_null config =
     (case config of
        None \<Rightarrow> (CPKT_AUDIO_ERR_ARG, None)
      | Some config \<Rightarrow>
        (case vc_segment_sink config of
           None \<Rightarrow> (CPKT_AUDIO_ERR_ARG, None)
         | Some sink \<Rightarrow>
           if out_null then (CPKT_AUDIO_ERR_ARG, None)
           else (case vox_settings config of
             None \<Rightarrow> (CPKT_AUDIO_ERR_ARG, None)
           | Some (release_frames, max_frames, min_frames, prebuffer_frames, memory_spool_frames,
                   max_spool_frames) \<Rightarrow>
             if malloc 0 1 = None \<or> malloc 1 1 = None then (CPKT_AUDIO_ERR_ALLOC, None)
             else (case malloc 2 memory_spool_frames of
               None \<Rightarrow> (CPKT_AUDIO_ERR_ALLOC, None)
             | Some frames \<Rightarrow>
               (case (if prebuffer_frames \<noteq> 0 then malloc 3 prebuffer_frames else Some []) of
                  None \<Rightarrow> (CPKT_AUDIO_ERR_ALLOC, None)
                | Some prebuffer \<Rightarrow>
                  (CPKT_AUDIO_OK,
                   Some (vox_blank\<lparr>vx_segment_sink := sink, vx_state_sink := vc_state_sink config,
                     vx_frames := frames, vx_prebuffer_frames := prebuffer,
                     vx_release_silence_frames := release_frames,
                     vx_max_segment_frames := max_frames,
                     vx_min_segment_frames := min_frames,
                     vx_frame_capacity := memory_spool_frames,
                     vx_prebuffer_capacity := prebuffer_frames,
                     vx_max_spool_frames := max_spool_frames,
                     vx_threshold :=
                       (if f32_less 0 (vc_threshold config) then vc_threshold config else f32_0_05),
                     vx_io := io\<rparr>)))))))"

section \<open>Invariant\<close>

definition vox_static :: "vox_sys \<Rightarrow> nat \<times> nat \<times> nat \<times> nat \<times> nat \<times> nat \<times> f32" where
  "vox_static s = (vx_min_segment_frames s, vx_max_segment_frames s, vx_max_spool_frames s,
     vx_prebuffer_capacity s, vx_frame_capacity s, vx_release_silence_frames s, vx_threshold s)"

text \<open>The longest segment the settings admit.\<close>

definition vox_hi :: "vox_sys \<Rightarrow> nat" where
  "vox_hi s = (if vx_max_segment_frames s = 0 then vx_max_spool_frames s
     else min (vx_max_spool_frames s) (max (vx_max_segment_frames s) (Suc (vx_prebuffer_capacity s))))"

definition vox_chained :: "f32 list \<Rightarrow> nat \<Rightarrow> vox_sys \<Rightarrow> bool" where
  "vox_chained H b s \<longleftrightarrow> vox_linked (vx_min_segment_frames s) (vox_hi s) H b s"

definition vox_mid :: "f32 list \<Rightarrow> vox_sys \<Rightarrow> bool" where
  "vox_mid H s \<longleftrightarrow>
     vx_open s \<and> seg_holds H s \<and> prebuffer_inv s \<and> vx_prebuffer_count s = 0 \<and>
     0 < vx_max_spool_frames s \<and> vx_source_frame_cursor s = length H \<and>
     vox_chained H (vx_segment_start_frame s) s \<and>
     (vx_max_segment_frames s \<noteq> 0 \<longrightarrow>
       vx_total_frame_count s < max (vx_max_segment_frames s) (Suc (vx_prebuffer_capacity s)))"

definition vox_idle :: "f32 list \<Rightarrow> vox_sys \<Rightarrow> bool" where
  "vox_idle H s \<longleftrightarrow>
     vox_closed s \<and> length (vx_frames s) = vx_frame_capacity s \<and> prebuffer_inv s \<and>
     0 < vx_max_spool_frames s \<and> length H \<le> size_max \<and> vx_source_frame_cursor s = length H \<and>
     suffix (prebuffered s) H \<and> vox_chained H (length H - vx_prebuffer_count s) s"

definition vox_inv :: "f32 list \<Rightarrow> vox_sys \<Rightarrow> bool" where
  "vox_inv H s \<longleftrightarrow>
     (if vx_open s
      then vox_mid H s \<and> 0 < vx_total_frame_count s \<and>
        (vx_max_segment_frames s \<noteq> 0 \<longrightarrow> vx_total_frame_count s < vx_max_segment_frames s)
      else vox_idle H s)"

definition vox_sound :: "f32 list \<Rightarrow> vox_sys \<Rightarrow> bool" where
  "vox_sound H s \<longleftrightarrow> vox_traced (vx_min_segment_frames s) (vox_hi s) H s"

lemma static_store:
  assumes "store_frame s' = store_frame s"
  shows "vox_static s' = vox_static s"
  by (simp add: vox_static_def store_frame_fields [OF assms])

lemma static_emit:
  assumes "emit_frame s' = emit_frame s"
  shows "vox_static s' = vox_static s"
  by (simp add: vox_static_def emit_frame_fields [OF assms])

lemma static_bounds:
  assumes "vox_static s' = vox_static s"
  shows "vox_hi s' = vox_hi s" "vx_min_segment_frames s' = vx_min_segment_frames s"
    "vx_max_spool_frames s' = vx_max_spool_frames s" "vx_prebuffer_capacity s' = vx_prebuffer_capacity s"
    "vx_max_segment_frames s' = vx_max_segment_frames s" "vx_threshold s' = vx_threshold s"
    "vx_frame_capacity s' = vx_frame_capacity s"
  using assms by (simp_all add: vox_static_def vox_hi_def)

lemma prebuffered_cong:
  assumes "vx_prebuffer_frames s' = vx_prebuffer_frames s" "vx_prebuffer_capacity s' = vx_prebuffer_capacity s"
    "vx_prebuffer_count s' = vx_prebuffer_count s" "vx_prebuffer_cursor s' = vx_prebuffer_cursor s"
  shows "prebuffered s' = prebuffered s" "prebuffer_inv s' = prebuffer_inv s"
  using assms by (simp_all add: prebuffered_def prebuffer_inv_def)

lemma append_prebuffer_loop_all:
  "append_prebuffer_loop n i s =
     vox_store.append_all (map (\<lambda>j. vx_prebuffer_frames s ! ((vx_prebuffer_cursor s + j) mod
       vx_prebuffer_capacity s)) [i..<i + n]) s"
proof (induction n arbitrary: i s)
  case (Suc n)
  obtain r t where t: "cpkt_audio_vox_append_frame (vx_prebuffer_frames s ! ((vx_prebuffer_cursor s + i) mod
       vx_prebuffer_capacity s)) s = (r, t)" by force
  have "[i..<i + Suc n] = i # [Suc i..<Suc i + n]"
    by (simp add: upt_rec)
  with t Suc.IH [of "Suc i" t] store_frame_fields [OF append_store_frame [OF t]] show ?case
    by simp
qed simp

lemma append_all_frame: "vox_store.append_all xs s = (r, s') \<Longrightarrow> store_frame s' = store_frame s"
proof (induction xs arbitrary: s)
  case (Cons x xs)
  obtain q t where t: "cpkt_audio_vox_append_frame x s = (q, t)" by force
  with Cons append_store_frame [OF t] show ?case
    by (auto split: if_splits)
qed simp

lemma append_prebuffer_cases:
  assumes "cpkt_audio_vox_append_prebuffer s = (r, s')"
  shows "\<exists>t. vox_store.append_all (prebuffered s) s = (r, t) \<and>
    s' = (if r = CPKT_AUDIO_OK then cpkt_audio_vox_reset_prebuffer t else t)"
  using assms
  by (auto simp: cpkt_audio_vox_append_prebuffer_def append_prebuffer_loop_all prebuffered_def
      ring_list_def split: prod.splits if_splits)

lemma chained_sound: "vox_chained H b s \<Longrightarrow> vox_sound H s"
  by (auto simp: vox_chained_def vox_sound_def dest: linked_traced)

lemma suffix_length_drop: "suffix ys xs \<Longrightarrow> drop (length xs - length ys) xs = ys"
  by (auto simp: suffix_def)

lemma suffix_lastn_snoc:
  assumes "suffix ys xs"
  shows "suffix (lastn n (ys @ [x])) (xs @ [x])"
proof -
  have "suffix (lastn n (ys @ [x])) (ys @ [x])"
    unfolding lastn_def by (rule suffix_drop)
  moreover have "suffix (ys @ [x]) (xs @ [x])"
    using assms by simp
  ultimately show ?thesis
    by (rule suffix_order.trans)
qed

lemma prebuffer_frame_keeps:
  "\<exists>cells n c. cpkt_audio_vox_prebuffer_frame x s =
     s\<lparr>vx_prebuffer_frames := cells, vx_prebuffer_count := n, vx_prebuffer_cursor := c\<rparr> \<and>
     n \<le> Suc (vx_prebuffer_count s)"
proof (intro exI)
  show "cpkt_audio_vox_prebuffer_frame x s =
     s\<lparr>vx_prebuffer_frames := vx_prebuffer_frames (cpkt_audio_vox_prebuffer_frame x s),
       vx_prebuffer_count := vx_prebuffer_count (cpkt_audio_vox_prebuffer_frame x s),
       vx_prebuffer_cursor := vx_prebuffer_cursor (cpkt_audio_vox_prebuffer_frame x s)\<rparr> \<and>
     vx_prebuffer_count (cpkt_audio_vox_prebuffer_frame x s) \<le> Suc (vx_prebuffer_count s)"
    by (auto simp: cpkt_audio_vox_prebuffer_frame_def Let_def)
qed

lemma push_quiet:
  assumes inv: "vox_idle H s" and room: "length H < size_max"
  shows "vox_idle (H @ [x]) (cpkt_audio_vox_advance_source 1 (cpkt_audio_vox_prebuffer_frame x s))"
proof -
  let ?t = "cpkt_audio_vox_prebuffer_frame x s"
  let ?u = "cpkt_audio_vox_advance_source 1 ?t"
  obtain cells n c where t: "?t = s\<lparr>vx_prebuffer_frames := cells, vx_prebuffer_count := n, vx_prebuffer_cursor := c\<rparr>"
      and n: "n \<le> Suc (vx_prebuffer_count s)"
    using prebuffer_frame_keeps by blast
  have pinv: "prebuffer_inv s" and cnt: "vx_prebuffer_count s \<le> length H"
    using inv suffix_length_le [of "prebuffered s" H] by (auto simp: vox_idle_def)
  have "prebuffered ?t = lastn (vx_prebuffer_capacity s) (prebuffered s @ [x])" "prebuffer_inv ?t"
    using vox_ring.push_items [OF pinv] vox_ring.push_invar [OF pinv] by auto
  moreover have "suffix (lastn (vx_prebuffer_capacity s) (prebuffered s @ [x])) (H @ [x])"
    by (rule suffix_lastn_snoc) (use inv in \<open>simp add: vox_idle_def\<close>)
  ultimately have pre: "suffix (prebuffered ?t) (H @ [x])" "prebuffer_inv ?t"
    by simp_all
  have u: "?u = s\<lparr>vx_prebuffer_frames := cells, vx_prebuffer_count := n, vx_prebuffer_cursor := c,
      vx_source_frame_cursor := length H + 1\<rparr>"
    using inv room by (simp add: cpkt_audio_vox_advance_source_def t vox_idle_def sz_simps)
  have ch: "vox_linked (vx_min_segment_frames s) (vox_hi s) (H @ [x]) (length (H @ [x]) - n) s"
    using inv n cnt linked_mono by (fastforce simp: vox_idle_def vox_chained_def)
  have hi: "vox_hi ?u = vox_hi s"
    unfolding u vox_hi_def by simp
  show ?thesis
    unfolding vox_idle_def vox_chained_def hi unfolding u using inv pre [unfolded t] room ch
    by (simp add: vox_idle_def vox_closed_def prebuffered_def prebuffer_inv_def vox_linked_def)
qed

text \<open>The structure just after the opening branch has reset it.\<close>

definition vox_opened :: "vox_sys \<Rightarrow> vox_sys" where
  "vox_opened s = s\<lparr>vx_open := True,
     vx_segment_start_frame := (if vx_source_frame_cursor s \<ge> vx_prebuffer_count s
       then vx_source_frame_cursor s - vx_prebuffer_count s else 0),
     vx_silence_frames := 0, vx_memory_frame_count := 0, vx_total_frame_count := 0,
     vx_speech_frame_count := 0, vx_read_cursor := 0\<rparr>"

lemma open_segment_state:
  assumes "vox_idle H s" "cpkt_audio_vox_emit_state CPKT_AUDIO_VOX_TX_ON (vox_opened s) = (r, t)"
  shows "store_inv t \<and> stored t = [] \<and> vx_open t \<and> prebuffered t = prebuffered s \<and> prebuffer_inv t \<and>
    vx_segment_start_frame t = length H - vx_prebuffer_count s \<and> vx_source_frame_cursor t = length H \<and>
    vox_chained H (length H - vx_prebuffer_count s) t \<and> vox_static t = vox_static s"
proof -
  let ?o = "vox_opened s"
  have cnt: "vx_prebuffer_count s \<le> length H"
    using assms(1) suffix_length_le [of "prebuffered s" H] by (auto simp: vox_idle_def)
  have "vox_linked (vx_min_segment_frames s) (vox_hi s) H (length H - vx_prebuffer_count s) ?o"
    using assms(1) by (simp add: vox_idle_def vox_chained_def vox_linked_def vox_opened_def)
  from emit_state_linked [OF assms(2) this]
  have ln: "vox_linked (vx_min_segment_frames s) (vox_hi s) H (length H - vx_prebuffer_count s) t" .
  obtain tr ce where t: "t = ?o\<lparr>vx_trace := tr, vx_callback_error := ce\<rparr>"
    using emit_state_keeps [OF assms(2)] by blast
  have hi: "vox_hi t = vox_hi s"
    by (simp add: t vox_opened_def vox_hi_def)
  show ?thesis
    using assms(1) cnt ln unfolding vox_chained_def hi unfolding t
    by (simp add: vox_idle_def vox_closed_def store_inv_def stored_def vox_opened_def prebuffered_def
        prebuffer_inv_def vox_static_def)
qed

lemma chained_cong:
  assumes "vox_static s' = vox_static s" "vx_trace s' = vx_trace s"
    "vx_segment_index s' = vx_segment_index s"
  shows "vox_chained H b s' = vox_chained H b s"
  by (simp add: vox_chained_def static_bounds [OF assms(1)] linked_cong [OF assms(2,3)])

lemma reset_prebuffer_store [simp]:
  "stored (cpkt_audio_vox_reset_prebuffer s) = stored s"
  "store_inv (cpkt_audio_vox_reset_prebuffer s) = store_inv s"
  by (simp_all add: cpkt_audio_vox_reset_prebuffer_def stored_def store_inv_def split: option.splits)

lemma reset_prebuffer_fields [simp]:
  "vx_prebuffer_count (cpkt_audio_vox_reset_prebuffer s) = 0"
  "prebuffer_inv s \<Longrightarrow> prebuffer_inv (cpkt_audio_vox_reset_prebuffer s)"
  "vx_open (cpkt_audio_vox_reset_prebuffer s) = vx_open s"
  "vx_source_frame_cursor (cpkt_audio_vox_reset_prebuffer s) = vx_source_frame_cursor s"
  "vx_segment_start_frame (cpkt_audio_vox_reset_prebuffer s) = vx_segment_start_frame s"
  "vx_total_frame_count (cpkt_audio_vox_reset_prebuffer s) = vx_total_frame_count s"
  "vx_max_segment_frames (cpkt_audio_vox_reset_prebuffer s) = vx_max_segment_frames s"
  "vx_max_spool_frames (cpkt_audio_vox_reset_prebuffer s) = vx_max_spool_frames s"
  "vx_prebuffer_capacity (cpkt_audio_vox_reset_prebuffer s) = vx_prebuffer_capacity s"
  by (auto simp: cpkt_audio_vox_reset_prebuffer_def prebuffer_inv_def)

lemma open_segment_mid:
  assumes inv: "vox_idle H s" and op: "vox_open_segment s = (r, s')"
  shows "vox_sound H s' \<and> vox_static s' = vox_static s \<and> 
    (r = CPKT_AUDIO_OK \<longrightarrow> vox_mid H s' \<and> vx_total_frame_count s' = vx_prebuffer_count s)"
proof -
  obtain q t where es: "cpkt_audio_vox_emit_state CPKT_AUDIO_VOX_TX_ON (vox_opened s) = (q, t)" by force
  have op': "(if q \<noteq> CPKT_AUDIO_OK then (q, t) else cpkt_audio_vox_append_prebuffer t) = (r, s')"
    using op es by (simp add: vox_open_segment_def vox_opened_def Let_def)
  note st = open_segment_state [OF inv es]
  show ?thesis
  proof (cases "q = CPKT_AUDIO_OK")
    case False
    with op' st chained_sound show ?thesis
      by auto
  next
    case True
    then obtain u where u: "vox_store.append_all (prebuffered s) t = (r, u)"
        "s' = (if r = CPKT_AUDIO_OK then cpkt_audio_vox_reset_prebuffer u else u)"
      using append_prebuffer_cases [of t r s'] op' st by auto
    note fr = append_all_frame [OF u(1)]
    note ff = store_frame_fields [OF fr]
    have ch: "vox_chained H (length H - vx_prebuffer_count s) u"
      using st chained_cong [OF static_store [OF fr]] ff by simp
    have stat: "vox_static s' = vox_static s"
      using st static_store [OF fr] u(2) by (simp add: vox_static_def cpkt_audio_vox_reset_prebuffer_def)
    have ch': "vox_chained H (length H - vx_prebuffer_count s) s'"
      using ch u(2) chained_cong [of "cpkt_audio_vox_reset_prebuffer u" u]
      by (simp add: vox_static_def cpkt_audio_vox_reset_prebuffer_def)
    show ?thesis
    proof (cases "r = CPKT_AUDIO_OK")
      case True
      have all: "stored u = prebuffered s" "store_inv u"
        using vox_store.append_all_ok [of t "prebuffered s" u] u(1) True st by auto
      have hold: "stored u = drop (length H - vx_prebuffer_count s) H"
          "vx_prebuffer_count s \<le> length H" "length H \<le> size_max" "0 < vx_max_spool_frames s"
        using all(1) inv suffix_length_drop [of "prebuffered s" H] suffix_length_le [of "prebuffered s" H]
        by (auto simp: vox_idle_def)
      have tot: "vx_total_frame_count u = vx_prebuffer_count s"
        using all by (simp add: store_inv_def)
      have su: "vox_static u = vox_static s"
        using st static_store [OF fr] by simp
      note sb = static_bounds [OF su]
      have "vx_prebuffer_count s \<le> vx_prebuffer_capacity u"
        using inv sb(4) by (simp add: vox_idle_def prebuffer_inv_def)
      moreover have "prebuffer_inv u"
        using prebuffered_cong(2) [of u t] ff st by simp
      moreover have "seg_holds H u"
        using hold tot all(2) ff st by (simp add: seg_holds_def)
      ultimately have "vox_mid H s'"
        using ch' hold tot ff st sb(3) True unfolding vox_mid_def u(2)
        by (simp add: seg_holds_def less_max_iff_disj less_Suc_eq_le)
      then show ?thesis
        using ch' stat chained_sound tot True by (simp add: u(2))
    next
      case False
      with ch' stat chained_sound show ?thesis
        by auto
    qed
  qed
qed

lemma seg_holds_hi:
  assumes "seg_holds H s" "vx_max_segment_frames s \<noteq> 0 \<longrightarrow>
      vx_total_frame_count s \<le> max (vx_max_segment_frames s) (Suc (vx_prebuffer_capacity s))"
  shows "vx_total_frame_count s \<le> vox_hi s"
  using assms by (auto simp: vox_hi_def seg_holds_def store_inv_def)

lemma close_idle:
  assumes cl: "vox_close_segment st hc fin s = (r, s')"
    and h: "seg_holds H s" and p: "prebuffer_inv s" "vx_prebuffer_count s = 0"
    and sp: "0 < vx_max_spool_frames s" and src: "vx_source_frame_cursor s = length H"
    and ch: "vox_chained H (vx_segment_start_frame s) s" and hi: "vx_total_frame_count s \<le> vox_hi s"
  shows "vox_static s' = vox_static s \<and> vox_sound H s' \<and>
    (r = CPKT_AUDIO_OK \<longrightarrow> vox_idle H s' \<and> vx_prebuffer_count s' = 0 \<and>
      vx_callback_error s' = vx_callback_error s)"
proof -
  note fr = close_segment_frame [OF cl]
  note ff = emit_frame_fields [OF fr]
  have stat: "vox_static s' = vox_static s"
    by (rule static_emit [OF fr])
  note sb = static_bounds [OF stat]
  have cl': "vox_traced (vx_min_segment_frames s) (vox_hi s) H s' \<and>
    (r = CPKT_AUDIO_OK \<longrightarrow> vox_closed s' \<and> vox_linked (vx_min_segment_frames s) (vox_hi s) H (length H) s' \<and>
      vx_callback_error s' = vx_callback_error s)"
    using close_segment_linked [OF cl _ h refl hi] ch by (simp add: vox_chained_def)
  have pre: "prebuffered s' = []" "prebuffer_inv s'"
    using p prebuffered_cong [of s' s] ff(4,6,7,8) by (simp_all add: prebuffered_def)
  have "vox_idle H s'" if "r = CPKT_AUDIO_OK"
    using pre cl' that h sp src ff(3,7,9) sb p
    by (simp add: vox_idle_def vox_chained_def seg_holds_def store_inv_def)
  then show ?thesis
    using stat cl' ff(7) p sb by (simp add: vox_sound_def)
qed

lemma append_chained:
  assumes "cpkt_audio_vox_append_frame x s = (r, t)"
  shows "vox_chained H b t = vox_chained H b s" "vox_static t = vox_static s"
  using chained_cong [OF static_store [OF append_store_frame [OF assms]]]
    store_frame_fields [OF append_store_frame [OF assms]] static_store [OF append_store_frame [OF assms]]
  by simp_all

text \<open>Storing one more frame of the source in an open segment.\<close>

lemma append_holds:
  assumes ap: "cpkt_audio_vox_append_frame x s = (CPKT_AUDIO_OK, t)" and h: "seg_holds H s"
    and room: "length H < size_max"
  shows "seg_holds (H @ [x]) t" "vx_total_frame_count t = Suc (vx_total_frame_count s)"
proof -
  note ff = store_frame_fields [OF append_store_frame [OF ap]]
  show tot: "vx_total_frame_count t = Suc (vx_total_frame_count s)"
    by (rule append_frame_total [OF ap])
  have "stored t = stored s @ [x]" "store_inv t"
    using append_frame_ok [OF _ ap] h by (auto simp: seg_holds_def)
  then show "seg_holds (H @ [x]) t"
    using h room tot ff by (simp add: seg_holds_def)
qed

definition vox_noted :: "bool \<Rightarrow> vox_sys \<Rightarrow> vox_sys" where
  "vox_noted loud s = cpkt_audio_vox_note_loudness loud (cpkt_audio_vox_advance_source 1 s)"

lemma noted_keeps:
  assumes "vx_source_frame_cursor s < size_max"
  shows "\<exists>p q. vox_noted loud s =
    s\<lparr>vx_source_frame_cursor := Suc (vx_source_frame_cursor s), vx_speech_frame_count := p, vx_silence_frames := q\<rparr>"
proof (intro exI)
  show "vox_noted loud s = s\<lparr>vx_source_frame_cursor := Suc (vx_source_frame_cursor s),
      vx_speech_frame_count := vx_speech_frame_count (vox_noted loud s),
      vx_silence_frames := vx_silence_frames (vox_noted loud s)\<rparr>"
    using assms
    by (simp add: vox_noted_def cpkt_audio_vox_note_loudness_def cpkt_audio_vox_advance_source_def sz_simps)
qed

lemma append_noted_mid:
  assumes ap: "cpkt_audio_vox_append_frame x s = (CPKT_AUDIO_OK, t)" and mid: "vox_mid H s"
    and room: "length H < size_max"
    and vv: "v = t\<lparr>vx_source_frame_cursor := Suc (length H), vx_speech_frame_count := p, vx_silence_frames := q\<rparr>"
  shows "seg_holds (H @ [x]) v" "vx_total_frame_count v \<le> vox_hi v" "prebuffer_inv v"
    "vx_prebuffer_count v = 0" "0 < vx_max_spool_frames v" "vx_source_frame_cursor v = length (H @ [x])"
    "vox_chained (H @ [x]) (vx_segment_start_frame v) v" "vox_static v = vox_static s" "vx_open v"
    "0 < vx_total_frame_count v"
proof -
  note ff = store_frame_fields [OF append_store_frame [OF ap]]
  note ah = append_holds [OF ap _ room]
  have h: "seg_holds H s" using mid by (simp add: vox_mid_def)
  have eqs: "seg_holds K v = seg_holds K t" "vox_static v = vox_static t" "prebuffer_inv v = prebuffer_inv t"
      "vox_chained K b v = vox_chained K b t" for K b
    using chained_cong [of v t]
    by (simp_all add: vv seg_holds_def store_inv_def stored_def vox_static_def prebuffer_inv_def split: option.splits)
  show stat: "vox_static v = vox_static s"
    using eqs(2) append_chained(2) [OF ap] by simp
  note sb = static_bounds [OF stat]
  show hv: "seg_holds (H @ [x]) v"
    using ah(1) h eqs by simp
  have tot: "vx_total_frame_count v = Suc (vx_total_frame_count s)"
    using ah(2) h by (simp add: vv)
  then show "0 < vx_total_frame_count v" by simp
  have "vx_max_segment_frames v \<noteq> 0 \<longrightarrow>
      vx_total_frame_count v \<le> max (vx_max_segment_frames v) (Suc (vx_prebuffer_capacity v))"
    using mid tot sb by (auto simp: vox_mid_def)
  then show "vx_total_frame_count v \<le> vox_hi v"
    by (rule seg_holds_hi [OF hv])
  show "prebuffer_inv v"
    using eqs(3) mid ff prebuffered_cong(2) [of t s] by (simp add: vox_mid_def)
  show "vx_prebuffer_count v = 0" "vx_open v"
    using mid ff by (simp_all add: vox_mid_def vv)
  show "0 < vx_max_spool_frames v"
    using mid sb by (simp add: vox_mid_def)
  show "vx_source_frame_cursor v = length (H @ [x])"
    by (simp add: vv)
  have "vox_chained (H @ [x]) (vx_segment_start_frame s) s"
    using mid linked_mono [of _ _ H "vx_segment_start_frame s" s "vx_segment_start_frame s" "[x]"]
    by (simp add: vox_mid_def vox_chained_def)
  then show "vox_chained (H @ [x]) (vx_segment_start_frame v) v"
    using eqs(4) append_chained(1) [OF ap] ff by (simp add: vv)
qed

lemma sound_mono: "vox_sound H s \<Longrightarrow> vox_sound (H @ ys) s"
  by (simp add: vox_sound_def vox_traced_mono)

lemma mid_hi: "vox_mid H s \<Longrightarrow> vx_total_frame_count s \<le> vox_hi s"
  by (rule seg_holds_hi [of H]) (auto simp: vox_mid_def)

lemma push_open_retry: "vox_push_open loud x s = (FrameRetry, s') \<Longrightarrow> vx_max_spool_frames s \<le> vx_total_frame_count s"
  using append_frame_room [of s x]
  by (cases "vx_max_spool_frames s \<le> vx_total_frame_count s")
    (auto simp: vox_push_open_def step_of_def Let_def split: prod.splits if_splits)

lemma push_open_inv:
  assumes mid: "vox_mid H s" and room: "length H < size_max"
    and po: "vox_push_open loud x s = (st, s')"
  shows "vox_static s' = vox_static s \<and> vox_sound (H @ [x]) s' \<and> st \<noteq> FrameReturn CPKT_AUDIO_OK \<and>
    (st = FrameDone \<longrightarrow> vox_inv (H @ [x]) s') \<and>
    (st = FrameRetry \<longrightarrow> vox_idle H s' \<and> vx_prebuffer_count s' = 0)"
proof -
  obtain r t where ap: "cpkt_audio_vox_append_frame x s = (r, t)" by force
  have sound: "vox_sound H s"
    using mid chained_sound by (auto simp: vox_mid_def)
  consider (full) "r = CPKT_AUDIO_AT_END" | (fail) "r \<noteq> CPKT_AUDIO_AT_END" "r \<noteq> CPKT_AUDIO_OK"
    | (ok) "r = CPKT_AUDIO_OK" by blast
  then show ?thesis
  proof cases
    case full
    then have "t = s"
      using ap append_frame_room [of s x] append_frame_full [of s x]
      by (cases "vx_total_frame_count s < vx_max_spool_frames s") auto
    obtain q u where cl: "vox_close_segment CPKT_AUDIO_VOX_HARD_CUT True False s = (q, u)" by force
    with full ap po \<open>t = s\<close> have "st = (if q = CPKT_AUDIO_OK then FrameRetry else FrameReturn q)" "s' = u"
      by (auto simp: vox_push_open_def step_of_def split: if_splits)
    with close_idle [OF cl _ _ _ _ _ _ mid_hi [OF mid]] mid sound_mono show ?thesis
      by (auto simp: vox_mid_def)
  next
    case fail
    with po ap have s': "st = FrameReturn r" "s' = t"
      by (simp_all add: vox_push_open_def)
    have "vox_sound H t"
      using mid append_chained(1) [OF ap] by (auto simp: vox_mid_def intro: chained_sound)
    with s' fail append_chained(2) [OF ap] show ?thesis
      by (simp add: sound_mono)
  next
    case ok
    define v where v: "v = vox_noted loud t"
    have "vx_source_frame_cursor t = length H"
      using mid store_frame_fields [OF append_store_frame [OF ap]] by (simp add: vox_mid_def)
    with noted_keeps [of t loud] room obtain p q where
      "v = t\<lparr>vx_source_frame_cursor := Suc (length H), vx_speech_frame_count := p, vx_silence_frames := q\<rparr>"
      by (auto simp: v)
    note av = append_noted_mid [OF ap [unfolded ok] mid room this]
    have idle: "vox_static u = vox_static s \<and> vox_sound (H @ [x]) u \<and>
        (q = CPKT_AUDIO_OK \<longrightarrow> vox_idle (H @ [x]) u)" if "vox_close_segment state hc fin v = (q, u)" for state hc fin q u
      using close_idle [OF that av(1,3,4,5,6,7,2)] av(8) by auto
    have po': "(st, s') = (if vx_release_silence_frames v \<noteq> 0 \<and> vx_silence_frames v \<ge> vx_release_silence_frames v
        then step_of FrameDone (vox_close_segment CPKT_AUDIO_VOX_TX_OFF False False v)
        else if vx_max_segment_frames v \<noteq> 0 \<and> vx_total_frame_count v \<ge> vx_max_segment_frames v
        then step_of FrameDone (vox_close_segment CPKT_AUDIO_VOX_HARD_CUT True False v)
        else (FrameDone, v))"
      unfolding po [symmetric] v vox_noted_def vox_push_open_def ap ok Let_def by simp
    have inv: "vox_inv K u" if "vox_idle K u" for K u
      using that by (simp add: vox_inv_def vox_idle_def vox_closed_def)
    have stay: "vox_inv (H @ [x]) v" if "\<not> (vx_max_segment_frames v \<noteq> 0 \<and> vx_max_segment_frames v \<le> vx_total_frame_count v)"
      using that av by (auto simp: vox_inv_def vox_mid_def)
    have closing: ?thesis if "(st, s') = step_of FrameDone (vox_close_segment state hc fin v)" for state hc fin
    proof -
      obtain q u where c: "vox_close_segment state hc fin v = (q, u)" by force
      with that have "st = (if q = CPKT_AUDIO_OK then FrameDone else FrameReturn q)" "s' = u"
        by (auto simp: step_of_def split: if_splits)
      with idle [OF c] inv show ?thesis
        by auto
    qed
    show ?thesis
    proof (cases "(st, s') = (FrameDone, v)")
      case True
      show ?thesis
      proof (cases "\<not> (vx_max_segment_frames v \<noteq> 0 \<and> vx_max_segment_frames v \<le> vx_total_frame_count v)")
        case nm: True
        with True stay av(7,8) chained_sound show ?thesis
          by auto
      next
        case False
        with po' closing show ?thesis
          by (auto split: if_splits)
      qed
    next
      case False
      with po' closing show ?thesis
        by (auto split: if_splits)
    qed
  qed
qed

lemma push_frame_inv:
  assumes inv: "vox_inv H s" and room: "length H < size_max"
    and pf: "vox_push_frame x s = (st, s')"
  shows "vox_static s' = vox_static s \<and> vox_sound (H @ [x]) s' \<and> st \<noteq> FrameReturn CPKT_AUDIO_OK \<and>
    (st = FrameDone \<longrightarrow> vox_inv (H @ [x]) s') \<and>
    (st = FrameRetry \<longrightarrow> vox_inv H s' \<and> vx_prebuffer_count s' = 0 \<and> \<not> vx_open s')"
proof (cases "vx_open s")
  case True
  then have "vox_mid H s" "vox_push_open (f32_ge (cpkt_audio_absf x) (vx_threshold s)) x s = (st, s')"
    using inv pf by (simp_all add: vox_inv_def vox_push_frame_def Let_def)
  from push_open_inv [OF this(1) room this(2)] show ?thesis
    by (auto simp: vox_inv_def vox_idle_def vox_closed_def)
next
  case False
  then have idle: "vox_idle H s"
    using inv by (simp add: vox_inv_def)
  show ?thesis
  proof (cases "f32_ge (cpkt_audio_absf x) (vx_threshold s)")
    case quiet: False
    then have "st = FrameDone" "s' = cpkt_audio_vox_advance_source 1 (cpkt_audio_vox_prebuffer_frame x s)"
      using False pf by (simp_all add: vox_push_frame_def)
    moreover have "vox_static s' = vox_static s"
      using prebuffer_frame_keeps [of x s] calculation(2)
      by (auto simp: vox_static_def cpkt_audio_vox_advance_source_def)
    moreover note push_quiet [OF idle room, of x]
    ultimately show ?thesis
      by (auto simp: vox_inv_def vox_idle_def vox_closed_def intro: chained_sound)
  next
    case loud: True
    obtain r t where op: "vox_open_segment s = (r, t)" by force
    note om = open_segment_mid [OF idle op]
    show ?thesis
    proof (cases "r = CPKT_AUDIO_OK")
      case True
      then have "vox_push_open True x t = (st, s')"
        using False loud op pf by (simp add: vox_push_frame_def)
      from push_open_inv [OF _ room this] om True show ?thesis
        by (auto simp: vox_inv_def vox_idle_def vox_closed_def)
    next
      case fail: False
      then have "st = FrameReturn r" "s' = t"
        using False loud op pf by (simp_all add: vox_push_frame_def)
      with fail om sound_mono show ?thesis
        by auto
    qed
  qed
qed

text \<open>A frame retried after a cut does not ask for another retry: the emptied spool has room.\<close>

lemma push_frame_no_second_retry:
  assumes inv: "vox_inv H s" and cl: "\<not> vx_open s" "vx_prebuffer_count s = 0"
  shows "fst (vox_push_frame x s) \<noteq> FrameRetry"
proof
  assume "fst (vox_push_frame x s) = FrameRetry"
  then obtain s' where pf: "vox_push_frame x s = (FrameRetry, s')"
    by (metis prod.collapse)
  have idle: "vox_idle H s"
    using inv cl by (simp add: vox_inv_def)
  obtain r t where op: "vox_open_segment s = (r, t)" by force
  have po: "r = CPKT_AUDIO_OK" "vox_push_open True x t = (FrameRetry, s')"
    using pf cl op by (auto simp: vox_push_frame_def Let_def split: if_splits)
  have "vx_total_frame_count t = 0" "0 < vx_max_spool_frames t"
    using open_segment_mid [OF idle op] po(1) cl by (auto simp: vox_mid_def)
  with push_open_retry [OF po(2)] show False
    by simp
qed

lemma push_loop_Nil [simp]: "vox_push_loop [] s = Some (CPKT_AUDIO_OK, s)"
  by (simp add: vox_push_loop.simps)

lemma push_loop_Cons:
  "vox_push_loop (x # xs) s =
     (case vox_push_frame x s of
        (FrameDone, s) \<Rightarrow> vox_push_loop xs s
      | (FrameRetry, s) \<Rightarrow> vox_push_loop (x # xs) s
      | (FrameReturn r, s) \<Rightarrow> Some (r, s))"
  by (subst vox_push_loop.simps) simp

lemma push_loop_inv:
  assumes "vox_inv H s" "length H + length xs \<le> size_max"
  shows "\<exists>r s'. vox_push_loop xs s = Some (r, s') \<and> vox_static s' = vox_static s \<and>
    vox_sound (H @ xs) s' \<and> (r = CPKT_AUDIO_OK \<longrightarrow> vox_inv (H @ xs) s')"
  using assms
proof (induction xs arbitrary: H s)
  case Nil
  then show ?case
    by (auto simp: vox_inv_def vox_mid_def vox_idle_def intro: chained_sound split: if_splits)
next
  case (Cons x xs)
  have room: "length H < size_max" using Cons.prems(2) by simp
  have step: ?case if inv: "vox_inv H t" and stat: "vox_static t = vox_static s"
      and pf: "vox_push_frame x t = (st, u)" and st: "st \<noteq> FrameRetry"
      and go: "vox_push_loop (x # xs) s = vox_push_loop (x # xs) t" for t st u
  proof -
    note pi = push_frame_inv [OF inv room pf]
    show ?thesis
    proof (cases st)
      case FrameDone
      with Cons.IH [of "H @ [x]" u] pi stat Cons.prems(2) pf show ?thesis
        unfolding go push_loop_Cons [of x xs t] by auto
    next
      case (FrameReturn r)
      with pi stat sound_mono [of "H @ [x]" u xs] pf show ?thesis
        unfolding go push_loop_Cons [of x xs t] by auto
    qed (use st in simp)
  qed
  obtain st t where pf: "vox_push_frame x s = (st, t)" by force
  show ?case
  proof (cases "st = FrameRetry")
    case True
    note pi = push_frame_inv [OF Cons.prems(1) room pf]
    obtain st' u where pf': "vox_push_frame x t = (st', u)" by force
    have "st' \<noteq> FrameRetry"
      using push_frame_no_second_retry [of H t x] pi True pf' by auto
    then show ?thesis
      using step [OF _ _ pf'] pi True pf push_loop_Cons [of x xs s] by simp
  next
    case False
    with step [OF Cons.prems(1) refl pf] show ?thesis
      by simp
  qed
qed

lemma flush_inv:
  assumes inv: "vox_inv H s" and fl: "cpkt_audio_vox_flush_impl (Some s) = (r, s')"
  shows "\<exists>t. s' = Some t \<and> vox_static t = vox_static s \<and> vox_sound H t \<and>
    (r = CPKT_AUDIO_OK \<longrightarrow> vox_inv H t \<and> \<not> vx_open t)"
proof (cases "vx_callback_error s \<or> \<not> vx_open s")
  case True
  with inv fl show ?thesis
    by (auto simp: cpkt_audio_vox_flush_impl_def vox_inv_def vox_mid_def vox_idle_def intro: chained_sound
        split: if_splits)
next
  case False
  then have mid: "vox_mid H s" "0 < vx_total_frame_count s"
    using inv by (simp_all add: vox_inv_def)
  obtain q t where cl: "vox_close_segment CPKT_AUDIO_VOX_TX_OFF False True s = (q, t)" by force
  have "r = q" "s' = Some t"
    using fl cl False mid(2) by (simp_all add: cpkt_audio_vox_flush_impl_def)
  with close_idle [OF cl _ _ _ _ _ _ mid_hi [OF mid(1)]] mid(1) show ?thesis
    by (auto simp: vox_mid_def vox_inv_def vox_idle_def vox_closed_def)
qed

section \<open>Opening establishes the invariant\<close>

definition malloc_ok :: "(nat \<Rightarrow> nat \<Rightarrow> f32 list option) \<Rightarrow> bool" where
  "malloc_ok malloc \<longleftrightarrow> (\<forall>i n xs. malloc i n = Some xs \<longrightarrow> length xs = n)"

lemma spool_limits_Some:
  assumes "spool_limits mb xb = Some (m, x)"
  shows "0 < m \<and> m \<le> x \<and> m \<le> size_max div 4"
  using assms by (auto simp: spool_limits_def Let_def div_le_mono split: if_splits)

lemma vox_settings_Some:
  assumes "vox_settings c = Some (rel, mx, mn, pre, mem, sp)"
  shows "0 < mem \<and> mem \<le> sp \<and> mn \<le> sp \<and> (mx \<noteq> 0 \<longrightarrow> mn \<le> mx) \<and> 0 < rel \<and> 0 < mn \<and> 0 < pre"
  using assms spool_limits_Some [of "vc_memory_spool_bytes c" "vc_max_spool_bytes c" mem sp]
  by (auto simp: vox_settings_def Let_def cpkt_audio_ms_to_16k_frames_def split: option.splits if_splits)

lemma vox_open_inv:
  assumes "malloc_ok malloc" "cpkt_audio_vox_open malloc io on cfg = (CPKT_AUDIO_OK, s)"
  shows "\<exists>t. s = Some t \<and> vox_inv [] t \<and> vx_min_segment_frames t \<le> vx_max_spool_frames t \<and>
    (vx_max_segment_frames t \<noteq> 0 \<longrightarrow> vx_min_segment_frames t \<le> vx_max_segment_frames t) \<and>
    0 < vx_min_segment_frames t \<and> 0 < vx_release_silence_frames t \<and> 0 < vx_prebuffer_capacity t \<and>
    f32_less 0 (vx_threshold t)"
proof -
  obtain c sink rel mx mn pre mem sp fr pb where
    c: "cfg = Some c" "vc_segment_sink c = Some sink" "vox_settings c = Some (rel, mx, mn, pre, mem, sp)"
    and fr: "malloc 2 mem = Some fr" and pb: "malloc 3 pre = Some pb"
    and s: "s = Some (vox_blank\<lparr>vx_segment_sink := sink, vx_state_sink := vc_state_sink c,
                     vx_frames := fr, vx_prebuffer_frames := pb,
                     vx_release_silence_frames := rel,
                     vx_max_segment_frames := mx,
                     vx_min_segment_frames := mn,
                     vx_frame_capacity := mem,
                     vx_prebuffer_capacity := pre,
                     vx_max_spool_frames := sp,
                     vx_threshold :=
                       (if f32_less 0 (vc_threshold c) then vc_threshold c else f32_0_05),
                     vx_io := io\<rparr>)"
    using assms(2) vox_settings_Some
    by (fastforce simp: cpkt_audio_vox_open_def split: option.splits if_splits prod.splits)
  have len: "length fr = mem" "length pb = pre"
    using assms(1) fr pb by (auto simp: malloc_ok_def)
  have thr: "f32_less 0 (if f32_less 0 (vc_threshold c) then vc_threshold c else f32_0_05)"
    by (auto simp: f32_0_05_def f32_less_def f32_key_def f32_mag_def f32_nan_def)
  show ?thesis
    using vox_settings_Some [OF c(3)] len thr chain_nil unfolding s
    by (auto simp: vox_blank_def vox_inv_def vox_idle_def vox_closed_def prebuffer_inv_def prebuffered_def
        vox_chained_def vox_linked_def sz_def intro!: exI [of _ 0])
qed

section \<open>Use of a segmenter\<close>

text \<open>
  A use of a VOX segmenter: it is opened, then frames are pushed and the segmenter flushed, each
  call returning OK. \<open>H\<close> collects all frames pushed.
\<close>

inductive vox_reach :: "f32 list \<Rightarrow> vox_sys \<Rightarrow> bool" where
  reach_open: "malloc_ok malloc \<Longrightarrow>
    cpkt_audio_vox_open malloc io False (Some config) = (CPKT_AUDIO_OK, Some s) \<Longrightarrow> vox_reach [] s"
| reach_push: "vox_reach H s \<Longrightarrow> length H + length xs \<le> size_max \<Longrightarrow>
    cpkt_audio_vox_push_f32_mono_16k_impl (Some s) (Some xs) (length xs) = Some (CPKT_AUDIO_OK, Some s') \<Longrightarrow>
    vox_reach (H @ xs) s'"
| reach_flush: "vox_reach H s \<Longrightarrow> cpkt_audio_vox_flush_impl (Some s) = (CPKT_AUDIO_OK, Some s') \<Longrightarrow>
    vox_reach H s'"

lemma push_impl_inv:
  assumes inv: "vox_inv H s" and room: "length H + length xs \<le> size_max"
  shows "\<exists>r s'. cpkt_audio_vox_push_f32_mono_16k_impl (Some s) (Some xs) (length xs) = Some (r, Some s') \<and>
    vox_static s' = vox_static s \<and> vox_sound (H @ xs) s' \<and> (r = CPKT_AUDIO_OK \<longrightarrow> vox_inv (H @ xs) s')"
proof (cases "vx_callback_error s")
  case True
  have "vox_sound H s"
    using inv by (auto simp: vox_inv_def vox_mid_def vox_idle_def intro: chained_sound split: if_splits)
  with True show ?thesis
    by (simp add: cpkt_audio_vox_push_f32_mono_16k_impl_def sound_mono)
next
  case False
  with push_loop_inv [OF inv room] show ?thesis
    by (auto simp: cpkt_audio_vox_push_f32_mono_16k_impl_def)
qed

lemma vox_reach_inv: "vox_reach H s \<Longrightarrow> vox_inv H s"
proof (induction rule: vox_reach.induct)
  case (reach_open malloc io config s)
  then show ?case
    using vox_open_inv by fastforce
next
  case (reach_push H s xs s')
  with push_impl_inv [OF reach_push.IH reach_push.hyps(2)] show ?case
    by auto
next
  case (reach_flush H s s')
  with flush_inv [OF reach_flush.IH reach_flush.hyps(2)] show ?case
    by auto
qed

definition vox_demo_config :: cpkt_audio_vox_config where
  "vox_demo_config = \<lparr>vc_threshold = 0x3F000000, vc_release_silence_ms = 1, vc_prebuffer_ms = 1,
     vc_max_segment_ms = 0, vc_min_segment_ms = 1, vc_memory_spool_bytes = 16, vc_max_spool_bytes = 256,
     vc_segment_sink = Some (\<lambda>_ _. SinkRead 64 (\<lambda>_ _. SinkReturn 0)), vc_state_sink = Some (\<lambda>_ _. 0)\<rparr>"

definition vox_demo :: vox_sys where
  "vox_demo = the (snd (cpkt_audio_vox_open (\<lambda>_ n. Some (replicate n 0)) (\<lambda>_. None) False (Some vox_demo_config)))"

lemma vox_demo_reach: "vox_reach [] vox_demo"
proof -
  have "\<exists>s. cpkt_audio_vox_open (\<lambda>_ n. Some (replicate n 0)) (\<lambda>_. None) False (Some vox_demo_config) =
      (CPKT_AUDIO_OK, Some s)"
    by (simp add: cpkt_audio_vox_open_def vox_demo_config_def vox_settings_def spool_limits_def
        cpkt_audio_ms_to_16k_frames_def c_limits Let_def)
  then have "cpkt_audio_vox_open (\<lambda>_ n. Some (replicate n 0)) (\<lambda>_. None) False (Some vox_demo_config) =
      (CPKT_AUDIO_OK, Some vox_demo)"
    by (auto simp: vox_demo_def)
  then show ?thesis
    by (rule reach_open [rotated]) (simp add: malloc_ok_def)
qed

section \<open>Properties\<close>



text \<open>
  Flushing a VOX segmenter in use emits what is pending as one more honest segment, and on success
  leaves no segment open; the segmenter can be used again.
\<close>

lemma vox_flush_segments:
  assumes "vox_reach H s" "cpkt_audio_vox_flush_impl (Some s) = (r, s')"
  shows "\<exists>t k e. s' = Some t \<and> seg_chain (vx_min_segment_frames s) (vox_hi s) H (vx_trace t) k e \<and>
    (r = CPKT_AUDIO_OK \<longrightarrow> vox_reach H t \<and> \<not> vx_open t)"
proof -
  from flush_inv [OF vox_reach_inv [OF assms(1)] assms(2)] obtain t where
    t: "s' = Some t" "vox_static t = vox_static s" "vox_sound H t" "r = CPKT_AUDIO_OK \<longrightarrow> \<not> vx_open t"
    by blast
  moreover have "r = CPKT_AUDIO_OK \<longrightarrow> vox_reach H t"
    using reach_flush [OF assms(1)] assms(2) t(1) by blast
  ultimately show ?thesis
    using static_bounds [OF t(2)] by (auto simp: vox_sound_def vox_traced_def)
qed

text \<open>With no segment open, quiet frames go through the prebuffer and nothing else happens.\<close>

lemma push_quiet_loop:
  assumes "vox_idle H s" "length H + length xs \<le> size_max"
    and "\<forall>x\<in>set xs. \<not> f32_ge (cpkt_audio_absf x) (vx_threshold s)"
  shows "\<exists>s'. vox_push_loop xs s = Some (CPKT_AUDIO_OK, s') \<and> vox_idle (H @ xs) s' \<and> vx_trace s' = vx_trace s \<and>
    prebuffered s' = lastn (vx_prebuffer_capacity s) (prebuffered s @ xs)"
  using assms
proof (induction xs arbitrary: H s)
  case Nil
  then have "length (prebuffered s) \<le> vx_prebuffer_capacity s"
    by (simp add: vox_idle_def prebuffer_inv_def)
  with Nil show ?case
    by (simp add: lastn_def)
next
  case (Cons x xs)
  let ?t = "cpkt_audio_vox_advance_source 1 (cpkt_audio_vox_prebuffer_frame x s)"
  obtain cells n c where t: "cpkt_audio_vox_prebuffer_frame x s =
      s\<lparr>vx_prebuffer_frames := cells, vx_prebuffer_count := n, vx_prebuffer_cursor := c\<rparr>"
    using prebuffer_frame_keeps by blast
  have keep: "vx_trace ?t = vx_trace s" "vx_threshold ?t = vx_threshold s"
      "vx_prebuffer_capacity ?t = vx_prebuffer_capacity s"
      "prebuffered ?t = prebuffered (cpkt_audio_vox_prebuffer_frame x s)"
    by (simp_all add: t cpkt_audio_vox_advance_source_def prebuffered_def)
  have idle: "vox_idle (H @ [x]) ?t"
    by (rule push_quiet [OF Cons.prems(1)]) (use Cons.prems(2) in simp)
  have pre: "prebuffered ?t = lastn (vx_prebuffer_capacity s) (prebuffered s @ [x])"
    using keep(4) vox_ring.push_items [of s x] Cons.prems(1) by (simp add: vox_idle_def)
  have "vox_push_frame x s = (FrameDone, ?t)"
    using Cons.prems(1,3) by (simp add: vox_push_frame_def vox_idle_def vox_closed_def)
  then have go: "vox_push_loop (x # xs) s = vox_push_loop xs ?t"
    by (simp add: push_loop_Cons)
  from Cons.IH [OF idle] Cons.prems(2,3) keep pre show ?case
    unfolding go by (simp add: lastn_append_lastn)
qed

text \<open>A loud frame opens a segment that starts with the prebuffered frames.\<close>

lemma open_segment_start:
  assumes "vox_idle H s" "vox_open_segment s = (CPKT_AUDIO_OK, t)"
  shows "vx_segment_start_frame t = length H - vx_prebuffer_count s"
proof -
  obtain q u where es: "cpkt_audio_vox_emit_state CPKT_AUDIO_VOX_TX_ON (vox_opened s) = (q, u)" by force
  then have ap: "cpkt_audio_vox_append_prebuffer u = (CPKT_AUDIO_OK, t)"
    using assms(2) by (auto simp: vox_open_segment_def vox_opened_def Let_def split: if_splits)
  then obtain v where "vox_store.append_all (prebuffered u) u = (CPKT_AUDIO_OK, v)"
      "t = cpkt_audio_vox_reset_prebuffer v"
    using append_prebuffer_cases [of u CPKT_AUDIO_OK t] by auto
  then show ?thesis
    using store_frame_fields [OF append_all_frame] open_segment_state [OF assms(1) es] by simp
qed

lemma push_open_start:
  assumes mid: "vox_mid H s" and room: "length H < size_max"
    and po: "vox_push_open loud x s = (FrameDone, s')" and op: "vx_open s'"
  shows "vx_segment_start_frame s' = vx_segment_start_frame s"
proof -
  obtain r t where ap: "cpkt_audio_vox_append_frame x s = (r, t)" by force
  have ok: "r = CPKT_AUDIO_OK"
    using po ap by (auto simp: vox_push_open_def step_of_def split: if_splits prod.splits)
  note ff = store_frame_fields [OF append_store_frame [OF ap]]
  define v where v: "v = vox_noted loud t"
  have "vx_source_frame_cursor t = length H"
    using mid ff by (simp add: vox_mid_def)
  with noted_keeps [of t loud] room obtain p q where
    vt: "v = t\<lparr>vx_source_frame_cursor := Suc (length H), vx_speech_frame_count := p, vx_silence_frames := q\<rparr>"
    by (auto simp: v)
  note av = append_noted_mid [OF ap [unfolded ok] mid room vt]
  have "\<not> vx_open u" if "vox_close_segment state hc fin v = (CPKT_AUDIO_OK, u)" for state hc fin u
    using close_idle [OF that av(1,3,4,5,6,7,2)] by (simp add: vox_idle_def vox_closed_def)
  moreover have "v = s' \<or> (\<exists>state hc fin. step_of FrameDone (vox_close_segment state hc fin v) = (FrameDone, s'))"
    using po unfolding v vox_noted_def vox_push_open_def ap ok Let_def
    by (simp split: if_splits) blast+
  ultimately have "s' = v"
    using op by (fastforce simp: step_of_def split: if_splits prod.splits)
  with vt ff show ?thesis
    by simp
qed

lemma push_loud_opens:
  assumes idle: "vox_idle H s" and room: "length H < size_max" and fit: "vx_prebuffer_count s < vx_max_spool_frames s"
    and loud: "f32_ge (cpkt_audio_absf x) (vx_threshold s)"
    and pl: "vox_push_loop [x] s = Some (CPKT_AUDIO_OK, s')" and op: "vx_open s'"
  shows "vx_segment_start_frame s' = length H - vx_prebuffer_count s \<and> stored s' = prebuffered s @ [x]"
proof -
  have inv: "vox_inv H s" and cl: "\<not> vx_open s"
    using idle by (simp_all add: vox_inv_def vox_idle_def vox_closed_def)
  obtain st u where pf: "vox_push_frame x s = (st, u)" by force
  note pi = push_frame_inv [OF inv room pf]
  obtain r t where os: "vox_open_segment s = (r, t)" by force
  note om = open_segment_mid [OF idle os]
  have "r = CPKT_AUDIO_OK"
    using pl pf os loud cl pi
    by (auto simp: push_loop_Cons vox_push_frame_def split: if_splits frame_step.splits)
  then have ok: "vox_open_segment s = (CPKT_AUDIO_OK, t)" "vox_mid H t" "vx_total_frame_count t = vx_prebuffer_count s"
    using os om by simp_all
  have po: "vox_push_open True x t = (st, u)"
    using pf os loud cl \<open>r = CPKT_AUDIO_OK\<close> by (simp add: vox_push_frame_def)
  have "st \<noteq> FrameRetry"
    using push_open_retry [of True x t u] po ok(3) fit static_bounds(3) [of t s] om by auto
  then have "st = FrameDone" "s' = u"
    using pl pf pi by (auto simp: push_loop_Cons split: frame_step.splits)
  then have start: "vx_segment_start_frame s' = length H - vx_prebuffer_count s"
    using push_open_start [OF ok(2) room] po op open_segment_start [OF idle ok(1)] by auto
  have "stored s' = drop (vx_segment_start_frame s') (H @ [x])"
    using pi \<open>st = FrameDone\<close> \<open>s' = u\<close> op by (auto simp: vox_inv_def vox_mid_def seg_holds_def)
  also have "\<dots> = prebuffered s @ [x]"
    using start suffix_length_drop [of "prebuffered s" H] idle by (simp add: vox_idle_def)
  finally show ?thesis
    using start by simp
qed

lemma vox_reach_capacity: "vox_reach H s \<Longrightarrow> 0 < vx_prebuffer_capacity s"
proof (induction rule: vox_reach.induct)
  case (reach_open malloc io config s)
  then show ?case
    using vox_open_inv by fastforce
next
  case (reach_push H s xs s')
  then show ?case
    using push_impl_inv [OF vox_reach_inv [OF reach_push.hyps(1)] reach_push.hyps(2)] static_bounds(4) [of s' s] by auto
next
  case (reach_flush H s s')
  then show ?case
    using flush_inv [OF vox_reach_inv [OF reach_flush.hyps(1)] reach_flush.hyps(2)] static_bounds(4) [of s' s] by auto
qed

text \<open>
  C28: Between calls an open segment holds exactly the frames pushed since its start frame, stays within
  the spool limit and, where a maximum length is set, below it; with no segment open the spool is empty
  and the prebuffer holds the most recent frames pushed. Frames below the threshold pushed while no
  segment is open cause no callback and go through the prebuffer, which then holds the last
  \<open>prebuffer_capacity\<close> (never zero) of what it held followed by the new frames. A frame at or above the
  threshold that opens a segment, where the prebuffered frames leave room in the spool, starts it with
  all of the prebuffered frames and then that frame, and the start frame says so.
\<close>

theorem vox_buffers_history:
  assumes "vox_reach H s"
  shows "(if vx_open s
     then stored s = drop (vx_segment_start_frame s) H \<and> vx_segment_start_frame s < length H \<and>
       length (stored s) \<le> vx_max_spool_frames s \<and>
       (vx_max_segment_frames s \<noteq> 0 \<longrightarrow> length (stored s) < vx_max_segment_frames s)
     else stored s = [] \<and> suffix (prebuffered s) H) \<and> vx_source_frame_cursor s = length H \<and>
   0 < vx_prebuffer_capacity s \<and>
   (\<not> vx_open s \<and> \<not> vx_callback_error s \<and> length H + length xs \<le> size_max \<and>
      (\<forall>x\<in>set xs. \<not> f32_ge (cpkt_audio_absf x) (vx_threshold s)) \<longrightarrow>
      (\<exists>s'. cpkt_audio_vox_push_f32_mono_16k_impl (Some s) (Some xs) (length xs) = Some (CPKT_AUDIO_OK, Some s') \<and>
        \<not> vx_open s' \<and> vx_trace s' = vx_trace s \<and>
        prebuffered s' = lastn (vx_prebuffer_capacity s) (prebuffered s @ xs))) \<and>
   (\<not> vx_open s \<and> length H < size_max \<and> length (prebuffered s) < vx_max_spool_frames s \<and>
      f32_ge (cpkt_audio_absf x) (vx_threshold s) \<and>
      cpkt_audio_vox_push_f32_mono_16k_impl (Some s) (Some [x]) 1 = Some (CPKT_AUDIO_OK, Some s'') \<and> vx_open s'' \<longrightarrow>
      vx_segment_start_frame s'' = length H - length (prebuffered s) \<and> stored s'' = prebuffered s @ [x])"
proof (intro conjI impI; (elim conjE)?)
  note inv = vox_reach_inv [OF assms]
  show "if vx_open s
     then stored s = drop (vx_segment_start_frame s) H \<and> vx_segment_start_frame s < length H \<and>
       length (stored s) \<le> vx_max_spool_frames s \<and>
       (vx_max_segment_frames s \<noteq> 0 \<longrightarrow> length (stored s) < vx_max_segment_frames s)
     else stored s = [] \<and> suffix (prebuffered s) H"
    using inv
    by (auto simp: vox_inv_def vox_mid_def vox_idle_def seg_holds_def store_inv_def vox_closed_def stored_def)
  show "vx_source_frame_cursor s = length H"
    using inv by (auto simp: vox_inv_def vox_mid_def vox_idle_def split: if_splits)
  show "0 < vx_prebuffer_capacity s"
    by (rule vox_reach_capacity [OF assms])
next
  assume "\<not> vx_open s" "\<not> vx_callback_error s" "length H + length xs \<le> size_max"
    "\<forall>x\<in>set xs. \<not> f32_ge (cpkt_audio_absf x) (vx_threshold s)"
  with push_quiet_loop [of H s xs] vox_reach_inv [OF assms]
  show "\<exists>s'. cpkt_audio_vox_push_f32_mono_16k_impl (Some s) (Some xs) (length xs) = Some (CPKT_AUDIO_OK, Some s') \<and>
      \<not> vx_open s' \<and> vx_trace s' = vx_trace s \<and>
      prebuffered s' = lastn (vx_prebuffer_capacity s) (prebuffered s @ xs)"
    by (auto simp: cpkt_audio_vox_push_f32_mono_16k_impl_def vox_inv_def vox_idle_def vox_closed_def)
next
  assume a: "\<not> vx_open s" "length H < size_max" "length (prebuffered s) < vx_max_spool_frames s"
    "f32_ge (cpkt_audio_absf x) (vx_threshold s)"
    "cpkt_audio_vox_push_f32_mono_16k_impl (Some s) (Some [x]) 1 = Some (CPKT_AUDIO_OK, Some s'')" "vx_open s''"
  then have "vox_idle H s" "vox_push_loop [x] s = Some (CPKT_AUDIO_OK, s'')"
    using vox_reach_inv [OF assms]
    by (auto simp: cpkt_audio_vox_push_f32_mono_16k_impl_def vox_inv_def split: if_splits)
  from push_loud_opens [OF this(1) a(2) _ a(4) this(2) a(6)] a(3)
  show "vx_segment_start_frame s'' = length H - length (prebuffered s)" "stored s'' = prebuffered s @ [x]"
    by simp_all
qed

lemma vox_demo_loudness:
  "\<not> f32_ge (cpkt_audio_absf 0) 0x3F000000" "\<not> f32_ge (cpkt_audio_absf 1) 0x3F000000"
  "f32_ge (cpkt_audio_absf 0x3F800000) 0x3F000000"
  by (simp_all add: f32_ge_def f32_less_def f32_key_def f32_mag_def f32_nan_def cpkt_audio_absf_def)

lemma vox_demo_state:
  "vox_demo = vox_blank\<lparr>vx_segment_sink := (\<lambda>_ _. SinkRead 64 (\<lambda>_ _. SinkReturn 0)), vx_state_sink := Some (\<lambda>_ _. 0),
     vx_frames := replicate 4 0, vx_prebuffer_frames := replicate 16 0, vx_release_silence_frames := 16,
     vx_max_segment_frames := 0, vx_min_segment_frames := 16, vx_frame_capacity := 4,
     vx_prebuffer_capacity := 16, vx_max_spool_frames := 64, vx_threshold := 0x3F000000, vx_io := (\<lambda>_. None)\<rparr>"
  by (simp add: vox_demo_def cpkt_audio_vox_open_def vox_demo_config_def vox_settings_def spool_limits_def
        cpkt_audio_ms_to_16k_frames_def c_limits Let_def
        f32_less_def f32_key_def f32_mag_def f32_nan_def)

definition vox_demo_quiet :: vox_sys where
  "vox_demo_quiet = the (snd (the (cpkt_audio_vox_push_f32_mono_16k_impl (Some vox_demo) (Some [0, 1]) 2)))"

definition vox_demo_loud :: vox_sys where
  "vox_demo_loud = the (snd (the (cpkt_audio_vox_push_f32_mono_16k_impl (Some vox_demo_quiet)
     (Some [0x3F800000]) 1)))"

lemma vox_demo_runs:
  "\<not> vx_open vox_demo" "\<not> vx_callback_error vox_demo" "vx_prebuffer_capacity vox_demo = 16"
  "vx_threshold vox_demo = 0x3F000000" "prebuffered vox_demo = []"
  "vx_max_spool_frames vox_demo_quiet = 64" "vx_threshold vox_demo_quiet = 0x3F000000"
  "cpkt_audio_vox_push_f32_mono_16k_impl (Some vox_demo_quiet) (Some [0x3F800000]) 1 =
     Some (CPKT_AUDIO_OK, Some vox_demo_loud)" "vx_open vox_demo_loud"
  by (simp_all add: vox_demo_loud_def vox_demo_quiet_def vox_demo_state vox_blank_def prebuffered_def
      cpkt_audio_vox_push_f32_mono_16k_impl_def push_loop_Cons vox_push_frame_def vox_demo_loudness
      cpkt_audio_vox_prebuffer_frame_def cpkt_audio_vox_advance_source_def vox_open_segment_def Let_def
      cpkt_audio_vox_emit_state_def cpkt_audio_vox_append_prebuffer_def append_prebuffer_loop_all
      cpkt_audio_vox_append_frame_def vox_push_open_def cpkt_audio_vox_note_loudness_def
      cpkt_audio_vox_reset_prebuffer_def sz_def c_limits numeral_2_eq_2 upt_rec)

theorem vox_buffers_history_witness:
  "prebuffered vox_demo_quiet = [0, 1] \<and> vx_open vox_demo_loud \<and>
   stored vox_demo_loud = [0, 1, 0x3F800000] \<and> vx_segment_start_frame vox_demo_loud = 0"
proof -
  have "\<exists>s. cpkt_audio_vox_push_f32_mono_16k_impl (Some vox_demo) (Some [0, 1]) 2 = Some (CPKT_AUDIO_OK, Some s) \<and>
      \<not> vx_open s \<and> prebuffered s = lastn 16 [0, 1]"
    using vox_buffers_history [OF vox_demo_reach, of "[0, 1]"] vox_demo_runs vox_demo_loudness
    by (auto simp: c_limits numeral_2_eq_2)
  then have q: "cpkt_audio_vox_push_f32_mono_16k_impl (Some vox_demo) (Some [0, 1]) 2 = Some (CPKT_AUDIO_OK, Some vox_demo_quiet)"
      "\<not> vx_open vox_demo_quiet" "prebuffered vox_demo_quiet = [0, 1]"
    by (auto simp: vox_demo_quiet_def lastn_def)
  have reach: "vox_reach [0, 1] vox_demo_quiet"
    using reach_push [OF vox_demo_reach, of "[0, 1]" vox_demo_quiet] q(1) by (simp add: c_limits numeral_2_eq_2)
  show ?thesis
    using vox_buffers_history [OF reach, of "[]" "0x3F800000" vox_demo_loud] q vox_demo_runs vox_demo_loudness
    by (simp add: c_limits)
qed

text \<open>
  A configuration that \<open>cpkt_audio_vox_open\<close> accepts gives a working segmenter: the invariant holds
  for the empty history, segments of the minimum length fit both the spool and the maximum length, the
  defaults replace zero settings, and the threshold is a positive number.
\<close>

lemma vox_open_valid:
  assumes "malloc_ok malloc" "cpkt_audio_vox_open malloc io on cfg = (CPKT_AUDIO_OK, s)"
  shows "\<exists>t. s = Some t \<and> vox_inv [] t \<and> vx_min_segment_frames t \<le> vx_max_spool_frames t \<and>
    (vx_max_segment_frames t \<noteq> 0 \<longrightarrow> vx_min_segment_frames t \<le> vx_max_segment_frames t) \<and>
    0 < vx_min_segment_frames t \<and> 0 < vx_release_silence_frames t \<and> 0 < vx_prebuffer_capacity t \<and>
    f32_less 0 (vx_threshold t)"
  by (rule vox_open_inv [OF assms])

end
