(* ===== verification/Audio_Ptt.thy ===== *)
theory Audio_Ptt
  imports Audio_Vox
begin

text \<open>
  The push-to-talk segmenter of \<^verbatim>\<open>src/audio.c\<close>: \<^verbatim>\<open>cpkt_audio_ptt_open\<close> and the press, release,
  push, flush and destroy methods. It shares the structure, the storage and the emission with VOX;
  the button decides what is recorded. The invariant \<open>ptt_inv H\<close> reuses the VOX predicates on storage
  and trace, so the same chain of slices is its specification.
\<close>

section \<open>Operations\<close>

text \<open>
  \<open>impl->config\<close> keeps only the sinks; the VOX settings stay zero.
\<close>

definition cpkt_audio_ptt_press_impl :: "vox_sys option \<Rightarrow> cpkt_audio_result \<times> vox_sys option" where
  "cpkt_audio_ptt_press_impl self =
     (case self of
        None \<Rightarrow> (CPKT_AUDIO_ERR_ARG, None)
      | Some s \<Rightarrow>
          if vx_callback_error s then (CPKT_AUDIO_ERR_IO, Some s)
          else
            let s = s\<lparr>vx_ptt_pressed := True\<rparr> in
            if vx_open s then (CPKT_AUDIO_OK, Some s)
            else
              map_prod id Some (cpkt_audio_vox_emit_state CPKT_AUDIO_VOX_TX_ON
                (s\<lparr>vx_open := True,
                   vx_segment_start_frame := vx_source_frame_cursor s,
                   vx_silence_frames := 0,
                   vx_memory_frame_count := 0,
                   vx_total_frame_count := 0,
                   vx_speech_frame_count := 0,
                   vx_read_cursor := 0\<rparr>)))"

definition cpkt_audio_ptt_release_impl :: "vox_sys option \<Rightarrow> cpkt_audio_result \<times> vox_sys option" where
  "cpkt_audio_ptt_release_impl self =
     (case self of
        None \<Rightarrow> (CPKT_AUDIO_ERR_ARG, None)
      | Some s \<Rightarrow>
          if vx_callback_error s then (CPKT_AUDIO_ERR_IO, Some s)
          else
            let s = s\<lparr>vx_ptt_pressed := False\<rparr> in
            if \<not> vx_open s then (CPKT_AUDIO_OK, Some s)
            else
              let (r, s) = cpkt_audio_vox_emit_state CPKT_AUDIO_VOX_TX_OFF s in
              if r \<noteq> CPKT_AUDIO_OK then (r, Some s)
              else if vx_total_frame_count s = 0
              then (CPKT_AUDIO_OK, Some (cpkt_audio_vox_reset_segment s))
              else map_prod id Some (cpkt_audio_vox_emit False False s))"

definition ptt_push_open :: "f32 \<Rightarrow> vox_sys \<Rightarrow> frame_step \<times> vox_sys" where
  "ptt_push_open frame s =
     (let (r, s) = cpkt_audio_vox_append_frame frame s in
      if r = CPKT_AUDIO_AT_END then
        step_of FrameRetry (vox_close_segment CPKT_AUDIO_VOX_HARD_CUT True False s)
      else if r \<noteq> CPKT_AUDIO_OK then (FrameReturn r, s)
      else
        let s = cpkt_audio_vox_advance_source 1 s;
            s = s\<lparr>vx_speech_frame_count := sz (vx_speech_frame_count s + 1)\<rparr>
        in
        if vx_max_segment_frames s \<noteq> 0 \<and> vx_total_frame_count s \<ge> vx_max_segment_frames s then
          step_of FrameDone (vox_close_segment CPKT_AUDIO_VOX_HARD_CUT True False s)
        else (FrameDone, s))"

definition ptt_push_frame :: "f32 \<Rightarrow> vox_sys \<Rightarrow> frame_step \<times> vox_sys" where
  "ptt_push_frame frame s =
     (if \<not> vx_open s then
        (case cpkt_audio_ptt_press_impl (Some s) of
           (r, Some s) \<Rightarrow> if r \<noteq> CPKT_AUDIO_OK then (FrameReturn r, s) else ptt_push_open frame s
         | (r, None) \<Rightarrow> (FrameReturn r, s))
      else ptt_push_open frame s)"

partial_function (option) ptt_push_loop ::
  "f32 list \<Rightarrow> vox_sys \<Rightarrow> (cpkt_audio_result \<times> vox_sys) option" where
  "ptt_push_loop frames s =
     (case frames of
        [] \<Rightarrow> Some (CPKT_AUDIO_OK, s)
      | x # xs \<Rightarrow>
          (case ptt_push_frame x s of
             (FrameDone, s) \<Rightarrow> ptt_push_loop xs s
           | (FrameRetry, s) \<Rightarrow> ptt_push_loop (x # xs) s
           | (FrameReturn r, s) \<Rightarrow> Some (r, s)))"

declare ptt_push_loop.simps [code]

definition cpkt_audio_ptt_push_f32_mono_16k_impl ::
  "vox_sys option \<Rightarrow> f32 list option \<Rightarrow> nat \<Rightarrow> (cpkt_audio_result \<times> vox_sys option) option" where
  "cpkt_audio_ptt_push_f32_mono_16k_impl self frames frame_count =
     (case self of
        None \<Rightarrow> Some (CPKT_AUDIO_ERR_ARG, None)
      | Some s \<Rightarrow>
          if frames = None \<and> frame_count \<noteq> 0 then Some (CPKT_AUDIO_ERR_ARG, Some s)
          else if vx_callback_error s then Some (CPKT_AUDIO_ERR_IO, Some s)
          else if \<not> vx_ptt_pressed s then
            Some (CPKT_AUDIO_OK, Some (cpkt_audio_vox_advance_source frame_count s))
          else map_option (\<lambda>(r, s). (r, Some s))
            (ptt_push_loop (case frames of None \<Rightarrow> [] | Some xs \<Rightarrow> take frame_count xs) s))"

definition cpkt_audio_ptt_flush_impl :: "vox_sys option \<Rightarrow> cpkt_audio_result \<times> vox_sys option" where
  "cpkt_audio_ptt_flush_impl self =
     (case self of
        None \<Rightarrow> (CPKT_AUDIO_ERR_ARG, None)
      | Some s \<Rightarrow>
          if vx_callback_error s then (CPKT_AUDIO_ERR_IO, Some s)
          else
            let s = s\<lparr>vx_ptt_pressed := False\<rparr> in
            if \<not> vx_open s \<or> vx_total_frame_count s = 0 then (CPKT_AUDIO_OK, Some s)
            else map_prod id Some (vox_close_segment CPKT_AUDIO_VOX_TX_OFF False True s))"

definition cpkt_audio_ptt_destroy_impl :: "vox_sys option \<Rightarrow> vox_sys option \<times> string list" where
  "cpkt_audio_ptt_destroy_impl self =
     (case self of
        None \<Rightarrow> (None, [])
      | Some s \<Rightarrow>
          (None, (if vx_spool_file s \<noteq> None then [''fclose spool_file''] else []) @
             [''free frames'', ''free impl'', ''free self'']))"

record cpkt_audio_ptt_config =
  pc_max_segment_ms :: nat
  pc_min_segment_ms :: nat
  pc_memory_spool_bytes :: nat
  pc_max_spool_bytes :: nat
  pc_segment_sink :: "segment_sink option"
  pc_state_sink :: "state_sink option"

text \<open>The validated settings: maximum and minimum segment length, memory and total spool in frames.\<close>

definition ptt_settings :: "cpkt_audio_ptt_config \<Rightarrow> (nat \<times> nat \<times> nat \<times> nat) option" where
  "ptt_settings config =
     (let min_ms = (if pc_min_segment_ms config \<noteq> 0 then pc_min_segment_ms config else 100)
      in case (cpkt_audio_ms_to_16k_frames min_ms,
               if pc_max_segment_ms config \<noteq> 0
               then cpkt_audio_ms_to_16k_frames (pc_max_segment_ms config) else Some 0) of
           (Some min_frames, Some max_frames) \<Rightarrow>
             if max_frames \<noteq> 0 \<and> min_frames > max_frames then None
             else (case spool_limits (pc_memory_spool_bytes config) (pc_max_spool_bytes config) of
                     None \<Rightarrow> None
                   | Some (memory_spool_frames, max_spool_frames) \<Rightarrow>
                       if min_frames > max_spool_frames then None
                       else Some (max_frames, min_frames, memory_spool_frames, max_spool_frames))
         | _ \<Rightarrow> None)"

definition cpkt_audio_ptt_open ::
  "(nat \<Rightarrow> nat \<Rightarrow> f32 list option) \<Rightarrow> (nat \<Rightarrow> nat option) \<Rightarrow> bool \<Rightarrow> cpkt_audio_ptt_config option \<Rightarrow>
    cpkt_audio_result \<times> vox_sys option" where
  "cpkt_audio_ptt_open malloc io out_null config =
     (case config of
        None \<Rightarrow> (CPKT_AUDIO_ERR_ARG, None)
      | Some config \<Rightarrow>
        (case pc_segment_sink config of
           None \<Rightarrow> (CPKT_AUDIO_ERR_ARG, None)
         | Some sink \<Rightarrow>
           if out_null then (CPKT_AUDIO_ERR_ARG, None)
           else (case ptt_settings config of
             None \<Rightarrow> (CPKT_AUDIO_ERR_ARG, None)
           | Some (max_frames, min_frames, memory_spool_frames, max_spool_frames) \<Rightarrow>
             if malloc 0 1 = None \<or> malloc 1 1 = None then (CPKT_AUDIO_ERR_ALLOC, None)
             else (case malloc 2 memory_spool_frames of
               None \<Rightarrow> (CPKT_AUDIO_ERR_ALLOC, None)
             | Some frames \<Rightarrow>
                 (CPKT_AUDIO_OK,
                  Some (vox_blank\<lparr>vx_segment_sink := sink, vx_state_sink := pc_state_sink config,
                    vx_frames := frames,
                    vx_max_segment_frames := max_frames,
                    vx_min_segment_frames := min_frames,
                    vx_frame_capacity := memory_spool_frames,
                    vx_max_spool_frames := max_spool_frames,
                    vx_io := io\<rparr>))))))"

section \<open>Invariant\<close>

text \<open>
  As for VOX, except that an open segment may still be empty (pressed, nothing pushed yet). A segment
  left open with the button up is empty.
\<close>

definition ptt_inv :: "f32 list \<Rightarrow> vox_sys \<Rightarrow> bool" where
  "ptt_inv H s \<longleftrightarrow>
     (if vx_open s
      then vox_mid H s \<and> (vx_max_segment_frames s \<noteq> 0 \<longrightarrow> vx_total_frame_count s < vx_max_segment_frames s) \<and>
        (\<not> vx_ptt_pressed s \<longrightarrow> vx_total_frame_count s = 0)
      else vox_idle H s \<and> vx_prebuffer_count s = 0)"

lemma ptt_inv_sound: "ptt_inv H s \<Longrightarrow> vox_sound H s"
  by (auto simp: ptt_inv_def vox_mid_def vox_idle_def intro: chained_sound split: if_splits)

lemma idle_ptt_inv: "vox_idle H s \<Longrightarrow> vx_prebuffer_count s = 0 \<Longrightarrow> ptt_inv H s"
  by (simp add: ptt_inv_def vox_idle_def vox_closed_def)

text \<open>The button does not enter the predicates on storage and trace.\<close>

lemma pressed_storage [simp]:
  "stored (s\<lparr>vx_ptt_pressed := b\<rparr>) = stored s" "vox_hi (s\<lparr>vx_ptt_pressed := b\<rparr>) = vox_hi s"
  "prebuffered (s\<lparr>vx_ptt_pressed := b\<rparr>) = prebuffered s"
  "prebuffer_inv (s\<lparr>vx_ptt_pressed := b\<rparr>) = prebuffer_inv s"
  "vox_static (s\<lparr>vx_ptt_pressed := b\<rparr>) = vox_static s"
  by (simp_all add: stored_def vox_hi_def prebuffered_def prebuffer_inv_def vox_static_def split: option.splits)

lemma pressed_irrelevant [simp]:
  "vox_mid H (s\<lparr>vx_ptt_pressed := b\<rparr>) = vox_mid H s"
  "vox_idle H (s\<lparr>vx_ptt_pressed := b\<rparr>) = vox_idle H s"
  "vox_sound H (s\<lparr>vx_ptt_pressed := b\<rparr>) = vox_sound H s"
  by (simp_all add: vox_mid_def vox_idle_def vox_sound_def vox_chained_def
      vox_linked_def vox_traced_def vox_closed_def seg_holds_def store_inv_def)

lemma press_inv:
  assumes idle: "vox_idle H s" "vx_prebuffer_count s = 0" "\<not> vx_callback_error s"
    and pr: "cpkt_audio_ptt_press_impl (Some s) = (r, s')"
  shows "\<exists>t. s' = Some t \<and> vox_static t = vox_static s \<and> vox_sound H t \<and> vx_ptt_pressed t \<and>
    (r = CPKT_AUDIO_OK \<longrightarrow> vox_mid H t \<and> vx_total_frame_count t = 0)"
proof -
  let ?s = "s\<lparr>vx_ptt_pressed := True\<rparr>"
  obtain q t where es: "cpkt_audio_vox_emit_state CPKT_AUDIO_VOX_TX_ON (vox_opened ?s) = (q, t)" by force
  have cl: "\<not> vx_open s" using idle(1) by (simp add: vox_idle_def vox_closed_def)
  have s': "r = q" "s' = Some t"
    using pr es cl idle(2,3) by (simp_all add: cpkt_audio_ptt_press_impl_def vox_opened_def Let_def)
  have i: "vox_idle H ?s" using idle by simp
  note st = open_segment_state [OF i es]
  note ff = emit_frame_fields [OF emit_state_frame [OF es]]
  have stat: "vox_static t = vox_static s" using st by simp
  have len: "length H \<le> size_max" "0 < vx_max_spool_frames s" using idle(1) by (auto simp: vox_idle_def)
  have pt: "vx_ptt_pressed t" "vx_prebuffer_count t = 0"
    using ff(7,16) idle(2) by (simp_all add: vox_opened_def)
  have tot: "vx_total_frame_count t = 0"
    using st by (simp add: store_inv_def)
  have "seg_holds H t"
    using st len tot idle(2) by (simp add: seg_holds_def)
  then have "vox_mid H t"
    using st pt tot len idle(2) static_bounds(3) [OF stat] by (auto simp: vox_mid_def)
  with s' stat pt tot show ?thesis
    using st chained_sound by (auto simp: vox_mid_def)
qed

lemma ptt_push_open_inv:
  assumes mid: "vox_mid H s" and room: "length H < size_max" and pr: "vx_ptt_pressed s"
    and po: "ptt_push_open x s = (st, s')"
  shows "vox_static s' = vox_static s \<and> vox_sound (H @ [x]) s' \<and> st \<noteq> FrameReturn CPKT_AUDIO_OK \<and>
    vx_ptt_pressed s' \<and> (st = FrameDone \<longrightarrow> ptt_inv (H @ [x]) s') \<and>
    (st = FrameRetry \<longrightarrow> vox_idle H s' \<and> vx_prebuffer_count s' = 0 \<and>
      vx_callback_error s' = vx_callback_error s)"
proof -
  obtain r t where ap: "cpkt_audio_vox_append_frame x s = (r, t)" by force
  have pt: "vx_ptt_pressed t"
    using pr store_frame_fields(20) [OF append_store_frame [OF ap]] by simp
  have cut_pressed: "vx_ptt_pressed u = vx_ptt_pressed v"
    if "vox_close_segment state hc fin v = (q, u)" for state hc fin q u v
    using emit_frame_fields(16) [OF close_segment_frame [OF that]] .
  consider (full) "r = CPKT_AUDIO_AT_END" | (fail) "r \<noteq> CPKT_AUDIO_AT_END" "r \<noteq> CPKT_AUDIO_OK"
    | (ok) "r = CPKT_AUDIO_OK" by blast
  then show ?thesis
  proof cases
    case full
    then have "t = s"
      using ap append_frame_room [of s x] append_frame_full [of s x]
      by (cases "vx_total_frame_count s < vx_max_spool_frames s") auto
    obtain q u where cl: "vox_close_segment CPKT_AUDIO_VOX_HARD_CUT True False s = (q, u)" by force
    with full ap po \<open>t = s\<close> have "st = (if q = CPKT_AUDIO_OK then FrameRetry else FrameReturn q)" "s' = u"
      by (auto simp: ptt_push_open_def step_of_def split: if_splits)
    with close_idle [OF cl _ _ _ _ _ _ mid_hi [OF mid]] mid sound_mono cut_pressed [OF cl] pr show ?thesis
      by (auto simp: vox_mid_def)
  next
    case fail
    with po ap have s': "st = FrameReturn r" "s' = t"
      by (simp_all add: ptt_push_open_def)
    have "vox_sound H t"
      using mid append_chained(1) [OF ap] by (auto simp: vox_mid_def intro: chained_sound)
    with s' fail append_chained(2) [OF ap] pt show ?thesis
      by (simp add: sound_mono)
  next
    case ok
    define v where v: "v = t\<lparr>vx_source_frame_cursor := Suc (length H),
      vx_speech_frame_count := sz (vx_speech_frame_count t + 1), vx_silence_frames := vx_silence_frames t\<rparr>"
    note av = append_noted_mid [OF ap [unfolded ok] mid room v]
    have src: "cpkt_audio_vox_advance_source 1 t = t\<lparr>vx_source_frame_cursor := Suc (length H)\<rparr>"
      using mid room store_frame_fields(10) [OF append_store_frame [OF ap]]
      by (simp add: cpkt_audio_vox_advance_source_def vox_mid_def sz_simps)
    have po': "(st, s') = (if vx_max_segment_frames v \<noteq> 0 \<and> vx_total_frame_count v \<ge> vx_max_segment_frames v
        then step_of FrameDone (vox_close_segment CPKT_AUDIO_VOX_HARD_CUT True False v)
        else (FrameDone, v))"
      unfolding po [symmetric] ptt_push_open_def ap ok v Let_def by (simp add: src [simplified])
    show ?thesis
    proof (cases "vx_max_segment_frames v \<noteq> 0 \<and> vx_total_frame_count v \<ge> vx_max_segment_frames v")
      case True
      obtain q u where c: "vox_close_segment CPKT_AUDIO_VOX_HARD_CUT True False v = (q, u)" by force
      with po' True have "st = (if q = CPKT_AUDIO_OK then FrameDone else FrameReturn q)" "s' = u"
        by (auto simp: step_of_def split: if_splits)
      moreover have "vx_ptt_pressed u" using cut_pressed [OF c] pt v by simp
      ultimately show ?thesis
        using close_idle [OF c av(1,3,4,5,6,7,2)] av(8) idle_ptt_inv by auto
    next
      case False
      then have s': "st = FrameDone" "s' = v" using po' by auto
      have p: "vx_ptt_pressed v" using pt v by simp
      have "ptt_inv (H @ [x]) v" using False av p by (auto simp: ptt_inv_def vox_mid_def)
      then show ?thesis
        using s' av(7,8) p chained_sound by auto
    qed
  qed
qed

lemma ptt_push_open_retry: "ptt_push_open x s = (FrameRetry, s') \<Longrightarrow> vx_max_spool_frames s \<le> vx_total_frame_count s"
  using append_frame_room [of s x]
  by (cases "vx_max_spool_frames s \<le> vx_total_frame_count s")
    (auto simp: ptt_push_open_def step_of_def Let_def split: prod.splits if_splits)

lemma ptt_push_frame_inv:
  assumes inv: "ptt_inv H s" and room: "length H < size_max" and pr: "vx_ptt_pressed s"
    and ce: "\<not> vx_callback_error s" and pf: "ptt_push_frame x s = (st, s')"
  shows "vox_static s' = vox_static s \<and> vox_sound (H @ [x]) s' \<and> st \<noteq> FrameReturn CPKT_AUDIO_OK \<and>
    vx_ptt_pressed s' \<and> (st = FrameDone \<longrightarrow> ptt_inv (H @ [x]) s') \<and>
    (st = FrameRetry \<longrightarrow> ptt_inv H s' \<and> \<not> vx_open s')"
proof (cases "vx_open s")
  case True
  then have "vox_mid H s" "ptt_push_open x s = (st, s')"
    using inv pf by (simp_all add: ptt_inv_def ptt_push_frame_def)
  from ptt_push_open_inv [OF this(1) room pr this(2)] show ?thesis
    by (auto simp: ptt_inv_def vox_idle_def vox_closed_def)
next
  case False
  then have idle: "vox_idle H s" "vx_prebuffer_count s = 0"
    using inv by (simp_all add: ptt_inv_def)
  obtain r u where op: "cpkt_audio_ptt_press_impl (Some s) = (r, u)" by force
  from press_inv [OF idle ce op] obtain t where
    t: "u = Some t" "vox_static t = vox_static s" "vox_sound H t" "vx_ptt_pressed t"
      "r = CPKT_AUDIO_OK \<longrightarrow> vox_mid H t \<and> vx_total_frame_count t = 0"
    by blast
  show ?thesis
  proof (cases "r = CPKT_AUDIO_OK")
    case True
    then have "ptt_push_open x t = (st, s')"
      using False op pf t(1) by (simp add: ptt_push_frame_def)
    from ptt_push_open_inv [OF _ room t(4) this] t True show ?thesis
      by (auto simp: ptt_inv_def vox_idle_def vox_closed_def)
  next
    case fail: False
    then have "st = FrameReturn r" "s' = t"
      using False op pf t(1) by (simp_all add: ptt_push_frame_def)
    with fail t sound_mono show ?thesis
      by auto
  qed
qed

text \<open>A successful step leaves the sticky error flag clear.\<close>

lemma emit_state_ok_error:
  "cpkt_audio_vox_emit_state st s = (CPKT_AUDIO_OK, s') \<Longrightarrow> vx_callback_error s' = vx_callback_error s"
  by (auto simp: cpkt_audio_vox_emit_state_def Let_def split: option.splits if_splits)

lemma emit_ok_error:
  assumes "cpkt_audio_vox_emit hc fin s = (CPKT_AUDIO_OK, s')"
  shows "vx_callback_error s' = vx_callback_error s"
  using assms
proof (cases rule: emit_cases)
  case (sunk t rc log u)
  have "vx_callback_error u = vx_callback_error s"
    using sunk(4) by (cases s; cases u; simp add: read_frame_def)
  with sunk(5) show ?thesis
    by (auto split: if_splits)
qed auto

lemma close_ok_error:
  "vox_close_segment st hc fin s = (CPKT_AUDIO_OK, s') \<Longrightarrow> vx_callback_error s' = vx_callback_error s"
  by (auto simp: vox_close_segment_def dest!: emit_state_ok_error emit_ok_error split: prod.splits if_splits)

lemma ptt_push_open_error:
  assumes "ptt_push_open x s = (st, s')" "st = FrameDone \<or> st = FrameRetry"
  shows "vx_callback_error s' = vx_callback_error s"
proof -
  obtain r t where ap: "cpkt_audio_vox_append_frame x s = (r, t)" by force
  have t: "vx_callback_error t = vx_callback_error s"
    by (rule store_frame_fields(21) [OF append_store_frame [OF ap]])
  with assms ap show ?thesis
    by (auto simp: ptt_push_open_def step_of_def Let_def cpkt_audio_vox_advance_source_def
        dest!: close_ok_error split: if_splits prod.splits)
qed

lemma press_ok_error:
  assumes "cpkt_audio_ptt_press_impl (Some s) = (CPKT_AUDIO_OK, Some s')"
  shows "\<not> vx_callback_error s'"
  using assms
  by (auto simp: cpkt_audio_ptt_press_impl_def Let_def map_prod_def dest!: emit_state_ok_error
      split: if_splits prod.splits)

lemma ptt_push_frame_error:
  assumes "ptt_push_frame x s = (st, s')" "st = FrameDone \<or> st = FrameRetry" "\<not> vx_callback_error s"
  shows "\<not> vx_callback_error s'"
  using assms ptt_push_open_error press_ok_error
  by (fastforce simp: ptt_push_frame_def split: if_splits prod.splits option.splits)

lemma ptt_no_second_retry:
  assumes inv: "ptt_inv H s" and cl: "\<not> vx_open s" and ce: "\<not> vx_callback_error s"
  shows "fst (ptt_push_frame x s) \<noteq> FrameRetry"
proof
  assume "fst (ptt_push_frame x s) = FrameRetry"
  then obtain s' where pf: "ptt_push_frame x s = (FrameRetry, s')"
    by (metis prod.collapse)
  have idle: "vox_idle H s" "vx_prebuffer_count s = 0"
    using inv cl by (simp_all add: ptt_inv_def)
  obtain r u where op: "cpkt_audio_ptt_press_impl (Some s) = (r, u)" by force
  from press_inv [OF idle ce op] pf cl op obtain t where
    "ptt_push_open x t = (FrameRetry, s')" "vx_total_frame_count t = 0" "0 < vx_max_spool_frames t"
    by (auto simp: ptt_push_frame_def vox_mid_def split: if_splits)
  with ptt_push_open_retry show False
    by fastforce
qed

lemma ptt_loop_Nil [simp]: "ptt_push_loop [] s = Some (CPKT_AUDIO_OK, s)"
  by (simp add: ptt_push_loop.simps)

lemma ptt_loop_Cons:
  "ptt_push_loop (x # xs) s =
     (case ptt_push_frame x s of
        (FrameDone, s) \<Rightarrow> ptt_push_loop xs s
      | (FrameRetry, s) \<Rightarrow> ptt_push_loop (x # xs) s
      | (FrameReturn r, s) \<Rightarrow> Some (r, s))"
  by (subst ptt_push_loop.simps) simp

lemma ptt_loop_inv:
  assumes "ptt_inv H s" "vx_ptt_pressed s" "\<not> vx_callback_error s" "length H + length xs \<le> size_max"
  shows "\<exists>r s'. ptt_push_loop xs s = Some (r, s') \<and> vox_static s' = vox_static s \<and>
    vox_sound (H @ xs) s' \<and> (r = CPKT_AUDIO_OK \<longrightarrow> ptt_inv (H @ xs) s' \<and> vx_ptt_pressed s')"
  using assms
proof (induction xs arbitrary: H s)
  case Nil
  then show ?case
    by (auto intro: ptt_inv_sound)
next
  case (Cons x xs)
  have room: "length H < size_max" using Cons.prems(4) by simp
  have step: ?case if inv: "ptt_inv H t" "vx_ptt_pressed t" "\<not> vx_callback_error t"
      and stat: "vox_static t = vox_static s"
      and pf: "ptt_push_frame x t = (st, u)" and st: "st \<noteq> FrameRetry"
      and go: "ptt_push_loop (x # xs) s = ptt_push_loop (x # xs) t" for t st u
  proof -
    note pi = ptt_push_frame_inv [OF inv(1) room inv(2,3) pf]
    show ?thesis
    proof (cases st)
      case FrameDone
      with Cons.IH [of "H @ [x]" u] pi stat Cons.prems(4) pf ptt_push_frame_error [OF pf _ inv(3)]
      show ?thesis
        unfolding go ptt_loop_Cons [of x xs t] by auto
    next
      case (FrameReturn r)
      with pi stat sound_mono [of "H @ [x]" u xs] pf show ?thesis
        unfolding go ptt_loop_Cons [of x xs t] by auto
    qed (use st in simp)
  qed
  obtain st t where pf: "ptt_push_frame x s = (st, t)" by force
  show ?case
  proof (cases "st = FrameRetry")
    case True
    note pi = ptt_push_frame_inv [OF Cons.prems(1) room Cons.prems(2,3) pf]
    have te: "\<not> vx_callback_error t"
      using ptt_push_frame_error [OF pf _ Cons.prems(3)] True by simp
    obtain st' u where pf': "ptt_push_frame x t = (st', u)" by force
    have "st' \<noteq> FrameRetry"
      using ptt_no_second_retry [of H t x] pi True pf' te by auto
    then show ?thesis
      using step [OF _ _ te _ pf'] pi True pf ptt_loop_Cons [of x xs s] by simp
  next
    case False
    with step [OF Cons.prems(1-3) refl pf] show ?thesis
      by simp
  qed
qed

lemma ptt_open_inv:
  assumes "malloc_ok malloc" "cpkt_audio_ptt_open malloc io on cfg = (CPKT_AUDIO_OK, s)"
  shows "\<exists>t. s = Some t \<and> ptt_inv [] t \<and> vx_min_segment_frames t \<le> vx_max_spool_frames t \<and>
    (vx_max_segment_frames t \<noteq> 0 \<longrightarrow> vx_min_segment_frames t \<le> vx_max_segment_frames t) \<and>
    0 < vx_min_segment_frames t \<and> \<not> vx_ptt_pressed t"
proof -
  obtain c sink mx mn mem sp fr where
    c: "ptt_settings c = Some (mx, mn, mem, sp)" and fr: "malloc 2 mem = Some fr"
    and s: "s = Some (vox_blank\<lparr>vx_segment_sink := sink, vx_state_sink := pc_state_sink c,
                    vx_frames := fr, vx_max_segment_frames := mx, vx_min_segment_frames := mn,
                    vx_frame_capacity := mem, vx_max_spool_frames := sp, vx_io := io\<rparr>)"
    using assms(2)
    by (fastforce simp: cpkt_audio_ptt_open_def split: option.splits if_splits prod.splits)
  have len: "length fr = mem"
    using assms(1) fr by (auto simp: malloc_ok_def)
  have set: "0 < mem \<and> mem \<le> sp \<and> mn \<le> sp \<and> (mx \<noteq> 0 \<longrightarrow> mn \<le> mx) \<and> 0 < mn"
    using c spool_limits_Some [of "pc_memory_spool_bytes c" "pc_max_spool_bytes c" mem sp]
    by (auto simp: ptt_settings_def Let_def cpkt_audio_ms_to_16k_frames_def split: option.splits if_splits)
  show ?thesis
    using set len chain_nil unfolding s
    by (auto simp: vox_blank_def ptt_inv_def vox_idle_def vox_closed_def prebuffer_inv_def prebuffered_def
        vox_chained_def vox_linked_def sz_def intro!: exI [of _ 0])
qed

text \<open>One use of the button or of the flush method keeps the invariant.\<close>

lemma ptt_press_inv:
  assumes inv: "ptt_inv H s" and pr: "cpkt_audio_ptt_press_impl (Some s) = (CPKT_AUDIO_OK, Some s')"
  shows "ptt_inv H s' \<and> vox_static s' = vox_static s \<and> vx_open s' \<and> vx_ptt_pressed s'"
proof -
  have ce: "\<not> vx_callback_error s"
    using pr by (auto simp: cpkt_audio_ptt_press_impl_def)
  show ?thesis
  proof (cases "vx_open s")
    case True
    with inv pr ce show ?thesis
      by (auto simp: cpkt_audio_ptt_press_impl_def ptt_inv_def Let_def)
  next
    case False
    then have idle: "vox_idle H s" "vx_prebuffer_count s = 0"
      using inv by (simp_all add: ptt_inv_def)
    from press_inv [OF idle ce pr] show ?thesis
      by (auto simp: ptt_inv_def vox_mid_def)
  qed
qed

lemma ptt_inv_button:
  "ptt_inv H s \<Longrightarrow> \<not> vx_open s \<or> b \<or> vx_total_frame_count s = 0 \<Longrightarrow> ptt_inv H (s\<lparr>vx_ptt_pressed := b\<rparr>)"
  by (auto simp: ptt_inv_def)

lemma ptt_close_inv:
  assumes mid: "vox_mid H s" and cl: "vox_close_segment st hc fin s = (r, t)"
  shows "vox_static t = vox_static s \<and> vox_sound H t \<and> (r = CPKT_AUDIO_OK \<longrightarrow> ptt_inv H t \<and> \<not> vx_open t)"
proof -
  have "vox_static t = vox_static s \<and> vox_sound H t \<and>
      (r = CPKT_AUDIO_OK \<longrightarrow> vox_idle H t \<and> vx_prebuffer_count t = 0)"
    using close_idle [OF cl _ _ _ _ _ _ mid_hi [OF mid]] mid by (auto simp: vox_mid_def)
  then show ?thesis
    by (auto simp: ptt_inv_def vox_idle_def vox_closed_def)
qed

lemma ptt_release_inv:
  assumes inv: "ptt_inv H s" and rl: "cpkt_audio_ptt_release_impl (Some s) = (r, s')"
  shows "\<exists>t. s' = Some t \<and> vox_static t = vox_static s \<and> vox_sound H t \<and>
    (r = CPKT_AUDIO_OK \<longrightarrow> ptt_inv H t \<and> \<not> vx_open t)"
proof (cases "vx_callback_error s \<or> \<not> vx_open s")
  case True
  then have "r = CPKT_AUDIO_ERR_IO \<and> s' = Some s \<or>
      \<not> vx_open s \<and> s' = Some (s\<lparr>vx_ptt_pressed := False\<rparr>)"
    using rl by (simp add: cpkt_audio_ptt_release_impl_def Let_def split: if_splits)
  with ptt_inv_sound [OF inv] ptt_inv_button [OF inv, of False] show ?thesis
    by fastforce
next
  case False
  let ?s = "s\<lparr>vx_ptt_pressed := False\<rparr>"
  have mid: "vox_mid H ?s" using inv False by (simp add: ptt_inv_def)
  obtain q t where es: "cpkt_audio_vox_emit_state CPKT_AUDIO_VOX_TX_OFF ?s = (q, t)" by force
  show ?thesis
  proof (cases "q = CPKT_AUDIO_OK \<and> vx_total_frame_count t = 0")
    case True
    then have s': "r = CPKT_AUDIO_OK" "s' = Some (cpkt_audio_vox_reset_segment t)"
      using False rl es by (auto simp: cpkt_audio_ptt_release_impl_def Let_def)
    note ff = emit_frame_fields [OF emit_state_frame [OF es]]
    have stat: "vox_static (cpkt_audio_vox_reset_segment t) = vox_static s"
      using static_emit [OF emit_state_frame [OF es]]
      by (simp add: vox_static_def cpkt_audio_vox_reset_segment_def)
    have len: "vx_segment_start_frame s \<le> length H" "length H \<le> size_max"
        "length (vx_frames s) = vx_frame_capacity s"
      using mid by (auto simp: vox_mid_def seg_holds_def store_inv_def)
    have "vox_linked (vx_min_segment_frames s) (vox_hi s) H (vx_segment_start_frame s) t"
      using emit_state_linked [OF es, of "vx_min_segment_frames s" "vox_hi s" H] mid
      by (simp add: vox_mid_def vox_chained_def)
    then have ln: "vox_linked (vx_min_segment_frames s) (vox_hi s) H (length H) (cpkt_audio_vox_reset_segment t)"
      using linked_mono [of _ _ H "vx_segment_start_frame s" t "length H" "[]"] len
      by (simp add: vox_linked_def)
    have pre: "prebuffer_inv (cpkt_audio_vox_reset_segment t)" "vx_prebuffer_count (cpkt_audio_vox_reset_segment t) = 0"
      using mid ff by (auto simp: vox_mid_def prebuffer_inv_def cpkt_audio_vox_reset_segment_def)
    then have "prebuffered (cpkt_audio_vox_reset_segment t) = []"
      by (simp add: prebuffered_def)
    then have "vox_idle H (cpkt_audio_vox_reset_segment t)"
      using reset_closed [of t] len pre ln ff mid static_bounds [OF stat]
      by (simp add: vox_idle_def vox_chained_def vox_mid_def cpkt_audio_vox_reset_segment_def)
    with s' stat pre(2) show ?thesis
      using idle_ptt_inv ptt_inv_sound by (auto simp: cpkt_audio_vox_reset_segment_def)
  next
    case no: False
    obtain p u where cl: "vox_close_segment CPKT_AUDIO_VOX_TX_OFF False False ?s = (p, u)" by force
    have "r = p" "s' = Some u"
      using False rl es no cl
      by (auto simp: cpkt_audio_ptt_release_impl_def vox_close_segment_def Let_def split: if_splits)
    with ptt_close_inv [OF mid cl] show ?thesis
      by simp
  qed
qed

lemma ptt_flush_inv:
  assumes inv: "ptt_inv H s" and fl: "cpkt_audio_ptt_flush_impl (Some s) = (r, s')"
  shows "\<exists>t. s' = Some t \<and> vox_static t = vox_static s \<and> vox_sound H t \<and>
    (r = CPKT_AUDIO_OK \<longrightarrow> ptt_inv H t)"
proof (cases "vx_callback_error s \<or> \<not> vx_open s \<or> vx_total_frame_count s = 0")
  case True
  then have "r = CPKT_AUDIO_ERR_IO \<and> s' = Some s \<or>
      (\<not> vx_open s \<or> vx_total_frame_count s = 0) \<and> s' = Some (s\<lparr>vx_ptt_pressed := False\<rparr>)"
    using fl by (simp add: cpkt_audio_ptt_flush_impl_def Let_def split: if_splits)
  with ptt_inv_sound [OF inv] ptt_inv_button [OF inv, of False] show ?thesis
    by fastforce
next
  case False
  let ?s = "s\<lparr>vx_ptt_pressed := False\<rparr>"
  have mid: "vox_mid H ?s" using inv False by (simp add: ptt_inv_def)
  obtain p u where cl: "vox_close_segment CPKT_AUDIO_VOX_TX_OFF False True ?s = (p, u)" by force
  have "r = p" "s' = Some u"
    using False fl cl by (auto simp: cpkt_audio_ptt_flush_impl_def Let_def)
  with ptt_close_inv [OF mid cl] show ?thesis
    by simp
qed

lemma ptt_push_inv:
  assumes inv: "ptt_inv H s" and room: "length H + length xs \<le> size_max"
    and up: "vx_ptt_pressed s \<or> \<not> vx_open s"
  shows "\<exists>r s'. cpkt_audio_ptt_push_f32_mono_16k_impl (Some s) (Some xs) (length xs) = Some (r, Some s') \<and>
    vox_static s' = vox_static s \<and> vox_sound (H @ xs) s' \<and> (r = CPKT_AUDIO_OK \<longrightarrow> ptt_inv (H @ xs) s')"
proof -
  consider (error) "vx_callback_error s" | (up) "\<not> vx_callback_error s" "\<not> vx_ptt_pressed s"
    | (down) "\<not> vx_callback_error s" "vx_ptt_pressed s" by blast
  then show ?thesis
  proof cases
    case error
    with ptt_inv_sound [OF inv] show ?thesis
      by (simp add: cpkt_audio_ptt_push_f32_mono_16k_impl_def sound_mono)
  next
    case up
    then have idle: "vox_idle H s" "vx_prebuffer_count s = 0" "\<not> vx_open s"
      using assms(3) inv by (auto simp: ptt_inv_def)
    let ?t = "cpkt_audio_vox_advance_source (length xs) s"
    have t: "?t = s\<lparr>vx_source_frame_cursor := length (H @ xs)\<rparr>"
      using idle(1) room by (simp add: cpkt_audio_vox_advance_source_def vox_idle_def sz_simps)
    have "vox_chained (H @ xs) (length (H @ xs)) s"
      using idle linked_mono [of _ _ H "length H" s "length (H @ xs)" xs]
      by (simp add: vox_idle_def vox_chained_def)
    moreover have st: "vox_static ?t = vox_static s"
      by (simp add: t vox_static_def)
    ultimately have "vox_chained (H @ xs) (length (H @ xs)) ?t"
      using chained_cong [OF st] by (simp add: t)
    then have "vox_idle (H @ xs) ?t"
      using idle room unfolding t
      by (simp add: vox_idle_def vox_closed_def prebuffered_def prebuffer_inv_def)
    moreover have "vx_prebuffer_count ?t = 0"
      using idle by (simp_all add: t)
    moreover note st
    ultimately show ?thesis
      using up idle_ptt_inv ptt_inv_sound by (simp add: cpkt_audio_ptt_push_f32_mono_16k_impl_def)
  next
    case down
    from ptt_loop_inv [OF inv down(2,1) room] down show ?thesis
      by (auto simp: cpkt_audio_ptt_push_f32_mono_16k_impl_def)
  qed
qed

section \<open>Use of a segmenter\<close>

text \<open>
  A segment is stale when it is open with the button up. Only a flush right after a press leaves one,
  and it is empty. Frames pushed then are not recorded, but they move the source position away from the
  segment's start.
\<close>

definition ptt_stale :: "vox_sys \<Rightarrow> bool" where
  "ptt_stale s \<longleftrightarrow> vx_open s \<and> \<not> vx_ptt_pressed s"

lemma ptt_push_stale:
  assumes inv: "ptt_inv H s" and room: "length H + length xs \<le> size_max" and st: "ptt_stale s"
  shows "\<exists>r s'. cpkt_audio_ptt_push_f32_mono_16k_impl (Some s) (Some xs) (length xs) = Some (r, Some s') \<and>
    vox_static s' = vox_static s \<and> vox_sound (H @ xs) s' \<and>
    (r = CPKT_AUDIO_OK \<longrightarrow> s' = s\<lparr>vx_source_frame_cursor := length (H @ xs)\<rparr> \<and> stored s = [])"
proof (cases "vx_callback_error s")
  case True
  with ptt_inv_sound [OF inv] show ?thesis
    by (simp add: cpkt_audio_ptt_push_f32_mono_16k_impl_def sound_mono)
next
  case False
  let ?t = "s\<lparr>vx_source_frame_cursor := length (H @ xs)\<rparr>"
  have mid: "vox_mid H s" "vx_total_frame_count s = 0"
    using inv st by (auto simp: ptt_inv_def ptt_stale_def)
  have "cpkt_audio_vox_advance_source (length xs) s = ?t"
    using mid room by (simp add: cpkt_audio_vox_advance_source_def vox_mid_def sz_simps)
  with False st have push: "cpkt_audio_ptt_push_f32_mono_16k_impl (Some s) (Some xs) (length xs) =
      Some (CPKT_AUDIO_OK, Some ?t)"
    by (simp add: cpkt_audio_ptt_push_f32_mono_16k_impl_def ptt_stale_def)
  have stat: "vox_static ?t = vox_static s"
    by (simp add: vox_static_def)
  have "vox_sound (H @ xs) ?t"
    using sound_mono [OF ptt_inv_sound [OF inv], of xs] static_bounds [OF stat]
    by (simp add: vox_sound_def vox_traced_def)
  moreover have "stored s = []"
    using mid by (simp add: vox_mid_def seg_holds_def store_inv_def)
  ultimately show ?thesis
    using push stat by simp
qed

text \<open>
  A use of a PTT segmenter with every call returning OK, in which no frames are pushed into a stale
  segment; what such a push leads to is shown at the end of this theory.
\<close>

inductive ptt_reach :: "f32 list \<Rightarrow> vox_sys \<Rightarrow> bool" where
  ptt_opened: "malloc_ok malloc \<Longrightarrow>
    cpkt_audio_ptt_open malloc io False (Some config) = (CPKT_AUDIO_OK, Some s) \<Longrightarrow> ptt_reach [] s"
| ptt_pressed: "ptt_reach H s \<Longrightarrow> cpkt_audio_ptt_press_impl (Some s) = (CPKT_AUDIO_OK, Some s') \<Longrightarrow>
    ptt_reach H s'"
| ptt_released: "ptt_reach H s \<Longrightarrow> cpkt_audio_ptt_release_impl (Some s) = (CPKT_AUDIO_OK, Some s') \<Longrightarrow>
    ptt_reach H s'"
| ptt_flushed: "ptt_reach H s \<Longrightarrow> cpkt_audio_ptt_flush_impl (Some s) = (CPKT_AUDIO_OK, Some s') \<Longrightarrow>
    ptt_reach H s'"
| ptt_pushed: "ptt_reach H s \<Longrightarrow> \<not> ptt_stale s \<Longrightarrow> length H + length xs \<le> size_max \<Longrightarrow>
    cpkt_audio_ptt_push_f32_mono_16k_impl (Some s) (Some xs) (length xs) = Some (CPKT_AUDIO_OK, Some s') \<Longrightarrow>
    ptt_reach (H @ xs) s'"

lemma ptt_reach_inv: "ptt_reach H s \<Longrightarrow> ptt_inv H s"
proof (induction rule: ptt_reach.induct)
  case (ptt_opened malloc io config s)
  then show ?case
    using ptt_open_inv by fastforce
next
  case (ptt_pressed H s s')
  then show ?case
    using ptt_press_inv by blast
next
  case (ptt_released H s s')
  then show ?case
    using ptt_release_inv by fastforce
next
  case (ptt_flushed H s s')
  then show ?case
    using ptt_flush_inv by fastforce
next
  case (ptt_pushed H s xs s')
  then show ?case
    using ptt_push_inv [of H s xs] by (auto simp: ptt_stale_def)
qed

definition ptt_demo_config :: cpkt_audio_ptt_config where
  "ptt_demo_config = \<lparr>pc_max_segment_ms = 0, pc_min_segment_ms = 1, pc_memory_spool_bytes = 16,
     pc_max_spool_bytes = 256,
     pc_segment_sink = Some (\<lambda>_ _. SinkRead 64 (\<lambda>_ _. SinkReturn 0)), pc_state_sink = Some (\<lambda>_ _. 0)\<rparr>"

definition ptt_demo :: vox_sys where
  "ptt_demo = the (snd (cpkt_audio_ptt_open (\<lambda>_ n. Some (replicate n 0)) (\<lambda>_. None) False (Some ptt_demo_config)))"

definition ptt_demo_down :: vox_sys where
  "ptt_demo_down = the (snd (cpkt_audio_ptt_press_impl (Some ptt_demo)))"

lemma ptt_demo_eval:
  "cpkt_audio_ptt_open (\<lambda>_ n. Some (replicate n 0)) (\<lambda>_. None) False (Some ptt_demo_config) =
    (CPKT_AUDIO_OK, Some ptt_demo)"
  "cpkt_audio_ptt_press_impl (Some ptt_demo) = (CPKT_AUDIO_OK, Some ptt_demo_down)"
  "vx_ptt_pressed ptt_demo_down" "vx_open ptt_demo_down" "vx_total_frame_count ptt_demo_down = 0"
  "\<not> vx_callback_error ptt_demo_down"
  by (simp_all add: ptt_demo_down_def ptt_demo_def cpkt_audio_ptt_open_def ptt_demo_config_def ptt_settings_def
      spool_limits_def cpkt_audio_ms_to_16k_frames_def c_limits Let_def cpkt_audio_ptt_press_impl_def
      vox_blank_def cpkt_audio_vox_emit_state_def)

lemma ptt_demo_reach: "ptt_reach [] ptt_demo_down"
  by (rule ptt_reach.ptt_pressed [OF ptt_reach.ptt_opened [OF _ ptt_demo_eval(1)] ptt_demo_eval(2)])
    (simp add: malloc_ok_def)

section \<open>Properties\<close>

text \<open>
  C5: Take a PTT segmenter in use, where a use is any sequence of presses, releases, flushes and pushes
  that succeed, none of the pushes into a stale segment (one that a flush left open and empty with the
  button up). Every further push terminates and delivers honest segments: against all frames pushed,
  with the button up or down, the emitted segments are consecutive, non-overlapping slices within the
  configured lengths, numbered in order, with the right 10 ms bounds, and the sink reads a prefix of the
  slice. After success an open segment holds exactly the frames since its start. A successful push into
  a stale segment records nothing and only moves the source position, away from the segment's start.
\<close>

theorem ptt_push_segments:
  assumes "ptt_reach H s" "length H + length xs \<le> size_max"
  shows "\<exists>r s' k e. cpkt_audio_ptt_push_f32_mono_16k_impl (Some s) (Some xs) (length xs) = Some (r, Some s') \<and>
    seg_chain (vx_min_segment_frames s) (vox_hi s) (H @ xs) (vx_trace s') k e \<and>
    (r = CPKT_AUDIO_OK \<longrightarrow>
      (if ptt_stale s then s' = s\<lparr>vx_source_frame_cursor := length (H @ xs)\<rparr> \<and> stored s = []
       else ptt_reach (H @ xs) s' \<and>
         (vx_open s' \<longrightarrow> stored s' = drop (vx_segment_start_frame s') (H @ xs))))"
proof -
  have inv: "ptt_inv H s" by (rule ptt_reach_inv [OF assms(1)])
  show ?thesis
  proof (cases "ptt_stale s")
    case True
    from ptt_push_stale [OF inv assms(2) True] obtain r s' where
      p: "cpkt_audio_ptt_push_f32_mono_16k_impl (Some s) (Some xs) (length xs) = Some (r, Some s')"
      "vox_static s' = vox_static s" "vox_sound (H @ xs) s'"
      "r = CPKT_AUDIO_OK \<longrightarrow> s' = s\<lparr>vx_source_frame_cursor := length (H @ xs)\<rparr> \<and> stored s = []"
      by blast
    with True show ?thesis
      using static_bounds [OF p(2)] by (auto simp: vox_sound_def vox_traced_def)
  next
    case False
    then have up: "vx_ptt_pressed s \<or> \<not> vx_open s" by (auto simp: ptt_stale_def)
    from ptt_push_inv [OF inv assms(2) up] obtain r s' where
      p: "cpkt_audio_ptt_push_f32_mono_16k_impl (Some s) (Some xs) (length xs) = Some (r, Some s')"
      "vox_static s' = vox_static s" "vox_sound (H @ xs) s'" "r = CPKT_AUDIO_OK \<longrightarrow> ptt_inv (H @ xs) s'"
      by blast
    moreover have "r = CPKT_AUDIO_OK \<longrightarrow> ptt_reach (H @ xs) s'"
      using ptt_pushed [OF assms(1) False assms(2)] p(1) by blast
    moreover have "r = CPKT_AUDIO_OK \<longrightarrow> vx_open s' \<longrightarrow> stored s' = drop (vx_segment_start_frame s') (H @ xs)"
      using p(4) by (auto simp: ptt_inv_def vox_mid_def seg_holds_def)
    ultimately show ?thesis
      using False static_bounds [OF p(2)] by (auto simp: vox_sound_def vox_traced_def)
  qed
qed

theorem ptt_push_segments_witness:
  "\<exists>r s' k e. cpkt_audio_ptt_push_f32_mono_16k_impl (Some ptt_demo_down) (Some (replicate 100 5)) 100 =
      Some (r, Some s') \<and>
    seg_chain (vx_min_segment_frames ptt_demo_down) (vox_hi ptt_demo_down) (replicate 100 5) (vx_trace s') k e"
  using ptt_push_segments [OF ptt_demo_reach, of "replicate 100 5"] ptt_demo_eval
  by (auto simp: c_limits)

text \<open>
  Releasing the button closes the segment: what was recorded goes out as one more honest segment
  (or is dropped when too short), and on success no segment is open.
\<close>

lemma ptt_release_segments:
  assumes "ptt_reach H s" "cpkt_audio_ptt_release_impl (Some s) = (r, s')"
  shows "\<exists>t k e. s' = Some t \<and> seg_chain (vx_min_segment_frames s) (vox_hi s) H (vx_trace t) k e \<and>
    (r = CPKT_AUDIO_OK \<longrightarrow> ptt_reach H t \<and> \<not> vx_open t)"
proof -
  from ptt_release_inv [OF ptt_reach_inv [OF assms(1)] assms(2)] obtain t where
    t: "s' = Some t" "vox_static t = vox_static s" "vox_sound H t" "r = CPKT_AUDIO_OK \<longrightarrow> \<not> vx_open t"
    by blast
  moreover have "r = CPKT_AUDIO_OK \<longrightarrow> ptt_reach H t"
    using ptt_released [OF assms(1)] assms(2) t(1) by blast
  ultimately show ?thesis
    using static_bounds [OF t(2)] by (auto simp: vox_sound_def vox_traced_def)
qed

section \<open>The empty segment a flush leaves open\<close>

text \<open>
  A defect of the flush method: with the button down and nothing pushed yet, a flush succeeds but
  leaves the segment open, without a TX_OFF. Frames that arrive with the button up then move the
  source position, and the next press keeps the old segment start, so the segment recorded after it is
  announced earlier than its frames were captured.
\<close>

lemma ptt_flush_stale_start:
  assumes "vx_open s" "vx_total_frame_count s = 0" "\<not> vx_callback_error s" "0 < n"
    and "vx_source_frame_cursor s + n \<le> size_max" "vx_segment_start_frame s = vx_source_frame_cursor s"
    and "length xs = n"
  shows "\<exists>s1 s2 s3. cpkt_audio_ptt_flush_impl (Some s) = (CPKT_AUDIO_OK, Some s1) \<and>
    vx_open s1 \<and> vx_trace s1 = vx_trace s \<and>
    cpkt_audio_ptt_push_f32_mono_16k_impl (Some s1) (Some xs) n = Some (CPKT_AUDIO_OK, Some s2) \<and>
    cpkt_audio_ptt_press_impl (Some s2) = (CPKT_AUDIO_OK, Some s3) \<and>
    vx_open s3 \<and> vx_total_frame_count s3 = 0 \<and> vx_trace s3 = vx_trace s \<and>
    vx_segment_start_frame s3 + n = vx_source_frame_cursor s3"
  using assms
  by (simp add: cpkt_audio_ptt_flush_impl_def cpkt_audio_ptt_push_f32_mono_16k_impl_def
      cpkt_audio_ptt_press_impl_def Let_def cpkt_audio_vox_advance_source_def sz_simps)

end
