(* ===== verification/Audio_Format.thy ===== *)
theory Audio_Format
  imports Audio_Sample
begin

text \<open>
  Formats and encodings of \<^verbatim>\<open>src/audio.c\<close>: the conversions between the public enumerations and
  miniaudio's, the mapping of miniaudio results, and the two ways a stream's format is detected, by
  its first bytes and by its HTTP Content-Type.
\<close>

unbundle bit_operations_syntax

section \<open>Codes\<close>

type_synonym byte = "8 word"

definition CPKT_AUDIO_FORMAT_UNKNOWN :: int where "CPKT_AUDIO_FORMAT_UNKNOWN = 0"
definition CPKT_AUDIO_FORMAT_WAV :: int where "CPKT_AUDIO_FORMAT_WAV = 1"
definition CPKT_AUDIO_FORMAT_FLAC :: int where "CPKT_AUDIO_FORMAT_FLAC = 2"
definition CPKT_AUDIO_FORMAT_MP3 :: int where "CPKT_AUDIO_FORMAT_MP3 = 3"

definition CPKT_AUDIO_ENCODING_UNKNOWN :: int where "CPKT_AUDIO_ENCODING_UNKNOWN = 0"
definition CPKT_AUDIO_ENCODING_WAV :: int where "CPKT_AUDIO_ENCODING_WAV = 1"
definition CPKT_AUDIO_ENCODING_FLAC :: int where "CPKT_AUDIO_ENCODING_FLAC = 2"
definition CPKT_AUDIO_ENCODING_MP3 :: int where "CPKT_AUDIO_ENCODING_MP3 = 3"

lemmas format_codes = CPKT_AUDIO_FORMAT_UNKNOWN_def CPKT_AUDIO_FORMAT_WAV_def CPKT_AUDIO_FORMAT_FLAC_def
  CPKT_AUDIO_FORMAT_MP3_def CPKT_AUDIO_ENCODING_UNKNOWN_def CPKT_AUDIO_ENCODING_WAV_def
  CPKT_AUDIO_ENCODING_FLAC_def CPKT_AUDIO_ENCODING_MP3_def

datatype ma_encoding_format =
  ma_encoding_format_unknown | ma_encoding_format_wav | ma_encoding_format_flac | ma_encoding_format_mp3

text \<open>The miniaudio results the facade tells apart; \<open>MA_OTHER\<close> stands for every other code.\<close>

datatype ma_result =
    MA_SUCCESS | MA_AT_END | MA_INVALID_ARGS | MA_OUT_OF_MEMORY | MA_FORMAT_NOT_SUPPORTED
  | MA_INVALID_FILE | MA_IO_ERROR | MA_DOES_NOT_EXIST | MA_ACCESS_DENIED | MA_NOT_IMPLEMENTED
  | MA_OTHER int

section \<open>Conversions\<close>

definition cpkt_audio_to_ma_encoding :: "int \<Rightarrow> ma_encoding_format" where
  "cpkt_audio_to_ma_encoding encoding =
     (if encoding = CPKT_AUDIO_ENCODING_WAV then ma_encoding_format_wav
      else if encoding = CPKT_AUDIO_ENCODING_FLAC then ma_encoding_format_flac
      else if encoding = CPKT_AUDIO_ENCODING_MP3 then ma_encoding_format_mp3
      else ma_encoding_format_unknown)"

definition cpkt_audio_format_to_ma_encoding :: "int \<Rightarrow> ma_encoding_format" where
  "cpkt_audio_format_to_ma_encoding format =
     (if format = CPKT_AUDIO_FORMAT_WAV then ma_encoding_format_wav
      else if format = CPKT_AUDIO_FORMAT_FLAC then ma_encoding_format_flac
      else if format = CPKT_AUDIO_FORMAT_MP3 then ma_encoding_format_mp3
      else ma_encoding_format_unknown)"

definition cpkt_audio_format_from_encoding :: "int \<Rightarrow> int" where
  "cpkt_audio_format_from_encoding encoding =
     (if encoding = CPKT_AUDIO_ENCODING_WAV then CPKT_AUDIO_FORMAT_WAV
      else if encoding = CPKT_AUDIO_ENCODING_FLAC then CPKT_AUDIO_FORMAT_FLAC
      else if encoding = CPKT_AUDIO_ENCODING_MP3 then CPKT_AUDIO_FORMAT_MP3
      else CPKT_AUDIO_FORMAT_UNKNOWN)"

definition cpkt_audio_encoding_from_format :: "int \<Rightarrow> int" where
  "cpkt_audio_encoding_from_format format =
     (if format = CPKT_AUDIO_FORMAT_WAV then CPKT_AUDIO_ENCODING_WAV
      else if format = CPKT_AUDIO_FORMAT_FLAC then CPKT_AUDIO_ENCODING_FLAC
      else if format = CPKT_AUDIO_FORMAT_MP3 then CPKT_AUDIO_ENCODING_MP3
      else CPKT_AUDIO_ENCODING_UNKNOWN)"

definition cpkt_audio_format_can_decode :: "int \<Rightarrow> bool" where
  "cpkt_audio_format_can_decode format \<longleftrightarrow>
     format = CPKT_AUDIO_FORMAT_WAV \<or> format = CPKT_AUDIO_FORMAT_FLAC \<or> format = CPKT_AUDIO_FORMAT_MP3"

definition cpkt_audio_format_can_encode :: "int \<Rightarrow> bool" where
  "cpkt_audio_format_can_encode format \<longleftrightarrow> format = CPKT_AUDIO_FORMAT_WAV"

definition cpkt_audio_from_ma_result :: "ma_result \<Rightarrow> cpkt_audio_result" where
  "cpkt_audio_from_ma_result result =
     (if result = MA_SUCCESS then CPKT_AUDIO_OK
      else if result = MA_AT_END then CPKT_AUDIO_AT_END
      else if result = MA_INVALID_ARGS then CPKT_AUDIO_ERR_ARG
      else if result = MA_OUT_OF_MEMORY then CPKT_AUDIO_ERR_ALLOC
      else if result = MA_FORMAT_NOT_SUPPORTED \<or> result = MA_INVALID_FILE then CPKT_AUDIO_ERR_FORMAT
      else if result = MA_IO_ERROR \<or> result = MA_DOES_NOT_EXIST \<or> result = MA_ACCESS_DENIED \<or>
        result = MA_NOT_IMPLEMENTED then CPKT_AUDIO_ERR_IO
      else CPKT_AUDIO_ERR_UPSTREAM)"

text \<open>The configuration of a decoder; its \<open>encoding\<close> is the only field the format logic reads.\<close>

definition cpkt_audio_source_format_from_config :: "int option \<Rightarrow> int" where
  "cpkt_audio_source_format_from_config config =
     (case config of None \<Rightarrow> CPKT_AUDIO_FORMAT_UNKNOWN
      | Some encoding \<Rightarrow> cpkt_audio_format_from_encoding encoding)"

section \<open>Detection by signature\<close>

definition bytes_of :: "string \<Rightarrow> byte list" where
  "bytes_of = map (\<lambda>c. of_nat (of_char c))"

text \<open>\<open>data\<close> is NULL or a buffer whose first \<open>data_size\<close> bytes are \<open>take data_size data\<close>.\<close>

definition cpkt_audio_format_from_signature :: "byte list option \<Rightarrow> nat \<Rightarrow> int" where
  "cpkt_audio_format_from_signature data data_size =
     (case data of
        None \<Rightarrow> CPKT_AUDIO_FORMAT_UNKNOWN
      | Some data \<Rightarrow>
          if data_size < 4 then CPKT_AUDIO_FORMAT_UNKNOWN
          else if data_size \<ge> 12 \<and> take 4 data = bytes_of ''RIFF'' \<and> take 4 (drop 8 data) = bytes_of ''WAVE''
          then CPKT_AUDIO_FORMAT_WAV
          else if take 4 data = bytes_of ''fLaC'' then CPKT_AUDIO_FORMAT_FLAC
          else if data_size \<ge> 3 \<and> take 3 data = bytes_of ''ID3'' then CPKT_AUDIO_FORMAT_MP3
          else if data_size \<ge> 2 \<and> data ! 0 = 0xff \<and> data ! 1 AND 0xe0 = 0xe0 then CPKT_AUDIO_FORMAT_MP3
          else CPKT_AUDIO_FORMAT_UNKNOWN)"

text \<open>
  Opening and reading a file: \<open>fopen\<close> gives what \<open>fread\<close> of the header returns from it, at most the
  16 bytes asked for, or \<open>None\<close> when the file cannot be opened.
\<close>

definition cpkt_audio_detect_file_format :: "(string \<Rightarrow> byte list option) \<Rightarrow> string option \<Rightarrow> int" where
  "cpkt_audio_detect_file_format fopen path =
     (case path of
        None \<Rightarrow> CPKT_AUDIO_FORMAT_UNKNOWN
      | Some path \<Rightarrow>
          if path = [] then CPKT_AUDIO_FORMAT_UNKNOWN
          else (case fopen path of
                  None \<Rightarrow> CPKT_AUDIO_FORMAT_UNKNOWN
                | Some bytes \<Rightarrow>
                    (let header = take 16 bytes
                     in cpkt_audio_format_from_signature (Some header) (length header))))"

section \<open>Detection by content type\<close>

text \<open>A C string is the list of its characters before the terminating NUL.\<close>

definition cpkt_audio_ascii_tolower :: "int \<Rightarrow> int" where
  "cpkt_audio_ascii_tolower ch =
     (if ch \<ge> of_char (CHR ''A'') \<and> ch \<le> of_char (CHR ''Z'')
      then ch + (of_char (CHR ''a'') - of_char (CHR ''A'')) else ch)"

definition cpkt_audio_ascii_ieq_char :: "char \<Rightarrow> char \<Rightarrow> bool" where
  "cpkt_audio_ascii_ieq_char left right \<longleftrightarrow>
     cpkt_audio_ascii_tolower (of_char left) = cpkt_audio_ascii_tolower (of_char right)"

fun istarts_with :: "string \<Rightarrow> string \<Rightarrow> bool" where
  "istarts_with text [] = True"
| "istarts_with [] (p # ps) = False"
| "istarts_with (t # ts) (p # ps) = (cpkt_audio_ascii_ieq_char t p \<and> istarts_with ts ps)"

definition cpkt_audio_ascii_istarts_with :: "string option \<Rightarrow> string option \<Rightarrow> bool" where
  "cpkt_audio_ascii_istarts_with text prefix_text =
     (case (text, prefix_text) of (Some t, Some p) \<Rightarrow> istarts_with t p | _ \<Rightarrow> False)"

definition ct_blank :: "char \<Rightarrow> bool" where
  "ct_blank c \<longleftrightarrow> c = CHR '' '' \<or> c = CHR 0x09"

definition ct_stop :: "char \<Rightarrow> bool" where
  "ct_stop c \<longleftrightarrow> c = CHR '';'' \<or> c = CHR 0x0D \<or> c = CHR 0x0A"

text \<open>The second loop of the matcher and its closing test.\<close>

fun content_type_scan :: "string \<Rightarrow> string \<Rightarrow> bool" where
  "content_type_scan cursor [] =
     (case cursor of [] \<Rightarrow> True | c # _ \<Rightarrow> ct_stop c \<or> ct_blank c)"
| "content_type_scan [] (m # ms) = False"
| "content_type_scan (c # cs) (m # ms) =
     (\<not> ct_stop c \<and> cpkt_audio_ascii_ieq_char c m \<and> content_type_scan cs ms)"

definition cpkt_audio_content_type_matches :: "string option \<Rightarrow> string option \<Rightarrow> bool" where
  "cpkt_audio_content_type_matches content_type mime =
     (case (content_type, mime) of
        (Some content_type, Some mime) \<Rightarrow> content_type_scan (dropWhile ct_blank content_type) mime
      | _ \<Rightarrow> False)"

definition cpkt_audio_format_from_content_type :: "string option \<Rightarrow> int" where
  "cpkt_audio_format_from_content_type content_type =
     (if cpkt_audio_content_type_matches content_type (Some ''audio/mpeg'') \<or>
         cpkt_audio_content_type_matches content_type (Some ''audio/mp3'') \<or>
         cpkt_audio_content_type_matches content_type (Some ''audio/x-mpeg'') \<or>
         cpkt_audio_content_type_matches content_type (Some ''audio/x-mp3'') \<or>
         cpkt_audio_content_type_matches content_type (Some ''audio/mpeg3'')
      then CPKT_AUDIO_FORMAT_MP3
      else if cpkt_audio_content_type_matches content_type (Some ''audio/flac'') \<or>
         cpkt_audio_content_type_matches content_type (Some ''audio/x-flac'')
      then CPKT_AUDIO_FORMAT_FLAC
      else if cpkt_audio_content_type_matches content_type (Some ''audio/wav'') \<or>
         cpkt_audio_content_type_matches content_type (Some ''audio/wave'') \<or>
         cpkt_audio_content_type_matches content_type (Some ''audio/x-wav'') \<or>
         cpkt_audio_content_type_matches content_type (Some ''audio/vnd.wave'')
      then CPKT_AUDIO_FORMAT_WAV
      else CPKT_AUDIO_FORMAT_UNKNOWN)"

section \<open>Lemmas\<close>

definition lower :: "char \<Rightarrow> int" where
  "lower c = cpkt_audio_ascii_tolower (of_char c)"

lemma ieq_lower: "cpkt_audio_ascii_ieq_char c m \<longleftrightarrow> lower c = lower m"
  by (simp add: cpkt_audio_ascii_ieq_char_def lower_def)

lemma istarts_with_iff: "istarts_with t p \<longleftrightarrow> length p \<le> length t \<and> map lower (take (length p) t) = map lower p"
  by (induction t p rule: istarts_with.induct) (auto simp: ieq_lower)

lemma lower_blank [simp]: "lower (CHR '';'') = 59" "lower (CHR 0x0D) = 13" "lower (CHR 0x0A) = 10"
  by (simp_all add: lower_def cpkt_audio_ascii_tolower_def)

text \<open>
  The scan succeeds exactly when the text is the MIME type up to case, followed by its end or a
  delimiter, for a MIME type without delimiters of its own.
\<close>

lemma content_type_scan_iff:
  assumes "\<forall>m\<in>set mime. lower m \<notin> {59, 13, 10}"
  shows "content_type_scan c mime \<longleftrightarrow>
    (\<exists>p rest. c = p @ rest \<and> map lower p = map lower mime \<and>
      (rest = [] \<or> ct_stop (hd rest) \<or> ct_blank (hd rest)))"
  using assms
proof (induction c mime rule: content_type_scan.induct)
  case (1 c)
  then show ?case
    by (auto split: list.splits)
next
  case (2 m ms)
  then show ?case by simp
next
  case (3 c cs m ms)
  have stop: "\<not> ct_stop c" if "lower c = lower m"
    using 3(2) that by (auto simp: ct_stop_def)
  have ih: "content_type_scan cs ms \<longleftrightarrow> (\<exists>p rest. cs = p @ rest \<and> map lower p = map lower ms \<and>
      (rest = [] \<or> ct_stop (hd rest) \<or> ct_blank (hd rest)))" if "lower c = lower m"
    using 3(1) 3(2) by simp
  have "content_type_scan (c # cs) (m # ms) \<longleftrightarrow> lower c = lower m \<and> content_type_scan cs ms"
    using stop by (auto simp: ieq_lower)
  also have "\<dots> \<longleftrightarrow> (\<exists>p rest. c # cs = p @ rest \<and> map lower p = map lower (m # ms) \<and>
      (rest = [] \<or> ct_stop (hd rest) \<or> ct_blank (hd rest)))"
    (is "_ \<longleftrightarrow> ?R")
  proof
    assume "lower c = lower m \<and> content_type_scan cs ms"
    then obtain p rest where "cs = p @ rest" "map lower p = map lower ms"
        "rest = [] \<or> ct_stop (hd rest) \<or> ct_blank (hd rest)" "lower c = lower m"
      using ih by blast
    then show ?R
      by (intro exI [of _ "c # p"] exI [of _ rest]) simp
  next
    assume ?R
    then obtain p0 rest where p0: "c # cs = p0 @ rest" "map lower p0 = map lower (m # ms)"
        "rest = [] \<or> ct_stop (hd rest) \<or> ct_blank (hd rest)"
      by blast
    then obtain p where "p0 = c # p" "cs = p @ rest"
      by (cases p0) auto
    with p0 show "lower c = lower m \<and> content_type_scan cs ms"
      using ih by auto
  qed
  finally show ?case .
qed

lemma wav_shape:
  assumes "length r = 4" "length w = 4"
  shows "(12 \<le> length d \<and> take 4 d = r \<and> take 4 (drop 8 d) = w) \<longleftrightarrow>
    (\<exists>f rest. d = r @ f @ w @ rest \<and> length f = 4)"
proof
  assume h: "12 \<le> length d \<and> take 4 d = r \<and> take 4 (drop 8 d) = w"
  have "drop 4 d = take 4 (drop 4 d) @ drop 8 d" "drop 8 d = take 4 (drop 8 d) @ drop 12 d"
    using append_take_drop_id [of 4 "drop 4 d"] append_take_drop_id [of 4 "drop 8 d"] by simp_all
  then have "d = take 4 d @ take 4 (drop 4 d) @ take 4 (drop 8 d) @ drop 12 d"
    using append_take_drop_id [of 4 d] by metis
  moreover have "length (take 4 (drop 4 d)) = 4"
    using h unfolding length_take length_drop by linarith
  ultimately show "\<exists>f rest. d = r @ f @ w @ rest \<and> length f = 4"
    using h by metis
qed (use assms in auto)

lemma mark_shape:
  assumes "length m = 4"
  shows "(4 \<le> length d \<and> take 4 d = m) \<longleftrightarrow> (\<exists>rest. d = m @ rest)"
  using assms by (metis append_eq_conv_conj append_take_drop_id length_append le_add1)

lemma bytes_of_marks:
  "bytes_of ''RIFF'' = [0x52, 0x49, 0x46, 0x46]" "bytes_of ''WAVE'' = [0x57, 0x41, 0x56, 0x45]"
  "bytes_of ''fLaC'' = [0x66, 0x4C, 0x61, 0x43]" "bytes_of ''ID3'' = [0x49, 0x44, 0x33]"
  by (simp_all add: bytes_of_def)

lemma take4_head:
  assumes "take 4 d = [a, b, c, e]"
  shows "take 3 d = [a, b, c]" "d ! 0 = a"
proof -
  from assms have "d \<noteq> []" by auto
  show "take 3 d = [a, b, c]"
    using arg_cong [OF assms, of "take 3"] by simp
  show "d ! 0 = a"
    using assms by (cases d) auto
qed

section \<open>Properties\<close>

text \<open>
  Detection by signature is exact on its inputs: it answers WAV for a RIFF/WAVE header of at least
  12 bytes, FLAC for the fLaC mark, MP3 for an ID3 tag or an MPEG sync word, and unknown for
  anything else or for fewer than 4 bytes; the answers exclude each other, and every format it names
  is one the library can decode.
\<close>

lemma signature_detection:
  fixes data :: "byte list"
  assumes "length data = n"
  shows "cpkt_audio_format_from_signature (Some data) n \<in>
      {CPKT_AUDIO_FORMAT_UNKNOWN, CPKT_AUDIO_FORMAT_WAV, CPKT_AUDIO_FORMAT_FLAC, CPKT_AUDIO_FORMAT_MP3} \<and>
    (cpkt_audio_format_from_signature (Some data) n = CPKT_AUDIO_FORMAT_WAV \<longleftrightarrow>
      (\<exists>size_field rest. data = bytes_of ''RIFF'' @ size_field @ bytes_of ''WAVE'' @ rest \<and> length size_field = 4)) \<and>
    (cpkt_audio_format_from_signature (Some data) n = CPKT_AUDIO_FORMAT_FLAC \<longleftrightarrow>
      (\<exists>rest. data = bytes_of ''fLaC'' @ rest)) \<and>
    (cpkt_audio_format_from_signature (Some data) n = CPKT_AUDIO_FORMAT_MP3 \<longleftrightarrow>
      4 \<le> n \<and> (take 3 data = bytes_of ''ID3'' \<or> data ! 0 = 0xff \<and> data ! 1 AND 0xe0 = 0xe0)) \<and>
    (cpkt_audio_format_can_decode (cpkt_audio_format_from_signature (Some data) n) \<longleftrightarrow>
      cpkt_audio_format_from_signature (Some data) n \<noteq> CPKT_AUDIO_FORMAT_UNKNOWN)"
proof -
  note shapes = wav_shape [of "bytes_of ''RIFF''" "bytes_of ''WAVE''" data, symmetric]
    mark_shape [of "bytes_of ''fLaC''" data, symmetric]
  have riff: "take 4 data \<noteq> bytes_of ''fLaC''" "take 3 data \<noteq> bytes_of ''ID3''" "data ! 0 \<noteq> 0xff"
    if "take 4 data = bytes_of ''RIFF''"
    using take4_head [OF that [unfolded bytes_of_marks]] that by (simp_all add: bytes_of_marks)
  have flac: "take 3 data \<noteq> bytes_of ''ID3''" "data ! 0 \<noteq> 0xff"
    if "take 4 data = bytes_of ''fLaC''"
    using take4_head [OF that [unfolded bytes_of_marks]] by (simp_all add: bytes_of_marks)
  have len: "length (bytes_of ''RIFF'') = 4" "length (bytes_of ''WAVE'') = 4" "length (bytes_of ''fLaC'') = 4"
    by (simp_all add: bytes_of_def)
  show ?thesis
    using riff flac assms unfolding shapes(1) [OF len(1,2)] shapes(2) [OF len(3)]
    by (auto simp: cpkt_audio_format_from_signature_def cpkt_audio_format_can_decode_def format_codes)
qed

text \<open>
  A Content-Type header value selects a format exactly by its media type, compared without regard
  to case and to blanks before it, and ended by the end of the text, a blank or the start of a
  parameter; so a longer type with a known one as its beginning does not match.
\<close>

lemma content_type_matching:
  assumes "\<forall>m\<in>set mime. lower m \<notin> {59, 13, 10}"
  shows "cpkt_audio_content_type_matches (Some content_type) (Some mime) \<longleftrightarrow>
    (\<exists>p rest. dropWhile ct_blank content_type = p @ rest \<and> map lower p = map lower mime \<and>
      (rest = [] \<or> ct_stop (hd rest) \<or> ct_blank (hd rest)))"
  unfolding cpkt_audio_content_type_matches_def using content_type_scan_iff [OF assms] by simp

text \<open>
  Formats and encodings convert into each other without loss, and the two conversions to the
  decoder's own enumeration agree.
\<close>

lemma format_encoding_roundtrip:
  "cpkt_audio_format_can_decode f \<longrightarrow>
     cpkt_audio_format_from_encoding (cpkt_audio_encoding_from_format f) = f \<and>
     cpkt_audio_to_ma_encoding (cpkt_audio_encoding_from_format f) = cpkt_audio_format_to_ma_encoding f \<and>
     cpkt_audio_format_to_ma_encoding f \<noteq> ma_encoding_format_unknown"
  by (auto simp: cpkt_audio_format_can_decode_def cpkt_audio_format_from_encoding_def
      cpkt_audio_encoding_from_format_def cpkt_audio_to_ma_encoding_def
      cpkt_audio_format_to_ma_encoding_def format_codes)

end
