(* ===== verification/Audio_Reader.thy ===== *)
theory Audio_Reader
  imports Audio_Format
begin

text \<open>
  Reader and writer callbacks of \<^verbatim>\<open>src/audio.c\<close>: what the facade hands to the audio library in place
  of the user's \<^verbatim>\<open>cpkt_audio_reader\<close> and \<^verbatim>\<open>cpkt_audio_writer\<close>, format detection through a reader, and
  the encoder methods. User callbacks and the library's encoder are arguments. The locale
  \<open>byte_reader\<close> states what a reader promises; it is interpreted on the URL source.
\<close>

section \<open>Data\<close>

definition CPKT_AUDIO_SEEK_SET :: int where "CPKT_AUDIO_SEEK_SET = 0"
definition CPKT_AUDIO_SEEK_CUR :: int where "CPKT_AUDIO_SEEK_CUR = 1"
definition CPKT_AUDIO_SEEK_END :: int where "CPKT_AUDIO_SEEK_END = 2"

datatype ma_seek_origin = ma_seek_origin_start | ma_seek_origin_current | ma_seek_origin_end

text \<open>
  A reader and a writer on a user state \<open>'s\<close>; a member that is NULL is \<open>None\<close>. A read returns the
  bytes it stored, their number being the C result; \<open>None\<close> is a callback that does not return. A seek
  returns \<open>True\<close> for the C value 0. A write returns the count it reports.
\<close>

record 's cpkt_audio_reader =
  rd_read :: "(nat \<Rightarrow> 's \<Rightarrow> (byte list \<times> 's) option) option"
  rd_seek :: "(int \<Rightarrow> int \<Rightarrow> 's \<Rightarrow> (bool \<times> 's) option) option"

record 's cpkt_audio_writer =
  wr_write :: "(byte list \<Rightarrow> 's \<Rightarrow> nat \<times> 's) option"
  wr_seek :: "(int \<Rightarrow> int \<Rightarrow> 's \<Rightarrow> bool \<times> 's) option"

section \<open>Reader callbacks\<close>

definition cpkt_audio_detect_reader_format ::
  "'s cpkt_audio_reader option \<Rightarrow> 's \<Rightarrow> (cpkt_audio_result \<times> int \<times> 's) option" where
  "cpkt_audio_detect_reader_format reader s =
     (case reader of
        None \<Rightarrow> Some (CPKT_AUDIO_ERR_ARG, CPKT_AUDIO_FORMAT_UNKNOWN, s)
      | Some reader \<Rightarrow>
        (case rd_read reader of
           None \<Rightarrow> Some (CPKT_AUDIO_ERR_ARG, CPKT_AUDIO_FORMAT_UNKNOWN, s)
         | Some read \<Rightarrow>
           (case rd_seek reader of
              None \<Rightarrow> Some (CPKT_AUDIO_OK, CPKT_AUDIO_FORMAT_UNKNOWN, s)
            | Some seek \<Rightarrow>
              (case read 16 s of
                 None \<Rightarrow> None
               | Some (header, s) \<Rightarrow>
                   if length header > 16 then Some (CPKT_AUDIO_ERR_IO, CPKT_AUDIO_FORMAT_UNKNOWN, s)
                   else (case seek 0 CPKT_AUDIO_SEEK_SET s of
                           None \<Rightarrow> None
                         | Some (ok, s) \<Rightarrow>
                             if \<not> ok then Some (CPKT_AUDIO_ERR_IO, CPKT_AUDIO_FORMAT_UNKNOWN, s)
                             else Some (CPKT_AUDIO_OK,
                               cpkt_audio_format_from_signature (Some header) (length header), s))))))"

text \<open>
  The filling loop, \<open>remaining\<close> bytes to go. \<open>failed\<close> tells whether the URL source behind the reader,
  if there is one, has failed. The result: the miniaudio code, the bytes reported read, whether
  \<open>callback_error\<close> was set.
\<close>

function reader_fill ::
  "(nat \<Rightarrow> 's \<Rightarrow> (byte list \<times> 's) option) \<Rightarrow> ('s \<Rightarrow> bool) \<Rightarrow> nat \<Rightarrow> 's \<Rightarrow>
    (ma_result \<times> byte list \<times> bool \<times> 's) option" where
  "reader_fill read failed remaining s =
     (if remaining = 0 then Some (MA_SUCCESS, [], False, s)
      else (case read remaining s of
              None \<Rightarrow> None
            | Some (xs, s) \<Rightarrow>
                if length xs > remaining then Some (MA_IO_ERROR, [], True, s)
                else if xs = [] then
                  (if failed s then Some (MA_IO_ERROR, [], True, s) else Some (MA_SUCCESS, [], False, s))
                else (case reader_fill read failed (remaining - length xs) s of
                        None \<Rightarrow> None
                      | Some (r, ys, e, s) \<Rightarrow>
                          if r = MA_SUCCESS then Some (r, xs @ ys, e, s) else Some (r, [], e, s))))"
  by pat_completeness auto
termination
  by (relation "measure (\<lambda>(read, failed, remaining, s). remaining)") auto

declare reader_fill.simps [simp del]

definition cpkt_audio_reader_read ::
  "'s cpkt_audio_reader option \<Rightarrow> ('s \<Rightarrow> bool) \<Rightarrow> bool \<Rightarrow> nat \<Rightarrow> 's \<Rightarrow>
    (ma_result \<times> byte list \<times> bool \<times> 's) option" where
  "cpkt_audio_reader_read reader failed bytes_read_null bytes_to_read s =
     (case reader of
        None \<Rightarrow> Some (MA_INVALID_ARGS, [], False, s)
      | Some reader \<Rightarrow>
        (case rd_read reader of
           None \<Rightarrow> Some (MA_INVALID_ARGS, [], True, s)
         | Some read \<Rightarrow>
             if bytes_read_null then Some (MA_INVALID_ARGS, [], True, s)
             else reader_fill read failed bytes_to_read s))"

definition cpkt_origin_of :: "ma_seek_origin \<Rightarrow> int" where
  "cpkt_origin_of origin =
     (if origin = ma_seek_origin_start then CPKT_AUDIO_SEEK_SET
      else if origin = ma_seek_origin_current then CPKT_AUDIO_SEEK_CUR
      else CPKT_AUDIO_SEEK_END)"

definition long_range :: "int \<Rightarrow> bool" where
  "long_range offset \<longleftrightarrow> \<not> (offset > int long_max \<or> offset < - int long_max - 1)"

definition cpkt_audio_reader_seek ::
  "'s cpkt_audio_reader option \<Rightarrow> int \<Rightarrow> ma_seek_origin \<Rightarrow> 's \<Rightarrow> (ma_result \<times> bool \<times> 's) option" where
  "cpkt_audio_reader_seek reader offset origin s =
     (case reader of
        None \<Rightarrow> Some (MA_NOT_IMPLEMENTED, False, s)
      | Some reader \<Rightarrow>
        (case rd_seek reader of
           None \<Rightarrow> Some (MA_NOT_IMPLEMENTED, True, s)
         | Some seek \<Rightarrow>
             if \<not> long_range offset then Some (MA_INVALID_ARGS, True, s)
             else (case seek offset (cpkt_origin_of origin) s of
                     None \<Rightarrow> None
                   | Some (ok, s) \<Rightarrow>
                       if \<not> ok then Some (MA_IO_ERROR, True, s) else Some (MA_SUCCESS, False, s))))"

section \<open>Writer callbacks\<close>

text \<open>The result: the miniaudio code, \<open>*bytes_written\<close> where it is assigned, the error flag, the state.\<close>

definition cpkt_audio_writer_write ::
  "'s cpkt_audio_writer option \<Rightarrow> bool \<Rightarrow> byte list \<Rightarrow> 's \<Rightarrow> ma_result \<times> nat option \<times> bool \<times> 's" where
  "cpkt_audio_writer_write writer bytes_written_null buffer s =
     (case writer of
        None \<Rightarrow> (MA_INVALID_ARGS, None, False, s)
      | Some writer \<Rightarrow>
        (case wr_write writer of
           None \<Rightarrow> (MA_INVALID_ARGS, None, True, s)
         | Some write \<Rightarrow>
             if bytes_written_null then (MA_INVALID_ARGS, None, True, s)
             else
               let (nwritten, s) = write buffer s in
               if nwritten > length buffer then (MA_IO_ERROR, None, True, s)
               else if nwritten \<noteq> length buffer then (MA_IO_ERROR, Some nwritten, True, s)
               else (MA_SUCCESS, Some nwritten, False, s)))"

definition cpkt_audio_writer_seek ::
  "'s cpkt_audio_writer option \<Rightarrow> int \<Rightarrow> ma_seek_origin \<Rightarrow> 's \<Rightarrow> ma_result \<times> bool \<times> 's" where
  "cpkt_audio_writer_seek writer offset origin s =
     (case writer of
        None \<Rightarrow> (MA_NOT_IMPLEMENTED, False, s)
      | Some writer \<Rightarrow>
        (case wr_seek writer of
           None \<Rightarrow> (MA_NOT_IMPLEMENTED, False, s)
         | Some seek \<Rightarrow>
             if \<not> long_range offset then (MA_INVALID_ARGS, True, s)
             else
               let (ok, s) = seek offset (cpkt_origin_of origin) s in
               if \<not> ok then (MA_IO_ERROR, True, s) else (MA_SUCCESS, False, s)))"

section \<open>Encoder methods\<close>

text \<open>
  The encoder of the audio library is an argument: \<open>write\<close> gives the result, the frames it took and
  whether a writer callback failed meanwhile.
\<close>

record encoder_impl =
  en_closed :: bool
  en_callback_error :: bool
  en_uninits :: nat

definition cpkt_audio_encoder_write_f32_impl ::
  "(f32 list \<Rightarrow> ma_result \<times> nat \<times> bool) \<Rightarrow> encoder_impl option \<Rightarrow> f32 list option \<Rightarrow> nat \<Rightarrow> bool \<Rightarrow>
    cpkt_audio_result \<times> nat \<times> encoder_impl option" where
  "cpkt_audio_encoder_write_f32_impl write self frames frame_count written_null =
     (case (self, frames) of
        (Some impl, Some xs) \<Rightarrow>
          if written_null then (CPKT_AUDIO_ERR_ARG, 0, self)
          else if frame_count = 0 then (CPKT_AUDIO_OK, 0, self)
          else if en_closed impl then (CPKT_AUDIO_ERR_IO, 0, self)
          else
            let (result, actual, failed) = write (take frame_count xs);
                impl = impl\<lparr>en_callback_error := en_callback_error impl \<or> failed\<rparr>
            in if result \<noteq> MA_SUCCESS \<and> en_callback_error impl then (CPKT_AUDIO_ERR_IO, actual, Some impl)
               else (cpkt_audio_from_ma_result result, actual, Some impl)
      | _ \<Rightarrow> (CPKT_AUDIO_ERR_ARG, 0, self))"

text \<open>\<open>failed\<close>: whether a writer callback fails while the library finishes the file.\<close>

definition cpkt_audio_encoder_close_impl ::
  "bool \<Rightarrow> encoder_impl option \<Rightarrow> cpkt_audio_result \<times> encoder_impl option" where
  "cpkt_audio_encoder_close_impl failed self =
     (case self of
        None \<Rightarrow> (CPKT_AUDIO_ERR_ARG, None)
      | Some impl \<Rightarrow>
          (let impl = (if \<not> en_closed impl
                       then impl\<lparr>en_uninits := Suc (en_uninits impl),
                                 en_callback_error := en_callback_error impl \<or> failed,
                                 en_closed := True\<rparr>
                       else impl)
           in if en_callback_error impl then (CPKT_AUDIO_ERR_IO, Some impl) else (CPKT_AUDIO_OK, Some impl)))"

text \<open>Destruction: the number of \<open>ma_encoder_uninit\<close> calls the encoder has seen when it is gone.\<close>

definition cpkt_audio_encoder_destroy_impl :: "encoder_impl option \<Rightarrow> nat" where
  "cpkt_audio_encoder_destroy_impl self =
     (case self of
        None \<Rightarrow> 0
      | Some impl \<Rightarrow> if \<not> en_closed impl then Suc (en_uninits impl) else en_uninits impl)"

lemma prefix_drop_mono: "prefix xs (drop k a) \<Longrightarrow> prefix a b \<Longrightarrow> prefix xs (drop k b)"
  by (auto simp: prefix_def [of a b] intro: prefix_prefix)

lemma prefix_takes: "prefix h c \<Longrightarrow> h = take (length h) c \<and> length h \<le> length c"
  by (auto simp: prefix_def)

section \<open>Interface of a stream reader\<close>

text \<open>
  What the decoder relies on in a reader: it delivers, in order and without gaps, the bytes of a
  stream that only grows, and seeking from the start sets the position.
\<close>

locale byte_reader =
  fixes read :: "nat \<Rightarrow> 's \<Rightarrow> (byte list \<times> 's) option"
    and seek :: "int \<Rightarrow> int \<Rightarrow> 's \<Rightarrow> (bool \<times> 's) option"
    and contents :: "'s \<Rightarrow> byte list"
    and pos :: "'s \<Rightarrow> nat"
    and invar :: "'s \<Rightarrow> bool"
  assumes read_total: "invar s \<Longrightarrow> \<exists>xs s'. read n s = Some (xs, s')"
    and read_law: "invar s \<Longrightarrow> read n s = Some (xs, s') \<Longrightarrow>
      invar s' \<and> prefix (contents s) (contents s') \<and> prefix xs (drop (pos s) (contents s')) \<and>
      length xs \<le> n \<and> pos s' = pos s + length xs"
    and seek_total: "invar s \<Longrightarrow> \<exists>ok s'. seek offset CPKT_AUDIO_SEEK_SET s = Some (ok, s')"
    and seek_law: "invar s \<Longrightarrow> seek offset CPKT_AUDIO_SEEK_SET s = Some (ok, s') \<Longrightarrow>
      invar s' \<and> prefix (contents s) (contents s') \<and> (ok \<longrightarrow> int (pos s') = offset)"
begin

lemma fill_law:
  assumes "invar s"
  shows "\<exists>r xs e s'. reader_fill read failed n s = Some (r, xs, e, s') \<and> invar s' \<and>
    prefix (contents s) (contents s') \<and> (r = MA_SUCCESS \<or> r = MA_IO_ERROR) \<and> (e \<longleftrightarrow> r \<noteq> MA_SUCCESS) \<and>
    (r = MA_SUCCESS \<longrightarrow> prefix xs (drop (pos s) (contents s')) \<and> length xs \<le> n \<and> pos s' = pos s + length xs)"
  using assms
proof (induction n arbitrary: s rule: less_induct)
  case (less n)
  obtain xs t where rd: "read n s = Some (xs, t)" using read_total [OF less(2)] by blast
  note rl = read_law [OF less(2) rd]
  show ?case
  proof (cases "n = 0 \<or> xs = []")
    case True
    then show ?thesis
      using rd rl less(2) by (auto simp: reader_fill.simps [of read failed n s])
  next
    case False
    then have "n - length xs < n" by simp
    from less(1) [OF this] rl obtain r ys e u where
      u: "reader_fill read failed (n - length xs) t = Some (r, ys, e, u)" "invar u"
        "prefix (contents t) (contents u)" "r = MA_SUCCESS \<or> r = MA_IO_ERROR" "e \<longleftrightarrow> r \<noteq> MA_SUCCESS"
        "r = MA_SUCCESS \<longrightarrow> prefix ys (drop (pos t) (contents u)) \<and> length ys \<le> n - length xs \<and>
          pos u = pos t + length ys"
      by blast
    have xs: "drop (pos s) (contents u) = xs @ drop (pos s + length xs) (contents u)"
    proof -
      have "prefix xs (drop (pos s) (contents u))"
        using rl u(3) prefix_drop_mono by blast
      then show ?thesis
        by (auto simp: prefix_def add.commute simp flip: drop_drop)
    qed
    have "prefix (contents s) (contents u)"
      using rl u(3) prefix_order.trans by blast
    moreover have "reader_fill read failed n s =
        (if r = MA_SUCCESS then Some (r, xs @ ys, e, u) else Some (r, [], e, u))"
      using False rd rl u(1) by (simp add: reader_fill.simps [of read failed n s])
    ultimately show ?thesis
      using u rl xs by auto
  qed
qed

lemma detect_law:
  assumes "invar s" "pos s = 0"
  shows "\<exists>r f s'. cpkt_audio_detect_reader_format (Some \<lparr>rd_read = Some read, rd_seek = Some seek\<rparr>) s =
      Some (r, f, s') \<and> invar s' \<and> prefix (contents s) (contents s') \<and>
    (r = CPKT_AUDIO_OK \<longrightarrow> pos s' = 0 \<and>
      (\<exists>k\<le>16. k \<le> length (contents s') \<and>
        f = cpkt_audio_format_from_signature (Some (take k (contents s'))) k))"
proof -
  obtain h t where rd: "read 16 s = Some (h, t)" using read_total [OF assms(1)] by blast
  note rl = read_law [OF assms(1) rd]
  obtain ok u where sk: "seek 0 CPKT_AUDIO_SEEK_SET t = Some (ok, u)" using seek_total rl by blast
  note sl = seek_law [OF _ sk]
  have h: "h = take (length h) (contents u)" "length h \<le> length (contents u)" "length h \<le> 16"
    using rl sl assms(2) prefix_order.trans [of h "contents t" "contents u"] prefix_takes [of h "contents u"]
    by auto
  have "prefix (contents s) (contents u)"
    using rl sl prefix_order.trans by blast
  with rd sk rl sl h show ?thesis
    by (cases ok) (auto simp: cpkt_audio_detect_reader_format_def intro!: exI [of _ "length h"])
qed

end

end
