(* ===== verification/Audio_Url.thy ===== *)
theory Audio_Url
  imports Audio_Reader
begin

text \<open>
  The URL source of \<^verbatim>\<open>src/audio.c\<close> (\<^verbatim>\<open>struct cpkt_audio_url_source\<close>): libcurl pushes body and header
  data through callbacks into a buffer that grows at its end and forgets what lies far behind the
  cursor; the read and seek callbacks drive the transfer until they have what they need.

  libcurl is not part of the sources: its rounds (\<open>us_curl\<close>), polling (\<open>us_poll\<close>) and the allocator
  (\<open>us_realloc\<close>) are fields of the environment and may behave in any way. Termination rests on the
  hypothesis \<open>ends_at\<close>: the transfer is reported done in some round, which the low-speed and connect
  time-outs set at creation promise. The ghost field \<open>us_stream\<close> records the body as received;
  \<open>url_win\<close> states that the buffer is a window onto it. NULL tests of arguments that every caller
  passes are left out.
\<close>

definition CPKT_AUDIO_URL_REWIND_BYTES :: nat where "CPKT_AUDIO_URL_REWIND_BYTES = 1048576"
definition CPKT_AUDIO_URL_BUFFER_CHUNK :: nat where "CPKT_AUDIO_URL_BUFFER_CHUNK = 16384"

section \<open>The transfer library\<close>

datatype curlm_code = CURLM_OK | CURLM_CALL_MULTI_PERFORM | CURLM_FAILED

datatype curl_call = CallHeader string | CallBody "byte list"

text \<open>
  A message of \<open>curl_multi_info_read\<close>: whether it reports this transfer done, whether its result is
  CURLE_OK, and the response code where \<open>curl_easy_getinfo\<close> gives one.
\<close>

record curl_msg =
  cm_done :: bool
  cm_ok :: bool
  cm_status :: "int option"

text \<open>One call of \<open>curl_multi_perform\<close>: the callbacks it makes, its code and the messages queued after it.\<close>

record curl_round =
  cr_calls :: "curl_call list"
  cr_code :: curlm_code
  cr_running :: bool
  cr_messages :: "curl_msg list"

section \<open>State\<close>

text \<open>
  \<open>us_buffer\<close> is the live part of the buffer, its length the C field \<open>buffer_size\<close>. The environment of a
  source adds the rounds of the transfer library, the outcomes of polling and of \<open>realloc\<close>, counters
  for both, and \<open>us_stream\<close>, every body byte accepted so far.
\<close>

record url_source =
  us_buffer :: "byte list"
  us_buffer_base :: nat
  us_buffer_cursor :: nat
  us_buffer_capacity :: nat
  us_running :: bool
  us_done :: bool
  us_failed :: bool
  us_content_type :: string

record url_sys = url_source +
  us_curl :: "nat \<Rightarrow> curl_round"
  us_poll :: "nat \<Rightarrow> bool"
  us_realloc :: "nat \<Rightarrow> bool"
  us_tick :: nat
  us_allocs :: nat
  us_stream :: "byte list"

section \<open>The buffer window\<close>

definition cpkt_audio_url_buffer_end :: "url_sys \<Rightarrow> nat" where
  "cpkt_audio_url_buffer_end s =
     (case cpkt_audio_size_add (us_buffer_base s) (length (us_buffer s)) of
        None \<Rightarrow> size_max | Some e \<Rightarrow> e)"

definition cpkt_audio_url_source_discard_consumed :: "url_sys \<Rightarrow> url_sys" where
  "cpkt_audio_url_source_discard_consumed s =
     (if us_buffer_cursor s \<le> us_buffer_base s then s
      else
        let keep_from = (if us_buffer_cursor s > CPKT_AUDIO_URL_REWIND_BYTES
                         then us_buffer_cursor s - CPKT_AUDIO_URL_REWIND_BYTES else 0)
        in
        if keep_from \<le> us_buffer_base s then s
        else
          let discard = keep_from - us_buffer_base s in
          if discard > length (us_buffer s) then s\<lparr>us_failed := True\<rparr>
          else s\<lparr>us_buffer := drop discard (us_buffer s),
                 us_buffer_base := us_buffer_base s + discard\<rparr>)"

text \<open>
  The write callback on \<open>data\<close> of \<open>size * nmemb\<close> bytes: the count it returns, and the source.
\<close>

definition url_grow :: "nat \<Rightarrow> url_sys \<Rightarrow> bool \<times> url_sys" where
  "url_grow needed s =
     (if needed > us_buffer_capacity s then
        (case grow_capacity CPKT_AUDIO_URL_BUFFER_CHUNK (us_buffer_capacity s) needed of
           None \<Rightarrow> (False, s\<lparr>us_failed := True\<rparr>)
         | Some next_capacity \<Rightarrow>
             (let ok = us_realloc s (us_allocs s);
                  s = s\<lparr>us_allocs := Suc (us_allocs s)\<rparr>
              in if \<not> ok then (False, s\<lparr>us_failed := True\<rparr>)
                 else (True, s\<lparr>us_buffer_capacity := next_capacity\<rparr>)))
      else (True, s))"

definition cpkt_audio_url_write :: "byte list \<Rightarrow> nat \<Rightarrow> nat \<Rightarrow> url_sys \<Rightarrow> nat \<times> url_sys" where
  "cpkt_audio_url_write data item_size nmemb s =
     (if item_size = 0 then (0, s)
      else if nmemb > size_max div item_size then (0, s\<lparr>us_failed := True\<rparr>)
      else
        let byte_count = item_size * nmemb in
        if byte_count = 0 then (0, s)
        else
          let s = cpkt_audio_url_source_discard_consumed s in
          if us_failed s then (0, s)
          else if length (us_buffer s) > size_max - byte_count then (0, s\<lparr>us_failed := True\<rparr>)
          else
            let needed = length (us_buffer s) + byte_count;
                (ok, s) = url_grow needed s
            in
            if \<not> ok then (0, s)
            else (byte_count,
                  s\<lparr>us_buffer := us_buffer s @ take byte_count data,
                    us_stream := us_stream s @ take byte_count data\<rparr>))"

section \<open>The header callback\<close>

text \<open>The two copying loops on the rest of the line: up to 127 characters, stopping at CR or LF.\<close>

fun header_copy :: "nat \<Rightarrow> string \<Rightarrow> string" where
  "header_copy room [] = []"
| "header_copy room (c # cs) =
     (if c \<noteq> CHR 0x0D \<and> c \<noteq> CHR 0x0A \<and> room > 0 then c # header_copy (room - 1) cs else [])"

definition trim_blank_end :: "string \<Rightarrow> string" where
  "trim_blank_end s = rev (dropWhile ct_blank (rev s))"

definition cpkt_audio_url_header :: "string option \<Rightarrow> nat \<Rightarrow> nat \<Rightarrow> url_sys \<Rightarrow> nat \<times> url_sys" where
  "cpkt_audio_url_header buffer item_size nmemb s =
     (case buffer of
        None \<Rightarrow> (0, s)
      | Some buffer \<Rightarrow>
          if item_size = 0 then (0, s)
          else if nmemb > size_max div item_size then (0, s\<lparr>us_failed := True\<rparr>)
          else
            let byte_count = item_size * nmemb in
            if byte_count = 0 then (0, s)
            else if byte_count < 13 \<or> \<not> istarts_with buffer ''Content-Type:'' then (byte_count, s)
            else
              let line = take byte_count buffer;
                  value = header_copy 127 (dropWhile ct_blank (drop 13 line))
              in (byte_count, s\<lparr>us_content_type := trim_blank_end value\<rparr>))"

section \<open>Driving the transfer\<close>

text \<open>
  The callbacks of one round. The library stops calling back, documented behaviour, once a callback
  returns another count than it was given.
\<close>

fun curl_deliver :: "curl_call list \<Rightarrow> url_sys \<Rightarrow> url_sys" where
  "curl_deliver [] s = s"
| "curl_deliver (CallHeader h # calls) s =
     (let (n, s) = cpkt_audio_url_header (Some h) 1 (length h) s
      in if n \<noteq> length h then s else curl_deliver calls s)"
| "curl_deliver (CallBody d # calls) s =
     (let (n, s) = cpkt_audio_url_write d 1 (length d) s
      in if n \<noteq> length d then s else curl_deliver calls s)"

definition curl_multi_perform :: "url_sys \<Rightarrow> curl_round \<times> url_sys" where
  "curl_multi_perform s =
     (let round = us_curl s (us_tick s);
          s = curl_deliver (cr_calls round) (s\<lparr>us_tick := Suc (us_tick s)\<rparr>)
      in (round, s\<lparr>us_running := cr_running round\<rparr>))"

fun cpkt_audio_url_source_collect_done :: "curl_msg list \<Rightarrow> url_sys \<Rightarrow> url_sys" where
  "cpkt_audio_url_source_collect_done [] s = s"
| "cpkt_audio_url_source_collect_done (m # ms) s =
     cpkt_audio_url_source_collect_done ms
       (if cm_done m then
          (let s = s\<lparr>us_done := True, us_running := False\<rparr>;
               s = (if \<not> cm_ok m then s\<lparr>us_failed := True\<rparr> else s)
           in case cm_status m of
                Some status \<Rightarrow> if status \<ge> 400 then s\<lparr>us_failed := True\<rparr> else s
              | None \<Rightarrow> s)
        else s)"

partial_function (option) url_perform_loop :: "url_sys \<Rightarrow> (curl_round \<times> url_sys) option" where
  "url_perform_loop s =
     (let (round, s) = curl_multi_perform s
      in if cr_code round = CURLM_CALL_MULTI_PERFORM then url_perform_loop s else Some (round, s))"

text \<open>The result is the C return value: nonzero is \<open>True\<close>.\<close>

definition cpkt_audio_url_source_progress :: "url_sys \<Rightarrow> (bool \<times> url_sys) option" where
  "cpkt_audio_url_source_progress s =
     (if us_failed s then Some (True, s)
      else Option.bind (url_perform_loop s) (\<lambda>(round, s).
        if cr_code round \<noteq> CURLM_OK then Some (True, s\<lparr>us_failed := True\<rparr>)
        else let s = cpkt_audio_url_source_collect_done (cr_messages round) s
             in Some (us_failed s, s)))"

partial_function (option) download_loop :: "nat \<Rightarrow> url_sys \<Rightarrow> url_sys option" where
  "download_loop target_offset s =
     (if cpkt_audio_url_buffer_end s < target_offset \<and> \<not> us_done s \<and> \<not> us_failed s then
        Option.bind (cpkt_audio_url_source_progress s) (\<lambda>(stop, s).
          if stop then Some s
          else if cpkt_audio_url_buffer_end s < target_offset \<and> \<not> us_done s \<and> \<not> us_failed s then
            (if us_poll s (us_tick s) then download_loop target_offset s
             else Some (s\<lparr>us_failed := True\<rparr>))
          else download_loop target_offset s)
      else Some s)"

definition cpkt_audio_url_source_download_until :: "nat \<Rightarrow> url_sys \<Rightarrow> (bool \<times> url_sys) option" where
  "cpkt_audio_url_source_download_until target_offset s =
     map_option (\<lambda>s. (us_failed s, s)) (download_loop target_offset s)"

section \<open>Reading and seeking\<close>

text \<open>The common tail of the two read callbacks: copy from the window and advance.\<close>

definition url_copy :: "nat \<Rightarrow> url_sys \<Rightarrow> byte list \<times> url_sys" where
  "url_copy bytes_to_read s =
     (let buffer_end = cpkt_audio_url_buffer_end s in
      if us_buffer_cursor s < us_buffer_base s \<or> us_buffer_cursor s \<ge> buffer_end then ([], s)
      else
        let buffer_offset = us_buffer_cursor s - us_buffer_base s;
            available = buffer_end - us_buffer_cursor s;
            to_copy = (if available < bytes_to_read then available else bytes_to_read)
        in (take to_copy (drop buffer_offset (us_buffer s)),
            cpkt_audio_url_source_discard_consumed
              (s\<lparr>us_buffer_cursor := us_buffer_cursor s + to_copy\<rparr>)))"

definition cpkt_audio_url_read :: "bool \<Rightarrow> nat \<Rightarrow> url_sys \<Rightarrow> (byte list \<times> url_sys) option" where
  "cpkt_audio_url_read buffer_null bytes_to_read s =
     (if buffer_null \<or> bytes_to_read = 0 then Some ([], s)
      else if us_buffer_cursor s > size_max - bytes_to_read then Some ([], s\<lparr>us_failed := True\<rparr>)
      else
        let target_offset = us_buffer_cursor s + bytes_to_read in
        Option.bind (cpkt_audio_url_source_download_until target_offset s) (\<lambda>(failed, s).
          if failed then Some ([], s) else Some (url_copy bytes_to_read s)))"

partial_function (option) drmp3_wait :: "url_sys \<Rightarrow> url_sys option" where
  "drmp3_wait s =
     (if \<not> us_done s \<and> \<not> us_failed s then
        (if us_buffer_cursor s < cpkt_audio_url_buffer_end s then Some s
         else Option.bind (cpkt_audio_url_source_progress s) (\<lambda>(stop, s).
           if stop then Some s
           else if us_buffer_cursor s < cpkt_audio_url_buffer_end s then Some s
           else if us_poll s (us_tick s) then drmp3_wait s
           else Some (s\<lparr>us_failed := True\<rparr>)))
      else Some s)"

definition cpkt_audio_drmp3_url_read :: "bool \<Rightarrow> nat \<Rightarrow> url_sys \<Rightarrow> (byte list \<times> url_sys) option" where
  "cpkt_audio_drmp3_url_read buffer_null bytes_to_read s =
     (if buffer_null \<or> bytes_to_read = 0 then Some ([], s)
      else map_option (url_copy bytes_to_read) (drmp3_wait s))"


definition url_seek_target :: "int \<Rightarrow> int \<Rightarrow> url_sys \<Rightarrow> nat option" where
  "url_seek_target offset origin s =
     (case (if origin = CPKT_AUDIO_SEEK_SET then Some 0
            else if origin = CPKT_AUDIO_SEEK_CUR then
              (if us_buffer_cursor s > long_max then None else Some (int (us_buffer_cursor s)))
            else None) of
        None \<Rightarrow> None
      | Some base \<Rightarrow>
          if offset > 0 \<and> base > int long_max - offset \<or>
             offset < 0 \<and> base < - int long_max - 1 - offset then None
          else if base + offset < 0 then None
          else Some (nat (base + offset)))"

text \<open>The result of a seek is \<open>True\<close> for the C value 0 and \<open>False\<close> for -1.\<close>

definition cpkt_audio_url_seek :: "int \<Rightarrow> int \<Rightarrow> url_sys \<Rightarrow> (bool \<times> url_sys) option" where
  "cpkt_audio_url_seek offset origin s =
     (case url_seek_target offset origin s of
        None \<Rightarrow> Some (False, s)
      | Some target \<Rightarrow>
          Option.bind (cpkt_audio_url_source_download_until target s) (\<lambda>(failed, s).
            if failed then Some (False, s)
            else if target < us_buffer_base s \<or> target > cpkt_audio_url_buffer_end s then Some (False, s)
            else Some (True, s\<lparr>us_buffer_cursor := target\<rparr>)))"

section \<open>Format of a source\<close>

partial_function (option) url_detect_loop :: "int \<Rightarrow> url_sys \<Rightarrow> (int \<times> url_sys) option" where
  "url_detect_loop format s =
     (if format = CPKT_AUDIO_FORMAT_UNKNOWN \<and> \<not> us_done s \<and> \<not> us_failed s then
        (if cpkt_audio_url_buffer_end s \<ge> 16 then Some (format, s)
         else Option.bind (cpkt_audio_url_source_progress s) (\<lambda>(stop, s).
           if stop then Some (format, s)
           else
             let format = cpkt_audio_format_from_content_type (Some (us_content_type s)) in
             if format \<noteq> CPKT_AUDIO_FORMAT_UNKNOWN \<or> cpkt_audio_url_buffer_end s \<ge> 16 \<or> us_done s \<or>
                us_failed s then Some (format, s)
             else if us_poll s (us_tick s) then url_detect_loop format s
             else Some (format, s\<lparr>us_failed := True\<rparr>)))
      else Some (format, s))"

definition cpkt_audio_url_source_detect_format :: "url_sys \<Rightarrow> (cpkt_audio_result \<times> int \<times> url_sys) option" where
  "cpkt_audio_url_source_detect_format s =
     map_option (\<lambda>(format, s).
       if us_failed s then (CPKT_AUDIO_ERR_IO, CPKT_AUDIO_FORMAT_UNKNOWN, s)
       else
         let format =
               (if format = CPKT_AUDIO_FORMAT_UNKNOWN then
                  (let buffer_end = cpkt_audio_url_buffer_end s in
                   if us_buffer_base s = 0 \<and> buffer_end \<noteq> size_max then
                     (let inspect_size = (if buffer_end < length (us_buffer s) then buffer_end
                                          else length (us_buffer s));
                          inspect_size = (if inspect_size > 16 then 16 else inspect_size)
                      in cpkt_audio_format_from_signature (Some (us_buffer s)) inspect_size)
                   else format)
                else format)
         in (CPKT_AUDIO_OK, format, s))
       (url_detect_loop (cpkt_audio_format_from_content_type (Some (us_content_type s))) s)"

text \<open>
  Creation. The library's set-up calls are arguments: whether \<open>curl_global_init\<close>, \<open>calloc\<close>, the two
  handle constructors and \<open>curl_multi_add_handle\<close> succeed. \<open>env\<close> supplies the environment fields.
\<close>

definition cpkt_audio_url_source_create ::
  "bool \<Rightarrow> bool \<Rightarrow> bool \<Rightarrow> bool \<Rightarrow> bool \<Rightarrow> bool \<Rightarrow> url_sys \<Rightarrow> string option \<Rightarrow>
    cpkt_audio_result \<times> url_sys option" where
  "cpkt_audio_url_source_create global_ok calloc_ok easy_ok multi_ok add_ok out_null env url =
     (case url of
        None \<Rightarrow> (CPKT_AUDIO_ERR_ARG, None)
      | Some url \<Rightarrow>
          if out_null \<or> url = [] then (CPKT_AUDIO_ERR_ARG, None)
          else if \<not> global_ok then (CPKT_AUDIO_ERR_UPSTREAM, None)
          else if \<not> calloc_ok then (CPKT_AUDIO_ERR_ALLOC, None)
          else if \<not> easy_ok \<or> \<not> multi_ok then (CPKT_AUDIO_ERR_ALLOC, None)
          else if \<not> add_ok then (CPKT_AUDIO_ERR_UPSTREAM, None)
          else (CPKT_AUDIO_OK,
                Some (env\<lparr>us_buffer := [], us_buffer_base := 0, us_buffer_cursor := 0,
                  us_buffer_capacity := 0, us_running := True, us_done := False, us_failed := False,
                  us_content_type := [], us_tick := 0, us_allocs := 0, us_stream := []\<rparr>)))"

section \<open>The window onto the stream\<close>

definition url_win :: "url_sys \<Rightarrow> bool" where
  "url_win s \<longleftrightarrow>
     us_buffer s = drop (us_buffer_base s) (us_stream s) \<and>
     us_buffer_base s \<le> us_buffer_cursor s \<and> us_buffer_cursor s \<le> length (us_stream s) \<and>
     length (us_stream s) \<le> size_max \<and>
     length (us_buffer s) \<le> us_buffer_capacity s \<and> us_buffer_capacity s \<le> size_max"

text \<open>
  \<open>url_steps s s'\<close>: the window of \<open>s'\<close> shows a later state of the same transfer, read up to the same
  position, and at least the last \<open>CPKT_AUDIO_URL_REWIND_BYTES\<close> before it are still there.
\<close>

definition url_steps :: "url_sys \<Rightarrow> url_sys \<Rightarrow> bool" where
  "url_steps s s' \<longleftrightarrow>
     url_win s' \<and> prefix (us_stream s) (us_stream s') \<and> us_buffer_cursor s' = us_buffer_cursor s \<and>
     us_buffer_base s' \<le> max (us_buffer_base s) (us_buffer_cursor s - CPKT_AUDIO_URL_REWIND_BYTES) \<and>
     us_curl s' = us_curl s \<and> us_poll s' = us_poll s \<and> us_tick s \<le> us_tick s'"

lemma steps_refl: "url_win s \<Longrightarrow> url_steps s s"
  by (simp add: url_steps_def)

lemma steps_trans: "url_steps s t \<Longrightarrow> url_steps t u \<Longrightarrow> url_steps s u"
  unfolding url_steps_def using prefix_order.trans by fastforce

lemma win_end: "url_win s \<Longrightarrow> cpkt_audio_url_buffer_end s = length (us_stream s)"
  by (auto simp: url_win_def cpkt_audio_url_buffer_end_def sz_simps)

lemma discard_cases:
  assumes "url_win s"
  shows "\<exists>d. cpkt_audio_url_source_discard_consumed s =
      s\<lparr>us_buffer := drop d (us_buffer s), us_buffer_base := us_buffer_base s + d\<rparr> \<and>
    us_buffer_base s + d \<le> us_buffer_cursor s \<and>
    us_buffer_base s + d = max (us_buffer_base s) (us_buffer_cursor s - CPKT_AUDIO_URL_REWIND_BYTES)"
proof -
  let ?k = "us_buffer_cursor s - CPKT_AUDIO_URL_REWIND_BYTES"
  have le: "us_buffer_base s \<le> us_buffer_cursor s" "us_buffer_cursor s \<le> length (us_stream s)"
      "us_buffer s = drop (us_buffer_base s) (us_stream s)"
    using assms by (simp_all add: url_win_def)
  show ?thesis
  proof (cases "us_buffer_base s < ?k")
    case True
    then have "cpkt_audio_url_source_discard_consumed s =
        s\<lparr>us_buffer := drop (?k - us_buffer_base s) (us_buffer s), us_buffer_base := us_buffer_base s + (?k - us_buffer_base s)\<rparr>"
      using le by (auto simp: cpkt_audio_url_source_discard_consumed_def Let_def CPKT_AUDIO_URL_REWIND_BYTES_def)
    with True show ?thesis
      by (intro exI [of _ "?k - us_buffer_base s"]) auto
  next
    case False
    then have "cpkt_audio_url_source_discard_consumed s = s"
      by (auto simp: cpkt_audio_url_source_discard_consumed_def Let_def)
    with False le(1) show ?thesis
      by (intro exI [of _ 0]) auto
  qed
qed

lemma discard_steps:
  assumes "url_win s"
  shows "url_steps s (cpkt_audio_url_source_discard_consumed s)"
    "us_failed (cpkt_audio_url_source_discard_consumed s) = us_failed s"
    "us_done (cpkt_audio_url_source_discard_consumed s) = us_done s"
    "us_stream (cpkt_audio_url_source_discard_consumed s) = us_stream s"
    "us_tick (cpkt_audio_url_source_discard_consumed s) = us_tick s"
    "us_buffer_cursor (cpkt_audio_url_source_discard_consumed s) = us_buffer_cursor s"
proof -
  from discard_cases [OF assms] obtain d where
    d: "cpkt_audio_url_source_discard_consumed s =
      s\<lparr>us_buffer := drop d (us_buffer s), us_buffer_base := us_buffer_base s + d\<rparr>"
    "us_buffer_base s + d \<le> us_buffer_cursor s"
    "us_buffer_base s + d = max (us_buffer_base s) (us_buffer_cursor s - CPKT_AUDIO_URL_REWIND_BYTES)"
    by blast
  show "url_steps s (cpkt_audio_url_source_discard_consumed s)"
    using assms d(2,3) unfolding d(1) by (auto simp: url_steps_def url_win_def add.commute)
qed (use discard_cases [OF assms] in auto)

lemma grow_steps:
  assumes "url_win s" "url_grow needed s = (ok, s')"
  shows "url_steps s s'" "us_done s' = us_done s" "us_stream s' = us_stream s"
    "ok \<Longrightarrow> needed \<le> us_buffer_capacity s'" "us_tick s' = us_tick s"
proof -
  have cap: "c \<le> size_max \<and> needed \<le> c \<and> us_buffer_capacity s \<le> c"
    if "grow_capacity CPKT_AUDIO_URL_BUFFER_CHUNK (us_buffer_capacity s) needed = Some c" for c
  proof -
    let ?c0 = "if us_buffer_capacity s = 0 then CPKT_AUDIO_URL_BUFFER_CHUNK else us_buffer_capacity s"
    have "grow_loop needed ?c0 = Some c" using that by (simp add: grow_capacity_def)
    moreover have "?c0 \<le> size_max"
      using assms(1) by (simp add: url_win_def CPKT_AUDIO_URL_BUFFER_CHUNK_def c_limits)
    moreover have "us_buffer_capacity s \<le> ?c0" by simp
    ultimately show ?thesis
      using grow_loop_Some [of needed ?c0 c] grow_loop_bound [of needed ?c0 c] by linarith
  qed
  show "url_steps s s'" "us_done s' = us_done s" "us_stream s' = us_stream s"
    "ok \<Longrightarrow> needed \<le> us_buffer_capacity s'" "us_tick s' = us_tick s"
    using assms cap
    by (auto simp: url_grow_def Let_def url_steps_def url_win_def split: if_splits option.splits)
qed

text \<open>A body chunk is appended whole, or refused with the failure flag set.\<close>

lemma write_steps:
  assumes win: "url_win s" and room: "length (us_stream s) + length d \<le> size_max"
    and wr: "cpkt_audio_url_write d 1 (length d) s = (n, s')"
  shows "url_steps s s' \<and> us_done s' = us_done s \<and> us_tick s' = us_tick s \<and>
    (us_stream s' = us_stream s @ d \<and> n = length d \<or> us_stream s' = us_stream s \<and> n = 0)"
proof -
  have len: "\<not> length d > size_max div 1" using room by simp
  define t where "t = cpkt_audio_url_source_discard_consumed s"
  note dc = discard_steps [OF win, folded t_def]
  have twin: "url_win t" using dc(1) by (simp add: url_steps_def)
  show ?thesis
  proof (cases "d = []")
    case True
    with wr steps_refl [OF win] show ?thesis
      by (simp add: cpkt_audio_url_write_def)
  next
    case False
    show ?thesis
    proof (cases "us_failed t")
      case True
      with wr False len dc show ?thesis
        by (auto simp: cpkt_audio_url_write_def t_def Let_def)
    next
      case nf: False
      have fits: "\<not> length (us_buffer t) > size_max - length d"
        using twin dc(4) room by (auto simp: url_win_def)
      obtain ok u where gr: "url_grow (length (us_buffer t) + length d) t = (ok, u)" by force
      note gs = grow_steps [OF twin gr]
      have su: "url_steps s u" by (rule steps_trans [OF dc(1) gs(1)])
      show ?thesis
      proof (cases ok)
        case False
        then have "n = 0" "s' = u"
          using wr \<open>d \<noteq> []\<close> len nf fits gr by (auto simp: cpkt_audio_url_write_def t_def [symmetric] Let_def)
        with su gs dc show ?thesis by simp
      next
        case True
        then have s': "n = length d" "s' = u\<lparr>us_buffer := us_buffer u @ d, us_stream := us_stream u @ d\<rparr>"
          using wr \<open>d \<noteq> []\<close> len nf fits gr by (auto simp: cpkt_audio_url_write_def t_def [symmetric] Let_def)
        have ub: "us_buffer u = us_buffer t"
          using gr by (auto simp: url_grow_def Let_def split: if_splits option.splits)
        have "url_win u" using gs(1) by (simp add: url_steps_def)
        then have "url_win s'"
          using room gs(3,4) dc(4) True ub unfolding s' url_win_def by auto
        moreover have "us_stream s' = us_stream s @ d"
          using gs(3) dc(4) by (simp add: s')
        ultimately show ?thesis
          using su gs dc by (simp add: url_steps_def s')
      qed
    qed
  qed
qed

lemma header_steps:
  assumes "url_win s" "cpkt_audio_url_header h k m s = (n, s')"
  shows "url_steps s s' \<and> us_done s' = us_done s \<and> us_tick s' = us_tick s \<and> us_stream s' = us_stream s"
  using assms
  by (auto simp: cpkt_audio_url_header_def url_steps_def url_win_def Let_def split: option.splits if_splits)

section \<open>Rounds of the transfer\<close>

fun call_len :: "curl_call \<Rightarrow> nat" where
  "call_len (CallHeader h) = 0"
| "call_len (CallBody d) = length d"

definition calls_len :: "curl_call list \<Rightarrow> nat" where
  "calls_len calls = sum_list (map call_len calls)"

text \<open>The body bytes offered in the first \<open>t\<close> rounds. No transfer exceeds the address space.\<close>

definition offered :: "(nat \<Rightarrow> curl_round) \<Rightarrow> nat \<Rightarrow> nat" where
  "offered curl t = sum_list (map (\<lambda>i. calls_len (cr_calls (curl i))) [0..<t])"

definition curl_bounded :: "(nat \<Rightarrow> curl_round) \<Rightarrow> bool" where
  "curl_bounded curl \<longleftrightarrow> (\<forall>t. offered curl t \<le> size_max)"

definition url_inv :: "url_sys \<Rightarrow> bool" where
  "url_inv s \<longleftrightarrow> url_win s \<and> curl_bounded (us_curl s) \<and>
     length (us_stream s) \<le> offered (us_curl s) (us_tick s)"

lemma offered_Suc: "offered curl (Suc t) = offered curl t + calls_len (cr_calls (curl t))"
  by (simp add: offered_def)

lemma deliver_steps:
  assumes "url_win s" "length (us_stream s) + calls_len calls \<le> size_max"
  shows "url_steps s (curl_deliver calls s) \<and> us_done (curl_deliver calls s) = us_done s \<and>
    us_tick (curl_deliver calls s) = us_tick s \<and>
    length (us_stream (curl_deliver calls s)) \<le> length (us_stream s) + calls_len calls"
  using assms
proof (induction calls s rule: curl_deliver.induct)
  case (1 s)
  then show ?case by (simp add: steps_refl calls_len_def)
next
  case (2 h calls s)
  obtain n t where hd: "cpkt_audio_url_header (Some h) 1 (length h) s = (n, t)" by force
  note hs = header_steps [OF 2(2) hd]
  show ?case
  proof (cases "n \<noteq> length h")
    case True
    with hd hs 2(3) show ?thesis by (simp add: calls_len_def)
  next
    case False
    then have "url_steps t (curl_deliver calls t) \<and> us_done (curl_deliver calls t) = us_done t \<and>
      us_tick (curl_deliver calls t) = us_tick t \<and>
      length (us_stream (curl_deliver calls t)) \<le> length (us_stream t) + calls_len calls"
      using 2(1) [OF hd [symmetric] refl] hs 2(3) by (simp add: url_steps_def calls_len_def)
    with False hd hs show ?thesis
      using steps_trans by (auto simp: calls_len_def)
  qed
next
  case (3 d calls s)
  obtain n t where wr: "cpkt_audio_url_write d 1 (length d) s = (n, t)" by force
  have room: "length (us_stream s) + length d \<le> size_max"
    using 3(3) by (simp add: calls_len_def)
  note ws = write_steps [OF 3(2) room wr]
  show ?case
  proof (cases "n \<noteq> length d")
    case True
    with wr ws 3(3) show ?thesis by (auto simp: calls_len_def)
  next
    case False
    have tl: "length (us_stream t) \<le> length (us_stream s) + length d"
      using ws by auto
    then have "url_steps t (curl_deliver calls t) \<and> us_done (curl_deliver calls t) = us_done t \<and>
      us_tick (curl_deliver calls t) = us_tick t \<and>
      length (us_stream (curl_deliver calls t)) \<le> length (us_stream t) + calls_len calls"
      using 3(1) [OF wr [symmetric] refl] False ws 3(3) by (simp add: url_steps_def calls_len_def)
    moreover have "curl_deliver (CallBody d # calls) s = curl_deliver calls t"
      using False wr by simp
    ultimately show ?thesis
      using ws tl steps_trans [of s t "curl_deliver calls t"] by (simp add: calls_len_def)
  qed
qed

text \<open>Fields the stream predicates do not read.\<close>

lemma steps_flags:
  "url_steps s (t\<lparr>us_running := a\<rparr>) = url_steps s t"
  "url_steps s (t\<lparr>us_done := a\<rparr>) = url_steps s t"
  "url_steps s (t\<lparr>us_failed := a\<rparr>) = url_steps s t"
  by (auto simp: url_steps_def url_win_def)

lemma inv_steps:
  assumes "url_inv s" "url_steps s t" "length (us_stream t) \<le> offered (us_curl s) (us_tick t)"
  shows "url_inv t"
  using assms by (simp add: url_inv_def url_steps_def)

lemma inv_flags [simp]:
  "url_inv (t\<lparr>us_running := a\<rparr>) = url_inv t"
  "url_inv (t\<lparr>us_done := a\<rparr>) = url_inv t"
  "url_inv (t\<lparr>us_failed := a\<rparr>) = url_inv t"
  by (auto simp: url_inv_def url_win_def)

lemma perform_steps:
  assumes inv: "url_inv s" and pf: "curl_multi_perform s = (round, s')"
  shows "url_inv s' \<and> url_steps s s' \<and> us_done s' = us_done s \<and> us_tick s' = Suc (us_tick s) \<and>
    round = us_curl s (us_tick s)"
proof -
  let ?s = "s\<lparr>us_tick := Suc (us_tick s)\<rparr>"
  let ?calls = "cr_calls (us_curl s (us_tick s))"
  have s': "s' = (curl_deliver ?calls ?s)\<lparr>us_running := cr_running (us_curl s (us_tick s))\<rparr>"
    "round = us_curl s (us_tick s)"
    using pf by (auto simp: curl_multi_perform_def Let_def)
  have win: "url_win ?s" using inv by (auto simp: url_inv_def url_win_def)
  have room: "length (us_stream ?s) + calls_len ?calls \<le> offered (us_curl s) (Suc (us_tick s))"
    using inv by (simp add: url_inv_def offered_Suc)
  moreover have "offered (us_curl s) (Suc (us_tick s)) \<le> size_max"
    using inv by (auto simp: url_inv_def curl_bounded_def)
  ultimately have d: "url_steps ?s (curl_deliver ?calls ?s) \<and> us_done (curl_deliver ?calls ?s) = us_done ?s \<and>
    us_tick (curl_deliver ?calls ?s) = us_tick ?s \<and>
    length (us_stream (curl_deliver ?calls ?s)) \<le> length (us_stream ?s) + calls_len ?calls"
    using deliver_steps [OF win, of ?calls] by linarith
  have st: "url_steps s (curl_deliver ?calls ?s)"
    using d by (simp add: url_steps_def)
  have "url_inv (curl_deliver ?calls ?s)"
    by (rule inv_steps [OF inv st]) (use d room in simp)
  with d st show ?thesis
    by (simp add: s' steps_flags)
qed

lemma flags_id: "s = s\<lparr>us_done := us_done s, us_running := us_running s, us_failed := us_failed s\<rparr>"
  by simp

lemma collect_flags:
  "\<exists>a b c. cpkt_audio_url_source_collect_done ms s = s\<lparr>us_done := a, us_running := b, us_failed := c\<rparr> \<and>
    (us_done s \<or> (\<exists>m\<in>set ms. cm_done m) \<longleftrightarrow> a) \<and> (us_failed s \<longrightarrow> c)"
proof (induction ms arbitrary: s)
  case Nil
  show ?case
    by (rule exI [of _ "us_done s"], rule exI [of _ "us_running s"], rule exI [of _ "us_failed s"]) simp
next
  case (Cons m ms)
  show ?case
  proof (cases "cm_done m")
    case True
    let ?f = "us_failed s \<or> \<not> cm_ok m \<or> (\<exists>st. cm_status m = Some st \<and> st \<ge> 400)"
    let ?t = "s\<lparr>us_done := True, us_running := False, us_failed := ?f\<rparr>"
    have "cpkt_audio_url_source_collect_done (m # ms) s = cpkt_audio_url_source_collect_done ms ?t"
      using True by (cases "cm_status m"; cases "cm_ok m") (auto simp: Let_def intro!: arg_cong [where f = "cpkt_audio_url_source_collect_done ms"])
    with Cons.IH [of ?t] True show ?thesis
      by auto
  next
    case False
    with Cons.IH [of s] show ?thesis
      by simp
  qed
qed

text \<open>The transfer is going to be reported done in round \<open>n\<close>, which is not yet over.\<close>

definition ends_at :: "url_sys \<Rightarrow> nat \<Rightarrow> bool" where
  "ends_at s n \<longleftrightarrow> us_tick s \<le> n \<and> cr_code (us_curl s n) \<noteq> CURLM_CALL_MULTI_PERFORM \<and>
     (\<exists>m\<in>set (cr_messages (us_curl s n)). cm_done m)"

lemma perform_loop_steps:
  assumes "url_inv s" "ends_at s n"
  shows "\<exists>round s' k. url_perform_loop s = Some (round, s') \<and> url_inv s' \<and> url_steps s s' \<and>
    us_done s' = us_done s \<and> us_tick s < us_tick s' \<and> us_tick s' = Suc k \<and> k \<le> n \<and> round = us_curl s k"
  using assms
proof (induction "n - us_tick s" arbitrary: s rule: less_induct)
  case less
  obtain round t where pf: "curl_multi_perform s = (round, t)" by force
  note ps = perform_steps [OF less(2) pf]
  show ?case
  proof (cases "cr_code round = CURLM_CALL_MULTI_PERFORM")
    case True
    with less(3) ps have lt: "us_tick s < n"
      by (metis ends_at_def le_neq_implies_less)
    have ends: "ends_at t n"
      using less(3) ps lt by (auto simp: ends_at_def url_steps_def)
    have "n - us_tick t < n - us_tick s" using ps lt by auto
    from less(1) [OF this] ps ends obtain r u k where
      u: "url_perform_loop t = Some (r, u)" "url_inv u" "url_steps t u" "us_done u = us_done t"
        "us_tick t < us_tick u" "us_tick u = Suc k" "k \<le> n" "r = us_curl t k"
      by blast
    have "url_perform_loop s = Some (r, u)"
      using u(1) pf True by (subst url_perform_loop.simps) simp
    moreover have "us_curl t = us_curl s" using ps by (simp add: url_steps_def)
    ultimately show ?thesis
      using u ps steps_trans [of s t u] by (metis Suc_lessD)
  next
    case False
    then have "url_perform_loop s = Some (round, t)"
      using pf by (subst url_perform_loop.simps) simp
    with ps less(3) show ?thesis
      by (auto simp: ends_at_def)
  qed
qed

lemma progress_steps:
  assumes inv: "url_inv s" and ends: "ends_at s n"
  shows "\<exists>stop s'. cpkt_audio_url_source_progress s = Some (stop, s') \<and> url_inv s' \<and> url_steps s s' \<and>
    (stop \<longleftrightarrow> us_failed s') \<and>
    (\<not> stop \<longrightarrow> us_done s' \<or> us_tick s < us_tick s' \<and> ends_at s' n)"
proof (cases "us_failed s")
  case True
  with inv show ?thesis
    by (auto simp: cpkt_audio_url_source_progress_def url_inv_def intro: steps_refl)
next
  case False
  from perform_loop_steps [OF inv ends] obtain round t k where
    t: "url_perform_loop s = Some (round, t)" "url_inv t" "url_steps s t" "us_done t = us_done s"
      "us_tick s < us_tick t" "us_tick t = Suc k" "k \<le> n" "round = us_curl s k"
    by blast
  show ?thesis
  proof (cases "cr_code round \<noteq> CURLM_OK")
    case True
    with False t show ?thesis
      by (auto simp: cpkt_audio_url_source_progress_def steps_flags)
  next
    case ok: False
    obtain a b c where u: "cpkt_audio_url_source_collect_done (cr_messages round) t =
        t\<lparr>us_done := a, us_running := b, us_failed := c\<rparr>" "us_done t \<or> (\<exists>m\<in>set (cr_messages round). cm_done m) \<longleftrightarrow> a"
      using collect_flags by blast
    have "a \<or> ends_at t n"
      using u(2) t ends by (cases "k = n") (auto simp: ends_at_def url_steps_def)
    then show ?thesis
      using False ok t u(1)
      by (auto simp: cpkt_audio_url_source_progress_def steps_flags Let_def ends_at_def)
  qed
qed

lemma download_loop_steps:
  assumes "url_inv s" "us_done s \<or> us_failed s \<or> ends_at s n"
  shows "\<exists>s'. download_loop target s = Some s' \<and> url_inv s' \<and> url_steps s s' \<and>
    (us_failed s' \<or> us_done s' \<or> target \<le> length (us_stream s')) \<and>
    (us_done s' \<or> us_failed s' \<or> ends_at s' n)"
  using assms
proof (induction "Suc n - us_tick s" arbitrary: s rule: less_induct)
  case less
  let ?go = "\<lambda>s. cpkt_audio_url_buffer_end s < target \<and> \<not> us_done s \<and> \<not> us_failed s"
  have win: "cpkt_audio_url_buffer_end s = length (us_stream s)" "url_steps s s" if "url_inv s" for s
    using that by (auto simp: url_inv_def intro: win_end steps_refl)
  have stay: "download_loop target s = Some s" if "\<not> ?go s" for s
    using that by (subst download_loop.simps) auto
  show ?case
  proof (cases "?go s")
    case False
    with stay [of s] win [OF less(2)] less(2,3) show ?thesis
      by (intro exI [of _ s]) auto
  next
    case True
    then have "ends_at s n" using less(3) by simp
    from progress_steps [OF less(2) this] obtain stop t where
      t: "cpkt_audio_url_source_progress s = Some (stop, t)" "url_inv t" "url_steps s t"
        "stop \<longleftrightarrow> us_failed t" "\<not> stop \<longrightarrow> us_done t \<or> us_tick s < us_tick t \<and> ends_at t n"
      by blast
    show ?thesis
    proof (cases "?go t")
      case False
      then have "download_loop target s = Some t"
        using True t stay [of t] by (subst download_loop.simps) auto
      with t False win [OF t(2)] show ?thesis
        by (intro exI [of _ t]) auto
    next
      case go: True
      with t have nxt: "us_tick s < us_tick t" "ends_at t n" "\<not> stop" by auto
      show ?thesis
      proof (cases "us_poll t (us_tick t)")
        case True
        have "download_loop target s = download_loop target t"
          using \<open>?go s\<close> go t nxt True by (subst download_loop.simps) simp
        moreover have "Suc n - us_tick t < Suc n - us_tick s"
          using nxt by (auto simp: ends_at_def)
        ultimately show ?thesis
          using less(1) [of t] t nxt steps_trans by metis
      next
        case False
        then have "download_loop target s = Some (t\<lparr>us_failed := True\<rparr>)"
          using \<open>?go s\<close> go t nxt by (subst download_loop.simps) simp
        with t show ?thesis
          by (simp add: steps_flags)
      qed
    qed
  qed
qed

lemma drmp3_wait_steps:
  assumes "url_inv s" "us_done s \<or> us_failed s \<or> ends_at s n"
  shows "\<exists>s'. drmp3_wait s = Some s' \<and> url_inv s' \<and> url_steps s s' \<and>
    (us_failed s' \<or> us_done s' \<or> us_buffer_cursor s' < length (us_stream s')) \<and>
    (us_done s' \<or> us_failed s' \<or> ends_at s' n)"
  using assms
proof (induction "Suc n - us_tick s" arbitrary: s rule: less_induct)
  case less
  have win: "cpkt_audio_url_buffer_end s = length (us_stream s)" "url_steps s s" if "url_inv s" for s
    using that by (auto simp: url_inv_def intro: win_end steps_refl)
  show ?case
  proof (cases "us_done s \<or> us_failed s \<or> us_buffer_cursor s < cpkt_audio_url_buffer_end s")
    case True
    then have "drmp3_wait s = Some s"
      by (subst drmp3_wait.simps) auto
    with True win [OF less(2)] less(2,3) show ?thesis
      by auto
  next
    case False
    then have "ends_at s n" using less(3) by simp
    from progress_steps [OF less(2) this] obtain stop t where
      t: "cpkt_audio_url_source_progress s = Some (stop, t)" "url_inv t" "url_steps s t"
        "stop \<longleftrightarrow> us_failed t" "\<not> stop \<longrightarrow> us_done t \<or> us_tick s < us_tick t \<and> ends_at t n"
      by blast
    consider (halt) "stop \<or> us_buffer_cursor t < cpkt_audio_url_buffer_end t"
      | (again) "\<not> stop" "\<not> us_buffer_cursor t < cpkt_audio_url_buffer_end t" "us_poll t (us_tick t)"
      | (fail) "\<not> stop" "\<not> us_buffer_cursor t < cpkt_audio_url_buffer_end t" "\<not> us_poll t (us_tick t)"
      by blast
    then show ?thesis
    proof cases
      case halt
      then have "drmp3_wait s = Some t"
        using False t by (subst drmp3_wait.simps) auto
      with t halt win [OF t(2)] show ?thesis
        by auto
    next
      case again
      have eq: "drmp3_wait s = drmp3_wait t"
        using False t again by (subst drmp3_wait.simps) simp
      show ?thesis
      proof (cases "us_done t")
        case True
        then have "drmp3_wait t = Some t"
          by (subst drmp3_wait.simps) simp
        with eq t True show ?thesis by auto
      next
        case nd: False
        with t again have nxt: "us_tick s < us_tick t" "ends_at t n" by auto
        then have "Suc n - us_tick t < Suc n - us_tick s"
          by (auto simp: ends_at_def)
        then show ?thesis
          using less(1) [of t] t nxt steps_trans eq by metis
      qed
    next
      case fail
      then have "drmp3_wait s = Some (t\<lparr>us_failed := True\<rparr>)"
        using False t by (subst drmp3_wait.simps) simp
      with t show ?thesis
        by (simp add: steps_flags)
    qed
  qed
qed

text \<open>Copying out of the window is reading the stream at the cursor.\<close>

lemma copy_reads:
  assumes inv: "url_inv s" and cp: "url_copy k s = (xs, s')"
  shows "xs = take k (drop (us_buffer_cursor s) (us_stream s)) \<and>
    us_buffer_cursor s' = us_buffer_cursor s + length xs \<and> us_stream s' = us_stream s \<and> url_inv s' \<and>
    us_done s' = us_done s \<and> us_failed s' = us_failed s \<and> us_tick s' = us_tick s \<and> us_curl s' = us_curl s \<and>
    us_buffer_base s' \<le> max (us_buffer_base s) (us_buffer_cursor s' - CPKT_AUDIO_URL_REWIND_BYTES)"
proof -
  have win: "url_win s" and e: "cpkt_audio_url_buffer_end s = length (us_stream s)"
    using inv win_end by (auto simp: url_inv_def)
  have b: "us_buffer s = drop (us_buffer_base s) (us_stream s)" "us_buffer_base s \<le> us_buffer_cursor s"
      "us_buffer_cursor s \<le> length (us_stream s)"
    using win by (simp_all add: url_win_def)
  show ?thesis
  proof (cases "us_buffer_cursor s < length (us_stream s)")
    case False
    with cp b e inv show ?thesis
      by (auto simp: url_copy_def Let_def)
  next
    case True
    define m where "m = (if length (us_stream s) - us_buffer_cursor s < k
      then length (us_stream s) - us_buffer_cursor s else k)"
    define t where "t = s\<lparr>us_buffer_cursor := us_buffer_cursor s + m\<rparr>"
    have xs: "xs = take m (drop (us_buffer_cursor s) (us_stream s))" "s' = cpkt_audio_url_source_discard_consumed t"
      using cp b True e by (auto simp: url_copy_def Let_def m_def t_def)
    have m: "us_buffer_cursor s + m \<le> length (us_stream s)" "length xs = m"
      using b True by (auto simp: xs m_def)
    have xs': "xs = take k (drop (us_buffer_cursor s) (us_stream s))"
      by (simp add: xs(1) m_def)
    have twin: "url_win t"
      using win m by (auto simp: t_def url_win_def)
    note ds = discard_steps [OF twin]
    have "url_inv s'"
      using inv ds(1) xs(2) ds(4,5) by (auto simp: url_inv_def url_steps_def t_def)
    then show ?thesis
      using xs' m ds xs(2) by (auto simp: t_def url_steps_def)
  qed
qed

section \<open>The source as a reader\<close>

text \<open>A source whose transfer has ended or is going to end.\<close>

definition url_ready :: "url_sys \<Rightarrow> bool" where
  "url_ready s \<longleftrightarrow> url_inv s \<and> (us_done s \<or> us_failed s \<or> (\<exists>n. ends_at s n))"

lemma download_until_ready:
  assumes "url_ready s"
  shows "\<exists>s'. cpkt_audio_url_source_download_until target s = Some (us_failed s', s') \<and> url_ready s' \<and>
    url_steps s s' \<and> (us_failed s' \<or> us_done s' \<or> target \<le> length (us_stream s'))"
proof -
  obtain n where "us_done s \<or> us_failed s \<or> ends_at s n"
    using assms by (auto simp: url_ready_def)
  from download_loop_steps [OF _ this, of target] assms show ?thesis
    by (auto simp: cpkt_audio_url_source_download_until_def url_ready_def)
qed

lemma url_read_ready:
  assumes rdy: "url_ready s"
  shows "\<exists>xs s'. cpkt_audio_url_read False n s = Some (xs, s') \<and> url_ready s' \<and>
    prefix (us_stream s) (us_stream s') \<and> us_buffer_cursor s' = us_buffer_cursor s + length xs \<and>
    xs = (if us_failed s' then [] else take n (drop (us_buffer_cursor s) (us_stream s'))) \<and>
    (length xs < n \<longrightarrow> us_done s' \<or> us_failed s') \<and>
    us_buffer_base s' \<le> max (us_buffer_base s) (us_buffer_cursor s' - CPKT_AUDIO_URL_REWIND_BYTES)"
proof -
  consider (zero) "n = 0" | (over) "n \<noteq> 0" "us_buffer_cursor s > size_max - n"
    | (go) "n \<noteq> 0" "\<not> us_buffer_cursor s > size_max - n" by blast
  then show ?thesis
  proof cases
    case zero
    with rdy show ?thesis
      by (simp add: cpkt_audio_url_read_def)
  next
    case over
    with rdy show ?thesis
      by (simp add: cpkt_audio_url_read_def url_ready_def)
  next
    case go
    from download_until_ready [OF rdy, of "us_buffer_cursor s + n"] obtain t where
      t: "cpkt_audio_url_source_download_until (us_buffer_cursor s + n) s = Some (us_failed t, t)" "url_ready t"
        "url_steps s t" "us_failed t \<or> us_done t \<or> us_buffer_cursor s + n \<le> length (us_stream t)"
      by blast
    have st: "prefix (us_stream s) (us_stream t)" "us_buffer_cursor t = us_buffer_cursor s"
        "us_buffer_base t \<le> max (us_buffer_base s) (us_buffer_cursor s - CPKT_AUDIO_URL_REWIND_BYTES)"
      using t(3) by (simp_all add: url_steps_def)
    show ?thesis
    proof (cases "us_failed t")
      case True
      with go t st show ?thesis
        by (simp add: cpkt_audio_url_read_def)
    next
      case False
      obtain xs u where cp: "url_copy n t = (xs, u)" by force
      note cr = copy_reads [OF _ cp]
      have inv: "url_inv t" using t(2) by (simp add: url_ready_def)
      have rd: "cpkt_audio_url_read False n s = Some (xs, u)"
        using go t(1) False cp by (simp add: cpkt_audio_url_read_def)
      have "url_ready u"
        using cr [OF inv] t(2) by (auto simp: url_ready_def ends_at_def)
      moreover have "length xs < n \<longrightarrow> us_done u"
        using cr [OF inv] t(4) False st(2) by auto
      moreover have "us_buffer_base u \<le> max (us_buffer_base s) (us_buffer_cursor u - CPKT_AUDIO_URL_REWIND_BYTES)"
        using cr [OF inv] st(2,3) by linarith
      ultimately show ?thesis
        using rd cr [OF inv] st False by (intro exI [of _ xs] exI [of _ u]) auto
    qed
  qed
qed

lemma url_seek_ready:
  assumes rdy: "url_ready s"
  shows "\<exists>ok s'. cpkt_audio_url_seek offset origin s = Some (ok, s') \<and> url_ready s' \<and>
    prefix (us_stream s) (us_stream s') \<and>
    (if ok then url_seek_target offset origin s = Some (us_buffer_cursor s')
     else us_buffer_cursor s' = us_buffer_cursor s) \<and>
    (\<forall>t. url_seek_target offset origin s = Some t \<and> us_buffer_base s \<le> t \<and> t \<le> length (us_stream s) \<and>
      \<not> us_failed s \<longrightarrow> ok \<and> s' = s\<lparr>us_buffer_cursor := t\<rparr>)"
proof (cases "url_seek_target offset origin s")
  case None
  with rdy show ?thesis
    by (auto simp: cpkt_audio_url_seek_def)
next
  case (Some target)
  from download_until_ready [OF rdy, of target] obtain t where
    t: "cpkt_audio_url_source_download_until target s = Some (us_failed t, t)" "url_ready t"
      "url_steps s t" by blast
  have inv: "url_inv t" "url_win t" "url_win s" using t(2) rdy by (auto simp: url_ready_def url_inv_def)
  have e: "cpkt_audio_url_buffer_end t = length (us_stream t)" "cpkt_audio_url_buffer_end s = length (us_stream s)"
    using win_end inv by auto
  have near: "t = s" if "target \<le> length (us_stream s)"
  proof -
    have "download_loop target s = Some s"
      using that e by (subst download_loop.simps) simp
    then show ?thesis
      using t(1) by (simp add: cpkt_audio_url_source_download_until_def)
  qed
  show ?thesis
  proof (cases "us_failed t \<or> target < us_buffer_base t \<or> target > length (us_stream t)")
    case True
    then have "cpkt_audio_url_seek offset origin s = Some (False, t)"
      using Some t(1) e by (auto simp: cpkt_audio_url_seek_def)
    moreover have "\<not> (us_buffer_base s \<le> target \<and> target \<le> length (us_stream s) \<and> \<not> us_failed s)"
      using True near by auto
    ultimately show ?thesis
      using t(2,3) Some unfolding url_steps_def by (intro exI [of _ False] exI [of _ t]) simp
  next
    case False
    then have sk: "cpkt_audio_url_seek offset origin s = Some (True, t\<lparr>us_buffer_cursor := target\<rparr>)"
      using Some t(1) e by (auto simp: cpkt_audio_url_seek_def)
    have "url_ready (t\<lparr>us_buffer_cursor := target\<rparr>)"
      using t(2) False by (auto simp: url_ready_def url_inv_def url_win_def ends_at_def)
    moreover have "target \<le> length (us_stream s) \<longrightarrow> t\<lparr>us_buffer_cursor := target\<rparr> = s\<lparr>us_buffer_cursor := target\<rparr>"
      using near by blast
    ultimately show ?thesis
      using sk t(3) Some unfolding url_steps_def
      by (intro exI [of _ True] exI [of _ "t\<lparr>us_buffer_cursor := target\<rparr>"]) simp
  qed
qed

interpretation url_reader: byte_reader "cpkt_audio_url_read False" cpkt_audio_url_seek us_stream
  us_buffer_cursor url_ready
proof unfold_locales
  fix s :: url_sys and n
  assume "url_ready s"
  then show "\<exists>xs s'. cpkt_audio_url_read False n s = Some (xs, s')"
    using url_read_ready by blast
next
  fix s s' :: url_sys and n xs
  assume "url_ready s" "cpkt_audio_url_read False n s = Some (xs, s')"
  then show "url_ready s' \<and> prefix (us_stream s) (us_stream s') \<and>
      prefix xs (drop (us_buffer_cursor s) (us_stream s')) \<and> length xs \<le> n \<and>
      us_buffer_cursor s' = us_buffer_cursor s + length xs"
    using url_read_ready [of s n] by (auto split: if_splits)
next
  fix s :: url_sys and offset
  assume "url_ready s"
  then show "\<exists>ok s'. cpkt_audio_url_seek offset CPKT_AUDIO_SEEK_SET s = Some (ok, s')"
    using url_seek_ready by blast
next
  fix s s' :: url_sys and offset ok
  assume h: "url_ready s" "cpkt_audio_url_seek offset CPKT_AUDIO_SEEK_SET s = Some (ok, s')"
  have "int k = offset" if "url_seek_target offset CPKT_AUDIO_SEEK_SET s = Some k" for k
    using that by (auto simp: url_seek_target_def split: if_splits)
  with h url_seek_ready [OF h(1), of offset CPKT_AUDIO_SEEK_SET]
  show "url_ready s' \<and> prefix (us_stream s) (us_stream s') \<and> (ok \<longrightarrow> int (us_buffer_cursor s') = offset)"
    by (auto split: if_splits)
qed

lemma detect_loop_ready:
  assumes "url_inv s" "us_done s \<or> us_failed s \<or> ends_at s n"
  shows "\<exists>f' s'. url_detect_loop f s = Some (f', s') \<and> url_inv s' \<and> url_steps s s' \<and>
    (f' = f \<or> f' = cpkt_audio_format_from_content_type (Some (us_content_type s'))) \<and>
    (us_done s' \<or> us_failed s' \<or> ends_at s' n) \<and>
    (us_failed s' \<or> us_done s' \<or> f' \<noteq> CPKT_AUDIO_FORMAT_UNKNOWN \<or> 16 \<le> length (us_stream s'))"
  using assms
proof (induction "Suc n - us_tick s" arbitrary: s f rule: less_induct)
  case less
  have win: "cpkt_audio_url_buffer_end s = length (us_stream s)" "url_steps s s" if "url_inv s" for s
    using that by (auto simp: url_inv_def intro: win_end steps_refl)
  show ?case
  proof (cases "f \<noteq> CPKT_AUDIO_FORMAT_UNKNOWN \<or> us_done s \<or> us_failed s \<or> 16 \<le> cpkt_audio_url_buffer_end s")
    case True
    then have "url_detect_loop f s = Some (f, s)"
      by (subst url_detect_loop.simps) auto
    with True win [OF less(2)] less(2,3) show ?thesis
      by auto
  next
    case False
    then have "ends_at s n" using less(3) by simp
    from progress_steps [OF less(2) this] obtain stop t where
      t: "cpkt_audio_url_source_progress s = Some (stop, t)" "url_inv t" "url_steps s t"
        "stop \<longleftrightarrow> us_failed t" "\<not> stop \<longrightarrow> us_done t \<or> us_tick s < us_tick t \<and> ends_at t n"
      by blast
    let ?g = "cpkt_audio_format_from_content_type (Some (us_content_type t))"
    let ?halt = "?g \<noteq> CPKT_AUDIO_FORMAT_UNKNOWN \<or> cpkt_audio_url_buffer_end t \<ge> 16 \<or> us_done t \<or> us_failed t"
    consider (stop) stop | (halt) "\<not> stop" ?halt | (again) "\<not> stop" "\<not> ?halt" "us_poll t (us_tick t)"
      | (fail) "\<not> stop" "\<not> ?halt" "\<not> us_poll t (us_tick t)" by blast
    then show ?thesis
    proof cases
      case stop
      then have "url_detect_loop f s = Some (f, t)"
        using False t by (subst url_detect_loop.simps) simp
      with t stop show ?thesis by auto
    next
      case halt
      then have "url_detect_loop f s = Some (?g, t)"
        using False t by (subst url_detect_loop.simps) (auto simp: Let_def)
      with t halt win [OF t(2)] show ?thesis by auto
    next
      case again
      then have eq: "url_detect_loop f s = url_detect_loop ?g t"
        using False t by (subst url_detect_loop.simps) (simp add: Let_def)
      have nxt: "us_tick s < us_tick t" "ends_at t n" using t again by auto
      then have "Suc n - us_tick t < Suc n - us_tick s" by (auto simp: ends_at_def)
      from less(1) [OF this t(2), of ?g] nxt obtain f' u where
        u: "url_detect_loop ?g t = Some (f', u)" "url_inv u" "url_steps t u"
          "f' = ?g \<or> f' = cpkt_audio_format_from_content_type (Some (us_content_type u))"
          "us_done u \<or> us_failed u \<or> ends_at u n"
          "us_failed u \<or> us_done u \<or> f' \<noteq> CPKT_AUDIO_FORMAT_UNKNOWN \<or> 16 \<le> length (us_stream u)"
        by blast
      have "f' = f \<or> f' = cpkt_audio_format_from_content_type (Some (us_content_type u))"
        using u(4) again False by auto
      with u eq steps_trans [OF t(3) u(3)] show ?thesis
        by auto
    next
      case fail
      then have "url_detect_loop f s = Some (?g, t\<lparr>us_failed := True\<rparr>)"
        using False t by (subst url_detect_loop.simps) (simp add: Let_def)
      with t show ?thesis
        by (auto simp: steps_flags)
    qed
  qed
qed

lemma create_ready:
  assumes "cpkt_audio_url_source_create g c e m a on env url = (CPKT_AUDIO_OK, s)"
    and "curl_bounded (us_curl env)"
    and "\<exists>n. cr_code (us_curl env n) \<noteq> CURLM_CALL_MULTI_PERFORM \<and>
      (\<exists>x\<in>set (cr_messages (us_curl env n)). cm_done x)"
  shows "\<exists>t. s = Some t \<and> url_ready t \<and> us_buffer_cursor t = 0 \<and> us_stream t = [] \<and> \<not> us_failed t"
proof -
  from assms(3) obtain n where n: "cr_code (us_curl env n) \<noteq> CURLM_CALL_MULTI_PERFORM"
      "\<exists>x\<in>set (cr_messages (us_curl env n)). cm_done x" by blast
  define t where "t = env\<lparr>us_buffer := [], us_buffer_base := 0, us_buffer_cursor := 0,
    us_buffer_capacity := 0, us_running := True, us_done := False, us_failed := False,
    us_content_type := [], us_tick := 0, us_allocs := 0, us_stream := []\<rparr>"
  have "s = Some t"
    using assms(1) by (auto simp: cpkt_audio_url_source_create_def t_def split: option.splits if_splits)
  moreover have "ends_at t n" using n by (simp add: ends_at_def t_def)
  ultimately show ?thesis
    using assms(2) by (auto simp: url_ready_def url_inv_def url_win_def t_def)
qed

section \<open>A concrete transfer\<close>

text \<open>Two rounds: a header and 20 bytes, then 10 more bytes and the end of the transfer.\<close>

definition demo_curl :: "nat \<Rightarrow> curl_round" where
  "demo_curl i =
     (if i = 0 then \<lparr>cr_calls = [CallHeader ''Content-Type: audio/mpeg'', CallBody (replicate 20 7)],
        cr_code = CURLM_OK, cr_running = True, cr_messages = []\<rparr>
      else if i = 1 then \<lparr>cr_calls = [CallBody (replicate 10 9)], cr_code = CURLM_OK, cr_running = False,
        cr_messages = [\<lparr>cm_done = True, cm_ok = True, cm_status = Some 200\<rparr>]\<rparr>
      else \<lparr>cr_calls = [], cr_code = CURLM_OK, cr_running = False, cr_messages = []\<rparr>)"

definition demo_url :: url_sys where
  "demo_url = \<lparr>us_buffer = [], us_buffer_base = 0, us_buffer_cursor = 0, us_buffer_capacity = 0,
     us_running = True, us_done = False, us_failed = False, us_content_type = [], us_curl = demo_curl,
     us_poll = (\<lambda>_. True), us_realloc = (\<lambda>_. True), us_tick = 0, us_allocs = 0, us_stream = []\<rparr>"

lemma demo_curl_bounded: "curl_bounded demo_curl"
proof -
  have step: "calls_len (cr_calls (demo_curl i)) = (if i = 0 then 20 else if i = 1 then 10 else 0)" for i
    by (simp add: demo_curl_def calls_len_def)
  have "offered demo_curl t \<le> 30 \<and> (t = 0 \<longrightarrow> offered demo_curl t = 0) \<and> (t = 1 \<longrightarrow> offered demo_curl t = 20)" for t
  proof (induction t)
    case (Suc t)
    then show ?case
      by (cases t) (auto simp: offered_Suc step offered_def)
  qed (simp add: offered_def)
  then show ?thesis
    unfolding curl_bounded_def c_limits by (meson le_trans numeral_le_iff semiring_norm)
qed

lemma demo_url_ready: "url_ready demo_url"
proof -
  have "ends_at demo_url 1"
    by (simp add: ends_at_def demo_url_def demo_curl_def)
  then show ?thesis
    using demo_curl_bounded by (auto simp: url_ready_def url_inv_def url_win_def demo_url_def)
qed

lemma header_copy_take:
  "header_copy room xs = take room (takeWhile (\<lambda>c. c \<noteq> CHR 0x0D \<and> c \<noteq> CHR 0x0A) xs)"
  by (induction room xs rule: header_copy.induct) (auto simp: take_Cons')

lemma trim_blank_end_append:
  assumes "\<forall>c\<in>set post. ct_blank c" "v = [] \<or> \<not> ct_blank (last v)"
  shows "trim_blank_end (v @ post) = v"
proof -
  have "dropWhile ct_blank (rev post @ rev v) = dropWhile ct_blank (rev v)"
    using assms(1) by (subst dropWhile_append2) auto
  also have "\<dots> = rev v"
    using assms(2) by (cases v rule: rev_cases) auto
  finally show ?thesis
    by (simp add: trim_blank_end_def)
qed

lemma blank_not_eol: "ct_blank c \<Longrightarrow> c \<noteq> CHR 0x0D \<and> c \<noteq> CHR 0x0A"
  by (auto simp: ct_blank_def)

section \<open>Properties\<close>

text \<open>
  C4: Reading from a URL source is reading the transferred stream: for a source whose transfer ends,
  every read returns, delivers exactly the next bytes of the body as received, in order and without
  gap or repetition across the growing, sliding buffer, and is short only at the end of the transfer
  or on failure; a failed source delivers nothing. The buffer drops at most what lies more than the
  rewind distance behind the cursor.
\<close>

theorem url_read_stream:
  assumes "url_ready s"
  shows "\<exists>xs s'. cpkt_audio_url_read False n s = Some (xs, s') \<and> url_ready s' \<and>
    prefix (us_stream s) (us_stream s') \<and> us_buffer_cursor s' = us_buffer_cursor s + length xs \<and>
    xs = (if us_failed s' then [] else take n (drop (us_buffer_cursor s) (us_stream s'))) \<and>
    (length xs < n \<longrightarrow> us_done s' \<or> us_failed s') \<and>
    us_buffer_base s' \<le> max (us_buffer_base s) (us_buffer_cursor s' - CPKT_AUDIO_URL_REWIND_BYTES)"
  by (rule url_read_ready [OF assms])

theorem url_read_stream_witness:
  "\<exists>xs s'. cpkt_audio_url_read False 25 demo_url = Some (xs, s') \<and> us_buffer_cursor s' = length xs"
  using url_read_stream [OF demo_url_ready, of 25] by (auto simp: demo_url_def)

text \<open>
  Seeking a URL source returns, moves the cursor exactly to the requested position or leaves it
  alone, and never loses received data; a target inside the retained window always succeeds, and
  without touching the transfer.
\<close>

lemma url_seek_window:
  assumes "url_ready s"
  shows "\<exists>ok s'. cpkt_audio_url_seek offset origin s = Some (ok, s') \<and> url_ready s' \<and>
    prefix (us_stream s) (us_stream s') \<and>
    (if ok then url_seek_target offset origin s = Some (us_buffer_cursor s')
     else us_buffer_cursor s' = us_buffer_cursor s) \<and>
    (\<forall>t. url_seek_target offset origin s = Some t \<and> us_buffer_base s \<le> t \<and> t \<le> length (us_stream s) \<and>
      \<not> us_failed s \<longrightarrow> ok \<and> s' = s\<lparr>us_buffer_cursor := t\<rparr>)"
  by (rule url_seek_ready [OF assms])

text \<open>
  The read callback the decoder installs over a URL source fills its buffer from the stream: when
  it reports success, the bytes are those at the cursor, and fewer than asked for only at the end.
\<close>

lemma url_decoder_reads:
  assumes "url_ready s"
  shows "\<exists>r xs e s'. cpkt_audio_reader_read
      (Some \<lparr>rd_read = Some (cpkt_audio_url_read False), rd_seek = Some cpkt_audio_url_seek\<rparr>)
      us_failed False n s = Some (r, xs, e, s') \<and> url_ready s' \<and>
    (r = MA_SUCCESS \<or> r = MA_IO_ERROR) \<and> (e \<longleftrightarrow> r \<noteq> MA_SUCCESS) \<and>
    (r = MA_SUCCESS \<longrightarrow> prefix xs (drop (us_buffer_cursor s) (us_stream s')) \<and> length xs \<le> n \<and>
      us_buffer_cursor s' = us_buffer_cursor s + length xs)"
  using url_reader.fill_law [OF assms, of us_failed n] by (auto simp: cpkt_audio_reader_read_def)

text \<open>
  Detecting the format of a reader leaves no trace: over a URL source positioned at the start it
  returns, and on success the cursor is back at the start and the answer is that of the signature test
  on a prefix of the stream of at most 16 bytes.
\<close>

lemma url_reader_detection:
  assumes "url_ready s" "us_buffer_cursor s = 0"
  shows "\<exists>r f s'. cpkt_audio_detect_reader_format
      (Some \<lparr>rd_read = Some (cpkt_audio_url_read False), rd_seek = Some cpkt_audio_url_seek\<rparr>) s =
      Some (r, f, s') \<and> url_ready s' \<and> prefix (us_stream s) (us_stream s') \<and>
    (r = CPKT_AUDIO_OK \<longrightarrow> us_buffer_cursor s' = 0 \<and>
      (\<exists>k\<le>16. k \<le> length (us_stream s') \<and>
        f = cpkt_audio_format_from_signature (Some (take k (us_stream s'))) k))"
  by (rule url_reader.detect_law [OF assms])

text \<open>
  Format detection of a URL source waits no longer than the transfer lasts, and its answer is the
  one the Content-Type names or, when that is unknown and nothing has been discarded, the one the first
  received bytes (at most 16) show; a failed transfer is an I/O error.
\<close>

lemma url_format_detection:
  assumes "url_ready s"
  shows "\<exists>r f s'. cpkt_audio_url_source_detect_format s = Some (r, f, s') \<and> url_ready s' \<and>
    us_buffer_cursor s' = us_buffer_cursor s \<and> prefix (us_stream s) (us_stream s') \<and>
    (if us_failed s' then r = CPKT_AUDIO_ERR_IO \<and> f = CPKT_AUDIO_FORMAT_UNKNOWN
     else r = CPKT_AUDIO_OK \<and>
       (f = cpkt_audio_format_from_content_type (Some (us_content_type s)) \<or>
        f = cpkt_audio_format_from_content_type (Some (us_content_type s')) \<or>
        us_buffer_base s' = 0 \<and>
        f = cpkt_audio_format_from_signature (Some (us_stream s')) (min 16 (length (us_stream s')))))"
proof -
  obtain n where n: "us_done s \<or> us_failed s \<or> ends_at s n" and inv: "url_inv s"
    using assms by (auto simp: url_ready_def)
  from detect_loop_ready [OF inv n, of "cpkt_audio_format_from_content_type (Some (us_content_type s))"]
  obtain g t where t: "url_detect_loop (cpkt_audio_format_from_content_type (Some (us_content_type s))) s = Some (g, t)"
      "url_inv t" "url_steps s t" "us_done t \<or> us_failed t \<or> ends_at t n"
      "g = cpkt_audio_format_from_content_type (Some (us_content_type s)) \<or>
       g = cpkt_audio_format_from_content_type (Some (us_content_type t))"
    by blast
  have w: "cpkt_audio_url_buffer_end t = length (us_stream t)" "us_buffer t = drop (us_buffer_base t) (us_stream t)"
    using t(2) win_end by (auto simp: url_inv_def url_win_def)
  have rdy: "url_ready t" using t(2,4) by (auto simp: url_ready_def)
  show ?thesis
    using t(3,5) rdy w
    by (auto simp: cpkt_audio_url_source_detect_format_def t(1) url_steps_def Let_def min_def)
qed

text \<open>
  A Content-Type header line is understood in any letter case, with blanks around the value and any
  line ending: the stored type is the value itself.
\<close>

lemma header_content_type:
  assumes "map lower name = map lower ''Content-Type:''"
    and "\<forall>c\<in>set pre. ct_blank c" "\<forall>c\<in>set post. ct_blank c"
    and "\<forall>c\<in>set val. c \<noteq> CHR 0x0D \<and> c \<noteq> CHR 0x0A"
    and "val = [] \<longrightarrow> post = []" "val = [] \<or> \<not> ct_blank (hd val) \<and> \<not> ct_blank (last val)"
    and "rest = [] \<or> hd rest = CHR 0x0D \<or> hd rest = CHR 0x0A" "length (val @ post) \<le> 127"
    and "length (name @ pre @ val @ post @ rest) \<le> size_max"
  shows "cpkt_audio_url_header (Some (name @ pre @ val @ post @ rest)) 1
      (length (name @ pre @ val @ post @ rest)) s =
    (length (name @ pre @ val @ post @ rest), s\<lparr>us_content_type := val\<rparr>)"
proof -
  let ?line = "name @ pre @ val @ post @ rest"
  have name: "length name = 13"
    using arg_cong [OF assms(1), of length] by simp
  have start: "istarts_with ?line ''Content-Type:''"
    using name assms(1) by (simp add: istarts_with_iff)
  have "val @ post @ rest = [] \<or> \<not> ct_blank (hd (val @ post @ rest))"
  proof (cases val)
    case Nil
    with assms(5,7) show ?thesis
      by (cases rest) (auto simp: ct_blank_def)
  next
    case (Cons a v)
    with assms(6) show ?thesis
      by simp
  qed
  then have "dropWhile ct_blank (val @ post @ rest) = val @ post @ rest"
    by (simp only: dropWhile_eq_self_iff)
  then have "dropWhile ct_blank (pre @ val @ post @ rest) = val @ post @ rest"
    using dropWhile_append2 [of pre ct_blank "val @ post @ rest"] assms(2) by simp
  moreover have "takeWhile (\<lambda>c. c \<noteq> CHR 0x0D \<and> c \<noteq> CHR 0x0A) (val @ post @ rest) = val @ post"
  proof -
    have "\<forall>c\<in>set (val @ post). c \<noteq> CHR 0x0D \<and> c \<noteq> CHR 0x0A"
      unfolding set_append using assms(3,4) blank_not_eol by blast
    moreover have "takeWhile (\<lambda>c. c \<noteq> CHR 0x0D \<and> c \<noteq> CHR 0x0A) rest = []"
      using assms(7) by (cases rest) auto
    ultimately show ?thesis
      using takeWhile_append2 [of "val @ post" "\<lambda>c. c \<noteq> CHR 0x0D \<and> c \<noteq> CHR 0x0A" rest] by simp
  qed
  moreover have "trim_blank_end (val @ post) = val"
    using trim_blank_end_append [OF assms(3)] assms(6) by auto
  ultimately have v: "trim_blank_end (header_copy 127 (dropWhile ct_blank (drop 13 ?line))) = val"
    using name assms(8) by (simp add: header_copy_take)
  show ?thesis
    unfolding cpkt_audio_url_header_def using start name assms(9) v
    by (simp add: Let_def)
qed

end
