(* ===== verification/Audio_Mp3.thy ===== *)
theory Audio_Mp3
  imports Audio_Url
begin

text \<open>
  MP3 decoding from a URL in \<^verbatim>\<open>src/audio.c\<close>: the byte buffer between the URL source and the frame
  decoder, skipping of ID3v2 tags, synchronisation, and the loop that decodes the next frame. The
  frame decoder of the audio library is a field of the environment; what is assumed of it is
  \<open>mp3dec_ok\<close>, that it consumes no more bytes than it was given. The loop is a \<open>partial_function\<close>, and
  returning is proved: every round that goes on has consumed bytes of a finite stream.
\<close>

definition CPKT_AUDIO_MP3_BYTE_CHUNK :: nat where "CPKT_AUDIO_MP3_BYTE_CHUNK = 4096"

section \<open>State\<close>

text \<open>
  The MP3 part of \<^verbatim>\<open>struct cpkt_audio_decoder_impl\<close>. \<open>mp_bytes\<close> is the live part of the byte buffer, its
  length the C field \<open>mp3_byte_size\<close>. The frame decoder is an argument of the environment: the \<open>n\<close>-th
  call on a byte string gives the frame count, the bytes consumed, channels and rate.
\<close>

record mp3_frame =
  mf_count :: int
  mf_bytes :: int
  mf_channels :: nat
  mf_rate :: nat

record mp3_impl =
  mp_bytes :: "byte list"
  mp_byte_cursor :: nat
  mp_byte_capacity :: nat
  mp_input_frames :: nat
  mp_input_cursor :: nat
  mp_channels :: nat
  mp_sample_rate :: nat
  mp_source :: url_sys

record mp3_sys = mp3_impl +
  mp_decode :: "nat \<Rightarrow> byte list \<Rightarrow> mp3_frame"
  mp_realloc :: "nat \<Rightarrow> bool"
  mp_calls :: nat
  mp_allocs :: nat

section \<open>Operations\<close>

text \<open>Nonzero is failure, as in C: the first component is \<open>True\<close> when the reservation failed.\<close>

definition cpkt_audio_mp3_buffer_reserve :: "nat \<Rightarrow> mp3_sys \<Rightarrow> bool \<times> mp3_sys" where
  "cpkt_audio_mp3_buffer_reserve extra s =
     (if extra > size_max - length (mp_bytes s) then (True, s)
      else
        let needed = length (mp_bytes s) + extra in
        if needed \<le> mp_byte_capacity s then (False, s)
        else (case grow_capacity CPKT_AUDIO_MP3_BYTE_CHUNK (mp_byte_capacity s) needed of
                None \<Rightarrow> (True, s)
              | Some next_capacity \<Rightarrow>
                  (let ok = mp_realloc s (mp_allocs s);
                       s = s\<lparr>mp_allocs := Suc (mp_allocs s)\<rparr>
                   in if \<not> ok then (True, s) else (False, s\<lparr>mp_byte_capacity := next_capacity\<rparr>))))"

definition cpkt_audio_mp3_buffer_compact :: "mp3_sys \<Rightarrow> mp3_sys" where
  "cpkt_audio_mp3_buffer_compact s =
     (if mp_byte_cursor s = 0 then s
      else s\<lparr>mp_bytes := drop (mp_byte_cursor s) (mp_bytes s), mp_byte_cursor := 0\<rparr>)"

definition id3_tag_size :: "byte list \<Rightarrow> nat" where
  "id3_tag_size b =
     (let shifted = push_bit 21 (unat (b ! 6)) OR push_bit 14 (unat (b ! 7)) OR push_bit 7 (unat (b ! 8)) OR
            unat (b ! 9);
          tag_size = shifted + 10
      in if b ! 5 AND 0x10 \<noteq> 0 then tag_size + 10 else tag_size)"

definition cpkt_audio_mp3_skip_id3v2 :: "mp3_sys \<Rightarrow> nat \<times> mp3_sys" where
  "cpkt_audio_mp3_skip_id3v2 s =
     (let b = mp_bytes s in
      if length b < 3 \<or> take 3 b \<noteq> bytes_of ''ID3'' then (0, s)
      else if length b < 10 then (2, s)
      else if b ! 6 AND 0x80 \<noteq> 0 \<or> b ! 7 AND 0x80 \<noteq> 0 \<or> b ! 8 AND 0x80 \<noteq> 0 \<or> b ! 9 AND 0x80 \<noteq> 0 then (1, s)
      else
        let tag_size = id3_tag_size b in
        if tag_size > length b then (2, s)
        else (0, cpkt_audio_mp3_buffer_compact (s\<lparr>mp_byte_cursor := tag_size\<rparr>)))"

definition sync_at :: "byte \<Rightarrow> byte \<Rightarrow> bool" where
  "sync_at a b \<longleftrightarrow> a = 0xff \<and> b AND 0xe0 = 0xe0"

text \<open>The scanning loop: how far the cursor moves over the bytes from it on.\<close>

fun sync_offset :: "byte list \<Rightarrow> nat" where
  "sync_offset (a # b # bs) = (if sync_at a b then 0 else Suc (sync_offset (b # bs)))"
| "sync_offset _ = 0"

definition cpkt_audio_mp3_skip_to_sync :: "mp3_sys \<Rightarrow> mp3_sys" where
  "cpkt_audio_mp3_skip_to_sync s =
     cpkt_audio_mp3_buffer_compact
       (s\<lparr>mp_byte_cursor := mp_byte_cursor s + sync_offset (drop (mp_byte_cursor s) (mp_bytes s))\<rparr>)"

text \<open>
  The decoding attempt of one round of the loop: \<open>Some r\<close> when the function returns \<open>r\<close>. First what
  follows the call of the frame decoder.
\<close>

definition mp3_settle :: "mp3_frame \<Rightarrow> mp3_sys \<Rightarrow> cpkt_audio_result option \<times> mp3_sys" where
  "mp3_settle frame_info s =
     (let s = (if mf_bytes frame_info > 0
               then cpkt_audio_mp3_buffer_compact
                 (s\<lparr>mp_byte_cursor := mp_byte_cursor s + nat (mf_bytes frame_info)\<rparr>)
               else s)
      in
      if mf_count frame_info > 0 then
        (Some CPKT_AUDIO_OK,
         s\<lparr>mp_channels := mf_channels frame_info, mp_sample_rate := mf_rate frame_info,
           mp_input_frames := nat (mf_count frame_info)\<rparr>)
      else if mf_bytes frame_info = 0 \<and> us_done (mp_source s) then (Some CPKT_AUDIO_AT_END, s)
      else (None, s))"

definition mp3_try_frame :: "mp3_sys \<Rightarrow> cpkt_audio_result option \<times> mp3_sys" where
  "mp3_try_frame s =
     (let s = cpkt_audio_mp3_skip_to_sync s;
          available = length (mp_bytes s) - mp_byte_cursor s
      in
      if available = 0 then (None, s)
      else
        let available = (if available > int_max then int_max else available);
            frame_info = mp_decode s (mp_calls s) (take available (drop (mp_byte_cursor s) (mp_bytes s)))
        in mp3_settle frame_info (s\<lparr>mp_calls := Suc (mp_calls s)\<rparr>))"

text \<open>The reading part of one round.\<close>

definition mp3_fetch :: "mp3_sys \<Rightarrow> (cpkt_audio_result option \<times> mp3_sys) option" where
  "mp3_fetch s =
     map_option (\<lambda>(chunk, u).
       let s = s\<lparr>mp_source := u\<rparr> in
       if chunk = [] then
         (if us_failed u then (Some CPKT_AUDIO_ERR_IO, s)
          else if us_done u then (Some CPKT_AUDIO_AT_END, s)
          else (None, s))
       else
         let (failed, s) = cpkt_audio_mp3_buffer_reserve (length chunk) s in
         if failed then (Some CPKT_AUDIO_ERR_ALLOC, s)
         else (None, s\<lparr>mp_bytes := mp_bytes s @ chunk\<rparr>))
     (cpkt_audio_drmp3_url_read False CPKT_AUDIO_MP3_BYTE_CHUNK (mp_source s))"

partial_function (option) mp3_frame_loop :: "mp3_sys \<Rightarrow> (cpkt_audio_result \<times> mp3_sys) option" where
  "mp3_frame_loop s =
     (let (id3_status, s) = cpkt_audio_mp3_skip_id3v2 s in
      if id3_status = 1 then Some (CPKT_AUDIO_ERR_FORMAT, s)
      else
        let (r, s) = (if id3_status = 0 then mp3_try_frame s else (None, s)) in
        case r of
          Some r \<Rightarrow> Some (r, s)
        | None \<Rightarrow>
            Option.bind (mp3_fetch s) (\<lambda>(r, s).
              case r of Some r \<Rightarrow> Some (r, s) | None \<Rightarrow> mp3_frame_loop s))"

definition cpkt_audio_mp3_decode_next_frame :: "mp3_sys \<Rightarrow> (cpkt_audio_result \<times> mp3_sys) option" where
  "cpkt_audio_mp3_decode_next_frame s =
     mp3_frame_loop (s\<lparr>mp_input_cursor := 0, mp_input_frames := 0\<rparr>)"

section \<open>The byte buffer follows the stream\<close>

lemma drmp3_read_ready:
  assumes "url_ready s"
  shows "\<exists>xs s'. cpkt_audio_drmp3_url_read False n s = Some (xs, s') \<and> url_ready s' \<and>
    prefix (us_stream s) (us_stream s') \<and> us_buffer_cursor s' = us_buffer_cursor s + length xs \<and>
    xs = take n (drop (us_buffer_cursor s) (us_stream s')) \<and>
    (0 < n \<longrightarrow> xs \<noteq> [] \<or> us_done s' \<or> us_failed s')"
proof (cases "n = 0")
  case True
  with assms show ?thesis
    by (simp add: cpkt_audio_drmp3_url_read_def)
next
  case False
  obtain k where k: "us_done s \<or> us_failed s \<or> ends_at s k" and inv: "url_inv s"
    using assms by (auto simp: url_ready_def)
  from drmp3_wait_steps [OF inv k] obtain t where
    t: "drmp3_wait s = Some t" "url_inv t" "url_steps s t"
      "us_failed t \<or> us_done t \<or> us_buffer_cursor t < length (us_stream t)"
      "us_done t \<or> us_failed t \<or> ends_at t k"
    by blast
  obtain xs u where cp: "url_copy n t = (xs, u)" by force
  note cr = copy_reads [OF t(2) cp]
  have "url_ready u"
    using cr t(5) by (auto simp: url_ready_def ends_at_def)
  with cr t False cp show ?thesis
    by (auto simp: cpkt_audio_drmp3_url_read_def url_steps_def)
qed

text \<open>The frame decoder never claims to have consumed more than it was given.\<close>

definition mp3dec_ok :: "(nat \<Rightarrow> byte list \<Rightarrow> mp3_frame) \<Rightarrow> bool" where
  "mp3dec_ok decode \<longleftrightarrow> (\<forall>n b. mf_bytes (decode n b) \<le> int (length b))"

definition mp3_inv :: "mp3_sys \<Rightarrow> bool" where
  "mp3_inv s \<longleftrightarrow> url_ready (mp_source s) \<and> mp_byte_cursor s = 0 \<and> mp3dec_ok (mp_decode s) \<and>
     suffix (mp_bytes s) (take (us_buffer_cursor (mp_source s)) (us_stream (mp_source s))) \<and>
     length (mp_bytes s) \<le> mp_byte_capacity s \<and> mp_byte_capacity s \<le> size_max"

text \<open>Dropping bytes at the front keeps the invariant.\<close>

lemma drop_inv:
  assumes "mp3_inv s"
  shows "mp3_inv (s\<lparr>mp_bytes := drop k (mp_bytes s), mp_byte_cursor := 0, mp_calls := c\<rparr>)"
proof -
  have "suffix (drop k (mp_bytes s)) (mp_bytes s)"
    by (rule suffix_drop)
  with assms show ?thesis
    by (auto simp: mp3_inv_def intro: suffix_order.trans)
qed

lemma compact_eq:
  "mp_byte_cursor s = k \<Longrightarrow>
    cpkt_audio_mp3_buffer_compact s = s\<lparr>mp_bytes := drop k (mp_bytes s), mp_byte_cursor := 0\<rparr>"
  by (auto simp: cpkt_audio_mp3_buffer_compact_def)

lemma skip_id3v2_cases:
  assumes "mp3_inv s" "cpkt_audio_mp3_skip_id3v2 s = (r, s')"
  shows "mp3_inv s' \<and> (\<exists>k. s' = s\<lparr>mp_bytes := drop k (mp_bytes s)\<rparr>)"
proof -
  have c0: "mp_byte_cursor s = 0" using assms(1) by (simp add: mp3_inv_def)
  have "\<exists>k. s' = s\<lparr>mp_bytes := drop k (mp_bytes s)\<rparr>"
  proof (cases "s' = s")
    case True
    then show ?thesis by (intro exI [of _ 0]) simp
  next
    case False
    with assms(2) have "s' = cpkt_audio_mp3_buffer_compact (s\<lparr>mp_byte_cursor := id3_tag_size (mp_bytes s)\<rparr>)"
      by (auto simp: cpkt_audio_mp3_skip_id3v2_def Let_def split: if_splits)
    then show ?thesis
      using c0 by (intro exI [of _ "id3_tag_size (mp_bytes s)"]) (simp add: compact_eq)
  qed
  then obtain k where k: "s' = s\<lparr>mp_bytes := drop k (mp_bytes s)\<rparr>" by blast
  have "s' = s\<lparr>mp_bytes := drop k (mp_bytes s), mp_byte_cursor := 0, mp_calls := mp_calls s\<rparr>"
    using k c0 by simp
  with drop_inv [OF assms(1)] have "mp3_inv s'"
    by metis
  with k show ?thesis by blast
qed

lemma skip_to_sync_eq:
  assumes "mp3_inv s"
  shows "cpkt_audio_mp3_skip_to_sync s = s\<lparr>mp_bytes := drop (sync_offset (mp_bytes s)) (mp_bytes s)\<rparr>"
  using assms by (simp add: cpkt_audio_mp3_skip_to_sync_def mp3_inv_def compact_eq)

lemma settle_inv:
  assumes inv: "mp3_inv s" and st: "mp3_settle f s = (r, s')"
  shows "mp3_inv s' \<and> mp_source s' = mp_source s \<and> (r = Some CPKT_AUDIO_OK \<longrightarrow> 0 < mp_input_frames s') \<and>
    r \<in> {None, Some CPKT_AUDIO_OK, Some CPKT_AUDIO_AT_END}"
proof -
  define u where "u = (if mf_bytes f > 0 then cpkt_audio_mp3_buffer_compact
      (s\<lparr>mp_byte_cursor := mp_byte_cursor s + nat (mf_bytes f)\<rparr>) else s)"
  have c0: "mp_byte_cursor s = 0" using inv by (simp add: mp3_inv_def)
  have "mp3_inv (s\<lparr>mp_bytes := drop k (mp_bytes s), mp_byte_cursor := 0\<rparr>)" for k
    using drop_inv [OF inv, of "mp_calls s" k] by simp
  then have "mp3_inv u" "mp_source u = mp_source s"
    using inv c0 by (simp_all add: u_def compact_eq)
  then show ?thesis
    using st unfolding mp3_settle_def u_def [symmetric] Let_def
    by (auto simp: mp3_inv_def split: if_splits)
qed

lemma try_frame_inv:
  assumes inv: "mp3_inv s" and tf: "mp3_try_frame s = (r, s')"
  shows "mp3_inv s' \<and> mp_source s' = mp_source s \<and> (r = Some CPKT_AUDIO_OK \<longrightarrow> 0 < mp_input_frames s') \<and>
    r \<in> {None, Some CPKT_AUDIO_OK, Some CPKT_AUDIO_AT_END}"
proof -
  define t where "t = cpkt_audio_mp3_skip_to_sync s"
  have t: "t = s\<lparr>mp_bytes := drop (sync_offset (mp_bytes s)) (mp_bytes s), mp_byte_cursor := 0, mp_calls := mp_calls s\<rparr>"
    using skip_to_sync_eq [OF inv] inv by (simp add: t_def mp3_inv_def)
  have tinv: "mp3_inv t" unfolding t by (rule drop_inv [OF inv])
  have tsrc: "mp_source t = mp_source s" by (simp add: t)
  show ?thesis
  proof (cases "length (mp_bytes t) - mp_byte_cursor t = 0")
    case True
    then have "r = None" "s' = t"
      using tf unfolding mp3_try_frame_def t_def [symmetric] Let_def by simp_all
    with tinv tsrc show ?thesis by simp
  next
    case False
    have "\<exists>f. mp3_settle f (t\<lparr>mp_calls := Suc (mp_calls t)\<rparr>) = (r, s')"
      using tf False unfolding mp3_try_frame_def t_def [symmetric] Let_def by (simp only: if_False) blast
    then obtain f where "mp3_settle f (t\<lparr>mp_calls := Suc (mp_calls t)\<rparr>) = (r, s')" ..
    moreover have "mp3_inv (t\<lparr>mp_calls := Suc (mp_calls t)\<rparr>)"
      using tinv by (simp add: mp3_inv_def)
    ultimately show ?thesis
      using settle_inv [of "t\<lparr>mp_calls := Suc (mp_calls t)\<rparr>" f r s'] tsrc by simp
  qed
qed

lemma reserve_cases:
  assumes cap: "mp_byte_capacity s \<le> size_max" and "cpkt_audio_mp3_buffer_reserve n s = (failed, s')"
  shows "\<exists>c k. s' = s\<lparr>mp_byte_capacity := c, mp_allocs := k\<rparr> \<and> mp_byte_capacity s \<le> c \<and> c \<le> size_max \<and>
    (\<not> failed \<longrightarrow> length (mp_bytes s) + n \<le> c)"
proof -
  have grow: "needed \<le> c \<and> mp_byte_capacity s \<le> c \<and> c \<le> size_max"
    if "grow_capacity CPKT_AUDIO_MP3_BYTE_CHUNK (mp_byte_capacity s) needed = Some c" for needed c
  proof -
    let ?c0 = "if mp_byte_capacity s = 0 then CPKT_AUDIO_MP3_BYTE_CHUNK else mp_byte_capacity s"
    have "grow_loop needed ?c0 = Some c" using that by (simp add: grow_capacity_def)
    moreover have "?c0 \<le> size_max" using cap by (simp add: CPKT_AUDIO_MP3_BYTE_CHUNK_def c_limits)
    moreover have "mp_byte_capacity s \<le> ?c0" by simp
    ultimately show ?thesis
      using grow_loop_Some [of needed ?c0 c] grow_loop_bound [of needed ?c0 c] by linarith
  qed
  show ?thesis
  proof (intro exI)
    show "s' = s\<lparr>mp_byte_capacity := mp_byte_capacity s', mp_allocs := mp_allocs s'\<rparr> \<and>
      mp_byte_capacity s \<le> mp_byte_capacity s' \<and> mp_byte_capacity s' \<le> size_max \<and>
      (\<not> failed \<longrightarrow> length (mp_bytes s) + n \<le> mp_byte_capacity s')"
      using assms(2) cap grow
      by (auto simp: cpkt_audio_mp3_buffer_reserve_def Let_def split: if_splits option.splits)
  qed
qed

lemma fetch_inv:
  assumes inv: "mp3_inv s"
  shows "\<exists>r s'. mp3_fetch s = Some (r, s') \<and> (r \<noteq> Some CPKT_AUDIO_ERR_ALLOC \<longrightarrow> mp3_inv s') \<and>
    r \<in> {None, Some CPKT_AUDIO_ERR_IO, Some CPKT_AUDIO_AT_END, Some CPKT_AUDIO_ERR_ALLOC} \<and>
    us_buffer_cursor (mp_source s) \<le> us_buffer_cursor (mp_source s') \<and>
    (r = None \<longrightarrow> us_buffer_cursor (mp_source s) < us_buffer_cursor (mp_source s'))"
proof -
  let ?src = "mp_source s"
  have "url_ready ?src" using inv by (simp add: mp3_inv_def)
  from drmp3_read_ready [OF this, of CPKT_AUDIO_MP3_BYTE_CHUNK] obtain xs u where
    u: "cpkt_audio_drmp3_url_read False CPKT_AUDIO_MP3_BYTE_CHUNK ?src = Some (xs, u)" "url_ready u"
      "prefix (us_stream ?src) (us_stream u)" "us_buffer_cursor u = us_buffer_cursor ?src + length xs"
      "xs = take CPKT_AUDIO_MP3_BYTE_CHUNK (drop (us_buffer_cursor ?src) (us_stream u))"
      "xs \<noteq> [] \<or> us_done u \<or> us_failed u"
    by (auto simp: CPKT_AUDIO_MP3_BYTE_CHUNK_def)
  let ?c = "us_buffer_cursor ?src"
  have cle: "?c \<le> length (us_stream ?src)"
    using inv by (auto simp: mp3_inv_def url_ready_def url_inv_def url_win_def)
  have pre: "take ?c (us_stream u) = take ?c (us_stream ?src)"
    using u(3) cle by (auto simp: prefix_def)
  have xs: "take (?c + length xs) (us_stream u) = take ?c (us_stream ?src) @ xs"
  proof -
    have "xs = take (length xs) (drop ?c (us_stream u))"
      using u(5) by (metis length_take min.commute take_take append_take_drop_id take_all_iff le_refl min_def)
    then show ?thesis
      using pre by (metis take_add)
  qed
  have suf: "suffix (mp_bytes s @ xs) (take (us_buffer_cursor u) (us_stream u))"
    using inv xs u(4) by (auto simp: mp3_inv_def suffix_def)
  show ?thesis
  proof (cases "xs = []")
    case True
    have "mp3_inv (s\<lparr>mp_source := u\<rparr>)"
      using inv suf u(2) True by (simp add: mp3_inv_def)
    with True u show ?thesis
      by (auto simp: mp3_fetch_def Let_def)
  next
    case False
    let ?v = "s\<lparr>mp_source := u\<rparr>"
    obtain failed w where rs: "cpkt_audio_mp3_buffer_reserve (length xs) ?v = (failed, w)" by force
    have "mp_byte_capacity ?v \<le> size_max" using inv by (simp add: mp3_inv_def)
    from reserve_cases [OF this rs] obtain c k where
      w: "w = ?v\<lparr>mp_byte_capacity := c, mp_allocs := k\<rparr>" "c \<le> size_max"
        "\<not> failed \<longrightarrow> length (mp_bytes s) + length xs \<le> c"
      by auto
    have f: "mp3_fetch s = Some (if failed then (Some CPKT_AUDIO_ERR_ALLOC, w)
        else (None, w\<lparr>mp_bytes := mp_bytes w @ xs\<rparr>))"
      using u(1) False rs by (simp add: mp3_fetch_def)
    have "mp3_inv (w\<lparr>mp_bytes := mp_bytes w @ xs\<rparr>)" if "\<not> failed"
      using inv suf u(2) w that by (simp add: mp3_inv_def)
    with f u(4) False w(1) show ?thesis
      by auto
  qed
qed

lemma frame_loop_returns:
  assumes "mp3_inv s"
  shows "\<exists>r s'. mp3_frame_loop s = Some (r, s') \<and> (r \<noteq> CPKT_AUDIO_ERR_ALLOC \<longrightarrow> mp3_inv s') \<and>
    (r = CPKT_AUDIO_OK \<longrightarrow> 0 < mp_input_frames s') \<and>
    r \<in> {CPKT_AUDIO_OK, CPKT_AUDIO_AT_END, CPKT_AUDIO_ERR_FORMAT, CPKT_AUDIO_ERR_IO, CPKT_AUDIO_ERR_ALLOC}"
  using assms
proof (induction "size_max - us_buffer_cursor (mp_source s)" arbitrary: s rule: less_induct)
  case less
  obtain i t where sk: "cpkt_audio_mp3_skip_id3v2 s = (i, t)" by force
  note si = skip_id3v2_cases [OF less(2) sk]
  obtain q u where tr: "(if i = 0 then mp3_try_frame t else (None, t)) = (q, u)" by force
  have ui: "mp3_inv u" "mp_source u = mp_source s" "q = Some CPKT_AUDIO_OK \<longrightarrow> 0 < mp_input_frames u"
      "q \<in> {None, Some CPKT_AUDIO_OK, Some CPKT_AUDIO_AT_END}"
    using try_frame_inv [of t q u] si tr by (auto split: if_splits)
  have step: "mp3_frame_loop s = (if i = 1 then Some (CPKT_AUDIO_ERR_FORMAT, t)
      else case q of Some r \<Rightarrow> Some (r, u) | None \<Rightarrow> Option.bind (mp3_fetch u)
        (\<lambda>(r, s). case r of Some r \<Rightarrow> Some (r, s) | None \<Rightarrow> mp3_frame_loop s))"
    using sk tr by (subst mp3_frame_loop.simps) (simp split: if_splits)
  show ?case
  proof (cases "i = 1 \<or> q \<noteq> None")
    case True
    with step si ui show ?thesis
      by (auto split: if_splits)
  next
    case False
    from fetch_inv [OF ui(1)] obtain r v where
      v: "mp3_fetch u = Some (r, v)" "r \<noteq> Some CPKT_AUDIO_ERR_ALLOC \<longrightarrow> mp3_inv v"
        "r \<in> {None, Some CPKT_AUDIO_ERR_IO, Some CPKT_AUDIO_AT_END, Some CPKT_AUDIO_ERR_ALLOC}"
        "r = None \<longrightarrow> us_buffer_cursor (mp_source u) < us_buffer_cursor (mp_source v)"
      by blast
    show ?thesis
    proof (cases r)
      case None
      then have vi: "mp3_inv v" using v(2) by simp
      have "us_buffer_cursor (mp_source v) \<le> size_max"
        using vi by (auto simp: mp3_inv_def url_ready_def url_inv_def url_win_def)
      then have "size_max - us_buffer_cursor (mp_source v) < size_max - us_buffer_cursor (mp_source s)"
        using v(4) None ui(2) by simp
      from less(1) [OF this vi] show ?thesis
        using step False v(1) None by auto
    next
      case (Some p)
      with step False v show ?thesis
        by auto
    qed
  qed
qed

section \<open>Tags and synchronisation\<close>

lemma sync_offset_spec:
  "sync_offset b \<le> length b - 1 \<and>
    (\<forall>i < sync_offset b. \<not> sync_at (b ! i) (b ! Suc i)) \<and>
    (Suc (sync_offset b) < length b \<longrightarrow> sync_at (b ! sync_offset b) (b ! Suc (sync_offset b)))"
proof (induction b rule: sync_offset.induct)
  case (1 a b bs)
  show ?case
  proof (cases "sync_at a b")
    case True
    then show ?thesis by simp
  next
    case False
    have ih: "sync_offset (b # bs) \<le> length bs"
      "\<forall>i < sync_offset (b # bs). \<not> sync_at ((b # bs) ! i) ((b # bs) ! Suc i)"
      "Suc (sync_offset (b # bs)) < length (b # bs) \<longrightarrow>
        sync_at ((b # bs) ! sync_offset (b # bs)) ((b # bs) ! Suc (sync_offset (b # bs)))"
      using 1 [OF False] by simp_all
    have "\<not> sync_at ((a # b # bs) ! i) ((a # b # bs) ! Suc i)" if "i < Suc (sync_offset (b # bs))" for i
      using that ih(2) False by (cases i) auto
    with ih False show ?thesis
      by simp
  qed
qed simp_all

lemma syncsafe_bound:
  fixes x :: byte
  assumes "x AND 0x80 = 0"
  shows "unat x < 2 ^ 7"
proof -
  have "\<not> bit x 7"
  proof
    assume "bit x 7"
    then have "bit (x AND 0x80) 7"
      by (simp add: bit_simps)
    with assms show False
      by simp
  qed
  then have "take_bit 7 x = x"
    by (intro bit_word_eqI) (auto simp: bit_simps less_Suc_eq numeral_eq_Suc)
  then show ?thesis
    by (metis take_bit_nat_less_exp unsigned_take_bit_eq)
qed

lemma or_lt_power:
  fixes a b :: nat
  assumes "a < 2 ^ n" "b < 2 ^ n"
  shows "(a OR b) < 2 ^ n"
proof -
  have "take_bit n (a OR b) = a OR b"
    using assms by (metis take_bit_or take_bit_nat_eq_self_iff)
  then show ?thesis
    by (metis take_bit_nat_eq_self_iff)
qed

text \<open>The size field of a well-formed tag has 28 bits, so the sums of the tag size cannot wrap around.\<close>

lemma id3_tag_size_bound:
  assumes "b ! 6 AND 0x80 = 0" "b ! 7 AND 0x80 = 0" "b ! 8 AND 0x80 = 0" "b ! 9 AND 0x80 = 0"
  shows "id3_tag_size b < 2 ^ 28 + 20" "10 \<le> id3_tag_size b"
proof -
  have b: "unat (b ! 6) < 2 ^ 7" "unat (b ! 7) < 2 ^ 7" "unat (b ! 8) < 2 ^ 7" "unat (b ! 9) < 2 ^ 7"
    using assms syncsafe_bound by blast+
  have "push_bit 21 (unat (b ! 6)) < 2 ^ 28" "push_bit 14 (unat (b ! 7)) < 2 ^ 28"
      "push_bit 7 (unat (b ! 8)) < 2 ^ 28" "unat (b ! 9) < 2 ^ 28"
    using b by (simp_all add: push_bit_eq_mult)
  then have "(push_bit 21 (unat (b ! 6)) OR push_bit 14 (unat (b ! 7)) OR push_bit 7 (unat (b ! 8)) OR unat (b ! 9))
      < 2 ^ 28"
    by (intro or_lt_power)
  then show "id3_tag_size b < 2 ^ 28 + 20" "10 \<le> id3_tag_size b"
    by (auto simp: id3_tag_size_def Let_def)
qed

section \<open>Properties\<close>

text \<open>
  C32: Decoding the next MP3 frame from a URL returns whenever the transfer ends, however the frame
  decoder behaves within its contract: it yields a frame with samples, the end of the stream or an
  error; and the byte buffer always holds the stream bytes up to the read position, with only a front
  part skipped, never bytes out of order or twice.
\<close>

theorem mp3_decode_returns:
  assumes "mp3_inv s"
  shows "\<exists>r s'. cpkt_audio_mp3_decode_next_frame s = Some (r, s') \<and>
    (r = CPKT_AUDIO_OK \<longrightarrow> 0 < mp_input_frames s') \<and>
    (r \<noteq> CPKT_AUDIO_ERR_ALLOC \<longrightarrow> mp3_inv s' \<and>
      suffix (mp_bytes s') (take (us_buffer_cursor (mp_source s')) (us_stream (mp_source s')))) \<and>
    r \<in> {CPKT_AUDIO_OK, CPKT_AUDIO_AT_END, CPKT_AUDIO_ERR_FORMAT, CPKT_AUDIO_ERR_IO, CPKT_AUDIO_ERR_ALLOC}"
proof -
  have "mp3_inv (s\<lparr>mp_input_cursor := 0, mp_input_frames := 0\<rparr>)"
    using assms by (simp add: mp3_inv_def)
  from frame_loop_returns [OF this] show ?thesis
    unfolding cpkt_audio_mp3_decode_next_frame_def by (auto simp: mp3_inv_def)
qed

definition demo_mp3 :: mp3_sys where
  "demo_mp3 = \<lparr>mp_bytes = [], mp_byte_cursor = 0, mp_byte_capacity = 0, mp_input_frames = 0,
     mp_input_cursor = 0, mp_channels = 0, mp_sample_rate = 0, mp_source = demo_url,
     mp_decode = (\<lambda>_ b. \<lparr>mf_count = 0, mf_bytes = 0, mf_channels = 0, mf_rate = 0\<rparr>),
     mp_realloc = (\<lambda>_. True), mp_calls = 0, mp_allocs = 0\<rparr>"

lemma demo_mp3_inv: "mp3_inv demo_mp3"
  using demo_url_ready by (simp add: mp3_inv_def demo_mp3_def mp3dec_ok_def)

theorem mp3_decode_returns_witness:
  "\<exists>r s'. cpkt_audio_mp3_decode_next_frame demo_mp3 = Some (r, s')"
  using mp3_decode_returns [OF demo_mp3_inv] by blast

text \<open>
  Skipping an ID3v2 tag is exact: of a buffer that starts with a well-formed tag it removes the ten
  header bytes, the body of the size the four seven-bit digits give, and the footer if announced, once
  all of it is there; it asks for more bytes before that, rejects a size digit with its top bit
  set, and does not touch a buffer without a tag.
\<close>

lemma id3_skip_exact:
  assumes "mp_byte_cursor s = 0"
  shows "cpkt_audio_mp3_skip_id3v2 s =
    (let b = mp_bytes s in
     if \<not> prefix (bytes_of ''ID3'') b then (0, s)
     else if length b < 10 then (2, s)
     else if \<exists>i\<in>{6, 7, 8, 9}. b ! i AND 0x80 \<noteq> 0 then (1, s)
     else if length b < id3_tag_size b then (2, s)
     else (0, s\<lparr>mp_bytes := drop (id3_tag_size b) b\<rparr>))"
proof -
  have pre: "(length b < 3 \<or> take 3 b \<noteq> bytes_of ''ID3'') \<longleftrightarrow> \<not> prefix (bytes_of ''ID3'') b" for b
  proof -
    have l: "length (bytes_of ''ID3'') = 3" by (simp add: bytes_of_def)
    show ?thesis
    proof
      assume "length b < 3 \<or> take 3 b \<noteq> bytes_of ''ID3''"
      then show "\<not> prefix (bytes_of ''ID3'') b"
        using l by (auto simp: prefix_def)
    next
      assume "\<not> prefix (bytes_of ''ID3'') b"
      then show "length b < 3 \<or> take 3 b \<noteq> bytes_of ''ID3''"
        by (metis prefix_take)
    qed
  qed
  show ?thesis
    unfolding cpkt_audio_mp3_skip_id3v2_def Let_def pre
    using assms by (auto simp: compact_eq not_less)
qed

text \<open>
  Synchronisation drops exactly the bytes before the first MPEG sync word, and where there is none
  keeps the last byte, which may be the first half of one.
\<close>

lemma sync_skip_exact:
  assumes "mp_byte_cursor s = 0"
  shows "\<exists>k. cpkt_audio_mp3_skip_to_sync s = s\<lparr>mp_bytes := drop k (mp_bytes s)\<rparr> \<and>
    k \<le> length (mp_bytes s) - 1 \<and> (\<forall>i<k. \<not> sync_at (mp_bytes s ! i) (mp_bytes s ! Suc i)) \<and>
    (Suc k < length (mp_bytes s) \<longrightarrow> sync_at (mp_bytes s ! k) (mp_bytes s ! Suc k))"
  using assms sync_offset_spec [of "mp_bytes s"]
  by (intro exI [of _ "sync_offset (mp_bytes s)"]) (simp add: cpkt_audio_mp3_skip_to_sync_def compact_eq)

text \<open>
  A defect at the end of the stream: once the transfer is done and read to its end, a round in which
  the frame decoder skips bytes without producing samples ends the stream, whatever whole frames are
  still in the buffer.
\<close>

lemma mp3_tail_dropped:
  assumes "mp3_inv s" "us_done (mp_source s)" "\<not> us_failed (mp_source s)"
    and "us_buffer_cursor (mp_source s) = length (us_stream (mp_source s))"
    and "mp_bytes s = a # b # rest" "sync_at a b" "length (mp_bytes s) \<le> int_max"
    and "mf_count (mp_decode s (mp_calls s) (mp_bytes s)) = 0"
    and "mf_bytes (mp_decode s (mp_calls s) (mp_bytes s)) = int k" "0 < k"
  shows "\<exists>s'. cpkt_audio_mp3_decode_next_frame s = Some (CPKT_AUDIO_AT_END, s') \<and>
    mp_bytes s' = drop k (mp_bytes s)"
proof -
  let ?s = "s\<lparr>mp_input_cursor := 0, mp_input_frames := 0\<rparr>"
  have inv: "mp3_inv ?s" using assms(1) by (simp add: mp3_inv_def)
  have c0: "mp_byte_cursor s = 0" using assms(1) by (simp add: mp3_inv_def)
  have "a = 0xff" using assms(6) by (simp add: sync_at_def)
  then have id3: "cpkt_audio_mp3_skip_id3v2 ?s = (0, ?s)"
    using assms(5) by (simp add: cpkt_audio_mp3_skip_id3v2_def bytes_of_marks)
  have sync: "cpkt_audio_mp3_skip_to_sync ?s = ?s"
    using skip_to_sync_eq [OF inv] assms(5,6) by simp
  define u where "u = ?s\<lparr>mp_calls := Suc (mp_calls s), mp_bytes := drop k (mp_bytes s), mp_byte_cursor := 0\<rparr>"
  have tf: "mp3_try_frame ?s = (None, u)"
    using assms(5,7-10) c0
    by (simp add: mp3_try_frame_def sync Let_def mp3_settle_def compact_eq u_def)
  have "drmp3_wait (mp_source s) = Some (mp_source s)"
    using assms(2) by (subst drmp3_wait.simps) simp
  moreover have "cpkt_audio_url_buffer_end (mp_source s) = length (us_stream (mp_source s))"
    using assms(1) win_end by (auto simp: mp3_inv_def url_ready_def url_inv_def)
  ultimately have "cpkt_audio_drmp3_url_read False CPKT_AUDIO_MP3_BYTE_CHUNK (mp_source s) = Some ([], mp_source s)"
    using assms(4) by (simp add: cpkt_audio_drmp3_url_read_def CPKT_AUDIO_MP3_BYTE_CHUNK_def url_copy_def)
  then have "mp3_fetch u = Some (Some CPKT_AUDIO_AT_END, u)"
    using assms(2,3) by (simp add: mp3_fetch_def u_def)
  then have "mp3_frame_loop ?s = Some (CPKT_AUDIO_AT_END, u)"
    using id3 tf by (subst mp3_frame_loop.simps) simp
  then show ?thesis
    by (simp add: cpkt_audio_mp3_decode_next_frame_def u_def)
qed

definition demo_mp3_end :: mp3_sys where
  "demo_mp3_end = demo_mp3\<lparr>mp_bytes := [0xff, 0xe0, 0, 0xff, 0xe0, 0], mp_byte_capacity := 4096,
     mp_decode := (\<lambda>_ b. \<lparr>mf_count = 0, mf_bytes = min 3 (int (length b)), mf_channels = 0, mf_rate = 0\<rparr>),
     mp_source := demo_url\<lparr>us_buffer := [0xff, 0xe0, 0, 0xff, 0xe0, 0], us_stream := [0xff, 0xe0, 0, 0xff, 0xe0, 0],
       us_buffer_cursor := 6, us_buffer_capacity := 16384, us_done := True, us_tick := 1\<rparr>\<rparr>"

end
