(* ===== verification/Audio_S16.thy ===== *)
theory Audio_S16
  imports Audio_Format
begin

text \<open>
  Conversions between the floats of the interface and the 16-bit samples of the recording and playback
  commands (\<^verbatim>\<open>src/audio.c\<close>): little-endian bytes, the division of a captured sample by 32768 and the
  scaling of a played one, with the rounding of single precision written out on the significands.
\<close>

section \<open>Little-endian samples\<close>

text \<open>A \<open>short\<close> is a \<open>16 word\<close>, read by \<open>sint\<close>; the intermediate \<open>unsigned int\<close> is a \<open>32 word\<close>.\<close>

definition cpkt_audio_s16le_to_short :: "byte \<Rightarrow> byte \<Rightarrow> 16 word" where
  "cpkt_audio_s16le_to_short b0 b1 =
     (let value = (ucast b0 :: 32 word) OR push_bit 8 (ucast b1) in
      if value \<ge> 0x8000 then word_of_int (uint value - 0x10000) else word_of_int (uint value))"

definition cpkt_audio_short_to_s16le :: "16 word \<Rightarrow> byte \<times> byte" where
  "cpkt_audio_short_to_s16le sample =
     (let value = (word_of_int (sint sample) :: 32 word) AND 0xFFFF in
      (ucast (value AND 0xFF), ucast (drop_bit 8 value AND 0xFF)))"

lemma or_shift8: "uint ((ucast b0 :: 32 word) OR push_bit 8 (ucast b1)) = uint b0 + 256 * uint b1" for b0 b1 :: byte
proof -
  have "(ucast b0 :: 32 word) OR push_bit 8 (ucast b1) = ucast b0 + push_bit 8 (ucast b1)"
  proof (rule disjunctive_add [symmetric])
    show "\<not> bit (ucast b0 :: 32 word) n \<or> \<not> bit (push_bit 8 (ucast b1 :: 32 word)) n" for n
      using bit_imp_le_length [of b0 n] by (auto simp: bit_simps)
  qed
  moreover have "uint b0 < 256" "uint b1 < 256"
    using uint_bounded [of b0] uint_bounded [of b1] by simp_all
  ultimately show ?thesis
    by (simp add: push_bit_eq_mult uint_word_ariths unsigned_ucast_eq take_bit_eq_mod)
qed

lemma s16le_value: "cpkt_audio_s16le_to_short b0 b1 = word_of_int (uint b0 + 256 * uint b1)"
proof -
  have "(word_of_int (v - 0x10000) :: 16 word) = word_of_int v" for v
    by (simp add: word_of_int_eq_iff take_bit_eq_mod mod_diff_right_eq)
  then show ?thesis
    unfolding cpkt_audio_s16le_to_short_def Let_def or_shift8 by simp
qed

lemma short_low16: "(word_of_int (sint w) :: 32 word) AND 0xFFFF = ucast w" for w :: "16 word"
proof (rule bit_word_eqI)
  fix n
  assume "n < LENGTH(32)"
  have m: "(0xFFFF :: 32 word) = mask 16"
    by (simp add: mask_eq_exp_minus_1)
  show "bit ((word_of_int (sint w) :: 32 word) AND 0xFFFF) n = bit (ucast w :: 32 word) n"
    unfolding m using \<open>n < LENGTH(32)\<close> bit_imp_le_length [of w n] by (auto simp: bit_simps bit_sint_iff)
qed

lemma short_bytes: "cpkt_audio_short_to_s16le w = (word_of_int (uint w), word_of_int (uint w div 256))"
proof -
  have m: "(0xFF :: 32 word) = mask 8"
    by (simp add: mask_eq_exp_minus_1)
  have "ucast ((ucast w :: 32 word) AND 0xFF) = (word_of_int (uint w) :: byte)"
    unfolding m by (rule bit_word_eqI) (simp add: bit_simps)
  moreover have "ucast (drop_bit 8 (ucast w :: 32 word) AND 0xFF) = (word_of_int (drop_bit 8 (uint w)) :: byte)"
    unfolding m by (rule bit_word_eqI) (use bit_imp_le_length [of w] in \<open>auto simp: bit_simps\<close>)
  ultimately show ?thesis
    unfolding cpkt_audio_short_to_s16le_def short_low16 Let_def by (simp add: drop_bit_eq_div)
qed

text \<open>The two conversions are inverse to each other.\<close>

lemma s16le_short: "cpkt_audio_s16le_to_short (fst (cpkt_audio_short_to_s16le w)) (snd (cpkt_audio_short_to_s16le w)) = w"
proof -
  have "uint w < 65536"
    using uint_bounded [of w] by simp
  then have "uint w div 256 < 256" "0 \<le> uint w div 256"
    by (simp_all add: pos_imp_zdiv_nonneg_iff)
  then have "uint (word_of_int (uint w) :: byte) + 256 * uint (word_of_int (uint w div 256) :: byte) = uint w"
    unfolding uint_word_of_int by (simp add: take_bit_eq_mod)
  then show ?thesis
    by (simp add: s16le_value short_bytes)
qed

lemma short_s16le: "cpkt_audio_short_to_s16le (cpkt_audio_s16le_to_short b0 b1) = (b0, b1)"
proof -
  have b: "uint b0 < 256" "uint b1 < 256" "0 \<le> uint b0" "0 \<le> uint b1"
    using uint_bounded [of b0] uint_bounded [of b1] by simp_all
  then have "uint (word_of_int (uint b0 + 256 * uint b1) :: 16 word) = uint b0 + 256 * uint b1"
    unfolding uint_word_of_int by (simp add: take_bit_eq_mod)
  moreover have "(uint b0 + 256 * uint b1) div 256 = uint b1"
    using b by simp
  moreover have "(word_of_int (uint b0 + 256 * uint b1) :: byte) = b0"
  proof (rule word_uint_eqI)
    show "uint (word_of_int (uint b0 + 256 * uint b1) :: byte) = uint b0"
      unfolding uint_word_of_int using b by (simp add: take_bit_eq_mod)
  qed
  ultimately show ?thesis
    by (simp add: s16le_value short_bytes)
qed

section \<open>Floats and samples\<close>

text \<open>The number of bits of a natural number.\<close>

fun nbits :: "nat \<Rightarrow> nat" where
  "nbits n = (if n = 0 then 0 else Suc (nbits (n div 2)))"

declare nbits.simps [simp del]

lemma nbits_0 [simp]: "nbits 0 = 0"
  by (simp add: nbits.simps)

lemma nbits_bounds: "0 < n \<Longrightarrow> 2 ^ (nbits n - 1) \<le> n \<and> n < 2 ^ nbits n \<and> 0 < nbits n"
proof (induction n rule: nbits.induct)
  case (1 n)
  show ?case
  proof (cases "n div 2 = 0")
    case True
    with "1.prems" have "n = 1" by linarith
    then show ?thesis by (simp add: nbits.simps)
  next
    case False
    with 1 have ih: "2 ^ (nbits (n div 2) - 1) \<le> n div 2" "n div 2 < 2 ^ nbits (n div 2)" "0 < nbits (n div 2)"
      by auto
    have n: "nbits n = Suc (nbits (n div 2))"
      using "1.prems" by (subst nbits.simps) simp
    have "2 * 2 ^ (nbits (n div 2) - 1) = (2 :: nat) ^ nbits (n div 2)"
      using ih(3) by (cases "nbits (n div 2)") simp_all
    then have "2 ^ nbits (n div 2) \<le> n" "n < 2 * 2 ^ nbits (n div 2)"
      using ih(1,2) by linarith+
    then show ?thesis
      unfolding n by simp
  qed
qed

lemma nbits_unique: "2 ^ k \<le> n \<Longrightarrow> n < 2 ^ Suc k \<Longrightarrow> nbits n = Suc k"
proof -
  assume n: "2 ^ k \<le> n" "n < 2 ^ Suc k"
  then have "0 < n"
    by (metis gr0I not_le zero_less_numeral zero_less_power)
  note b = nbits_bounds [OF this]
  have "nbits n - 1 < Suc k"
    using b n(2) by (metis le_less_trans nat_power_less_imp_less zero_less_numeral)
  moreover have "k < nbits n"
    using b n(1) by (metis le_less_trans nat_power_less_imp_less zero_less_numeral)
  ultimately show ?thesis
    using b by linarith
qed

text \<open>
  Multiplication of a finite \<open>float\<close> by an integral \<open>float\<close> constant, followed by the conversion to an
  integer: the product of the significands is rounded to 24 bits, to nearest and even on a tie, and
  then cut at the point.  A product too small for a normal \<open>float\<close> is below one half, and zero here.
\<close>

definition f32_sig :: "f32 \<Rightarrow> nat" where
  "f32_sig x = (let m = nat (f32_mag x) in if m < 2 ^ 23 then m else m mod 2 ^ 23 + 2 ^ 23)"

definition f32_exp :: "f32 \<Rightarrow> nat" where
  "f32_exp x = (let e = nat (f32_mag x) div 2 ^ 23 in if e = 0 then 1 else e)"

definition round_even :: "nat \<Rightarrow> nat \<Rightarrow> nat" where
  "round_even p k =
     (let q = p div 2 ^ k; r = p mod 2 ^ k in
      if 2 * r > 2 ^ k \<or> (2 * r = 2 ^ k \<and> odd q) then q + 1 else q)"

definition f32_mul_trunc :: "f32 \<Rightarrow> nat \<Rightarrow> nat" where
  "f32_mul_trunc x m =
     (let p = f32_sig x * m; k = nbits p - 24 in
      round_even p k * 2 ^ (k + f32_exp x) div 2 ^ 150)"

definition f32_one :: f32 where "f32_one = 0x3F800000"

definition f32_minus_one :: f32 where "f32_minus_one = 0xBF800000"

text \<open>
  The conversion of a NaN to \<open>short\<close> is undefined in C: the argument \<open>nan_cast\<close> is what the machine
  makes of it.
\<close>

definition cpkt_audio_float_to_s16 :: "16 word \<Rightarrow> f32 \<Rightarrow> 16 word" where
  "cpkt_audio_float_to_s16 nan_cast sample =
     (let sample = (if f32_less f32_one sample then f32_one
                    else if f32_less sample f32_minus_one then f32_minus_one else sample) in
      if f32_nan sample then nan_cast
      else if f32_ge sample 0 then word_of_int (int (f32_mul_trunc sample 32767))
      else word_of_int (- int (f32_mul_trunc sample 32768)))"

text \<open>\<open>(float)sample / 32768.0f\<close>: a \<open>short\<close> has at most 16 bits, so both operations are exact.\<close>

definition f32_of_s16 :: "16 word \<Rightarrow> f32" where
  "f32_of_s16 w =
     (let v = sint w; m = nat \<bar>v\<bar>; b = nbits m in
      if m = 0 then 0
      else (if v < 0 then set_bit 31 else id) (of_nat ((110 + b) * 2 ^ 23 + m * 2 ^ (24 - b))))"

lemma round_even_le: "a * 2 ^ k \<le> p \<Longrightarrow> a \<le> round_even p k"
proof -
  assume "a * 2 ^ k \<le> p"
  then have "a \<le> p div 2 ^ k"
    by (simp add: less_eq_div_iff_mult_less_eq)
  then show ?thesis
    by (simp add: round_even_def Let_def)
qed

lemma round_even_near: "2 * (round_even p k * 2 ^ k) \<le> 2 * p + 2 ^ k"
proof -
  have p: "p = p div 2 ^ k * 2 ^ k + p mod 2 ^ k"
    by (rule div_mult_mod_eq [symmetric])
  show ?thesis
  proof (cases "2 * (p mod 2 ^ k) > 2 ^ k \<or> (2 * (p mod 2 ^ k) = 2 ^ k \<and> odd (p div 2 ^ k))")
    case True
    then have re: "round_even p k = p div 2 ^ k + 1" and "2 ^ k \<le> 2 * (p mod 2 ^ k)"
      by (auto simp: round_even_def Let_def)
    moreover have "2 * ((p div 2 ^ k + 1) * 2 ^ k) = 2 * (p div 2 ^ k * 2 ^ k) + 2 * 2 ^ k"
      by (simp add: algebra_simps)
    ultimately show ?thesis
      using p unfolding re by linarith
  next
    case False
    then have re: "round_even p k = p div 2 ^ k"
      by (auto simp: round_even_def Let_def)
    show ?thesis
      using p unfolding re by linarith
  qed
qed

lemma round_even_exact: "round_even (q * 2 ^ k) k = q"
  by (simp add: round_even_def)

text \<open>The parts of a converted sample.\<close>

lemma s16_bounds:
  fixes w :: "16 word"
  shows "nat \<bar>sint w\<bar> \<le> 32768" "0 < sint w \<Longrightarrow> nat \<bar>sint w\<bar> \<le> 32767"
  using sint_greater_eq [of w] sint_less [of w] by auto

lemma s16_normal:
  assumes "m \<noteq> 0" "m \<le> 32768" "b = nbits m"
  shows "2 ^ 23 \<le> m * 2 ^ (24 - b)" "m * 2 ^ (24 - b) < 2 ^ 24" "0 < b" "b \<le> 16"
    "b = 16 \<Longrightarrow> m = 32768"
proof -
  note nb = nbits_bounds [of m]
  have m: "2 ^ (b - 1) \<le> m" "m < 2 ^ b" "0 < b"
    using nb assms(1,3) by auto
  show "0 < b" by (rule m(3))
  show b16: "b \<le> 16"
  proof (rule ccontr)
    assume "\<not> b \<le> 16"
    then have "(2::nat) ^ 16 \<le> 2 ^ (b - 1)"
      by (intro power_increasing) auto
    with m(1) assms(2) show False by simp
  qed
  show "m = 32768" if "b = 16"
    using m(1) assms(2) that by simp
  have "2 ^ (b - 1) * 2 ^ (24 - b) = (2::nat) ^ 23"
    using m(3) b16 by (simp flip: power_add)
  then show "2 ^ 23 \<le> m * 2 ^ (24 - b)"
    using mult_le_mono1 [OF m(1), of "2 ^ (24 - b)"] by simp
  have "2 ^ b * 2 ^ (24 - b) = (2::nat) ^ 24"
    using b16 by (simp flip: power_add)
  then show "m * 2 ^ (24 - b) < 2 ^ 24"
    using mult_less_mono1 [OF m(2), of "2 ^ (24 - b)"] by simp
qed

lemma f32_mag_of_nat:
  assumes "X < 2 ^ 31"
  shows "f32_mag (of_nat X) = int X" "f32_mag (set_bit 31 (of_nat X)) = int X"
    "\<not> bit (of_nat X :: f32) 31" "bit (set_bit 31 (of_nat X :: f32)) 31"
proof -
  have t: "take_bit 31 (of_nat X :: f32) = of_nat X"
    using assms by (simp add: of_nat_take_bit [symmetric] take_bit_nat_eq_self)
  have u: "uint (of_nat X :: f32) = int X"
    using assms by (simp add: unsigned_of_nat take_bit_nat_eq_self)
  show "f32_mag (of_nat X) = int X"
    unfolding f32_mag_def t u ..
  have "take_bit 31 (set_bit 31 (of_nat X :: f32)) = take_bit 31 (of_nat X)"
    by (rule bit_eqI) (auto simp: bit_simps)
  then show "f32_mag (set_bit 31 (of_nat X)) = int X"
    unfolding f32_mag_def using t u by simp
  show "\<not> bit (of_nat X :: f32) 31"
    using t by (metis bit_take_bit_iff less_irrefl)
  show "bit (set_bit 31 (of_nat X :: f32)) 31"
    by (simp add: bit_set_bit_iff)
qed

lemma s16_parts:
  assumes "m = nat \<bar>sint w\<bar>" "m \<noteq> 0" "b = nbits m"
  shows "f32_sig (f32_of_s16 w) = m * 2 ^ (24 - b)" "f32_exp (f32_of_s16 w) = 111 + b"
    "f32_mag (f32_of_s16 w) = int ((110 + b) * 2 ^ 23 + m * 2 ^ (24 - b))"
    "f32_mag (f32_of_s16 w) \<le> 0x3F800000" "bit (f32_of_s16 w) 31 \<longleftrightarrow> sint w < 0"
proof -
  define X where "X = (110 + b) * 2 ^ 23 + m * 2 ^ (24 - b)"
  have "m \<le> 32768"
    using s16_bounds(1) [of w] assms(1) by simp
  note n = s16_normal [OF assms(2) this assms(3)]
  have X: "X = (111 + b) * 2 ^ 23 + (m * 2 ^ (24 - b) - 2 ^ 23)" "m * 2 ^ (24 - b) - 2 ^ 23 < 2 ^ 23"
    using n(1,2) by (simp_all add: X_def)
  have dm: "X div 2 ^ 23 = 111 + b" "X mod 2 ^ 23 = m * 2 ^ (24 - b) - 2 ^ 23"
    using X(2) div_mult_self3 [of "2 ^ 23" "111 + b" "m * 2 ^ (24 - b) - 2 ^ 23"]
      mod_mult_self3 [of "111 + b" "2 ^ 23" "m * 2 ^ (24 - b) - 2 ^ 23"]
    unfolding X(1) by (simp_all del: power_numeral)
  have le: "X \<le> 127 * 2 ^ 23"
  proof (cases "b = 16")
    case True
    then show ?thesis using n(5) by (simp add: X_def)
  next
    case False
    then have "111 + b \<le> 126" using n(4) by simp
    then have "(111 + b) * 2 ^ 23 \<le> 126 * 2 ^ 23" by simp
    then show ?thesis using X by simp
  qed
  have conv: "f32_of_s16 w = (if sint w < 0 then set_bit 31 (of_nat X) else of_nat X)"
    using assms by (simp add: f32_of_s16_def X_def Let_def)
  have "X < 2 ^ 31"
    using le by simp
  note mag = f32_mag_of_nat [OF this]
  show m1: "f32_mag (f32_of_s16 w) = int ((110 + b) * 2 ^ 23 + m * 2 ^ (24 - b))"
    unfolding X_def [symmetric] using mag by (simp add: conv)
  show "f32_mag (f32_of_s16 w) \<le> 0x3F800000"
    using le unfolding m1 X_def [symmetric] by simp
  show "bit (f32_of_s16 w) 31 \<longleftrightarrow> sint w < 0"
    using mag by (simp add: conv)
  have "\<not> X < 2 ^ 23"
    unfolding X(1) by simp
  then show "f32_sig (f32_of_s16 w) = m * 2 ^ (24 - b)"
    unfolding f32_sig_def m1 X_def [symmetric] nat_int Let_def dm using n(1) by simp
  show "f32_exp (f32_of_s16 w) = 111 + b"
    unfolding f32_exp_def m1 X_def [symmetric] nat_int Let_def dm by simp
qed

lemma mul_trunc_32768:
  assumes "m = nat \<bar>sint w\<bar>" "m \<noteq> 0"
  shows "f32_mul_trunc (f32_of_s16 w) 32768 = m"
proof -
  define b where "b = nbits m"
  define g where "g = m * 2 ^ (24 - b)"
  have "m \<le> 32768"
    using s16_bounds(1) [of w] assms(1) by simp
  note n = s16_normal [OF assms(2) this b_def]
  note parts = s16_parts [OF assms b_def]
  have g: "2 ^ 38 \<le> g * 32768" "g * 32768 < 2 ^ Suc 38"
    using n(1,2) unfolding g_def [symmetric] by simp_all
  have r: "round_even (g * 32768) 15 = g"
    using round_even_exact [of g 15] by simp
  have "f32_mul_trunc (f32_of_s16 w) 32768 = g * 2 ^ (15 + (111 + b)) div 2 ^ 150"
    unfolding f32_mul_trunc_def parts(1,2) g_def [symmetric] Let_def nbits_unique [OF g] by (simp add: r)
  also have "g * 2 ^ (15 + (111 + b)) = m * 2 ^ 150"
    using n(4) unfolding g_def by (simp add: mult.assoc flip: power_add)
  finally show ?thesis by simp
qed

lemma mul_trunc_32767:
  assumes "m = nat \<bar>sint w\<bar>" "m \<noteq> 0" "m \<le> 32767"
  shows "f32_mul_trunc (f32_of_s16 w) 32767 = m - 1"
proof -
  define b where "b = nbits m"
  define g where "g = m * 2 ^ (24 - b)"
  define p where "p = g * 32767"
  define k where "k = nbits p - 24"
  define D :: nat where "D = 2 ^ (39 - b)"
  have m: "m \<le> 32768" using assms(3) by simp
  note n = s16_normal [OF assms(2) m b_def]
  have b: "b \<le> 15"
    using n(4,5) assms(3) by (cases "b = 16") auto
  note parts = s16_parts [OF assms(1,2) b_def]
  have g: "2 ^ 23 \<le> g" "g < 2 ^ 24"
    using n(1,2) by (simp_all add: g_def)
  have "2 ^ 37 \<le> p" "p < 2 ^ 39"
    using g by (simp_all add: p_def)
  then have "nbits p = 38 \<or> nbits p = 39"
    using nbits_unique [of 37 p] nbits_unique [of 38 p] by (cases "p < 2 ^ 38") auto
  then have k: "k = 14 \<or> k = 15"
    by (auto simp: k_def)
  have D1: "D = 2 ^ (24 - b) * 32768"
  proof -
    have "39 - b = (24 - b) + 15" using b by simp
    then show ?thesis unfolding D_def by (simp only: power_add) simp
  qed
  have D: "D = 2 ^ (24 - b) * 32768" "p + g = m * D"
    unfolding D1 by (simp_all add: p_def g_def)
  have "f32_mul_trunc (f32_of_s16 w) 32767 = round_even p k * 2 ^ (k + (111 + b)) div 2 ^ 150"
    unfolding f32_mul_trunc_def parts(1,2) g_def [symmetric] Let_def p_def [symmetric] k_def [symmetric] ..
  also have "\<dots> = round_even p k * 2 ^ k * 2 ^ (111 + b) div (D * 2 ^ (111 + b))"
    using b by (simp add: D_def mult.assoc flip: power_add)
  also have "\<dots> = round_even p k * 2 ^ k div D"
    by (rule div_mult_mult2) simp
  also have "\<dots> = m - 1"
  proof (rule div_nat_eqI)
    have "(m - 1) * D \<le> p"
    proof -
      have "g \<le> D"
        using m unfolding D(1) g_def by simp
      moreover have "(m - 1) * D = m * D - D"
        by (simp add: diff_mult_distrib)
      ultimately show ?thesis
        using D(2) by linarith
    qed
    moreover have "D = 2 ^ (39 - b - k) * 2 ^ k"
      using k b unfolding D_def by (auto simp flip: power_add)
    ultimately have "(m - 1) * 2 ^ (39 - b - k) * 2 ^ k \<le> p"
      by (simp add: mult.assoc)
    from round_even_le [OF this] have "(m - 1) * 2 ^ (39 - b - k) * 2 ^ k \<le> round_even p k * 2 ^ k"
      by simp
    then show "D * (m - 1) \<le> round_even p k * 2 ^ k"
      using \<open>D = 2 ^ (39 - b - k) * 2 ^ k\<close> by (simp add: ac_simps)
    have "2 ^ k \<le> (2::nat) ^ 15"
      using k by auto
    then have "round_even p k * 2 ^ k < p + g"
      using round_even_near [of p k] g(1) by simp
    then show "round_even p k * 2 ^ k < D * Suc (m - 1)"
      using D(2) assms(2) by (simp add: ac_simps)
  qed
  finally show ?thesis .
qed

lemma f32_of_s16_0: "sint w = 0 \<Longrightarrow> f32_of_s16 w = 0"
  by (simp add: f32_of_s16_def)

lemma s16_unclipped:
  assumes "m = nat \<bar>sint w\<bar>" "m \<noteq> 0"
  shows "\<not> f32_nan (f32_of_s16 w)" "\<not> f32_less f32_one (f32_of_s16 w)"
    "\<not> f32_less (f32_of_s16 w) f32_minus_one" "f32_ge (f32_of_s16 w) 0 \<longleftrightarrow> 0 < sint w"
proof -
  note parts = s16_parts [OF assms refl]
  have one: "f32_key f32_one = 0x3F800000" "f32_key f32_minus_one = - 0x3F800000"
    by (simp_all add: f32_key_def f32_mag_def f32_one_def f32_minus_one_def)
  have pos: "0 < f32_mag (f32_of_s16 w)"
    unfolding parts(3) of_nat_0_less_iff by simp
  show nan: "\<not> f32_nan (f32_of_s16 w)"
    using parts(4) by (simp add: f32_nan_def)
  have key: "f32_key (f32_of_s16 w) = (if sint w < 0 then - f32_mag (f32_of_s16 w) else f32_mag (f32_of_s16 w))"
    unfolding f32_key_def parts(5) ..
  show "\<not> f32_less f32_one (f32_of_s16 w)" "\<not> f32_less (f32_of_s16 w) f32_minus_one"
    using parts(4) pos by (simp_all add: f32_less_def one key)
  have "sint w \<noteq> 0"
    using assms by auto
  then show "f32_ge (f32_of_s16 w) 0 \<longleftrightarrow> 0 < sint w"
    using nan pos parts(5) by (auto simp: f32_ge_def f32_nan_def f32_key_def)
qed

text \<open>
  Samples and bytes convert into each other without loss.  A sample that is captured and played
  back is itself if it is not positive, and one less if it is: capture divides by 32768 and playback
  multiplies by 32767 and cuts.
\<close>

lemma sample_roundtrip:
  "(\<forall>w. cpkt_audio_s16le_to_short (fst (cpkt_audio_short_to_s16le w)) (snd (cpkt_audio_short_to_s16le w)) = w) \<and>
   (\<forall>b0 b1. cpkt_audio_short_to_s16le (cpkt_audio_s16le_to_short b0 b1) = (b0, b1)) \<and>
   (\<forall>c w. cpkt_audio_float_to_s16 c (f32_of_s16 w) = (if 0 < sint w then w - 1 else w))"
proof (intro conjI allI)
  fix w :: "16 word" and c
  show "cpkt_audio_float_to_s16 c (f32_of_s16 w) = (if 0 < sint w then w - 1 else w)"
  proof (cases "sint w = 0")
    case True
    then have "w = 0" by (simp add: signed_eq_0_iff)
    then show ?thesis
      by (simp add: cpkt_audio_float_to_s16_def f32_of_s16_0 f32_less_def f32_key_def f32_mag_def f32_one_def
          f32_minus_one_def f32_nan_def f32_ge_def f32_mul_trunc_def f32_sig_def round_even_def)
  next
    case False
    define m where "m = nat \<bar>sint w\<bar>"
    have m0: "m \<noteq> 0" using False by (simp add: m_def)
    note u = s16_unclipped [OF m_def m0]
    show ?thesis
    proof (cases "0 < sint w")
      case True
      have "m \<le> 32767" using s16_bounds(2) [OF True] by (simp add: m_def)
      from mul_trunc_32767 [OF m_def m0 this] u True have "cpkt_audio_float_to_s16 c (f32_of_s16 w) = word_of_int (int (m - 1))"
        by (simp add: cpkt_audio_float_to_s16_def)
      also have "int (m - 1) = sint w - 1"
        using True by (simp add: m_def)
      also have "word_of_int (sint w - 1) = w - 1"
        by simp
      finally show ?thesis using True by simp
    next
      case neg: False
      from mul_trunc_32768 [OF m_def m0] u neg have "cpkt_audio_float_to_s16 c (f32_of_s16 w) = word_of_int (- int m)"
        by (simp add: cpkt_audio_float_to_s16_def)
      also have "- int m = sint w"
        using neg by (simp add: m_def)
      finally show ?thesis using neg by simp
    qed
  qed
qed (rule s16le_short short_s16le)+

end
