(* ===== verification/Audio_Process.thy ===== *)
theory Audio_Process
  imports Audio_S16
begin

text \<open>
  The commands of \<^verbatim>\<open>src/audio.c\<close>: finding one on \<open>PATH\<close>, starting it with a pipe, stopping it or waiting
  for its end, writing to it with SIGPIPE contained, and the clock.  The system is an argument
  (\<open>dev_world\<close>), asked by a running number; the state (\<open>dev_state\<close>) keeps open descriptors, children,
  the signal mask as far as SIGPIPE goes, and a trace.  Waiting that may go on for ever is a partial
  function.
\<close>

section \<open>The system\<close>

text \<open>
  What the system answers is an argument, by the number of the call: \<open>read\<close>, \<open>write\<close>, \<open>waitpid\<close>,
  \<open>select\<close>, \<open>pipe\<close>, \<open>fork\<close> and the clock.  The state keeps the open descriptors, the children not yet
  waited for, the signal mask as far as SIGPIPE is concerned, and a trace.
\<close>

datatype sys_read = GotBytes "byte list" | ReadAgain | ReadFail

datatype sys_write = Wrote nat | WriteIntr | WritePipe | WriteFail

datatype sys_wait = WaitExited int | WaitSignalled | WaitIntr | WaitFail

datatype sys_select = SelectReady | SelectOther | SelectIntr | SelectFail

record dev_world =
  dw_path :: "string option"
  dw_access :: "string \<Rightarrow> bool"
  dw_time :: "nat \<Rightarrow> (nat \<times> nat) option"
  dw_pipe :: "nat \<Rightarrow> (int \<times> int) option"
  dw_fork :: "nat \<Rightarrow> int"
  dw_devnull :: "nat \<Rightarrow> int"
  dw_read :: "nat \<Rightarrow> nat \<Rightarrow> sys_read"
  dw_write :: "nat \<Rightarrow> byte list \<Rightarrow> sys_write"
  dw_wait :: "nat \<Rightarrow> sys_wait"
  dw_select :: "nat \<Rightarrow> sys_select"
  dw_sigset :: "nat \<Rightarrow> bool"
  dw_sigmask :: "nat \<Rightarrow> bool"
  dw_sigpending :: "nat \<Rightarrow> bool"
  dw_alloc :: "nat \<Rightarrow> bool"
  dw_nan_cast :: "16 word"

datatype child_act = ChildDup2 int int | ChildClose int | ChildExec "string list"

datatype dev_event =
    EvSpawn "child_act list" int int
  | EvNonblock int
  | EvRead int "byte list"
  | EvWrite int "byte list"
  | EvClose int
  | EvKill int
  | EvWait int
  | EvSleep nat
  | EvReady nat int
  | EvOutput "f32 list"
  | EvDeviceStart
  | EvDeviceStop
  | EvDeviceUninit
  | EvDeviceInit nat
  | EvRingInit nat
  | EvRingUninit
  | EvAlloc string
  | EvFree string

record dev_state =
  ds_tick :: nat
  ds_open :: "int list"
  ds_children :: "int list"
  ds_blocked :: bool
  ds_pending :: bool
  ds_killed :: bool
  ds_trace :: "dev_event list"

definition ev :: "dev_event \<Rightarrow> dev_state \<Rightarrow> dev_state" where
  "ev e s = s\<lparr>ds_trace := ds_trace s @ [e]\<rparr>"

definition tick :: "dev_state \<Rightarrow> dev_state" where
  "tick s = s\<lparr>ds_tick := Suc (ds_tick s)\<rparr>"

definition posix_close :: "int \<Rightarrow> dev_state \<Rightarrow> dev_state" where
  "posix_close fd s = ev (EvClose fd) (s\<lparr>ds_open := remove1 fd (ds_open s)\<rparr>)"

definition posix_read :: "dev_world \<Rightarrow> int \<Rightarrow> nat \<Rightarrow> dev_state \<Rightarrow> sys_read \<times> dev_state" where
  "posix_read W fd n s =
     (case dw_read W (ds_tick s) n of
        GotBytes bs \<Rightarrow> (GotBytes (take n bs), ev (EvRead fd (take n bs)) (tick s))
      | a \<Rightarrow> (a, tick s))"

text \<open>A write into a pipe without a reader raises SIGPIPE, which ends the process unless it is blocked.\<close>

definition posix_write :: "dev_world \<Rightarrow> int \<Rightarrow> byte list \<Rightarrow> dev_state \<Rightarrow> sys_write \<times> dev_state" where
  "posix_write W fd bs s =
     (case dw_write W (ds_tick s) bs of
        Wrote n \<Rightarrow> (Wrote (min n (length bs)), ev (EvWrite fd (take n bs)) (tick s))
      | WritePipe \<Rightarrow>
          (WritePipe, if ds_blocked s then (tick s)\<lparr>ds_pending := True\<rparr> else (tick s)\<lparr>ds_killed := True\<rparr>)
      | a \<Rightarrow> (a, tick s))"

definition posix_waitpid :: "dev_world \<Rightarrow> int \<Rightarrow> dev_state \<Rightarrow> sys_wait \<times> dev_state" where
  "posix_waitpid W pid s =
     (let a = dw_wait W (ds_tick s); s = ev (EvWait pid) (tick s) in
      (a, if a \<in> {WaitIntr, WaitFail} then s else s\<lparr>ds_children := remove1 pid (ds_children s)\<rparr>))"

section \<open>Commands\<close>

definition PATH_MAX :: nat where "PATH_MAX = 4096"

text \<open>The loop over the directories of \<open>PATH\<close>; \<open>cursor\<close> is the rest of the string.\<close>

function command_search :: "dev_world \<Rightarrow> string \<Rightarrow> string \<Rightarrow> bool" where
  "command_search W name cursor =
     (if cursor = [] then False
      else
        let dir = takeWhile (\<lambda>c. c \<noteq> CHR '':'') cursor;
            end = dropWhile (\<lambda>c. c \<noteq> CHR '':'') cursor;
            dir = (if dir = [] then ''.'' else dir)
        in
        if length dir + 1 + length name + 1 \<le> PATH_MAX \<and> dw_access W (dir @ ''/'' @ name) then True
        else command_search W name (if end \<noteq> [] then tl end else end))"
  by pat_completeness auto
termination
proof (relation "measure (\<lambda>(W, name, cursor). length cursor)")
  fix W :: dev_world and name cursor :: string and x xa xb
  assume "cursor \<noteq> []" "xa = dropWhile (\<lambda>c. c \<noteq> CHR '':'') cursor"
  then have "length xa \<le> length cursor" "0 < length cursor"
    by (simp_all add: length_dropWhile_le)
  then have "length (if xa \<noteq> [] then tl xa else xa) < length cursor"
    by (cases xa) auto
  then show "((W, name, if xa \<noteq> [] then tl xa else xa), W, name, cursor) \<in> measure (\<lambda>(W, name, cursor). length cursor)"
    by simp
qed simp

declare command_search.simps [simp del]

definition cpkt_audio_process_command_exists :: "dev_world \<Rightarrow> string option \<Rightarrow> bool" where
  "cpkt_audio_process_command_exists W name =
     (case name of
        None \<Rightarrow> False
      | Some name \<Rightarrow>
          if name = [] then False
          else if CHR ''/'' \<in> set name then dw_access W name
          else command_search W name
            (case dw_path W of
               None \<Rightarrow> ''/usr/local/bin:/usr/bin:/bin''
             | Some p \<Rightarrow> if p = [] then ''/usr/local/bin:/usr/bin:/bin'' else p))"

section \<open>Child processes\<close>

definition cpkt_audio_process_close_fd :: "int \<Rightarrow> dev_state \<Rightarrow> int \<times> dev_state" where
  "cpkt_audio_process_close_fd fd s = (if fd \<ge> 0 then (-1, posix_close fd s) else (fd, s))"

definition cpkt_audio_process_stop :: "dev_world \<Rightarrow> int \<Rightarrow> int \<Rightarrow> dev_state \<Rightarrow> int \<times> int \<times> dev_state" where
  "cpkt_audio_process_stop W pid fd s =
     (let (fd, s) = cpkt_audio_process_close_fd fd s in
      if pid > 0 then
        let s = ev (EvKill pid) s;
            (a, s) = posix_waitpid W pid s;
            s = (if a = WaitIntr then snd (posix_waitpid W pid s) else s)
        in (-1, fd, s)
      else (pid, fd, s))"

text \<open>Waiting for a child that ends by itself; an interrupted wait is repeated.\<close>

partial_function (option) finish_wait ::
    "dev_world \<Rightarrow> int \<Rightarrow> dev_state \<Rightarrow> (cpkt_audio_result \<times> dev_state) option" where
  "finish_wait W pid s =
     (let (a, s) = posix_waitpid W pid s in
      case a of
        WaitExited code \<Rightarrow> Some (if code = 0 then CPKT_AUDIO_OK else CPKT_AUDIO_ERR_IO, s)
      | WaitSignalled \<Rightarrow> Some (CPKT_AUDIO_ERR_IO, s)
      | WaitFail \<Rightarrow> Some (CPKT_AUDIO_ERR_IO, s)
      | WaitIntr \<Rightarrow> finish_wait W pid s)"

declare finish_wait.simps [code]

definition cpkt_audio_process_finish ::
    "dev_world \<Rightarrow> int \<Rightarrow> int \<Rightarrow> dev_state \<Rightarrow> (cpkt_audio_result \<times> int \<times> int \<times> dev_state) option" where
  "cpkt_audio_process_finish W pid fd s =
     (let (fd, s) = cpkt_audio_process_close_fd fd s in
      if pid > 0 then map_option (\<lambda>(r, s). (r, -1, fd, s)) (finish_wait W pid s)
      else Some (CPKT_AUDIO_OK, pid, fd, s))"

text \<open>
  SIGPIPE is blocked around the write.  One that was raised by it is taken off again, unless one was
  pending before; then the mask is put back.
\<close>

definition cpkt_audio_process_write ::
    "dev_world \<Rightarrow> int \<Rightarrow> byte list \<Rightarrow> dev_state \<Rightarrow> sys_write \<times> dev_state" where
  "cpkt_audio_process_write W fd bs s =
     (if \<not> dw_sigset W (ds_tick s) then posix_write W fd bs (tick s)
      else
        let s = tick s in
        if \<not> dw_sigmask W (ds_tick s) then posix_write W fd bs (tick s)
        else
          let s = tick s;
              previous = ds_blocked s;
              s = s\<lparr>ds_blocked := True\<rparr>;
              had_pending = dw_sigpending W (ds_tick s) \<and> ds_pending s;
              s = tick s;
              (a, s) = posix_write W fd bs s;
              s = (if a = WritePipe \<and> \<not> had_pending then (tick s)\<lparr>ds_pending := False\<rparr> else s)
          in (a, s\<lparr>ds_blocked := previous\<rparr>))"

text \<open>What the child does between \<open>fork\<close> and the command; \<open>devnull\<close> is negative when it cannot be opened.\<close>

definition process_child :: "string list \<Rightarrow> bool \<Rightarrow> int \<Rightarrow> int \<Rightarrow> int \<Rightarrow> child_act list" where
  "process_child argv pipe_to_child rd wr devnull =
     (if pipe_to_child then ChildDup2 rd 0 # (if devnull \<ge> 0 then [ChildDup2 devnull 1] else [])
      else (if devnull \<ge> 0 then [ChildDup2 devnull 0] else []) @ [ChildDup2 wr 1]) @
     (if devnull \<ge> 0 then ChildDup2 devnull 2 # (if devnull > 2 then [ChildClose devnull] else []) else []) @
     [ChildClose rd, ChildClose wr, ChildExec argv]"

text \<open>
  The event of a spawn says what the child does, and which pid and descriptor the parent keeps.  A
  command that cannot be executed shows up as a pipe at its end.
\<close>

definition cpkt_audio_process_spawn ::
    "dev_world \<Rightarrow> string list \<Rightarrow> bool \<Rightarrow> bool \<Rightarrow> dev_state \<Rightarrow> cpkt_audio_result \<times> int \<times> int \<times> dev_state" where
  "cpkt_audio_process_spawn W argv pipe_to_child nonblock_parent s =
     (if argv = [] then (CPKT_AUDIO_ERR_ARG, -1, -1, s)
      else if \<not> cpkt_audio_process_command_exists W (Some (hd argv)) then (CPKT_AUDIO_ERR_IO, -1, -1, s)
      else case dw_pipe W (ds_tick s) of
        None \<Rightarrow> (CPKT_AUDIO_ERR_IO, -1, -1, tick s)
      | Some (rd, wr) \<Rightarrow>
          let s = (tick s)\<lparr>ds_open := rd # wr # ds_open s\<rparr>;
              pid = dw_fork W (ds_tick s);
              s = tick s
          in
          if pid < 0 then (CPKT_AUDIO_ERR_IO, -1, -1, posix_close wr (posix_close rd s))
          else
            let (fd, s) = (if pipe_to_child then (wr, posix_close rd s) else (rd, posix_close wr s));
                s = ev (EvSpawn (process_child argv pipe_to_child rd wr (dw_devnull W (ds_tick s))) pid fd)
                      (s\<lparr>ds_children := pid # ds_children s\<rparr>);
                s = (if nonblock_parent then ev (EvNonblock fd) s else s)
            in (CPKT_AUDIO_OK, pid, fd, s))"

section \<open>Time\<close>

definition cpkt_audio_process_now_ms :: "dev_world \<Rightarrow> dev_state \<Rightarrow> nat \<times> dev_state" where
  "cpkt_audio_process_now_ms W s =
     (case dw_time W (ds_tick s) of
        None \<Rightarrow> (0, tick s)
      | Some (sec, usec) \<Rightarrow> (sz (sz (sec * 1000) + usec div 1000), tick s))"

definition cpkt_audio_process_elapsed_ms :: "nat \<Rightarrow> nat \<Rightarrow> nat option" where
  "cpkt_audio_process_elapsed_ms now then_ms =
     (if now = 0 \<or> then_ms = 0 \<or> now < then_ms then None else Some (now - then_ms))"

definition cpkt_audio_wait_expired :: "dev_world \<Rightarrow> nat \<Rightarrow> nat \<Rightarrow> dev_state \<Rightarrow> bool \<times> dev_state" where
  "cpkt_audio_wait_expired W start_ms timeout_ms s =
     (if timeout_ms = 0 then (False, s)
      else
        let (now_ms, s) = cpkt_audio_process_now_ms W s in
        (case cpkt_audio_process_elapsed_ms now_ms start_ms of
           None \<Rightarrow> (False, s)
         | Some elapsed_ms \<Rightarrow> (elapsed_ms \<ge> timeout_ms, s)))"

end
