(* ===== verification/Audio_Capture.thy ===== *)
theory Audio_Capture
  imports Audio_Process
begin

text \<open>
  Capture (\<^verbatim>\<open>struct cpkt_audio_capture_impl\<close> of \<^verbatim>\<open>src/audio.c\<close>), from the recording command or from the
  device library, and the choice of the backend.

  The library's ring is an argument with the contract \<open>rb_ok\<close>, a bounded queue; its device thread is a
  schedule \<open>D\<close> of the inputs delivered between the accesses of the caller, so that every interleaving
  of whole callbacks with these accesses is covered.  \<open>stream_step\<close> follows the bytes of the command
  through partial reads; \<open>fifo_step\<close> follows the frames of the device through the ring.  NULL tests
  of arguments are left out, except for the handle to be opened.
\<close>

section \<open>The ring buffer\<close>

text \<open>
  The PCM ring buffer of the audio library is an argument.  An acquired region is the list of its
  frames for a reader and its length for a writer, empty or zero when there is none; it may be shorter
  than asked for, since it ends where the storage wraps around.
\<close>

record 'r pcm_rb =
  rb_available_read :: "'r \<Rightarrow> nat"
  rb_available_write :: "'r \<Rightarrow> nat"
  rb_seek_read :: "nat \<Rightarrow> 'r \<Rightarrow> 'r"
  rb_acquire_read :: "nat \<Rightarrow> 'r \<Rightarrow> f32 list"
  rb_commit_read :: "nat \<Rightarrow> 'r \<Rightarrow> 'r"
  rb_acquire_write :: "nat \<Rightarrow> 'r \<Rightarrow> nat"
  rb_commit_write :: "f32 list \<Rightarrow> 'r \<Rightarrow> 'r"

text \<open>Its contract: a bounded queue.  \<open>q\<close> reads the frames off a ring, \<open>cap\<close> is how many it holds.\<close>

definition rb_ok :: "'r pcm_rb \<Rightarrow> ('r \<Rightarrow> f32 list) \<Rightarrow> nat \<Rightarrow> bool" where
  "rb_ok R q cap \<longleftrightarrow>
     (\<forall>r. length (q r) \<le> cap \<longrightarrow>
        rb_available_read R r = length (q r) \<and>
        rb_available_write R r = cap - length (q r) \<and>
        (\<forall>n. n \<le> length (q r) \<longrightarrow> q (rb_seek_read R n r) = drop n (q r)) \<and>
        (\<forall>n. prefix (rb_acquire_read R n r) (q r) \<and> length (rb_acquire_read R n r) \<le> n \<and>
          (0 < n \<longrightarrow> q r \<noteq> [] \<longrightarrow> rb_acquire_read R n r \<noteq> [])) \<and>
        (\<forall>n. n \<le> length (q r) \<longrightarrow> q (rb_commit_read R n r) = drop n (q r)) \<and>
        (\<forall>n. rb_acquire_write R n r \<le> n \<and> rb_acquire_write R n r \<le> cap - length (q r) \<and>
          (0 < n \<longrightarrow> length (q r) < cap \<longrightarrow> 0 < rb_acquire_write R n r)) \<and>
        (\<forall>xs. length (q r) + length xs \<le> cap \<longrightarrow> q (rb_commit_write R xs r) = q r @ xs))"

section \<open>Capture\<close>

record 'r cpkt_audio_capture_impl =
  cp_rb :: 'r
  cp_state_sink :: "(dev_event list \<Rightarrow> nat \<Rightarrow> int) option"
  cp_process_pid :: int
  cp_process_fd :: int
  cp_pending_byte :: byte
  cp_process_mode :: bool
  cp_device_initialized :: bool
  cp_rb_initialized :: bool
  cp_started :: bool
  cp_overrun :: bool
  cp_has_pending_byte :: bool

text \<open>
  The device thread runs between the accesses of the caller's thread to the ring: the argument \<open>D\<close>
  gives the inputs the device has delivered before an access, by the number of the access.  A
  callback is taken as one step.
\<close>

function capture_write :: "'r pcm_rb \<Rightarrow> f32 list \<Rightarrow> 'r cpkt_audio_capture_impl \<Rightarrow> 'r cpkt_audio_capture_impl" where
  "capture_write R src impl =
     (if src = [] then impl
      else
        let chunk = rb_acquire_write R (length src) (cp_rb impl) in
        if chunk = 0 then impl\<lparr>cp_overrun := True\<rparr>
        else capture_write R (drop chunk src) (impl\<lparr>cp_rb := rb_commit_write R (take chunk src) (cp_rb impl)\<rparr>))"
  by pat_completeness auto
termination
  by (relation "measure (\<lambda>(R, src, impl). length src)") auto

declare capture_write.simps [simp del]

definition cpkt_audio_capture_callback ::
    "'r pcm_rb \<Rightarrow> f32 list \<Rightarrow> 'r cpkt_audio_capture_impl \<Rightarrow> 'r cpkt_audio_capture_impl" where
  "cpkt_audio_capture_callback R input impl =
     (if input = [] then impl
      else
        let frame_count = length input;
            available_write = rb_available_write R (cp_rb impl);
            impl =
              (if available_write < frame_count then
                 let drop_frames = frame_count - available_write;
                     available_read = rb_available_read R (cp_rb impl);
                     drop_frames = (if drop_frames > available_read then available_read else drop_frames)
                 in if drop_frames > 0
                    then impl\<lparr>cp_rb := rb_seek_read R drop_frames (cp_rb impl), cp_overrun := True\<rparr>
                    else impl
               else impl)
        in capture_write R input impl)"

definition device_run ::
    "'r pcm_rb \<Rightarrow> (nat \<Rightarrow> f32 list list) \<Rightarrow> 'r cpkt_audio_capture_impl \<Rightarrow> dev_state \<Rightarrow>
     'r cpkt_audio_capture_impl \<times> dev_state" where
  "device_run R D impl s = (fold (cpkt_audio_capture_callback R) (D (ds_tick s)) impl, tick s)"

definition cpkt_audio_capture_emit_state ::
    "'r cpkt_audio_capture_impl \<Rightarrow> nat \<Rightarrow> dev_state \<Rightarrow> cpkt_audio_result \<times> dev_state" where
  "cpkt_audio_capture_emit_state impl frame_count s =
     (case cp_state_sink impl of
        None \<Rightarrow> (CPKT_AUDIO_OK, s)
      | Some sink \<Rightarrow>
          let rc = sink (ds_trace s) frame_count in
          (if rc = 0 then CPKT_AUDIO_OK else CPKT_AUDIO_ERR_IO, ev (EvReady frame_count rc) s))"

text \<open>The pairs of bytes that fit into \<open>room\<close> frames, and the bytes left.\<close>

fun take_frames :: "nat \<Rightarrow> byte list \<Rightarrow> f32 list \<times> byte list" where
  "take_frames (Suc room) (b0 # b1 # bs) =
     (let (xs, rest) = take_frames room bs in (f32_of_s16 (cpkt_audio_s16le_to_short b0 b1) # xs, rest))"
| "take_frames room bs = ([], bs)"

lemma take_frames_some: "take_frames room bs = (xs, []) \<Longrightarrow> bs \<noteq> [] \<Longrightarrow> xs \<noteq> []"
  by (induction room bs rule: take_frames.induct) (auto split: prod.splits)

lemma take_frames_less: "(xs, []) = take_frames room (b # bs) \<Longrightarrow> \<not> cap \<le> k \<Longrightarrow> cap - (k + length xs) < cap - k"
  using take_frames_some [of room "b # bs" xs] by (cases xs) auto

datatype capture_end = CaptureDone | CaptureError

abbreviation process_chunk_bytes :: nat where "process_chunk_bytes \<equiv> 2048"

definition keep_pending :: "byte list \<Rightarrow> 'r cpkt_audio_capture_impl \<Rightarrow> 'r cpkt_audio_capture_impl" where
  "keep_pending rest impl =
     (if rest \<noteq> [] then impl\<lparr>cp_pending_byte := hd rest, cp_has_pending_byte := True\<rparr> else impl)"

text \<open>The loop of the process mode; every round delivers a frame, keeps a byte or ends.\<close>

function capture_process_loop ::
    "dev_world \<Rightarrow> nat \<Rightarrow> f32 list \<Rightarrow> 'r cpkt_audio_capture_impl \<Rightarrow> dev_state \<Rightarrow>
     capture_end \<times> f32 list \<times> 'r cpkt_audio_capture_impl \<times> dev_state" where
  "capture_process_loop W cap acc impl s =
     (if length acc \<ge> cap then (CaptureDone, acc, impl, s)
      else if cp_has_pending_byte impl then
        (case posix_read W (cp_process_fd impl) 1 s of
           (ReadAgain, s) \<Rightarrow> (CaptureDone, acc, impl, s)
         | (ReadFail, s) \<Rightarrow> (CaptureError, acc, impl, s)
         | (GotBytes [], s) \<Rightarrow> (CaptureDone, acc, impl, s)
         | (GotBytes (b # bs), s) \<Rightarrow>
             capture_process_loop W cap
               (acc @ [f32_of_s16 (cpkt_audio_s16le_to_short (cp_pending_byte impl) b)])
               (impl\<lparr>cp_has_pending_byte := False\<rparr>) s)
      else
        let byte_count = sz ((cap - length acc) * 2);
            byte_count = (if byte_count > process_chunk_bytes then process_chunk_bytes else byte_count)
        in
        (case posix_read W (cp_process_fd impl) byte_count s of
           (ReadAgain, s) \<Rightarrow> (CaptureDone, acc, impl, s)
         | (ReadFail, s) \<Rightarrow> (CaptureError, acc, impl, s)
         | (GotBytes [], s) \<Rightarrow>
             let (pid, fd, s) = cpkt_audio_process_stop W (cp_process_pid impl) (cp_process_fd impl) s in
             (CaptureError, acc, impl\<lparr>cp_process_pid := pid, cp_process_fd := fd, cp_started := False\<rparr>, s)
         | (GotBytes (b # bs), s) \<Rightarrow>
             let (xs, rest) = take_frames (cap - length acc) (b # bs) in
             capture_process_loop W cap (acc @ xs) (keep_pending rest impl) s))"
  by pat_completeness auto

termination
proof (relation "measure (\<lambda>(W, cap, acc, impl, s). 2 * (cap - length acc) - (if cp_has_pending_byte impl then 1 else 0))")
qed (auto simp: keep_pending_def intro: take_frames_less)

declare capture_process_loop.simps [simp del]

text \<open>The loop of the native mode.  Copying out of the ring and the commit are two accesses.\<close>

function capture_ring_loop ::
    "'r pcm_rb \<Rightarrow> (nat \<Rightarrow> f32 list list) \<Rightarrow> nat \<Rightarrow> f32 list \<Rightarrow> 'r cpkt_audio_capture_impl \<Rightarrow> dev_state \<Rightarrow>
     f32 list \<times> 'r cpkt_audio_capture_impl \<times> dev_state" where
  "capture_ring_loop R D cap acc impl s =
     (if length acc \<ge> cap then (acc, impl, s)
      else
        let (impl, s) = device_run R D impl s;
            chunk = (if cap - length acc > 4294967295 then 4294967295 else cap - length acc);
            src = rb_acquire_read R chunk (cp_rb impl)
        in
        if src = [] then (acc, impl, s)
        else
          let (impl, s) = device_run R D impl s;
              impl = impl\<lparr>cp_rb := rb_commit_read R (length src) (cp_rb impl)\<rparr>
          in capture_ring_loop R D cap (acc @ src) impl s)"
  by pat_completeness auto
termination
  by (relation "measure (\<lambda>(R, D, cap, acc, impl, s). cap - length acc)") (auto intro: diff_less_mono2)

declare capture_ring_loop.simps [simp del]

definition cpkt_audio_capture_read_f32_mono_16k_impl ::
    "dev_world \<Rightarrow> 'r pcm_rb \<Rightarrow> (nat \<Rightarrow> f32 list list) \<Rightarrow> nat \<Rightarrow> 'r cpkt_audio_capture_impl \<Rightarrow> dev_state \<Rightarrow>
     cpkt_audio_result \<times> f32 list \<times> 'r cpkt_audio_capture_impl \<times> dev_state" where
  "cpkt_audio_capture_read_f32_mono_16k_impl W R D frame_capacity impl s =
     (if frame_capacity = 0 then (CPKT_AUDIO_OK, [], impl, s)
      else if cp_process_mode impl then
        (if \<not> cp_started impl \<or> cp_process_fd impl < 0 then (CPKT_AUDIO_OK, [], impl, s)
         else
           let (e, frames, impl, s) = capture_process_loop W frame_capacity [] impl s in
           if e = CaptureError then (CPKT_AUDIO_ERR_IO, [], impl, s)
           else if frames \<noteq> [] then
             let (r, s) = cpkt_audio_capture_emit_state impl (length frames) s in (r, frames, impl, s)
           else (CPKT_AUDIO_OK, [], impl, s))
      else
        let (frames, impl, s) = capture_ring_loop R D frame_capacity [] impl s in
        if frames \<noteq> [] then
          let (r, s) = cpkt_audio_capture_emit_state impl (length frames) s in (r, frames, impl, s)
        else (CPKT_AUDIO_OK, [], impl, s))"

text \<open>Waiting: the loops end when frames are there, on an error or when the time is over.\<close>

partial_function (option) wait_process ::
    "dev_world \<Rightarrow> nat \<Rightarrow> nat \<Rightarrow> dev_state \<Rightarrow> (cpkt_audio_result \<times> dev_state) option" where
  "wait_process W start_ms timeout_ms s =
     (let a = dw_select W (ds_tick s); s = tick s in
      if a = SelectReady then Some (CPKT_AUDIO_OK, s)
      else if a = SelectFail then Some (CPKT_AUDIO_ERR_IO, s)
      else
        let (expired, s) = cpkt_audio_wait_expired W start_ms timeout_ms s in
        if expired then Some (CPKT_AUDIO_TIMEOUT, s) else wait_process W start_ms timeout_ms s)"

declare wait_process.simps [code]

partial_function (option) wait_ring ::
    "dev_world \<Rightarrow> 'r pcm_rb \<Rightarrow> (nat \<Rightarrow> f32 list list) \<Rightarrow> nat \<Rightarrow> nat \<Rightarrow> 'r cpkt_audio_capture_impl \<Rightarrow> dev_state \<Rightarrow>
     (cpkt_audio_result \<times> 'r cpkt_audio_capture_impl \<times> dev_state) option" where
  "wait_ring W R D start_ms timeout_ms impl s =
     (let (impl, s) = device_run R D impl s in
      if rb_available_read R (cp_rb impl) > 0 then Some (CPKT_AUDIO_OK, impl, s)
      else
        let (expired, s) = cpkt_audio_wait_expired W start_ms timeout_ms s in
        if expired then Some (CPKT_AUDIO_TIMEOUT, impl, s)
        else wait_ring W R D start_ms timeout_ms impl (ev (EvSleep 5) s))"

declare wait_ring.simps [code]

definition cpkt_audio_capture_wait_ready_impl ::
    "dev_world \<Rightarrow> 'r pcm_rb \<Rightarrow> (nat \<Rightarrow> f32 list list) \<Rightarrow> nat \<Rightarrow> 'r cpkt_audio_capture_impl \<Rightarrow> dev_state \<Rightarrow>
     (cpkt_audio_result \<times> 'r cpkt_audio_capture_impl \<times> dev_state) option" where
  "cpkt_audio_capture_wait_ready_impl W R D timeout_ms impl s =
     (if \<not> cp_started impl then Some (CPKT_AUDIO_ERR_IO, impl, s)
      else
        let (start_ms, s) = cpkt_audio_process_now_ms W s in
        if cp_process_mode impl then
          (if cp_process_fd impl < 0 then Some (CPKT_AUDIO_ERR_IO, impl, s)
           else map_option (\<lambda>(r, s). (r, impl, s)) (wait_process W start_ms timeout_ms s))
        else wait_ring W R D start_ms timeout_ms impl s)"

definition arecord_argv :: "string list" where
  "arecord_argv = [''arecord'', ''-q'', ''-t'', ''raw'', ''-f'', ''S16_LE'', ''-c'', ''1'', ''-r'', ''16000'']"

text \<open>\<open>device_status\<close> is what the audio library answers to starting its device.\<close>

definition cpkt_audio_capture_start_impl ::
    "dev_world \<Rightarrow> ma_result \<Rightarrow> 'r cpkt_audio_capture_impl \<Rightarrow> dev_state \<Rightarrow>
     cpkt_audio_result \<times> 'r cpkt_audio_capture_impl \<times> dev_state" where
  "cpkt_audio_capture_start_impl W device_status impl s =
     (if cp_started impl then (CPKT_AUDIO_OK, impl, s)
      else if cp_process_mode impl then
        let (r, pid, fd, s) = cpkt_audio_process_spawn W arecord_argv False True s;
            impl = impl\<lparr>cp_process_pid := pid, cp_process_fd := fd\<rparr>
        in if r \<noteq> CPKT_AUDIO_OK then (r, impl, s) else (CPKT_AUDIO_OK, impl\<lparr>cp_started := True\<rparr>, s)
      else if device_status \<noteq> MA_SUCCESS then (cpkt_audio_from_ma_result device_status, impl, s)
      else (CPKT_AUDIO_OK, impl\<lparr>cp_started := True\<rparr>, ev EvDeviceStart s))"

definition cpkt_audio_capture_stop_impl ::
    "dev_world \<Rightarrow> 'r cpkt_audio_capture_impl \<Rightarrow> dev_state \<Rightarrow> cpkt_audio_result \<times> 'r cpkt_audio_capture_impl \<times> dev_state" where
  "cpkt_audio_capture_stop_impl W impl s =
     (if cp_process_mode impl then
        let (pid, fd, s) = cpkt_audio_process_stop W (cp_process_pid impl) (cp_process_fd impl) s in
        (CPKT_AUDIO_OK, impl\<lparr>cp_process_pid := pid, cp_process_fd := fd, cp_started := False\<rparr>, s)
      else if cp_started impl then (CPKT_AUDIO_OK, impl\<lparr>cp_started := False\<rparr>, ev EvDeviceStop s)
      else (CPKT_AUDIO_OK, impl, s))"

definition cpkt_audio_capture_destroy_impl :: "dev_world \<Rightarrow> 'r cpkt_audio_capture_impl \<Rightarrow> dev_state \<Rightarrow> dev_state" where
  "cpkt_audio_capture_destroy_impl W impl s =
     (let s = (if cp_process_mode impl
               then snd (snd (cpkt_audio_process_stop W (cp_process_pid impl) (cp_process_fd impl) s)) else s);
          s = (if cp_device_initialized impl then ev EvDeviceUninit s else s);
          s = (if cp_rb_initialized impl then ev EvRingUninit s else s)
      in ev (EvFree ''self'') (ev (EvFree ''impl'') s))"

section \<open>Backends\<close>

definition CPKT_AUDIO_DEVICE_BACKEND_AUTO :: int where "CPKT_AUDIO_DEVICE_BACKEND_AUTO = 0"
definition CPKT_AUDIO_DEVICE_BACKEND_PROCESS :: int where "CPKT_AUDIO_DEVICE_BACKEND_PROCESS = 1"
definition CPKT_AUDIO_DEVICE_BACKEND_COREAUDIO :: int where "CPKT_AUDIO_DEVICE_BACKEND_COREAUDIO = 2"
definition CPKT_AUDIO_DEVICE_BACKEND_NATIVE :: int where "CPKT_AUDIO_DEVICE_BACKEND_NATIVE = 3"

lemmas backend_codes = CPKT_AUDIO_DEVICE_BACKEND_AUTO_def CPKT_AUDIO_DEVICE_BACKEND_PROCESS_def
  CPKT_AUDIO_DEVICE_BACKEND_COREAUDIO_def CPKT_AUDIO_DEVICE_BACKEND_NATIVE_def

text \<open>
  The Linux build, whose options say whether the native backends are compiled in and whether the
  automatic choice prefers the commands.  The null backend of the audio library stands for no choice.
\<close>

record dev_build =
  native_runtime_device_io :: bool
  auto_process_device_io :: bool

datatype ma_backend = ma_backend_null | ma_backend_coreaudio

definition cpkt_audio_to_ma_backend :: "int \<Rightarrow> ma_backend" where
  "cpkt_audio_to_ma_backend backend = ma_backend_null"

definition cpkt_audio_resolve_device_backend :: "int \<Rightarrow> cpkt_audio_result \<times> ma_backend" where
  "cpkt_audio_resolve_device_backend requested =
     (if requested = CPKT_AUDIO_DEVICE_BACKEND_AUTO \<or> requested = CPKT_AUDIO_DEVICE_BACKEND_NATIVE
      then (CPKT_AUDIO_OK, ma_backend_null)
      else
        let out = cpkt_audio_to_ma_backend requested in
        if out = ma_backend_null then (CPKT_AUDIO_ERR_ARG, out) else (CPKT_AUDIO_OK, out))"

definition cpkt_audio_backend_is_process :: "dev_build \<Rightarrow> int \<Rightarrow> bool" where
  "cpkt_audio_backend_is_process build requested \<longleftrightarrow>
     requested = CPKT_AUDIO_DEVICE_BACKEND_PROCESS \<or>
     (\<not> native_runtime_device_io build \<and> requested = CPKT_AUDIO_DEVICE_BACKEND_AUTO) \<or>
     (auto_process_device_io build \<and> requested = CPKT_AUDIO_DEVICE_BACKEND_AUTO)"

definition cpkt_audio_backend_can_process :: "int \<Rightarrow> bool" where
  "cpkt_audio_backend_can_process requested \<longleftrightarrow> requested = CPKT_AUDIO_DEVICE_BACKEND_AUTO"

definition cpkt_audio_device_buffer_frames :: "nat \<Rightarrow> nat" where
  "cpkt_audio_device_buffer_frames buffer_ms =
     (let ms = (if buffer_ms \<noteq> 0 then buffer_ms else 2000);
          ms = (if ms > 268435 then 268435 else ms)
      in ms * 16)"

definition cpkt_audio_device_period_ms :: "nat \<Rightarrow> nat" where
  "cpkt_audio_device_period_ms period_ms =
     (let ms = (if period_ms \<noteq> 0 then period_ms else 20) in if ms > 1000 then 1000 else ms)"

lemma buffer_frames_fit: "cpkt_audio_device_buffer_frames ms \<le> 4294967295 \<and> 16 \<le> cpkt_audio_device_buffer_frames ms"
  by (auto simp: cpkt_audio_device_buffer_frames_def Let_def)

section \<open>Opening a capture device\<close>

record cpkt_audio_capture_config =
  cg_backend :: int
  cg_buffer_ms :: nat
  cg_period_ms :: nat
  cg_state_sink :: "(dev_event list \<Rightarrow> nat \<Rightarrow> int) option"

text \<open>
  The audio library's part of opening is an argument: the ring it makes for a number of frames, or its
  refusal, the result of initialising the device, and the zeroed memory in place of a ring.
\<close>

record 'r ma_init =
  mi_ring_zero :: 'r
  mi_ring_init :: "nat \<Rightarrow> ma_result + 'r"
  mi_device_init :: "nat \<Rightarrow> ma_result"

definition dev_calloc :: "dev_world \<Rightarrow> string \<Rightarrow> dev_state \<Rightarrow> bool \<times> dev_state" where
  "dev_calloc W name s = (if dw_alloc W (ds_tick s) then (True, ev (EvAlloc name) (tick s)) else (False, tick s))"

definition dev_free :: "string \<Rightarrow> dev_state \<Rightarrow> dev_state" where
  "dev_free name s = ev (EvFree name) s"

definition cpkt_audio_capture_alloc ::
    "dev_world \<Rightarrow> 'r ma_init \<Rightarrow> dev_state \<Rightarrow> cpkt_audio_result \<times> 'r cpkt_audio_capture_impl option \<times> dev_state" where
  "cpkt_audio_capture_alloc W M s =
     (let (ok, s) = dev_calloc W ''self'' s in
      if \<not> ok then (CPKT_AUDIO_ERR_ALLOC, None, s)
      else
        let (ok, s) = dev_calloc W ''impl'' s in
        if \<not> ok then (CPKT_AUDIO_ERR_ALLOC, None, dev_free ''self'' s)
        else (CPKT_AUDIO_OK,
              Some \<lparr>cp_rb = mi_ring_zero M, cp_state_sink = None, cp_process_pid = -1, cp_process_fd = -1,
                    cp_pending_byte = 0, cp_process_mode = False, cp_device_initialized = False,
                    cp_rb_initialized = False, cp_started = False, cp_overrun = False,
                    cp_has_pending_byte = False\<rparr>, s))"

abbreviation dev_free_both :: "dev_state \<Rightarrow> dev_state" where
  "dev_free_both s \<equiv> dev_free ''self'' (dev_free ''impl'' s)"

definition cpkt_audio_capture_open_default ::
    "dev_world \<Rightarrow> dev_build \<Rightarrow> 'r ma_init \<Rightarrow> bool \<Rightarrow> cpkt_audio_capture_config option \<Rightarrow> dev_state \<Rightarrow>
     cpkt_audio_result \<times> 'r cpkt_audio_capture_impl option \<times> dev_state" where
  "cpkt_audio_capture_open_default W build M has_out config s =
     (if \<not> has_out then (CPKT_AUDIO_ERR_ARG, None, s)
      else
        let requested_backend = (case config of None \<Rightarrow> 0 | Some c \<Rightarrow> cg_backend c);
            buffer_frames = cpkt_audio_device_buffer_frames (case config of None \<Rightarrow> 0 | Some c \<Rightarrow> cg_buffer_ms c);
            period_ms = cpkt_audio_device_period_ms (case config of None \<Rightarrow> 0 | Some c \<Rightarrow> cg_period_ms c)
        in
        if buffer_frames = 0 then (CPKT_AUDIO_ERR_ARG, None, s)
        else
          let (result, capture, s) = cpkt_audio_capture_alloc W M s in
          if result \<noteq> CPKT_AUDIO_OK then (result, None, s)
          else
            let impl = (the capture)\<lparr>cp_state_sink := (case config of None \<Rightarrow> None | Some c \<Rightarrow> cg_state_sink c)\<rparr> in
            if cpkt_audio_backend_is_process build requested_backend then
              (if \<not> cpkt_audio_process_command_exists W (Some ''arecord'')
               then (CPKT_AUDIO_ERR_IO, None, dev_free_both s)
               else (CPKT_AUDIO_OK, Some (impl\<lparr>cp_process_mode := True\<rparr>), s))
            else case mi_ring_init M buffer_frames of
              Inl status \<Rightarrow> (cpkt_audio_from_ma_result status, None, dev_free_both s)
            | Inr rb \<Rightarrow>
                let s = ev (EvRingInit buffer_frames) s;
                    impl = impl\<lparr>cp_rb := rb, cp_rb_initialized := True\<rparr>;
                    (result, backend) = cpkt_audio_resolve_device_backend requested_backend
                in
                if result \<noteq> CPKT_AUDIO_OK then (result, None, dev_free_both (ev EvRingUninit s))
                else
                  let status = mi_device_init M period_ms in
                  if status \<noteq> MA_SUCCESS then
                    (if native_runtime_device_io build \<and> cpkt_audio_backend_can_process requested_backend \<and>
                        cpkt_audio_process_command_exists W (Some ''arecord'')
                     then (CPKT_AUDIO_OK, Some (impl\<lparr>cp_rb_initialized := False, cp_process_mode := True\<rparr>),
                           ev EvRingUninit s)
                     else (cpkt_audio_from_ma_result status, None, dev_free_both (ev EvRingUninit s)))
                  else (CPKT_AUDIO_OK, Some (impl\<lparr>cp_device_initialized := True\<rparr>), ev (EvDeviceInit period_ms) s))"

section \<open>What a trace shows\<close>

definition bytes_read :: "dev_event list \<Rightarrow> byte list" where
  "bytes_read tr = concat (map (\<lambda>e. case e of EvRead fd bs \<Rightarrow> bs | _ \<Rightarrow> []) tr)"

definition bytes_written :: "dev_event list \<Rightarrow> byte list" where
  "bytes_written tr = concat (map (\<lambda>e. case e of EvWrite fd bs \<Rightarrow> bs | _ \<Rightarrow> []) tr)"

definition frames_played :: "dev_event list \<Rightarrow> f32 list" where
  "frames_played tr = concat (map (\<lambda>e. case e of EvOutput xs \<Rightarrow> xs | _ \<Rightarrow> []) tr)"

lemmas trace_views = bytes_read_def bytes_written_def frames_played_def

lemma tick_simps [simp]:
  "ds_tick (tick s) = Suc (ds_tick s)" "ds_open (tick s) = ds_open s" "ds_children (tick s) = ds_children s"
  "ds_blocked (tick s) = ds_blocked s" "ds_pending (tick s) = ds_pending s" "ds_killed (tick s) = ds_killed s"
  "ds_trace (tick s) = ds_trace s"
  by (simp_all add: tick_def)

lemma ev_simps [simp]:
  "ds_tick (ev e s) = ds_tick s" "ds_open (ev e s) = ds_open s" "ds_children (ev e s) = ds_children s"
  "ds_blocked (ev e s) = ds_blocked s" "ds_pending (ev e s) = ds_pending s" "ds_killed (ev e s) = ds_killed s"
  "ds_trace (ev e s) = ds_trace s @ [e]"
  by (simp_all add: ev_def)

lemma process_stop_reads [simp]:
  "bytes_read (ds_trace (snd (snd (cpkt_audio_process_stop W pid fd s)))) = bytes_read (ds_trace s)"
  by (simp add: cpkt_audio_process_stop_def cpkt_audio_process_close_fd_def posix_close_def posix_waitpid_def
      bytes_read_def Let_def split: prod.splits)

section \<open>The captured stream\<close>

text \<open>The frames of a byte stream, and the byte left over.\<close>

fun decode_s16 :: "byte list \<Rightarrow> f32 list \<times> byte list" where
  "decode_s16 (b0 # b1 # bs) =
     (let (xs, rest) = decode_s16 bs in (f32_of_s16 (cpkt_audio_s16le_to_short b0 b1) # xs, rest))"
| "decode_s16 bs = ([], bs)"

lemma decode_append:
  "decode_s16 (a @ b) =
     (fst (decode_s16 a) @ fst (decode_s16 (snd (decode_s16 a) @ b)), snd (decode_s16 (snd (decode_s16 a) @ b)))"
  by (induction a rule: decode_s16.induct) (auto split: prod.splits)

lemma decode_rest: "length (snd (decode_s16 bs)) \<le> 1"
  by (induction bs rule: decode_s16.induct) (auto split: prod.splits)

lemma decode_short: "length bs \<le> 1 \<Longrightarrow> decode_s16 bs = ([], bs)"
  by (cases bs rule: decode_s16.cases) auto

lemma decode_length: "length bs = 2 * length (fst (decode_s16 bs)) + length (snd (decode_s16 bs))"
  by (induction bs rule: decode_s16.induct) (auto split: prod.splits)

lemma take_frames_decode: "length bs \<le> 2 * room \<Longrightarrow> take_frames room bs = decode_s16 bs"
  by (induction room bs rule: take_frames.induct) (auto simp: decode_short split: prod.splits)

definition pending_bytes :: "'r cpkt_audio_capture_impl \<Rightarrow> byte list" where
  "pending_bytes impl = (if cp_has_pending_byte impl then [cp_pending_byte impl] else [])"

lemma pending_kept: "\<not> cp_has_pending_byte impl \<Longrightarrow> length rest \<le> 1 \<Longrightarrow> pending_bytes (keep_pending rest impl) = rest"
  by (cases rest) (auto simp: pending_bytes_def keep_pending_def)

definition stream_step ::
    "byte list \<Rightarrow> dev_state \<Rightarrow> f32 list \<Rightarrow> byte list \<Rightarrow> dev_state \<Rightarrow> bool" where
  "stream_step pend s xs pend' s' \<longleftrightarrow>
     (\<exists>bs. bytes_read (ds_trace s') = bytes_read (ds_trace s) @ bs \<and> decode_s16 (pend @ bs) = (xs, pend'))"

lemma stream_refl: "length pend \<le> 1 \<Longrightarrow> bytes_read (ds_trace s') = bytes_read (ds_trace s) \<Longrightarrow> stream_step pend s [] pend s'"
  by (simp add: stream_step_def decode_short)

lemma stream_trans:
  assumes "stream_step p s xs p' s'" "stream_step p' s' ys p'' s''"
  shows "stream_step p s (xs @ ys) p'' s''"
proof -
  obtain a b where "bytes_read (ds_trace s') = bytes_read (ds_trace s) @ a" "decode_s16 (p @ a) = (xs, p')"
    "bytes_read (ds_trace s'') = bytes_read (ds_trace s') @ b" "decode_s16 (p' @ b) = (ys, p'')"
    using assms by (auto simp: stream_step_def)
  then have "bytes_read (ds_trace s'') = bytes_read (ds_trace s) @ (a @ b)" "decode_s16 (p @ a @ b) = (xs @ ys, p'')"
    using decode_append [of "p @ a" b] by simp_all
  then show ?thesis
    unfolding stream_step_def by blast
qed

lemma pending_short: "length (pending_bytes impl) \<le> 1"
  by (simp add: pending_bytes_def)

text \<open>What one read adds to the trace.\<close>

lemma posix_read_trace:
  "posix_read W fd n s = (a, s') \<Longrightarrow>
   bytes_read (ds_trace s') = bytes_read (ds_trace s) @ (case a of GotBytes bs \<Rightarrow> bs | _ \<Rightarrow> []) \<and>
   (case a of GotBytes bs \<Rightarrow> length bs \<le> n | _ \<Rightarrow> True)"
  by (auto simp: posix_read_def bytes_read_def split: sys_read.splits)

lemma stream_pending_read:
  assumes "cp_has_pending_byte impl" "posix_read W fd 1 s = (GotBytes (b # bs), s')"
  shows "stream_step (pending_bytes impl) s [f32_of_s16 (cpkt_audio_s16le_to_short (cp_pending_byte impl) b)]
           (pending_bytes (impl\<lparr>cp_has_pending_byte := False\<rparr>)) s'"
  using posix_read_trace [OF assms(2)] assms(1)
  by (auto simp: stream_step_def pending_bytes_def)

lemma stream_chunk_read:
  assumes "\<not> cp_has_pending_byte impl" "posix_read W fd n s = (GotBytes bs, s')" "n \<le> 2 * room"
    "take_frames room bs = (xs, rest)"
  shows "stream_step (pending_bytes impl) s xs (pending_bytes (keep_pending rest impl)) s'" "length xs \<le> room"
proof -
  have bs: "bytes_read (ds_trace s') = bytes_read (ds_trace s) @ bs" "length bs \<le> n"
    using posix_read_trace [OF assms(2)] by auto
  then have d: "decode_s16 bs = (xs, rest)"
    using assms(3,4) take_frames_decode [of bs room] by simp
  then have "length rest \<le> 1"
    using decode_rest [of bs] by simp
  then show "stream_step (pending_bytes impl) s xs (pending_bytes (keep_pending rest impl)) s'"
    unfolding pending_kept [OF assms(1) \<open>length rest \<le> 1\<close>]
    using bs d assms(1) by (auto simp: stream_step_def pending_bytes_def)
  show "length xs \<le> room"
    using decode_length [of bs] d bs(2) assms(3) by simp
qed

lemma stream_no_read:
  assumes "posix_read W fd n s = (a, s')" "\<And>bs. a = GotBytes bs \<Longrightarrow> bs = []"
  shows "stream_step (pending_bytes impl) s [] (pending_bytes impl) s'"
proof (rule stream_refl [OF pending_short])
  show "bytes_read (ds_trace s') = bytes_read (ds_trace s)"
    using posix_read_trace [OF assms(1)] assms(2) by (cases a) auto
qed

definition loop_ok :: "nat \<Rightarrow> f32 list \<Rightarrow> 'r cpkt_audio_capture_impl \<Rightarrow> dev_state \<Rightarrow>
    capture_end \<times> f32 list \<times> 'r cpkt_audio_capture_impl \<times> dev_state \<Rightarrow> bool" where
  "loop_ok cap acc impl s out \<longleftrightarrow>
     (\<exists>e xs impl' s'. out = (e, acc @ xs, impl', s') \<and> length (acc @ xs) \<le> max cap (length acc) \<and>
        stream_step (pending_bytes impl) s xs (pending_bytes impl') s')"

lemma loop_ok_stop:
  "stream_step (pending_bytes impl) s [] (pending_bytes impl') s' \<Longrightarrow> loop_ok cap acc impl s (e, acc, impl', s')"
  unfolding loop_ok_def by (rule exI [of _ e], rule exI [of _ "[]"]) simp

lemma loop_ok_step:
  assumes "stream_step (pending_bytes impl) s xs (pending_bytes impl') s'" "length (acc @ xs) \<le> cap"
    "loop_ok cap (acc @ xs) impl' s' out"
  shows "loop_ok cap acc impl s out"
proof -
  obtain e ys impl'' s'' where out: "out = (e, (acc @ xs) @ ys, impl'', s'')"
      "length ((acc @ xs) @ ys) \<le> max cap (length (acc @ xs))"
      "stream_step (pending_bytes impl') s' ys (pending_bytes impl'') s''"
    using assms(3) unfolding loop_ok_def by blast
  have "length (acc @ xs @ ys) \<le> max cap (length acc)"
    using out(2) assms(2) by simp
  then show ?thesis
    unfolding loop_ok_def out(1) using stream_trans [OF assms(1) out(3)] append_assoc by blast
qed

lemma pending_other [simp]:
  "pending_bytes (impl\<lparr>cp_process_pid := p, cp_process_fd := f, cp_started := b\<rparr>) = pending_bytes impl"
  by (simp add: pending_bytes_def)

lemma loop_chunk:
  assumes "\<not> cp_has_pending_byte impl" "\<not> cap \<le> length acc"
    "n = (if sz ((cap - length acc) * 2) > process_chunk_bytes then process_chunk_bytes else sz ((cap - length acc) * 2))"
    "posix_read W fd n s = (GotBytes (b # bs), s')" "take_frames (cap - length acc) (b # bs) = (xs, rest)"
    "loop_ok cap (acc @ xs) (keep_pending rest impl) s' out"
  shows "loop_ok cap acc impl s out"
proof -
  have "n \<le> 2 * (cap - length acc)"
    using sz_le_arg [of "(cap - length acc) * 2"] assms(3) by (auto split: if_splits)
  note c = stream_chunk_read [OF assms(1,4) this assms(5)]
  show ?thesis
    by (rule loop_ok_step [OF c(1) _ assms(6)]) (use c(2) assms(2) in auto)
qed

lemma loop_eof:
  assumes "posix_read W fd n s = (GotBytes [], s')" "cpkt_audio_process_stop W pid fd' s' = (p, f, s'')"
  shows "loop_ok cap acc impl s (e, acc, impl\<lparr>cp_process_pid := p, cp_process_fd := f, cp_started := False\<rparr>, s'')"
proof -
  have "bytes_read (ds_trace s'') = bytes_read (ds_trace s)"
    using process_stop_reads [of W pid fd' s'] posix_read_trace [OF assms(1)] by (simp add: assms(2))
  then show ?thesis
    by (intro loop_ok_stop) (simp add: stream_refl [OF pending_short])
qed

lemma capture_process_loop_ok: "loop_ok cap acc impl s (capture_process_loop W cap acc impl s)"
proof (induction W cap acc impl s rule: capture_process_loop.induct)
  case (1 W cap acc impl s)
  let ?fd = "cp_process_fd impl"
  consider (full) "cap \<le> length acc" | (pending) "\<not> cap \<le> length acc" "cp_has_pending_byte impl"
    | (fresh) "\<not> cap \<le> length acc" "\<not> cp_has_pending_byte impl" by blast
  then show ?case
  proof cases
    case full
    then show ?thesis
      by (subst capture_process_loop.simps) (simp add: loop_ok_stop stream_refl [OF pending_short])
  next
    case pending
    obtain a s' where r: "posix_read W ?fd 1 s = (a, s')" by fastforce
    note stop = loop_ok_stop [OF stream_no_read [OF r]]
    note step = loop_ok_step [OF stream_pending_read [OF pending(2), of W ?fd s]]
    show ?thesis
      by (subst capture_process_loop.simps)
        (use pending r 1(1) [OF pending r [symmetric]] stop step in \<open>auto split: sys_read.splits list.splits\<close>)
  next
    case fresh
    define n where "n = (if sz ((cap - length acc) * 2) > process_chunk_bytes then process_chunk_bytes else sz ((cap - length acc) * 2))"
    obtain a s' where r: "posix_read W ?fd n s = (a, s')" by fastforce
    note stop = loop_ok_stop [OF stream_no_read [OF r]]
    note chunk = loop_chunk [OF fresh(2,1) n_def, of W ?fd s]
    show ?thesis
      by (subst capture_process_loop.simps)
        (use fresh r 1(2) [OF fresh refl n_def r [symmetric]] stop chunk in
          \<open>auto simp: Let_def n_def [symmetric] loop_eof split: sys_read.splits list.splits prod.splits\<close>)
  qed
qed

lemma process_loop_mode:
  "capture_process_loop W cap acc impl s = (e, acc', impl', s') \<Longrightarrow> cp_process_mode impl' = cp_process_mode impl"
proof (induction W cap acc impl s arbitrary: e acc' impl' s' rule: capture_process_loop.induct)
  case (1 W cap acc impl s)
  note eq = "1.prems" [unfolded capture_process_loop.simps [of W cap acc impl s]]
  show ?case
    using eq "1.IH" by (fastforce simp: Let_def keep_pending_def split: if_splits sys_read.splits list.splits prod.splits)
qed

lemma emit_state_reads:
  "cpkt_audio_capture_emit_state impl n s = (r, s') \<Longrightarrow> bytes_read (ds_trace s') = bytes_read (ds_trace s)"
  by (auto simp: cpkt_audio_capture_emit_state_def bytes_read_def Let_def split: option.splits)

lemma stream_later:
  "stream_step p s xs p' s' \<Longrightarrow> bytes_read (ds_trace s'') = bytes_read (ds_trace s') \<Longrightarrow> stream_step p s xs p' s''"
  by (simp add: stream_step_def)

lemma capture_process_read:
  assumes "cpkt_audio_capture_read_f32_mono_16k_impl W R D cap impl s = (CPKT_AUDIO_OK, frames, impl', s')"
    "cp_process_mode impl"
  shows "stream_step (pending_bytes impl) s frames (pending_bytes impl') s'" "length frames \<le> cap" "cp_process_mode impl'"
proof -
  have idle: "stream_step (pending_bytes impl) s [] (pending_bytes impl) s"
    by (rule stream_refl [OF pending_short refl])
  obtain e xs impl1 s1 where lp: "capture_process_loop W cap [] impl s = (e, xs, impl1, s1)"
    and len: "length xs \<le> cap" and st: "stream_step (pending_bytes impl) s xs (pending_bytes impl1) s1"
    using capture_process_loop_ok [of cap "[]" impl s W] by (auto simp: loop_ok_def)
  note m = process_loop_mode [OF lp]
  show "stream_step (pending_bytes impl) s frames (pending_bytes impl') s'"
    using assms idle st stream_later [OF st emit_state_reads]
    by (auto simp: cpkt_audio_capture_read_f32_mono_16k_impl_def lp Let_def split: if_splits prod.splits)
  show "length frames \<le> cap" "cp_process_mode impl'"
    using assms len m by (auto simp: cpkt_audio_capture_read_f32_mono_16k_impl_def lp Let_def split: if_splits prod.splits)
qed

text \<open>A sequence of reads with the given capacities, up to the first that fails.\<close>

fun capture_reads ::
    "dev_world \<Rightarrow> 'r pcm_rb \<Rightarrow> (nat \<Rightarrow> f32 list list) \<Rightarrow> nat list \<Rightarrow> 'r cpkt_audio_capture_impl \<Rightarrow> dev_state \<Rightarrow>
     (f32 list \<times> 'r cpkt_audio_capture_impl \<times> dev_state) option" where
  "capture_reads W R D [] impl s = Some ([], impl, s)"
| "capture_reads W R D (cap # caps) impl s =
     (let (r, frames, impl, s) = cpkt_audio_capture_read_f32_mono_16k_impl W R D cap impl s in
      if r \<noteq> CPKT_AUDIO_OK then None
      else map_option (\<lambda>(more, impl, s). (frames @ more, impl, s)) (capture_reads W R D caps impl s))"

lemma capture_reads_stream:
  "capture_reads W R D caps impl s = Some (frames, impl', s') \<Longrightarrow> cp_process_mode impl \<Longrightarrow>
   stream_step (pending_bytes impl) s frames (pending_bytes impl') s' \<and> length frames \<le> sum_list caps"
proof (induction W R D caps impl s arbitrary: frames rule: capture_reads.induct)
  case (1 W R D impl s)
  then show ?case by (simp add: stream_refl [OF pending_short])
next
  case (2 W R D cap caps impl s)
  obtain r xs impl1 s1 where rd: "cpkt_audio_capture_read_f32_mono_16k_impl W R D cap impl s = (r, xs, impl1, s1)"
    by (metis prod_cases4)
  with "2.prems"(1) obtain more where ok: "r = CPKT_AUDIO_OK"
    and rest: "capture_reads W R D caps impl1 s1 = Some (more, impl', s')" and fr: "frames = xs @ more"
    by (auto split: if_splits)
  note one = capture_process_read [OF rd [unfolded ok] "2.prems"(2)]
  have "stream_step (pending_bytes impl1) s1 more (pending_bytes impl') s' \<and> length more \<le> sum_list caps"
    using "2.IH" [OF rd [symmetric] refl refl refl _ rest one(3)] ok by simp
  then show ?case
    using stream_trans [OF one(1)] one(2) by (auto simp: fr)
qed

text \<open>
  C12: In process mode the frames that a sequence of successful reads delivers are the decoding of the
  bytes the recording command has written, in order and without a gap: however the pipe cuts the
  stream, also in the middle of a sample, and whatever the capacities are, only the last odd byte is
  kept back, and it is the pending byte.
\<close>

theorem capture_stream:
  assumes "cp_process_mode impl" "capture_reads W R D caps impl s = Some (frames, impl', s')"
  shows "\<exists>bs. bytes_read (ds_trace s') = bytes_read (ds_trace s) @ bs \<and>
    decode_s16 (pending_bytes impl @ bs) = (frames, pending_bytes impl') \<and> length frames \<le> sum_list caps"
  using capture_reads_stream [OF assms(2,1)] by (auto simp: stream_step_def)

definition quiet_world :: dev_world where
  "quiet_world =
     \<lparr>dw_path = Some ''/usr/bin'', dw_access = (\<lambda>p. p \<in> {''/usr/bin/arecord'', ''/usr/bin/aplay''}),
      dw_time = (\<lambda>t. Some (1, t * 1000)), dw_pipe = (\<lambda>t. Some (3, 4)), dw_fork = (\<lambda>t. 77), dw_devnull = (\<lambda>t. 5),
      dw_read = (\<lambda>t n. ReadAgain), dw_write = (\<lambda>t bs. Wrote (length bs)), dw_wait = (\<lambda>t. WaitExited 0),
      dw_select = (\<lambda>t. SelectOther), dw_sigset = (\<lambda>t. True), dw_sigmask = (\<lambda>t. True), dw_sigpending = (\<lambda>t. True),
      dw_alloc = (\<lambda>t. True), dw_nan_cast = 0\<rparr>"

definition dev_state0 :: dev_state where
  "dev_state0 = \<lparr>ds_tick = 0, ds_open = [], ds_children = [], ds_blocked = False, ds_pending = False,
     ds_killed = False, ds_trace = []\<rparr>"

definition recording :: "unit cpkt_audio_capture_impl" where
  "recording = \<lparr>cp_rb = (), cp_state_sink = None, cp_process_pid = 77, cp_process_fd = 3, cp_pending_byte = 0,
     cp_process_mode = True, cp_device_initialized = False, cp_rb_initialized = False, cp_started = True,
     cp_overrun = False, cp_has_pending_byte = False\<rparr>"

definition no_ring :: "unit pcm_rb" where
  "no_ring = \<lparr>rb_available_read = (\<lambda>r. 0), rb_available_write = (\<lambda>r. 0), rb_seek_read = (\<lambda>n r. r),
     rb_acquire_read = (\<lambda>n r. []), rb_commit_read = (\<lambda>n r. r), rb_acquire_write = (\<lambda>n r. 0),
     rb_commit_write = (\<lambda>xs r. r)\<rparr>"

text \<open>A pipe that delivers three bytes, then one, then nothing for now.\<close>

definition slow_pipe :: dev_world where
  "slow_pipe = quiet_world\<lparr>dw_read := (\<lambda>t n. if t = 0 then GotBytes [0, 64, 0] else if t = 1 then GotBytes [192]
     else ReadAgain)\<rparr>"

lemma take_frames_numeral [simp]:
  "take_frames (numeral k) (b0 # b1 # bs) =
     (let (xs, rest) = take_frames (pred_numeral k) bs in (f32_of_s16 (cpkt_audio_s16le_to_short b0 b1) # xs, rest))"
  "take_frames n [] = ([], [])" "take_frames n [b0] = ([], [b0])"
  by (simp_all add: numeral_eq_Suc)

lemma slow_pipe_read: "dw_read slow_pipe t n = (if t = 0 then GotBytes [0, 64, 0] else if t = 1 then GotBytes [192] else ReadAgain)"
  by (simp add: slow_pipe_def)

lemmas run_device = capture_process_loop.simps cpkt_audio_capture_read_f32_mono_16k_impl_def posix_read_def
  recording_def dev_state0_def keep_pending_def cpkt_audio_capture_emit_state_def sz_def
  bytes_read_def pending_bytes_def ev_def tick_def size_max_def

lemma slow_pipe_reads:
  "map_option (\<lambda>(frames, impl, s). (frames, pending_bytes impl, bytes_read (ds_trace s)))
     (capture_reads slow_pipe no_ring (\<lambda>t. []) [4, 4] recording dev_state0) =
     Some ([f32_of_s16 (cpkt_audio_s16le_to_short 0 64), f32_of_s16 (cpkt_audio_s16le_to_short 0 192)], [], [0, 64, 0, 192])"
  by (simp add: run_device slow_pipe_read)

theorem capture_stream_witness:
  "\<exists>frames impl' s'. cp_process_mode recording \<and>
     capture_reads slow_pipe no_ring (\<lambda>t. []) [4, 4] recording dev_state0 = Some (frames, impl', s') \<and>
     frames = [f32_of_s16 (cpkt_audio_s16le_to_short 0 64), f32_of_s16 (cpkt_audio_s16le_to_short 0 192)] \<and>
     (\<exists>bs. bytes_read (ds_trace s') = bytes_read (ds_trace dev_state0) @ bs \<and>
        decode_s16 (pending_bytes recording @ bs) = (frames, pending_bytes impl') \<and> length frames \<le> sum_list [4, 4])"
proof -
  obtain frames impl' s' where r: "capture_reads slow_pipe no_ring (\<lambda>t. []) [4, 4] recording dev_state0 = Some (frames, impl', s')"
    and f: "frames = [f32_of_s16 (cpkt_audio_s16le_to_short 0 64), f32_of_s16 (cpkt_audio_s16le_to_short 0 192)]"
    using slow_pipe_reads by (auto simp: map_option_eq_Some)
  moreover have m: "cp_process_mode recording"
    by (simp add: recording_def)
  ultimately show ?thesis
    using capture_stream [OF m r] by blast
qed

text \<open>
  An error later in the same read loses the frames read before it: two bytes have left the pipe, no
  frame is delivered, and none is kept.
\<close>

definition broken_pipe :: dev_world where
  "broken_pipe = quiet_world\<lparr>dw_read := (\<lambda>t n. if t = 0 then GotBytes [0, 64] else ReadFail)\<rparr>"

lemma broken_pipe_read: "dw_read broken_pipe t n = (if t = 0 then GotBytes [0, 64] else ReadFail)"
  by (simp add: broken_pipe_def)

lemma capture_error_loses_frames:
  "(case cpkt_audio_capture_read_f32_mono_16k_impl broken_pipe no_ring (\<lambda>t. []) 4 recording dev_state0 of
      (r, frames, impl, s) \<Rightarrow> (r, frames, pending_bytes impl, bytes_read (ds_trace s))) =
   (CPKT_AUDIO_ERR_IO, [], [], [0, 64])"
  by (simp add: run_device broken_pipe_read)

text \<open>
  Stopping and starting again keeps the pending byte: it becomes the first half of the first sample of
  the new recording.
\<close>

lemma capture_stop_keeps_pending:
  "cpkt_audio_capture_stop_impl W impl s = (r, impl', s') \<Longrightarrow> pending_bytes impl' = pending_bytes impl"
  by (auto simp: cpkt_audio_capture_stop_impl_def pending_bytes_def split: if_splits prod.splits)

lemma capture_start_keeps_pending:
  "cpkt_audio_capture_start_impl W status impl s = (r, impl', s') \<Longrightarrow> pending_bytes impl' = pending_bytes impl"
  by (auto simp: cpkt_audio_capture_start_impl_def pending_bytes_def Let_def split: if_splits prod.splits)

lemma capture_restart_misaligned:
  assumes "cpkt_audio_capture_stop_impl W impl s = (r1, impl1, s1)"
    "cpkt_audio_capture_start_impl W status impl1 s1 = (r2, impl2, s2)"
  shows "pending_bytes impl2 = pending_bytes impl"
  using capture_stop_keeps_pending [OF assms(1)] capture_start_keeps_pending [OF assms(2)] by simp

text \<open>
  At the end of the recording with a byte pending a read reports success without frames and leaves
  everything as it is, so that the next read does the same.
\<close>

lemma capture_end_unseen:
  assumes "cp_process_mode impl" "cp_started impl" "0 \<le> cp_process_fd impl" "cp_has_pending_byte impl" "0 < n"
    "dw_read W (ds_tick s) 1 = GotBytes []"
  shows "cpkt_audio_capture_read_f32_mono_16k_impl W R D n impl s =
    (CPKT_AUDIO_OK, [], impl, ev (EvRead (cp_process_fd impl) []) (tick s))"
  using assms
  by (simp add: cpkt_audio_capture_read_f32_mono_16k_impl_def capture_process_loop.simps [of W n "[]" impl s] posix_read_def)

section \<open>The ring under its contract\<close>

lemma rb_contract:
  assumes "rb_ok R q cap" "length (q r) \<le> cap"
  shows rb_avail_read: "rb_available_read R r = length (q r)"
    and rb_avail_write: "rb_available_write R r = cap - length (q r)"
    and rb_seek: "n \<le> length (q r) \<Longrightarrow> q (rb_seek_read R n r) = drop n (q r)"
    and rb_acq_read: "prefix (rb_acquire_read R n r) (q r)" "length (rb_acquire_read R n r) \<le> n"
    and rb_acq_read_some: "0 < n \<Longrightarrow> q r \<noteq> [] \<Longrightarrow> rb_acquire_read R n r \<noteq> []"
    and rb_com_read: "n \<le> length (q r) \<Longrightarrow> q (rb_commit_read R n r) = drop n (q r)"
    and rb_acq_write: "rb_acquire_write R n r \<le> n" "rb_acquire_write R n r \<le> cap - length (q r)"
    and rb_acq_write_some: "0 < n \<Longrightarrow> length (q r) < cap \<Longrightarrow> 0 < rb_acquire_write R n r"
    and rb_com_write: "length (q r) + length xs \<le> cap \<Longrightarrow> q (rb_commit_write R xs r) = q r @ xs"
  using assms unfolding rb_ok_def by simp_all

lemma capture_write_spec:
  assumes "rb_ok R q cap" "length (q (cp_rb impl)) \<le> cap"
  shows "q (cp_rb (capture_write R src impl)) = q (cp_rb impl) @ take (cap - length (q (cp_rb impl))) src \<and>
    cp_overrun (capture_write R src impl) = (cp_overrun impl \<or> length (q (cp_rb impl)) + length src > cap) \<and>
    cp_process_mode (capture_write R src impl) = cp_process_mode impl"
  using assms
proof (induction R src impl rule: capture_write.induct)
  case (1 R src impl)
  let ?q = "q (cp_rb impl)"
  let ?n = "rb_acquire_write R (length src) (cp_rb impl)"
  let ?i = "impl\<lparr>cp_rb := rb_commit_write R (take ?n src) (cp_rb impl)\<rparr>"
  note acq = rb_acq_write [OF "1.prems", of "length src"] rb_acq_write_some [OF "1.prems", of "length src"]
  show ?case
  proof (cases "src = [] \<or> ?n = 0")
    case True
    then have "src \<noteq> [] \<Longrightarrow> length ?q = cap"
      using acq(3) "1.prems"(2) by (metis le_neq_implies_less length_greater_0_conv less_irrefl)
    then show ?thesis
      using True "1.prems"(2) by (cases "src = []") (simp_all add: capture_write.simps Let_def)
  next
    case False
    have q': "q (cp_rb ?i) = ?q @ take ?n src"
      using rb_com_write [OF "1.prems", of "take ?n src"] acq(1,2) "1.prems"(2) by simp
    then have "length (q (cp_rb ?i)) \<le> cap"
      using acq(1,2) "1.prems"(2) by simp
    from "1.IH" [OF _ refl _ "1.prems"(1) this] False
    have ih: "q (cp_rb (capture_write R (drop ?n src) ?i)) = q (cp_rb ?i) @ take (cap - length (q (cp_rb ?i))) (drop ?n src) \<and>
      cp_overrun (capture_write R (drop ?n src) ?i) = (cp_overrun impl \<or> length (q (cp_rb ?i)) + length (drop ?n src) > cap) \<and>
      cp_process_mode (capture_write R (drop ?n src) ?i) = cp_process_mode impl"
      by simp
    have "take ?n src @ take (cap - (length ?q + ?n)) (drop ?n src) = take (cap - length ?q) src"
      using acq(2) by (metis add.commute diff_diff_left le_add_diff_inverse take_add)
    then show ?thesis
      using ih False acq(1,2) by (simp add: capture_write.simps [of R src impl] Let_def q' [simplified] min_def)
  qed
qed

lemma capture_callback_spec:
  assumes "rb_ok R q cap" "length (q (cp_rb impl)) \<le> cap"
  shows "q (cp_rb (cpkt_audio_capture_callback R input impl)) =
      drop (length (q (cp_rb impl)) + length input - cap) (q (cp_rb impl)) @ take cap input \<and>
    cp_overrun (cpkt_audio_capture_callback R input impl) =
      (cp_overrun impl \<or> length (q (cp_rb impl)) + length input > cap) \<and>
    cp_process_mode (cpkt_audio_capture_callback R input impl) = cp_process_mode impl"
proof -
  let ?q = "q (cp_rb impl)"
  define k where "k = min (length ?q + length input - cap) (length ?q)"
  define i where "i = (if k > 0 then impl\<lparr>cp_rb := rb_seek_read R k (cp_rb impl), cp_overrun := True\<rparr> else impl)"
  note r = rb_avail_read [OF assms] rb_avail_write [OF assms] rb_seek [OF assms]
  have qi: "q (cp_rb i) = drop k ?q" and oi: "cp_overrun i = (cp_overrun impl \<or> k > 0)"
      "cp_process_mode i = cp_process_mode impl"
    using r(3) [of k] by (auto simp: i_def k_def)
  have li: "length (q (cp_rb i)) \<le> cap"
    using assms(2) by (simp add: qi)
  have call: "cpkt_audio_capture_callback R input impl = (if input = [] then impl else capture_write R input i)"
    using assms(2) by (auto simp: cpkt_audio_capture_callback_def i_def k_def r(1,2) Let_def min_def add.commute)
  have dk: "drop k ?q = drop (length ?q + length input - cap) ?q"
    by (simp add: k_def min_def)
  show ?thesis
  proof (cases "input = []")
    case True
    then show ?thesis using assms(2) by (simp add: cpkt_audio_capture_callback_def)
  next
    case False
    have "take (cap - length (drop k ?q)) input = take cap input"
      using assms(2) by (auto simp: k_def min_def)
    moreover have "(k > 0 \<or> length (drop k ?q) + length input > cap) = (length ?q + length input > cap)"
      using assms(2) by (auto simp: k_def min_def)
    ultimately show ?thesis
      using capture_write_spec [OF assms(1) li, of input] False unfolding call qi oi dk by auto
  qed
qed

text \<open>
  C37: What the capture callback leaves in the ring: with input no longer than the ring, the most recent
  frames that fit, and the overrun flag says whether any were lost.  Of longer input the beginning is
  kept, not the end.
\<close>

theorem capture_keeps_recent:
  assumes "rb_ok R q cap" "length (q (cp_rb impl)) \<le> cap"
    "all = q (cp_rb impl) @ input" "impl' = cpkt_audio_capture_callback R input impl"
  shows "q (cp_rb impl') = (if length input \<le> cap then drop (length all - cap) all else take cap input) \<and>
    cp_overrun impl' = (cp_overrun impl \<or> length all > cap) \<and> length (q (cp_rb impl')) = min cap (length all)"
  using capture_callback_spec [OF assms(1,2), of input] assms(2) by (auto simp: assms(3,4))

text \<open>A ring of four frames that hands out at most three at a time.\<close>

definition list_ring :: "f32 list pcm_rb" where
  "list_ring = \<lparr>rb_available_read = length, rb_available_write = (\<lambda>r. 4 - length r), rb_seek_read = drop,
     rb_acquire_read = (\<lambda>n r. take (min n 3) r), rb_commit_read = drop,
     rb_acquire_write = (\<lambda>n r. min (min n 3) (4 - length r)), rb_commit_write = (\<lambda>xs r. r @ xs)\<rparr>"

lemma list_ring_ok: "rb_ok list_ring id 4"
  by (auto simp: rb_ok_def list_ring_def take_is_prefix)

definition native_capture :: "f32 list cpkt_audio_capture_impl" where
  "native_capture = \<lparr>cp_rb = [1, 2, 3], cp_state_sink = None, cp_process_pid = -1, cp_process_fd = -1,
     cp_pending_byte = 0, cp_process_mode = False, cp_device_initialized = True, cp_rb_initialized = True,
     cp_started = True, cp_overrun = False, cp_has_pending_byte = False\<rparr>"

theorem capture_keeps_recent_witness:
  "rb_ok list_ring id 4 \<and> length (cp_rb native_capture) \<le> 4 \<and>
   cp_rb (cpkt_audio_capture_callback list_ring [4, 5] native_capture) = [2, 3, 4, 5] \<and>
   cp_overrun (cpkt_audio_capture_callback list_ring [4, 5] native_capture)"
  using capture_keeps_recent [OF list_ring_ok, where impl = native_capture and input = "[4, 5]", OF _ refl refl] list_ring_ok
  by (simp add: native_capture_def)

section \<open>Reading the ring\<close>

definition delivered :: "(nat \<Rightarrow> f32 list list) \<Rightarrow> nat \<Rightarrow> nat \<Rightarrow> f32 list" where
  "delivered D a b = concat (concat (map D [a..<b]))"

lemma delivered_trans: "a \<le> b \<Longrightarrow> b \<le> c \<Longrightarrow> delivered D a c = delivered D a b @ delivered D b c"
  using upt_add_eq_append [of a b "c - b"] by (simp add: delivered_def)

lemma delivered_same [simp]: "delivered D a a = []"
  by (simp add: delivered_def)

lemma delivered_Suc [simp]: "delivered D a (Suc a) = concat (D a)"
  by (simp add: delivered_def)

text \<open>
  From one state of the ring and the clock to another: the ring stays within its bounds, and as long
  as no overrun is flagged, the frames taken and the frames left are those there were and those
  delivered since.
\<close>

definition fifo_step ::
    "('r \<Rightarrow> f32 list) \<Rightarrow> nat \<Rightarrow> (nat \<Rightarrow> f32 list list) \<Rightarrow> 'r cpkt_audio_capture_impl \<Rightarrow> dev_state \<Rightarrow> f32 list \<Rightarrow>
     'r cpkt_audio_capture_impl \<Rightarrow> dev_state \<Rightarrow> bool" where
  "fifo_step q cap D impl s xs impl' s' \<longleftrightarrow>
     length (q (cp_rb impl')) \<le> cap \<and> ds_tick s \<le> ds_tick s' \<and> cp_process_mode impl' = cp_process_mode impl \<and>
     (cp_overrun impl \<longrightarrow> cp_overrun impl') \<and>
     (\<not> cp_overrun impl' \<longrightarrow> xs @ q (cp_rb impl') = q (cp_rb impl) @ delivered D (ds_tick s) (ds_tick s'))"

lemma fifo_trans:
  assumes "fifo_step q cap D impl s xs impl1 s1" "fifo_step q cap D impl1 s1 ys impl2 s2"
  shows "fifo_step q cap D impl s (xs @ ys) impl2 s2"
  using assms delivered_trans [of "ds_tick s" "ds_tick s1" "ds_tick s2" D]
  unfolding fifo_step_def by auto

lemma callbacks_fifo:
  assumes "rb_ok R q cap" "length (q (cp_rb impl)) \<le> cap" "impl' = fold (cpkt_audio_capture_callback R) ins impl"
  shows "length (q (cp_rb impl)) \<le> length (q (cp_rb impl')) \<and> length (q (cp_rb impl')) \<le> cap \<and> cp_process_mode impl' = cp_process_mode impl \<and>
    (cp_overrun impl \<longrightarrow> cp_overrun impl') \<and>
    (\<not> cp_overrun impl' \<longrightarrow> q (cp_rb impl') = q (cp_rb impl) @ concat ins)"
  unfolding assms(3) using assms(2)
proof (induction ins arbitrary: impl)
  case (Cons i ins)
  let ?impl = "cpkt_audio_capture_callback R i impl"
  note one = capture_callback_spec [OF assms(1) Cons.prems, of i]
  have len: "length (q (cp_rb ?impl)) \<le> cap" "length (q (cp_rb impl)) \<le> length (q (cp_rb ?impl))"
    using one Cons.prems by auto
  note ih = Cons.IH [OF len(1)]
  show ?case
    using ih one len by auto
qed simp

lemma device_run_fifo:
  assumes "rb_ok R q cap" "length (q (cp_rb impl)) \<le> cap" "device_run R D impl s = (impl', s')"
  shows "fifo_step q cap D impl s [] impl' s'" "length (q (cp_rb impl)) \<le> length (q (cp_rb impl'))"
  using callbacks_fifo [OF assms(1,2) refl, of "D (ds_tick s)"] assms(3)
  by (auto simp: fifo_step_def device_run_def)

lemma commit_fifo:
  assumes "rb_ok R q cap" "length (q (cp_rb impl)) \<le> cap" "prefix src (q (cp_rb impl))"
    "device_run R D impl s = (impl1, s1)"
  shows "fifo_step q cap D impl s src (impl1\<lparr>cp_rb := rb_commit_read R (length src) (cp_rb impl1)\<rparr>) s1"
proof -
  note run = device_run_fifo [OF assms(1,2,4)]
  have l1: "length (q (cp_rb impl1)) \<le> cap"
    using run(1) by (simp add: fifo_step_def)
  have "length src \<le> length (q (cp_rb impl1))"
    using prefix_length_le [OF assms(3)] run(2) by simp
  from rb_com_read [OF assms(1) l1 this] l1
  have c: "q (rb_commit_read R (length src) (cp_rb impl1)) = drop (length src) (q (cp_rb impl1))"
      "length (drop (length src) (q (cp_rb impl1))) \<le> cap"
    by auto
  obtain zs where "q (cp_rb impl) = src @ zs"
    using assms(3) by (auto elim: prefixE)
  then show ?thesis
    using run(1) c by (auto simp: fifo_step_def)
qed

lemma capture_ring_loop_fifo:
  assumes "rb_ok R q cap" "length (q (cp_rb impl)) \<le> cap" "capture_ring_loop R D n acc impl s = (acc', impl', s')"
    "length acc \<le> n"
  shows "\<exists>xs. acc' = acc @ xs \<and> fifo_step q cap D impl s xs impl' s' \<and> length acc' \<le> n \<and>
    (length acc' < n \<longrightarrow> q (cp_rb impl') = [])"
  using assms
proof (induction R D n acc impl s rule: capture_ring_loop.induct)
  case (1 R D n acc impl s)
  note ok = "1.prems"(1)
  obtain impl1 s1 where run: "device_run R D impl s = (impl1, s1)" by fastforce
  define chunk where "chunk = (if n - length acc > 4294967295 then 4294967295 else n - length acc)"
  define src where "src = rb_acquire_read R chunk (cp_rb impl1)"
  obtain impl2 s2 where run2: "device_run R D impl1 s1 = (impl2, s2)" by fastforce
  define impl3 where "impl3 = impl2\<lparr>cp_rb := rb_commit_read R (length src) (cp_rb impl2)\<rparr>"
  note f1 = device_run_fifo(1) [OF ok "1.prems"(2) run]
  have l1: "length (q (cp_rb impl1)) \<le> cap"
    using f1 by (simp add: fifo_step_def)
  note acq = rb_acq_read [OF ok l1, of chunk, folded src_def] rb_acq_read_some [OF ok l1, of chunk, folded src_def]
  have body: "capture_ring_loop R D n acc impl s =
      (if length acc \<ge> n then (acc, impl, s) else if src = [] then (acc, impl1, s1)
       else capture_ring_loop R D n (acc @ src) impl3 s2)"
    by (subst capture_ring_loop.simps) (simp add: run run2 Let_def chunk_def [symmetric] src_def [symmetric] impl3_def)
  consider (full) "length acc \<ge> n" | (dry) "length acc < n" "src = []" | (more) "\<not> length acc \<ge> n" "src \<noteq> []" by linarith
  then show ?case
  proof cases
    case full
    then show ?thesis using "1.prems" body by (simp add: fifo_step_def)
  next
    case dry
    then have "0 < chunk" by (simp add: chunk_def)
    then show ?thesis using dry acq(3) "1.prems"(3,4) body f1 by auto
  next
    case more
    have f2: "fifo_step q cap D impl s src impl3 s2"
      using fifo_trans [OF f1 commit_fifo [OF ok l1 acq(1) run2]] by (simp add: impl3_def)
    have "length (acc @ src) \<le> n"
      using acq(2) more(1) by (auto simp: chunk_def split: if_splits)
    moreover have "length (q (cp_rb impl3)) \<le> cap"
      using f2 by (simp add: fifo_step_def)
    ultimately obtain ys where ys: "acc' = (acc @ src) @ ys" "fifo_step q cap D impl3 s2 ys impl' s'"
        "length acc' \<le> n" "length acc' < n \<longrightarrow> q (cp_rb impl') = []"
      using "1.IH" [OF more(1) refl run [symmetric] chunk_def src_def more(2) refl run2 [symmetric] impl3_def ok]
        "1.prems"(3) more body by auto
    then show ?thesis
      using fifo_trans [OF f2 ys(2)] by auto
  qed
qed

lemma emit_state_tick:
  "cpkt_audio_capture_emit_state impl n s = (r, s') \<Longrightarrow> ds_tick s' = ds_tick s"
  by (auto simp: cpkt_audio_capture_emit_state_def Let_def split: option.splits)

lemma fifo_later: "fifo_step q cap D impl s xs impl' s' \<Longrightarrow> ds_tick s'' = ds_tick s' \<Longrightarrow> fifo_step q cap D impl s xs impl' s''"
  by (simp add: fifo_step_def)

lemma fifo_refl: "length (q (cp_rb impl)) \<le> cap \<Longrightarrow> fifo_step q cap D impl s [] impl s"
  by (simp add: fifo_step_def)

lemma capture_native_read:
  assumes "rb_ok R q cap" "length (q (cp_rb impl)) \<le> cap" "\<not> cp_process_mode impl"
    "cpkt_audio_capture_read_f32_mono_16k_impl W R D n impl s = (r, frames, impl', s')"
  shows "fifo_step q cap D impl s frames impl' s' \<and> length frames \<le> n \<and> (length frames < n \<longrightarrow> q (cp_rb impl') = [])"
proof (cases "n = 0")
  case True
  then show ?thesis
    using assms by (simp add: cpkt_audio_capture_read_f32_mono_16k_impl_def fifo_refl)
next
  case False
  obtain xs impl1 s1 where lp: "capture_ring_loop R D n [] impl s = (xs, impl1, s1)"
    by (metis prod_cases3)
  have sp: "fifo_step q cap D impl s xs impl1 s1 \<and> length xs \<le> n \<and> (length xs < n \<longrightarrow> q (cp_rb impl1) = [])"
    using capture_ring_loop_fifo [OF assms(1,2) lp] by auto
  have "frames = xs" "impl' = impl1" "ds_tick s' = ds_tick s1"
    using assms(3,4) False
    by (auto simp: cpkt_audio_capture_read_f32_mono_16k_impl_def lp emit_state_tick split: if_splits prod.splits)
  then show ?thesis
    using sp fifo_later by blast
qed

lemma capture_reads_fifo:
  "rb_ok R q cap \<Longrightarrow> length (q (cp_rb impl)) \<le> cap \<Longrightarrow> \<not> cp_process_mode impl \<Longrightarrow>
   capture_reads W R D caps impl s = Some (frames, impl', s') \<Longrightarrow> fifo_step q cap D impl s frames impl' s'"
proof (induction W R D caps impl s arbitrary: frames rule: capture_reads.induct)
  case (1 W R D impl s)
  then show ?case by (simp add: fifo_refl)
next
  case (2 W R D n caps impl s)
  obtain r xs impl1 s1 where rd: "cpkt_audio_capture_read_f32_mono_16k_impl W R D n impl s = (r, xs, impl1, s1)"
    by (metis prod_cases4)
  with "2.prems"(4) obtain more where ok: "r = CPKT_AUDIO_OK"
    and rest: "capture_reads W R D caps impl1 s1 = Some (more, impl', s')" and fr: "frames = xs @ more"
    by (auto split: if_splits)
  have one: "fifo_step q cap D impl s xs impl1 s1"
    using capture_native_read [OF "2.prems"(1-3) rd] by simp
  then have "fifo_step q cap D impl1 s1 more impl' s'"
    using "2.IH" [OF rd [symmetric] refl refl refl _ "2.prems"(1) _ _ rest] ok "2.prems"(3) by (simp add: fifo_step_def)
  then show ?case
    unfolding fr by (rule fifo_trans [OF one])
qed

text \<open>
  C13: In native mode reads deliver the frames of the device in order and without a gap, for every
  interleaving of the device's callbacks with the accesses of the reader, as long as the overrun flag
  is not set: what was read and what the ring still holds are what it held and what the device has
  delivered since.  The ring never holds more than its capacity.
\<close>

theorem capture_fifo:
  assumes "rb_ok R q cap" "length (q (cp_rb impl)) \<le> cap" "\<not> cp_process_mode impl"
    "capture_reads W R D caps impl s = Some (frames, impl', s')" "\<not> cp_overrun impl'"
  shows "frames @ q (cp_rb impl') = q (cp_rb impl) @ delivered D (ds_tick s) (ds_tick s') \<and>
    length (q (cp_rb impl')) \<le> cap"
  using capture_reads_fifo [OF assms(1-4)] assms(5) by (simp add: fifo_step_def)

text \<open>The device delivers a frame while the reader copies.\<close>

definition late_frame :: "nat \<Rightarrow> f32 list list" where
  "late_frame t = (if t = 1 then [[9]] else [])"

lemma list_ring_ops [simp]:
  "rb_available_read list_ring r = length r" "rb_available_write list_ring r = 4 - length r"
  "rb_seek_read list_ring n r = drop n r" "rb_acquire_read list_ring n r = take (min n 3) r"
  "rb_commit_read list_ring n r = drop n r" "rb_acquire_write list_ring n r = min (min n 3) (4 - length r)"
  "rb_commit_write list_ring xs r = r @ xs"
  by (simp_all add: list_ring_def)

lemma native_reads:
  "map_option (\<lambda>(frames, impl, s). (frames, cp_rb impl, cp_overrun impl, ds_tick s))
     (capture_reads quiet_world list_ring late_frame [2, 3] native_capture dev_state0) =
     Some ([1, 2, 3, 9], [], False, 5)"
  by (simp add: capture_ring_loop.simps cpkt_audio_capture_read_f32_mono_16k_impl_def device_run_def late_frame_def
      cpkt_audio_capture_callback_def capture_write.simps cpkt_audio_capture_emit_state_def tick_def
      native_capture_def dev_state0_def min_def)

theorem capture_fifo_witness:
  "\<exists>impl' s'. rb_ok list_ring id 4 \<and>
     capture_reads quiet_world list_ring late_frame [2, 3] native_capture dev_state0 = Some ([1, 2, 3, 9], impl', s') \<and>
     \<not> cp_overrun impl' \<and> [1, 2, 3, 9] @ cp_rb impl' = cp_rb native_capture @ delivered late_frame 0 (ds_tick s')"
proof -
  obtain impl' s' where r: "capture_reads quiet_world list_ring late_frame [2, 3] native_capture dev_state0 =
      Some ([1, 2, 3, 9], impl', s')" and o: "\<not> cp_overrun impl'"
    using native_reads by (auto simp: map_option_eq_Some)
  have "length (id (cp_rb native_capture)) \<le> 4" "\<not> cp_process_mode native_capture"
    by (simp_all add: native_capture_def)
  from capture_fifo [OF list_ring_ok this r o] r o list_ring_ok show ?thesis
    by (auto simp: dev_state0_def)
qed

end
