(* ===== verification/Audio_Playback.thy ===== *)
theory Audio_Playback
  imports Audio_Capture
begin

text \<open>
  Playback (\<^verbatim>\<open>struct cpkt_audio_playback_impl\<close> of \<^verbatim>\<open>src/audio.c\<close>), into the playback command or through
  the ring of the device library.  The schedule \<open>P\<close> gives the numbers of frames the device asks for
  between the accesses of the caller.

  The loops that wait for the pipe, the ring or the device are partial functions, and that they return
  is proved where it holds: \<open>playback_write_bytes_returns\<close> when interruptions cease,
  \<open>playback_ring_loop_ok\<close> and \<open>drain_ring_spec\<close> when the device keeps asking.  \<open>served\<close> and \<open>asked\<close> say
  exactly what a request does to the ring.
\<close>

section \<open>Playback\<close>

record 'r cpkt_audio_playback_impl =
  pb_rb :: 'r
  pb_process_pid :: int
  pb_process_fd :: int
  pb_pending_frames :: nat
  pb_turn_frames_written :: nat
  pb_turn_started_ms :: nat
  pb_drain_latency_ms :: nat
  pb_process_mode :: bool
  pb_device_initialized :: bool
  pb_rb_initialized :: bool
  pb_started :: bool
  pb_underrun :: bool

text \<open>
  The device asks for \<open>remaining\<close> frames and takes what the ring gives; the rest is silence.
\<close>

function playback_take ::
    "'r pcm_rb \<Rightarrow> nat \<Rightarrow> 'r cpkt_audio_playback_impl \<Rightarrow> f32 list \<times> 'r cpkt_audio_playback_impl" where
  "playback_take R remaining impl =
     (if remaining = 0 then ([], impl)
      else
        let src = rb_acquire_read R remaining (pb_rb impl); chunk = length src in
        if src = [] then (replicate remaining 0, impl\<lparr>pb_underrun := True\<rparr>)
        else
          let impl = impl\<lparr>pb_rb := rb_commit_read R chunk (pb_rb impl)\<rparr>;
              impl = (if pb_pending_frames impl \<ge> chunk
                      then impl\<lparr>pb_pending_frames := pb_pending_frames impl - chunk\<rparr>
                      else impl\<lparr>pb_pending_frames := 0\<rparr>);
              (out, impl) = playback_take R (remaining - chunk) impl
          in (src @ out, impl))"
  by pat_completeness auto
termination
  by (relation "measure (\<lambda>(R, remaining, impl). remaining)") (auto simp: Let_def)

declare playback_take.simps [simp del]

definition cpkt_audio_playback_callback ::
    "'r pcm_rb \<Rightarrow> nat \<Rightarrow> 'r cpkt_audio_playback_impl \<Rightarrow> f32 list \<times> 'r cpkt_audio_playback_impl" where
  "cpkt_audio_playback_callback R frame_count impl =
     (if frame_count = 0 then ([], impl) else playback_take R frame_count impl)"

text \<open>
  The device thread: the argument \<open>P\<close> gives the numbers of frames the device has asked for before an
  access of the caller's thread, by the number of the access.
\<close>

fun playback_serve ::
    "'r pcm_rb \<Rightarrow> nat list \<Rightarrow> 'r cpkt_audio_playback_impl \<Rightarrow> dev_state \<Rightarrow>
     'r cpkt_audio_playback_impl \<times> dev_state" where
  "playback_serve R [] impl s = (impl, s)"
| "playback_serve R (n # ns) impl s =
     (let (out, impl) = cpkt_audio_playback_callback R n impl in
      playback_serve R ns impl (ev (EvOutput out) s))"

definition playback_run ::
    "'r pcm_rb \<Rightarrow> (nat \<Rightarrow> nat list) \<Rightarrow> 'r cpkt_audio_playback_impl \<Rightarrow> dev_state \<Rightarrow>
     'r cpkt_audio_playback_impl \<times> dev_state" where
  "playback_run R P impl s = playback_serve R (P (ds_tick s)) impl (tick s)"

definition cpkt_audio_playback_start_impl ::
    "ma_result \<Rightarrow> 'r cpkt_audio_playback_impl \<Rightarrow> dev_state \<Rightarrow>
     cpkt_audio_result \<times> 'r cpkt_audio_playback_impl \<times> dev_state" where
  "cpkt_audio_playback_start_impl device_status impl s =
     (if pb_started impl then (CPKT_AUDIO_OK, impl, s)
      else if pb_process_mode impl
      then (CPKT_AUDIO_OK, impl\<lparr>pb_started := True, pb_turn_frames_written := 0, pb_turn_started_ms := 0\<rparr>, s)
      else if device_status \<noteq> MA_SUCCESS then (cpkt_audio_from_ma_result device_status, impl, s)
      else (CPKT_AUDIO_OK,
            impl\<lparr>pb_started := True, pb_pending_frames := 0, pb_turn_frames_written := 0, pb_turn_started_ms := 0\<rparr>,
            ev EvDeviceStart s))"

definition cpkt_audio_playback_note_written ::
    "dev_world \<Rightarrow> nat \<Rightarrow> 'r cpkt_audio_playback_impl \<Rightarrow> dev_state \<Rightarrow> 'r cpkt_audio_playback_impl \<times> dev_state" where
  "cpkt_audio_playback_note_written W frame_count impl s =
     (if frame_count = 0 then (impl, s)
      else
        let (impl, s) =
              (if pb_turn_frames_written impl = 0 then
                 let (now_ms, s) = cpkt_audio_process_now_ms W s in (impl\<lparr>pb_turn_started_ms := now_ms\<rparr>, s)
               else (impl, s))
        in (impl\<lparr>pb_turn_frames_written := sz (pb_turn_frames_written impl + frame_count)\<rparr>, s))"

definition cpkt_audio_playback_wait_turn_elapsed ::
    "dev_world \<Rightarrow> nat \<Rightarrow> 'r cpkt_audio_playback_impl \<Rightarrow> dev_state \<Rightarrow> 'r cpkt_audio_playback_impl \<times> dev_state" where
  "cpkt_audio_playback_wait_turn_elapsed W extra_ms impl s =
     (if pb_turn_frames_written impl = 0 then (impl, s)
      else
        let frames_written = pb_turn_frames_written impl;
            started_ms = pb_turn_started_ms impl;
            impl = impl\<lparr>pb_turn_frames_written := 0, pb_turn_started_ms := 0\<rparr>
        in
        if started_ms = 0 then (impl, s)
        else
          let target_ms = sz (sz (frames_written * 1000) div 16000 + extra_ms) in
          if target_ms = 0 then (impl, s)
          else
            let (now_ms, s) = cpkt_audio_process_now_ms W s in
            case cpkt_audio_process_elapsed_ms now_ms started_ms of
              None \<Rightarrow> (impl, s)
            | Some elapsed_ms \<Rightarrow>
                if elapsed_ms \<ge> target_ms then (impl, s)
                else (impl, ev (EvSleep ((target_ms - elapsed_ms) mod 2 ^ 32)) s))"

section \<open>Writing\<close>

definition aplay_argv :: "string list" where
  "aplay_argv = [''aplay'', ''-q'', ''-t'', ''raw'', ''-f'', ''S16_LE'', ''-c'', ''1'', ''-r'', ''16000'']"

definition frame_bytes :: "16 word \<Rightarrow> f32 \<Rightarrow> byte list" where
  "frame_bytes nan_cast x =
     (let (b0, b1) = cpkt_audio_short_to_s16le (cpkt_audio_float_to_s16 nan_cast x) in [b0, b1])"

definition frames_to_bytes :: "16 word \<Rightarrow> f32 list \<Rightarrow> byte list" where
  "frames_to_bytes nan_cast xs = concat (map (frame_bytes nan_cast) xs)"

text \<open>The bytes of a chunk are written until the pipe has taken all; an interrupted write is repeated.\<close>

partial_function (option) playback_write_bytes ::
    "dev_world \<Rightarrow> int \<Rightarrow> byte list \<Rightarrow> dev_state \<Rightarrow> (bool \<times> dev_state) option" where
  "playback_write_bytes W fd bs s =
     (if bs = [] then Some (True, s)
      else case cpkt_audio_process_write W fd bs s of
        (WriteIntr, s) \<Rightarrow> playback_write_bytes W fd bs s
      | (WritePipe, s) \<Rightarrow> Some (False, s)
      | (WriteFail, s) \<Rightarrow> Some (False, s)
      | (Wrote n, s) \<Rightarrow> if n = 0 then Some (False, s) else playback_write_bytes W fd (drop n bs) s)"

declare playback_write_bytes.simps [code]

abbreviation process_frame_chunk :: nat where "process_frame_chunk \<equiv> 1024"

function playback_process_loop ::
    "dev_world \<Rightarrow> int \<Rightarrow> f32 list \<Rightarrow> dev_state \<Rightarrow> (bool \<times> dev_state) option" where
  "playback_process_loop W fd frames s =
     (if frames = [] then Some (True, s)
      else
        let frames_now = (if length frames > process_frame_chunk then process_frame_chunk else length frames) in
        case playback_write_bytes W fd (frames_to_bytes (dw_nan_cast W) (take frames_now frames)) s of
          None \<Rightarrow> None
        | Some (ok, s) \<Rightarrow> if \<not> ok then Some (False, s) else playback_process_loop W fd (drop frames_now frames) s)"
  by pat_completeness auto
termination
  by (relation "measure (\<lambda>(W, fd, frames, s). length frames)") auto

declare playback_process_loop.simps [simp del]

text \<open>
  In the native mode the commit and the addition to \<open>pending_frames\<close> are two accesses, and the device
  may ask for frames between them.
\<close>

partial_function (option) playback_ring_loop ::
    "'r pcm_rb \<Rightarrow> (nat \<Rightarrow> nat list) \<Rightarrow> f32 list \<Rightarrow> 'r cpkt_audio_playback_impl \<Rightarrow> dev_state \<Rightarrow>
     ('r cpkt_audio_playback_impl \<times> dev_state) option" where
  "playback_ring_loop R asks frames impl s =
     (if frames = [] then Some (impl, s)
      else
        let (impl, s) = playback_run R asks impl s;
            chunk = (if length frames > 4294967295 then 4294967295 else length frames);
            chunk = rb_acquire_write R chunk (pb_rb impl)
        in
        if chunk = 0 then playback_ring_loop R asks frames impl (ev (EvSleep 5) s)
        else
          let impl = impl\<lparr>pb_rb := rb_commit_write R (take chunk frames) (pb_rb impl)\<rparr>;
              (impl, s) = playback_run R asks impl s;
              impl = impl\<lparr>pb_pending_frames := sz (pb_pending_frames impl + chunk)\<rparr>
          in playback_ring_loop R asks (drop chunk frames) impl s)"

declare playback_ring_loop.simps [code]

definition cpkt_audio_playback_write_f32_mono_16k_impl ::
    "dev_world \<Rightarrow> 'r pcm_rb \<Rightarrow> (nat \<Rightarrow> nat list) \<Rightarrow> f32 list \<Rightarrow> 'r cpkt_audio_playback_impl \<Rightarrow> dev_state \<Rightarrow>
     (cpkt_audio_result \<times> nat \<times> 'r cpkt_audio_playback_impl \<times> dev_state) option" where
  "cpkt_audio_playback_write_f32_mono_16k_impl W R P frames impl s =
     (if frames = [] then Some (CPKT_AUDIO_OK, 0, impl, s)
      else if pb_process_mode impl then
        (if \<not> pb_started impl then Some (CPKT_AUDIO_ERR_IO, 0, impl, s)
         else
           let (r, impl, s) =
                 (if pb_process_fd impl < 0 then
                    let (r, pid, fd, s) = cpkt_audio_process_spawn W aplay_argv True False s
                    in (r, impl\<lparr>pb_process_pid := pid, pb_process_fd := fd\<rparr>, s)
                  else (CPKT_AUDIO_OK, impl, s))
           in
           if r \<noteq> CPKT_AUDIO_OK then Some (r, 0, impl, s)
           else if pb_process_fd impl < 0 then Some (CPKT_AUDIO_ERR_IO, 0, impl, s)
           else case playback_process_loop W (pb_process_fd impl) frames s of
             None \<Rightarrow> None
           | Some (ok, s) \<Rightarrow>
               if \<not> ok then Some (CPKT_AUDIO_ERR_IO, 0, impl, s)
               else
                 let (impl, s) = cpkt_audio_playback_note_written W (length frames) impl s
                 in Some (CPKT_AUDIO_OK, length frames, impl, s))
      else if \<not> pb_started impl then Some (CPKT_AUDIO_ERR_IO, 0, impl, s)
      else case playback_ring_loop R P frames impl s of
        None \<Rightarrow> None
      | Some (impl, s) \<Rightarrow>
          let (impl, s) = cpkt_audio_playback_note_written W (length frames) impl s
          in Some (CPKT_AUDIO_OK, length frames, impl, s))"

section \<open>Draining and closing\<close>

partial_function (option) drain_ring ::
    "'r pcm_rb \<Rightarrow> (nat \<Rightarrow> nat list) \<Rightarrow> 'r cpkt_audio_playback_impl \<Rightarrow> dev_state \<Rightarrow>
     ('r cpkt_audio_playback_impl \<times> dev_state) option" where
  "drain_ring R asks impl s =
     (let (impl, s) = playback_run R asks impl s in
      if rb_available_read R (pb_rb impl) > 0 then drain_ring R asks impl (ev (EvSleep 10) s) else Some (impl, s))"

declare drain_ring.simps [code]

partial_function (option) drain_pending ::
    "'r pcm_rb \<Rightarrow> (nat \<Rightarrow> nat list) \<Rightarrow> 'r cpkt_audio_playback_impl \<Rightarrow> dev_state \<Rightarrow>
     ('r cpkt_audio_playback_impl \<times> dev_state) option" where
  "drain_pending R asks impl s =
     (let (impl, s) = playback_run R asks impl s in
      if pb_pending_frames impl > 0 then drain_pending R asks impl (ev (EvSleep 10) s) else Some (impl, s))"

declare drain_pending.simps [code]

definition cpkt_audio_playback_drain_impl ::
    "dev_world \<Rightarrow> 'r pcm_rb \<Rightarrow> (nat \<Rightarrow> nat list) \<Rightarrow> 'r cpkt_audio_playback_impl \<Rightarrow> dev_state \<Rightarrow>
     (cpkt_audio_result \<times> 'r cpkt_audio_playback_impl \<times> dev_state) option" where
  "cpkt_audio_playback_drain_impl W R P impl s =
     (if pb_process_mode impl then
        (if \<not> pb_started impl then Some (CPKT_AUDIO_OK, impl, s)
         else case cpkt_audio_process_finish W (pb_process_pid impl) (pb_process_fd impl) s of
           None \<Rightarrow> None
         | Some (r, pid, fd, s) \<Rightarrow>
             Some (r, impl\<lparr>pb_process_pid := pid, pb_process_fd := fd, pb_turn_frames_written := 0, pb_turn_started_ms := 0\<rparr>, s))
      else case drain_ring R P impl s of
        None \<Rightarrow> None
      | Some (impl, s) \<Rightarrow>
          (case drain_pending R P impl s of
             None \<Rightarrow> None
           | Some (impl, s) \<Rightarrow>
               let (impl, s) = cpkt_audio_playback_wait_turn_elapsed W (pb_drain_latency_ms impl) impl s
               in Some (CPKT_AUDIO_OK, impl, s)))"

definition cpkt_audio_playback_stop_impl ::
    "dev_world \<Rightarrow> 'r cpkt_audio_playback_impl \<Rightarrow> dev_state \<Rightarrow> cpkt_audio_result \<times> 'r cpkt_audio_playback_impl \<times> dev_state" where
  "cpkt_audio_playback_stop_impl W impl s =
     (if pb_process_mode impl then
        let (pid, fd, s) = cpkt_audio_process_stop W (pb_process_pid impl) (pb_process_fd impl) s in
        (CPKT_AUDIO_OK, impl\<lparr>pb_process_pid := pid, pb_process_fd := fd, pb_started := False,
                             pb_turn_frames_written := 0, pb_turn_started_ms := 0\<rparr>, s)
      else if pb_started impl then
        (CPKT_AUDIO_OK, impl\<lparr>pb_started := False, pb_pending_frames := 0,
                             pb_turn_frames_written := 0, pb_turn_started_ms := 0\<rparr>, ev EvDeviceStop s)
      else (CPKT_AUDIO_OK, impl, s))"

definition cpkt_audio_playback_destroy_impl :: "dev_world \<Rightarrow> 'r cpkt_audio_playback_impl \<Rightarrow> dev_state \<Rightarrow> dev_state" where
  "cpkt_audio_playback_destroy_impl W impl s =
     (let s = (if pb_process_mode impl
               then snd (snd (cpkt_audio_process_stop W (pb_process_pid impl) (pb_process_fd impl) s)) else s);
          s = (if pb_device_initialized impl then ev EvDeviceUninit s else s);
          s = (if pb_rb_initialized impl then ev EvRingUninit s else s)
      in dev_free_both s)"

definition cpkt_audio_playback_alloc ::
    "dev_world \<Rightarrow> 'r ma_init \<Rightarrow> dev_state \<Rightarrow> cpkt_audio_result \<times> 'r cpkt_audio_playback_impl option \<times> dev_state" where
  "cpkt_audio_playback_alloc W M s =
     (let (ok, s) = dev_calloc W ''self'' s in
      if \<not> ok then (CPKT_AUDIO_ERR_ALLOC, None, s)
      else
        let (ok, s) = dev_calloc W ''impl'' s in
        if \<not> ok then (CPKT_AUDIO_ERR_ALLOC, None, dev_free ''self'' s)
        else (CPKT_AUDIO_OK,
              Some \<lparr>pb_rb = mi_ring_zero M, pb_process_pid = -1, pb_process_fd = -1, pb_pending_frames = 0,
                    pb_turn_frames_written = 0, pb_turn_started_ms = 0, pb_drain_latency_ms = 0,
                    pb_process_mode = False, pb_device_initialized = False, pb_rb_initialized = False,
                    pb_started = False, pb_underrun = False\<rparr>, s))"

record cpkt_audio_playback_config =
  pg_backend :: int
  pg_buffer_ms :: nat
  pg_period_ms :: nat

definition cpkt_audio_playback_open_default ::
    "dev_world \<Rightarrow> dev_build \<Rightarrow> 'r ma_init \<Rightarrow> bool \<Rightarrow> cpkt_audio_playback_config option \<Rightarrow> dev_state \<Rightarrow>
     cpkt_audio_result \<times> 'r cpkt_audio_playback_impl option \<times> dev_state" where
  "cpkt_audio_playback_open_default W build M has_out config s =
     (if \<not> has_out then (CPKT_AUDIO_ERR_ARG, None, s)
      else
        let requested_backend = (case config of None \<Rightarrow> 0 | Some c \<Rightarrow> pg_backend c);
            buffer_frames = cpkt_audio_device_buffer_frames (case config of None \<Rightarrow> 0 | Some c \<Rightarrow> pg_buffer_ms c);
            period_ms = cpkt_audio_device_period_ms (case config of None \<Rightarrow> 0 | Some c \<Rightarrow> pg_period_ms c)
        in
        if buffer_frames = 0 then (CPKT_AUDIO_ERR_ARG, None, s)
        else
          let (result, playback, s) = cpkt_audio_playback_alloc W M s in
          if result \<noteq> CPKT_AUDIO_OK then (result, None, s)
          else
            let impl = the playback in
            if cpkt_audio_backend_is_process build requested_backend then
              (if \<not> cpkt_audio_process_command_exists W (Some ''aplay'')
               then (CPKT_AUDIO_ERR_IO, None, dev_free_both s)
               else (CPKT_AUDIO_OK, Some (impl\<lparr>pb_process_mode := True, pb_drain_latency_ms := 0\<rparr>), s))
            else case mi_ring_init M buffer_frames of
              Inl status \<Rightarrow> (cpkt_audio_from_ma_result status, None, dev_free_both s)
            | Inr rb \<Rightarrow>
                let s = ev (EvRingInit buffer_frames) s;
                    latency = sz ((case config of None \<Rightarrow> 2000
                                   | Some c \<Rightarrow> if pg_buffer_ms c \<noteq> 0 then pg_buffer_ms c else 2000) + period_ms);
                    impl = impl\<lparr>pb_rb := rb, pb_rb_initialized := True, pb_drain_latency_ms := latency\<rparr>;
                    (result, backend) = cpkt_audio_resolve_device_backend requested_backend
                in
                if result \<noteq> CPKT_AUDIO_OK then (result, None, dev_free_both (ev EvRingUninit s))
                else
                  let status = mi_device_init M period_ms in
                  if status \<noteq> MA_SUCCESS then
                    (if native_runtime_device_io build \<and> cpkt_audio_backend_can_process requested_backend \<and>
                        cpkt_audio_process_command_exists W (Some ''aplay'')
                     then (CPKT_AUDIO_OK,
                           Some (impl\<lparr>pb_rb_initialized := False, pb_process_mode := True, pb_drain_latency_ms := 0\<rparr>),
                           ev EvRingUninit s)
                     else (cpkt_audio_from_ma_result status, None, dev_free_both (ev EvRingUninit s)))
                  else (CPKT_AUDIO_OK, Some (impl\<lparr>pb_device_initialized := True\<rparr>), ev (EvDeviceInit period_ms) s))"

section \<open>Writing to the command\<close>

text \<open>What a state keeps over a write: the trace grows by the bytes the pipe took.\<close>

definition wrote_step :: "dev_state \<Rightarrow> byte list \<Rightarrow> dev_state \<Rightarrow> bool" where
  "wrote_step s ws s' \<longleftrightarrow>
     bytes_written (ds_trace s') = bytes_written (ds_trace s) @ ws \<and> ds_tick s \<le> ds_tick s' \<and> ds_blocked s' = ds_blocked s"

definition sigpipe_kept :: "dev_world \<Rightarrow> dev_state \<Rightarrow> dev_state \<Rightarrow> bool" where
  "sigpipe_kept W s s' \<longleftrightarrow>
     ((\<forall>t. dw_sigset W t \<and> dw_sigmask W t \<and> dw_sigpending W t) \<longrightarrow>
        ds_killed s' = ds_killed s \<and> ds_pending s' = ds_pending s \<and> ds_blocked s' = ds_blocked s)"

lemma wrote_trans: "wrote_step s a s1 \<Longrightarrow> wrote_step s1 b s2 \<Longrightarrow> wrote_step s (a @ b) s2"
  by (simp add: wrote_step_def)

lemma wrote_refl: "wrote_step s [] s"
  by (simp add: wrote_step_def)

lemma sigpipe_refl: "sigpipe_kept W s s"
  by (simp add: sigpipe_kept_def)

lemma sigpipe_trans: "sigpipe_kept W s s1 \<Longrightarrow> sigpipe_kept W s1 s2 \<Longrightarrow> sigpipe_kept W s s2"
  by (simp add: sigpipe_kept_def)

lemma posix_write_step:
  "posix_write W fd bs s = (a, s') \<Longrightarrow>
   wrote_step s (case a of Wrote n \<Rightarrow> take n bs | _ \<Rightarrow> []) s' \<and> ds_tick s' = Suc (ds_tick s) \<and>
   (case a of Wrote n \<Rightarrow> n \<le> length bs | _ \<Rightarrow> True) \<and> (a = WriteIntr \<longrightarrow> dw_write W (ds_tick s) bs = WriteIntr)"
  by (auto simp: posix_write_def wrote_step_def bytes_written_def min_def split: sys_write.splits if_splits)

lemma process_write_step:
  assumes "cpkt_audio_process_write W fd bs s = (a, s')"
  shows "wrote_step s (case a of Wrote n \<Rightarrow> take n bs | _ \<Rightarrow> []) s'" "ds_tick s < ds_tick s'"
    "a = Wrote n \<Longrightarrow> n \<le> length bs"
    "a = WriteIntr \<Longrightarrow> \<exists>t. ds_tick s \<le> t \<and> t < ds_tick s' \<and> dw_write W t bs = WriteIntr"
proof -
  obtain s0 s1 where w: "posix_write W fd bs s0 = (a, s1)"
    and p: "bytes_written (ds_trace s0) = bytes_written (ds_trace s)" "ds_tick s < ds_tick s0" "ds_tick s1 \<le> ds_tick s'"
      "bytes_written (ds_trace s') = bytes_written (ds_trace s1)" "ds_blocked s0 = ds_blocked s1 \<Longrightarrow> ds_blocked s' = ds_blocked s"
    using assms by (fastforce simp: cpkt_audio_process_write_def Let_def split: if_splits prod.splits)
  note st = posix_write_step [OF w]
  have "ds_blocked s0 = ds_blocked s1"
    using st by (auto simp: wrote_step_def)
  then show "wrote_step s (case a of Wrote n \<Rightarrow> take n bs | _ \<Rightarrow> []) s'"
    using st p by (auto simp: wrote_step_def)
  show "ds_tick s < ds_tick s'" "a = Wrote n \<Longrightarrow> n \<le> length bs"
    using st p by (auto split: sys_write.splits)
  show "\<exists>t. ds_tick s \<le> t \<and> t < ds_tick s' \<and> dw_write W t bs = WriteIntr" if "a = WriteIntr"
    using st p that by (intro exI [of _ "ds_tick s0"]) auto
qed

lemma process_write_sigpipe:
  "cpkt_audio_process_write W fd bs s = (a, s') \<Longrightarrow> sigpipe_kept W s s'"
  unfolding sigpipe_kept_def
  by (auto simp: cpkt_audio_process_write_def posix_write_def Let_def tick_def ev_def split: if_splits prod.splits sys_write.splits)

definition write_result :: "dev_world \<Rightarrow> byte list \<Rightarrow> dev_state \<Rightarrow> bool \<times> dev_state \<Rightarrow> bool" where
  "write_result W bs s out \<longleftrightarrow>
     (\<exists>ws. wrote_step s ws (snd out) \<and> prefix ws bs \<and> (fst out \<longrightarrow> ws = bs)) \<and> sigpipe_kept W s (snd out)"

lemma write_result_append:
  assumes "wrote_step s a s1" "sigpipe_kept W s s1" "write_result W b s1 out"
  shows "write_result W (a @ b) s out"
proof -
  obtain ws where ws: "wrote_step s1 ws (snd out)" "prefix ws b" "fst out \<longrightarrow> ws = b"
    using assms(3) by (auto simp: write_result_def)
  have "prefix (a @ ws) (a @ b)" "fst out \<longrightarrow> a @ ws = a @ b"
    using ws(2,3) by simp_all
  then show ?thesis
    using wrote_trans [OF assms(1) ws(1)] sigpipe_trans [OF assms(2)] assms(3) unfolding write_result_def by blast
qed

lemma write_result_step:
  assumes "cpkt_audio_process_write W fd bs s = (a, s1)" "a = Wrote n \<or> (a = WriteIntr \<and> n = 0)"
    "write_result W (drop n bs) s1 out"
  shows "write_result W bs s out"
proof -
  have "wrote_step s (take n bs) s1"
    using process_write_step(1) [OF assms(1)] assms(2) by auto
  from write_result_append [OF this process_write_sigpipe [OF assms(1)] assms(3)] show ?thesis
    by simp
qed

lemma write_result_stop:
  assumes "cpkt_audio_process_write W fd bs s = (a, s1)" "case a of Wrote n \<Rightarrow> n = 0 | _ \<Rightarrow> True"
  shows "write_result W bs s (False, s1)"
  using process_write_step(1) [OF assms(1)] process_write_sigpipe [OF assms(1)] assms(2)
  by (auto simp: write_result_def split: sys_write.splits intro!: exI [of _ "[]"])

lemma playback_write_bytes_result:
  assumes "playback_write_bytes W fd bs s = Some out"
  shows "write_result W bs s out"
proof (rule playback_write_bytes.raw_induct [where P = "\<lambda>W fd bs s out. write_result W bs s out", OF _ assms])
  fix f W fd bs s out
  assume ih: "\<And>W fd bs s out. f W fd bs s = Some out \<Longrightarrow> write_result W bs s out"
    and body: "(if bs = [] then Some (True, s)
      else case cpkt_audio_process_write W fd bs s of
        (WriteIntr, s) \<Rightarrow> f W fd bs s
      | (WritePipe, s) \<Rightarrow> Some (False, s)
      | (WriteFail, s) \<Rightarrow> Some (False, s)
      | (Wrote n, s) \<Rightarrow> if n = 0 then Some (False, s) else f W fd (drop n bs) s) = Some out"
  obtain a s1 where w: "cpkt_audio_process_write W fd bs s = (a, s1)" by fastforce
  note stop = write_result_stop [OF w]
  note step = write_result_step [OF w]
  show "write_result W bs s out"
  proof (cases "bs = []")
    case True
    then show ?thesis
      using body by (auto simp: write_result_def wrote_refl sigpipe_refl)
  next
    case False
    show ?thesis
    proof (cases a)
      case (Wrote n)
      then show ?thesis
        using body False w stop step [of n] ih by (auto split: if_splits)
    next
      case WriteIntr
      then show ?thesis
        using body False w step [of 0] ih by auto
    qed (use body False w stop in auto)
  qed
qed

lemma playback_write_bytes_returns:
  assumes "\<And>t bs. T \<le> t \<Longrightarrow> dw_write W t bs \<noteq> WriteIntr"
  shows "\<exists>out. playback_write_bytes W fd bs s = Some out"
proof (induction "length bs + (T - ds_tick s)" arbitrary: bs s rule: less_induct)
  case less
  show ?case
  proof (cases "bs = []")
    case True
    then show ?thesis by (subst playback_write_bytes.simps) auto
  next
    case False
    obtain a s1 where w: "cpkt_audio_process_write W fd bs s = (a, s1)" by fastforce
    note st = process_write_step [OF w]
    have "length (drop n bs) + (T - ds_tick s1) < length bs + (T - ds_tick s)" if "n \<noteq> 0" for n
    proof -
      have "length (drop n bs) < length bs" using that False by simp
      then show ?thesis using st(2) by linarith
    qed
    moreover have "length bs + (T - ds_tick s1) < length bs + (T - ds_tick s)" if intr: "a = WriteIntr"
    proof -
      obtain t where "ds_tick s \<le> t" "dw_write W t bs = WriteIntr"
        using st(4) [OF intr] by blast
      then have "ds_tick s < T" using assms [of t bs] by (meson le_less_trans not_le)
      then show ?thesis using st(2) by linarith
    qed
    ultimately show ?thesis
      using less w False by (subst playback_write_bytes.simps) (cases a, auto)
  qed
qed

lemma frames_to_bytes_append: "frames_to_bytes c (xs @ ys) = frames_to_bytes c xs @ frames_to_bytes c ys"
  by (simp add: frames_to_bytes_def)

lemma playback_process_loop_result:
  "playback_process_loop W fd frames s = Some out \<Longrightarrow>
   write_result W (frames_to_bytes (dw_nan_cast W) frames) s out"
proof (induction W fd frames s arbitrary: out rule: playback_process_loop.induct)
  case (1 W fd frames s)
  define k where "k = (if length frames > process_frame_chunk then process_frame_chunk else length frames)"
  let ?b = "frames_to_bytes (dw_nan_cast W)"
  show ?case
  proof (cases "frames = []")
    case True
    then show ?thesis
      using "1.prems" by (auto simp: playback_process_loop.simps [of W fd "[]" s] write_result_def wrote_refl
          sigpipe_refl frames_to_bytes_def)
  next
    case False
    with "1.prems" obtain ok s1 where w: "playback_write_bytes W fd (?b (take k frames)) s = Some (ok, s1)"
      and rest: "out = (False, s1) \<and> \<not> ok \<or> ok \<and> playback_process_loop W fd (drop k frames) s1 = Some out"
      by (auto simp: playback_process_loop.simps [of W fd frames s] k_def [symmetric] Let_def split: option.splits if_splits)
    have split: "?b frames = ?b (take k frames) @ ?b (drop k frames)"
      by (simp flip: frames_to_bytes_append)
    obtain ws where ws: "wrote_step s ws s1" "prefix ws (?b (take k frames))" "ok \<longrightarrow> ws = ?b (take k frames)"
      and sig: "sigpipe_kept W s s1"
      using playback_write_bytes_result [OF w] by (auto simp: write_result_def)
    from rest show ?thesis
    proof
      assume "out = (False, s1) \<and> \<not> ok"
      then show ?thesis
        using ws sig split by (auto simp: write_result_def intro: prefix_order.trans)
    next
      assume ok: "ok \<and> playback_process_loop W fd (drop k frames) s1 = Some out"
      then have "write_result W (?b (drop k frames)) s1 out"
        using "1.IH" [OF False k_def w refl] by simp
      then show ?thesis
        unfolding split using ws ok write_result_append [OF _ sig] by blast
    qed
  qed
qed

lemma playback_process_loop_returns:
  assumes "\<And>t bs. T \<le> t \<Longrightarrow> dw_write W t bs \<noteq> WriteIntr"
  shows "\<exists>out. playback_process_loop W fd frames s = Some out"
  using assms
proof (induction W fd frames s rule: playback_process_loop.induct)
  case (1 W fd frames s)
  define k where "k = (if length frames > process_frame_chunk then process_frame_chunk else length frames)"
  obtain ok s1 where w: "playback_write_bytes W fd (frames_to_bytes (dw_nan_cast W) (take k frames)) s = Some (ok, s1)"
    using playback_write_bytes_returns [of T W, OF "1.prems"] by (metis surj_pair)
  show ?case
    using "1.IH" [OF _ k_def w refl _ "1.prems"] w
    by (subst playback_process_loop.simps) (auto simp: k_def [symmetric] Let_def)
qed

lemma spawn_quiet:
  "cpkt_audio_process_spawn W argv to_child nonblock s = (r, pid, fd, s') \<Longrightarrow>
   bytes_written (ds_trace s') = bytes_written (ds_trace s) \<and> bytes_read (ds_trace s') = bytes_read (ds_trace s) \<and>
   ds_killed s' = ds_killed s \<and> ds_pending s' = ds_pending s \<and> ds_blocked s' = ds_blocked s \<and> ds_tick s \<le> ds_tick s'"
  by (auto simp: cpkt_audio_process_spawn_def posix_close_def Let_def trace_views split: if_splits option.splits)

lemma note_written_quiet:
  "cpkt_audio_playback_note_written W n impl s = (impl', s') \<Longrightarrow>
   ds_trace s' = ds_trace s \<and> ds_killed s' = ds_killed s \<and> ds_pending s' = ds_pending s \<and> ds_blocked s' = ds_blocked s \<and>
   ds_tick s \<le> ds_tick s' \<and> pb_rb impl' = pb_rb impl \<and> pb_pending_frames impl' = pb_pending_frames impl \<and>
   pb_underrun impl' = pb_underrun impl \<and> pb_process_mode impl' = pb_process_mode impl"
  by (auto simp: cpkt_audio_playback_note_written_def cpkt_audio_process_now_ms_def Let_def split: if_splits option.splits)

text \<open>What a write in process mode has done, whatever its result.\<close>

definition playback_outcome ::
    "dev_world \<Rightarrow> f32 list \<Rightarrow> dev_state \<Rightarrow> cpkt_audio_result \<Rightarrow> nat \<Rightarrow> dev_state \<Rightarrow> bool" where
  "playback_outcome W frames s r n s' \<longleftrightarrow>
     (\<exists>ws. bytes_written (ds_trace s') = bytes_written (ds_trace s) @ ws \<and>
        prefix ws (frames_to_bytes (dw_nan_cast W) frames) \<and>
        (if r = CPKT_AUDIO_OK then n = length frames \<and> ws = frames_to_bytes (dw_nan_cast W) frames else n = 0)) \<and>
     sigpipe_kept W s s'"

lemma playback_process_write:
  assumes "pb_process_mode impl" "\<And>t bs. T \<le> t \<Longrightarrow> dw_write W t bs \<noteq> WriteIntr"
  shows "\<exists>r n impl' s'. cpkt_audio_playback_write_f32_mono_16k_impl W R P frames impl s = Some (r, n, impl', s') \<and>
    playback_outcome W frames s r n s'"
proof -
  define opened where "opened = (if pb_process_fd impl < 0 then
      let (r, pid, fd, s) = cpkt_audio_process_spawn W aplay_argv True False s
      in (r, impl\<lparr>pb_process_pid := pid, pb_process_fd := fd\<rparr>, s) else (CPKT_AUDIO_OK, impl, s))"
  obtain r1 impl1 s1 where o: "opened = (r1, impl1, s1)" by (metis prod_cases3)
  have q1: "bytes_written (ds_trace s1) = bytes_written (ds_trace s)" "sigpipe_kept W s s1"
    using o spawn_quiet [of W aplay_argv True False s] by (auto simp: opened_def sigpipe_kept_def split: if_splits prod.splits)
  obtain ok s2 where lp: "playback_process_loop W (pb_process_fd impl1) frames s1 = Some (ok, s2)"
    using playback_process_loop_returns [of T W, OF assms(2)] by (metis surj_pair)
  obtain impl3 s3 where nw: "cpkt_audio_playback_note_written W (length frames) impl1 s2 = (impl3, s3)" by fastforce
  note q3 = note_written_quiet [OF nw]
  have w: "cpkt_audio_playback_write_f32_mono_16k_impl W R P frames impl s =
    (if frames = [] then Some (CPKT_AUDIO_OK, 0, impl, s)
     else if \<not> pb_started impl then Some (CPKT_AUDIO_ERR_IO, 0, impl, s)
     else if r1 \<noteq> CPKT_AUDIO_OK then Some (r1, 0, impl1, s1)
     else if pb_process_fd impl1 < 0 then Some (CPKT_AUDIO_ERR_IO, 0, impl1, s1)
     else if \<not> ok then Some (CPKT_AUDIO_ERR_IO, 0, impl1, s2)
     else Some (CPKT_AUDIO_OK, length frames, impl3, s3))"
    using assms(1) unfolding cpkt_audio_playback_write_f32_mono_16k_impl_def opened_def [symmetric] o
    by (simp add: lp nw)
  obtain ws where ws: "bytes_written (ds_trace s2) = bytes_written (ds_trace s) @ ws"
      "prefix ws (frames_to_bytes (dw_nan_cast W) frames)" "ok \<longrightarrow> ws = frames_to_bytes (dw_nan_cast W) frames"
      "sigpipe_kept W s s2"
    using playback_process_loop_result [OF lp] q1 sigpipe_trans [OF q1(2)] by (auto simp: write_result_def wrote_step_def)
  have "sigpipe_kept W s s3"
    using ws(4) q3 by (simp add: sigpipe_kept_def)
  then show ?thesis
    unfolding w using ws q1 q3
    by (auto simp: playback_outcome_def sigpipe_refl frames_to_bytes_def intro: exI [of _ "[]"])
qed

text \<open>
  C14: A write to the playback command returns whenever interruptions cease.  With OK all frames were
  taken and the pipe has received exactly their bytes in order, however it cuts the writes; with an
  error nothing is reported as taken, and the pipe has received a beginning of them.
\<close>

theorem playback_bytes:
  assumes "pb_process_mode impl" "\<forall>t\<ge>T. \<forall>bs. dw_write W t bs \<noteq> WriteIntr"
  shows "\<exists>r n impl' s' ws. cpkt_audio_playback_write_f32_mono_16k_impl W R P frames impl s = Some (r, n, impl', s') \<and>
    bytes_written (ds_trace s') = bytes_written (ds_trace s) @ ws \<and>
    prefix ws (frames_to_bytes (dw_nan_cast W) frames) \<and>
    (if r = CPKT_AUDIO_OK then n = length frames \<and> ws = frames_to_bytes (dw_nan_cast W) frames else n = 0)"
proof -
  have "\<And>t bs. T \<le> t \<Longrightarrow> dw_write W t bs \<noteq> WriteIntr"
    using assms(2) by blast
  from playback_process_write [OF assms(1) this, where R = R and P = P and frames = frames and s = s] show ?thesis
    unfolding playback_outcome_def by fast
qed

definition playing :: "unit cpkt_audio_playback_impl" where
  "playing = \<lparr>pb_rb = (), pb_process_pid = 77, pb_process_fd = 4, pb_pending_frames = 0, pb_turn_frames_written = 0,
     pb_turn_started_ms = 0, pb_drain_latency_ms = 0, pb_process_mode = True, pb_device_initialized = False,
     pb_rb_initialized = False, pb_started = True, pb_underrun = False\<rparr>"

text \<open>A pipe that is interrupted once and then takes a byte at a time.\<close>

definition slow_player :: dev_world where
  "slow_player = quiet_world\<lparr>dw_write := (\<lambda>t bs. if t < 4 then WriteIntr else Wrote 1)\<rparr>"

theorem playback_bytes_witness:
  "\<exists>r n impl' s' ws. cpkt_audio_playback_write_f32_mono_16k_impl slow_player no_ring (\<lambda>t. []) [0, f32_one] playing dev_state0 =
        Some (r, n, impl', s') \<and>
      bytes_written (ds_trace s') = bytes_written (ds_trace dev_state0) @ ws \<and>
      prefix ws (frames_to_bytes (dw_nan_cast slow_player) [0, f32_one]) \<and>
      (if r = CPKT_AUDIO_OK then n = length [0, f32_one] \<and> ws = frames_to_bytes (dw_nan_cast slow_player) [0, f32_one]
       else n = 0)"
proof (rule playback_bytes)
  show "pb_process_mode playing" "\<forall>t\<ge>4. \<forall>bs. dw_write slow_player t bs \<noteq> WriteIntr"
    by (simp_all add: playing_def slow_player_def)
qed

text \<open>
  A playback command that has gone does not take the process with it: where the signal calls
  succeed, a write to a closed pipe neither delivers SIGPIPE nor leaves one pending that was not
  pending before, and the signal mask is what it was.
\<close>

lemma sigpipe_contained:
  assumes "\<forall>t. dw_sigset W t \<and> dw_sigmask W t \<and> dw_sigpending W t"
    "playback_write_bytes W fd bs s = Some (ok, s')"
  shows "ds_killed s' = ds_killed s \<and> ds_pending s' = ds_pending s \<and> ds_blocked s' = ds_blocked s"
  using playback_write_bytes_result [OF assms(2)] assms(1) by (auto simp: write_result_def sigpipe_kept_def)

definition gone_player :: dev_world where
  "gone_player = quiet_world\<lparr>dw_write := (\<lambda>t bs. WritePipe)\<rparr>"

lemma gone_player_write:
  "playback_write_bytes gone_player 4 [1, 2] dev_state0 = Some (False, dev_state0\<lparr>ds_tick := 5\<rparr>)"
  by (simp add: playback_write_bytes.simps cpkt_audio_process_write_def posix_write_def gone_player_def quiet_world_def
      dev_state0_def tick_def Let_def)

section \<open>Native playback\<close>

text \<open>
  What the device gets when it asks for \<open>n\<close> frames: those of the ring, then silence.
\<close>

definition served :: "('r \<Rightarrow> f32 list) \<Rightarrow> nat \<Rightarrow> 'r cpkt_audio_playback_impl \<Rightarrow> f32 list" where
  "served q n impl = take n (q (pb_rb impl)) @ replicate (n - length (q (pb_rb impl))) 0"

definition asked ::
    "('r \<Rightarrow> f32 list) \<Rightarrow> nat \<Rightarrow> 'r cpkt_audio_playback_impl \<Rightarrow> 'r cpkt_audio_playback_impl \<Rightarrow> bool" where
  "asked q n impl impl' \<longleftrightarrow>
     q (pb_rb impl') = drop n (q (pb_rb impl)) \<and>
     pb_pending_frames impl' = pb_pending_frames impl - min n (length (q (pb_rb impl))) \<and>
     pb_underrun impl' = (pb_underrun impl \<or> length (q (pb_rb impl)) < n) \<and>
     pb_process_mode impl' = pb_process_mode impl \<and> pb_drain_latency_ms impl' = pb_drain_latency_ms impl"

lemma asked_trans:
  assumes "asked q m impl impl1" "asked q n impl1 impl2"
  shows "asked q (m + n) impl impl2"
proof -
  let ?l = "length (q (pb_rb impl))"
  have "min m ?l + min n (?l - m) = min (m + n) ?l" "(?l < m \<or> ?l - m < n) = (?l < m + n)"
    by auto
  moreover have "drop n (drop m (q (pb_rb impl))) = drop (m + n) (q (pb_rb impl))"
    by (simp add: add.commute)
  ultimately show ?thesis
    using assms unfolding asked_def by (simp add: disj_assoc del: drop_drop)
qed

lemma served_add:
  assumes "asked q m impl impl1"
  shows "served q (m + n) impl = served q m impl @ served q n impl1"
proof (cases "m \<le> length (q (pb_rb impl))")
  case True
  then show ?thesis using assms by (simp add: served_def asked_def take_add)
next
  case False
  then have "m + n - length (q (pb_rb impl)) = (m - length (q (pb_rb impl))) + n" by linarith
  then have "replicate (m + n - length (q (pb_rb impl))) (0 :: f32) =
      replicate (m - length (q (pb_rb impl))) 0 @ replicate n 0"
    by (metis replicate_add)
  then show ?thesis using assms False by (simp add: served_def asked_def)
qed

lemma playback_take_spec:
  "rb_ok R q cap \<Longrightarrow> length (q (pb_rb impl)) \<le> cap \<Longrightarrow>
   \<exists>impl'. playback_take R n impl = (served q n impl, impl') \<and> asked q n impl impl'"
proof (induction R n impl rule: playback_take.induct)
  case (1 R n impl)
  let ?q = "q (pb_rb impl)"
  define src where "src = rb_acquire_read R n (pb_rb impl)"
  note acq = rb_acq_read [OF "1.prems", of n, folded src_def] rb_acq_read_some [OF "1.prems", of n, folded src_def]
  show ?case
  proof (cases "n = 0 \<or> src = []")
    case True
    then have "n = 0 \<or> ?q = []" using acq(3) by auto
    then show ?thesis
      using True by (cases "n = 0")
        (auto simp: playback_take.simps [of R n impl] playback_take.simps [of R 0 impl] src_def [symmetric] served_def asked_def Let_def)
  next
    case False
    define k where "k = length src"
    have k: "0 < k" "k \<le> n" "k \<le> length ?q" "src = take k ?q"
      using False acq by (auto simp: k_def prefix_length_le dest: prefix_length_le) (auto elim: prefixE)
    define i1 where "i1 = impl\<lparr>pb_rb := rb_commit_read R k (pb_rb impl)\<rparr>"
    define i2 where "i2 = (if pb_pending_frames i1 \<ge> k then i1\<lparr>pb_pending_frames := pb_pending_frames i1 - k\<rparr>
      else i1\<lparr>pb_pending_frames := 0\<rparr>)"
    have a: "asked q k impl i2"
      using rb_com_read [OF "1.prems" k(3)] k(3) by (auto simp: asked_def i1_def i2_def)
    then have l2: "length (q (pb_rb i2)) \<le> cap"
      using "1.prems"(2) by (simp add: asked_def)
    obtain impl' where t: "playback_take R (n - k) i2 = (served q (n - k) i2, impl')" "asked q (n - k) i2 impl'"
      using "1.IH" [OF _ src_def k_def _ i1_def i2_def "1.prems"(1) l2] False by auto
    have "playback_take R n impl = (src @ served q (n - k) i2, impl')"
      unfolding playback_take.simps [of R n impl] Let_def src_def [symmetric] k_def [symmetric]
        i1_def [symmetric] i2_def [symmetric]
      using False t(1) by simp
    moreover have "served q n impl = src @ served q (n - k) i2"
      using served_add [OF a, of "n - k"] k by (simp add: served_def)
    ultimately show ?thesis
      using asked_trans [OF a t(2)] k(2) by auto
  qed
qed

lemma playback_callback_spec:
  assumes "rb_ok R q cap" "length (q (pb_rb impl)) \<le> cap"
  shows "\<exists>impl'. cpkt_audio_playback_callback R n impl = (served q n impl, impl') \<and> asked q n impl impl'"
  using playback_take_spec [where n = n, OF assms]
  by (auto simp: cpkt_audio_playback_callback_def served_def asked_def)

lemma frames_played_ev [simp]: "frames_played (tr @ [EvOutput xs]) = frames_played tr @ xs"
  by (simp add: frames_played_def)

lemma sleep_played [simp]: "frames_played (tr @ [EvSleep n]) = frames_played tr"
  by (simp add: frames_played_def)

lemma playback_serve_spec:
  assumes "rb_ok R q cap"
  shows "length (q (pb_rb impl)) \<le> cap \<Longrightarrow>
   \<exists>impl' s'. playback_serve R ns impl s = (impl', s') \<and> asked q (sum_list ns) impl impl' \<and>
     frames_played (ds_trace s') = frames_played (ds_trace s) @ served q (sum_list ns) impl \<and> ds_tick s' = ds_tick s"
proof (induction ns arbitrary: impl s)
  case Nil
  then show ?case by (simp add: asked_def served_def)
next
  case (Cons n ns)
  obtain i1 where c: "cpkt_audio_playback_callback R n impl = (served q n impl, i1)" "asked q n impl i1"
    using playback_callback_spec [where n = n, OF assms Cons.prems] by blast
  have "length (q (pb_rb i1)) \<le> cap"
    using c(2) Cons.prems by (simp add: asked_def)
  from Cons.IH [OF this, of "ev (EvOutput (served q n impl)) s"] show ?case
    using c served_add [OF c(2), of "sum_list ns"] asked_trans [OF c(2)] by auto
qed

lemma playback_run_spec:
  assumes "rb_ok R q cap" "length (q (pb_rb impl)) \<le> cap" "n = sum_list (P (ds_tick s))"
  obtains impl' s' where "playback_run R P impl s = (impl', s')" "asked q n impl impl'"
    "frames_played (ds_trace s') = frames_played (ds_trace s) @ served q n impl" "ds_tick s' = Suc (ds_tick s)"
  using playback_serve_spec [OF assms(1,2), of "P (ds_tick s)" "tick s"] that
  by (auto simp: playback_run_def assms(3))

text \<open>
  As long as no underrun is flagged, the frames played and the frames in the ring are those there were
  and those written since. Once more frames are counted as pending than the ring holds, that stays so.
\<close>

definition overcounted :: "('r \<Rightarrow> f32 list) \<Rightarrow> 'r cpkt_audio_playback_impl \<Rightarrow> bool" where
  "overcounted q impl \<longleftrightarrow> length (q (pb_rb impl)) < pb_pending_frames impl"

lemma asked_overcounted: "asked q n impl impl' \<Longrightarrow> overcounted q impl \<Longrightarrow> overcounted q impl'"
  by (auto simp: asked_def overcounted_def)

definition play_step ::
    "('r \<Rightarrow> f32 list) \<Rightarrow> nat \<Rightarrow> 'r cpkt_audio_playback_impl \<Rightarrow> dev_state \<Rightarrow> f32 list \<Rightarrow>
     'r cpkt_audio_playback_impl \<Rightarrow> dev_state \<Rightarrow> bool" where
  "play_step q cap impl s xs impl' s' \<longleftrightarrow>
     length (q (pb_rb impl')) \<le> cap \<and> (pb_underrun impl \<longrightarrow> pb_underrun impl') \<and>
     (\<not> pb_underrun impl' \<longrightarrow>
        frames_played (ds_trace s') @ q (pb_rb impl') = frames_played (ds_trace s) @ q (pb_rb impl) @ xs) \<and>
     pb_process_mode impl' = pb_process_mode impl \<and>
     (overcounted q impl \<and> pb_pending_frames impl + length xs \<le> size_max \<longrightarrow>
        overcounted q impl' \<and> pb_pending_frames impl' \<le> pb_pending_frames impl + length xs)"

lemma play_trans:
  "play_step q cap impl s xs impl1 s1 \<Longrightarrow> play_step q cap impl1 s1 ys impl2 s2 \<Longrightarrow> play_step q cap impl s (xs @ ys) impl2 s2"
  unfolding play_step_def by auto

lemma run_play:
  assumes "length (q (pb_rb impl)) \<le> cap" "asked q n impl impl'"
    "frames_played (ds_trace s') = frames_played (ds_trace s) @ served q n impl"
  shows "play_step q cap impl s [] impl' s'"
  using assms asked_overcounted [OF assms(2)] by (auto simp: play_step_def asked_def served_def)

text \<open>One round of the writer's loop: the device runs, and again after the commit.\<close>

lemma playback_round:
  assumes "rb_ok R q cap" "length (q (pb_rb impl)) \<le> cap" "frames \<noteq> []"
  obtains (full) impl1 s1 where
      "playback_ring_loop R P frames impl s = playback_ring_loop R P frames impl1 (ev (EvSleep 5) s1)"
      "play_step q cap impl s [] impl1 s1" "ds_tick s1 = Suc (ds_tick s)"
      "0 < cap \<Longrightarrow> sum_list (P (ds_tick s)) = 0" "length (q (pb_rb impl)) = cap"
    | (some) k impl1 s1 where "0 < k"
      "playback_ring_loop R P frames impl s = playback_ring_loop R P (drop k frames) impl1 s1"
      "play_step q cap impl s (take k frames) impl1 s1"
      "pb_pending_frames impl = length (q (pb_rb impl)) \<Longrightarrow> length (q (pb_rb impl)) < sum_list (P (Suc (ds_tick s))) \<Longrightarrow>
        length frames \<le> size_max \<Longrightarrow>
        overcounted q impl1 \<and> pb_pending_frames impl1 + length (drop k frames) \<le> length frames"
proof -
  define n where "n = sum_list (P (ds_tick s))"
  obtain i1 s1 where r1: "playback_run R P impl s = (i1, s1)" and a1: "asked q n impl i1"
      and f1: "frames_played (ds_trace s1) = frames_played (ds_trace s) @ served q n impl" and t1: "ds_tick s1 = Suc (ds_tick s)"
    using playback_run_spec [OF assms(1,2), where P = P and s = s] n_def by blast
  note p1 = run_play [OF assms(2) a1 f1]
  have l1: "length (q (pb_rb i1)) \<le> cap" using p1 by (simp add: play_step_def)
  define ask where "ask = (if length frames > 4294967295 then 4294967295 else length frames)"
  define k where "k = rb_acquire_write R ask (pb_rb i1)"
  define i2 where "i2 = i1\<lparr>pb_rb := rb_commit_write R (take k frames) (pb_rb i1)\<rparr>"
  have acq: "k \<le> cap - length (q (pb_rb i1))" "0 < ask \<Longrightarrow> length (q (pb_rb i1)) < cap \<Longrightarrow> 0 < k" "k \<le> length frames"
    using rb_acq_write [OF assms(1) l1, of ask] rb_acq_write_some [OF assms(1) l1, of ask]
    by (simp_all add: k_def) (simp add: ask_def split: if_splits)
  have q2: "q (pb_rb i2) = q (pb_rb i1) @ take k frames"
    using rb_com_write [OF assms(1) l1, of "take k frames"] acq(1) l1 by (simp add: i2_def)
  have l2: "length (q (pb_rb i2)) \<le> cap" using acq(1) l1 by (simp add: q2)
  obtain i3 s3 where r3: "playback_run R P i2 s1 = (i3, s3)" and a3: "asked q (sum_list (P (ds_tick s1))) i2 i3"
      and f3: "frames_played (ds_trace s3) = frames_played (ds_trace s1) @ served q (sum_list (P (ds_tick s1))) i2"
    using playback_run_spec [OF assms(1) l2 refl, where P = P and s = s1] by blast
  define i4 where "i4 = i3\<lparr>pb_pending_frames := sz (pb_pending_frames i3 + k)\<rparr>"
  have len4: "length (q (pb_rb i4)) = length (q (pb_rb i1)) + k - sum_list (P (ds_tick s1))"
    using a3 q2 acq(3) by (simp add: i4_def asked_def)
  have pend4: "pb_pending_frames i4 = sz (pb_pending_frames i1 - min (sum_list (P (ds_tick s1))) (length (q (pb_rb i1)) + k) + k)"
    using a3 q2 acq(3) by (simp add: i4_def asked_def i2_def)
  have over: "overcounted q i4 \<and> pb_pending_frames i4 \<le> pb_pending_frames i1 + length (take k frames)"
    if "overcounted q i1" "pb_pending_frames i1 + length (take k frames) \<le> size_max"
  proof -
    have "pb_pending_frames i4 = pb_pending_frames i1 - min (sum_list (P (ds_tick s1))) (length (q (pb_rb i1)) + k) + k"
      unfolding pend4 by (rule sz_id) (use that(2) acq(3) in simp)
    then show ?thesis
      using that len4 acq(3) unfolding overcounted_def by (simp split: split_min)
  qed
  have "playback_ring_loop R P frames impl s =
      (if k = 0 then playback_ring_loop R P frames i1 (ev (EvSleep 5) s1) else playback_ring_loop R P (drop k frames) i4 s3)"
    using assms(3) unfolding playback_ring_loop.simps [of R P frames impl s] r1 Let_def prod.case ask_def [symmetric]
      k_def [symmetric] i2_def [symmetric] r3 i4_def [symmetric] by simp
  moreover have "play_step q cap i1 s1 (take k frames) i4 s3"
    using run_play [OF l2 a3 f3] over by (auto simp: play_step_def i4_def i2_def q2 [unfolded i2_def, simplified])
  moreover have "0 < cap \<Longrightarrow> k = 0 \<Longrightarrow> n = 0"
  proof (rule ccontr)
    assume "0 < cap" "k = 0" "n \<noteq> 0"
    moreover have "0 < ask" using assms(3) by (simp add: ask_def)
    moreover have "length (q (pb_rb i1)) = length (q (pb_rb impl)) - n" using a1 by (simp add: asked_def)
    ultimately show False using acq(2) assms(2) by linarith
  qed
  moreover have "overcounted q i4 \<and> pb_pending_frames i4 + length (drop k frames) \<le> length frames"
    if "pb_pending_frames impl = length (q (pb_rb impl))" "length (q (pb_rb impl)) < sum_list (P (Suc (ds_tick s)))"
      "length frames \<le> size_max" "0 < k"
  proof -
    have i1: "length (q (pb_rb i1)) = length (q (pb_rb impl)) - n" "pb_pending_frames i1 = length (q (pb_rb impl)) - n"
      using a1 that(1) by (auto simp: asked_def)
    then have "pb_pending_frames i4 = sz k"
      using that(2) unfolding pend4 t1 by (simp split: split_min)
    then have "pb_pending_frames i4 = k"
      using that(3) acq(3) by (simp add: sz_simps)
    then show ?thesis
      using that(2,4) len4 i1 acq(3) unfolding overcounted_def t1 by auto
  qed
  moreover have "k = 0 \<Longrightarrow> length (q (pb_rb impl)) = cap"
  proof (rule ccontr)
    assume "k = 0" "length (q (pb_rb impl)) \<noteq> cap"
    moreover have "0 < ask" using assms(3) by (simp add: ask_def)
    moreover have "length (q (pb_rb i1)) = length (q (pb_rb impl)) - n" using a1 by (simp add: asked_def)
    ultimately show False using acq(2) assms(2) by linarith
  qed
  ultimately show ?thesis
    using full [OF _ p1 t1] some play_trans [OF p1] by (cases "k = 0") (auto simp: n_def)
qed

lemma play_slept: "play_step q cap impl (ev (EvSleep n) s) xs impl' s' = play_step q cap impl s xs impl' s'"
  "play_step q cap impl s xs impl' (ev (EvSleep n) s') = play_step q cap impl s xs impl' s'"
  by (simp_all add: play_step_def)

lemma playback_ring_loop_ok:
  assumes "rb_ok R q cap" "0 < cap" "\<And>t. \<exists>t'\<ge>t. 0 < sum_list (P t')"
  shows "length (q (pb_rb impl)) \<le> cap \<Longrightarrow>
    \<exists>impl' s'. playback_ring_loop R P frames impl s = Some (impl', s') \<and> play_step q cap impl s frames impl' s'"
proof (induction "length frames" arbitrary: frames impl s rule: less_induct)
  case less
  obtain t where "ds_tick s \<le> t" "0 < sum_list (P t)"
    using assms(3) by blast
  then show ?case
    using less.prems
  proof (induction "t - ds_tick s" arbitrary: impl s rule: less_induct)
    case inner: less
    show ?case
    proof (cases "frames = []")
      case True
      then show ?thesis
        using inner.prems(3) by (auto simp: playback_ring_loop.simps [of R P "[]" impl s] play_step_def)
    next
      case False
      show ?thesis
      proof (cases rule: playback_round [OF assms(1) inner.prems(3) False, where P = P and s = s, case_names full some])
        case (full impl1 s1)
        then have "ds_tick s \<noteq> t" using inner.prems(2) assms(2) by (metis less_irrefl)
        then have "t - ds_tick (ev (EvSleep 5) s1) < t - ds_tick s" "ds_tick (ev (EvSleep 5) s1) \<le> t"
          using inner.prems(1) full(3) by auto
        moreover have "length (q (pb_rb impl1)) \<le> cap"
          using full(2) by (simp add: play_step_def)
        ultimately obtain impl' s' where "playback_ring_loop R P frames impl1 (ev (EvSleep 5) s1) = Some (impl', s')"
            "play_step q cap impl1 s1 frames impl' s'"
          using inner.hyps [where impl = impl1 and s = "ev (EvSleep 5) s1", OF _ _ inner.prems(2)] by (auto simp: play_slept)
        then show ?thesis
          using full(1) play_trans [OF full(2)] by fastforce
      next
        case (some k impl1 s1)
        have "length (drop k frames) < length frames" using some(1) False by simp
        moreover have "length (q (pb_rb impl1)) \<le> cap"
          using some(3) by (simp add: play_step_def)
        ultimately obtain impl' s' where
          "playback_ring_loop R P (drop k frames) impl1 s1 = Some (impl', s')" "play_step q cap impl1 s1 (drop k frames) impl' s'"
          using less.hyps by blast
        then show ?thesis
          using some(2) play_trans [OF some(3)] by fastforce
      qed
    qed
  qed
qed

text \<open>
  C15: In native mode a write returns as long as the device keeps asking for frames, with all frames
  taken, for every interleaving of the device's callbacks with the accesses of the writer.  Unless an
  underrun is flagged, the device has been given what the ring held and what was written, in order and
  without a gap, and the rest is in the ring.
\<close>

theorem playback_fifo:
  assumes "rb_ok R q cap" "0 < cap" "length (q (pb_rb impl)) \<le> cap" "\<not> pb_process_mode impl" "pb_started impl"
    "\<forall>t. \<exists>t'\<ge>t. 0 < sum_list (P t')"
  shows "\<exists>impl' s'. cpkt_audio_playback_write_f32_mono_16k_impl W R P frames impl s = Some (CPKT_AUDIO_OK, length frames, impl', s') \<and>
    length (q (pb_rb impl')) \<le> cap \<and>
    (\<not> pb_underrun impl' \<longrightarrow>
       frames_played (ds_trace s') @ q (pb_rb impl') = frames_played (ds_trace s) @ q (pb_rb impl) @ frames)"
proof (cases "frames = []")
  case True
  then show ?thesis
    using assms(3) by (simp add: cpkt_audio_playback_write_f32_mono_16k_impl_def)
next
  case False
  have "\<And>t. \<exists>t'\<ge>t. 0 < sum_list (P t')" using assms(6) by blast
  from playback_ring_loop_ok [OF assms(1,2) this assms(3), of frames s] obtain i1 s1
    where lp: "playback_ring_loop R P frames impl s = Some (i1, s1)" "play_step q cap impl s frames i1 s1" by blast
  obtain i2 s2 where nw: "cpkt_audio_playback_note_written W (length frames) i1 s1 = (i2, s2)" by fastforce
  show ?thesis
    using assms(4,5) False lp note_written_quiet [OF nw]
    by (simp add: cpkt_audio_playback_write_f32_mono_16k_impl_def nw play_step_def)
qed

definition native_playback :: "f32 list cpkt_audio_playback_impl" where
  "native_playback = \<lparr>pb_rb = [], pb_process_pid = -1, pb_process_fd = -1, pb_pending_frames = 0,
     pb_turn_frames_written = 0, pb_turn_started_ms = 0, pb_drain_latency_ms = 20, pb_process_mode = False,
     pb_device_initialized = True, pb_rb_initialized = True, pb_started = True, pb_underrun = False\<rparr>"

text \<open>A device that starts late and then asks for two frames at a time.\<close>

definition late_start :: "nat \<Rightarrow> nat list" where
  "late_start t = (if t < 2 then [] else [2])"

lemma late_start_asks: "\<forall>t. \<exists>t'\<ge>t. 0 < sum_list (late_start t')"
proof
  fix t
  show "\<exists>t'\<ge>t. 0 < sum_list (late_start t')"
    by (rule exI [of _ "max t 2"]) (simp add: late_start_def)
qed

lemma late_start_write:
  "map_option (\<lambda>(r, n, impl, s). pb_underrun impl)
     (cpkt_audio_playback_write_f32_mono_16k_impl quiet_world list_ring late_start [1, 2, 3, 4, 5] native_playback dev_state0) =
   Some False"
  by (simp add: cpkt_audio_playback_write_f32_mono_16k_impl_def playback_ring_loop.simps playback_run_def late_start_def
      cpkt_audio_playback_callback_def playback_take.simps cpkt_audio_playback_note_written_def cpkt_audio_process_now_ms_def
      quiet_world_def native_playback_def dev_state0_def tick_def ev_def min_def sz_def size_max_def)

theorem playback_fifo_witness:
  "\<exists>impl' s'. cpkt_audio_playback_write_f32_mono_16k_impl quiet_world list_ring late_start [1, 2, 3, 4, 5] native_playback dev_state0 =
      Some (CPKT_AUDIO_OK, length [1 :: f32, 2, 3, 4, 5], impl', s') \<and> length (pb_rb impl') \<le> 4 \<and>
      frames_played (ds_trace s') @ pb_rb impl' = [1, 2, 3, 4, 5]"
proof -
  have "length (id (pb_rb native_playback)) \<le> 4" "\<not> pb_process_mode native_playback" "pb_started native_playback"
    by (simp_all add: native_playback_def)
  from playback_fifo [OF list_ring_ok _ this late_start_asks, of quiet_world "[1, 2, 3, 4, 5]" dev_state0] show ?thesis
    using late_start_write by (auto simp: native_playback_def dev_state0_def frames_played_def)
qed

section \<open>Draining\<close>

lemma drain_ring_spec:
  assumes "rb_ok R q cap" "\<And>t. \<exists>t'\<ge>t. 0 < sum_list (P t')"
  shows "length (q (pb_rb impl)) \<le> cap \<Longrightarrow>
    \<exists>impl' s' n. drain_ring R P impl s = Some (impl', s') \<and> asked q n impl impl' \<and> length (q (pb_rb impl)) \<le> n \<and>
      frames_played (ds_trace s') = frames_played (ds_trace s) @ served q n impl"
proof (induction "length (q (pb_rb impl))" arbitrary: impl s rule: less_induct)
  case less
  obtain t where "ds_tick s \<le> t" "0 < sum_list (P t)"
    using assms(2) by blast
  then show ?case
    using less
  proof (induction "t - ds_tick s" arbitrary: impl s rule: less_induct)
    case inner: less
    note l = inner.prems(4)
    define n where "n = sum_list (P (ds_tick s))"
    obtain i1 s1 where r: "playback_run R P impl s = (i1, s1)" and a: "asked q n impl i1"
        and f: "frames_played (ds_trace s1) = frames_played (ds_trace s) @ served q n impl" and t1: "ds_tick s1 = Suc (ds_tick s)"
      using playback_run_spec [OF assms(1) l, where P = P and s = s] n_def by blast
    have q1: "q (pb_rb i1) = drop n (q (pb_rb impl))" using a by (simp add: asked_def)
    then have l1: "length (q (pb_rb i1)) \<le> cap" using l by simp
    have body: "drain_ring R P impl s =
        (if length (q (pb_rb i1)) > 0 then drain_ring R P i1 (ev (EvSleep 10) s1) else Some (i1, s1))"
      by (subst drain_ring.simps) (simp add: r rb_avail_read [OF assms(1) l1])
    have rest: "\<exists>impl' s' m. drain_ring R P i1 (ev (EvSleep 10) s1) = Some (impl', s') \<and> asked q m i1 impl' \<and>
        length (q (pb_rb i1)) \<le> m \<and> frames_played (ds_trace s') = frames_played (ds_trace s1) @ served q m i1"
      if "q (pb_rb i1) \<noteq> []"
    proof (cases "n = 0")
      case True
      then have "ds_tick s \<noteq> t" using inner.prems(2) by (metis n_def less_irrefl)
      then have "t - ds_tick (ev (EvSleep 10) s1) < t - ds_tick s" "ds_tick (ev (EvSleep 10) s1) \<le> t"
        using inner.prems(1) t1 by auto
      from inner.hyps [OF this inner.prems(2) _ l1] show ?thesis
        using inner.prems(3) q1 True by simp
    next
      case False
      have "length (q (pb_rb i1)) < length (q (pb_rb impl))"
        using that False q1 by auto
      from inner.prems(3) [OF this l1, of "ev (EvSleep 10) s1"] show ?thesis by simp
    qed
    show ?case
    proof (cases "q (pb_rb i1) = []")
      case True
      then show ?thesis using body a f q1 by (intro exI [of _ i1] exI [of _ s1] exI [of _ n]) simp
    next
      case False
      then obtain impl' s' m where d: "drain_ring R P i1 (ev (EvSleep 10) s1) = Some (impl', s')" "asked q m i1 impl'"
          "length (q (pb_rb i1)) \<le> m" "frames_played (ds_trace s') = frames_played (ds_trace s1) @ served q m i1"
        using rest by blast
      have "length (q (pb_rb impl)) \<le> n + m" using d(3) q1 by simp
      then show ?thesis
        using body False d(1,4) f served_add [OF a, of m] asked_trans [OF a d(2)]
        by (intro exI [of _ impl'] exI [of _ s'] exI [of _ "n + m"]) simp
    qed
  qed
qed

lemma drain_pending_done:
  assumes "rb_ok R q cap" "length (q (pb_rb impl)) \<le> cap" "pb_pending_frames impl = 0"
  obtains impl' s' n where "drain_pending R P impl s = Some (impl', s')" "asked q n impl impl'"
    "frames_played (ds_trace s') = frames_played (ds_trace s) @ served q n impl"
proof -
  obtain i1 s1 where r: "playback_run R P impl s = (i1, s1)" and a: "asked q (sum_list (P (ds_tick s))) impl i1"
      and f: "frames_played (ds_trace s1) = frames_played (ds_trace s) @ served q (sum_list (P (ds_tick s))) impl"
    using playback_run_spec [OF assms(1,2) refl, where P = P and s = s] by blast
  have "drain_pending R P impl s = Some (i1, s1)"
    using a assms(3) by (subst drain_pending.simps) (simp add: r asked_def)
  then show ?thesis using that a f by blast
qed

lemma wait_turn_quiet:
  "cpkt_audio_playback_wait_turn_elapsed W extra impl s = (impl', s') \<Longrightarrow>
   frames_played (ds_trace s') = frames_played (ds_trace s) \<and> pb_rb impl' = pb_rb impl \<and>
   pb_pending_frames impl' = pb_pending_frames impl"
  by (auto simp: cpkt_audio_playback_wait_turn_elapsed_def cpkt_audio_process_now_ms_def Let_def
      split: if_splits option.splits)

text \<open>
  C16: Draining in native mode returns when the device keeps asking for frames and no more frames are
  counted as pending than the ring holds: the device has then been given all frames of the ring in
  order, followed by nothing but silence.
\<close>

theorem drain_returns:
  assumes "rb_ok R q cap" "length (q (pb_rb impl)) \<le> cap" "\<not> pb_process_mode impl"
    "pb_pending_frames impl \<le> length (q (pb_rb impl))" "\<forall>t. \<exists>t'\<ge>t. 0 < sum_list (P t')"
  shows "\<exists>impl' s' k. cpkt_audio_playback_drain_impl W R P impl s = Some (CPKT_AUDIO_OK, impl', s') \<and>
    q (pb_rb impl') = [] \<and> pb_pending_frames impl' = 0 \<and>
    frames_played (ds_trace s') = frames_played (ds_trace s) @ q (pb_rb impl) @ replicate k 0"
proof -
  have live: "\<And>t. \<exists>t'\<ge>t. 0 < sum_list (P t')" using assms(5) by blast
  obtain i1 s1 n where d1: "drain_ring R P impl s = Some (i1, s1)" and a1: "asked q n impl i1"
      and n: "length (q (pb_rb impl)) \<le> n" and f1: "frames_played (ds_trace s1) = frames_played (ds_trace s) @ served q n impl"
    using drain_ring_spec [OF assms(1) live assms(2)] by blast
  have i1: "q (pb_rb i1) = []" "pb_pending_frames i1 = 0"
    using a1 n assms(4) by (simp_all add: asked_def)
  obtain i2 s2 m where d2: "drain_pending R P i1 s1 = Some (i2, s2)" and a2: "asked q m i1 i2"
      and f2: "frames_played (ds_trace s2) = frames_played (ds_trace s1) @ served q m i1"
    using drain_pending_done [OF assms(1) _ i1(2), where P = P and s = s1] i1(1) by auto
  obtain i3 s3 where w: "cpkt_audio_playback_wait_turn_elapsed W (pb_drain_latency_ms i2) i2 s2 = (i3, s3)" by fastforce
  have "cpkt_audio_playback_drain_impl W R P impl s = Some (CPKT_AUDIO_OK, i3, s3)"
    using assms(3) by (simp add: cpkt_audio_playback_drain_impl_def d1 d2 w)
  moreover define k where "k = n - length (q (pb_rb impl))"
  have "frames_played (ds_trace s3) = frames_played (ds_trace s) @ q (pb_rb impl) @ replicate (k + m) 0"
    using wait_turn_quiet [OF w] f1 f2 n i1 unfolding served_def k_def [symmetric] by (simp add: replicate_add)
  ultimately show ?thesis
    using wait_turn_quiet [OF w] a2 i1 by (auto simp: asked_def)
qed

definition filled_playback :: "f32 list cpkt_audio_playback_impl" where
  "filled_playback = native_playback\<lparr>pb_rb := [1, 2, 3], pb_pending_frames := 3\<rparr>"

theorem drain_returns_witness:
  "\<exists>impl' s' k. cpkt_audio_playback_drain_impl quiet_world list_ring late_start filled_playback dev_state0 =
      Some (CPKT_AUDIO_OK, impl', s') \<and> pb_rb impl' = [] \<and> pb_pending_frames impl' = 0 \<and>
    frames_played (ds_trace s') = [1, 2, 3] @ replicate k 0"
proof -
  have "length (id (pb_rb filled_playback)) \<le> 4" "\<not> pb_process_mode filled_playback"
      "pb_pending_frames filled_playback \<le> length (id (pb_rb filled_playback))"
    by (simp_all add: filled_playback_def native_playback_def)
  from drain_returns [OF list_ring_ok this late_start_asks, of quiet_world dev_state0] show ?thesis
    by (simp add: filled_playback_def native_playback_def dev_state0_def frames_played_def)
qed

text \<open>
  With more frames counted as pending than the ring holds, nobody ever counts the rest down.
\<close>

lemma drain_ring_overcounted:
  assumes "drain_ring R P impl s = Some out"
  shows "rb_ok R q cap \<longrightarrow> length (q (pb_rb impl)) \<le> cap \<longrightarrow> overcounted q impl \<longrightarrow>
    length (q (pb_rb (fst out))) \<le> cap \<and> overcounted q (fst out)"
proof (rule drain_ring.raw_induct [where P = "\<lambda>R P impl s out. rb_ok R q cap \<longrightarrow> length (q (pb_rb impl)) \<le> cap \<longrightarrow>
      overcounted q impl \<longrightarrow> length (q (pb_rb (fst out))) \<le> cap \<and> overcounted q (fst out)", OF _ assms], intro impI)
  fix f R P s out and impl :: "'a cpkt_audio_playback_impl"
  assume ih: "\<And>R P impl s out. f R P impl s = Some out \<Longrightarrow> rb_ok R q cap \<longrightarrow> length (q (pb_rb impl)) \<le> cap \<longrightarrow>
      overcounted q impl \<longrightarrow> length (q (pb_rb (fst out))) \<le> cap \<and> overcounted q (fst out)"
    and body: "(let (impl, s) = playback_run R P impl s in
      if rb_available_read R (pb_rb impl) > 0 then f R P impl (ev (EvSleep 10) s) else Some (impl, s)) = Some out"
    and ok: "rb_ok R q cap" and l: "length (q (pb_rb impl)) \<le> cap" and e: "overcounted q impl"
  obtain i1 s1 where r: "playback_run R P impl s = (i1, s1)" and a: "asked q (sum_list (P (ds_tick s))) impl i1"
    using playback_run_spec [OF ok l refl, where P = P and s = s] by blast
  have "length (q (pb_rb i1)) \<le> cap" "overcounted q i1"
    using a l asked_overcounted [OF a e] by (simp_all add: asked_def)
  then show "length (q (pb_rb (fst out))) \<le> cap \<and> overcounted q (fst out)"
    using body ih [of R P i1 "ev (EvSleep 10) s1" out] ok by (auto simp: r split: if_splits)
qed

lemma drain_pending_stuck:
  assumes "drain_pending R P impl s = Some out"
  shows "rb_ok R q cap \<longrightarrow> length (q (pb_rb impl)) \<le> cap \<longrightarrow> \<not> overcounted q impl"
proof (rule drain_pending.raw_induct [where P = "\<lambda>R P impl s out. rb_ok R q cap \<longrightarrow> length (q (pb_rb impl)) \<le> cap \<longrightarrow>
      \<not> overcounted q impl", OF _ assms], intro impI notI)
  fix f R P s out and impl :: "'a cpkt_audio_playback_impl"
  assume ih: "\<And>R P impl s out. f R P impl s = Some out \<Longrightarrow>
      rb_ok R q cap \<longrightarrow> length (q (pb_rb impl)) \<le> cap \<longrightarrow> \<not> overcounted q impl"
    and body: "(let (impl, s) = playback_run R P impl s in
      if pb_pending_frames impl > 0 then f R P impl (ev (EvSleep 10) s) else Some (impl, s)) = Some out"
    and ok: "rb_ok R q cap" and l: "length (q (pb_rb impl)) \<le> cap" and e: "overcounted q impl"
  obtain i1 s1 where r: "playback_run R P impl s = (i1, s1)" and a: "asked q (sum_list (P (ds_tick s))) impl i1"
    using playback_run_spec [OF ok l refl, where P = P and s = s] by blast
  have "length (q (pb_rb i1)) \<le> cap" "overcounted q i1" "0 < pb_pending_frames i1"
    using a l asked_overcounted [OF a e] by (simp_all add: asked_def overcounted_def)
  then show False
    using body ih [of R P i1 "ev (EvSleep 10) s1" out] ok by (simp add: r)
qed

lemma drain_overcounted:
  assumes "rb_ok R q cap" "length (q (pb_rb impl)) \<le> cap" "\<not> pb_process_mode impl" "overcounted q impl"
  shows "cpkt_audio_playback_drain_impl W R P impl s = None"
proof (cases "drain_ring R P impl s")
  case None
  then show ?thesis
    using assms(3) by (simp add: cpkt_audio_playback_drain_impl_def)
next
  case (Some out)
  obtain i1 s1 where out: "out = (i1, s1)" by force
  with drain_ring_overcounted [OF Some] assms(1,2,4) have "length (q (pb_rb i1)) \<le> cap" "overcounted q i1"
    by auto
  then have "drain_pending R P i1 s1 = None"
    using drain_pending_stuck [of R P i1 s1 _ q cap] assms(1) by (cases "drain_pending R P i1 s1") auto
  with Some out assms(3) show ?thesis
    by (simp add: cpkt_audio_playback_drain_impl_def)
qed

text \<open>
  C38: A write commits frames to the ring before it counts them as pending. Take a started native
  playback whose count is honest and whose ring has room, a write of one or more frames, and a device
  that keeps asking and, between the first commit of the write and its count (the second access of the
  writer), asks for more frames than the ring held before. The write then succeeds with all
  frames taken, but frames were played before they were counted; the count stays above what the ring
  holds, and a drain after the write never returns, whatever the device asks for from then on.
\<close>

theorem drain_hangs:
  assumes "rb_ok R q cap" "length (q (pb_rb impl)) < cap" "\<not> pb_process_mode impl" "pb_started impl"
    and "pb_pending_frames impl = length (q (pb_rb impl))" "frames \<noteq> []" "length frames \<le> size_max"
    and "\<forall>t. \<exists>t'\<ge>t. 0 < sum_list (P t')" "length (q (pb_rb impl)) < sum_list (P (Suc (ds_tick s)))"
  shows "\<exists>impl' s'. cpkt_audio_playback_write_f32_mono_16k_impl W R P frames impl s =
      Some (CPKT_AUDIO_OK, length frames, impl', s') \<and> length (q (pb_rb impl')) < pb_pending_frames impl' \<and>
    (\<forall>W' P' s''. cpkt_audio_playback_drain_impl W' R P' impl' s'' = None)"
proof -
  have live: "\<And>t. \<exists>t'\<ge>t. 0 < sum_list (P t')" using assms(8) by blast
  have l: "length (q (pb_rb impl)) \<le> cap" "0 < cap" using assms(2) by simp_all
  obtain k i1 s1 where k: "playback_ring_loop R P frames impl s = playback_ring_loop R P (drop k frames) i1 s1"
      "play_step q cap impl s (take k frames) i1 s1"
      "overcounted q i1" "pb_pending_frames i1 + length (drop k frames) \<le> length frames"
    using playback_round [OF assms(1) l(1) assms(6), where P = P and s = s] assms(2,5,7,9)
    by (metis less_irrefl)
  obtain i2 s2 where lp: "playback_ring_loop R P (drop k frames) i1 s1 = Some (i2, s2)"
      "play_step q cap i1 s1 (drop k frames) i2 s2"
    using playback_ring_loop_ok [OF assms(1) l(2) live, of i1 "drop k frames" s1] k(2) by (auto simp: play_step_def)
  obtain i3 s3 where nw: "cpkt_audio_playback_note_written W (length frames) i2 s2 = (i3, s3)" by fastforce
  have i3: "length (q (pb_rb i3)) \<le> cap" "\<not> pb_process_mode i3" "overcounted q i3"
    using lp(2) k assms(3,7) note_written_quiet [OF nw] by (auto simp: play_step_def overcounted_def)
  have "cpkt_audio_playback_write_f32_mono_16k_impl W R P frames impl s = Some (CPKT_AUDIO_OK, length frames, i3, s3)"
    using assms(3,4,6) by (simp add: cpkt_audio_playback_write_f32_mono_16k_impl_def k(1) lp(1) nw)
  with drain_overcounted [OF assms(1) i3] i3(3) show ?thesis
    unfolding overcounted_def by blast
qed

text \<open>Two frames are written while the ring is empty, and the device asks for two between the accesses.\<close>

definition eager_device :: "nat \<Rightarrow> nat list" where
  "eager_device t = (if t = 0 then [] else [2])"

lemma eager_asks: "\<forall>t. \<exists>t'\<ge>t. 0 < sum_list (eager_device t')"
proof
  fix t
  show "\<exists>t'\<ge>t. 0 < sum_list (eager_device t')"
    by (rule exI [of _ "Suc t"]) (simp add: eager_device_def)
qed

theorem drain_hangs_witness:
  "\<exists>impl s. cpkt_audio_playback_write_f32_mono_16k_impl quiet_world list_ring eager_device [1, 2] native_playback dev_state0 =
      Some (CPKT_AUDIO_OK, 2, impl, s) \<and> cpkt_audio_playback_drain_impl quiet_world list_ring eager_device impl s = None"
proof -
  have "length (id (pb_rb native_playback)) < 4" "\<not> pb_process_mode native_playback" "pb_started native_playback"
      "pb_pending_frames native_playback = length (id (pb_rb native_playback))"
      "length (id (pb_rb native_playback)) < sum_list (eager_device (Suc (ds_tick dev_state0)))"
    by (simp_all add: native_playback_def eager_device_def)
  from drain_hangs [OF list_ring_ok this(1-4) _ _ eager_asks this(5), of "[1, 2]" quiet_world] show ?thesis
    by (auto simp: size_max_def numeral_2_eq_2)
qed

end
