(* ===== verification/Audio_Device.thy ===== *)
theory Audio_Device
  imports Audio_Playback
begin

text \<open>
  The resources of capture and playback handles of \<^verbatim>\<open>src/audio.c\<close>: descriptors, child processes, memory,
  rings and devices over every sequence of calls.  The contract of a handle is the locale
  \<open>device_handle\<close>, interpreted for both kinds.
\<close>

section \<open>Resources\<close>

text \<open>
  What a system promises about pipes and processes: a pipe has two different descriptors, and \<open>fork\<close>
  gives a child or fails.
\<close>

definition posix_ok :: "dev_world \<Rightarrow> bool" where
  "posix_ok W \<longleftrightarrow>
     (\<forall>t rd wr. dw_pipe W t = Some (rd, wr) \<longrightarrow> 0 \<le> rd \<and> 0 \<le> wr \<and> rd \<noteq> wr) \<and>
     (\<forall>t. dw_fork W t \<noteq> 0)"

text \<open>
  A system in which waiting for a child fails only by an interruption, and never twice in a row. POSIX
  does not promise the latter; \<open>cpkt_audio_process_stop\<close> repeats an interrupted wait once and then
  forgets the child.
\<close>

definition waits_ok :: "dev_world \<Rightarrow> bool" where
  "waits_ok W \<longleftrightarrow>
     (\<forall>t. dw_wait W t \<noteq> WaitFail \<and> (dw_wait W t = WaitIntr \<longrightarrow> dw_wait W (Suc t) \<noteq> WaitIntr))"

text \<open>
  Beyond what was there, the handle's own descriptor and child are open, and nothing else but children
  that could not be waited for.
\<close>

definition held :: "dev_world \<Rightarrow> int list \<Rightarrow> int list \<Rightarrow> int \<Rightarrow> int \<Rightarrow> dev_state \<Rightarrow> bool" where
  "held W fds pids pid fd s \<longleftrightarrow>
     (fd \<ge> 0 \<longleftrightarrow> pid > 0) \<and> ds_open s = (if fd \<ge> 0 then fd # fds else fds) \<and>
     (\<exists>lost. ds_children s = (if pid > 0 then pid # lost @ pids else lost @ pids) \<and> (waits_ok W \<longrightarrow> lost = []))"

text \<open>Counting what is allocated, rings and devices by the trace.\<close>

definition live :: "(dev_event \<Rightarrow> int) \<Rightarrow> dev_event list \<Rightarrow> int" where
  "live w tr = sum_list (map w tr)"

definition memory_use :: "dev_event \<Rightarrow> int" where
  "memory_use e = (case e of EvAlloc n \<Rightarrow> 1 | EvFree n \<Rightarrow> -1 | _ \<Rightarrow> 0)"

definition ring_use :: "dev_event \<Rightarrow> int" where
  "ring_use e = (case e of EvRingInit n \<Rightarrow> 1 | EvRingUninit \<Rightarrow> -1 | _ \<Rightarrow> 0)"

definition device_use :: "dev_event \<Rightarrow> int" where
  "device_use e = (case e of EvDeviceInit n \<Rightarrow> 1 | EvDeviceUninit \<Rightarrow> -1 | _ \<Rightarrow> 0)"

lemmas uses = memory_use_def ring_use_def device_use_def

definition kept :: "dev_state \<Rightarrow> dev_state \<Rightarrow> bool" where
  "kept s s' \<longleftrightarrow> (\<forall>w \<in> {memory_use, ring_use, device_use}. live w (ds_trace s') = live w (ds_trace s))"

lemma kept_trans: "kept s s1 \<Longrightarrow> kept s1 s2 \<Longrightarrow> kept s s2"
  by (simp add: kept_def)

lemma kept_refl [simp]: "kept s s"
  by (simp add: kept_def)

lemma kept_ev: "\<forall>w \<in> {memory_use, ring_use, device_use}. w e = 0 \<Longrightarrow> kept s (ev e s)"
  by (simp add: kept_def live_def)

lemma kept_tick [simp]: "kept s (tick s)"
  by (simp add: kept_def)

lemma process_stop_held:
  assumes "held W fds pids pid fd s" "cpkt_audio_process_stop W pid fd s = (pid', fd', s')"
  shows "held W fds pids pid' fd' s' \<and> fd' < 0 \<and> kept s s'"
proof (cases "0 < pid")
  case False
  then show ?thesis
    using assms by (auto simp: held_def cpkt_audio_process_stop_def cpkt_audio_process_close_fd_def)
next
  case True
  let ?u = "ev (EvKill pid) (posix_close fd s)"
  from True assms(1) obtain lost where h: "0 \<le> fd" "ds_open s = fd # fds" "ds_children s = pid # lost @ pids"
      "waits_ok W \<longrightarrow> lost = []"
    by (auto simp: held_def)
  obtain a s1 where w: "posix_waitpid W pid ?u = (a, s1)" by fastforce
  have s': "pid' = -1" "fd' = -1" "s' = (if a = WaitIntr then snd (posix_waitpid W pid s1) else s1)"
    using assms(2) True h(1) w by (simp_all add: cpkt_audio_process_stop_def cpkt_audio_process_close_fd_def)
  have "ds_open s' = fds" "kept s s'"
    using w h(2) unfolding s'(3) by (auto simp: posix_waitpid_def posix_close_def Let_def kept_def live_def uses)
  moreover have "ds_children s' = lost @ pids \<or> (ds_children s' = pid # lost @ pids \<and> \<not> waits_ok W)"
    using w h(3) unfolding s'(3) by (auto simp: posix_waitpid_def posix_close_def Let_def waits_ok_def split: if_splits)
  ultimately show ?thesis
    using h(4) s'(1,2) by (auto simp: held_def intro: exI [of _ "pid # lost"])
qed

lemma process_spawn_held:
  assumes "posix_ok W" "held W fds pids pid0 fd0 s" "fd0 < 0"
    "cpkt_audio_process_spawn W argv to_child nonblock s = (r, pid, fd, s')"
  shows "held W fds pids pid fd s' \<and> kept s s'"
proof -
  obtain lost where h: "ds_open s = fds" "ds_children s = lost @ pids" "waits_ok W \<longrightarrow> lost = []"
    using assms(2,3) by (auto simp: held_def split: if_splits)
  have p: "0 \<le> rd \<and> 0 \<le> wr \<and> rd \<noteq> wr" if "dw_pipe W (ds_tick s) = Some (rd, wr)" for rd wr
    using assms(1) that unfolding posix_ok_def by blast
  have f: "dw_fork W (Suc (ds_tick s)) \<noteq> 0"
    using assms(1) by (simp add: posix_ok_def)
  have "(fd \<ge> 0 \<longleftrightarrow> pid > 0) \<and> ds_open s' = (if fd \<ge> 0 then fd # fds else fds) \<and>
      ds_children s' = (if pid > 0 then pid # lost @ pids else lost @ pids) \<and> kept s s'"
  proof (cases "dw_pipe W (ds_tick s)")
    case None
    then show ?thesis
      using assms(4) h(1,2) by (auto simp: cpkt_audio_process_spawn_def split: if_splits)
  next
    case (Some ends)
    then obtain rd wr where e: "ends = (rd, wr)" "0 \<le> rd" "0 \<le> wr" "rd \<noteq> wr"
      using p by (cases ends) auto
    show ?thesis
      using assms(4) h(1,2) Some e f
      by (auto simp: cpkt_audio_process_spawn_def posix_close_def Let_def kept_def live_def uses split: if_splits)
  qed
  then show ?thesis
    using h(3) by (auto simp: held_def)
qed

text \<open>Waiting for the end of a child that returns has waited for it, unless the system refuses.\<close>

definition waited :: "dev_world \<Rightarrow> int \<Rightarrow> dev_state \<Rightarrow> dev_state \<Rightarrow> bool" where
  "waited W pid s s' \<longleftrightarrow> ds_open s' = ds_open s \<and> kept s s' \<and>
     (ds_children s' = remove1 pid (ds_children s) \<or> ds_children s' = ds_children s \<and> \<not> waits_ok W)"

lemma finish_wait_waited:
  assumes "finish_wait W pid s = Some out"
  shows "waited W pid s (snd out)"
proof (rule finish_wait.raw_induct [where P = "\<lambda>W pid s out. waited W pid s (snd out)", OF _ assms])
  fix f W pid s out
  assume ih: "\<And>W pid s out. f W pid s = Some out \<Longrightarrow> waited W pid s (snd out)"
    and body: "(let (a, s) = posix_waitpid W pid s in
      case a of
        WaitExited code \<Rightarrow> Some (if code = 0 then CPKT_AUDIO_OK else CPKT_AUDIO_ERR_IO, s)
      | WaitSignalled \<Rightarrow> Some (CPKT_AUDIO_ERR_IO, s)
      | WaitFail \<Rightarrow> Some (CPKT_AUDIO_ERR_IO, s)
      | WaitIntr \<Rightarrow> f W pid s) = Some out"
  show "waited W pid s (snd out)"
  proof (cases "dw_wait W (ds_tick s) = WaitIntr")
    case True
    have k: "kept s (ev (EvWait pid) (tick s))"
      by (simp add: kept_def live_def uses)
    from True body have "f W pid (ev (EvWait pid) (tick s)) = Some out"
      by (simp add: posix_waitpid_def Let_def)
    from ih [OF this] show ?thesis
      using kept_trans [OF k] by (auto simp: waited_def)
  next
    case False
    with body show ?thesis
      by (auto simp: posix_waitpid_def Let_def waited_def waits_ok_def kept_def live_def uses split: sys_wait.splits)
  qed
qed

lemma process_finish_held:
  assumes "held W fds pids pid fd s" "cpkt_audio_process_finish W pid fd s = Some (r, pid', fd', s')"
  shows "held W fds pids pid' fd' s' \<and> kept s s'"
proof (cases "0 < pid")
  case False
  then show ?thesis
    using assms by (auto simp: held_def cpkt_audio_process_finish_def cpkt_audio_process_close_fd_def)
next
  case True
  from True assms(1) obtain lost where h: "0 \<le> fd" "ds_open s = fd # fds" "ds_children s = pid # lost @ pids"
      "waits_ok W \<longrightarrow> lost = []"
    by (auto simp: held_def)
  have fw: "finish_wait W pid (posix_close fd s) = Some (r, s')" and r: "pid' = -1" "fd' = -1"
    using assms(2) True h(1) by (auto simp: cpkt_audio_process_finish_def cpkt_audio_process_close_fd_def)
  have k: "kept s (posix_close fd s)" "ds_open (posix_close fd s) = fds" "ds_children (posix_close fd s) = pid # lost @ pids"
    using h by (auto simp: posix_close_def kept_def live_def uses)
  from finish_wait_waited [OF fw] have "ds_open s' = fds" "kept s s'"
      "ds_children s' = lost @ pids \<or> (ds_children s' = pid # lost @ pids \<and> \<not> waits_ok W)"
    using k kept_trans [OF k(1)] by (auto simp: waited_def)
  then show ?thesis
    using h(4) r by (auto simp: held_def intro: exI [of _ "pid # lost"])
qed

text \<open>The defect: with two interruptions in a row the child is forgotten without having been waited for.\<close>

lemma stop_loses_child:
  assumes "0 < pid" "dw_wait W (ds_tick s) = WaitIntr" "dw_wait W (Suc (ds_tick s)) = WaitIntr"
  shows "\<exists>fd' s'. cpkt_audio_process_stop W pid fd s = (-1, fd', s') \<and> ds_children s' = ds_children s"
  using assms
  by (simp add: cpkt_audio_process_stop_def cpkt_audio_process_close_fd_def posix_close_def posix_waitpid_def Let_def)

definition released :: "dev_state \<Rightarrow> dev_state \<Rightarrow> bool" where
  "released s s' \<longleftrightarrow> ds_open s' = ds_open s \<and> ds_children s' = ds_children s \<and> kept s s'"

lemma released_trans: "released s s1 \<Longrightarrow> released s1 s2 \<Longrightarrow> released s s2"
  using kept_trans by (auto simp: released_def)

lemma released_refl [simp]: "released s s" "released s (tick s)"
  by (simp_all add: released_def)

lemma sleep_same: "released s (ev (EvSleep n) s)"
  by (simp add: released_def kept_def live_def uses)

text \<open>
  At the end of a handle everything is as it was, but for children that could not be waited for.
\<close>

definition given_back :: "dev_world \<Rightarrow> dev_state \<Rightarrow> dev_state \<Rightarrow> bool" where
  "given_back W s s' \<longleftrightarrow> ds_open s' = ds_open s \<and> kept s s' \<and>
     (\<exists>lost. ds_children s' = lost @ ds_children s \<and> (waits_ok W \<longrightarrow> lost = []))"

lemma given_back_released: "waits_ok W \<Longrightarrow> given_back W s s' \<Longrightarrow> released s s'"
  by (auto simp: given_back_def released_def)

text \<open>What a handle holds is what its flags say.\<close>

definition handle_use :: "bool \<Rightarrow> bool \<Rightarrow> dev_state \<Rightarrow> dev_state \<Rightarrow> bool" where
  "handle_use ring device s s' \<longleftrightarrow>
     live memory_use (ds_trace s') = live memory_use (ds_trace s) + 2 \<and>
     live ring_use (ds_trace s') = live ring_use (ds_trace s) + (if ring then 1 else 0) \<and>
     live device_use (ds_trace s') = live device_use (ds_trace s) + (if device then 1 else 0)"

definition teardown :: "bool \<Rightarrow> bool \<Rightarrow> dev_state \<Rightarrow> dev_state" where
  "teardown ring device s =
     (let s = (if device then ev EvDeviceUninit s else s); s = (if ring then ev EvRingUninit s else s) in dev_free_both s)"

lemma teardown_releases:
  "handle_use ring device s s1 \<Longrightarrow>
   kept s (teardown ring device s1) \<and> ds_open (teardown ring device s1) = ds_open s1 \<and>
   ds_children (teardown ring device s1) = ds_children s1"
  by (auto simp: teardown_def handle_use_def kept_def live_def uses dev_free_def)

lemma stop_releases:
  assumes "held W (ds_open s) (ds_children s) pid fd s1" "0 \<le> fd \<longrightarrow> mode" "handle_use ring device s s1"
  shows "given_back W s (teardown ring device (if mode then snd (snd (cpkt_audio_process_stop W pid fd s1)) else s1))"
proof -
  obtain pid' fd' s2 where st: "cpkt_audio_process_stop W pid fd s1 = (pid', fd', s2)" by (metis prod_cases3)
  define s3 where "s3 = (if mode then s2 else s1)"
  have "held W (ds_open s) (ds_children s) pid' fd' s2 \<and> fd' < 0 \<and> kept s1 s2"
    by (rule process_stop_held [OF assms(1) st])
  then have s3: "ds_open s3 = ds_open s" "kept s1 s3"
      "\<exists>lost. ds_children s3 = lost @ ds_children s \<and> (waits_ok W \<longrightarrow> lost = [])"
    using assms(1,2) by (auto simp: s3_def held_def)
  then have "handle_use ring device s s3"
    using assms(3) by (simp add: handle_use_def kept_def)
  from teardown_releases [OF this] s3 show ?thesis
    unfolding given_back_def s3_def st by (cases mode) simp_all
qed

text \<open>A sequence of calls on a handle, up to one that does not return.\<close>

fun run_calls :: "('op \<Rightarrow> 'h \<Rightarrow> dev_state \<Rightarrow> ('h \<times> dev_state) option) \<Rightarrow> 'op list \<Rightarrow> 'h \<Rightarrow> dev_state \<Rightarrow> ('h \<times> dev_state) option" where
  "run_calls call [] h s = Some (h, s)"
| "run_calls call (c # cs) h s = (case call c h s of None \<Rightarrow> None | Some (h, s) \<Rightarrow> run_calls call cs h s)"

text \<open>
  The contract of a device handle: every call that returns keeps what the handle owns and what it says
  it owns, and destroying gives it back.
\<close>

locale device_handle =
  fixes call :: "dev_world \<Rightarrow> 'op \<Rightarrow> 'h \<Rightarrow> dev_state \<Rightarrow> ('h \<times> dev_state) option"
    and owns :: "dev_world \<Rightarrow> int list \<Rightarrow> int list \<Rightarrow> 'h \<Rightarrow> dev_state \<Rightarrow> bool"
    and ring :: "'h \<Rightarrow> bool"
    and device :: "'h \<Rightarrow> bool"
    and destroy :: "dev_world \<Rightarrow> 'h \<Rightarrow> dev_state \<Rightarrow> dev_state"
  assumes call_keeps: "posix_ok W \<Longrightarrow> owns W fds pids h s \<Longrightarrow> call W c h s = Some (h', s') \<Longrightarrow>
      owns W fds pids h' s' \<and> ring h' = ring h \<and> device h' = device h \<and> kept s s'"
    and destroy_releases: "posix_ok W \<Longrightarrow> owns W (ds_open s) (ds_children s) h s1 \<Longrightarrow>
      handle_use (ring h) (device h) s s1 \<Longrightarrow> given_back W s (destroy W h s1)"
begin

lemma calls_keep:
  assumes "posix_ok W"
  shows "owns W fds pids h s \<Longrightarrow> run_calls (call W) cs h s = Some (h', s') \<Longrightarrow>
    owns W fds pids h' s' \<and> ring h' = ring h \<and> device h' = device h \<and> kept s s'"
proof (induction cs arbitrary: h s)
  case (Cons c cs)
  then obtain h1 s1 where c: "call W c h s = Some (h1, s1)" and rest: "run_calls (call W) cs h1 s1 = Some (h', s')"
    by (auto split: option.splits)
  note one = call_keeps [OF assms Cons.prems(1) c]
  then show ?case
    using Cons.IH [OF _ rest] kept_trans by auto
qed simp

lemma lifecycle:
  assumes "posix_ok W" "owns W (ds_open s) (ds_children s) h s1" "handle_use (ring h) (device h) s s1"
    "run_calls (call W) cs h s1 = Some (h', s2)"
  shows "given_back W s (destroy W h' s2)"
proof -
  note k = calls_keep [OF assms(1,2,4)]
  then have "handle_use (ring h') (device h') s s2"
    using assms(3) by (simp add: handle_use_def kept_def)
  then show ?thesis
    using destroy_releases [OF assms(1)] k by blast
qed

end

text \<open>The public calls on a capture handle, and a sequence of them.\<close>

datatype capture_op = CapStart ma_result | CapStop | CapRead nat | CapWait nat

fun capture_call ::
    "dev_world \<Rightarrow> 'r pcm_rb \<Rightarrow> (nat \<Rightarrow> f32 list list) \<Rightarrow> capture_op \<Rightarrow> 'r cpkt_audio_capture_impl \<Rightarrow> dev_state \<Rightarrow>
     ('r cpkt_audio_capture_impl \<times> dev_state) option" where
  "capture_call W R D (CapStart status) impl s = Some (snd (cpkt_audio_capture_start_impl W status impl s))"
| "capture_call W R D CapStop impl s = Some (snd (cpkt_audio_capture_stop_impl W impl s))"
| "capture_call W R D (CapRead n) impl s = Some (snd (snd (cpkt_audio_capture_read_f32_mono_16k_impl W R D n impl s)))"
| "capture_call W R D (CapWait timeout) impl s = map_option snd (cpkt_audio_capture_wait_ready_impl W R D timeout impl s)"

definition capture_owns :: "dev_world \<Rightarrow> int list \<Rightarrow> int list \<Rightarrow> 'r cpkt_audio_capture_impl \<Rightarrow> dev_state \<Rightarrow> bool" where
  "capture_owns W fds pids impl s \<longleftrightarrow>
     held W fds pids (cp_process_pid impl) (cp_process_fd impl) s \<and>
     (0 \<le> cp_process_fd impl \<longrightarrow> cp_process_mode impl \<and> cp_started impl)"

definition capture_same :: "'r cpkt_audio_capture_impl \<Rightarrow> 'r cpkt_audio_capture_impl \<Rightarrow> bool" where
  "capture_same impl impl' \<longleftrightarrow>
     cp_process_mode impl' = cp_process_mode impl \<and> cp_device_initialized impl' = cp_device_initialized impl \<and>
     cp_rb_initialized impl' = cp_rb_initialized impl"

definition capture_step ::
    "dev_world \<Rightarrow> int list \<Rightarrow> int list \<Rightarrow> 'r cpkt_audio_capture_impl \<Rightarrow> dev_state \<Rightarrow> 'r cpkt_audio_capture_impl \<Rightarrow> dev_state \<Rightarrow> bool" where
  "capture_step W fds pids impl s impl' s' \<longleftrightarrow> capture_owns W fds pids impl' s' \<and> capture_same impl impl' \<and> kept s s'"

lemma capture_step_trans:
  "capture_step W fds pids impl s impl1 s1 \<Longrightarrow> capture_step W fds pids impl1 s1 impl2 s2 \<Longrightarrow> capture_step W fds pids impl s impl2 s2"
  using kept_trans by (auto simp: capture_step_def capture_same_def)

text \<open>The device thread touches nothing but the ring and the overrun flag.\<close>

definition ring_only :: "'r cpkt_audio_capture_impl \<Rightarrow> 'r cpkt_audio_capture_impl \<Rightarrow> bool" where
  "ring_only impl impl' \<longleftrightarrow> impl'\<lparr>cp_rb := cp_rb impl, cp_overrun := cp_overrun impl\<rparr> = impl"

lemma ring_only_fields:
  assumes "ring_only impl impl'"
  shows "cp_process_pid impl' = cp_process_pid impl" "cp_process_fd impl' = cp_process_fd impl" "cp_started impl' = cp_started impl"
    "capture_same impl impl'"
  using assms by (cases impl; cases impl'; simp add: ring_only_def capture_same_def)+

lemma ring_only_trans: "ring_only impl i1 \<Longrightarrow> ring_only i1 i2 \<Longrightarrow> ring_only impl i2"
  by (cases impl; cases i1; cases i2; simp add: ring_only_def)

lemma ring_only_refl [simp]: "ring_only impl impl" "ring_only impl (impl\<lparr>cp_rb := r\<rparr>)" "ring_only impl (impl\<lparr>cp_overrun := b\<rparr>)"
  "ring_only impl (impl\<lparr>cp_rb := r, cp_overrun := b\<rparr>)"
  by (cases impl; simp add: ring_only_def)+

lemma capture_write_ring_only: "ring_only impl (capture_write R src impl)"
proof (induction R src impl rule: capture_write.induct)
  case (1 R src impl)
  then show ?case
    by (subst capture_write.simps) (auto simp: Let_def intro: ring_only_trans [OF ring_only_refl(2)])
qed

lemma capture_callback_ring_only: "ring_only impl (cpkt_audio_capture_callback R input impl)"
  by (auto simp: cpkt_audio_capture_callback_def Let_def
      intro: capture_write_ring_only ring_only_trans [OF ring_only_refl(4) capture_write_ring_only])

lemma device_run_ring_only:
  assumes "device_run R D impl s = (impl', s')"
  shows "ring_only impl impl'" "s' = tick s"
proof -
  have "ring_only i (fold (cpkt_audio_capture_callback R) ins i)" for ins i
    by (induction ins arbitrary: i) (auto intro: ring_only_trans [OF capture_callback_ring_only])
  then show "ring_only impl impl'" "s' = tick s"
    using assms by (auto simp: device_run_def)
qed

lemma capture_ring_loop_only:
  "capture_ring_loop R D n acc impl s = (acc', impl', s') \<Longrightarrow> ring_only impl impl' \<and> released s s'"
proof (induction R D n acc impl s arbitrary: acc' rule: capture_ring_loop.induct)
  case (1 R D n acc impl s)
  obtain i1 s1 where r1: "device_run R D impl s = (i1, s1)" by fastforce
  define chunk where "chunk = (if n - length acc > 4294967295 then 4294967295 else n - length acc)"
  define src where "src = rb_acquire_read R chunk (cp_rb i1)"
  obtain i2 s2 where r2: "device_run R D i1 s1 = (i2, s2)" by fastforce
  define i3 where "i3 = i2\<lparr>cp_rb := rb_commit_read R (length src) (cp_rb i2)\<rparr>"
  note d1 = device_run_ring_only [OF r1] and d2 = device_run_ring_only [OF r2]
  have body: "capture_ring_loop R D n acc impl s =
      (if length acc \<ge> n then (acc, impl, s) else if src = [] then (acc, i1, s1)
       else capture_ring_loop R D n (acc @ src) i3 s2)"
    by (subst capture_ring_loop.simps) (simp add: r1 r2 Let_def chunk_def [symmetric] src_def [symmetric] i3_def)
  have o3: "ring_only impl i3" "released s s2"
    using ring_only_trans [OF d1(1) ring_only_trans [OF d2(1)]] d1(2) d2(2) by (auto simp: i3_def released_def kept_def)
  have "ring_only i3 impl' \<and> released s2 s'" if "\<not> n \<le> length acc" "src \<noteq> []"
    using "1.IH" [OF that(1) refl r1 [symmetric] chunk_def src_def that(2) refl r2 [symmetric] i3_def] "1.prems" body that by simp
  then show ?case
    using "1.prems" body o3 d1 ring_only_trans [OF o3(1)] released_trans [OF o3(2)] by (auto split: if_splits)
qed

lemma wait_expired_same:
  "cpkt_audio_wait_expired W start timeout s = (e, s') \<Longrightarrow> released s s'"
  by (auto simp: cpkt_audio_wait_expired_def cpkt_audio_process_now_ms_def Let_def split: if_splits option.splits)

lemma now_ms_same: "cpkt_audio_process_now_ms W s = (t, s') \<Longrightarrow> released s s'"
  by (auto simp: cpkt_audio_process_now_ms_def split: option.splits)

lemma emit_state_same: "cpkt_audio_capture_emit_state impl n s = (r, s') \<Longrightarrow> released s s'"
  by (auto simp: cpkt_audio_capture_emit_state_def released_def kept_def live_def uses Let_def split: option.splits)

lemma wait_process_same:
  assumes "wait_process W start timeout s = Some (r, s')"
  shows "released s s'"
proof -
  have "\<forall>r s'. out = (r, s') \<longrightarrow> released s s'" if o: "wait_process W start timeout s = Some out" for out
  proof (rule wait_process.raw_induct [where P = "\<lambda>W start timeout s out. \<forall>r s'. out = (r, s') \<longrightarrow> released s s'", OF _ o])
    fix f W start timeout s out
    assume ih: "\<And>W start timeout s out. f W start timeout s = Some out \<Longrightarrow> \<forall>r s'. out = (r, s') \<longrightarrow> released s s'"
      and body: "(let a = dw_select W (ds_tick s); s = tick s in
        if a = SelectReady then Some (CPKT_AUDIO_OK, s) else if a = SelectFail then Some (CPKT_AUDIO_ERR_IO, s)
        else let (expired, s) = cpkt_audio_wait_expired W start timeout s in
          if expired then Some (CPKT_AUDIO_TIMEOUT, s) else f W start timeout s) = Some out"
    obtain e s1 where x: "cpkt_audio_wait_expired W start timeout (tick s) = (e, s1)" by fastforce
    have "released s s1"
      using released_trans [OF released_refl(2) wait_expired_same [OF x]] .
    then show "\<forall>r s'. out = (r, s') \<longrightarrow> released s s'"
      using body x ih [of W start timeout s1 out] released_trans by (auto simp: Let_def split: if_splits)
  qed
  then show ?thesis using assms by blast
qed

lemma wait_ring_same:
  assumes "wait_ring W R D start timeout impl s = Some (r, impl', s')"
  shows "ring_only impl impl' \<and> released s s'"
proof -
  have "\<forall>r impl' s'. out = (r, impl', s') \<longrightarrow> ring_only impl impl' \<and> released s s'"
    if o: "wait_ring W R D start timeout impl s = Some out" for out
  proof (rule wait_ring.raw_induct [where P = "\<lambda>W R D start timeout impl s out.
      \<forall>r impl' s'. out = (r, impl', s') \<longrightarrow> ring_only impl impl' \<and> released s s'", OF _ o])
    fix f W R D start timeout s out and impl :: "'a cpkt_audio_capture_impl"
    assume ih: "\<And>W R D start timeout impl s out. f W R D start timeout impl s = Some out \<Longrightarrow>
        \<forall>r impl' s'. out = (r, impl', s') \<longrightarrow> ring_only impl impl' \<and> released s s'"
      and body: "(let (impl, s) = device_run R D impl s in
        if rb_available_read R (cp_rb impl) > 0 then Some (CPKT_AUDIO_OK, impl, s)
        else let (expired, s) = cpkt_audio_wait_expired W start timeout s in
          if expired then Some (CPKT_AUDIO_TIMEOUT, impl, s) else f W R D start timeout impl (ev (EvSleep 5) s)) = Some out"
    obtain i1 s1 where d: "device_run R D impl s = (i1, s1)" by fastforce
    obtain e s2 where x: "cpkt_audio_wait_expired W start timeout s1 = (e, s2)" by fastforce
    note o = device_run_ring_only [OF d]
    have s1: "released s s1" using o(2) by simp
    note s2 = released_trans [OF s1 wait_expired_same [OF x]]
    note s = s1 s2 released_trans [OF s2 sleep_same]
    show "\<forall>r impl' s'. out = (r, impl', s') \<longrightarrow> ring_only impl impl' \<and> released s s'"
      using body d x ih [of W R D start timeout i1 "ev (EvSleep 5) s2" out] o(1) s ring_only_trans [OF o(1)]
        released_trans [OF s(3)]
      by (auto simp: Let_def split: if_splits)
  qed
  then show ?thesis using assms by blast
qed

lemma owns_ring_only:
  assumes "capture_owns W fds pids impl s" "ring_only impl impl'" "released s s'"
  shows "capture_step W fds pids impl s impl' s'"
  using assms ring_only_fields [OF assms(2)]
  by (auto simp: capture_step_def capture_owns_def held_def released_def capture_same_def)

lemma posix_read_same: "posix_read W fd n s = (a, s') \<Longrightarrow> released s s'"
  by (auto simp: posix_read_def released_def kept_def live_def uses split: sys_read.splits)

lemma owns_fields:
  assumes "capture_owns W fds pids impl s" "released s s'" "cp_process_pid impl' = cp_process_pid impl"
    "cp_process_fd impl' = cp_process_fd impl" "cp_started impl' = cp_started impl" "capture_same impl impl'"
  shows "capture_step W fds pids impl s impl' s'"
  using assms by (auto simp: capture_step_def capture_owns_def held_def released_def capture_same_def)

lemma owns_stop:
  assumes "posix_ok W" "capture_owns W fds pids impl s" "released s s1"
    "cpkt_audio_process_stop W (cp_process_pid impl) (cp_process_fd impl) s1 = (pid, fd, s')"
  shows "capture_step W fds pids impl s (impl\<lparr>cp_process_pid := pid, cp_process_fd := fd, cp_started := False\<rparr>) s'"
proof -
  have "held W fds pids (cp_process_pid impl) (cp_process_fd impl) s1"
    using assms(2,3) by (auto simp: capture_owns_def held_def released_def)
  from process_stop_held [OF this assms(4)] show ?thesis
    using assms(3) kept_trans by (auto simp: capture_step_def capture_owns_def released_def capture_same_def)
qed

lemma capture_process_loop_owns:
  "posix_ok W \<Longrightarrow> capture_owns W fds pids impl s \<Longrightarrow> capture_process_loop W n acc impl s = (e, acc', impl', s') \<Longrightarrow>
   capture_step W fds pids impl s impl' s'"
proof (induction W n acc impl s arbitrary: e acc' impl' s' rule: capture_process_loop.induct)
  case (1 W n acc impl s)
  let ?fd = "cp_process_fd impl"
  note owns = "1.prems"(2)
  have same: "capture_same impl impl" by (simp add: capture_same_def)
  have stay: "capture_step W fds pids impl s impl s1" if "released s s1" for s1
    using owns_fields [OF owns that _ _ _ same] by simp
  consider (full) "n \<le> length acc" | (pending) "\<not> n \<le> length acc" "cp_has_pending_byte impl"
    | (fresh) "\<not> n \<le> length acc" "\<not> cp_has_pending_byte impl" by blast
  then show ?case
  proof cases
    case full
    then show ?thesis
      using "1.prems"(3) stay [OF released_refl(1)] by (simp add: capture_process_loop.simps [of W n acc impl s])
  next
    case pending
    obtain a s1 where r: "posix_read W ?fd 1 s = (a, s1)" by fastforce
    have "capture_step W fds pids impl s (impl\<lparr>cp_has_pending_byte := False\<rparr>) s1"
      by (rule owns_fields [OF owns posix_read_same [OF r]]) (simp_all add: capture_same_def)
    note go = capture_step_trans [OF this] this [unfolded capture_step_def, THEN conjunct1]
    show ?thesis
      using "1.prems"(1,3) pending r stay [OF posix_read_same [OF r]] "1.IH"(1) [OF pending r [symmetric] _ _ _ go(2)] go(1)
      by (auto simp: capture_process_loop.simps [of W n acc impl s] split: sys_read.splits list.splits)
  next
    case fresh
    define k where "k = (if sz ((n - length acc) * 2) > process_chunk_bytes then process_chunk_bytes else sz ((n - length acc) * 2))"
    obtain a s1 where r: "posix_read W ?fd k s = (a, s1)" by fastforce
    have "capture_step W fds pids impl s (keep_pending rest impl) s1" for rest
      by (rule owns_fields [OF owns posix_read_same [OF r]]) (auto simp: capture_same_def keep_pending_def)
    note go = capture_step_trans [OF this] this [unfolded capture_step_def, THEN conjunct1]
    have ih: "capture_step W fds pids impl s impl' s'" if a: "a = GotBytes (b # bs)" and f: "take_frames (n - length acc) (b # bs) = (xs, rest)"
      and l: "capture_process_loop W n (acc @ xs) (keep_pending rest impl) s1 = (e, acc', impl', s')" for b bs xs rest
      by (rule go(1), rule "1.IH"(2) [OF fresh refl k_def r [symmetric] a refl refl f [symmetric] "1.prems"(1) go(2) l])
    show ?thesis
      using "1.prems"(1,3) fresh r stay [OF posix_read_same [OF r]] ih
        owns_stop [OF "1.prems"(1) owns posix_read_same [OF r]]
      by (auto simp: capture_process_loop.simps [of W n acc impl s] Let_def k_def [symmetric]
          split: sys_read.splits list.splits prod.splits)
  qed
qed

lemma capture_stay:
  assumes "capture_owns W fds pids impl s" "released s s'"
  shows "capture_step W fds pids impl s impl s'"
  by (rule owns_fields [OF assms]) (simp_all add: capture_same_def)

lemma owns_of_step: "capture_step W fds pids impl s impl' s' \<Longrightarrow> capture_owns W fds pids impl' s'"
  by (simp add: capture_step_def)

lemma capture_read_owns:
  assumes "posix_ok W" "capture_owns W fds pids impl s"
    "cpkt_audio_capture_read_f32_mono_16k_impl W R D n impl s = (r, frames, impl', s')"
  shows "capture_step W fds pids impl s impl' s'"
proof -
  obtain e xs i1 s1 where p: "capture_process_loop W n [] impl s = (e, xs, i1, s1)" by (metis prod_cases4)
  obtain ys i2 s2 where g: "capture_ring_loop R D n [] impl s = (ys, i2, s2)" by (metis prod_cases3)
  note c1 = capture_process_loop_owns [OF assms(1,2) p]
  have c2: "capture_step W fds pids impl s i2 s2"
    using owns_ring_only [OF assms(2)] capture_ring_loop_only [OF g] by blast
  have "capture_step W fds pids impl s i s''" if "capture_step W fds pids impl s i s'" "cpkt_audio_capture_emit_state i k s' = (r, s'')"
    for i s' s'' k r
    using capture_step_trans [OF that(1) capture_stay [OF owns_of_step [OF that(1)] emit_state_same [OF that(2)]]] .
  then show ?thesis
    using assms(3) capture_stay [OF assms(2) released_refl(1)] c1 c2
    by (auto simp: cpkt_audio_capture_read_f32_mono_16k_impl_def p g Let_def split: if_splits prod.splits)
qed

lemma capture_wait_owns:
  assumes "capture_owns W fds pids impl s" "cpkt_audio_capture_wait_ready_impl W R D timeout impl s = Some (r, impl', s')"
  shows "capture_step W fds pids impl s impl' s'"
proof -
  obtain t s1 where n: "cpkt_audio_process_now_ms W s = (t, s1)" by fastforce
  note s1 = capture_stay [OF assms(1) now_ms_same [OF n]]
  have "capture_step W fds pids impl s impl s2" if "wait_process W t timeout s1 = Some (r, s2)" for r s2
    using capture_stay [OF assms(1)] released_trans [OF now_ms_same [OF n] wait_process_same [OF that]] .
  moreover have "capture_step W fds pids impl s i s2" if "wait_ring W R D t timeout impl s1 = Some (r, i, s2)" for r i s2
    using owns_ring_only [OF assms(1)] wait_ring_same [OF that] released_trans [OF now_ms_same [OF n]] by blast
  ultimately show ?thesis
    using assms(2) capture_stay [OF assms(1) released_refl(1)] s1
    by (auto simp: cpkt_audio_capture_wait_ready_impl_def n map_option_eq_Some split: if_splits)
qed

lemma capture_start_owns:
  assumes "posix_ok W" "capture_owns W fds pids impl s" "cpkt_audio_capture_start_impl W status impl s = (r, impl', s')"
  shows "capture_step W fds pids impl s impl' s'"
proof -
  obtain r1 pid fd s1 where sp: "cpkt_audio_process_spawn W arecord_argv False True s = (r1, pid, fd, s1)" by (metis prod_cases4)
  have quiet: "released s (ev EvDeviceStart s)"
    by (simp add: released_def kept_def live_def uses)
  have fail: "r1 \<noteq> CPKT_AUDIO_OK \<Longrightarrow> fd < 0"
    using sp by (auto simp: cpkt_audio_process_spawn_def Let_def split: if_splits option.splits)
  show ?thesis
  proof (cases "cp_started impl \<or> \<not> cp_process_mode impl")
    case True
    then show ?thesis
      using assms(2,3) capture_stay [OF assms(2) released_refl(1)] quiet
      by (auto simp: cpkt_audio_capture_start_impl_def capture_step_def capture_owns_def capture_same_def held_def released_def
          split: if_splits)
  next
    case False
    then have "held W fds pids (cp_process_pid impl) (cp_process_fd impl) s" "cp_process_fd impl < 0"
      using assms(2) by (auto simp: capture_owns_def)
    from process_spawn_held [OF assms(1) this sp] show ?thesis
      using assms(3) False fail
      by (auto simp: cpkt_audio_capture_start_impl_def sp Let_def capture_step_def capture_owns_def capture_same_def split: if_splits)
  qed
qed

lemma capture_stop_owns:
  assumes "posix_ok W" "capture_owns W fds pids impl s" "cpkt_audio_capture_stop_impl W impl s = (r, impl', s')"
  shows "capture_step W fds pids impl s impl' s'"
proof (cases "cp_process_mode impl")
  case True
  then show ?thesis
    using assms(3) owns_stop [OF assms(1,2) released_refl(1)]
    by (auto simp: cpkt_audio_capture_stop_impl_def split: prod.splits)
next
  case False
  then show ?thesis
    using assms(2,3) by (auto simp: cpkt_audio_capture_stop_impl_def capture_step_def capture_owns_def capture_same_def held_def
        kept_def live_def uses split: if_splits)
qed

lemma capture_call_owns:
  assumes "posix_ok W" "capture_owns W fds pids impl s" "capture_call W R D c impl s = Some (impl', s')"
  shows "capture_step W fds pids impl s impl' s'"
proof (cases c)
  case (CapStart status)
  then show ?thesis
    using capture_start_owns [OF assms(1,2)] assms(3) by (metis capture_call.simps(1) option.inject prod.collapse)
next
  case CapStop
  then show ?thesis
    using capture_stop_owns [OF assms(1,2)] assms(3) by (metis capture_call.simps(2) option.inject prod.collapse)
next
  case (CapRead n)
  then show ?thesis
    using capture_read_owns [OF assms(1,2)] assms(3) by (metis capture_call.simps(3) option.inject prod.collapse)
next
  case (CapWait n)
  then show ?thesis
    using capture_wait_owns [OF assms(2)] assms(3) by (auto simp: map_option_eq_Some)
qed

lemma capture_open_owns:
  assumes "cpkt_audio_capture_open_default W build M has_out config s = (r, handle, s')"
  shows "case handle of None \<Rightarrow> released s s'
    | Some impl \<Rightarrow> capture_owns W (ds_open s) (ds_children s) impl s' \<and>
        handle_use (cp_rb_initialized impl) (cp_device_initialized impl) s s'"
  using assms
  by (auto simp: cpkt_audio_capture_open_default_def cpkt_audio_capture_alloc_def dev_calloc_def dev_free_def Let_def
      capture_owns_def held_def released_def kept_def live_def uses handle_use_def split: if_splits sum.splits prod.splits)

lemma capture_destroy_releases:
  assumes "posix_ok W" "capture_owns W (ds_open s) (ds_children s) impl s1"
    "handle_use (cp_rb_initialized impl) (cp_device_initialized impl) s s1"
  shows "given_back W s (cpkt_audio_capture_destroy_impl W impl s1)"
proof -
  have "cpkt_audio_capture_destroy_impl W impl s1 = teardown (cp_rb_initialized impl) (cp_device_initialized impl)
      (if cp_process_mode impl then snd (snd (cpkt_audio_process_stop W (cp_process_pid impl) (cp_process_fd impl) s1)) else s1)"
    by (simp add: cpkt_audio_capture_destroy_impl_def teardown_def dev_free_def Let_def)
  then show ?thesis
    using stop_releases assms(2,3) by (simp add: capture_owns_def)
qed

interpretation capture: device_handle "\<lambda>W. capture_call W R D" capture_owns cp_rb_initialized cp_device_initialized
  cpkt_audio_capture_destroy_impl
  for R :: "'r pcm_rb" and D
proof
  show "capture_owns W fds pids h' s' \<and> cp_rb_initialized h' = cp_rb_initialized h \<and>
      cp_device_initialized h' = cp_device_initialized h \<and> kept s s'"
    if "posix_ok W" "capture_owns W fds pids h s" "capture_call W R D c h s = Some (h', s')" for W c fds pids s s' and h h' :: "'r cpkt_audio_capture_impl"
    using capture_call_owns [OF that] by (simp add: capture_step_def capture_same_def)
qed (rule capture_destroy_releases)

text \<open>
  C17: Whatever is done with a capture handle by calls that return, reads to the end of the recording
  and failed starts included, destroying it leaves open no descriptor that was not open before, and gives
  back all memory, the ring and the device; an open that fails leaves nothing. It leaves no child process
  either where waiting for a child fails only by an interruption and never twice in a row
  (\<open>waits_ok\<close>); otherwise children may stay behind, but only ones in addition to those there were.
\<close>

theorem capture_lifecycle:
  assumes "posix_ok W" "cpkt_audio_capture_open_default W build M has_out config s = (r, handle, s1)"
  shows "(handle = None \<and> released s s1) \<or>
    (\<exists>impl. handle = Some impl \<and>
       (\<forall>cs impl' s2. run_calls (capture_call W R D) cs impl s1 = Some (impl', s2) \<longrightarrow>
          given_back W s (cpkt_audio_capture_destroy_impl W impl' s2)))"
proof (cases handle)
  case None
  then show ?thesis using capture_open_owns [OF assms(2)] by simp
next
  case (Some impl)
  note o = capture_open_owns [OF assms(2), unfolded Some option.case]
  have "given_back W s (cpkt_audio_capture_destroy_impl W impl' s2)"
    if "run_calls (capture_call W R D) cs impl s1 = Some (impl', s2)" for cs impl' s2
    using capture.lifecycle [OF assms(1) _ _ that] o by blast
  then show ?thesis using Some by blast
qed

definition no_native :: "unit ma_init" where
  "no_native = \<lparr>mi_ring_zero = (), mi_ring_init = (\<lambda>n. Inr ()), mi_device_init = (\<lambda>ms. MA_INVALID_ARGS)\<rparr>"

definition both_builds :: dev_build where
  "both_builds = \<lparr>native_runtime_device_io = True, auto_process_device_io = False\<rparr>"

lemma quiet_world_ok: "posix_ok quiet_world"
  by (simp add: posix_ok_def quiet_world_def)

lemma quiet_world_waits: "waits_ok quiet_world"
  by (simp add: waits_ok_def quiet_world_def)

lemma quiet_world_commands: "cpkt_audio_process_command_exists quiet_world (Some ''arecord'')"
  "cpkt_audio_process_command_exists quiet_world (Some ''aplay'')"
  by (simp_all add: cpkt_audio_process_command_exists_def command_search.simps quiet_world_def PATH_MAX_def Let_def)

lemma fallback_open:
  "\<exists>impl s1. cpkt_audio_capture_open_default quiet_world both_builds no_native True None dev_state0 =
     (CPKT_AUDIO_OK, Some impl, s1) \<and> cp_process_mode impl \<and> \<not> cp_started impl"
  by (simp add: cpkt_audio_capture_open_default_def cpkt_audio_capture_alloc_def dev_calloc_def Let_def no_native_def
      both_builds_def cpkt_audio_backend_is_process_def cpkt_audio_backend_can_process_def backend_codes
      cpkt_audio_resolve_device_backend_def quiet_world_commands cpkt_audio_device_buffer_frames_def)
    (simp add: quiet_world_def)

lemma quiet_spawn:
  assumes "cpkt_audio_process_command_exists quiet_world (Some (hd argv))" "ds_open s = []" "ds_children s = []" "argv \<noteq> []"
  shows "\<exists>s'. cpkt_audio_process_spawn quiet_world argv to_child nonblock s =
      (CPKT_AUDIO_OK, 77, if to_child then 4 else 3, s') \<and> ds_children s' = [77] \<and> ds_open s' = [if to_child then 4 else 3]"
proof -
  have "dw_pipe quiet_world t = Some (3, 4)" "dw_fork quiet_world t = 77" for t
    by (simp_all add: quiet_world_def)
  with assms show ?thesis
    by (simp add: cpkt_audio_process_spawn_def Let_def posix_close_def)
qed

lemma quiet_read:
  assumes "cp_process_mode impl" "cp_started impl" "0 \<le> cp_process_fd impl" "0 < n"
  shows "cpkt_audio_capture_read_f32_mono_16k_impl quiet_world R D n impl s = (CPKT_AUDIO_OK, [], impl, tick s)"
proof -
  have "posix_read quiet_world fd k s = (ReadAgain, tick s)" for fd k
    by (simp add: posix_read_def quiet_world_def)
  with assms show ?thesis
    by (simp add: cpkt_audio_capture_read_f32_mono_16k_impl_def capture_process_loop.simps [of quiet_world n "[]" impl s] Let_def)
qed

text \<open>The recording command is started and read from; it is still running when the handle is destroyed.\<close>

lemma capture_demo_runs:
  "\<exists>impl s1 impl' s2. cpkt_audio_capture_open_default quiet_world both_builds no_native True None dev_state0 =
      (CPKT_AUDIO_OK, Some impl, s1) \<and>
     run_calls (capture_call quiet_world no_ring (\<lambda>t. [])) [CapStart MA_SUCCESS, CapRead 4] impl s1 = Some (impl', s2) \<and>
     ds_children s2 = [77] \<and> ds_open s2 = [3]"
proof -
  obtain impl s1 where o: "cpkt_audio_capture_open_default quiet_world both_builds no_native True None dev_state0 =
      (CPKT_AUDIO_OK, Some impl, s1)" "cp_process_mode impl" "\<not> cp_started impl"
    using fallback_open by blast
  have s1: "ds_open s1 = []" "ds_children s1 = []"
    using capture_open_owns [OF o(1)] o(2,3) quiet_world_waits
    by (auto simp: capture_owns_def held_def dev_state0_def split: if_splits)
  obtain s2 where sp: "cpkt_audio_process_spawn quiet_world arecord_argv False True s1 = (CPKT_AUDIO_OK, 77, 3, s2)"
      "ds_children s2 = [77]" "ds_open s2 = [3]"
    using quiet_spawn [OF _ s1, of arecord_argv False True] quiet_world_commands(1) by (auto simp: arecord_argv_def)
  let ?i = "impl\<lparr>cp_process_pid := 77, cp_process_fd := 3, cp_started := True\<rparr>"
  have "cpkt_audio_capture_start_impl quiet_world MA_SUCCESS impl s1 = (CPKT_AUDIO_OK, ?i, s2)"
    using o(2,3) sp(1) by (simp add: cpkt_audio_capture_start_impl_def)
  moreover have "cpkt_audio_capture_read_f32_mono_16k_impl quiet_world no_ring (\<lambda>t. []) 4 ?i s2 =
      (CPKT_AUDIO_OK, [], ?i, tick s2)"
    using o(2) by (simp add: quiet_read)
  ultimately show ?thesis
    using o(1) sp(2,3) by auto
qed

theorem capture_lifecycle_witness:
  "\<exists>impl s1 impl' s2. cpkt_audio_capture_open_default quiet_world both_builds no_native True None dev_state0 =
      (CPKT_AUDIO_OK, Some impl, s1) \<and>
     run_calls (capture_call quiet_world no_ring (\<lambda>t. [])) [CapStart MA_SUCCESS, CapRead 4] impl s1 = Some (impl', s2) \<and>
     ds_children s2 = [77] \<and> ds_open s2 = [3] \<and>
     released dev_state0 (cpkt_audio_capture_destroy_impl quiet_world impl' s2)"
proof -
  obtain impl s1 impl' s2 where o: "cpkt_audio_capture_open_default quiet_world both_builds no_native True None dev_state0 =
      (CPKT_AUDIO_OK, Some impl, s1)"
    and r: "run_calls (capture_call quiet_world no_ring (\<lambda>t. [])) [CapStart MA_SUCCESS, CapRead 4] impl s1 = Some (impl', s2)"
      "ds_children s2 = [77]" "ds_open s2 = [3]"
    using capture_demo_runs by blast
  from o r capture_lifecycle [OF quiet_world_ok o, of no_ring "\<lambda>t. []"] show ?thesis
    using given_back_released [OF quiet_world_waits] by blast
qed

section \<open>The life of a playback handle\<close>

datatype playback_op = PlayStart ma_result | PlayWrite "f32 list" | PlayDrain | PlayStop

fun playback_call ::
    "dev_world \<Rightarrow> 'r pcm_rb \<Rightarrow> (nat \<Rightarrow> nat list) \<Rightarrow> playback_op \<Rightarrow> 'r cpkt_audio_playback_impl \<Rightarrow> dev_state \<Rightarrow>
     ('r cpkt_audio_playback_impl \<times> dev_state) option" where
  "playback_call W R P (PlayStart status) impl s = Some (snd (cpkt_audio_playback_start_impl status impl s))"
| "playback_call W R P (PlayWrite frames) impl s =
     map_option (\<lambda>(r, n, out). out) (cpkt_audio_playback_write_f32_mono_16k_impl W R P frames impl s)"
| "playback_call W R P PlayDrain impl s = map_option snd (cpkt_audio_playback_drain_impl W R P impl s)"
| "playback_call W R P PlayStop impl s = Some (snd (cpkt_audio_playback_stop_impl W impl s))"

definition playback_owns :: "dev_world \<Rightarrow> int list \<Rightarrow> int list \<Rightarrow> 'r cpkt_audio_playback_impl \<Rightarrow> dev_state \<Rightarrow> bool" where
  "playback_owns W fds pids impl s \<longleftrightarrow>
     held W fds pids (pb_process_pid impl) (pb_process_fd impl) s \<and> (0 \<le> pb_process_fd impl \<longrightarrow> pb_process_mode impl)"

definition playback_same :: "'r cpkt_audio_playback_impl \<Rightarrow> 'r cpkt_audio_playback_impl \<Rightarrow> bool" where
  "playback_same impl impl' \<longleftrightarrow>
     pb_process_mode impl' = pb_process_mode impl \<and> pb_device_initialized impl' = pb_device_initialized impl \<and>
     pb_rb_initialized impl' = pb_rb_initialized impl"

definition playback_step ::
    "dev_world \<Rightarrow> int list \<Rightarrow> int list \<Rightarrow> 'r cpkt_audio_playback_impl \<Rightarrow> dev_state \<Rightarrow> 'r cpkt_audio_playback_impl \<Rightarrow> dev_state \<Rightarrow> bool" where
  "playback_step W fds pids impl s impl' s' \<longleftrightarrow> playback_owns W fds pids impl' s' \<and> playback_same impl impl' \<and> kept s s'"

lemma playback_step_trans:
  "playback_step W fds pids impl s i1 s1 \<Longrightarrow> playback_step W fds pids i1 s1 i2 s2 \<Longrightarrow> playback_step W fds pids impl s i2 s2"
  using kept_trans by (auto simp: playback_step_def playback_same_def)

text \<open>Everything but the process part leaves the handle's descriptor, child and flags alone.\<close>

definition untouched :: "'r cpkt_audio_playback_impl \<Rightarrow> dev_state \<Rightarrow> 'r cpkt_audio_playback_impl \<Rightarrow> dev_state \<Rightarrow> bool" where
  "untouched impl s impl' s' \<longleftrightarrow>
     pb_process_pid impl' = pb_process_pid impl \<and> pb_process_fd impl' = pb_process_fd impl \<and> playback_same impl impl' \<and> released s s'"

lemma untouched_trans: "untouched impl s i1 s1 \<Longrightarrow> untouched i1 s1 i2 s2 \<Longrightarrow> untouched impl s i2 s2"
  using released_trans by (auto simp: untouched_def playback_same_def)

lemma untouched_refl [simp]: "untouched impl s impl s" "untouched impl s (impl\<lparr>pb_underrun := b\<rparr>) s"
  by (simp_all add: untouched_def playback_same_def)

lemma untouched_step: "playback_owns W fds pids impl s \<Longrightarrow> untouched impl s impl' s' \<Longrightarrow> playback_step W fds pids impl s impl' s'"
  by (auto simp: untouched_def playback_step_def playback_owns_def held_def released_def playback_same_def)

lemma playback_take_untouched: "playback_take R n impl = (out, impl') \<Longrightarrow> untouched impl s impl' s"
proof (induction R n impl arbitrary: out rule: playback_take.induct)
  case (1 R n impl)
  define src where "src = rb_acquire_read R n (pb_rb impl)"
  define k where "k = length src"
  define i1 where "i1 = impl\<lparr>pb_rb := rb_commit_read R k (pb_rb impl)\<rparr>"
  define i2 where "i2 = (if pb_pending_frames i1 \<ge> k then i1\<lparr>pb_pending_frames := pb_pending_frames i1 - k\<rparr>
    else i1\<lparr>pb_pending_frames := 0\<rparr>)"
  have u2: "untouched impl s i2 s"
    by (simp add: untouched_def playback_same_def i1_def i2_def)
  have body: "playback_take R n impl = (if n = 0 then ([], impl) else if src = [] then (replicate n 0, impl\<lparr>pb_underrun := True\<rparr>)
      else let (out, impl) = playback_take R (n - k) i2 in (src @ out, impl))"
    unfolding playback_take.simps [of R n impl] Let_def src_def [symmetric] k_def [symmetric]
      i1_def [symmetric] i2_def [symmetric] by (rule refl)
  have "untouched i2 s impl' s" if "n \<noteq> 0" "src \<noteq> []" "playback_take R (n - k) i2 = (out', impl')" for out'
    using "1.IH" [OF that(1) src_def k_def that(2) i1_def i2_def that(3)] .
  then show ?case
    using "1.prems" body untouched_trans [OF u2] by (auto split: if_splits prod.splits)
qed

lemma playback_run_untouched: "playback_run R P impl s = (impl', s') \<Longrightarrow> untouched impl s impl' s'"
proof -
  have "playback_serve R ns i u = (i', u') \<Longrightarrow> untouched i u i' u'" for ns i u i' u'
  proof (induction ns arbitrary: i u)
    case (Cons n ns)
    obtain out i1 where c: "cpkt_audio_playback_callback R n i = (out, i1)" by fastforce
    then have "untouched i u i1 u"
      using playback_take_untouched by (auto simp: cpkt_audio_playback_callback_def split: if_splits)
    then have "untouched i u i1 (ev (EvOutput out) u)"
      by (simp add: untouched_def released_def kept_def live_def uses)
    then show ?case
      using untouched_trans Cons.IH [of i1 "ev (EvOutput out) u"] Cons.prems c by auto
  qed simp
  moreover assume "playback_run R P impl s = (impl', s')"
  ultimately have "untouched impl (tick s) impl' s'"
    by (simp add: playback_run_def)
  then show ?thesis
    by (simp add: untouched_def released_def kept_def)
qed

lemma untouched_sleep: "untouched impl s impl' s' \<Longrightarrow> untouched impl s impl' (ev (EvSleep n) s')"
  by (simp add: untouched_def released_def kept_def live_def uses)

lemma playback_ring_loop_untouched:
  assumes "playback_ring_loop R P frames impl s = Some out"
  shows "untouched impl s (fst out) (snd out)"
proof (rule playback_ring_loop.raw_induct [where P = "\<lambda>R P frames impl s out. untouched impl s (fst out) (snd out)", OF _ assms])
  fix f R P frames s out and impl :: "'a cpkt_audio_playback_impl"
  assume ih: "\<And>R P frames impl s out. f R P frames impl s = Some out \<Longrightarrow> untouched impl s (fst out) (snd out)"
    and body: "(if frames = [] then Some (impl, s)
      else let (impl, s) = playback_run R P impl s;
            chunk = (if length frames > 4294967295 then 4294967295 else length frames);
            chunk = rb_acquire_write R chunk (pb_rb impl)
        in if chunk = 0 then f R P frames impl (ev (EvSleep 5) s)
        else let impl = impl\<lparr>pb_rb := rb_commit_write R (take chunk frames) (pb_rb impl)\<rparr>;
              (impl, s) = playback_run R P impl s;
              impl = impl\<lparr>pb_pending_frames := sz (pb_pending_frames impl + chunk)\<rparr>
          in f R P (drop chunk frames) impl s) = Some out"
  obtain i1 s1 where r1: "playback_run R P impl s = (i1, s1)" by fastforce
  note u1 = playback_run_untouched [OF r1]
  define ask where "ask = (if length frames > 4294967295 then 4294967295 else length frames)"
  define k where "k = rb_acquire_write R ask (pb_rb i1)"
  define i2 where "i2 = i1\<lparr>pb_rb := rb_commit_write R (take k frames) (pb_rb i1)\<rparr>"
  obtain i3 s3 where r3: "playback_run R P i2 s1 = (i3, s3)" by fastforce
  define i4 where "i4 = i3\<lparr>pb_pending_frames := sz (pb_pending_frames i3 + k)\<rparr>"
  have "untouched i1 s1 i4 s3"
    using playback_run_untouched [OF r3] by (simp add: untouched_def playback_same_def i2_def i4_def)
  note u4 = untouched_trans [OF u1 this]
  have "frames = [] \<and> out = (impl, s) \<or> f R P frames i1 (ev (EvSleep 5) s1) = Some out \<or> f R P (drop k frames) i4 s3 = Some out"
    using body unfolding r1 Let_def prod.case ask_def [symmetric] k_def [symmetric] i2_def [symmetric] r3 i4_def [symmetric]
    by (auto split: if_splits)
  then show "untouched impl s (fst out) (snd out)"
    using untouched_trans [OF untouched_sleep [OF u1] ih] untouched_trans [OF u4 ih] by auto
qed

lemma drain_ring_untouched:
  assumes "drain_ring R P impl s = Some out"
  shows "untouched impl s (fst out) (snd out)"
proof (rule drain_ring.raw_induct [where P = "\<lambda>R P impl s out. untouched impl s (fst out) (snd out)", OF _ assms])
  fix f R P s out and impl :: "'a cpkt_audio_playback_impl"
  assume ih: "\<And>R P impl s out. f R P impl s = Some out \<Longrightarrow> untouched impl s (fst out) (snd out)"
    and body: "(let (impl, s) = playback_run R P impl s in
      if rb_available_read R (pb_rb impl) > 0 then f R P impl (ev (EvSleep 10) s) else Some (impl, s)) = Some out"
  obtain i1 s1 where r1: "playback_run R P impl s = (i1, s1)" by fastforce
  note u1 = playback_run_untouched [OF r1]
  show "untouched impl s (fst out) (snd out)"
    using body [unfolded r1 Let_def prod.case] u1 untouched_trans [OF untouched_sleep [OF u1] ih, of R P] by (auto split: if_splits)
qed

lemma drain_pending_untouched:
  assumes "drain_pending R P impl s = Some out"
  shows "untouched impl s (fst out) (snd out)"
proof (rule drain_pending.raw_induct [where P = "\<lambda>R P impl s out. untouched impl s (fst out) (snd out)", OF _ assms])
  fix f R P s out and impl :: "'a cpkt_audio_playback_impl"
  assume ih: "\<And>R P impl s out. f R P impl s = Some out \<Longrightarrow> untouched impl s (fst out) (snd out)"
    and body: "(let (impl, s) = playback_run R P impl s in
      if pb_pending_frames impl > 0 then f R P impl (ev (EvSleep 10) s) else Some (impl, s)) = Some out"
  obtain i1 s1 where r1: "playback_run R P impl s = (i1, s1)" by fastforce
  note u1 = playback_run_untouched [OF r1]
  show "untouched impl s (fst out) (snd out)"
    using body [unfolded r1 Let_def prod.case] u1 untouched_trans [OF untouched_sleep [OF u1] ih, of R P] by (auto split: if_splits)
qed

lemma note_written_untouched:
  "cpkt_audio_playback_note_written W n impl s = (impl', s') \<Longrightarrow> untouched impl s impl' s'"
  by (auto simp: cpkt_audio_playback_note_written_def cpkt_audio_process_now_ms_def Let_def untouched_def playback_same_def
      released_def kept_def split: if_splits option.splits)

lemma wait_turn_untouched:
  "cpkt_audio_playback_wait_turn_elapsed W extra impl s = (impl', s') \<Longrightarrow> untouched impl s impl' s'"
  by (auto simp: cpkt_audio_playback_wait_turn_elapsed_def cpkt_audio_process_now_ms_def Let_def untouched_def playback_same_def
      released_def kept_def live_def uses split: if_splits option.splits)

lemma process_write_same: "cpkt_audio_process_write W fd bs s = (a, s') \<Longrightarrow> released s s'"
  by (auto simp: cpkt_audio_process_write_def posix_write_def Let_def released_def kept_def live_def uses
      split: if_splits prod.splits sys_write.splits)

lemma write_bytes_same:
  assumes "playback_write_bytes W fd bs s = Some out"
  shows "released s (snd out)"
proof (rule playback_write_bytes.raw_induct [where P = "\<lambda>W fd bs s out. released s (snd out)", OF _ assms])
  fix f W fd bs s out
  assume ih: "\<And>W fd bs s out. f W fd bs s = Some out \<Longrightarrow> released s (snd out)"
    and body: "(if bs = [] then Some (True, s)
      else case cpkt_audio_process_write W fd bs s of
        (WriteIntr, s) \<Rightarrow> f W fd bs s
      | (WritePipe, s) \<Rightarrow> Some (False, s)
      | (WriteFail, s) \<Rightarrow> Some (False, s)
      | (Wrote n, s) \<Rightarrow> if n = 0 then Some (False, s) else f W fd (drop n bs) s) = Some out"
  obtain a s1 where w: "cpkt_audio_process_write W fd bs s = (a, s1)" by fastforce
  note s1 = process_write_same [OF w]
  show "released s (snd out)"
    using body w s1 released_trans [OF s1 ih] by (cases a) (auto split: if_splits)
qed

lemma process_loop_same: "playback_process_loop W fd frames s = Some out \<Longrightarrow> released s (snd out)"
proof (induction W fd frames s arbitrary: out rule: playback_process_loop.induct)
  case (1 W fd frames s)
  define k where "k = (if length frames > process_frame_chunk then process_frame_chunk else length frames)"
  consider "frames = []" "out = (True, s)" | ok s1 where "frames \<noteq> []"
      "playback_write_bytes W fd (frames_to_bytes (dw_nan_cast W) (take k frames)) s = Some (ok, s1)"
      "\<not> ok \<and> out = (False, s1) \<or> ok \<and> playback_process_loop W fd (drop k frames) s1 = Some out"
    using "1.prems" unfolding playback_process_loop.simps [of W fd frames s] k_def [symmetric] Let_def
    by (auto split: option.splits if_splits)
  then show ?case
  proof cases
    case 2
    note s1 = write_bytes_same [OF 2(2), unfolded snd_conv]
    show ?thesis
      using 2(3) s1 released_trans [OF s1 "1.IH" [OF 2(1) k_def 2(2) refl]] by (cases out) auto
  qed simp
qed

lemma playback_write_owns:
  assumes "posix_ok W" "playback_owns W fds pids impl s"
    "cpkt_audio_playback_write_f32_mono_16k_impl W R P frames impl s = Some (r, n, impl', s')"
  shows "playback_step W fds pids impl s impl' s'"
proof -
  define opened where "opened = (if pb_process_fd impl < 0 then
      let (r, pid, fd, s) = cpkt_audio_process_spawn W aplay_argv True False s
      in (r, impl\<lparr>pb_process_pid := pid, pb_process_fd := fd\<rparr>, s) else (CPKT_AUDIO_OK, impl, s))"
  obtain r1 i1 s1 where o: "opened = (r1, i1, s1)" by (metis prod_cases3)
  have stay: "playback_step W fds pids impl s impl s"
    using untouched_step [OF assms(2)] by simp
  have p1: "playback_step W fds pids impl s i1 s1" if "pb_process_mode impl"
  proof (cases "pb_process_fd impl < 0")
    case True
    obtain r pid fd s2 where sp: "cpkt_audio_process_spawn W aplay_argv True False s = (r, pid, fd, s2)" by (metis prod_cases4)
    have "held W fds pids (pb_process_pid impl) (pb_process_fd impl) s"
      using assms(2) by (simp add: playback_owns_def)
    from process_spawn_held [OF assms(1) this True sp] show ?thesis
      using o True that by (auto simp: opened_def sp playback_step_def playback_owns_def playback_same_def)
  next
    case False
    then show ?thesis using o stay by (simp add: opened_def)
  qed
  have go: "playback_step W fds pids impl s i2 s2" if "playback_step W fds pids impl s i s1" "untouched i s1 i2 s2" for i i2 s1 s2
    using playback_step_trans [OF that(1) untouched_step [OF _ that(2)]] that(1) by (auto simp: playback_step_def)
  have pl: "untouched i1 s1 i1 s2" if "playback_process_loop W fd frames s1 = Some (ok, s2)" for fd ok s2
    using process_loop_same [OF that] by (simp add: untouched_def playback_same_def)
  have rl: "untouched impl s i2 s2" if "playback_ring_loop R P frames impl s = Some (i2, s2)" for i2 s2
    using playback_ring_loop_untouched [OF that] by simp
  show ?thesis
  proof (cases "pb_process_mode impl")
    case True
    then show ?thesis
      using assms(3) stay p1 go [OF p1 pl] go [OF go [OF p1 pl] note_written_untouched]
      unfolding cpkt_audio_playback_write_f32_mono_16k_impl_def opened_def [symmetric] o
      by (auto split: if_splits option.splits prod.splits)
  next
    case False
    then show ?thesis
      using assms(3) stay go [OF go [OF stay rl] note_written_untouched]
      by (auto simp: cpkt_audio_playback_write_f32_mono_16k_impl_def split: if_splits option.splits prod.splits)
  qed
qed

lemma playback_drain_owns:
  assumes "posix_ok W" "playback_owns W fds pids impl s" "cpkt_audio_playback_drain_impl W R P impl s = Some (r, impl', s')"
  shows "playback_step W fds pids impl s impl' s'"
proof (cases "pb_process_mode impl")
  case True
  have "held W fds pids (pb_process_pid impl) (pb_process_fd impl) s"
    using assms(2) by (simp add: playback_owns_def)
  from process_finish_held [OF this] True show ?thesis
    using assms(3) untouched_step [OF assms(2) untouched_refl(1)]
    by (auto simp: cpkt_audio_playback_drain_impl_def playback_step_def playback_owns_def playback_same_def
        split: if_splits option.splits)
next
  case False
  then obtain i1 s1 i2 s2 where d: "drain_ring R P impl s = Some (i1, s1)" "drain_pending R P i1 s1 = Some (i2, s2)"
      "cpkt_audio_playback_wait_turn_elapsed W (pb_drain_latency_ms i2) i2 s2 = (impl', s')"
    using assms(3) by (auto simp: cpkt_audio_playback_drain_impl_def split: option.splits prod.splits)
  have "untouched impl s impl' s'"
    using untouched_trans [OF untouched_trans [OF drain_ring_untouched [OF d(1)] drain_pending_untouched] wait_turn_untouched] d(2,3)
    by fastforce
  then show ?thesis by (rule untouched_step [OF assms(2)])
qed

lemma playback_start_owns:
  assumes "playback_owns W fds pids impl s" "cpkt_audio_playback_start_impl status impl s = (r, impl', s')"
  shows "playback_step W fds pids impl s impl' s'"
  using assms by (auto simp: cpkt_audio_playback_start_impl_def playback_step_def playback_owns_def playback_same_def held_def
      kept_def live_def uses split: if_splits)

lemma playback_stop_owns:
  assumes "posix_ok W" "playback_owns W fds pids impl s" "cpkt_audio_playback_stop_impl W impl s = (r, impl', s')"
  shows "playback_step W fds pids impl s impl' s'"
proof (cases "pb_process_mode impl")
  case True
  obtain pid fd s1 where st: "cpkt_audio_process_stop W (pb_process_pid impl) (pb_process_fd impl) s = (pid, fd, s1)"
    by (metis prod_cases3)
  have "held W fds pids (pb_process_pid impl) (pb_process_fd impl) s"
    using assms(2) by (simp add: playback_owns_def)
  from process_stop_held [OF this st] True show ?thesis
    using assms(3) by (auto simp: cpkt_audio_playback_stop_impl_def st playback_step_def playback_owns_def playback_same_def)
next
  case False
  then show ?thesis
    using assms(2,3) by (auto simp: cpkt_audio_playback_stop_impl_def playback_step_def playback_owns_def playback_same_def
        held_def kept_def live_def uses split: if_splits)
qed

lemma playback_call_owns:
  assumes "posix_ok W" "playback_owns W fds pids impl s" "playback_call W R P c impl s = Some (impl', s')"
  shows "playback_step W fds pids impl s impl' s'"
proof (cases c)
  case (PlayStart status)
  then show ?thesis
    using playback_start_owns [OF assms(2)] assms(3) by (metis playback_call.simps(1) option.inject prod.collapse)
next
  case (PlayWrite frames)
  then show ?thesis
    using playback_write_owns [OF assms(1,2)] assms(3) by (auto simp: map_option_eq_Some)
next
  case PlayDrain
  then show ?thesis
    using playback_drain_owns [OF assms(1,2)] assms(3) by (auto simp: map_option_eq_Some)
next
  case PlayStop
  then show ?thesis
    using playback_stop_owns [OF assms(1,2)] assms(3) by (metis playback_call.simps(4) option.inject prod.collapse)
qed

lemma playback_open_owns:
  assumes "cpkt_audio_playback_open_default W build M has_out config s = (r, handle, s')"
  shows "case handle of None \<Rightarrow> released s s'
    | Some impl \<Rightarrow> playback_owns W (ds_open s) (ds_children s) impl s' \<and>
        handle_use (pb_rb_initialized impl) (pb_device_initialized impl) s s'"
  using assms
  by (auto simp: cpkt_audio_playback_open_default_def cpkt_audio_playback_alloc_def dev_calloc_def dev_free_def Let_def
      playback_owns_def held_def released_def kept_def live_def uses handle_use_def split: if_splits sum.splits prod.splits)

lemma playback_destroy_releases:
  assumes "posix_ok W" "playback_owns W (ds_open s) (ds_children s) impl s1"
    "handle_use (pb_rb_initialized impl) (pb_device_initialized impl) s s1"
  shows "given_back W s (cpkt_audio_playback_destroy_impl W impl s1)"
proof -
  have "cpkt_audio_playback_destroy_impl W impl s1 = teardown (pb_rb_initialized impl) (pb_device_initialized impl)
      (if pb_process_mode impl then snd (snd (cpkt_audio_process_stop W (pb_process_pid impl) (pb_process_fd impl) s1)) else s1)"
    by (simp add: cpkt_audio_playback_destroy_impl_def teardown_def dev_free_def Let_def)
  then show ?thesis
    using stop_releases assms(2,3) by (simp add: playback_owns_def)
qed

interpretation playback: device_handle "\<lambda>W. playback_call W R P" playback_owns pb_rb_initialized pb_device_initialized
  cpkt_audio_playback_destroy_impl
  for R :: "'r pcm_rb" and P
proof
  show "playback_owns W fds pids h' s' \<and> pb_rb_initialized h' = pb_rb_initialized h \<and>
      pb_device_initialized h' = pb_device_initialized h \<and> kept s s'"
    if "posix_ok W" "playback_owns W fds pids h s" "playback_call W R P c h s = Some (h', s')" for W c fds pids s s' and h h' :: "'r cpkt_audio_playback_impl"
    using playback_call_owns [OF that] by (simp add: playback_step_def playback_same_def)
qed (rule playback_destroy_releases)

text \<open>
  C18: Whatever is done with a playback handle by calls that return, failed and interrupted writes
  included, destroying it leaves open no descriptor that was not open before, and gives back all memory,
  the ring and the device; an open that fails leaves nothing. It leaves no child process either where
  waiting for a child fails only by an interruption and never twice in a row (\<open>waits_ok\<close>);
  otherwise children may stay behind, but only ones in addition to those there were.
\<close>

theorem playback_lifecycle:
  assumes "posix_ok W" "cpkt_audio_playback_open_default W build M has_out config s = (r, handle, s1)"
  shows "(handle = None \<and> released s s1) \<or>
    (\<exists>impl. handle = Some impl \<and>
       (\<forall>cs impl' s2. run_calls (playback_call W R P) cs impl s1 = Some (impl', s2) \<longrightarrow>
          given_back W s (cpkt_audio_playback_destroy_impl W impl' s2)))"
proof (cases handle)
  case None
  then show ?thesis using playback_open_owns [OF assms(2)] by simp
next
  case (Some impl)
  note o = playback_open_owns [OF assms(2), unfolded Some option.case]
  have "given_back W s (cpkt_audio_playback_destroy_impl W impl' s2)"
    if "run_calls (playback_call W R P) cs impl s1 = Some (impl', s2)" for cs impl' s2
    using playback.lifecycle [OF assms(1) _ _ that] o by blast
  then show ?thesis using Some by blast
qed

lemma process_playback_open:
  "\<exists>impl s1. cpkt_audio_playback_open_default quiet_world both_builds no_native True
     (Some \<lparr>pg_backend = CPKT_AUDIO_DEVICE_BACKEND_PROCESS, pg_buffer_ms = 0, pg_period_ms = 0\<rparr>) dev_state0 =
     (CPKT_AUDIO_OK, Some impl, s1) \<and> pb_process_mode impl \<and> pb_process_fd impl < 0 \<and> \<not> pb_started impl"
  by (simp add: cpkt_audio_playback_open_default_def cpkt_audio_playback_alloc_def dev_calloc_def Let_def
      cpkt_audio_backend_is_process_def quiet_world_commands cpkt_audio_device_buffer_frames_def)
    (simp add: quiet_world_def)

text \<open>Writing starts the playing command; it is still running when the handle is destroyed.\<close>

lemma quiet_write_bytes:
  "\<exists>s'. playback_write_bytes quiet_world fd bs s = Some (True, s') \<and> ds_children s' = ds_children s \<and> ds_open s' = ds_open s"
proof -
  obtain s1 where w: "cpkt_audio_process_write quiet_world fd bs s = (Wrote (length bs), s1)"
    by (simp add: cpkt_audio_process_write_def posix_write_def quiet_world_def Let_def split: prod.splits)
  note same = process_write_same [OF w]
  show ?thesis
    using w same
    by (simp add: playback_write_bytes.simps [of quiet_world fd bs s] playback_write_bytes.simps [of quiet_world fd "[]" s1] released_def)
qed

lemma playback_demo_runs:
  "\<exists>impl s1 impl' s2. cpkt_audio_playback_open_default quiet_world both_builds no_native True
      (Some \<lparr>pg_backend = CPKT_AUDIO_DEVICE_BACKEND_PROCESS, pg_buffer_ms = 0, pg_period_ms = 0\<rparr>) dev_state0 =
      (CPKT_AUDIO_OK, Some impl, s1) \<and>
     run_calls (playback_call quiet_world no_ring (\<lambda>t. [])) [PlayStart MA_SUCCESS, PlayWrite [1, 2]] impl s1 = Some (impl', s2) \<and>
     ds_children s2 = [77] \<and> ds_open s2 = [4]"
proof -
  obtain impl s1 where o: "cpkt_audio_playback_open_default quiet_world both_builds no_native True
      (Some \<lparr>pg_backend = CPKT_AUDIO_DEVICE_BACKEND_PROCESS, pg_buffer_ms = 0, pg_period_ms = 0\<rparr>) dev_state0 =
      (CPKT_AUDIO_OK, Some impl, s1)" "pb_process_mode impl" "pb_process_fd impl < 0" "\<not> pb_started impl"
    using process_playback_open by blast
  have s1: "ds_open s1 = []" "ds_children s1 = []"
    using playback_open_owns [OF o(1)] o(3) quiet_world_waits
    by (auto simp: playback_owns_def held_def dev_state0_def split: if_splits)
  obtain s2 where sp: "cpkt_audio_process_spawn quiet_world aplay_argv True False s1 = (CPKT_AUDIO_OK, 77, 4, s2)"
      "ds_children s2 = [77]" "ds_open s2 = [4]"
    using quiet_spawn [OF _ s1, of aplay_argv True False] quiet_world_commands(2) by (auto simp: aplay_argv_def)
  obtain s3 where w: "playback_process_loop quiet_world 4 [1, 2] s2 = Some (True, s3)"
      "ds_children s3 = [77]" "ds_open s3 = [4]"
    using quiet_write_bytes [of 4 "frames_to_bytes (dw_nan_cast quiet_world) [1, 2]" s2] sp(2,3)
    by (auto simp: playback_process_loop.simps [of quiet_world 4 "[1, 2]" s2] playback_process_loop.simps [of quiet_world 4 "[]"])
  let ?i = "impl\<lparr>pb_started := True, pb_turn_frames_written := 0, pb_turn_started_ms := 0\<rparr>"
  obtain i4 s4 where n: "cpkt_audio_playback_note_written quiet_world (length [1 :: f32, 2])
      (?i\<lparr>pb_process_pid := 77, pb_process_fd := 4\<rparr>) s3 = (i4, s4)" by fastforce
  have "cpkt_audio_playback_start_impl MA_SUCCESS impl s1 = (CPKT_AUDIO_OK, ?i, s1)"
    using o(2,4) by (simp add: cpkt_audio_playback_start_impl_def)
  moreover have "cpkt_audio_playback_write_f32_mono_16k_impl quiet_world no_ring (\<lambda>t. []) [1, 2] ?i s1 =
      Some (CPKT_AUDIO_OK, length [1 :: f32, 2], i4, s4)"
    unfolding cpkt_audio_playback_write_f32_mono_16k_impl_def using o(2,3) sp(1) w(1) n by (simp add: Let_def)
  moreover have "ds_children s4 = [77]" "ds_open s4 = [4]"
    using note_written_untouched [OF n] w(2,3) by (simp_all add: untouched_def released_def)
  ultimately show ?thesis
    using o(1) by auto
qed

theorem playback_lifecycle_witness:
  "\<exists>impl s1 impl' s2. cpkt_audio_playback_open_default quiet_world both_builds no_native True
      (Some \<lparr>pg_backend = CPKT_AUDIO_DEVICE_BACKEND_PROCESS, pg_buffer_ms = 0, pg_period_ms = 0\<rparr>) dev_state0 =
      (CPKT_AUDIO_OK, Some impl, s1) \<and>
     run_calls (playback_call quiet_world no_ring (\<lambda>t. [])) [PlayStart MA_SUCCESS, PlayWrite [1, 2]] impl s1 = Some (impl', s2) \<and>
     ds_children s2 = [77] \<and> ds_open s2 = [4] \<and>
     released dev_state0 (cpkt_audio_playback_destroy_impl quiet_world impl' s2)"
proof -
  obtain impl s1 impl' s2 where o: "cpkt_audio_playback_open_default quiet_world both_builds no_native True
      (Some \<lparr>pg_backend = CPKT_AUDIO_DEVICE_BACKEND_PROCESS, pg_buffer_ms = 0, pg_period_ms = 0\<rparr>) dev_state0 =
      (CPKT_AUDIO_OK, Some impl, s1)"
    and r: "run_calls (playback_call quiet_world no_ring (\<lambda>t. [])) [PlayStart MA_SUCCESS, PlayWrite [1, 2]] impl s1 = Some (impl', s2)"
      "ds_children s2 = [77]" "ds_open s2 = [4]"
    using playback_demo_runs by blast
  from o r playback_lifecycle [OF quiet_world_ok o, of no_ring "\<lambda>t. []"] show ?thesis
    using given_back_released [OF quiet_world_waits] by blast
qed

end
