(* ===== verification/Lua_Alloc.thy ===== *)
theory Lua_Alloc
  imports Cpkt_Prelude
begin

text \<open>
  The memory side of the Lua runtime facade (\<open>src/src/lua_runtime.c\<close>, lines 112 to 290): the C heap,
  the default allocator functions and the limited, counting allocator that serves both the facade's own
  blocks and Lua itself.

  A heap block carries its bytes, so that the copying fallback of the reallocation is checked on
  contents. The locale \<open>sys_allocator\<close> is the contract of the caller-supplied functions; it is
  interpreted on the default functions, and the accounting lemmas are proved once inside it for every
  allocator that keeps the contract.
\<close>

section \<open>The C heap\<close>

text \<open>
  A heap block is its address and its bytes. \<open>answers\<close> says what the C library decides on the next
  requests: refuse, serve from a fresh address, or (for \<open>realloc\<close>) resize in place; a heap whose list
  has run out serves from fresh addresses. \<open>user\<close> is the state behind the \<open>user\<close> pointer of a
  caller-supplied allocator.
\<close>

type_synonym addr = nat

datatype heap_answer = Refuse | Fresh | InPlace

record 'u world =
  blocks :: "(addr \<times> string) list"
  next_addr :: addr
  answers :: "heap_answer list"
  user :: 'u

definition live :: "'u world \<Rightarrow> addr \<rightharpoonup> string" where
  "live w = map_of (blocks w)"

definition heap_total :: "'u world \<Rightarrow> nat" where
  "heap_total w = sum_list (map (\<lambda>b. length (snd b)) (blocks w))"

definition world_wf :: "'u world \<Rightarrow> bool" where
  "world_wf w \<longleftrightarrow> distinct (map fst (blocks w)) \<and> (\<forall>b \<in> set (blocks w). fst b < next_addr w) \<and>
     heap_total w \<le> size_max"

definition next_answer :: "'u world \<Rightarrow> heap_answer" where
  "next_answer w = (case answers w of [] \<Rightarrow> Fresh | x # _ \<Rightarrow> x)"

definition pop_answer :: "'u world \<Rightarrow> 'u world" where
  "pop_answer w = w\<lparr>answers := tl (answers w)\<rparr>"

definition malloc :: "'u world \<Rightarrow> nat \<Rightarrow> addr option \<times> 'u world" where
  "malloc w n =
     (if next_answer w = Refuse \<or> size_max < heap_total w + n then (None, pop_answer w)
      else (Some (next_addr w),
            (pop_answer w)\<lparr>blocks := (next_addr w, replicate n CHR ''?'') # blocks w,
                            next_addr := Suc (next_addr w)\<rparr>))"

definition libc_free :: "'u world \<Rightarrow> addr \<Rightarrow> 'u world" where
  "libc_free w a = w\<lparr>blocks := filter (\<lambda>b. fst b \<noteq> a) (blocks w)\<rparr>"

definition resized :: "string \<Rightarrow> nat \<Rightarrow> string" where
  "resized c n = take n c @ replicate (n - length c) CHR ''?''"

definition libc_realloc :: "'u world \<Rightarrow> addr \<Rightarrow> nat \<Rightarrow> addr option \<times> 'u world" where
  "libc_realloc w a n =
     (case live w a of
        None \<Rightarrow> (None, pop_answer w)
      | Some c \<Rightarrow>
          if next_answer w = Refuse \<or> size_max < heap_total w - length c + n
          then (None, pop_answer w)
          else
            (let b = (if next_answer w = InPlace then a else next_addr w);
                 w1 = libc_free (pop_answer w) a in
             (Some b, w1\<lparr>blocks := (b, resized c n) # blocks w1,
                         next_addr := max (next_addr w) (Suc b)\<rparr>)))"

definition poke :: "'u world \<Rightarrow> addr \<Rightarrow> string \<Rightarrow> 'u world" where
  "poke w a bs = w\<lparr>blocks := map (\<lambda>b. if fst b = a then (a, bs @ drop (length bs) (snd b)) else b) (blocks w)\<rparr>"

section \<open>Facts on the heap\<close>

definition map_total :: "(addr \<rightharpoonup> string) \<Rightarrow> nat" where
  "map_total m = (\<Sum>a\<in>dom m. length (the (m a)))"

lemma map_total_insert:
  "finite (dom m) \<Longrightarrow> m a = None \<Longrightarrow> map_total (m(a \<mapsto> c)) = map_total m + length c"
proof -
  assume fin: "finite (dom m)" and new: "m a = None"
  then have "a \<notin> dom m" by auto
  moreover have "(\<Sum>x\<in>dom m. length (the ((m(a \<mapsto> c)) x))) = map_total m"
    unfolding map_total_def using \<open>a \<notin> dom m\<close> by (intro sum.cong) auto
  ultimately show ?thesis
    using fin by (simp add: map_total_def)
qed

lemma heap_total_live:
  assumes "distinct (map fst (blocks w))"
  shows "heap_total w = map_total (live w)"
proof -
  have "sum_list (map (\<lambda>b. length (snd b)) bs) = map_total (map_of bs)"
    if "distinct (map fst bs)" for bs :: "(addr \<times> string) list"
    using that
  proof (induction bs)
    case (Cons b bs)
    have "map_of bs (fst b) = None"
      using Cons.prems by (simp add: map_of_eq_None_iff)
    then show ?case
      using Cons map_total_insert [OF finite_dom_map_of, of bs "fst b" "snd b"] by (simp add: fun_upd_def)
  qed (simp add: map_total_def)
  from this [OF assms] show ?thesis
    by (simp add: heap_total_def live_def)
qed

lemma finite_live [simp]: "finite (dom (live w))"
  by (simp add: live_def finite_dom_map_of)

lemma map_total_delete:
  assumes fin: "finite (dom m)" and c: "m a = Some c"
  shows "map_total m = map_total (m(a := None)) + length c"
proof -
  have "(m(a := None))(a \<mapsto> c) = m"
    using c by (auto simp: fun_eq_iff)
  moreover have "finite (dom (m(a := None)))"
    using fin by simp
  ultimately show ?thesis
    using map_total_insert [of "m(a := None)" a c] by simp
qed

lemma wf_total: "world_wf w \<Longrightarrow> heap_total w = map_total (live w)"
  by (simp add: world_wf_def heap_total_live)

lemma total_alloc:
  assumes "world_wf w" "world_wf w'" "live w a = None" "live w' = (live w)(a \<mapsto> c)"
  shows "heap_total w' = heap_total w + length c"
  using assms map_total_insert [of "live w" a c] by (simp add: wf_total)

lemma total_free:
  assumes "world_wf w" "world_wf w'" "live w a = Some c" "live w' = (live w)(a := None)"
  shows "heap_total w' = heap_total w - length c \<and> length c \<le> heap_total w"
  using assms map_total_delete [of "live w" a c] by (simp add: wf_total)

lemma total_realloc:
  assumes "world_wf w" "world_wf w'" "live w a = Some c" "b = a \<or> live w b = None"
    "live w' = ((live w)(a := None))(b \<mapsto> d)"
  shows "heap_total w' = heap_total w - length c + length d \<and> length c \<le> heap_total w"
proof -
  have "((live w)(a := None)) b = None"
    using assms(4) by auto
  then have "map_total (live w') = map_total ((live w)(a := None)) + length d"
    unfolding assms(5) by (intro map_total_insert) simp_all
  with map_total_delete [of "live w" a c] assms show ?thesis
    by (simp add: wf_total)
qed

lemma live_pop [simp]: "live (pop_answer w) = live w"
  by (simp add: live_def pop_answer_def)

lemma wf_pop [simp]: "world_wf (pop_answer w) = world_wf w"
  by (simp add: world_wf_def pop_answer_def heap_total_def)

lemma fresh_not_live: "world_wf w \<Longrightarrow> live w (next_addr w) = None"
  by (fastforce simp: world_wf_def live_def map_of_eq_None_iff)

lemma live_libc_free: "live (libc_free w a) = (live w)(a := None)"
proof -
  have "map_of (filter (\<lambda>b. fst b \<noteq> a) bs) = (map_of bs)(a := None)" for bs :: "(addr \<times> string) list"
    by (induction bs) (auto simp: fun_eq_iff)
  then show ?thesis
    by (simp add: live_def libc_free_def)
qed

lemma heap_total_libc_free: "heap_total (libc_free w a) \<le> heap_total w"
proof -
  have "sum_list (map (\<lambda>b. length (snd b)) (filter (\<lambda>b. fst b \<noteq> a) bs)) \<le>
      sum_list (map (\<lambda>b. length (snd b)) bs)" for bs :: "(addr \<times> string) list"
    by (induction bs) auto
  then show ?thesis
    by (simp add: heap_total_def libc_free_def)
qed

lemma wf_libc_free: "world_wf w \<Longrightarrow> world_wf (libc_free w a)"
  using heap_total_libc_free [of w a]
  by (auto simp: world_wf_def libc_free_def distinct_map_filter intro: order_trans)

lemma live_poke:
  "live (poke w a bs) = (case live w a of None \<Rightarrow> live w | Some c \<Rightarrow> (live w)(a \<mapsto> bs @ drop (length bs) c))"
proof -
  have "map_of (map (\<lambda>b. if fst b = a then (a, bs @ drop (length bs) (snd b)) else b) xs) =
     (case map_of xs a of None \<Rightarrow> map_of xs
      | Some c \<Rightarrow> (map_of xs)(a \<mapsto> bs @ drop (length bs) c))" for xs :: "(addr \<times> string) list"
    by (induction xs) (auto simp: fun_eq_iff split: option.splits)
  then show ?thesis
    unfolding live_def poke_def by simp
qed

lemma poke_addrs [simp]: "map fst (blocks (poke w a bs)) = map fst (blocks w)"
  by (auto simp: poke_def)

lemma total_poke:
  assumes "world_wf w" "live w a = Some c" "length bs \<le> length c"
  shows "heap_total (poke w a bs) = heap_total w"
proof -
  have "distinct (map fst (blocks (poke w a bs)))"
    using assms(1) by (simp only: world_wf_def poke_addrs)
  then have "heap_total (poke w a bs) = map_total ((live w)(a \<mapsto> bs @ drop (length bs) c))"
    using assms by (simp add: heap_total_live live_poke)
  also have "\<dots> = map_total (((live w)(a := None))(a \<mapsto> bs @ drop (length bs) c))"
    by simp
  also have "\<dots> = map_total ((live w)(a := None)) + length c"
    using assms(3) map_total_insert [of "(live w)(a := None)" a "bs @ drop (length bs) c"] by simp
  finally show ?thesis
    using map_total_delete [of "live w" a c] assms by (simp add: wf_total)
qed

lemma wf_poke:
  assumes "world_wf w" "live w a = Some c" "length bs \<le> length c"
  shows "world_wf (poke w a bs)"
proof -
  have "\<forall>b \<in> set (blocks (poke w a bs)). fst b < next_addr (poke w a bs)"
    using assms(1) by (auto simp: world_wf_def poke_def)
  moreover have "distinct (map fst (blocks (poke w a bs)))"
    using assms(1) by (simp only: world_wf_def poke_addrs)
  ultimately show ?thesis
    using total_poke [OF assms] assms(1) by (simp add: world_wf_def)
qed

section \<open>The allocator\<close>

text \<open>
  \<open>struct cpkt_lua_runtime_allocator\<close> with its \<open>config\<close>. The call-back pointers of the configuration
  are options (\<open>NULL\<close> is \<open>None\<close>). Only \<open>cpkt_lua_runtime_new_with_allocator\<close> initialises an
  allocator, after it has refused a configuration with just one of \<open>alloc_fn\<close> and \<open>free_fn\<close>; the
  allocator therefore always holds both functions.
\<close>

type_synonym 'u alloc_fun = "'u world \<Rightarrow> nat \<Rightarrow> addr option \<times> 'u world"
type_synonym 'u realloc_fun = "'u world \<Rightarrow> addr \<Rightarrow> nat \<Rightarrow> nat \<Rightarrow> addr option \<times> 'u world"
type_synonym 'u free_fun = "'u world \<Rightarrow> addr \<Rightarrow> nat \<Rightarrow> 'u world"

record 'u allocator_config =
  cfg_alloc_fn :: "'u alloc_fun option"
  cfg_realloc_fn :: "'u realloc_fun option"
  cfg_free_fn :: "'u free_fun option"
  cfg_max_bytes :: nat

record 'u lua_allocator =
  alloc_fn :: "'u alloc_fun"
  realloc_fn :: "'u realloc_fun option"
  free_fn :: "'u free_fun"
  max_bytes :: nat
  used :: nat
  failed :: bool
  world :: "'u world"

definition cpkt_lua_runtime_default_alloc :: "'u world \<Rightarrow> nat \<Rightarrow> addr option \<times> 'u world" where
  "cpkt_lua_runtime_default_alloc w n = malloc w n"

definition cpkt_lua_runtime_default_realloc ::
    "'u world \<Rightarrow> addr \<Rightarrow> nat \<Rightarrow> nat \<Rightarrow> addr option \<times> 'u world" where
  "cpkt_lua_runtime_default_realloc w a old_size new_size = libc_realloc w a new_size"

definition cpkt_lua_runtime_default_free :: "'u world \<Rightarrow> addr \<Rightarrow> nat \<Rightarrow> 'u world" where
  "cpkt_lua_runtime_default_free w a n = libc_free w a"

text \<open>
  In C the default functions replace the configured ones only where both are missing. A configuration
  with just one of them is refused by \<open>cpkt_lua_runtime_new_with_allocator\<close>, the only caller, before it
  gets here; the record of the allocator has no room for it, and the case falls under the default.
\<close>

definition cpkt_lua_runtime_allocator_init ::
    "'u world \<Rightarrow> 'u allocator_config option \<Rightarrow> nat \<Rightarrow> 'u lua_allocator" where
  "cpkt_lua_runtime_allocator_init w config limit =
     (let c = (case config of None \<Rightarrow> \<lparr>cfg_alloc_fn = None, cfg_realloc_fn = None, cfg_free_fn = None, cfg_max_bytes = 0\<rparr>
               | Some c \<Rightarrow> c);
          m = (if limit \<noteq> 0 then limit else cfg_max_bytes c) in
      case (cfg_alloc_fn c, cfg_free_fn c) of
        (Some f, Some g) \<Rightarrow>
          \<lparr>alloc_fn = f, realloc_fn = cfg_realloc_fn c, free_fn = g,
           max_bytes = m, used = 0, failed = False, world = w\<rparr>
      | _ \<Rightarrow>
          \<lparr>alloc_fn = cpkt_lua_runtime_default_alloc,
           realloc_fn = Some cpkt_lua_runtime_default_realloc,
           free_fn = cpkt_lua_runtime_default_free,
           max_bytes = m, used = 0, failed = False, world = w\<rparr>)"

definition cpkt_lua_runtime_allocator_can_grow ::
    "'u lua_allocator \<Rightarrow> nat \<Rightarrow> nat \<Rightarrow> bool \<times> 'u lua_allocator" where
  "cpkt_lua_runtime_allocator_can_grow al old_size new_size =
     (if max_bytes al = 0 \<or> new_size \<le> old_size then (True, al)
      else
        let adjusted_used = (if old_size \<le> used al then used al - old_size else 0) in
        if max_bytes al \<le> adjusted_used then (False, al\<lparr>failed := True\<rparr>)
        else if max_bytes al - adjusted_used < new_size then (False, al\<lparr>failed := True\<rparr>)
        else (True, al))"

definition cpkt_lua_runtime_allocator_account ::
    "'u lua_allocator \<Rightarrow> nat \<Rightarrow> nat \<Rightarrow> 'u lua_allocator" where
  "cpkt_lua_runtime_allocator_account al old_size new_size =
     al\<lparr>used := sz ((if old_size \<le> used al then used al - old_size else 0) + new_size)\<rparr>"

definition cpkt_lua_runtime_allocator_alloc ::
    "'u lua_allocator \<Rightarrow> nat \<Rightarrow> addr option \<times> 'u lua_allocator" where
  "cpkt_lua_runtime_allocator_alloc al requested =
     (let n = (if requested = 0 then 1 else requested);
          (ok, al) = cpkt_lua_runtime_allocator_can_grow al 0 n in
      if \<not> ok then (None, al)
      else
        let (ptr, w) = alloc_fn al (world al) n; al = al\<lparr>world := w\<rparr> in
        case ptr of
          None \<Rightarrow> (None, al\<lparr>failed := True\<rparr>)
        | Some p \<Rightarrow> (Some p, cpkt_lua_runtime_allocator_account al 0 n))"

definition copy_block :: "'u world \<Rightarrow> addr \<Rightarrow> addr \<Rightarrow> nat \<Rightarrow> 'u world" where
  "copy_block w dst src n =
     (case live w src of None \<Rightarrow> w | Some c \<Rightarrow> poke w dst (take n c))"

definition cpkt_lua_runtime_allocator_realloc ::
    "'u lua_allocator \<Rightarrow> addr option \<Rightarrow> nat \<Rightarrow> nat \<Rightarrow> addr option \<times> 'u lua_allocator" where
  "cpkt_lua_runtime_allocator_realloc al ptr old_size new_size =
     (case ptr of
        None \<Rightarrow>
          if new_size = 0 then (None, al)
          else cpkt_lua_runtime_allocator_alloc al new_size
      | Some p \<Rightarrow>
          if new_size = 0 then
            (None, cpkt_lua_runtime_allocator_account
                     (al\<lparr>world := free_fn al (world al) p old_size\<rparr>) old_size 0)
          else
            let (ok, al) = cpkt_lua_runtime_allocator_can_grow al old_size new_size in
            if \<not> ok then (None, al)
            else
              case realloc_fn al of
                Some re \<Rightarrow>
                  (let (q, w) = re (world al) p old_size new_size; al = al\<lparr>world := w\<rparr> in
                   case q of
                     None \<Rightarrow> (None, al\<lparr>failed := True\<rparr>)
                   | Some q \<Rightarrow> (Some q, cpkt_lua_runtime_allocator_account al old_size new_size))
              | None \<Rightarrow>
                  (let (q, w) = alloc_fn al (world al) new_size; al = al\<lparr>world := w\<rparr> in
                   case q of
                     None \<Rightarrow> (None, al\<lparr>failed := True\<rparr>)
                   | Some q \<Rightarrow>
                       let copy_size = (if old_size < new_size then old_size else new_size);
                           w = (if copy_size \<noteq> 0 then copy_block (world al) q p copy_size
                                else world al);
                           w = free_fn al w p old_size in
                       (Some q, cpkt_lua_runtime_allocator_account (al\<lparr>world := w\<rparr>) old_size new_size)))"

definition cpkt_lua_runtime_allocator_free ::
    "'u lua_allocator \<Rightarrow> addr option \<Rightarrow> nat \<Rightarrow> 'u lua_allocator" where
  "cpkt_lua_runtime_allocator_free al ptr n =
     (case ptr of
        None \<Rightarrow> al
      | Some p \<Rightarrow>
          cpkt_lua_runtime_allocator_account (al\<lparr>world := free_fn al (world al) p n\<rparr>) n 0)"

definition cpkt_lua_runtime_lua_alloc ::
    "'u lua_allocator \<Rightarrow> addr option \<Rightarrow> nat \<Rightarrow> nat \<Rightarrow> addr option \<times> 'u lua_allocator" where
  "cpkt_lua_runtime_lua_alloc al ptr osize nsize =
     cpkt_lua_runtime_allocator_realloc al ptr osize nsize"

section \<open>What the underlying allocator promises\<close>

text \<open>
  The contract of \<open>alloc_fn\<close>, \<open>realloc_fn\<close> and \<open>free_fn\<close> in \<open>cpkt/lua_runtime.h\<close>, which is that of
  \<open>malloc\<close>, \<open>realloc\<close> and \<open>free\<close>: a served request gives a block that was not live, of the size asked
  for; a refused one changes no block; a reallocated block keeps its bytes up to the smaller size.
\<close>

locale sys_allocator =
  fixes af :: "'u alloc_fun" and rf :: "'u realloc_fun option" and ff :: "'u free_fun"
  assumes alloc_serves: "world_wf w \<Longrightarrow> 0 < n \<Longrightarrow> af w n = (Some a, w') \<Longrightarrow>
      world_wf w' \<and> live w a = None \<and> (\<exists>c. length c = n \<and> live w' = (live w)(a \<mapsto> c))"
    and alloc_refuses: "world_wf w \<Longrightarrow> 0 < n \<Longrightarrow> af w n = (None, w') \<Longrightarrow>
      world_wf w' \<and> live w' = live w"
    and realloc_serves: "rf = Some re \<Longrightarrow> world_wf w \<Longrightarrow> live w a = Some c \<Longrightarrow> 0 < n \<Longrightarrow>
      re w a (length c) n = (Some b, w') \<Longrightarrow>
      world_wf w' \<and> (b = a \<or> live w b = None) \<and>
      (\<exists>d. length d = n \<and> take (min (length c) n) d = take (min (length c) n) c \<and>
        live w' = ((live w)(a := None))(b \<mapsto> d))"
    and realloc_refuses: "rf = Some re \<Longrightarrow> world_wf w \<Longrightarrow> live w a = Some c \<Longrightarrow> 0 < n \<Longrightarrow>
      re w a (length c) n = (None, w') \<Longrightarrow> world_wf w' \<and> live w' = live w"
    and free_releases: "world_wf w \<Longrightarrow> live w a = Some c \<Longrightarrow>
      world_wf (ff w a (length c)) \<and> live (ff w a (length c)) = (live w)(a := None)"

lemma malloc_serves:
  assumes wf: "world_wf w" and r: "malloc w n = (Some a, w')"
  shows "world_wf w' \<and> live w a = None \<and> live w' = (live w)(a \<mapsto> replicate n CHR ''?'')"
proof -
  from r have fit: "heap_total w + n \<le> size_max" and a: "a = next_addr w"
    and w': "w' = (pop_answer w)\<lparr>blocks := (a, replicate n CHR ''?'') # blocks w, next_addr := Suc a\<rparr>"
    by (auto simp: malloc_def split: if_splits)
  have fresh: "a \<notin> fst ` set (blocks w)"
    using wf a by (auto simp: world_wf_def)
  have "live w' = (live w)(a \<mapsto> replicate n CHR ''?'')"
    by (simp add: w' live_def fun_upd_def)
  moreover have "heap_total w' = heap_total w + n"
    by (simp add: w' heap_total_def)
  moreover have "\<forall>b \<in> set (blocks w'). fst b < next_addr w'"
    using wf a by (auto simp: w' world_wf_def less_SucI)
  moreover have "distinct (map fst (blocks w'))"
    using wf fresh by (simp add: w' world_wf_def)
  ultimately show ?thesis
    using fit fresh_not_live [OF wf] a by (simp add: world_wf_def)
qed

lemma malloc_refuses:
  assumes "malloc w n = (None, w')"
  shows "w' = pop_answer w"
  using assms by (simp add: malloc_def split: if_splits)

lemma length_resized [simp]: "length (resized c n) = n"
  by (simp add: resized_def)

lemma resized_prefix: "take (min (length c) n) (resized c n) = take (min (length c) n) c"
  by (simp add: resized_def min_def)

lemma libc_realloc_serves:
  assumes wf: "world_wf w" and c: "live w a = Some c" and r: "libc_realloc w a n = (Some b, w')"
  shows "world_wf w' \<and> (b = a \<or> live w b = None) \<and> live w' = ((live w)(a := None))(b \<mapsto> resized c n)"
proof -
  let ?f = "libc_free (pop_answer w) a"
  from r c have fit: "heap_total w - length c + n \<le> size_max"
    and b: "b = (if next_answer w = InPlace then a else next_addr w)"
    and w': "w' = ?f\<lparr>blocks := (b, resized c n) # blocks ?f, next_addr := max (next_addr w) (Suc b)\<rparr>"
    by (auto simp: libc_realloc_def Let_def split: if_splits)
  have wff: "world_wf ?f" and lf: "live ?f = (live w)(a := None)"
    using wf by (simp_all add: wf_libc_free live_libc_free)
  have old: "b = a \<or> live w b = None"
    using b fresh_not_live [OF wf] by auto
  then have "live ?f b = None"
    using lf by auto
  then have new: "b \<notin> fst ` set (blocks ?f)"
    by (simp add: live_def map_of_eq_None_iff)
  have total_f: "heap_total ?f = heap_total w - length c"
    using total_free [OF wf wff c lf] by simp
  have "\<forall>x \<in> set (blocks ?f). fst x < next_addr w"
    using wf by (auto simp: world_wf_def libc_free_def pop_answer_def)
  then have "\<forall>x \<in> set (blocks w'). fst x < next_addr w'"
    by (auto simp: w' less_max_iff_disj)
  moreover have "distinct (map fst (blocks w'))"
    using wff new by (simp add: w' world_wf_def)
  moreover have "heap_total w' = heap_total w - length c + n"
    using total_f by (simp add: w' heap_total_def)
  ultimately have "world_wf w'"
    using fit by (simp add: world_wf_def)
  moreover have "live w' = (live ?f)(b \<mapsto> resized c n)"
    by (simp add: w' live_def fun_upd_def)
  ultimately show ?thesis
    using old lf by simp
qed

interpretation libc: sys_allocator cpkt_lua_runtime_default_alloc "Some cpkt_lua_runtime_default_realloc"
    cpkt_lua_runtime_default_free
proof
  fix w w' :: "'a world" and n a
  assume "world_wf w" "0 < n" "cpkt_lua_runtime_default_alloc w n = (Some a, w')"
  then show "world_wf w' \<and> live w a = None \<and> (\<exists>c. length c = n \<and> live w' = (live w)(a \<mapsto> c))"
    using malloc_serves [of w n a w']
    by (auto simp: cpkt_lua_runtime_default_alloc_def intro!: exI [of _ "replicate n CHR ''?''"])
next
  fix w w' :: "'a world" and n
  assume "world_wf w" "0 < n" "cpkt_lua_runtime_default_alloc w n = (None, w')"
  then show "world_wf w' \<and> live w' = live w"
    using malloc_refuses [of w n w'] by (auto simp: cpkt_lua_runtime_default_alloc_def)
next
  fix re and w w' :: "'a world" and a c n b
  assume "Some cpkt_lua_runtime_default_realloc = Some re" "world_wf w" "live w a = Some c" "0 < n"
    "re w a (length c) n = (Some b, w')"
  then have "world_wf w" "live w a = Some c" "libc_realloc w a n = (Some b, w')"
    by (auto simp: cpkt_lua_runtime_default_realloc_def)
  from libc_realloc_serves [OF this]
  show "world_wf w' \<and> (b = a \<or> live w b = None) \<and>
      (\<exists>d. length d = n \<and> take (min (length c) n) d = take (min (length c) n) c \<and>
        live w' = ((live w)(a := None))(b \<mapsto> d))"
    using resized_prefix [of c n] by (auto intro!: exI [of _ "resized c n"])
next
  fix re and w w' :: "'a world" and a c n
  assume "Some cpkt_lua_runtime_default_realloc = Some re" "world_wf w" "live w a = Some c" "0 < n"
    "re w a (length c) n = (None, w')"
  then have "libc_realloc w a n = (None, w')"
    by (auto simp: cpkt_lua_runtime_default_realloc_def)
  then have "w' = pop_answer w"
    using \<open>live w a = Some c\<close> by (auto simp: libc_realloc_def Let_def split: if_splits)
  then show "world_wf w' \<and> live w' = live w"
    using \<open>world_wf w\<close> by simp
next
  fix w :: "'a world" and a c
  assume "world_wf w" "live w a = Some c"
  then show "world_wf (cpkt_lua_runtime_default_free w a (length c)) \<and>
      live (cpkt_lua_runtime_default_free w a (length c)) = (live w)(a := None)"
    by (simp add: cpkt_lua_runtime_default_free_def wf_libc_free live_libc_free)
qed

section \<open>Accounting\<close>

definition same_setup :: "'u lua_allocator \<Rightarrow> 'u lua_allocator \<Rightarrow> bool" where
  "same_setup al al' \<longleftrightarrow> alloc_fn al' = alloc_fn al \<and> realloc_fn al' = realloc_fn al \<and>
     free_fn al' = free_fn al \<and> max_bytes al' = max_bytes al"

definition within_limit :: "'u lua_allocator \<Rightarrow> bool" where
  "within_limit al \<longleftrightarrow> max_bytes al = 0 \<or> used al \<le> max_bytes al"

text \<open>The allocator invariant: the counter is the number of bytes in live blocks, within the limit.\<close>

definition allocator_inv :: "'u lua_allocator \<Rightarrow> bool" where
  "allocator_inv al \<longleftrightarrow> world_wf (world al) \<and> used al = heap_total (world al) \<and> within_limit al"

definition fits :: "'u lua_allocator \<Rightarrow> nat \<Rightarrow> nat \<Rightarrow> bool" where
  "fits al old_size new_size \<longleftrightarrow>
     max_bytes al = 0 \<or> new_size \<le> old_size \<or> used al - old_size + new_size \<le> max_bytes al"

lemma same_setup_refl [simp, intro]: "same_setup al al"
  by (simp add: same_setup_def)

lemma same_setup_trans: "same_setup a b \<Longrightarrow> same_setup b c \<Longrightarrow> same_setup a c"
  by (simp add: same_setup_def)

lemma same_setup_update [simp]:
  "same_setup a (b\<lparr>used := u\<rparr>) = same_setup a b" "same_setup a (b\<lparr>failed := f\<rparr>) = same_setup a b"
  "same_setup a (b\<lparr>world := w\<rparr>) = same_setup a b"
  by (simp_all add: same_setup_def)

lemma can_grow_iff:
  "cpkt_lua_runtime_allocator_can_grow al old_size new_size =
     (fits al old_size new_size, if fits al old_size new_size then al else al\<lparr>failed := True\<rparr>)"
  by (auto simp: cpkt_lua_runtime_allocator_can_grow_def fits_def Let_def)

lemma inv_failed [simp]: "allocator_inv (al\<lparr>failed := f\<rparr>) = allocator_inv al"
  by (simp add: allocator_inv_def within_limit_def)

lemma inv_world_same:
  assumes "allocator_inv al" "world_wf w" "live w = live (world al)"
  shows "allocator_inv (al\<lparr>world := w\<rparr>)"
proof -
  have "heap_total w = heap_total (world al)"
    using assms by (simp add: allocator_inv_def wf_total)
  then show ?thesis
    using assms by (auto simp: allocator_inv_def within_limit_def)
qed

lemma inv_account:
  assumes inv: "allocator_inv al" and wf: "world_wf w"
    and total: "heap_total w = heap_total (world al) - old_size + new_size"
    and old: "old_size \<le> heap_total (world al)" and fits: "fits al old_size new_size"
  shows "allocator_inv (cpkt_lua_runtime_allocator_account (al\<lparr>world := w\<rparr>) old_size new_size)"
proof -
  have le: "heap_total w \<le> size_max"
    using wf by (simp add: world_wf_def)
  have used: "used al = heap_total (world al)"
    using inv by (simp add: allocator_inv_def)
  have "max_bytes al = 0 \<or> heap_total w \<le> max_bytes al"
    using fits inv total used old by (auto simp: fits_def allocator_inv_def within_limit_def)
  then show ?thesis
    using wf total old used le
    by (simp add: allocator_inv_def cpkt_lua_runtime_allocator_account_def within_limit_def sz_id)
qed

lemma account_fields [simp]:
  "world (cpkt_lua_runtime_allocator_account al m n) = world al"
  "failed (cpkt_lua_runtime_allocator_account al m n) = failed al"
  "same_setup a (cpkt_lua_runtime_allocator_account al m n) = same_setup a al"
  by (simp_all add: cpkt_lua_runtime_allocator_account_def same_setup_def)

text \<open>A refused request changes nothing but the failure flag.\<close>

definition refused :: "'u lua_allocator \<Rightarrow> 'u lua_allocator \<Rightarrow> bool" where
  "refused al al' \<longleftrightarrow> allocator_inv al' \<and> same_setup al al' \<and> failed al' \<and>
     live (world al') = live (world al)"

text \<open>
  A request for \<open>n\<close> bytes in exchange for the block \<open>ptr\<close> is served at \<open>q\<close>: the old block is gone, the
  new one has \<open>n\<close> bytes and starts with the bytes of the old one, and no other block changes.
\<close>

definition served :: "'u lua_allocator \<Rightarrow> addr option \<Rightarrow> nat \<Rightarrow> addr \<Rightarrow> 'u lua_allocator \<Rightarrow> bool" where
  "served al ptr n q al' \<longleftrightarrow> allocator_inv al' \<and> same_setup al al' \<and> failed al' = failed al \<and>
     (ptr = Some q \<or> live (world al) q = None) \<and>
     (\<exists>d. length d = n \<and>
        (\<forall>p c. ptr = Some p \<longrightarrow> live (world al) p = Some c \<longrightarrow>
           take (min (length c) n) d = take (min (length c) n) c) \<and>
        live (world al') =
          (case ptr of None \<Rightarrow> live (world al) | Some p \<Rightarrow> (live (world al))(p := None))(q \<mapsto> d))"

definition released :: "'u lua_allocator \<Rightarrow> addr \<Rightarrow> 'u lua_allocator \<Rightarrow> bool" where
  "released al p al' \<longleftrightarrow> allocator_inv al' \<and> same_setup al al' \<and> failed al' = failed al \<and>
     live (world al') = (live (world al))(p := None)"

text \<open>The allocator calls the functions \<open>af\<close>, \<open>rf\<close> and \<open>ff\<close>.\<close>

definition uses :: "'u alloc_fun \<Rightarrow> 'u realloc_fun option \<Rightarrow> 'u free_fun \<Rightarrow> 'u lua_allocator \<Rightarrow> bool" where
  "uses af rf ff al \<longleftrightarrow> alloc_fn al = af \<and> realloc_fn al = rf \<and> free_fn al = ff"

lemma uses_same: "same_setup al al' \<Longrightarrow> uses af rf ff al' = uses af rf ff al"
  by (simp add: uses_def same_setup_def)

context sys_allocator
begin

lemma alloc_result:
  assumes u: "uses af rf ff al" and inv: "allocator_inv al"
    and r: "cpkt_lua_runtime_allocator_alloc al n = (res, al')"
  shows "(case res of None \<Rightarrow> refused al al' | Some q \<Rightarrow> served al None (max 1 n) q al') \<and>
    (\<not> fits al 0 (max 1 n) \<longrightarrow> res = None)"
proof -
  let ?n = "if n = 0 then 1 else n"
  have n: "?n = max 1 n" and pos: "0 < ?n" by simp_all
  have wf: "world_wf (world al)" using inv by (simp add: allocator_inv_def)
  show ?thesis
  proof (cases "fits al 0 ?n")
    case False
    then have "res = None" "al' = al\<lparr>failed := True\<rparr>"
      using r by (auto simp: cpkt_lua_runtime_allocator_alloc_def can_grow_iff Let_def)
    then show ?thesis
      using inv by (simp add: refused_def)
  next
    case True
    obtain ptr w where a: "af (world al) ?n = (ptr, w)" by fastforce
    show ?thesis
    proof (cases ptr)
      case None
      from alloc_refuses [OF wf pos a [unfolded None]] have w: "world_wf w" "live w = live (world al)"
        by auto
      have "res = None" "al' = al\<lparr>world := w, failed := True\<rparr>"
        using r True a None u
        by (auto simp: cpkt_lua_runtime_allocator_alloc_def can_grow_iff Let_def uses_def)
      then show ?thesis
        using w inv_world_same [OF inv w] by (simp add: refused_def)
    next
      case (Some q)
      from alloc_serves [OF wf pos a [unfolded Some]] obtain c where
        w: "world_wf w" "live (world al) q = None" "length c = ?n" "live w = (live (world al))(q \<mapsto> c)"
        by auto
      have res: "res = Some q" "al' = cpkt_lua_runtime_allocator_account (al\<lparr>world := w\<rparr>) 0 ?n"
        using r True a Some u
        by (auto simp: cpkt_lua_runtime_allocator_alloc_def can_grow_iff Let_def uses_def)
      have "heap_total w = heap_total (world al) - 0 + ?n"
        using total_alloc [OF wf w(1,2,4)] w(3) by simp
      from inv_account [OF inv w(1) this _ True] have "allocator_inv al'"
        by (simp add: res)
      then show ?thesis
        using res w True n by (auto simp: served_def)
    qed
  qed
qed

lemma free_result:
  assumes u: "uses af rf ff al" and inv: "allocator_inv al" and c: "live (world al) p = Some c"
  shows "released al p (cpkt_lua_runtime_allocator_free al (Some p) (length c))"
proof -
  have wf: "world_wf (world al)" using inv by (simp add: allocator_inv_def)
  note f = free_releases [OF wf c]
  have "heap_total (ff (world al) p (length c)) = heap_total (world al) - length c + 0 \<and>
      length c \<le> heap_total (world al)"
    using total_free [OF wf f [THEN conjunct1] c f [THEN conjunct2]] by simp
  then have "allocator_inv (cpkt_lua_runtime_allocator_account
      (al\<lparr>world := ff (world al) p (length c)\<rparr>) (length c) 0)"
    using inv_account [OF inv, of "ff (world al) p (length c)" "length c" 0] f by (simp add: fits_def)
  then show ?thesis
    using u f by (simp add: released_def cpkt_lua_runtime_allocator_free_def uses_def)
qed

end

context sys_allocator
begin

lemma fallback_copy:
  assumes wf: "world_wf w" and p: "live w p = Some c" and q: "q \<noteq> p" and d: "live w q = Some d"
    and n: "length d = n"
  defines "k \<equiv> if length c < n then length c else n"
  defines "w2 \<equiv> if k \<noteq> 0 then copy_block w q p k else w"
  shows "world_wf w2 \<and> live w2 p = Some c \<and>
    (\<exists>e. length e = n \<and> take (min (length c) n) e = take (min (length c) n) c \<and> live w2 = (live w)(q \<mapsto> e))"
proof (cases "k = 0")
  case True
  then have "min (length c) n = 0" by (simp add: k_def split: if_splits)
  with True show ?thesis
    using wf p d n by (auto simp: w2_def fun_upd_idem intro!: exI [of _ d])
next
  case False
  let ?e = "take k c @ drop k d"
  have k: "k = min (length c) n" by (simp add: k_def)
  then have len: "length (take k c) = k" "k \<le> length d" using n by simp_all
  have "live w2 = (live w)(q \<mapsto> ?e)"
    using False p d len by (simp add: w2_def copy_block_def live_poke)
  moreover have "world_wf w2"
    using False p wf_poke [OF wf d, of "take k c"] len by (simp add: w2_def copy_block_def)
  ultimately show ?thesis
    using p q k n by (auto intro!: exI [of _ ?e])
qed

lemma resize_result:
  assumes u: "uses af rf ff al" and inv: "allocator_inv al" and c: "live (world al) p = Some c"
    and n: "0 < n" and r: "cpkt_lua_runtime_allocator_realloc al (Some p) (length c) n = (res, al')"
  shows "(case res of None \<Rightarrow> refused al al' | Some q \<Rightarrow> served al (Some p) n q al') \<and>
    (\<not> fits al (length c) n \<longrightarrow> res = None)"
proof (cases "fits al (length c) n")
  case False
  then have "res = None" "al' = al\<lparr>failed := True\<rparr>"
    using r n by (auto simp: cpkt_lua_runtime_allocator_realloc_def can_grow_iff Let_def)
  then show ?thesis
    using inv by (simp add: refused_def)
next
  case fits: True
  have wf: "world_wf (world al)" using inv by (simp add: allocator_inv_def)
  have fns: "alloc_fn al = af" "realloc_fn al = rf" "free_fn al = ff" using u by (simp_all add: uses_def)
  have served: "served al (Some p) n q
      (cpkt_lua_runtime_allocator_account (al\<lparr>world := w\<rparr>) (length c) n)"
    if w: "world_wf w" "q = p \<or> live (world al) q = None"
      and d: "length d = n" "take (min (length c) n) d = take (min (length c) n) c"
      and lw: "live w = ((live (world al))(p := None))(q \<mapsto> d)" for q w d
  proof -
    note total = total_realloc [OF wf w(1) c w(2) lw]
    have "allocator_inv (cpkt_lua_runtime_allocator_account (al\<lparr>world := w\<rparr>) (length c) n)"
      using inv_account [OF inv w(1) _ _ fits] total d(1) by simp
    then show ?thesis
      using w(2) d lw c by (auto simp: served_def)
  qed
  show ?thesis
  proof (cases rf)
    case (Some re)
    obtain q w where q: "re (world al) p (length c) n = (q, w)" by fastforce
    have rl: "realloc_fn al = Some re" using fns(2) Some by simp
    note unfold = r [unfolded cpkt_lua_runtime_allocator_realloc_def can_grow_iff]
    show ?thesis
    proof (cases q)
      case None
      from realloc_refuses [OF Some wf c n q [unfolded None]]
      have w: "world_wf w" "live w = live (world al)" by auto
      have "res = None" "al' = al\<lparr>world := w, failed := True\<rparr>"
        using unfold n fits q None by (simp_all add: Let_def rl)
      then show ?thesis
        using w inv_world_same [OF inv w] by (simp add: refused_def)
    next
      case (Some b)
      from realloc_serves [OF \<open>rf = Some re\<close> wf c n q [unfolded Some]] obtain d where
        w: "world_wf w" "b = p \<or> live (world al) b = None" "length d = n"
          "take (min (length c) n) d = take (min (length c) n) c"
          "live w = ((live (world al))(p := None))(b \<mapsto> d)" by auto
      have "res = Some b" "al' = cpkt_lua_runtime_allocator_account (al\<lparr>world := w\<rparr>) (length c) n"
        using unfold n fits q Some by (simp_all add: Let_def rl)
      then show ?thesis
        using served [OF w] fits by simp
    qed
  next
    case None
    obtain q w where q: "af (world al) n = (q, w)" by fastforce
    have rl: "realloc_fn al = None" using fns(2) None by simp
    note unfold = r [unfolded cpkt_lua_runtime_allocator_realloc_def can_grow_iff]
    show ?thesis
    proof (cases q)
      case None
      from alloc_refuses [OF wf n q [unfolded None]]
      have w: "world_wf w" "live w = live (world al)" by auto
      have "res = None" "al' = al\<lparr>world := w, failed := True\<rparr>"
        using unfold n fits q None by (simp_all add: Let_def fns(1,3) rl)
      then show ?thesis
        using w inv_world_same [OF inv w] by (simp add: refused_def)
    next
      case (Some b)
      let ?k = "if length c < n then length c else n"
      let ?w2 = "if ?k \<noteq> 0 then copy_block w b p ?k else w"
      let ?w3 = "ff ?w2 p (length c)"
      from alloc_serves [OF wf n q [unfolded Some]] obtain d where
        w: "world_wf w" "live (world al) b = None" "length d = n" "live w = (live (world al))(b \<mapsto> d)"
        by auto
      have ne: "b \<noteq> p" using w(2) c by auto
      have pw: "live w p = Some c" "live w b = Some d" using ne c w(4) by auto
      from fallback_copy [OF w(1) pw(1) ne pw(2) w(3)] obtain e where
        e: "world_wf ?w2" "live ?w2 p = Some c" "length e = n"
          "take (min (length c) n) e = take (min (length c) n) c" "live ?w2 = (live w)(b \<mapsto> e)"
        by auto
      note f = free_releases [OF e(1,2)]
      have "live ?w3 = ((live (world al))(p := None))(b \<mapsto> e)"
        using f e(5) w(4) ne by (simp add: fun_upd_twist)
      from served [OF f [THEN conjunct1] disjI2 [OF w(2)] e(3,4) this]
      have "served al (Some p) n b
          (cpkt_lua_runtime_allocator_account (al\<lparr>world := ?w3\<rparr>) (length c) n)" .
      moreover have "res = Some b"
        "al' = cpkt_lua_runtime_allocator_account (al\<lparr>world := ?w3\<rparr>) (length c) n"
        using unfold n fits q Some by (auto simp: Let_def fns(1,3) rl)
      ultimately show ?thesis
        using fits by simp
    qed
  qed
qed

text \<open>Every way the runtime and Lua reach the allocator, as one case distinction.\<close>

lemma request_result:
  assumes u: "uses af rf ff al" and inv: "allocator_inv al"
    and p: "\<And>p. ptr = Some p \<Longrightarrow> \<exists>c. live (world al) p = Some c \<and> length c = osize"
    and r: "cpkt_lua_runtime_lua_alloc al ptr osize nsize = (res, al')"
  shows "(case ptr of
      None \<Rightarrow> if nsize = 0 then res = None \<and> al' = al
              else (case res of None \<Rightarrow> refused al al' | Some q \<Rightarrow> served al None nsize q al') \<and>
                   (\<not> fits al 0 nsize \<longrightarrow> res = None)
    | Some p \<Rightarrow> if nsize = 0 then res = None \<and> released al p al'
              else (case res of None \<Rightarrow> refused al al' | Some q \<Rightarrow> served al (Some p) nsize q al') \<and>
                   (\<not> fits al osize nsize \<longrightarrow> res = None))"
proof (cases ptr)
  case None
  show ?thesis
  proof (cases "nsize = 0")
    case True
    then show ?thesis
      using None r by (simp add: cpkt_lua_runtime_lua_alloc_def cpkt_lua_runtime_allocator_realloc_def)
  next
    case False
    then have a: "cpkt_lua_runtime_allocator_alloc al nsize = (res, al')" "max 1 nsize = nsize"
      using None r by (simp_all add: cpkt_lua_runtime_lua_alloc_def cpkt_lua_runtime_allocator_realloc_def)
    then show ?thesis
      using alloc_result [OF u inv a(1)] None False unfolding a(2) by simp
  qed
next
  case (Some a)
  obtain c where c: "live (world al) a = Some c" "length c = osize" using p [OF Some] by auto
  show ?thesis
  proof (cases "nsize = 0")
    case True
    then have "res = None" "al' = cpkt_lua_runtime_allocator_free al (Some a) (length c)"
      using Some r c
      by (auto simp: cpkt_lua_runtime_lua_alloc_def cpkt_lua_runtime_allocator_realloc_def
          cpkt_lua_runtime_allocator_free_def)
    then show ?thesis
      using Some True free_result [OF u inv c(1)] by simp
  next
    case False
    then show ?thesis
      using Some resize_result [OF u inv c(1)] r c(2) by (simp add: cpkt_lua_runtime_lua_alloc_def)
  qed
qed

end

section \<open>Sequences of requests\<close>

datatype request =
    Alloc nat
  | Realloc "addr option" nat nat
  | Free "addr option" nat

fun allocator_request :: "'u lua_allocator \<Rightarrow> request \<Rightarrow> addr option \<times> 'u lua_allocator" where
  "allocator_request al (Alloc n) = cpkt_lua_runtime_allocator_alloc al n"
| "allocator_request al (Realloc ptr old_size new_size) =
     cpkt_lua_runtime_lua_alloc al ptr old_size new_size"
| "allocator_request al (Free ptr n) = (None, cpkt_lua_runtime_allocator_free al ptr n)"

text \<open>A caller passes back only live blocks, with the size they have.\<close>

definition owns :: "'u lua_allocator \<Rightarrow> addr option \<Rightarrow> nat \<Rightarrow> bool" where
  "owns al ptr n \<longleftrightarrow> (case ptr of None \<Rightarrow> True
     | Some p \<Rightarrow> (case live (world al) p of None \<Rightarrow> False | Some c \<Rightarrow> length c = n))"

fun request_ok :: "'u lua_allocator \<Rightarrow> request \<Rightarrow> bool" where
  "request_ok al (Alloc n) = True"
| "request_ok al (Realloc ptr old_size new_size) = owns al ptr old_size"
| "request_ok al (Free ptr n) = owns al ptr n"

fun allocator_requests :: "'u lua_allocator \<Rightarrow> request list \<Rightarrow> 'u lua_allocator option" where
  "allocator_requests al [] = Some al"
| "allocator_requests al (r # rs) =
     (if request_ok al r then allocator_requests (snd (allocator_request al r)) rs else None)"

lemma ownsD: "owns al (Some p) n \<Longrightarrow> \<exists>c. live (world al) p = Some c \<and> length c = n"
  by (auto simp: owns_def split: option.splits)

context sys_allocator
begin

lemma request_inv:
  assumes u: "uses af rf ff al" and inv: "allocator_inv al" and ok: "request_ok al r"
  shows "allocator_inv (snd (allocator_request al r)) \<and> same_setup al (snd (allocator_request al r))"
proof (cases r)
  case (Alloc n)
  obtain res al' where "cpkt_lua_runtime_allocator_alloc al n = (res, al')" by fastforce
  with alloc_result [OF u inv this] Alloc show ?thesis
    by (auto simp: refused_def served_def split: option.splits)
next
  case (Realloc ptr m n)
  obtain res al' where *: "cpkt_lua_runtime_lua_alloc al ptr m n = (res, al')" by fastforce
  have "\<exists>c. live (world al) p = Some c \<and> length c = m" if "ptr = Some p" for p
    using ok Realloc that ownsD by simp
  from request_result [OF u inv this *] Realloc * inv show ?thesis
    by (auto simp: refused_def served_def released_def split: option.splits if_splits)
next
  case (Free ptr n)
  show ?thesis
  proof (cases ptr)
    case None
    then show ?thesis using Free inv by (simp add: cpkt_lua_runtime_allocator_free_def)
  next
    case (Some p)
    then obtain c where "live (world al) p = Some c" "length c = n"
      using ok Free ownsD [of al p n] by auto
    with free_result [OF u inv] Free Some show ?thesis
      by (auto simp: released_def)
  qed
qed

lemma requests_inv:
  assumes "uses af rf ff al" "allocator_inv al" "allocator_requests al rs = Some al'"
  shows "allocator_inv al' \<and> same_setup al al'"
  using assms
proof (induction rs arbitrary: al)
  case (Cons r rs)
  let ?al = "snd (allocator_request al r)"
  from Cons.prems have ok: "request_ok al r" and run: "allocator_requests ?al rs = Some al'"
    by (auto split: if_splits)
  note step = request_inv [OF Cons.prems(1,2) ok]
  with Cons.IH [OF _ _ run] Cons.prems(1) show ?case
    using same_setup_trans uses_same by blast
qed simp

end

lemma init_fields [simp]:
  "used (cpkt_lua_runtime_allocator_init w config limit) = 0"
  "failed (cpkt_lua_runtime_allocator_init w config limit) = False"
  "world (cpkt_lua_runtime_allocator_init w config limit) = w"
  "max_bytes (cpkt_lua_runtime_allocator_init w config limit) =
     (if limit \<noteq> 0 then limit else case config of None \<Rightarrow> 0 | Some c \<Rightarrow> cfg_max_bytes c)"
  by (auto simp: cpkt_lua_runtime_allocator_init_def Let_def split: option.splits)

lemma init_inv: "blocks w = [] \<Longrightarrow> allocator_inv (cpkt_lua_runtime_allocator_init w config limit)"
  by (simp add: allocator_inv_def world_wf_def heap_total_def within_limit_def)

lemma uses_default:
  "uses cpkt_lua_runtime_default_alloc (Some cpkt_lua_runtime_default_realloc) cpkt_lua_runtime_default_free
     (cpkt_lua_runtime_allocator_init w None limit)"
  by (simp add: uses_def cpkt_lua_runtime_allocator_init_def Let_def)

text \<open>
  C3: The runtime's memory limit holds. Take any allocator functions that keep their contract, any
  limit, and any sequence of requests in which callers (the runtime itself and Lua) pass back only live
  blocks with their sizes. The \<open>used\<close> counter is then exactly the number of bytes in live blocks, and
  with a non-zero limit that number never exceeds it.
\<close>

theorem allocator_accounting:
  assumes "sys_allocator af rf ff"
    and "uses af rf ff (cpkt_lua_runtime_allocator_init w config limit)"
    and "blocks w = []"
    and "allocator_requests (cpkt_lua_runtime_allocator_init w config limit) rs = Some al"
  shows "used al = heap_total (world al) \<and>
    (let m = (if limit \<noteq> 0 then limit else case config of None \<Rightarrow> 0 | Some c \<Rightarrow> cfg_max_bytes c) in
     m \<noteq> 0 \<longrightarrow> heap_total (world al) \<le> m)"
proof -
  from sys_allocator.requests_inv [OF assms(1,2) init_inv [OF assms(3)] assms(4)]
  have "allocator_inv al" and s: "same_setup (cpkt_lua_runtime_allocator_init w config limit) al"
    by auto
  moreover from s have "max_bytes al = max_bytes (cpkt_lua_runtime_allocator_init w config limit)"
    by (simp only: same_setup_def)
  ultimately show ?thesis
    unfolding init_fields Let_def allocator_inv_def within_limit_def by auto
qed

definition empty_world :: "unit world" where
  "empty_world = \<lparr>blocks = [], next_addr = 0, answers = [Fresh, InPlace], user = ()\<rparr>"

definition demo_requests :: "request list" where
  "demo_requests =
     [Alloc 8, Realloc (Some 0) 8 12, Realloc None 0 4, Realloc None 0 6, Free (Some 0) 12]"

lemmas allocator_eval =
  cpkt_lua_runtime_allocator_init_def cpkt_lua_runtime_allocator_alloc_def
  cpkt_lua_runtime_lua_alloc_def cpkt_lua_runtime_allocator_realloc_def
  cpkt_lua_runtime_allocator_free_def cpkt_lua_runtime_allocator_account_def
  cpkt_lua_runtime_allocator_can_grow_def cpkt_lua_runtime_default_alloc_def
  cpkt_lua_runtime_default_realloc_def cpkt_lua_runtime_default_free_def
  malloc_def libc_free_def libc_realloc_def next_answer_def pop_answer_def live_def heap_total_def
  owns_def Let_def sz_def size_max_def resized_def

lemma demo_run:
  "\<exists>al. allocator_requests (cpkt_lua_runtime_allocator_init empty_world None 20) demo_requests = Some al \<and>
     map fst (blocks (world al)) = [1] \<and> used al = 4 \<and> failed al"
  by (simp add: demo_requests_def empty_world_def allocator_eval)

lemma allocator_accounting_witness:
  "\<exists>al. allocator_requests (cpkt_lua_runtime_allocator_init empty_world None 20) demo_requests = Some al \<and>
     used al = heap_total (world al) \<and> heap_total (world al) \<le> 20 \<and> used al = 4"
proof -
  obtain al where al: "allocator_requests (cpkt_lua_runtime_allocator_init empty_world None 20)
      demo_requests = Some al" "used al = 4"
    using demo_run by blast
  have "used al = heap_total (world al) \<and> heap_total (world al) \<le> 20"
    using allocator_accounting [OF libc.sys_allocator_axioms uses_default _ al(1)]
    by (simp add: empty_world_def)
  with al show ?thesis by blast
qed

text \<open>
  C29: \<open>cpkt_lua_runtime_lua_alloc\<close> honours the contract of \<open>lua_Alloc\<close>. For a live block given with
  its size, a new size of zero frees it and returns \<open>NULL\<close>; otherwise the answer is either a block of
  the new size that is new or replaces the old one and starts with the bytes of the old one, all other
  blocks being untouched, or \<open>NULL\<close> with every block untouched and the failure flag set. A request
  that would take the live bytes beyond the limit is always answered by \<open>NULL\<close>.
\<close>

theorem lua_alloc_contract:
  assumes "sys_allocator af rf ff" and "uses af rf ff al" and "allocator_inv al" and "owns al ptr osize"
    and "cpkt_lua_runtime_lua_alloc al ptr osize nsize = (res, al')"
  shows "case ptr of
      None \<Rightarrow> if nsize = 0 then res = None \<and> al' = al
              else (case res of None \<Rightarrow> refused al al' | Some q \<Rightarrow> served al None nsize q al') \<and>
                   (\<not> fits al 0 nsize \<longrightarrow> res = None)
    | Some p \<Rightarrow> if nsize = 0 then res = None \<and> released al p al'
              else (case res of None \<Rightarrow> refused al al' | Some q \<Rightarrow> served al (Some p) nsize q al') \<and>
                   (\<not> fits al osize nsize \<longrightarrow> res = None)"
  using sys_allocator.request_result [OF assms(1,2,3) _ assms(5)] ownsD assms(4) by blast

lemma lua_alloc_contract_witness:
  "served (cpkt_lua_runtime_allocator_init empty_world None 20) None 5 0
     (snd (cpkt_lua_runtime_lua_alloc (cpkt_lua_runtime_allocator_init empty_world None 20) None 0 5))"
proof -
  let ?al = "cpkt_lua_runtime_allocator_init empty_world None 20"
  have res: "fst (cpkt_lua_runtime_lua_alloc ?al None 0 5) = Some 0"
    by (simp add: empty_world_def allocator_eval)
  have "owns ?al None 0" by (simp add: owns_def)
  from lua_alloc_contract [OF libc.sys_allocator_axioms uses_default init_inv this prod.collapse [symmetric],
      of 5] res
  show ?thesis by (simp add: empty_world_def)
qed

end
