(* ===== verification/Lua_Runtime.thy ===== *)
theory Lua_Runtime
  imports Lua_Alloc
begin

text \<open>
  The Lua runtime handle of \<open>src/src/lua_runtime.c\<close>: the runtime structure and its chunks, the error text,
  calls into Lua and all public operations.

  Lua is a parameter. A protected call hands Lua the function and its arguments from the stack; Lua then
  acts (\<open>lua_act\<close>): it asks the facade's allocation hook for memory, fires the count hook, and ends with
  results or an error value. What the facade's own C functions do inside a protected call, through the Lua
  stack API, is named by \<open>protected_op\<close> and belongs to Lua's side of this model.

  Every public function starts by refusing a \<open>NULL\<close> runtime; a runtime argument here is not \<open>NULL\<close>.
  Pointer arguments that may be \<open>NULL\<close> are options.
\<close>

section \<open>Data\<close>

datatype cpkt_lua_runtime_status =
    CPKT_LUA_RUNTIME_OK
  | CPKT_LUA_RUNTIME_ERR_ARG
  | CPKT_LUA_RUNTIME_ERR_ALLOC
  | CPKT_LUA_RUNTIME_ERR_LOAD
  | CPKT_LUA_RUNTIME_ERR_RUNTIME
  | CPKT_LUA_RUNTIME_ERR_LIMIT

definition cpkt_lua_runtime_status_string :: "cpkt_lua_runtime_status \<Rightarrow> string" where
  "cpkt_lua_runtime_status_string status =
     (case status of
        CPKT_LUA_RUNTIME_OK \<Rightarrow> ''ok''
      | CPKT_LUA_RUNTIME_ERR_ARG \<Rightarrow> ''invalid argument''
      | CPKT_LUA_RUNTIME_ERR_ALLOC \<Rightarrow> ''allocation failure''
      | CPKT_LUA_RUNTIME_ERR_LOAD \<Rightarrow> ''load error''
      | CPKT_LUA_RUNTIME_ERR_RUNTIME \<Rightarrow> ''runtime error''
      | CPKT_LUA_RUNTIME_ERR_LIMIT \<Rightarrow> ''limit exceeded'')"

text \<open>A registered source chunk: the struct's own block and the three blocks it points to.\<close>

record lua_chunk =
  chunk_self :: addr
  chunk_module :: "addr option"
  chunk_module_size :: nat
  chunk_name :: "addr option"
  chunk_name_size :: nat
  source :: "addr option"
  source_size :: nat
  source_alloc_size :: nat

record set_arg_context =
  arg_script :: "string option"
  arg_count :: int
  arg_values :: "string option list"

text \<open>
  The operations that the facade runs inside Lua through \<open>cpkt_lua_runtime_call_protected_fn\<close>, each with
  the context its C function receives.
\<close>

datatype protected_op =
    StoreState
  | DisableDebugSethook
  | WrapCoroutineLibrary
  | OpenLib string
  | SetPackageField string string bool
  | SetGlobalString string string
  | SetGlobalBoolean string bool
  | SetGlobalNumber string "64 word"
  | SetGlobalInteger string int
  | RegisterCModule string nat
  | RegisterLuaModule lua_chunk
  | Require string
  | LoadFile set_arg_context string
  | LoadBuffer set_arg_context string "string option"

text \<open>
  Values on the Lua stack, as far as the facade tells them apart: the two C functions it pushes, the
  light userdata that points to the call context, strings, numbers (with the text that
  \<open>lua_tostring\<close> converts them to) and everything else.
\<close>

datatype lua_val =
    LuaNil
  | TracebackFn
  | CallProtectedFn
  | CallContext protected_op
  | LuaString string
  | LuaNumber string
  | LuaOther nat

fun lua_tostring :: "lua_val \<Rightarrow> string option" where
  "lua_tostring (LuaString s) = Some s"
| "lua_tostring (LuaNumber s) = Some s"
| "lua_tostring _ = None"

datatype lua_nresults = LUA_MULTRET | NResults nat

text \<open>
  What Lua does while it runs: it asks the allocation hook for memory, its instruction counter fires the
  count hook (the answer says whether the hook raised an error), and it ends with results or with an
  error value. \<open>'l\<close> is Lua's own state.
\<close>

datatype 'l lua_act =
    LuaAlloc "addr option" nat nat "addr option \<Rightarrow> 'l lua_act"
  | LuaCount "bool \<Rightarrow> 'l lua_act"
  | LuaDone 'l "lua_val list"
  | LuaRaise 'l lua_val

text \<open>The Lua library, a parameter of the model.\<close>

record 'l lua_lib =
  lib_newstate :: "'l lua_act"
  lib_pcall :: "'l \<Rightarrow> lua_val \<Rightarrow> lua_val list \<Rightarrow> bool \<Rightarrow> 'l lua_act"
  lib_close :: "'l \<Rightarrow> 'l lua_act"

record 'l lua_state =
  lua_stack :: "lua_val list"
  lua_hook :: int
  lua_internal :: 'l

text \<open>
  The runtime.  \<^verbatim>\<open>coroutine_wrapped\<close> is left out: it is read and written only by the C functions that run
  inside Lua, which belong to the library.
\<close>

record ('u, 'l) lua_runtime =
  runtime_self :: addr
  state :: "'l lua_state option"
  allocator :: "'u lua_allocator"
  last_error :: "addr option"
  runtime_context :: "nat option"
  warning_callback :: "nat option"
  warning_context :: "nat option"
  chunks :: "lua_chunk list"
  traceback_enabled :: bool
  instruction_limit :: int
  instruction_limit_hit :: bool

text \<open>\<open>sizeof\<close> of the two structs on the LP64 targets.\<close>

definition sizeof_runtime :: nat where
  "sizeof_runtime = 120"

definition sizeof_chunk :: nat where
  "sizeof_chunk = 64"

section \<open>Strings and blocks\<close>

definition NUL :: char where
  "NUL = CHR 0x00"

text \<open>The C string at the start of some bytes.\<close>

definition cstr :: "string \<Rightarrow> string" where
  "cstr s = takeWhile (\<lambda>c. c \<noteq> NUL) s"

definition strlen_at :: "'u world \<Rightarrow> addr \<Rightarrow> nat" where
  "strlen_at w a = (case live w a of None \<Rightarrow> 0 | Some c \<Rightarrow> length (cstr c))"

definition store :: "'u lua_allocator \<Rightarrow> addr \<Rightarrow> string \<Rightarrow> 'u lua_allocator" where
  "store al a bs = al\<lparr>world := poke (world al) a bs\<rparr>"

definition rt_alloc :: "('u, 'l) lua_runtime \<Rightarrow> nat \<Rightarrow> addr option \<times> ('u, 'l) lua_runtime" where
  "rt_alloc rt n =
     (let (p, al) = cpkt_lua_runtime_allocator_alloc (allocator rt) n in (p, rt\<lparr>allocator := al\<rparr>))"

definition rt_free :: "('u, 'l) lua_runtime \<Rightarrow> addr option \<Rightarrow> nat \<Rightarrow> ('u, 'l) lua_runtime" where
  "rt_free rt p n = rt\<lparr>allocator := cpkt_lua_runtime_allocator_free (allocator rt) p n\<rparr>"

definition cpkt_lua_runtime_strdup ::
    "('u, 'l) lua_runtime \<Rightarrow> string option \<Rightarrow> (addr \<times> nat) option \<times> ('u, 'l) lua_runtime" where
  "cpkt_lua_runtime_strdup rt text =
     (case text of
        None \<Rightarrow> (None, rt)
      | Some s \<Rightarrow>
          let n = length (cstr s) + 1; (copy, rt) = rt_alloc rt n in
          case copy of
            None \<Rightarrow> (None, rt)
          | Some p \<Rightarrow> (Some (p, n), rt\<lparr>allocator := store (allocator rt) p (cstr s @ [NUL])\<rparr>))"

definition cpkt_lua_runtime_free_chunk :: "('u, 'l) lua_runtime \<Rightarrow> lua_chunk \<Rightarrow> ('u, 'l) lua_runtime" where
  "cpkt_lua_runtime_free_chunk rt chunk =
     (let rt = rt_free rt (chunk_module chunk) (chunk_module_size chunk);
          rt = rt_free rt (chunk_name chunk) (chunk_name_size chunk);
          rt = rt_free rt (source chunk) (source_alloc_size chunk) in
      rt_free rt (Some (chunk_self chunk)) sizeof_chunk)"

definition cpkt_lua_runtime_clear_chunks :: "('u, 'l) lua_runtime \<Rightarrow> ('u, 'l) lua_runtime" where
  "cpkt_lua_runtime_clear_chunks rt =
     (fold (\<lambda>chunk rt. cpkt_lua_runtime_free_chunk rt chunk) (chunks rt) rt)\<lparr>chunks := []\<rparr>"

definition free_last_error :: "('u, 'l) lua_runtime \<Rightarrow> ('u, 'l) lua_runtime" where
  "free_last_error rt =
     rt_free rt (last_error rt)
       (case last_error rt of None \<Rightarrow> 0 | Some a \<Rightarrow> strlen_at (world (allocator rt)) a + 1)"

definition cpkt_lua_runtime_clear_error :: "('u, 'l) lua_runtime \<Rightarrow> ('u, 'l) lua_runtime" where
  "cpkt_lua_runtime_clear_error rt = (free_last_error rt)\<lparr>last_error := None\<rparr>"

definition cpkt_lua_runtime_set_error ::
    "('u, 'l) lua_runtime \<Rightarrow> cpkt_lua_runtime_status \<Rightarrow> string option \<Rightarrow>
      cpkt_lua_runtime_status \<times> ('u, 'l) lua_runtime" where
  "cpkt_lua_runtime_set_error rt status message =
     (let rt = (free_last_error rt)\<lparr>last_error := None\<rparr> in
      case message of
        None \<Rightarrow> (status, rt)
      | Some m \<Rightarrow>
          let (copy, rt) = cpkt_lua_runtime_strdup rt (Some m) in
          case copy of
            None \<Rightarrow>
              (let (fallback, rt) = cpkt_lua_runtime_strdup rt (Some ''out of memory'') in
               (CPKT_LUA_RUNTIME_ERR_ALLOC, rt\<lparr>last_error := map_option fst fallback\<rparr>))
          | Some (p, _) \<Rightarrow> (status, rt\<lparr>last_error := Some p\<rparr>))"

definition cpkt_lua_runtime_error :: "('u, 'l) lua_runtime \<Rightarrow> string" where
  "cpkt_lua_runtime_error rt =
     (case last_error rt of
        None \<Rightarrow> ''''
      | Some a \<Rightarrow> (case live (world (allocator rt)) a of None \<Rightarrow> '''' | Some c \<Rightarrow> cstr c))"

section \<open>Running Lua\<close>

definition cpkt_lua_runtime_instruction_hook :: "('u, 'l) lua_runtime \<Rightarrow> bool \<times> ('u, 'l) lua_runtime" where
  "cpkt_lua_runtime_instruction_hook rt =
     (if instruction_limit rt \<le> 0 then (False, rt)
      else (True, rt\<lparr>instruction_limit_hit := True\<rparr>))"

primrec run_lua :: "'l lua_act \<Rightarrow> ('u, 'l) lua_runtime \<Rightarrow> ('l \<times> (lua_val, lua_val list) sum) \<times> ('u, 'l) lua_runtime" where
  "run_lua (LuaAlloc ptr osize nsize k) rt =
     (let (q, al) = cpkt_lua_runtime_lua_alloc (allocator rt) ptr osize nsize in
      run_lua (k q) (rt\<lparr>allocator := al\<rparr>))"
| "run_lua (LuaCount k) rt =
     (let (raised, rt) = cpkt_lua_runtime_instruction_hook rt in run_lua (k raised) rt)"
| "run_lua (LuaDone l vs) rt = ((l, Inr vs), rt)"
| "run_lua (LuaRaise l v) rt = ((l, Inl v), rt)"

fun adjust_results :: "lua_nresults \<Rightarrow> lua_val list \<Rightarrow> lua_val list" where
  "adjust_results LUA_MULTRET vs = vs"
| "adjust_results (NResults n) vs = take n vs @ replicate (n - length vs) LuaNil"

definition cpkt_lua_runtime_call_with_status ::
    "'l lua_lib \<Rightarrow> ('u, 'l) lua_runtime \<Rightarrow> nat \<Rightarrow> lua_nresults \<Rightarrow> cpkt_lua_runtime_status \<Rightarrow> bool \<Rightarrow>
      cpkt_lua_runtime_status \<times> ('u, 'l) lua_runtime" where
  "cpkt_lua_runtime_call_with_status lib rt nargs nresults failure_status traceback =
     (case state rt of
        None \<Rightarrow> (CPKT_LUA_RUNTIME_ERR_ARG, rt)
      | Some st \<Rightarrow>
          let top = length (lua_stack st);
              base = take (top - nargs - 1) (lua_stack st);
              fn = lua_stack st ! (top - nargs - 1);
              args = drop (top - nargs) (lua_stack st);
              rt = rt\<lparr>instruction_limit_hit := False, allocator := (allocator rt)\<lparr>failed := False\<rparr>\<rparr>;
              handler = (if traceback then [TracebackFn] else []);
              ((l, outcome), rt) = run_lua (lib_pcall lib (lua_internal st) fn args traceback) rt in
          case outcome of
            Inl v \<Rightarrow>
              (let status =
                     (if instruction_limit_hit rt then CPKT_LUA_RUNTIME_ERR_LIMIT
                      else if failed (allocator rt) then CPKT_LUA_RUNTIME_ERR_ALLOC
                      else failure_status);
                   (status, rt) = cpkt_lua_runtime_set_error rt status (lua_tostring v);
                   stack = base @ handler @ [v];
                   stack = (if traceback then take (length base) stack else butlast stack) in
               (status, rt\<lparr>state := Some (st\<lparr>lua_internal := l, lua_stack := stack\<rparr>)\<rparr>))
          | Inr vs \<Rightarrow>
              (let results = adjust_results nresults vs;
                   stack = (if traceback
                            then (if nresults = LUA_MULTRET then base else base @ results)
                            else base @ results);
                   rt = rt\<lparr>state := Some (st\<lparr>lua_internal := l, lua_stack := stack\<rparr>),
                           allocator := (allocator rt)\<lparr>failed := False\<rparr>\<rparr> in
               if instruction_limit_hit rt
               then cpkt_lua_runtime_set_error rt CPKT_LUA_RUNTIME_ERR_LIMIT
                      (Some ''Lua instruction limit exceeded'')
               else (CPKT_LUA_RUNTIME_OK, cpkt_lua_runtime_clear_error rt)))"

definition cpkt_lua_runtime_call ::
    "'l lua_lib \<Rightarrow> ('u, 'l) lua_runtime \<Rightarrow> nat \<Rightarrow> lua_nresults \<Rightarrow>
      cpkt_lua_runtime_status \<times> ('u, 'l) lua_runtime" where
  "cpkt_lua_runtime_call lib rt nargs nresults =
     cpkt_lua_runtime_call_with_status lib rt nargs nresults CPKT_LUA_RUNTIME_ERR_RUNTIME
       (traceback_enabled rt)"

definition lua_push :: "lua_val list \<Rightarrow> ('u, 'l) lua_runtime \<Rightarrow> ('u, 'l) lua_runtime" where
  "lua_push vs rt =
     rt\<lparr>state := map_option (\<lambda>st. st\<lparr>lua_stack := lua_stack st @ vs\<rparr>) (state rt)\<rparr>"

definition lua_pop :: "nat \<Rightarrow> ('u, 'l) lua_runtime \<Rightarrow> ('u, 'l) lua_runtime" where
  "lua_pop n rt =
     rt\<lparr>state := map_option (\<lambda>st. st\<lparr>lua_stack := take (length (lua_stack st) - n) (lua_stack st)\<rparr>) (state rt)\<rparr>"

definition lua_settop0 :: "('u, 'l) lua_runtime \<Rightarrow> ('u, 'l) lua_runtime" where
  "lua_settop0 rt = rt\<lparr>state := map_option (\<lambda>st. st\<lparr>lua_stack := []\<rparr>) (state rt)\<rparr>"

definition cpkt_lua_runtime_protected_call ::
    "'l lua_lib \<Rightarrow> ('u, 'l) lua_runtime \<Rightarrow> protected_op \<Rightarrow> lua_nresults \<Rightarrow> cpkt_lua_runtime_status \<Rightarrow>
      cpkt_lua_runtime_status \<times> ('u, 'l) lua_runtime" where
  "cpkt_lua_runtime_protected_call lib rt operation nresults failure_status =
     cpkt_lua_runtime_call_with_status lib (lua_push [CallProtectedFn, CallContext operation] rt) 1 nresults
       failure_status False"

section \<open>Library opening\<close>

definition cpkt_lua_runtime_disable_debug_sethook_checked ::
    "'l lua_lib \<Rightarrow> ('u, 'l) lua_runtime \<Rightarrow> cpkt_lua_runtime_status \<times> ('u, 'l) lua_runtime" where
  "cpkt_lua_runtime_disable_debug_sethook_checked lib rt =
     cpkt_lua_runtime_protected_call lib rt DisableDebugSethook (NResults 0) CPKT_LUA_RUNTIME_ERR_RUNTIME"

definition cpkt_lua_runtime_wrap_coroutine_library_checked ::
    "'l lua_lib \<Rightarrow> ('u, 'l) lua_runtime \<Rightarrow> cpkt_lua_runtime_status \<times> ('u, 'l) lua_runtime" where
  "cpkt_lua_runtime_wrap_coroutine_library_checked lib rt =
     cpkt_lua_runtime_protected_call lib rt WrapCoroutineLibrary (NResults 0) CPKT_LUA_RUNTIME_ERR_RUNTIME"

definition cpkt_lua_runtime_open_one_lib ::
    "'l lua_lib \<Rightarrow> ('u, 'l) lua_runtime \<Rightarrow> string \<Rightarrow>
      cpkt_lua_runtime_status \<times> ('u, 'l) lua_runtime" where
  "cpkt_lua_runtime_open_one_lib lib rt name =
     (let (status, rt) =
        cpkt_lua_runtime_protected_call lib rt (OpenLib name) (NResults 1) CPKT_LUA_RUNTIME_ERR_RUNTIME in
      if status \<noteq> CPKT_LUA_RUNTIME_OK then (status, rt)
      else (CPKT_LUA_RUNTIME_OK, lua_pop 1 rt))"

text \<open>
  \<open>cpkt_lua_runtime_open_libs\<close> tests one flag after the other and goes on only while the status is
  \<open>OK\<close>; \<open>open_stage\<close> is one such test, \<open>open_step\<close> what it guards.
\<close>

definition has_flag :: "int \<Rightarrow> int \<Rightarrow> bool" where
  "has_flag libs flag \<longleftrightarrow> and libs flag \<noteq> 0"

definition open_step ::
    "'l lua_lib \<Rightarrow> ('u, 'l) lua_runtime \<Rightarrow> string \<Rightarrow> protected_op option \<Rightarrow>
      cpkt_lua_runtime_status \<times> ('u, 'l) lua_runtime" where
  "open_step lib rt name follow_up =
     (let (status, rt) = cpkt_lua_runtime_open_one_lib lib rt name in
      case follow_up of
        Some WrapCoroutineLibrary \<Rightarrow>
          if status = CPKT_LUA_RUNTIME_OK then cpkt_lua_runtime_wrap_coroutine_library_checked lib rt
          else (status, rt)
      | Some DisableDebugSethook \<Rightarrow>
          if status = CPKT_LUA_RUNTIME_OK then cpkt_lua_runtime_disable_debug_sethook_checked lib rt
          else (status, rt)
      | _ \<Rightarrow> (status, rt))"

definition open_stage ::
    "'l lua_lib \<Rightarrow> int \<Rightarrow> int \<times> string \<times> protected_op option \<Rightarrow>
      cpkt_lua_runtime_status \<times> ('u, 'l) lua_runtime \<Rightarrow>
      cpkt_lua_runtime_status \<times> ('u, 'l) lua_runtime" where
  "open_stage lib libs stage acc =
     (let (flag, name, follow_up) = stage; (status, rt) = acc in
      if status = CPKT_LUA_RUNTIME_OK \<and> has_flag libs flag then open_step lib rt name follow_up
      else acc)"

definition open_stages :: "(int \<times> string \<times> protected_op option) list" where
  "open_stages =
     [(1, ''_G'', None), (2, ''package'', None), (4, ''coroutine'', Some WrapCoroutineLibrary),
      (8, ''table'', None), (16, ''io'', None), (32, ''os'', None), (64, ''string'', None),
      (128, ''utf8'', None), (256, ''math'', None), (512, ''debug'', Some DisableDebugSethook)]"

definition cpkt_lua_runtime_open_libs ::
    "'l lua_lib \<Rightarrow> ('u, 'l) lua_runtime \<Rightarrow> int \<Rightarrow> cpkt_lua_runtime_status \<times> ('u, 'l) lua_runtime" where
  "cpkt_lua_runtime_open_libs lib rt libs =
     (if state rt = None \<or> libs < 0 then (CPKT_LUA_RUNTIME_ERR_ARG, rt)
      else
        let (status, rt) = fold (open_stage lib libs) open_stages (CPKT_LUA_RUNTIME_OK, rt) in
        if status = CPKT_LUA_RUNTIME_OK then (status, cpkt_lua_runtime_clear_error rt)
        else (status, rt))"

definition cpkt_lua_runtime_openlibs ::
    "'l lua_lib \<Rightarrow> ('u, 'l) lua_runtime \<Rightarrow> cpkt_lua_runtime_status \<times> ('u, 'l) lua_runtime" where
  "cpkt_lua_runtime_openlibs lib rt =
     (if state rt = None then (CPKT_LUA_RUNTIME_ERR_ARG, rt)
      else cpkt_lua_runtime_open_libs lib rt 1023)"

definition cpkt_lua_runtime_maybe_openlibs ::
    "'l lua_lib \<Rightarrow> ('u, 'l) lua_runtime \<Rightarrow> int \<Rightarrow> cpkt_lua_runtime_status \<times> ('u, 'l) lua_runtime" where
  "cpkt_lua_runtime_maybe_openlibs lib rt flags =
     (if and flags 1 \<noteq> 0 then cpkt_lua_runtime_openlibs lib rt else (CPKT_LUA_RUNTIME_OK, rt))"

section \<open>Settings\<close>

definition cpkt_lua_runtime_apply_instruction_hook :: "('u, 'l) lua_runtime \<Rightarrow> ('u, 'l) lua_runtime" where
  "cpkt_lua_runtime_apply_instruction_hook rt =
     rt\<lparr>state := map_option
          (\<lambda>st. st\<lparr>lua_hook := (if instruction_limit rt > 0 then instruction_limit rt else 0)\<rparr>) (state rt)\<rparr>"

definition cpkt_lua_runtime_set_context :: "('u, 'l) lua_runtime \<Rightarrow> nat option \<Rightarrow> ('u, 'l) lua_runtime" where
  "cpkt_lua_runtime_set_context rt c = rt\<lparr>runtime_context := c\<rparr>"

definition cpkt_lua_runtime_set_warning_callback ::
    "('u, 'l) lua_runtime \<Rightarrow> nat option \<Rightarrow> nat option \<Rightarrow> ('u, 'l) lua_runtime" where
  "cpkt_lua_runtime_set_warning_callback rt callback c =
     rt\<lparr>warning_callback := callback, warning_context := c\<rparr>"

definition cpkt_lua_runtime_set_traceback ::
    "('u, 'l) lua_runtime \<Rightarrow> int \<Rightarrow> cpkt_lua_runtime_status \<times> ('u, 'l) lua_runtime" where
  "cpkt_lua_runtime_set_traceback rt enabled =
     (if state rt = None then (CPKT_LUA_RUNTIME_ERR_ARG, rt)
      else (CPKT_LUA_RUNTIME_OK,
            cpkt_lua_runtime_clear_error (rt\<lparr>traceback_enabled := enabled \<noteq> 0\<rparr>)))"

definition cpkt_lua_runtime_set_instruction_limit ::
    "('u, 'l) lua_runtime \<Rightarrow> int \<Rightarrow> cpkt_lua_runtime_status \<times> ('u, 'l) lua_runtime" where
  "cpkt_lua_runtime_set_instruction_limit rt instruction_count =
     (if state rt = None \<or> instruction_count \<le> 0 then (CPKT_LUA_RUNTIME_ERR_ARG, rt)
      else (CPKT_LUA_RUNTIME_OK,
            cpkt_lua_runtime_clear_error
              (cpkt_lua_runtime_apply_instruction_hook (rt\<lparr>instruction_limit := instruction_count\<rparr>))))"

definition cpkt_lua_runtime_clear_instruction_limit ::
    "('u, 'l) lua_runtime \<Rightarrow> cpkt_lua_runtime_status \<times> ('u, 'l) lua_runtime" where
  "cpkt_lua_runtime_clear_instruction_limit rt =
     (if state rt = None then (CPKT_LUA_RUNTIME_ERR_ARG, rt)
      else (CPKT_LUA_RUNTIME_OK,
            cpkt_lua_runtime_clear_error
              (cpkt_lua_runtime_apply_instruction_hook
                 (rt\<lparr>instruction_limit := 0, instruction_limit_hit := False\<rparr>))))"

section \<open>Package fields and globals\<close>

definition cpkt_lua_runtime_update_package_field ::
    "'l lua_lib \<Rightarrow> ('u, 'l) lua_runtime \<Rightarrow> string \<Rightarrow> string \<Rightarrow> bool \<Rightarrow>
      cpkt_lua_runtime_status \<times> ('u, 'l) lua_runtime" where
  "cpkt_lua_runtime_update_package_field lib rt field text prepend =
     cpkt_lua_runtime_protected_call lib rt (SetPackageField field text prepend) (NResults 0)
       CPKT_LUA_RUNTIME_ERR_RUNTIME"

definition cpkt_lua_runtime_set_package_path ::
    "'l lua_lib \<Rightarrow> ('u, 'l) lua_runtime \<Rightarrow> string option \<Rightarrow> cpkt_lua_runtime_status \<times> ('u, 'l) lua_runtime" where
  "cpkt_lua_runtime_set_package_path lib rt path =
     (case (state rt, path) of
        (Some _, Some p) \<Rightarrow> cpkt_lua_runtime_update_package_field lib rt ''path'' p False
      | _ \<Rightarrow> (CPKT_LUA_RUNTIME_ERR_ARG, rt))"

definition cpkt_lua_runtime_prepend_package_path ::
    "'l lua_lib \<Rightarrow> ('u, 'l) lua_runtime \<Rightarrow> string option \<Rightarrow> cpkt_lua_runtime_status \<times> ('u, 'l) lua_runtime" where
  "cpkt_lua_runtime_prepend_package_path lib rt path =
     (case (state rt, path) of
        (Some _, Some p) \<Rightarrow> cpkt_lua_runtime_update_package_field lib rt ''path'' p True
      | _ \<Rightarrow> (CPKT_LUA_RUNTIME_ERR_ARG, rt))"

definition cpkt_lua_runtime_set_package_cpath ::
    "'l lua_lib \<Rightarrow> ('u, 'l) lua_runtime \<Rightarrow> string option \<Rightarrow> cpkt_lua_runtime_status \<times> ('u, 'l) lua_runtime" where
  "cpkt_lua_runtime_set_package_cpath lib rt path =
     (case (state rt, path) of
        (Some _, Some p) \<Rightarrow> cpkt_lua_runtime_update_package_field lib rt ''cpath'' p False
      | _ \<Rightarrow> (CPKT_LUA_RUNTIME_ERR_ARG, rt))"

definition cpkt_lua_runtime_prepend_package_cpath ::
    "'l lua_lib \<Rightarrow> ('u, 'l) lua_runtime \<Rightarrow> string option \<Rightarrow> cpkt_lua_runtime_status \<times> ('u, 'l) lua_runtime" where
  "cpkt_lua_runtime_prepend_package_cpath lib rt path =
     (case (state rt, path) of
        (Some _, Some p) \<Rightarrow> cpkt_lua_runtime_update_package_field lib rt ''cpath'' p True
      | _ \<Rightarrow> (CPKT_LUA_RUNTIME_ERR_ARG, rt))"

definition cpkt_lua_runtime_set_global_string ::
    "'l lua_lib \<Rightarrow> ('u, 'l) lua_runtime \<Rightarrow> string option \<Rightarrow> string option \<Rightarrow>
      cpkt_lua_runtime_status \<times> ('u, 'l) lua_runtime" where
  "cpkt_lua_runtime_set_global_string lib rt name text =
     (case (state rt, name, text) of
        (Some _, Some n, Some v) \<Rightarrow>
          cpkt_lua_runtime_protected_call lib rt (SetGlobalString n v) (NResults 0)
            CPKT_LUA_RUNTIME_ERR_RUNTIME
      | _ \<Rightarrow> (CPKT_LUA_RUNTIME_ERR_ARG, rt))"

definition cpkt_lua_runtime_set_global_boolean ::
    "'l lua_lib \<Rightarrow> ('u, 'l) lua_runtime \<Rightarrow> string option \<Rightarrow> int \<Rightarrow>
      cpkt_lua_runtime_status \<times> ('u, 'l) lua_runtime" where
  "cpkt_lua_runtime_set_global_boolean lib rt name v =
     (case (state rt, name) of
        (Some _, Some n) \<Rightarrow>
          cpkt_lua_runtime_protected_call lib rt (SetGlobalBoolean n (v \<noteq> 0)) (NResults 0)
            CPKT_LUA_RUNTIME_ERR_RUNTIME
      | _ \<Rightarrow> (CPKT_LUA_RUNTIME_ERR_ARG, rt))"

definition cpkt_lua_runtime_set_global_number ::
    "'l lua_lib \<Rightarrow> ('u, 'l) lua_runtime \<Rightarrow> string option \<Rightarrow> 64 word \<Rightarrow>
      cpkt_lua_runtime_status \<times> ('u, 'l) lua_runtime" where
  "cpkt_lua_runtime_set_global_number lib rt name v =
     (case (state rt, name) of
        (Some _, Some n) \<Rightarrow>
          cpkt_lua_runtime_protected_call lib rt (SetGlobalNumber n v) (NResults 0)
            CPKT_LUA_RUNTIME_ERR_RUNTIME
      | _ \<Rightarrow> (CPKT_LUA_RUNTIME_ERR_ARG, rt))"

definition cpkt_lua_runtime_set_global_integer ::
    "'l lua_lib \<Rightarrow> ('u, 'l) lua_runtime \<Rightarrow> string option \<Rightarrow> int \<Rightarrow>
      cpkt_lua_runtime_status \<times> ('u, 'l) lua_runtime" where
  "cpkt_lua_runtime_set_global_integer lib rt name v =
     (case (state rt, name) of
        (Some _, Some n) \<Rightarrow>
          cpkt_lua_runtime_protected_call lib rt (SetGlobalInteger n v) (NResults 0)
            CPKT_LUA_RUNTIME_ERR_RUNTIME
      | _ \<Rightarrow> (CPKT_LUA_RUNTIME_ERR_ARG, rt))"

section \<open>Modules\<close>

definition cpkt_lua_runtime_register_c_module ::
    "'l lua_lib \<Rightarrow> ('u, 'l) lua_runtime \<Rightarrow> string option \<Rightarrow> nat option \<Rightarrow>
      cpkt_lua_runtime_status \<times> ('u, 'l) lua_runtime" where
  "cpkt_lua_runtime_register_c_module lib rt name opener =
     (case (state rt, name, opener) of
        (Some _, Some n, Some f) \<Rightarrow>
          cpkt_lua_runtime_protected_call lib rt (RegisterCModule n f) (NResults 0)
            CPKT_LUA_RUNTIME_ERR_RUNTIME
      | _ \<Rightarrow> (CPKT_LUA_RUNTIME_ERR_ARG, rt))"

text \<open>
  The chunk under construction: its struct and its three blocks, of which any may be missing. A missing
  name has size zero, from the \<open>memset\<close> of the struct; \<open>source_size\<close> is set only once the bytes are in.
\<close>

definition build_chunk ::
    "('u, 'l) lua_runtime \<Rightarrow> addr \<Rightarrow> string \<Rightarrow> string option \<Rightarrow> nat \<Rightarrow> lua_chunk \<times> ('u, 'l) lua_runtime" where
  "build_chunk rt chunk name cname len =
     (let (m, rt) = cpkt_lua_runtime_strdup rt (Some name);
          (c, rt) = cpkt_lua_runtime_strdup rt (Some (case cname of None \<Rightarrow> name | Some s \<Rightarrow> s));
          n = (if len \<noteq> 0 then len else 1);
          (s, rt) = rt_alloc rt n in
      (\<lparr>chunk_self = chunk,
        chunk_module = map_option fst m, chunk_module_size = (case m of None \<Rightarrow> 0 | Some p \<Rightarrow> snd p),
        chunk_name = map_option fst c, chunk_name_size = (case c of None \<Rightarrow> 0 | Some p \<Rightarrow> snd p),
        source = s, source_size = 0, source_alloc_size = n\<rparr>, rt))"

definition cpkt_lua_runtime_register_lua_module ::
    "'l lua_lib \<Rightarrow> ('u, 'l) lua_runtime \<Rightarrow> string option \<Rightarrow> string option \<Rightarrow> string option \<Rightarrow>
      cpkt_lua_runtime_status \<times> ('u, 'l) lua_runtime" where
  "cpkt_lua_runtime_register_lua_module lib rt name bytes cname =
     (case (state rt, name, bytes) of
        (Some _, Some n, Some src) \<Rightarrow>
          (let (chunk, rt) = rt_alloc rt sizeof_chunk in
           case chunk of
             None \<Rightarrow> cpkt_lua_runtime_set_error rt CPKT_LUA_RUNTIME_ERR_ALLOC (Some ''out of memory'')
           | Some c \<Rightarrow>
               let (ck, rt) = build_chunk rt c n cname (length src) in
               case (chunk_module ck, chunk_name ck, source ck) of
                 (Some _, Some _, Some s) \<Rightarrow>
                   (let rt = (if length src \<noteq> 0
                              then rt\<lparr>allocator := store (allocator rt) s src\<rparr> else rt);
                        ck = ck\<lparr>source_size := length src\<rparr>;
                        (status, rt) =
                          cpkt_lua_runtime_protected_call lib rt (RegisterLuaModule ck) (NResults 0)
                            CPKT_LUA_RUNTIME_ERR_RUNTIME in
                    if status \<noteq> CPKT_LUA_RUNTIME_OK
                    then (status, cpkt_lua_runtime_free_chunk rt ck)
                    else (CPKT_LUA_RUNTIME_OK,
                          cpkt_lua_runtime_clear_error (rt\<lparr>chunks := ck # chunks rt\<rparr>)))
               | _ \<Rightarrow>
                   (let rt = cpkt_lua_runtime_free_chunk rt ck in
                    cpkt_lua_runtime_set_error rt CPKT_LUA_RUNTIME_ERR_ALLOC (Some ''out of memory'')))
      | _ \<Rightarrow> (CPKT_LUA_RUNTIME_ERR_ARG, rt))"

definition cpkt_lua_runtime_require ::
    "'l lua_lib \<Rightarrow> ('u, 'l) lua_runtime \<Rightarrow> string option \<Rightarrow> cpkt_lua_runtime_status \<times> ('u, 'l) lua_runtime" where
  "cpkt_lua_runtime_require lib rt name =
     (case (state rt, name) of
        (Some _, Some n) \<Rightarrow>
          (let (status, rt) =
             cpkt_lua_runtime_protected_call lib rt (Require n) (NResults 1) CPKT_LUA_RUNTIME_ERR_RUNTIME in
           if status \<noteq> CPKT_LUA_RUNTIME_OK then (status, rt)
           else (CPKT_LUA_RUNTIME_OK, cpkt_lua_runtime_clear_error (lua_pop 1 rt)))
      | _ \<Rightarrow> (CPKT_LUA_RUNTIME_ERR_ARG, rt))"

section \<open>Running files and buffers\<close>

text \<open>The common tail of the two run functions: load, call, clear the stack.\<close>

definition load_and_call ::
    "'l lua_lib \<Rightarrow> ('u, 'l) lua_runtime \<Rightarrow> protected_op \<Rightarrow> cpkt_lua_runtime_status \<times> ('u, 'l) lua_runtime" where
  "load_and_call lib rt load =
     (let (status, rt) = cpkt_lua_runtime_protected_call lib rt load (NResults 1) CPKT_LUA_RUNTIME_ERR_LOAD in
      if status \<noteq> CPKT_LUA_RUNTIME_OK then (status, rt)
      else
        let (status, rt) = cpkt_lua_runtime_call lib rt 0 LUA_MULTRET in
        if status \<noteq> CPKT_LUA_RUNTIME_OK then (status, rt)
        else (CPKT_LUA_RUNTIME_OK, cpkt_lua_runtime_clear_error (lua_settop0 rt)))"

definition cpkt_lua_runtime_run_file ::
    "'l lua_lib \<Rightarrow> ('u, 'l) lua_runtime \<Rightarrow> string option \<Rightarrow> int \<Rightarrow> string option list option \<Rightarrow> int \<Rightarrow>
      cpkt_lua_runtime_status \<times> ('u, 'l) lua_runtime" where
  "cpkt_lua_runtime_run_file lib rt path argc argv flags =
     (case (state rt, path) of
        (Some _, Some p) \<Rightarrow>
          if argc < 0 \<or> (argc > 0 \<and> argv = None) then (CPKT_LUA_RUNTIME_ERR_ARG, rt)
          else
            let (status, rt) = cpkt_lua_runtime_maybe_openlibs lib rt flags in
            if status \<noteq> CPKT_LUA_RUNTIME_OK then (status, rt)
            else load_and_call lib rt
                   (LoadFile \<lparr>arg_script = Some p, arg_count = argc,
                              arg_values = (case argv of None \<Rightarrow> [] | Some xs \<Rightarrow> xs)\<rparr> p)
      | _ \<Rightarrow> (CPKT_LUA_RUNTIME_ERR_ARG, rt))"

definition cpkt_lua_runtime_run_buffer ::
    "'l lua_lib \<Rightarrow> ('u, 'l) lua_runtime \<Rightarrow> string option \<Rightarrow> string option \<Rightarrow> int \<Rightarrow>
      string option list option \<Rightarrow> int \<Rightarrow> cpkt_lua_runtime_status \<times> ('u, 'l) lua_runtime" where
  "cpkt_lua_runtime_run_buffer lib rt bytes cname argc argv flags =
     (case (state rt, bytes) of
        (Some _, Some src) \<Rightarrow>
          if argc < 0 \<or> (argc > 0 \<and> argv = None) then (CPKT_LUA_RUNTIME_ERR_ARG, rt)
          else
            let (status, rt) = cpkt_lua_runtime_maybe_openlibs lib rt flags in
            if status \<noteq> CPKT_LUA_RUNTIME_OK then (status, rt)
            else load_and_call lib rt
                   (LoadBuffer \<lparr>arg_script = cname, arg_count = argc,
                                arg_values = (case argv of None \<Rightarrow> [] | Some xs \<Rightarrow> xs)\<rparr> src cname)
      | _ \<Rightarrow> (CPKT_LUA_RUNTIME_ERR_ARG, rt))"

section \<open>Creation and destruction\<close>

definition cpkt_lua_runtime_new_with_allocator ::
    "'l lua_lib \<Rightarrow> 'u world \<Rightarrow> 'u allocator_config option \<Rightarrow>
      cpkt_lua_runtime_status \<times> ('u, 'l) lua_runtime option \<times> 'u world" where
  "cpkt_lua_runtime_new_with_allocator lib w config =
     (let bad = (case config of None \<Rightarrow> False
                 | Some c \<Rightarrow> (cfg_alloc_fn c = None \<and> cfg_free_fn c \<noteq> None) \<or>
                            (cfg_alloc_fn c \<noteq> None \<and> cfg_free_fn c = None) \<or>
                            (cfg_alloc_fn c = None \<and> cfg_realloc_fn c \<noteq> None)) in
      if bad then (CPKT_LUA_RUNTIME_ERR_ARG, None, w)
      else
        let (ptr, al) =
              cpkt_lua_runtime_allocator_alloc (cpkt_lua_runtime_allocator_init w config 0) sizeof_runtime in
        case ptr of
          None \<Rightarrow> (CPKT_LUA_RUNTIME_ERR_ALLOC, None, world al)
        | Some a \<Rightarrow>
            let rt = \<lparr>runtime_self = a, state = None, allocator = al, last_error = None,
                      runtime_context = None, warning_callback = None, warning_context = None,
                      chunks = [], traceback_enabled = False, instruction_limit = 0,
                      instruction_limit_hit = False\<rparr>;
                ((l, outcome), rt) = run_lua (lib_newstate lib) rt in
            case outcome of
              Inl _ \<Rightarrow>
                (CPKT_LUA_RUNTIME_ERR_ALLOC, None,
                 world (cpkt_lua_runtime_allocator_free (allocator rt) (Some a) sizeof_runtime))
            | Inr _ \<Rightarrow>
                let rt = rt\<lparr>state := Some \<lparr>lua_stack = [], lua_hook = 0, lua_internal = l\<rparr>\<rparr>;
                    (status, rt) =
                      cpkt_lua_runtime_protected_call lib rt StoreState (NResults 0)
                        CPKT_LUA_RUNTIME_ERR_RUNTIME in
                if status \<noteq> CPKT_LUA_RUNTIME_OK then
                  (let rt = snd (run_lua (lib_close lib (lua_internal (the (state rt)))) rt);
                       rt = rt\<lparr>state := None\<rparr>;
                       rt = free_last_error rt in
                   (status, None,
                    world (cpkt_lua_runtime_allocator_free (allocator rt) (Some a) sizeof_runtime)))
                else (CPKT_LUA_RUNTIME_OK, Some rt, world (allocator rt)))"

definition cpkt_lua_runtime_new_with_limit ::
    "'l lua_lib \<Rightarrow> 'u world \<Rightarrow> nat \<Rightarrow> cpkt_lua_runtime_status \<times> ('u, 'l) lua_runtime option \<times> 'u world" where
  "cpkt_lua_runtime_new_with_limit lib w limit =
     cpkt_lua_runtime_new_with_allocator lib w
       (Some \<lparr>cfg_alloc_fn = None, cfg_realloc_fn = None, cfg_free_fn = None, cfg_max_bytes = limit\<rparr>)"

definition cpkt_lua_runtime_new ::
    "'l lua_lib \<Rightarrow> 'u world \<Rightarrow> cpkt_lua_runtime_status \<times> ('u, 'l) lua_runtime option \<times> 'u world" where
  "cpkt_lua_runtime_new lib w = cpkt_lua_runtime_new_with_limit lib w 0"

text \<open>
  The runtime's block is released through a copy of the allocator taken at entry, since the allocator
  lives inside that block. The copy shares the functions and the heap, not the counter.
\<close>

definition cpkt_lua_runtime_free :: "'l lua_lib \<Rightarrow> ('u, 'l) lua_runtime \<Rightarrow> 'u world" where
  "cpkt_lua_runtime_free lib rt =
     (let copy = allocator rt; self = runtime_self rt;
          rt = (case state rt of None \<Rightarrow> rt
                | Some st \<Rightarrow> snd (run_lua (lib_close lib (lua_internal st)) rt));
          rt = cpkt_lua_runtime_clear_chunks rt;
          rt = free_last_error rt in
      world (cpkt_lua_runtime_allocator_free (copy\<lparr>world := world (allocator rt)\<rparr>) (Some self) sizeof_runtime))"

end
