(* ===== verification/Lua_Memory.thy ===== *)
theory Lua_Memory
  imports "HOL-Library.Multiset" Lua_Runtime
begin

text \<open>
  Memory safety of the Lua runtime: the invariant \<open>rt_ok\<close> accounts for every live heap block, each
  operation keeps it, and so a runtime can be freed at any time without a leak.

  The heap is split between Lua and the facade as two disjoint maps. The lemmas are stated inside
  the locale \<open>sys_allocator\<close>, for every allocator that keeps its contract, and use the contract of
  the Lua library, \<open>lua_contract\<close>, as a hypothesis. The predicate \<open>keeps_ok\<close> and its rules compose the
  preservation proofs along the structure of the operations.
\<close>

section \<open>Ownership of heap blocks\<close>

text \<open>
  \<open>holds w own lua\<close>: the live blocks of the heap are the blocks \<open>own\<close> of the facade, no two at one
  address, and the blocks \<open>lua\<close> of Lua, and the two do not overlap.
\<close>

definition sizes :: "'u world \<Rightarrow> addr \<rightharpoonup> nat" where
  "sizes w = (\<lambda>a. map_option length (live w a))"

definition holds :: "'u world \<Rightarrow> (addr \<times> nat) list \<Rightarrow> (addr \<rightharpoonup> nat) \<Rightarrow> bool" where
  "holds w own lua \<longleftrightarrow> distinct (map fst own) \<and> sizes w = lua ++ map_of own \<and>
     dom lua \<inter> fst ` set own = {}"

lemma map_of_mset:
  assumes "distinct (map fst xs)" "mset xs = mset ys"
  shows "map_of xs = map_of ys"
proof -
  have "mset (map fst xs) = mset (map fst ys)"
    using assms(2) by simp
  then have "distinct (map fst ys)"
    using assms(1) mset_eq_imp_distinct_iff by blast
  then show ?thesis
    using assms map_of_inject_set mset_eq_setD by blast
qed

lemma holds_mset:
  assumes "holds w own lua" "mset own = mset own'"
  shows "holds w own' lua"
proof -
  have "mset (map fst own) = mset (map fst own')"
    using assms(2) by simp
  then have "distinct (map fst own')"
    using assms(1) mset_eq_imp_distinct_iff [of "map fst own" "map fst own'"] by (simp add: holds_def)
  moreover have "set own = set own'"
    using assms(2) by (rule mset_eq_setD)
  ultimately show ?thesis
    using assms map_of_mset [of own own'] by (simp add: holds_def)
qed

lemma holds_size: "holds w own lua \<Longrightarrow> (a, n) \<in> set own \<Longrightarrow> \<exists>c. live w a = Some c \<and> length c = n"
proof -
  assume h: "holds w own lua" and a: "(a, n) \<in> set own"
  then have "map_of own a = Some n"
    by (simp add: holds_def)
  then have "sizes w a = Some n"
    using h by (simp add: holds_def map_add_Some_iff)
  then show ?thesis
    by (auto simp: sizes_def)
qed

lemma holds_lua_size: "holds w own lua \<Longrightarrow> lua a = Some n \<Longrightarrow> \<exists>c. live w a = Some c \<and> length c = n"
proof -
  assume h: "holds w own lua" and a: "lua a = Some n"
  then have "map_of own a = None"
    by (auto simp: holds_def map_of_eq_None_iff dom_def)
  then have "sizes w a = Some n"
    using h a by (simp add: holds_def map_add_Some_iff)
  then show ?thesis
    by (auto simp: sizes_def)
qed

lemma holds_fresh: "holds w own lua \<Longrightarrow> live w a = None \<Longrightarrow> lua a = None \<and> a \<notin> fst ` set own"
proof -
  assume h: "holds w own lua" and a: "live w a = None"
  then have "sizes w a = None" by (simp add: sizes_def)
  then have "(lua ++ map_of own) a = None" using h by (simp add: holds_def)
  then show ?thesis by (simp add: map_of_eq_None_iff)
qed

lemma holds_same: "live w' = live w \<Longrightarrow> holds w' own lua = holds w own lua"
  by (simp add: holds_def sizes_def)

lemma sizes_upd: "live w' = (live w)(a \<mapsto> c) \<Longrightarrow> sizes w' = (sizes w)(a \<mapsto> length c)"
  by (auto simp: sizes_def)

lemma sizes_del: "live w' = (live w)(a := None) \<Longrightarrow> sizes w' = (sizes w)(a := None)"
  by (auto simp: sizes_def)

lemma holds_add:
  assumes "holds w own lua" "live w a = None" "live w' = (live w)(a \<mapsto> c)"
  shows "holds w' ((a, length c) # own) lua"
  using assms holds_fresh [OF assms(1,2)] sizes_upd [OF assms(3)]
  by (auto simp: holds_def fun_upd_def fun_eq_iff map_add_def)

lemma holds_remove:
  assumes "holds w ((a, n) # own) lua" "live w' = (live w)(a := None)"
  shows "holds w' own lua"
proof -
  have h: "distinct (map fst own)" "a \<notin> fst ` set own" "lua a = None"
    "sizes w = lua ++ map_of ((a, n) # own)" "dom lua \<inter> fst ` set own = {}"
    using assms(1) by (auto simp: holds_def)
  have "map_of own a = None"
    using h(2) by (simp add: map_of_eq_None_iff)
  then have "sizes w' = lua ++ map_of own"
    using sizes_del [OF assms(2)] h(3,4) by (auto simp: fun_eq_iff map_add_def)
  with h show ?thesis
    by (simp add: holds_def)
qed

lemma holds_lua_add:
  assumes "holds w own lua" "live w a = None" "live w' = (live w)(a \<mapsto> c)"
  shows "holds w' own (lua(a \<mapsto> length c))"
proof -
  have f: "lua a = None" "a \<notin> fst ` set own"
    using holds_fresh [OF assms(1,2)] by auto
  then have "map_of own a = None"
    by (simp add: map_of_eq_None_iff)
  then have "sizes w' = lua(a \<mapsto> length c) ++ map_of own"
    using sizes_upd [OF assms(3)] assms(1) by (auto simp: holds_def fun_eq_iff map_add_def split: option.splits)
  then show ?thesis
    using f assms(1) by (auto simp: holds_def)
qed

lemma holds_lua_remove:
  assumes "holds w own lua" "lua a \<noteq> None" "live w' = (live w)(a := None)"
  shows "holds w' own (lua(a := None))"
proof -
  have "a \<notin> fst ` set own"
    using assms(1,2) by (auto simp: holds_def dom_def)
  then have "map_of own a = None"
    by (simp add: map_of_eq_None_iff)
  then have "sizes w' = lua(a := None) ++ map_of own"
    using sizes_del [OF assms(3)] assms(1) by (auto simp: holds_def fun_eq_iff map_add_def split: option.splits)
  then show ?thesis
    using assms(1) by (auto simp: holds_def)
qed

lemma holds_poke:
  assumes "holds w own lua" "live w a = Some c" "length bs \<le> length c"
  shows "holds (poke w a bs) own lua"
proof -
  have "sizes (poke w a bs) = sizes w"
    using assms(2,3) by (auto simp: sizes_def live_poke fun_eq_iff)
  then show ?thesis
    using assms(1) by (simp add: holds_def)
qed

text \<open>The blocks \<open>own\<close> have the same bytes in both heaps.\<close>

definition keeps :: "(addr \<times> nat) list \<Rightarrow> 'u world \<Rightarrow> 'u world \<Rightarrow> bool" where
  "keeps own w w' \<longleftrightarrow> (\<forall>b \<in> set own. live w' (fst b) = live w (fst b))"

lemma keeps_refl [simp]: "keeps own w w"
  by (simp add: keeps_def)

lemma keeps_trans: "keeps own w w' \<Longrightarrow> keeps own w' w'' \<Longrightarrow> keeps own w w''"
  by (simp add: keeps_def)

lemma keeps_subset: "keeps own w w' \<Longrightarrow> set own' \<subseteq> set own \<Longrightarrow> keeps own' w w'"
  by (auto simp: keeps_def)

section \<open>What the facade relies on in Lua\<close>

text \<open>
  Lua passes to its allocation hook only blocks it got from it, with their sizes, whatever the hook
  answers; \<open>owned l\<close> are the blocks that belong to the Lua state \<open>l\<close>.
\<close>

primrec act_ok :: "('l \<Rightarrow> addr \<rightharpoonup> nat) \<Rightarrow> 'l lua_act \<Rightarrow> (addr \<rightharpoonup> nat) \<Rightarrow> bool" where
  "act_ok owned (LuaAlloc ptr osize nsize k) lua =
     ((case ptr of None \<Rightarrow> True | Some p \<Rightarrow> lua p = Some osize) \<and>
      (let rest = (case ptr of None \<Rightarrow> lua | Some p \<Rightarrow> lua(p := None)) in
       if nsize = 0 then act_ok owned (k None) rest
       else act_ok owned (k None) lua \<and>
            (\<forall>q. rest q = None \<longrightarrow> act_ok owned (k (Some q)) (rest(q \<mapsto> nsize)))))"
| "act_ok owned (LuaCount k) lua = (act_ok owned (k True) lua \<and> act_ok owned (k False) lua)"
| "act_ok owned (LuaDone l vs) lua = (owned l = lua)"
| "act_ok owned (LuaRaise l v) lua = (owned l = lua)"

text \<open>Every way the action can end satisfies \<open>P\<close>.\<close>

primrec act_ends :: "'l lua_act \<Rightarrow> ('l \<Rightarrow> (lua_val, lua_val list) sum \<Rightarrow> bool) \<Rightarrow> bool" where
  "act_ends (LuaAlloc ptr osize nsize k) P = (\<forall>q. act_ends (k q) P)"
| "act_ends (LuaCount k) P = (\<forall>b. act_ends (k b) P)"
| "act_ends (LuaDone l vs) P = P l (Inr vs)"
| "act_ends (LuaRaise l v) P = P l (Inl v)"

text \<open>
  The contract of the Lua library: \<open>lua_newstate\<close> starts without blocks and leaves none behind when it
  fails; a protected call and \<open>lua_close\<close> use only blocks of their state; \<open>lua_close\<close> frees them all.
\<close>

definition lua_contract :: "('l \<Rightarrow> addr \<rightharpoonup> nat) \<Rightarrow> 'l lua_lib \<Rightarrow> bool" where
  "lua_contract owned lib \<longleftrightarrow>
     act_ok owned (lib_newstate lib) Map.empty \<and>
     act_ends (lib_newstate lib) (\<lambda>l r. isl r \<longrightarrow> owned l = Map.empty) \<and>
     (\<forall>l f args h. act_ok owned (lib_pcall lib l f args h) (owned l)) \<and>
     (\<forall>l. act_ok owned (lib_close lib l) (owned l) \<and>
          act_ends (lib_close lib l) (\<lambda>l' r. owned l' = Map.empty))"

lemma run_lua_ends:
  "act_ends act P \<Longrightarrow> run_lua act rt = ((l, r), rt') \<Longrightarrow> P l r"
proof (induction act arbitrary: rt)
  case (LuaAlloc ptr osize nsize k)
  obtain q al where q: "cpkt_lua_runtime_lua_alloc (allocator rt) ptr osize nsize = (q, al)" by fastforce
  with LuaAlloc.prems LuaAlloc.IH [of "k q" "rt\<lparr>allocator := al\<rparr>"] show ?case by auto
next
  case (LuaCount k)
  obtain b rt1 where "cpkt_lua_runtime_instruction_hook rt = (b, rt1)" by fastforce
  with LuaCount.prems LuaCount.IH [of "k b" rt1] show ?case by auto
qed auto

text \<open>Everything of a runtime that Lua cannot touch.\<close>

definition frame :: "('u, 'l) lua_runtime \<Rightarrow> ('u, 'l) lua_runtime \<Rightarrow> bool" where
  "frame rt rt' \<longleftrightarrow> rt' = rt\<lparr>allocator := allocator rt', instruction_limit_hit := instruction_limit_hit rt'\<rparr>"

lemma frame_refl [simp]: "frame rt rt"
  by (simp add: frame_def)

lemma frame_fields:
  "frame rt rt' \<Longrightarrow> runtime_self rt' = runtime_self rt \<and> state rt' = state rt \<and>
     last_error rt' = last_error rt \<and> chunks rt' = chunks rt \<and>
     traceback_enabled rt' = traceback_enabled rt \<and> instruction_limit rt' = instruction_limit rt"
  by (cases rt, cases rt') (simp add: frame_def)

lemma frame_alloc: "frame (rt\<lparr>allocator := al\<rparr>) rt' \<Longrightarrow> frame rt rt'"
  by (simp add: frame_def)

lemma frame_hit: "frame (rt\<lparr>instruction_limit_hit := b\<rparr>) rt' \<Longrightarrow> frame rt rt'"
  by (simp add: frame_def)

definition held :: "'u alloc_fun \<Rightarrow> 'u realloc_fun option \<Rightarrow> 'u free_fun \<Rightarrow> nat \<Rightarrow> 'u lua_allocator \<Rightarrow>
    (addr \<times> nat) list \<Rightarrow> (addr \<rightharpoonup> nat) \<Rightarrow> bool" where
  "held af rf ff mb al own lua \<longleftrightarrow> uses af rf ff al \<and> max_bytes al = mb \<and> allocator_inv al \<and> holds (world al) own lua"

lemma held_failed [simp]: "held af rf ff mb (al\<lparr>failed := b\<rparr>) own lua = held af rf ff mb al own lua"
  by (simp add: held_def uses_def)

lemma held_mset: "held af rf ff mb al own lua \<Longrightarrow> mset own = mset own' \<Longrightarrow> held af rf ff mb al own' lua"
  using holds_mset by (auto simp: held_def)

abbreviation "keeps_blocks own al al' \<equiv> keeps own (world al) (world al')"

lemma same_max: "same_setup al al' \<Longrightarrow> max_bytes al' = max_bytes al"
  by (simp add: same_setup_def)

context sys_allocator
begin

lemma held_refused:
  assumes "held af rf ff mb al own lua" "refused al al'"
  shows "held af rf ff mb al' own lua \<and> keeps_blocks own al al'"
  using assms uses_same [of al al'] same_max [of al al'] holds_same [of "world al'" "world al"]
  by (auto simp: held_def refused_def keeps_def)

lemma held_alloc:
  assumes h: "held af rf ff mb al own lua" and r: "cpkt_lua_runtime_allocator_alloc al n = (res, al')"
  shows "case res of
      None \<Rightarrow> held af rf ff mb al' own lua \<and> keeps_blocks own al al'
    | Some q \<Rightarrow> held af rf ff mb al' ((q, max 1 n) # own) lua \<and> keeps_blocks own al al'"
proof -
  have u: "uses af rf ff al" and inv: "allocator_inv al" and o: "holds (world al) own lua"
    and mx: "max_bytes al = mb"
    using h by (simp_all add: held_def)
  note res = alloc_result [OF u inv r, THEN conjunct1]
  show ?thesis
  proof (cases res)
    case None
    then show ?thesis
      using res held_refused [OF h] by simp
  next
    case (Some q)
    with res obtain d where s: "allocator_inv al'" "same_setup al al'" "live (world al) q = None"
      "length d = max 1 n" "live (world al') = (live (world al))(q \<mapsto> d)"
      by (auto simp: served_def)
    have "holds (world al') ((q, max 1 n) # own) lua"
      using holds_add [OF o s(3,5)] s(4) by simp
    moreover have "keeps_blocks own al al'"
      using holds_fresh [OF o s(3)] s(5) by (auto simp: keeps_def)
    ultimately show ?thesis
      using Some s u mx uses_same [OF s(2)] same_max [OF s(2)] by (auto simp: held_def)
  qed
qed

lemma held_free:
  assumes h: "held af rf ff mb al ((p, n) # own) lua"
  shows "held af rf ff mb (cpkt_lua_runtime_allocator_free al (Some p) n) own lua \<and>
    keeps_blocks own al (cpkt_lua_runtime_allocator_free al (Some p) n)"
proof -
  let ?al = "cpkt_lua_runtime_allocator_free al (Some p) n"
  have u: "uses af rf ff al" and inv: "allocator_inv al" and o: "holds (world al) ((p, n) # own) lua"
    and mx: "max_bytes al = mb"
    using h by (simp_all add: held_def)
  obtain c where c: "live (world al) p = Some c" "length c = n"
    using holds_size [OF o, of p n] by auto
  have rel: "released al p ?al"
    using free_result [OF u inv c(1)] c(2) by simp
  then have "holds (world ?al) own lua"
    using holds_remove [OF o] by (auto simp: released_def)
  moreover have "p \<notin> fst ` set own"
    using o by (auto simp: holds_def)
  ultimately show ?thesis
    using rel u mx uses_same [of al ?al] same_max [of al ?al] by (auto simp: held_def released_def keeps_def)
qed

lemma held_store:
  assumes h: "held af rf ff mb al ((p, n) # own) lua" and bs: "length bs \<le> n"
  shows "held af rf ff mb (store al p bs) ((p, n) # own) lua \<and> keeps_blocks own al (store al p bs) \<and>
    (\<forall>c. live (world al) p = Some c \<longrightarrow> live (world (store al p bs)) p = Some (bs @ drop (length bs) c))"
proof -
  have u: "uses af rf ff al" and inv: "allocator_inv al" and o: "holds (world al) ((p, n) # own) lua"
    and mx: "max_bytes al = mb"
    using h by (simp_all add: held_def)
  obtain c where c: "live (world al) p = Some c" "length c = n"
    using holds_size [OF o, of p n] by auto
  have wf: "world_wf (world al)" using inv by (simp add: allocator_inv_def)
  have le: "length bs \<le> length c" using bs c by simp
  have "allocator_inv (store al p bs)"
    using inv wf_poke [OF wf c(1) le] total_poke [OF wf c(1) le]
    by (auto simp: allocator_inv_def store_def within_limit_def)
  moreover have "holds (world (store al p bs)) ((p, n) # own) lua"
    using holds_poke [OF o c(1) le] by (simp add: store_def)
  moreover have "uses af rf ff (store al p bs)"
    using u by (simp add: uses_def store_def)
  moreover have "p \<notin> fst ` set own"
    using o by (auto simp: holds_def)
  ultimately show ?thesis
    using c mx by (auto simp: held_def keeps_def store_def live_poke)
qed

text \<open>One request of Lua.\<close>

lemma held_lua_request:
  assumes h: "held af rf ff mb al own lua" and p: "case ptr of None \<Rightarrow> True | Some p \<Rightarrow> lua p = Some osize"
    and r: "cpkt_lua_runtime_lua_alloc al ptr osize nsize = (res, al')"
  defines "rest \<equiv> case ptr of None \<Rightarrow> lua | Some p \<Rightarrow> lua(p := None)"
  shows "keeps_blocks own al al' \<and>
    (if nsize = 0 then res = None \<and> held af rf ff mb al' own rest
     else case res of None \<Rightarrow> held af rf ff mb al' own lua
          | Some q \<Rightarrow> rest q = None \<and> held af rf ff mb al' own (rest(q \<mapsto> nsize)))"
proof -
  have u: "uses af rf ff al" and inv: "allocator_inv al" and o: "holds (world al) own lua"
    and mx: "max_bytes al = mb"
    using h by (simp_all add: held_def)
  have live: "\<exists>c. live (world al) a = Some c \<and> length c = osize" if "ptr = Some a" for a
    using holds_lua_size [OF o] p that by simp
  note req = request_result [OF u inv live r]
  have serve: "keeps_blocks own al al' \<and> rest q = None \<and> held af rf ff mb al' own (rest(q \<mapsto> nsize))"
    if s: "served al ptr nsize q al'" for q
  proof -
    from s obtain d where d: "allocator_inv al'" "same_setup al al'" "ptr = Some q \<or> live (world al) q = None"
      "length d = nsize" "live (world al') =
        (case ptr of None \<Rightarrow> live (world al) | Some p \<Rightarrow> (live (world al))(p := None))(q \<mapsto> d)"
      by (auto simp: served_def)
    obtain w :: "'u world" where w: "live w = (case ptr of None \<Rightarrow> live (world al) | Some p \<Rightarrow> (live (world al))(p := None))"
    proof (cases ptr)
      case None
      then show ?thesis using that [of "world al"] by simp
    next
      case (Some a)
      then show ?thesis using that [of "libc_free (world al) a"] live_libc_free [of "world al" a] by simp
    qed
    have ow: "holds w own rest"
    proof (cases ptr)
      case None
      then show ?thesis using o w holds_same [of w "world al"] by (simp add: rest_def)
    next
      case (Some a)
      then show ?thesis using p w holds_lua_remove [OF o, of a w] by (simp add: rest_def)
    qed
    have q: "live w q = None"
      using d(3) w by (cases ptr) auto
    have lq: "live (world al') = (live w)(q \<mapsto> d)"
      using d(5) w by simp
    have "holds (world al') own (rest(q \<mapsto> nsize))"
      using holds_lua_add [OF ow q lq] d(4) by simp
    moreover have "rest q = None" "q \<notin> fst ` set own"
      using holds_fresh [OF ow q] by auto
    moreover have "a \<notin> fst ` set own" if "ptr = Some a" for a
      using o p that by (auto simp: holds_def dom_def)
    ultimately show ?thesis
      using d(1,2,5) u mx uses_same [of al al'] same_max [of al al'] by (cases ptr) (auto simp: held_def keeps_def)
  qed
  show ?thesis
  proof (cases "nsize = 0")
    case True
    show ?thesis
    proof (cases ptr)
      case None
      then show ?thesis using req True h by (simp add: rest_def)
    next
      case (Some a)
      with req True have rel: "res = None" "released al a al'" by simp_all
      have a: "lua a \<noteq> None" "a \<notin> fst ` set own"
        using o p Some by (auto simp: holds_def dom_def)
      have "holds (world al') own rest"
        using holds_lua_remove [OF o a(1)] rel(2) Some by (auto simp: rest_def released_def)
      then show ?thesis
        using rel True a u mx uses_same [of al al'] same_max [of al al'] by (auto simp: held_def released_def keeps_def)
    qed
  next
    case False
    then have *: "case res of None \<Rightarrow> refused al al' | Some q \<Rightarrow> served al ptr nsize q al'"
      using req by (cases ptr) auto
    show ?thesis
    proof (cases res)
      case None
      then show ?thesis using * False held_refused [OF h] by simp
    next
      case (Some q)
      then show ?thesis using * False serve by simp
    qed
  qed
qed

lemma run_lua_held:
  assumes "held af rf ff mb (allocator rt) own lua" "act_ok owned act lua"
    "run_lua act rt = ((l, r), rt')"
  shows "held af rf ff mb (allocator rt') own (owned l) \<and> keeps_blocks own (allocator rt) (allocator rt') \<and>
    frame rt rt'"
  using assms
proof (induction act arbitrary: rt lua)
  case (LuaAlloc ptr osize nsize k)
  obtain q al where q: "cpkt_lua_runtime_lua_alloc (allocator rt) ptr osize nsize = (q, al)" by fastforce
  let ?rest = "case ptr of None \<Rightarrow> lua | Some p \<Rightarrow> lua(p := None)"
  let ?rt = "rt\<lparr>allocator := al\<rparr>"
  from LuaAlloc.prems(2) have p: "case ptr of None \<Rightarrow> True | Some p \<Rightarrow> lua p = Some osize"
    by simp
  note req = held_lua_request [OF LuaAlloc.prems(1) p q]
  have run: "run_lua (k q) ?rt = ((l, r), rt')"
    using LuaAlloc.prems(3) q by simp
  have "\<exists>lua'. held af rf ff mb al own lua' \<and> act_ok owned (k q) lua'"
  proof (cases "nsize = 0")
    case True
    then show ?thesis
      using LuaAlloc.prems(2) req by (intro exI [of _ ?rest]) (auto simp: Let_def)
  next
    case False
    then show ?thesis
      using LuaAlloc.prems(2) req by (cases q) (auto simp: Let_def)
  qed
  then obtain lua' where l: "held af rf ff mb (allocator ?rt) own lua'" "act_ok owned (k q) lua'"
    by auto
  from LuaAlloc.IH [OF _ l run] req show ?case
    by (auto intro: keeps_trans frame_alloc)
next
  case (LuaCount k)
  obtain b rt1 where b: "cpkt_lua_runtime_instruction_hook rt = (b, rt1)" by fastforce
  then have rt1: "allocator rt1 = allocator rt" "rt1 = rt \<or> rt1 = rt\<lparr>instruction_limit_hit := True\<rparr>"
    by (auto simp: cpkt_lua_runtime_instruction_hook_def split: if_splits)
  have "act_ok owned (k b) lua"
    using LuaCount.prems(2) by (cases b) auto
  from LuaCount.IH [OF _ _ this, of rt1] LuaCount.prems b rt1 show ?case
    by (auto intro: frame_hit)
qed auto

end

section \<open>The runtime invariant\<close>

definition opt_block :: "addr option \<Rightarrow> nat \<Rightarrow> (addr \<times> nat) list" where
  "opt_block p n = (case p of None \<Rightarrow> [] | Some a \<Rightarrow> [(a, n)])"

definition chunk_blocks :: "lua_chunk \<Rightarrow> (addr \<times> nat) list" where
  "chunk_blocks ck = opt_block (chunk_module ck) (chunk_module_size ck) @
     opt_block (chunk_name ck) (chunk_name_size ck) @ opt_block (source ck) (source_alloc_size ck) @
     [(chunk_self ck, sizeof_chunk)]"

definition error_blocks :: "('u, 'l) lua_runtime \<Rightarrow> (addr \<times> nat) list" where
  "error_blocks rt =
     (case last_error rt of None \<Rightarrow> [] | Some a \<Rightarrow> [(a, strlen_at (world (allocator rt)) a + 1)])"

definition own_blocks :: "('u, 'l) lua_runtime \<Rightarrow> (addr \<times> nat) list" where
  "own_blocks rt = concat (map chunk_blocks (chunks rt)) @ [(runtime_self rt, sizeof_runtime)]"

definition lua_blocks :: "('l \<Rightarrow> addr \<rightharpoonup> nat) \<Rightarrow> ('u, 'l) lua_runtime \<Rightarrow> addr \<rightharpoonup> nat" where
  "lua_blocks owned rt = (case state rt of None \<Rightarrow> Map.empty | Some st \<Rightarrow> owned (lua_internal st))"

definition error_text_ok :: "('u, 'l) lua_runtime \<Rightarrow> bool" where
  "error_text_ok rt \<longleftrightarrow> (\<forall>a. last_error rt = Some a \<longrightarrow>
     (\<exists>s. NUL \<notin> set s \<and> live (world (allocator rt)) a = Some (s @ [NUL])))"

text \<open>
  Every live heap block belongs to Lua, or is the runtime's own struct, a block of a registered chunk,
  the error text, or one of the \<open>extra\<close> blocks an operation is working on; the error text is a
  terminated string that fills its block.
\<close>

definition rt_ok :: "'u alloc_fun \<Rightarrow> 'u realloc_fun option \<Rightarrow> 'u free_fun \<Rightarrow> nat \<Rightarrow> ('l \<Rightarrow> addr \<rightharpoonup> nat) \<Rightarrow>
    (addr \<times> nat) list \<Rightarrow> ('u, 'l) lua_runtime \<Rightarrow> bool" where
  "rt_ok af rf ff mb owned extra rt \<longleftrightarrow>
     held af rf ff mb (allocator rt) (error_blocks rt @ extra @ own_blocks rt) (lua_blocks owned rt) \<and>
     error_text_ok rt"

definition rt_same :: "('u, 'l) lua_runtime \<Rightarrow> ('u, 'l) lua_runtime \<Rightarrow> bool" where
  "rt_same rt rt' \<longleftrightarrow> runtime_self rt' = runtime_self rt \<and> chunks rt' = chunks rt \<and>
     traceback_enabled rt' = traceback_enabled rt \<and> instruction_limit rt' = instruction_limit rt \<and>
     (state rt' = None) = (state rt = None)"

lemma rt_same_refl [simp]: "rt_same rt rt"
  by (simp add: rt_same_def)

lemma rt_same_trans: "rt_same a b \<Longrightarrow> rt_same b c \<Longrightarrow> rt_same a c"
  by (simp add: rt_same_def)

lemma cstr_terminated [simp]: "NUL \<notin> set s \<Longrightarrow> cstr (s @ NUL # r) = s"
  by (simp add: cstr_def takeWhile_append)

lemma cstr_no_NUL [simp]: "NUL \<notin> set (cstr s)"
  by (auto simp: cstr_def dest: set_takeWhileD)

lemma strlen_keeps: "live w' a = live w a \<Longrightarrow> strlen_at w' a = strlen_at w a"
  by (simp add: strlen_at_def)

lemma error_blocks_keeps:
  assumes "keeps (error_blocks rt @ others) (world (allocator rt)) (world (allocator rt'))"
    "last_error rt' = last_error rt"
  shows "error_blocks rt' = error_blocks rt \<and> error_text_ok rt' = error_text_ok rt"
proof (cases "last_error rt")
  case None
  then show ?thesis using assms(2) by (simp add: error_blocks_def error_text_ok_def)
next
  case (Some a)
  then have "live (world (allocator rt')) a = live (world (allocator rt)) a"
    using assms(1) by (simp add: keeps_def error_blocks_def)
  then show ?thesis
    using Some assms(2) by (simp add: error_blocks_def error_text_ok_def strlen_at_def)
qed

text \<open>The invariant does not look at the remaining fields.\<close>

lemma rt_ok_irrelevant [simp]:
  "rt_ok af rf ff mb owned extra (rt\<lparr>instruction_limit_hit := b\<rparr>) = rt_ok af rf ff mb owned extra rt"
  "rt_ok af rf ff mb owned extra (rt\<lparr>traceback_enabled := b\<rparr>) = rt_ok af rf ff mb owned extra rt"
  "rt_ok af rf ff mb owned extra (rt\<lparr>instruction_limit := i\<rparr>) = rt_ok af rf ff mb owned extra rt"
  "rt_ok af rf ff mb owned extra (rt\<lparr>runtime_context := c\<rparr>) = rt_ok af rf ff mb owned extra rt"
  "rt_ok af rf ff mb owned extra (rt\<lparr>warning_callback := c\<rparr>) = rt_ok af rf ff mb owned extra rt"
  "rt_ok af rf ff mb owned extra (rt\<lparr>warning_context := c\<rparr>) = rt_ok af rf ff mb owned extra rt"
  by (simp_all add: rt_ok_def error_blocks_def own_blocks_def lua_blocks_def error_text_ok_def
      cong: option.case_cong)

lemma rt_ok_failed [simp]:
  "rt_ok af rf ff mb owned extra (rt\<lparr>allocator := (allocator rt)\<lparr>failed := b\<rparr>\<rparr>) = rt_ok af rf ff mb owned extra rt"
  by (simp add: rt_ok_def error_blocks_def own_blocks_def lua_blocks_def error_text_ok_def
      cong: option.case_cong)

lemma rt_ok_state:
  assumes "lua_blocks owned (rt\<lparr>state := st\<rparr>) = lua_blocks owned rt"
  shows "rt_ok af rf ff mb owned extra (rt\<lparr>state := st\<rparr>) = rt_ok af rf ff mb owned extra rt"
  unfolding rt_ok_def assms
  by (simp add: error_blocks_def own_blocks_def error_text_ok_def cong: option.case_cong)

lemma rt_ok_stack [simp]:
  "rt_ok af rf ff mb owned extra (lua_push vs rt) = rt_ok af rf ff mb owned extra rt"
  "rt_ok af rf ff mb owned extra (lua_pop n rt) = rt_ok af rf ff mb owned extra rt"
  "rt_ok af rf ff mb owned extra (lua_settop0 rt) = rt_ok af rf ff mb owned extra rt"
  "rt_ok af rf ff mb owned extra (cpkt_lua_runtime_apply_instruction_hook rt) = rt_ok af rf ff mb owned extra rt"
  unfolding lua_push_def lua_pop_def lua_settop0_def cpkt_lua_runtime_apply_instruction_hook_def
  by (rule rt_ok_state; cases "state rt"; simp add: lua_blocks_def)+

lemma rt_same_stack [simp]:
  "rt_same rt (lua_push vs rt)" "rt_same rt (lua_pop n rt)" "rt_same rt (lua_settop0 rt)"
  "rt_same rt (cpkt_lua_runtime_apply_instruction_hook rt)"
  by (simp_all add: rt_same_def lua_push_def lua_pop_def lua_settop0_def
      cpkt_lua_runtime_apply_instruction_hook_def)

lemma rt_ok_mset:
  assumes "rt_ok af rf ff mb owned extra rt" "mset extra = mset extra'"
  shows "rt_ok af rf ff mb owned extra' rt"
  using assms held_mset [of af rf ff mb "allocator rt" "error_blocks rt @ extra @ own_blocks rt"
      "lua_blocks owned rt" "error_blocks rt @ extra' @ own_blocks rt"]
  by (simp add: rt_ok_def)

context sys_allocator
begin

abbreviation "ok mb owned extra rt \<equiv> rt_ok af rf ff mb owned extra rt"

lemma ok_keeps:
  assumes "ok mb owned extra rt" "held af rf ff mb al (error_blocks rt @ extra' @ own_blocks rt) (lua_blocks owned rt)"
    "keeps (error_blocks rt @ others) (world (allocator rt)) (world al)"
  shows "ok mb owned extra' (rt\<lparr>allocator := al\<rparr>)"
proof -
  let ?rt = "rt\<lparr>allocator := al\<rparr>"
  have "error_blocks ?rt = error_blocks rt \<and> error_text_ok ?rt = error_text_ok rt"
    using assms(3) by (intro error_blocks_keeps) simp_all
  then show ?thesis
    using assms(1,2) by (simp add: rt_ok_def own_blocks_def lua_blocks_def)
qed

lemma rt_alloc_ok:
  assumes ok: "ok mb owned extra rt" and r: "rt_alloc rt n = (res, rt')"
  shows "(\<exists>al. rt' = rt\<lparr>allocator := al\<rparr>) \<and>
    ok mb owned (opt_block res (max 1 n) @ extra) rt'"
proof -
  let ?own = "error_blocks rt @ extra @ own_blocks rt"
  obtain al where al: "cpkt_lua_runtime_allocator_alloc (allocator rt) n = (res, al)" "rt' = rt\<lparr>allocator := al\<rparr>"
    using r by (auto simp: rt_alloc_def split: prod.splits)
  have h: "held af rf ff mb (allocator rt) ?own (lua_blocks owned rt)"
    using ok by (simp add: rt_ok_def)
  note a = held_alloc [OF h al(1)]
  have k: "keeps ?own (world (allocator rt)) (world al)"
    using a by (cases res) auto
  have "held af rf ff mb al (error_blocks rt @ (opt_block res (max 1 n) @ extra) @ own_blocks rt)
      (lua_blocks owned rt)"
    using a by (cases res) (auto simp: opt_block_def intro: held_mset)
  from ok_keeps [OF ok this k] al(2) show ?thesis
    by auto
qed

lemma rt_free_ok:
  assumes ok: "ok mb owned (opt_block p n @ extra) rt"
  shows "ok mb owned extra (rt_free rt p n)"
proof (cases p)
  case None
  then show ?thesis
    using ok by (simp add: rt_free_def opt_block_def cpkt_lua_runtime_allocator_free_def)
next
  case (Some a)
  let ?own = "error_blocks rt @ extra @ own_blocks rt"
  have "held af rf ff mb (allocator rt) (error_blocks rt @ ((a, n) # extra) @ own_blocks rt) (lua_blocks owned rt)"
    using ok Some by (simp add: rt_ok_def opt_block_def)
  then have h: "held af rf ff mb (allocator rt) ((a, n) # ?own) (lua_blocks owned rt)"
    by (rule held_mset) simp
  from held_free [OF h] ok_keeps [OF ok] show ?thesis
    by (auto simp: rt_free_def Some)
qed

end

lemma rt_same_alloc [simp]: "rt_same rt (rt\<lparr>allocator := al\<rparr>)" "rt_same rt (rt_free rt p n)"
  "rt_same rt (rt\<lparr>last_error := e\<rparr>)" "rt_same rt (rt\<lparr>instruction_limit_hit := b\<rparr>)"
  by (simp_all add: rt_same_def rt_free_def)

lemma rt_same_chunk [simp]: "rt_same rt (cpkt_lua_runtime_free_chunk rt ck)"
  by (simp add: cpkt_lua_runtime_free_chunk_def Let_def rt_same_def rt_free_def)

lemma swap_error: "rt\<lparr>last_error := e, allocator := al\<rparr> = rt\<lparr>allocator := al, last_error := e\<rparr>"
  by (cases rt) simp

lemma fresh_error: "last_error rt = None \<Longrightarrow> error_blocks rt = [] \<and> error_text_ok rt"
  by (simp add: error_blocks_def error_text_ok_def)

context sys_allocator
begin

lemma strdup_ok:
  assumes ok: "ok mb owned extra rt" and r: "cpkt_lua_runtime_strdup rt (Some s) = (res, rt')"
  shows "(\<exists>al. rt' = rt\<lparr>allocator := al\<rparr>) \<and>
    (case res of
       None \<Rightarrow> ok mb owned extra rt'
     | Some b \<Rightarrow> snd b = length (cstr s) + 1 \<and> ok mb owned (b # extra) rt' \<and>
         live (world (allocator rt')) (fst b) = Some (cstr s @ [NUL]))"
proof -
  let ?n = "length (cstr s) + 1"
  obtain p rt1 where a: "rt_alloc rt ?n = (p, rt1)" by fastforce
  from rt_alloc_ok [OF ok a] have ok1: "ok mb owned (opt_block p ?n @ extra) rt1"
    and fr: "\<exists>al. rt1 = rt\<lparr>allocator := al\<rparr>" by simp_all
  show ?thesis
  proof (cases p)
    case None
    then show ?thesis
      using r a ok1 fr by (auto simp: cpkt_lua_runtime_strdup_def Let_def opt_block_def)
  next
    case (Some q)
    let ?al = "store (allocator rt1) q (cstr s @ [NUL])"
    have res: "res = Some (q, ?n)" "rt' = rt1\<lparr>allocator := ?al\<rparr>"
      using r a Some by (auto simp: cpkt_lua_runtime_strdup_def Let_def)
    let ?own = "error_blocks rt1 @ extra @ own_blocks rt1"
    have h: "held af rf ff mb (allocator rt1) ((q, ?n) # ?own) (lua_blocks owned rt1)"
      using ok1 Some by (auto simp: rt_ok_def opt_block_def intro: held_mset)
    have len: "length (cstr s @ [NUL]) \<le> ?n" by simp
    note st = held_store [OF h len]
    have "held af rf ff mb ?al (error_blocks rt1 @ ((q, ?n) # extra) @ own_blocks rt1) (lua_blocks owned rt1)"
      using st by (auto intro: held_mset)
    from ok_keeps [OF ok1 this] st have ok2: "ok mb owned ((q, ?n) # extra) rt'"
      by (auto simp: res)
    obtain c where "live (world (allocator rt1)) q = Some c" "length c = ?n"
      using h holds_size [of "world (allocator rt1)" "(q, ?n) # ?own" "lua_blocks owned rt1" q ?n]
      by (auto simp: held_def)
    then have "live (world ?al) q = Some (cstr s @ [NUL])"
      using st by simp
    moreover have "\<exists>al. rt' = rt\<lparr>allocator := al\<rparr>"
      using res fr by auto
    ultimately show ?thesis
      using res ok2 by simp
  qed
qed

lemma free_chunk_ok:
  assumes "ok mb owned (chunk_blocks ck @ extra) rt"
  shows "ok mb owned extra (cpkt_lua_runtime_free_chunk rt ck)"
proof -
  have "ok mb owned (opt_block (chunk_module ck) (chunk_module_size ck) @
      opt_block (chunk_name ck) (chunk_name_size ck) @ opt_block (source ck) (source_alloc_size ck) @
      opt_block (Some (chunk_self ck)) sizeof_chunk @ extra) rt"
    using assms by (simp add: chunk_blocks_def opt_block_def)
  then show ?thesis
    unfolding cpkt_lua_runtime_free_chunk_def Let_def by (intro rt_free_ok)
qed

lemma forget_error_ok:
  assumes ok: "ok mb owned extra rt"
  shows "ok mb owned extra ((free_last_error rt)\<lparr>last_error := None\<rparr>) \<and>
    (\<exists>al. (free_last_error rt)\<lparr>last_error := None\<rparr> = rt\<lparr>allocator := al, last_error := None\<rparr>)"
proof (cases "last_error rt")
  case None
  then have "free_last_error rt = rt"
    by (simp add: free_last_error_def rt_free_def cpkt_lua_runtime_allocator_free_def)
  moreover have "rt\<lparr>last_error := None\<rparr> = rt"
    using None by simp
  ultimately show ?thesis
    using ok by (auto intro: exI [of _ "allocator rt"])
next
  case (Some a)
  let ?n = "strlen_at (world (allocator rt)) a + 1"
  let ?rt = "rt\<lparr>last_error := None\<rparr>"
  have "held af rf ff mb (allocator rt) ((a, ?n) # extra @ own_blocks rt) (lua_blocks owned rt)"
    using ok Some by (simp add: rt_ok_def error_blocks_def)
  then have "ok mb owned (opt_block (Some a) ?n @ extra) ?rt"
    using fresh_error [of ?rt] by (simp add: rt_ok_def opt_block_def own_blocks_def lua_blocks_def)
  from rt_free_ok [OF this]
  have "ok mb owned extra ((free_last_error rt)\<lparr>last_error := None\<rparr>)"
    by (simp add: free_last_error_def Some rt_free_def swap_error)
  then show ?thesis
    by (auto simp: free_last_error_def rt_free_def)
qed

lemma clear_error_ok:
  assumes "ok mb owned extra rt"
  shows "ok mb owned extra (cpkt_lua_runtime_clear_error rt) \<and> rt_same rt (cpkt_lua_runtime_clear_error rt) \<and>
    last_error (cpkt_lua_runtime_clear_error rt) = None \<and>
    state (cpkt_lua_runtime_clear_error rt) = state rt"
  using forget_error_ok [OF assms]
  by (simp add: cpkt_lua_runtime_clear_error_def rt_same_def free_last_error_def rt_free_def)

lemma keep_error_ok:
  assumes "ok mb owned (b # extra) rt" "last_error rt = None" "NUL \<notin> set s"
    "live (world (allocator rt)) (fst b) = Some (s @ [NUL])" "snd b = length s + 1"
  shows "ok mb owned extra (rt\<lparr>last_error := Some (fst b)\<rparr>)"
proof -
  let ?rt = "rt\<lparr>last_error := Some (fst b)\<rparr>"
  have "error_blocks ?rt = [b]"
    using assms(3-5) by (simp add: error_blocks_def strlen_at_def prod_eq_iff)
  moreover have "error_text_ok ?rt"
    using assms(3,4) by (auto simp: error_text_ok_def)
  ultimately show ?thesis
    using assms(1,2) fresh_error [of rt] by (simp add: rt_ok_def own_blocks_def lua_blocks_def)
qed

lemma strdup_None_failed:
  assumes "uses af rf ff (allocator rt)" "allocator_inv (allocator rt)"
    "cpkt_lua_runtime_strdup rt (Some s) = (None, rt')"
  shows "failed (allocator rt')"
proof -
  obtain p al where a: "cpkt_lua_runtime_allocator_alloc (allocator rt) (length (cstr s) + 1) = (p, al)"
    by fastforce
  with assms(3) have "p = None" "rt' = rt\<lparr>allocator := al\<rparr>"
    by (auto simp: cpkt_lua_runtime_strdup_def rt_alloc_def Let_def split: option.splits)
  then show ?thesis
    using alloc_result [OF assms(1,2) a] by (simp add: refused_def)
qed

lemma ok_setup: "ok mb owned extra rt \<Longrightarrow> uses af rf ff (allocator rt) \<and> allocator_inv (allocator rt)"
  by (simp add: rt_ok_def held_def)

lemma error_text:
  "last_error rt = Some a \<Longrightarrow> live (world (allocator rt)) a = Some (s @ [NUL]) \<Longrightarrow> NUL \<notin> set s \<Longrightarrow>
    cpkt_lua_runtime_error rt = s"
  by (simp add: cpkt_lua_runtime_error_def)

lemma set_error_ok:
  assumes ok: "ok mb owned extra rt" and r: "cpkt_lua_runtime_set_error rt status message = (status', rt')"
  shows "ok mb owned extra rt' \<and> (\<exists>al e. rt' = rt\<lparr>allocator := al, last_error := e\<rparr>) \<and>
    (case message of
       None \<Rightarrow> status' = status \<and> cpkt_lua_runtime_error rt' = ''''
     | Some m \<Rightarrow> (status' = status \<and> cpkt_lua_runtime_error rt' = cstr m) \<or>
         (status' = CPKT_LUA_RUNTIME_ERR_ALLOC \<and>
          cpkt_lua_runtime_error rt' \<in> {'''', ''out of memory''}))"
proof -
  let ?rt = "(free_last_error rt)\<lparr>last_error := None\<rparr>"
  have ok0: "ok mb owned extra ?rt" and fr0: "\<exists>al. ?rt = rt\<lparr>allocator := al, last_error := None\<rparr>"
    using forget_error_ok [OF ok] by simp_all
  show ?thesis
  proof (cases message)
    case None
    with r have "status' = status" "rt' = ?rt"
      by (simp_all add: cpkt_lua_runtime_set_error_def Let_def)
    with None ok0 fr0 show ?thesis
      by (auto simp: cpkt_lua_runtime_error_def)
  next
    case (Some m)
    obtain c rt1 where d: "cpkt_lua_runtime_strdup ?rt (Some m) = (c, rt1)" by fastforce
    note s1 = strdup_ok [OF ok0 d]
    from fr0 obtain al0 where "?rt = rt\<lparr>allocator := al0, last_error := None\<rparr>" ..
    moreover from s1 obtain al1 where "rt1 = ?rt\<lparr>allocator := al1\<rparr>" by blast
    ultimately have fr1: "rt1 = rt\<lparr>allocator := al1, last_error := None\<rparr>"
      by (cases rt) (simp only:, simp)
    show ?thesis
    proof (cases c)
      case (Some b)
      then have res: "status' = status" "rt' = rt1\<lparr>last_error := Some (fst b)\<rparr>"
        using r d \<open>message = Some m\<close> by (auto simp: cpkt_lua_runtime_set_error_def Let_def split: prod.splits)
      have "ok mb owned extra rt'"
        unfolding res using s1 Some fr1 by (intro keep_error_ok [of _ _ b _ _ "cstr m"]) auto
      moreover have "cpkt_lua_runtime_error rt' = cstr m"
        using s1 Some res by (intro error_text [of _ "fst b"]) auto
      ultimately show ?thesis
        using res fr1 \<open>message = Some m\<close> by auto
    next
      case None
      then have ok1: "ok mb owned extra rt1" using s1 by simp
      let ?oom = "''out of memory''"
      obtain f rt2 where d2: "cpkt_lua_runtime_strdup rt1 (Some ?oom) = (f, rt2)" by fastforce
      have res: "status' = CPKT_LUA_RUNTIME_ERR_ALLOC" "rt' = rt2\<lparr>last_error := map_option fst f\<rparr>"
        using r d d2 None \<open>message = Some m\<close> by (auto simp: cpkt_lua_runtime_set_error_def Let_def)
      note s2 = strdup_ok [OF ok1 d2]
      from s2 obtain al2 where "rt2 = rt1\<lparr>allocator := al2\<rparr>" by blast
      with fr1 have fr2: "rt2 = rt\<lparr>allocator := al2, last_error := None\<rparr>"
        by (cases rt) simp
      have oom: "cstr ?oom = ?oom"
        by (simp add: cstr_def NUL_def)
      have "ok mb owned extra rt' \<and> cpkt_lua_runtime_error rt' \<in> {'''', ?oom}"
      proof (cases f)
        case None
        then have "rt' = rt2" using res fr2 by simp
        then show ?thesis using None s2 fr2 by (simp add: cpkt_lua_runtime_error_def)
      next
        case (Some b)
        have "ok mb owned extra (rt2\<lparr>last_error := Some (fst b)\<rparr>)"
          using s2 Some fr2 by (intro keep_error_ok [of _ _ b _ _ ?oom]) (auto simp: oom NUL_def)
        moreover have "cpkt_lua_runtime_error rt' = ?oom"
          using s2 Some res by (intro error_text [of _ "fst b"]) (auto simp: oom NUL_def)
        ultimately show ?thesis using Some res by simp
      qed
      then show ?thesis
        using res fr2 \<open>message = Some m\<close> by auto
    qed
  qed
qed

end

text \<open>A call under way: both flags are clear and Lua runs the function on top of the stack.\<close>

definition call_base :: "nat \<Rightarrow> ('u, 'l) lua_runtime \<Rightarrow> lua_val list" where
  "call_base nargs rt =
     (case state rt of None \<Rightarrow> []
      | Some st \<Rightarrow> take (length (lua_stack st) - nargs - 1) (lua_stack st))"

definition call_run ::
    "'l lua_lib \<Rightarrow> nat \<Rightarrow> bool \<Rightarrow> 'l lua_state \<Rightarrow> ('u, 'l) lua_runtime \<Rightarrow>
      ('l \<times> (lua_val, lua_val list) sum) \<times> ('u, 'l) lua_runtime" where
  "call_run lib nargs traceback st rt =
     run_lua
       (lib_pcall lib (lua_internal st) (lua_stack st ! (length (lua_stack st) - nargs - 1))
          (drop (length (lua_stack st) - nargs) (lua_stack st)) traceback)
       (rt\<lparr>instruction_limit_hit := False, allocator := (allocator rt)\<lparr>failed := False\<rparr>\<rparr>)"

definition failure_of :: "cpkt_lua_runtime_status \<Rightarrow> ('u, 'l) lua_runtime \<Rightarrow> cpkt_lua_runtime_status" where
  "failure_of failure_status rt =
     (if instruction_limit_hit rt then CPKT_LUA_RUNTIME_ERR_LIMIT
      else if failed (allocator rt) then CPKT_LUA_RUNTIME_ERR_ALLOC
      else failure_status)"

lemma call_raised:
  assumes "state rt = Some st" "call_run lib nargs traceback st rt = ((l, Inl v), rt1)"
    "cpkt_lua_runtime_set_error rt1 (failure_of fs rt1) (lua_tostring v) = (status, rt2)"
  shows "cpkt_lua_runtime_call_with_status lib rt nargs nresults fs traceback =
    (status, rt2\<lparr>state := Some (st\<lparr>lua_internal := l, lua_stack := call_base nargs rt\<rparr>)\<rparr>)"
  using assms
  by (simp add: cpkt_lua_runtime_call_with_status_def call_run_def call_base_def failure_of_def Let_def
      butlast_append)

lemma call_returned:
  fixes nresults :: lua_nresults
  assumes "state rt = Some st" "call_run lib nargs traceback st rt = ((l, Inr vs), rt1)"
  defines "stack \<equiv> call_base nargs rt @
      (if traceback \<and> nresults = LUA_MULTRET then [] else adjust_results nresults vs)"
  defines "rt2 \<equiv> rt1\<lparr>state := Some (st\<lparr>lua_internal := l, lua_stack := stack\<rparr>),
      allocator := (allocator rt1)\<lparr>failed := False\<rparr>\<rparr>"
  shows "cpkt_lua_runtime_call_with_status lib rt nargs nresults fs traceback =
    (if instruction_limit_hit rt1
     then cpkt_lua_runtime_set_error rt2 CPKT_LUA_RUNTIME_ERR_LIMIT (Some ''Lua instruction limit exceeded'')
     else (CPKT_LUA_RUNTIME_OK, cpkt_lua_runtime_clear_error rt2))"
  using assms
  by (simp add: cpkt_lua_runtime_call_with_status_def call_run_def call_base_def Let_def)

lemma set_error_state:
  "cpkt_lua_runtime_set_error rt status message = (status', rt') \<Longrightarrow>
   cpkt_lua_runtime_set_error (rt\<lparr>state := s\<rparr>) status message = (status', rt'\<lparr>state := s\<rparr>)"
proof -
  have dup: "cpkt_lua_runtime_strdup (rt\<lparr>state := s\<rparr>) m =
      map_prod id (\<lambda>rt. rt\<lparr>state := s\<rparr>) (cpkt_lua_runtime_strdup rt m)" for m and rt :: "('a, 'b) lua_runtime"
    by (cases rt) (simp add: cpkt_lua_runtime_strdup_def rt_alloc_def Let_def split: option.split prod.split)
  have free: "(free_last_error (rt\<lparr>state := s\<rparr>))\<lparr>last_error := None\<rparr> =
      ((free_last_error rt)\<lparr>last_error := None\<rparr>)\<lparr>state := s\<rparr>"
    by (cases rt) (simp add: free_last_error_def rt_free_def cong: option.case_cong)
  have upd: "rt\<lparr>state := s, last_error := e\<rparr> = rt\<lparr>last_error := e, state := s\<rparr>" for e and rt :: "('a, 'b) lua_runtime"
    by (cases rt) simp
  assume "cpkt_lua_runtime_set_error rt status message = (status', rt')"
  then show ?thesis
    unfolding cpkt_lua_runtime_set_error_def Let_def free
    by (auto simp: dup upd split: option.splits prod.splits)
qed

context sys_allocator
begin

lemma call_run_ok:
  assumes c: "lua_contract owned lib" and ok: "ok mb owned extra rt" and st: "state rt = Some st"
    and r: "call_run lib nargs traceback st rt = ((l, res), rt1)"
  shows "ok mb owned extra (rt1\<lparr>state := Some (st\<lparr>lua_internal := l, lua_stack := stack\<rparr>)\<rparr>) \<and>
    frame rt rt1"
proof -
  let ?rt = "rt\<lparr>instruction_limit_hit := False, allocator := (allocator rt)\<lparr>failed := False\<rparr>\<rparr>"
  let ?own = "error_blocks rt @ extra @ own_blocks rt"
  have h: "held af rf ff mb (allocator ?rt) ?own (owned (lua_internal st))"
    using ok st by (simp add: rt_ok_def lua_blocks_def)
  have act: "act_ok owned (lib_pcall lib (lua_internal st) f args t) (owned (lua_internal st))" for f args t
    using c by (simp add: lua_contract_def)
  note run = run_lua_held [OF h act r [unfolded call_run_def]]
  then have fr: "frame rt rt1"
    using frame_alloc frame_hit by (simp add: frame_def)
  let ?rt1 = "rt1\<lparr>state := Some (st\<lparr>lua_internal := l, lua_stack := stack\<rparr>)\<rparr>"
  have "error_blocks ?rt1 = error_blocks rt \<and> error_text_ok ?rt1 = error_text_ok rt"
    using run frame_fields [OF fr] by (intro error_blocks_keeps [of _ "extra @ own_blocks rt"]) simp_all
  moreover have "own_blocks ?rt1 = own_blocks rt"
    using frame_fields [OF fr] by (simp add: own_blocks_def)
  ultimately show ?thesis
    using run fr ok by (simp add: rt_ok_def lua_blocks_def)
qed

lemma rt_ok_failed_state:
  assumes "ok mb owned extra (rt\<lparr>state := s\<rparr>)"
  shows "ok mb owned extra (rt\<lparr>state := s, allocator := (allocator rt)\<lparr>failed := b\<rparr>\<rparr>)"
  using assms rt_ok_failed [where rt = "rt\<lparr>state := s\<rparr>" and b = b] by simp

lemma call_ok:
  assumes c: "lua_contract owned lib" and ok: "ok mb owned extra rt" and st: "state rt = Some st"
    and r: "cpkt_lua_runtime_call_with_status lib rt nargs nresults fs traceback = (status, rt')"
  shows "ok mb owned extra rt' \<and> rt_same rt rt'"
proof -
  obtain l res rt1 where run: "call_run lib nargs traceback st rt = ((l, res), rt1)"
    by (metis surj_pair)
  note okf = call_run_ok [OF c ok st run]
  have fr: "frame rt rt1" using okf by simp
  show ?thesis
  proof (cases res)
    case (Inl v)
    let ?st = "st\<lparr>lua_internal := l, lua_stack := call_base nargs rt\<rparr>"
    obtain s2 rt2 where e: "cpkt_lua_runtime_set_error rt1 (failure_of fs rt1) (lua_tostring v) = (s2, rt2)"
      by fastforce
    have rt': "rt' = rt2\<lparr>state := Some ?st\<rparr>"
      using r call_raised [OF st run [unfolded Inl] e] by simp
    have e': "cpkt_lua_runtime_set_error (rt1\<lparr>state := Some ?st\<rparr>) (failure_of fs rt1) (lua_tostring v) =
        (s2, rt2\<lparr>state := Some ?st\<rparr>)"
      using e set_error_state by blast
    have "ok mb owned extra (rt1\<lparr>state := Some ?st\<rparr>)" using okf by simp
    note se = set_error_ok [OF this e', folded rt']
    then obtain al e where "rt' = rt1\<lparr>state := Some ?st, allocator := al, last_error := e\<rparr>" by blast
    then have "rt_same rt rt'"
      using frame_fields [OF fr] st by (simp add: rt_same_def)
    with se show ?thesis by simp
  next
    case (Inr vs)
    let ?stack = "call_base nargs rt @
        (if traceback \<and> nresults = LUA_MULTRET then [] else adjust_results nresults vs)"
    let ?rt2 = "rt1\<lparr>state := Some (st\<lparr>lua_internal := l, lua_stack := ?stack\<rparr>),
        allocator := (allocator rt1)\<lparr>failed := False\<rparr>\<rparr>"
    have ok2: "ok mb owned extra ?rt2"
      using okf by (intro rt_ok_failed_state) simp
    have same: "rt_same rt ?rt2"
      using frame_fields [OF fr] st by (simp add: rt_same_def)
    show ?thesis
    proof (cases "instruction_limit_hit rt1")
      case True
      then have "cpkt_lua_runtime_set_error ?rt2 CPKT_LUA_RUNTIME_ERR_LIMIT
          (Some ''Lua instruction limit exceeded'') = (status, rt')"
        using r call_returned [OF st run [unfolded Inr]] by simp
      from set_error_ok [OF ok2 this] same show ?thesis
        by (auto simp: rt_same_def)
    next
      case False
      then have "rt' = cpkt_lua_runtime_clear_error ?rt2"
        using r call_returned [OF st run [unfolded Inr]] by simp
      with clear_error_ok [OF ok2] same show ?thesis
        using rt_same_trans by blast
    qed
  qed
qed

lemma protected_ok:
  assumes c: "lua_contract owned lib" and ok: "ok mb owned extra rt" and st: "state rt \<noteq> None"
    and r: "cpkt_lua_runtime_protected_call lib rt operation nresults fs = (status, rt')"
  shows "ok mb owned extra rt' \<and> rt_same rt rt'"
proof -
  let ?rt = "lua_push [CallProtectedFn, CallContext operation] rt"
  obtain s where s: "state ?rt = Some s"
    using st by (auto simp: lua_push_def)
  have "ok mb owned extra ?rt" using ok by simp
  from call_ok [OF c this s r [unfolded cpkt_lua_runtime_protected_call_def]]
  have "ok mb owned extra rt' \<and> rt_same ?rt rt'" .
  then show ?thesis
    using rt_same_trans [OF rt_same_stack(1)] by blast
qed

end

context sys_allocator
begin

text \<open>
  An operation keeps the invariant: from a usable runtime, with \<open>extra\<close> blocks outstanding, it reaches a
  usable runtime.
\<close>

definition keeps_ok ::
    "nat \<Rightarrow> ('l \<Rightarrow> addr \<rightharpoonup> nat) \<Rightarrow> (('u, 'l) lua_runtime \<Rightarrow> cpkt_lua_runtime_status \<times> ('u, 'l) lua_runtime) \<Rightarrow> bool" where
  "keeps_ok mb owned operation \<longleftrightarrow>
     (\<forall>extra rt. ok mb owned extra rt \<longrightarrow> state rt \<noteq> None \<longrightarrow>
        ok mb owned extra (snd (operation rt)) \<and> rt_same rt (snd (operation rt)))"

lemma keeps_okI:
  assumes "\<And>extra rt s rt'. ok mb owned extra rt \<Longrightarrow> state rt \<noteq> None \<Longrightarrow> operation rt = (s, rt') \<Longrightarrow>
    ok mb owned extra rt' \<and> rt_same rt rt'"
  shows "keeps_ok mb owned operation"
  using assms by (simp add: keeps_ok_def) (metis prod.collapse)

lemma keeps_okD:
  assumes "keeps_ok mb owned operation" "ok mb owned extra rt" "state rt \<noteq> None" "operation rt = (s, rt')"
  shows "ok mb owned extra rt' \<and> rt_same rt rt' \<and> state rt' \<noteq> None"
  using assms by (fastforce simp: keeps_ok_def rt_same_def)

lemma keeps_protected:
  assumes "lua_contract owned lib"
  shows "keeps_ok mb owned (\<lambda>rt. cpkt_lua_runtime_protected_call lib rt op nres fs)"
  using protected_ok [OF assms] by (intro keeps_okI) blast

lemma keeps_skip: "keeps_ok mb owned (\<lambda>rt. (s, rt))"
  by (rule keeps_okI) auto

lemma keeps_if:
  "keeps_ok mb owned f \<Longrightarrow> keeps_ok mb owned g \<Longrightarrow> keeps_ok mb owned (\<lambda>rt. if b rt then f rt else g rt)"
  by (simp add: keeps_ok_def)

lemma keeps_bind:
  assumes f: "keeps_ok mb owned f" and g: "\<And>s. keeps_ok mb owned (g s)"
  shows "keeps_ok mb owned (\<lambda>rt. case f rt of (s, rt) \<Rightarrow> g s rt)"
proof (rule keeps_okI)
  fix extra rt s rt'
  assume ok: "ok mb owned extra rt" "state rt \<noteq> None" and r: "(case f rt of (s, rt) \<Rightarrow> g s rt) = (s, rt')"
  obtain s1 rt1 where f1: "f rt = (s1, rt1)" by fastforce
  note one = keeps_okD [OF f ok f1]
  with r f1 have "g s1 rt1 = (s, rt')" by simp
  with one keeps_okD [OF g, of extra rt1 s1 s rt'] show "ok mb owned extra rt' \<and> rt_same rt rt'"
    using rt_same_trans by blast
qed

lemma keeps_then:
  assumes f: "keeps_ok mb owned f"
    and h: "\<And>extra rt. ok mb owned extra rt \<Longrightarrow> ok mb owned extra (h rt) \<and> rt_same rt (h rt)"
  shows "keeps_ok mb owned (\<lambda>rt. f (h rt))"
proof (rule keeps_okI)
  fix extra rt s rt'
  assume ok: "ok mb owned extra rt" "state rt \<noteq> None" and r: "f (h rt) = (s, rt')"
  from h [OF ok(1)] have "ok mb owned extra (h rt)" "rt_same rt (h rt)" by simp_all
  moreover from this(2) ok(2) have "state (h rt) \<noteq> None" by (simp add: rt_same_def)
  ultimately show "ok mb owned extra rt' \<and> rt_same rt rt'"
    using keeps_okD [OF f _ _ r] rt_same_trans by blast
qed

lemma keeps_state:
  "keeps_ok mb owned f \<Longrightarrow> keeps_ok mb owned (\<lambda>rt. case state rt of None \<Rightarrow> g rt | Some st \<Rightarrow> f rt)"
  by (auto simp: keeps_ok_def)

lemma keeps_clear: "keeps_ok mb owned (\<lambda>rt. (s, cpkt_lua_runtime_clear_error rt))"
  using keeps_then [OF keeps_skip, of mb owned cpkt_lua_runtime_clear_error s] clear_error_ok by blast

lemma keeps_set_error: "keeps_ok mb owned (\<lambda>rt. cpkt_lua_runtime_set_error rt s m)"
proof (rule keeps_okI)
  fix extra rt t rt'
  assume "ok mb owned extra rt" "cpkt_lua_runtime_set_error rt s m = (t, rt')"
  from set_error_ok [OF this] show "ok mb owned extra rt' \<and> rt_same rt rt'"
    by (auto simp: rt_same_def)
qed

lemmas keeps_rules = keeps_protected keeps_skip keeps_if keeps_bind keeps_clear keeps_set_error

lemma keeps_open_one:
  assumes c: "lua_contract owned lib"
  shows "keeps_ok mb owned (\<lambda>rt. cpkt_lua_runtime_open_one_lib lib rt name)"
proof -
  have pop: "keeps_ok mb owned (\<lambda>rt. (CPKT_LUA_RUNTIME_OK, lua_pop 1 rt))"
    by (rule keeps_then [OF keeps_skip, of _ _ "lua_pop 1"]) simp
  show ?thesis
    unfolding cpkt_lua_runtime_open_one_lib_def Let_def by (intro keeps_rules c pop)
qed

lemma keeps_open_step:
  assumes c: "lua_contract owned lib"
  shows "keeps_ok mb owned (\<lambda>rt. open_step lib rt name fu)"
proof -
  note checked = cpkt_lua_runtime_wrap_coroutine_library_checked_def
    cpkt_lua_runtime_disable_debug_sethook_checked_def
  have step: "keeps_ok mb owned (\<lambda>rt. case fu of
        Some WrapCoroutineLibrary \<Rightarrow>
          if s = CPKT_LUA_RUNTIME_OK then cpkt_lua_runtime_wrap_coroutine_library_checked lib rt else (s, rt)
      | Some DisableDebugSethook \<Rightarrow>
          if s = CPKT_LUA_RUNTIME_OK then cpkt_lua_runtime_disable_debug_sethook_checked lib rt else (s, rt)
      | _ \<Rightarrow> (s, rt))" for s
  proof (cases fu)
    case None
    then show ?thesis using keeps_skip [of mb owned s] by simp
  next
    case (Some op)
    then show ?thesis
      using keeps_skip [of mb owned s] keeps_protected [OF c] by (cases op) (simp_all add: checked keeps_if)
  qed
  show ?thesis
    unfolding open_step_def Let_def by (intro keeps_bind keeps_open_one c step)
qed

lemma keeps_stages:
  assumes c: "lua_contract owned lib"
  shows "keeps_ok mb owned (\<lambda>rt. fold (open_stage lib libs) stages (s, rt))"
proof (induction stages arbitrary: s)
  case Nil
  then show ?case using keeps_skip by simp
next
  case (Cons x xs)
  obtain flag name fu where x: "x = (flag, name, fu)" by (metis surj_pair)
  have stage: "keeps_ok mb owned (\<lambda>rt. open_stage lib libs x (s, rt))"
    unfolding open_stage_def Let_def x split by (intro keeps_if keeps_open_step keeps_skip c)
  have "keeps_ok mb owned (\<lambda>rt. case open_stage lib libs x (s, rt) of (s, rt) \<Rightarrow>
      fold (open_stage lib libs) xs (s, rt))"
    by (intro keeps_bind stage Cons.IH)
  then show ?case by simp
qed

lemma keeps_open_libs:
  assumes c: "lua_contract owned lib"
  shows "keeps_ok mb owned (\<lambda>rt. cpkt_lua_runtime_open_libs lib rt libs)"
  unfolding cpkt_lua_runtime_open_libs_def Let_def by (intro keeps_rules keeps_stages c)

lemma keeps_maybe_openlibs:
  assumes c: "lua_contract owned lib"
  shows "keeps_ok mb owned (\<lambda>rt. cpkt_lua_runtime_maybe_openlibs lib rt flags)"
  unfolding cpkt_lua_runtime_maybe_openlibs_def cpkt_lua_runtime_openlibs_def
  by (intro keeps_rules keeps_open_libs c)

lemma keeps_load_and_call:
  assumes c: "lua_contract owned lib"
  shows "keeps_ok mb owned (\<lambda>rt. load_and_call lib rt op)"
proof -
  have clear: "keeps_ok mb owned (\<lambda>rt. (CPKT_LUA_RUNTIME_OK, cpkt_lua_runtime_clear_error (lua_settop0 rt)))"
    by (rule keeps_then [OF keeps_clear, of _ _ lua_settop0]) simp
  have call: "keeps_ok mb owned (\<lambda>rt. cpkt_lua_runtime_call lib rt 0 LUA_MULTRET)"
    unfolding cpkt_lua_runtime_call_def using call_ok [OF c] by (intro keeps_okI) blast
  show ?thesis
    unfolding load_and_call_def Let_def by (intro keeps_rules c clear call)
qed

lemma keeps_run_file:
  assumes c: "lua_contract owned lib"
  shows "keeps_ok mb owned (\<lambda>rt. cpkt_lua_runtime_run_file lib rt path argc argv flags)"
proof (cases path)
  case None
  show ?thesis
    unfolding cpkt_lua_runtime_run_file_def None prod.case option.case by (intro keeps_state keeps_skip)
next
  case (Some p)
  show ?thesis
    unfolding cpkt_lua_runtime_run_file_def Some prod.case option.case Let_def
    by (intro keeps_state keeps_rules keeps_maybe_openlibs keeps_load_and_call c)
qed

lemma keeps_run_buffer:
  assumes c: "lua_contract owned lib"
  shows "keeps_ok mb owned (\<lambda>rt. cpkt_lua_runtime_run_buffer lib rt bytes cname argc argv flags)"
proof (cases bytes)
  case None
  show ?thesis
    unfolding cpkt_lua_runtime_run_buffer_def None prod.case option.case by (intro keeps_state keeps_skip)
next
  case (Some p)
  show ?thesis
    unfolding cpkt_lua_runtime_run_buffer_def Some prod.case option.case Let_def
    by (intro keeps_state keeps_rules keeps_maybe_openlibs keeps_load_and_call c)
qed

lemma keeps_require:
  assumes c: "lua_contract owned lib"
  shows "keeps_ok mb owned (\<lambda>rt. cpkt_lua_runtime_require lib rt name)"
proof -
  have pop: "keeps_ok mb owned (\<lambda>rt. (CPKT_LUA_RUNTIME_OK, cpkt_lua_runtime_clear_error (lua_pop 1 rt)))"
    by (rule keeps_then [OF keeps_clear, of _ _ "lua_pop 1"]) simp
  have "keeps_ok mb owned (\<lambda>rt. case cpkt_lua_runtime_protected_call lib rt (Require n) (NResults 1)
      CPKT_LUA_RUNTIME_ERR_RUNTIME of (s, rt) \<Rightarrow>
        if s \<noteq> CPKT_LUA_RUNTIME_OK then (s, rt)
        else (CPKT_LUA_RUNTIME_OK, cpkt_lua_runtime_clear_error (lua_pop 1 rt)))" for n
    by (intro keeps_rules c pop)
  then have run: "keeps_ok mb owned (\<lambda>rt. let (s, rt) = cpkt_lua_runtime_protected_call lib rt (Require n) (NResults 1)
      CPKT_LUA_RUNTIME_ERR_RUNTIME in
        if s \<noteq> CPKT_LUA_RUNTIME_OK then (s, rt)
        else (CPKT_LUA_RUNTIME_OK, cpkt_lua_runtime_clear_error (lua_pop 1 rt)))" for n
    by simp
  show ?thesis
    unfolding cpkt_lua_runtime_require_def prod.case
    by (cases name; simp only: option.case; intro keeps_state keeps_skip run)
qed

end

section \<open>The public operations as one type\<close>

datatype lua_op =
    SetContext "nat option"
  | SetWarningCallback "nat option" "nat option"
  | OpenLibs int
  | OpenAllLibs
  | SetTraceback int
  | SetInstructionLimit int
  | ClearInstructionLimit
  | SetPackagePath "string option"
  | PrependPackagePath "string option"
  | SetPackageCpath "string option"
  | PrependPackageCpath "string option"
  | SetString "string option" "string option"
  | SetBoolean "string option" int
  | SetNumber "string option" "64 word"
  | SetInteger "string option" int
  | RegisterC "string option" "nat option"
  | RegisterLua "string option" "string option" "string option"
  | RequireModule "string option"
  | RunFile "string option" int "string option list option" int
  | RunBuffer "string option" "string option" int "string option list option" int
  | ClearError

fun lua_exec :: "'l lua_lib \<Rightarrow> lua_op \<Rightarrow> ('u, 'l) lua_runtime \<Rightarrow>
    cpkt_lua_runtime_status \<times> ('u, 'l) lua_runtime" where
  "lua_exec lib (SetContext c) rt = (CPKT_LUA_RUNTIME_OK, cpkt_lua_runtime_set_context rt c)"
| "lua_exec lib (SetWarningCallback f c) rt =
     (CPKT_LUA_RUNTIME_OK, cpkt_lua_runtime_set_warning_callback rt f c)"
| "lua_exec lib (OpenLibs libs) rt = cpkt_lua_runtime_open_libs lib rt libs"
| "lua_exec lib OpenAllLibs rt = cpkt_lua_runtime_openlibs lib rt"
| "lua_exec lib (SetTraceback e) rt = cpkt_lua_runtime_set_traceback rt e"
| "lua_exec lib (SetInstructionLimit n) rt = cpkt_lua_runtime_set_instruction_limit rt n"
| "lua_exec lib ClearInstructionLimit rt = cpkt_lua_runtime_clear_instruction_limit rt"
| "lua_exec lib (SetPackagePath p) rt = cpkt_lua_runtime_set_package_path lib rt p"
| "lua_exec lib (PrependPackagePath p) rt = cpkt_lua_runtime_prepend_package_path lib rt p"
| "lua_exec lib (SetPackageCpath p) rt = cpkt_lua_runtime_set_package_cpath lib rt p"
| "lua_exec lib (PrependPackageCpath p) rt = cpkt_lua_runtime_prepend_package_cpath lib rt p"
| "lua_exec lib (SetString n v) rt = cpkt_lua_runtime_set_global_string lib rt n v"
| "lua_exec lib (SetBoolean n v) rt = cpkt_lua_runtime_set_global_boolean lib rt n v"
| "lua_exec lib (SetNumber n v) rt = cpkt_lua_runtime_set_global_number lib rt n v"
| "lua_exec lib (SetInteger n v) rt = cpkt_lua_runtime_set_global_integer lib rt n v"
| "lua_exec lib (RegisterC n f) rt = cpkt_lua_runtime_register_c_module lib rt n f"
| "lua_exec lib (RegisterLua n src c) rt = cpkt_lua_runtime_register_lua_module lib rt n src c"
| "lua_exec lib (RequireModule n) rt = cpkt_lua_runtime_require lib rt n"
| "lua_exec lib (RunFile p argc argv flags) rt = cpkt_lua_runtime_run_file lib rt p argc argv flags"
| "lua_exec lib (RunBuffer b c argc argv flags) rt = cpkt_lua_runtime_run_buffer lib rt b c argc argv flags"
| "lua_exec lib ClearError rt = (CPKT_LUA_RUNTIME_OK, cpkt_lua_runtime_clear_error rt)"

definition lua_session :: "'l lua_lib \<Rightarrow> lua_op list \<Rightarrow> ('u, 'l) lua_runtime \<Rightarrow> ('u, 'l) lua_runtime" where
  "lua_session lib ops rt = fold (\<lambda>op rt. snd (lua_exec lib op rt)) ops rt"

context sys_allocator
begin

definition usable :: "nat \<Rightarrow> ('l \<Rightarrow> addr \<rightharpoonup> nat) \<Rightarrow> ('u, 'l) lua_runtime \<Rightarrow> ('u, 'l) lua_runtime \<Rightarrow> bool" where
  "usable mb owned rt rt' \<longleftrightarrow> ok mb owned [] rt' \<and> state rt' \<noteq> None \<and> runtime_self rt' = runtime_self rt"

lemma keeps_usable:
  assumes "keeps_ok mb owned f" "ok mb owned [] rt" "state rt \<noteq> None"
  shows "usable mb owned rt (snd (f rt))"
  using keeps_okD [OF assms prod.collapse [symmetric]] by (auto simp: usable_def rt_same_def)

lemma build_chunk_ok:
  assumes ok: "ok mb owned ((c, sizeof_chunk) # extra) rt" and r: "build_chunk rt c name cname len = (ck, rt')"
  shows "ok mb owned (chunk_blocks ck @ extra) rt' \<and> (\<exists>al. rt' = rt\<lparr>allocator := al\<rparr>) \<and> chunk_self ck = c \<and>
    source_alloc_size ck = (if len \<noteq> 0 then len else 1)"
proof -
  let ?cn = "case cname of None \<Rightarrow> name | Some s \<Rightarrow> s"
  let ?n = "if len \<noteq> 0 then len else 1"
  obtain m rt1 where d1: "cpkt_lua_runtime_strdup rt (Some name) = (m, rt1)" by fastforce
  obtain k rt2 where d2: "cpkt_lua_runtime_strdup rt1 (Some ?cn) = (k, rt2)" by fastforce
  obtain s rt3 where d3: "rt_alloc rt2 ?n = (s, rt3)" by fastforce
  let ?b = "\<lambda>x. opt_block (map_option fst x) (case x of None \<Rightarrow> 0 | Some p \<Rightarrow> snd p)"
  note s1 = strdup_ok [OF ok d1]
  have ok1: "ok mb owned (?b m @ (c, sizeof_chunk) # extra) rt1"
    using s1 by (cases m) (auto simp: opt_block_def)
  note s2 = strdup_ok [OF ok1 d2]
  have ok2: "ok mb owned (?b k @ ?b m @ (c, sizeof_chunk) # extra) rt2"
    using s2 by (cases k) (auto simp: opt_block_def)
  note s3 = rt_alloc_ok [OF ok2 d3]
  have n: "max 1 ?n = ?n" by simp
  have ck: "ck = \<lparr>chunk_self = c, chunk_module = map_option fst m,
      chunk_module_size = (case m of None \<Rightarrow> 0 | Some p \<Rightarrow> snd p), chunk_name = map_option fst k,
      chunk_name_size = (case k of None \<Rightarrow> 0 | Some p \<Rightarrow> snd p), source = s, source_size = 0,
      source_alloc_size = ?n\<rparr>" and rt': "rt' = rt3"
    using r d1 d2 d3 by (simp_all add: build_chunk_def Let_def)
  have "ok mb owned (opt_block s ?n @ ?b k @ ?b m @ (c, sizeof_chunk) # extra) rt'"
    using s3 unfolding n rt' by blast
  then have "ok mb owned (chunk_blocks ck @ extra) rt'"
    by (rule rt_ok_mset) (simp add: ck chunk_blocks_def)
  moreover have "\<exists>al. rt' = rt\<lparr>allocator := al\<rparr>"
    using s1 s2 s3 rt' by auto
  ultimately show ?thesis by (simp add: ck)
qed

lemma register_store_ok:
  assumes ok: "ok mb owned (chunk_blocks ck) rt" and s: "source ck = Some s"
    and len: "length src \<le> source_alloc_size ck"
  shows "ok mb owned (chunk_blocks ck) (rt\<lparr>allocator := store (allocator rt) s src\<rparr>)"
proof -
  let ?rest = "opt_block (chunk_module ck) (chunk_module_size ck) @
     opt_block (chunk_name ck) (chunk_name_size ck) @ [(chunk_self ck, sizeof_chunk)]"
  let ?own = "error_blocks rt @ ?rest @ own_blocks rt"
  let ?al = "store (allocator rt) s src"
  have "held af rf ff mb (allocator rt) (error_blocks rt @ chunk_blocks ck @ own_blocks rt) (lua_blocks owned rt)"
    using ok by (simp add: rt_ok_def)
  then have h: "held af rf ff mb (allocator rt) ((s, source_alloc_size ck) # ?own) (lua_blocks owned rt)"
    by (rule held_mset) (simp add: chunk_blocks_def opt_block_def s)
  note st = held_store [OF h len]
  have "held af rf ff mb ?al (error_blocks rt @ chunk_blocks ck @ own_blocks rt) (lua_blocks owned rt)"
    using st [THEN conjunct1] by (rule held_mset) (simp add: chunk_blocks_def opt_block_def s)
  from ok_keeps [OF ok this] st show ?thesis by blast
qed

lemma register_ok:
  assumes c: "lua_contract owned lib" and ok: "ok mb owned [] rt" and st: "state rt \<noteq> None"
  shows "usable mb owned rt (snd (cpkt_lua_runtime_register_lua_module lib rt name bytes cname))"
proof (cases "name = None \<or> bytes = None")
  case True
  then have "snd (cpkt_lua_runtime_register_lua_module lib rt name bytes cname) = rt"
    using st by (auto simp: cpkt_lua_runtime_register_lua_module_def split: option.splits)
  then show ?thesis using ok st by (simp add: usable_def)
next
  case False
  then obtain n src where args: "name = Some n" "bytes = Some src" by auto
  obtain st0 where st0: "state rt = Some st0" using st by auto
  obtain ch rt1 where a: "rt_alloc rt sizeof_chunk = (ch, rt1)" by fastforce
  have sz: "max 1 sizeof_chunk = sizeof_chunk" by (simp add: sizeof_chunk_def)
  note a1 = rt_alloc_ok [OF ok a, unfolded sz]
  then have st1: "state rt1 = Some st0" "runtime_self rt1 = runtime_self rt" using st0 by auto
  note unfold = cpkt_lua_runtime_register_lua_module_def st0 args a
  note err = keeps_usable [OF keeps_set_error]
  show ?thesis
  proof (cases ch)
    case None
    then have "ok mb owned [] rt1" using a1 by (simp add: opt_block_def)
    from err [OF this] show ?thesis
      using None st1 by (simp add: unfold usable_def)
  next
    case (Some p)
    then have ok1: "ok mb owned ((p, sizeof_chunk) # []) rt1" using a1 by (simp add: opt_block_def)
    obtain ck rt2 where b: "build_chunk rt1 p n cname (length src) = (ck, rt2)" by fastforce
    note b1 = build_chunk_ok [OF ok1 b]
    have st2: "state rt2 = Some st0" "runtime_self rt2 = runtime_self rt" using b1 st1 by auto
    show ?thesis
    proof (cases "chunk_module ck = None \<or> chunk_name ck = None \<or> source ck = None")
      case True
      let ?rt3 = "cpkt_lua_runtime_free_chunk rt2 ck"
      have ok3: "ok mb owned [] ?rt3"
        using b1 by (intro free_chunk_ok) simp
      have st3: "state ?rt3 = Some st0" "runtime_self ?rt3 = runtime_self rt"
        using st2 by (simp_all add: cpkt_lua_runtime_free_chunk_def rt_free_def Let_def)
      have "snd (cpkt_lua_runtime_register_lua_module lib rt name bytes cname) =
          snd (cpkt_lua_runtime_set_error ?rt3 CPKT_LUA_RUNTIME_ERR_ALLOC (Some ''out of memory''))"
        using True Some b by (auto simp: unfold split: option.split)
      with err [OF ok3] st3 show ?thesis by (simp add: usable_def)
    next
      case False
      then obtain m k s where parts: "chunk_module ck = Some m" "chunk_name ck = Some k" "source ck = Some s"
        by auto
      let ?rt3 = "if length src \<noteq> 0 then rt2\<lparr>allocator := store (allocator rt2) s src\<rparr> else rt2"
      let ?ck = "ck\<lparr>source_size := length src\<rparr>"
      have same: "chunk_blocks ?ck = chunk_blocks ck" by (simp add: chunk_blocks_def)
      have ok2: "ok mb owned (chunk_blocks ck) rt2" using b1 by simp
      have len: "length src \<le> source_alloc_size ck" using b1 by simp
      have ok3: "ok mb owned (chunk_blocks ?ck) ?rt3"
        using register_store_ok [OF ok2 parts(3) len] ok2 unfolding same by simp
      have st3: "state ?rt3 = Some st0" "runtime_self ?rt3 = runtime_self rt" using st2 by simp_all
      obtain status rt4 where call: "cpkt_lua_runtime_protected_call lib ?rt3 (RegisterLuaModule ?ck) (NResults 0)
          CPKT_LUA_RUNTIME_ERR_RUNTIME = (status, rt4)" by fastforce
      note p = protected_ok [OF c ok3 _ call]
      have ok4: "ok mb owned (chunk_blocks ?ck) rt4" and st4: "state rt4 \<noteq> None" "runtime_self rt4 = runtime_self rt"
        using p st3 by (simp_all add: rt_same_def)
      have res: "snd (cpkt_lua_runtime_register_lua_module lib rt name bytes cname) =
          (if status \<noteq> CPKT_LUA_RUNTIME_OK then cpkt_lua_runtime_free_chunk rt4 ?ck
           else cpkt_lua_runtime_clear_error (rt4\<lparr>chunks := ?ck # chunks rt4\<rparr>))"
        using Some b parts call by (simp add: unfold)
      show ?thesis
      proof (cases "status = CPKT_LUA_RUNTIME_OK")
        case True
        let ?rt5 = "rt4\<lparr>chunks := ?ck # chunks rt4\<rparr>"
        have "error_blocks ?rt5 = error_blocks rt4" "lua_blocks owned ?rt5 = lua_blocks owned rt4"
          "own_blocks ?rt5 = chunk_blocks ?ck @ own_blocks rt4" "error_text_ok ?rt5 = error_text_ok rt4"
          by (simp_all add: error_blocks_def lua_blocks_def own_blocks_def error_text_ok_def cong: option.case_cong)
        then have "ok mb owned [] ?rt5"
          using ok4 by (simp add: rt_ok_def)
        from clear_error_ok [OF this] show ?thesis
          unfolding res using True st4 by (simp add: usable_def rt_same_def)
      next
        case False
        have "ok mb owned [] (cpkt_lua_runtime_free_chunk rt4 ?ck)"
          using ok4 by (intro free_chunk_ok) simp
        then show ?thesis
          unfolding res using False st4
          by (simp add: usable_def cpkt_lua_runtime_free_chunk_def rt_free_def Let_def)
      qed
    qed
  qed
qed

end

abbreviation "free_chunks cks rt \<equiv> fold (\<lambda>chunk rt. cpkt_lua_runtime_free_chunk rt chunk) cks rt"

lemma free_chunks_fields:
  "runtime_self (free_chunks cks rt) = runtime_self rt \<and> state (free_chunks cks rt) = state rt"
  by (induction cks arbitrary: rt) (auto simp: cpkt_lua_runtime_free_chunk_def rt_free_def Let_def)

lemma free_chunks_state: "free_chunks cks (rt\<lparr>state := v\<rparr>) = (free_chunks cks rt)\<lparr>state := v\<rparr>"
proof (induction cks arbitrary: rt)
  case (Cons ck cks)
  have "cpkt_lua_runtime_free_chunk (rt\<lparr>state := v\<rparr>) ck = (cpkt_lua_runtime_free_chunk rt ck)\<lparr>state := v\<rparr>"
    by (cases rt) (simp add: cpkt_lua_runtime_free_chunk_def rt_free_def Let_def)
  then show ?case using Cons.IH by simp
qed simp

context sys_allocator
begin

lemma exec_usable:
  assumes c: "lua_contract owned lib" and ok: "ok mb owned [] rt" and st: "state rt \<noteq> None"
  shows "usable mb owned rt (snd (lua_exec lib op rt))"
proof -
  note use = keeps_usable [OF _ ok st]
  have clear: "usable mb owned rt (cpkt_lua_runtime_clear_error rt2)"
    if "ok mb owned [] rt2" "state rt2 \<noteq> None" "runtime_self rt2 = runtime_self rt" for rt2
    using clear_error_ok [OF that(1)] that(2,3) by (simp add: usable_def rt_same_def)
  have self: "usable mb owned rt rt" using ok st by (simp add: usable_def)
  have p: "usable mb owned rt (snd (cpkt_lua_runtime_protected_call lib rt x n f))" for x n f
    using keeps_usable [OF keeps_protected [OF c] ok st] .
  obtain s where s: "state rt = Some s" using st by auto
  have hook: "runtime_self (cpkt_lua_runtime_apply_instruction_hook x) = runtime_self x"
    "state x \<noteq> None \<Longrightarrow> \<exists>y. state (cpkt_lua_runtime_apply_instruction_hook x) = Some y"
    for x :: "('u, 'a) lua_runtime"
    by (auto simp: cpkt_lua_runtime_apply_instruction_hook_def)
  show ?thesis
  proof (cases op)
    case (OpenLibs libs)
    then show ?thesis using use [OF keeps_open_libs [OF c]] by simp
  next
    case OpenAllLibs
    then show ?thesis using use [OF keeps_open_libs [OF c]] s by (simp add: cpkt_lua_runtime_openlibs_def)
  next
    case (RegisterLua n b k)
    then show ?thesis using register_ok [OF c ok st] by simp
  next
    case (RequireModule n)
    then show ?thesis using use [OF keeps_require [OF c]] by simp
  next
    case (RunFile x1 x2 x3 x4)
    then show ?thesis using use [OF keeps_run_file [OF c]] by simp
  next
    case (RunBuffer x1 x2 x3 x4 x5)
    then show ?thesis using use [OF keeps_run_buffer [OF c]] by simp
  next
    case (SetContext x)
    then show ?thesis using ok st by (simp add: usable_def cpkt_lua_runtime_set_context_def)
  next
    case (SetWarningCallback x y)
    then show ?thesis using ok st by (simp add: usable_def cpkt_lua_runtime_set_warning_callback_def)
  next
    case (SetTraceback x)
    then show ?thesis using ok st by (auto simp: cpkt_lua_runtime_set_traceback_def intro!: clear)
  next
    case (SetInstructionLimit x)
    then show ?thesis
      using ok st self hook(1) by (auto simp: cpkt_lua_runtime_set_instruction_limit_def intro!: clear hook(2))
  next
    case ClearInstructionLimit
    then show ?thesis
      using ok st self hook(1) by (auto simp: cpkt_lua_runtime_clear_instruction_limit_def intro!: clear hook(2))
  next
    case ClearError
    then show ?thesis using ok st by (auto intro!: clear)
  qed (insert p self s, auto simp: cpkt_lua_runtime_set_package_path_def cpkt_lua_runtime_prepend_package_path_def
      cpkt_lua_runtime_set_package_cpath_def cpkt_lua_runtime_prepend_package_cpath_def
      cpkt_lua_runtime_update_package_field_def cpkt_lua_runtime_set_global_string_def
      cpkt_lua_runtime_set_global_boolean_def cpkt_lua_runtime_set_global_number_def
      cpkt_lua_runtime_set_global_integer_def cpkt_lua_runtime_register_c_module_def split: option.splits)
qed

lemma session_usable:
  assumes "lua_contract owned lib" "ok mb owned [] rt" "state rt \<noteq> None"
  shows "usable mb owned rt (lua_session lib ops rt)"
  using assms(2,3)
proof (induction ops arbitrary: rt)
  case Nil
  then show ?case by (simp add: lua_session_def usable_def)
next
  case (Cons op ops)
  from exec_usable [OF assms(1) Cons.prems] have "usable mb owned rt (snd (lua_exec lib op rt))" .
  with Cons.IH [of "snd (lua_exec lib op rt)"] show ?case
    by (simp add: lua_session_def usable_def)
qed

lemma close_ok:
  assumes c: "lua_contract owned lib" and ok: "ok mb owned extra rt" and st: "state rt = Some s"
    and r: "run_lua (lib_close lib (lua_internal s)) rt = ((l, res), rt1)"
  shows "ok mb owned extra (rt1\<lparr>state := None\<rparr>) \<and> frame rt rt1"
proof -
  let ?own = "error_blocks rt @ extra @ own_blocks rt"
  have h: "held af rf ff mb (allocator rt) ?own (owned (lua_internal s))"
    using ok st by (simp add: rt_ok_def lua_blocks_def)
  have act: "act_ok owned (lib_close lib (lua_internal s)) (owned (lua_internal s))"
    and fin: "act_ends (lib_close lib (lua_internal s)) (\<lambda>l' r. owned l' = Map.empty)"
    using c by (simp_all add: lua_contract_def)
  note run = run_lua_held [OF h act r]
  have empty: "owned l = Map.empty" using run_lua_ends [OF fin r] .
  have fr: "frame rt rt1" using run by simp
  let ?rt1 = "rt1\<lparr>state := None\<rparr>"
  have "error_blocks ?rt1 = error_blocks rt \<and> error_text_ok ?rt1 = error_text_ok rt"
    using run frame_fields [OF fr] by (intro error_blocks_keeps [of _ "extra @ own_blocks rt"]) simp_all
  moreover have "own_blocks ?rt1 = own_blocks rt"
    using frame_fields [OF fr] by (simp add: own_blocks_def)
  ultimately show ?thesis
    using run fr ok empty by (simp add: rt_ok_def lua_blocks_def)
qed

lemma clear_chunks_ok:
  assumes "ok mb owned extra rt"
  shows "ok mb owned extra (cpkt_lua_runtime_clear_chunks rt)"
proof -
  have "ok mb owned extra ((fold (\<lambda>chunk rt. cpkt_lua_runtime_free_chunk rt chunk) cks rt)\<lparr>chunks := []\<rparr>)"
    if "ok mb owned (concat (map chunk_blocks cks) @ extra) (rt\<lparr>chunks := []\<rparr>)" for cks rt
    using that
  proof (induction cks arbitrary: rt)
    case (Cons ck cks)
    have swap: "(cpkt_lua_runtime_free_chunk rt ck)\<lparr>chunks := []\<rparr> = cpkt_lua_runtime_free_chunk (rt\<lparr>chunks := []\<rparr>) ck"
      by (cases rt) (simp add: cpkt_lua_runtime_free_chunk_def rt_free_def Let_def)
    have "ok mb owned (concat (map chunk_blocks cks) @ extra) ((cpkt_lua_runtime_free_chunk rt ck)\<lparr>chunks := []\<rparr>)"
      unfolding swap using Cons.prems by (intro free_chunk_ok) simp
    from Cons.IH [OF this] show ?case by simp
  qed simp
  moreover have "ok mb owned (concat (map chunk_blocks (chunks rt)) @ extra) (rt\<lparr>chunks := []\<rparr>)"
  proof -
    let ?rt = "rt\<lparr>chunks := []\<rparr>"
    have f: "error_blocks ?rt = error_blocks rt" "lua_blocks owned ?rt = lua_blocks owned rt"
      "error_text_ok ?rt = error_text_ok rt"
      by (simp_all add: error_blocks_def lua_blocks_def error_text_ok_def cong: option.case_cong)
    have "held af rf ff mb (allocator rt) (error_blocks rt @ (concat (map chunk_blocks (chunks rt)) @ extra) @ own_blocks ?rt)
        (lua_blocks owned rt)"
      using assms by (auto simp: rt_ok_def own_blocks_def intro: held_mset)
    then show ?thesis
      using assms f by (simp add: rt_ok_def)
  qed
  ultimately show ?thesis by (simp add: cpkt_lua_runtime_clear_chunks_def)
qed

lemma release_last:
  assumes "held af rf ff mb al [(a, n)] Map.empty"
  shows "live (world (cpkt_lua_runtime_allocator_free al (Some a) n)) = Map.empty"
proof -
  have "holds (world (cpkt_lua_runtime_allocator_free al (Some a) n)) [] Map.empty"
    using held_free [of mb al a n "[]" Map.empty] assms by (simp add: held_def)
  then show ?thesis
    by (auto simp: holds_def sizes_def fun_eq_iff)
qed

text \<open>The last step through a stale copy of the allocator frees the same block.\<close>

lemma free_world:
  assumes "free_fn al = ff" "free_fn al' = ff" "world al = world al'"
  shows "world (cpkt_lua_runtime_allocator_free al (Some a) n) =
    world (cpkt_lua_runtime_allocator_free al' (Some a) n)"
  using assms by (simp add: cpkt_lua_runtime_allocator_free_def)

lemma ok_uses: "ok mb owned extra rt \<Longrightarrow> free_fn (allocator rt) = ff"
  by (simp add: rt_ok_def held_def uses_def)

lemma free_leaves_nothing:
  assumes c: "lua_contract owned lib" and ok: "ok mb owned [] rt" and st: "state rt \<noteq> None"
  shows "live (cpkt_lua_runtime_free lib rt) = Map.empty"
proof -
  obtain s where s: "state rt = Some s" using st by auto
  obtain l res rt1 where run: "run_lua (lib_close lib (lua_internal s)) rt = ((l, res), rt1)"
    by (metis surj_pair)
  note cl = close_ok [OF c ok s run]
  have fr: "frame rt rt1" using cl by simp
  let ?rt2 = "cpkt_lua_runtime_clear_chunks (rt1\<lparr>state := None\<rparr>)"
  let ?rt3 = "free_last_error ?rt2"
  have ok2: "ok mb owned [] ?rt2" using cl clear_chunks_ok by blast
  have ok3: "ok mb owned [] (?rt3\<lparr>last_error := None\<rparr>)" using forget_error_ok [OF ok2] by simp
  have f2: "runtime_self ?rt2 = runtime_self rt" "chunks ?rt2 = []" "state ?rt2 = None"
    using frame_fields [OF fr] by (simp_all add: cpkt_lua_runtime_clear_chunks_def free_chunks_fields)
  have "own_blocks ?rt3 = [(runtime_self rt, sizeof_runtime)]"
    using f2 by (simp add: own_blocks_def free_last_error_def rt_free_def)
  then have h: "held af rf ff mb (allocator ?rt3) [(runtime_self rt, sizeof_runtime)] Map.empty"
    using ok3 f2 by (simp add: rt_ok_def error_blocks_def own_blocks_def lua_blocks_def free_last_error_def rt_free_def)
  have alloc_state: "allocator (free_last_error (cpkt_lua_runtime_clear_chunks rt1)) = allocator ?rt3"
    by (simp add: cpkt_lua_runtime_clear_chunks_def free_chunks_state free_last_error_def rt_free_def
        cong: option.case_cong)
  have "cpkt_lua_runtime_free lib rt = world (cpkt_lua_runtime_allocator_free
      ((allocator rt)\<lparr>world := world (allocator ?rt3)\<rparr>) (Some (runtime_self rt)) sizeof_runtime)"
    using s run alloc_state by (simp add: cpkt_lua_runtime_free_def Let_def)
  also have "\<dots> = world (cpkt_lua_runtime_allocator_free (allocator ?rt3) (Some (runtime_self rt)) sizeof_runtime)"
    using ok_uses [OF ok] h by (intro free_world) (simp_all add: held_def uses_def)
  finally show ?thesis using release_last [OF h] by simp
qed

end

text \<open>The memory limit a configuration asks for; zero is none.\<close>

definition configured_limit :: "'u allocator_config option \<Rightarrow> nat" where
  "configured_limit config = (case config of None \<Rightarrow> 0 | Some c \<Rightarrow> cfg_max_bytes c)"

context sys_allocator
begin

lemma holds_nothing: "blocks w = [] \<Longrightarrow> holds w [] Map.empty"
  by (simp add: holds_def sizes_def live_def fun_eq_iff)

lemma create_struct:
  assumes u: "uses af rf ff (cpkt_lua_runtime_allocator_init w config 0)" and w: "blocks w = []"
    and a: "cpkt_lua_runtime_allocator_alloc (cpkt_lua_runtime_allocator_init w config 0) sizeof_runtime = (p, al)"
  shows "case p of None \<Rightarrow> live (world al) = Map.empty
    | Some q \<Rightarrow> held af rf ff (configured_limit config) al [(q, sizeof_runtime)] Map.empty"
proof -
  let ?init = "cpkt_lua_runtime_allocator_init w config 0"
  have h: "held af rf ff (configured_limit config) ?init [] Map.empty"
    using u init_inv [OF w] holds_nothing [OF w] by (simp add: held_def configured_limit_def)
  have sz: "max 1 sizeof_runtime = sizeof_runtime" by (simp add: sizeof_runtime_def)
  show ?thesis
    using held_alloc [OF h a] unfolding sz
    by (cases p) (auto simp: held_def holds_def sizes_def fun_eq_iff)
qed

lemma new_result:
  assumes c: "lua_contract owned lib" and u: "uses af rf ff (cpkt_lua_runtime_allocator_init w config 0)"
    and w: "blocks w = []" and r: "cpkt_lua_runtime_new_with_allocator lib w config = (status, handle, w')"
  shows "case handle of
      None \<Rightarrow> status \<noteq> CPKT_LUA_RUNTIME_OK \<and> live w' = Map.empty
    | Some rt \<Rightarrow> status = CPKT_LUA_RUNTIME_OK \<and> ok (configured_limit config) owned [] rt \<and> state rt \<noteq> None \<and> w' = world (allocator rt)"
proof (cases "case config of None \<Rightarrow> False
    | Some c \<Rightarrow> (cfg_alloc_fn c = None \<and> cfg_free_fn c \<noteq> None) \<or>
                (cfg_alloc_fn c \<noteq> None \<and> cfg_free_fn c = None) \<or>
                (cfg_alloc_fn c = None \<and> cfg_realloc_fn c \<noteq> None)")
  case True
  then show ?thesis
    using r w by (simp add: cpkt_lua_runtime_new_with_allocator_def live_def)
next
  case good: False
  obtain p al where a: "cpkt_lua_runtime_allocator_alloc (cpkt_lua_runtime_allocator_init w config 0) sizeof_runtime = (p, al)"
    by fastforce
  note made = create_struct [OF u w a]
  note unfold = r [unfolded cpkt_lua_runtime_new_with_allocator_def Let_def if_not_P [OF good] a prod.case]
  show ?thesis
  proof (cases p)
    case None
    then show ?thesis using unfold made by simp
  next
    case (Some q)
    let ?rt = "\<lparr>runtime_self = q, state = None, allocator = al, last_error = None,
        runtime_context = None, warning_callback = None, warning_context = None,
        chunks = [], traceback_enabled = False, instruction_limit = 0, instruction_limit_hit = False\<rparr>"
    have h: "held af rf ff (configured_limit config) (allocator ?rt) [(q, sizeof_runtime)] Map.empty" using made Some by simp
    obtain l res rt1 where run: "run_lua (lib_newstate lib) ?rt = ((l, res), rt1)"
      by (metis surj_pair)
    have act: "act_ok owned (lib_newstate lib) Map.empty"
      and fin: "act_ends (lib_newstate lib) (\<lambda>l r. isl r \<longrightarrow> owned l = Map.empty)"
      using c by (simp_all add: lua_contract_def)
    note ran = run_lua_held [OF h act run]
    have f1: "runtime_self rt1 = q" "last_error rt1 = None" "chunks rt1 = []"
      using ran frame_fields [of ?rt rt1] by auto
    show ?thesis
    proof (cases res)
      case (Inl e)
      then have "owned l = Map.empty" using run_lua_ends [OF fin run] by simp
      with ran have "held af rf ff (configured_limit config) (allocator rt1) [(q, sizeof_runtime)] Map.empty" by simp
      then have "live (world (cpkt_lua_runtime_allocator_free (allocator rt1) (Some q) sizeof_runtime)) = Map.empty"
        by (rule release_last)
      then show ?thesis using unfold Some run Inl by auto
    next
      case (Inr vs)
      let ?rt2 = "rt1\<lparr>state := Some \<lparr>lua_stack = [], lua_hook = 0, lua_internal = l\<rparr>\<rparr>"
      have ok2: "ok (configured_limit config) owned [] ?rt2"
        using ran f1 by (simp add: rt_ok_def error_blocks_def own_blocks_def lua_blocks_def error_text_ok_def)
      obtain s rt3 where call: "cpkt_lua_runtime_protected_call lib ?rt2 StoreState (NResults 0)
          CPKT_LUA_RUNTIME_ERR_RUNTIME = (s, rt3)" by fastforce
      note p3 = protected_ok [OF c ok2 _ call]
      then have f3: "state rt3 \<noteq> None" "runtime_self rt3 = q" "chunks rt3 = []" "ok (configured_limit config) owned [] rt3"
        using f1 by (simp_all add: rt_same_def)
      show ?thesis
      proof (cases "s = CPKT_LUA_RUNTIME_OK")
        case True
        then show ?thesis using unfold Some run Inr call f3 by auto
      next
        case False
        obtain st where st: "state rt3 = Some st" using f3 by auto
        obtain l4 r4 rt4 where close: "run_lua (lib_close lib (lua_internal st)) rt3 = ((l4, r4), rt4)"
          by (metis surj_pair)
        let ?rt5 = "free_last_error (rt4\<lparr>state := None\<rparr>)"
        note cl = close_ok [OF c f3(4) st close]
        have f4: "runtime_self rt4 = q" "chunks rt4 = []"
          using cl frame_fields [of rt3 rt4] f3 by auto
        have "ok (configured_limit config) owned [] (?rt5\<lparr>last_error := None\<rparr>)"
          using forget_error_ok [OF cl [THEN conjunct1]] by simp
        then have "held af rf ff (configured_limit config) (allocator ?rt5) [(q, sizeof_runtime)] Map.empty"
          using f4 by (simp add: rt_ok_def error_blocks_def own_blocks_def lua_blocks_def free_last_error_def rt_free_def)
        note last = release_last [OF this]
        have "status = s" "handle = None"
          "w' = world (cpkt_lua_runtime_allocator_free (allocator ?rt5) (Some q) sizeof_runtime)"
          using unfold Some run Inr call False st close by auto
        then show ?thesis using last False by simp
      qed
    qed
  qed
qed

end

section \<open>Properties\<close>

text \<open>
  C2: Life of a Lua runtime: whatever allocator functions that keep their contract, whatever memory limit,
  whatever Lua does within its contract and whatever sequence of public calls is made, a runtime created on
  an empty heap counts exactly the live bytes and keeps them within the configured limit, and freeing it
  leaves no block behind. A creation that fails leaves no block either.
\<close>

theorem runtime_lifecycle:
  assumes "sys_allocator af rf ff" and "lua_contract owned lib"
    and "uses af rf ff (cpkt_lua_runtime_allocator_init w config 0)" and "blocks w = []"
    and "cpkt_lua_runtime_new_with_allocator lib w config = (status, handle, w')"
  shows "case handle of
      None \<Rightarrow> status \<noteq> CPKT_LUA_RUNTIME_OK \<and> live w' = Map.empty
    | Some rt \<Rightarrow> status = CPKT_LUA_RUNTIME_OK \<and>
        used (allocator (lua_session lib ops rt)) = heap_total (world (allocator (lua_session lib ops rt))) \<and>
        (configured_limit config = 0 \<or>
         heap_total (world (allocator (lua_session lib ops rt))) \<le> configured_limit config) \<and>
        live (cpkt_lua_runtime_free lib (lua_session lib ops rt)) = Map.empty"
proof -
  note new = sys_allocator.new_result [OF assms]
  show ?thesis
  proof (cases handle)
    case None
    then show ?thesis using new by simp
  next
    case (Some rt)
    let ?rt = "lua_session lib ops rt"
    from new Some have ok: "rt_ok af rf ff (configured_limit config) owned [] rt" "state rt \<noteq> None"
      by simp_all
    from sys_allocator.session_usable [OF assms(1,2) ok, of ops]
    have use: "rt_ok af rf ff (configured_limit config) owned [] ?rt" "state ?rt \<noteq> None"
      unfolding sys_allocator.usable_def [OF assms(1)] by simp_all
    then have inv: "allocator_inv (allocator ?rt)" "max_bytes (allocator ?rt) = configured_limit config"
      by (simp_all add: rt_ok_def held_def)
    then have "used (allocator ?rt) = heap_total (world (allocator ?rt))"
      "configured_limit config = 0 \<or> heap_total (world (allocator ?rt)) \<le> configured_limit config"
      by (auto simp: allocator_inv_def within_limit_def)
    then show ?thesis
      using new Some sys_allocator.free_leaves_nothing [OF assms(1,2) use] by simp
  qed
qed

subsection \<open>A small Lua for the witnesses\<close>

text \<open>
  One block per state; requiring the module \<open>busy\<close> runs into the count hook and goes on as if the script
  had caught its error, requiring \<open>bad\<close> raises an error, everything else succeeds with one result.
\<close>

type_synonym mini_lua = "(addr \<times> nat) option"

definition mini_owned :: "mini_lua \<Rightarrow> addr \<rightharpoonup> nat" where
  "mini_owned l = (case l of None \<Rightarrow> Map.empty | Some (a, n) \<Rightarrow> [a \<mapsto> n])"

definition mini_lib :: "mini_lua lua_lib" where
  "mini_lib =
     \<lparr>lib_newstate =
        LuaAlloc None 0 16 (\<lambda>q. case q of None \<Rightarrow> LuaRaise None LuaNil | Some a \<Rightarrow> LuaDone (Some (a, 16)) []),
      lib_pcall = (\<lambda>l f args h.
        if args = [CallContext (Require ''busy'')] then LuaCount (\<lambda>_. LuaDone l [LuaOther 7])
        else if args = [CallContext (Require ''bad'')] then LuaRaise l (LuaString ''boom'')
        else LuaDone l [LuaOther 1]),
      lib_close = (\<lambda>l. case l of None \<Rightarrow> LuaDone None []
        | Some (a, n) \<Rightarrow> LuaAlloc (Some a) n 0 (\<lambda>_. LuaDone None []))\<rparr>"

lemma mini_contract: "lua_contract mini_owned mini_lib"
  by (simp add: lua_contract_def mini_lib_def mini_owned_def split: option.split)

definition mini_new :: "cpkt_lua_runtime_status \<times> (unit, mini_lua) lua_runtime option \<times> unit world" where
  "mini_new = cpkt_lua_runtime_new_with_limit mini_lib empty_world 400"

abbreviation "mini_config \<equiv> \<lparr>cfg_alloc_fn = None, cfg_realloc_fn = None, cfg_free_fn = None,
  cfg_max_bytes = 400\<rparr> :: unit allocator_config"

lemma mini_uses:
  "uses cpkt_lua_runtime_default_alloc (Some cpkt_lua_runtime_default_realloc) cpkt_lua_runtime_default_free
     (cpkt_lua_runtime_allocator_init empty_world (Some mini_config) 0)"
  by (simp add: uses_def cpkt_lua_runtime_allocator_init_def Let_def)

lemmas runtime_eval = cpkt_lua_runtime_new_with_limit_def cpkt_lua_runtime_new_with_allocator_def
  sizeof_runtime_def sizeof_chunk_def cpkt_lua_runtime_protected_call_def cpkt_lua_runtime_call_with_status_def
  lua_push_def lua_pop_def cpkt_lua_runtime_clear_error_def free_last_error_def rt_free_def rt_alloc_def
  cpkt_lua_runtime_set_error_def cpkt_lua_runtime_strdup_def store_def poke_def cstr_def NUL_def
  strlen_at_def cpkt_lua_runtime_error_def cpkt_lua_runtime_instruction_hook_def

lemma mini_new_ok: "\<exists>rt w. mini_new = (CPKT_LUA_RUNTIME_OK, Some rt, w) \<and>
    lua_stack (the (state rt)) = [] \<and> instruction_limit rt = 0 \<and> last_error rt = None"
  by (simp add: mini_new_def empty_world_def runtime_eval allocator_eval mini_lib_def)

lemma runtime_lifecycle_witness:
  "\<exists>rt. fst (snd mini_new) = Some rt \<and>
     live (cpkt_lua_runtime_free mini_lib
       (lua_session mini_lib
         [OpenAllLibs, RegisterLua (Some ''m'') (Some ''return 1'') None, RequireModule (Some ''bad''),
          SetInstructionLimit 5, RequireModule (Some ''busy'')] rt)) = Map.empty"
proof -
  obtain rt w where new: "mini_new = (CPKT_LUA_RUNTIME_OK, Some rt, w)"
    using mini_new_ok by blast
  have "blocks empty_world = []" by (simp add: empty_world_def)
  from runtime_lifecycle [OF libc.sys_allocator_axioms mini_contract mini_uses this
      new [unfolded mini_new_def cpkt_lua_runtime_new_with_limit_def]]
  have "live (cpkt_lua_runtime_free mini_lib (lua_session mini_lib ops rt)) = Map.empty" for ops
    by simp
  moreover have "fst (snd mini_new) = Some rt"
    by (simp add: new)
  ultimately show ?thesis
    by blast
qed

end
