(* ===== verification/Lua_Calls.thy ===== *)
theory Lua_Calls
  imports Lua_Memory
begin

text \<open>
  The outcome of calls into Lua: status, error text and stack of a protected call, the order in which
  libraries are opened, and the stack slot that a failed \<open>require\<close> leaves behind.
\<close>

text \<open>
  C30: The outcome of a call into Lua. When the call raises an error, the stack is back to what lay below
  the called function, and the status is \<open>ERR_LIMIT\<close> if the instruction hook fired, else \<open>ERR_ALLOC\<close> if
  memory was refused, else the caller's failure status, with the error text stored; or the text itself
  could not be stored and the status is \<open>ERR_ALLOC\<close>. When it returns without having hit the limit, the
  status is \<open>OK\<close>, the error text is cleared and the stack holds the requested results (none for a
  traceback call that asks for all).
\<close>

theorem call_outcome:
  assumes "sys_allocator af rf ff" and "lua_contract owned lib"
    and "rt_ok af rf ff mb owned extra rt" and "state rt = Some st"
    and "call_run lib nargs traceback st rt = ((l, res), rt1)"
    and "cpkt_lua_runtime_call_with_status lib rt nargs nresults fs traceback = (status, rt')"
  shows "case res of
      Inl v \<Rightarrow> lua_stack (the (state rt')) = call_base nargs rt \<and>
        (status = failure_of fs rt1 \<and>
           cpkt_lua_runtime_error rt' = (case lua_tostring v of None \<Rightarrow> '''' | Some m \<Rightarrow> cstr m) \<or>
         status = CPKT_LUA_RUNTIME_ERR_ALLOC \<and> cpkt_lua_runtime_error rt' \<in> {'''', ''out of memory''})
    | Inr vs \<Rightarrow> lua_stack (the (state rt')) = call_base nargs rt @
          (if traceback \<and> nresults = LUA_MULTRET then [] else adjust_results nresults vs) \<and>
        (if instruction_limit_hit rt1
         then status \<in> {CPKT_LUA_RUNTIME_ERR_LIMIT, CPKT_LUA_RUNTIME_ERR_ALLOC}
         else status = CPKT_LUA_RUNTIME_OK \<and> cpkt_lua_runtime_error rt' = '''')"
proof -
  note okf = sys_allocator.call_run_ok [OF assms(1-5)]
  show ?thesis
  proof (cases res)
    case (Inl v)
    let ?st = "st\<lparr>lua_internal := l, lua_stack := call_base nargs rt\<rparr>"
    obtain s2 rt2 where e: "cpkt_lua_runtime_set_error rt1 (failure_of fs rt1) (lua_tostring v) = (s2, rt2)"
      by fastforce
    have res: "rt' = rt2\<lparr>state := Some ?st\<rparr>" "status = s2"
      using assms(6) call_raised [OF assms(4) assms(5) [unfolded Inl] e] by simp_all
    note e' = set_error_state [OF e, of "Some ?st", folded res(1)]
    from sys_allocator.set_error_ok [OF assms(1) okf [THEN conjunct1] e'] show ?thesis
      using Inl res by (auto split: option.splits)
  next
    case (Inr vs)
    let ?stack = "call_base nargs rt @
        (if traceback \<and> nresults = LUA_MULTRET then [] else adjust_results nresults vs)"
    let ?rt2 = "rt1\<lparr>state := Some (st\<lparr>lua_internal := l, lua_stack := ?stack\<rparr>),
        allocator := (allocator rt1)\<lparr>failed := False\<rparr>\<rparr>"
    note ret = call_returned [OF assms(4) assms(5) [unfolded Inr], of nresults fs]
    have ok2: "rt_ok af rf ff mb owned extra ?rt2"
      using okf sys_allocator.rt_ok_failed_state [OF assms(1)] by blast
    show ?thesis
    proof (cases "instruction_limit_hit rt1")
      case True
      then have e: "cpkt_lua_runtime_set_error ?rt2 CPKT_LUA_RUNTIME_ERR_LIMIT
          (Some ''Lua instruction limit exceeded'') = (status, rt')"
        using assms(6) ret by simp
      from sys_allocator.set_error_ok [OF assms(1) ok2 e] show ?thesis
        using Inr True by auto
    next
      case False
      then have "rt' = cpkt_lua_runtime_clear_error ?rt2" "status = CPKT_LUA_RUNTIME_OK"
        using assms(6) ret by simp_all
      with sys_allocator.clear_error_ok [OF assms(1) ok2] show ?thesis
        using Inr False by (simp add: cpkt_lua_runtime_error_def)
    qed
  qed
qed

lemma call_outcome_witness:
  "\<exists>rt w status rt'. mini_new = (CPKT_LUA_RUNTIME_OK, Some rt, w) \<and>
     cpkt_lua_runtime_protected_call mini_lib rt (Require ''bad'') (NResults 1) CPKT_LUA_RUNTIME_ERR_RUNTIME =
       (status, rt') \<and>
     status \<in> {CPKT_LUA_RUNTIME_ERR_RUNTIME, CPKT_LUA_RUNTIME_ERR_ALLOC} \<and> lua_stack (the (state rt')) = []"
proof -
  obtain rt w where new: "mini_new = (CPKT_LUA_RUNTIME_OK, Some rt, w)" and empty: "lua_stack (the (state rt)) = []"
    using mini_new_ok by blast
  let ?rt = "lua_push [CallProtectedFn, CallContext (Require ''bad'')] rt"
  have "blocks empty_world = []" by (simp add: empty_world_def)
  from libc.new_result [OF mini_contract mini_uses this new [unfolded mini_new_def cpkt_lua_runtime_new_with_limit_def]]
  have ok: "libc.ok (configured_limit (Some mini_config)) mini_owned [] rt" and st: "state rt \<noteq> None"
    by simp_all
  obtain s where s: "state rt = Some s" using st by auto
  let ?s = "s\<lparr>lua_stack := [CallProtectedFn, CallContext (Require ''bad'')]\<rparr>"
  have st': "state ?rt = Some ?s"
    using s empty by (simp add: lua_push_def)
  have ok': "libc.ok (configured_limit (Some mini_config)) mini_owned [] ?rt" using ok by simp
  obtain rt1 where run: "call_run mini_lib 1 False ?s ?rt = ((lua_internal s, Inl (LuaString ''boom'')), rt1)"
    and rt1: "\<not> instruction_limit_hit rt1" "\<not> failed (allocator rt1)"
    by (simp add: call_run_def mini_lib_def)
  obtain status rt' where call: "cpkt_lua_runtime_call_with_status mini_lib ?rt 1 (NResults 1)
      CPKT_LUA_RUNTIME_ERR_RUNTIME False = (status, rt')" by fastforce
  from call_outcome [OF libc.sys_allocator_axioms mini_contract ok' st' run call]
  have "status \<in> {CPKT_LUA_RUNTIME_ERR_RUNTIME, CPKT_LUA_RUNTIME_ERR_ALLOC} \<and> lua_stack (the (state rt')) = []"
    using st' rt1 by (auto simp: failure_of_def call_base_def)
  then show ?thesis
    using new call by (auto simp: cpkt_lua_runtime_protected_call_def)
qed

subsection \<open>What Lua gets to see\<close>

text \<open>
  A record of the protected operations that a Lua state has been asked to run, each with the word
  whether it went well: it returned, and the count hook did not stop it on the way.
\<close>

primrec act_went :: "'l lua_act \<Rightarrow> bool \<Rightarrow> ('l \<Rightarrow> bool \<Rightarrow> bool) \<Rightarrow> bool" where
  "act_went (LuaAlloc ptr osize nsize k) hit P = (\<forall>q. act_went (k q) hit P)"
| "act_went (LuaCount k) hit P = (\<forall>b. act_went (k b) (hit \<or> b) P)"
| "act_went (LuaDone l vs) hit P = P l (\<not> hit)"
| "act_went (LuaRaise l v) hit P = P l False"

lemma run_lua_went:
  "act_went act (instruction_limit_hit rt) P \<Longrightarrow> run_lua act rt = ((l, r), rt') \<Longrightarrow>
   P l (\<not> isl r \<and> \<not> instruction_limit_hit rt')"
proof (induction act arbitrary: rt)
  case (LuaAlloc ptr osize nsize k)
  obtain q al where q: "cpkt_lua_runtime_lua_alloc (allocator rt) ptr osize nsize = (q, al)" by fastforce
  with LuaAlloc.prems LuaAlloc.IH [of "k q" "rt\<lparr>allocator := al\<rparr>"] show ?case by auto
next
  case (LuaCount k)
  obtain b rt1 where h: "cpkt_lua_runtime_instruction_hook rt = (b, rt1)" by fastforce
  then have "instruction_limit_hit rt1 = (instruction_limit_hit rt \<or> b)"
    by (auto simp: cpkt_lua_runtime_instruction_hook_def split: if_splits)
  with h LuaCount.prems LuaCount.IH [of "k b" rt1] show ?case by auto
qed auto

type_synonym op_record = "(protected_op \<times> bool) list"

definition logs_ops :: "('l \<Rightarrow> op_record) \<Rightarrow> 'l lua_lib \<Rightarrow> bool" where
  "logs_ops op_log lib \<longleftrightarrow>
     (\<forall>l operation h. act_went (lib_pcall lib l CallProtectedFn [CallContext operation] h) False
        (\<lambda>l' ok. op_log l' = op_log l @ [(operation, ok)]))"

definition rt_log :: "('l \<Rightarrow> op_record) \<Rightarrow> ('u, 'l) lua_runtime \<Rightarrow> op_record" where
  "rt_log op_log rt = (case state rt of None \<Rightarrow> [] | Some st \<Rightarrow> op_log (lua_internal st))"

definition rt_stack :: "('u, 'l) lua_runtime \<Rightarrow> lua_val list" where
  "rt_stack rt = (case state rt of None \<Rightarrow> [] | Some st \<Rightarrow> lua_stack st)"

lemma free_error_state [simp]: "state (free_last_error rt) = state rt"
  by (simp add: free_last_error_def rt_free_def)

lemma strdup_state: "cpkt_lua_runtime_strdup rt m = (c, rt') \<Longrightarrow> state rt' = state rt"
  by (auto simp: cpkt_lua_runtime_strdup_def rt_alloc_def Let_def split: option.splits prod.splits)

lemma set_error_keeps_state: "state (snd (cpkt_lua_runtime_set_error rt s m)) = state rt"
  by (auto simp: cpkt_lua_runtime_set_error_def Let_def split: option.splits prod.splits dest!: strdup_state)

lemma set_error_status:
  "fst (cpkt_lua_runtime_set_error rt s m) = s \<or>
   fst (cpkt_lua_runtime_set_error rt s m) = CPKT_LUA_RUNTIME_ERR_ALLOC"
  by (auto simp: cpkt_lua_runtime_set_error_def Let_def split: option.splits prod.splits)

lemma clear_error_state [simp]: "state (cpkt_lua_runtime_clear_error rt) = state rt"
  by (simp add: cpkt_lua_runtime_clear_error_def)

lemma call_state:
  assumes st: "state rt = Some st" and run: "call_run lib nargs tb st rt = ((l, res), rt1)"
    and r: "cpkt_lua_runtime_call_with_status lib rt nargs nres fs tb = (status, rt')"
    and fs: "fs \<noteq> CPKT_LUA_RUNTIME_OK"
  shows "case res of
      Inl v \<Rightarrow> state rt' = Some (st\<lparr>lua_internal := l, lua_stack := call_base nargs rt\<rparr>) \<and>
        status \<noteq> CPKT_LUA_RUNTIME_OK
    | Inr vs \<Rightarrow> state rt' = Some (st\<lparr>lua_internal := l, lua_stack := call_base nargs rt @
          (if tb \<and> nres = LUA_MULTRET then [] else adjust_results nres vs)\<rparr>) \<and>
        (status = CPKT_LUA_RUNTIME_OK) = (\<not> instruction_limit_hit rt1)"
proof (cases res)
  case (Inl v)
  let ?e = "cpkt_lua_runtime_set_error rt1 (failure_of fs rt1) (lua_tostring v)"
  have "failure_of fs rt1 \<noteq> CPKT_LUA_RUNTIME_OK" using fs by (simp add: failure_of_def)
  then have "fst ?e \<noteq> CPKT_LUA_RUNTIME_OK" using set_error_status [of rt1 "failure_of fs rt1" "lua_tostring v"] by auto
  then show ?thesis
    using Inl r call_raised [OF st run [unfolded Inl] prod.collapse [symmetric]] by auto
next
  case (Inr vs)
  note ret = r [unfolded call_returned [OF st run [unfolded Inr]]]
  show ?thesis
  proof (cases "instruction_limit_hit rt1")
    case True
    let ?stack = "call_base nargs rt @ (if tb \<and> nres = LUA_MULTRET then [] else adjust_results nres vs)"
    let ?e = "cpkt_lua_runtime_set_error (rt1\<lparr>state := Some (st\<lparr>lua_internal := l, lua_stack := ?stack\<rparr>),
        allocator := (allocator rt1)\<lparr>failed := False\<rparr>\<rparr>) CPKT_LUA_RUNTIME_ERR_LIMIT (Some ''Lua instruction limit exceeded'')"
    from ret True have e: "?e = (status, rt')" by simp
    have "state (snd ?e) = Some (st\<lparr>lua_internal := l, lua_stack := ?stack\<rparr>)"
      by (simp add: set_error_keeps_state)
    moreover have "fst ?e \<noteq> CPKT_LUA_RUNTIME_OK"
      using set_error_status [of _ CPKT_LUA_RUNTIME_ERR_LIMIT] by (metis cpkt_lua_runtime_status.distinct(1,3,5,7,9,11,13,15,17,19,21,23,25,27,29))
    ultimately show ?thesis
      using Inr True unfolding e by simp
  next
    case False
    then show ?thesis using Inr ret by auto
  qed
qed

lemma protected_state:
  assumes "state rt = Some st"
    and r: "cpkt_lua_runtime_protected_call lib rt operation nres fs = (status, rt')"
    and fs: "fs \<noteq> CPKT_LUA_RUNTIME_OK" and log: "logs_ops op_log lib"
  shows "\<exists>st'. state rt' = Some st' \<and>
    rt_log op_log rt' = rt_log op_log rt @ [(operation, status = CPKT_LUA_RUNTIME_OK)] \<and>
    (status = CPKT_LUA_RUNTIME_OK \<longrightarrow> (\<exists>vs. rt_stack rt' = rt_stack rt @ adjust_results nres vs))"
proof -
  let ?rt = "lua_push [CallProtectedFn, CallContext operation] rt"
  let ?st = "st\<lparr>lua_stack := lua_stack st @ [CallProtectedFn, CallContext operation]\<rparr>"
  have st': "state ?rt = Some ?st" using assms(1) by (simp add: lua_push_def)
  obtain l res rt1 where run: "call_run lib 1 False ?st ?rt = ((l, res), rt1)" by (metis surj_pair)
  let ?u = "?rt\<lparr>instruction_limit_hit := False, allocator := (allocator ?rt)\<lparr>failed := False\<rparr>\<rparr>"
  have act: "act_went (lib_pcall lib (lua_internal st) CallProtectedFn [CallContext operation] False)
      (instruction_limit_hit ?u) (\<lambda>l' ok. op_log l' = op_log (lua_internal st) @ [(operation, ok)])"
    using log by (simp add: logs_ops_def)
  have "op_log l = op_log (lua_internal st) @ [(operation, \<not> isl res \<and> \<not> instruction_limit_hit rt1)]"
    using run_lua_went [OF act] run by (simp add: call_run_def nth_append)
  moreover have "call_base 1 ?rt = lua_stack st"
    using st' by (simp add: call_base_def)
  ultimately show ?thesis
    using call_state [OF st' run r [unfolded cpkt_lua_runtime_protected_call_def] fs] assms(1)
    by (cases res) (auto simp: rt_log_def rt_stack_def)
qed

definition stage_ops :: "int \<Rightarrow> int \<times> string \<times> protected_op option \<Rightarrow> protected_op list" where
  "stage_ops libs stage =
     (let (flag, name, follow_up) = stage in
      if has_flag libs flag then OpenLib name # (case follow_up of None \<Rightarrow> [] | Some f \<Rightarrow> [f]) else [])"

text \<open>
  A sequence of operations: on success all of them went well and the stack is as it was; on a failure one
  of them went wrong, those before it went well, and nothing was asked for after it.
\<close>

definition progressed :: "('l \<Rightarrow> op_record) \<Rightarrow> ('u, 'l) lua_runtime \<Rightarrow>
    cpkt_lua_runtime_status \<times> ('u, 'l) lua_runtime \<Rightarrow> protected_op list \<Rightarrow> bool" where
  "progressed op_log rt res ops \<longleftrightarrow> state (snd res) \<noteq> None \<and>
     (if fst res = CPKT_LUA_RUNTIME_OK
      then rt_log op_log (snd res) = rt_log op_log rt @ map (\<lambda>x. (x, True)) ops \<and> rt_stack (snd res) = rt_stack rt
      else \<exists>done bad rest. ops = done @ bad # rest \<and>
        rt_log op_log (snd res) = rt_log op_log rt @ map (\<lambda>x. (x, True)) done @ [(bad, False)])"

lemma progressed_refl: "state rt \<noteq> None \<Longrightarrow> progressed op_log rt (CPKT_LUA_RUNTIME_OK, rt) []"
  by (simp add: progressed_def)

lemma progressed_trans:
  assumes "progressed op_log rt (s1, rt1) ops1"
    and "s1 = CPKT_LUA_RUNTIME_OK \<Longrightarrow> progressed op_log rt1 res ops2"
    and "s1 \<noteq> CPKT_LUA_RUNTIME_OK \<Longrightarrow> res = (s1, rt1)"
  shows "progressed op_log rt res (ops1 @ ops2)"
proof (cases "s1 = CPKT_LUA_RUNTIME_OK")
  case True
  from assms(1) True have 1: "rt_log op_log rt1 = rt_log op_log rt @ map (\<lambda>x. (x, True)) ops1" "rt_stack rt1 = rt_stack rt"
    by (auto simp: progressed_def)
  show ?thesis
  proof (cases "fst res = CPKT_LUA_RUNTIME_OK")
    case ok: True
    with 1 assms(2) [OF True] show ?thesis by (simp add: progressed_def)
  next
    case False
    with assms(2) [OF True] obtain "done" bad rest where "ops2 = done @ bad # rest" "state (snd res) \<noteq> None"
        "rt_log op_log (snd res) = rt_log op_log rt1 @ map (\<lambda>x. (x, True)) done @ [(bad, False)]"
      by (auto simp: progressed_def)
    with 1 have "ops1 @ ops2 = (ops1 @ done) @ bad # rest" "state (snd res) \<noteq> None"
        "rt_log op_log (snd res) = rt_log op_log rt @ map (\<lambda>x. (x, True)) (ops1 @ done) @ [(bad, False)]"
      by simp_all
    with False show ?thesis
      unfolding progressed_def by (simp only: if_False simp_thms) blast
  qed
next
  case False
  with assms(1) obtain "done" bad rest where "ops1 = done @ bad # rest" "state rt1 \<noteq> None"
      "rt_log op_log rt1 = rt_log op_log rt @ map (\<lambda>x. (x, True)) done @ [(bad, False)]"
    by (auto simp: progressed_def)
  then have "ops1 @ ops2 = done @ bad # (rest @ ops2)" "state (snd (s1, rt1)) \<noteq> None"
      "rt_log op_log (snd (s1, rt1)) = rt_log op_log rt @ map (\<lambda>x. (x, True)) done @ [(bad, False)]"
    by simp_all
  with False show ?thesis
    unfolding assms(3) [OF False] progressed_def fst_conv by (simp only: if_False simp_thms) blast
qed

lemma protected_progress:
  assumes "state rt \<noteq> None" "logs_ops op_log lib"
  shows "progressed op_log rt
    (cpkt_lua_runtime_protected_call lib rt operation (NResults 0) CPKT_LUA_RUNTIME_ERR_RUNTIME) [operation]"
proof -
  obtain s where s: "state rt = Some s" using assms(1) by auto
  obtain status rt1 where call: "cpkt_lua_runtime_protected_call lib rt operation (NResults 0)
      CPKT_LUA_RUNTIME_ERR_RUNTIME = (status, rt1)" by fastforce
  from protected_state [OF s call _ assms(2)] call show ?thesis
    by (auto simp: progressed_def)
qed

lemma pop_fields:
  "rt_log op_log (lua_pop n rt) = rt_log op_log rt" "state rt = Some st \<Longrightarrow> \<exists>st. state (lua_pop n rt) = Some st"
  "rt_stack (lua_pop n rt) = take (length (rt_stack rt) - n) (rt_stack rt)"
  by (auto simp: rt_log_def rt_stack_def lua_pop_def split: option.split)

lemma open_one_progress:
  assumes "state rt \<noteq> None" "logs_ops op_log lib"
  shows "progressed op_log rt (cpkt_lua_runtime_open_one_lib lib rt name) [OpenLib name]"
proof -
  obtain s where s: "state rt = Some s" using assms(1) by auto
  obtain status rt1 where call: "cpkt_lua_runtime_protected_call lib rt (OpenLib name) (NResults 1)
      CPKT_LUA_RUNTIME_ERR_RUNTIME = (status, rt1)" by fastforce
  from protected_state [OF s call _ assms(2)] obtain st' where
    1: "state rt1 = Some st'" "rt_log op_log rt1 = rt_log op_log rt @ [(OpenLib name, status = CPKT_LUA_RUNTIME_OK)]"
      "status = CPKT_LUA_RUNTIME_OK \<longrightarrow> (\<exists>vs. rt_stack rt1 = rt_stack rt @ adjust_results (NResults 1) vs)"
    by auto
  have len: "length (adjust_results (NResults 1) vs) = 1" for vs
    by simp
  show ?thesis
    using call 1 len pop_fields(2) [OF 1(1)]
    by (auto simp: cpkt_lua_runtime_open_one_lib_def progressed_def pop_fields(1,3) simp del: adjust_results.simps)
qed

lemma stage_progress:
  assumes "state rt \<noteq> None" "logs_ops op_log lib" "x \<in> set open_stages"
  shows "progressed op_log rt (open_stage lib libs x (CPKT_LUA_RUNTIME_OK, rt)) (stage_ops libs x)"
proof -
  obtain flag name fu where x: "x = (flag, name, fu)" by (metis surj_pair)
  have fu: "fu = None \<or> fu = Some WrapCoroutineLibrary \<or> fu = Some DisableDebugSethook"
    using assms(3) x by (auto simp: open_stages_def)
  obtain s1 rt1 where one: "cpkt_lua_runtime_open_one_lib lib rt name = (s1, rt1)" by fastforce
  note p = open_one_progress [OF assms(1,2), of name, unfolded one]
  then have st1: "state rt1 \<noteq> None" by (simp add: progressed_def)
  have "progressed op_log rt (open_step lib rt name fu) ([OpenLib name] @ (case fu of None \<Rightarrow> [] | Some f \<Rightarrow> [f]))"
    using fu one protected_progress [OF st1 assms(2)] progressed_refl [OF st1]
    by (intro progressed_trans [OF p])
      (auto simp: open_step_def cpkt_lua_runtime_wrap_coroutine_library_checked_def
        cpkt_lua_runtime_disable_debug_sethook_checked_def)
  then show ?thesis
    using progressed_refl [OF assms(1)] by (simp add: open_stage_def stage_ops_def x)
qed

lemma stages_stuck:
  "s \<noteq> CPKT_LUA_RUNTIME_OK \<Longrightarrow> fold (open_stage lib libs) stages (s, rt) = (s, rt)"
  by (induction stages) (auto simp: open_stage_def split: prod.splits)

lemma stages_progress:
  assumes "logs_ops op_log lib" "set stages \<subseteq> set open_stages" "state rt \<noteq> None"
  shows "progressed op_log rt (fold (open_stage lib libs) stages (CPKT_LUA_RUNTIME_OK, rt))
    (concat (map (stage_ops libs) stages))"
  using assms(2,3)
proof (induction stages arbitrary: rt)
  case Nil
  then show ?case using progressed_refl by simp
next
  case (Cons x xs)
  obtain s1 rt1 where one: "open_stage lib libs x (CPKT_LUA_RUNTIME_OK, rt) = (s1, rt1)" by fastforce
  have p: "progressed op_log rt (s1, rt1) (stage_ops libs x)"
    using stage_progress [OF Cons.prems(2) assms(1), of x libs] Cons.prems(1) one by simp
  have "progressed op_log rt (fold (open_stage lib libs) xs (s1, rt1))
      (stage_ops libs x @ concat (map (stage_ops libs) xs))"
  proof (rule progressed_trans [OF p])
    assume "s1 = CPKT_LUA_RUNTIME_OK"
    moreover have "state rt1 \<noteq> None" using p by (simp add: progressed_def)
    ultimately show "progressed op_log rt1 (fold (open_stage lib libs) xs (s1, rt1)) (concat (map (stage_ops libs) xs))"
      using Cons.IH [of rt1] Cons.prems(1) by simp
  qed (simp add: stages_stuck)
  then show ?case using one by simp
qed

text \<open>
  C31: Opening libraries asks Lua for exactly the selected libraries, in the order base, package,
  coroutine, table, io, os, string, utf8, math, debug, each once, with the coroutine functions wrapped
  right after \<open>coroutine\<close> and \<open>debug.sethook\<close> disabled right after \<open>debug\<close>. On success every operation
  went well (it returned and was not stopped by the instruction limit) and the stack is as before. On a
  failure the operations before the first that went wrong went well, and none was asked for after it. A
  negative mask is refused without any call.
\<close>

theorem open_libs_order:
  assumes "logs_ops op_log lib" and "state rt \<noteq> None"
  shows "if libs < 0 then cpkt_lua_runtime_open_libs lib rt libs = (CPKT_LUA_RUNTIME_ERR_ARG, rt)
    else progressed op_log rt (cpkt_lua_runtime_open_libs lib rt libs)
      (map snd (filter (\<lambda>(flag, operation). and libs flag \<noteq> 0)
        [(1, OpenLib ''_G''), (2, OpenLib ''package''), (4, OpenLib ''coroutine''), (4, WrapCoroutineLibrary),
         (8, OpenLib ''table''), (16, OpenLib ''io''), (32, OpenLib ''os''), (64, OpenLib ''string''),
         (128, OpenLib ''utf8''), (256, OpenLib ''math''), (512, OpenLib ''debug''), (512, DisableDebugSethook)]))"
    (is "if _ then _ else progressed _ _ _ ?ops")
proof (cases "libs < 0")
  case False
  obtain s rt1 where f: "fold (open_stage lib libs) open_stages (CPKT_LUA_RUNTIME_OK, rt) = (s, rt1)"
    by fastforce
  have "concat (map (stage_ops libs) open_stages) = ?ops"
    by (simp add: stage_ops_def open_stages_def has_flag_def)
  then have "progressed op_log rt (s, rt1) ?ops"
    using stages_progress [OF assms(1) order_refl assms(2), of libs] f by simp
  then show ?thesis
    using False assms(2) f
    by (auto simp: cpkt_lua_runtime_open_libs_def progressed_def rt_log_def rt_stack_def simp del: list.map filter.simps)
qed (simp add: cpkt_lua_runtime_open_libs_def)

text \<open>A Lua that keeps the record and refuses to open one library.\<close>

definition log_lib :: "string \<Rightarrow> op_record lua_lib" where
  "log_lib forbidden = \<lparr>lib_newstate = LuaDone [] [],
     lib_pcall = (\<lambda>l f args h. case args of
         [CallContext x] \<Rightarrow> if x = OpenLib forbidden then LuaRaise (l @ [(x, False)]) LuaNil else LuaDone (l @ [(x, True)]) [LuaNil]
       | _ \<Rightarrow> LuaDone l []),
     lib_close = (\<lambda>l. LuaDone l [])\<rparr>"

definition log_runtime :: "(unit, op_record) lua_runtime" where
  "log_runtime = \<lparr>runtime_self = 0, state = Some \<lparr>lua_stack = [], lua_hook = 0, lua_internal = []\<rparr>,
     allocator = cpkt_lua_runtime_allocator_init empty_world None 0, last_error = None,
     runtime_context = None, warning_callback = None, warning_context = None, chunks = [],
     traceback_enabled = False, instruction_limit = 0, instruction_limit_hit = False\<rparr>"

lemma open_libs_order_witness:
  "progressed (\<lambda>l. l) log_runtime (cpkt_lua_runtime_open_libs (log_lib '''') log_runtime 517)
     [OpenLib ''_G'', OpenLib ''coroutine'', WrapCoroutineLibrary, OpenLib ''debug'', DisableDebugSethook] \<and>
   progressed (\<lambda>l. l) log_runtime (cpkt_lua_runtime_open_libs (log_lib ''coroutine'') log_runtime 517)
     [OpenLib ''_G'', OpenLib ''coroutine'', WrapCoroutineLibrary, OpenLib ''debug'', DisableDebugSethook] \<and>
   rt_log (\<lambda>l. l) (snd (cpkt_lua_runtime_open_libs (log_lib ''coroutine'') log_runtime 517)) =
     [(OpenLib ''_G'', True), (OpenLib ''coroutine'', False)]"
proof -
  have "rt_log (\<lambda>l. l) (snd (cpkt_lua_runtime_open_libs (log_lib ''coroutine'') log_runtime 517)) =
     [(OpenLib ''_G'', True), (OpenLib ''coroutine'', False)]"
    by code_simp
  moreover
  have "logs_ops (\<lambda>l. l) (log_lib name)" for name
    by (simp add: logs_ops_def log_lib_def)
  moreover have "state log_runtime \<noteq> None"
    by (simp add: log_runtime_def)
  ultimately show ?thesis
    using open_libs_order [of "\<lambda>l. l" "log_lib ''''" log_runtime 517]
      open_libs_order [of "\<lambda>l. l" "log_lib ''coroutine''" log_runtime 517] by simp
qed

text \<open>
  C39: A defect of \<open>cpkt_lua_runtime_require\<close>: when the script catches the instruction-limit error and the
  module returns, the call reports a failure but leaves the module's result on the Lua stack, so every
  such call takes one more slot of it.
\<close>

theorem require_limit_leaks:
  assumes "state rt = Some st"
    and "call_run lib 1 False (st\<lparr>lua_stack := lua_stack st @ [CallProtectedFn, CallContext (Require name)]\<rparr>)
        (lua_push [CallProtectedFn, CallContext (Require name)] rt) = ((l, Inr vs), rt1)"
    and "instruction_limit_hit rt1"
  shows "fst (cpkt_lua_runtime_require lib rt (Some name)) \<noteq> CPKT_LUA_RUNTIME_OK \<and>
    length (rt_stack (snd (cpkt_lua_runtime_require lib rt (Some name)))) = length (rt_stack rt) + 1"
proof -
  let ?rt = "lua_push [CallProtectedFn, CallContext (Require name)] rt"
  let ?st = "st\<lparr>lua_stack := lua_stack st @ [CallProtectedFn, CallContext (Require name)]\<rparr>"
  have st': "state ?rt = Some ?st" using assms(1) by (simp add: lua_push_def)
  obtain s rt' where call: "cpkt_lua_runtime_call_with_status lib ?rt 1 (NResults 1)
      CPKT_LUA_RUNTIME_ERR_RUNTIME False = (s, rt')" by fastforce
  have base: "call_base 1 ?rt = lua_stack st" using st' by (simp add: call_base_def)
  from call_state [OF st' assms(2) call] assms(3)
  have "s \<noteq> CPKT_LUA_RUNTIME_OK" "rt_stack rt' = lua_stack st @ adjust_results (NResults 1) vs"
    by (simp_all add: rt_stack_def base [simplified])
  then show ?thesis
    using assms(1) call by (simp add: cpkt_lua_runtime_require_def cpkt_lua_runtime_protected_call_def rt_stack_def)
qed

definition busy_runtime :: "(unit, mini_lua) lua_runtime" where
  "busy_runtime = \<lparr>runtime_self = 0, state = Some \<lparr>lua_stack = [], lua_hook = 5, lua_internal = None\<rparr>,
     allocator = cpkt_lua_runtime_allocator_init empty_world None 0, last_error = None,
     runtime_context = None, warning_callback = None, warning_context = None, chunks = [],
     traceback_enabled = False, instruction_limit = 5, instruction_limit_hit = False\<rparr>"

lemma require_limit_leaks_witness:
  "rt_stack busy_runtime = [] \<and>
   fst (cpkt_lua_runtime_require mini_lib busy_runtime (Some ''busy'')) \<noteq> CPKT_LUA_RUNTIME_OK \<and>
   length (rt_stack (snd (cpkt_lua_runtime_require mini_lib busy_runtime (Some ''busy'')))) = 1"
proof -
  let ?stack = "[CallProtectedFn, CallContext (Require ''busy'')]"
  obtain st where st: "state busy_runtime = Some st" "lua_stack st = []"
    by (simp add: busy_runtime_def)
  obtain l vs rt1 where "call_run mini_lib 1 False (st\<lparr>lua_stack := lua_stack st @ ?stack\<rparr>)
      (lua_push ?stack busy_runtime) = ((l, Inr vs), rt1)" "instruction_limit_hit rt1"
    using st by (auto simp: call_run_def mini_lib_def cpkt_lua_runtime_instruction_hook_def lua_push_def
        busy_runtime_def)
  from require_limit_leaks [OF st(1) this] st show ?thesis
    by (simp add: rt_stack_def)
qed

end
