(* ===== verification/Sus_Catalog.thy ===== *)
theory Sus_Catalog
  imports Cpkt_Prelude
begin

text \<open>
  The result codes and the curated model catalogue of \<^verbatim>\<open>src/sus.c\<close>.

  The table is the source's, row by row, in three parts: the models of whisper.cpp, the Swedish
  models of KBLab, and the second names of the latter.  Strings are NUL-free character lists; a
  string argument that may be NULL is an \<open>option\<close>.
\<close>

section \<open>Result codes\<close>

datatype cpkt_sus_result =
    CPKT_SUS_OK
  | CPKT_SUS_ERR_ARG
  | CPKT_SUS_ERR_ALLOC
  | CPKT_SUS_ERR_MODEL
  | CPKT_SUS_ERR_UPSTREAM
  | CPKT_SUS_ERR_CALLBACK
  | CPKT_SUS_ERR_LOOKUP
  | CPKT_SUS_ERR_IO
  | CPKT_SUS_ERR_CHECKSUM
  | CPKT_SUS_ERR_NETWORK
  | CPKT_SUS_ABORTED

text \<open>The switch has a default branch for a value outside the enumeration: \<open>None\<close> here.\<close>

fun cpkt_sus_result_string :: "cpkt_sus_result option \<Rightarrow> string" where
  "cpkt_sus_result_string (Some CPKT_SUS_OK) = ''ok''"
| "cpkt_sus_result_string (Some CPKT_SUS_ERR_ARG) = ''invalid argument''"
| "cpkt_sus_result_string (Some CPKT_SUS_ERR_ALLOC) = ''allocation failed''"
| "cpkt_sus_result_string (Some CPKT_SUS_ERR_MODEL) = ''model load failed''"
| "cpkt_sus_result_string (Some CPKT_SUS_ERR_UPSTREAM) = ''upstream error''"
| "cpkt_sus_result_string (Some CPKT_SUS_ERR_CALLBACK) = ''callback error''"
| "cpkt_sus_result_string (Some CPKT_SUS_ERR_LOOKUP) = ''model lookup failed''"
| "cpkt_sus_result_string (Some CPKT_SUS_ERR_IO) = ''I/O error''"
| "cpkt_sus_result_string (Some CPKT_SUS_ERR_CHECKSUM) = ''checksum mismatch''"
| "cpkt_sus_result_string (Some CPKT_SUS_ERR_NETWORK) = ''network error''"
| "cpkt_sus_result_string (Some CPKT_SUS_ABORTED) = ''transcription aborted''"
| "cpkt_sus_result_string None = ''unknown result''"

section \<open>The catalogue\<close>

record cpkt_sus_catalog_entry =
  ce_name :: string
  ce_repo :: string
  ce_filename :: string
  ce_url :: string
  ce_sha256 :: string
  ce_size_bytes :: nat
  ce_license :: string
  ce_quantization :: string
  ce_is_default :: int

text \<open>The aggregate initialiser of one row: the values in the order of the fields.\<close>

definition catalog_entry ::
    "string \<Rightarrow> string \<Rightarrow> string \<Rightarrow> string \<Rightarrow> string \<Rightarrow> nat \<Rightarrow> string \<Rightarrow> string \<Rightarrow> int \<Rightarrow>
     cpkt_sus_catalog_entry" where
  "catalog_entry n r f u s z l q d =
     \<lparr>ce_name = n, ce_repo = r, ce_filename = f, ce_url = u, ce_sha256 = s, ce_size_bytes = z,
      ce_license = l, ce_quantization = q, ce_is_default = d\<rparr>"

definition catalog_whisper_cpp :: "cpkt_sus_catalog_entry list" where
  "catalog_whisper_cpp = [
   catalog_entry ''tiny'' ''ggerganov/whisper.cpp'' ''ggml-tiny.bin''
     ''https://huggingface.co/ggerganov/whisper.cpp/resolve/main/ggml-tiny.bin''
     ''be07e048e1e599ad46341c8d2a135645097a538221678b7acdd1b1919c6e1b21''
     77691713 ''MIT'' ''f16'' 1,
   catalog_entry ''tiny.en'' ''ggerganov/whisper.cpp'' ''ggml-tiny.en.bin''
     ''https://huggingface.co/ggerganov/whisper.cpp/resolve/main/ggml-tiny.en.bin''
     ''921e4cf8686fdd993dcd081a5da5b6c365bfde1162e72b08d75ac75289920b1f''
     77704715 ''MIT'' ''f16'' 0,
   catalog_entry ''tiny:q5_1'' ''ggerganov/whisper.cpp'' ''ggml-tiny-q5_1.bin''
     ''https://huggingface.co/ggerganov/whisper.cpp/resolve/main/ggml-tiny-q5_1.bin''
     ''818710568da3ca15689e31a743197b520007872ff9576237bda97bd1b469c3d7''
     32152673 ''MIT'' ''q5_1'' 0,
   catalog_entry ''tiny.en:q5_1'' ''ggerganov/whisper.cpp'' ''ggml-tiny.en-q5_1.bin''
     ''https://huggingface.co/ggerganov/whisper.cpp/resolve/main/ggml-tiny.en-q5_1.bin''
     ''c77c5766f1cef09b6b7d47f21b546cbddd4157886b3b5d6d4f709e91e66c7c2b''
     32166155 ''MIT'' ''q5_1'' 0,
   catalog_entry ''base'' ''ggerganov/whisper.cpp'' ''ggml-base.bin''
     ''https://huggingface.co/ggerganov/whisper.cpp/resolve/main/ggml-base.bin''
     ''60ed5bc3dd14eea856493d334349b405782ddcaf0028d4b5df4088345fba2efe''
     147951465 ''MIT'' ''f16'' 0,
   catalog_entry ''base.en'' ''ggerganov/whisper.cpp'' ''ggml-base.en.bin''
     ''https://huggingface.co/ggerganov/whisper.cpp/resolve/main/ggml-base.en.bin''
     ''a03779c86df3323075f5e796cb2ce5029f00ec8869eee3fdfb897afe36c6d002''
     147964211 ''MIT'' ''f16'' 0,
   catalog_entry ''base:q5_1'' ''ggerganov/whisper.cpp'' ''ggml-base-q5_1.bin''
     ''https://huggingface.co/ggerganov/whisper.cpp/resolve/main/ggml-base-q5_1.bin''
     ''422f1ae452ade6f30a004d7e5c6a43195e4433bc370bf23fac9cc591f01a8898''
     59707625 ''MIT'' ''q5_1'' 0,
   catalog_entry ''base.en:q5_1'' ''ggerganov/whisper.cpp'' ''ggml-base.en-q5_1.bin''
     ''https://huggingface.co/ggerganov/whisper.cpp/resolve/main/ggml-base.en-q5_1.bin''
     ''4baf70dd0d7c4247ba2b81fafd9c01005ac77c2f9ef064e00dcf195d0e2fdd2f''
     59721011 ''MIT'' ''q5_1'' 0,
   catalog_entry ''small'' ''ggerganov/whisper.cpp'' ''ggml-small.bin''
     ''https://huggingface.co/ggerganov/whisper.cpp/resolve/main/ggml-small.bin''
     ''1be3a9b2063867b937e64e2ec7483364a79917e157fa98c5d94b5c1fffea987b''
     487601967 ''MIT'' ''f16'' 0,
   catalog_entry ''small.en'' ''ggerganov/whisper.cpp'' ''ggml-small.en.bin''
     ''https://huggingface.co/ggerganov/whisper.cpp/resolve/main/ggml-small.en.bin''
     ''c6138d6d58ecc8322097e0f987c32f1be8bb0a18532a3f88f734d1bbf9c41e5d''
     487614201 ''MIT'' ''f16'' 0,
   catalog_entry ''small:q5_1'' ''ggerganov/whisper.cpp'' ''ggml-small-q5_1.bin''
     ''https://huggingface.co/ggerganov/whisper.cpp/resolve/main/ggml-small-q5_1.bin''
     ''ae85e4a935d7a567bd102fe55afc16bb595bdb618e11b2fc7591bc08120411bb''
     190085487 ''MIT'' ''q5_1'' 0,
   catalog_entry ''small.en:q5_1'' ''ggerganov/whisper.cpp'' ''ggml-small.en-q5_1.bin''
     ''https://huggingface.co/ggerganov/whisper.cpp/resolve/main/ggml-small.en-q5_1.bin''
     ''bfdff4894dcb76bbf647d56263ea2a96645423f1669176f4844a1bf8e478ad30''
     190098681 ''MIT'' ''q5_1'' 0,
   catalog_entry ''medium'' ''ggerganov/whisper.cpp'' ''ggml-medium.bin''
     ''https://huggingface.co/ggerganov/whisper.cpp/resolve/main/ggml-medium.bin''
     ''6c14d5adee5f86394037b4e4e8b59f1673b6cee10e3cf0b11bbdbee79c156208''
     1533763059 ''MIT'' ''f16'' 0,
   catalog_entry ''medium.en'' ''ggerganov/whisper.cpp'' ''ggml-medium.en.bin''
     ''https://huggingface.co/ggerganov/whisper.cpp/resolve/main/ggml-medium.en.bin''
     ''cc37e93478338ec7700281a7ac30a10128929eb8f427dda2e865faa8f6da4356''
     1533774781 ''MIT'' ''f16'' 0,
   catalog_entry ''medium:q5_0'' ''ggerganov/whisper.cpp'' ''ggml-medium-q5_0.bin''
     ''https://huggingface.co/ggerganov/whisper.cpp/resolve/main/ggml-medium-q5_0.bin''
     ''19fea4b380c3a618ec4723c3eef2eb785ffba0d0538cf43f8f235e7b3b34220f''
     539212467 ''MIT'' ''q5_0'' 0,
   catalog_entry ''medium.en:q5_0'' ''ggerganov/whisper.cpp'' ''ggml-medium.en-q5_0.bin''
     ''https://huggingface.co/ggerganov/whisper.cpp/resolve/main/ggml-medium.en-q5_0.bin''
     ''76733e26ad8fe1c7a5bf7531a9d41917b2adc0f20f2e4f5531688a8c6cd88eb0''
     539225533 ''MIT'' ''q5_0'' 0,
   catalog_entry ''large-v3'' ''ggerganov/whisper.cpp'' ''ggml-large-v3.bin''
     ''https://huggingface.co/ggerganov/whisper.cpp/resolve/main/ggml-large-v3.bin''
     ''64d182b440b98d5203c4f9bd541544d84c605196c4f7b845dfa11fb23594d1e2''
     3095033483 ''MIT'' ''f16'' 0,
   catalog_entry ''large-v3:q5_0'' ''ggerganov/whisper.cpp'' ''ggml-large-v3-q5_0.bin''
     ''https://huggingface.co/ggerganov/whisper.cpp/resolve/main/ggml-large-v3-q5_0.bin''
     ''d75795ecff3f83b5faa89d1900604ad8c780abd5739fae406de19f23ecd98ad1''
     1081140203 ''MIT'' ''q5_0'' 0,
   catalog_entry ''large-v3-turbo'' ''ggerganov/whisper.cpp'' ''ggml-large-v3-turbo.bin''
     ''https://huggingface.co/ggerganov/whisper.cpp/resolve/main/ggml-large-v3-turbo.bin''
     ''1fc70f774d38eb169993ac391eea357ef47c88757ef72ee5943879b7e8e2bc69''
     1624555275 ''MIT'' ''f16'' 0,
   catalog_entry ''large-v3-turbo:q5_0'' ''ggerganov/whisper.cpp'' ''ggml-large-v3-turbo-q5_0.bin''
     ''https://huggingface.co/ggerganov/whisper.cpp/resolve/main/ggml-large-v3-turbo-q5_0.bin''
     ''394221709cd5ad1f40c46e6031ca61bce88931e6e088c188294c6d5a55ffa7e2''
     574041195 ''MIT'' ''q5_0'' 0]"

definition catalog_kblab :: "cpkt_sus_catalog_entry list" where
  "catalog_kblab = [
   catalog_entry ''tiny.sv'' ''KBLab/kb-whisper-tiny'' ''ggml-tiny.sv.bin''
     ''https://huggingface.co/KBLab/kb-whisper-tiny/resolve/main/ggml-model.bin''
     ''054187c95948ee0455d428db0c0d6c84d6c6157dab72e86857ced13233118b03''
     77691730 ''Apache-2.0'' ''f16'' 0,
   catalog_entry ''tiny.sv:q5_0'' ''KBLab/kb-whisper-tiny'' ''ggml-tiny.sv-q5_0.bin''
     ''https://huggingface.co/KBLab/kb-whisper-tiny/resolve/main/ggml-model-q5_0.bin''
     ''98d46b7d23e5528d006e8a42e29eb0cb39b44bed94e1329f10f57d1fd15c658b''
     29875738 ''Apache-2.0'' ''q5_0'' 0,
   catalog_entry ''base.sv'' ''KBLab/kb-whisper-base'' ''ggml-base.sv.bin''
     ''https://huggingface.co/KBLab/kb-whisper-base/resolve/main/ggml-model.bin''
     ''f5e3cdb33e537eedfa2a749b5cae28c4c511873a1b13362f87dffbe07891d3fe''
     147951482 ''Apache-2.0'' ''f16'' 0,
   catalog_entry ''base.sv:q5_0'' ''KBLab/kb-whisper-base'' ''ggml-base.sv-q5_0.bin''
     ''https://huggingface.co/KBLab/kb-whisper-base/resolve/main/ggml-model-q5_0.bin''
     ''aead29b356bca8840e72a8dc2286e2d69e6702639751a1e60cb3c8eacefec546''
     55295450 ''Apache-2.0'' ''q5_0'' 0,
   catalog_entry ''small.sv'' ''KBLab/kb-whisper-small'' ''ggml-small.sv.bin''
     ''https://huggingface.co/KBLab/kb-whisper-small/resolve/main/ggml-model.bin''
     ''de6911330cbdc131362f7a955682b65c8a5a2394caba73e7ea821a9822efb8c6''
     487601984 ''Apache-2.0'' ''f16'' 0,
   catalog_entry ''small.sv:q5_0'' ''KBLab/kb-whisper-small'' ''ggml-small.sv-q5_0.bin''
     ''https://huggingface.co/KBLab/kb-whisper-small/resolve/main/ggml-model-q5_0.bin''
     ''6768836a51abc902e420c613153e6d418c90ea2774e913274d02ab23170225b7''
     175209680 ''Apache-2.0'' ''q5_0'' 0,
   catalog_entry ''medium.sv'' ''KBLab/kb-whisper-medium'' ''ggml-medium.sv.bin''
     ''https://huggingface.co/KBLab/kb-whisper-medium/resolve/main/ggml-model.bin''
     ''1b7842bc1c3f79fb3bf043a0a3590961d625a49ef3ccbdceb00e738c5dd8b015''
     1533763076 ''Apache-2.0'' ''f16'' 0,
   catalog_entry ''medium.sv:q5_0'' ''KBLab/kb-whisper-medium'' ''ggml-medium.sv-q5_0.bin''
     ''https://huggingface.co/KBLab/kb-whisper-medium/resolve/main/ggml-model-q5_0.bin''
     ''7f8762e0ade9e0073674c0d5acae942a0b1ea98add9baa008ee89c94eaba43d0''
     539212484 ''Apache-2.0'' ''q5_0'' 0,
   catalog_entry ''large.sv'' ''KBLab/kb-whisper-large'' ''ggml-large.sv.bin''
     ''https://huggingface.co/KBLab/kb-whisper-large/resolve/main/ggml-model.bin''
     ''b66f2dda369a88f6c03fe37326d7cc37aa216f6f34e6fc1be686e497ba9c2f39''
     3095033483 ''Apache-2.0'' ''f16'' 0,
   catalog_entry ''large.sv:q5_0'' ''KBLab/kb-whisper-large'' ''ggml-large.sv-q5_0.bin''
     ''https://huggingface.co/KBLab/kb-whisper-large/resolve/main/ggml-model-q5_0.bin''
     ''6d2863812d7410322bb7d8647a5c7260761300fa946714c9ed66d22bb30bcb19''
     1081140203 ''Apache-2.0'' ''q5_0'' 0]"

definition catalog_kblab_alias :: "cpkt_sus_catalog_entry list" where
  "catalog_kblab_alias = [
   catalog_entry ''kb-whisper-tiny'' ''KBLab/kb-whisper-tiny'' ''ggml-tiny.sv.bin''
     ''https://huggingface.co/KBLab/kb-whisper-tiny/resolve/main/ggml-model.bin''
     ''054187c95948ee0455d428db0c0d6c84d6c6157dab72e86857ced13233118b03''
     77691730 ''Apache-2.0'' ''f16'' 0,
   catalog_entry ''kb-whisper-tiny:q5_0'' ''KBLab/kb-whisper-tiny'' ''ggml-tiny.sv-q5_0.bin''
     ''https://huggingface.co/KBLab/kb-whisper-tiny/resolve/main/ggml-model-q5_0.bin''
     ''98d46b7d23e5528d006e8a42e29eb0cb39b44bed94e1329f10f57d1fd15c658b''
     29875738 ''Apache-2.0'' ''q5_0'' 0,
   catalog_entry ''kb-whisper-base'' ''KBLab/kb-whisper-base'' ''ggml-base.sv.bin''
     ''https://huggingface.co/KBLab/kb-whisper-base/resolve/main/ggml-model.bin''
     ''f5e3cdb33e537eedfa2a749b5cae28c4c511873a1b13362f87dffbe07891d3fe''
     147951482 ''Apache-2.0'' ''f16'' 0,
   catalog_entry ''kb-whisper-base:q5_0'' ''KBLab/kb-whisper-base'' ''ggml-base.sv-q5_0.bin''
     ''https://huggingface.co/KBLab/kb-whisper-base/resolve/main/ggml-model-q5_0.bin''
     ''aead29b356bca8840e72a8dc2286e2d69e6702639751a1e60cb3c8eacefec546''
     55295450 ''Apache-2.0'' ''q5_0'' 0,
   catalog_entry ''kb-whisper-small'' ''KBLab/kb-whisper-small'' ''ggml-small.sv.bin''
     ''https://huggingface.co/KBLab/kb-whisper-small/resolve/main/ggml-model.bin''
     ''de6911330cbdc131362f7a955682b65c8a5a2394caba73e7ea821a9822efb8c6''
     487601984 ''Apache-2.0'' ''f16'' 0,
   catalog_entry ''kb-whisper-small:q5_0'' ''KBLab/kb-whisper-small'' ''ggml-small.sv-q5_0.bin''
     ''https://huggingface.co/KBLab/kb-whisper-small/resolve/main/ggml-model-q5_0.bin''
     ''6768836a51abc902e420c613153e6d418c90ea2774e913274d02ab23170225b7''
     175209680 ''Apache-2.0'' ''q5_0'' 0,
   catalog_entry ''kb-whisper-medium'' ''KBLab/kb-whisper-medium'' ''ggml-medium.sv.bin''
     ''https://huggingface.co/KBLab/kb-whisper-medium/resolve/main/ggml-model.bin''
     ''1b7842bc1c3f79fb3bf043a0a3590961d625a49ef3ccbdceb00e738c5dd8b015''
     1533763076 ''Apache-2.0'' ''f16'' 0,
   catalog_entry ''kb-whisper-medium:q5_0'' ''KBLab/kb-whisper-medium'' ''ggml-medium.sv-q5_0.bin''
     ''https://huggingface.co/KBLab/kb-whisper-medium/resolve/main/ggml-model-q5_0.bin''
     ''7f8762e0ade9e0073674c0d5acae942a0b1ea98add9baa008ee89c94eaba43d0''
     539212484 ''Apache-2.0'' ''q5_0'' 0,
   catalog_entry ''kb-whisper-large'' ''KBLab/kb-whisper-large'' ''ggml-large.sv.bin''
     ''https://huggingface.co/KBLab/kb-whisper-large/resolve/main/ggml-model.bin''
     ''b66f2dda369a88f6c03fe37326d7cc37aa216f6f34e6fc1be686e497ba9c2f39''
     3095033483 ''Apache-2.0'' ''f16'' 0,
   catalog_entry ''kb-whisper-large:q5_0'' ''KBLab/kb-whisper-large'' ''ggml-large.sv-q5_0.bin''
     ''https://huggingface.co/KBLab/kb-whisper-large/resolve/main/ggml-model-q5_0.bin''
     ''6d2863812d7410322bb7d8647a5c7260761300fa946714c9ed66d22bb30bcb19''
     1081140203 ''Apache-2.0'' ''q5_0'' 0]"

definition cpkt_sus_catalog :: "cpkt_sus_catalog_entry list" where
  "cpkt_sus_catalog = catalog_whisper_cpp @ catalog_kblab @ catalog_kblab_alias"

section \<open>Lookup\<close>

definition cpkt_sus_default_model_name :: string where
  "cpkt_sus_default_model_name = ''tiny''"

definition cpkt_sus_catalog_count_internal :: nat where
  "cpkt_sus_catalog_count_internal = length cpkt_sus_catalog"

text \<open>The public view of a row, \<open>cpkt_sus_model_entry\<close> of the header; its zeroed value has NULL strings.\<close>

record cpkt_sus_model_entry =
  me_name :: "string option"
  me_provider :: "string option"
  me_source_url :: "string option"
  me_filename :: "string option"
  me_sha256 :: "string option"
  me_size_bytes :: nat
  me_license :: "string option"
  me_quantization :: "string option"
  me_is_default :: int

definition model_entry_zero :: cpkt_sus_model_entry where
  "model_entry_zero =
     \<lparr>me_name = None, me_provider = None, me_source_url = None, me_filename = None, me_sha256 = None,
      me_size_bytes = 0, me_license = None, me_quantization = None, me_is_default = 0\<rparr>"

definition cpkt_sus_copy_catalog_entry :: "cpkt_sus_catalog_entry \<Rightarrow> cpkt_sus_model_entry" where
  "cpkt_sus_copy_catalog_entry e =
     model_entry_zero
       \<lparr>me_name := Some (ce_name e), me_provider := Some (ce_repo e),
        me_source_url := Some (ce_url e), me_filename := Some (ce_filename e),
        me_sha256 := Some (ce_sha256 e), me_size_bytes := ce_size_bytes e,
        me_license := Some (ce_license e), me_quantization := Some (ce_quantization e),
        me_is_default := ce_is_default e\<rparr>"

text \<open>The loop over the table; \<open>strcmp\<close> on NUL-free strings is equality.\<close>

fun find_entry_loop :: "string \<Rightarrow> cpkt_sus_catalog_entry list \<Rightarrow> cpkt_sus_catalog_entry option" where
  "find_entry_loop nm [] = None"
| "find_entry_loop nm (e # es) = (if ce_name e = nm then Some e else find_entry_loop nm es)"

text \<open>A C string argument is an \<open>option\<close>: \<open>None\<close> is NULL.\<close>

definition given :: "string option \<Rightarrow> bool" where
  "given s \<longleftrightarrow> s \<noteq> None \<and> s \<noteq> Some []"

definition effective_name :: "string option \<Rightarrow> string" where
  "effective_name nm = (if given nm then the nm else cpkt_sus_default_model_name)"

definition cpkt_sus_find_catalog_entry :: "string option \<Rightarrow> cpkt_sus_catalog_entry option" where
  "cpkt_sus_find_catalog_entry nm = find_entry_loop (effective_name nm) cpkt_sus_catalog"

definition cpkt_sus_model_catalog_count :: nat where
  "cpkt_sus_model_catalog_count = cpkt_sus_catalog_count_internal"

text \<open>
  The output parameter of the public lookups: \<open>None\<close> when the caller passes NULL; otherwise its
  value after the call.
\<close>

definition cpkt_sus_model_catalog_entry ::
    "nat \<Rightarrow> bool \<Rightarrow> cpkt_sus_result \<times> cpkt_sus_model_entry option" where
  "cpkt_sus_model_catalog_entry index has_out =
     (if \<not> has_out then (CPKT_SUS_ERR_ARG, None)
      else if index \<ge> cpkt_sus_catalog_count_internal then (CPKT_SUS_ERR_LOOKUP, Some model_entry_zero)
      else (CPKT_SUS_OK, Some (cpkt_sus_copy_catalog_entry (cpkt_sus_catalog ! index))))"

definition cpkt_sus_model_catalog_find ::
    "string option \<Rightarrow> bool \<Rightarrow> cpkt_sus_result \<times> cpkt_sus_model_entry option" where
  "cpkt_sus_model_catalog_find nm has_out =
     (if \<not> has_out then (CPKT_SUS_ERR_ARG, None)
      else case cpkt_sus_find_catalog_entry nm of
        None \<Rightarrow> (CPKT_SUS_ERR_LOOKUP, Some model_entry_zero)
      | Some found \<Rightarrow> (CPKT_SUS_OK, Some (cpkt_sus_copy_catalog_entry found)))"

definition cpkt_sus_model_catalog_default :: "bool \<Rightarrow> cpkt_sus_result \<times> cpkt_sus_model_entry option" where
  "cpkt_sus_model_catalog_default has_out = cpkt_sus_model_catalog_find None has_out"

section \<open>Checksums as text\<close>

definition sha_digit :: "char \<Rightarrow> bool" where
  "sha_digit c \<longleftrightarrow> (48 \<le> (of_char c :: nat) \<and> (of_char c :: nat) \<le> 57) \<or>
                   (97 \<le> (of_char c :: nat) \<and> (of_char c :: nat) \<le> 102)"

fun cpkt_sus_is_sha256_hex :: "string option \<Rightarrow> bool" where
  "cpkt_sus_is_sha256_hex None = False"
| "cpkt_sus_is_sha256_hex (Some text) = (length text = 64 \<and> list_all sha_digit text)"

definition cpkt_sus_i64_to_long :: "int \<Rightarrow> int" where
  "cpkt_sus_i64_to_long v =
     (if v > int long_max then int long_max
      else if v < - int long_max - 1 then - int long_max - 1 else v)"

section \<open>Facts on the table\<close>

lemmas catalog_defs = cpkt_sus_catalog_def catalog_whisper_cpp_def catalog_kblab_def
  catalog_kblab_alias_def catalog_entry_def

lemma catalog_names_distinct: "distinct (map ce_name cpkt_sus_catalog)"
  by (simp add: catalog_defs)

lemma catalog_sha_valid: "list_all (\<lambda>e. cpkt_sus_is_sha256_hex (Some (ce_sha256 e))) cpkt_sus_catalog"
  by (simp add: catalog_defs sha_digit_def)

text \<open>
  The last ten rows are further names of the ten rows before them, and these apart every row has a
  file of its own.
\<close>

lemma alias_rows:
  "map (\<lambda>e. e\<lparr>ce_name := []\<rparr>) catalog_kblab_alias = map (\<lambda>e. e\<lparr>ce_name := []\<rparr>) catalog_kblab"
  by (simp add: catalog_kblab_def catalog_kblab_alias_def catalog_entry_def)

lemma files_distinct: "distinct (map ce_filename (catalog_whisper_cpp @ catalog_kblab))"
  by (simp add: catalog_whisper_cpp_def catalog_kblab_def catalog_entry_def)

lemma alias_of:
  assumes "e \<in> set cpkt_sus_catalog"
  shows "\<exists>d\<in>set (catalog_whisper_cpp @ catalog_kblab). \<exists>n. e = d\<lparr>ce_name := n\<rparr>"
proof (cases "e \<in> set (catalog_whisper_cpp @ catalog_kblab)")
  case True
  then show ?thesis
    by (intro bexI [of _ e] exI [of _ "ce_name e"]) simp_all
next
  case False
  with assms have "e\<lparr>ce_name := []\<rparr> \<in> set (map (\<lambda>e. e\<lparr>ce_name := []\<rparr>) catalog_kblab_alias)"
    by (auto simp: cpkt_sus_catalog_def)
  then obtain d where "d \<in> set catalog_kblab" "e\<lparr>ce_name := []\<rparr> = d\<lparr>ce_name := []\<rparr>"
    unfolding alias_rows by auto
  then show ?thesis
    by (intro bexI [of _ d] exI [of _ "ce_name e"]) (cases e, cases d, simp_all)
qed

lemma catalog_same_file:
  assumes "e \<in> set cpkt_sus_catalog" "d \<in> set cpkt_sus_catalog" "ce_filename d = ce_filename e"
  shows "d = e\<lparr>ce_name := ce_name d\<rparr>"
proof -
  obtain e' n where e: "e' \<in> set (catalog_whisper_cpp @ catalog_kblab)" "e = e'\<lparr>ce_name := n\<rparr>"
    using alias_of [OF assms(1)] by blast
  obtain d' m where d: "d' \<in> set (catalog_whisper_cpp @ catalog_kblab)" "d = d'\<lparr>ce_name := m\<rparr>"
    using alias_of [OF assms(2)] by blast
  have "ce_filename d' = ce_filename e'"
    using assms(3) e(2) d(2) by simp
  then have "d' = e'"
    using files_distinct e(1) d(1) by (simp only: distinct_map inj_on_def)
  with e(2) d(2) show ?thesis
    by simp
qed

lemma catalog_defaults: "filter (\<lambda>e. ce_is_default e \<noteq> 0) cpkt_sus_catalog = [hd cpkt_sus_catalog]"
  by (simp add: catalog_defs)

lemma catalog_count: "cpkt_sus_catalog_count_internal = 40"
  by (simp add: catalog_defs cpkt_sus_catalog_count_internal_def)

lemma default_entry: "cpkt_sus_find_catalog_entry None = Some (hd cpkt_sus_catalog)"
  by (simp add: cpkt_sus_find_catalog_entry_def effective_name_def given_def
      cpkt_sus_default_model_name_def catalog_defs)

section \<open>Lookup is exact\<close>

lemma find_entry_loop_Some:
  "distinct (map ce_name es) \<Longrightarrow>
    find_entry_loop nm es = Some e \<longleftrightarrow> e \<in> set es \<and> ce_name e = nm"
  by (induction es) (auto simp: image_iff)

lemma find_entry_loop_None: "find_entry_loop nm es = None \<longleftrightarrow> nm \<notin> ce_name ` set es"
  by (induction es) auto

lemma find_catalog_entry_iff:
  "cpkt_sus_find_catalog_entry nm = Some e \<longleftrightarrow>
    e \<in> set cpkt_sus_catalog \<and> ce_name e = effective_name nm"
  by (simp add: cpkt_sus_find_catalog_entry_def find_entry_loop_Some catalog_names_distinct)

lemma copy_entry_inject [simp]:
  "cpkt_sus_copy_catalog_entry e = cpkt_sus_copy_catalog_entry d \<longleftrightarrow> e = d"
  by (cases e; cases d) (auto simp: cpkt_sus_copy_catalog_entry_def model_entry_zero_def)

lemma copy_entry_fields [simp]:
  "me_name (cpkt_sus_copy_catalog_entry e) = Some (ce_name e)"
  "me_source_url (cpkt_sus_copy_catalog_entry e) = Some (ce_url e)"
  "me_filename (cpkt_sus_copy_catalog_entry e) = Some (ce_filename e)"
  "me_sha256 (cpkt_sus_copy_catalog_entry e) = Some (ce_sha256 e)"
  "me_size_bytes (cpkt_sus_copy_catalog_entry e) = ce_size_bytes e"
  "me_license (cpkt_sus_copy_catalog_entry e) = Some (ce_license e)"
  "me_quantization (cpkt_sus_copy_catalog_entry e) = Some (ce_quantization e)"
  "me_is_default (cpkt_sus_copy_catalog_entry e) = ce_is_default e"
  by (simp_all add: cpkt_sus_copy_catalog_entry_def)

lemma listed_iff:
  "(\<exists>i. cpkt_sus_model_catalog_entry i True = (CPKT_SUS_OK, Some m)) \<longleftrightarrow>
    m \<in> cpkt_sus_copy_catalog_entry ` set cpkt_sus_catalog"
proof -
  have "cpkt_sus_model_catalog_entry i True = (CPKT_SUS_OK, Some m) \<longleftrightarrow>
      i < length cpkt_sus_catalog \<and> m = cpkt_sus_copy_catalog_entry (cpkt_sus_catalog ! i)" for i
    by (auto simp: cpkt_sus_model_catalog_entry_def cpkt_sus_catalog_count_internal_def)
  then show ?thesis
    by (auto simp: image_iff in_set_conv_nth Bex_def)
qed

lemma found_iff:
  "cpkt_sus_model_catalog_find nm True = (CPKT_SUS_OK, Some m) \<longleftrightarrow>
    (\<exists>e\<in>set cpkt_sus_catalog. ce_name e = effective_name nm \<and> m = cpkt_sus_copy_catalog_entry e)"
proof -
  have "cpkt_sus_model_catalog_find nm True = (CPKT_SUS_OK, Some m) \<longleftrightarrow>
      (\<exists>e. cpkt_sus_find_catalog_entry nm = Some e \<and> m = cpkt_sus_copy_catalog_entry e)"
    by (auto simp: cpkt_sus_model_catalog_find_def split: option.splits)
  then show ?thesis
    by (auto simp: find_catalog_entry_iff)
qed

lemma not_found_iff:
  "cpkt_sus_model_catalog_find nm True = (CPKT_SUS_ERR_LOOKUP, Some model_entry_zero) \<longleftrightarrow>
    effective_name nm \<notin> ce_name ` set cpkt_sus_catalog"
  by (simp add: cpkt_sus_model_catalog_find_def cpkt_sus_find_catalog_entry_def
      find_entry_loop_None [symmetric] split: option.splits)

lemma default_listed_iff:
  "m \<in> cpkt_sus_copy_catalog_entry ` set cpkt_sus_catalog \<and> me_is_default m \<noteq> 0 \<longleftrightarrow>
    m = cpkt_sus_copy_catalog_entry (hd cpkt_sus_catalog)"
proof -
  have "{e \<in> set cpkt_sus_catalog. ce_is_default e \<noteq> 0} = {hd cpkt_sus_catalog}"
    using arg_cong [OF catalog_defaults, of set] by simp
  then show ?thesis
    by (auto simp: set_eq_iff)
qed

text \<open>
  A lookup by name succeeds exactly on the models the catalogue lists, and returns the listed
  entry of that name, the name \<open>tiny\<close> standing for NULL and for the empty string; every other name
  gives ERR_LOOKUP with a zeroed entry.  The default entry is the only listed entry marked as
  default, so the flag and the name the resolver falls back to agree.
\<close>

lemma catalog_lookup:
  "(cpkt_sus_model_catalog_find nm True = (CPKT_SUS_OK, Some m) \<longleftrightarrow>
      (\<exists>i. cpkt_sus_model_catalog_entry i True = (CPKT_SUS_OK, Some m)) \<and>
      me_name m = Some (effective_name nm)) \<and>
   (cpkt_sus_model_catalog_find nm True = (CPKT_SUS_ERR_LOOKUP, Some model_entry_zero) \<longleftrightarrow>
      \<not> (\<exists>i m. cpkt_sus_model_catalog_entry i True = (CPKT_SUS_OK, Some m) \<and>
             me_name m = Some (effective_name nm))) \<and>
   (cpkt_sus_model_catalog_default True = (CPKT_SUS_OK, Some m) \<longleftrightarrow>
      (\<exists>i. cpkt_sus_model_catalog_entry i True = (CPKT_SUS_OK, Some m)) \<and> me_is_default m \<noteq> 0)"
proof -
  have "cpkt_sus_model_catalog_default True = (CPKT_SUS_OK, Some m) \<longleftrightarrow>
      m = cpkt_sus_copy_catalog_entry (hd cpkt_sus_catalog)"
    by (auto simp: cpkt_sus_model_catalog_default_def cpkt_sus_model_catalog_find_def default_entry)
  moreover have "(\<exists>i m. cpkt_sus_model_catalog_entry i True = (CPKT_SUS_OK, Some m) \<and>
      me_name m = Some (effective_name nm)) \<longleftrightarrow> effective_name nm \<in> ce_name ` set cpkt_sus_catalog"
    using listed_iff by (simp add: image_iff) (metis copy_entry_fields(1) option.inject)
  ultimately show ?thesis
    unfolding listed_iff found_iff not_found_iff default_listed_iff by auto
qed

text \<open>
  Every listed model is pinned: its checksum is 64 lowercase hexadecimal digits, so a download
  can be checked without a caller's checksum, and two listed names that share a cache file name
  share source, checksum, size, licence and quantisation, so neither overwrites a file the other
  relies on.
\<close>

lemma catalog_pinned:
  assumes "cpkt_sus_model_catalog_entry i True = (CPKT_SUS_OK, Some a)"
    and "cpkt_sus_model_catalog_entry j True = (CPKT_SUS_OK, Some b)"
    and "me_filename a = me_filename b"
  shows "cpkt_sus_is_sha256_hex (me_sha256 a) \<and> a = b\<lparr>me_name := me_name a\<rparr>"
proof -
  obtain e d where ed: "e \<in> set cpkt_sus_catalog" "a = cpkt_sus_copy_catalog_entry e"
      "d \<in> set cpkt_sus_catalog" "b = cpkt_sus_copy_catalog_entry d"
    using listed_iff assms(1,2) by (metis imageE)
  with assms(3) have "e = d\<lparr>ce_name := ce_name e\<rparr>"
    by (intro catalog_same_file) simp_all
  then have "a = b\<lparr>me_name := me_name a\<rparr>"
    unfolding ed(2,4) by (cases e; cases d) (simp add: cpkt_sus_copy_catalog_entry_def)
  moreover have "cpkt_sus_is_sha256_hex (Some (ce_sha256 e))"
    using catalog_sha_valid ed(1) unfolding list_all_iff by blast
  ultimately show ?thesis
    using ed(2) copy_entry_fields(4) by metis
qed

lemma catalog_row_20: "cpkt_sus_catalog ! 20 = hd catalog_kblab"
  by (simp add: cpkt_sus_catalog_def nth_append catalog_whisper_cpp_def catalog_kblab_def)

lemma catalog_row_30: "cpkt_sus_catalog ! 30 = hd catalog_kblab_alias"
  by (simp add: cpkt_sus_catalog_def nth_append catalog_whisper_cpp_def catalog_kblab_def
      catalog_kblab_alias_def)

end
