(* ===== verification/Sus_Model.thy ===== *)
theory Sus_Model
  imports Sus_Catalog
begin

text \<open>
  The log bridge, the surroundings and the model handles of \<^verbatim>\<open>src/sus.c\<close>.

  \<open>sus_world\<close> collects what the facade calls and does not define: the C library's failures, the
  digest library (EVP), libcurl, the environment and the speech backend (whisper.cpp).  It is a
  parameter of every operation, so a theorem holds for all of them.  \<open>sus_state\<close> is the state the
  facade works on.
\<close>

section \<open>The log bridge\<close>

text \<open>
  The process-wide log state: whether a sink is set, whether the bridge is installed in the backend,
  and the level of the last message.  A level is an \<open>int\<close>; the constants are those of the header.
\<close>

abbreviation CPKT_SUS_LOG_INFO :: int where "CPKT_SUS_LOG_INFO \<equiv> 2"
abbreviation GGML_LOG_LEVEL_CONT :: int where "GGML_LOG_LEVEL_CONT \<equiv> 5"

record cpkt_sus_log_event =
  le_level :: int
  le_component :: string
  le_message :: string

record sus_log =
  log_callback :: bool
  log_installed :: bool
  log_last_level :: int
  log_delivered :: "cpkt_sus_log_event list"

definition cpkt_sus_whisper_log_bridge :: "int \<Rightarrow> string option \<Rightarrow> sus_log \<Rightarrow> sus_log" where
  "cpkt_sus_whisper_log_bridge level text l =
     (if \<not> log_callback l then l
      else
        let ev_level = (if level = GGML_LOG_LEVEL_CONT then log_last_level l else level);
            l1 = (if level = GGML_LOG_LEVEL_CONT then l else l\<lparr>log_last_level := level\<rparr>);
            event = \<lparr>le_level = ev_level, le_component = ''whisper'',
                     le_message = (case text of Some t \<Rightarrow> t | None \<Rightarrow> [])\<rparr>
        in l1\<lparr>log_delivered := log_delivered l1 @ [event]\<rparr>)"

definition cpkt_sus_log_ensure_installed :: "sus_log \<Rightarrow> sus_log" where
  "cpkt_sus_log_ensure_installed l = (if \<not> log_installed l then l\<lparr>log_installed := True\<rparr> else l)"

definition cpkt_sus_log_set :: "bool \<Rightarrow> sus_log \<Rightarrow> sus_log" where
  "cpkt_sus_log_set sink l =
     l\<lparr>log_callback := sink, log_last_level := CPKT_SUS_LOG_INFO, log_installed := True\<rparr>"

text \<open>What a sink sees of a run of backend messages: a continuation takes the level before it.\<close>

fun normal_levels :: "int \<Rightarrow> int list \<Rightarrow> int list" where
  "normal_levels prev [] = []"
| "normal_levels prev (v # vs) =
     (if v = GGML_LOG_LEVEL_CONT then prev # normal_levels prev vs else v # normal_levels v vs)"

lemma bridge_fold:
  assumes "log_callback l"
  shows "map le_level (log_delivered (fold (\<lambda>(v, t). cpkt_sus_whisper_log_bridge v t) ms l)) =
      map le_level (log_delivered l) @ normal_levels (log_last_level l) (map fst ms) \<and>
    map le_message (log_delivered (fold (\<lambda>(v, t). cpkt_sus_whisper_log_bridge v t) ms l)) =
      map le_message (log_delivered l) @ map (\<lambda>m. case snd m of Some t \<Rightarrow> t | None \<Rightarrow> []) ms"
  using assms
proof (induction ms arbitrary: l)
  case (Cons m ms)
  obtain v t where m: "m = (v, t)" by (cases m)
  have "log_callback (cpkt_sus_whisper_log_bridge v t l)"
    using Cons.prems by (simp add: cpkt_sus_whisper_log_bridge_def Let_def)
  from Cons.IH [OF this] Cons.prems show ?case
    by (simp add: m cpkt_sus_whisper_log_bridge_def Let_def)
qed simp

lemma normal_levels_no_cont:
  "prev \<noteq> GGML_LOG_LEVEL_CONT \<Longrightarrow> GGML_LOG_LEVEL_CONT \<notin> set (normal_levels prev vs)"
  by (induction prev vs rule: normal_levels.induct) auto

text \<open>
  A sink set by \<open>cpkt_sus_log_set\<close> receives every later backend message in order, with its
  text (the empty text for a NULL one) and with a level that is never the continuation level: a
  continuation carries the level of the message it continues, INFO when there is none yet.
\<close>

lemma log_levels_normalised:
  "\<exists>evs. log_delivered (fold (\<lambda>(v, t). cpkt_sus_whisper_log_bridge v t) ms (cpkt_sus_log_set True l)) =
        log_delivered l @ evs \<and>
      map le_message evs = map (\<lambda>m. case snd m of Some t \<Rightarrow> t | None \<Rightarrow> []) ms \<and>
      map le_level evs = normal_levels CPKT_SUS_LOG_INFO (map fst ms) \<and>
      GGML_LOG_LEVEL_CONT \<notin> le_level ` set evs"
proof -
  define l0 where "l0 = cpkt_sus_log_set True l"
  have prefix_law: "\<exists>evs. log_delivered (fold (\<lambda>(v, t). cpkt_sus_whisper_log_bridge v t) ms k) =
      log_delivered k @ evs" for k
  proof (induction ms arbitrary: k)
    case (Cons m ms)
    obtain v t where m: "m = (v, t)" by (cases m)
    have "\<exists>e. log_delivered (cpkt_sus_whisper_log_bridge v t k) = log_delivered k @ e"
      by (auto simp: cpkt_sus_whisper_log_bridge_def Let_def)
    with Cons.IH [of "cpkt_sus_whisper_log_bridge v t k"] show ?case
      by (auto simp: m)
  qed simp
  obtain evs where evs: "log_delivered (fold (\<lambda>(v, t). cpkt_sus_whisper_log_bridge v t) ms l0) =
      log_delivered l0 @ evs"
    using prefix_law by blast
  have fields: "log_callback l0" "log_delivered l0 = log_delivered l" "log_last_level l0 = CPKT_SUS_LOG_INFO"
    by (simp_all add: l0_def cpkt_sus_log_set_def)
  have lv: "map le_level evs = normal_levels CPKT_SUS_LOG_INFO (map fst ms)"
    and tx: "map le_message evs = map (\<lambda>m. case snd m of Some t \<Rightarrow> t | None \<Rightarrow> []) ms"
    using bridge_fold [OF fields(1), of ms] fields by (simp_all add: evs)
  have "GGML_LOG_LEVEL_CONT \<notin> set (map le_level evs)"
    unfolding lv by (rule normal_levels_no_cont) simp
  then have "GGML_LOG_LEVEL_CONT \<notin> le_level ` set evs"
    by simp
  with evs lv tx fields show ?thesis
    unfolding l0_def by (intro exI [of _ evs]) simp
qed

section \<open>The system around the facade\<close>

text \<open>
  \<open>sus_world\<close> holds what is not the facade's: which of its numbered calls to the C library fail, the
  environment, the digest, transfer and speech libraries, and the contents of memory that
  \<open>realloc\<close> adds.  \<open>sus_state\<close> is what the facade changes:
  the files by path, the log, and, as a record of its doings, the status events delivered, the URLs
  fetched, the model files loaded and the number of live backend contexts.
\<close>

type_synonym byte = "8 word"

datatype file_node = Regular "byte list" | Directory

record 'c sus_world =
  sw_fails :: "nat \<Rightarrow> bool"
  sw_short :: "nat \<Rightarrow> nat"
  sw_temp :: "nat \<Rightarrow> string"
  sw_env :: "string \<Rightarrow> string option"
  sw_curl :: "nat \<Rightarrow> string \<Rightarrow> byte list list \<times> bool"
  sw_md_init :: "'c option"
  sw_md_update :: "'c \<Rightarrow> byte list \<Rightarrow> 'c option"
  sw_md_final :: "'c \<Rightarrow> byte list option"
  sw_default_gpu :: bool
  sw_loadable :: "byte list \<Rightarrow> bool \<Rightarrow> bool"
  sw_junk :: "nat \<Rightarrow> char"

datatype cache_phase =
    CPKT_SUS_CACHE_STATUS_LOOKUP
  | CPKT_SUS_CACHE_STATUS_HIT
  | CPKT_SUS_CACHE_STATUS_MISS
  | CPKT_SUS_CACHE_STATUS_DOWNLOAD_BEGIN
  | CPKT_SUS_CACHE_STATUS_DOWNLOAD_COMPLETE
  | CPKT_SUS_CACHE_STATUS_VERIFY_BEGIN
  | CPKT_SUS_CACHE_STATUS_VERIFY_COMPLETE
  | CPKT_SUS_CACHE_STATUS_LOAD_BEGIN

record cache_status_event =
  ev_phase :: cache_phase
  ev_model :: "string option"
  ev_cache_path :: string
  ev_source_url :: "string option"

record sus_state =
  ss_tick :: nat
  ss_files :: "string \<Rightarrow> file_node option"
  ss_log :: sus_log
  ss_events :: "cache_status_event list"
  ss_downloads :: "string list"
  ss_loads :: "(string \<times> byte list) list"
  ss_contexts :: nat

text \<open>One numbered call that may fail.\<close>

definition sus_try :: "'c sus_world \<Rightarrow> sus_state \<Rightarrow> bool \<times> sus_state" where
  "sus_try W s = (\<not> sw_fails W (ss_tick s), s\<lparr>ss_tick := Suc (ss_tick s)\<rparr>)"

section \<open>Model handles\<close>

record cpkt_sus_config =
  mc_model_path :: "string option"
  mc_cpu_only :: bool
  mc_preserve_initial_space :: bool

text \<open>The context is the bytes the backend loaded it from, and whether on the GPU.\<close>

record cpkt_sus_model_impl =
  mi_context :: "byte list"
  mi_use_gpu :: bool
  mi_cpu_only :: bool
  mi_preserve :: bool
  mi_initial_space_seen :: bool

definition whisper_init_from_file ::
    "'c sus_world \<Rightarrow> string \<Rightarrow> bool \<Rightarrow> sus_state \<Rightarrow> byte list option \<times> sus_state" where
  "whisper_init_from_file W path use_gpu s =
     (let (ok, s) = sus_try W s in
      case ss_files s path of
        Some (Regular c) \<Rightarrow>
          (if ok \<and> sw_loadable W c use_gpu
           then (Some c, s\<lparr>ss_loads := ss_loads s @ [(path, c)], ss_contexts := Suc (ss_contexts s)\<rparr>)
           else (None, s))
      | _ \<Rightarrow> (None, s))"

definition cpkt_sus_open_path ::
    "'c sus_world \<Rightarrow> bool \<Rightarrow> cpkt_sus_config option \<Rightarrow> sus_state \<Rightarrow>
     cpkt_sus_result \<times> cpkt_sus_model_impl option \<times> sus_state" where
  "cpkt_sus_open_path W has_out config s =
     (case config of
        None \<Rightarrow> (CPKT_SUS_ERR_ARG, None, s)
      | Some cfg \<Rightarrow>
          if \<not> has_out \<or> \<not> given (mc_model_path cfg) then (CPKT_SUS_ERR_ARG, None, s)
          else
            let (ok1, s) = sus_try W s in
            if \<not> ok1 then (CPKT_SUS_ERR_ALLOC, None, s)
            else let (ok2, s) = sus_try W s in
            if \<not> ok2 then (CPKT_SUS_ERR_ALLOC, None, s)
            else
              let use_gpu = (if mc_cpu_only cfg then False else sw_default_gpu W);
                  s = s\<lparr>ss_log := cpkt_sus_log_ensure_installed (ss_log s)\<rparr>;
                  (ctx, s) = whisper_init_from_file W (the (mc_model_path cfg)) use_gpu s
              in case ctx of
                   None \<Rightarrow> (CPKT_SUS_ERR_MODEL, None, s)
                 | Some c \<Rightarrow>
                     (CPKT_SUS_OK,
                      Some \<lparr>mi_context = c, mi_use_gpu = use_gpu, mi_cpu_only = mc_cpu_only cfg,
                            mi_preserve = mc_preserve_initial_space cfg,
                            mi_initial_space_seen = False\<rparr>, s))"

definition cpkt_sus_destroy_impl :: "cpkt_sus_model_impl option \<Rightarrow> sus_state \<Rightarrow> sus_state" where
  "cpkt_sus_destroy_impl model s =
     (case model of None \<Rightarrow> s | Some _ \<Rightarrow> s\<lparr>ss_contexts := ss_contexts s - 1\<rparr>)"

record cpkt_sus_info =
  info_backend_version :: "string option"
  info_backend_system_info :: "string option"
  info_cpu_only :: bool

text \<open>The two strings come from the backend.\<close>

definition cpkt_sus_info_impl ::
    "string \<Rightarrow> string \<Rightarrow> cpkt_sus_model_impl option \<Rightarrow> bool \<Rightarrow> cpkt_sus_result \<times> cpkt_sus_info option" where
  "cpkt_sus_info_impl version system_info model has_info =
     (if \<not> has_info then (CPKT_SUS_ERR_ARG, None)
      else case model of
        None \<Rightarrow> (CPKT_SUS_ERR_ARG,
                 Some \<lparr>info_backend_version = None, info_backend_system_info = None, info_cpu_only = False\<rparr>)
      | Some m \<Rightarrow> (CPKT_SUS_OK,
                 Some \<lparr>info_backend_version = Some version, info_backend_system_info = Some system_info,
                       info_cpu_only = mi_cpu_only m\<rparr>))"

definition cpkt_sus_reset_transcript_spacing_impl ::
    "cpkt_sus_model_impl option \<Rightarrow> cpkt_sus_result \<times> cpkt_sus_model_impl option" where
  "cpkt_sus_reset_transcript_spacing_impl model =
     (case model of
        None \<Rightarrow> (CPKT_SUS_ERR_ARG, None)
      | Some m \<Rightarrow> (CPKT_SUS_OK, Some (m\<lparr>mi_initial_space_seen := False\<rparr>)))"

section \<open>Frame facts\<close>

lemma sus_try_fields [simp]:
  "ss_files (snd (sus_try W s)) = ss_files s" "ss_log (snd (sus_try W s)) = ss_log s"
  "ss_events (snd (sus_try W s)) = ss_events s" "ss_downloads (snd (sus_try W s)) = ss_downloads s"
  "ss_loads (snd (sus_try W s)) = ss_loads s" "ss_contexts (snd (sus_try W s)) = ss_contexts s"
  by (simp_all add: sus_try_def)

lemma whisper_init_cases:
  assumes "whisper_init_from_file W p u s = (ctx, s')"
  obtains (loaded) c where "ctx = Some c" "ss_files s p = Some (Regular c)" "sw_loadable W c u"
      "s' = s\<lparr>ss_tick := Suc (ss_tick s), ss_loads := ss_loads s @ [(p, c)],
              ss_contexts := Suc (ss_contexts s)\<rparr>"
  | (refused) "ctx = None" "s' = s\<lparr>ss_tick := Suc (ss_tick s)\<rparr>"
  using assms
  by (auto simp: whisper_init_from_file_def sus_try_def split: option.splits if_splits file_node.splits)

text \<open>
  Opening a path touches neither files nor events nor downloads; it succeeds with the bytes of the
  file and one more live context, and otherwise leaves no context behind.
\<close>

lemma open_path_cases:
  assumes "cpkt_sus_open_path W out (Some cfg) s = (r, m, s')"
  obtains (opened) p c u mi where "r = CPKT_SUS_OK" "mc_model_path cfg = Some p" "p \<noteq> []"
      "ss_files s p = Some (Regular c)" "sw_loadable W c u" "m = Some mi" "mi_context mi = c"
      "ss_loads s' = ss_loads s @ [(p, c)]" "ss_contexts s' = Suc (ss_contexts s)"
      "ss_files s' = ss_files s" "ss_events s' = ss_events s" "ss_downloads s' = ss_downloads s"
  | (refused) "r \<in> {CPKT_SUS_ERR_ARG, CPKT_SUS_ERR_ALLOC, CPKT_SUS_ERR_MODEL}" "m = None"
      "ss_loads s' = ss_loads s" "ss_contexts s' = ss_contexts s"
      "ss_files s' = ss_files s" "ss_events s' = ss_events s" "ss_downloads s' = ss_downloads s"
proof (cases "\<not> out \<or> \<not> given (mc_model_path cfg) \<or> sw_fails W (ss_tick s) \<or> sw_fails W (Suc (ss_tick s))")
  case True
  with assms refused show ?thesis
    by (auto simp: cpkt_sus_open_path_def sus_try_def Let_def split: if_splits)
next
  case False
  then obtain p where p: "mc_model_path cfg = Some p" "p \<noteq> []"
    by (auto simp: given_def)
  define u where "u = (if mc_cpu_only cfg then False else sw_default_gpu W)"
  define s2 where "s2 = s\<lparr>ss_tick := Suc (Suc (ss_tick s)),
      ss_log := cpkt_sus_log_ensure_installed (ss_log s)\<rparr>"
  obtain ctx s3 where init: "whisper_init_from_file W p u s2 = (ctx, s3)"
    by (cases "whisper_init_from_file W p u s2")
  have eq: "(case ctx of None \<Rightarrow> (CPKT_SUS_ERR_MODEL, None, s3)
      | Some c \<Rightarrow> (CPKT_SUS_OK, Some \<lparr>mi_context = c, mi_use_gpu = u, mi_cpu_only = mc_cpu_only cfg,
          mi_preserve = mc_preserve_initial_space cfg, mi_initial_space_seen = False\<rparr>, s3)) = (r, m, s')"
    using False assms p init [unfolded s2_def] unfolding u_def
    by (simp add: cpkt_sus_open_path_def sus_try_def Let_def)
  from init show ?thesis
  proof (cases rule: whisper_init_cases)
    case (loaded c)
    then have "r = CPKT_SUS_OK" "s' = s3" "m = Some \<lparr>mi_context = c, mi_use_gpu = u,
        mi_cpu_only = mc_cpu_only cfg, mi_preserve = mc_preserve_initial_space cfg,
        mi_initial_space_seen = False\<rparr>"
      using eq by auto
    with loaded p show ?thesis
      by (intro opened [of p c u "the m"]) (simp_all add: s2_def)
  next
    case refused
    then have "r = CPKT_SUS_ERR_MODEL" "s' = s3" "m = None"
      using eq by auto
    with refused show ?thesis
      by (intro that(2)) (simp_all add: s2_def)
  qed
qed

end
