(* ===== verification/Sus_Files.thy ===== *)
theory Sus_Files
  imports Sus_Model
begin

text \<open>
  The cached-model resolver of \<^verbatim>\<open>src/sus.c\<close>: paths, status events, directories, temporary files,
  checksums, downloads, validation and \<open>cpkt_sus_open_cached\<close>; then what each step may change.

  Files are keyed by the path as written: two spellings of a path are two keys, and no other process
  changes them during a call.  A write is in the file when \<open>fwrite\<close> takes it; a flush or close that
  fails makes the download fail, as in the source.
\<close>

unbundle bit_operations_syntax

section \<open>Paths\<close>

text \<open>
  Functions of the file that are only called with non-NULL pointers take plain strings; their tests
  for the empty string are kept.  A string result that is allocated is an \<open>option\<close>.
\<close>

definition cpkt_sus_strdup_range :: "'c sus_world \<Rightarrow> string \<Rightarrow> nat \<Rightarrow> sus_state \<Rightarrow> string option \<times> sus_state" where
  "cpkt_sus_strdup_range W text len s =
     (let (ok, s) = sus_try W s in (if ok then Some (take len text) else None, s))"

definition cpkt_sus_join2 ::
    "'c sus_world \<Rightarrow> string \<Rightarrow> string \<Rightarrow> sus_state \<Rightarrow> cpkt_sus_result \<times> string \<times> sus_state" where
  "cpkt_sus_join2 W left right s =
     (if left = [] \<or> right = [] then (CPKT_SUS_ERR_ARG, [], s)
      else
        let left_len = length left; right_len = length right;
            needs_slash = (if left ! (left_len - 1) = CHR ''/'' then 0 else 1) in
        if left_len > sz_sub (sz_sub (sz_sub size_max needs_slash) right_len) 1
        then (CPKT_SUS_ERR_ALLOC, [], s)
        else
          let (ok, s) = sus_try W s in
          if \<not> ok then (CPKT_SUS_ERR_ALLOC, [], s)
          else (CPKT_SUS_OK, left @ (if needs_slash \<noteq> 0 then ''/'' else []) @ right, s))"

definition cpkt_sus_default_cache_dir ::
    "'c sus_world \<Rightarrow> sus_state \<Rightarrow> cpkt_sus_result \<times> string \<times> sus_state" where
  "cpkt_sus_default_cache_dir W s =
     (if given (sw_env W ''XDG_CACHE_HOME'')
      then cpkt_sus_join2 W (the (sw_env W ''XDG_CACHE_HOME'')) ''cpkt/susurro/models'' s
      else if \<not> given (sw_env W ''HOME'') then (CPKT_SUS_ERR_IO, [], s)
      else
        let (r, base, s) = cpkt_sus_join2 W (the (sw_env W ''HOME'')) ''.cache'' s in
        if r \<noteq> CPKT_SUS_OK then (r, [], s)
        else cpkt_sus_join2 W base ''cpkt/susurro/models'' s)"

record cpkt_sus_cache_config =
  cc_model :: "string option"
  cc_cache_dir :: "string option"
  cc_sha256 :: "string option"
  cc_source_url :: "string option"
  cc_insecure_no_checksum :: bool
  cc_offline :: bool
  cc_cpu_only :: bool
  cc_preserve_initial_space :: bool
  cc_status_sink :: "(cache_status_event list \<Rightarrow> cache_status_event \<Rightarrow> int) option"

definition cpkt_sus_cache_dir_from_config ::
    "'c sus_world \<Rightarrow> cpkt_sus_cache_config \<Rightarrow> sus_state \<Rightarrow> cpkt_sus_result \<times> string \<times> sus_state" where
  "cpkt_sus_cache_dir_from_config W config s =
     (if given (cc_cache_dir config) then
        let (copy, s) = cpkt_sus_strdup_range W (the (cc_cache_dir config))
              (length (the (cc_cache_dir config))) s in
        (case copy of None \<Rightarrow> (CPKT_SUS_ERR_ALLOC, [], s) | Some d \<Rightarrow> (CPKT_SUS_OK, d, s))
      else cpkt_sus_default_cache_dir W s)"

section \<open>Status events\<close>

text \<open>The sink sees the event and what it has received before, its own state being behind \<open>user\<close>.\<close>

definition cpkt_sus_emit_cache_status ::
    "cpkt_sus_cache_config \<Rightarrow> cache_phase \<Rightarrow> cpkt_sus_catalog_entry \<Rightarrow> string \<Rightarrow> string option \<Rightarrow>
     sus_state \<Rightarrow> cpkt_sus_result \<times> sus_state" where
  "cpkt_sus_emit_cache_status config phase e cache_path source_url s =
     (case cc_status_sink config of
        None \<Rightarrow> (CPKT_SUS_OK, s)
      | Some sink \<Rightarrow>
          let event = \<lparr>ev_phase = phase, ev_model = Some (ce_name e), ev_cache_path = cache_path,
                       ev_source_url = source_url\<rparr>;
              answer = sink (ss_events s) event;
              s = s\<lparr>ss_events := ss_events s @ [event]\<rparr>
          in (if answer \<noteq> 0 then CPKT_SUS_ERR_CALLBACK else CPKT_SUS_OK, s))"

section \<open>Files\<close>

definition cpkt_sus_file_exists :: "'c sus_world \<Rightarrow> string \<Rightarrow> sus_state \<Rightarrow> bool \<times> sus_state" where
  "cpkt_sus_file_exists W path s =
     (if path = [] then (False, s)
      else let (ok, s) = sus_try W s in
           (ok \<and> (case ss_files s path of Some (Regular _) \<Rightarrow> True | _ \<Rightarrow> False), s))"

text \<open>
  \<open>mkdir\<close> fails with EEXIST on any existing entry; every other reason to fail, a missing parent
  among them, is a failing call.
\<close>

datatype mkdir_outcome = Made | Exists | Failed

definition posix_mkdir :: "'c sus_world \<Rightarrow> string \<Rightarrow> sus_state \<Rightarrow> mkdir_outcome \<times> sus_state" where
  "posix_mkdir W path s =
     (let (ok, s) = sus_try W s in
      if \<not> ok then (Failed, s)
      else if ss_files s path \<noteq> None then (Exists, s)
      else (Made, s\<lparr>ss_files := (ss_files s)(path \<mapsto> Directory)\<rparr>))"

definition cpkt_sus_mkdir_one :: "'c sus_world \<Rightarrow> string \<Rightarrow> sus_state \<Rightarrow> cpkt_sus_result \<times> sus_state" where
  "cpkt_sus_mkdir_one W path s =
     (if path = [] then (CPKT_SUS_ERR_ARG, s)
      else
        let (m, s) = posix_mkdir W path s in
        case m of
          Made \<Rightarrow> (CPKT_SUS_OK, s)
        | Exists \<Rightarrow>
            (let (ok, s) = sus_try W s in
             (if ok \<and> ss_files s path = Some Directory then CPKT_SUS_OK else CPKT_SUS_ERR_IO, s))
        | Failed \<Rightarrow> (CPKT_SUS_ERR_IO, s))"

text \<open>
  The cursor loop: \<open>seen\<close> is the text before the cursor, to which the copy is cut while the
  separator under the cursor is replaced by NUL.
\<close>

fun mkdirs_loop ::
    "'c sus_world \<Rightarrow> string \<Rightarrow> string \<Rightarrow> sus_state \<Rightarrow> cpkt_sus_result \<times> sus_state" where
  "mkdirs_loop W seen [] s = (CPKT_SUS_OK, s)"
| "mkdirs_loop W seen (c # cs) s =
     (if c = CHR ''/'' \<and> seen \<noteq> [] then
        (let (r, s) = cpkt_sus_mkdir_one W seen s in
         if r \<noteq> CPKT_SUS_OK then (r, s) else mkdirs_loop W (seen @ [c]) cs s)
      else mkdirs_loop W (seen @ [c]) cs s)"

definition cpkt_sus_mkdirs :: "'c sus_world \<Rightarrow> string \<Rightarrow> sus_state \<Rightarrow> cpkt_sus_result \<times> sus_state" where
  "cpkt_sus_mkdirs W path s =
     (if path = [] then (CPKT_SUS_ERR_ARG, s)
      else
        let (copy, s) = cpkt_sus_strdup_range W path (length path) s in
        case copy of
          None \<Rightarrow> (CPKT_SUS_ERR_ALLOC, s)
        | Some copy \<Rightarrow>
            let skip = (if copy ! 0 = CHR ''/'' then 1 else 0);
                (r, s) = mkdirs_loop W (take skip copy) (drop skip copy) s
            in if r \<noteq> CPKT_SUS_OK then (r, s) else cpkt_sus_mkdir_one W copy s)"

definition posix_remove :: "'c sus_world \<Rightarrow> string \<Rightarrow> sus_state \<Rightarrow> sus_state" where
  "posix_remove W path s =
     (let (ok, s) = sus_try W s in
      if ok then s\<lparr>ss_files := (ss_files s)(path := None)\<rparr> else s)"

text \<open>\<open>mkstemp\<close> creates a new file, never opens an existing one; the world chooses the six characters.\<close>

definition posix_mkstemp :: "'c sus_world \<Rightarrow> string \<Rightarrow> sus_state \<Rightarrow> string option \<times> sus_state" where
  "posix_mkstemp W stem s =
     (let name = stem @ take 6 (sw_temp W (ss_tick s)); (ok, s) = sus_try W s in
      if ok \<and> ss_files s name = None
      then (Some name, s\<lparr>ss_files := (ss_files s)(name \<mapsto> Regular [])\<rparr>) else (None, s))"

text \<open>A \<open>FILE *\<close> on the temporary file is its path.\<close>

definition cpkt_sus_temp_path_for ::
    "'c sus_world \<Rightarrow> string \<Rightarrow> sus_state \<Rightarrow> cpkt_sus_result \<times> string \<times> sus_state" where
  "cpkt_sus_temp_path_for W model_path s =
     (if model_path = [] then (CPKT_SUS_ERR_ARG, [], s)
      else if length model_path > size_max - 12 then (CPKT_SUS_ERR_ALLOC, [], s)
      else
        let (ok, s) = sus_try W s in
        if \<not> ok then (CPKT_SUS_ERR_ALLOC, [], s)
        else let (fd, s) = posix_mkstemp W (model_path @ ''.tmp.'') s in
        case fd of
          None \<Rightarrow> (CPKT_SUS_ERR_IO, [], s)
        | Some temp_path \<Rightarrow>
            let (ok, s) = sus_try W s in
            if \<not> ok then (CPKT_SUS_ERR_IO, [], posix_remove W temp_path s)
            else (CPKT_SUS_OK, temp_path, s))"

section \<open>Checksums\<close>

definition hex_digits :: string where
  "hex_digits = ''0123456789abcdef''"

definition hex_byte :: "byte \<Rightarrow> string" where
  "hex_byte b = [hex_digits ! unat ((drop_bit 4 b) AND 0x0F), hex_digits ! unat (b AND 0x0F)]"

definition hex_encode :: "byte list \<Rightarrow> string" where
  "hex_encode digest = concat (map hex_byte digest)"

text \<open>
  \<open>fread\<close> of up to 32768 bytes.  A failing call delivers fewer than it was asked for and sets the
  error flag, which stays set.
\<close>

definition fread_chunk ::
    "'c sus_world \<Rightarrow> byte list \<Rightarrow> sus_state \<Rightarrow> nat \<times> bool \<times> sus_state" where
  "fread_chunk W rest s =
     (let n = min 32768 (length rest); short = sw_short W (ss_tick s); (ok, s) = sus_try W s in
      if ok then (n, False, s) else (min short n, True, s))"

function digest_loop ::
    "'c sus_world \<Rightarrow> 'c \<Rightarrow> byte list \<Rightarrow> bool \<Rightarrow> sus_state \<Rightarrow> ('c \<times> bool) option \<times> sus_state" where
  "digest_loop W ctx rest err s =
     (let (count, failed, s) = fread_chunk W rest s; err = (err \<or> failed) in
      if count > 0 then
        (case sw_md_update W ctx (take count rest) of
           None \<Rightarrow> (None, s)
         | Some ctx \<Rightarrow> digest_loop W ctx (drop count rest) err s)
      else (Some (ctx, err), s))"
  by pat_completeness auto
termination
  by (relation "measure (\<lambda>(W, ctx, rest, err, s). length rest)") (auto simp: fread_chunk_def Let_def sus_try_def split: if_splits)

declare digest_loop.simps [simp del]

text \<open>
  Opening a directory for reading succeeds and its first read fails: the result is ERR_IO as for a
  file that cannot be opened.
\<close>

definition cpkt_sus_sha256_file ::
    "'c sus_world \<Rightarrow> string \<Rightarrow> sus_state \<Rightarrow> cpkt_sus_result \<times> string \<times> sus_state" where
  "cpkt_sus_sha256_file W path s =
     (if path = [] then (CPKT_SUS_ERR_ARG, [], s)
      else
        let (ok, s) = sus_try W s in
        case ss_files s path of
          Some (Regular content) \<Rightarrow>
            if \<not> ok then (CPKT_SUS_ERR_IO, [], s)
            else let (ok, s) = sus_try W s in
            if \<not> ok then (CPKT_SUS_ERR_ALLOC, [], s)
            else (case sw_md_init W of
              None \<Rightarrow> (CPKT_SUS_ERR_UPSTREAM, [], s)
            | Some ctx \<Rightarrow>
                let (fed, s) = digest_loop W ctx content False s in
                case fed of
                  None \<Rightarrow> (CPKT_SUS_ERR_UPSTREAM, [], s)
                | Some (ctx, err) \<Rightarrow>
                    if err then (CPKT_SUS_ERR_IO, [], s)
                    else (case sw_md_final W ctx of
                      None \<Rightarrow> (CPKT_SUS_ERR_UPSTREAM, [], s)
                    | Some digest \<Rightarrow>
                        if length digest \<noteq> 32 then (CPKT_SUS_ERR_UPSTREAM, [], s)
                        else (CPKT_SUS_OK, hex_encode digest, s)))
        | _ \<Rightarrow> (CPKT_SUS_ERR_IO, [], s))"

definition cpkt_sus_validate_cached_file ::
    "'c sus_world \<Rightarrow> string \<Rightarrow> cpkt_sus_catalog_entry \<Rightarrow> cpkt_sus_cache_config \<Rightarrow> sus_state \<Rightarrow>
     cpkt_sus_result \<times> sus_state" where
  "cpkt_sus_validate_cached_file W path e config s =
     (if cc_insecure_no_checksum config then (CPKT_SUS_OK, s)
      else if given (cc_sha256 config) \<and> \<not> cpkt_sus_is_sha256_hex (cc_sha256 config)
      then (CPKT_SUS_ERR_ARG, s)
      else
        let expected = (if given (cc_sha256 config) then the (cc_sha256 config) else ce_sha256 e) in
        if \<not> cpkt_sus_is_sha256_hex (Some expected) then (CPKT_SUS_ERR_CHECKSUM, s)
        else
          let (r, actual, s) = cpkt_sus_sha256_file W path s in
          if r \<noteq> CPKT_SUS_OK then (r, s)
          else if actual \<noteq> expected then (CPKT_SUS_ERR_CHECKSUM, s)
          else (CPKT_SUS_OK, s))"

section \<open>Downloads\<close>

record cpkt_sus_download_sink =
  dl_file :: "string option"
  dl_failed :: bool

definition file_append :: "string \<Rightarrow> byte list \<Rightarrow> sus_state \<Rightarrow> sus_state" where
  "file_append path data s =
     (case ss_files s path of
        Some (Regular c) \<Rightarrow> s\<lparr>ss_files := (ss_files s)(path \<mapsto> Regular (c @ data))\<rparr>
      | _ \<Rightarrow> s)"

definition posix_fwrite :: "'c sus_world \<Rightarrow> string \<Rightarrow> byte list \<Rightarrow> sus_state \<Rightarrow> nat \<times> sus_state" where
  "posix_fwrite W path data s =
     (let short = sw_short W (ss_tick s); (ok, s) = sus_try W s;
          n = (if ok then length data else min short (length data - 1))
      in (n, file_append path (take n data) s))"

definition cpkt_sus_curl_write ::
    "'c sus_world \<Rightarrow> byte list \<Rightarrow> nat \<Rightarrow> nat \<Rightarrow> cpkt_sus_download_sink \<Rightarrow> sus_state \<Rightarrow>
     nat \<times> cpkt_sus_download_sink \<times> sus_state" where
  "cpkt_sus_curl_write W buffer sze nmemb sink s =
     (case dl_file sink of
        None \<Rightarrow> (0, sink, s)
      | Some file \<Rightarrow>
          if sze \<noteq> 0 \<and> nmemb > size_max div sze then (0, sink\<lparr>dl_failed := True\<rparr>, s)
          else
            let bytes = sze * nmemb;
                (written, s) = posix_fwrite W file (take bytes buffer) s
            in (written, if written \<noteq> bytes then sink\<lparr>dl_failed := True\<rparr> else sink, s))"

text \<open>
  libcurl hands the body to the write callback in pieces, with an element size of 1, and fails the
  transfer as soon as the callback takes fewer bytes than it was given.
\<close>

fun curl_deliver ::
    "'c sus_world \<Rightarrow> byte list list \<Rightarrow> bool \<Rightarrow> cpkt_sus_download_sink \<Rightarrow> sus_state \<Rightarrow>
     bool \<times> cpkt_sus_download_sink \<times> sus_state" where
  "curl_deliver W [] ok sink s = (ok, sink, s)"
| "curl_deliver W (c # cs) ok sink s =
     (let (n, sink, s) = cpkt_sus_curl_write W c 1 (length c) sink s in
      if n \<noteq> length c then (False, sink, s) else curl_deliver W cs ok sink s)"

definition curl_easy_perform ::
    "'c sus_world \<Rightarrow> string \<Rightarrow> cpkt_sus_download_sink \<Rightarrow> sus_state \<Rightarrow>
     bool \<times> cpkt_sus_download_sink \<times> sus_state" where
  "curl_easy_perform W url sink s =
     (let (chunks, ok) = sw_curl W (length (ss_downloads s)) url;
          s = s\<lparr>ss_downloads := ss_downloads s @ [url]\<rparr>
      in curl_deliver W chunks ok sink s)"

definition cpkt_sus_download_to_file ::
    "'c sus_world \<Rightarrow> string \<Rightarrow> string \<Rightarrow> sus_state \<Rightarrow> cpkt_sus_result \<times> sus_state" where
  "cpkt_sus_download_to_file W url file s =
     (if url = [] then (CPKT_SUS_ERR_ARG, s)
      else
        let (ok, s) = sus_try W s in
        if \<not> ok then (CPKT_SUS_ERR_NETWORK, s)
        else let (ok, s) = sus_try W s in
        if \<not> ok then (CPKT_SUS_ERR_NETWORK, s)
        else
          let (code, sink, s) = curl_easy_perform W url \<lparr>dl_file = Some file, dl_failed = False\<rparr> s;
              (flushed, s) = sus_try W s;
              (synced, s) = sus_try W s;
              failed = (dl_failed sink \<or> \<not> flushed \<or> \<not> synced)
          in (if \<not> code \<or> failed
              then (if code then CPKT_SUS_ERR_IO else CPKT_SUS_ERR_NETWORK)
              else CPKT_SUS_OK, s))"

section \<open>The resolver\<close>

definition cpkt_sus_verify_model_file ::
    "'c sus_world \<Rightarrow> string \<Rightarrow> cpkt_sus_cache_config \<Rightarrow> sus_state \<Rightarrow> cpkt_sus_result \<times> sus_state" where
  "cpkt_sus_verify_model_file W path config s =
     (let (r, model, s) = cpkt_sus_open_path W True
            (Some \<lparr>mc_model_path = Some path, mc_cpu_only = cc_cpu_only config,
                   mc_preserve_initial_space = cc_preserve_initial_space config\<rparr>) s
      in (r, case model of Some m \<Rightarrow> cpkt_sus_destroy_impl (Some m) s | None \<Rightarrow> s))"

definition cpkt_sus_open_validated_cached_file ::
    "'c sus_world \<Rightarrow> string \<Rightarrow> cpkt_sus_catalog_entry \<Rightarrow> cpkt_sus_cache_config \<Rightarrow> sus_state \<Rightarrow>
     cpkt_sus_result \<times> cpkt_sus_model_impl option \<times> sus_state" where
  "cpkt_sus_open_validated_cached_file W path e config s =
     (let (r, s) = cpkt_sus_validate_cached_file W path e config s in
      if r \<noteq> CPKT_SUS_OK then (r, None, s)
      else let (r, s) = cpkt_sus_emit_cache_status config CPKT_SUS_CACHE_STATUS_LOAD_BEGIN e path None s in
      if r \<noteq> CPKT_SUS_OK then (r, None, s)
      else cpkt_sus_open_path W True
             (Some \<lparr>mc_model_path = Some path, mc_cpu_only = cc_cpu_only config,
                    mc_preserve_initial_space = cc_preserve_initial_space config\<rparr>) s)"

definition posix_rename :: "'c sus_world \<Rightarrow> string \<Rightarrow> string \<Rightarrow> sus_state \<Rightarrow> bool \<times> sus_state" where
  "posix_rename W old new s =
     (let (ok, s) = sus_try W s in
      if ok \<and> ss_files s old \<noteq> None \<and> ss_files s new \<noteq> Some Directory
      then (True, s\<lparr>ss_files := (ss_files s)(new := ss_files s old, old := None)\<rparr>)
      else (False, s))"

text \<open>The chain of \<open>if (result == CPKT_SUS_OK)\<close> steps.\<close>

definition and_then ::
    "cpkt_sus_result \<times> sus_state \<Rightarrow> (sus_state \<Rightarrow> cpkt_sus_result \<times> sus_state) \<Rightarrow> cpkt_sus_result \<times> sus_state" where
  "and_then rs f = (if fst rs = CPKT_SUS_OK then f (snd rs) else rs)"

definition cpkt_sus_fetch_cached_file ::
    "'c sus_world \<Rightarrow> string \<Rightarrow> string \<Rightarrow> cpkt_sus_catalog_entry \<Rightarrow> cpkt_sus_cache_config \<Rightarrow> sus_state \<Rightarrow>
     cpkt_sus_result \<times> sus_state" where
  "cpkt_sus_fetch_cached_file W model_path cache_dir e config s =
     (if cc_offline config then (CPKT_SUS_ERR_IO, s)
      else
        let (r, s) = cpkt_sus_mkdirs W cache_dir s in
        if r \<noteq> CPKT_SUS_OK then (r, s)
        else let (r, temp_path, s) = cpkt_sus_temp_path_for W model_path s in
        if r \<noteq> CPKT_SUS_OK then (r, s)
        else
          let url = (if given (cc_source_url config) then the (cc_source_url config) else ce_url e);
              (r, s) = cpkt_sus_emit_cache_status config CPKT_SUS_CACHE_STATUS_DOWNLOAD_BEGIN e model_path
                         (Some url) s
          in
          if r \<noteq> CPKT_SUS_OK then
            (r, posix_remove W temp_path (snd (sus_try W s)))
          else
            let (r, s) = cpkt_sus_download_to_file W url temp_path s;
                (closed, s) = sus_try W s;
                r = (if \<not> closed \<and> r = CPKT_SUS_OK then CPKT_SUS_ERR_IO else r);
                (r, s) = and_then (r, s) (cpkt_sus_emit_cache_status config
                           CPKT_SUS_CACHE_STATUS_DOWNLOAD_COMPLETE e model_path (Some url));
                (r, s) = and_then (r, s) (cpkt_sus_emit_cache_status config
                           CPKT_SUS_CACHE_STATUS_VERIFY_BEGIN e model_path None);
                (r, s) = and_then (r, s) (cpkt_sus_validate_cached_file W temp_path e config);
                (r, s) = and_then (r, s) (cpkt_sus_verify_model_file W temp_path config);
                (r, s) = and_then (r, s) (cpkt_sus_emit_cache_status config
                           CPKT_SUS_CACHE_STATUS_VERIFY_COMPLETE e model_path None);
                (r, s) = and_then (r, s) (\<lambda>s.
                           let (ok, s) = posix_rename W temp_path model_path s in
                           (if ok then CPKT_SUS_OK else CPKT_SUS_ERR_IO, s))
            in if r \<noteq> CPKT_SUS_OK then (r, posix_remove W temp_path s) else (r, s))"

definition cpkt_sus_open_cached ::
    "'c sus_world \<Rightarrow> bool \<Rightarrow> cpkt_sus_cache_config option \<Rightarrow> sus_state \<Rightarrow>
     cpkt_sus_result \<times> cpkt_sus_model_impl option \<times> sus_state" where
  "cpkt_sus_open_cached W has_out config s =
     (case config of
        None \<Rightarrow> (CPKT_SUS_ERR_ARG, None, s)
      | Some cfg \<Rightarrow>
        if \<not> has_out then (CPKT_SUS_ERR_ARG, None, s)
        else if given (cc_sha256 cfg) \<and> \<not> cpkt_sus_is_sha256_hex (cc_sha256 cfg)
        then (CPKT_SUS_ERR_ARG, None, s)
        else case cpkt_sus_find_catalog_entry (cc_model cfg) of
          None \<Rightarrow> (CPKT_SUS_ERR_LOOKUP, None, s)
        | Some e \<Rightarrow>
          let (r, cache_dir, s) = cpkt_sus_cache_dir_from_config W cfg s in
          if r \<noteq> CPKT_SUS_OK then (r, None, s)
          else let (r, model_path, s) = cpkt_sus_join2 W cache_dir (ce_filename e) s in
          if r \<noteq> CPKT_SUS_OK then (r, None, s)
          else let (r, s) = cpkt_sus_emit_cache_status cfg CPKT_SUS_CACHE_STATUS_LOOKUP e model_path None s in
          if r \<noteq> CPKT_SUS_OK then (r, None, s)
          else let (there, s) = cpkt_sus_file_exists W model_path s in
          if \<not> there then
            let (r, s) = cpkt_sus_emit_cache_status cfg CPKT_SUS_CACHE_STATUS_MISS e model_path None s in
            if r \<noteq> CPKT_SUS_OK then (r, None, s)
            else let (r, s) = cpkt_sus_fetch_cached_file W model_path cache_dir e cfg s in
            if r \<noteq> CPKT_SUS_OK then (r, None, s)
            else cpkt_sus_open_validated_cached_file W model_path e cfg s
          else
            let (r, s) = cpkt_sus_emit_cache_status cfg CPKT_SUS_CACHE_STATUS_HIT e model_path None s in
            if r \<noteq> CPKT_SUS_OK then (r, None, s)
            else let (r, out, s) = cpkt_sus_open_validated_cached_file W model_path e cfg s in
            if r \<in> {CPKT_SUS_ERR_CHECKSUM, CPKT_SUS_ERR_MODEL} \<and> \<not> cc_offline cfg then
              let (r, s) = cpkt_sus_fetch_cached_file W model_path cache_dir e cfg s in
              if r \<noteq> CPKT_SUS_OK then (r, out, s)
              else if out = None then cpkt_sus_open_validated_cached_file W model_path e cfg s
              else (r, out, s)
            else if r \<noteq> CPKT_SUS_OK then (r, out, s)
            else if out = None then cpkt_sus_open_validated_cached_file W model_path e cfg s
            else (r, out, s))"

section \<open>Hexadecimal digests\<close>

text \<open>The inverse of the encoding, to state that no two digests share a text.\<close>

definition hex_value :: "char \<Rightarrow> byte" where
  "hex_value c = (if (of_char c :: nat) \<le> 57 then of_nat (of_char c - 48) else of_nat (of_char c - 87))"

fun hex_decode :: "string \<Rightarrow> byte list" where
  "hex_decode (h # l # cs) = (push_bit 4 (hex_value h) OR hex_value l) # hex_decode cs"
| "hex_decode _ = []"

lemma nibble_range:
  "n < 16 \<Longrightarrow> sha_digit (hex_digits ! n) \<and> hex_value (hex_digits ! n) = of_nat n"
proof -
  have "\<forall>n \<in> set [0..<16]. sha_digit (hex_digits ! n) \<and> hex_value (hex_digits ! n) = of_nat n"
    by (simp add: upt_rec hex_digits_def sha_digit_def hex_value_def)
  then show "n < 16 \<Longrightarrow> ?thesis" by simp
qed

lemma nibble_lt: "unat (x AND 0x0F :: byte) < 16"
proof -
  have "x AND 0x0F \<le> (0x0F :: byte)"
    by (rule word_and_le1)
  then have "unat (x AND 0x0F) \<le> unat (0x0F :: byte)"
    by (simp only: word_le_nat_alt)
  then show ?thesis by simp
qed

lemma nibble_join: "push_bit 4 (drop_bit 4 b AND 0x0F) OR (b AND 0x0F) = (b :: byte)"
proof -
  have mask: "x AND 0x0F = take_bit 4 x" for x :: byte
    by (simp add: take_bit_eq_mask mask_eq_exp_minus_1)
  have "push_bit 4 (take_bit 4 (drop_bit 4 b)) OR take_bit 4 b = b"
    by (rule bit_word_eqI) (auto simp: bit_simps)
  then show ?thesis
    unfolding mask .
qed

lemma hex_byte_decode: "hex_decode (hex_byte b @ cs) = b # hex_decode cs"
  using nibble_join [of b] by (simp add: hex_byte_def nibble_range nibble_lt)

lemma hex_decode_encode: "hex_decode (hex_encode d) = d"
  by (induction d) (simp_all add: hex_encode_def hex_byte_decode)

lemma hex_encode_valid: "length d = 32 \<Longrightarrow> cpkt_sus_is_sha256_hex (Some (hex_encode d))"
proof -
  have "length (hex_encode d) = 2 * length d \<and> list_all sha_digit (hex_encode d)" for d
    by (induction d) (simp_all add: hex_encode_def hex_byte_def nibble_range nibble_lt)
  then show "length d = 32 \<Longrightarrow> ?thesis" by simp
qed

section \<open>The digest of a file\<close>

text \<open>
  What the resolver relies on of the digest library: however the message is cut into updates, the
  final value is the digest of the whole message.
\<close>

fun md_feed :: "'c sus_world \<Rightarrow> 'c \<Rightarrow> byte list list \<Rightarrow> 'c option" where
  "md_feed W ctx [] = Some ctx"
| "md_feed W ctx (m # ms) =
     (case sw_md_update W ctx m of None \<Rightarrow> None | Some ctx' \<Rightarrow> md_feed W ctx' ms)"

definition digest_is :: "'c sus_world \<Rightarrow> (byte list \<Rightarrow> byte list) \<Rightarrow> bool" where
  "digest_is W sha \<longleftrightarrow>
     (\<forall>ms c0 c d. sw_md_init W = Some c0 \<and> md_feed W c0 ms = Some c \<and> sw_md_final W c = Some d \<longrightarrow>
        d = sha (concat ms))"

definition tick_only :: "sus_state \<Rightarrow> sus_state \<Rightarrow> bool" where
  "tick_only s s' \<longleftrightarrow> (\<exists>t. s' = s\<lparr>ss_tick := t\<rparr>)"

lemma tick_only_refl [simp]: "tick_only s s"
  unfolding tick_only_def by (rule exI [of _ "ss_tick s"]) simp

lemma tick_only_trans: "tick_only s s' \<Longrightarrow> tick_only s' s'' \<Longrightarrow> tick_only s s''"
  unfolding tick_only_def by auto

lemma tick_only_upd [simp]: "tick_only s (s\<lparr>ss_tick := t\<rparr>)"
  unfolding tick_only_def by blast

lemma tick_only_try [simp]: "tick_only s (snd (sus_try W s))"
  by (simp add: sus_try_def)

lemma tick_only_fields:
  assumes "tick_only s s'"
  shows "ss_files s' = ss_files s" "ss_log s' = ss_log s" "ss_events s' = ss_events s"
    "ss_downloads s' = ss_downloads s" "ss_loads s' = ss_loads s" "ss_contexts s' = ss_contexts s"
  using assms unfolding tick_only_def by auto

lemma digest_loop_run:
  assumes "digest_loop W ctx rest err s = (res, s')"
  shows "tick_only s s' \<and>
    (\<forall>ctx'. res = Some (ctx', False) \<longrightarrow> (\<exists>ms. concat ms = rest \<and> md_feed W ctx ms = Some ctx'))"
  using assms
proof (induction W ctx rest err s rule: digest_loop.induct)
  case (1 W ctx rest err s)
  obtain count failed s1 where f: "fread_chunk W rest s = (count, failed, s1)"
    by (cases "fread_chunk W rest s") auto
  have t1: "tick_only s s1"
    using f by (auto simp: fread_chunk_def Let_def sus_try_def split: if_splits)
  have full: "\<not> failed \<Longrightarrow> count = min 32768 (length rest)"
    using f by (auto simp: fread_chunk_def Let_def sus_try_def split: if_splits)
  show ?case
  proof (cases "count > 0")
    case False
    then have "res = Some (ctx, err \<or> failed)" "s' = s1"
      using "1.prems" f by (auto simp: digest_loop.simps [of W ctx rest err s])
    moreover have "concat [] = rest" if "\<not> failed"
      using full [OF that] False by simp
    ultimately show ?thesis
      using t1 by (auto intro: exI [of _ "[]"])
  next
    case True
    show ?thesis
    proof (cases "sw_md_update W ctx (take count rest)")
      case None
      then show ?thesis
        using "1.prems" f True t1 by (auto simp: digest_loop.simps [of W ctx rest err s])
    next
      case (Some ctx1)
      have rec: "digest_loop W ctx1 (drop count rest) (err \<or> failed) s1 = (res, s')"
        using "1.prems" f True Some by (simp add: digest_loop.simps [of W ctx rest err s])
      from "1.IH" [OF f [symmetric] refl refl refl True Some rec] show ?thesis
        using t1 Some by (metis append_take_drop_id concat.simps(2) md_feed.simps(2)
            option.simps(5) tick_only_trans)
    qed
  qed
qed

lemma sha256_file_run:
  assumes "cpkt_sus_sha256_file W path s = (r, hex, s')"
  shows "tick_only s s' \<and>
    (r = CPKT_SUS_OK \<longrightarrow> (\<exists>c d ms c0 ctx. ss_files s path = Some (Regular c) \<and>
       sw_md_init W = Some c0 \<and> md_feed W c0 ms = Some ctx \<and> concat ms = c \<and>
       sw_md_final W ctx = Some d \<and> length d = 32 \<and> hex = hex_encode d))"
proof (cases "path = [] \<or> sw_fails W (ss_tick s) \<or> sw_fails W (Suc (ss_tick s)) \<or>
    sw_md_init W = None \<or> (\<nexists>c. ss_files s path = Some (Regular c))")
  case True
  then show ?thesis
    using assms by (auto simp: cpkt_sus_sha256_file_def sus_try_def Let_def
        split: option.splits file_node.splits if_splits)
next
  case False
  then obtain c0 c where c: "sw_md_init W = Some c0" "ss_files s path = Some (Regular c)"
    by auto
  define s2 where "s2 = s\<lparr>ss_tick := Suc (Suc (ss_tick s))\<rparr>"
  obtain res s3 where loop: "digest_loop W c0 c False s2 = (res, s3)"
    by (cases "digest_loop W c0 c False s2")
  have t: "tick_only s s3"
    using digest_loop_run [OF loop] tick_only_trans [OF tick_only_upd] by (auto simp: s2_def)
  show ?thesis
  proof (cases "\<exists>ctx. res = Some (ctx, False)")
    case True
    then obtain ctx where ctx: "res = Some (ctx, False)" by blast
    then obtain ms where ms: "concat ms = c" "md_feed W c0 ms = Some ctx"
      using digest_loop_run [OF loop] by blast
    show ?thesis
      using assms False c loop ctx t ms
      by (auto simp: cpkt_sus_sha256_file_def sus_try_def Let_def s2_def [symmetric]
          split: option.splits if_splits)
  next
    case False2: False
    then show ?thesis
      using assms False c loop t
      by (auto simp: cpkt_sus_sha256_file_def sus_try_def Let_def s2_def [symmetric]
          split: option.splits if_splits prod.splits)
  qed
qed

definition expected_sha256 :: "cpkt_sus_catalog_entry \<Rightarrow> cpkt_sus_cache_config \<Rightarrow> string" where
  "expected_sha256 e cfg = (if given (cc_sha256 cfg) then the (cc_sha256 cfg) else ce_sha256 e)"

text \<open>
  Contents the resolver accepts: unless checks are off, their digest is the expected one.  The
  digest function is \<open>sha\<close>; \<open>digest_is\<close> ties it to the library.
\<close>

definition checked :: "(byte list \<Rightarrow> byte list) \<Rightarrow> cpkt_sus_catalog_entry \<Rightarrow> cpkt_sus_cache_config \<Rightarrow> byte list \<Rightarrow> bool" where
  "checked sha e cfg c \<longleftrightarrow>
     cc_insecure_no_checksum cfg \<or> (length (sha c) = 32 \<and> hex_encode (sha c) = expected_sha256 e cfg)"

lemma validate_run:
  assumes "cpkt_sus_validate_cached_file W path e cfg s = (r, s')" "digest_is W sha"
  shows "tick_only s s' \<and>
    (r = CPKT_SUS_OK \<and> \<not> cc_insecure_no_checksum cfg \<longrightarrow>
       (\<exists>c. ss_files s path = Some (Regular c) \<and> checked sha e cfg c))"
proof (cases "cc_insecure_no_checksum cfg \<or> given (cc_sha256 cfg) \<and> \<not> cpkt_sus_is_sha256_hex (cc_sha256 cfg) \<or>
    \<not> cpkt_sus_is_sha256_hex (Some (expected_sha256 e cfg))")
  case True
  then show ?thesis
    using assms(1)
    by (auto simp: cpkt_sus_validate_cached_file_def Let_def expected_sha256_def [symmetric]
        simp del: cpkt_sus_is_sha256_hex.simps split: if_splits)
next
  case False
  obtain r1 hex s1 where sha: "cpkt_sus_sha256_file W path s = (r1, hex, s1)"
    by (cases "cpkt_sus_sha256_file W path s") auto
  have eq: "s' = s1" "r = CPKT_SUS_OK \<Longrightarrow> r1 = CPKT_SUS_OK \<and> hex = expected_sha256 e cfg"
    using assms(1) False sha
    by (auto simp: cpkt_sus_validate_cached_file_def Let_def expected_sha256_def [symmetric]
        simp del: cpkt_sus_is_sha256_hex.simps split: if_splits)
  have "\<exists>c. ss_files s path = Some (Regular c) \<and> checked sha e cfg c" if ok: "r = CPKT_SUS_OK"
  proof -
    obtain c d ms c0 ctx where *: "ss_files s path = Some (Regular c)"
        "sw_md_init W = Some c0" "md_feed W c0 ms = Some ctx" "concat ms = c"
        "sw_md_final W ctx = Some d" "length d = 32" "hex = hex_encode d"
      using sha256_file_run [OF sha] eq(2) [OF ok] by blast
    then have "d = sha c"
      using assms(2) unfolding digest_is_def by blast
    with * eq(2) [OF ok] show ?thesis
      by (auto simp: checked_def)
  qed
  then show ?thesis
    using sha256_file_run [OF sha] eq(1) by blast
qed

section \<open>What each step may change\<close>

text \<open>\<open>touches P s s'\<close>: files change at most where \<open>P\<close> allows, contexts and downloads do not change.\<close>

definition file_frame :: "(string \<Rightarrow> bool) \<Rightarrow> sus_state \<Rightarrow> sus_state \<Rightarrow> bool" where
  "file_frame P s s' \<longleftrightarrow> (\<forall>p. \<not> P p \<longrightarrow> ss_files s' p = ss_files s p)"

lemma file_frame_refl [simp]: "file_frame P s s"
  by (simp add: file_frame_def)

lemma file_frame_trans: "file_frame P s s' \<Longrightarrow> file_frame P s' s'' \<Longrightarrow> file_frame P s s''"
  by (simp add: file_frame_def)

lemma file_frame_same: "ss_files s' = ss_files s \<Longrightarrow> file_frame P s s'"
  by (simp add: file_frame_def)

lemma emit_run:
  assumes "cpkt_sus_emit_cache_status cfg ph e p u s = (r, s')"
  shows "(\<exists>evs. s' = s\<lparr>ss_events := ss_events s @ evs\<rparr> \<and>
      map ev_phase evs = (if cc_status_sink cfg = None then [] else [ph])) \<and>
    r \<in> {CPKT_SUS_OK, CPKT_SUS_ERR_CALLBACK}"
proof (cases "cc_status_sink cfg")
  case None
  then show ?thesis
    using assms by (auto simp: cpkt_sus_emit_cache_status_def intro: exI [of _ "[]"])
next
  case (Some sink)
  then show ?thesis
    using assms by (auto simp: cpkt_sus_emit_cache_status_def Let_def split: if_splits)
qed

lemma emit_fields:
  assumes "cpkt_sus_emit_cache_status cfg ph e p u s = (r, s')"
  shows "ss_files s' = ss_files s" "ss_downloads s' = ss_downloads s" "ss_loads s' = ss_loads s"
    "ss_contexts s' = ss_contexts s" "ss_tick s' = ss_tick s"
    "map ev_phase (ss_events s') =
      map ev_phase (ss_events s) @ (if cc_status_sink cfg = None then [] else [ph])"
    "r \<in> {CPKT_SUS_OK, CPKT_SUS_ERR_CALLBACK}"
  using emit_run [OF assms] by auto

lemma join2_run:
  assumes "cpkt_sus_join2 W l r s = (res, p, s')"
  shows "tick_only s s' \<and>
    (res = CPKT_SUS_OK \<longrightarrow> l \<noteq> [] \<and> r \<noteq> [] \<and> p = l @ (if last l = CHR ''/'' then [] else ''/'') @ r)"
proof (cases "l = [] \<or> r = []")
  case False
  then have "l ! (length l - 1) = last l"
    by (simp add: last_conv_nth)
  with False assms show ?thesis
    by (auto simp: cpkt_sus_join2_def Let_def sus_try_def split: if_splits)
qed (use assms in \<open>auto simp: cpkt_sus_join2_def\<close>)

lemma default_cache_dir_run:
  assumes "cpkt_sus_default_cache_dir W s = (r, d, s')"
  shows "tick_only s s'"
proof (cases "given (sw_env W ''XDG_CACHE_HOME'') \<or> \<not> given (sw_env W ''HOME'')")
  case True
  then show ?thesis
    using assms by (auto simp: cpkt_sus_default_cache_dir_def dest: join2_run split: if_splits)
next
  case False
  obtain r1 base s1 where j: "cpkt_sus_join2 W (the (sw_env W ''HOME'')) ''.cache'' s = (r1, base, s1)"
    by (cases "cpkt_sus_join2 W (the (sw_env W ''HOME'')) ''.cache'' s") auto
  show ?thesis
    using assms False j join2_run [OF j] tick_only_trans
    by (auto simp: cpkt_sus_default_cache_dir_def dest!: join2_run split: if_splits)
qed

lemma cache_dir_run:
  assumes "cpkt_sus_cache_dir_from_config W cfg s = (r, d, s')"
  shows "tick_only s s'"
  using assms default_cache_dir_run
  by (auto simp: cpkt_sus_cache_dir_from_config_def cpkt_sus_strdup_range_def sus_try_def
      split: if_splits)

lemma file_exists_run:
  assumes "cpkt_sus_file_exists W p s = (b, s')"
  shows "tick_only s s' \<and> (b \<longrightarrow> (\<exists>c. ss_files s p = Some (Regular c)))"
  using assms by (auto simp: cpkt_sus_file_exists_def sus_try_def split: if_splits option.splits file_node.splits)

text \<open>Directories are only added, and only where nothing was.\<close>

definition dirs_added :: "sus_state \<Rightarrow> sus_state \<Rightarrow> bool" where
  "dirs_added s s' \<longleftrightarrow>
     (\<forall>p. ss_files s' p = ss_files s p \<or> ss_files s p = None \<and> ss_files s' p = Some Directory) \<and>
     ss_events s' = ss_events s \<and> ss_downloads s' = ss_downloads s \<and> ss_loads s' = ss_loads s \<and>
     ss_contexts s' = ss_contexts s"

lemma dirs_added_trans: "dirs_added s s' \<Longrightarrow> dirs_added s' s'' \<Longrightarrow> dirs_added s s''"
  unfolding dirs_added_def by (metis option.distinct(1))

lemma tick_only_dirs: "tick_only s s' \<Longrightarrow> dirs_added s s'"
  by (simp add: dirs_added_def tick_only_fields)

lemma mkdir_one_run:
  assumes "cpkt_sus_mkdir_one W p s = (r, s')"
  shows "dirs_added s s' \<and> (r = CPKT_SUS_OK \<longrightarrow> ss_files s' p = Some Directory)"
  using assms
  by (auto simp: cpkt_sus_mkdir_one_def posix_mkdir_def sus_try_def Let_def dirs_added_def
      split: if_splits mkdir_outcome.splits)

lemma dirs_added_keeps:
  "dirs_added s s' \<Longrightarrow> ss_files s p = Some Directory \<Longrightarrow> ss_files s' p = Some Directory"
  unfolding dirs_added_def by (metis option.distinct(1))

lemma mkdirs_loop_run:
  assumes "mkdirs_loop W seen rest s = (r, s')"
  shows "dirs_added s s' \<and>
    (r = CPKT_SUS_OK \<longrightarrow> (\<forall>p x. rest = p @ CHR ''/'' # x \<and> seen @ p \<noteq> [] \<longrightarrow>
       ss_files s' (seen @ p) = Some Directory))"
  using assms
proof (induction W seen rest s rule: mkdirs_loop.induct)
  case (1 W seen s)
  then show ?case by (simp add: tick_only_dirs)
next
  case (2 W seen c cs s)
  have shift: "c # cs = p @ CHR ''/'' # x \<longleftrightarrow>
      (p = [] \<and> c = CHR ''/'' \<and> x = cs) \<or> (\<exists>q. p = c # q \<and> cs = q @ CHR ''/'' # x)" for p x
    by (cases p) auto
  show ?case
  proof (cases "c = CHR ''/'' \<and> seen \<noteq> []")
    case False
    then show ?thesis
      using "2.IH"(2) "2.prems" by (simp add: shift) force
  next
    case True
    obtain r1 s1 where m: "cpkt_sus_mkdir_one W seen s = (r1, s1)"
      by (cases "cpkt_sus_mkdir_one W seen s")
    show ?thesis
    proof (cases "r1 = CPKT_SUS_OK")
      case False
      then show ?thesis
        using "2.prems" True m mkdir_one_run [OF m] by simp
    next
      case ok: True
      then have rec: "mkdirs_loop W (seen @ [c]) cs s1 = (r, s')"
        using "2.prems" True m by simp
      have ih: "dirs_added s1 s'" "r = CPKT_SUS_OK \<Longrightarrow> \<forall>p x. cs = p @ CHR ''/'' # x \<longrightarrow>
          ss_files s' (seen @ c # p) = Some Directory"
        using "2.IH"(1) [OF True m [symmetric] refl _ rec] ok by auto
      have "ss_files s' seen = Some Directory"
        using mkdir_one_run [OF m] ok dirs_added_keeps [OF ih(1)] by simp
      then show ?thesis
        using ih mkdir_one_run [OF m] dirs_added_trans by (auto simp: shift)
    qed
  qed
qed

lemma mkdirs_run:
  assumes "cpkt_sus_mkdirs W path s = (r, s')"
  shows "dirs_added s s' \<and>
    (r = CPKT_SUS_OK \<longrightarrow> ss_files s' path = Some Directory \<and>
      (\<forall>p x. path = p @ CHR ''/'' # x \<and> p \<noteq> [] \<longrightarrow> ss_files s' p = Some Directory))"
proof (cases "path = [] \<or> sw_fails W (ss_tick s)")
  case True
  then show ?thesis
    using assms by (auto simp: cpkt_sus_mkdirs_def cpkt_sus_strdup_range_def sus_try_def
        tick_only_dirs split: if_splits)
next
  case False
  define k :: nat where "k = (if path ! 0 = CHR ''/'' then 1 else 0)"
  define s1 where "s1 = s\<lparr>ss_tick := Suc (ss_tick s)\<rparr>"
  obtain r2 s2 where loop: "mkdirs_loop W (take k path) (drop k path) s1 = (r2, s2)"
    by (cases "mkdirs_loop W (take k path) (drop k path) s1")
  have run: "(if r2 \<noteq> CPKT_SUS_OK then (r2, s2) else cpkt_sus_mkdir_one W path s2) = (r, s')"
    using assms False loop
    by (simp add: cpkt_sus_mkdirs_def cpkt_sus_strdup_range_def sus_try_def s1_def k_def split: if_splits)
  have d1: "dirs_added s s2"
    using mkdirs_loop_run [OF loop] dirs_added_trans [OF tick_only_dirs [OF tick_only_upd]]
    unfolding s1_def by blast
  show ?thesis
  proof (cases "r2 = CPKT_SUS_OK")
    case False
    with run d1 show ?thesis by auto
  next
    case True
    then have one: "cpkt_sus_mkdir_one W path s2 = (r, s')"
      using run by simp
    have "ss_files s2 p = Some Directory" if "path = p @ CHR ''/'' # x" "p \<noteq> []" for p x
    proof -
      have "k \<le> length p"
        using that by (auto simp: k_def Suc_le_eq)
      then have "take k path @ drop k p = p" "drop k path = drop k p @ CHR ''/'' # x"
        using that(1) by simp_all
      with mkdirs_loop_run [OF loop] True that(2) show ?thesis
        by metis
    qed
    then show ?thesis
      using mkdir_one_run [OF one] d1 dirs_added_trans dirs_added_keeps by blast
  qed
qed

definition temp_name :: "string \<Rightarrow> string \<Rightarrow> bool" where
  "temp_name model p \<longleftrightarrow> (\<exists>x. p = model @ ''.tmp.'' @ x)"

lemma temp_name_other [simp]: "\<not> temp_name p p"
  by (simp add: temp_name_def)

text \<open>What a step on the temporary file leaves alone.\<close>

definition only_file :: "string \<Rightarrow> sus_state \<Rightarrow> sus_state \<Rightarrow> bool" where
  "only_file f s s' \<longleftrightarrow>
     (\<forall>p. p \<noteq> f \<longrightarrow> ss_files s' p = ss_files s p) \<and> ss_contexts s' = ss_contexts s"

lemma only_file_refl [simp]: "only_file f s s"
  by (simp add: only_file_def)

lemma only_file_trans: "only_file f s s' \<Longrightarrow> only_file f s' s'' \<Longrightarrow> only_file f s s''"
  by (simp add: only_file_def)

lemma only_file_tick: "tick_only s s' \<Longrightarrow> only_file f s s'"
  by (simp add: only_file_def tick_only_fields)

lemma remove_run:
  "only_file f s (posix_remove W f s)"
  "ss_events (posix_remove W f s) = ss_events s" "ss_downloads (posix_remove W f s) = ss_downloads s"
  "ss_loads (posix_remove W f s) = ss_loads s"
  "\<not> sw_fails W (ss_tick s) \<Longrightarrow> ss_files (posix_remove W f s) f = None"
  by (auto simp: posix_remove_def sus_try_def only_file_def)

lemma temp_path_run:
  assumes "cpkt_sus_temp_path_for W model s = (r, f, s')"
  shows "ss_events s' = ss_events s \<and> ss_downloads s' = ss_downloads s \<and> ss_loads s' = ss_loads s \<and>
    ss_contexts s' = ss_contexts s \<and>
    (if r = CPKT_SUS_OK then temp_name model f \<and> ss_files s f = None \<and>
       ss_files s' = (ss_files s)(f \<mapsto> Regular [])
     else ss_files s' = ss_files s \<or>
       (\<exists>f n. temp_name model f \<and> sw_fails W n \<and> ss_files s' = (ss_files s)(f \<mapsto> Regular [])))"
proof (cases "model = [] \<or> length model > size_max - 12 \<or> sw_fails W (ss_tick s)")
  case True
  then show ?thesis
    using assms by (auto simp: cpkt_sus_temp_path_for_def sus_try_def Let_def split: if_splits)
next
  case False
  define s1 where "s1 = s\<lparr>ss_tick := Suc (ss_tick s)\<rparr>"
  define x where "x = take 6 (sw_temp W (Suc (ss_tick s)))"
  define g where "g = model @ ''.tmp.'' @ x"
  have temp: "temp_name model g"
    by (auto simp: temp_name_def g_def)
  show ?thesis
  proof (cases "sw_fails W (Suc (ss_tick s)) \<or> ss_files s g \<noteq> None")
    case True
    then show ?thesis
      using assms False by (auto simp: cpkt_sus_temp_path_for_def posix_mkstemp_def sus_try_def Let_def
          g_def x_def)
  next
    case free: False
    define s2 where "s2 = s\<lparr>ss_files := (ss_files s)(g \<mapsto> Regular []), ss_tick := Suc (Suc (Suc (ss_tick s)))\<rparr>"
    have eq: "(if sw_fails W (Suc (Suc (ss_tick s))) then (CPKT_SUS_ERR_IO, [], posix_remove W g s2)
        else (CPKT_SUS_OK, g, s2)) = (r, f, s')"
      using assms False free
      by (auto simp: cpkt_sus_temp_path_for_def posix_mkstemp_def sus_try_def Let_def g_def x_def s2_def
          split: if_splits)
    show ?thesis
    proof (cases "sw_fails W (Suc (Suc (ss_tick s)))")
      case True
      then have "s' = posix_remove W g s2" "r = CPKT_SUS_ERR_IO"
        using eq by auto
      then show ?thesis
        using True temp free by (auto simp: posix_remove_def sus_try_def s2_def fun_upd_idem)
    next
      case ok: False
      then show ?thesis
        using eq temp free by (auto simp: s2_def)
    qed
  qed
qed

section \<open>Downloads write the file they are given\<close>

lemma file_append_fields [simp]:
  "ss_tick (file_append f d s) = ss_tick s" "ss_events (file_append f d s) = ss_events s"
  "ss_downloads (file_append f d s) = ss_downloads s" "ss_loads (file_append f d s) = ss_loads s"
  "ss_contexts (file_append f d s) = ss_contexts s"
  "p \<noteq> f \<Longrightarrow> ss_files (file_append f d s) p = ss_files s p"
  "ss_files s f = Some (Regular c) \<Longrightarrow> ss_files (file_append f d s) f = Some (Regular (c @ d))"
  by (auto simp: file_append_def split: option.splits file_node.splits)

lemma curl_write_run:
  assumes "cpkt_sus_curl_write W buf 1 (length buf) sink s = (n, sink', s')" "dl_file sink = Some f"
  shows "dl_file sink' = Some f \<and> only_file f s s' \<and> ss_events s' = ss_events s \<and>
    ss_downloads s' = ss_downloads s \<and> ss_loads s' = ss_loads s \<and>
    (ss_files s f = Some (Regular c) \<and> n = length buf \<longrightarrow>
      ss_files s' f = Some (Regular (c @ buf))) \<and>
    (\<not> sw_fails W (ss_tick s) \<and> length buf \<le> size_max \<longrightarrow> n = length buf \<and> sink' = sink)"
proof (cases "length buf > size_max")
  case True
  then show ?thesis
    using assms by (auto simp: cpkt_sus_curl_write_def)
next
  case False
  have short: "min k (length buf - Suc 0) = length buf \<Longrightarrow> buf = []" for k
    by (cases buf) auto
  from False show ?thesis
    using assms
    by (auto dest: short simp: cpkt_sus_curl_write_def posix_fwrite_def sus_try_def Let_def only_file_def
        split: if_splits)
qed

lemma curl_deliver_run:
  assumes "curl_deliver W cs ok sink s = (code, sink', s')" "dl_file sink = Some f"
  shows "only_file f s s' \<and> ss_events s' = ss_events s \<and> ss_downloads s' = ss_downloads s \<and>
    ss_loads s' = ss_loads s \<and>
    (\<forall>c. ss_files s f = Some (Regular c) \<and> code \<longrightarrow>
      ok \<and> ss_files s' f = Some (Regular (c @ concat cs))) \<and>
    ((\<forall>n. \<not> sw_fails W n) \<and> (\<forall>b\<in>set cs. length b \<le> size_max) \<longrightarrow> code = ok \<and> sink' = sink)"
  using assms
proof (induction W cs ok sink s rule: curl_deliver.induct)
  case (2 W b cs ok sink s)
  obtain n sink1 s1 where w: "cpkt_sus_curl_write W b 1 (length b) sink s = (n, sink1, s1)"
    by (cases "cpkt_sus_curl_write W b 1 (length b) sink s") auto
  note run = curl_write_run [OF w "2.prems"(2)]
  show ?case
  proof (cases "n = length b")
    case False
    then have "code = False" "s' = s1"
      using "2.prems"(1) w by auto
    with run False show ?thesis by auto
  next
    case True
    then have rec: "curl_deliver W cs ok sink1 s1 = (code, sink', s')"
      using "2.prems"(1) w by simp
    have ih: "only_file f s1 s'" "ss_events s' = ss_events s1" "ss_downloads s' = ss_downloads s1"
        "ss_loads s' = ss_loads s1"
        "\<And>c. ss_files s1 f = Some (Regular c) \<Longrightarrow> code \<Longrightarrow>
          ok \<and> ss_files s' f = Some (Regular (c @ concat cs))"
        "(\<forall>n. \<not> sw_fails W n) \<Longrightarrow> (\<forall>b\<in>set cs. length b \<le> size_max) \<Longrightarrow> code = ok \<and> sink' = sink1"
      using "2.IH" [OF w [symmetric] refl refl _ rec] True run by auto
    have "only_file f s s'"
      using run ih(1) only_file_trans by blast
    moreover have "ok \<and> ss_files s' f = Some (Regular (c @ concat (b # cs)))"
      if "ss_files s f = Some (Regular c)" code for c
      using ih(5) [of "c @ b"] curl_write_run [OF w "2.prems"(2), of c] that True by simp
    ultimately show ?thesis
      using run ih(2-4,6) True by auto
  qed
qed simp

lemma download_run:
  assumes "cpkt_sus_download_to_file W url f s = (r, s')"
  shows "only_file f s s' \<and> ss_events s' = ss_events s \<and> ss_loads s' = ss_loads s \<and>
    ss_downloads s' \<in> {ss_downloads s, ss_downloads s @ [url]} \<and>
    (\<forall>c chunks ok. sw_curl W (length (ss_downloads s)) url = (chunks, ok) \<and>
       ss_files s f = Some (Regular c) \<and> r = CPKT_SUS_OK \<longrightarrow>
       ok \<and> ss_files s' f = Some (Regular (c @ concat chunks))) \<and>
    (\<forall>chunks. (\<forall>n. \<not> sw_fails W n) \<and> url \<noteq> [] \<and>
       sw_curl W (length (ss_downloads s)) url = (chunks, True) \<and>
       (\<forall>b\<in>set chunks. length b \<le> size_max) \<longrightarrow> r = CPKT_SUS_OK)"
proof (cases "url = [] \<or> sw_fails W (ss_tick s) \<or> sw_fails W (Suc (ss_tick s))")
  case True
  then show ?thesis
    using assms by (auto simp: cpkt_sus_download_to_file_def sus_try_def only_file_def Let_def split: if_splits)
next
  case False
  obtain chunks ok where ch: "sw_curl W (length (ss_downloads s)) url = (chunks, ok)"
    by (cases "sw_curl W (length (ss_downloads s)) url")
  define s2 where "s2 = s\<lparr>ss_tick := Suc (Suc (ss_tick s)), ss_downloads := ss_downloads s @ [url]\<rparr>"
  obtain code sink s3 where d: "curl_deliver W chunks ok \<lparr>dl_file = Some f, dl_failed = False\<rparr> s2 = (code, sink, s3)"
    by (cases "curl_deliver W chunks ok \<lparr>dl_file = Some f, dl_failed = False\<rparr> s2") auto
  have eq: "s' = s3\<lparr>ss_tick := Suc (Suc (ss_tick s3))\<rparr>"
      "r = (if \<not> code \<or> dl_failed sink \<or> sw_fails W (ss_tick s3) \<or> sw_fails W (Suc (ss_tick s3))
            then (if code then CPKT_SUS_ERR_IO else CPKT_SUS_ERR_NETWORK) else CPKT_SUS_OK)"
    using assms False ch d
    by (auto simp: cpkt_sus_download_to_file_def curl_easy_perform_def sus_try_def Let_def s2_def)
  note run = curl_deliver_run [OF d, of f, simplified]
  show ?thesis
    using run eq ch unfolding s2_def by (auto simp: only_file_def split: if_splits)
qed

end
