(* ===== verification/Sus_Cache.thy ===== *)
theory Sus_Cache
  imports Sus_Files
begin

text \<open>
  What the resolver guarantees.  Every branch of \<open>cpkt_sus_open_cached\<close> satisfies \<open>resolved\<close>, which
  bounds the changes to files, events, downloads and contexts; the properties are read off it.  The
  last section runs the resolver forward: a fetch that meets no obstacle succeeds.
\<close>

section \<open>Verification and loading\<close>

definition sunk :: "cpkt_sus_cache_config \<Rightarrow> cache_phase list \<Rightarrow> cache_phase list" where
  "sunk cfg phs = (if cc_status_sink cfg = None then [] else phs)"

abbreviation phases :: "sus_state \<Rightarrow> cache_phase list" where
  "phases s \<equiv> map ev_phase (ss_events s)"

lemma sunk_append: "sunk cfg (xs @ ys) = sunk cfg xs @ sunk cfg ys"
  by (simp add: sunk_def)

lemma sunk_Nil [simp]: "sunk cfg [] = []"
  by (simp add: sunk_def)

lemma emit_phases:
  "cpkt_sus_emit_cache_status cfg ph e p u s = (r, s') \<Longrightarrow> phases s' = phases s @ sunk cfg [ph]"
  using emit_fields(6) [of cfg ph e p u s r s'] by (simp add: sunk_def)

lemma verify_run:
  assumes "cpkt_sus_verify_model_file W p cfg s = (r, s')"
  shows "ss_files s' = ss_files s \<and> ss_events s' = ss_events s \<and> ss_downloads s' = ss_downloads s \<and>
    ss_contexts s' = ss_contexts s \<and>
    (r = CPKT_SUS_OK \<longrightarrow> (\<exists>c u. ss_files s p = Some (Regular c) \<and> sw_loadable W c u))"
proof -
  define mc where "mc = \<lparr>mc_model_path = Some p, mc_cpu_only = cc_cpu_only cfg,
      mc_preserve_initial_space = cc_preserve_initial_space cfg\<rparr>"
  obtain r1 m s1 where o: "cpkt_sus_open_path W True (Some mc) s = (r1, m, s1)"
    by (cases "cpkt_sus_open_path W True (Some mc) s") auto
  have eq: "r = r1" "s' = (case m of Some x \<Rightarrow> cpkt_sus_destroy_impl (Some x) s1 | None \<Rightarrow> s1)"
    using assms o by (auto simp: cpkt_sus_verify_model_file_def mc_def Let_def)
  from o show ?thesis
  proof (cases rule: open_path_cases)
    case (opened q c u mi)
    with eq show ?thesis
      by (auto simp: cpkt_sus_destroy_impl_def mc_def)
  next
    case refused
    with eq show ?thesis
      by auto
  qed
qed

lemma open_validated_run:
  assumes "cpkt_sus_open_validated_cached_file W p e cfg s = (r, m, s')" "digest_is W sha"
  shows "ss_files s' = ss_files s \<and> ss_downloads s' = ss_downloads s \<and>
    (if r = CPKT_SUS_OK
     then phases s' = phases s @ sunk cfg [CPKT_SUS_CACHE_STATUS_LOAD_BEGIN] \<and>
       ss_contexts s' = Suc (ss_contexts s) \<and>
       (\<exists>c u mi. ss_files s p = Some (Regular c) \<and> checked sha e cfg c \<and> sw_loadable W c u \<and>
         m = Some mi \<and> mi_context mi = c)
     else phases s' \<in> {phases s, phases s @ sunk cfg [CPKT_SUS_CACHE_STATUS_LOAD_BEGIN]} \<and>
       ss_contexts s' = ss_contexts s \<and> m = None)"
proof -
  define mc where "mc = \<lparr>mc_model_path = Some p, mc_cpu_only = cc_cpu_only cfg,
      mc_preserve_initial_space = cc_preserve_initial_space cfg\<rparr>"
  obtain r1 s1 where v: "cpkt_sus_validate_cached_file W p e cfg s = (r1, s1)"
    by (cases "cpkt_sus_validate_cached_file W p e cfg s")
  note val = validate_run [OF v assms(2)]
  note same = tick_only_fields [OF conjunct1 [OF val]]
  show ?thesis
  proof (cases "r1 = CPKT_SUS_OK")
    case False
    then show ?thesis
      using assms(1) v same by (auto simp: cpkt_sus_open_validated_cached_file_def)
  next
    case True
    obtain r2 s2 where em: "cpkt_sus_emit_cache_status cfg CPKT_SUS_CACHE_STATUS_LOAD_BEGIN e p None s1 = (r2, s2)"
      by (cases "cpkt_sus_emit_cache_status cfg CPKT_SUS_CACHE_STATUS_LOAD_BEGIN e p None s1")
    note emf = emit_fields(1-4) [OF em] emit_phases [OF em]
    show ?thesis
    proof (cases "r2 = CPKT_SUS_OK")
      case False
      then show ?thesis
        using assms(1) v True em emf same by (auto simp: cpkt_sus_open_validated_cached_file_def)
    next
      case ok2: True
      have o: "cpkt_sus_open_path W True (Some mc) s2 = (r, m, s')"
        using assms(1) v True em ok2 by (simp add: cpkt_sus_open_validated_cached_file_def mc_def)
      from o show ?thesis
      proof (cases rule: open_path_cases)
        case (opened q c u mi)
        then have "ss_files s p = Some (Regular c)"
          using emf(1) same(1) by (simp add: mc_def)
        moreover from this val True have "checked sha e cfg c"
          by (cases "cc_insecure_no_checksum cfg") (auto simp: checked_def)
        ultimately show ?thesis
          using opened emf same by auto
      next
        case refused
        then show ?thesis
          using emf same by auto
      qed
    qed
  qed
qed

section \<open>Fetching\<close>

definition fetch_phases :: "cache_phase list" where
  "fetch_phases = [CPKT_SUS_CACHE_STATUS_DOWNLOAD_BEGIN, CPKT_SUS_CACHE_STATUS_DOWNLOAD_COMPLETE,
     CPKT_SUS_CACHE_STATUS_VERIFY_BEGIN, CPKT_SUS_CACHE_STATUS_VERIFY_COMPLETE]"

text \<open>
  The state of a fetch after the temporary file \<open>f\<close> has been made from state \<open>s0\<close>: nothing but \<open>f\<close>
  changed, and the first events of a fetch were emitted, exactly \<open>n\<close> of them if nothing failed.
\<close>

definition fetching ::
    "cpkt_sus_cache_config \<Rightarrow> string \<Rightarrow> sus_state \<Rightarrow> nat \<Rightarrow> cpkt_sus_result \<Rightarrow> sus_state \<Rightarrow> bool" where
  "fetching cfg f s0 n r s \<longleftrightarrow> only_file f s0 s \<and>
     (\<exists>k. phases s = phases s0 @ sunk cfg (take k fetch_phases) \<and> (r = CPKT_SUS_OK \<longrightarrow> k = n))"

lemma fetching_quiet:
  assumes "fetching cfg f s0 n r s" "and_then (r, s) g = (r', s')"
    and "\<And>q t. g s = (q, t) \<Longrightarrow> only_file f s t \<and> ss_events t = ss_events s"
  shows "fetching cfg f s0 n r' s'"
proof (cases "r = CPKT_SUS_OK")
  case True
  then have "g s = (r', s')"
    using assms(2) by (simp add: and_then_def)
  with assms(1,3) True show ?thesis
    unfolding fetching_def by (metis only_file_trans)
qed (use assms in \<open>auto simp: and_then_def\<close>)

lemma fetching_emit:
  assumes "fetching cfg f s0 n r s" "and_then (r, s) (cpkt_sus_emit_cache_status cfg ph e p u) = (r', s')"
    and "n < length fetch_phases" "fetch_phases ! n = ph"
  shows "fetching cfg f s0 (Suc n) r' s'"
proof (cases "r = CPKT_SUS_OK")
  case True
  then have em: "cpkt_sus_emit_cache_status cfg ph e p u s = (r', s')"
    using assms(2) by (simp add: and_then_def)
  have "phases s = phases s0 @ sunk cfg (take n fetch_phases)" "only_file f s0 s"
    using assms(1) True unfolding fetching_def by auto
  moreover have "only_file f s s'"
    using emit_fields(1,4) [OF em] by (simp add: only_file_def)
  ultimately show ?thesis
    unfolding fetching_def using emit_phases [OF em] assms(3,4) only_file_trans
    by (auto intro!: exI [of _ "Suc n"] simp: take_Suc_conv_app_nth sunk_append)
qed (use assms in \<open>auto simp: and_then_def fetching_def\<close>)

text \<open>
  The change the resolver may make to the files: directories where nothing was; the published model,
  checked and loaded; and a temporary file left over, only when a call to the system failed.
\<close>

definition cache_change ::
    "'c sus_world \<Rightarrow> (byte list \<Rightarrow> byte list) \<Rightarrow> cpkt_sus_catalog_entry \<Rightarrow> cpkt_sus_cache_config \<Rightarrow> string \<Rightarrow>
     sus_state \<Rightarrow> sus_state \<Rightarrow> bool" where
  "cache_change W sha e cfg model s s' \<longleftrightarrow>
     (\<forall>p. ss_files s' p = ss_files s p \<or>
          (ss_files s p = None \<and> ss_files s' p = Some Directory) \<or>
          (temp_name model p \<and> (\<exists>n. sw_fails W n)) \<or>
          (p = model \<and> (\<exists>c u. ss_files s' p = Some (Regular c) \<and> checked sha e cfg c \<and> sw_loadable W c u)))"

lemma cache_change_refl: "ss_files s' = ss_files s \<Longrightarrow> cache_change W sha e cfg model s s'"
  by (simp add: cache_change_def)

lemma cache_change_frame:
  "cache_change W sha e cfg model s s' \<Longrightarrow> ss_files t = ss_files s \<Longrightarrow> ss_files t' = ss_files s' \<Longrightarrow>
    cache_change W sha e cfg model t t'"
  by (simp add: cache_change_def)

lemma cache_change_dirs:
  assumes "dirs_added s s1"
    and "\<And>p. ss_files t p = ss_files s1 p \<or> (temp_name model p \<and> (\<exists>n. sw_fails W n))"
  shows "cache_change W sha e cfg model s t"
  unfolding cache_change_def
proof
  fix p
  show "ss_files t p = ss_files s p \<or> (ss_files s p = None \<and> ss_files t p = Some Directory) \<or>
      (temp_name model p \<and> (\<exists>n. sw_fails W n)) \<or>
      (p = model \<and> (\<exists>c u. ss_files t p = Some (Regular c) \<and> checked sha e cfg c \<and> sw_loadable W c u))"
    using assms(1) assms(2) [of p] unfolding dirs_added_def by metis
qed

text \<open>A fetch that gives up removes the temporary file \<open>f\<close>, new in \<open>s1\<close>.\<close>

lemma cache_change_removed:
  assumes "dirs_added s s1" "ss_files s1 f = None" "temp_name model f"
    and "\<And>p. p \<noteq> f \<Longrightarrow> ss_files t p = ss_files s1 p"
  shows "cache_change W sha e cfg model s (posix_remove W f t)"
proof (rule cache_change_dirs [OF assms(1)])
  fix p
  show "ss_files (posix_remove W f t) p = ss_files s1 p \<or> (temp_name model p \<and> (\<exists>n. sw_fails W n))"
    using assms(2-4) remove_run(1) [of f t W] remove_run(5) [of W t f]
    by (cases "p = f") (auto simp: only_file_def)
qed

lemma fetch_published:
  assumes "dirs_added s s1" "ss_files s1 f = None" "temp_name model f"
    and "\<forall>p. p \<noteq> f \<longrightarrow> ss_files t p = ss_files s1 p"
    and "ss_files t f = Some (Regular c)" "checked sha e cfg c" "sw_loadable W c u"
    and "ss_files t' = (ss_files t)(model := ss_files t f, f := None)"
  shows "cache_change W sha e cfg model s t'"
proof -
  have "model \<noteq> f"
    using assms(3) by auto
  with assms show ?thesis
    unfolding cache_change_def dirs_added_def by (metis fun_upd_apply)
qed

text \<open>The steps after the temporary file \<open>f\<close> was made and the download announced.\<close>

definition fetch_body ::
    "'c sus_world \<Rightarrow> string \<Rightarrow> string \<Rightarrow> string \<Rightarrow> cpkt_sus_catalog_entry \<Rightarrow> cpkt_sus_cache_config \<Rightarrow> sus_state \<Rightarrow>
     cpkt_sus_result \<times> sus_state" where
  "fetch_body W url f model e cfg s =
     (let (r, s) = cpkt_sus_download_to_file W url f s;
          (closed, s) = sus_try W s;
          r = (if \<not> closed \<and> r = CPKT_SUS_OK then CPKT_SUS_ERR_IO else r);
          (r, s) = and_then (r, s) (cpkt_sus_emit_cache_status cfg
                     CPKT_SUS_CACHE_STATUS_DOWNLOAD_COMPLETE e model (Some url));
          (r, s) = and_then (r, s) (cpkt_sus_emit_cache_status cfg
                     CPKT_SUS_CACHE_STATUS_VERIFY_BEGIN e model None);
          (r, s) = and_then (r, s) (cpkt_sus_validate_cached_file W f e cfg);
          (r, s) = and_then (r, s) (cpkt_sus_verify_model_file W f cfg)
      in and_then (r, s) (cpkt_sus_emit_cache_status cfg
                     CPKT_SUS_CACHE_STATUS_VERIFY_COMPLETE e model None))"

lemma fetch_body_run:
  assumes "fetch_body W url f model e cfg s = (r, s')" "digest_is W sha"
    and start: "fetching cfg f s0 1 CPKT_SUS_OK s"
  shows "fetching cfg f s0 4 r s' \<and>
    (r = CPKT_SUS_OK \<longrightarrow> (\<exists>c u. ss_files s' f = Some (Regular c) \<and> checked sha e cfg c \<and> sw_loadable W c u))"
proof -
  obtain q1 t1 where d: "cpkt_sus_download_to_file W url f s = (q1, t1)"
    by (cases "cpkt_sus_download_to_file W url f s")
  define t2 where "t2 = t1\<lparr>ss_tick := Suc (ss_tick t1)\<rparr>"
  define q2 where "q2 = (if sw_fails W (ss_tick t1) \<and> q1 = CPKT_SUS_OK then CPKT_SUS_ERR_IO else q1)"
  obtain q3 t3 where e3: "and_then (q2, t2) (cpkt_sus_emit_cache_status cfg
      CPKT_SUS_CACHE_STATUS_DOWNLOAD_COMPLETE e model (Some url)) = (q3, t3)" by fastforce
  obtain q4 t4 where e4: "and_then (q3, t3) (cpkt_sus_emit_cache_status cfg
      CPKT_SUS_CACHE_STATUS_VERIFY_BEGIN e model None) = (q4, t4)" by fastforce
  obtain q5 t5 where e5: "and_then (q4, t4) (cpkt_sus_validate_cached_file W f e cfg) = (q5, t5)"
    by fastforce
  obtain q6 t6 where e6: "and_then (q5, t5) (cpkt_sus_verify_model_file W f cfg) = (q6, t6)"
    by fastforce
  have e7: "and_then (q6, t6) (cpkt_sus_emit_cache_status cfg
      CPKT_SUS_CACHE_STATUS_VERIFY_COMPLETE e model None) = (r, s')"
    using assms(1) d e3 e4 e5 e6
    by (simp add: fetch_body_def sus_try_def t2_def q2_def Let_def)
  have "fetching cfg f s0 1 q2 t2"
    using start download_run [OF d] only_file_trans [of f s0 s t1]
    unfolding fetching_def t2_def by (auto simp: only_file_def)
  then have "fetching cfg f s0 2 q3 t3"
    using fetching_emit [OF _ e3] by (simp add: fetch_phases_def numeral_2_eq_2)
  then have "fetching cfg f s0 3 q4 t4"
    using fetching_emit [OF _ e4] by (simp add: fetch_phases_def numeral_3_eq_3 numeral_2_eq_2)
  then have "fetching cfg f s0 3 q5 t5"
    by (rule fetching_quiet [OF _ e5])
      (use validate_run [OF _ assms(2)] only_file_tick tick_only_fields(3) in blast)
  then have "fetching cfg f s0 3 q6 t6"
    by (rule fetching_quiet [OF _ e6]) (auto dest: verify_run simp: only_file_def)
  then have "fetching cfg f s0 4 r s'"
    using fetching_emit [OF _ e7] by (simp add: fetch_phases_def numeral_3_eq_3 eval_nat_numeral)
  moreover have "\<exists>c u. ss_files s' f = Some (Regular c) \<and> checked sha e cfg c \<and> sw_loadable W c u"
    if ok: "r = CPKT_SUS_OK"
  proof -
    have q6: "q6 = CPKT_SUS_OK"
      using e7 ok by (auto simp: and_then_def split: if_splits)
    then have q5: "q5 = CPKT_SUS_OK"
      using e6 by (auto simp: and_then_def split: if_splits)
    then have q4: "q4 = CPKT_SUS_OK"
      using e5 by (auto simp: and_then_def split: if_splits)
    have v: "cpkt_sus_validate_cached_file W f e cfg t4 = (q5, t5)"
      and w: "cpkt_sus_verify_model_file W f cfg t5 = (q6, t6)"
      and x: "cpkt_sus_emit_cache_status cfg CPKT_SUS_CACHE_STATUS_VERIFY_COMPLETE e model None t6 = (r, s')"
      using e5 e6 e7 q4 q5 q6 by (simp_all add: and_then_def)
    obtain c u where cu: "ss_files t5 f = Some (Regular c)" "sw_loadable W c u"
      using verify_run [OF w] q6 by blast
    have files: "ss_files s' = ss_files t5" "ss_files t5 = ss_files t4"
      using verify_run [OF w] emit_fields(1) [OF x] tick_only_fields(1) validate_run [OF v assms(2)] by auto
    have "checked sha e cfg c"
      using validate_run [OF v assms(2)] q5 cu(1) files(2)
      by (cases "cc_insecure_no_checksum cfg") (auto simp: checked_def)
    with cu files(1) show ?thesis by auto
  qed
  ultimately show ?thesis by blast
qed

lemma fetch_via_body:
  assumes "\<not> cc_offline cfg" "cpkt_sus_mkdirs W dir s = (CPKT_SUS_OK, s1)"
    and "cpkt_sus_temp_path_for W model s1 = (CPKT_SUS_OK, f, s2)"
    and "url = (if given (cc_source_url cfg) then the (cc_source_url cfg) else ce_url e)"
    and "cpkt_sus_emit_cache_status cfg CPKT_SUS_CACHE_STATUS_DOWNLOAD_BEGIN e model (Some url) s2 =
      (CPKT_SUS_OK, s3)"
    and "fetch_body W url f model e cfg s3 = (r4, s4)"
    and "and_then (r4, s4) (\<lambda>s. let (ok, s) = posix_rename W f model s in
      (if ok then CPKT_SUS_OK else CPKT_SUS_ERR_IO, s)) = (r5, s5)"
  shows "cpkt_sus_fetch_cached_file W model dir e cfg s =
    (if r5 \<noteq> CPKT_SUS_OK then (r5, posix_remove W f s5) else (r5, s5))"
proof -
  obtain q1 t1 where d: "cpkt_sus_download_to_file W url f s3 = (q1, t1)" by fastforce
  obtain closed t2 where c: "sus_try W t1 = (closed, t2)" by fastforce
  define q2 where "q2 = (if \<not> closed \<and> q1 = CPKT_SUS_OK then CPKT_SUS_ERR_IO else q1)"
  obtain q3 t3 where e3: "and_then (q2, t2) (cpkt_sus_emit_cache_status cfg
      CPKT_SUS_CACHE_STATUS_DOWNLOAD_COMPLETE e model (Some url)) = (q3, t3)" by fastforce
  obtain q4 t4 where e4: "and_then (q3, t3) (cpkt_sus_emit_cache_status cfg
      CPKT_SUS_CACHE_STATUS_VERIFY_BEGIN e model None) = (q4, t4)" by fastforce
  obtain q5 t5 where e5: "and_then (q4, t4) (cpkt_sus_validate_cached_file W f e cfg) = (q5, t5)"
    by fastforce
  obtain q6 t6 where e6: "and_then (q5, t5) (cpkt_sus_verify_model_file W f cfg) = (q6, t6)"
    by fastforce
  have e7: "and_then (q6, t6) (cpkt_sus_emit_cache_status cfg
      CPKT_SUS_CACHE_STATUS_VERIFY_COMPLETE e model None) = (r4, s4)"
    using assms(6) d c e3 e4 e5 e6 by (simp add: fetch_body_def q2_def Let_def)
  show ?thesis
    using assms(1-3,5,7) d c e3 e4 e5 e6 e7
    by (simp add: cpkt_sus_fetch_cached_file_def assms(4) [symmetric] q2_def [symmetric] Let_def)
qed

lemma fetch_end:
  assumes "dirs_added s s1" "temp_name model f" "ss_files s1 f = None"
    and "ss_files s2 = (ss_files s1)(f \<mapsto> Regular [])"
    and "ss_events s2 = ss_events s" "ss_contexts s2 = ss_contexts s"
    and body: "fetching cfg f s2 4 r4 s4 \<and> (r4 = CPKT_SUS_OK \<longrightarrow>
      (\<exists>c u. ss_files s4 f = Some (Regular c) \<and> checked sha e cfg c \<and> sw_loadable W c u))"
    and rn: "and_then (r4, s4) (\<lambda>s. let (ok, s) = posix_rename W f model s in
            (if ok then CPKT_SUS_OK else CPKT_SUS_ERR_IO, s)) = (r5, s5)"
    and eq: "(r, s') = (if r5 \<noteq> CPKT_SUS_OK then (r5, posix_remove W f s5) else (r5, s5))"
  shows "cache_change W sha e cfg model s s' \<and> ss_contexts s' = ss_contexts s \<and>
    (\<exists>k. phases s' = phases s @ sunk cfg (take k fetch_phases) \<and> (r = CPKT_SUS_OK \<longrightarrow> k = 4))"
proof -
  obtain k where k: "phases s4 = phases s @ sunk cfg (take k fetch_phases)" "r4 = CPKT_SUS_OK \<Longrightarrow> k = 4"
    using body assms(5) by (auto simp: fetching_def)
  have only: "\<And>p. p \<noteq> f \<Longrightarrow> ss_files s4 p = ss_files s1 p" "ss_contexts s4 = ss_contexts s"
    using body assms(4,6) by (auto simp: fetching_def only_file_def)
  have s5: "ss_events s5 = ss_events s4" "ss_contexts s5 = ss_contexts s4"
    "r5 \<noteq> CPKT_SUS_OK \<Longrightarrow> ss_files s5 = ss_files s4"
    "r5 = CPKT_SUS_OK \<Longrightarrow> r4 = CPKT_SUS_OK \<and> ss_files s5 = (ss_files s4)(model := ss_files s4 f, f := None)"
    using rn by (auto simp: and_then_def posix_rename_def sus_try_def Let_def split: if_splits)
  show ?thesis
  proof (cases "r5 = CPKT_SUS_OK")
    case False
    then have "cache_change W sha e cfg model s (posix_remove W f s5)"
      by (intro cache_change_removed [OF assms(1,3,2)]) (simp add: s5 only)
    with False eq show ?thesis
      using remove_run(1) [of f s5 W] remove_run(2) [of W f s5] s5 only k(1) by (auto simp: only_file_def)
  next
    case True
    obtain c u where cu: "ss_files s4 f = Some (Regular c)" "checked sha e cfg c" "sw_loadable W c u"
      using body s5(4) [OF True] by blast
    have "cache_change W sha e cfg model s s5"
      using fetch_published [OF assms(1,3,2) _ cu conjunct2 [OF s5(4) [OF True]]] only(1) by blast
    with True eq show ?thesis
      using s5 only k by auto
  qed
qed

lemma fetch_run:
  assumes "cpkt_sus_fetch_cached_file W model dir e cfg s = (r, s')" "digest_is W sha"
  shows "cache_change W sha e cfg model s s' \<and> ss_contexts s' = ss_contexts s \<and>
    (cc_offline cfg \<longrightarrow> s' = s \<and> r = CPKT_SUS_ERR_IO) \<and>
    (\<exists>k. phases s' = phases s @ sunk cfg (take k fetch_phases) \<and> (r = CPKT_SUS_OK \<longrightarrow> k = 4))"
proof (cases "cc_offline cfg")
  case True
  then have "s' = s" "r = CPKT_SUS_ERR_IO"
    using assms(1) by (auto simp: cpkt_sus_fetch_cached_file_def)
  then show ?thesis
    by (auto simp: cache_change_refl intro: exI [of _ 0])
next
  case online: False
  obtain r1 s1 where d: "cpkt_sus_mkdirs W dir s = (r1, s1)"
    by (cases "cpkt_sus_mkdirs W dir s")
  have dirs: "dirs_added s s1"
    using mkdirs_run [OF d] by blast
  have same1: "ss_events s1 = ss_events s" "ss_contexts s1 = ss_contexts s"
    using dirs by (auto simp: dirs_added_def)
  show ?thesis
  proof (cases "r1 = CPKT_SUS_OK")
    case False
    then have "s' = s1" "r \<noteq> CPKT_SUS_OK"
      using assms(1) online d by (auto simp: cpkt_sus_fetch_cached_file_def)
    moreover have "cache_change W sha e cfg model s s1"
      using dirs by (auto simp: cache_change_def dirs_added_def)
    ultimately show ?thesis
      using same1 online by (auto intro: exI [of _ 0])
  next
    case ok1: True
    obtain r2 f s2 where tp: "cpkt_sus_temp_path_for W model s1 = (r2, f, s2)"
      by (cases "cpkt_sus_temp_path_for W model s1") auto
    note tpr = temp_path_run [OF tp]
    show ?thesis
    proof (cases "r2 = CPKT_SUS_OK")
      case False
      then have eq: "s' = s2" "r \<noteq> CPKT_SUS_OK"
        using assms(1) online d ok1 tp by (auto simp: cpkt_sus_fetch_cached_file_def)
      have "cache_change W sha e cfg model s s2"
        using tpr False by (intro cache_change_dirs [OF dirs]) (auto split: if_splits)
      then show ?thesis
        using eq tpr same1 online by (auto intro: exI [of _ 0])
    next
      case ok2: True
      then have f: "temp_name model f" "ss_files s1 f = None" "ss_files s2 = (ss_files s1)(f \<mapsto> Regular [])"
        and same2: "ss_events s2 = ss_events s" "ss_contexts s2 = ss_contexts s"
        using tpr same1 by auto
      define url where "url = (if given (cc_source_url cfg) then the (cc_source_url cfg) else ce_url e)"
      obtain r3 s3 where em: "cpkt_sus_emit_cache_status cfg CPKT_SUS_CACHE_STATUS_DOWNLOAD_BEGIN e model
          (Some url) s2 = (r3, s3)"
        by (cases "cpkt_sus_emit_cache_status cfg CPKT_SUS_CACHE_STATUS_DOWNLOAD_BEGIN e model (Some url) s2")
      note emf = emit_fields(1,4) [OF em] emit_phases [OF em]
      show ?thesis
      proof (cases "r3 = CPKT_SUS_OK")
        case False
        then have eq: "s' = posix_remove W f (s3\<lparr>ss_tick := Suc (ss_tick s3)\<rparr>)" "r = r3"
          using assms(1) online d ok1 tp ok2 em
          by (auto simp: cpkt_sus_fetch_cached_file_def url_def Let_def sus_try_def)
        have "cache_change W sha e cfg model s s'"
          unfolding eq(1) by (rule cache_change_removed [OF dirs f(2,1)]) (simp add: emf f(3))
        moreover have "phases s' = phases s @ sunk cfg (take 1 fetch_phases)"
          by (simp add: eq(1) remove_run emf same2 fetch_phases_def)
        ultimately show ?thesis
          using eq emf same2 False online remove_run(1) [of f "s3\<lparr>ss_tick := Suc (ss_tick s3)\<rparr>" W]
          by (auto simp: only_file_def)
      next
        case ok3: True
        obtain r4 s4 where b: "fetch_body W url f model e cfg s3 = (r4, s4)"
          by (cases "fetch_body W url f model e cfg s3")
        have "fetching cfg f s2 1 CPKT_SUS_OK s3"
          using emf by (auto simp: fetching_def only_file_def fetch_phases_def)
        note body = fetch_body_run [OF b assms(2) this]
        obtain r5 s5 where rn: "and_then (r4, s4) (\<lambda>s. let (ok, s) = posix_rename W f model s in
            (if ok then CPKT_SUS_OK else CPKT_SUS_ERR_IO, s)) = (r5, s5)" by fastforce
        have eq: "(r, s') = (if r5 \<noteq> CPKT_SUS_OK then (r5, posix_remove W f s5) else (r5, s5))"
          using fetch_via_body [OF online d [unfolded ok1] tp [unfolded ok2] url_def em [unfolded ok3] b rn]
            assms(1) by simp
        show ?thesis
          using fetch_end [OF dirs f same2 body rn eq] online by blast
      qed
    qed
  qed
qed

section \<open>Opening a cached model\<close>

definition hit_phases :: "cache_phase list" where
  "hit_phases = [CPKT_SUS_CACHE_STATUS_LOOKUP, CPKT_SUS_CACHE_STATUS_HIT]"

definition load_phases :: "cache_phase list" where
  "load_phases = [CPKT_SUS_CACHE_STATUS_LOAD_BEGIN]"

text \<open>The complete sequences of events of a successful open.\<close>

definition good_runs :: "cache_phase list list" where
  "good_runs =
     [hit_phases @ load_phases,
      hit_phases @ fetch_phases @ load_phases,
      hit_phases @ load_phases @ fetch_phases @ load_phases,
      [CPKT_SUS_CACHE_STATUS_LOOKUP, CPKT_SUS_CACHE_STATUS_MISS] @ fetch_phases @ load_phases]"

text \<open>What holds after the file was looked up, whichever branch follows.\<close>

definition resolved ::
    "'c sus_world \<Rightarrow> (byte list \<Rightarrow> byte list) \<Rightarrow> cpkt_sus_catalog_entry \<Rightarrow> cpkt_sus_cache_config \<Rightarrow> string \<Rightarrow>
     sus_state \<Rightarrow> cpkt_sus_result \<Rightarrow> cpkt_sus_model_impl option \<Rightarrow> sus_state \<Rightarrow> bool" where
  "resolved W sha e cfg model s r m s' \<longleftrightarrow>
     cache_change W sha e cfg model s s' \<and>
     (cc_offline cfg \<longrightarrow> ss_files s' = ss_files s \<and> ss_downloads s' = ss_downloads s) \<and>
     (if r = CPKT_SUS_OK
      then ss_contexts s' = Suc (ss_contexts s) \<and>
        (\<exists>phs\<in>set good_runs. phases s' = phases s @ sunk cfg phs) \<and>
        (\<exists>c u mi. ss_files s' model = Some (Regular c) \<and> checked sha e cfg c \<and> sw_loadable W c u \<and>
          m = Some mi \<and> mi_context mi = c)
      else ss_contexts s' = ss_contexts s \<and> m = None \<and>
        (\<exists>phs\<in>set good_runs. \<exists>k. phases s' = phases s @ sunk cfg (take k phs)))"

text \<open>Nothing done yet, or only quiet steps and the first events.\<close>

lemma resolved_early:
  assumes "r \<noteq> CPKT_SUS_OK" "phases s' = phases s @ sunk cfg (take k phs)" "phs \<in> set good_runs"
    and "ss_files s' = ss_files s" "ss_downloads s' = ss_downloads s" "ss_contexts s' = ss_contexts s"
  shows "resolved W sha e cfg model s r None s'"
  using assms by (auto simp: resolved_def cache_change_refl)

lemma resolved_shift:
  assumes "ss_files t = ss_files s" "ss_downloads t = ss_downloads s" "ss_contexts t = ss_contexts s"
    "phases t = phases s" "resolved W sha e cfg model t r m s'"
  shows "resolved W sha e cfg model s r m s'"
  using assms by (auto simp: resolved_def cache_change_def)

lemma resolved_ok:
  assumes "r = CPKT_SUS_OK" "cache_change W sha e cfg model s s'"
    and "cc_offline cfg \<longrightarrow> ss_files s' = ss_files s \<and> ss_downloads s' = ss_downloads s"
    and "ss_contexts s' = Suc (ss_contexts s)" "phs \<in> set good_runs" "phases s' = phases s @ sunk cfg phs"
    and "\<exists>c u mi. ss_files s' model = Some (Regular c) \<and> checked sha e cfg c \<and> sw_loadable W c u \<and>
      m = Some mi \<and> mi_context mi = c"
  shows "resolved W sha e cfg model s r m s'"
  unfolding resolved_def if_P [OF assms(1)] using assms(2-7) by blast

lemma resolved_bad:
  assumes "r \<noteq> CPKT_SUS_OK" "cache_change W sha e cfg model s s'"
    and "cc_offline cfg \<longrightarrow> ss_files s' = ss_files s \<and> ss_downloads s' = ss_downloads s"
    and "ss_contexts s' = ss_contexts s" "m = None"
    and "phs \<in> set good_runs" "\<exists>k. phases s' = phases s @ sunk cfg (take k phs)"
  shows "resolved W sha e cfg model s r m s'"
  unfolding resolved_def if_not_P [OF assms(1)] using assms(2-7) by blast

lemma length_fetch_phases [simp]: "length fetch_phases = 4"
  by (simp add: fetch_phases_def)

lemma good_runs_fetch:
  "phs = pre @ fetch_phases @ load_phases \<Longrightarrow> k \<le> 4 \<Longrightarrow>
    pre @ take k fetch_phases = take (length pre + k) phs"
  by simp

text \<open>Fetch and load, after the events \<open>pre\<close>.\<close>

lemma fetch_and_open:
  assumes "cpkt_sus_fetch_cached_file W model dir e cfg t = (r1, s1)" "digest_is W sha"
    and pre: "pre @ fetch_phases @ load_phases \<in> set good_runs" "phases t = phases s @ sunk cfg pre"
    and same: "ss_files t = ss_files s" "ss_downloads t = ss_downloads s" "ss_contexts t = ss_contexts s"
    and run: "(if r1 \<noteq> CPKT_SUS_OK then (r1, None, s1)
      else cpkt_sus_open_validated_cached_file W model e cfg s1) = (r, m, s')"
  shows "resolved W sha e cfg model s r m s'"
proof -
  note fr = fetch_run [OF assms(1,2)]
  obtain k0 where k0: "phases s1 = phases t @ sunk cfg (take k0 fetch_phases)" "r1 = CPKT_SUS_OK \<Longrightarrow> k0 = 4"
    using fr by blast
  define k where "k = min 4 k0"
  have k: "phases s1 = phases t @ sunk cfg (take k fetch_phases)" "k \<le> 4" "r1 = CPKT_SUS_OK \<Longrightarrow> k = 4"
    using k0 by (auto simp: k_def fetch_phases_def min_def)
  have change: "cache_change W sha e cfg model s s1"
    using fr same(1) by (auto simp: cache_change_def)
  have off: "cc_offline cfg \<longrightarrow> ss_files s1 = ss_files s \<and> ss_downloads s1 = ss_downloads s"
    and ctx: "ss_contexts s1 = ss_contexts s"
    using fr same by simp_all
  show ?thesis
  proof (cases "r1 = CPKT_SUS_OK")
    case False
    then have out: "r \<noteq> CPKT_SUS_OK" "m = None" "s' = s1"
      using run by auto
    have "phases s1 = phases s @ sunk cfg (take (length pre + k) (pre @ fetch_phases @ load_phases))"
      unfolding good_runs_fetch [OF refl k(2), symmetric] k(1) pre(2) sunk_append by (rule append_assoc)
    then have "\<exists>j. phases s1 = phases s @ sunk cfg (take j (pre @ fetch_phases @ load_phases))"
      by (rule exI)
    from resolved_bad [OF out(1) change off ctx out(2) pre(1) this] show ?thesis
      unfolding out(3) .
  next
    case True
    then have o: "cpkt_sus_open_validated_cached_file W model e cfg s1 = (r, m, s')"
      using run by simp
    have on: "\<not> cc_offline cfg"
      using fr True by auto
    note ov = open_validated_run [OF o assms(2)]
    have ph: "phases s1 = phases s @ sunk cfg (pre @ fetch_phases)"
      using k True pre(2) by (simp add: sunk_append fetch_phases_def)
    have files: "ss_files s' = ss_files s1" "cache_change W sha e cfg model s s'"
      using ov change by (auto simp: cache_change_def)
    show ?thesis
    proof (cases "r = CPKT_SUS_OK")
      case ok: True
      then have "phases s' = phases s @ sunk cfg (pre @ fetch_phases @ load_phases)"
        using ov ph by (simp add: sunk_append load_phases_def)
      with ok ov files fr on same pre(1) show ?thesis
        by (intro resolved_ok [where phs = "pre @ fetch_phases @ load_phases"]) auto
    next
      case bad: False
      have "\<exists>j. phases s' = phases s @ sunk cfg (take j (pre @ fetch_phases @ load_phases))"
      proof (cases "phases s' = phases s1")
        case True
        then show ?thesis
          using ph by (intro exI [of _ "length (pre @ fetch_phases)"]) simp
      next
        case False
        then show ?thesis
          using ov bad ph by (intro exI [of _ "length (pre @ fetch_phases @ load_phases)"])
            (auto simp: sunk_append load_phases_def)
      qed
      with bad ov files fr on same pre(1) show ?thesis
        by (intro resolved_bad [where phs = "pre @ fetch_phases @ load_phases"]) auto
    qed
  qed
qed

lemma open_hit:
  assumes "cpkt_sus_open_validated_cached_file W model e cfg t = (r1, m1, s1)" "digest_is W sha"
    and pre: "phases t = phases s @ sunk cfg hit_phases"
    and same: "ss_files t = ss_files s" "ss_downloads t = ss_downloads s" "ss_contexts t = ss_contexts s"
    and stop: "r1 = CPKT_SUS_OK \<or> r1 \<noteq> CPKT_SUS_OK \<and> \<not> (r1 \<in> {CPKT_SUS_ERR_CHECKSUM, CPKT_SUS_ERR_MODEL} \<and> \<not> cc_offline cfg)"
  shows "resolved W sha e cfg model s r1 m1 s1"
proof -
  note ov = open_validated_run [OF assms(1,2)]
  have run: "hit_phases @ load_phases \<in> set good_runs"
    by (simp add: good_runs_def)
  have files: "ss_files s1 = ss_files s" "ss_downloads s1 = ss_downloads s" "cache_change W sha e cfg model s s1"
    using ov same by (auto simp: cache_change_refl)
  show ?thesis
  proof (cases "r1 = CPKT_SUS_OK")
    case True
    then have "phases s1 = phases s @ sunk cfg (hit_phases @ load_phases)"
      using ov pre by (simp add: sunk_append load_phases_def)
    with True ov files same run show ?thesis
      by (intro resolved_ok [where phs = "hit_phases @ load_phases"]) auto
  next
    case False
    have "\<exists>j. phases s1 = phases s @ sunk cfg (take j (hit_phases @ load_phases))"
    proof (cases "phases s1 = phases t")
      case True
      then show ?thesis
        using pre by (intro exI [of _ "length hit_phases"]) simp
    next
      case F: False
      then show ?thesis
        using ov False pre by (intro exI [of _ "length (hit_phases @ load_phases)"])
          (auto simp: sunk_append load_phases_def)
    qed
    with False ov files same run show ?thesis
      by (intro resolved_bad [where phs = "hit_phases @ load_phases"]) auto
  qed
qed

definition cache_path_of :: "string \<Rightarrow> cpkt_sus_catalog_entry \<Rightarrow> string" where
  "cache_path_of dir e = dir @ (if last dir = CHR ''/'' then [] else ''/'') @ ce_filename e"

text \<open>The branches after the model path is known.\<close>

lemma open_cached_resolve:
  assumes dig: "digest_is W sha"
    and pre: "phases t = phases s @ sunk cfg [CPKT_SUS_CACHE_STATUS_LOOKUP]"
    and same: "ss_files t = ss_files s" "ss_downloads t = ss_downloads s" "ss_contexts t = ss_contexts s"
    and run: "(let (there, t) = cpkt_sus_file_exists W model t in
          if \<not> there then
            let (r, t) = cpkt_sus_emit_cache_status cfg CPKT_SUS_CACHE_STATUS_MISS e model None t in
            if r \<noteq> CPKT_SUS_OK then (r, None, t)
            else let (r, t) = cpkt_sus_fetch_cached_file W model dir e cfg t in
            if r \<noteq> CPKT_SUS_OK then (r, None, t)
            else cpkt_sus_open_validated_cached_file W model e cfg t
          else
            let (r, t) = cpkt_sus_emit_cache_status cfg CPKT_SUS_CACHE_STATUS_HIT e model None t in
            if r \<noteq> CPKT_SUS_OK then (r, None, t)
            else let (r, out, t) = cpkt_sus_open_validated_cached_file W model e cfg t in
            if r \<in> {CPKT_SUS_ERR_CHECKSUM, CPKT_SUS_ERR_MODEL} \<and> \<not> cc_offline cfg then
              let (r, t) = cpkt_sus_fetch_cached_file W model dir e cfg t in
              if r \<noteq> CPKT_SUS_OK then (r, out, t)
              else if out = None then cpkt_sus_open_validated_cached_file W model e cfg t
              else (r, out, t)
            else if r \<noteq> CPKT_SUS_OK then (r, out, t)
            else if out = None then cpkt_sus_open_validated_cached_file W model e cfg t
            else (r, out, t)) = (r, m, s')"
  shows "resolved W sha e cfg model s r m s'"
proof -
  obtain there t1 where ex: "cpkt_sus_file_exists W model t = (there, t1)"
    by (cases "cpkt_sus_file_exists W model t")
  note tick1 = tick_only_fields [OF conjunct1 [OF file_exists_run [OF ex]]]
  show ?thesis
  proof (cases there)
    case False
    let ?pre = "[CPKT_SUS_CACHE_STATUS_LOOKUP, CPKT_SUS_CACHE_STATUS_MISS]"
    obtain r2 t2 where em: "cpkt_sus_emit_cache_status cfg CPKT_SUS_CACHE_STATUS_MISS e model None t1 = (r2, t2)"
      by fastforce
    have ph: "phases t2 = phases s @ sunk cfg ?pre"
      using emit_phases [OF em] tick1 pre by (simp add: sunk_def)
    have gr: "?pre @ fetch_phases @ load_phases \<in> set good_runs"
      by (simp add: good_runs_def)
    have keep: "ss_files t2 = ss_files s" "ss_downloads t2 = ss_downloads s" "ss_contexts t2 = ss_contexts s"
      using emit_fields [OF em] tick1 same by simp_all
    show ?thesis
    proof (cases "r2 = CPKT_SUS_OK")
      case bad: False
      then have out: "r = r2" "m = None" "s' = t2"
        using run ex False em by auto
      show ?thesis
        unfolding out
        by (rule resolved_early [OF bad _ gr keep, where k = 2]) (use ph in simp)
    next
      case True
      obtain r3 t3 where fe: "cpkt_sus_fetch_cached_file W model dir e cfg t2 = (r3, t3)"
        by fastforce
      show ?thesis
        by (rule fetch_and_open [OF fe dig gr ph keep]) (use run ex False em True fe in simp)
    qed
  next
    case True
    obtain r2 t2 where em: "cpkt_sus_emit_cache_status cfg CPKT_SUS_CACHE_STATUS_HIT e model None t1 = (r2, t2)"
      by fastforce
    have ph: "phases t2 = phases s @ sunk cfg hit_phases"
      using emit_phases [OF em] tick1 pre by (simp add: sunk_def hit_phases_def)
    have gr: "hit_phases @ load_phases \<in> set good_runs"
      by (simp add: good_runs_def)
    have keep: "ss_files t2 = ss_files s" "ss_downloads t2 = ss_downloads s" "ss_contexts t2 = ss_contexts s"
      using emit_fields [OF em] tick1 same by simp_all
    show ?thesis
    proof (cases "r2 = CPKT_SUS_OK")
      case bad: False
      then have out: "r = r2" "m = None" "s' = t2"
        using run ex True em by auto
      show ?thesis
        unfolding out
        by (rule resolved_early [OF bad _ gr keep, where k = 2]) (use ph in \<open>simp add: hit_phases_def\<close>)
    next
      case ok2: True
      obtain r3 m3 t3 where op: "cpkt_sus_open_validated_cached_file W model e cfg t2 = (r3, m3, t3)"
        by (cases "cpkt_sus_open_validated_cached_file W model e cfg t2") auto
      note ov = open_validated_run [OF op dig]
      show ?thesis
      proof (cases "r3 \<in> {CPKT_SUS_ERR_CHECKSUM, CPKT_SUS_ERR_MODEL} \<and> \<not> cc_offline cfg")
        case False
        then have out: "r = r3" "m = m3" "s' = t3"
          using run ex True em ok2 op ov by (auto split: if_splits)
        show ?thesis
          unfolding out by (rule open_hit [OF op dig ph keep]) (use False in blast)
      next
        case again: True
        then have none: "m3 = None" and keep3: "ss_files t3 = ss_files s" "ss_downloads t3 = ss_downloads s"
            "ss_contexts t3 = ss_contexts s"
          using ov keep by auto
        define pre3 where "pre3 = (if phases t3 = phases t2 then hit_phases else hit_phases @ load_phases)"
        have ph3: "phases t3 = phases s @ sunk cfg pre3"
          using ov again ph by (auto simp: pre3_def sunk_append load_phases_def)
        have gr3: "pre3 @ fetch_phases @ load_phases \<in> set good_runs"
          by (simp add: pre3_def good_runs_def)
        obtain r4 t4 where fe: "cpkt_sus_fetch_cached_file W model dir e cfg t3 = (r4, t4)"
          by fastforce
        show ?thesis
          by (rule fetch_and_open [OF fe dig gr3 ph3 keep3])
            (use run ex True em ok2 op again none fe in \<open>simp cong: if_cong\<close>)
      qed
    qed
  qed
qed

lemma open_cached_run:
  assumes "cpkt_sus_open_cached W True (Some cfg) s = (r, m, s')" "digest_is W sha"
  shows "(r \<noteq> CPKT_SUS_OK \<and> m = None \<and> tick_only s s') \<or>
    (\<exists>e dir t. cpkt_sus_find_catalog_entry (cc_model cfg) = Some e \<and>
      cpkt_sus_cache_dir_from_config W cfg s = (CPKT_SUS_OK, dir, t) \<and>
      resolved W sha e cfg (cache_path_of dir e) s r m s')"
proof (cases "given (cc_sha256 cfg) \<and> \<not> cpkt_sus_is_sha256_hex (cc_sha256 cfg) \<or>
    cpkt_sus_find_catalog_entry (cc_model cfg) = None")
  case True
  then show ?thesis
    using assms(1) by (auto simp: cpkt_sus_open_cached_def split: if_splits)
next
  case False
  then obtain e where e: "cpkt_sus_find_catalog_entry (cc_model cfg) = Some e"
    by auto
  have enter: "\<not> (given (cc_sha256 cfg) \<and> \<not> cpkt_sus_is_sha256_hex (cc_sha256 cfg))"
    using False by blast
  obtain r1 dir s1 where cd: "cpkt_sus_cache_dir_from_config W cfg s = (r1, dir, s1)"
    by (cases "cpkt_sus_cache_dir_from_config W cfg s") auto
  note t1 = cache_dir_run [OF cd]
  obtain r2 model s2 where j: "cpkt_sus_join2 W dir (ce_filename e) s1 = (r2, model, s2)"
    by (cases "cpkt_sus_join2 W dir (ce_filename e) s1") auto
  note t2 = tick_only_trans [OF t1 conjunct1 [OF join2_run [OF j]]]
  show ?thesis
  proof (cases "r1 = CPKT_SUS_OK \<and> r2 = CPKT_SUS_OK")
    case False
    then show ?thesis
      using assms(1) enter e cd j t1 t2
      by (auto simp: cpkt_sus_open_cached_def Let_def split: if_splits)
  next
    case ok: True
    then have path: "model = cache_path_of dir e"
      using join2_run [OF j] by (simp add: cache_path_of_def)
    obtain r3 s3 where em: "cpkt_sus_emit_cache_status cfg CPKT_SUS_CACHE_STATUS_LOOKUP e model None s2 = (r3, s3)"
      by fastforce
    note fields = tick_only_fields [OF t2] emit_fields(1-4) [OF em] emit_phases [OF em]
    have "resolved W sha e cfg model s r m s'"
    proof (cases "r3 = CPKT_SUS_OK")
      case False
      then have out: "r = r3" "m = None" "s' = s3"
        using assms(1) enter e cd j ok em by (auto simp: cpkt_sus_open_cached_def)
      have "hit_phases @ load_phases \<in> set good_runs"
        by (simp add: good_runs_def)
      then show ?thesis
        unfolding out using fields
        by (intro resolved_early [OF False, of s3 s cfg 1 "hit_phases @ load_phases"]) (simp_all add: hit_phases_def)
    next
      case True
      show ?thesis
        by (rule open_cached_resolve [OF assms(2), of s3 s cfg])
          (use assms(1) enter e cd j ok em True fields in \<open>simp_all add: cpkt_sus_open_cached_def Let_def\<close>)
    qed
    with path e cd ok show ?thesis by auto
  qed
qed

text \<open>A cache in use: a digest of 32 zero bytes for every file, and a loadable file at its place.\<close>

definition demo_world :: "byte list sus_world" where
  "demo_world =
     \<lparr>sw_fails = (\<lambda>n. False), sw_short = (\<lambda>n. 0), sw_temp = (\<lambda>n. ''abcdef''), sw_env = (\<lambda>v. None),
      sw_curl = (\<lambda>n u. ([[1, 2], [3]], True)), sw_md_init = Some [], sw_md_update = (\<lambda>c b. Some (c @ b)),
      sw_md_final = (\<lambda>c. Some (replicate 32 0)), sw_default_gpu = True,
      sw_loadable = (\<lambda>c g. c \<noteq> []), sw_junk = (\<lambda>n. CHR 0x7F)\<rparr>"

definition demo_cfg :: "bool \<Rightarrow> cpkt_sus_cache_config" where
  "demo_cfg off =
     \<lparr>cc_model = None, cc_cache_dir = Some ''/c'', cc_sha256 = Some (replicate 64 (CHR ''0'')),
      cc_source_url = None, cc_insecure_no_checksum = False, cc_offline = off, cc_cpu_only = False,
      cc_preserve_initial_space = False, cc_status_sink = Some (\<lambda>h ev. 0)\<rparr>"

definition demo_state :: sus_state where
  "demo_state =
     \<lparr>ss_tick = 0, ss_files = [''/c/ggml-tiny.bin'' \<mapsto> Regular [1, 2, 3]],
      ss_log = \<lparr>log_callback = False, log_installed = False, log_last_level = 2, log_delivered = []\<rparr>,
      ss_events = [], ss_downloads = [], ss_loads = [], ss_contexts = 0\<rparr>"

lemma demo_digest: "digest_is demo_world (\<lambda>c. replicate 32 0)"
  by (simp add: digest_is_def demo_world_def)

lemma demo_try: "sus_try demo_world s = (True, s\<lparr>ss_tick := Suc (ss_tick s)\<rparr>)"
  by (simp add: sus_try_def demo_world_def)

lemma demo_hex: "hex_encode (replicate 32 0) = replicate 64 (CHR ''0'')"
  by (simp add: hex_encode_def hex_byte_def hex_digits_def eval_nat_numeral)

lemma demo_hex_valid: "cpkt_sus_is_sha256_hex (Some (replicate 64 (CHR ''0'')))"
  by (simp add: list_all_iff sha_digit_def)

lemma demo_sha:
  assumes "ss_files s p = Some (Regular [1, 2, 3])" "p \<noteq> []"
  shows "\<exists>t. cpkt_sus_sha256_file demo_world p s = (CPKT_SUS_OK, replicate 64 (CHR ''0''), s\<lparr>ss_tick := t\<rparr>)"
proof -
  have loop: "\<exists>t. digest_loop demo_world c [1, 2, 3] False s' = (Some (c @ [1, 2, 3], False), s'\<lparr>ss_tick := t\<rparr>)" for c s'
    by (subst digest_loop.simps, subst digest_loop.simps)
      (auto simp: fread_chunk_def demo_try demo_world_def sus_try_def)
  show ?thesis
    using assms loop [of "[]" "s\<lparr>ss_tick := Suc (Suc (ss_tick s))\<rparr>"]
    by (auto simp: cpkt_sus_sha256_file_def demo_try demo_hex) (auto simp: demo_world_def demo_hex)
qed

lemma demo_entry: "cpkt_sus_find_catalog_entry None = Some (hd cpkt_sus_catalog) \<and>
    ce_filename (hd cpkt_sus_catalog) = ''ggml-tiny.bin''"
  by (simp add: default_entry catalog_defs)

lemma demo_open_validated:
  assumes "ss_files s p = Some (Regular [1, 2, 3])" "p \<noteq> []"
  shows "\<exists>m s'. cpkt_sus_open_validated_cached_file demo_world p e (demo_cfg off) s = (CPKT_SUS_OK, Some m, s')"
proof -
  obtain t where sha: "cpkt_sus_sha256_file demo_world p s = (CPKT_SUS_OK, replicate 64 (CHR ''0''), s\<lparr>ss_tick := t\<rparr>)"
    using demo_sha [OF assms] by blast
  then have "cpkt_sus_validate_cached_file demo_world p e (demo_cfg off) s = (CPKT_SUS_OK, s\<lparr>ss_tick := t\<rparr>)"
    using demo_hex_valid by (simp add: cpkt_sus_validate_cached_file_def demo_cfg_def given_def
        del: cpkt_sus_is_sha256_hex.simps)
  then show ?thesis
    using assms
    by (simp add: cpkt_sus_open_validated_cached_file_def cpkt_sus_emit_cache_status_def demo_cfg_def
        cpkt_sus_open_path_def whisper_init_from_file_def given_def Let_def demo_try)
      (simp add: demo_world_def)
qed

lemma demo_open:
  "\<exists>m s'. cpkt_sus_open_cached demo_world True (Some (demo_cfg off)) demo_state = (CPKT_SUS_OK, Some m, s')"
proof -
  define s1 where "s1 = demo_state\<lparr>ss_tick := Suc (Suc (Suc 0)), ss_events :=
     [\<lparr>ev_phase = CPKT_SUS_CACHE_STATUS_LOOKUP, ev_model = Some (ce_name (hd cpkt_sus_catalog)),
       ev_cache_path = ''/c/ggml-tiny.bin'', ev_source_url = None\<rparr>,
      \<lparr>ev_phase = CPKT_SUS_CACHE_STATUS_HIT, ev_model = Some (ce_name (hd cpkt_sus_catalog)),
       ev_cache_path = ''/c/ggml-tiny.bin'', ev_source_url = None\<rparr>]\<rparr>"
  obtain m s' where o: "cpkt_sus_open_validated_cached_file demo_world ''/c/ggml-tiny.bin'' (hd cpkt_sus_catalog)
      (demo_cfg off) s1 = (CPKT_SUS_OK, Some m, s')"
    using demo_open_validated [of s1 "''/c/ggml-tiny.bin''" "hd cpkt_sus_catalog" off]
    by (auto simp: s1_def demo_state_def)
  have dir: "cpkt_sus_cache_dir_from_config demo_world (demo_cfg off) demo_state =
      (CPKT_SUS_OK, ''/c'', demo_state\<lparr>ss_tick := Suc 0\<rparr>)"
    by (simp add: cpkt_sus_cache_dir_from_config_def demo_cfg_def cpkt_sus_strdup_range_def demo_try
        given_def demo_state_def)
  have "\<not> sz_sub (sz_sub (sz_sub size_max 1) (length ''ggml-tiny.bin'')) 1 < length ''/c''"
    by (simp add: sz_sub_id c_limits)
  then have join: "cpkt_sus_join2 demo_world ''/c'' ''ggml-tiny.bin'' (demo_state\<lparr>ss_tick := Suc 0\<rparr>) =
      (CPKT_SUS_OK, ''/c/ggml-tiny.bin'', demo_state\<lparr>ss_tick := Suc (Suc 0)\<rparr>)"
    by (simp add: cpkt_sus_join2_def demo_try)
  have ex: "cpkt_sus_file_exists demo_world ''/c/ggml-tiny.bin'' s = (True, s\<lparr>ss_tick := Suc (ss_tick s)\<rparr>)"
    if "ss_files s = ss_files demo_state" for s
    using that by (simp add: cpkt_sus_file_exists_def demo_try demo_state_def)
  have cfg: "cc_sha256 (demo_cfg off) = Some (replicate 64 (CHR ''0''))" "cc_model (demo_cfg off) = None"
      "cc_status_sink (demo_cfg off) = Some (\<lambda>h ev. 0)"
    by (simp_all add: demo_cfg_def)
  have fields: "ss_tick demo_state = 0" "ss_events demo_state = []"
    by (simp_all add: demo_state_def)
  show ?thesis
    using o demo_entry demo_hex_valid
    by (simp add: cpkt_sus_open_cached_def cfg dir join ex cpkt_sus_emit_cache_status_def Let_def
        s1_def fields del: cpkt_sus_is_sha256_hex.simps)
qed

text \<open>
  C9: Whatever fails on the way, a cached model that opens was loaded from the cache file of a
  catalogue entry whose contents, the very bytes the backend got, have the caller's SHA-256 or, when
  the caller gives none, the pinned one, unless the caller turned checks off; the file is there with
  these bytes, and exactly one backend context is live more than before.  A failed open returns no
  handle and leaves no context.
\<close>

theorem cached_model_verified:
  assumes "cpkt_sus_open_cached W True (Some cfg) s = (r, m, s')" "digest_is W sha"
  shows "if r = CPKT_SUS_OK
    then \<exists>e dir t mi. m = Some mi \<and> cpkt_sus_find_catalog_entry (cc_model cfg) = Some e \<and>
      cpkt_sus_cache_dir_from_config W cfg s = (CPKT_SUS_OK, dir, t) \<and>
      ss_files s' (cache_path_of dir e) = Some (Regular (mi_context mi)) \<and>
      (cc_insecure_no_checksum cfg \<or> hex_encode (sha (mi_context mi)) = expected_sha256 e cfg) \<and>
      ss_contexts s' = Suc (ss_contexts s)
    else m = None \<and> ss_contexts s' = ss_contexts s"
  using open_cached_run [OF assms] tick_only_fields(6)
  by (auto simp: resolved_def checked_def)

theorem cached_model_verified_witness:
  "\<exists>m s'. cpkt_sus_open_cached demo_world True (Some (demo_cfg False)) demo_state = (CPKT_SUS_OK, Some m, s') \<and>
     hex_encode (replicate 32 0) = replicate 64 (CHR ''0'') \<and> ss_contexts s' = 1"
proof -
  obtain m s' where o: "cpkt_sus_open_cached demo_world True (Some (demo_cfg False)) demo_state =
      (CPKT_SUS_OK, Some m, s')"
    using demo_open by blast
  from cached_model_verified [OF o demo_digest] o demo_hex show ?thesis
    by (auto simp: demo_state_def)
qed

text \<open>
  C10: The cache file is only ever replaced by contents that passed the checksum (unless checks are
  off) and that the backend could load; every other entry of the file system that the open changes is
  a directory made where nothing was, or a temporary file that stays behind because a system call
  failed.  A download that breaks off, has the wrong checksum or does not load leaves the cache as
  it was.
\<close>

theorem cache_never_corrupted:
  assumes "cpkt_sus_open_cached W True (Some cfg) s = (r, m, s')" "digest_is W sha"
  shows "ss_files s' = ss_files s \<or>
    (\<exists>e dir t. cpkt_sus_find_catalog_entry (cc_model cfg) = Some e \<and>
      cpkt_sus_cache_dir_from_config W cfg s = (CPKT_SUS_OK, dir, t) \<and>
      cache_change W sha e cfg (cache_path_of dir e) s s')"
  using open_cached_run [OF assms] tick_only_fields(1) unfolding resolved_def by blast

theorem cache_never_corrupted_witness:
  "\<exists>m s'. cpkt_sus_open_cached demo_world True (Some (demo_cfg False)) demo_state = (CPKT_SUS_OK, Some m, s') \<and>
     (ss_files s' = ss_files demo_state \<or>
      (\<exists>e dir. cache_change demo_world (\<lambda>c. replicate 32 0) e (demo_cfg False) (cache_path_of dir e) demo_state s'))"
proof -
  obtain m s' where o: "cpkt_sus_open_cached demo_world True (Some (demo_cfg False)) demo_state =
      (CPKT_SUS_OK, Some m, s')"
    using demo_open by blast
  from cache_never_corrupted [OF o demo_digest] o show ?thesis
    by blast
qed

text \<open>
  C40: With \<open>offline\<close> set nothing is fetched and no file changes.
\<close>

theorem offline_is_local:
  assumes "cpkt_sus_open_cached W True (Some cfg) s = (r, m, s')" "digest_is W sha" "cc_offline cfg"
  shows "ss_downloads s' = ss_downloads s \<and> ss_files s' = ss_files s"
  using open_cached_run [OF assms(1,2)] assms(3) tick_only_fields
  by (auto simp: resolved_def)

theorem offline_is_local_witness:
  "\<exists>m s'. cpkt_sus_open_cached demo_world True (Some (demo_cfg True)) demo_state = (CPKT_SUS_OK, Some m, s') \<and>
     ss_downloads s' = [] \<and> ss_files s' = [''/c/ggml-tiny.bin'' \<mapsto> Regular [1, 2, 3]]"
proof -
  obtain m s' where o: "cpkt_sus_open_cached demo_world True (Some (demo_cfg True)) demo_state =
      (CPKT_SUS_OK, Some m, s')"
    using demo_open by blast
  from offline_is_local [OF o demo_digest] o show ?thesis
    by (simp add: demo_cfg_def demo_state_def)
qed

text \<open>
  The status events of an open are a beginning of one of four sequences: LOOKUP, HIT, LOAD;
  the same with a fetch (DOWNLOAD BEGIN and COMPLETE, VERIFY BEGIN and COMPLETE) before a second LOAD,
  with or without the first LOAD; or LOOKUP, MISS, fetch, LOAD.  A successful open has emitted the
  whole sequence.
\<close>

lemma cache_event_order:
  assumes "cpkt_sus_open_cached W True (Some cfg) s = (r, m, s')" "digest_is W sha"
    and "cc_status_sink cfg \<noteq> None"
  shows "\<exists>phs\<in>set good_runs. \<exists>k. map ev_phase (ss_events s') = map ev_phase (ss_events s) @ take k phs \<and>
    (r = CPKT_SUS_OK \<longrightarrow> take k phs = phs)"
proof -
  have "hit_phases @ load_phases \<in> set good_runs"
    by (simp add: good_runs_def)
  with open_cached_run [OF assms(1,2)] show ?thesis
  proof (elim disjE exE conjE)
    assume "r \<noteq> CPKT_SUS_OK" "tick_only s s'" "hit_phases @ load_phases \<in> set good_runs"
    then show ?thesis
      by (intro bexI [of _ "hit_phases @ load_phases"] exI [of _ 0]) (simp_all add: tick_only_fields)
  next
    fix e dir t
    assume res: "resolved W sha e cfg (cache_path_of dir e) s r m s'"
    have full: "sunk cfg phs = phs" for phs
      using assms(3) by (auto simp: sunk_def)
    show ?thesis
    proof (cases "r = CPKT_SUS_OK")
      case True
      then obtain phs where phs: "phs \<in> set good_runs" "phases s' = phases s @ phs"
        using res unfolding resolved_def full by auto
      then show ?thesis
        by (intro bexI [of _ phs] exI [of _ "length phs"]) simp_all
    next
      case False
      then show ?thesis
        using res unfolding resolved_def full by auto
    qed
  qed
qed

section \<open>A fetch that meets no obstacle\<close>

text \<open>No call to the system fails, and the digest library computes \<open>sha\<close>, 32 bytes long.\<close>

definition calm :: "'c sus_world \<Rightarrow> (byte list \<Rightarrow> byte list) \<Rightarrow> bool" where
  "calm W sha \<longleftrightarrow> (\<forall>n. \<not> sw_fails W n) \<and>
     (\<exists>c0. sw_md_init W = Some c0 \<and>
       (\<forall>ms. \<exists>c. md_feed W c0 ms = Some c \<and> sw_md_final W c = Some (sha (concat ms)))) \<and>
     (\<forall>m. length (sha m) = 32)"

lemma calm_try: "calm W sha \<Longrightarrow> sus_try W s = (True, s\<lparr>ss_tick := Suc (ss_tick s)\<rparr>)"
  by (simp add: calm_def sus_try_def)

lemma calm_digest: "calm W sha \<Longrightarrow> digest_is W sha"
  unfolding calm_def digest_is_def by (metis option.inject)

lemma calm_feed_update:
  assumes "\<forall>ms. \<exists>c. md_feed W ctx ms = Some c"
  obtains ctx' where "sw_md_update W ctx b = Some ctx'" "\<forall>ms. \<exists>c. md_feed W ctx' ms = Some c"
proof (cases "sw_md_update W ctx b")
  case None
  with assms [THEN spec, of "[b]"] show ?thesis by simp
next
  case (Some ctx')
  have "\<exists>c. md_feed W ctx' ms = Some c" for ms
    using assms [THEN spec, of "b # ms"] Some by simp
  with Some that show ?thesis by blast
qed

lemma calm_digest_loop:
  assumes "\<forall>n. \<not> sw_fails W n" "\<forall>ms. \<exists>c. md_feed W ctx ms = Some c"
  shows "\<exists>ctx' s'. digest_loop W ctx rest False s = (Some (ctx', False), s')"
  using assms(2)
proof (induction "length rest" arbitrary: rest ctx s rule: less_induct)
  case less
  have fr: "fread_chunk W rest s = (min 32768 (length rest), False, s\<lparr>ss_tick := Suc (ss_tick s)\<rparr>)"
    using assms(1) by (simp add: fread_chunk_def sus_try_def Let_def)
  show ?case
  proof (cases "rest = []")
    case True
    with fr show ?thesis
      by (subst digest_loop.simps) simp
  next
    case False
    define n where "n = min 32768 (length rest)"
    have n: "n > 0" "length (drop n rest) < length rest"
      using False by (auto simp: n_def)
    obtain ctx' where u: "sw_md_update W ctx (take n rest) = Some ctx'" "\<forall>ms. \<exists>c. md_feed W ctx' ms = Some c"
      using calm_feed_update [OF less.prems] by blast
    from less.hyps [OF n(2) u(2)] u(1) n(1) show ?thesis
      by (subst digest_loop.simps) (simp add: fr n_def [symmetric])
  qed
qed

lemma calm_sha256:
  assumes "calm W sha" "ss_files s p = Some (Regular c)" "p \<noteq> []"
  shows "\<exists>s'. cpkt_sus_sha256_file W p s = (CPKT_SUS_OK, hex_encode (sha c), s')"
proof -
  obtain c0 where c0: "sw_md_init W = Some c0"
      "\<And>ms. \<exists>x. md_feed W c0 ms = Some x \<and> sw_md_final W x = Some (sha (concat ms))"
    using assms(1) unfolding calm_def by blast
  define s2 where "s2 = s\<lparr>ss_tick := Suc (Suc (ss_tick s))\<rparr>"
  have total: "\<forall>ms. \<exists>x. md_feed W c0 ms = Some x"
    using c0(2) by blast
  have "\<forall>n. \<not> sw_fails W n"
    using assms(1) by (simp add: calm_def)
  from calm_digest_loop [OF this total] obtain ctx s3 where
    loop: "digest_loop W c0 c False s2 = (Some (ctx, False), s3)" by blast
  obtain ms where "concat ms = c" "md_feed W c0 ms = Some ctx"
    using digest_loop_run [OF loop] by blast
  with c0(2) [of ms] have "sw_md_final W ctx = Some (sha c)"
    by auto
  moreover have "length (sha c) = 32"
    using assms(1) by (simp add: calm_def)
  ultimately show ?thesis
    using assms(2,3) loop c0(1)
    by (simp add: cpkt_sus_sha256_file_def calm_try [OF assms(1)] s2_def)
qed

lemma calm_validate:
  assumes "calm W sha" "ss_files s p = Some (Regular c)" "p \<noteq> []"
    and "hex_encode (sha c) = expected_sha256 e cfg"
    and "given (cc_sha256 cfg) \<longrightarrow> cpkt_sus_is_sha256_hex (cc_sha256 cfg)"
  shows "\<exists>s'. cpkt_sus_validate_cached_file W p e cfg s = (CPKT_SUS_OK, s')"
proof -
  have "cpkt_sus_is_sha256_hex (Some (expected_sha256 e cfg))"
    using hex_encode_valid [of "sha c"] assms(1,4) by (simp add: calm_def)
  moreover obtain s' where "cpkt_sus_sha256_file W p s = (CPKT_SUS_OK, expected_sha256 e cfg, s')"
    using calm_sha256 [OF assms(1-3)] assms(4) by auto
  ultimately show ?thesis
    using assms(5)
    by (auto simp: cpkt_sus_validate_cached_file_def expected_sha256_def [symmetric] Let_def
        simp del: cpkt_sus_is_sha256_hex.simps)
qed

definition model_config :: "string \<Rightarrow> cpkt_sus_cache_config \<Rightarrow> cpkt_sus_config" where
  "model_config p cfg = \<lparr>mc_model_path = Some p, mc_cpu_only = cc_cpu_only cfg,
      mc_preserve_initial_space = cc_preserve_initial_space cfg\<rparr>"

definition loadable_as :: "'c sus_world \<Rightarrow> cpkt_sus_cache_config \<Rightarrow> byte list \<Rightarrow> bool" where
  "loadable_as W cfg c \<longleftrightarrow> sw_loadable W c (if cc_cpu_only cfg then False else sw_default_gpu W)"

lemma calm_open_path:
  assumes "calm W sha" "ss_files s p = Some (Regular c)" "p \<noteq> []" "loadable_as W cfg c"
  shows "\<exists>m s'. cpkt_sus_open_path W True (Some (model_config p cfg)) s = (CPKT_SUS_OK, Some m, s')"
  using assms(2-4)
  by (simp add: cpkt_sus_open_path_def whisper_init_from_file_def model_config_def given_def Let_def
      calm_try [OF assms(1)] loadable_as_def)

lemma calm_verify:
  assumes "calm W sha" "ss_files s p = Some (Regular c)" "p \<noteq> []" "loadable_as W cfg c"
  shows "\<exists>s'. cpkt_sus_verify_model_file W p cfg s = (CPKT_SUS_OK, s')"
  using calm_open_path [OF assms]
  by (auto simp: cpkt_sus_verify_model_file_def model_config_def)

text \<open>There is no status sink, or it answers 0 to every event.\<close>

definition patient :: "cpkt_sus_cache_config \<Rightarrow> bool" where
  "patient cfg \<longleftrightarrow> (\<forall>sink. cc_status_sink cfg = Some sink \<longrightarrow> (\<forall>h ev. sink h ev = 0))"

lemma emit_patient:
  assumes "patient cfg"
  obtains s' where "cpkt_sus_emit_cache_status cfg ph e p u s = (CPKT_SUS_OK, s')"
proof (cases "cc_status_sink cfg")
  case None
  then show ?thesis using that by (simp add: cpkt_sus_emit_cache_status_def)
next
  case (Some sink)
  with assms have "sink h ev = 0" for h ev by (simp add: patient_def)
  with Some show ?thesis using that by (simp add: cpkt_sus_emit_cache_status_def Let_def)
qed

lemma calm_open_validated:
  assumes "calm W sha" "ss_files s p = Some (Regular c)" "p \<noteq> []" "loadable_as W cfg c"
    and "hex_encode (sha c) = expected_sha256 e cfg"
    and "given (cc_sha256 cfg) \<longrightarrow> cpkt_sus_is_sha256_hex (cc_sha256 cfg)"
    and "patient cfg"
  shows "\<exists>m s'. cpkt_sus_open_validated_cached_file W p e cfg s = (CPKT_SUS_OK, Some m, s')"
proof -
  obtain s1 where v: "cpkt_sus_validate_cached_file W p e cfg s = (CPKT_SUS_OK, s1)"
    using calm_validate [OF assms(1-3,5,6)] by blast
  then have f1: "ss_files s1 p = Some (Regular c)"
    using validate_run [OF v calm_digest [OF assms(1)]] assms(2) tick_only_fields(1) by metis
  obtain s2 where em: "cpkt_sus_emit_cache_status cfg CPKT_SUS_CACHE_STATUS_LOAD_BEGIN e p None s1 = (CPKT_SUS_OK, s2)"
    by (rule emit_patient [OF assms(7)])
  have "ss_files s2 p = Some (Regular c)"
    using f1 emit_fields(1) [OF em] by simp
  from calm_open_path [OF assms(1) this assms(3,4)] v em show ?thesis
    by (auto simp: cpkt_sus_open_validated_cached_file_def model_config_def)
qed

text \<open>Directories can be made when no beginning of the path is a file.\<close>

definition no_file_on :: "sus_state \<Rightarrow> string \<Rightarrow> bool" where
  "no_file_on s path \<longleftrightarrow> (\<forall>p c. prefix p path \<longrightarrow> ss_files s p \<noteq> Some (Regular c))"

lemma no_file_on_dirs: "no_file_on s path \<Longrightarrow> dirs_added s s' \<Longrightarrow> no_file_on s' path"
  unfolding no_file_on_def dirs_added_def by (metis file_node.distinct(1) option.inject)

lemma calm_mkdir_one:
  assumes "calm W sha" "p \<noteq> []" "prefix p path" "no_file_on s path"
  shows "\<exists>s'. cpkt_sus_mkdir_one W p s = (CPKT_SUS_OK, s')"
proof (cases "ss_files s p")
  case None
  then show ?thesis
    using assms(2) by (simp add: cpkt_sus_mkdir_one_def posix_mkdir_def calm_try [OF assms(1)])
next
  case (Some n)
  then have "n = Directory"
    using assms(3,4) by (cases n) (auto simp: no_file_on_def)
  with Some assms(2) show ?thesis
    by (simp add: cpkt_sus_mkdir_one_def posix_mkdir_def calm_try [OF assms(1)])
qed

lemma calm_mkdirs_loop:
  assumes "calm W sha" "no_file_on s (seen @ rest)"
  shows "\<exists>s'. mkdirs_loop W seen rest s = (CPKT_SUS_OK, s')"
  using assms
proof (induction W seen rest s rule: mkdirs_loop.induct)
  case (2 W seen c cs s)
  show ?case
  proof (cases "c = CHR ''/'' \<and> seen \<noteq> []")
    case True
    obtain s1 where m: "cpkt_sus_mkdir_one W seen s = (CPKT_SUS_OK, s1)"
      using calm_mkdir_one [OF "2.prems"(1) _ _ "2.prems"(2), of seen] True by auto
    then have "no_file_on s1 ((seen @ [c]) @ cs)"
      using no_file_on_dirs [OF "2.prems"(2)] mkdir_one_run [OF m] by simp
    with "2.IH"(1) [OF True m [symmetric] refl] "2.prems"(1) m True show ?thesis
      by simp
  next
    case False
    with "2.IH"(2) "2.prems" show ?thesis by auto
  qed
qed simp

lemma calm_mkdirs:
  assumes "calm W sha" "path \<noteq> []" "no_file_on s path"
  shows "\<exists>s'. cpkt_sus_mkdirs W path s = (CPKT_SUS_OK, s')"
proof -
  define k :: nat where "k = (if path ! 0 = CHR ''/'' then 1 else 0)"
  define s1 where "s1 = s\<lparr>ss_tick := Suc (ss_tick s)\<rparr>"
  have "no_file_on s1 (take k path @ drop k path)"
    using assms(3) by (simp add: no_file_on_def s1_def)
  from calm_mkdirs_loop [OF assms(1) this] obtain s2 where
    loop: "mkdirs_loop W (take k path) (drop k path) s1 = (CPKT_SUS_OK, s2)" by blast
  have "no_file_on s2 path"
    using no_file_on_dirs [OF _ conjunct1 [OF mkdirs_loop_run [OF loop]], of path] assms(3)
    by (simp add: no_file_on_def s1_def)
  from calm_mkdir_one [OF assms(1,2) prefix_order.refl this] loop assms(2) show ?thesis
    by (auto simp: cpkt_sus_mkdirs_def cpkt_sus_strdup_range_def calm_try [OF assms(1)] k_def s1_def)
qed

lemma mkdir_one_where: "cpkt_sus_mkdir_one W p s = (r, s') \<Longrightarrow> q \<noteq> p \<Longrightarrow> ss_files s' q = ss_files s q"
  by (auto simp: cpkt_sus_mkdir_one_def posix_mkdir_def sus_try_def Let_def
      split: if_splits mkdir_outcome.splits)

lemma mkdirs_loop_where:
  "mkdirs_loop W seen rest s = (r, s') \<Longrightarrow> \<not> prefix q (seen @ rest) \<Longrightarrow> ss_files s' q = ss_files s q"
proof (induction W seen rest s rule: mkdirs_loop.induct)
  case (2 W seen c cs s)
  obtain r1 s1 where m: "cpkt_sus_mkdir_one W seen s = (r1, s1)"
    by (cases "cpkt_sus_mkdir_one W seen s")
  have q: "q \<noteq> seen"
    using "2.prems"(2) by auto
  show ?case
    using "2.prems" "2.IH"(1) [OF _ m [symmetric] refl] "2.IH"(2) mkdir_one_where [OF m q]
    by (auto simp: m split: if_splits)
qed simp

lemma mkdirs_where:
  assumes "cpkt_sus_mkdirs W path s = (r, s')" "\<not> prefix q path"
  shows "ss_files s' q = ss_files s q"
proof -
  define k :: nat where "k = (if path ! 0 = CHR ''/'' then 1 else 0)"
  define s1 where "s1 = s\<lparr>ss_tick := Suc (ss_tick s)\<rparr>"
  obtain r2 s2 where loop: "mkdirs_loop W (take k path) (drop k path) s1 = (r2, s2)"
    by (cases "mkdirs_loop W (take k path) (drop k path) s1")
  have q: "q \<noteq> path" "ss_files s2 q = ss_files s q"
    using assms(2) mkdirs_loop_where [OF loop] by (auto simp: s1_def)
  consider "s' = s" | "s' = s1" | "s' = s2" | "cpkt_sus_mkdir_one W path s2 = (r, s')"
    using assms(1) loop
    by (auto simp: cpkt_sus_mkdirs_def cpkt_sus_strdup_range_def sus_try_def k_def s1_def Let_def
        split: if_splits)
  then show ?thesis
    by cases (use q mkdir_one_where [of W path s2 r s' q] in \<open>auto simp: s1_def\<close>)
qed

lemma calm_temp_path:
  assumes "calm W sha" "model \<noteq> []" "length model \<le> size_max - 12"
    and "\<And>x. ss_files s (model @ ''.tmp.'' @ x) = None"
  shows "\<exists>f s'. cpkt_sus_temp_path_for W model s = (CPKT_SUS_OK, f, s')"
  using assms(2-4)
  by (simp add: cpkt_sus_temp_path_for_def posix_mkstemp_def calm_try [OF assms(1)] Let_def)

definition source_of :: "cpkt_sus_catalog_entry \<Rightarrow> cpkt_sus_cache_config \<Rightarrow> string" where
  "source_of e cfg = (if given (cc_source_url cfg) then the (cc_source_url cfg) else ce_url e)"

lemma calm_fetch_body:
  assumes "calm W sha" "patient cfg" "url \<noteq> []" "f \<noteq> []"
    and "ss_files s f = Some (Regular [])"
    and "sw_curl W (length (ss_downloads s)) url = (chunks, True)" "\<forall>b\<in>set chunks. length b \<le> size_max"
    and "hex_encode (sha (concat chunks)) = expected_sha256 e cfg" "loadable_as W cfg (concat chunks)"
    and "given (cc_sha256 cfg) \<longrightarrow> cpkt_sus_is_sha256_hex (cc_sha256 cfg)"
  shows "\<exists>s'. fetch_body W url f model e cfg s = (CPKT_SUS_OK, s') \<and> only_file f s s' \<and>
    ss_files s' f = Some (Regular (concat chunks))"
proof -
  have calmW: "\<forall>n. \<not> sw_fails W n"
    using assms(1) by (simp add: calm_def)
  obtain r1 s1 where d: "cpkt_sus_download_to_file W url f s = (r1, s1)"
    by (cases "cpkt_sus_download_to_file W url f s")
  have r1: "r1 = CPKT_SUS_OK"
    using download_run [OF d] calmW assms(3,6,7) by blast
  then have f1: "ss_files s1 f = Some (Regular (concat chunks))" and o1: "only_file f s s1"
    using download_run [OF d] assms(5,6) by auto
  define s2 where "s2 = s1\<lparr>ss_tick := Suc (ss_tick s1)\<rparr>"
  obtain t2 where e2: "cpkt_sus_emit_cache_status cfg CPKT_SUS_CACHE_STATUS_DOWNLOAD_COMPLETE e model (Some url) s2 = (CPKT_SUS_OK, t2)"
    by (rule emit_patient [OF assms(2)])
  obtain u2 where e3: "cpkt_sus_emit_cache_status cfg CPKT_SUS_CACHE_STATUS_VERIFY_BEGIN e model None t2 = (CPKT_SUS_OK, u2)"
    by (rule emit_patient [OF assms(2)])
  have same: "ss_files u2 = ss_files s1" "ss_contexts u2 = ss_contexts s1"
    using emit_fields(1,4) [OF e2] emit_fields(1,4) [OF e3] by (simp_all add: s2_def)
  then have f2: "ss_files u2 f = Some (Regular (concat chunks))"
    using f1 by simp
  obtain s3 where v: "cpkt_sus_validate_cached_file W f e cfg u2 = (CPKT_SUS_OK, s3)"
    using calm_validate [OF assms(1) f2 assms(4,8,10)] by blast
  have t3: "tick_only u2 s3"
    using validate_run [OF v calm_digest [OF assms(1)]] by blast
  then have f3: "ss_files s3 f = Some (Regular (concat chunks))"
    using f2 by (simp add: tick_only_fields)
  obtain s4 where w: "cpkt_sus_verify_model_file W f cfg s3 = (CPKT_SUS_OK, s4)"
    using calm_verify [OF assms(1) f3 assms(4,9)] by blast
  obtain s5 where e5: "cpkt_sus_emit_cache_status cfg CPKT_SUS_CACHE_STATUS_VERIFY_COMPLETE e model None s4 = (CPKT_SUS_OK, s5)"
    by (rule emit_patient [OF assms(2)])
  have "fetch_body W url f model e cfg s = (CPKT_SUS_OK, s5)"
    using d r1 v w e2 e3 e5
    by (simp add: fetch_body_def calm_try [OF assms(1)] and_then_def s2_def Let_def)
  moreover have "only_file f s s5"
    using o1 same verify_run [OF w] tick_only_fields(1,6) [OF t3] emit_fields(1,4) [OF e5] by (auto simp: only_file_def)
  moreover have "ss_files s5 f = Some (Regular (concat chunks))"
    using verify_run [OF w] f3 emit_fields(1) [OF e5] by simp
  ultimately show ?thesis by blast
qed

lemma calm_fetch:
  assumes "calm W sha" "patient cfg" "\<not> cc_offline cfg" "source_of e cfg \<noteq> []"
    and "dir \<noteq> []" "no_file_on s dir" "strict_prefix dir model" "length model \<le> size_max - 12"
    and "ss_files s model = None" "\<And>x. ss_files s (model @ ''.tmp.'' @ x) = None"
    and "sw_curl W (length (ss_downloads s)) (source_of e cfg) = (chunks, True)"
    and "\<forall>b\<in>set chunks. length b \<le> size_max"
    and "hex_encode (sha (concat chunks)) = expected_sha256 e cfg" "loadable_as W cfg (concat chunks)"
    and "given (cc_sha256 cfg) \<longrightarrow> cpkt_sus_is_sha256_hex (cc_sha256 cfg)"
  shows "\<exists>s'. cpkt_sus_fetch_cached_file W model dir e cfg s = (CPKT_SUS_OK, s') \<and>
    ss_files s' model = Some (Regular (concat chunks))"
proof -
  obtain s1 where mk: "cpkt_sus_mkdirs W dir s = (CPKT_SUS_OK, s1)"
    using calm_mkdirs [OF assms(1,5,6)] by blast
  have longer: "\<not> prefix (model @ x) dir" for x
    using assms(7) by (meson prefix_order.le_less_trans prefix_order.less_irrefl append_prefixD)
  have tmp1: "\<And>x. ss_files s1 (model @ ''.tmp.'' @ x) = None" and m1: "ss_files s1 model = None"
    using mkdirs_where [OF mk longer] mkdirs_where [OF mk longer [of "[]"]] assms(9,10) by simp_all
  have "model \<noteq> []"
    using assms(7) by auto
  from calm_temp_path [OF assms(1) this assms(8) tmp1] obtain f s2 where
    tp: "cpkt_sus_temp_path_for W model s1 = (CPKT_SUS_OK, f, s2)" by blast
  have f: "temp_name model f" "ss_files s2 = (ss_files s1)(f \<mapsto> Regular [])"
      "ss_downloads s2 = ss_downloads s"
    using temp_path_run [OF tp] conjunct1 [OF mkdirs_run [OF mk]] by (auto simp: dirs_added_def)
  have ne: "f \<noteq> []" "f \<noteq> model"
    using f(1) by (auto simp: temp_name_def)
  obtain u2 where em: "cpkt_sus_emit_cache_status cfg CPKT_SUS_CACHE_STATUS_DOWNLOAD_BEGIN e model (Some (source_of e cfg)) s2 =
      (CPKT_SUS_OK, u2)"
    by (rule emit_patient [OF assms(2)])
  obtain s3 where b: "fetch_body W (source_of e cfg) f model e cfg u2 = (CPKT_SUS_OK, s3)"
      "only_file f u2 s3" "ss_files s3 f = Some (Regular (concat chunks))"
    using calm_fetch_body [OF assms(1,2,4) ne(1), of u2 chunks e model] f assms(11-15) emit_fields(1,2) [OF em] by auto
  have m3: "ss_files s3 model = None"
    using b(2) f(2) ne m1 emit_fields(1) [OF em] by (auto simp: only_file_def)
  have rn: "posix_rename W f model s3 = (True, s3\<lparr>ss_tick := Suc (ss_tick s3),
      ss_files := (ss_files s3)(model := ss_files s3 f, f := None)\<rparr>)"
    using b(3) m3 by (simp add: posix_rename_def calm_try [OF assms(1)])
  have ren: "and_then (CPKT_SUS_OK, s3) (\<lambda>s. let (ok, s) = posix_rename W f model s in
      (if ok then CPKT_SUS_OK else CPKT_SUS_ERR_IO, s)) =
      (CPKT_SUS_OK, s3\<lparr>ss_tick := Suc (ss_tick s3),
      ss_files := (ss_files s3)(model := ss_files s3 f, f := None)\<rparr>)"
    by (simp add: and_then_def rn)
  have "cpkt_sus_fetch_cached_file W model dir e cfg s = (CPKT_SUS_OK, s3\<lparr>ss_tick := Suc (ss_tick s3),
      ss_files := (ss_files s3)(model := ss_files s3 f, f := None)\<rparr>)"
    using fetch_via_body [OF assms(3) mk tp source_of_def em b(1) ren] by simp
  then show ?thesis
    using b(3) ne by simp
qed

lemma catalog_filenames: "list_all (\<lambda>e. ce_filename e \<noteq> []) cpkt_sus_catalog"
  by (simp add: catalog_defs)

text \<open>Where the cache is: the configured directory, or the one below the user's cache.\<close>

definition joined :: "string \<Rightarrow> string \<Rightarrow> string" where
  "joined l r = l @ (if last l = CHR ''/'' then [] else ''/'') @ r"

definition cache_dir_of :: "'c sus_world \<Rightarrow> cpkt_sus_cache_config \<Rightarrow> string option" where
  "cache_dir_of W cfg =
     (if given (cc_cache_dir cfg) then cc_cache_dir cfg
      else if given (sw_env W ''XDG_CACHE_HOME'')
      then Some (joined (the (sw_env W ''XDG_CACHE_HOME'')) ''cpkt/susurro/models'')
      else if given (sw_env W ''HOME'')
      then Some (joined (joined (the (sw_env W ''HOME'')) ''.cache'') ''cpkt/susurro/models'')
      else None)"

lemma calm_join2:
  assumes "calm W sha" "l \<noteq> []" "r \<noteq> []" "length (joined l r) < size_max"
  obtains s' where "cpkt_sus_join2 W l r s = (CPKT_SUS_OK, joined l r, s')" "tick_only s s'"
proof -
  obtain q p s' where j: "cpkt_sus_join2 W l r s = (q, p, s')"
    by (cases "cpkt_sus_join2 W l r s") auto
  have "q = CPKT_SUS_OK"
    using j assms(2-4)
    by (auto simp: cpkt_sus_join2_def joined_def Let_def calm_try [OF assms(1)] last_conv_nth
        sz_sub_id c_limits split: if_splits)
  then show ?thesis
    using that join2_run [OF j] j by (simp add: joined_def)
qed

lemma calm_cache_dir:
  assumes "calm W sha" "cache_dir_of W cfg = Some dir" "length dir < size_max"
  obtains s' where "cpkt_sus_cache_dir_from_config W cfg s = (CPKT_SUS_OK, dir, s')" "tick_only s s'"
proof -
  have "\<exists>s'. cpkt_sus_cache_dir_from_config W cfg s = (CPKT_SUS_OK, dir, s')"
  proof (cases "given (cc_cache_dir cfg)")
    case True
    then show ?thesis
      using assms(2) by (simp add: cache_dir_of_def cpkt_sus_cache_dir_from_config_def cpkt_sus_strdup_range_def
          calm_try [OF assms(1)])
  next
    case no: False
    show ?thesis
    proof (cases "given (sw_env W ''XDG_CACHE_HOME'')")
      case True
      then have x: "the (sw_env W ''XDG_CACHE_HOME'') \<noteq> []" "joined (the (sw_env W ''XDG_CACHE_HOME'')) ''cpkt/susurro/models'' = dir"
        using no assms(2) by (auto simp: cache_dir_of_def given_def)
      obtain s' where "cpkt_sus_join2 W (the (sw_env W ''XDG_CACHE_HOME'')) ''cpkt/susurro/models'' s = (CPKT_SUS_OK, dir, s')"
        using calm_join2 [OF assms(1) x(1), of "''cpkt/susurro/models''" s] x(2) assms(3) by auto
      with no True show ?thesis
        by (simp add: cpkt_sus_cache_dir_from_config_def cpkt_sus_default_cache_dir_def)
    next
      case False
      let ?base = "joined (the (sw_env W ''HOME'')) ''.cache''"
      have h: "given (sw_env W ''HOME'')" "the (sw_env W ''HOME'') \<noteq> []" "joined ?base ''cpkt/susurro/models'' = dir"
        using no False assms(2) by (auto simp: cache_dir_of_def given_def split: if_splits)
      have b: "?base \<noteq> []" "length ?base \<le> length dir"
        using h(3) by (auto simp: joined_def)
      obtain s1 where "cpkt_sus_join2 W (the (sw_env W ''HOME'')) ''.cache'' s = (CPKT_SUS_OK, ?base, s1)"
        using calm_join2 [OF assms(1) h(2), of "''.cache''" s] b(2) assms(3) by auto
      moreover obtain s' where "cpkt_sus_join2 W ?base ''cpkt/susurro/models'' s1 = (CPKT_SUS_OK, dir, s')"
        using calm_join2 [OF assms(1) b(1), of "''cpkt/susurro/models''" s1] h(3) assms(3) by auto
      ultimately show ?thesis
        using no False h(1) by (simp add: cpkt_sus_cache_dir_from_config_def cpkt_sus_default_cache_dir_def)
    qed
  qed
  then show ?thesis
    using that cache_dir_run by blast
qed

lemma cache_dir_nonempty: "cache_dir_of W cfg = Some dir \<Longrightarrow> dir \<noteq> []"
  by (auto simp: cache_dir_of_def joined_def given_def split: if_splits)

text \<open>
  C11: A missing model is fetched. Let the cache directory be the configured one, or else the one below
  \<open>XDG_CACHE_HOME\<close> or \<open>HOME\<close>, with no file in the place of a directory on the way; let the cache file be
  absent, no temporary file of its name exist and downloads be allowed; let no call fail, the status sink,
  if there is one, answer 0, and the transfer from the source complete and deliver, in whatever
  pieces, contents with the expected checksum that the backend can load. Then opening the model creates
  the directories, publishes exactly these bytes at the cache path and returns a handle loaded from
  them, and a sink has been told of the lookup, the miss, the download, the verification and the load, in
  this order.
\<close>

theorem missing_model_fetched:
  assumes "calm W sha" "patient cfg" "\<not> cc_offline cfg"
    and "given (cc_sha256 cfg) \<longrightarrow> cpkt_sus_is_sha256_hex (cc_sha256 cfg)"
    and "cpkt_sus_find_catalog_entry (cc_model cfg) = Some e" "source_of e cfg \<noteq> []"
    and "cache_dir_of W cfg = Some dir" "no_file_on s dir"
    and "length (cache_path_of dir e) \<le> size_max - 12"
    and "ss_files s (cache_path_of dir e) = None"
    and "\<And>x. ss_files s (cache_path_of dir e @ ''.tmp.'' @ x) = None"
    and "sw_curl W (length (ss_downloads s)) (source_of e cfg) = (chunks, True)"
    and "\<forall>b\<in>set chunks. length b \<le> size_max"
    and "hex_encode (sha (concat chunks)) = expected_sha256 e cfg" "loadable_as W cfg (concat chunks)"
  shows "\<exists>mi s'. cpkt_sus_open_cached W True (Some cfg) s = (CPKT_SUS_OK, Some mi, s') \<and>
    mi_context mi = concat chunks \<and>
    ss_files s' (cache_path_of dir e) = Some (Regular (concat chunks)) \<and>
    map ev_phase (ss_events s') = map ev_phase (ss_events s) @
      (if cc_status_sink cfg = None then []
       else [CPKT_SUS_CACHE_STATUS_LOOKUP, CPKT_SUS_CACHE_STATUS_MISS, CPKT_SUS_CACHE_STATUS_DOWNLOAD_BEGIN,
         CPKT_SUS_CACHE_STATUS_DOWNLOAD_COMPLETE, CPKT_SUS_CACHE_STATUS_VERIFY_BEGIN,
         CPKT_SUS_CACHE_STATUS_VERIFY_COMPLETE, CPKT_SUS_CACHE_STATUS_LOAD_BEGIN])"
proof -
  let ?model = "cache_path_of dir e"
  have dir: "dir \<noteq> []" by (rule cache_dir_nonempty [OF assms(7)])
  have fname: "ce_filename e \<noteq> []"
    using assms(5) catalog_filenames by (auto simp: find_catalog_entry_iff list_all_iff)
  have len: "length dir < size_max" "length (joined dir (ce_filename e)) < size_max"
    using assms(9) fname by (auto simp: cache_path_of_def joined_def c_limits)
  obtain s1 where cd: "cpkt_sus_cache_dir_from_config W cfg s = (CPKT_SUS_OK, dir, s1)" "tick_only s s1"
    by (rule calm_cache_dir [OF assms(1,7) len(1)])
  obtain s2 where j: "cpkt_sus_join2 W dir (ce_filename e) s1 = (CPKT_SUS_OK, ?model, s2)" "tick_only s1 s2"
    using calm_join2 [OF assms(1) dir fname len(2)] by (auto simp: cache_path_of_def joined_def)
  obtain u2 where e1: "cpkt_sus_emit_cache_status cfg CPKT_SUS_CACHE_STATUS_LOOKUP e ?model None s2 = (CPKT_SUS_OK, u2)"
    by (rule emit_patient [OF assms(2)])
  define s3 where "s3 = u2\<lparr>ss_tick := Suc (ss_tick u2)\<rparr>"
  obtain u3 where e2: "cpkt_sus_emit_cache_status cfg CPKT_SUS_CACHE_STATUS_MISS e ?model None s3 = (CPKT_SUS_OK, u3)"
    by (rule emit_patient [OF assms(2)])
  note same = tick_only_fields [OF cd(2)] tick_only_fields [OF j(2)] emit_fields [OF e1] emit_fields [OF e2]
  have files3: "ss_files u2 = ss_files s" "ss_files u3 = ss_files s" "ss_downloads u3 = ss_downloads s"
    by (simp_all add: same s3_def)
  have ph3: "phases u3 = phases s @ sunk cfg [CPKT_SUS_CACHE_STATUS_LOOKUP, CPKT_SUS_CACHE_STATUS_MISS]"
    by (simp add: same s3_def sunk_def)
  have ne: "?model \<noteq> []"
    using dir by (simp add: cache_path_of_def)
  have ex: "cpkt_sus_file_exists W ?model u2 = (False, s3)"
    using ne assms(10) files3 by (simp add: cpkt_sus_file_exists_def calm_try [OF assms(1)] s3_def)
  have "strict_prefix dir ?model"
    using fname by (simp add: cache_path_of_def strict_prefix_def)
  moreover have "no_file_on u3 dir"
    using assms(8) files3 by (simp add: no_file_on_def)
  ultimately obtain s4 where fe: "cpkt_sus_fetch_cached_file W ?model dir e cfg u3 = (CPKT_SUS_OK, s4)"
      "ss_files s4 ?model = Some (Regular (concat chunks))"
    using calm_fetch [OF assms(1-3,6) dir _ _ assms(9), of u3 chunks] assms files3 by auto
  have ph4: "phases s4 = phases u3 @ sunk cfg fetch_phases"
    using fetch_run [OF fe(1) calm_digest [OF assms(1)]] by (auto simp: fetch_phases_def)
  obtain mi s' where ov: "cpkt_sus_open_validated_cached_file W ?model e cfg s4 = (CPKT_SUS_OK, Some mi, s')"
    using calm_open_validated [OF assms(1) fe(2) ne assms(15,14,4,2)] by blast
  have "cpkt_sus_open_cached W True (Some cfg) s = (CPKT_SUS_OK, Some mi, s')"
    using assms(4,5) cd(1) j(1) e1 e2 ex fe(1) ov
    by (simp add: cpkt_sus_open_cached_def del: cpkt_sus_is_sha256_hex.simps)
  moreover have "mi_context mi = concat chunks" "ss_files s' ?model = Some (Regular (concat chunks))"
      "phases s' = phases s4 @ sunk cfg [CPKT_SUS_CACHE_STATUS_LOAD_BEGIN]"
    using open_validated_run [OF ov calm_digest [OF assms(1)]] fe(2) by auto
  ultimately show ?thesis
    using ph3 ph4 by (auto simp: sunk_def fetch_phases_def)
qed

text \<open>A cache below the home directory, and a sink that listens.\<close>

definition demo_fetch_cfg :: cpkt_sus_cache_config where
  "demo_fetch_cfg = (demo_cfg False)\<lparr>cc_cache_dir := None, cc_source_url := Some ''http://m/x''\<rparr>"

definition home_world :: "byte list sus_world" where
  "home_world = demo_world\<lparr>sw_env := (\<lambda>n. if n = ''HOME'' then Some ''/h'' else None)\<rparr>"

theorem missing_model_fetched_witness:
  "\<exists>mi s'. cpkt_sus_open_cached home_world True (Some demo_fetch_cfg) (demo_state\<lparr>ss_files := Map.empty\<rparr>) =
      (CPKT_SUS_OK, Some mi, s') \<and> mi_context mi = [1, 2, 3] \<and>
      ss_files s' ''/h/.cache/cpkt/susurro/models/ggml-tiny.bin'' = Some (Regular [1, 2, 3]) \<and>
      length (ss_events s') = 7"
proof -
  have feed: "md_feed home_world c ms = Some (c @ concat ms)" for c ms
    by (induction ms arbitrary: c) (simp_all add: home_world_def demo_world_def)
  have calm: "calm home_world (\<lambda>c. replicate 32 0)"
    using feed by (simp add: calm_def home_world_def demo_world_def)
  have path: "cache_path_of ''/h/.cache/cpkt/susurro/models'' (hd cpkt_sus_catalog) =
      ''/h/.cache/cpkt/susurro/models/ggml-tiny.bin''"
    using demo_entry by (simp add: cache_path_of_def)
  have cfg: "patient demo_fetch_cfg" "\<not> cc_offline demo_fetch_cfg" "cc_model demo_fetch_cfg = None"
      "cc_sha256 demo_fetch_cfg = Some (replicate 64 (CHR ''0''))"
      "source_of (hd cpkt_sus_catalog) demo_fetch_cfg = ''http://m/x''"
      "expected_sha256 (hd cpkt_sus_catalog) demo_fetch_cfg = replicate 64 (CHR ''0'')"
      "cc_status_sink demo_fetch_cfg \<noteq> None"
    by (simp_all add: demo_fetch_cfg_def demo_cfg_def source_of_def expected_sha256_def given_def patient_def)
  have dir: "cache_dir_of home_world demo_fetch_cfg = Some ''/h/.cache/cpkt/susurro/models''"
    by (simp add: cache_dir_of_def demo_fetch_cfg_def demo_cfg_def home_world_def given_def joined_def)
  have world: "sw_curl home_world n u = ([[1, 2], [3]], True)" "loadable_as home_world demo_fetch_cfg [1, 2, 3]" for n u
    by (simp_all add: home_world_def demo_world_def loadable_as_def)
  have entry: "cpkt_sus_find_catalog_entry (cc_model demo_fetch_cfg) = Some (hd cpkt_sus_catalog)"
    using demo_entry cfg(3) by simp
  have "\<exists>mi s'. cpkt_sus_open_cached home_world True (Some demo_fetch_cfg) (demo_state\<lparr>ss_files := Map.empty\<rparr>) =
      (CPKT_SUS_OK, Some mi, s') \<and> mi_context mi = [1, 2, 3] \<and>
      ss_files s' ''/h/.cache/cpkt/susurro/models/ggml-tiny.bin'' = Some (Regular [1, 2, 3]) \<and>
      length (map ev_phase (ss_events s')) = 7"
    using missing_model_fetched [OF calm cfg(1,2) _ entry _ dir, of "demo_state\<lparr>ss_files := Map.empty\<rparr>" "[[1, 2], [3]]"]
      cfg world demo_hex demo_hex_valid
    by (auto simp: path no_file_on_def c_limits demo_state_def simp del: cpkt_sus_is_sha256_hex.simps length_map)
  then show ?thesis by simp
qed

end
