(* ===== verification/Sus_Text.thy ===== *)
theory Sus_Text
  imports Sus_Cache Audio_Vox
begin

text \<open>
  The transcript of a speech run (\<^verbatim>\<open>src/sus.c\<close>): the growable text buffers, the rules that join a
  recognised text to the transcript (\<^verbatim>\<open>cpkt_sus_transcriber_append_revised_text\<close>,
  \<^verbatim>\<open>cpkt_sus_transcriber_should_strip_initial_space\<close>), the event a segment ends with
  (\<^verbatim>\<open>cpkt_sus_emit_segmented_event\<close>) and the sink that collects the text.

  The record \<open>sus_session\<close> gathers what one transcription touches.  The lemmas relate the cells of a
  buffer to the string in it: \<open>append_run\<close> against \<open>join_text\<close>, \<open>emit_segmented_run\<close> against
  \<open>commit_text\<close>.
\<close>

section \<open>Data\<close>

text \<open>
  What the speech backend keeps of a finished inference: per segment its text, bounds and tokens.
  The count of tokens is an \<open>int\<close> of the backend.
\<close>

record whisper_segment =
  ws_text :: "string option"
  ws_t0 :: int
  ws_t1 :: int
  ws_n_tokens :: int
  ws_token :: "nat \<Rightarrow> int"

record whisper_params =
  wp_n_threads :: int
  wp_translate :: bool
  wp_no_timestamps :: bool
  wp_print_progress :: bool
  wp_print_realtime :: bool
  wp_print_timestamps :: bool
  wp_initial_prompt :: "string option"
  wp_prompt_tokens :: "int list"
  wp_max_tokens :: int
  wp_audio_ctx :: int
  wp_language :: "string option"
  wp_new_segment_callback :: bool
  wp_progress_callback :: bool
  wp_abort_callback :: bool

record cpkt_sus_segment =
  ts_text :: "string option"
  ts_text_length :: nat
  ts_t0 :: int
  ts_t1 :: int

record cpkt_sus_segmented_event =
  sv_text :: string
  sv_text_length :: nat
  sv_t0 :: nat
  sv_t1 :: nat
  sv_step_index :: nat
  sv_is_final :: bool

text \<open>Everything the caller's functions were told, with their answers.\<close>

datatype sus_obs =
    SawSegment cpkt_sus_segment int
  | SawProgress int int
  | SawAbort int
  | SawSegmented cpkt_sus_segmented_event int

text \<open>A caller's function sees its argument and, through its user pointer, what happened before.\<close>

record cpkt_sus_transcriber_config =
  tc_threads :: int
  tc_language :: "string option"
  tc_translate :: bool
  tc_timestamps :: bool
  tc_initial_prompt :: "string option"
  tc_segment_sink :: "(sus_obs list \<Rightarrow> cpkt_sus_segment \<Rightarrow> int) option"
  tc_progress_sink :: "(sus_obs list \<Rightarrow> int \<Rightarrow> int) option"
  tc_abort :: "(sus_obs list \<Rightarrow> int) option"

text \<open>
  A growable buffer is \<open>None\<close> for NULL, otherwise the list of its cells, as many as its capacity;
  cells beyond what was written hold whatever the allocator left there.
\<close>

record cpkt_sus_transcriber_impl =
  ti_config :: cpkt_sus_transcriber_config
  ti_prompt_tokens :: "int list option"
  ti_prompt_count :: nat
  ti_prompt_capacity :: nat
  ti_segmented_segment_count :: nat
  ti_revised_text :: "char list option"
  ti_revised_length :: nat
  ti_revised_capacity :: nat
  ti_aborted :: bool
  ti_callback_error :: bool

text \<open>The state behind the text-collecting sink, and the sinks of a segmented run.\<close>

record cpkt_sus_segmented_text_state =
  st_forward_sink :: "(sus_obs list \<Rightarrow> cpkt_sus_segmented_event \<Rightarrow> int) option"
  st_text :: "char list option"
  st_length :: nat
  st_capacity :: nat
  st_result :: cpkt_sus_result

datatype segmented_sink =
    UserSink "sus_obs list \<Rightarrow> cpkt_sus_segmented_event \<Rightarrow> int"
  | TextSink

text \<open>
  A transcription session: the transcriber, the model it belongs to, the state behind the text sink,
  what the caller's functions saw, the system, the segments in the backend's context, and the
  inferences made, each with its parameters and samples.
\<close>

record sus_session =
  se_impl :: cpkt_sus_transcriber_impl
  se_model :: cpkt_sus_model_impl
  se_text :: cpkt_sus_segmented_text_state
  se_trace :: "sus_obs list"
  se_sys :: sus_state
  se_segments :: "whisper_segment list"
  se_inferences :: "(whisper_params \<times> f32 list) list"

section \<open>Characters\<close>

definition cpkt_sus_ascii_space :: "char \<Rightarrow> bool" where
  "cpkt_sus_ascii_space ch \<longleftrightarrow>
     ch = CHR '' '' \<or> ch = CHR 0x09 \<or> ch = CHR 0x0A \<or> ch = CHR 0x0D \<or> ch = CHR 0x0C \<or> ch = CHR 0x0B"

definition cpkt_sus_ascii_punctuation :: "char \<Rightarrow> bool" where
  "cpkt_sus_ascii_punctuation ch \<longleftrightarrow>
     ch = CHR ''.'' \<or> ch = CHR '','' \<or> ch = CHR '';'' \<or> ch = CHR '':'' \<or> ch = CHR ''!'' \<or>
     ch = CHR ''?'' \<or> ch = CHR '')'' \<or> ch = CHR '']'' \<or> ch = CHR ''}''"

abbreviation NUL :: char where "NUL \<equiv> CHR 0x00"

section \<open>Growable text\<close>

text \<open>\<open>memcpy\<close> into a buffer.\<close>

definition buf_write :: "nat \<Rightarrow> 'a list \<Rightarrow> 'a list \<Rightarrow> 'a list" where
  "buf_write off xs buf = take off buf @ xs @ drop (off + length xs) buf"

definition buf_grow :: "(nat \<Rightarrow> 'a) \<Rightarrow> 'a list option \<Rightarrow> nat \<Rightarrow> 'a list" where
  "buf_grow junk old n =
     (let cells = (case old of None \<Rightarrow> [] | Some b \<Rightarrow> b) in
      take n cells @ map junk [length cells..<n])"

definition cpkt_sus_text_reserve ::
    "'c sus_world \<Rightarrow> char list option \<Rightarrow> nat \<Rightarrow> nat \<Rightarrow> sus_state \<Rightarrow>
     cpkt_sus_result \<times> char list option \<times> nat \<times> sus_state" where
  "cpkt_sus_text_reserve W text capacity needed s =
     (if needed \<le> capacity then (CPKT_SUS_OK, text, capacity, s)
      else case grow_capacity 256 capacity needed of
        None \<Rightarrow> (CPKT_SUS_ERR_ALLOC, text, capacity, s)
      | Some next_capacity \<Rightarrow>
          let (ok, s) = sus_try W s in
          if \<not> ok then (CPKT_SUS_ERR_ALLOC, text, capacity, s)
          else (CPKT_SUS_OK, Some (buf_grow (sw_junk W) text next_capacity), next_capacity, s))"

definition cpkt_sus_transcriber_reset_revised_text :: "cpkt_sus_transcriber_impl \<Rightarrow> cpkt_sus_transcriber_impl" where
  "cpkt_sus_transcriber_reset_revised_text impl =
     impl\<lparr>ti_revised_length := 0,
          ti_revised_text := map_option (\<lambda>b. b[0 := NUL]) (ti_revised_text impl)\<rparr>"

text \<open>The text argument is given with its length: the string itself, which holds no NUL.\<close>

definition cpkt_sus_transcriber_append_revised_text ::
    "'c sus_world \<Rightarrow> string \<Rightarrow> cpkt_sus_transcriber_impl \<Rightarrow> sus_state \<Rightarrow>
     cpkt_sus_result \<times> cpkt_sus_transcriber_impl \<times> sus_state" where
  "cpkt_sus_transcriber_append_revised_text W text impl s =
     (if text = [] then (CPKT_SUS_OK, impl, s)
      else
        let len = ti_revised_length impl;
            separator = (if len > 0 \<and>
                \<not> cpkt_sus_ascii_space (the (ti_revised_text impl) ! (len - 1)) \<and>
                \<not> cpkt_sus_ascii_punctuation (text ! 0) then 1 else 0)
        in
        if length text > sz_sub (sz_sub (sz_sub size_max len) separator) 1
        then (CPKT_SUS_ERR_ALLOC, impl, s)
        else
          let needed = len + separator + length text + 1;
              (r, buf, cap, s) = cpkt_sus_text_reserve W (ti_revised_text impl) (ti_revised_capacity impl) needed s;
              impl = impl\<lparr>ti_revised_text := buf, ti_revised_capacity := cap\<rparr>
          in
          if r \<noteq> CPKT_SUS_OK then (r, impl, s)
          else
            let b = the buf;
                b = (if separator \<noteq> 0 then b[len := CHR '' ''] else b);
                len = len + separator;
                b = buf_write len text b;
                len = len + length text;
                b = b[len := NUL]
            in (CPKT_SUS_OK, impl\<lparr>ti_revised_text := Some b, ti_revised_length := len\<rparr>, s))"

definition cpkt_sus_transcriber_should_strip_initial_space ::
    "cpkt_sus_transcriber_impl \<Rightarrow> cpkt_sus_model_impl \<Rightarrow> bool \<times> cpkt_sus_model_impl" where
  "cpkt_sus_transcriber_should_strip_initial_space impl model =
     (if ti_revised_length impl \<noteq> 0 then (False, model)
      else if \<not> mi_preserve model then (True, model)
      else if mi_initial_space_seen model then (False, model)
      else (True, model\<lparr>mi_initial_space_seen := True\<rparr>))"

definition cpkt_sus_segmented_text_replace ::
    "'c sus_world \<Rightarrow> string \<Rightarrow> cpkt_sus_segmented_text_state \<Rightarrow> sus_state \<Rightarrow>
     cpkt_sus_result \<times> cpkt_sus_segmented_text_state \<times> sus_state" where
  "cpkt_sus_segmented_text_replace W text state s =
     (let (r, buf, cap, s) = cpkt_sus_text_reserve W (st_text state) (st_capacity state) (sz (length text + 1)) s;
          state = state\<lparr>st_text := buf, st_capacity := cap\<rparr>
      in if r \<noteq> CPKT_SUS_OK then (r, state, s)
         else
           let b = (if text \<noteq> [] then buf_write 0 text (the buf) else the buf) in
           (CPKT_SUS_OK, state\<lparr>st_text := Some (b[length text := NUL]), st_length := length text\<rparr>, s))"

definition cpkt_sus_segmented_text_sink ::
    "'c sus_world \<Rightarrow> sus_obs list \<Rightarrow> cpkt_sus_segmented_event \<Rightarrow> cpkt_sus_segmented_text_state \<Rightarrow> sus_state \<Rightarrow>
     int \<times> cpkt_sus_segmented_text_state \<times> sus_state" where
  "cpkt_sus_segmented_text_sink W seen event state s =
     (let (r, state, s) = cpkt_sus_segmented_text_replace W (sv_text event) state s in
      if r \<noteq> CPKT_SUS_OK then (1, state\<lparr>st_result := r\<rparr>, s)
      else case st_forward_sink state of
             Some f \<Rightarrow> (f seen event, state, s)
           | None \<Rightarrow> (0, state, s))"

text \<open>The C string in a buffer: its cells up to the recorded length.\<close>

definition revised_string :: "cpkt_sus_transcriber_impl \<Rightarrow> string" where
  "revised_string impl =
     (case ti_revised_text impl of None \<Rightarrow> [] | Some b \<Rightarrow> take (ti_revised_length impl) b)"

text \<open>The delivery of an event to the sink, when there is one.\<close>

definition deliver_segmented ::
    "'c sus_world \<Rightarrow> segmented_sink option \<Rightarrow> nat \<Rightarrow> nat \<Rightarrow> nat \<Rightarrow> bool \<Rightarrow> sus_session \<Rightarrow>
     cpkt_sus_result \<times> sus_session" where
  "deliver_segmented W sink step_index t0 t1 final x =
     (case sink of
        None \<Rightarrow> (CPKT_SUS_OK, x)
      | Some sk \<Rightarrow>
          let event = \<lparr>sv_text = revised_string (se_impl x), sv_text_length = ti_revised_length (se_impl x),
                       sv_t0 = t0, sv_t1 = t1, sv_step_index = step_index, sv_is_final = final\<rparr>;
              (rc, x) =
                (case sk of
                   UserSink f \<Rightarrow> (f (se_trace x) event, x)
                 | TextSink \<Rightarrow>
                     let (rc, st, s) = cpkt_sus_segmented_text_sink W (se_trace x) event (se_text x) (se_sys x)
                     in (rc, x\<lparr>se_text := st, se_sys := s\<rparr>));
              x = x\<lparr>se_trace := se_trace x @ [SawSegmented event rc]\<rparr>
          in
          if rc \<noteq> 0 then (CPKT_SUS_ERR_CALLBACK, x\<lparr>se_impl := (se_impl x)\<lparr>ti_callback_error := True\<rparr>\<rparr>)
          else (CPKT_SUS_OK, x))"

definition cpkt_sus_emit_segmented_event ::
    "'c sus_world \<Rightarrow> segmented_sink option \<Rightarrow> string option \<Rightarrow> nat \<Rightarrow> nat \<Rightarrow> nat \<Rightarrow> bool \<Rightarrow> sus_session \<Rightarrow>
     cpkt_sus_result \<times> sus_session" where
  "cpkt_sus_emit_segmented_event W sink text step_index t0 t1 final x =
     (let utt = (case text of None \<Rightarrow> [] | Some t \<Rightarrow> t);
          (strip, model) =
            (if utt \<noteq> [] \<and> utt ! 0 = CHR '' '' then
               cpkt_sus_transcriber_should_strip_initial_space (se_impl x) (se_model x)
             else (False, se_model x));
          utt = (if strip then tl utt else utt);
          (r, impl, s) =
            (if utt \<noteq> [] then cpkt_sus_transcriber_append_revised_text W utt (se_impl x) (se_sys x)
             else (CPKT_SUS_OK, se_impl x, se_sys x));
          x = x\<lparr>se_model := model, se_impl := impl, se_sys := s\<rparr>
      in
      if r \<noteq> CPKT_SUS_OK then (r, x) else deliver_segmented W sink step_index t0 t1 final x)"

definition cpkt_sus_transcriber_revised_text_impl ::
    "'c sus_world \<Rightarrow> bool \<Rightarrow> cpkt_sus_transcriber_impl option \<Rightarrow> sus_state \<Rightarrow> cpkt_sus_result \<times> string option \<times> sus_state" where
  "cpkt_sus_transcriber_revised_text_impl W has_out self s =
     (case self of
        None \<Rightarrow> (CPKT_SUS_ERR_ARG, None, s)
      | Some impl \<Rightarrow>
          if \<not> has_out then (CPKT_SUS_ERR_ARG, None, s)
          else
            let text = (case ti_revised_text impl of Some b \<Rightarrow> b | None \<Rightarrow> []);
                len = (if ti_revised_text impl \<noteq> None then ti_revised_length impl else 0);
                (copy, s) = cpkt_sus_strdup_range W text len s
            in (if copy \<noteq> None then CPKT_SUS_OK else CPKT_SUS_ERR_ALLOC, copy, s))"

section \<open>The buffer\<close>

definition buf_wf :: "char list option \<Rightarrow> nat \<Rightarrow> nat \<Rightarrow> bool" where
  "buf_wf text len cap \<longleftrightarrow>
     (case text of
        None \<Rightarrow> len = 0 \<and> cap = 0
      | Some b \<Rightarrow> length b = cap \<and> len < cap \<and> cap < size_max \<and> b ! len = NUL)"

abbreviation text_wf :: "cpkt_sus_transcriber_impl \<Rightarrow> bool" where
  "text_wf impl \<equiv> buf_wf (ti_revised_text impl) (ti_revised_length impl) (ti_revised_capacity impl)"

lemma length_buf_write [simp]: "off + length xs \<le> length buf \<Longrightarrow> length (buf_write off xs buf) = length buf"
  by (simp add: buf_write_def)

lemma take_buf_write: "off + length xs \<le> length buf \<Longrightarrow> take (off + length xs) (buf_write off xs buf) = take off buf @ xs"
  by (simp add: buf_write_def)

lemma length_buf_grow [simp]: "length (buf_grow junk old n) = n" if "length (case old of None \<Rightarrow> [] | Some b \<Rightarrow> b) \<le> n"
  using that by (simp add: buf_grow_def Let_def)

text \<open>Doubling never reaches the largest \<open>size_t\<close>, which is odd.\<close>

lemma grow_loop_below:
  assumes "grow_loop needed cap = Some c" "cap < size_max"
  shows "c < size_max"
  using assms
proof (induction needed cap rule: grow_loop.induct)
  case (1 needed cap)
  then show ?case
    by (auto simp: grow_loop.simps [of needed cap] c_limits split: if_splits)
qed

text \<open>A reservation keeps the cells there were and gives the room asked for, or changes nothing.\<close>

lemma reserve_run:
  assumes "cpkt_sus_text_reserve W text cap needed s = (r, text', cap', s')" "buf_wf text len cap" "0 < needed"
    "needed \<le> size_max"
  shows "tick_only s s' \<and>
    (if r = CPKT_SUS_OK
     then \<exists>b. text' = Some b \<and> length b = cap' \<and> needed \<le> cap' \<and> cap' < size_max \<and>
       take len b = take len (case text of None \<Rightarrow> [] | Some b \<Rightarrow> b)
     else r = CPKT_SUS_ERR_ALLOC \<and> text' = text \<and> cap' = cap)"
proof (cases "needed \<le> cap")
  case True
  with assms show ?thesis
    by (auto simp: cpkt_sus_text_reserve_def buf_wf_def split: option.splits)
next
  case False
  show ?thesis
  proof (cases "grow_capacity 256 cap needed")
    case None
    with False assms(1) show ?thesis
      by (simp add: cpkt_sus_text_reserve_def)
  next
    case (Some c)
    have cap: "cap < size_max" "length (case text of None \<Rightarrow> [] | Some b \<Rightarrow> b) = cap"
      using assms(2) by (auto simp: buf_wf_def c_limits split: option.splits)
    then have c: "needed \<le> c" "cap \<le> c" "c < size_max"
      using grow_loop_Some [OF Some [unfolded grow_capacity_def]]
        grow_loop_below [OF Some [unfolded grow_capacity_def]] False
      by (auto simp: c_limits split: if_splits)
    have len: "len \<le> cap"
      using assms(2) by (auto simp: buf_wf_def split: option.splits)
    show ?thesis
    proof (cases "sw_fails W (ss_tick s)")
      case True
      then have "r = CPKT_SUS_ERR_ALLOC" "text' = text" "cap' = cap" "tick_only s s'"
        using False Some assms(1) by (auto simp: cpkt_sus_text_reserve_def sus_try_def)
      then show ?thesis by simp
    next
      case ok: False
      then have out: "r = CPKT_SUS_OK" "text' = Some (buf_grow (sw_junk W) text c)" "cap' = c" "tick_only s s'"
        using False Some assms(1) by (auto simp: cpkt_sus_text_reserve_def sus_try_def)
      moreover have "take len (buf_grow (sw_junk W) text c) = take len (case text of None \<Rightarrow> [] | Some b \<Rightarrow> b)"
        using cap(2) c(2) len by (simp add: buf_grow_def Let_def)
      ultimately show ?thesis
        using c cap by simp
    qed
  qed
qed

section \<open>The transcript\<close>

text \<open>
  How a committed text continues the transcript: with a space between them unless the transcript ends
  in white space or the text begins with punctuation.
\<close>

definition join_text :: "string \<Rightarrow> string \<Rightarrow> string" where
  "join_text old new =
     (if new = [] then old
      else old @ (if old \<noteq> [] \<and> \<not> cpkt_sus_ascii_space (last old) \<and> \<not> cpkt_sus_ascii_punctuation (hd new)
                  then '' '' else []) @ new)"

lemma wf_string: "text_wf impl \<Longrightarrow> length (revised_string impl) = ti_revised_length impl"
  by (auto simp: buf_wf_def revised_string_def split: option.splits)

lemma last_take: "0 < n \<Longrightarrow> n \<le> length xs \<Longrightarrow> last (take n xs) = xs ! (n - 1)"
  by (subst last_conv_nth) auto

lemma append_run:
  assumes "cpkt_sus_transcriber_append_revised_text W text impl s = (r, impl', s')" "text_wf impl"
  shows "text_wf impl' \<and> tick_only s s' \<and>
    ti_config impl' = ti_config impl \<and> ti_callback_error impl' = ti_callback_error impl \<and>
    (if r = CPKT_SUS_OK then revised_string impl' = join_text (revised_string impl) text
     else r = CPKT_SUS_ERR_ALLOC \<and> impl' = impl)"
proof (cases "text = []")
  case True
  with assms show ?thesis
    by (auto simp: cpkt_sus_transcriber_append_revised_text_def join_text_def)
next
  case ne: False
  define len where "len = ti_revised_length impl"
  define sep :: nat where "sep = (if len > 0 \<and> \<not> cpkt_sus_ascii_space (the (ti_revised_text impl) ! (len - 1)) \<and>
      \<not> cpkt_sus_ascii_punctuation (text ! 0) then 1 else 0)"
  have old: "length (revised_string impl) = len" "Suc len < size_max"
    using wf_string [OF assms(2)] assms(2) by (auto simp: len_def buf_wf_def c_limits split: option.splits)
  have sep_le: "sep \<le> 1"
    by (simp add: sep_def)
  have bound: "sz_sub (sz_sub (sz_sub size_max len) sep) 1 = size_max - len - sep - 1"
    using sep_le old(2) by (simp add: sz_sub_id)
  have sep_join: "join_text (revised_string impl) text =
      revised_string impl @ (if sep \<noteq> 0 then '' '' else []) @ text"
    using ne assms(2)
    by (auto simp: join_text_def sep_def revised_string_def buf_wf_def len_def hd_conv_nth last_take
        split: option.splits)
  have body: "cpkt_sus_transcriber_append_revised_text W text impl s =
      (if size_max - len - sep - 1 < length text then (CPKT_SUS_ERR_ALLOC, impl, s)
       else case cpkt_sus_text_reserve W (ti_revised_text impl) (ti_revised_capacity impl)
           (len + sep + length text + 1) s of
         (r, buf, cap, s) \<Rightarrow>
           if r \<noteq> CPKT_SUS_OK then (r, impl\<lparr>ti_revised_text := buf, ti_revised_capacity := cap\<rparr>, s)
           else (CPKT_SUS_OK, impl\<lparr>ti_revised_text := buf, ti_revised_capacity := cap,
             ti_revised_text := Some ((buf_write (len + sep) text
                (if sep \<noteq> 0 then (the buf)[len := CHR '' ''] else the buf))[len + sep + length text := NUL]),
             ti_revised_length := len + sep + length text\<rparr>, s))"
    unfolding cpkt_sus_transcriber_append_revised_text_def Let_def len_def [symmetric] sep_def [symmetric]
      if_not_P [OF ne] bound by (rule refl)
  show ?thesis
  proof (cases "length text > size_max - len - sep - 1")
    case True
    with assms body show ?thesis by simp
  next
    case False
    define needed where "needed = len + sep + length text + 1"
    have n: "0 < needed" "needed \<le> size_max"
      using False old(2) sep_le by (auto simp: needed_def)
    obtain r1 buf cap s1 where rv: "cpkt_sus_text_reserve W (ti_revised_text impl) (ti_revised_capacity impl) needed s =
        (r1, buf, cap, s1)"
      by (metis prod_cases4)
    note run = reserve_run [OF rv assms(2) n]
    show ?thesis
    proof (cases "r1 = CPKT_SUS_OK")
      case bad: False
      then have "impl' = impl\<lparr>ti_revised_text := buf, ti_revised_capacity := cap\<rparr>" "r = r1" "s' = s1"
        using assms(1) body False rv by (auto simp: needed_def)
      with run bad assms(2) show ?thesis by auto
    next
      case ok: True
      then obtain b where b: "buf = Some b" "length b = cap" "needed \<le> cap" "cap < size_max"
          "take len b = revised_string impl"
        using run by (auto simp: revised_string_def len_def split: option.splits)
      define b1 where "b1 = (if sep \<noteq> 0 then b[len := CHR '' ''] else b)"
      define b2 where "b2 = buf_write (len + sep) text b1"
      have eq: "impl' = impl\<lparr>ti_revised_text := Some (b2[len + sep + length text := NUL]),
          ti_revised_capacity := cap, ti_revised_length := len + sep + length text\<rparr>" "r = CPKT_SUS_OK" "s' = s1"
        using assms(1) body False rv ok b(1) by (auto simp: needed_def b1_def b2_def)
      have l1: "length b1 = cap" "len + sep + length text < cap"
        using b n by (auto simp: b1_def needed_def)
      have "take (len + sep) b1 = revised_string impl @ (if sep \<noteq> 0 then '' '' else [])"
        using b sep_le l1(2) by (cases "sep = 0") (auto simp: b1_def take_Suc_snoc le_Suc_eq)
      then have "take (len + sep + length text) b2 = join_text (revised_string impl) text"
        using l1 by (simp add: b2_def take_buf_write sep_join)
      then have "revised_string impl' = join_text (revised_string impl) text"
        by (simp add: eq revised_string_def)
      moreover have "text_wf impl'"
        using l1 b by (simp add: eq buf_wf_def b2_def)
      ultimately show ?thesis
        using run eq by simp
    qed
  qed
qed

lemma reset_run:
  assumes "text_wf impl"
  shows "text_wf (cpkt_sus_transcriber_reset_revised_text impl)"
    "revised_string (cpkt_sus_transcriber_reset_revised_text impl) = []"
  using assms
  by (auto simp: cpkt_sus_transcriber_reset_revised_text_def buf_wf_def revised_string_def
      split: option.splits)

text \<open>The string the text sink has collected.\<close>

definition collected :: "cpkt_sus_segmented_text_state \<Rightarrow> string" where
  "collected st = (case st_text st of None \<Rightarrow> [] | Some b \<Rightarrow> take (st_length st) b)"

abbreviation collect_wf :: "cpkt_sus_segmented_text_state \<Rightarrow> bool" where
  "collect_wf st \<equiv> buf_wf (st_text st) (st_length st) (st_capacity st)"

lemma replace_run:
  assumes "cpkt_sus_segmented_text_replace W text st s = (r, st', s')" "collect_wf st" "length text < size_max"
  shows "collect_wf st' \<and> tick_only s s' \<and> st_forward_sink st' = st_forward_sink st \<and> st_result st' = st_result st \<and>
    (if r = CPKT_SUS_OK then collected st' = text else r = CPKT_SUS_ERR_ALLOC \<and> st' = st)"
proof -
  obtain r1 buf cap s1 where rv: "cpkt_sus_text_reserve W (st_text st) (st_capacity st) (length text + 1) s =
      (r1, buf, cap, s1)"
    by (metis prod_cases4)
  have needed: "0 < length text + 1" "length text + 1 \<le> size_max" "sz (length text + 1) = length text + 1"
    using assms(3) by (simp_all add: sz_id)
  note run = reserve_run [OF rv assms(2) needed(1,2)]
  have body: "cpkt_sus_segmented_text_replace W text st s =
      (if r1 \<noteq> CPKT_SUS_OK then (r1, st\<lparr>st_text := buf, st_capacity := cap\<rparr>, s1)
       else (CPKT_SUS_OK, st\<lparr>st_capacity := cap,
         st_text := Some ((if text \<noteq> [] then buf_write 0 text (the buf) else the buf)[length text := NUL]),
         st_length := length text\<rparr>, s1))"
    unfolding cpkt_sus_segmented_text_replace_def needed(3) rv by (simp add: Let_def)
  show ?thesis
  proof (cases "r1 = CPKT_SUS_OK")
    case False
    then have "r = r1" "st' = st\<lparr>st_text := buf, st_capacity := cap\<rparr>" "s' = s1"
      using body assms(1) by auto
    with False run assms(2) show ?thesis by auto
  next
    case True
    then obtain b where b: "buf = Some b" "length b = cap" "length text + 1 \<le> cap" "cap < size_max"
      using run by auto
    define b1 where "b1 = (if text \<noteq> [] then buf_write 0 text b else b)"
    have eq: "r = CPKT_SUS_OK" "s' = s1" "st' = st\<lparr>st_capacity := cap, st_text := Some (b1[length text := NUL]),
         st_length := length text\<rparr>"
      using body True b(1) assms(1) by (auto simp: b1_def)
    have b1: "length b1 = cap" "take (length text) b1 = text"
      using b(2,3) take_buf_write [of 0 "text" b] by (auto simp: b1_def buf_write_def)
    with eq run b True show ?thesis
      by (simp add: collected_def buf_wf_def)
  qed
qed

lemma text_sink_run:
  assumes "cpkt_sus_segmented_text_sink W seen ev st s = (rc, st', s')" "collect_wf st"
    "length (sv_text ev) < size_max"
  shows "collect_wf st' \<and> tick_only s s' \<and> st_forward_sink st' = st_forward_sink st \<and>
    (rc = 0 \<longrightarrow> collected st' = sv_text ev \<and> st_result st' = st_result st)"
proof -
  obtain r st1 s1 where rp: "cpkt_sus_segmented_text_replace W (sv_text ev) st s = (r, st1, s1)"
    by (metis prod_cases3)
  note run = replace_run [OF rp assms(2,3)]
  show ?thesis
  proof (cases "r = CPKT_SUS_OK")
    case True
    with run rp assms(1) show ?thesis
      by (auto simp: cpkt_sus_segmented_text_sink_def split: option.splits)
  next
    case False
    with run rp assms show ?thesis
      by (auto simp: cpkt_sus_segmented_text_sink_def)
  qed
qed

section \<open>Committing a text\<close>

text \<open>
  The specification of a commit, on the transcript and the model's record that an initial space was
  dropped: one space at the start of the transcript is dropped, when the model is to preserve later
  ones only for the first transcript.
\<close>

definition drops_space :: "bool \<Rightarrow> bool \<Rightarrow> string \<Rightarrow> string \<Rightarrow> bool" where
  "drops_space preserve seen old new \<longleftrightarrow>
     new \<noteq> [] \<and> hd new = CHR '' '' \<and> old = [] \<and> \<not> (preserve \<and> seen)"

definition commit_text :: "bool \<Rightarrow> bool \<times> string \<Rightarrow> string \<Rightarrow> bool \<times> string" where
  "commit_text preserve st new =
     (case st of (seen, old) \<Rightarrow>
        if drops_space preserve seen old new then (seen \<or> preserve, join_text old (tl new))
        else (seen, join_text old new))"

definition transcript :: "sus_session \<Rightarrow> bool \<times> string" where
  "transcript x = (mi_initial_space_seen (se_model x), revised_string (se_impl x))"

definition session_wf :: "sus_session \<Rightarrow> bool" where
  "session_wf x \<longleftrightarrow> text_wf (se_impl x) \<and> collect_wf (se_text x)"

lemma strip_run:
  assumes "text_wf impl"
  shows "cpkt_sus_transcriber_should_strip_initial_space impl model =
    (if revised_string impl = [] \<and> \<not> (mi_preserve model \<and> mi_initial_space_seen model)
     then (True, model\<lparr>mi_initial_space_seen := mi_initial_space_seen model \<or> mi_preserve model\<rparr>) else (False, model))"
proof -
  have "ti_revised_length impl = 0 \<longleftrightarrow> revised_string impl = []"
    using wf_string [OF assms] by auto
  then show ?thesis
    by (cases model) (auto simp: cpkt_sus_transcriber_should_strip_initial_space_def)
qed

text \<open>
  One event with the whole transcript, when there is a sink, and the result its answer asks for; the
  text sink has then collected the transcript.
\<close>

definition delivered ::
    "segmented_sink option \<Rightarrow> nat \<Rightarrow> nat \<Rightarrow> nat \<Rightarrow> bool \<Rightarrow> sus_obs list \<Rightarrow> cpkt_sus_result \<Rightarrow> sus_session \<Rightarrow> bool" where
  "delivered sink k t0 t1 fin tr r x' \<longleftrightarrow>
     (if sink = None then r = CPKT_SUS_OK \<and> se_trace x' = tr
      else \<exists>rc. se_trace x' = tr @ [SawSegmented \<lparr>sv_text = revised_string (se_impl x'),
            sv_text_length = length (revised_string (se_impl x')), sv_t0 = t0, sv_t1 = t1, sv_step_index = k,
            sv_is_final = fin\<rparr> rc] \<and>
          r = (if rc = 0 then CPKT_SUS_OK else CPKT_SUS_ERR_CALLBACK) \<and>
          (sink = Some TextSink \<and> rc = 0 \<longrightarrow> collected (se_text x') = revised_string (se_impl x')))"

lemma deliver_run:
  assumes "deliver_segmented W sink k t0 t1 fin x = (r, x')" "session_wf x"
  shows "session_wf x' \<and> tick_only (se_sys x) (se_sys x') \<and>
    ti_config (se_impl x') = ti_config (se_impl x) \<and> se_model x' = se_model x \<and>
    revised_string (se_impl x') = revised_string (se_impl x) \<and> r \<noteq> CPKT_SUS_ERR_ALLOC \<and>
    delivered sink k t0 t1 fin (se_trace x) r x'"
proof (cases sink)
  case None
  with assms show ?thesis
    by (simp add: deliver_segmented_def delivered_def)
next
  case (Some sk)
  define event where "event = \<lparr>sv_text = revised_string (se_impl x), sv_text_length = ti_revised_length (se_impl x),
      sv_t0 = t0, sv_t1 = t1, sv_step_index = k, sv_is_final = fin\<rparr>"
  have wf: "text_wf (se_impl x)" "collect_wf (se_text x)"
    using assms(2) by (auto simp: session_wf_def)
  have ev: "sv_text_length event = length (sv_text event)" "length (sv_text event) < size_max"
    using wf_string [OF wf(1)] wf(1) by (auto simp: event_def buf_wf_def c_limits split: option.splits)
  obtain rc x2 where ans: "(case sk of UserSink f \<Rightarrow> (f (se_trace x) event, x)
      | TextSink \<Rightarrow> let (rc, st, s) = cpkt_sus_segmented_text_sink W (se_trace x) event (se_text x) (se_sys x)
          in (rc, x\<lparr>se_text := st, se_sys := s\<rparr>)) = (rc, x2)"
    by (metis surj_pair)
  have x2: "se_impl x2 = se_impl x" "se_model x2 = se_model x" "se_trace x2 = se_trace x"
      "collect_wf (se_text x2)" "tick_only (se_sys x) (se_sys x2)"
      "sk = TextSink \<and> rc = 0 \<longrightarrow> collected (se_text x2) = sv_text event"
    using ans wf(2)
    by (auto dest: text_sink_run [OF _ wf(2) ev(2)] split: segmented_sink.splits prod.splits)
  define x3 where "x3 = x2\<lparr>se_trace := se_trace x @ [SawSegmented event rc]\<rparr>"
  have x3: "se_impl x3 = se_impl x" "se_model x3 = se_model x" "se_sys x3 = se_sys x2" "se_text x3 = se_text x2"
      "se_trace x3 = se_trace x @ [SawSegmented event rc]"
    by (simp_all add: x3_def x2)
  have out: "r = (if rc = 0 then CPKT_SUS_OK else CPKT_SUS_ERR_CALLBACK)"
      "x' = (if rc = 0 then x3 else x3\<lparr>se_impl := (se_impl x)\<lparr>ti_callback_error := True\<rparr>\<rparr>)"
    using assms(1) Some ans x2
    by (auto simp: deliver_segmented_def event_def [symmetric] Let_def x3_def split: if_splits)
  have x': "se_model x' = se_model x" "se_sys x' = se_sys x2" "se_text x' = se_text x2"
      "se_trace x' = se_trace x @ [SawSegmented event rc]" "text_wf (se_impl x')"
      "ti_config (se_impl x') = ti_config (se_impl x)" "revised_string (se_impl x') = revised_string (se_impl x)"
    using wf(1) by (simp_all add: out(2) x3 revised_string_def cong: option.case_cong)
  have event: "event = \<lparr>sv_text = revised_string (se_impl x'), sv_text_length = length (revised_string (se_impl x')),
      sv_t0 = t0, sv_t1 = t1, sv_step_index = k, sv_is_final = fin\<rparr>"
    by (simp add: event_def x'(7) wf_string [OF wf(1)])
  have "delivered sink k t0 t1 fin (se_trace x) r x'"
    unfolding delivered_def using Some x'(3,4) x2(6) out(1) event by auto
  then show ?thesis
    using x' x2(4,5) out(1) by (auto simp: session_wf_def)
qed

lemma emit_segmented_exact:
  assumes "cpkt_sus_emit_segmented_event W sink text k t0 t1 fin x = (r, x')" "session_wf x"
  shows "session_wf x' \<and> tick_only (se_sys x) (se_sys x') \<and>
    ti_config (se_impl x') = ti_config (se_impl x) \<and> mi_preserve (se_model x') = mi_preserve (se_model x) \<and>
    mi_context (se_model x') = mi_context (se_model x) \<and>
    (if r = CPKT_SUS_ERR_ALLOC then revised_string (se_impl x') = revised_string (se_impl x) \<and> se_trace x' = se_trace x \<and>
       x' = x\<lparr>se_model := (se_model x)\<lparr>mi_initial_space_seen :=
           fst (commit_text (mi_preserve (se_model x)) (transcript x) (case text of None \<Rightarrow> [] | Some t \<Rightarrow> t))\<rparr>,
         se_sys := se_sys x'\<rparr>
     else transcript x' = commit_text (mi_preserve (se_model x)) (transcript x) (case text of None \<Rightarrow> [] | Some t \<Rightarrow> t) \<and>
       delivered sink k t0 t1 fin (se_trace x) r x')"
proof -
  define utt where "utt = (case text of None \<Rightarrow> [] | Some t \<Rightarrow> t)"
  define prior where "prior = revised_string (se_impl x)"
  define p where "p = mi_preserve (se_model x)"
  define seen where "seen = mi_initial_space_seen (se_model x)"
  define drop1 where "drop1 = drops_space p seen prior utt"
  define m1 where "m1 = (se_model x)\<lparr>mi_initial_space_seen := (if drop1 then seen \<or> p else seen)\<rparr>"
  define utt1 where "utt1 = (if drop1 then tl utt else utt)"
  have wf: "text_wf (se_impl x)" "collect_wf (se_text x)"
    using assms(2) by (auto simp: session_wf_def)
  have strip: "(if utt \<noteq> [] \<and> utt ! 0 = CHR '' '' then
      cpkt_sus_transcriber_should_strip_initial_space (se_impl x) (se_model x) else (False, se_model x)) = (drop1, m1)"
    by (auto simp: strip_run [OF wf(1)] drop1_def drops_space_def m1_def prior_def p_def seen_def hd_conv_nth)
  obtain r1 impl1 s1 where ap: "(if utt1 \<noteq> [] then cpkt_sus_transcriber_append_revised_text W utt1 (se_impl x) (se_sys x)
      else (CPKT_SUS_OK, se_impl x, se_sys x)) = (r1, impl1, s1)"
    by (metis prod_cases3)
  have run: "text_wf impl1" "tick_only (se_sys x) s1" "ti_config impl1 = ti_config (se_impl x)"
      "if r1 = CPKT_SUS_OK then revised_string impl1 = join_text prior utt1 else r1 = CPKT_SUS_ERR_ALLOC \<and> impl1 = se_impl x"
    using ap append_run [of W utt1 "se_impl x" "se_sys x" r1 impl1 s1] wf(1)
    by (auto simp: prior_def join_text_def split: if_splits)
  define x1 where "x1 = x\<lparr>se_model := m1, se_impl := impl1, se_sys := s1\<rparr>"
  have spec: "commit_text p (seen, prior) utt = (mi_initial_space_seen m1, join_text prior utt1)"
    by (simp add: commit_text_def drop1_def [symmetric] m1_def utt1_def)
  have body: "cpkt_sus_emit_segmented_event W sink text k t0 t1 fin x =
      (if r1 \<noteq> CPKT_SUS_OK then (r1, x1) else deliver_segmented W sink k t0 t1 fin x1)"
    unfolding cpkt_sus_emit_segmented_event_def Let_def utt_def [symmetric] strip prod.case
      utt1_def [symmetric] ap x1_def by (rule refl)
  show ?thesis
  proof (cases "r1 = CPKT_SUS_OK")
    case False
    then show ?thesis
      using body assms(1) run wf spec
      by (auto simp: x1_def session_wf_def m1_def transcript_def utt_def p_def seen_def prior_def)
  next
    case True
    have "session_wf x1" "transcript x1 = commit_text p (seen, prior) utt"
      using run True wf spec by (auto simp: x1_def session_wf_def transcript_def)
    moreover have "deliver_segmented W sink k t0 t1 fin x1 = (r, x')"
      using body True assms(1) by simp
    moreover have x1: "se_trace x1 = se_trace x" "se_impl x1 = impl1" "se_model x1 = m1" "se_sys x1 = s1"
      by (simp_all add: x1_def)
    ultimately have d: "session_wf x'" "tick_only s1 (se_sys x')" "ti_config (se_impl x') = ti_config impl1"
        "se_model x' = m1" "revised_string (se_impl x') = revised_string impl1" "r \<noteq> CPKT_SUS_ERR_ALLOC"
        "delivered sink k t0 t1 fin (se_trace x) r x'" "transcript x1 = commit_text p (seen, prior) utt"
      using deliver_run [of W sink k t0 t1 fin x1 r x'] by simp_all
    have "transcript x' = commit_text (mi_preserve (se_model x)) (transcript x) (case text of None \<Rightarrow> [] | Some t \<Rightarrow> t)"
      using d(4,5,8) x1 by (simp add: transcript_def p_def seen_def prior_def utt_def)
    with d run(2,3) show ?thesis
      using tick_only_trans [OF run(2) d(2)] by (simp add: m1_def)
  qed
qed

lemma emit_segmented_run:
  assumes "cpkt_sus_emit_segmented_event W sink text k t0 t1 fin x = (r, x')" "session_wf x"
  shows "session_wf x' \<and> tick_only (se_sys x) (se_sys x') \<and>
    ti_config (se_impl x') = ti_config (se_impl x) \<and> mi_preserve (se_model x') = mi_preserve (se_model x) \<and>
    mi_context (se_model x') = mi_context (se_model x) \<and>
    (if r = CPKT_SUS_ERR_ALLOC then revised_string (se_impl x') = revised_string (se_impl x) \<and> se_trace x' = se_trace x
     else transcript x' = commit_text (mi_preserve (se_model x)) (transcript x) (case text of None \<Rightarrow> [] | Some t \<Rightarrow> t) \<and>
       delivered sink k t0 t1 fin (se_trace x) r x')"
  using emit_segmented_exact [OF assms] unfolding if_bool_eq_conj by blast

end
