(* ===== verification/Sus_Transcribe.thy ===== *)
theory Sus_Transcribe
  imports Sus_Text
begin

text \<open>
  Transcription (\<^verbatim>\<open>src/sus.c\<close>): inference over a buffer with the callbacks it may make, the text and
  the tokens of an inference, the VOX segment sink and the two ways to drive it, from a decoder and
  over one segment.

  The speech backend is the argument \<open>B\<close>: its default parameters and, for the \<open>i\<close>-th inference, a
  program (\<open>whisper_prog\<close>) that may report segments and progress and poll for an abort in any order
  before it ends.  The callback flags of the parameters say which of the facade's callbacks are
  installed; the defaults have none.  The byte size of the prompt buffer, four times its capacity, is
  taken not to wrap, which would need 2 to the 62 tokens.

  The lemmas say what one call of the sink changes: \<open>run_whisper_told\<close> for an inference,
  \<open>segment_after_run\<close> for the whole call.
\<close>

section \<open>The backend\<close>

text \<open>
  An inference of whisper.cpp, as the facade sees it: it reports new segments and progress, polls for
  an abort, and ends with a code and its segments.  It may do so in any order; the backend and its
  default parameters are arguments of every operation below.
\<close>

datatype whisper_prog =
    WDone int "whisper_segment list"
  | WNewSegments "whisper_segment list" int whisper_prog
  | WProgress int whisper_prog
  | WPoll "bool \<Rightarrow> whisper_prog"

record whisper =
  wh_defaults :: whisper_params
  wh_full :: "nat \<Rightarrow> whisper_params \<Rightarrow> f32 list \<Rightarrow> whisper_prog"

section \<open>Callbacks\<close>

definition segment_event :: "whisper_segment \<Rightarrow> cpkt_sus_segment" where
  "segment_event g =
     \<lparr>ts_text = ws_text g, ts_text_length = (case ws_text g of None \<Rightarrow> 0 | Some t \<Rightarrow> length t),
      ts_t0 = cpkt_sus_i64_to_long (ws_t0 g), ts_t1 = cpkt_sus_i64_to_long (ws_t1 g)\<rparr>"

definition set_callback_error :: "sus_session \<Rightarrow> sus_session" where
  "set_callback_error x = x\<lparr>se_impl := (se_impl x)\<lparr>ti_callback_error := True\<rparr>\<rparr>"

fun segment_loop ::
    "(sus_obs list \<Rightarrow> cpkt_sus_segment \<Rightarrow> int) \<Rightarrow> whisper_segment list \<Rightarrow> sus_session \<Rightarrow> sus_session" where
  "segment_loop sink [] x = x"
| "segment_loop sink (g # gs) x =
     (let event = segment_event g;
          rc = sink (se_trace x) event;
          x = x\<lparr>se_trace := se_trace x @ [SawSegment event rc]\<rparr>
      in if rc \<noteq> 0 then set_callback_error x else segment_loop sink gs x)"

definition cpkt_sus_whisper_new_segment_callback ::
    "whisper_segment list \<Rightarrow> int \<Rightarrow> sus_session \<Rightarrow> sus_session" where
  "cpkt_sus_whisper_new_segment_callback segments new_count x =
     (case tc_segment_sink (ti_config (se_impl x)) of
        None \<Rightarrow> x
      | Some sink \<Rightarrow>
          if ti_callback_error (se_impl x) then x
          else
            let first = int (length segments) - new_count;
                first = (if first < 0 then 0 else first)
            in segment_loop sink (drop (nat first) segments) x)"

definition cpkt_sus_whisper_progress_callback :: "int \<Rightarrow> sus_session \<Rightarrow> sus_session" where
  "cpkt_sus_whisper_progress_callback progress x =
     (case tc_progress_sink (ti_config (se_impl x)) of
        None \<Rightarrow> x
      | Some sink \<Rightarrow>
          if ti_callback_error (se_impl x) then x
          else
            let rc = sink (se_trace x) progress;
                x = x\<lparr>se_trace := se_trace x @ [SawProgress progress rc]\<rparr>
            in if rc \<noteq> 0 then set_callback_error x else x)"

definition cpkt_sus_whisper_abort_callback :: "sus_session \<Rightarrow> bool \<times> sus_session" where
  "cpkt_sus_whisper_abort_callback x =
     (case tc_abort (ti_config (se_impl x)) of
        None \<Rightarrow> (ti_callback_error (se_impl x), x)
      | Some f \<Rightarrow>
          if ti_callback_error (se_impl x) then (True, x)
          else
            let rc = f (se_trace x);
                x = x\<lparr>se_trace := se_trace x @ [SawAbort rc]\<rparr>
            in if rc \<noteq> 0 then (True, x\<lparr>se_impl := (se_impl x)\<lparr>ti_aborted := True\<rparr>\<rparr>) else (False, x))"

text \<open>\<open>whisper_full\<close> runs against the callbacks that the parameters install; no callback is an answer of \<open>false\<close>.\<close>

primrec run_whisper :: "whisper_params \<Rightarrow> whisper_prog \<Rightarrow> sus_session \<Rightarrow> int \<times> sus_session" where
  "run_whisper params (WDone code segments) x = (code, x\<lparr>se_segments := segments\<rparr>)"
| "run_whisper params (WNewSegments segments new_count p) x =
     run_whisper params p
       (if wp_new_segment_callback params then cpkt_sus_whisper_new_segment_callback segments new_count x else x)"
| "run_whisper params (WProgress progress p) x =
     run_whisper params p
       (if wp_progress_callback params then cpkt_sus_whisper_progress_callback progress x else x)"
| "run_whisper params (WPoll k) x =
     (if wp_abort_callback params then
        let (stop, x) = cpkt_sus_whisper_abort_callback x in run_whisper params (k stop) x
      else run_whisper params (k False) x)"

definition whisper_full :: "whisper \<Rightarrow> whisper_params \<Rightarrow> f32 list \<Rightarrow> sus_session \<Rightarrow> int \<times> sus_session" where
  "whisper_full B params samples x =
     run_whisper params (wh_full B (length (se_inferences x)) params samples)
       (x\<lparr>se_inferences := se_inferences x @ [(params, samples)]\<rparr>)"

section \<open>One inference over a buffer\<close>

definition language_param :: "string option \<Rightarrow> string option" where
  "language_param language = (if \<not> given language \<or> language = Some ''auto'' then None else language)"

definition clear_flags :: "sus_session \<Rightarrow> sus_session" where
  "clear_flags x = x\<lparr>se_impl := (se_impl x)\<lparr>ti_aborted := False, ti_callback_error := False\<rparr>\<rparr>"

definition install_log :: "sus_session \<Rightarrow> sus_session" where
  "install_log x =
     x\<lparr>se_sys := (se_sys x)\<lparr>ss_log := cpkt_sus_log_ensure_installed (ss_log (se_sys x))\<rparr>\<rparr>"

definition run_params :: "whisper \<Rightarrow> cpkt_sus_transcriber_config \<Rightarrow> whisper_params" where
  "run_params B config =
     (let params = wh_defaults B;
          params = (if tc_threads config > 0 then params\<lparr>wp_n_threads := tc_threads config\<rparr> else params)
      in params\<lparr>wp_translate := tc_translate config, wp_no_timestamps := \<not> tc_timestamps config,
           wp_print_progress := False, wp_print_realtime := False, wp_print_timestamps := False,
           wp_initial_prompt := tc_initial_prompt config,
           wp_language := language_param (tc_language config),
           wp_new_segment_callback := (tc_segment_sink config \<noteq> None),
           wp_progress_callback := (tc_progress_sink config \<noteq> None),
           wp_abort_callback := (tc_abort config \<noteq> None \<or> tc_segment_sink config \<noteq> None \<or>
             tc_progress_sink config \<noteq> None)\<rparr>)"

text \<open>The result of an inference: a failed callback first, then an abort, then the backend's code.\<close>

definition inference_result :: "int \<Rightarrow> cpkt_sus_transcriber_impl \<Rightarrow> cpkt_sus_result" where
  "inference_result code impl =
     (if ti_callback_error impl then CPKT_SUS_ERR_CALLBACK
      else if ti_aborted impl then CPKT_SUS_ABORTED
      else if code \<noteq> 0 then CPKT_SUS_ERR_UPSTREAM else CPKT_SUS_OK)"

definition cpkt_sus_transcriber_run ::
    "whisper \<Rightarrow> f32 list option \<Rightarrow> nat \<Rightarrow> sus_session \<Rightarrow> cpkt_sus_result \<times> sus_session" where
  "cpkt_sus_transcriber_run B samples sample_count x =
     (if (samples = None \<and> sample_count \<noteq> 0) \<or> sample_count > int_max then (CPKT_SUS_ERR_ARG, x)
      else
        let x = clear_flags x;
            params = run_params B (ti_config (se_impl x));
            x = install_log x;
            (code, x) = whisper_full B params (case samples of None \<Rightarrow> [] | Some xs \<Rightarrow> take sample_count xs) x
        in (inference_result code (se_impl x), x))"

section \<open>Text and tokens of an inference\<close>

fun measure_texts :: "whisper_segment list \<Rightarrow> nat \<Rightarrow> nat option" where
  "measure_texts [] len = Some len"
| "measure_texts (g # gs) len =
     (case ws_text g of
        None \<Rightarrow> measure_texts gs len
      | Some t \<Rightarrow>
          if length t > sz_sub (sz_sub size_max len) 1 then None else measure_texts gs (len + length t))"

fun copy_texts :: "whisper_segment list \<Rightarrow> string \<Rightarrow> string" where
  "copy_texts [] acc = acc"
| "copy_texts (g # gs) acc = copy_texts gs (case ws_text g of None \<Rightarrow> acc | Some t \<Rightarrow> acc @ t)"

definition cpkt_sus_build_segmented_text ::
    "'c sus_world \<Rightarrow> sus_session \<Rightarrow> cpkt_sus_result \<times> string \<times> sus_session" where
  "cpkt_sus_build_segmented_text W x =
     (case measure_texts (se_segments x) 0 of
        None \<Rightarrow> (CPKT_SUS_ERR_ALLOC, [], x)
      | Some len \<Rightarrow>
          let (ok, s) = sus_try W (se_sys x); x = x\<lparr>se_sys := s\<rparr> in
          if \<not> ok then (CPKT_SUS_ERR_ALLOC, [], x) else (CPKT_SUS_OK, copy_texts (se_segments x) [], x))"

text \<open>The text variant repeats the two loops over the same context.\<close>

definition cpkt_sus_transcriber_transcribe_f32_mono_16k_text_impl ::
    "'c sus_world \<Rightarrow> whisper \<Rightarrow> bool \<Rightarrow> f32 list option \<Rightarrow> nat \<Rightarrow> sus_session \<Rightarrow>
     cpkt_sus_result \<times> string option \<times> sus_session" where
  "cpkt_sus_transcriber_transcribe_f32_mono_16k_text_impl W B has_out samples sample_count x =
     (if \<not> has_out then (CPKT_SUS_ERR_ARG, None, x)
      else
        let (r, x) = cpkt_sus_transcriber_run B samples sample_count x in
        if r \<noteq> CPKT_SUS_OK then (r, None, x)
        else case measure_texts (se_segments x) 0 of
          None \<Rightarrow> (CPKT_SUS_ERR_ALLOC, None, x)
        | Some len \<Rightarrow>
            let (ok, s) = sus_try W (se_sys x); x = x\<lparr>se_sys := s\<rparr> in
            if \<not> ok then (CPKT_SUS_ERR_ALLOC, None, x)
            else (CPKT_SUS_OK, Some (copy_texts (se_segments x) []), x))"

record prompt_buffer =
  pb_tokens :: "int list option"
  pb_count :: nat
  pb_capacity :: nat

definition prompt_reserve ::
    "'c sus_world \<Rightarrow> prompt_buffer \<Rightarrow> nat \<Rightarrow> sus_state \<Rightarrow> cpkt_sus_result \<times> prompt_buffer \<times> sus_state" where
  "prompt_reserve W p n s =
     (if pb_count p + n > pb_capacity p then
        (case grow_capacity 64 (pb_capacity p) (pb_count p + n) of
           None \<Rightarrow> (CPKT_SUS_ERR_ALLOC, p, s)
         | Some next \<Rightarrow>
             let (ok, s) = sus_try W s in
             if \<not> ok then (CPKT_SUS_ERR_ALLOC, p, s)
             else (CPKT_SUS_OK,
               p\<lparr>pb_tokens := Some (buf_grow (\<lambda>i. of_char (sw_junk W i)) (pb_tokens p) next),
                 pb_capacity := next\<rparr>, s))
      else (CPKT_SUS_OK, p, s))"

fun capture_loop ::
    "'c sus_world \<Rightarrow> whisper_segment list \<Rightarrow> prompt_buffer \<Rightarrow> sus_state \<Rightarrow> cpkt_sus_result \<times> prompt_buffer \<times> sus_state" where
  "capture_loop W [] p s = (CPKT_SUS_OK, p, s)"
| "capture_loop W (g # gs) p s =
     (if ws_n_tokens g < 0 then (CPKT_SUS_ERR_UPSTREAM, p, s)
      else
        let n = nat (ws_n_tokens g) in
        if n > sz_sub size_max (pb_count p) then (CPKT_SUS_ERR_ALLOC, p, s)
        else
          let (r, p, s) = prompt_reserve W p n s
          in
          if r \<noteq> CPKT_SUS_OK then (r, p, s)
          else
            capture_loop W gs
              (if n = 0 then p
               else p\<lparr>pb_tokens := map_option (buf_write (pb_count p) (map (ws_token g) [0..<n])) (pb_tokens p),
                      pb_count := pb_count p + n\<rparr>) s)"

definition cpkt_sus_capture_prompt_tokens ::
    "'c sus_world \<Rightarrow> whisper_segment list \<Rightarrow> prompt_buffer \<Rightarrow> sus_state \<Rightarrow> cpkt_sus_result \<times> prompt_buffer \<times> sus_state" where
  "cpkt_sus_capture_prompt_tokens W segments p s = capture_loop W segments (p\<lparr>pb_count := 0\<rparr>) s"

section \<open>Reading a segment\<close>

text \<open>
  One round of the read loop, after the reader has answered: go on with what was read so far, or stop
  with a result and the samples.
\<close>

datatype pcm_step = PcmMore "f32 list" | PcmStop cpkt_sus_result "f32 list"

definition pcm_round :: "nat \<Rightarrow> f32 list \<Rightarrow> cpkt_audio_result \<Rightarrow> f32 list \<Rightarrow> pcm_step" where
  "pcm_round frame_count got r xs =
     (if r \<noteq> CPKT_AUDIO_OK \<and> r \<noteq> CPKT_AUDIO_AT_END then PcmStop CPKT_SUS_ERR_IO []
      else if r = CPKT_AUDIO_AT_END then
        (if length (got @ xs) \<noteq> frame_count then PcmStop CPKT_SUS_ERR_IO [] else PcmStop CPKT_SUS_OK (got @ xs))
      else if xs = [] then PcmStop CPKT_SUS_ERR_IO []
      else PcmMore (got @ xs))"

text \<open>
  The loop as a program of reads: \<open>k\<close> goes on with its outcome.  The loop ends when the frames are
  complete; more than were asked for are the length mismatch of the last test.
\<close>

function pcm_prog ::
    "nat \<Rightarrow> f32 list \<Rightarrow> (cpkt_sus_result \<Rightarrow> f32 list \<Rightarrow> sink_prog) \<Rightarrow> sink_prog" where
  "pcm_prog frame_count got k =
     (if length got < frame_count then
        SinkRead (frame_count - length got) (\<lambda>r xs.
          case pcm_round frame_count got r xs of
            PcmStop res out \<Rightarrow> k res out
          | PcmMore got' \<Rightarrow> pcm_prog frame_count got' k)
      else if length got \<noteq> frame_count then k CPKT_SUS_ERR_IO [] else k CPKT_SUS_OK got)"
  by pat_completeness auto
termination
  by (relation "measure (\<lambda>(n, got, k). n - length got)") (auto simp: pcm_round_def split: if_splits intro!: diff_less_mono2)

declare pcm_prog.simps [simp del]

text \<open>The same loop over the answers the reads gave.\<close>

fun pcm_loop :: "nat \<Rightarrow> f32 list \<Rightarrow> read_log \<Rightarrow> cpkt_sus_result \<times> f32 list" where
  "pcm_loop frame_count got [] =
     (if length got \<noteq> frame_count then (CPKT_SUS_ERR_IO, []) else (CPKT_SUS_OK, got))"
| "pcm_loop frame_count got ((r, xs) # log) =
     (if length got < frame_count then
        (case pcm_round frame_count got r xs of
           PcmStop res out \<Rightarrow> (res, out)
         | PcmMore got' \<Rightarrow> pcm_loop frame_count got' log)
      else if length got \<noteq> frame_count then (CPKT_SUS_ERR_IO, []) else (CPKT_SUS_OK, got))"

section \<open>The VOX segment sink\<close>

record cpkt_sus_segmented_config =
  sc_continuous :: bool
  sc_read_frames :: nat
  sc_length_ms :: nat
  sc_keep_ms :: nat
  sc_keep_context :: int
  sc_vox_threshold :: f32
  sc_prebuffer_ms :: nat
  sc_memory_spool_bytes :: nat
  sc_max_spool_bytes :: nat
  sc_audio_ctx :: nat
  sc_max_tokens :: nat
  sc_segmented_sink :: "segmented_sink option"

record cpkt_sus_vox_transcribe_state =
  vt_session :: sus_session
  vt_config :: "cpkt_sus_segmented_config option"
  vt_prompt :: prompt_buffer
  vt_segment_count :: nat
  vt_last_t0 :: nat
  vt_last_t1 :: nat
  vt_final_emitted :: bool
  vt_use_prompt :: bool
  vt_result :: cpkt_sus_result

definition cpkt_sus_ul_to_int :: "nat \<Rightarrow> int option" where
  "cpkt_sus_ul_to_int v = (if v > int_max then None else Some (int v))"

definition segment_params :: "whisper \<Rightarrow> cpkt_sus_transcriber_config \<Rightarrow> whisper_params" where
  "segment_params B config =
     (let params = wh_defaults B;
          params = (if tc_threads config > 0 then params\<lparr>wp_n_threads := tc_threads config\<rparr> else params)
      in params\<lparr>wp_translate := tc_translate config, wp_no_timestamps := True,
           wp_print_progress := False, wp_print_realtime := False, wp_print_timestamps := False,
           wp_initial_prompt := tc_initial_prompt config\<rparr>)"

text \<open>The numeric limits of the configuration; \<open>None\<close> when one does not fit an \<open>int\<close>.\<close>

definition limit_params :: "cpkt_sus_segmented_config option \<Rightarrow> whisper_params \<Rightarrow> whisper_params option" where
  "limit_params config params =
     (case config of
        None \<Rightarrow> Some params
      | Some c \<Rightarrow>
          (case (if sc_max_tokens c \<noteq> 0 then
                   map_option (\<lambda>v. params\<lparr>wp_max_tokens := v\<rparr>) (cpkt_sus_ul_to_int (sc_max_tokens c))
                 else Some params) of
             None \<Rightarrow> None
           | Some params \<Rightarrow>
               if sc_audio_ctx c \<noteq> 0 then
                 map_option (\<lambda>v. params\<lparr>wp_audio_ctx := v\<rparr>) (cpkt_sus_ul_to_int (sc_audio_ctx c))
               else Some params))"

definition sink_params ::
    "whisper \<Rightarrow> cpkt_sus_vox_transcribe_state \<Rightarrow> whisper_params option" where
  "sink_params B v =
     (let config = ti_config (se_impl (vt_session v));
          params = segment_params B config;
          p = vt_prompt v
      in
      if vt_use_prompt v \<and> pb_count p > 0 \<and> pb_count p > int_max then None
      else
        let params = (if vt_use_prompt v \<and> pb_count p > 0
                      then params\<lparr>wp_prompt_tokens := take (pb_count p) (the (pb_tokens p))\<rparr> else params) in
        map_option (\<lambda>params. params\<lparr>wp_language := language_param (tc_language config),
            wp_new_segment_callback := False,
            wp_progress_callback := (tc_progress_sink config \<noteq> None),
            wp_abort_callback := (tc_abort config \<noteq> None \<or> tc_progress_sink config \<noteq> None)\<rparr>)
          (limit_params (vt_config v) params))"

abbreviation fail_with :: "cpkt_sus_result \<Rightarrow> cpkt_sus_vox_transcribe_state \<Rightarrow> int \<times> cpkt_sus_vox_transcribe_state" where
  "fail_with r v \<equiv> (1, v\<lparr>vt_result := r\<rparr>)"

text \<open>After a committed segment: the prompt for the next one, and the closing progress report.\<close>

definition segment_closing ::
    "'c sus_world \<Rightarrow> cpkt_sus_vox_transcribe_state \<Rightarrow> int \<times> cpkt_sus_vox_transcribe_state" where
  "segment_closing W v =
     (let (r, p, s) =
        (if vt_use_prompt v then
           cpkt_sus_capture_prompt_tokens W (se_segments (vt_session v)) (vt_prompt v) (se_sys (vt_session v))
         else (CPKT_SUS_OK, vt_prompt v, se_sys (vt_session v)));
          v = v\<lparr>vt_prompt := p, vt_session := (vt_session v)\<lparr>se_sys := s\<rparr>\<rparr>
      in
      if r \<noteq> CPKT_SUS_OK then fail_with r v
      else case tc_progress_sink (ti_config (se_impl (vt_session v))) of
        None \<Rightarrow> (0, v)
      | Some f \<Rightarrow>
          let x = vt_session v;
              rc = f (se_trace x) 100;
              v = v\<lparr>vt_session := x\<lparr>se_trace := se_trace x @ [SawProgress 100 rc]\<rparr>\<rparr>
          in if rc \<noteq> 0 then fail_with CPKT_SUS_ERR_CALLBACK v else (0, v))"

text \<open>The text of an inference that went well is committed.\<close>

definition segment_commit ::
    "'c sus_world \<Rightarrow> cpkt_audio_vox_segment \<Rightarrow> cpkt_sus_vox_transcribe_state \<Rightarrow> int \<times> cpkt_sus_vox_transcribe_state" where
  "segment_commit W seg v =
     (let (r, text, x) = cpkt_sus_build_segmented_text W (vt_session v);
          v = v\<lparr>vt_session := x\<rparr>
      in
      if r \<noteq> CPKT_SUS_OK then fail_with r v
      else
        let (r, x) = cpkt_sus_emit_segmented_event W (case vt_config v of None \<Rightarrow> None | Some c \<Rightarrow> sc_segmented_sink c)
              (Some text) (vt_segment_count v) (sg_t0 seg) (sg_t1 seg) (sg_is_final seg) x;
            v = v\<lparr>vt_session := x\<rparr>
        in
        if r \<noteq> CPKT_SUS_OK then fail_with r v
        else
          segment_closing W
            (v\<lparr>vt_last_t0 := sg_t0 seg, vt_last_t1 := sg_t1 seg,
               vt_final_emitted := (vt_final_emitted v \<or> sg_is_final seg),
               vt_segment_count := sz (vt_segment_count v + 1)\<rparr>))"

text \<open>The sink once the samples have been read.\<close>

definition segment_infer ::
    "'c sus_world \<Rightarrow> whisper \<Rightarrow> cpkt_audio_vox_segment \<Rightarrow> cpkt_sus_result \<Rightarrow> f32 list \<Rightarrow>
     cpkt_sus_vox_transcribe_state \<Rightarrow> int \<times> cpkt_sus_vox_transcribe_state" where
  "segment_infer W B seg res samples v =
     (if res \<noteq> CPKT_SUS_OK then fail_with res v
      else
        let v = v\<lparr>vt_session := clear_flags (vt_session v)\<rparr> in
        case sink_params B v of
          None \<Rightarrow> fail_with CPKT_SUS_ERR_ARG v
        | Some params \<Rightarrow>
            let (code, x) = whisper_full B params samples (install_log (vt_session v));
                v = v\<lparr>vt_session := x\<rparr>;
                r = inference_result code (se_impl x)
            in if r \<noteq> CPKT_SUS_OK then fail_with r v else segment_commit W seg v)"

text \<open>The sink before the first read: its own guards, those of the reader, and the buffer.\<close>

definition segment_begin ::
    "'c sus_world \<Rightarrow> cpkt_audio_vox_segment \<Rightarrow> cpkt_sus_vox_transcribe_state \<Rightarrow>
     cpkt_sus_result \<times> cpkt_sus_vox_transcribe_state" where
  "segment_begin W seg v =
     (if sg_frame_count seg > int_max \<or> sg_frame_count seg > size_max div 4 then (CPKT_SUS_ERR_ARG, v)
      else
        let (ok, s) = sus_try W (se_sys (vt_session v));
            v = v\<lparr>vt_session := (vt_session v)\<lparr>se_sys := s\<rparr>\<rparr>
        in (if \<not> ok \<and> sg_frame_count seg \<noteq> 0 then CPKT_SUS_ERR_ALLOC else CPKT_SUS_OK, v))"

definition cpkt_sus_vox_segment_sink ::
    "'c sus_world \<Rightarrow> whisper \<Rightarrow> cpkt_sus_vox_transcribe_state \<Rightarrow> cpkt_audio_vox_segment \<Rightarrow> sink_prog" where
  "cpkt_sus_vox_segment_sink W B v seg =
     (if vt_result v \<noteq> CPKT_SUS_OK then SinkReturn 1
      else
        let (r, v) = segment_begin W seg v in
        if r \<noteq> CPKT_SUS_OK then SinkReturn 1
        else pcm_prog (sg_frame_count seg) [] (\<lambda>res samples. SinkReturn (fst (segment_infer W B seg res samples v))))"

text \<open>The state behind the sink after a call that made the reads \<open>log\<close>, with what the call returned.\<close>

definition segment_after ::
    "'c sus_world \<Rightarrow> whisper \<Rightarrow> cpkt_sus_vox_transcribe_state \<Rightarrow> cpkt_audio_vox_segment \<Rightarrow> read_log \<Rightarrow>
     int \<times> cpkt_sus_vox_transcribe_state" where
  "segment_after W B v seg log =
     (if vt_result v \<noteq> CPKT_SUS_OK then (1, v)
      else
        let (r, v) = segment_begin W seg v in
        if r \<noteq> CPKT_SUS_OK then fail_with r v
        else let (res, samples) = pcm_loop (sg_frame_count seg) [] log in
             segment_infer W B seg res samples v)"

lemma pcm_prog_runs:
  assumes "run_sink (pcm_prog n got (\<lambda>res out. SinkReturn (f res out))) s = (rc, log, s')"
  shows "rc = f (fst (pcm_loop n got log)) (snd (pcm_loop n got log))"
  using assms
proof (induction n got "\<lambda>res out. SinkReturn (f res out)" arbitrary: s rc log s' rule: pcm_prog.induct)
  case (1 n got)
  show ?case
  proof (cases "length got < n")
    case False
    then show ?thesis
      using "1.prems" by (cases "length got = n") (auto simp: pcm_prog.simps [of n got])
  next
    case True
    obtain r xs t where rd: "cpkt_audio_vox_segment_read_impl False (n - length got) s = (r, xs, t)"
      by (metis prod_cases3)
    show ?thesis
    proof (cases "pcm_round n got r xs")
      case (PcmStop res out)
      then show ?thesis
        using "1.prems" True rd by (auto simp: pcm_prog.simps [of n got])
    next
      case (PcmMore got')
      then obtain log' where "run_sink (pcm_prog n got' (\<lambda>res out. SinkReturn (f res out))) t = (rc, log', s')"
          "log = (r, xs) # log'"
        using "1.prems" True rd by (auto simp: pcm_prog.simps [of n got] split: prod.splits)
      with "1.hyps" [OF True PcmMore] PcmMore True show ?thesis
        by simp
    qed
  qed
qed

lemma segment_sink_runs:
  assumes "run_sink (cpkt_sus_vox_segment_sink W B v seg) s = (rc, log, s')"
  shows "rc = fst (segment_after W B v seg log)"
proof (cases "vt_result v = CPKT_SUS_OK")
  case True
  obtain r v1 where b: "segment_begin W seg v = (r, v1)"
    by (cases "segment_begin W seg v")
  show ?thesis
  proof (cases "r = CPKT_SUS_OK")
    case ok: True
    then have "run_sink (pcm_prog (sg_frame_count seg) []
        (\<lambda>res samples. SinkReturn (fst (segment_infer W B seg res samples v1)))) s = (rc, log, s')"
      using assms True b by (simp add: cpkt_sus_vox_segment_sink_def)
    from pcm_prog_runs [OF this] True b ok show ?thesis
      by (simp add: segment_after_def split: prod.splits)
  qed (use assms True b in \<open>auto simp: cpkt_sus_vox_segment_sink_def segment_after_def\<close>)
qed (use assms in \<open>auto simp: cpkt_sus_vox_segment_sink_def segment_after_def\<close>)

section \<open>Transcribing a decoder\<close>

text \<open>
  The segmenter calls the sink with what it has observed so far, from which the state behind the sink
  is computed: every earlier segment, with the reads the sink made of it, in order.
\<close>

fun replay ::
    "'c sus_world \<Rightarrow> whisper \<Rightarrow> cpkt_sus_vox_transcribe_state \<Rightarrow> vox_obs list \<Rightarrow> cpkt_sus_vox_transcribe_state" where
  "replay W B v [] = v"
| "replay W B v (ObsState ev rc # tr) = replay W B v tr"
| "replay W B v (ObsSegment seg log rc # tr) = replay W B (snd (segment_after W B v seg log)) tr"

text \<open>The pattern of \<open>0.001f\<close>.\<close>

definition f32_0_001 :: f32 where
  "f32_0_001 = 0x3A83126F"

definition cfg_num :: "cpkt_sus_segmented_config option \<Rightarrow> (cpkt_sus_segmented_config \<Rightarrow> nat) \<Rightarrow> nat \<Rightarrow> nat" where
  "cfg_num config field d =
     (case config of None \<Rightarrow> d | Some c \<Rightarrow> if field c \<noteq> 0 then field c else d)"

definition segment_budget_ms :: "cpkt_sus_segmented_config option \<Rightarrow> nat" where
  "segment_budget_ms config =
     (case config of
        None \<Rightarrow> 0
      | Some c \<Rightarrow> if sc_length_ms c \<noteq> 0 then sc_length_ms c else if sc_continuous c then 7000 else 0)"

definition segmented_vox_config ::
    "cpkt_sus_segmented_config option \<Rightarrow> segment_sink \<Rightarrow> cpkt_audio_vox_config" where
  "segmented_vox_config config sink =
     \<lparr>vc_threshold = (case config of
          None \<Rightarrow> f32_0_001
        | Some c \<Rightarrow> if f32_mag (sc_vox_threshold c) \<noteq> 0 then sc_vox_threshold c else f32_0_001),
      vc_release_silence_ms = cfg_num config sc_keep_ms 1500,
      vc_prebuffer_ms = cfg_num config sc_prebuffer_ms 0,
      vc_max_segment_ms = segment_budget_ms config,
      vc_min_segment_ms = 100,
      vc_memory_spool_bytes = cfg_num config sc_memory_spool_bytes 0,
      vc_max_spool_bytes = cfg_num config sc_max_spool_bytes 0,
      vc_segment_sink = Some sink,
      vc_state_sink = None\<rparr>"

definition use_prompt_of :: "cpkt_sus_segmented_config option \<Rightarrow> bool" where
  "use_prompt_of config \<longleftrightarrow> (case config of None \<Rightarrow> True | Some c \<Rightarrow> sc_keep_context c \<ge> 0)"

definition no_prompt :: prompt_buffer where
  "no_prompt = \<lparr>pb_tokens = None, pb_count = 0, pb_capacity = 0\<rparr>"

definition transcribe_state ::
    "cpkt_sus_segmented_config option \<Rightarrow> prompt_buffer \<Rightarrow> nat \<Rightarrow> sus_session \<Rightarrow> cpkt_sus_vox_transcribe_state" where
  "transcribe_state config prompt count x =
     \<lparr>vt_session = x, vt_config = config, vt_prompt = prompt, vt_segment_count = count, vt_last_t0 = 0,
      vt_last_t1 = 0, vt_final_emitted = False, vt_use_prompt = use_prompt_of config, vt_result = CPKT_SUS_OK\<rparr>"

datatype feed_end = FeedDone | FeedDecoderError | FeedVoxError

text \<open>
  The read loop.  The decoder is an argument: its answer to the \<open>i\<close>-th read of up to \<open>n\<close> frames.  The
  loop does not end if the decoder never does: then its value is \<open>None\<close>.
\<close>

partial_function (option) feed_loop ::
    "(nat \<Rightarrow> nat \<Rightarrow> cpkt_audio_result \<times> f32 list) \<Rightarrow> nat \<Rightarrow> nat \<Rightarrow> vox_sys \<Rightarrow> (feed_end \<times> vox_sys) option" where
  "feed_loop dec n i s =
     (let (r, xs) = dec i n in
      if r \<noteq> CPKT_AUDIO_OK \<and> r \<noteq> CPKT_AUDIO_AT_END then Some (FeedDecoderError, s)
      else
        Option.bind (if xs \<noteq> [] then cpkt_audio_vox_push_f32_mono_16k_impl (Some s) (Some xs) (length xs)
                     else Some (CPKT_AUDIO_OK, Some s))
          (\<lambda>(ar, s'). if ar \<noteq> CPKT_AUDIO_OK then Some (FeedVoxError, the s')
                      else if r = CPKT_AUDIO_AT_END \<or> xs = [] then Some (FeedDone, the s')
                      else feed_loop dec n (Suc i) (the s')))"

declare feed_loop.simps [code]

definition own_result :: "cpkt_sus_vox_transcribe_state \<Rightarrow> cpkt_sus_result" where
  "own_result v = (if vt_result v \<noteq> CPKT_SUS_OK then vt_result v else CPKT_SUS_ERR_IO)"

text \<open>After the last read: flush, and the final event unless a final segment has carried it.\<close>

definition feed_finish ::
    "'c sus_world \<Rightarrow> whisper \<Rightarrow> cpkt_sus_vox_transcribe_state \<Rightarrow> vox_sys \<Rightarrow> cpkt_sus_result \<times> sus_session" where
  "feed_finish W B v0 s =
     (let (fr, s') = cpkt_audio_vox_flush_impl (Some s);
          v = replay W B v0 (vx_trace (the s'))
      in
      if fr \<noteq> CPKT_AUDIO_OK then (own_result v, vt_session v)
      else if \<not> vt_final_emitted v then
        cpkt_sus_emit_segmented_event W (case vt_config v of None \<Rightarrow> None | Some c \<Rightarrow> sc_segmented_sink c) None
          (vt_segment_count v) (vt_last_t0 v) (vt_last_t1 v) True (vt_session v)
      else (CPKT_SUS_OK, vt_session v))"

definition cpkt_sus_transcriber_transcribe_audio_decoder_segmented_impl ::
    "'c sus_world \<Rightarrow> whisper \<Rightarrow> (nat \<Rightarrow> nat \<Rightarrow> f32 list option) \<Rightarrow> (nat \<Rightarrow> nat option) \<Rightarrow>
     (nat \<Rightarrow> nat \<Rightarrow> cpkt_audio_result \<times> f32 list) \<Rightarrow> cpkt_sus_segmented_config option \<Rightarrow> sus_session \<Rightarrow>
     (cpkt_sus_result \<times> sus_session) option" where
  "cpkt_sus_transcriber_transcribe_audio_decoder_segmented_impl W B malloc io dec config x =
     (let read_frames = cfg_num config sc_read_frames 4096 in
      if read_frames = 0 \<or> read_frames > size_max div 4 then Some (CPKT_SUS_ERR_ARG, x)
      else
        let (ok, s) = sus_try W (se_sys x); x = x\<lparr>se_sys := s\<rparr> in
        if \<not> ok then Some (CPKT_SUS_ERR_ALLOC, x)
        else
          let x = x\<lparr>se_impl := cpkt_sus_transcriber_reset_revised_text (se_impl x)\<rparr>;
              v0 = transcribe_state config no_prompt 0 x;
              sink = (\<lambda>tr seg. cpkt_sus_vox_segment_sink W B (replay W B v0 tr) seg);
              (r, vox) = cpkt_audio_vox_open malloc io False (Some (segmented_vox_config config sink))
          in
          if r \<noteq> CPKT_AUDIO_OK then Some (CPKT_SUS_ERR_ARG, x)
          else
            map_option (\<lambda>(e, s).
                let v = replay W B v0 (vx_trace s) in
                case e of
                  FeedDecoderError \<Rightarrow> (CPKT_SUS_ERR_IO, vt_session v)
                | FeedVoxError \<Rightarrow> (own_result v, vt_session v)
                | FeedDone \<Rightarrow> feed_finish W B v0 s)
              (feed_loop dec read_frames 0 (the vox)))"

definition cpkt_sus_transcriber_transcribe_audio_decoder_segmented_text_impl ::
    "'c sus_world \<Rightarrow> whisper \<Rightarrow> (nat \<Rightarrow> nat \<Rightarrow> f32 list option) \<Rightarrow> (nat \<Rightarrow> nat option) \<Rightarrow>
     (nat \<Rightarrow> nat \<Rightarrow> cpkt_audio_result \<times> f32 list) \<Rightarrow> bool \<Rightarrow> cpkt_sus_segmented_config \<Rightarrow> sus_session \<Rightarrow>
     (cpkt_sus_result \<times> string option \<times> sus_session) option" where
  "cpkt_sus_transcriber_transcribe_audio_decoder_segmented_text_impl W B malloc io dec has_out config x =
     (if \<not> has_out then Some (CPKT_SUS_ERR_ARG, None, x)
      else
        let forward = (case sc_segmented_sink config of Some (UserSink f) \<Rightarrow> Some f | _ \<Rightarrow> None);
            x = x\<lparr>se_text := \<lparr>st_forward_sink = forward, st_text = None, st_length = 0, st_capacity = 0,
                             st_result = CPKT_SUS_OK\<rparr>\<rparr>
        in
        map_option (\<lambda>(r, x).
            let st = se_text x;
                r = (if r = CPKT_SUS_ERR_CALLBACK \<and> st_result st \<noteq> CPKT_SUS_OK then st_result st else r)
            in
            if r \<noteq> CPKT_SUS_OK then (r, None, x)
            else case st_text st of
              Some b \<Rightarrow> (CPKT_SUS_OK, Some (take (st_length st) b), x)
            | None \<Rightarrow>
                let (ok, s) = sus_try W (se_sys x); x = x\<lparr>se_sys := s\<rparr> in
                if ok then (CPKT_SUS_OK, Some [], x) else (CPKT_SUS_ERR_ALLOC, None, x))
          (cpkt_sus_transcriber_transcribe_audio_decoder_segmented_impl W B malloc io dec
             (Some (config\<lparr>sc_segmented_sink := Some TextSink\<rparr>)) x))"

section \<open>Transcribing one segment\<close>

definition cpkt_sus_transcriber_transcribe_audio_vox_segment_impl ::
    "'c sus_world \<Rightarrow> whisper \<Rightarrow> cpkt_sus_segmented_config option \<Rightarrow> cpkt_audio_vox_segment \<Rightarrow> vox_sys \<Rightarrow> sus_session \<Rightarrow>
     cpkt_sus_result \<times> sus_session \<times> vox_sys" where
  "cpkt_sus_transcriber_transcribe_audio_vox_segment_impl W B config seg s x =
     (let impl = se_impl x;
          prompt = \<lparr>pb_tokens = ti_prompt_tokens impl, pb_count = ti_prompt_count impl,
                    pb_capacity = ti_prompt_capacity impl\<rparr>;
          count = ti_segmented_segment_count impl;
          impl = impl\<lparr>ti_prompt_tokens := None, ti_prompt_count := 0, ti_prompt_capacity := 0\<rparr>;
          impl = (if count = 0 then cpkt_sus_transcriber_reset_revised_text impl else impl);
          v = transcribe_state config prompt count (x\<lparr>se_impl := impl\<rparr>);
          (rc, log, s) = run_sink (cpkt_sus_vox_segment_sink W B v seg) s;
          v = snd (segment_after W B v seg log);
          r = (if rc = 0 then vt_result v
               else if vt_result v \<noteq> CPKT_SUS_OK then vt_result v else CPKT_SUS_ERR_CALLBACK);
          x = vt_session v;
          x = x\<lparr>se_impl := (se_impl x)
                \<lparr>ti_prompt_tokens := pb_tokens (vt_prompt v), ti_prompt_count := pb_count (vt_prompt v),
                 ti_prompt_capacity := pb_capacity (vt_prompt v),
                 ti_segmented_segment_count := vt_segment_count v\<rparr>\<rparr>
      in (r, x, s))"

section \<open>Creation and destruction\<close>

definition transcriber_config_zero :: cpkt_sus_transcriber_config where
  "transcriber_config_zero =
     \<lparr>tc_threads = 0, tc_language = None, tc_translate = False, tc_timestamps = False,
      tc_initial_prompt = None, tc_segment_sink = None, tc_progress_sink = None, tc_abort = None\<rparr>"

definition cpkt_sus_create_transcriber_impl ::
    "'c sus_world \<Rightarrow> cpkt_sus_model_impl option \<Rightarrow> bool \<Rightarrow> cpkt_sus_transcriber_config option \<Rightarrow> sus_state \<Rightarrow>
     cpkt_sus_result \<times> cpkt_sus_transcriber_impl option \<times> sus_state" where
  "cpkt_sus_create_transcriber_impl W self has_out config s =
     (if \<not> has_out \<or> self = None then (CPKT_SUS_ERR_ARG, None, s)
      else
        let (ok, s) = sus_try W s in
        if \<not> ok then (CPKT_SUS_ERR_ALLOC, None, s)
        else let (ok, s) = sus_try W s in
        if \<not> ok then (CPKT_SUS_ERR_ALLOC, None, s)
        else
          (CPKT_SUS_OK,
           Some \<lparr>ti_config = (case config of None \<Rightarrow> transcriber_config_zero | Some c \<Rightarrow> c),
                 ti_prompt_tokens = None, ti_prompt_count = 0, ti_prompt_capacity = 0,
                 ti_segmented_segment_count = 0, ti_revised_text = None, ti_revised_length = 0,
                 ti_revised_capacity = 0, ti_aborted = False, ti_callback_error = False\<rparr>, s))"

text \<open>What destroying a transcriber frees; the model stays.\<close>

definition cpkt_sus_transcriber_destroy_impl :: "cpkt_sus_transcriber_impl option \<Rightarrow> string list" where
  "cpkt_sus_transcriber_destroy_impl self =
     (case self of
        None \<Rightarrow> []
      | Some impl \<Rightarrow>
          (if ti_revised_text impl \<noteq> None then [''revised_text''] else []) @
          (if ti_prompt_tokens impl \<noteq> None then [''prompt_tokens''] else []) @ [''impl'', ''self''])"

section \<open>What an inference changes\<close>

definition obs_failed :: "sus_obs \<Rightarrow> bool" where
  "obs_failed ob = (case ob of SawSegment _ rc \<Rightarrow> rc \<noteq> 0 | SawProgress _ rc \<Rightarrow> rc \<noteq> 0 | _ \<Rightarrow> False)"

definition obs_aborts :: "sus_obs \<Rightarrow> bool" where
  "obs_aborts ob = (case ob of SawAbort rc \<Rightarrow> rc \<noteq> 0 | _ \<Rightarrow> False)"

text \<open>
  \<open>told x new x'\<close>: the caller's functions were told \<open>new\<close>, nothing after a refusal, and the two flags
  say what was answered; apart from the backend's segments nothing else changed.
\<close>

definition told :: "sus_session \<Rightarrow> sus_obs list \<Rightarrow> sus_session \<Rightarrow> bool" where
  "told x new x' \<longleftrightarrow>
     se_trace x' = se_trace x @ new \<and> se_model x' = se_model x \<and> se_text x' = se_text x \<and>
     se_sys x' = se_sys x \<and> se_inferences x' = se_inferences x \<and>
     (\<exists>a e. se_impl x' = (se_impl x)\<lparr>ti_aborted := a, ti_callback_error := e\<rparr>) \<and>
     (ti_callback_error (se_impl x') \<longleftrightarrow> ti_callback_error (se_impl x) \<or> (\<exists>ob\<in>set new. obs_failed ob)) \<and>
     (ti_aborted (se_impl x') \<longleftrightarrow> ti_aborted (se_impl x) \<or> (\<exists>ob\<in>set new. obs_aborts ob)) \<and>
     (ti_callback_error (se_impl x) \<longrightarrow> new = []) \<and> (\<forall>ob\<in>set (butlast new). \<not> obs_failed ob)"

lemma told_same: "told x [] x"
  by (cases "se_impl x") (auto simp: told_def)

lemma told_trans:
  assumes "told x a y" "told y b z"
  shows "told x (a @ b) z"
proof -
  obtain p q where y: "se_impl y = (se_impl x)\<lparr>ti_aborted := p, ti_callback_error := q\<rparr>"
    using assms(1) unfolding told_def by blast
  obtain p' q' where z: "se_impl z = (se_impl y)\<lparr>ti_aborted := p', ti_callback_error := q'\<rparr>"
    using assms(2) unfolding told_def by blast
  have flags: "q \<longleftrightarrow> ti_callback_error (se_impl x) \<or> (\<exists>ob\<in>set a. obs_failed ob)"
      "p \<longleftrightarrow> ti_aborted (se_impl x) \<or> (\<exists>ob\<in>set a. obs_aborts ob)"
      "q' \<longleftrightarrow> q \<or> (\<exists>ob\<in>set b. obs_failed ob)" "p' \<longleftrightarrow> p \<or> (\<exists>ob\<in>set b. obs_aborts ob)"
      "ti_callback_error (se_impl x) \<longrightarrow> a = []" "q \<longrightarrow> b = []"
      "\<forall>ob\<in>set (butlast a). \<not> obs_failed ob" "\<forall>ob\<in>set (butlast b). \<not> obs_failed ob"
    using assms unfolding told_def by (simp_all add: y z)
  have last: "\<forall>ob\<in>set (butlast (a @ b)). \<not> obs_failed ob"
    using flags(1,6,7,8) by (auto simp: butlast_append)
  have impl: "se_impl z = (se_impl x)\<lparr>ti_aborted := p', ti_callback_error := q'\<rparr>"
    by (simp add: z y)
  have rest: "se_trace z = se_trace x @ a @ b" "se_model z = se_model x" "se_text z = se_text x"
      "se_sys z = se_sys x" "se_inferences z = se_inferences x"
    using assms unfolding told_def by simp_all
  show ?thesis
    unfolding told_def
  proof (intro conjI)
    show "\<exists>a e. se_impl z = (se_impl x)\<lparr>ti_aborted := a, ti_callback_error := e\<rparr>"
      using impl by blast
    show "ti_callback_error (se_impl z) \<longleftrightarrow> ti_callback_error (se_impl x) \<or> (\<exists>ob\<in>set (a @ b). obs_failed ob)"
      using flags(1,3) by (auto simp: impl)
    show "ti_aborted (se_impl z) \<longleftrightarrow> ti_aborted (se_impl x) \<or> (\<exists>ob\<in>set (a @ b). obs_aborts ob)"
      using flags(2,4) by (auto simp: impl)
    show "ti_callback_error (se_impl x) \<longrightarrow> a @ b = []"
      using flags(1,5,6) by auto
  qed (use rest last in simp_all)
qed

lemma told_segments [simp]: "told x new (x'\<lparr>se_segments := g\<rparr>) = told x new x'"
  by (simp add: told_def)

lemma told_one:
  assumes "\<not> ti_callback_error (se_impl x)" "se_trace x' = se_trace x @ [ob]"
    and "se_model x' = se_model x" "se_text x' = se_text x" "se_sys x' = se_sys x" "se_inferences x' = se_inferences x"
    and "se_impl x' = (se_impl x)\<lparr>ti_aborted := ti_aborted (se_impl x) \<or> obs_aborts ob, ti_callback_error := obs_failed ob\<rparr>"
  shows "told x [ob] x'"
  using assms by (auto simp: told_def)

lemma impl_flags_same:
  "\<not> ti_callback_error impl \<Longrightarrow> impl\<lparr>ti_aborted := ti_aborted impl, ti_callback_error := False\<rparr> = impl"
  by (cases impl) simp

lemma segment_loop_told:
  "\<not> ti_callback_error (se_impl x) \<Longrightarrow> \<exists>new. told x new (segment_loop sink gs x)"
proof (induction sink gs x rule: segment_loop.induct)
  case (1 sink x)
  then show ?case
    using told_same by auto
next
  case (2 sink g gs x)
  define rc where "rc = sink (se_trace x) (segment_event g)"
  define x1 where "x1 = x\<lparr>se_trace := se_trace x @ [SawSegment (segment_event g) rc]\<rparr>"
  have step: "segment_loop sink (g # gs) x = (if rc \<noteq> 0 then set_callback_error x1 else segment_loop sink gs x1)"
    by (simp add: rc_def x1_def Let_def)
  show ?case
  proof (cases "rc = 0")
    case True
    then have "told x [SawSegment (segment_event g) rc] x1"
      by (intro told_one) (use "2.prems" in \<open>simp_all add: x1_def obs_aborts_def obs_failed_def impl_flags_same\<close>)
    moreover obtain new where "told x1 new (segment_loop sink gs x1)"
      using "2.IH" [OF refl rc_def x1_def] True "2.prems" by (auto simp: x1_def)
    ultimately show ?thesis
      using told_trans step True by (metis (full_types))
  next
    case False
    then have "told x [SawSegment (segment_event g) rc] (set_callback_error x1)"
      by (intro told_one) (use "2.prems" in \<open>simp_all add: x1_def set_callback_error_def obs_aborts_def obs_failed_def\<close>)
    with step False show ?thesis by auto
  qed
qed

lemma new_segment_told: "\<exists>new. told x new (cpkt_sus_whisper_new_segment_callback gs n x)"
  using told_same segment_loop_told
  by (auto simp: cpkt_sus_whisper_new_segment_callback_def Let_def split: option.splits)

lemma progress_told: "\<exists>new. told x new (cpkt_sus_whisper_progress_callback p x)"
proof (cases "tc_progress_sink (ti_config (se_impl x)) = None \<or> ti_callback_error (se_impl x)")
  case True
  then show ?thesis
    using told_same by (auto simp: cpkt_sus_whisper_progress_callback_def split: option.splits)
next
  case False
  then obtain f where f: "tc_progress_sink (ti_config (se_impl x)) = Some f" by auto
  have "told x [SawProgress p (f (se_trace x) p)] (cpkt_sus_whisper_progress_callback p x)"
    using f False
    by (intro told_one) (simp_all add: cpkt_sus_whisper_progress_callback_def Let_def set_callback_error_def
        obs_aborts_def obs_failed_def impl_flags_same)
  then show ?thesis by blast
qed

lemma abort_told: "\<exists>new. told x new (snd (cpkt_sus_whisper_abort_callback x))"
proof (cases "tc_abort (ti_config (se_impl x)) = None \<or> ti_callback_error (se_impl x)")
  case True
  then show ?thesis
    using told_same by (auto simp: cpkt_sus_whisper_abort_callback_def split: option.splits)
next
  case False
  then obtain f where f: "tc_abort (ti_config (se_impl x)) = Some f" by auto
  have "told x [SawAbort (f (se_trace x))] (snd (cpkt_sus_whisper_abort_callback x))"
    using f False
    by (intro told_one) (simp_all add: cpkt_sus_whisper_abort_callback_def Let_def
        obs_aborts_def obs_failed_def impl_flags_same)
  then show ?thesis by blast
qed

lemma run_whisper_told: "\<exists>new. told x new (snd (run_whisper params p x))"
proof (induction p arbitrary: x)
  case (WDone code gs)
  then show ?case
    using told_same by auto
next
  case (WNewSegments gs n p)
  then show ?case
    using new_segment_told told_trans by simp metis
next
  case (WProgress n p)
  then show ?case
    using progress_told told_trans by simp metis
next
  case (WPoll k)
  show ?case
  proof (cases "wp_abort_callback params")
    case True
    obtain stop y where ab: "cpkt_sus_whisper_abort_callback x = (stop, y)"
      by (cases "cpkt_sus_whisper_abort_callback x")
    then obtain a where "told x a y"
      using abort_told [of x] by auto
    moreover obtain b where "told y b (snd (run_whisper params (k stop) y))"
      using WPoll by blast
    ultimately have "told x (a @ b) (snd (run_whisper params (k stop) y))"
      by (rule told_trans)
    with True ab show ?thesis by auto
  next
    case False
    then show ?thesis
      using WPoll by simp
  qed
qed

section \<open>The samples of a segment\<close>

lemma pcm_loop_prefix:
  "pcm_loop n got log = (CPKT_SUS_OK, out) \<Longrightarrow> length out = n \<and> prefix out (got @ log_frames log)"
proof (induction n got log rule: pcm_loop.induct)
  case (1 n got)
  then show ?case
    by (auto split: if_splits)
next
  case (2 n got r xs log)
  show ?case
  proof (cases "length got < n")
    case False
    with "2.prems" show ?thesis
      by (auto split: if_splits)
  next
    case True
    show ?thesis
    proof (cases "pcm_round n got r xs")
      case (PcmStop res o')
      then have "out = got @ xs" "length out = n" "r = CPKT_AUDIO_AT_END"
        using "2.prems" True by (auto simp: pcm_round_def split: if_splits)
      then show ?thesis
        by (simp add: log_frames_def read_good_def)
    next
      case (PcmMore got')
      then have "got' = got @ xs" "r = CPKT_AUDIO_OK"
        by (auto simp: pcm_round_def split: if_splits)
      moreover have "pcm_loop n got' log = (CPKT_SUS_OK, out)"
        using "2.prems" True PcmMore by simp
      ultimately show ?thesis
        using "2.IH" [OF True PcmMore] by (simp add: log_frames_def read_good_def)
    qed
  qed
qed

text \<open>What the sink reads of an honest segment in full is the segment.\<close>

lemma pcm_loop_slice:
  assumes "seg_spans H seg log k a n" "a + n \<le> length H" "pcm_loop (sg_frame_count seg) [] log = (CPKT_SUS_OK, out)"
  shows "out = slice H a n"
proof -
  have "length out = n" "prefix out (log_frames log)" "prefix (log_frames log) (slice H a n)"
    using pcm_loop_prefix [OF assms(3)] assms(1) by (auto simp: seg_spans_def)
  then have "prefix out (slice H a n)" "length out = length (slice H a n)"
    using assms(2) by (auto simp: length_slice)
  then show ?thesis
    by (metis append_Nil2 append_eq_append_conv prefixE)
qed

section \<open>What the sink changes\<close>

lemma revised_string_flags [simp]:
  "revised_string (impl\<lparr>ti_aborted := a, ti_callback_error := e\<rparr>) = revised_string impl"
  by (simp add: revised_string_def cong: option.case_cong)

lemma clear_flags_fields [simp]:
  "revised_string (se_impl (clear_flags x)) = revised_string (se_impl x)"
  "se_inferences (clear_flags x) = se_inferences x" "se_text (clear_flags x) = se_text x"
  "se_model (clear_flags x) = se_model x"
  by (simp_all add: clear_flags_def)

lemma session_wf_told: "told x new x' \<Longrightarrow> session_wf x' = session_wf x"
  unfolding told_def session_wf_def by auto

lemma session_wf_simps [simp]:
  "session_wf (x\<lparr>se_sys := s\<rparr>) = session_wf x"
  "session_wf (x\<lparr>se_trace := tr\<rparr>) = session_wf x"
  "session_wf (x\<lparr>se_inferences := il\<rparr>) = session_wf x"
  "session_wf (clear_flags x) = session_wf x"
  "session_wf (install_log x) = session_wf x"
  by (simp_all add: session_wf_def clear_flags_def install_log_def)

lemma whisper_full_run:
  assumes "whisper_full B params samples x = (code, x')"
  shows "se_inferences x' = se_inferences x @ [(params, samples)] \<and> session_wf x' = session_wf x \<and>
    revised_string (se_impl x') = revised_string (se_impl x) \<and> se_text x' = se_text x \<and>
    se_model x' = se_model x"
proof -
  define y where "y = x\<lparr>se_inferences := se_inferences x @ [(params, samples)]\<rparr>"
  obtain new where new: "told y new x'"
    using run_whisper_told [of y params "wh_full B (length (se_inferences x)) params samples"] assms
    by (auto simp: whisper_full_def y_def)
  obtain a e where "se_impl x' = (se_impl y)\<lparr>ti_aborted := a, ti_callback_error := e\<rparr>"
    using new unfolding told_def by blast
  moreover have "se_inferences x' = se_inferences y" "se_text x' = se_text y" "se_model x' = se_model y"
    using new unfolding told_def by blast+
  ultimately show ?thesis
    using session_wf_told [OF new] by (simp add: y_def)
qed

text \<open>
  \<open>text_sunk\<close>: a final event that was delivered to the text sink
  left the transcript there, as long as nothing has failed since.
\<close>

definition text_sunk :: "cpkt_sus_vox_transcribe_state \<Rightarrow> bool" where
  "text_sunk v \<longleftrightarrow>
     (\<exists>c. vt_config v = Some c \<and> sc_segmented_sink c = Some TextSink) \<and> vt_result v = CPKT_SUS_OK \<and>
     vt_final_emitted v \<longrightarrow> collected (se_text (vt_session v)) = revised_string (se_impl (vt_session v))"

lemma closing_run:
  assumes "segment_closing W v = (rc, v')" "session_wf (vt_session v)"
  shows "se_inferences (vt_session v') = se_inferences (vt_session v) \<and> session_wf (vt_session v') \<and>
    se_text (vt_session v') = se_text (vt_session v) \<and> se_impl (vt_session v') = se_impl (vt_session v) \<and>
    vt_config v' = vt_config v \<and> vt_final_emitted v' = vt_final_emitted v"
  using assms
  by (auto simp: segment_closing_def Let_def session_wf_def split: if_splits prod.splits option.splits)

lemma emit_inferences:
  assumes "cpkt_sus_emit_segmented_event W sink text k t0 t1 fin x = (r, x')"
  shows "se_inferences x' = se_inferences x"
proof -
  have d: "se_inferences y' = se_inferences y" if "deliver_segmented W sink k t0 t1 fin y = (q, y')" for y q y'
    using that by (auto simp: deliver_segmented_def Let_def split: option.splits segmented_sink.splits if_splits prod.splits)
  show ?thesis
    using assms d
    by (auto simp: cpkt_sus_emit_segmented_event_def Let_def split: if_splits prod.splits)
qed

lemma build_text_run:
  assumes "cpkt_sus_build_segmented_text W x = (r, t, x')"
  shows "\<exists>s. x' = x\<lparr>se_sys := s\<rparr>"
  using assms
  by (auto simp: cpkt_sus_build_segmented_text_def Let_def split: option.splits if_splits prod.splits intro: exI [of _ "se_sys x"])

lemma commit_run:
  assumes "segment_commit W seg v = (rc, v')" "session_wf (vt_session v)" "text_sunk v" "vt_result v = CPKT_SUS_OK"
  shows "se_inferences (vt_session v') = se_inferences (vt_session v) \<and> session_wf (vt_session v') \<and>
    text_sunk v' \<and> vt_config v' = vt_config v"
proof -
  obtain r1 t x1 where b: "cpkt_sus_build_segmented_text W (vt_session v) = (r1, t, x1)"
    by (metis prod_cases3)
  then obtain s where x1: "x1 = (vt_session v)\<lparr>se_sys := s\<rparr>"
    using build_text_run by blast
  define v1 where "v1 = v\<lparr>vt_session := x1\<rparr>"
  have wf1: "session_wf x1" "text_sunk v1"
    using assms(2,3) by (simp_all add: x1 v1_def text_sunk_def)
  show ?thesis
  proof (cases "r1 = CPKT_SUS_OK")
    case False
    then have "v' = v1\<lparr>vt_result := r1\<rparr>"
      using assms(1) b by (auto simp: segment_commit_def v1_def)
    then show ?thesis
      using False wf1 by (simp add: v1_def x1 text_sunk_def)
  next
    case True
    define sink where "sink = (case vt_config v of None \<Rightarrow> None | Some c \<Rightarrow> sc_segmented_sink c)"
    obtain r2 x2 where em: "cpkt_sus_emit_segmented_event W sink (Some t) (vt_segment_count v) (sg_t0 seg) (sg_t1 seg)
        (sg_is_final seg) x1 = (r2, x2)" by fastforce
    note run = emit_segmented_run [OF em wf1(1)] emit_inferences [OF em]
    define v2 where "v2 = v1\<lparr>vt_session := x2\<rparr>"
    show ?thesis
    proof (cases "r2 = CPKT_SUS_OK")
      case False
      then have "v' = v2\<lparr>vt_result := r2\<rparr>"
        using assms(1) b True em by (auto simp: segment_commit_def v1_def v2_def sink_def)
      then show ?thesis
        using False run by (simp add: v2_def v1_def x1 text_sunk_def)
    next
      case ok: True
      define v3 where "v3 = v2\<lparr>vt_last_t0 := sg_t0 seg, vt_last_t1 := sg_t1 seg,
          vt_final_emitted := (vt_final_emitted v \<or> sg_is_final seg),
          vt_segment_count := sz (vt_segment_count v + 1)\<rparr>"
      have cl: "segment_closing W v3 = (rc, v')"
        using assms(1) b True em ok by (simp add: segment_commit_def v1_def v2_def v3_def sink_def)
      have "delivered sink (vt_segment_count v) (sg_t0 seg) (sg_t1 seg) (sg_is_final seg) (se_trace x1) CPKT_SUS_OK x2"
        using run ok by simp
      then have "collected (se_text x2) = revised_string (se_impl x2)" if "sink = Some TextSink"
        using that unfolding delivered_def by (auto split: if_splits)
      then have "text_sunk v'"
        using closing_run [OF cl] run by (auto simp: text_sunk_def v3_def v2_def v1_def sink_def)
      then show ?thesis
        using closing_run [OF cl] run by (simp add: v3_def v2_def v1_def x1)
    qed
  qed
qed

text \<open>A call of the sink makes at most one inference, over all the samples of the segment.\<close>

definition inferred_once ::
    "cpkt_sus_vox_transcribe_state \<Rightarrow> (f32 list \<Rightarrow> bool) \<Rightarrow> cpkt_sus_vox_transcribe_state \<Rightarrow> bool" where
  "inferred_once v P v' \<longleftrightarrow>
     session_wf (vt_session v') \<and> text_sunk v' \<and> vt_config v' = vt_config v \<and>
     (se_inferences (vt_session v') = se_inferences (vt_session v) \<or>
      (\<exists>params xs. P xs \<and> se_inferences (vt_session v') = se_inferences (vt_session v) @ [(params, xs)]))"

lemma inferred_failed:
  assumes "v' = u\<lparr>vt_result := r\<rparr>" "r \<noteq> CPKT_SUS_OK" "session_wf (vt_session u)" "vt_config u = vt_config v"
    "se_inferences (vt_session u) = se_inferences (vt_session v)"
  shows "inferred_once v P v'"
  using assms by (simp add: inferred_once_def text_sunk_def)

lemma infer_run:
  assumes infer: "segment_infer W B seg res xs v = (rc, v')" and wf: "session_wf (vt_session v)" and ts: "text_sunk v"
    and ok: "vt_result v = CPKT_SUS_OK" and P: "res = CPKT_SUS_OK \<Longrightarrow> P xs"
  shows "inferred_once v P v'"
proof (cases "res = CPKT_SUS_OK")
  case False
  with infer wf show ?thesis
    by (intro inferred_failed [where u = v and r = res]) (simp_all add: segment_infer_def)
next
  case res: True
  define v2 where "v2 = v\<lparr>vt_session := clear_flags (vt_session v)\<rparr>"
  show ?thesis
  proof (cases "sink_params B v2")
    case None
    with infer wf res show ?thesis
      by (intro inferred_failed [where u = v2 and r = CPKT_SUS_ERR_ARG]) (simp_all add: segment_infer_def v2_def)
  next
    case (Some params)
    obtain code x3 where full: "whisper_full B params xs (install_log (vt_session v2)) = (code, x3)" by fastforce
    define v3 where "v3 = v2\<lparr>vt_session := x3\<rparr>"
    have v3: "se_inferences (vt_session v3) = se_inferences (vt_session v) @ [(params, xs)]"
        "session_wf (vt_session v3)" "text_sunk v3" "vt_config v3 = vt_config v" "vt_result v3 = CPKT_SUS_OK"
      using whisper_full_run [OF full] wf ts ok by (simp_all add: install_log_def v3_def v2_def text_sunk_def)
    have step: "(if inference_result code (se_impl x3) \<noteq> CPKT_SUS_OK
        then fail_with (inference_result code (se_impl x3)) v3 else segment_commit W seg v3) = (rc, v')"
      using infer res Some full
      by (auto simp: segment_infer_def v2_def [symmetric] v3_def Let_def split: if_splits)
    show ?thesis
    proof (cases "inference_result code (se_impl x3) = CPKT_SUS_OK")
      case False
      with step have "v' = v3\<lparr>vt_result := inference_result code (se_impl x3)\<rparr>" by auto
      then show ?thesis
        using False v3 P [OF res] by (auto simp: inferred_once_def text_sunk_def)
    next
      case True
      with step have "segment_commit W seg v3 = (rc, v')" by simp
      from commit_run [OF this] v3 P [OF res] show ?thesis
        by (auto simp: inferred_once_def)
    qed
  qed
qed

lemma segment_begin_run:
  assumes "segment_begin W seg v = (r, v1)"
  shows "\<exists>s. v1 = v\<lparr>vt_session := (vt_session v)\<lparr>se_sys := s\<rparr>\<rparr> \<and> (r = CPKT_SUS_OK \<longrightarrow> sg_frame_count seg \<le> int_max)"
  using assms by (cases v; cases "vt_session v") (auto simp: segment_begin_def Let_def split: if_splits prod.splits)

lemma segment_after_run:
  assumes "segment_after W B v seg log = (rc, v')" "session_wf (vt_session v)" "text_sunk v"
  shows "inferred_once v (\<lambda>xs. pcm_loop (sg_frame_count seg) [] log = (CPKT_SUS_OK, xs) \<and> length xs \<le> int_max) v'"
proof (cases "vt_result v = CPKT_SUS_OK")
  case False
  then show ?thesis
    using assms by (simp add: segment_after_def inferred_once_def)
next
  case True
  obtain r1 v1 where b: "segment_begin W seg v = (r1, v1)" by fastforce
  then obtain s1 where v1: "v1 = v\<lparr>vt_session := (vt_session v)\<lparr>se_sys := s1\<rparr>\<rparr>"
      "r1 = CPKT_SUS_OK \<longrightarrow> sg_frame_count seg \<le> int_max"
    using segment_begin_run by blast
  show ?thesis
  proof (cases "r1 = CPKT_SUS_OK")
    case False
    with assms(1,2) True b v1(1) show ?thesis
      by (intro inferred_failed [where u = v1 and r = r1]) (simp_all add: segment_after_def)
  next
    case ok: True
    obtain res xs where pl: "pcm_loop (sg_frame_count seg) [] log = (res, xs)" by fastforce
    have infer: "segment_infer W B seg res xs v1 = (rc, v')"
      using assms(1) True b ok pl by (simp add: segment_after_def)
    have "inferred_once v1 (\<lambda>xs. pcm_loop (sg_frame_count seg) [] log = (CPKT_SUS_OK, xs) \<and> length xs \<le> int_max) v'"
    proof (rule infer_run [OF infer])
      show "session_wf (vt_session v1)" "text_sunk v1" "vt_result v1 = CPKT_SUS_OK"
        using assms(2,3) True by (simp_all add: v1(1) text_sunk_def)
      show "pcm_loop (sg_frame_count seg) [] log = (CPKT_SUS_OK, xs) \<and> length xs \<le> int_max" if "res = CPKT_SUS_OK"
        using pl that v1(2) ok pcm_loop_prefix [of "sg_frame_count seg" "[]" log xs] by simp
    qed
    then show ?thesis
      by (simp add: inferred_once_def v1(1))
  qed
qed

end
