(* ===== verification/Sus_Stream.thy ===== *)
theory Sus_Stream
  imports Sus_Transcribe
begin

text \<open>
  The composition of the segmenter of \<^verbatim>\<open>src/audio.c\<close> with the transcriber of \<^verbatim>\<open>src/sus.c\<close>.

  The segmenter calls the sink and the sink reads back from the segmenter; \<open>replay\<close> computes the
  state behind the sink from the segmenter's trace.  \<open>obeys\<close> shows that the segmenter records what
  the sink did and stops when it refuses; \<open>replay_chain\<close> carries the slices of the segmenter's
  specification \<open>seg_chain\<close> over to the inferences; \<open>feed_loop_ends\<close> is the termination of the read
  loop, which is as long as the decoder.
\<close>

section \<open>The segmenter obeys its sink\<close>

text \<open>
  Every segment of the trace has the reads and the answer of a run of the sink, called with the trace
  so far; an answer other than zero sets the error flag, after which nothing is accepted.
\<close>

inductive obeyed :: "segment_sink \<Rightarrow> vox_obs list \<Rightarrow> bool \<Rightarrow> bool" for sink where
  obeyed_nil: "obeyed sink [] err"
| obeyed_state: "obeyed sink tr err \<Longrightarrow> err \<longrightarrow> err' \<Longrightarrow> obeyed sink (tr @ [ObsState ev rc]) err'"
| obeyed_segment: "obeyed sink tr err \<Longrightarrow> err \<or> rc \<noteq> 0 \<longrightarrow> err' \<Longrightarrow> run_sink (sink tr seg) u = (rc, log, u') \<Longrightarrow>
    obeyed sink (tr @ [ObsSegment seg log rc]) err'"

text \<open>What every operation of the segmenter does to its sink, its trace and its error flag.\<close>

definition obeys :: "vox_sys \<Rightarrow> bool \<Rightarrow> vox_sys \<Rightarrow> bool" where
  "obeys s ok s' \<longleftrightarrow>
     vx_segment_sink s' = vx_segment_sink s \<and>
     (obeyed (vx_segment_sink s) (vx_trace s) (vx_callback_error s) \<longrightarrow>
       obeyed (vx_segment_sink s) (vx_trace s') (vx_callback_error s')) \<and>
     (ok \<longrightarrow> vx_callback_error s' = vx_callback_error s)"

lemma obeys_same:
  "vx_segment_sink s' = vx_segment_sink s \<Longrightarrow> vx_trace s' = vx_trace s \<Longrightarrow> vx_callback_error s' = vx_callback_error s \<Longrightarrow>
   obeys s ok s'"
  by (simp add: obeys_def)

lemma obeys_trans: "obeys s True t \<Longrightarrow> obeys t ok s' \<Longrightarrow> obeys s ok s'"
  by (auto simp: obeys_def)

lemma obeys_emit_state: "cpkt_audio_vox_emit_state st s = (r, s') \<Longrightarrow> obeys s (r = CPKT_AUDIO_OK) s'"
  by (auto simp: obeys_def cpkt_audio_vox_emit_state_def Let_def intro: obeyed_state split: option.splits if_splits)

lemma obeys_emit:
  assumes "cpkt_audio_vox_emit hc fin s = (r, s')"
  shows "obeys s (r = CPKT_AUDIO_OK) s'"
  using assms
proof (cases rule: emit_cases)
  case dropped
  then show ?thesis
    by (simp add: obeys_def cpkt_audio_vox_reset_segment_def)
next
  case rewind_failed
  then show ?thesis
    by (intro obeys_same) (cases s; cases s'; simp add: read_frame_def)+
next
  case (sunk t rc log u)
  have u: "vx_segment_sink u = vx_segment_sink s" "vx_callback_error u = vx_callback_error s"
    using sunk(4) by (cases s; cases u; simp add: read_frame_def)+
  from sunk(3,5) u show ?thesis
    by (auto simp: obeys_def cpkt_audio_vox_reset_segment_def intro: obeyed_segment split: if_splits)
qed

lemma obeys_close:
  assumes "vox_close_segment st hc fin s = (r, s')"
  shows "obeys s (r = CPKT_AUDIO_OK) s'"
proof -
  obtain q t where es: "cpkt_audio_vox_emit_state st s = (q, t)" by force
  show ?thesis
  proof (cases "q = CPKT_AUDIO_OK")
    case True
    then show ?thesis
      using obeys_emit_state [OF es] obeys_emit [of hc fin t r s'] assms es
      by (auto simp: vox_close_segment_def intro: obeys_trans)
  next
    case False
    then show ?thesis
      using obeys_emit_state [OF es] assms es by (auto simp: vox_close_segment_def)
  qed
qed

lemma obeys_store: "store_frame s' = store_frame s \<Longrightarrow> obeys s ok s'"
  by (intro obeys_same) (cases s; cases s'; simp add: store_frame_def)+

lemma obeys_append: "cpkt_audio_vox_append_frame x s = (r, s') \<Longrightarrow> obeys s ok s'"
  by (rule obeys_store [OF append_store_frame])

lemma obeys_fail: "obeys s True s' \<Longrightarrow> obeys s ok s'"
  by (auto simp: obeys_def)

lemma obeys_append_prebuffer:
  assumes "cpkt_audio_vox_append_prebuffer s = (r, s')"
  shows "obeys s ok s'"
proof -
  obtain t where t: "vox_store.append_all (prebuffered s) s = (r, t)"
      "s' = (if r = CPKT_AUDIO_OK then cpkt_audio_vox_reset_prebuffer t else t)"
    using append_prebuffer_cases [OF assms] by blast
  have "obeys s True t"
    by (rule obeys_store [OF append_all_frame [OF t(1)]])
  moreover have "obeys t ok s'"
    by (rule obeys_same) (simp_all add: t(2) cpkt_audio_vox_reset_prebuffer_def)
  ultimately show ?thesis
    by (rule obeys_trans)
qed

lemma obeys_open_segment:
  assumes "vox_open_segment s = (r, s')"
  shows "obeys s (r = CPKT_AUDIO_OK) s'"
proof -
  obtain q t where es: "cpkt_audio_vox_emit_state CPKT_AUDIO_VOX_TX_ON (vox_opened s) = (q, t)" by force
  have "obeys s True (vox_opened s)"
    by (rule obeys_same) (simp_all add: vox_opened_def)
  then have t: "obeys s (q = CPKT_AUDIO_OK) t"
    by (rule obeys_trans [OF _ obeys_emit_state [OF es]])
  have body: "(r, s') = (if q \<noteq> CPKT_AUDIO_OK then (q, t) else cpkt_audio_vox_append_prebuffer t)"
    using assms es by (simp add: vox_open_segment_def vox_opened_def Let_def)
  then show ?thesis
    using t obeys_append_prebuffer [of t r s'] by (auto intro: obeys_trans split: if_splits)
qed

definition step_good :: "frame_step \<Rightarrow> bool" where
  "step_good step \<longleftrightarrow> (case step of FrameReturn r \<Rightarrow> r = CPKT_AUDIO_OK | _ \<Rightarrow> True)"

lemma obeys_step_of:
  assumes "step_of nxt (vox_close_segment st hc fin s) = (step, s')" "step_good nxt"
  shows "obeys s (step_good step) s'"
  using assms obeys_close [of st hc fin s]
  by (cases "vox_close_segment st hc fin s") (auto simp: step_of_def step_good_def split: if_splits)

lemma obeys_noted: "obeys s ok (cpkt_audio_vox_note_loudness loud (cpkt_audio_vox_advance_source 1 s))"
  by (rule obeys_same)
    (simp_all add: cpkt_audio_vox_note_loudness_def cpkt_audio_vox_advance_source_def)

lemma obeys_push_open:
  assumes "vox_push_open loud x s = (step, s')"
  shows "obeys s (step_good step) s'"
proof -
  obtain r t where ap: "cpkt_audio_vox_append_frame x s = (r, t)" by force
  have t: "obeys s True t"
    by (rule obeys_append [OF ap])
  define v where "v = vox_noted loud t"
  have v: "obeys s True v"
    unfolding v_def vox_noted_def by (rule obeys_trans [OF t obeys_noted])
  have good: "step_good FrameDone" "step_good FrameRetry"
    by (simp_all add: step_good_def)
  have "(step, s') =
      (if r = CPKT_AUDIO_AT_END then step_of FrameRetry (vox_close_segment CPKT_AUDIO_VOX_HARD_CUT True False t)
       else if r \<noteq> CPKT_AUDIO_OK then (FrameReturn r, t)
       else if vx_release_silence_frames v \<noteq> 0 \<and> vx_silence_frames v \<ge> vx_release_silence_frames v then
         step_of FrameDone (vox_close_segment CPKT_AUDIO_VOX_TX_OFF False False v)
       else if vx_max_segment_frames v \<noteq> 0 \<and> vx_total_frame_count v \<ge> vx_max_segment_frames v then
         step_of FrameDone (vox_close_segment CPKT_AUDIO_VOX_HARD_CUT True False v)
       else (FrameDone, v))"
    using assms ap unfolding vox_push_open_def Let_def v_def vox_noted_def by simp
  then show ?thesis
    using t v by (auto intro: obeys_fail obeys_trans [OF t obeys_step_of [OF _ good(2)]]
        obeys_trans [OF v obeys_step_of [OF _ good(1)]] split: if_splits)
qed

lemma obeys_push_frame:
  assumes "vox_push_frame x s = (step, s')"
  shows "obeys s (step_good step) s'"
proof -
  obtain r t where op: "vox_open_segment s = (r, t)" by force
  have pre: "obeys s ok (cpkt_audio_vox_advance_source 1 (cpkt_audio_vox_prebuffer_frame x s))" for ok
    by (rule obeys_same) (simp_all add: cpkt_audio_vox_advance_source_def cpkt_audio_vox_prebuffer_frame_def Let_def)
  show ?thesis
    using assms op pre obeys_open_segment [OF op]
    by (auto simp: vox_push_frame_def Let_def step_good_def [of "FrameReturn _"] intro: obeys_push_open obeys_trans [OF _ obeys_push_open]
        split: if_splits)
qed

lemma obeys_push_loop:
  assumes "vox_push_loop xs s = Some (r, s')"
  shows "obeys s (r = CPKT_AUDIO_OK) s'"
proof -
  have "case (r, s') of (r, s') \<Rightarrow> obeys s (r = CPKT_AUDIO_OK) s'"
  proof (rule vox_push_loop.raw_induct [where P = "\<lambda>xs s y. case y of (r, s') \<Rightarrow> obeys s (r = CPKT_AUDIO_OK) s'", OF _ assms])
    fix loop xs s y
    assume ih: "\<And>xs s y. loop xs s = Some y \<Longrightarrow> case y of (r, s') \<Rightarrow> obeys s (r = CPKT_AUDIO_OK) s'"
      and body: "(case xs of [] \<Rightarrow> Some (CPKT_AUDIO_OK, s)
        | x # xs \<Rightarrow> (case vox_push_frame x s of (FrameDone, s) \<Rightarrow> loop xs s | (FrameRetry, s) \<Rightarrow> loop (x # xs) s
            | (FrameReturn r, s) \<Rightarrow> Some (r, s))) = Some y"
    show "case y of (r, s') \<Rightarrow> obeys s (r = CPKT_AUDIO_OK) s'"
    proof (cases xs)
      case Nil
      with body show ?thesis
        by (auto intro: obeys_same)
    next
      case (Cons x xs')
      obtain step t where pf: "vox_push_frame x s = (step, t)" by force
      have t: "obeys s (step_good step) t"
        by (rule obeys_push_frame [OF pf])
      show ?thesis
        using body Cons pf t ih [of xs' t y] ih [of "x # xs'" t y]
        by (auto simp: step_good_def intro: obeys_trans split: frame_step.splits)
    qed
  qed
  then show ?thesis
    by simp
qed

lemma obeys_push:
  assumes "cpkt_audio_vox_push_f32_mono_16k_impl (Some s) (Some xs) n = Some (r, Some s')"
  shows "obeys s (r = CPKT_AUDIO_OK) s' \<and> (r = CPKT_AUDIO_OK \<longrightarrow> \<not> vx_callback_error s')"
proof (cases "vx_callback_error s")
  case True
  with assms show ?thesis
    by (auto simp: cpkt_audio_vox_push_f32_mono_16k_impl_def intro: obeys_same)
next
  case False
  with assms obeys_push_loop [of "take n xs" s r s'] show ?thesis
    by (auto simp: cpkt_audio_vox_push_f32_mono_16k_impl_def obeys_def)
qed

lemma obeys_flush:
  assumes "cpkt_audio_vox_flush_impl (Some s) = (r, Some s')"
  shows "obeys s (r = CPKT_AUDIO_OK) s' \<and> (r = CPKT_AUDIO_OK \<longrightarrow> \<not> vx_callback_error s')"
proof -
  obtain q t where cl: "vox_close_segment CPKT_AUDIO_VOX_TX_OFF False True s = (q, t)" by force
  show ?thesis
    using assms obeys_close [OF cl] cl
    by (auto simp: cpkt_audio_vox_flush_impl_def obeys_def split: if_splits)
qed

section \<open>The inferences of a stream\<close>

text \<open>\<open>cuts H ss e\<close>: the lists \<open>ss\<close> are slices of \<open>H\<close> in order, none overlapping another, all before \<open>e\<close>.\<close>

inductive cuts :: "'a list \<Rightarrow> 'a list list \<Rightarrow> nat \<Rightarrow> bool" for H where
  cuts_nil: "cuts H [] 0"
| cuts_skip: "cuts H ss e \<Longrightarrow> e \<le> e' \<Longrightarrow> cuts H ss e'"
| cuts_slice: "cuts H ss e \<Longrightarrow> e \<le> a \<Longrightarrow> a + n \<le> length H \<Longrightarrow> cuts H (ss @ [slice H a n]) (a + n)"

lemma cuts_mono: "cuts H ss e \<Longrightarrow> cuts (H @ ys) ss e"
proof (induction rule: cuts.induct)
  case (cuts_slice ss e a n)
  then have "slice (H @ ys) a n = slice H a n"
    by (simp add: slice_simps)
  with cuts.cuts_slice [OF cuts_slice.IH cuts_slice.hyps(2), of n] cuts_slice.hyps(3) show ?case
    by simp
qed (auto intro: cuts.intros)

lemma replay_snoc:
  "replay W B v (tr @ [ObsSegment seg log rc]) = snd (segment_after W B (replay W B v tr) seg log)"
  "replay W B v (tr @ [ObsState ev rc]) = replay W B v tr"
  by (induction W B v tr rule: replay.induct) auto

lemma replay_chain:
  assumes "seg_chain lo hi H tr k e" "session_wf (vt_session v)" "text_sunk v"
  shows "session_wf (vt_session (replay W B v tr)) \<and> text_sunk (replay W B v tr) \<and>
    vt_config (replay W B v tr) = vt_config v \<and>
    (\<exists>new. se_inferences (vt_session (replay W B v tr)) = se_inferences (vt_session v) @ new \<and>
      cuts H (map snd new) e \<and> (\<forall>(p, xs)\<in>set new. lo \<le> length xs \<and> length xs \<le> min hi int_max))"
  using assms(1)
proof (induction rule: seg_chain.induct)
  case chain_nil
  then show ?case
    using assms(2,3) by (auto intro: cuts_nil)
next
  case (chain_state tr k e ev rc)
  then show ?case
    by (simp add: replay_snoc)
next
  case (chain_seg tr k e a n seg log rc)
  let ?v = "replay W B v tr"
  obtain rc' v' where af: "segment_after W B ?v seg log = (rc', v')" by fastforce
  from chain_seg.IH obtain new where new: "se_inferences (vt_session ?v) = se_inferences (vt_session v) @ new"
      "cuts H (map snd new) e" "\<forall>(p, xs)\<in>set new. lo \<le> length xs \<and> length xs \<le> min hi int_max"
    by blast
  have run: "session_wf (vt_session v')" "text_sunk v'" "vt_config v' = vt_config v"
      "se_inferences (vt_session v') = se_inferences (vt_session ?v) \<or>
       (\<exists>params out. pcm_loop (sg_frame_count seg) [] log = (CPKT_SUS_OK, out) \<and>
         se_inferences (vt_session v') = se_inferences (vt_session ?v) @ [(params, out)] \<and> length out \<le> int_max)"
    using segment_after_run [OF af] chain_seg.IH unfolding inferred_once_def by auto
  from run(4) have "\<exists>new. se_inferences (vt_session v') = se_inferences (vt_session v) @ new \<and>
      cuts H (map snd new) (a + n) \<and> (\<forall>(p, xs)\<in>set new. lo \<le> length xs \<and> length xs \<le> min hi int_max)"
  proof
    assume "se_inferences (vt_session v') = se_inferences (vt_session ?v)"
    moreover have "cuts H (map snd new) (a + n)"
      using cuts_skip [OF new(2)] chain_seg.hyps(2) by simp
    ultimately show ?thesis
      using new by auto
  next
    assume "\<exists>params out. pcm_loop (sg_frame_count seg) [] log = (CPKT_SUS_OK, out) \<and>
         se_inferences (vt_session v') = se_inferences (vt_session ?v) @ [(params, out)] \<and> length out \<le> int_max"
    then obtain params out where out: "pcm_loop (sg_frame_count seg) [] log = (CPKT_SUS_OK, out)"
        "se_inferences (vt_session v') = se_inferences (vt_session ?v) @ [(params, out)]" "length out \<le> int_max"
      by blast
    have sl: "out = slice H a n"
      using pcm_loop_slice [OF chain_seg.hyps(6,3) out(1)] .
    then have "length out = n"
      using chain_seg.hyps(3) by (simp add: length_slice)
    then have "\<forall>(p, xs)\<in>set (new @ [(params, out)]). lo \<le> length xs \<and> length xs \<le> min hi int_max"
      using new(3) out(3) chain_seg.hyps(4,5) by auto
    moreover have "cuts H (map snd (new @ [(params, out)])) (a + n)"
      using cuts_slice [OF new(2) chain_seg.hyps(2,3)] sl by simp
    ultimately show ?thesis
      using new(1) out(2) by (intro exI [of _ "new @ [(params, out)]"]) simp
  qed
  with run(1-3) af show ?case
    by (simp add: replay_snoc)
qed

section \<open>The read loop ends with the decoder\<close>

definition decoded :: "(nat \<Rightarrow> nat \<Rightarrow> cpkt_audio_result \<times> f32 list) \<Rightarrow> nat \<Rightarrow> nat \<Rightarrow> nat \<Rightarrow> f32 list" where
  "decoded dec n i k = concat (map (\<lambda>j. snd (dec j n)) [i..<i + k])"

definition decoder_ends :: "(nat \<Rightarrow> nat \<Rightarrow> cpkt_audio_result \<times> f32 list) \<Rightarrow> nat \<Rightarrow> nat \<Rightarrow> bool" where
  "decoder_ends dec n N \<longleftrightarrow> fst (dec N n) \<noteq> CPKT_AUDIO_OK \<or> snd (dec N n) = []"

lemma decoded_0 [simp]: "decoded dec n i 0 = []"
  by (simp add: decoded_def)

lemma decoded_Suc: "decoded dec n i (Suc k) = snd (dec i n) @ decoded dec n (Suc i) k"
  by (simp add: decoded_def upt_conv_Cons del: upt_Suc)

lemma inv_sound: "vox_inv H s \<Longrightarrow> vox_sound H s"
  by (auto simp: vox_inv_def vox_mid_def vox_idle_def intro: chained_sound split: if_splits)

text \<open>One read: the loop ends there, or it goes on with the read frames pushed.\<close>

lemma feed_loop_step:
  assumes inv: "vox_inv H s" and room: "length H + length (snd (dec i n)) \<le> size_max"
  shows "(\<exists>e s' k. feed_loop dec n i s = Some (e, s') \<and> k \<le> Suc 0 \<and> vox_static s' = vox_static s \<and>
      vox_sound (H @ decoded dec n i k) s' \<and> (e = FeedDone \<longrightarrow> vox_inv (H @ decoded dec n i k) s')) \<or>
    \<not> decoder_ends dec n i \<and>
    (\<exists>s'. feed_loop dec n i s = feed_loop dec n (Suc i) s' \<and> vox_static s' = vox_static s \<and>
      vox_inv (H @ snd (dec i n)) s')"
proof -
  obtain r xs where d: "dec i n = (r, xs)" by fastforce
  have one: "decoded dec n i (Suc 0) = xs"
    by (simp add: decoded_Suc d)
  consider (bad) "r \<noteq> CPKT_AUDIO_OK \<and> r \<noteq> CPKT_AUDIO_AT_END"
    | (empty) "r = CPKT_AUDIO_OK \<or> r = CPKT_AUDIO_AT_END" "xs = []"
    | (some) "r = CPKT_AUDIO_OK \<or> r = CPKT_AUDIO_AT_END" "xs \<noteq> []"
    by blast
  then show ?thesis
  proof cases
    case bad
    then have "feed_loop dec n i s = Some (FeedDecoderError, s)"
      by (subst feed_loop.simps) (simp add: d)
    with inv_sound [OF inv] show ?thesis
      by (intro disjI1 exI [of _ FeedDecoderError] exI [of _ s] exI [of _ 0]) simp
  next
    case empty
    then have "feed_loop dec n i s = Some (FeedDone, s)"
      by (subst feed_loop.simps) (auto simp: d)
    with inv_sound [OF inv] inv show ?thesis
      by (intro disjI1 exI [of _ FeedDone] exI [of _ s] exI [of _ 0]) simp
  next
    case some
    obtain ar s1 where push: "cpkt_audio_vox_push_f32_mono_16k_impl (Some s) (Some xs) (length xs) = Some (ar, Some s1)"
        "vox_static s1 = vox_static s" "vox_sound (H @ xs) s1" "ar = CPKT_AUDIO_OK \<longrightarrow> vox_inv (H @ xs) s1"
      using push_impl_inv [OF inv, of xs] room by (auto simp: d)
    have fl: "feed_loop dec n i s =
        (if ar \<noteq> CPKT_AUDIO_OK then Some (FeedVoxError, s1)
         else if r = CPKT_AUDIO_AT_END then Some (FeedDone, s1) else feed_loop dec n (Suc i) s1)"
      by (subst feed_loop.simps) (use some push(1) in \<open>auto simp: d\<close>)
    show ?thesis
    proof (cases "ar = CPKT_AUDIO_OK \<and> r = CPKT_AUDIO_OK")
      case True
      with some fl push show ?thesis
        by (auto simp: decoder_ends_def d)
    next
      case False
      then obtain e where "feed_loop dec n i s = Some (e, s1)" "e = FeedDone \<longrightarrow> ar = CPKT_AUDIO_OK"
        using fl some(1) by (auto split: if_splits)
      with push show ?thesis
        by (intro disjI1 exI [of _ e] exI [of _ s1] exI [of _ "Suc 0"]) (simp add: one)
    qed
  qed
qed

lemma feed_loop_ends:
  assumes "decoder_ends dec n (i + d)" "vox_inv H s" "length H + length (decoded dec n i (Suc d)) \<le> size_max"
  shows "\<exists>e s' k. feed_loop dec n i s = Some (e, s') \<and> k \<le> Suc d \<and> vox_static s' = vox_static s \<and>
    vox_sound (H @ decoded dec n i k) s' \<and> (e = FeedDone \<longrightarrow> vox_inv (H @ decoded dec n i k) s')"
  using assms
proof (induction d arbitrary: i H s)
  case (0 i H s)
  then show ?case
    using feed_loop_step [of H s dec i n] by (auto simp: decoded_Suc)
next
  case (Suc d i H s)
  have room: "length H + length (snd (dec i n)) \<le> size_max"
    using Suc.prems(3) by (simp add: decoded_Suc [of _ _ _ "Suc d"])
  from feed_loop_step [of H s dec i n, OF Suc.prems(2) room] show ?case
  proof (elim disjE conjE exE)
    fix e s' k
    assume "feed_loop dec n i s = Some (e, s')" "k \<le> Suc 0" "vox_static s' = vox_static s"
      "vox_sound (H @ decoded dec n i k) s'" "e = FeedDone \<longrightarrow> vox_inv (H @ decoded dec n i k) s'"
    then show ?case
      by (intro exI [of _ e] exI [of _ s'] exI [of _ k]) simp
  next
    fix s1
    assume s1: "feed_loop dec n i s = feed_loop dec n (Suc i) s1" "vox_static s1 = vox_static s"
      "vox_inv (H @ snd (dec i n)) s1"
    obtain e s' k where ih: "feed_loop dec n (Suc i) s1 = Some (e, s')" "k \<le> Suc d" "vox_static s' = vox_static s1"
        "vox_sound ((H @ snd (dec i n)) @ decoded dec n (Suc i) k) s'"
        "e = FeedDone \<longrightarrow> vox_inv ((H @ snd (dec i n)) @ decoded dec n (Suc i) k) s'"
      using Suc.IH [of "Suc i", OF _ s1(3)] Suc.prems(1,3) by (auto simp: decoded_Suc [of _ _ _ "Suc d"])
    then show ?case
      using s1 by (intro exI [of _ e] exI [of _ s'] exI [of _ "Suc k"]) (simp add: decoded_Suc)
  qed
qed

section \<open>The sink's answers and its state\<close>

lemma push_Some:
  "cpkt_audio_vox_push_f32_mono_16k_impl (Some s) xs n = Some (r, t) \<Longrightarrow> \<exists>s'. t = Some s'"
  by (auto simp: cpkt_audio_vox_push_f32_mono_16k_impl_def split: if_splits)

lemma feed_obeys:
  assumes "feed_loop dec n i s = Some (e, s')"
  shows "obeys s (e = FeedDone) s'"
proof -
  let ?P = "\<lambda>(s :: vox_sys) y. case y of (e, s') \<Rightarrow> obeys s (e = FeedDone) s'"
  have "?P s (e, s')"
  proof (rule feed_loop.raw_induct [where P = "\<lambda>dec n i. ?P", OF _ assms])
    fix loop :: "(nat \<Rightarrow> nat \<Rightarrow> cpkt_audio_result \<times> f32 list) \<Rightarrow> nat \<Rightarrow> nat \<Rightarrow> vox_sys \<Rightarrow> (feed_end \<times> vox_sys) option"
      and dec n i s y
    assume ih: "\<And>dec n i s y. loop dec n i s = Some y \<Longrightarrow> ?P s y"
      and body: "(let (r, xs) = dec i n in
        if r \<noteq> CPKT_AUDIO_OK \<and> r \<noteq> CPKT_AUDIO_AT_END then Some (FeedDecoderError, s)
        else Option.bind (if xs \<noteq> [] then cpkt_audio_vox_push_f32_mono_16k_impl (Some s) (Some xs) (length xs)
                 else Some (CPKT_AUDIO_OK, Some s))
          (\<lambda>(ar, s'). if ar \<noteq> CPKT_AUDIO_OK then Some (FeedVoxError, the s')
             else if r = CPKT_AUDIO_AT_END \<or> xs = [] then Some (FeedDone, the s')
             else loop dec n (Suc i) (the s'))) = Some y"
    obtain r xs where d: "dec i n = (r, xs)" by fastforce
    show "?P s y"
    proof (cases "(r = CPKT_AUDIO_OK \<or> r = CPKT_AUDIO_AT_END) \<and> xs \<noteq> []")
      case False
      with body d show ?thesis
        by (auto intro: obeys_same split: if_splits)
    next
      case True
      with body d obtain ar t' where push':
          "cpkt_audio_vox_push_f32_mono_16k_impl (Some s) (Some xs) (length xs) = Some (ar, t')"
        by (auto simp: Option.bind_eq_Some_conv)
      with push_Some obtain t where push:
          "cpkt_audio_vox_push_f32_mono_16k_impl (Some s) (Some xs) (length xs) = Some (ar, Some t)"
        by blast
      have t: "obeys s (ar = CPKT_AUDIO_OK) t"
        using obeys_push [OF push] by simp
      show ?thesis
        using body d True push t ih [of dec n "Suc i" t y] by (auto intro: obeys_trans split: if_splits)
    qed
  qed
  then show ?thesis by simp
qed

lemma closing_zero: "segment_closing W v = (0, v') \<Longrightarrow> vt_result v = CPKT_SUS_OK \<Longrightarrow> vt_result v' = CPKT_SUS_OK"
  by (auto simp: segment_closing_def Let_def split: prod.splits if_splits option.splits)

lemma commit_zero: "segment_commit W seg v = (0, v') \<Longrightarrow> vt_result v = CPKT_SUS_OK \<Longrightarrow> vt_result v' = CPKT_SUS_OK"
  by (auto simp: segment_commit_def Let_def dest: closing_zero split: prod.splits if_splits)

lemma infer_zero: "segment_infer W B seg res xs v = (0, v') \<Longrightarrow> vt_result v = CPKT_SUS_OK \<Longrightarrow> vt_result v' = CPKT_SUS_OK"
  by (auto simp: segment_infer_def Let_def dest: commit_zero split: prod.splits if_splits option.splits)

lemma segment_after_zero:
  assumes "fst (segment_after W B v seg log) = 0"
  shows "vt_result (snd (segment_after W B v seg log)) = CPKT_SUS_OK"
proof -
  obtain r v1 where b: "segment_begin W seg v = (r, v1)" by fastforce
  obtain res xs where p: "pcm_loop (sg_frame_count seg) [] log = (res, xs)" by fastforce
  have v1: "vt_result v1 = vt_result v"
    using b by (auto simp: segment_begin_def Let_def split: prod.splits if_splits)
  show ?thesis
    using assms infer_zero [of W B seg res xs v1 "snd (segment_infer W B seg res xs v1)"]
    by (auto simp: segment_after_def b p v1 prod_eq_iff split: if_splits)
qed

lemma replay_obeyed:
  assumes "obeyed sink tr err" "sink = (\<lambda>tr seg. cpkt_sus_vox_segment_sink W B (replay W B v tr) seg)"
    "vt_result v = CPKT_SUS_OK"
  shows "\<not> err \<longrightarrow> vt_result (replay W B v tr) = CPKT_SUS_OK"
  using assms(1)
proof (induction rule: obeyed.induct)
  case (obeyed_nil err)
  then show ?case using assms(3) by simp
next
  case (obeyed_state tr err err' ev rc)
  then show ?case by (auto simp: replay_snoc)
next
  case (obeyed_segment tr err rc err' seg u log u')
  have "rc = fst (segment_after W B (replay W B v tr) seg log)"
    using segment_sink_runs obeyed_segment.hyps(3) by (simp add: assms(2))
  with obeyed_segment.hyps(2) segment_after_zero [of W B "replay W B v tr" seg log] show ?case
    by (auto simp: replay_snoc)
qed

section \<open>Transcribing a stream\<close>

text \<open>The segmenter the transcription opens.\<close>

lemma open_fields:
  assumes "cpkt_audio_vox_open malloc io False (Some c) = (CPKT_AUDIO_OK, s)"
  shows "\<exists>t rel mx mn pre mem sp. s = Some t \<and> vox_settings c = Some (rel, mx, mn, pre, mem, sp) \<and>
    vc_segment_sink c = Some (vx_segment_sink t) \<and> vx_trace t = [] \<and> \<not> vx_callback_error t \<and>
    vx_min_segment_frames t = mn \<and> vx_max_segment_frames t = mx \<and> vx_prebuffer_capacity t = pre"
proof -
  obtain sink rel mx mn pre mem sp fr pb where
    c: "vc_segment_sink c = Some sink" "vox_settings c = Some (rel, mx, mn, pre, mem, sp)"
    and s: "s = Some (vox_blank\<lparr>vx_segment_sink := sink, vx_state_sink := vc_state_sink c,
                     vx_frames := fr, vx_prebuffer_frames := pb,
                     vx_release_silence_frames := rel,
                     vx_max_segment_frames := mx,
                     vx_min_segment_frames := mn,
                     vx_frame_capacity := mem,
                     vx_prebuffer_capacity := pre,
                     vx_max_spool_frames := sp,
                     vx_threshold :=
                       (if f32_less 0 (vc_threshold c) then vc_threshold c else f32_0_05),
                     vx_io := io\<rparr>)"
    using assms
    by (fastforce simp: cpkt_audio_vox_open_def split: option.splits if_splits prod.splits)
  then show ?thesis
    by (intro exI [of _ "the s"] exI) (rule conjI [OF _ conjI [OF c(2)]], simp_all add: vox_blank_def)
qed

lemma settings_fields:
  assumes "vox_settings c = Some (rel, mx, mn, pre, mem, sp)"
  shows "mn = 16 * (if vc_min_segment_ms c \<noteq> 0 then vc_min_segment_ms c else 100)"
    "mx = 16 * vc_max_segment_ms c"
    "pre = 16 * (if vc_prebuffer_ms c \<noteq> 0 then vc_prebuffer_ms c else 10)"
proof -
  obtain a b where ms: "cpkt_audio_ms_to_16k_frames a = Some rel" "cpkt_audio_ms_to_16k_frames (if vc_min_segment_ms c \<noteq> 0 then vc_min_segment_ms c else 100) = Some mn"
      "cpkt_audio_ms_to_16k_frames (if vc_prebuffer_ms c \<noteq> 0 then vc_prebuffer_ms c else 10) = Some pre"
      "(if vc_max_segment_ms c \<noteq> 0 then cpkt_audio_ms_to_16k_frames (vc_max_segment_ms c) else Some 0) = Some mx"
    using assms unfolding vox_settings_def Let_def by (auto split: option.splits if_split_asm simp del: One_nat_def)
  then show "mn = 16 * (if vc_min_segment_ms c \<noteq> 0 then vc_min_segment_ms c else 100)"
    "mx = 16 * vc_max_segment_ms c"
    "pre = 16 * (if vc_prebuffer_ms c \<noteq> 0 then vc_prebuffer_ms c else 10)"
    by (auto simp: cpkt_audio_ms_to_16k_frames_def split: if_splits)
qed

lemma decoded_prefix:
  assumes "k \<le> m"
  shows "\<exists>ys. decoded dec n i m = decoded dec n i k @ ys"
proof -
  have "[i..<i + m] = [i..<i + k] @ [i + k..<i + m]"
    using assms upt_add_eq_append [of i "i + k" "m - k"] by simp
  then show ?thesis
    by (simp add: decoded_def)
qed

text \<open>
  What inference may be asked for: 100 ms at least, no more than an \<open>int\<close> counts, and, where the
  caller set a budget, no more than the budget or what the prebuffer holds and the frame that opened
  the segment.
\<close>

definition inference_bounds :: "cpkt_sus_segmented_config option \<Rightarrow> f32 list \<Rightarrow> bool" where
  "inference_bounds config xs \<longleftrightarrow>
     1600 \<le> length xs \<and> length xs \<le> int_max \<and>
     (segment_budget_ms config \<noteq> 0 \<longrightarrow>
       length xs \<le> max (16 * segment_budget_ms config) (Suc (16 * cfg_num config sc_prebuffer_ms 10)))"

definition stream_inferred ::
    "cpkt_sus_segmented_config option \<Rightarrow> f32 list \<Rightarrow> sus_session \<Rightarrow> sus_session \<Rightarrow> bool" where
  "stream_inferred config H x x' \<longleftrightarrow>
     session_wf x' \<and>
     (\<exists>new e. se_inferences x' = se_inferences x @ new \<and> cuts H (map snd new) e \<and>
       (\<forall>(p, xs)\<in>set new. inference_bounds config xs))"

lemma inferred_nil: "session_wf x' \<Longrightarrow> se_inferences x' = se_inferences x \<Longrightarrow> stream_inferred config H x x'"
  unfolding stream_inferred_def by (auto intro: cuts_nil)

lemma inferred_mono: "stream_inferred config H x x' \<Longrightarrow> stream_inferred config (H @ ys) x x'"
  unfolding stream_inferred_def by (auto intro: cuts_mono)

lemma inferred_step:
  "stream_inferred config H x y \<Longrightarrow> session_wf x' \<Longrightarrow> se_inferences x' = se_inferences y \<Longrightarrow> stream_inferred config H x x'"
  unfolding stream_inferred_def by simp

lemma segmented_vox_fields [simp]:
  "vc_segment_sink (segmented_vox_config config sink) = Some sink"
  "vc_min_segment_ms (segmented_vox_config config sink) = 100"
  "vc_max_segment_ms (segmented_vox_config config sink) = segment_budget_ms config"
  "vc_prebuffer_ms (segmented_vox_config config sink) = cfg_num config sc_prebuffer_ms 0"
  by (simp_all add: segmented_vox_config_def)

lemma cfg_num_default: "(if cfg_num config f 0 \<noteq> 0 then cfg_num config f 0 else d) = cfg_num config f d"
  by (auto simp: cfg_num_def split: option.splits)

lemma segmented_open:
  assumes "cpkt_audio_vox_open malloc io False (Some (segmented_vox_config config sink)) = (CPKT_AUDIO_OK, s)"
  shows "\<exists>t. s = Some t \<and> vx_segment_sink t = sink \<and> vx_trace t = [] \<and> \<not> vx_callback_error t \<and>
    vx_min_segment_frames t = 1600 \<and>
    (\<forall>xs. length xs \<le> min (vox_hi t) int_max \<and> 1600 \<le> length xs \<longrightarrow> inference_bounds config xs)"
proof -
  obtain t rel mx mn pre mem sp where t: "s = Some t" "vox_settings (segmented_vox_config config sink) = Some (rel, mx, mn, pre, mem, sp)"
      "sink = vx_segment_sink t" "vx_trace t = []" "\<not> vx_callback_error t"
      "vx_min_segment_frames t = mn" "vx_max_segment_frames t = mx" "vx_prebuffer_capacity t = pre"
    using open_fields [OF assms] unfolding segmented_vox_fields option.inject by (elim exE conjE) (rule that)
  note f = settings_fields [OF t(2)]
  have "mn = 1600" "mx = 16 * segment_budget_ms config" "pre = 16 * cfg_num config sc_prebuffer_ms 10"
    using f unfolding segmented_vox_fields cfg_num_default by simp_all
  then have "inference_bounds config xs" if "length xs \<le> min (vox_hi t) int_max" "1600 \<le> length xs" for xs
    using that t(7,8) by (auto simp: inference_bounds_def vox_hi_def split: if_splits)
  then show ?thesis
    using t(1,3-6) \<open>mn = 1600\<close> by (intro exI [of _ t]) simp
qed

text \<open>What the sink has left behind once the segmenter has seen \<open>H\<close>.\<close>

lemma replay_inferred:
  assumes "vox_sound H s" "vox_static s = vox_static t" "vx_min_segment_frames t = 1600"
    "\<forall>xs. length xs \<le> min (vox_hi t) int_max \<and> 1600 \<le> length xs \<longrightarrow> inference_bounds config xs"
    "session_wf (vt_session v0)" "text_sunk v0" "se_inferences (vt_session v0) = se_inferences x"
  shows "stream_inferred config H x (vt_session (replay W B v0 (vx_trace s))) \<and>
    text_sunk (replay W B v0 (vx_trace s)) \<and> vt_config (replay W B v0 (vx_trace s)) = vt_config v0"
proof -
  obtain k e where "seg_chain 1600 (vox_hi t) H (vx_trace s) k e"
    using assms(1,3) static_bounds [OF assms(2)] by (auto simp: vox_sound_def vox_traced_def)
  from replay_chain [OF this assms(5,6), of W B] show ?thesis
    using assms(4,7) unfolding stream_inferred_def by fastforce
qed

abbreviation text_config :: "cpkt_sus_segmented_config option \<Rightarrow> bool" where
  "text_config config \<equiv> \<exists>c. config = Some c \<and> sc_segmented_sink c = Some TextSink"

lemma final_event_run:
  assumes "cpkt_sus_emit_segmented_event W (case config of None \<Rightarrow> None | Some c \<Rightarrow> sc_segmented_sink c) None k t0 t1 fin y = (r, x')"
    "stream_inferred config' H x y"
  shows "stream_inferred config' H x x' \<and>
    (r = CPKT_SUS_OK \<and> text_config config \<longrightarrow> collected (se_text x') = revised_string (se_impl x'))"
proof -
  have wf: "session_wf y"
    using assms(2) by (simp add: stream_inferred_def)
  note run = emit_segmented_run [OF assms(1) wf]
  have "stream_inferred config' H x x'"
    using inferred_step [OF assms(2)] run emit_inferences [OF assms(1)] by blast
  moreover have "collected (se_text x') = revised_string (se_impl x')" if "r = CPKT_SUS_OK" "text_config config"
    using run that by (auto simp: delivered_def split: if_splits)
  ultimately show ?thesis by blast
qed

lemma finish_run:
  assumes ff: "feed_finish W B v0 s = (r, x')" and inv: "vox_inv H s"
    and sink: "vx_segment_sink s = (\<lambda>tr seg. cpkt_sus_vox_segment_sink W B (replay W B v0 tr) seg)"
      "obeyed (vx_segment_sink s) (vx_trace s) (vx_callback_error s)" "vt_result v0 = CPKT_SUS_OK"
    and rep: "\<And>s'. vox_sound H s' \<Longrightarrow> vox_static s' = vox_static s \<Longrightarrow>
      stream_inferred config H x (vt_session (replay W B v0 (vx_trace s'))) \<and>
      text_sunk (replay W B v0 (vx_trace s')) \<and> vt_config (replay W B v0 (vx_trace s')) = vt_config v0"
  shows "stream_inferred config H x x' \<and>
    (r = CPKT_SUS_OK \<and> text_config (vt_config v0) \<longrightarrow> collected (se_text x') = revised_string (se_impl x'))"
proof -
  obtain fr t where fl: "cpkt_audio_vox_flush_impl (Some s) = (fr, Some t)"
    and t: "vox_static t = vox_static s" "vox_sound H t"
    using flush_inv [OF inv] by (metis surj_pair)
  define v where "v = replay W B v0 (vx_trace t)"
  have v: "stream_inferred config H x (vt_session v)" "text_sunk v" "vt_config v = vt_config v0"
    using rep [OF t(2,1)] by (simp_all add: v_def)
  have body: "(r, x') =
      (if fr \<noteq> CPKT_AUDIO_OK then (own_result v, vt_session v)
       else if \<not> vt_final_emitted v then
         cpkt_sus_emit_segmented_event W (case vt_config v of None \<Rightarrow> None | Some c \<Rightarrow> sc_segmented_sink c) None
           (vt_segment_count v) (vt_last_t0 v) (vt_last_t1 v) True (vt_session v)
       else (CPKT_SUS_OK, vt_session v))"
    using ff [symmetric] unfolding feed_finish_def fl Let_def prod.case option.sel v_def .
  consider "fr \<noteq> CPKT_AUDIO_OK" | "fr = CPKT_AUDIO_OK" "\<not> vt_final_emitted v" | "fr = CPKT_AUDIO_OK" "vt_final_emitted v"
    by blast
  then show ?thesis
  proof cases
    case 1
    then show ?thesis
      using body v(1) by (auto simp: own_result_def split: if_splits)
  next
    case 2
    then have "cpkt_sus_emit_segmented_event W (case vt_config v of None \<Rightarrow> None | Some c \<Rightarrow> sc_segmented_sink c) None
           (vt_segment_count v) (vt_last_t0 v) (vt_last_t1 v) True (vt_session v) = (r, x')"
      using body by simp
    from final_event_run [OF this v(1)] v(3) show ?thesis by simp
  next
    case 3
    then have "obeyed (vx_segment_sink s) (vx_trace t) False"
      using obeys_flush [OF fl] sink(2) by (auto simp: obeys_def)
    from replay_obeyed [OF this sink(1,3)] have "vt_result v = CPKT_SUS_OK"
      by (simp add: v_def)
    then show ?thesis
      using body 3 v by (auto simp: text_sunk_def)
  qed
qed

lemma segmented_run:
  assumes mk: "malloc_ok malloc" and wf: "session_wf x" and n: "n = cfg_num config sc_read_frames 4096"
    and ends: "decoder_ends dec n N" and room: "length (decoded dec n 0 (Suc N)) \<le> size_max"
  shows "\<exists>r x'. cpkt_sus_transcriber_transcribe_audio_decoder_segmented_impl W B malloc io dec config x = Some (r, x') \<and>
    stream_inferred config (decoded dec n 0 (Suc N)) x x' \<and>
    (r = CPKT_SUS_OK \<and> text_config config \<longrightarrow> collected (se_text x') = revised_string (se_impl x'))"
proof -
  let ?H = "decoded dec n 0 (Suc N)"
  obtain ok s0 where tried: "sus_try W (se_sys x) = (ok, s0)" by fastforce
  define x1 where "x1 = x\<lparr>se_sys := s0\<rparr>"
  define x2 where "x2 = x1\<lparr>se_impl := cpkt_sus_transcriber_reset_revised_text (se_impl x1)\<rparr>"
  define v0 where "v0 = transcribe_state config no_prompt 0 x2"
  define sink where "sink = (\<lambda>tr seg. cpkt_sus_vox_segment_sink W B (replay W B v0 tr) seg)"
  obtain r vox where op: "cpkt_audio_vox_open malloc io False (Some (segmented_vox_config config sink)) = (r, vox)"
    by fastforce
  define res where "res = map_option (\<lambda>(e, s). let v = replay W B v0 (vx_trace s) in
      case e of FeedDecoderError \<Rightarrow> (CPKT_SUS_ERR_IO, vt_session v) | FeedVoxError \<Rightarrow> (own_result v, vt_session v)
      | FeedDone \<Rightarrow> feed_finish W B v0 s) (feed_loop dec n 0 (the vox))"
  have body: "cpkt_sus_transcriber_transcribe_audio_decoder_segmented_impl W B malloc io dec config x =
      (if n = 0 \<or> n > size_max div 4 then Some (CPKT_SUS_ERR_ARG, x)
       else if \<not> ok then Some (CPKT_SUS_ERR_ALLOC, x1)
       else if r \<noteq> CPKT_AUDIO_OK then Some (CPKT_SUS_ERR_ARG, x2) else res)"
    unfolding cpkt_sus_transcriber_transcribe_audio_decoder_segmented_impl_def Let_def n [symmetric] tried prod.case
      x1_def [symmetric] x2_def [symmetric] v0_def [symmetric] sink_def [symmetric] op res_def by (rule refl)
  have wf1: "session_wf x1" "session_wf x2" "se_inferences x1 = se_inferences x" "se_inferences x2 = se_inferences x"
    using wf reset_run [of "se_impl x"] by (auto simp: x1_def x2_def session_wf_def)
  have v0: "session_wf (vt_session v0)" "text_sunk v0" "se_inferences (vt_session v0) = se_inferences x"
      "vt_config v0 = config" "vt_result v0 = CPKT_SUS_OK"
    using wf1 by (simp_all add: v0_def transcribe_state_def text_sunk_def)
  show ?thesis
  proof (cases "n = 0 \<or> n > size_max div 4 \<or> \<not> ok \<or> r \<noteq> CPKT_AUDIO_OK")
    case True
    then show ?thesis
      using body wf wf1 by (auto intro: inferred_nil)
  next
    case False
    then have op': "cpkt_audio_vox_open malloc io False (Some (segmented_vox_config config sink)) = (CPKT_AUDIO_OK, vox)"
      using op by simp
    obtain t where t: "vox = Some t" "vx_segment_sink t = sink" "vx_trace t = []" "\<not> vx_callback_error t"
        "vx_min_segment_frames t = 1600"
        "\<forall>xs. length xs \<le> min (vox_hi t) int_max \<and> 1600 \<le> length xs \<longrightarrow> inference_bounds config xs"
      using segmented_open [OF op'] by blast
    have inv: "vox_inv [] t"
      using vox_open_inv [OF mk op'] t(1) by auto
    obtain e s k where fl: "feed_loop dec n 0 t = Some (e, s)" "k \<le> Suc N" "vox_static s = vox_static t"
        "vox_sound (decoded dec n 0 k) s" "e = FeedDone \<longrightarrow> vox_inv (decoded dec n 0 k) s"
      using feed_loop_ends [of dec n 0 N "[]" t] ends inv room by auto
    obtain ys where ys: "?H = decoded dec n 0 k @ ys"
      using decoded_prefix [OF fl(2)] by blast
    note rep = replay_inferred [OF _ _ t(5,6) v0(1-3), of _ _ W B]
    define v where "v = replay W B v0 (vx_trace s)"
    have v: "stream_inferred config ?H x (vt_session v)"
      using rep [OF fl(4,3)] inferred_mono unfolding ys v_def by blast
    show ?thesis
    proof (cases "e = FeedDone")
      case True
      obtain q x' where ff: "feed_finish W B v0 s = (q, x')" by fastforce
      have ob: "vx_segment_sink s = sink" "obeyed (vx_segment_sink s) (vx_trace s) (vx_callback_error s)"
        using feed_obeys [OF fl(1)] t(2-4) obeyed_nil by (auto simp: obeys_def)
      have "stream_inferred config (decoded dec n 0 k) x x' \<and>
          (q = CPKT_SUS_OK \<and> text_config (vt_config v0) \<longrightarrow> collected (se_text x') = revised_string (se_impl x'))"
        by (rule finish_run [OF ff _ ob(1) [unfolded sink_def] ob(2) v0(5)])
          (use True fl(3,5) rep in auto)
      moreover have "res = Some (q, x')"
        by (simp add: res_def t(1) fl(1) True ff)
      ultimately show ?thesis
        using body False v0(4) inferred_mono unfolding ys by auto
    next
      case nd: False
      then have "\<exists>q. res = Some (q, vt_session v) \<and> q \<noteq> CPKT_SUS_OK"
        by (cases e) (auto simp: res_def t(1) fl(1) v_def Let_def own_result_def)
      then show ?thesis
        using body False v by auto
    qed
  qed
qed

section \<open>Text and tokens of an inference\<close>

definition inference_text :: "whisper_segment list \<Rightarrow> string" where
  "inference_text gs = concat (map (\<lambda>g. case ws_text g of None \<Rightarrow> [] | Some t \<Rightarrow> t) gs)"

definition inference_tokens :: "whisper_segment list \<Rightarrow> int list" where
  "inference_tokens gs = concat (map (\<lambda>g. map (ws_token g) [0..<nat (ws_n_tokens g)]) gs)"

lemma copy_texts_all: "copy_texts gs acc = acc @ inference_text gs"
  by (induction gs acc rule: copy_texts.induct) (auto simp: inference_text_def split: option.splits)

lemma measure_texts_all:
  "measure_texts gs len = Some m \<Longrightarrow> len < size_max \<Longrightarrow> m = len + length (inference_text gs) \<and> m < size_max"
proof (induction gs len rule: measure_texts.induct)
  case (2 g gs len)
  have sub: "sz_sub (sz_sub size_max len) 1 = size_max - len - 1"
    using "2.prems"(2) by (simp add: sz_sub_id)
  show ?case
  proof (cases "ws_text g")
    case None
    then show ?thesis
      using 2 by (simp add: inference_text_def)
  next
    case (Some t)
    then have "length t \<le> size_max - len - 1" "measure_texts gs (len + length t) = Some m"
      using "2.prems"(1) sub by (auto split: if_splits)
    moreover from this have "m = len + length t + length (inference_text gs) \<and> m < size_max"
      by (intro "2.IH"(2) [OF Some]) (use "2.prems"(2) sub in simp_all)
    ultimately show ?thesis
      using Some by (auto simp: inference_text_def)
  qed
qed (auto simp: inference_text_def)

definition prompt_wf :: "prompt_buffer \<Rightarrow> bool" where
  "prompt_wf p \<longleftrightarrow>
     pb_capacity p = (case pb_tokens p of None \<Rightarrow> 0 | Some b \<Rightarrow> length b) \<and> pb_count p \<le> pb_capacity p \<and>
     pb_capacity p < size_max"

definition prompt_list :: "prompt_buffer \<Rightarrow> int list" where
  "prompt_list p = (case pb_tokens p of None \<Rightarrow> [] | Some b \<Rightarrow> take (pb_count p) b)"

text \<open>Room for the tokens of one more segment.\<close>

lemma prompt_room:
  assumes "prompt_wf p" "grow_capacity 64 (pb_capacity p) needed = Some next" "pb_capacity p < needed"
  shows "prompt_wf (p\<lparr>pb_tokens := Some (buf_grow junk (pb_tokens p) next), pb_capacity := next\<rparr>)"
    "prompt_list (p\<lparr>pb_tokens := Some (buf_grow junk (pb_tokens p) next), pb_capacity := next\<rparr>) = prompt_list p"
    "needed \<le> next"
proof -
  have "needed \<le> next" "pb_capacity p \<le> next" "next < size_max"
    using grow_loop_Some [OF assms(2) [unfolded grow_capacity_def]]
      grow_loop_below [OF assms(2) [unfolded grow_capacity_def]] assms(1,3)
    by (auto simp: prompt_wf_def c_limits split: if_splits)
  then show "needed \<le> next"
    "prompt_wf (p\<lparr>pb_tokens := Some (buf_grow junk (pb_tokens p) next), pb_capacity := next\<rparr>)"
    "prompt_list (p\<lparr>pb_tokens := Some (buf_grow junk (pb_tokens p) next), pb_capacity := next\<rparr>) = prompt_list p"
    using assms(1)
    by (auto simp: prompt_wf_def prompt_list_def buf_grow_def Let_def split: option.splits)
qed

lemma prompt_reserved:
  assumes "prompt_wf p" and grown: "prompt_reserve W p n s = (q, p1, s1)"
  shows "prompt_wf p1 \<and> prompt_list p1 = prompt_list p \<and> tick_only s s1 \<and> pb_count p1 = pb_count p \<and>
    (q = CPKT_SUS_OK \<longrightarrow> pb_count p + n \<le> pb_capacity p1)"
proof (cases "pb_count p + n > pb_capacity p")
  case False
  then show ?thesis using assms by (auto simp: prompt_reserve_def)
next
  case more: True
  show ?thesis
  proof (cases "grow_capacity 64 (pb_capacity p) (pb_count p + n)")
    case None
    then show ?thesis using assms more by (auto simp: prompt_reserve_def)
  next
    case (Some next')
    note room = prompt_room(1,2) [OF assms(1) Some more, of "\<lambda>i. of_char (sw_junk W i)"] prompt_room(3) [OF assms(1) Some more]
    show ?thesis
    proof (cases "sw_fails W (ss_tick s)")
      case True
      then have "p1 = p" "q = CPKT_SUS_ERR_ALLOC" "tick_only s s1"
        using grown more Some by (auto simp: prompt_reserve_def sus_try_def)
      then show ?thesis using assms(1) by simp
    next
      case False
      then have "p1 = p\<lparr>pb_tokens := Some (buf_grow (\<lambda>i. of_char (sw_junk W i)) (pb_tokens p) next'), pb_capacity := next'\<rparr>" "tick_only s s1"
        using grown more Some by (auto simp: prompt_reserve_def sus_try_def)
      then show ?thesis using room by simp
    qed
  qed
qed

lemma prompt_write:
  assumes "prompt_wf p" "pb_count p + length ts \<le> pb_capacity p" "ts \<noteq> []"
  shows "prompt_wf (p\<lparr>pb_tokens := map_option (buf_write (pb_count p) ts) (pb_tokens p), pb_count := pb_count p + length ts\<rparr>)"
    "prompt_list (p\<lparr>pb_tokens := map_option (buf_write (pb_count p) ts) (pb_tokens p), pb_count := pb_count p + length ts\<rparr>) =
      prompt_list p @ ts"
  using assms by (auto simp: prompt_wf_def prompt_list_def take_buf_write split: option.splits)

lemma capture_loop_run:
  "capture_loop W gs p s = (r, p', s') \<Longrightarrow> prompt_wf p \<Longrightarrow>
   prompt_wf p' \<and> tick_only s s' \<and> (r = CPKT_SUS_OK \<longrightarrow> prompt_list p' = prompt_list p @ inference_tokens gs)"
proof (induction gs arbitrary: p s)
  case Nil
  then show ?case
    by (simp add: inference_tokens_def)
next
  case (Cons g gs)
  define n where "n = nat (ws_n_tokens g)"
  define ts where "ts = map (ws_token g) [0..<n]"
  have tl: "inference_tokens (g # gs) = ts @ inference_tokens gs"
    by (simp add: inference_tokens_def ts_def n_def)
  show ?case
  proof (cases "ws_n_tokens g < 0 \<or> n > sz_sub size_max (pb_count p)")
    case True
    then show ?thesis
      using Cons.prems by (auto simp: n_def split: if_splits)
  next
    case False
    obtain q p1 s1 where grown: "prompt_reserve W p n s = (q, p1, s1)"
      by (metis prod_cases3)
    have p1: "prompt_wf p1" "prompt_list p1 = prompt_list p" "tick_only s s1" "pb_count p1 = pb_count p"
        "q = CPKT_SUS_OK \<longrightarrow> pb_count p + n \<le> pb_capacity p1"
      using prompt_reserved [OF Cons.prems(2) grown] by simp_all
    define p2 where "p2 = (if n = 0 then p1
      else p1\<lparr>pb_tokens := map_option (buf_write (pb_count p1) ts) (pb_tokens p1), pb_count := pb_count p1 + n\<rparr>)"
    have body: "(if q \<noteq> CPKT_SUS_OK then (q, p1, s1) else capture_loop W gs p2 s1) = (r, p', s')"
      using Cons.prems(1) False grown unfolding capture_loop.simps Let_def n_def [symmetric] p2_def ts_def
      by (simp cong: if_cong)
    show ?thesis
    proof (cases "q = CPKT_SUS_OK")
      case False
      then show ?thesis
        using body p1 by auto
    next
      case True
      have "prompt_wf p2" "prompt_list p2 = prompt_list p @ ts"
        using prompt_write [OF p1(1), of ts] p1 True by (auto simp: p2_def ts_def)
      then show ?thesis
        using Cons.IH [of p2 s1] body True tick_only_trans [OF p1(3)] by (auto simp: tl)
    qed
  qed
qed


lemma capture_run:
  assumes "cpkt_sus_capture_prompt_tokens W gs p s = (r, p', s')" "prompt_wf p"
  shows "prompt_wf p' \<and> (r = CPKT_SUS_OK \<longrightarrow> prompt_list p' = inference_tokens gs)"
proof -
  have "prompt_wf (p\<lparr>pb_count := 0\<rparr>)" "prompt_list (p\<lparr>pb_count := 0\<rparr>) = []"
    using assms(2) by (auto simp: prompt_wf_def prompt_list_def split: option.splits)
  then show ?thesis
    using capture_loop_run [OF assms(1) [unfolded cpkt_sus_capture_prompt_tokens_def]] by simp
qed

section \<open>A segment that was transcribed\<close>

lemma emit_segments:
  assumes "cpkt_sus_emit_segmented_event W sink text k t0 t1 fin x = (r, x')"
  shows "se_segments x' = se_segments x"
proof -
  have d: "se_segments y' = se_segments y" if "deliver_segmented W sink k t0 t1 fin y = (q, y')" for y q y'
    using that by (auto simp: deliver_segmented_def Let_def split: option.splits segmented_sink.splits if_splits prod.splits)
  show ?thesis
    using assms d
    by (auto simp: cpkt_sus_emit_segmented_event_def Let_def split: if_splits prod.splits)
qed

lemma closing_ok:
  assumes "segment_closing W v = (0, v')"
  shows "vt_segment_count v' = vt_segment_count v \<and> transcript (vt_session v') = transcript (vt_session v) \<and>
    se_segments (vt_session v') = se_segments (vt_session v) \<and>
    (prompt_wf (vt_prompt v) \<longrightarrow> prompt_wf (vt_prompt v') \<and>
      (vt_use_prompt v \<longrightarrow> prompt_list (vt_prompt v') = inference_tokens (se_segments (vt_session v))))"
proof -
  obtain r p s where c: "(if vt_use_prompt v then
           cpkt_sus_capture_prompt_tokens W (se_segments (vt_session v)) (vt_prompt v) (se_sys (vt_session v))
         else (CPKT_SUS_OK, vt_prompt v, se_sys (vt_session v))) = (r, p, s)"
    by (metis prod_cases3)
  have "r = CPKT_SUS_OK" "vt_prompt v' = p" "vt_segment_count v' = vt_segment_count v"
      "transcript (vt_session v') = transcript (vt_session v)" "se_segments (vt_session v') = se_segments (vt_session v)"
    using assms c
    by (auto simp: segment_closing_def Let_def transcript_def revised_string_def split: if_splits option.splits)
  then show ?thesis
    using c capture_run [of W "se_segments (vt_session v)" "vt_prompt v" "se_sys (vt_session v)" r p s]
    by (auto split: if_splits)
qed

lemma build_text_ok:
  assumes "cpkt_sus_build_segmented_text W x = (CPKT_SUS_OK, t, x')"
  shows "t = inference_text (se_segments x) \<and> length t < size_max"
  using assms measure_texts_all [of "se_segments x" 0]
  by (auto simp: cpkt_sus_build_segmented_text_def Let_def copy_texts_all c_limits
      split: option.splits if_splits prod.splits)

lemma commit_ok:
  assumes "segment_commit W seg v = (0, v')" "session_wf (vt_session v)"
  shows "vt_segment_count v' = sz (vt_segment_count v + 1) \<and>
    se_segments (vt_session v') = se_segments (vt_session v) \<and>
    transcript (vt_session v') = commit_text (mi_preserve (se_model (vt_session v))) (transcript (vt_session v))
      (inference_text (se_segments (vt_session v))) \<and>
    (prompt_wf (vt_prompt v) \<longrightarrow> prompt_wf (vt_prompt v') \<and>
      (vt_use_prompt v \<longrightarrow> prompt_list (vt_prompt v') = inference_tokens (se_segments (vt_session v))))"
proof -
  obtain r1 t x1 where b: "cpkt_sus_build_segmented_text W (vt_session v) = (r1, t, x1)"
    by (metis prod_cases3)
  then obtain s where x1: "x1 = (vt_session v)\<lparr>se_sys := s\<rparr>"
    using build_text_run by blast
  define sink where "sink = (case vt_config v of None \<Rightarrow> None | Some c \<Rightarrow> sc_segmented_sink c)"
  obtain r2 x2 where em: "cpkt_sus_emit_segmented_event W sink (Some t) (vt_segment_count v) (sg_t0 seg) (sg_t1 seg)
      (sg_is_final seg) x1 = (r2, x2)" by fastforce
  define v3 where "v3 = v\<lparr>vt_session := x2, vt_last_t0 := sg_t0 seg, vt_last_t1 := sg_t1 seg,
      vt_final_emitted := (vt_final_emitted v \<or> sg_is_final seg), vt_segment_count := sz (vt_segment_count v + 1)\<rparr>"
  have ok: "r1 = CPKT_SUS_OK" "r2 = CPKT_SUS_OK" "segment_closing W v3 = (0, v')"
    using assms(1) b em by (auto simp: segment_commit_def sink_def v3_def Let_def split: if_splits)
  have wf1: "session_wf x1"
    using assms(2) by (simp add: x1)
  have "transcript x2 = commit_text (mi_preserve (se_model x1)) (transcript x1) t"
    using emit_segmented_run [OF em wf1] ok(2) by simp
  moreover have "transcript x1 = transcript (vt_session v)"
    by (simp add: x1 transcript_def)
  ultimately show ?thesis
    using closing_ok [OF ok(3)] emit_segments [OF em] build_text_ok [OF b [unfolded ok(1)]]
    by (simp add: v3_def x1)
qed

lemma infer_ok:
  assumes "segment_infer W B seg res xs v = (0, v')" "session_wf (vt_session v)" "prompt_wf (vt_prompt v)" "length xs \<le> int_max"
    "text_sunk v" "vt_result v = CPKT_SUS_OK"
  shows "res = CPKT_SUS_OK \<and> session_wf (vt_session v') \<and>
    (\<exists>params. se_inferences (vt_session v') = se_inferences (vt_session v) @ [(params, xs)]) \<and>
    vt_segment_count v' = sz (vt_segment_count v + 1) \<and>
    transcript (vt_session v') = commit_text (mi_preserve (se_model (vt_session v))) (transcript (vt_session v))
      (inference_text (se_segments (vt_session v'))) \<and> prompt_wf (vt_prompt v') \<and>
    (vt_use_prompt v \<longrightarrow> prompt_list (vt_prompt v') = inference_tokens (se_segments (vt_session v')))"
proof -
  have res: "res = CPKT_SUS_OK"
    using assms(1) by (auto simp: segment_infer_def split: if_splits)
  define v2 where "v2 = v\<lparr>vt_session := clear_flags (vt_session v)\<rparr>"
  obtain params where params: "sink_params B v2 = Some params"
    using assms(1) res by (cases "sink_params B v2") (auto simp: segment_infer_def v2_def)
  obtain code x3 where wf: "whisper_full B params xs (install_log (vt_session v2)) = (code, x3)" by fastforce
  note run = whisper_full_run [OF wf]
  define v3 where "v3 = v2\<lparr>vt_session := x3\<rparr>"
  have cm: "segment_commit W seg v3 = (0, v')"
    using assms(1) res params wf
    by (auto simp: segment_infer_def v2_def [symmetric] v3_def Let_def split: if_splits)
  have x3: "session_wf x3" "se_inferences x3 = se_inferences (vt_session v) @ [(params, xs)]"
      "transcript x3 = transcript (vt_session v)" "mi_preserve (se_model x3) = mi_preserve (se_model (vt_session v))"
      "text_sunk v3"
    using run assms(2,5,6) by (simp_all add: v2_def v3_def install_log_def transcript_def text_sunk_def)
  have v3: "vt_session v3 = x3" "vt_prompt v3 = vt_prompt v" "vt_use_prompt v3 = vt_use_prompt v"
      "vt_segment_count v3 = vt_segment_count v" "vt_result v3 = CPKT_SUS_OK"
    using assms(6) by (simp_all add: v3_def v2_def)
  show ?thesis
    using commit_ok [OF cm] commit_run [OF cm] x3 assms(3) res unfolding v3 by simp
qed

lemma after_ok:
  assumes "segment_after W B v seg log = (0, v')" "session_wf (vt_session v)" "prompt_wf (vt_prompt v)" "text_sunk v"
  shows "session_wf (vt_session v') \<and> prompt_wf (vt_prompt v') \<and>
    vt_result v' = CPKT_SUS_OK \<and> vt_segment_count v' = sz (vt_segment_count v + 1) \<and>
    (\<exists>params xs. pcm_loop (sg_frame_count seg) [] log = (CPKT_SUS_OK, xs) \<and>
      se_inferences (vt_session v') = se_inferences (vt_session v) @ [(params, xs)]) \<and>
    transcript (vt_session v') = commit_text (mi_preserve (se_model (vt_session v))) (transcript (vt_session v))
      (inference_text (se_segments (vt_session v'))) \<and>
    (vt_use_prompt v \<longrightarrow> prompt_list (vt_prompt v') = inference_tokens (se_segments (vt_session v')))"
proof -
  obtain r1 v1 where b: "segment_begin W seg v = (r1, v1)" by fastforce
  then obtain s1 where v1: "v1 = v\<lparr>vt_session := (vt_session v)\<lparr>se_sys := s1\<rparr>\<rparr>"
      "r1 = CPKT_SUS_OK \<longrightarrow> sg_frame_count seg \<le> int_max"
    using segment_begin_run by blast
  obtain res xs where pl: "pcm_loop (sg_frame_count seg) [] log = (res, xs)" by fastforce
  have ok: "vt_result v = CPKT_SUS_OK" "r1 = CPKT_SUS_OK" "segment_infer W B seg res xs v1 = (0, v')"
    using assms(1) b pl by (auto simp: segment_after_def split: if_splits)
  have res: "res = CPKT_SUS_OK"
    using ok(3) by (auto simp: segment_infer_def split: if_splits)
  have len: "length xs \<le> int_max"
    using pcm_loop_prefix [of "sg_frame_count seg" "[]" log xs] pl res v1(2) ok(2) by simp
  have "vt_result v' = CPKT_SUS_OK"
    using infer_zero [OF ok(3)] ok(1) by (simp add: v1(1))
  then show ?thesis
    using infer_ok [OF ok(3)] assms(2-4) len res ok(1) pl by (simp add: v1(1) text_sunk_def transcript_def)
qed

definition session_prompt :: "sus_session \<Rightarrow> prompt_buffer" where
  "session_prompt x = \<lparr>pb_tokens = ti_prompt_tokens (se_impl x), pb_count = ti_prompt_count (se_impl x),
     pb_capacity = ti_prompt_capacity (se_impl x)\<rparr>"

text \<open>The transcript a segment continues: the first segment of a run starts a new one.\<close>

definition base_transcript :: "sus_session \<Rightarrow> bool \<times> string" where
  "base_transcript x =
     (if ti_segmented_segment_count (se_impl x) = 0 then (fst (transcript x), []) else transcript x)"

lemma pcm_loop_unread:
  assumes "read_inv s" "run_sink p s = (rc, log, s')" "pcm_loop n [] log = (CPKT_SUS_OK, xs)"
  shows "xs = take n (unread s)"
proof -
  have "prefix xs (log_frames log)" "length xs = n"
    using pcm_loop_prefix [OF assms(3)] by simp_all
  moreover have "prefix (log_frames log) (unread s)"
    using run_sink_log [OF assms(1,2)] by (rule conjunct1)
  ultimately obtain zs where "unread s = xs @ zs"
    by (metis prefix_order.trans prefixE)
  with \<open>length xs = n\<close> show ?thesis
    by simp
qed

text \<open>The state a single segment starts from: a new transcript for the first one, the prompt moved out.\<close>

definition fresh_impl :: "cpkt_sus_transcriber_impl \<Rightarrow> cpkt_sus_transcriber_impl" where
  "fresh_impl impl =
     (let impl0 = impl\<lparr>ti_prompt_tokens := None, ti_prompt_count := 0, ti_prompt_capacity := 0\<rparr> in
      if ti_segmented_segment_count impl = 0 then cpkt_sus_transcriber_reset_revised_text impl0 else impl0)"

lemma vox_segment_body:
  assumes "v = transcribe_state config (session_prompt x) (ti_segmented_segment_count (se_impl x))
      (x\<lparr>se_impl := fresh_impl (se_impl x)\<rparr>)"
    "run_sink (cpkt_sus_vox_segment_sink W B v seg) s = (rc, log, s1)" "segment_after W B v seg log = (rc', v')"
  shows "cpkt_sus_transcriber_transcribe_audio_vox_segment_impl W B config seg s x =
      (if rc = 0 then vt_result v' else if vt_result v' \<noteq> CPKT_SUS_OK then vt_result v' else CPKT_SUS_ERR_CALLBACK,
       (vt_session v')\<lparr>se_impl := (se_impl (vt_session v'))\<lparr>ti_prompt_tokens := pb_tokens (vt_prompt v'),
         ti_prompt_count := pb_count (vt_prompt v'), ti_prompt_capacity := pb_capacity (vt_prompt v'),
         ti_segmented_segment_count := vt_segment_count v'\<rparr>\<rparr>, s1)"
  using assms(2,3)
  unfolding cpkt_sus_transcriber_transcribe_audio_vox_segment_impl_def assms(1) session_prompt_def fresh_impl_def Let_def
  by (simp only: prod.case snd_conv)

text \<open>
  C7: A segment transcribed on its own with result OK was given to inference exactly once and whole: the
  samples are the frames of the segment.  The transcript is continued by the text of the inference,
  under the rules of white space and punctuation, the segment is counted, and unless the caller
  turned the context off the tokens of the inference are the prompt of the next one.
\<close>

theorem segment_transcribed:
  assumes "cpkt_sus_transcriber_transcribe_audio_vox_segment_impl W B config seg s x = (CPKT_SUS_OK, x', s')"
    "session_wf x" "prompt_wf (session_prompt x)" "read_inv s"
  shows "session_wf x' \<and> prompt_wf (session_prompt x') \<and>
    (\<exists>params. se_inferences x' = se_inferences x @ [(params, take (sg_frame_count seg) (unread s))]) \<and>
    sg_frame_count seg \<le> length (unread s) \<and>
    transcript x' = commit_text (mi_preserve (se_model x)) (base_transcript x) (inference_text (se_segments x')) \<and>
    ti_segmented_segment_count (se_impl x') = sz (ti_segmented_segment_count (se_impl x) + 1) \<and>
    (use_prompt_of config \<longrightarrow> prompt_list (session_prompt x') = inference_tokens (se_segments x'))"
proof -
  define v where "v = transcribe_state config (session_prompt x) (ti_segmented_segment_count (se_impl x))
      (x\<lparr>se_impl := fresh_impl (se_impl x)\<rparr>)"
  obtain rc log s1 where rs: "run_sink (cpkt_sus_vox_segment_sink W B v seg) s = (rc, log, s1)"
    by (metis prod_cases3)
  obtain rc' v' where af: "segment_after W B v seg log = (rc', v')" by fastforce
  have rc: "rc' = rc"
    using segment_sink_runs [OF rs] af by simp
  have body: "(CPKT_SUS_OK, x', s') =
      (if rc = 0 then vt_result v' else if vt_result v' \<noteq> CPKT_SUS_OK then vt_result v' else CPKT_SUS_ERR_CALLBACK,
       (vt_session v')\<lparr>se_impl := (se_impl (vt_session v'))\<lparr>ti_prompt_tokens := pb_tokens (vt_prompt v'),
         ti_prompt_count := pb_count (vt_prompt v'), ti_prompt_capacity := pb_capacity (vt_prompt v'),
         ti_segmented_segment_count := vt_segment_count v'\<rparr>\<rparr>, s1)"
    using assms(1) vox_segment_body [OF v_def rs af] by simp
  then have zero: "rc = 0"
    by (auto split: if_splits)
  have v: "session_wf (vt_session v)" "vt_prompt v = session_prompt x" "text_sunk v"
      "vt_segment_count v = ti_segmented_segment_count (se_impl x)" "vt_use_prompt v = use_prompt_of config"
      "se_inferences (vt_session v) = se_inferences x" "se_model (vt_session v) = se_model x"
    using assms(2) reset_run [of "se_impl x"]
    by (auto simp: v_def transcribe_state_def text_sunk_def session_wf_def fresh_impl_def Let_def
        cpkt_sus_transcriber_reset_revised_text_def)
  have tr: "transcript (vt_session v) = base_transcript x"
    using reset_run(2) assms(2)
    by (auto simp: v_def transcribe_state_def base_transcript_def transcript_def fresh_impl_def Let_def session_wf_def
        revised_string_def split: option.splits)
  have run: "session_wf (vt_session v') \<and> prompt_wf (vt_prompt v') \<and>
    vt_result v' = CPKT_SUS_OK \<and> vt_segment_count v' = sz (vt_segment_count v + 1) \<and>
    (\<exists>params xs. pcm_loop (sg_frame_count seg) [] log = (CPKT_SUS_OK, xs) \<and>
      se_inferences (vt_session v') = se_inferences (vt_session v) @ [(params, xs)]) \<and>
    transcript (vt_session v') = commit_text (mi_preserve (se_model (vt_session v))) (transcript (vt_session v))
      (inference_text (se_segments (vt_session v'))) \<and>
    (vt_use_prompt v \<longrightarrow> prompt_list (vt_prompt v') = inference_tokens (se_segments (vt_session v')))"
    using after_ok [OF af [unfolded rc zero]] v(1-3) assms(3) by simp
  obtain params xs where xs: "pcm_loop (sg_frame_count seg) [] log = (CPKT_SUS_OK, xs)"
      "se_inferences (vt_session v') = se_inferences (vt_session v) @ [(params, xs)]"
    using run by blast
  have frames: "xs = take (sg_frame_count seg) (unread s)" "length xs = sg_frame_count seg"
    using pcm_loop_unread [OF assms(4) rs xs(1)] pcm_loop_prefix [OF xs(1)] by simp_all
  have x': "session_prompt x' = vt_prompt v'" "session_wf x' = session_wf (vt_session v')"
      "se_inferences x' = se_inferences (vt_session v')" "transcript x' = transcript (vt_session v')"
      "se_segments x' = se_segments (vt_session v')" "ti_segmented_segment_count (se_impl x') = vt_segment_count v'"
    using body
    by (auto simp: session_prompt_def session_wf_def transcript_def revised_string_def cong: option.case_cong)
  show ?thesis
    using run xs(2) frames unfolding x' v tr by auto
qed

text \<open>
  C6: Transcribing a decoder ends when the decoder does, whatever the caller's functions, the backend
  and the system do, and inference only ever hears the stream: the sample lists given to it are
  consecutive slices of what was decoded, none overlapping another, each 100 ms at least, none more
  than an \<open>int\<close> counts and none above the budget the caller set or, where that is longer, one frame
  more than the prebuffer.
\<close>

theorem segmented_stream:
  assumes "malloc_ok malloc" "session_wf x" "decoder_ends dec (cfg_num config sc_read_frames 4096) N"
    "length (decoded dec (cfg_num config sc_read_frames 4096) 0 (Suc N)) \<le> size_max"
  shows "\<exists>r x' new e.
    cpkt_sus_transcriber_transcribe_audio_decoder_segmented_impl W B malloc io dec config x = Some (r, x') \<and>
    session_wf x' \<and> se_inferences x' = se_inferences x @ new \<and>
    cuts (decoded dec (cfg_num config sc_read_frames 4096) 0 (Suc N)) (map snd new) e \<and>
    (\<forall>(p, xs)\<in>set new. inference_bounds config xs)"
  using segmented_run [OF assms(1,2) refl assms(3,4), of W B io] unfolding stream_inferred_def by blast

text \<open>
  C8: The string that the text variant returns with OK is the transcript of the run, to the last
  event; with any other result nothing is returned.
\<close>

theorem segmented_text:
  assumes "malloc_ok malloc" "session_wf x" "decoder_ends dec (cfg_num (Some config) sc_read_frames 4096) N"
    "length (decoded dec (cfg_num (Some config) sc_read_frames 4096) 0 (Suc N)) \<le> size_max"
  shows "\<exists>r t x'.
    cpkt_sus_transcriber_transcribe_audio_decoder_segmented_text_impl W B malloc io dec True config x = Some (r, t, x') \<and>
    session_wf x' \<and> t = (if r = CPKT_SUS_OK then Some (revised_string (se_impl x')) else None)"
proof -
  define c where "c = config\<lparr>sc_segmented_sink := Some TextSink\<rparr>"
  define y where "y = x\<lparr>se_text := \<lparr>st_forward_sink =
      (case sc_segmented_sink config of Some (UserSink f) \<Rightarrow> Some f | _ \<Rightarrow> None), st_text = None, st_length = 0,
      st_capacity = 0, st_result = CPKT_SUS_OK\<rparr>\<rparr>"
  have n: "cfg_num (Some config) sc_read_frames 4096 = cfg_num (Some c) sc_read_frames 4096"
    by (simp add: cfg_num_def c_def)
  have "session_wf y"
    using assms(2) by (simp add: session_wf_def y_def buf_wf_def)
  from segmented_run [OF assms(1) this n assms(3,4), of W B io] obtain r x' where
    run: "cpkt_sus_transcriber_transcribe_audio_decoder_segmented_impl W B malloc io dec (Some c) y = Some (r, x')"
      "session_wf x'" "r = CPKT_SUS_OK \<longrightarrow> collected (se_text x') = revised_string (se_impl x')"
    by (auto simp: stream_inferred_def c_def)
  show ?thesis
    using run
    by (auto simp: cpkt_sus_transcriber_transcribe_audio_decoder_segmented_text_impl_def c_def [symmetric]
        y_def [symmetric] collected_def Let_def split: option.splits prod.splits)
qed

text \<open>
  C25: Emitting a segmented event commits the recognised text to the transcript, joined to what there was
  with a space where neither side brings one and without the leading space of a first text; the sink is
  told the transcript so far with its length, and its refusal is ERR_CALLBACK.  When memory runs out the
  text of the transcript stays as it was, nobody is told, and of the whole session only the model's mark
  that the leading space of a first text was dropped may change: it is set before the text is appended.
\<close>

theorem segmented_commit:
  assumes "cpkt_sus_emit_segmented_event W sink text k t0 t1 fin x = (r, x')" "session_wf x"
  shows "session_wf x' \<and>
    (if r = CPKT_SUS_ERR_ALLOC
     then tick_only (se_sys x) (se_sys x') \<and>
       x' = x\<lparr>se_model := (se_model x)\<lparr>mi_initial_space_seen :=
           fst (commit_text (mi_preserve (se_model x)) (transcript x) (case text of None \<Rightarrow> [] | Some t \<Rightarrow> t))\<rparr>,
         se_sys := se_sys x'\<rparr>
     else transcript x' = commit_text (mi_preserve (se_model x)) (transcript x) (case text of None \<Rightarrow> [] | Some t \<Rightarrow> t) \<and>
       delivered sink k t0 t1 fin (se_trace x) r x')"
  using emit_segmented_exact [OF assms] unfolding if_bool_eq_conj by blast

text \<open>
  The text of a buffer's inference, when it is returned, is the texts of the backend's segments one
  after the other, and it fits a \<open>size_t\<close> with its terminator.
\<close>

lemma transcribed_text:
  assumes "cpkt_sus_transcriber_transcribe_f32_mono_16k_text_impl W B True samples n x = (r, t, x')"
  shows "if r = CPKT_SUS_OK
    then t = Some (inference_text (se_segments x')) \<and> length (inference_text (se_segments x')) < size_max
    else t = None"
  using assms measure_texts_all [of _ 0]
  by (auto simp: cpkt_sus_transcriber_transcribe_f32_mono_16k_text_impl_def Let_def copy_texts_all c_limits
      split: option.splits if_splits prod.splits)

text \<open>
  C26: An inference over a buffer calls the backend exactly once, with the parameters of the
  configuration and the given samples.  Its result is ERR_CALLBACK when one of the caller's segment
  or progress functions refused, otherwise ABORTED when the abort function asked for it, otherwise
  ERR_UPSTREAM for a backend error; after a refusal the caller's functions are not called again.
\<close>

theorem inference_outcome:
  assumes "cpkt_sus_transcriber_run B (Some samples) (length samples) x = (r, x')" "length samples \<le> int_max"
  shows "\<exists>new code. se_trace x' = se_trace x @ new \<and>
    se_inferences x' = se_inferences x @ [(run_params B (ti_config (se_impl x)), samples)] \<and>
    code = fst (whisper_full B (run_params B (ti_config (se_impl x))) samples (install_log (clear_flags x))) \<and>
    r = (if \<exists>ob\<in>set new. obs_failed ob then CPKT_SUS_ERR_CALLBACK
         else if \<exists>ob\<in>set new. obs_aborts ob then CPKT_SUS_ABORTED
         else if code \<noteq> 0 then CPKT_SUS_ERR_UPSTREAM else CPKT_SUS_OK) \<and>
    (\<forall>ob\<in>set (butlast new). \<not> obs_failed ob)"
proof -
  define params where "params = run_params B (ti_config (se_impl x))"
  define y where "y = install_log (clear_flags x)"
  define y1 where "y1 = y\<lparr>se_inferences := se_inferences y @ [(params, samples)]\<rparr>"
  obtain code z where z: "run_whisper params (wh_full B (length (se_inferences y)) params samples) y1 = (code, z)"
    by (metis surj_pair)
  obtain new where new: "told y1 new z"
    using run_whisper_told [of y1 params "wh_full B (length (se_inferences y)) params samples"] z by auto
  have full: "whisper_full B params samples y = (code, z)"
    using z by (simp add: whisper_full_def y1_def)
  have out: "x' = z" "r = inference_result code (se_impl z)"
    using assms full by (auto simp: cpkt_sus_transcriber_run_def Let_def params_def y_def clear_flags_def)
  have y1: "se_trace y1 = se_trace x" "\<not> ti_callback_error (se_impl y1)" "\<not> ti_aborted (se_impl y1)"
      "se_inferences y1 = se_inferences x @ [(params, samples)]"
    by (simp_all add: y1_def y_def install_log_def clear_flags_def)
  show ?thesis
    using new y1 out full unfolding told_def params_def [symmetric] y_def [symmetric] inference_result_def
    by (intro exI [of _ new] exI [of _ code]) auto
qed

section \<open>Concrete sessions\<close>

definition demo_impl :: cpkt_sus_transcriber_impl where
  "demo_impl = \<lparr>ti_config = transcriber_config_zero, ti_prompt_tokens = None, ti_prompt_count = 0,
     ti_prompt_capacity = 0, ti_segmented_segment_count = 0, ti_revised_text = None, ti_revised_length = 0,
     ti_revised_capacity = 0, ti_aborted = False, ti_callback_error = False\<rparr>"

definition demo_session :: sus_session where
  "demo_session = \<lparr>se_impl = demo_impl,
     se_model = \<lparr>mi_context = [1], mi_use_gpu = False, mi_cpu_only = True, mi_preserve = False,
       mi_initial_space_seen = False\<rparr>,
     se_text = \<lparr>st_forward_sink = None, st_text = None, st_length = 0, st_capacity = 0, st_result = CPKT_SUS_OK\<rparr>,
     se_trace = [], se_sys = demo_state, se_segments = [], se_inferences = []\<rparr>"

definition demo_params :: whisper_params where
  "demo_params = \<lparr>wp_n_threads = 4, wp_translate = False, wp_no_timestamps = False, wp_print_progress = True,
     wp_print_realtime = True, wp_print_timestamps = True, wp_initial_prompt = None, wp_prompt_tokens = [],
     wp_max_tokens = 0, wp_audio_ctx = 0, wp_language = None, wp_new_segment_callback = False,
     wp_progress_callback = False, wp_abort_callback = False\<rparr>"

text \<open>A backend that hears the same word in everything.\<close>

definition demo_whisper :: whisper where
  "demo_whisper = \<lparr>wh_defaults = demo_params,
     wh_full = (\<lambda>i params samples. WProgress 50 (WDone 0
       [\<lparr>ws_text = Some '' hi'', ws_t0 = 0, ws_t1 = 10, ws_n_tokens = 2, ws_token = int\<rparr>]))\<rparr>"

definition demo_decoder :: "nat \<Rightarrow> nat \<Rightarrow> cpkt_audio_result \<times> f32 list" where
  "demo_decoder i n = (if i = 0 then (CPKT_AUDIO_OK, replicate 3 0x3F800000) else (CPKT_AUDIO_AT_END, []))"

definition demo_segmented :: cpkt_sus_segmented_config where
  "demo_segmented = \<lparr>sc_continuous = False, sc_read_frames = 0, sc_length_ms = 0, sc_keep_ms = 0, sc_keep_context = 0,
     sc_vox_threshold = 0, sc_prebuffer_ms = 0, sc_memory_spool_bytes = 0, sc_max_spool_bytes = 0,
     sc_audio_ctx = 0, sc_max_tokens = 0, sc_segmented_sink = None\<rparr>"

lemma demo_session_wf: "session_wf demo_session"
  by (simp add: session_wf_def demo_session_def demo_impl_def buf_wf_def)

lemma demo_malloc: "malloc_ok (\<lambda>_ n. Some (replicate n 0))"
  by (simp add: malloc_ok_def)

lemma demo_decoder_ends: "decoder_ends demo_decoder n 1" "length (decoded demo_decoder n 0 (Suc 1)) \<le> size_max"
  by (simp_all add: decoder_ends_def demo_decoder_def decoded_def c_limits)

theorem segmented_stream_witness:
  "\<exists>r x' new e.
    cpkt_sus_transcriber_transcribe_audio_decoder_segmented_impl demo_world demo_whisper
      (\<lambda>_ n. Some (replicate n 0)) (\<lambda>_. None) demo_decoder None demo_session = Some (r, x') \<and>
    session_wf x' \<and> se_inferences x' = new \<and>
    cuts (decoded demo_decoder 4096 0 (Suc 1)) (map snd new) e"
  using segmented_stream [where config = None and W = demo_world and B = demo_whisper and io = "\<lambda>_. None",
      OF demo_malloc demo_session_wf demo_decoder_ends]
  by (auto simp: demo_session_def cfg_num_def)

theorem segmented_text_witness:
  "\<exists>r t x'.
    cpkt_sus_transcriber_transcribe_audio_decoder_segmented_text_impl demo_world demo_whisper
      (\<lambda>_ n. Some (replicate n 0)) (\<lambda>_. None) demo_decoder True demo_segmented demo_session = Some (r, t, x') \<and>
    session_wf x' \<and> t = (if r = CPKT_SUS_OK then Some (revised_string (se_impl x')) else None)"
  using segmented_text [where config = demo_segmented and W = demo_world and B = demo_whisper and io = "\<lambda>_. None",
      OF demo_malloc demo_session_wf demo_decoder_ends] .

theorem segmented_commit_witness:
  "\<exists>x' y'. cpkt_sus_emit_segmented_event demo_world None (Some '' hi'') 0 0 10 True demo_session = (CPKT_SUS_OK, x') \<and>
    transcript x' = commit_text False (False, []) '' hi'' \<and>
    cpkt_sus_emit_segmented_event (demo_world\<lparr>sw_fails := \<lambda>_. True\<rparr>) None (Some '' hi'') 0 0 10 True demo_session =
      (CPKT_SUS_ERR_ALLOC, y') \<and> se_impl y' = se_impl demo_session"
proof -
  note defs = cpkt_sus_emit_segmented_event_def cpkt_sus_transcriber_should_strip_initial_space_def
    demo_session_def demo_impl_def cpkt_sus_transcriber_append_revised_text_def cpkt_sus_text_reserve_def
    grow_capacity_def deliver_segmented_def sz_sub_id c_limits Let_def
  obtain r x' where em: "cpkt_sus_emit_segmented_event demo_world None (Some '' hi'') 0 0 10 True demo_session = (r, x')"
    by fastforce
  obtain q y' where fail: "cpkt_sus_emit_segmented_event (demo_world\<lparr>sw_fails := \<lambda>_. True\<rparr>) None (Some '' hi'') 0 0 10 True
      demo_session = (q, y')"
    by fastforce
  have ok: "r = CPKT_SUS_OK"
    using em by (simp add: defs demo_try split: prod.splits)
  have "q = CPKT_SUS_ERR_ALLOC"
    using fail by (simp add: defs sus_try_def split: prod.splits)
  moreover from this have "y' = demo_session\<lparr>se_model := (se_model demo_session)\<lparr>mi_initial_space_seen :=
      fst (commit_text (mi_preserve (se_model demo_session)) (transcript demo_session) '' hi'')\<rparr>, se_sys := se_sys y'\<rparr>"
    using segmented_commit [OF fail demo_session_wf] by simp
  from arg_cong [OF this, of se_impl] have "se_impl y' = se_impl demo_session" by simp
  moreover have "mi_preserve (se_model demo_session) = False" "transcript demo_session = (False, [])"
    by (simp_all add: demo_session_def demo_impl_def transcript_def revised_string_def)
  ultimately show ?thesis
    using segmented_commit [OF em demo_session_wf] em ok fail by simp
qed

theorem inference_outcome_witness:
  "\<exists>x'. cpkt_sus_transcriber_run demo_whisper (Some [0]) 1 demo_session = (CPKT_SUS_OK, x') \<and>
    se_trace x' = []"
proof -
  obtain r x' where run: "cpkt_sus_transcriber_run demo_whisper (Some [0]) (length [0 :: f32]) demo_session = (r, x')"
    by fastforce
  then have "r = CPKT_SUS_OK \<and> se_trace x' = []"
    by (auto simp: cpkt_sus_transcriber_run_def
        whisper_full_def demo_whisper_def demo_session_def demo_impl_def transcriber_config_zero_def run_params_def
        demo_params_def clear_flags_def install_log_def inference_result_def c_limits Let_def split: prod.splits)
  with inference_outcome [OF run] run show ?thesis
    by (auto simp: c_limits)
qed


definition demo_store :: vox_sys where
  "demo_store = vox_blank\<lparr>vx_frames := [1, 2], vx_frame_capacity := 2, vx_memory_frame_count := 2,
     vx_total_frame_count := 2\<rparr>"

definition demo_segment :: cpkt_audio_vox_segment where
  "demo_segment = \<lparr>sg_frame_count = 2, sg_t0 = 0, sg_t1 = 1, sg_segment_index = 0, sg_hard_cut = False,
     sg_is_final = True\<rparr>"

lemmas demo_defs = demo_session_def demo_impl_def transcriber_config_zero_def demo_whisper_def demo_params_def

lemma demo_read: "run_sink (pcm_prog 2 [] (\<lambda>r xs. SinkReturn (f r xs))) demo_store =
    (f CPKT_SUS_OK [1, 2], [(CPKT_AUDIO_AT_END, [1, 2])], demo_store\<lparr>vx_read_cursor := 2\<rparr>)"
  by (subst pcm_prog.simps)
    (simp add: cpkt_audio_vox_segment_read_impl_def pcm_round_def demo_store_def vox_blank_def Let_def)

lemma demo_after:
  assumes "v = transcribe_state None (session_prompt demo_session) (ti_segmented_segment_count (se_impl demo_session))
      (demo_session\<lparr>se_impl := fresh_impl (se_impl demo_session)\<rparr>)"
  shows "\<exists>v'. segment_after demo_world demo_whisper v demo_segment [(CPKT_AUDIO_AT_END, [1, 2])] = (0, v')"
  unfolding assms
  by (simp add: segment_after_def transcribe_state_def segment_begin_def demo_segment_def demo_try pcm_round_def
      segment_infer_def sink_params_def segment_params_def limit_params_def whisper_full_def demo_defs
      clear_flags_def install_log_def inference_result_def segment_commit_def cpkt_sus_build_segmented_text_def
      cpkt_sus_emit_segmented_event_def cpkt_sus_transcriber_should_strip_initial_space_def
      cpkt_sus_transcriber_reset_revised_text_def session_prompt_def fresh_impl_def
      cpkt_sus_transcriber_append_revised_text_def cpkt_sus_text_reserve_def grow_capacity_def
      deliver_segmented_def segment_closing_def use_prompt_of_def cpkt_sus_capture_prompt_tokens_def
      prompt_reserve_def sz_sub_id c_limits Let_def)

lemma demo_segment_ok:
  "\<exists>x' s'. cpkt_sus_transcriber_transcribe_audio_vox_segment_impl demo_world demo_whisper None demo_segment demo_store
     demo_session = (CPKT_SUS_OK, x', s')"
proof -
  define v where "v = transcribe_state None (session_prompt demo_session) (ti_segmented_segment_count (se_impl demo_session))
      (demo_session\<lparr>se_impl := fresh_impl (se_impl demo_session)\<rparr>)"
  obtain v' where af: "segment_after demo_world demo_whisper v demo_segment [(CPKT_AUDIO_AT_END, [1, 2])] = (0, v')"
    using demo_after [OF v_def] by blast
  obtain r v1 where b: "segment_begin demo_world demo_segment v = (r, v1)" by fastforce
  have v: "vt_result v = CPKT_SUS_OK"
    by (simp add: v_def transcribe_state_def)
  have r: "r = CPKT_SUS_OK"
    using af b v by (auto simp: segment_after_def split: if_splits)
  have "sg_frame_count demo_segment = 2"
    by (simp add: demo_segment_def)
  then have "cpkt_sus_vox_segment_sink demo_world demo_whisper v demo_segment = pcm_prog 2 []
      (\<lambda>res xs. SinkReturn (fst (segment_infer demo_world demo_whisper demo_segment res xs v1)))"
    by (simp add: cpkt_sus_vox_segment_sink_def v b r)
  then obtain rc where rs: "run_sink (cpkt_sus_vox_segment_sink demo_world demo_whisper v demo_segment) demo_store =
      (rc, [(CPKT_AUDIO_AT_END, [1, 2])], demo_store\<lparr>vx_read_cursor := 2\<rparr>)"
    by (simp add: demo_read)
  then have "rc = 0"
    using segment_sink_runs [OF rs] af by simp
  moreover have "vt_result v' = CPKT_SUS_OK"
    using segment_after_zero [of demo_world demo_whisper v demo_segment "[(CPKT_AUDIO_AT_END, [1, 2])]"] af by simp
  ultimately show ?thesis
    using vox_segment_body [OF v_def rs af] by simp
qed

theorem segment_transcribed_witness:
  "\<exists>x' s' params.
    cpkt_sus_transcriber_transcribe_audio_vox_segment_impl demo_world demo_whisper None demo_segment demo_store demo_session =
      (CPKT_SUS_OK, x', s') \<and>
    se_inferences x' = [(params, [1, 2])] \<and> prompt_list (session_prompt x') = inference_tokens (se_segments x')"
proof -
  obtain x' s' where run: "cpkt_sus_transcriber_transcribe_audio_vox_segment_impl demo_world demo_whisper None demo_segment
      demo_store demo_session = (CPKT_SUS_OK, x', s')"
    using demo_segment_ok by blast
  have "prompt_wf (session_prompt demo_session)" "read_inv demo_store" "se_inferences demo_session = []"
      "take (sg_frame_count demo_segment) (unread demo_store) = [1, 2]"
    by (simp_all add: demo_session_def demo_impl_def demo_store_def demo_segment_def session_prompt_def prompt_wf_def
        read_inv_def unread_def stored_def vox_blank_def c_limits)
  then show ?thesis
    using segment_transcribed [OF run demo_session_wf] run by (auto simp: use_prompt_of_def)
qed

end
