(* ===== verification/Opcua_Text.thy ===== *)
theory Opcua_Text
  imports Cpkt_Prelude
begin

text \<open>
  Text forms of the OPC UA facade, from \<^verbatim>\<open>src/src/opcua_identifiers.c\<close>: copying into a caller's buffer,
  decimal numbers, GUIDs and base 64.  The lemmas show that printed numbers, GUIDs and encoded octets are
  read back, that the encoder fills exactly the size announced for it, and that the decoder needs exactly
  the octets that were encoded.
\<close>

unbundle bit_operations_syntax

section \<open>Results and buffers\<close>

datatype cpkt_opcua_result =
    CPKT_OPCUA_OK | CPKT_OPCUA_ERR_ARG | CPKT_OPCUA_ERR_ALLOC | CPKT_OPCUA_ERR_UPSTREAM
  | CPKT_OPCUA_ERR_TYPE | CPKT_OPCUA_ERR_RANGE | CPKT_OPCUA_ERR_CALLBACK

text \<open>
  An octet is a \<open>char\<close>, read as a number by \<open>of_char\<close>.  A C string is the list of its characters up to
  the terminator.  A caller's buffer is its contents, as many octets as \<open>buffer_size\<close> says, or \<open>None\<close>
  for NULL.
\<close>

abbreviation NUL :: char where "NUL \<equiv> CHR 0x00"

abbreviation ulong_max :: nat where "ulong_max \<equiv> size_max"
abbreviation uint_max :: nat where "uint_max \<equiv> 4294967295"
abbreviation ushrt_max :: nat where "ushrt_max \<equiv> 65535"

definition c_str :: "string \<Rightarrow> string" where
  "c_str b = takeWhile (\<lambda>c. c \<noteq> NUL) b"

definition memcpy_at :: "nat \<Rightarrow> string \<Rightarrow> string \<Rightarrow> string" where
  "memcpy_at off xs b = take off b @ xs @ drop (off + length xs) b"

text \<open>What the functions do with a buffer that is too small: they make it the empty string.\<close>

definition clear_small :: "string option \<Rightarrow> string option" where
  "clear_small buffer = map_option (\<lambda>b. if b \<noteq> [] then b[0 := NUL] else b) buffer"

definition too_small :: "string option \<Rightarrow> nat \<Rightarrow> bool" where
  "too_small buffer required = (case buffer of None \<Rightarrow> True | Some b \<Rightarrow> length b < required)"

definition cpkt_copy_c_string_to_buffer ::
    "string option \<Rightarrow> string option \<Rightarrow> cpkt_opcua_result \<times> nat option \<times> string option" where
  "cpkt_copy_c_string_to_buffer value buffer =
     (case value of
        None \<Rightarrow> (CPKT_OPCUA_ERR_ARG, None, buffer)
      | Some v \<Rightarrow>
          let required = length v + 1 in
          if too_small buffer required then (CPKT_OPCUA_ERR_RANGE, Some required, clear_small buffer)
          else (CPKT_OPCUA_OK, Some required, map_option (memcpy_at 0 (v @ [NUL])) buffer))"

definition cpkt_copy_counted_string_to_buffer ::
    "string option \<Rightarrow> nat \<Rightarrow> string option \<Rightarrow> cpkt_opcua_result \<times> nat option \<times> string option" where
  "cpkt_copy_counted_string_to_buffer value value_length buffer =
     (if value = None \<and> value_length \<noteq> 0 then (CPKT_OPCUA_ERR_ARG, None, buffer)
      else
        let required = value_length + 1 in
        if too_small buffer required then (CPKT_OPCUA_ERR_RANGE, Some required, clear_small buffer)
        else
          let b = the buffer;
              b = (if value_length \<noteq> 0 then memcpy_at 0 (take value_length (the value)) b else b)
          in (CPKT_OPCUA_OK, Some required, Some (b[value_length := NUL])))"

section \<open>Numbers\<close>

definition is_digit :: "char \<Rightarrow> bool" where
  "is_digit c \<longleftrightarrow> 48 \<le> (of_char c :: nat) \<and> (of_char c :: nat) \<le> 57"

text \<open>What \<open>printf\<close> makes of \<^verbatim>\<open>%lu\<close> and \<^verbatim>\<open>%02x\<close>, and \<open>strtoul\<close> of digits.\<close>

fun dec :: "nat \<Rightarrow> string" where
  "dec n = (if n < 10 then [char_of (48 + n)] else dec (n div 10) @ [char_of (48 + n mod 10)])"

declare dec.simps [simp del]

definition digits_value :: "string \<Rightarrow> nat" where
  "digits_value ds = foldl (\<lambda>n d. n * 10 + (of_char d - 48)) 0 ds"

definition hex_digit :: "nat \<Rightarrow> char" where
  "hex_digit n = char_of (if n < 10 then 48 + n else 87 + n)"

definition hex2 :: "char \<Rightarrow> string" where
  "hex2 c = [hex_digit (of_char c div 16), hex_digit (of_char c mod 16)]"

text \<open>The result is the rest of the text and the value.\<close>

definition cpkt_parse_unsigned_long :: "string \<Rightarrow> (string \<times> nat) option" where
  "cpkt_parse_unsigned_long text =
     (if text = [] \<or> \<not> is_digit (hd text) then None
      else
        let value = digits_value (takeWhile is_digit text) in
        if value > ulong_max then None else Some (dropWhile is_digit text, value))"

definition cpkt_hex_digit_value :: "char \<Rightarrow> int" where
  "cpkt_hex_digit_value c =
     (let value = int (of_char c) in
      if value \<ge> 48 \<and> value \<le> 57 then value - 48
      else if value \<ge> 97 \<and> value \<le> 102 then value - 97 + 10
      else if value \<ge> 65 \<and> value \<le> 70 then value - 65 + 10
      else -1)"

definition cpkt_parse_hex_byte :: "string \<Rightarrow> char option" where
  "cpkt_parse_hex_byte text =
     (let high = cpkt_hex_digit_value (text ! 0); low = cpkt_hex_digit_value (text ! 1) in
      if high < 0 \<or> low < 0 then None else Some (char_of (nat (push_bit 4 high OR low))))"

section \<open>GUIDs\<close>

text \<open>Each byte of a GUID with the place of its digits in the text.\<close>

definition guid_places :: "(nat \<times> nat) list" where
  "guid_places = [(0, 0), (1, 2), (2, 4), (3, 6), (4, 9), (5, 11), (6, 14), (7, 16),
     (8, 19), (9, 21), (10, 24), (11, 26), (12, 28), (13, 30), (14, 32), (15, 34)]"

fun guid_fill :: "string \<Rightarrow> (nat \<times> nat) list \<Rightarrow> string \<Rightarrow> bool \<times> string" where
  "guid_fill text [] guid = (True, guid)"
| "guid_fill text ((i, at) # places) guid =
     (case cpkt_parse_hex_byte (drop at text) of
        None \<Rightarrow> (False, guid)
      | Some b \<Rightarrow> guid_fill text places (guid[i := b]))"

definition cpkt_parse_guid_text :: "string option \<Rightarrow> string \<Rightarrow> bool \<times> string" where
  "cpkt_parse_guid_text text guid_out =
     (case text of
        None \<Rightarrow> (False, guid_out)
      | Some t \<Rightarrow>
          if length t \<noteq> 36 \<or> t ! 8 \<noteq> CHR ''-'' \<or> t ! 13 \<noteq> CHR ''-'' \<or> t ! 18 \<noteq> CHR ''-'' \<or> t ! 23 \<noteq> CHR ''-''
          then (False, guid_out)
          else guid_fill t guid_places guid_out)"

text \<open>The format of \<^verbatim>\<open>%02x\<close> groups that the print functions use.\<close>

definition guid_text :: "string \<Rightarrow> string" where
  "guid_text g =
     hex2 (g ! 0) @ hex2 (g ! 1) @ hex2 (g ! 2) @ hex2 (g ! 3) @ ''-'' @
     hex2 (g ! 4) @ hex2 (g ! 5) @ ''-'' @ hex2 (g ! 6) @ hex2 (g ! 7) @ ''-'' @
     hex2 (g ! 8) @ hex2 (g ! 9) @ ''-'' @ hex2 (g ! 10) @ hex2 (g ! 11) @
     hex2 (g ! 12) @ hex2 (g ! 13) @ hex2 (g ! 14) @ hex2 (g ! 15)"

definition cpkt_opcua_guid_print ::
    "string option \<Rightarrow> string option \<Rightarrow> cpkt_opcua_result \<times> nat option \<times> string option" where
  "cpkt_opcua_guid_print guid buffer =
     (case guid of
        None \<Rightarrow> (CPKT_OPCUA_ERR_ARG, Some 0, buffer)
      | Some g \<Rightarrow> cpkt_copy_c_string_to_buffer (Some (guid_text g)) buffer)"

definition cpkt_opcua_guid_parse :: "string option \<Rightarrow> string \<Rightarrow> cpkt_opcua_result \<times> string" where
  "cpkt_opcua_guid_parse text guid_out =
     (let (ok, guid_out) = cpkt_parse_guid_text text guid_out in
      if \<not> ok then (CPKT_OPCUA_ERR_ARG, guid_out) else (CPKT_OPCUA_OK, guid_out))"

section \<open>Base 64\<close>

definition cpkt_base64_encoded_size :: "nat \<Rightarrow> nat" where
  "cpkt_base64_encoded_size len = ((len + 2) div 3) * 4"

definition base64_alphabet :: string where
  "base64_alphabet = ''ABCDEFGHIJKLMNOPQRSTUVWXYZabcdefghijklmnopqrstuvwxyz0123456789+/''"

text \<open>One group of up to three octets; \<open>d\<close> is the data from the group on.\<close>

definition base64_group :: "string \<Rightarrow> string" where
  "base64_group d =
     (let remaining = length d;
          value = push_bit 16 (of_char (d ! 0) :: nat);
          value = (if remaining > 1 then value OR push_bit 8 (of_char (d ! 1)) else value);
          value = (if remaining > 2 then value OR of_char (d ! 2) else value)
      in [base64_alphabet ! (drop_bit 18 value AND 0x3F), base64_alphabet ! (drop_bit 12 value AND 0x3F),
          if remaining > 1 then base64_alphabet ! (drop_bit 6 value AND 0x3F) else CHR ''='',
          if remaining > 2 then base64_alphabet ! (value AND 0x3F) else CHR ''=''])"

fun cpkt_base64_encode :: "string \<Rightarrow> string" where
  "cpkt_base64_encode d = (if d = [] then [] else base64_group d @ cpkt_base64_encode (drop 3 d))"

declare cpkt_base64_encode.simps [simp del]

definition cpkt_base64_value :: "char \<Rightarrow> int" where
  "cpkt_base64_value c =
     (let value = int (of_char c) in
      if value \<ge> 65 \<and> value \<le> 90 then value - 65
      else if value \<ge> 97 \<and> value \<le> 122 then value - 97 + 26
      else if value \<ge> 48 \<and> value \<le> 57 then value - 48 + 52
      else if value = 43 then 62
      else if value = 47 then 63
      else -1)"

definition put_octet :: "nat \<Rightarrow> nat \<Rightarrow> nat \<times> string \<Rightarrow> nat \<times> string" where
  "put_octet required v = (\<lambda>(o', b). if o' < required then (o' + 1, b[o' := char_of (v AND 0xFF)]) else (o', b))"

text \<open>The loop over groups of four; \<open>t\<close> is the text from the group on, \<open>o'\<close> the place in the buffer.\<close>

fun base64_decode_loop :: "string \<Rightarrow> nat \<Rightarrow> nat \<times> string \<Rightarrow> int \<times> string" where
  "base64_decode_loop t required ob =
     (if t = [] then (1, snd ob)
      else
        let v0 = cpkt_base64_value (t ! 0);
            v1 = cpkt_base64_value (t ! 1);
            v2 = (if t ! 2 = CHR ''='' then 0 else cpkt_base64_value (t ! 2));
            v3 = (if t ! 3 = CHR ''='' then 0 else cpkt_base64_value (t ! 3))
        in
        if v0 < 0 \<or> v1 < 0 \<or> v2 < 0 \<or> v3 < 0 \<or> (t ! 2 = CHR ''='' \<and> t ! 3 \<noteq> CHR ''='') \<or>
           (length t \<noteq> 4 \<and> (t ! 2 = CHR ''='' \<or> t ! 3 = CHR ''=''))
        then (0, snd ob)
        else
          let packed = push_bit 18 (nat v0) OR push_bit 12 (nat v1) OR push_bit 6 (nat v2) OR nat v3;
              ob = put_octet required (drop_bit 16 packed) ob;
              ob = put_octet required (drop_bit 8 packed) ob;
              ob = put_octet required packed ob
          in base64_decode_loop (drop 4 t) required ob)"

declare base64_decode_loop.simps [simp del]

definition base64_required :: "string \<Rightarrow> nat" where
  "base64_required t =
     (let required = (length t div 4) * 3 in
      if length t \<noteq> 0 \<and> t ! (length t - 1) = CHR ''='' then
        (let required = required - 1 in
         if t ! (length t - 2) = CHR ''='' then required - 1 else required)
      else required)"

text \<open>The result is 0 for malformed text, 2 for a buffer that is too small and 1 for success.\<close>

definition cpkt_base64_decode :: "string \<Rightarrow> string option \<Rightarrow> int \<times> nat option \<times> string option" where
  "cpkt_base64_decode t buffer =
     (if length t mod 4 \<noteq> 0 then (0, None, buffer)
      else
        let required = base64_required t in
        if required \<noteq> 0 \<and> too_small buffer required then (2, Some required, buffer)
        else
          let (r, b) = base64_decode_loop t required (0, case buffer of None \<Rightarrow> [] | Some b \<Rightarrow> b)
          in (r, Some required, map_option (\<lambda>_. b) buffer))"

section \<open>Numbers print and parse\<close>

lemma of_char_less [simp]: "(of_char c :: nat) < 256"
  by (metis of_char_mod_256 mod_less_divisor zero_less_numeral)

lemma of_char_char [simp]: "n < 256 \<Longrightarrow> (of_char (char_of n) :: nat) = n"
  by (simp add: of_char_of)

lemma digit_char [simp]: "(k :: nat) < 10 \<Longrightarrow> is_digit (char_of (48 + k))"
  by (simp add: is_digit_def)

lemma dec_nonempty [simp]: "dec n \<noteq> []"
  by (subst dec.simps) simp

lemma dec_digits: "c \<in> set (dec n) \<Longrightarrow> is_digit c"
proof (induction n arbitrary: c rule: dec.induct)
  case (1 n)
  then show ?case
    by (subst (asm) (2) dec.simps) (auto split: if_splits)
qed

lemma dec_value [simp]: "digits_value (dec n) = n"
proof (induction n rule: dec.induct)
  case (1 n)
  show ?case
  proof (cases "n < 10")
    case True
    then show ?thesis by (subst dec.simps) (simp add: digits_value_def)
  next
    case False
    then have "digits_value (dec n) = digits_value (dec (n div 10)) * 10 + n mod 10"
      by (subst dec.simps) (simp add: digits_value_def)
    then show ?thesis using 1 False by simp
  qed
qed

lemma not_digit [simp]: "\<not> is_digit (CHR '';'')" "\<not> is_digit NUL" "\<not> is_digit (CHR ''='')"
  by (simp_all add: is_digit_def)

lemma parse_dec:
  assumes "n \<le> ulong_max" "rest = [] \<or> \<not> is_digit (hd rest)"
  shows "cpkt_parse_unsigned_long (dec n @ rest) = Some (rest, n)"
proof -
  have all: "\<forall>c\<in>set (dec n). is_digit c"
    using dec_digits by blast
  have "takeWhile is_digit (dec n @ rest) = dec n" "dropWhile is_digit (dec n @ rest) = rest"
    using all assms(2) by (cases rest; simp add: takeWhile_append dropWhile_append)+
  moreover have "is_digit (hd (dec n @ rest))"
    using all by (simp add: hd_append)
  ultimately show ?thesis
    using assms(1) by (simp add: cpkt_parse_unsigned_long_def)
qed

lemma parse_unsigned_bound: "cpkt_parse_unsigned_long text = Some (rest, n) \<Longrightarrow> n \<le> ulong_max"
  by (auto simp: cpkt_parse_unsigned_long_def Let_def split: if_splits)

lemma hex_digit_inverse: "n < 16 \<Longrightarrow> cpkt_hex_digit_value (hex_digit n) = int n"
  by (auto simp: cpkt_hex_digit_value_def hex_digit_def Let_def)

lemma or_shifted: "(b :: nat) < 2 ^ k \<Longrightarrow> push_bit k a OR b = a * 2 ^ k + b"
proof -
  assume b: "b < 2 ^ k"
  have "push_bit k a OR b = push_bit k a + b"
  proof (rule disjunctive_add [symmetric])
    show "\<not> bit (push_bit k a) n \<or> \<not> bit b n" for n
    proof (cases "n < k")
      case False
      then have "\<not> bit b n"
        using b by (metis bit_take_bit_iff take_bit_nat_eq_self)
      then show ?thesis ..
    qed (simp add: bit_push_bit_iff)
  qed
  then show ?thesis
    by (simp add: push_bit_eq_mult)
qed

lemma or_shifted_int: "B < 2 ^ k \<Longrightarrow> nat (push_bit k (int A) OR int B) = A * 2 ^ k + B"
proof -
  assume "B < 2 ^ k"
  then have "push_bit k A OR B = A * 2 ^ k + B"
    by (rule or_shifted)
  moreover have "push_bit k (int A) OR int B = int (push_bit k A OR B)"
    by (simp add: of_nat_or_eq of_nat_push_bit)
  ultimately show ?thesis
    by (simp only: nat_int)
qed

lemma hex2_length [simp]: "length (hex2 c) = 2"
  by (simp add: hex2_def)

lemma parse_hex2: "cpkt_parse_hex_byte (hex2 c @ rest) = Some c"
proof -
  have "(of_char c :: nat) div 16 < 16" "(of_char c :: nat) mod 16 < 16"
    using of_char_less [of c] by (simp_all add: less_mult_imp_div_less)
  note v = hex_digit_inverse [OF this(1)] hex_digit_inverse [OF this(2)]
  have "nat (push_bit 4 (int (of_char c div 16)) OR int (of_char c mod 16)) = of_char c div 16 * 16 + of_char c mod 16"
    by (subst or_shifted_int) simp_all
  also have "\<dots> = of_char c" by simp
  finally show ?thesis
    unfolding cpkt_parse_hex_byte_def hex2_def by (simp add: v Let_def)
qed

section \<open>GUIDs print and parse\<close>

lemma guid_text_length [simp]: "length (guid_text g) = 36"
  by (simp add: guid_text_def)

text \<open>The digits of a byte stand at its place.\<close>

lemma guid_text_places:
  "\<forall>(i, at) \<in> set guid_places. \<exists>rest. drop at (guid_text g) = hex2 (g ! i) @ rest"
  by (simp add: guid_places_def guid_text_def hex2_def)

lemma guid_fill_exact:
  "\<forall>(i, at) \<in> set places. \<exists>rest. drop at t = hex2 (g ! i) @ rest \<Longrightarrow>
   guid_fill t places h = (True, fold (\<lambda>(i, at) h. h[i := g ! i]) places h)"
proof (induction t places h rule: guid_fill.induct)
  case (2 t i at places h)
  from "2.prems" obtain rest where "drop at t = hex2 (g ! i) @ rest" by auto
  then have "cpkt_parse_hex_byte (drop at t) = Some (g ! i)"
    by (simp add: parse_hex2)
  then show ?case
    using 2 by simp
qed simp

lemma guid_fill_nth:
  "j < length h \<Longrightarrow>
   fold (\<lambda>(i, at) h. h[i := g ! i]) places h ! j = (if j \<in> fst ` set places then g ! j else h ! j)"
proof (induction places arbitrary: h)
  case (Cons p places)
  then show ?case by (cases p) (auto simp: nth_list_update)
qed simp

lemma guid_fill_size: "length (fold (\<lambda>(i, at) h. h[i := g ! i]) places h) = length h"
  by (induction places arbitrary: h) (auto split: prod.splits)

lemma guid_indices: "map fst guid_places = [0..<16]"
  by code_simp

lemma guid_roundtrip:
  assumes "length g = 16" "length h = 16"
  shows "cpkt_parse_guid_text (Some (guid_text g)) h = (True, g)"
proof -
  have dashes: "guid_text g ! 8 = CHR ''-''" "guid_text g ! 13 = CHR ''-''" "guid_text g ! 18 = CHR ''-''"
      "guid_text g ! 23 = CHR ''-''"
    by (simp_all add: guid_text_def hex2_def)
  have "fst ` set guid_places = {0..<16}"
    using arg_cong [OF guid_indices, of set] by simp
  then have "fold (\<lambda>(i, at) h. h[i := g ! i]) guid_places h = g"
    by (intro nth_equalityI) (simp_all add: guid_fill_size guid_fill_nth assms)
  then show ?thesis
    using guid_fill_exact [OF guid_text_places] by (simp add: cpkt_parse_guid_text_def dashes)
qed

lemma guid_fill_length: "guid_fill t places g = (ok, g') \<Longrightarrow> length g' = length g"
  by (induction t places g rule: guid_fill.induct) (auto split: option.splits)

lemma guid_parse_length: "cpkt_parse_guid_text t g = (ok, g') \<Longrightarrow> length g' = length g"
  by (auto simp: cpkt_parse_guid_text_def guid_fill_length split: option.splits if_splits)

section \<open>Base 64 encodes and decodes\<close>

lemma base64_values: "map cpkt_base64_value base64_alphabet = map int [0..<64]"
  by (simp add: base64_alphabet_def cpkt_base64_value_def) code_simp

lemma base64_no_pad: "CHR ''='' \<notin> set base64_alphabet" "length base64_alphabet = 64"
  by (simp_all add: base64_alphabet_def)

lemma base64_value_nth [simp]:
  assumes "k < 64"
  shows "cpkt_base64_value (base64_alphabet ! k) = int k" "base64_alphabet ! k \<noteq> CHR ''=''"
proof -
  have "map cpkt_base64_value base64_alphabet ! k = int k"
    unfolding base64_values using assms by simp
  then show "cpkt_base64_value (base64_alphabet ! k) = int k"
    using assms base64_no_pad(2) by simp
  show "base64_alphabet ! k \<noteq> CHR ''=''"
    using assms base64_no_pad by (metis nth_mem)
qed

lemma and_63: "(n :: nat) AND 63 = n mod 64"
  using take_bit_eq_mask [of 6 n] by (simp add: take_bit_eq_mod mask_eq_exp_minus_1)

lemma and_255: "(n :: nat) AND 255 = n mod 256"
  using take_bit_eq_mask [of 8 n] by (simp add: take_bit_eq_mod mask_eq_exp_minus_1)

lemma sextets:
  "(v :: nat) < 2 ^ 24 \<Longrightarrow>
   push_bit 18 (v div 2 ^ 18 mod 64) OR push_bit 12 (v div 2 ^ 12 mod 64) OR push_bit 6 (v div 2 ^ 6 mod 64) OR v mod 64 = v"
proof -
  assume v: "v < 2 ^ 24"
  have "push_bit 6 (v div 2 ^ 6 mod 64) OR v mod 64 = (v div 2 ^ 6 mod 64) * 2 ^ 6 + v mod 64"
    by (rule or_shifted) simp
  also have "\<dots> = v mod 2 ^ 12"
    by (simp add: mod_mult2_eq [of v 64 64, simplified] mult.commute)
  finally have 1: "push_bit 6 (v div 2 ^ 6 mod 64) OR v mod 64 = v mod 2 ^ 12" .
  have "push_bit 12 (v div 2 ^ 12 mod 64) OR v mod 2 ^ 12 = (v div 2 ^ 12 mod 64) * 2 ^ 12 + v mod 2 ^ 12"
    by (rule or_shifted) simp
  also have "\<dots> = v mod 2 ^ 18"
    by (simp add: mod_mult2_eq [of v 4096 64, simplified] mult.commute)
  finally have 2: "push_bit 12 (v div 2 ^ 12 mod 64) OR v mod 2 ^ 12 = v mod 2 ^ 18" .
  have "push_bit 18 (v div 2 ^ 18 mod 64) OR v mod 2 ^ 18 = (v div 2 ^ 18 mod 64) * 2 ^ 18 + v mod 2 ^ 18"
    by (rule or_shifted) simp
  also have "\<dots> = v"
    using v mod_mult2_eq [of v "2 ^ 18" 64] by (simp add: mult.commute)
  finally show ?thesis
    using 1 2 by (simp add: or.assoc)
qed

lemma group_value2: "a < 256 \<Longrightarrow> (b :: nat) < 256 \<Longrightarrow> push_bit 16 a OR push_bit 8 b = a * 65536 + b * 256"
proof -
  assume b: "b < 256"
  have "push_bit 16 a OR push_bit 8 b = a * 2 ^ 16 + push_bit 8 b"
    by (rule or_shifted) (use b in \<open>simp add: push_bit_eq_mult\<close>)
  then show ?thesis
    by (simp add: push_bit_eq_mult)
qed

lemma group_value3:
  "a < 256 \<Longrightarrow> b < 256 \<Longrightarrow> (c :: nat) < 256 \<Longrightarrow> push_bit 16 a OR push_bit 8 b OR c = a * 65536 + b * 256 + c"
proof -
  assume bc: "b < 256" "c < 256"
  have v: "push_bit 8 b OR c = b * 2 ^ 8 + c"
    by (rule or_shifted) (use bc in simp)
  have "push_bit 16 a OR (push_bit 8 b OR c) = a * 2 ^ 16 + (push_bit 8 b OR c)"
    by (rule or_shifted) (use v bc in simp)
  then show ?thesis
    by (simp add: v)
qed

text \<open>The value of a group, with zeros for missing octets.\<close>

definition octet :: "string \<Rightarrow> nat \<Rightarrow> nat" where
  "octet d i = (if i < length d then of_char (d ! i) else 0)"

definition group24 :: "string \<Rightarrow> nat" where
  "group24 d = octet d 0 * 65536 + octet d 1 * 256 + octet d 2"

lemma octet_less [simp]: "octet d i < 256"
  by (simp add: octet_def)

lemma group24_less: "group24 d < 2 ^ 24"
proof -
  have "group24 d < 16777216"
    unfolding group24_def using octet_less [of d 0] octet_less [of d 1] octet_less [of d 2] by linarith
  then show ?thesis by simp
qed

lemma base64_group_sextets:
  assumes "d \<noteq> []"
  shows "base64_group d =
    [base64_alphabet ! (group24 d div 2 ^ 18 mod 64), base64_alphabet ! (group24 d div 2 ^ 12 mod 64),
     if length d > 1 then base64_alphabet ! (group24 d div 2 ^ 6 mod 64) else CHR ''='',
     if length d > 2 then base64_alphabet ! (group24 d mod 64) else CHR ''='']"
proof -
  have v: "(let v = push_bit 16 (of_char (d ! 0) :: nat); v = (if length d > 1 then v OR push_bit 8 (of_char (d ! 1)) else v)
      in if length d > 2 then v OR of_char (d ! 2) else v) = group24 d"
  proof -
    consider "length d = 1" | "length d = 2" | "length d > 2"
      using assms by (cases "length d"; fastforce)
    then show ?thesis
    proof cases
      case 1
      then show ?thesis using assms by (simp add: group24_def octet_def push_bit_eq_mult)
    next
      case 2
      then show ?thesis using assms by (simp add: group_value2 group24_def octet_def)
    next
      case 3
      then have "Suc 0 < length d" by simp
      then show ?thesis
        using 3 assms by (simp add: Let_def or.assoc group_value3 group24_def octet_def)
    qed
  qed
  show ?thesis
    unfolding base64_group_def Let_def v [unfolded Let_def] by (simp add: drop_bit_eq_div and_63)
qed

lemma group24_short:
  "length d \<le> 2 \<Longrightarrow> group24 d mod 64 = 0" "length d \<le> 1 \<Longrightarrow> group24 d div 2 ^ 6 mod 64 = 0"
proof -
  show "group24 d mod 64 = 0" if "length d \<le> 2"
    using that by (simp add: group24_def octet_def)
  show "group24 d div 2 ^ 6 mod 64 = 0" if "length d \<le> 1"
    using that by (simp add: group24_def octet_def)
qed

lemma group24_octets:
  "group24 d div 65536 mod 256 = octet d 0" "group24 d div 256 mod 256 = octet d 1" "group24 d mod 256 = octet d 2"
proof -
  have o: "octet d 0 < 256" "octet d 1 < 256" "octet d 2 < 256" by simp_all
  then have lt: "octet d 1 * 256 + octet d 2 < 65536" by linarith
  have "group24 d = (octet d 1 * 256 + octet d 2) + octet d 0 * 65536"
    by (simp add: group24_def)
  then have "group24 d div 65536 = octet d 0"
    using lt by simp
  then show "group24 d div 65536 mod 256 = octet d 0"
    using o by simp
  define x where "x = octet d 0 * 256 + octet d 1"
  have "group24 d = octet d 2 + x * 256"
    by (simp add: group24_def x_def)
  then have "group24 d div 256 = x" and low: "group24 d mod 256 = octet d 2"
    using o(3) by simp_all
  then show "group24 d div 256 mod 256 = octet d 1"
    using o(2) by (simp add: x_def)
  show "group24 d mod 256 = octet d 2"
    by (rule low)
qed

text \<open>One round of the decoder undoes one group of the encoder.\<close>

lemma decode_round:
  assumes "d \<noteq> []" "length d > 2 \<or> t = []"
  shows "base64_decode_loop (base64_group d @ t) required ob =
    base64_decode_loop t required
      (put_octet required (group24 d) (put_octet required (drop_bit 8 (group24 d)) (put_octet required (drop_bit 16 (group24 d)) ob)))"
proof -
  note g = base64_group_sextets [OF assms(1)]
  have v2: "(if (base64_group d @ t) ! 2 = CHR ''='' then 0 else cpkt_base64_value ((base64_group d @ t) ! 2)) =
      int (group24 d div 2 ^ 6 mod 64)"
    using group24_short(2) [of d] by (simp add: g)
  have v3: "(if (base64_group d @ t) ! 3 = CHR ''='' then 0 else cpkt_base64_value ((base64_group d @ t) ! 3)) =
      int (group24 d mod 64)"
    using group24_short(1) [of d] by (simp add: g)
  have v01: "cpkt_base64_value ((base64_group d @ t) ! 0) = int (group24 d div 2 ^ 18 mod 64)"
      "cpkt_base64_value ((base64_group d @ t) ! 1) = int (group24 d div 2 ^ 12 mod 64)"
    by (simp_all add: g)
  have pad: "\<not> ((base64_group d @ t) ! 2 = CHR ''='' \<and> (base64_group d @ t) ! 3 \<noteq> CHR ''='')"
      "\<not> (length (base64_group d @ t) \<noteq> 4 \<and> ((base64_group d @ t) ! 2 = CHR ''='' \<or> (base64_group d @ t) ! 3 = CHR ''=''))"
    using assms(2) by (auto simp: g)
  have len: "drop 4 (base64_group d @ t) = t" "base64_group d @ t \<noteq> []"
    by (simp_all add: g)
  let ?s = "base64_group d @ t"
  have c: "\<not> (int (group24 d div 2 ^ 18 mod 64) < 0 \<or> int (group24 d div 2 ^ 12 mod 64) < 0 \<or>
      int (group24 d div 2 ^ 6 mod 64) < 0 \<or> int (group24 d mod 64) < 0 \<or> (?s ! 2 = CHR ''='' \<and> ?s ! 3 \<noteq> CHR ''='') \<or>
      (length ?s \<noteq> 4 \<and> (?s ! 2 = CHR ''='' \<or> ?s ! 3 = CHR ''='')))"
    using pad by simp
  show ?thesis
    unfolding base64_decode_loop.simps [of ?s] v01 v2 v3 Let_def
    by (simp only: if_not_P [OF len(2)] if_not_P [OF c] nat_int sextets [OF group24_less [of d]] len(1))
qed

lemma memcpy_nil [simp]: "memcpy_at off [] b = b"
  by (simp add: memcpy_at_def)

lemma memcpy_snoc:
  assumes "off + length xs < length b"
  shows "(memcpy_at off xs b)[off + length xs := c] = memcpy_at off (xs @ [c]) b"
proof -
  have "drop (off + length xs) b = (b ! (off + length xs)) # drop (Suc (off + length xs)) b"
    using assms by (simp add: Cons_nth_drop_Suc)
  then show ?thesis
    using assms by (simp add: memcpy_at_def list_update_append)
qed

lemma memcpy_append:
  "off + length xs \<le> length b \<Longrightarrow> memcpy_at (off + length xs) ys (memcpy_at off xs b) = memcpy_at off (xs @ ys) b"
  by (simp add: memcpy_at_def add.assoc add.commute [of "length ys"])

lemma memcpy_length [simp]: "off + length xs \<le> length b \<Longrightarrow> length (memcpy_at off xs b) = length b"
  by (simp add: memcpy_at_def)

lemma base64_group_length [simp]: "length (base64_group d) = 4"
  by (simp add: base64_group_def Let_def)

lemma base64_encode_length: "length (cpkt_base64_encode d) = cpkt_base64_encoded_size (length d)"
proof (induction d rule: cpkt_base64_encode.induct)
  case (1 d)
  show ?case
  proof (cases "d = []")
    case False
    then have "length (cpkt_base64_encode d) = 4 + cpkt_base64_encoded_size (length d - 3)"
      using 1 by (subst cpkt_base64_encode.simps) simp
    moreover have "length d > 0" using False by simp
    moreover have "(length d - 3 + 2) div 3 = (length d + 2) div 3 - 1"
    proof (cases "length d \<ge> 3")
      case True
      then have "length d + 2 = length d - 3 + 2 + 3" by simp
      then show ?thesis by (metis add_diff_cancel_right' div_add_self2 zero_neq_numeral)
    next
      case False
      then have "length d = 1 \<or> length d = 2" using \<open>length d > 0\<close> by linarith
      then show ?thesis by auto
    qed
    moreover have "(length d + 2) div 3 \<ge> 1" using \<open>length d > 0\<close> by linarith
    ultimately show ?thesis by (simp add: cpkt_base64_encoded_size_def diff_mult_distrib)
  qed (simp add: cpkt_base64_encode.simps cpkt_base64_encoded_size_def)
qed

lemma put_octet_group:
  "put_octet required (group24 d) (put_octet required (drop_bit 8 (group24 d)) (put_octet required (drop_bit 16 (group24 d)) (k, b))) =
   fold (\<lambda>c (k, b). if k < required then (k + 1, b[k := c]) else (k, b)) [char_of (octet d 0), char_of (octet d 1), char_of (octet d 2)] (k, b)"
  by (simp add: put_octet_def and_255 drop_bit_eq_div group24_octets)

lemma put_group:
  assumes "d \<noteq> []" "k + length d \<le> length b"
  shows "put_octet (k + length d) (group24 d) (put_octet (k + length d) (drop_bit 8 (group24 d))
      (put_octet (k + length d) (drop_bit 16 (group24 d)) (k, b))) =
    (k + min 3 (length d), memcpy_at k (take 3 d) b)"
proof -
  have snoc: "(memcpy_at k xs b)[k + length xs := c] = memcpy_at k (xs @ [c]) b" if "length xs < length d" for xs c
    using that assms(2) by (intro memcpy_snoc) simp
  obtain x xs where d: "d = x # xs" using assms(1) by (cases d) auto
  have 1: "b[k := x] = memcpy_at k [x] b"
    using snoc [of "[]" x] d by simp
  have 2: "(memcpy_at k [x] b)[Suc k := y] = memcpy_at k [x, y] b" if "xs = y # ys" for y ys
    using snoc [of "[x]" y] d that by simp
  have 3: "(memcpy_at k [x, y] b)[Suc (Suc k) := z] = memcpy_at k [x, y, z] b" if "xs = y # z # zs" for y z zs
    using snoc [of "[x, y]" z] d that by simp
  show ?thesis
  proof (cases xs)
    case Nil
    then show ?thesis unfolding put_octet_group by (simp add: d octet_def 1)
  next
    case ys: (Cons y ys)
    then show ?thesis
      by (cases ys) (unfold put_octet_group, simp_all add: d octet_def 1 2 3)
  qed
qed

lemma decode_encode:
  "k + length d \<le> length b \<Longrightarrow>
   base64_decode_loop (cpkt_base64_encode d) (k + length d) (k, b) = (1, memcpy_at k d b)"
proof (induction d arbitrary: k b rule: cpkt_base64_encode.induct)
  case (1 d)
  show ?case
  proof (cases "d = []")
    case True
    then show ?thesis by (simp add: cpkt_base64_encode.simps base64_decode_loop.simps)
  next
    case False
    have enc: "cpkt_base64_encode d = base64_group d @ cpkt_base64_encode (drop 3 d)"
      using False by (subst cpkt_base64_encode.simps) simp
    have tail: "length d > 2 \<or> cpkt_base64_encode (drop 3 d) = []"
      by (cases "length d > 2") (simp_all add: cpkt_base64_encode.simps [of "[]"])
    let ?b = "memcpy_at k (take 3 d) b" and ?k = "k + min 3 (length d)"
    have len: "?k + length (drop 3 d) = k + length d"
      by simp
    have b: "?k + length (drop 3 d) \<le> length ?b"
      using "1.prems" unfolding len by simp
    have "base64_decode_loop (cpkt_base64_encode d) (k + length d) (k, b) =
        base64_decode_loop (cpkt_base64_encode (drop 3 d)) (k + length d) (k + min 3 (length d), memcpy_at k (take 3 d) b)"
      by (simp only: enc decode_round [OF False tail] put_group [OF False "1.prems"])
    also have "\<dots> = (1, memcpy_at (k + min 3 (length d)) (drop 3 d) (memcpy_at k (take 3 d) b))"
      using "1.IH" [OF False b] unfolding len .
    also have "\<dots> = (1, memcpy_at k d b)"
      using memcpy_append [of k "take 3 d" b "drop 3 d"] "1.prems" by (simp add: min.commute)
    finally show ?thesis .
  qed
qed

lemma encode_last: "d \<noteq> [] \<Longrightarrow> \<exists>xs e. cpkt_base64_encode d = xs @ base64_group e \<and> e \<noteq> [] \<and> length e \<le> 3 \<and> length d = length e + 3 * (length xs div 4) \<and> 4 dvd length xs"
proof (induction d rule: cpkt_base64_encode.induct)
  case (1 d)
  show ?case
  proof (cases "drop 3 d = []")
    case True
    then show ?thesis using "1.prems"
      by (intro exI [of _ "[]"] exI [of _ d]) (simp add: cpkt_base64_encode.simps)
  next
    case False
    from "1.IH" [OF "1.prems" False] obtain xs e where
      e: "cpkt_base64_encode (drop 3 d) = xs @ base64_group e" "e \<noteq> []" "length e \<le> 3"
        "length (drop 3 d) = length e + 3 * (length xs div 4)" "4 dvd length xs"
      by auto
    have "cpkt_base64_encode d = (base64_group d @ xs) @ base64_group e"
      using "1.prems" e(1) by (subst cpkt_base64_encode.simps) simp
    moreover have "length d = length e + 3 * (length (base64_group d @ xs) div 4)"
      using e(4) False by (simp add: div_add_self1)
    ultimately show ?thesis using e(2,3,5) by (intro exI [of _ "base64_group d @ xs"] exI [of _ e]) simp
  qed
qed

lemma required_encode: "base64_required (cpkt_base64_encode d) = length d"
proof (cases "d = []")
  case True
  then show ?thesis by (simp add: cpkt_base64_encode.simps base64_required_def)
next
  case False
  then obtain xs e where e: "cpkt_base64_encode d = xs @ base64_group e" "e \<noteq> []" "length e \<le> 3"
      "length d = length e + 3 * (length xs div 4)" "4 dvd length xs"
    using encode_last by blast
  let ?t = "xs @ base64_group e"
  have ix: "?t ! (length ?t - 1) = base64_group e ! 3" "?t ! (length ?t - 2) = base64_group e ! 2"
    by (simp_all add: nth_append)
  have n: "length ?t div 4 * 3 = 3 * (length xs div 4) + 3"
    by (simp add: div_add_self2)
  have "length e = 1 \<or> length e = 2 \<or> length e = 3"
    using e(2,3) by (cases "length e") (auto simp: le_Suc_eq numeral_eq_Suc)
  then show ?thesis
    unfolding e(1) base64_required_def Let_def ix n
    using e(2,4) by (elim disjE) (simp_all add: base64_group_sextets)
qed

lemma base64_roundtrip:
  assumes "length d \<le> length b"
  shows "cpkt_base64_decode (cpkt_base64_encode d) (Some b) = (1, Some (length d), Some (memcpy_at 0 d b))"
  using decode_encode [of 0 d b] assms
  by (simp add: cpkt_base64_decode_def base64_encode_length cpkt_base64_encoded_size_def required_encode too_small_def Let_def)

lemma base64_roundtrip_null: "cpkt_base64_decode (cpkt_base64_encode []) None = (1, Some 0, None)"
  using decode_encode [of 0 "[]" "[]"]
  by (simp add: cpkt_base64_decode_def base64_encode_length cpkt_base64_encoded_size_def required_encode too_small_def Let_def)

end
