(* ===== verification/Opcua_Ids.thy ===== *)
theory Opcua_Ids
  imports Opcua_Text
begin

text \<open>
  Node ids, expanded node ids, qualified names and localized texts of the OPC UA facade, from
  \<^verbatim>\<open>src/src/opcua_identifiers.c\<close> and the structures of \<^verbatim>\<open>src/include/cpkt/opcua.h\<close>.  The locale
  \<open>text_printer\<close> is the contract of a printer (one copy of one text, sized by a first call), \<open>text_codec\<close>
  extends it with the contract of the matching parser, and both are interpreted on all five pairs of the
  facade.  Output pointers are taken to be given; a NULL \<open>required_size_out\<close> only drops the size.
\<close>

section \<open>Node ids\<close>

abbreviation CPKT_OPCUA_NODE_ID_NULL :: int where "CPKT_OPCUA_NODE_ID_NULL \<equiv> 0"
abbreviation CPKT_OPCUA_NODE_ID_NUMERIC :: int where "CPKT_OPCUA_NODE_ID_NUMERIC \<equiv> 1"
abbreviation CPKT_OPCUA_NODE_ID_STRING :: int where "CPKT_OPCUA_NODE_ID_STRING \<equiv> 2"
abbreviation CPKT_OPCUA_NODE_ID_GUID :: int where "CPKT_OPCUA_NODE_ID_GUID \<equiv> 3"
abbreviation CPKT_OPCUA_NODE_ID_BYTE_STRING :: int where "CPKT_OPCUA_NODE_ID_BYTE_STRING \<equiv> 4"

text \<open>
  A \<open>const char *\<close> field is the C string it points to, a \<open>const unsigned char *\<close> field the octets it
  points to, of which the length field says how many belong to the identifier; NULL is \<open>None\<close>.
\<close>

record cpkt_opcua_node_id =
  namespace_index :: nat
  identifier_type :: int
  numeric :: nat
  id_string :: "string option"
  id_guid :: string
  byte_string :: "string option"
  byte_string_length :: nat

definition cpkt_valid_node_id :: "cpkt_opcua_node_id \<Rightarrow> bool" where
  "cpkt_valid_node_id node_id =
     (if identifier_type node_id = CPKT_OPCUA_NODE_ID_NULL then namespace_index node_id = 0
      else if identifier_type node_id = CPKT_OPCUA_NODE_ID_NUMERIC then numeric node_id \<le> uint_max
      else if identifier_type node_id = CPKT_OPCUA_NODE_ID_STRING then id_string node_id \<noteq> None
      else if identifier_type node_id = CPKT_OPCUA_NODE_ID_GUID then True
      else if identifier_type node_id = CPKT_OPCUA_NODE_ID_BYTE_STRING
      then byte_string node_id \<noteq> None \<or> byte_string_length node_id = 0
      else False)"

definition cpkt_opcua_node_id_null :: cpkt_opcua_node_id where
  "cpkt_opcua_node_id_null =
     \<lparr>namespace_index = 0, identifier_type = CPKT_OPCUA_NODE_ID_NULL, numeric = 0, id_string = None,
      id_guid = replicate 16 NUL, byte_string = None, byte_string_length = 0\<rparr>"

definition cpkt_opcua_node_id_numeric :: "nat \<Rightarrow> nat \<Rightarrow> cpkt_opcua_node_id" where
  "cpkt_opcua_node_id_numeric ns identifier =
     cpkt_opcua_node_id_null\<lparr>namespace_index := ns, identifier_type := CPKT_OPCUA_NODE_ID_NUMERIC,
       numeric := identifier\<rparr>"

definition cpkt_opcua_node_id_string :: "nat \<Rightarrow> string option \<Rightarrow> cpkt_opcua_node_id" where
  "cpkt_opcua_node_id_string ns identifier =
     cpkt_opcua_node_id_null\<lparr>namespace_index := ns, identifier_type := CPKT_OPCUA_NODE_ID_STRING,
       id_string := identifier\<rparr>"

definition cpkt_opcua_node_id_guid :: "nat \<Rightarrow> string option \<Rightarrow> cpkt_opcua_node_id" where
  "cpkt_opcua_node_id_guid ns guid =
     (let node_id = cpkt_opcua_node_id_null\<lparr>namespace_index := ns, identifier_type := CPKT_OPCUA_NODE_ID_GUID\<rparr> in
      case guid of None \<Rightarrow> node_id | Some g \<Rightarrow> node_id\<lparr>id_guid := take 16 g\<rparr>)"

definition cpkt_opcua_node_id_byte_string :: "nat \<Rightarrow> string option \<Rightarrow> nat \<Rightarrow> cpkt_opcua_node_id" where
  "cpkt_opcua_node_id_byte_string ns identifier identifier_length =
     cpkt_opcua_node_id_null\<lparr>namespace_index := ns, identifier_type := CPKT_OPCUA_NODE_ID_BYTE_STRING,
       byte_string := identifier, byte_string_length := identifier_length\<rparr>"

definition cpkt_opcua_node_id_equal :: "cpkt_opcua_node_id \<Rightarrow> cpkt_opcua_node_id \<Rightarrow> bool" where
  "cpkt_opcua_node_id_equal a b =
     (if namespace_index a \<noteq> namespace_index b \<or> identifier_type a \<noteq> identifier_type b then False
      else if identifier_type a = CPKT_OPCUA_NODE_ID_NULL then True
      else if identifier_type a = CPKT_OPCUA_NODE_ID_NUMERIC then numeric a = numeric b
      else if identifier_type a = CPKT_OPCUA_NODE_ID_STRING then id_string a = id_string b
      else if identifier_type a = CPKT_OPCUA_NODE_ID_GUID then take 16 (id_guid a) = take 16 (id_guid b)
      else if identifier_type a = CPKT_OPCUA_NODE_ID_BYTE_STRING then
        (if byte_string_length a \<noteq> byte_string_length b then False
         else if byte_string_length a = 0 then True
         else case (byte_string a, byte_string b) of
             (Some x, Some y) \<Rightarrow> take (byte_string_length a) x = take (byte_string_length a) y
           | _ \<Rightarrow> False)
      else False)"

text \<open>The text \<^verbatim>\<open>ns=%hu;\<close> followed by the letter of the kind and \<^verbatim>\<open>=\<close>.\<close>

definition ns_prefix :: "nat \<Rightarrow> string \<Rightarrow> string" where
  "ns_prefix ns kind = ''ns='' @ dec ns @ '';'' @ kind @ ''=''"

definition cpkt_opcua_node_id_print ::
    "cpkt_opcua_node_id \<Rightarrow> string option \<Rightarrow> cpkt_opcua_result \<times> nat option \<times> string option" where
  "cpkt_opcua_node_id_print node_id buffer =
     (if \<not> cpkt_valid_node_id node_id then (CPKT_OPCUA_ERR_ARG, Some 0, buffer)
      else if identifier_type node_id = CPKT_OPCUA_NODE_ID_NULL then
        cpkt_copy_c_string_to_buffer (Some ''i=0'') buffer
      else if identifier_type node_id = CPKT_OPCUA_NODE_ID_NUMERIC then
        cpkt_copy_c_string_to_buffer (Some (ns_prefix (namespace_index node_id) ''i'' @ dec (numeric node_id))) buffer
      else if identifier_type node_id = CPKT_OPCUA_NODE_ID_STRING then
        (let pre = ns_prefix (namespace_index node_id) ''s'';
             value_length = length (the (id_string node_id));
             required = length pre + value_length + 1
         in if too_small buffer required then (CPKT_OPCUA_ERR_RANGE, Some required, clear_small buffer)
            else (CPKT_OPCUA_OK, Some required,
              Some (memcpy_at (length pre) (the (id_string node_id) @ [NUL]) (memcpy_at 0 pre (the buffer)))))
      else if identifier_type node_id = CPKT_OPCUA_NODE_ID_GUID then
        cpkt_copy_c_string_to_buffer (Some (ns_prefix (namespace_index node_id) ''g'' @ guid_text (id_guid node_id))) buffer
      else
        (let pre = ns_prefix (namespace_index node_id) ''b'';
             encoded_length = cpkt_base64_encoded_size (byte_string_length node_id);
             required = length pre + encoded_length + 1
         in if too_small buffer required then (CPKT_OPCUA_ERR_RANGE, Some required, clear_small buffer)
            else (CPKT_OPCUA_OK, Some required,
              Some (memcpy_at (length pre)
                (cpkt_base64_encode (take (byte_string_length node_id) (case byte_string node_id of None \<Rightarrow> [] | Some d \<Rightarrow> d)) @ [NUL])
                (memcpy_at 0 pre (the buffer))))))"

text \<open>A number up to \<open>limit\<close> and a semicolon, after a keyword such as \<^verbatim>\<open>ns=\<close>; without the keyword 0.\<close>

definition parse_leading :: "string \<Rightarrow> nat \<Rightarrow> string \<Rightarrow> (nat \<times> string) option" where
  "parse_leading keyword limit cursor =
     (if take (length keyword) cursor = keyword then
        (case cpkt_parse_unsigned_long (drop (length keyword) cursor) of
           None \<Rightarrow> None
         | Some (rest, parsed) \<Rightarrow>
             if parsed > limit \<or> rest = [] \<or> hd rest \<noteq> CHR '';'' then None else Some (parsed, tl rest))
      else Some (0, cursor))"

definition node_id_parse_value ::
    "nat \<Rightarrow> string \<Rightarrow> string option \<Rightarrow> cpkt_opcua_result \<times> cpkt_opcua_node_id \<times> nat \<times> string option" where
  "node_id_parse_value ns cursor buffer =
     (if take 2 cursor = ''i='' then
        (case cpkt_parse_unsigned_long (drop 2 cursor) of
           None \<Rightarrow> (CPKT_OPCUA_ERR_ARG, cpkt_opcua_node_id_null, 0, buffer)
         | Some (rest, parsed) \<Rightarrow>
             if rest \<noteq> [] then (CPKT_OPCUA_ERR_ARG, cpkt_opcua_node_id_null, 0, buffer)
             else if ns = 0 \<and> parsed = 0 then (CPKT_OPCUA_OK, cpkt_opcua_node_id_null, 0, buffer)
             else (CPKT_OPCUA_OK, cpkt_opcua_node_id_numeric ns parsed, 0, buffer))
      else if take 2 cursor = ''s='' then
        (let (copy_result, required, buffer) = cpkt_copy_c_string_to_buffer (Some (drop 2 cursor)) buffer in
         if copy_result \<noteq> CPKT_OPCUA_OK then (copy_result, cpkt_opcua_node_id_null, the required, buffer)
         else (CPKT_OPCUA_OK, cpkt_opcua_node_id_string ns (map_option c_str buffer), the required, buffer))
      else if take 2 cursor = ''g='' then
        (let (ok, guid) = cpkt_parse_guid_text (Some (drop 2 cursor)) (replicate 16 NUL) in
         if \<not> ok then (CPKT_OPCUA_ERR_ARG, cpkt_opcua_node_id_null, 0, buffer)
         else (CPKT_OPCUA_OK, cpkt_opcua_node_id_guid ns (Some guid), 0, buffer))
      else if take 2 cursor = ''b='' then
        (let (decode_result, required, buffer) = cpkt_base64_decode (drop 2 cursor) buffer;
             decoded_size = (case required of None \<Rightarrow> 0 | Some n \<Rightarrow> n)
         in if decode_result = 0 then (CPKT_OPCUA_ERR_ARG, cpkt_opcua_node_id_null, decoded_size, buffer)
            else if decode_result = 2 then (CPKT_OPCUA_ERR_RANGE, cpkt_opcua_node_id_null, decoded_size, buffer)
            else (CPKT_OPCUA_OK, cpkt_opcua_node_id_byte_string ns buffer decoded_size, decoded_size, buffer))
      else (CPKT_OPCUA_ERR_ARG, cpkt_opcua_node_id_null, 0, buffer))"

definition cpkt_opcua_node_id_parse ::
    "string option \<Rightarrow> string option \<Rightarrow> cpkt_opcua_result \<times> cpkt_opcua_node_id \<times> nat \<times> string option" where
  "cpkt_opcua_node_id_parse text buffer =
     (case text of
        None \<Rightarrow> (CPKT_OPCUA_ERR_ARG, cpkt_opcua_node_id_null, 0, buffer)
      | Some cursor \<Rightarrow>
          (case parse_leading ''ns='' ushrt_max cursor of
             None \<Rightarrow> (CPKT_OPCUA_ERR_ARG, cpkt_opcua_node_id_null, 0, buffer)
           | Some (ns, cursor) \<Rightarrow> node_id_parse_value ns cursor buffer))"

section \<open>Expanded node ids\<close>

record cpkt_opcua_expanded_node_id =
  node_id :: cpkt_opcua_node_id
  namespace_uri :: "string option"
  namespace_uri_length :: nat
  server_index :: nat

definition cpkt_valid_expanded_node_id :: "cpkt_opcua_expanded_node_id \<Rightarrow> bool" where
  "cpkt_valid_expanded_node_id e =
     (if \<not> cpkt_valid_node_id (node_id e) \<or> server_index e > uint_max then False
      else if namespace_uri e = None \<and> namespace_uri_length e \<noteq> 0 then False
      else True)"

definition cpkt_opcua_expanded_node_id_local :: "cpkt_opcua_node_id \<Rightarrow> cpkt_opcua_expanded_node_id" where
  "cpkt_opcua_expanded_node_id_local n =
     \<lparr>node_id = n, namespace_uri = None, namespace_uri_length = 0, server_index = 0\<rparr>"

definition cpkt_opcua_expanded_node_id_uri ::
    "string option \<Rightarrow> nat \<Rightarrow> cpkt_opcua_node_id \<Rightarrow> cpkt_opcua_expanded_node_id" where
  "cpkt_opcua_expanded_node_id_uri uri uri_length n =
     (cpkt_opcua_expanded_node_id_local n)\<lparr>namespace_uri := uri, namespace_uri_length := uri_length\<rparr>"

definition cpkt_opcua_expanded_node_id_server :: "nat \<Rightarrow> cpkt_opcua_node_id \<Rightarrow> cpkt_opcua_expanded_node_id" where
  "cpkt_opcua_expanded_node_id_server index n = (cpkt_opcua_expanded_node_id_local n)\<lparr>server_index := index\<rparr>"

definition cpkt_opcua_expanded_node_id_server_uri ::
    "nat \<Rightarrow> string option \<Rightarrow> nat \<Rightarrow> cpkt_opcua_node_id \<Rightarrow> cpkt_opcua_expanded_node_id" where
  "cpkt_opcua_expanded_node_id_server_uri index uri uri_length n =
     (cpkt_opcua_expanded_node_id_uri uri uri_length n)\<lparr>server_index := index\<rparr>"

definition cpkt_opcua_expanded_node_id_equal ::
    "cpkt_opcua_expanded_node_id \<Rightarrow> cpkt_opcua_expanded_node_id \<Rightarrow> bool" where
  "cpkt_opcua_expanded_node_id_equal a b =
     (if server_index a \<noteq> server_index b \<or> namespace_uri_length a \<noteq> namespace_uri_length b \<or>
         \<not> cpkt_opcua_node_id_equal (node_id a) (node_id b) then False
      else if namespace_uri_length a = 0 then True
      else case (namespace_uri a, namespace_uri b) of
          (Some x, Some y) \<Rightarrow> take (namespace_uri_length a) x = take (namespace_uri_length a) y
        | _ \<Rightarrow> False)"

text \<open>The flag says whether \<open>malloc\<close> gives the memory for the inner text.\<close>

definition cpkt_opcua_expanded_node_id_print ::
    "bool \<Rightarrow> cpkt_opcua_expanded_node_id \<Rightarrow> string option \<Rightarrow> cpkt_opcua_result \<times> nat option \<times> string option" where
  "cpkt_opcua_expanded_node_id_print malloc_ok e buffer =
     (if \<not> cpkt_valid_expanded_node_id e then (CPKT_OPCUA_ERR_ARG, Some 0, buffer)
      else
        case cpkt_opcua_node_id_print (node_id e) None of
          (result, inner_required, _) \<Rightarrow>
            if result \<noteq> CPKT_OPCUA_ERR_RANGE
            then (if result = CPKT_OPCUA_OK then CPKT_OPCUA_ERR_ALLOC else result, Some 0, buffer)
            else if \<not> malloc_ok then (CPKT_OPCUA_ERR_ALLOC, Some 0, buffer)
            else
              case cpkt_opcua_node_id_print (node_id e) (Some (replicate (the inner_required) NUL)) of
                (result, _, inner) \<Rightarrow>
                  if result \<noteq> CPKT_OPCUA_OK then (result, Some 0, buffer)
                  else
                    let inner = c_str (the inner);
                        pre = (if server_index e \<noteq> 0 then ''svr='' @ dec (server_index e) @ '';'' else []);
                        pre = (if namespace_uri_length e \<noteq> 0 then pre @ ''nsu='' else pre);
                        required = length pre + namespace_uri_length e +
                          (if namespace_uri_length e \<noteq> 0 then 1 else 0) + length inner + 1
                    in if too_small buffer required then (CPKT_OPCUA_ERR_RANGE, Some required, clear_small buffer)
                       else
                         let b = memcpy_at 0 pre (the buffer);
                             n = length pre + namespace_uri_length e;
                             b = (if namespace_uri_length e \<noteq> 0
                               then memcpy_at (n + 1) (inner @ [NUL])
                                 ((memcpy_at (length pre) (take (namespace_uri_length e) (the (namespace_uri e))) b)[n := CHR '';''])
                               else memcpy_at (length pre) (inner @ [NUL]) b)
                         in (CPKT_OPCUA_OK, Some required, Some b))"

text \<open>The part of the parser from the node id on, \<open>k\<close> being the length of the URI.\<close>

definition expanded_parse_node ::
    "nat \<Rightarrow> nat \<Rightarrow> string \<Rightarrow> string option \<Rightarrow>
     cpkt_opcua_result \<times> cpkt_opcua_expanded_node_id \<times> nat \<times> string option" where
  "expanded_parse_node parsed k cursor buffer =
     (let node_buffer = (if k \<noteq> 0 then map_option (drop (k + 1)) buffer else buffer) in
      case cpkt_opcua_node_id_parse (Some cursor) node_buffer of
        (result, n, node_required, node_buffer) \<Rightarrow>
          let buffer = (if k \<noteq> 0 then map_option (\<lambda>b. take (k + 1) b @ the node_buffer) buffer else node_buffer);
              none = cpkt_opcua_expanded_node_id_local cpkt_opcua_node_id_null
          in if result \<noteq> CPKT_OPCUA_OK
             then (result, none,
               if k \<noteq> 0 \<and> result = CPKT_OPCUA_ERR_RANGE then k + 1 + node_required else node_required, buffer)
             else
               let out = (cpkt_opcua_expanded_node_id_local n)\<lparr>server_index := parsed\<rparr>;
                   out = (if k \<noteq> 0 then out\<lparr>namespace_uri := buffer, namespace_uri_length := k\<rparr> else out)
               in (CPKT_OPCUA_OK, out, if k \<noteq> 0 then node_required + (k + 1) else node_required, buffer))"

definition cpkt_opcua_expanded_node_id_parse ::
    "string option \<Rightarrow> string option \<Rightarrow> cpkt_opcua_result \<times> cpkt_opcua_expanded_node_id \<times> nat \<times> string option" where
  "cpkt_opcua_expanded_node_id_parse text buffer =
     (let none = cpkt_opcua_expanded_node_id_local cpkt_opcua_node_id_null in
      case text of
        None \<Rightarrow> (CPKT_OPCUA_ERR_ARG, none, 0, buffer)
      | Some cursor \<Rightarrow>
          (case parse_leading ''svr='' uint_max cursor of
             None \<Rightarrow> (CPKT_OPCUA_ERR_ARG, none, 0, buffer)
           | Some (parsed, cursor) \<Rightarrow>
               if take 4 cursor = ''nsu='' then
                 let cursor = drop 4 cursor;
                     uri = takeWhile (\<lambda>c. c \<noteq> CHR '';'') cursor;
                     k = length uri
                 in if k = length cursor \<or> k = 0 then (CPKT_OPCUA_ERR_ARG, none, 0, buffer)
                    else if too_small buffer (k + 1) then (CPKT_OPCUA_ERR_RANGE, none, k + 1, clear_small buffer)
                    else expanded_parse_node parsed k (drop (k + 1) cursor)
                      (map_option (\<lambda>b. (memcpy_at 0 uri b)[k := NUL]) buffer)
               else expanded_parse_node parsed 0 cursor buffer))"

section \<open>Qualified names and localized texts\<close>

definition cpkt_opcua_qualified_name_print ::
    "nat \<Rightarrow> string option \<Rightarrow> nat \<Rightarrow> string option \<Rightarrow> cpkt_opcua_result \<times> nat option \<times> string option" where
  "cpkt_opcua_qualified_name_print ns name name_length buffer =
     (if name = None \<and> name_length \<noteq> 0 then (CPKT_OPCUA_ERR_ARG, Some 0, buffer)
      else
        let pre = ns_prefix ns ''q''; required = length pre + name_length + 1 in
        if too_small buffer required then (CPKT_OPCUA_ERR_RANGE, Some required, clear_small buffer)
        else
          let b = memcpy_at 0 pre (the buffer);
              b = (if name_length \<noteq> 0 then memcpy_at (length pre) (take name_length (the name)) b else b)
          in (CPKT_OPCUA_OK, Some required, Some (b[length pre + name_length := NUL])))"

text \<open>The result holds the namespace index and the length of the name; the name is in the buffer.\<close>

definition cpkt_opcua_qualified_name_parse ::
    "string option \<Rightarrow> string option \<Rightarrow> cpkt_opcua_result \<times> nat \<times> nat \<times> nat \<times> string option" where
  "cpkt_opcua_qualified_name_parse text name_buffer =
     (case text of
        None \<Rightarrow> (CPKT_OPCUA_ERR_ARG, 0, 0, 0, name_buffer)
      | Some cursor \<Rightarrow>
          if take 3 cursor \<noteq> ''ns='' then (CPKT_OPCUA_ERR_ARG, 0, 0, 0, name_buffer)
          else
            case cpkt_parse_unsigned_long (drop 3 cursor) of
              None \<Rightarrow> (CPKT_OPCUA_ERR_ARG, 0, 0, 0, name_buffer)
            | Some (rest, parsed) \<Rightarrow>
                if parsed > ushrt_max \<or> take 3 rest \<noteq> '';q='' then (CPKT_OPCUA_ERR_ARG, 0, 0, 0, name_buffer)
                else
                  let cursor = drop 3 rest; name_length = length cursor;
                      (result, required, name_buffer) =
                        cpkt_copy_counted_string_to_buffer (Some cursor) name_length name_buffer
                  in if result \<noteq> CPKT_OPCUA_OK then (result, 0, 0, the required, name_buffer)
                     else (CPKT_OPCUA_OK, parsed, name_length, the required, name_buffer))"

definition cpkt_opcua_localized_text_print ::
    "string option \<Rightarrow> nat \<Rightarrow> string option \<Rightarrow> nat \<Rightarrow> string option \<Rightarrow> cpkt_opcua_result \<times> nat option \<times> string option" where
  "cpkt_opcua_localized_text_print locale_text locale_length body body_length buffer =
     (if locale_text = None \<and> locale_length \<noteq> 0 \<or> body = None \<and> body_length \<noteq> 0
      then (CPKT_OPCUA_ERR_ARG, Some 0, buffer)
      else
        let pre = ''locale=''; separator = '';text='';
            required = length pre + locale_length + length separator + body_length + 1
        in if too_small buffer required then (CPKT_OPCUA_ERR_RANGE, Some required, clear_small buffer)
           else
             let b = memcpy_at 0 pre (the buffer);
                 b = (if locale_length \<noteq> 0 then memcpy_at (length pre) (take locale_length (the locale_text)) b else b);
                 b = memcpy_at (length pre + locale_length) separator b;
                 b = (if body_length \<noteq> 0
                   then memcpy_at (length pre + locale_length + length separator) (take body_length (the body)) b else b)
             in (CPKT_OPCUA_OK, Some required, Some (b[required - 1 := NUL])))"

text \<open>\<open>strstr\<close>: the offset of the first occurrence.\<close>

fun strstr_at :: "string \<Rightarrow> string \<Rightarrow> nat option" where
  "strstr_at s pat =
     (if take (length pat) s = pat then Some 0
      else case s of [] \<Rightarrow> None | _ # r \<Rightarrow> map_option Suc (strstr_at r pat))"

declare strstr_at.simps [simp del]

text \<open>
  On success the locale is the first \<open>locale_length\<close> octets of the buffer and the text starts behind
  its terminator; the two offsets stand for the two pointers.
\<close>

definition cpkt_opcua_localized_text_parse ::
    "string option \<Rightarrow> string option \<Rightarrow>
     cpkt_opcua_result \<times> (nat \<times> nat) option \<times> (nat \<times> nat) option \<times> nat \<times> string option" where
  "cpkt_opcua_localized_text_parse input buffer =
     (case input of
        None \<Rightarrow> (CPKT_OPCUA_ERR_ARG, None, None, 0, buffer)
      | Some t \<Rightarrow>
          if take 7 t \<noteq> ''locale='' then (CPKT_OPCUA_ERR_ARG, None, None, 0, buffer)
          else
            case strstr_at (drop 7 t) '';text='' of
              None \<Rightarrow> (CPKT_OPCUA_ERR_ARG, None, None, 0, buffer)
            | Some locale_length \<Rightarrow>
                let body = drop (locale_length + 6) (drop 7 t);
                    text_length = length body;
                    required = locale_length + 1 + text_length + 1
                in if too_small buffer required then (CPKT_OPCUA_ERR_RANGE, None, None, required, clear_small buffer)
                   else
                     let b = the buffer;
                         b = (if locale_length \<noteq> 0 then memcpy_at 0 (take locale_length (drop 7 t)) b else b);
                         b = b[locale_length := NUL];
                         b = (if text_length \<noteq> 0 then memcpy_at (locale_length + 1) body b else b);
                         b = b[locale_length + 1 + text_length := NUL]
                     in (CPKT_OPCUA_OK, Some (0, locale_length), Some (locale_length + 1, text_length), required, Some b))"

section \<open>The texts\<close>

definition id_bytes :: "cpkt_opcua_node_id \<Rightarrow> string" where
  "id_bytes n = take (byte_string_length n) (case byte_string n of None \<Rightarrow> [] | Some d \<Rightarrow> d)"

definition node_id_text :: "cpkt_opcua_node_id \<Rightarrow> string" where
  "node_id_text n =
     (if identifier_type n = CPKT_OPCUA_NODE_ID_NULL then ''i=0''
      else if identifier_type n = CPKT_OPCUA_NODE_ID_NUMERIC then ns_prefix (namespace_index n) ''i'' @ dec (numeric n)
      else if identifier_type n = CPKT_OPCUA_NODE_ID_STRING then ns_prefix (namespace_index n) ''s'' @ the (id_string n)
      else if identifier_type n = CPKT_OPCUA_NODE_ID_GUID then ns_prefix (namespace_index n) ''g'' @ guid_text (id_guid n)
      else ns_prefix (namespace_index n) ''b'' @ cpkt_base64_encode (id_bytes n))"

definition uri_bytes :: "cpkt_opcua_expanded_node_id \<Rightarrow> string" where
  "uri_bytes e = take (namespace_uri_length e) (case namespace_uri e of None \<Rightarrow> [] | Some u \<Rightarrow> u)"

definition expanded_text :: "cpkt_opcua_expanded_node_id \<Rightarrow> string" where
  "expanded_text e =
     (if server_index e \<noteq> 0 then ''svr='' @ dec (server_index e) @ '';'' else []) @
     (if namespace_uri_length e \<noteq> 0 then ''nsu='' @ uri_bytes e @ '';'' else []) @ node_id_text (node_id e)"

text \<open>The memory behind a counted field holds at least as many octets as the field says.\<close>

definition counted :: "string option \<Rightarrow> nat \<Rightarrow> bool" where
  "counted p n \<longleftrightarrow> (case p of None \<Rightarrow> True | Some d \<Rightarrow> n \<le> length d)"

definition id_readable :: "cpkt_opcua_node_id \<Rightarrow> bool" where
  "id_readable n \<longleftrightarrow> counted (byte_string n) (byte_string_length n)"

section \<open>Printing is one copy\<close>

lemma copy_pieces:
  "(if too_small buffer (Suc (length pre + length body))
    then (CPKT_OPCUA_ERR_RANGE, Some (Suc (length pre + length body)), clear_small buffer)
    else (CPKT_OPCUA_OK, Some (Suc (length pre + length body)),
      Some (memcpy_at (length pre) (body @ [NUL]) (memcpy_at 0 pre (the buffer))))) =
   cpkt_copy_c_string_to_buffer (Some (pre @ body)) buffer"
proof -
  have "memcpy_at (length pre) (body @ [NUL]) (memcpy_at 0 pre b) = memcpy_at 0 ((pre @ body) @ [NUL]) b"
    if "length (pre @ body) < length b" for b
    using memcpy_append [of 0 pre b "body @ [NUL]"] that by simp
  then show ?thesis
    by (auto simp: cpkt_copy_c_string_to_buffer_def too_small_def Let_def split: option.splits)
qed

lemma node_id_print_copies:
  assumes "id_readable n"
  shows "cpkt_opcua_node_id_print n buffer =
    (if cpkt_valid_node_id n then cpkt_copy_c_string_to_buffer (Some (node_id_text n)) buffer
     else (CPKT_OPCUA_ERR_ARG, Some 0, buffer))"
proof (cases "cpkt_valid_node_id n")
  case True
  consider "identifier_type n \<in> {0, 1, 3}" | (s) "identifier_type n = 2" | (b) "identifier_type n = 4"
    using True by (auto simp: cpkt_valid_node_id_def split: if_splits)
  then show ?thesis
  proof cases
    case s
    then show ?thesis
      using True by (simp add: cpkt_opcua_node_id_print_def node_id_text_def Let_def copy_pieces split del: if_split)
  next
    case b
    have "length (id_bytes n) = byte_string_length n"
      using assms True b by (auto simp: id_bytes_def id_readable_def counted_def cpkt_valid_node_id_def split: option.splits)
    then have len: "cpkt_base64_encoded_size (byte_string_length n) = length (cpkt_base64_encode (id_bytes n))"
      by (simp add: base64_encode_length)
    show ?thesis
      unfolding cpkt_opcua_node_id_print_def id_bytes_def [symmetric] len
      using True b by (simp add: node_id_text_def Let_def copy_pieces split del: if_split)
  qed (auto simp: cpkt_opcua_node_id_print_def node_id_text_def)
qed (simp add: cpkt_opcua_node_id_print_def)

lemma memcpy_store:
  "off + length xs < length b \<Longrightarrow> k = off + length xs \<Longrightarrow> (memcpy_at off xs b)[k := c] = memcpy_at off (xs @ [c]) b"
  by (simp add: memcpy_snoc)

text \<open>The same for a counted piece, which may hold any octets.\<close>

lemma counted_take: "counted p k \<Longrightarrow> p \<noteq> None \<or> k = 0 \<Longrightarrow> length (take k (case p of None \<Rightarrow> [] | Some d \<Rightarrow> d)) = k"
  by (auto simp: counted_def split: option.splits)

definition qualified_text :: "nat \<times> string option \<times> nat \<Rightarrow> string" where
  "qualified_text = (\<lambda>(ns, name, n). ns_prefix ns ''q'' @ take n (case name of None \<Rightarrow> [] | Some d \<Rightarrow> d))"

lemma qualified_print_copies:
  assumes "counted name n"
  shows "cpkt_opcua_qualified_name_print ns name n buffer =
    (if name \<noteq> None \<or> n = 0 then cpkt_copy_c_string_to_buffer (Some (qualified_text (ns, name, n))) buffer
     else (CPKT_OPCUA_ERR_ARG, Some 0, buffer))"
proof (cases "name \<noteq> None \<or> n = 0")
  case True
  define body where "body = take n (case name of None \<Rightarrow> [] | Some d \<Rightarrow> d)"
  define pre where "pre = ns_prefix ns ''q''"
  have len: "length body = n"
    using counted_take [OF assms True] by (simp add: body_def)
  have t: "(if n \<noteq> 0 then memcpy_at k (take n (the name)) b else b) = memcpy_at k body b" for k b
    using True len by (auto simp: body_def)
  have "(memcpy_at (length pre) body (memcpy_at 0 pre b))[length pre + n := NUL] =
      memcpy_at 0 ((pre @ body) @ [NUL]) b" if "length pre + n < length b" for b
    using that len memcpy_append [of 0 pre b body] by (simp add: memcpy_store)
  then have "cpkt_opcua_qualified_name_print ns name n buffer = cpkt_copy_c_string_to_buffer (Some (pre @ body)) buffer"
    unfolding cpkt_opcua_qualified_name_print_def cpkt_copy_c_string_to_buffer_def Let_def t pre_def [symmetric]
    using True len by (auto simp: too_small_def split: option.splits)
  then show ?thesis
    using True by (simp add: qualified_text_def body_def pre_def)
qed (simp add: cpkt_opcua_qualified_name_print_def)

lemma copy_four:
  assumes "length (p @ x @ q @ y) < length b"
  shows "(memcpy_at (length p + length x + length q) y (memcpy_at (length p + length x) q
      (memcpy_at (length p) x (memcpy_at 0 p b))))[length (p @ x @ q @ y) := NUL] = memcpy_at 0 ((p @ x @ q @ y) @ [NUL]) b"
proof -
  have "memcpy_at (length p) x (memcpy_at 0 p b) = memcpy_at 0 (p @ x) b"
    using memcpy_append [of 0 p b x] assms by simp
  moreover have "memcpy_at (length p + length x) q (memcpy_at 0 (p @ x) b) = memcpy_at 0 (p @ x @ q) b"
    using memcpy_append [of 0 "p @ x" b q] assms by simp
  moreover have "memcpy_at (length p + length x + length q) y (memcpy_at 0 (p @ x @ q) b) = memcpy_at 0 (p @ x @ q @ y) b"
    using memcpy_append [of 0 "p @ x @ q" b y] assms by (simp add: add.assoc)
  moreover have "(memcpy_at 0 (p @ x @ q @ y) b)[length (p @ x @ q @ y) := NUL] = memcpy_at 0 ((p @ x @ q @ y) @ [NUL]) b"
    by (rule memcpy_store) (use assms in simp_all)
  ultimately show ?thesis by simp
qed

definition localized_text :: "string option \<times> nat \<times> string option \<times> nat \<Rightarrow> string" where
  "localized_text = (\<lambda>(loc, l, body, n). ''locale='' @ take l (case loc of None \<Rightarrow> [] | Some d \<Rightarrow> d) @ '';text='' @
     take n (case body of None \<Rightarrow> [] | Some d \<Rightarrow> d))"

lemma localized_print_copies:
  assumes "counted loc l" "counted body n"
  shows "cpkt_opcua_localized_text_print loc l body n buffer =
    (if (loc \<noteq> None \<or> l = 0) \<and> (body \<noteq> None \<or> n = 0)
     then cpkt_copy_c_string_to_buffer (Some (localized_text (loc, l, body, n))) buffer
     else (CPKT_OPCUA_ERR_ARG, Some 0, buffer))"
proof (cases "(loc \<noteq> None \<or> l = 0) \<and> (body \<noteq> None \<or> n = 0)")
  case True
  define x where "x = take l (case loc of None \<Rightarrow> [] | Some d \<Rightarrow> d)"
  define y where "y = take n (case body of None \<Rightarrow> [] | Some d \<Rightarrow> d)"
  have len: "length x = l" "length y = n"
    using counted_take [OF assms(1)] counted_take [OF assms(2)] True by (simp_all add: x_def y_def)
  have tx: "(if l \<noteq> 0 then memcpy_at k (take l (the loc)) b else b) = memcpy_at k x b"
    and ty: "(if n \<noteq> 0 then memcpy_at k (take n (the body)) b else b) = memcpy_at k y b" for k b
    using True len by (auto simp: x_def y_def)
  define s where "s = ''locale='' @ x @ '';text='' @ y"
  have all: "(memcpy_at (length ''locale='' + l + length '';text='') y (memcpy_at (length ''locale='' + l) '';text=''
      (memcpy_at (length ''locale='') x (memcpy_at 0 ''locale='' b))))[length s := NUL] = memcpy_at 0 (s @ [NUL]) b"
    if "length s < length b" for b
    using copy_four [of "''locale=''" x "'';text=''" y b] that unfolding s_def len by (simp only: len length_append add.assoc)
  have req: "length ''locale='' + l + length '';text='' + n + 1 = length s + 1"
    using len by (simp add: s_def)
  have "cpkt_opcua_localized_text_print loc l body n buffer = cpkt_copy_c_string_to_buffer (Some s) buffer"
    unfolding cpkt_opcua_localized_text_print_def cpkt_copy_c_string_to_buffer_def Let_def tx ty req
    using True all by (auto simp: too_small_def simp del: list.size split: option.splits)
  then show ?thesis
    using True by (simp add: localized_text_def s_def x_def y_def)
qed (auto simp: cpkt_opcua_localized_text_print_def)

section \<open>What a printer and its parser promise\<close>

text \<open>
  A printer copies one text: given no buffer it says how much room the text and its terminator need,
  a buffer with less room is made the empty string, and one with enough room gets the text.
\<close>

locale text_printer =
  fixes print :: "'a \<Rightarrow> string option \<Rightarrow> cpkt_opcua_result \<times> nat option \<times> string option"
    and fit :: "'a \<Rightarrow> bool" and ok :: "'a \<Rightarrow> bool" and printed :: "'a \<Rightarrow> string"
  assumes print_copies:
    "fit x \<Longrightarrow> print x buffer =
      (if ok x then cpkt_copy_c_string_to_buffer (Some (printed x)) buffer else (CPKT_OPCUA_ERR_ARG, Some 0, buffer))"
begin

lemma size_query: "fit x \<Longrightarrow> ok x \<Longrightarrow> print x None = (CPKT_OPCUA_ERR_RANGE, Some (length (printed x) + 1), None)"
  by (simp add: print_copies cpkt_copy_c_string_to_buffer_def too_small_def clear_small_def Let_def)

lemma print_small:
  "fit x \<Longrightarrow> ok x \<Longrightarrow> length b \<le> length (printed x) \<Longrightarrow>
   print x (Some b) = (CPKT_OPCUA_ERR_RANGE, Some (length (printed x) + 1), Some (if b \<noteq> [] then b[0 := NUL] else b))"
  by (simp add: print_copies cpkt_copy_c_string_to_buffer_def too_small_def clear_small_def Let_def)

lemma print_room:
  "fit x \<Longrightarrow> ok x \<Longrightarrow> length (printed x) < length b \<Longrightarrow>
   print x (Some b) = (CPKT_OPCUA_OK, Some (length (printed x) + 1), Some (printed x @ [NUL] @ drop (length (printed x) + 1) b))"
  by (simp add: print_copies cpkt_copy_c_string_to_buffer_def too_small_def memcpy_at_def Let_def)

end

text \<open>A parser reads the text back when the caller's storage has room for what it keeps there.\<close>

locale text_codec = text_printer print fit ok printed
  for print :: "'a \<Rightarrow> string option \<Rightarrow> cpkt_opcua_result \<times> nat option \<times> string option"
    and fit ok printed +
  fixes parse :: "string option \<Rightarrow> string option \<Rightarrow> cpkt_opcua_result \<times> 'b"
    and good :: "'a \<Rightarrow> bool" and need :: "'a \<Rightarrow> nat" and agrees :: "'a \<Rightarrow> 'b \<Rightarrow> bool"
  assumes no_nul: "fit x \<Longrightarrow> ok x \<Longrightarrow> good x \<Longrightarrow> NUL \<notin> set (printed x)"
    and parse_printed:
      "fit x \<Longrightarrow> ok x \<Longrightarrow> good x \<Longrightarrow> need x \<le> length storage \<Longrightarrow>
       \<exists>y. parse (Some (printed x)) (Some storage) = (CPKT_OPCUA_OK, y) \<and> agrees x y"
begin

lemma roundtrip:
  assumes "fit x" "ok x" "good x" "need x \<le> length storage"
  shows "\<exists>size. print x None = (CPKT_OPCUA_ERR_RANGE, Some size, None) \<and>
    (\<forall>b. length b = size \<longrightarrow> (\<exists>b' y. print x (Some b) = (CPKT_OPCUA_OK, Some size, Some b') \<and>
       parse (Some (c_str b')) (Some storage) = (CPKT_OPCUA_OK, y) \<and> agrees x y))"
proof (intro exI [of _ "length (printed x) + 1"] conjI allI impI)
  show "print x None = (CPKT_OPCUA_ERR_RANGE, Some (length (printed x) + 1), None)"
    by (rule size_query [OF assms(1,2)])
  fix b :: string
  assume b: "length b = length (printed x) + 1"
  obtain y where y: "parse (Some (printed x)) (Some storage) = (CPKT_OPCUA_OK, y)" "agrees x y"
    using parse_printed [OF assms] by blast
  have "c_str (printed x @ [NUL] @ drop (length (printed x) + 1) b) = printed x"
    unfolding c_str_def using no_nul [OF assms(1-3)] by (simp add: takeWhile_append)
  then show "\<exists>b' y. print x (Some b) = (CPKT_OPCUA_OK, Some (length (printed x) + 1), Some b') \<and>
      parse (Some (c_str b')) (Some storage) = (CPKT_OPCUA_OK, y) \<and> agrees x y"
    using print_room [OF assms(1,2), of b] b y by auto
qed

end

section \<open>The pieces of the texts\<close>

lemma c_str_text: "NUL \<notin> set s \<Longrightarrow> c_str (s @ NUL # rest) = s"
  unfolding c_str_def by (simp add: takeWhile_append)

lemma c_str_memcpy: "NUL \<notin> set s \<Longrightarrow> c_str (memcpy_at 0 (s @ [NUL]) b) = s"
  by (simp add: memcpy_at_def c_str_text)

lemma dec_no [simp]: "\<not> is_digit c \<Longrightarrow> c \<notin> set (dec n)"
  using dec_digits by blast

lemma hex_digit_not_nul: "n < 16 \<Longrightarrow> hex_digit n \<noteq> NUL"
  using hex_digit_inverse [of n] by (auto simp: cpkt_hex_digit_value_def)

lemma hex2_no_nul [simp]: "NUL \<notin> set (hex2 c)"
proof -
  have "(of_char c :: nat) div 16 < 16" "(of_char c :: nat) mod 16 < 16"
    using of_char_less [of c] by (simp_all add: less_mult_imp_div_less)
  then show ?thesis
    by (simp add: hex2_def hex_digit_not_nul [symmetric])
qed

lemma guid_text_no_nul [simp]: "NUL \<notin> set (guid_text g)"
  by (simp add: guid_text_def)

lemma base64_no_nul: "NUL \<notin> set (cpkt_base64_encode d)"
proof (induction d rule: cpkt_base64_encode.induct)
  case (1 d)
  have "NUL \<notin> set base64_alphabet" by (simp add: base64_alphabet_def)
  then have "NUL \<noteq> base64_alphabet ! k" if "k < 64" for k
    using that base64_no_pad(2) by (metis nth_mem)
  then have "NUL \<notin> set (base64_group d)" if "d \<noteq> []"
    using that by (auto simp: base64_group_sextets)
  then show ?case
    using 1 by (cases "d = []") (subst cpkt_base64_encode.simps, simp)+
qed

lemma parse_leading_match:
  "n \<le> limit \<Longrightarrow> limit \<le> uint_max \<Longrightarrow> parse_leading kw limit (kw @ dec n @ '';'' @ rest) = Some (n, rest)"
  using parse_dec [of n "'';'' @ rest"] by (simp add: parse_leading_def size_max_def)

lemma parse_leading_absent: "take (length kw) cursor \<noteq> kw \<Longrightarrow> parse_leading kw limit cursor = Some (0, cursor)"
  by (simp add: parse_leading_def)

section \<open>Node ids\<close>

definition id_wf :: "cpkt_opcua_node_id \<Rightarrow> bool" where
  "id_wf n \<longleftrightarrow> namespace_index n \<le> ushrt_max \<and> length (id_guid n) = 16 \<and>
     (case id_string n of None \<Rightarrow> True | Some s \<Rightarrow> NUL \<notin> set s) \<and> id_readable n"

text \<open>What the parser keeps in the caller's storage.\<close>

definition id_need :: "cpkt_opcua_node_id \<Rightarrow> nat" where
  "id_need n =
     (if identifier_type n = CPKT_OPCUA_NODE_ID_STRING then length (the (id_string n)) + 1
      else if identifier_type n = CPKT_OPCUA_NODE_ID_BYTE_STRING then byte_string_length n else 0)"

text \<open>The one numeric id that the parser takes for the null id.\<close>

definition id_zero :: "cpkt_opcua_node_id \<Rightarrow> bool" where
  "id_zero n \<longleftrightarrow> identifier_type n = CPKT_OPCUA_NODE_ID_NUMERIC \<and> namespace_index n = 0 \<and> numeric n = 0"

definition as_read :: "cpkt_opcua_node_id \<Rightarrow> cpkt_opcua_node_id" where
  "as_read n = (if id_zero n then cpkt_opcua_node_id_null else n)"

definition id_agrees :: "cpkt_opcua_node_id \<Rightarrow> cpkt_opcua_node_id \<times> nat \<times> string option \<Rightarrow> bool" where
  "id_agrees n y \<longleftrightarrow> cpkt_opcua_node_id_equal (as_read n) (fst y) \<and> fst (snd y) = id_need n"

lemma node_text_no_nul: "id_wf n \<Longrightarrow> cpkt_valid_node_id n \<Longrightarrow> NUL \<notin> set (node_id_text n)"
  by (auto simp: node_id_text_def ns_prefix_def id_wf_def cpkt_valid_node_id_def base64_no_nul split: if_splits option.splits)

lemma copy_room:
  "length s < length b \<Longrightarrow>
   cpkt_copy_c_string_to_buffer (Some s) (Some b) = (CPKT_OPCUA_OK, Some (length s + 1), Some (memcpy_at 0 (s @ [NUL]) b))"
  by (simp add: cpkt_copy_c_string_to_buffer_def too_small_def Let_def)

lemma id_bytes_length: "cpkt_valid_node_id n \<Longrightarrow> id_readable n \<Longrightarrow> identifier_type n = 4 \<Longrightarrow> length (id_bytes n) = byte_string_length n"
  by (auto simp: id_bytes_def id_readable_def counted_def cpkt_valid_node_id_def split: option.splits)

lemma parse_prefixed:
  "ns \<le> ushrt_max \<Longrightarrow> cpkt_opcua_node_id_parse (Some (ns_prefix ns kind @ s)) buffer = node_id_parse_value ns (kind @ ''='' @ s) buffer"
  using parse_leading_match [of ns ushrt_max "''ns=''" "kind @ ''='' @ s"]
  by (simp add: cpkt_opcua_node_id_parse_def ns_prefix_def)

lemma parse_printed_bytes:
  assumes "id_wf n" "cpkt_valid_node_id n" "identifier_type n = CPKT_OPCUA_NODE_ID_BYTE_STRING" "id_need n \<le> length storage"
  shows "\<exists>y. cpkt_opcua_node_id_parse (Some (node_id_text n)) (Some storage) = (CPKT_OPCUA_OK, y) \<and> id_agrees n y"
proof -
  have ns: "namespace_index n \<le> ushrt_max"
    using assms(1) by (simp add: id_wf_def)
  note p = parse_prefixed [OF ns]
  have len: "length (id_bytes n) = byte_string_length n"
    using id_bytes_length [OF assms(2) _ assms(3)] assms(1) by (simp add: id_wf_def)
  let ?m = "memcpy_at 0 (id_bytes n) storage"
  have "cpkt_base64_decode (cpkt_base64_encode (id_bytes n)) (Some storage) = (1, Some (byte_string_length n), Some ?m)"
    using base64_roundtrip [of "id_bytes n" storage] len assms(4) assms(3) by (simp add: id_need_def)
  then have "cpkt_opcua_node_id_parse (Some (node_id_text n)) (Some storage) =
      (CPKT_OPCUA_OK, cpkt_opcua_node_id_byte_string (namespace_index n) (Some ?m) (byte_string_length n),
       byte_string_length n, Some ?m)"
    using assms(3) by (simp add: p node_id_text_def node_id_parse_value_def Let_def)
  moreover have "take (byte_string_length n) ?m = id_bytes n"
    using len by (simp add: memcpy_at_def)
  moreover have "byte_string n \<noteq> None \<or> byte_string_length n = 0"
    using assms(3) assms(2) by (simp add: cpkt_valid_node_id_def)
  ultimately show ?thesis
    using assms(3)
    by (auto simp: id_agrees_def as_read_def id_zero_def id_need_def cpkt_opcua_node_id_equal_def cpkt_opcua_node_id_byte_string_def
        id_bytes_def)
qed

lemma parse_printed_id:
  assumes "id_wf n" "cpkt_valid_node_id n" "id_need n \<le> length storage"
  shows "\<exists>y. cpkt_opcua_node_id_parse (Some (node_id_text n)) (Some storage) = (CPKT_OPCUA_OK, y) \<and> id_agrees n y"
proof -
  have ns: "namespace_index n \<le> ushrt_max" and g: "length (id_guid n) = 16" and r: "id_readable n"
    using assms(1) by (simp_all add: id_wf_def)
  note p = parse_prefixed [OF ns]
  note defs = node_id_text_def node_id_parse_value_def id_agrees_def as_read_def id_zero_def id_need_def
    cpkt_opcua_node_id_equal_def
  consider (null) "identifier_type n = 0" | (num) "identifier_type n = 1" | (str) "identifier_type n = 2"
    | (guid) "identifier_type n = 3" | (bytes) "identifier_type n = 4"
    using assms(2) by (auto simp: cpkt_valid_node_id_def split: if_splits)
  then show ?thesis
  proof cases
    case null
    have "cpkt_parse_unsigned_long ''0'' = Some ([], 0)"
      by (simp add: cpkt_parse_unsigned_long_def digits_value_def is_digit_def)
    then show ?thesis
      using null assms(2) parse_leading_absent [of "''ns=''" "''i=0''" ushrt_max]
      by (simp add: cpkt_opcua_node_id_parse_def defs cpkt_opcua_node_id_null_def cpkt_valid_node_id_def)
  next
    case num
    have "cpkt_parse_unsigned_long (dec (numeric n)) = Some ([], numeric n)"
      using parse_dec [of "numeric n" "[]"] num assms(2) by (simp add: cpkt_valid_node_id_def size_max_def)
    then show ?thesis
      using num by (auto simp: p defs cpkt_opcua_node_id_numeric_def cpkt_opcua_node_id_null_def)
  next
    case str
    then obtain s where s: "id_string n = Some s" "NUL \<notin> set s" "length s < length storage"
      using assms by (auto simp: cpkt_valid_node_id_def id_wf_def id_need_def)
    then show ?thesis
      using str by (simp add: p defs copy_room c_str_memcpy cpkt_opcua_node_id_string_def)
  next
    case guid
    then show ?thesis
      using guid_roundtrip [OF g, of "replicate 16 NUL"] g by (simp add: p defs cpkt_opcua_node_id_guid_def)
  next
    case bytes
    show ?thesis by (rule parse_printed_bytes [OF assms(1,2) bytes assms(3)])
  qed
qed

interpretation node_id_codec: text_codec cpkt_opcua_node_id_print id_wf cpkt_valid_node_id node_id_text
    cpkt_opcua_node_id_parse "\<lambda>n. True" id_need id_agrees
  by unfold_locales (rule node_id_print_copies, simp add: id_wf_def, rule node_text_no_nul, assumption+, rule parse_printed_id)

section \<open>Expanded node ids\<close>

definition expanded_wf :: "cpkt_opcua_expanded_node_id \<Rightarrow> bool" where
  "expanded_wf e \<longleftrightarrow> id_wf (node_id e) \<and> counted (namespace_uri e) (namespace_uri_length e)"

lemma inner_print:
  assumes "id_wf n" "cpkt_valid_node_id n"
  shows "cpkt_opcua_node_id_print n None = (CPKT_OPCUA_ERR_RANGE, Some (Suc (length (node_id_text n))), None)"
    and "cpkt_opcua_node_id_print n (Some (replicate (Suc (length (node_id_text n))) NUL)) =
      (CPKT_OPCUA_OK, Some (Suc (length (node_id_text n))), Some (node_id_text n @ [NUL]))"
  using node_id_codec.size_query [OF assms] node_id_codec.print_room [OF assms] by simp_all

lemma copy_uri:
  assumes "length (p @ u @ [c] @ x) < length b"
  shows "memcpy_at (length p + length u + 1) (x @ [NUL]) ((memcpy_at (length p) u (memcpy_at 0 p b))[length p + length u := c]) =
    memcpy_at 0 ((p @ u @ [c] @ x) @ [NUL]) b"
proof -
  have "memcpy_at (length p) u (memcpy_at 0 p b) = memcpy_at 0 (p @ u) b"
    using memcpy_append [of 0 p b u] assms by simp
  moreover have "(memcpy_at 0 (p @ u) b)[length p + length u := c] = memcpy_at 0 (p @ u @ [c]) b"
    using assms memcpy_snoc [of 0 "p @ u" b c] by simp
  moreover have "memcpy_at (length p + length u + 1) (x @ [NUL]) (memcpy_at 0 (p @ u @ [c]) b) = memcpy_at 0 ((p @ u @ [c] @ x) @ [NUL]) b"
    using memcpy_append [of 0 "p @ u @ [c]" b "x @ [NUL]"] assms by simp
  ultimately show ?thesis by simp
qed

lemma expanded_print_copies:
  assumes "expanded_wf e"
  shows "cpkt_opcua_expanded_node_id_print True e buffer =
    (if cpkt_valid_expanded_node_id e then cpkt_copy_c_string_to_buffer (Some (expanded_text e)) buffer
     else (CPKT_OPCUA_ERR_ARG, Some 0, buffer))"
proof (cases "cpkt_valid_expanded_node_id e")
  case True
  define x where "x = node_id_text (node_id e)"
  define p where "p = (if server_index e \<noteq> 0 then ''svr='' @ dec (server_index e) @ '';'' else [])"
  have wf: "id_wf (node_id e)" and valid: "cpkt_valid_node_id (node_id e)"
    using assms True by (simp_all add: expanded_wf_def cpkt_valid_expanded_node_id_def split: if_splits)
  have nul: "c_str (x @ [NUL]) = x"
    using node_text_no_nul [OF wf valid] by (simp add: c_str_text x_def)
  note inner = inner_print [OF wf valid, folded x_def]
  show ?thesis
  proof (cases "namespace_uri_length e = 0")
    case uri: True
    have s: "expanded_text e = p @ x"
      using uri by (simp add: expanded_text_def p_def x_def)
    show ?thesis
      unfolding cpkt_opcua_expanded_node_id_print_def p_def [symmetric] s
      using True uri by (simp add: inner nul Let_def copy_pieces del: replicate_Suc cong: if_cong split del: if_split)
  next
    case False
    obtain d where d: "namespace_uri e = Some d" "namespace_uri_length e \<le> length d"
      using False True assms by (auto simp: cpkt_valid_expanded_node_id_def expanded_wf_def counted_def split: if_splits)
    define u where "u = uri_bytes e"
    define q where "q = p @ ''nsu=''"
    have u: "take (namespace_uri_length e) d = u" "length u = namespace_uri_length e"
      using d by (simp_all add: u_def uri_bytes_def)
    have s: "expanded_text e = q @ u @ '';'' @ x"
      using False by (simp add: expanded_text_def p_def q_def x_def u_def)
    have "cpkt_opcua_expanded_node_id_print True e buffer =
        (let required = length q + namespace_uri_length e + 1 + length x + 1; n = length q + namespace_uri_length e
         in if too_small buffer required then (CPKT_OPCUA_ERR_RANGE, Some required, clear_small buffer)
            else (CPKT_OPCUA_OK, Some required, Some (memcpy_at (n + 1) (x @ [NUL])
              ((memcpy_at (length q) u (memcpy_at 0 q (the buffer)))[n := CHR '';'']))))"
      unfolding cpkt_opcua_expanded_node_id_print_def p_def [symmetric]
      using True False by (simp add: inner nul d(1) u(1) Let_def q_def del: replicate_Suc)
    also have "\<dots> = cpkt_copy_c_string_to_buffer (Some (q @ u @ '';'' @ x)) buffer"
      using copy_uri [of q u "CHR '';''" x "the buffer"] u(2)
      by (auto simp: cpkt_copy_c_string_to_buffer_def too_small_def Let_def split: option.splits)
    finally show ?thesis using True by (simp add: s)
  qed
qed (simp add: cpkt_opcua_expanded_node_id_print_def)

definition expanded_good :: "cpkt_opcua_expanded_node_id \<Rightarrow> bool" where
  "expanded_good e \<longleftrightarrow> NUL \<notin> set (uri_bytes e) \<and> CHR '';'' \<notin> set (uri_bytes e)"

definition expanded_need :: "cpkt_opcua_expanded_node_id \<Rightarrow> nat" where
  "expanded_need e =
     (if namespace_uri_length e \<noteq> 0 then id_need (node_id e) + (namespace_uri_length e + 1) else id_need (node_id e))"

definition expanded_agrees ::
    "cpkt_opcua_expanded_node_id \<Rightarrow> cpkt_opcua_expanded_node_id \<times> nat \<times> string option \<Rightarrow> bool" where
  "expanded_agrees e y \<longleftrightarrow>
     cpkt_opcua_expanded_node_id_equal (e\<lparr>node_id := as_read (node_id e)\<rparr>) (fst y) \<and> fst (snd y) = expanded_need e"

lemma expanded_text_no_nul:
  "expanded_wf e \<Longrightarrow> cpkt_valid_expanded_node_id e \<Longrightarrow> expanded_good e \<Longrightarrow> NUL \<notin> set (expanded_text e)"
  by (auto simp: expanded_text_def expanded_wf_def expanded_good_def cpkt_valid_expanded_node_id_def node_text_no_nul
      split: if_splits)

lemma node_text_start:
  "take 3 (node_id_text n) = ''ns='' \<or> take 3 (node_id_text n) = ''i=0''" "take 4 (node_id_text n) \<noteq> ''nsu=''"
  "take 4 (node_id_text n) \<noteq> ''svr=''"
proof -
  have "hd (dec m) \<noteq> CHR ''u''" for m
    using dec_digits [of "hd (dec m)" m] by (auto simp: is_digit_def)
  then show "take 3 (node_id_text n) = ''ns='' \<or> take 3 (node_id_text n) = ''i=0''" "take 4 (node_id_text n) \<noteq> ''nsu=''"
    "take 4 (node_id_text n) \<noteq> ''svr=''"
    by (cases "dec (namespace_index n)"; auto simp: node_id_text_def ns_prefix_def numeral_eq_Suc)+
qed

lemma expanded_parse_server:
  assumes "server_index e \<le> uint_max"
  shows "parse_leading ''svr='' uint_max (expanded_text e) = Some (server_index e,
    (if namespace_uri_length e \<noteq> 0 then ''nsu='' @ uri_bytes e @ '';'' else []) @ node_id_text (node_id e))"
proof (cases "server_index e = 0")
  case True
  have "take (length ''svr='') (expanded_text e) \<noteq> ''svr=''"
    using True node_text_start(3) [of "node_id e"] by (simp add: expanded_text_def numeral_eq_Suc)
  from parse_leading_absent [OF this] show ?thesis
    using True by (simp add: expanded_text_def)
next
  case False
  then show ?thesis
    using parse_leading_match [OF assms, of "''svr=''"] by (simp add: expanded_text_def)
qed


lemma memcpy_terminated: "length u < length b \<Longrightarrow> (memcpy_at 0 u b)[length u := NUL] = u @ NUL # drop (length u + 1) b"
  using memcpy_snoc [of 0 u b NUL] by (simp add: memcpy_at_def)

lemma parse_printed_expanded:
  assumes wf: "expanded_wf e" and ok: "cpkt_valid_expanded_node_id e" and good: "expanded_good e"
    and room: "expanded_need e \<le> length storage"
  shows "\<exists>y. cpkt_opcua_expanded_node_id_parse (Some (expanded_text e)) (Some storage) = (CPKT_OPCUA_OK, y) \<and> expanded_agrees e y"
proof -
  have n: "id_wf (node_id e)" "cpkt_valid_node_id (node_id e)" and s: "server_index e \<le> uint_max"
    using wf ok by (auto simp: expanded_wf_def cpkt_valid_expanded_node_id_def split: if_splits)
  note server = expanded_parse_server [OF s]
  let ?x = "node_id_text (node_id e)"
  show ?thesis
  proof (cases "namespace_uri_length e = 0")
    case True
    obtain y where y: "cpkt_opcua_node_id_parse (Some ?x) (Some storage) = (CPKT_OPCUA_OK, y)" "id_agrees (node_id e) y"
      using parse_printed_id [OF n, of storage] room True by (auto simp: expanded_need_def)
    show ?thesis
      using y server True node_text_start(2) [of "node_id e"]
      by (cases y) (simp add: cpkt_opcua_expanded_node_id_parse_def expanded_parse_node_def Let_def expanded_agrees_def
          id_agrees_def cpkt_opcua_expanded_node_id_equal_def cpkt_opcua_expanded_node_id_local_def expanded_need_def)
  next
    case False
    define u where "u = uri_bytes e"
    obtain d where d: "namespace_uri e = Some d" "namespace_uri_length e \<le> length d"
      using False ok wf by (auto simp: cpkt_valid_expanded_node_id_def expanded_wf_def counted_def split: if_splits)
    have u: "length u = namespace_uri_length e" "take (namespace_uri_length e) d = u" "CHR '';'' \<notin> set u"
      using d good by (simp_all add: u_def uri_bytes_def expanded_good_def)
    have ne: "u \<noteq> []" using u(1) False by auto
    let ?rest = "drop (length u + 1) storage"
    have room': "length u < length storage" "id_need (node_id e) \<le> length ?rest"
      using room False u(1) by (simp_all add: expanded_need_def)
    obtain m k b where y: "cpkt_opcua_node_id_parse (Some ?x) (Some ?rest) = (CPKT_OPCUA_OK, m, k, b)"
        "id_agrees (node_id e) (m, k, b)"
      using parse_printed_id [OF n room'(2)] by (metis prod_cases3)
    let ?b = "u @ NUL # the b"
    have node: "expanded_parse_node (server_index e) (length u) ?x (Some (u @ NUL # ?rest)) =
        (CPKT_OPCUA_OK, \<lparr>node_id = m, namespace_uri = Some ?b, namespace_uri_length = length u, server_index = server_index e\<rparr>,
         k + (length u + 1), Some ?b)"
      using y(1) u(1) False by (simp add: expanded_parse_node_def Let_def cpkt_opcua_expanded_node_id_local_def)
    have uri: "takeWhile (\<lambda>c. c \<noteq> CHR '';'') (u @ CHR '';'' # ?x) = u"
      using u(3) by (simp add: takeWhile_append)
    have "cpkt_opcua_expanded_node_id_parse (Some (expanded_text e)) (Some storage) =
        expanded_parse_node (server_index e) (length u) ?x (Some (u @ NUL # ?rest))"
      using server False room'(1) u(1) ne memcpy_terminated [OF room'(1)]
      by (simp add: cpkt_opcua_expanded_node_id_parse_def Let_def uri too_small_def flip: u_def)
    with node y(2) d u False show ?thesis
      by (simp add: expanded_agrees_def id_agrees_def cpkt_opcua_expanded_node_id_equal_def expanded_need_def)
  qed
qed

interpretation expanded_codec: text_codec "cpkt_opcua_expanded_node_id_print True" expanded_wf cpkt_valid_expanded_node_id
    expanded_text cpkt_opcua_expanded_node_id_parse expanded_good expanded_need expanded_agrees
  by unfold_locales (rule expanded_print_copies, assumption, rule expanded_text_no_nul, assumption+, rule parse_printed_expanded)


section \<open>Qualified names and localized texts\<close>

definition qualified_agrees :: "nat \<times> string option \<times> nat \<Rightarrow> nat \<times> nat \<times> nat \<times> string option \<Rightarrow> bool" where
  "qualified_agrees = (\<lambda>(ns, name, n) (ns', n', required, b).
     ns' = ns \<and> n' = n \<and> required = n + 1 \<and> take n (the b) = take n (case name of None \<Rightarrow> [] | Some d \<Rightarrow> d))"

abbreviation name_octets :: "string option \<Rightarrow> nat \<Rightarrow> string" where
  "name_octets p n \<equiv> take n (case p of None \<Rightarrow> [] | Some d \<Rightarrow> d)"

lemma counted_copy:
  "length s < length b \<Longrightarrow> cpkt_copy_counted_string_to_buffer (Some s) (length s) (Some b) =
   (CPKT_OPCUA_OK, Some (length s + 1), Some (s @ NUL # drop (length s + 1) b))"
  using memcpy_terminated [of s b]
  by (cases "s = []") (auto simp: cpkt_copy_counted_string_to_buffer_def too_small_def Let_def)

lemma parse_printed_qualified:
  assumes "ns \<le> ushrt_max" "counted name n" "name \<noteq> None \<or> n = 0" "n + 1 \<le> length storage"
  shows "\<exists>y. cpkt_opcua_qualified_name_parse (Some (qualified_text (ns, name, n))) (Some storage) = (CPKT_OPCUA_OK, y) \<and>
    qualified_agrees (ns, name, n) y"
proof -
  let ?s = "name_octets name n"
  have len: "length ?s = n" by (rule counted_take [OF assms(2,3)])
  have "cpkt_parse_unsigned_long (dec ns @ '';q='' @ ?s) = Some ('';q='' @ ?s, ns)"
    using assms(1) by (intro parse_dec) (simp_all add: size_max_def)
  then show ?thesis
    using assms(1,4) len counted_copy [of ?s storage]
    by (simp add: cpkt_opcua_qualified_name_parse_def qualified_text_def ns_prefix_def qualified_agrees_def Let_def)
qed

interpretation qualified_codec: text_codec "\<lambda>(ns, name, n). cpkt_opcua_qualified_name_print ns name n"
    "\<lambda>(ns, name, n). ns \<le> ushrt_max \<and> counted name n" "\<lambda>(ns, name, n). name \<noteq> None \<or> n = 0" qualified_text
    cpkt_opcua_qualified_name_parse "\<lambda>(ns, name, n). NUL \<notin> set (name_octets name n)" "\<lambda>(ns, name, n). n + 1" qualified_agrees
proof (unfold_locales, goal_cases)
  case (1 x buffer)
  then show ?case by (cases x) (simp add: qualified_print_copies)
next
  case (2 x)
  then show ?case by (cases x) (auto simp: qualified_text_def ns_prefix_def)
next
  case (3 x storage)
  then show ?case using parse_printed_qualified by (cases x) auto
qed

lemma strstr_first: "hd pat \<notin> set s \<Longrightarrow> pat \<noteq> [] \<Longrightarrow> strstr_at (s @ pat @ rest) pat = Some (length s)"
proof (induction s)
  case Nil
  then show ?case by (simp add: strstr_at.simps)
next
  case (Cons c s)
  then have "take (length pat) ((c # s) @ pat @ rest) \<noteq> pat"
    by (cases pat) auto
  then show ?case using Cons by (subst strstr_at.simps) simp
qed

definition localized_agrees ::
    "string option \<times> nat \<times> string option \<times> nat \<Rightarrow> (nat \<times> nat) option \<times> (nat \<times> nat) option \<times> nat \<times> string option \<Rightarrow> bool" where
  "localized_agrees = (\<lambda>(loc, l, body, n) (loc_out, text_out, required, b).
     loc_out = Some (0, l) \<and> text_out = Some (l + 1, n) \<and> required = l + 1 + n + 1 \<and>
     take l (the b) = name_octets loc l \<and> take n (drop (l + 1) (the b)) = name_octets body n)"

lemma parse_printed_localized:
  assumes "counted loc l" "counted body n" "loc \<noteq> None \<or> l = 0" "body \<noteq> None \<or> n = 0" "CHR '';'' \<notin> set (name_octets loc l)"
    "l + n + 2 \<le> length storage"
  shows "\<exists>y. cpkt_opcua_localized_text_parse (Some (localized_text (loc, l, body, n))) (Some storage) = (CPKT_OPCUA_OK, y) \<and>
    localized_agrees (loc, l, body, n) y"
proof -
  define x where "x = name_octets loc l"
  define y where "y = name_octets body n"
  have len: "length x = l" "length y = n"
    using counted_take [OF assms(1,3)] counted_take [OF assms(2,4)] by (simp_all add: x_def y_def)
  have sep: "strstr_at (x @ '';text='' @ y) '';text='' = Some l"
    using strstr_first [of "'';text=''" x y] assms(5) len(1) by (simp add: x_def)
  have lt: "localized_text (loc, l, body, n) = ''locale='' @ x @ '';text='' @ y"
    by (simp add: localized_text_def x_def y_def)
  have room: "length x < length storage" "length y < length (drop (l + 1) storage)"
    using assms(6) len by simp_all
  let ?b = "x @ NUL # (y @ NUL # drop (n + 1) (drop (l + 1) storage))"
  have first: "(if l \<noteq> 0 then memcpy_at 0 x storage else storage)[l := NUL] = x @ NUL # drop (l + 1) storage"
    using memcpy_terminated [OF room(1)] len(1) by auto
  have second: "(if n \<noteq> 0 then memcpy_at (l + 1) y (x @ NUL # drop (l + 1) storage) else x @ NUL # drop (l + 1) storage)[l + 1 + n := NUL] = ?b"
  proof -
    have "(x @ NUL # memcpy_at 0 y (drop (l + 1) storage))[l + 1 + n := NUL] = ?b"
      using memcpy_terminated [OF room(2)] len by (simp add: list_update_append)
    moreover have "memcpy_at (l + 1) y (x @ NUL # drop (l + 1) storage) = x @ NUL # memcpy_at 0 y (drop (l + 1) storage)"
      using len by (simp add: memcpy_at_def)
    ultimately show ?thesis using len by auto
  qed
  define w where "w = x @ '';text='' @ y"
  define t where "t = ''locale='' @ w"
  have pieces: "take 7 t = ''locale=''" "drop 7 t = w" "drop (l + 6) w = y" "take l w = x"
    using len by (simp_all add: t_def w_def)
  have "cpkt_opcua_localized_text_parse (Some t) (Some storage) =
      (CPKT_OPCUA_OK, Some (0, l), Some (l + 1, n), l + 1 + n + 1, Some ?b)"
    unfolding cpkt_opcua_localized_text_parse_def Let_def
    using assms(6) sep [folded w_def] by (simp only: option.case pieces option.sel len first second) (simp add: too_small_def)
  then show ?thesis
    unfolding lt t_def w_def using len by (simp add: localized_agrees_def flip: x_def y_def)
qed


interpretation localized_codec: text_codec "\<lambda>(loc, l, body, n). cpkt_opcua_localized_text_print loc l body n"
    "\<lambda>(loc, l, body, n). counted loc l \<and> counted body n"
    "\<lambda>(loc, l, body, n). (loc \<noteq> None \<or> l = 0) \<and> (body \<noteq> None \<or> n = 0)" localized_text
    cpkt_opcua_localized_text_parse
    "\<lambda>(loc, l, body, n). NUL \<notin> set (name_octets loc l) \<and> NUL \<notin> set (name_octets body n) \<and> CHR '';'' \<notin> set (name_octets loc l)"
    "\<lambda>(loc, l, body, n). l + n + 2" localized_agrees
proof (unfold_locales, goal_cases)
  case (1 x buffer)
  then show ?case by (cases x) (simp add: localized_print_copies)
next
  case (2 x)
  then show ?case by (cases x) (auto simp: localized_text_def)
next
  case (3 x storage)
  then show ?case using parse_printed_localized by (cases x) auto
qed

section \<open>GUIDs\<close>

lemma guid_print_copies:
  "cpkt_opcua_guid_print g buffer =
     (if g \<noteq> None then cpkt_copy_c_string_to_buffer (Some (guid_text (the g))) buffer else (CPKT_OPCUA_ERR_ARG, Some 0, buffer))"
  by (auto simp: cpkt_opcua_guid_print_def split: option.splits)

text \<open>The GUID is kept in the caller's sixteen octets, which take the place of the storage.\<close>

interpretation guid_codec: text_codec cpkt_opcua_guid_print "\<lambda>g. g = None \<or> length (the g) = 16" "\<lambda>g. g \<noteq> None" "guid_text \<circ> the"
    "\<lambda>t storage. cpkt_opcua_guid_parse t (take 16 (the storage))" "\<lambda>g. True" "\<lambda>g. 16" "\<lambda>g y. g = Some y"
  by unfold_locales (auto simp: guid_print_copies cpkt_opcua_guid_parse_def guid_roundtrip)

section \<open>What the parser returns\<close>

lemma put_octet_length: "length (snd (put_octet required v ob)) = length (snd ob)"
  by (cases ob) (simp add: put_octet_def)

lemma decode_loop_step:
  assumes "t \<noteq> []"
  shows "\<exists>ob'. length (snd ob') = length (snd ob) \<and>
    (base64_decode_loop t required ob = (0, snd ob) \<or> base64_decode_loop t required ob = base64_decode_loop (drop 4 t) required ob')"
proof -
  have either: "(if c then a else base64_decode_loop u required x) = a \<or>
      (if c then a else base64_decode_loop u required x) = base64_decode_loop u required x" for c a u x
    by simp
  show ?thesis
    unfolding base64_decode_loop.simps [of t] Let_def if_not_P [OF assms]
    by (rule exI, rule conjI [rotated], rule either) (simp add: put_octet_length)
qed

lemma decode_loop_length:
  "base64_decode_loop t required ob = (r, b) \<Longrightarrow> length b = length (snd ob) \<and> (r = 0 \<or> r = 1)"
proof (induction "length t" arbitrary: t ob rule: less_induct)
  case less
  show ?case
  proof (cases "t = []")
    case True
    then show ?thesis using less.prems by (simp add: base64_decode_loop.simps)
  next
    case False
    then obtain ob' where ob': "length (snd ob') = length (snd ob)"
        "base64_decode_loop t required ob = (0, snd ob) \<or> base64_decode_loop t required ob = base64_decode_loop (drop 4 t) required ob'"
      using decode_loop_step by blast
    have "length (drop 4 t) < length t" using False by simp
    then show ?thesis
      using less.hyps [of "drop 4 t" ob'] less.prems ob' by auto
  qed
qed

lemma base64_decode_storage:
  assumes "cpkt_base64_decode t buffer = (r, required, buffer')"
  shows "map_option length buffer' = map_option length buffer" and "r \<in> {0, 1, 2}"
    and "r = 1 \<Longrightarrow> \<exists>n. required = Some n \<and> (n = 0 \<or> (\<exists>b. buffer' = Some b \<and> n \<le> length b))"
  using assms decode_loop_length [of t "base64_required t" "(0, case buffer of None \<Rightarrow> [] | Some b \<Rightarrow> b)"]
  by (auto simp: cpkt_base64_decode_def Let_def too_small_def split: if_splits prod.splits option.splits)

lemma copy_storage:
  assumes "cpkt_copy_c_string_to_buffer (Some v) buffer = (r, required, buffer')"
  shows "map_option length buffer' = map_option length buffer" and "r \<in> {CPKT_OPCUA_OK, CPKT_OPCUA_ERR_RANGE}"
    and "r = CPKT_OPCUA_OK \<Longrightarrow> buffer' \<noteq> None"
  using assms
  by (auto simp: cpkt_copy_c_string_to_buffer_def too_small_def clear_small_def Let_def split: if_splits option.splits)

lemma c_str_no_nul: "NUL \<notin> set (c_str b)"
  unfolding c_str_def using set_takeWhileD by fastforce

lemma parse_leading_limit: "parse_leading kw limit cursor = Some (n, rest) \<Longrightarrow> n \<le> limit"
  by (auto simp: parse_leading_def split: if_splits option.splits prod.splits)

lemma null_wf [simp]: "id_wf cpkt_opcua_node_id_null" "cpkt_valid_node_id cpkt_opcua_node_id_null"
  by (simp_all add: id_wf_def cpkt_opcua_node_id_null_def id_readable_def counted_def cpkt_valid_node_id_def)

definition parse_type :: "string option \<Rightarrow> cpkt_opcua_result \<Rightarrow> cpkt_opcua_node_id \<Rightarrow> string option \<Rightarrow> bool" where
  "parse_type buffer r n buffer' \<longleftrightarrow>
     map_option length buffer' = map_option length buffer \<and>
     (if r = CPKT_OPCUA_OK
      then id_wf n \<and> (cpkt_valid_node_id n \<or> identifier_type n = CPKT_OPCUA_NODE_ID_NUMERIC \<and> uint_max < numeric n)
      else r \<in> {CPKT_OPCUA_ERR_ARG, CPKT_OPCUA_ERR_RANGE} \<and> n = cpkt_opcua_node_id_null)"

lemma parse_value_string:
  assumes "ns \<le> ushrt_max" "take 2 cursor = ''s=''" "node_id_parse_value ns cursor buffer = (r, n, required, buffer')"
  shows "parse_type buffer r n buffer'"
proof -
  obtain c k b where copy: "cpkt_copy_c_string_to_buffer (Some (drop 2 cursor)) buffer = (c, k, b)"
    by (metis prod_cases3)
  note st = copy_storage [OF copy]
  show ?thesis
    using assms copy st
    by (auto simp: node_id_parse_value_def parse_type_def id_wf_def id_readable_def counted_def cpkt_valid_node_id_def
        cpkt_opcua_node_id_string_def cpkt_opcua_node_id_null_def c_str_no_nul split: if_splits option.splits)
qed

lemma parse_value_guid:
  assumes "ns \<le> ushrt_max" "take 2 cursor = ''g=''" "node_id_parse_value ns cursor buffer = (r, n, required, buffer')"
  shows "parse_type buffer r n buffer'"
proof -
  obtain ok g where g: "cpkt_parse_guid_text (Some (drop 2 cursor)) (replicate 16 NUL) = (ok, g)"
    by fastforce
  show ?thesis
    using assms g guid_parse_length [OF g]
    by (auto simp: node_id_parse_value_def parse_type_def id_wf_def id_readable_def counted_def cpkt_valid_node_id_def
        cpkt_opcua_node_id_guid_def cpkt_opcua_node_id_null_def split: if_splits)
qed

lemma parse_value_bytes:
  assumes "ns \<le> ushrt_max" "take 2 cursor = ''b=''" "node_id_parse_value ns cursor buffer = (r, n, required, buffer')"
  shows "parse_type buffer r n buffer'"
proof -
  obtain c k b where dec: "cpkt_base64_decode (drop 2 cursor) buffer = (c, k, b)"
    by (metis prod_cases3)
  note st = base64_decode_storage [OF dec]
  show ?thesis
    using assms dec st
    by (auto simp: node_id_parse_value_def parse_type_def id_wf_def id_readable_def counted_def cpkt_valid_node_id_def Let_def
        cpkt_opcua_node_id_byte_string_def cpkt_opcua_node_id_null_def split: if_splits option.splits)
qed

lemma parse_value_numeric:
  assumes "ns \<le> ushrt_max" "take 2 cursor = ''i=''" "node_id_parse_value ns cursor buffer = (r, n, required, buffer')"
  shows "parse_type buffer r n buffer'"
  using assms
  by (auto simp: node_id_parse_value_def parse_type_def id_wf_def id_readable_def counted_def cpkt_valid_node_id_def
      cpkt_opcua_node_id_numeric_def cpkt_opcua_node_id_null_def split: if_splits option.splits prod.splits)

lemma node_id_parse_typed:
  assumes "cpkt_opcua_node_id_parse text buffer = (r, n, required, buffer')"
  shows "parse_type buffer r n buffer'"
proof -
  have fail: "parse_type buffer CPKT_OPCUA_ERR_ARG cpkt_opcua_node_id_null buffer"
    by (simp add: parse_type_def)
  show ?thesis
  proof (cases "\<exists>t ns cursor. text = Some t \<and> parse_leading ''ns='' ushrt_max t = Some (ns, cursor)")
    case True
    then obtain t ns cursor where t: "text = Some t" "parse_leading ''ns='' ushrt_max t = Some (ns, cursor)" by blast
    have ns: "ns \<le> ushrt_max" by (rule parse_leading_limit [OF t(2)])
    have v: "node_id_parse_value ns cursor buffer = (r, n, required, buffer')"
      using assms t by (simp add: cpkt_opcua_node_id_parse_def)
    consider "take 2 cursor = ''i=''" | "take 2 cursor = ''s=''" | "take 2 cursor = ''g=''" | "take 2 cursor = ''b=''"
      | "take 2 cursor \<notin> {''i='', ''s='', ''g='', ''b=''}" by blast
    then show ?thesis
    proof cases
      case 5
      then show ?thesis using v fail by (auto simp: node_id_parse_value_def)
    qed (rule parse_value_numeric [OF ns _ v] parse_value_string [OF ns _ v] parse_value_guid [OF ns _ v]
        parse_value_bytes [OF ns _ v]; assumption)+
  next
    case False
    then show ?thesis
      using assms fail by (auto simp: cpkt_opcua_node_id_parse_def split: option.splits)
  qed
qed

section \<open>Equality of node ids is equality of their texts\<close>

lemma node_id_equal_sym: "cpkt_opcua_node_id_equal a b \<Longrightarrow> cpkt_opcua_node_id_equal b a"
  by (auto simp: cpkt_opcua_node_id_equal_def split: if_splits option.splits)

lemma node_id_equal_trans: "cpkt_opcua_node_id_equal a b \<Longrightarrow> cpkt_opcua_node_id_equal b c \<Longrightarrow> cpkt_opcua_node_id_equal a c"
  by (auto simp: cpkt_opcua_node_id_equal_def split: if_splits option.splits)

lemma node_id_equal_refl: "cpkt_valid_node_id a \<Longrightarrow> cpkt_opcua_node_id_equal a a"
  by (auto simp: cpkt_opcua_node_id_equal_def cpkt_valid_node_id_def split: if_splits option.splits)

lemma equal_same_text:
  assumes "cpkt_opcua_node_id_equal a b" "id_wf a" "id_wf b"
  shows "node_id_text a = node_id_text b"
  using assms
  by (auto simp: cpkt_opcua_node_id_equal_def node_id_text_def id_wf_def id_bytes_def split: if_splits option.splits)

text \<open>The id that the parser takes for the null id is told from it by its text.\<close>

lemma same_text_as_read:
  assumes "node_id_text a = node_id_text b" "cpkt_opcua_node_id_equal (as_read a) (as_read b)" "id_wf a" "cpkt_valid_node_id b"
  shows "id_zero a \<longleftrightarrow> id_zero b"
  using assms
  by (auto simp: as_read_def id_zero_def node_id_text_def ns_prefix_def cpkt_opcua_node_id_equal_def cpkt_opcua_node_id_null_def
      split: if_splits)

lemma same_text_equal:
  assumes "node_id_text a = node_id_text b" "id_wf a" "cpkt_valid_node_id a" "id_wf b" "cpkt_valid_node_id b"
  shows "cpkt_opcua_node_id_equal a b"
proof -
  let ?storage = "replicate (max (id_need a) (id_need b)) NUL"
  obtain y where y: "cpkt_opcua_node_id_parse (Some (node_id_text a)) (Some ?storage) = (CPKT_OPCUA_OK, y)" "id_agrees a y"
    using parse_printed_id [OF assms(2,3), of ?storage] by auto
  obtain z where z: "cpkt_opcua_node_id_parse (Some (node_id_text b)) (Some ?storage) = (CPKT_OPCUA_OK, z)" "id_agrees b z"
    using parse_printed_id [OF assms(4,5), of ?storage] by auto
  have "z = y" using y(1) z(1) assms(1) by simp
  then have "cpkt_opcua_node_id_equal (as_read a) (fst y)" "cpkt_opcua_node_id_equal (as_read b) (fst y)"
    using y(2) z(2) by (simp_all add: id_agrees_def)
  then have "cpkt_opcua_node_id_equal (as_read a) (as_read b)" by (blast intro: node_id_equal_sym node_id_equal_trans)
  with same_text_as_read [OF assms(1) this assms(2,5)] show ?thesis
    by (auto simp: as_read_def id_zero_def cpkt_opcua_node_id_equal_def split: if_splits)
qed

lemma same_print_same_text:
  assumes "id_wf a" "cpkt_valid_node_id a" "id_wf b" "cpkt_valid_node_id b"
    "\<forall>buffer. cpkt_opcua_node_id_print a buffer = cpkt_opcua_node_id_print b buffer"
  shows "node_id_text a = node_id_text b"
proof -
  let ?b = "replicate (length (node_id_text a) + 1) NUL"
  have "cpkt_opcua_node_id_print b None = (CPKT_OPCUA_ERR_RANGE, Some (length (node_id_text a) + 1), None)"
    using node_id_codec.size_query [OF assms(1,2)] assms(5) by simp
  then have len: "length (node_id_text b) = length (node_id_text a)"
    using node_id_codec.size_query [OF assms(3,4)] by simp
  have "node_id_text a @ [NUL] = node_id_text b @ [NUL]"
    using node_id_codec.print_room [OF assms(1,2), of ?b] node_id_codec.print_room [OF assms(3,4), of ?b] assms(5) len by simp
  then show ?thesis by simp
qed

section \<open>The fixed buffers are large enough\<close>

lemma dec_length: "n < 10 ^ k \<Longrightarrow> 0 < k \<Longrightarrow> length (dec n) \<le> k"
proof (induction n arbitrary: k rule: dec.induct)
  case (1 n)
  show ?case
  proof (cases "n < 10")
    case True
    then show ?thesis using "1.prems" by (subst dec.simps) simp
  next
    case False
    then obtain j where j: "k = Suc j" "0 < j" using "1.prems" by (cases k; cases "k - 1") auto
    then have "n div 10 < 10 ^ j" using "1.prems" by (simp add: less_mult_imp_div_less mult.commute)
    then show ?thesis using "1.IH" [OF False] j False by (subst dec.simps) simp
  qed
qed

text \<open>What \<open>sprintf\<close> writes into the printers' \<open>char prefix[64]\<close>, terminator included.\<close>

lemma prefix_fits:
  assumes "id_wf n" "cpkt_valid_node_id n"
  shows "length (ns_prefix (namespace_index n) kind) \<le> 10 + length kind"
    and "identifier_type n = CPKT_OPCUA_NODE_ID_NUMERIC \<Longrightarrow> length (node_id_text n) + 1 \<le> 64"
    and "identifier_type n = CPKT_OPCUA_NODE_ID_GUID \<Longrightarrow> length (node_id_text n) + 1 \<le> 64"
proof -
  have "length (dec (namespace_index n)) \<le> 5"
    using assms(1) by (intro dec_length) (simp_all add: id_wf_def)
  then show p: "length (ns_prefix (namespace_index n) kind) \<le> 10 + length kind" for kind
    by (simp add: ns_prefix_def)
  show "length (node_id_text n) + 1 \<le> 64" if "identifier_type n = CPKT_OPCUA_NODE_ID_NUMERIC"
  proof -
    have "length (dec (numeric n)) \<le> 10"
      using assms(2) that by (intro dec_length) (simp_all add: cpkt_valid_node_id_def)
    then show ?thesis using p [of "''i''"] that by (simp add: node_id_text_def)
  qed
  show "length (node_id_text n) + 1 \<le> 64" if "identifier_type n = CPKT_OPCUA_NODE_ID_GUID"
    using p [of "''g''"] that by (simp add: node_id_text_def)
qed

lemma expanded_prefix_fits:
  assumes "cpkt_valid_expanded_node_id e"
  shows "length (''svr='' @ dec (server_index e) @ '';'' @ ''nsu='') + 1 \<le> 64"
proof -
  have "length (dec (server_index e)) \<le> 10"
    using assms by (intro dec_length) (auto simp: cpkt_valid_expanded_node_id_def split: if_splits)
  then show ?thesis by simp
qed

section \<open>Properties\<close>

definition sensor_id :: cpkt_opcua_node_id where
  "sensor_id = cpkt_opcua_node_id_byte_string 2 (Some ''sensor-7'') 6"

lemma sensor_wf: "id_wf sensor_id" "cpkt_valid_node_id sensor_id" "\<not> id_zero sensor_id" "id_need sensor_id = 6"
  by (simp_all add: sensor_id_def cpkt_opcua_node_id_byte_string_def cpkt_opcua_node_id_null_def id_wf_def id_readable_def
      counted_def cpkt_valid_node_id_def id_zero_def id_need_def)

text \<open>
  C21: Asked without a buffer, the printer of a valid node id says how large the buffer must be; given one
  of that size it writes a C string that the parser reads back as an equal node id, with any storage that
  holds the identifier.  The numeric id 0 of namespace 0 is the one exception, the parser takes it for the
  null id.
\<close>

theorem node_id_roundtrip:
  assumes "id_wf n" "cpkt_valid_node_id n" "\<not> id_zero n" "id_need n \<le> length storage"
  shows "\<exists>size. cpkt_opcua_node_id_print n None = (CPKT_OPCUA_ERR_RANGE, Some size, None) \<and>
    (\<forall>b. length b = size \<longrightarrow> (\<exists>b' m s. cpkt_opcua_node_id_print n (Some b) = (CPKT_OPCUA_OK, Some size, Some b') \<and>
       cpkt_opcua_node_id_parse (Some (c_str b')) (Some storage) = (CPKT_OPCUA_OK, m, id_need n, s) \<and>
       cpkt_opcua_node_id_equal n m))"
  using node_id_codec.roundtrip [OF assms(1,2) TrueI assms(4)] assms(3) by (fastforce simp: id_agrees_def as_read_def)

theorem node_id_roundtrip_witness:
  "\<exists>size b' m s. cpkt_opcua_node_id_print sensor_id None = (CPKT_OPCUA_ERR_RANGE, Some size, None) \<and>
     cpkt_opcua_node_id_print sensor_id (Some (replicate size NUL)) = (CPKT_OPCUA_OK, Some size, Some b') \<and>
     cpkt_opcua_node_id_parse (Some (c_str b')) (Some ''storage'') = (CPKT_OPCUA_OK, m, 6, s) \<and>
     cpkt_opcua_node_id_equal sensor_id m"
proof -
  have "id_need sensor_id \<le> length ''storage''" by (simp add: sensor_wf)
  from node_id_roundtrip [OF sensor_wf(1-3) this] show ?thesis
    unfolding sensor_wf(4) by (metis length_replicate)
qed

text \<open>
  C35: Two valid node ids are equal for the facade exactly when they print alike into every buffer, the null
  id and the numeric id 0 of namespace 0 included, which print differently.
\<close>

theorem node_id_canonical:
  assumes "id_wf a" "cpkt_valid_node_id a" "id_wf b" "cpkt_valid_node_id b"
  shows "cpkt_opcua_node_id_equal a b \<longleftrightarrow>
    (\<forall>buffer. cpkt_opcua_node_id_print a buffer = cpkt_opcua_node_id_print b buffer)"
proof -
  have "cpkt_opcua_node_id_print a buffer = cpkt_opcua_node_id_print b buffer" if "cpkt_opcua_node_id_equal a b" for buffer
    using equal_same_text [OF that assms(1,3)] assms by (simp add: node_id_codec.print_copies)
  moreover have "cpkt_opcua_node_id_equal a b"
    if "\<forall>buffer. cpkt_opcua_node_id_print a buffer = cpkt_opcua_node_id_print b buffer"
    using same_text_equal [OF same_print_same_text [OF assms that] assms] .
  ultimately show ?thesis by blast
qed

theorem node_id_canonical_witness:
  "(\<forall>buffer. cpkt_opcua_node_id_print sensor_id buffer =
      cpkt_opcua_node_id_print (cpkt_opcua_node_id_byte_string 2 (Some ''sensor'') 6) buffer) \<and>
   (\<exists>buffer. cpkt_opcua_node_id_print cpkt_opcua_node_id_null buffer \<noteq>
      cpkt_opcua_node_id_print (cpkt_opcua_node_id_numeric 0 0) buffer)"
proof -
  let ?b = "cpkt_opcua_node_id_byte_string 2 (Some ''sensor'') 6" and ?z = "cpkt_opcua_node_id_numeric 0 0"
  have b: "id_wf ?b" "cpkt_valid_node_id ?b" "id_wf cpkt_opcua_node_id_null" "cpkt_valid_node_id cpkt_opcua_node_id_null"
      "id_wf ?z" "cpkt_valid_node_id ?z"
    by (simp_all add: cpkt_opcua_node_id_byte_string_def cpkt_opcua_node_id_numeric_def cpkt_opcua_node_id_null_def id_wf_def
        id_readable_def counted_def cpkt_valid_node_id_def)
  have "cpkt_opcua_node_id_equal sensor_id ?b" "\<not> cpkt_opcua_node_id_equal cpkt_opcua_node_id_null ?z"
    by (simp_all add: cpkt_opcua_node_id_equal_def sensor_id_def cpkt_opcua_node_id_byte_string_def
        cpkt_opcua_node_id_numeric_def cpkt_opcua_node_id_null_def)
  then show ?thesis
    using node_id_canonical [OF sensor_wf(1,2) b(1,2)] node_id_canonical [OF b(3-6)] by blast
qed

text \<open>
  C34: Whatever the text, parsing a node id returns OK, an argument error or a range error, leaves the size
  of the storage alone and, except with OK, leaves the null id.  With OK the id is well formed: the
  namespace index fits 16 bits, strings are terminated, the octets of a byte string lie in the storage; and
  the facade accepts it, unless it is numeric and above the 32 bits that the facade accepts.
\<close>

theorem node_id_parse_types:
  assumes "cpkt_opcua_node_id_parse text buffer = (r, n, required, buffer')"
  shows "map_option length buffer' = map_option length buffer \<and>
    (if r = CPKT_OPCUA_OK
     then id_wf n \<and> (cpkt_valid_node_id n \<or> identifier_type n = CPKT_OPCUA_NODE_ID_NUMERIC \<and> uint_max < numeric n)
     else r \<in> {CPKT_OPCUA_ERR_ARG, CPKT_OPCUA_ERR_RANGE} \<and> n = cpkt_opcua_node_id_null)"
  using node_id_parse_typed [OF assms] unfolding parse_type_def .

theorem node_id_parse_types_witness:
  "\<exists>n. cpkt_opcua_node_id_parse (Some ''ns=1;i=4294967296'') None = (CPKT_OPCUA_OK, n, 0, None) \<and> id_wf n \<and>
     \<not> cpkt_valid_node_id n \<and> numeric n = 4294967296"
proof -
  have "cpkt_opcua_node_id_parse (Some ''ns=1;i=4294967296'') None = (CPKT_OPCUA_OK, cpkt_opcua_node_id_numeric 1 4294967296, 0, None)"
    by (simp add: cpkt_opcua_node_id_parse_def parse_leading_def cpkt_parse_unsigned_long_def node_id_parse_value_def
        digits_value_def is_digit_def size_max_def)
  from node_id_parse_types [OF this] this show ?thesis
    by (simp add: cpkt_valid_node_id_def cpkt_opcua_node_id_numeric_def)
qed


text \<open>
  C22: The text of a valid expanded node id, printed with the memory for its inner text, is read back as an
  equal one with the same server index and namespace URI, provided that the URI holds neither a semicolon
  nor a NUL and the storage has room for the URI, its terminator and the identifier.  As with node ids, an
  inner numeric id 0 of namespace 0 is read back as the null id.  Without memory printing fails and leaves
  the buffer alone.
\<close>

theorem expanded_node_id_roundtrip:
  assumes "expanded_wf e" "cpkt_valid_expanded_node_id e" "expanded_need e \<le> length storage"
    and "NUL \<notin> set (uri_bytes e)" "CHR '';'' \<notin> set (uri_bytes e)"
  shows "(\<exists>size. cpkt_opcua_expanded_node_id_print True e None = (CPKT_OPCUA_ERR_RANGE, Some size, None) \<and>
    (\<forall>b. length b = size \<longrightarrow> (\<exists>b' m s. cpkt_opcua_expanded_node_id_print True e (Some b) = (CPKT_OPCUA_OK, Some size, Some b') \<and>
       cpkt_opcua_expanded_node_id_parse (Some (c_str b')) (Some storage) = (CPKT_OPCUA_OK, m, expanded_need e, s) \<and>
       cpkt_opcua_expanded_node_id_equal (if id_zero (node_id e) then e\<lparr>node_id := cpkt_opcua_node_id_null\<rparr> else e) m))) \<and>
    (\<forall>buffer. cpkt_opcua_expanded_node_id_print False e buffer = (CPKT_OPCUA_ERR_ALLOC, Some 0, buffer))"
proof -
  have "e\<lparr>node_id := as_read (node_id e)\<rparr> = (if id_zero (node_id e) then e\<lparr>node_id := cpkt_opcua_node_id_null\<rparr> else e)"
    by (cases e) (simp add: as_read_def)
  moreover have "cpkt_opcua_expanded_node_id_print False e buffer = (CPKT_OPCUA_ERR_ALLOC, Some 0, buffer)" for buffer
    using assms(1,2) node_id_codec.size_query [of "node_id e"]
    by (auto simp: cpkt_opcua_expanded_node_id_print_def cpkt_valid_expanded_node_id_def expanded_wf_def split: if_splits)
  moreover have "expanded_good e" using assms(4,5) by (simp add: expanded_good_def)
  ultimately show ?thesis
    using expanded_codec.roundtrip [OF assms(1,2) _ assms(3)] by (fastforce simp: expanded_agrees_def)
qed

theorem expanded_node_id_roundtrip_witness:
  "\<exists>size b' m s.
     cpkt_opcua_expanded_node_id_print True (cpkt_opcua_expanded_node_id_server_uri 3 (Some ''urn:x'') 5 sensor_id) (Some (replicate size NUL)) =
       (CPKT_OPCUA_OK, Some size, Some b') \<and>
     cpkt_opcua_expanded_node_id_parse (Some (c_str b')) (Some ''some storage'') = (CPKT_OPCUA_OK, m, 12, s) \<and>
     cpkt_opcua_expanded_node_id_equal (cpkt_opcua_expanded_node_id_server_uri 3 (Some ''urn:x'') 5 sensor_id) m"
proof -
  let ?e = "cpkt_opcua_expanded_node_id_server_uri 3 (Some ''urn:x'') 5 sensor_id"
  have e: "expanded_wf ?e" "cpkt_valid_expanded_node_id ?e" "NUL \<notin> set (uri_bytes ?e)" "CHR '';'' \<notin> set (uri_bytes ?e)"
    and n: "expanded_need ?e = 12" and z: "\<not> id_zero (node_id ?e)"
    by (simp_all add: cpkt_opcua_expanded_node_id_server_uri_def cpkt_opcua_expanded_node_id_uri_def
        cpkt_opcua_expanded_node_id_local_def expanded_wf_def cpkt_valid_expanded_node_id_def expanded_need_def
        sensor_wf counted_def uri_bytes_def)
  have "expanded_need ?e \<le> length ''some storage''" by (simp add: n)
  from expanded_node_id_roundtrip [OF e(1,2) this e(3,4)] z obtain size where
    "\<forall>b. length b = size \<longrightarrow> (\<exists>b' m s. cpkt_opcua_expanded_node_id_print True ?e (Some b) = (CPKT_OPCUA_OK, Some size, Some b') \<and>
       cpkt_opcua_expanded_node_id_parse (Some (c_str b')) (Some ''some storage'') = (CPKT_OPCUA_OK, m, 12, s) \<and>
       cpkt_opcua_expanded_node_id_equal ?e m)"
    unfolding n if_not_P [OF z] by blast
  then show ?thesis by (metis length_replicate)
qed

lemma qualified_roundtrip:
  assumes "ns \<le> ushrt_max" "n \<le> length name" "NUL \<notin> set (take n name)" "n + 1 \<le> length storage"
  shows "\<exists>size. cpkt_opcua_qualified_name_print ns (Some name) n None = (CPKT_OPCUA_ERR_RANGE, Some size, None) \<and>
    (\<forall>b. length b = size \<longrightarrow> (\<exists>b' s. cpkt_opcua_qualified_name_print ns (Some name) n (Some b) = (CPKT_OPCUA_OK, Some size, Some b') \<and>
      cpkt_opcua_qualified_name_parse (Some (c_str b')) (Some storage) = (CPKT_OPCUA_OK, ns, n, n + 1, s) \<and>
      take n (the s) = take n name))"
  using qualified_codec.roundtrip [of "(ns, Some name, n)" storage] assms
  by (fastforce simp: counted_def qualified_agrees_def)

lemma localized_roundtrip:
  assumes "l \<le> length loc" "k \<le> length body" "NUL \<notin> set (take l loc)" "CHR '';'' \<notin> set (take l loc)" "NUL \<notin> set (take k body)"
    "l + k + 2 \<le> length storage"
  shows "\<exists>size. cpkt_opcua_localized_text_print (Some loc) l (Some body) k None = (CPKT_OPCUA_ERR_RANGE, Some size, None) \<and>
    (\<forall>b. length b = size \<longrightarrow> (\<exists>b' s. cpkt_opcua_localized_text_print (Some loc) l (Some body) k (Some b) =
        (CPKT_OPCUA_OK, Some size, Some b') \<and>
      cpkt_opcua_localized_text_parse (Some (c_str b')) (Some storage) =
        (CPKT_OPCUA_OK, Some (0, l), Some (l + 1, k), l + 1 + k + 1, s) \<and>
      take l (the s) = take l loc \<and> take k (drop (l + 1) (the s)) = take k body))"
proof -
  let ?x = "(Some loc, l, Some body, k)"
  let ?print = "cpkt_opcua_localized_text_print (Some loc) l (Some body) k"
  obtain z where z: "?print None = (CPKT_OPCUA_ERR_RANGE, Some z, None)"
      "\<forall>b. length b = z \<longrightarrow> (\<exists>b' y. ?print (Some b) = (CPKT_OPCUA_OK, Some z, Some b') \<and>
        cpkt_opcua_localized_text_parse (Some (c_str b')) (Some storage) = (CPKT_OPCUA_OK, y) \<and> localized_agrees ?x y)"
    using localized_codec.roundtrip [of ?x storage] assms by (auto simp: counted_def)
  have "y = (Some (0, l), Some (l + 1, k), l + 1 + k + 1, snd (snd (snd y))) \<and> take l (the (snd (snd (snd y)))) = take l loc \<and>
      take k (drop (l + 1) (the (snd (snd (snd y))))) = take k body" if "localized_agrees ?x y" for y
    using that by (cases y) (simp add: localized_agrees_def)
  with z show ?thesis by metis
qed

text \<open>
  C36: Qualified names and localized texts are read back as they were printed.  Asked without a buffer the
  printers say how large it must be, and from every buffer of that size the parsers give back the namespace
  index and the octets of the name, or the octets of the locale and of the text.  None of the three may
  hold a NUL, and the locale must hold no semicolon.
\<close>

theorem named_text_roundtrip:
  assumes "ns \<le> ushrt_max" "n \<le> length name" "NUL \<notin> set (take n name)" "n + 1 \<le> length storage"
    and "l \<le> length loc" "k \<le> length body" "NUL \<notin> set (take l loc)" "CHR '';'' \<notin> set (take l loc)" "NUL \<notin> set (take k body)"
      "l + k + 2 \<le> length storage"
  shows "(\<exists>size. cpkt_opcua_qualified_name_print ns (Some name) n None = (CPKT_OPCUA_ERR_RANGE, Some size, None) \<and>
    (\<forall>b. length b = size \<longrightarrow> (\<exists>b' s. cpkt_opcua_qualified_name_print ns (Some name) n (Some b) = (CPKT_OPCUA_OK, Some size, Some b') \<and>
      cpkt_opcua_qualified_name_parse (Some (c_str b')) (Some storage) = (CPKT_OPCUA_OK, ns, n, n + 1, s) \<and>
      take n (the s) = take n name))) \<and>
    (\<exists>size. cpkt_opcua_localized_text_print (Some loc) l (Some body) k None = (CPKT_OPCUA_ERR_RANGE, Some size, None) \<and>
    (\<forall>b. length b = size \<longrightarrow> (\<exists>b' s. cpkt_opcua_localized_text_print (Some loc) l (Some body) k (Some b) =
        (CPKT_OPCUA_OK, Some size, Some b') \<and>
      cpkt_opcua_localized_text_parse (Some (c_str b')) (Some storage) =
        (CPKT_OPCUA_OK, Some (0, l), Some (l + 1, k), l + 1 + k + 1, s) \<and>
      take l (the s) = take l loc \<and> take k (drop (l + 1) (the s)) = take k body)))"
  using qualified_roundtrip [OF assms(1-4)] localized_roundtrip [OF assms(5-10)] by (rule conjI)

theorem named_text_roundtrip_witness:
  "(\<exists>size b' s. cpkt_opcua_qualified_name_print 1 (Some ''flow'') 4 (Some (replicate size NUL)) = (CPKT_OPCUA_OK, Some size, Some b') \<and>
      cpkt_opcua_qualified_name_parse (Some (c_str b')) (Some ''storage here'') = (CPKT_OPCUA_OK, 1, 4, 5, s) \<and>
      take 4 (the s) = ''flow'') \<and>
   (\<exists>size b' s. cpkt_opcua_localized_text_print (Some ''en-GB'') 5 (Some ''flow'') 4 (Some (replicate size NUL)) =
        (CPKT_OPCUA_OK, Some size, Some b') \<and>
      cpkt_opcua_localized_text_parse (Some (c_str b')) (Some ''storage here'') =
        (CPKT_OPCUA_OK, Some (0, 5), Some (6, 4), 11, s) \<and>
      take 5 (the s) = ''en-GB'' \<and> take 4 (drop 6 (the s)) = ''flow'')"
proof -
  note r = named_text_roundtrip [of 1 4 "''flow''" "''storage here''" 5 "''en-GB''" 4 "''flow''"]
  from r show ?thesis
    by simp (metis length_replicate)
qed

end
