(* ===== verification/Opcua_Native.thy ===== *)
theory Opcua_Native
  imports Opcua_Ids
begin

text \<open>
  The conversions between the facade's types and those of the OPC UA library, from
  \<^verbatim>\<open>src/src/opcua_identifiers.c\<close>: 64-bit values in halves, GUIDs, node ids with the memory they own, and the
  copy of a library's node id into a caller's buffer.  The library's own functions are fields of \<open>ua_library\<close>.
\<close>

section \<open>Words of 64 bits\<close>

record cpkt_opcua_uint64 =
  u64_high32 :: nat
  u64_low32 :: nat

record cpkt_opcua_datetime =
  dt_high32 :: int
  dt_low32 :: nat

definition cpkt_valid_uint64_words :: "nat \<Rightarrow> nat \<Rightarrow> bool" where
  "cpkt_valid_uint64_words high32 low32 \<longleftrightarrow> high32 \<le> 4294967295 \<and> low32 \<le> 4294967295"

definition cpkt_valid_datetime_words :: "int \<Rightarrow> nat \<Rightarrow> bool" where
  "cpkt_valid_datetime_words high32 low32 \<longleftrightarrow>
     high32 \<ge> -2147483647 - 1 \<and> high32 \<le> 2147483647 \<and> low32 \<le> 4294967295"

text \<open>Unsigned shifts and casts keep the low 64 bits.\<close>

definition cpkt_make_uint64 :: "cpkt_opcua_uint64 \<Rightarrow> nat" where
  "cpkt_make_uint64 v = take_bit 64 (push_bit 32 (u64_high32 v)) OR take_bit 64 (u64_low32 v)"

definition cpkt_make_datetime :: "cpkt_opcua_datetime \<Rightarrow> int" where
  "cpkt_make_datetime v = dt_high32 v * (4294967295 + 1) + int (dt_low32 v)"

definition cpkt_uint64_from_native :: "nat \<Rightarrow> cpkt_opcua_uint64" where
  "cpkt_uint64_from_native v = \<lparr>u64_high32 = drop_bit 32 v, u64_low32 = v AND 4294967295\<rparr>"

definition cpkt_datetime_from_native :: "int \<Rightarrow> cpkt_opcua_datetime" where
  "cpkt_datetime_from_native v =
     (let bits = nat (v mod 2 ^ 64);
          high32 = drop_bit 32 bits
      in \<lparr>dt_high32 = (if high32 \<le> 2147483647 then int high32 else -1 - int (4294967295 - high32)),
          dt_low32 = bits AND 4294967295\<rparr>)"

definition cpkt_ulong_fits_uint32 :: "nat \<Rightarrow> bool" where
  "cpkt_ulong_fits_uint32 v \<longleftrightarrow> v \<le> uint_max"

definition cpkt_long_fits_int32 :: "int \<Rightarrow> bool" where
  "cpkt_long_fits_int32 v \<longleftrightarrow> v \<ge> -2147483648 \<and> v \<le> 2147483647"

lemma and_low32: "(n :: nat) AND 4294967295 = n mod 4294967296"
  using take_bit_eq_mask [of 32 n] by (simp add: take_bit_eq_mod mask_eq_exp_minus_1)

lemma make_uint64_sum:
  assumes "cpkt_valid_uint64_words h l"
  shows "cpkt_make_uint64 \<lparr>u64_high32 = h, u64_low32 = l\<rparr> = h * 2 ^ 32 + l"
proof -
  have hl: "h < 2 ^ 32" "l < 2 ^ 32" using assms by (simp_all add: cpkt_valid_uint64_words_def)
  then have "take_bit 64 (push_bit 32 h) = push_bit 32 h" "take_bit 64 l = l"
    by (simp_all add: take_bit_nat_eq_self push_bit_eq_mult)
  then show ?thesis
    using or_shifted [OF hl(2), of h] by (simp add: cpkt_make_uint64_def)
qed

lemma uint64_roundtrip:
  assumes "cpkt_valid_uint64_words h l"
  shows "cpkt_uint64_from_native (cpkt_make_uint64 \<lparr>u64_high32 = h, u64_low32 = l\<rparr>) = \<lparr>u64_high32 = h, u64_low32 = l\<rparr>"
  using assms
  by (simp add: make_uint64_sum cpkt_uint64_from_native_def and_low32 drop_bit_eq_div cpkt_valid_uint64_words_def)

lemma uint64_inverse:
  assumes "v < 2 ^ 64"
  shows "cpkt_valid_uint64_words (u64_high32 (cpkt_uint64_from_native v)) (u64_low32 (cpkt_uint64_from_native v))"
    and "cpkt_make_uint64 (cpkt_uint64_from_native v) = v"
proof -
  have hl: "v div 4294967296 < 4294967296" "v mod 4294967296 < 4294967296"
    using assms by (simp_all add: less_mult_imp_div_less)
  then show valid: "cpkt_valid_uint64_words (u64_high32 (cpkt_uint64_from_native v)) (u64_low32 (cpkt_uint64_from_native v))"
    by (simp add: cpkt_uint64_from_native_def cpkt_valid_uint64_words_def and_low32 drop_bit_eq_div less_Suc_eq_le [symmetric])
  show "cpkt_make_uint64 (cpkt_uint64_from_native v) = v"
    using make_uint64_sum [OF valid] by (simp add: cpkt_uint64_from_native_def and_low32 drop_bit_eq_div)
qed

text \<open>A signed value and its two halves.\<close>

lemma datetime_halves:
  fixes h :: int and l :: nat
  assumes "-2147483648 \<le> h" "h \<le> 2147483647" "l < 4294967296"
  shows "cpkt_datetime_from_native (h * 4294967296 + int l) = \<lparr>dt_high32 = h, dt_low32 = l\<rparr>"
proof -
  define hw where "hw = nat (h mod 4294967296)"
  have hw: "int hw = (if h < 0 then h + 4294967296 else h)"
    using assms mod_pos_pos_trivial [of "h + 4294967296" 4294967296] by (auto simp: hw_def)
  have "(h * 4294967296 + int l) mod 2 ^ 64 = int (hw * 4294967296 + l)"
  proof (cases "h < 0")
    case True
    have "(h * 4294967296 + int l) mod 2 ^ 64 = (h * 4294967296 + int l + 2 ^ 64) mod 2 ^ 64" by simp
    also have "\<dots> = h * 4294967296 + int l + 2 ^ 64"
      by (rule mod_pos_pos_trivial) (use assms True in simp_all)
    finally show ?thesis using hw True by simp
  next
    case False
    then show ?thesis using hw assms by (simp add: mod_pos_pos_trivial)
  qed
  then have bits: "nat ((h * 4294967296 + int l) mod 2 ^ 64) = hw * 4294967296 + l"
    by (metis nat_int)
  have "drop_bit 32 (hw * 4294967296 + l) = hw" "(hw * 4294967296 + l) AND 4294967295 = l"
    using assms(3) by (simp_all add: drop_bit_eq_div and_low32)
  then show ?thesis
    unfolding cpkt_datetime_from_native_def bits Let_def using hw assms by (auto simp: nat_le_iff split: if_splits)
qed

lemma datetime_roundtrip:
  assumes "cpkt_valid_datetime_words h l"
  shows "cpkt_datetime_from_native (cpkt_make_datetime \<lparr>dt_high32 = h, dt_low32 = l\<rparr>) = \<lparr>dt_high32 = h, dt_low32 = l\<rparr>"
    and "- (2 ^ 63) \<le> cpkt_make_datetime \<lparr>dt_high32 = h, dt_low32 = l\<rparr>"
    and "cpkt_make_datetime \<lparr>dt_high32 = h, dt_low32 = l\<rparr> < 2 ^ 63"
  using assms datetime_halves [of h l] by (simp_all add: cpkt_make_datetime_def cpkt_valid_datetime_words_def)

lemma datetime_inverse:
  assumes "- (2 ^ 63) \<le> v" "v < 2 ^ 63"
  shows "cpkt_make_datetime (cpkt_datetime_from_native v) = v"
    and "cpkt_valid_datetime_words (dt_high32 (cpkt_datetime_from_native v)) (dt_low32 (cpkt_datetime_from_native v))"
proof -
  define h where "h = v div 4294967296"
  define l where "l = nat (v mod 4294967296)"
  have l: "int l = v mod 4294967296" "l < 4294967296"
    by (simp_all add: l_def nat_less_iff)
  have v: "v = h * 4294967296 + int l"
    by (simp add: h_def l(1))
  have "-2147483648 \<le> h" "h \<le> 2147483647"
    using assms v l(2) by auto
  note halves = datetime_halves [OF this l(2)]
  show "cpkt_make_datetime (cpkt_datetime_from_native v) = v"
    using halves v by (simp add: cpkt_make_datetime_def)
  show "cpkt_valid_datetime_words (dt_high32 (cpkt_datetime_from_native v)) (dt_low32 (cpkt_datetime_from_native v))"
    using halves v l(2) \<open>-2147483648 \<le> h\<close> \<open>h \<le> 2147483647\<close> by (simp add: cpkt_valid_datetime_words_def)
qed

section \<open>GUIDs of the library\<close>

record UA_Guid =
  data1 :: nat
  data2 :: nat
  data3 :: nat
  data4 :: string

definition cpkt_make_guid :: "string \<Rightarrow> UA_Guid" where
  "cpkt_make_guid g =
     \<lparr>data1 = push_bit 24 (of_char (g ! 0)) OR push_bit 16 (of_char (g ! 1)) OR push_bit 8 (of_char (g ! 2)) OR of_char (g ! 3),
      data2 = take_bit 16 (push_bit 8 (of_char (g ! 4)) OR of_char (g ! 5)),
      data3 = take_bit 16 (push_bit 8 (of_char (g ! 6)) OR of_char (g ! 7)),
      data4 = take 8 (drop 8 g)\<rparr>"

definition octet_of :: "nat \<Rightarrow> char" where
  "octet_of n = char_of (n AND 255)"

definition cpkt_guid_from_native :: "UA_Guid \<Rightarrow> string" where
  "cpkt_guid_from_native u =
     [octet_of (drop_bit 24 (data1 u)), octet_of (drop_bit 16 (data1 u)), octet_of (drop_bit 8 (data1 u)), octet_of (data1 u),
      octet_of (drop_bit 8 (data2 u)), octet_of (data2 u), octet_of (drop_bit 8 (data3 u)), octet_of (data3 u)] @ take 8 (data4 u)"

lemma guid_word:
  assumes "a < 256" "b < 256" "c < 256" "(d :: nat) < 256"
  shows "push_bit 24 a OR push_bit 16 b OR push_bit 8 c OR d = ((a * 256 + b) * 256 + c) * 256 + d"
proof -
  have "push_bit 16 b OR push_bit 8 c OR d = b * 65536 + c * 256 + d"
    by (rule group_value3) (use assms in simp_all)
  moreover have "push_bit 24 a OR (b * 65536 + c * 256 + d) = a * 2 ^ 24 + (b * 65536 + c * 256 + d)"
    using assms by (intro or_shifted) simp
  ultimately show ?thesis by (simp add: or.assoc)
qed

lemma guid_half:
  assumes "a < 256" "(b :: nat) < 256"
  shows "take_bit 16 (push_bit 8 a OR b) = a * 256 + b"
proof -
  have "push_bit 8 a OR b = a * 256 + b" using or_shifted [of b 8 a] assms by simp
  then show ?thesis using assms by (simp add: take_bit_eq_mod)
qed

lemma list16: "length (g :: 'a list) = 16 \<Longrightarrow>
  g = [g ! 0, g ! 1, g ! 2, g ! 3, g ! 4, g ! 5, g ! 6, g ! 7] @ drop 8 g"
  by (rule nth_equalityI) (auto simp: nth_append less_Suc_eq numeral_eq_Suc)

lemma octet_of_last: "(d :: nat) < 256 \<Longrightarrow> octet_of (n * 256 + d) = char_of d"
  by (simp add: octet_of_def and_255)

lemma shift_octet: "(d :: nat) < 256 \<Longrightarrow> drop_bit (Suc (Suc (Suc (Suc (Suc (Suc (Suc (Suc k)))))))) (n * 256 + d) = drop_bit k n"
  by (simp add: drop_bit_eq_div div_mult2_eq)

lemma native_guid_roundtrip:
  assumes "length g = 16"
  shows "cpkt_guid_from_native (cpkt_make_guid g) = g"
proof -
  have o: "(of_char c :: nat) < 256" for c by simp
  define w where "w = cpkt_make_guid g"
  have d: "data1 w = ((of_char (g ! 0) * 256 + of_char (g ! 1)) * 256 + of_char (g ! 2)) * 256 + of_char (g ! 3)"
      "data2 w = of_char (g ! 4) * 256 + of_char (g ! 5)" "data3 w = of_char (g ! 6) * 256 + of_char (g ! 7)" "data4 w = drop 8 g"
    using assms by (simp_all add: w_def cpkt_make_guid_def guid_word guid_half del: take_bit_or)
  have s: "drop_bit 8 (n * 256 + of_char c) = n" "drop_bit 16 (n * 256 + of_char c) = drop_bit 8 n"
      "drop_bit 24 (n * 256 + of_char c) = drop_bit 16 n" for n :: nat and c
    using shift_octet [OF o, of 0 n c] shift_octet [OF o, of 8 n c] shift_octet [OF o, of 16 n c] by (simp_all add: numeral_eq_Suc)
  have l: "octet_of (n * 256 + of_char c) = c" "octet_of (of_char c) = c" for n c
    using octet_of_last [OF o, of n c] octet_of_last [OF o, of 0 c] by simp_all
  have "cpkt_guid_from_native w = [g ! 0, g ! 1, g ! 2, g ! 3, g ! 4, g ! 5, g ! 6, g ! 7] @ drop 8 g"
    unfolding cpkt_guid_from_native_def d s l using assms by simp
  then show ?thesis using list16 [OF assms] by (simp add: w_def)
qed


section \<open>Native node ids\<close>

text \<open>
  The types of the OPC UA library that the conversions read and write; the union of a node id is the
  member that its type selects.
\<close>

datatype UA_NodeIdType =
  UA_NODEIDTYPE_NUMERIC | UA_NODEIDTYPE_STRING | UA_NODEIDTYPE_GUID | UA_NODEIDTYPE_BYTESTRING | UA_NODEIDTYPE_OTHER int

record UA_String =
  ua_length :: nat
  ua_data :: "string option"

record UA_NodeId =
  namespaceIndex :: nat
  identifierType :: UA_NodeIdType
  ua_numeric :: nat
  ua_string :: UA_String
  ua_guid :: UA_Guid
  ua_byteString :: UA_String

record UA_ExpandedNodeId =
  nodeId :: UA_NodeId
  namespaceUri :: UA_String
  serverIndex :: nat

text \<open>The functions of the library that the conversions call.\<close>

record ua_library =
  UA_NodeId_init :: UA_NodeId
  UA_STRING :: "string option \<Rightarrow> UA_String"
  UA_EXPANDEDNODEID_NODEID :: "UA_NodeId \<Rightarrow> UA_ExpandedNodeId"

definition cpkt_make_node_id :: "ua_library \<Rightarrow> cpkt_opcua_node_id \<Rightarrow> UA_NodeId" where
  "cpkt_make_node_id lib n =
     (let native = (UA_NodeId_init lib)\<lparr>namespaceIndex := take_bit 16 (namespace_index n)\<rparr> in
      if identifier_type n = CPKT_OPCUA_NODE_ID_NULL then native
      else if identifier_type n = CPKT_OPCUA_NODE_ID_NUMERIC then
        native\<lparr>identifierType := UA_NODEIDTYPE_NUMERIC, ua_numeric := take_bit 32 (numeric n)\<rparr>
      else if identifier_type n = CPKT_OPCUA_NODE_ID_STRING then
        native\<lparr>identifierType := UA_NODEIDTYPE_STRING, ua_string := UA_STRING lib (id_string n)\<rparr>
      else if identifier_type n = CPKT_OPCUA_NODE_ID_GUID then
        native\<lparr>identifierType := UA_NODEIDTYPE_GUID, ua_guid := cpkt_make_guid (id_guid n)\<rparr>
      else native\<lparr>identifierType := UA_NODEIDTYPE_BYTESTRING,
        ua_byteString := \<lparr>ua_length = byte_string_length n, ua_data = byte_string n\<rparr>\<rparr>)"

definition cpkt_make_expanded_node_id :: "ua_library \<Rightarrow> cpkt_opcua_expanded_node_id \<Rightarrow> UA_ExpandedNodeId" where
  "cpkt_make_expanded_node_id lib e =
     (let native = (UA_EXPANDEDNODEID_NODEID lib (cpkt_make_node_id lib (node_id e)))\<lparr>serverIndex := take_bit 32 (server_index e)\<rparr> in
      if namespace_uri e \<noteq> None \<or> namespace_uri_length e \<noteq> 0 then
        native\<lparr>namespaceUri := \<lparr>ua_length = namespace_uri_length e, ua_data = namespace_uri e\<rparr>\<rparr>
      else native)"

definition cpkt_make_borrowed_byte_string :: "string option \<Rightarrow> nat \<Rightarrow> UA_String" where
  "cpkt_make_borrowed_byte_string d n = \<lparr>ua_length = n, ua_data = d\<rparr>"

text \<open>Views are pairs of a pointer and a length; the flag says whether \<open>calloc\<close> succeeds.\<close>

definition cpkt_make_borrowed_byte_string_array ::
    "bool \<Rightarrow> (string option \<times> nat) list option \<Rightarrow> nat \<Rightarrow> cpkt_opcua_result \<times> UA_String list option" where
  "cpkt_make_borrowed_byte_string_array calloc_ok views view_count =
     (if view_count = 0 then (CPKT_OPCUA_OK, None)
      else case views of
          None \<Rightarrow> (CPKT_OPCUA_ERR_ARG, None)
        | Some vs \<Rightarrow>
            if \<not> calloc_ok then (CPKT_OPCUA_ERR_ALLOC, None)
            else if \<exists>(d, n) \<in> set (take view_count vs). d = None \<and> n \<noteq> 0 then (CPKT_OPCUA_ERR_ARG, None)
            else (CPKT_OPCUA_OK, Some (map (\<lambda>(d, n). cpkt_make_borrowed_byte_string d n) (take view_count vs))))"

definition ua_bytes :: "UA_String \<Rightarrow> string" where
  "ua_bytes s = take (ua_length s) (case ua_data s of None \<Rightarrow> [] | Some d \<Rightarrow> d)"

definition cpkt_copy_ua_byte_string_to_buffer ::
    "UA_String option \<Rightarrow> string option \<Rightarrow> cpkt_opcua_result \<times> nat option \<times> string option" where
  "cpkt_copy_ua_byte_string_to_buffer value buffer =
     (case value of
        None \<Rightarrow> (CPKT_OPCUA_ERR_ARG, None, buffer)
      | Some v \<Rightarrow>
          let required = ua_length v in
          if required = 0 then (CPKT_OPCUA_OK, Some required, buffer)
          else if too_small buffer required
          then (CPKT_OPCUA_ERR_RANGE, Some required, map_option (\<lambda>b. replicate (length b) NUL) buffer)
          else (CPKT_OPCUA_OK, Some required, map_option (memcpy_at 0 (ua_bytes v)) buffer))"

definition cpkt_copy_ua_string_to_buffer ::
    "UA_String option \<Rightarrow> string option \<Rightarrow> cpkt_opcua_result \<times> nat option \<times> string option" where
  "cpkt_copy_ua_string_to_buffer value buffer =
     (case value of
        None \<Rightarrow> (CPKT_OPCUA_ERR_ARG, None, buffer)
      | Some v \<Rightarrow>
          let required = ua_length v + 1 in
          if too_small buffer required then (CPKT_OPCUA_ERR_RANGE, Some required, clear_small buffer)
          else
            let b = the buffer;
                b = (if ua_length v \<noteq> 0 then memcpy_at 0 (ua_bytes v) b else b)
            in (CPKT_OPCUA_OK, Some required, Some (b[ua_length v := NUL])))"

record cpkt_owned_node_id_memory =
  own_string :: "string option"
  own_byte_string :: "string option"

definition no_owned :: cpkt_owned_node_id_memory where
  "no_owned = \<lparr>own_string = None, own_byte_string = None\<rparr>"

definition cpkt_native_node_id_to_facade ::
    "bool \<Rightarrow> UA_NodeId option \<Rightarrow> (cpkt_opcua_node_id \<times> cpkt_owned_node_id_memory) option" where
  "cpkt_native_node_id_to_facade malloc_ok native =
     (case native of
        None \<Rightarrow> None
      | Some u \<Rightarrow>
          if identifierType u = UA_NODEIDTYPE_NUMERIC \<and> namespaceIndex u = 0 \<and> ua_numeric u = 0
          then Some (cpkt_opcua_node_id_null, no_owned)
          else if identifierType u = UA_NODEIDTYPE_NUMERIC
          then Some (cpkt_opcua_node_id_numeric (namespaceIndex u) (ua_numeric u), no_owned)
          else if identifierType u = UA_NODEIDTYPE_STRING then
            (if \<not> malloc_ok then None
             else let owned = c_str (ua_bytes (ua_string u) @ [NUL]) in
               Some (cpkt_opcua_node_id_string (namespaceIndex u) (Some owned), no_owned\<lparr>own_string := Some owned\<rparr>))
          else if identifierType u = UA_NODEIDTYPE_GUID then
            Some (cpkt_opcua_node_id_null\<lparr>namespace_index := namespaceIndex u, identifier_type := CPKT_OPCUA_NODE_ID_GUID,
              id_guid := cpkt_guid_from_native (ua_guid u)\<rparr>, no_owned)
          else if identifierType u = UA_NODEIDTYPE_BYTESTRING then
            (if ua_length (ua_byteString u) \<noteq> 0 \<and> \<not> malloc_ok then None
             else
               let owned = (if ua_length (ua_byteString u) \<noteq> 0 then Some (ua_bytes (ua_byteString u)) else None) in
               Some (cpkt_opcua_node_id_byte_string (namespaceIndex u) owned (ua_length (ua_byteString u)),
                 no_owned\<lparr>own_byte_string := owned\<rparr>))
          else None)"

definition cpkt_owned_node_id_memory_clear :: "cpkt_owned_node_id_memory \<Rightarrow> cpkt_owned_node_id_memory" where
  "cpkt_owned_node_id_memory_clear owned = owned\<lparr>own_string := None, own_byte_string := None\<rparr>"

definition cpkt_copy_ua_string :: "bool \<Rightarrow> UA_String option \<Rightarrow> string option" where
  "cpkt_copy_ua_string malloc_ok value =
     (case value of None \<Rightarrow> None | Some v \<Rightarrow> if \<not> malloc_ok then None else Some (c_str (ua_bytes v @ [NUL])))"

definition cpkt_strdup_c89 :: "bool \<Rightarrow> string option \<Rightarrow> string option" where
  "cpkt_strdup_c89 malloc_ok value = (case value of None \<Rightarrow> None | Some v \<Rightarrow> if \<not> malloc_ok then None else Some v)"

definition cpkt_memdup_c89 :: "bool \<Rightarrow> string option \<Rightarrow> nat \<Rightarrow> string option" where
  "cpkt_memdup_c89 malloc_ok value n =
     (if value = None \<and> n \<noteq> 0 then None
      else if n = 0 then None
      else if \<not> malloc_ok then None
      else Some (take n (the value)))"

definition cpkt_copy_facade_node_id ::
    "bool \<Rightarrow> cpkt_opcua_node_id \<Rightarrow> cpkt_opcua_result \<times> (cpkt_opcua_node_id \<times> cpkt_owned_node_id_memory) option" where
  "cpkt_copy_facade_node_id malloc_ok n =
     (if \<not> cpkt_valid_node_id n then (CPKT_OPCUA_ERR_ARG, None)
      else if identifier_type n = CPKT_OPCUA_NODE_ID_STRING then
        (case cpkt_strdup_c89 malloc_ok (id_string n) of
           None \<Rightarrow> (CPKT_OPCUA_ERR_ALLOC, Some (n, no_owned))
         | Some s \<Rightarrow> (CPKT_OPCUA_OK, Some (n\<lparr>id_string := Some s\<rparr>, no_owned\<lparr>own_string := Some s\<rparr>)))
      else if identifier_type n = CPKT_OPCUA_NODE_ID_BYTE_STRING \<and> byte_string_length n \<noteq> 0 then
        (case cpkt_memdup_c89 malloc_ok (byte_string n) (byte_string_length n) of
           None \<Rightarrow> (CPKT_OPCUA_ERR_ALLOC, Some (n, no_owned))
         | Some d \<Rightarrow> (CPKT_OPCUA_OK, Some (n\<lparr>byte_string := Some d\<rparr>, no_owned\<lparr>own_byte_string := Some d\<rparr>)))
      else (CPKT_OPCUA_OK, Some (n, no_owned)))"

definition cpkt_copy_native_node_id_to_output ::
    "bool \<Rightarrow> UA_NodeId option \<Rightarrow> string option \<Rightarrow> cpkt_opcua_result \<times> cpkt_opcua_node_id \<times> nat \<times> string option" where
  "cpkt_copy_native_node_id_to_output malloc_ok native buffer =
     (case cpkt_native_node_id_to_facade malloc_ok native of
        None \<Rightarrow> (CPKT_OPCUA_ERR_ALLOC, cpkt_opcua_node_id_null, 0, buffer)
      | Some (n, owned) \<Rightarrow>
          if identifier_type n = CPKT_OPCUA_NODE_ID_STRING then
            let required = length (the (id_string n)) + 1 in
            if too_small buffer required then (CPKT_OPCUA_ERR_RANGE, cpkt_opcua_node_id_null, required, buffer)
            else
              let b = memcpy_at 0 (the (id_string n) @ [NUL]) (the buffer)
              in (CPKT_OPCUA_OK, n\<lparr>id_string := Some (c_str b)\<rparr>, required, Some b)
          else if identifier_type n = CPKT_OPCUA_NODE_ID_BYTE_STRING then
            let required = byte_string_length n in
            if required \<noteq> 0 \<and> too_small buffer required then (CPKT_OPCUA_ERR_RANGE, cpkt_opcua_node_id_null, required, buffer)
            else
              let b = (if required \<noteq> 0 then map_option (memcpy_at 0 (take required (the (byte_string n)))) buffer else buffer)
              in (CPKT_OPCUA_OK, n\<lparr>byte_string := b\<rparr>, required, b)
          else (CPKT_OPCUA_OK, n, 0, buffer))"

section \<open>From the facade to the library and back\<close>

text \<open>The documented results of the library's functions.\<close>

definition ua_library_ok :: "ua_library \<Rightarrow> bool" where
  "ua_library_ok lib \<longleftrightarrow> identifierType (UA_NodeId_init lib) = UA_NODEIDTYPE_NUMERIC \<and> ua_numeric (UA_NodeId_init lib) = 0 \<and>
     (\<forall>s. UA_STRING lib (Some s) = \<lparr>ua_length = length s, ua_data = Some s\<rparr>)"

lemma take_bit_small: "(n :: nat) \<le> 65535 \<Longrightarrow> take_bit 16 n = n" "(n :: nat) \<le> 4294967295 \<Longrightarrow> take_bit 32 n = n"
  by (simp_all add: take_bit_nat_eq_self)

lemma native_facade:
  assumes lib: "ua_library_ok lib" and wf: "id_wf n" and valid: "cpkt_valid_node_id n"
  shows "\<exists>m owned. cpkt_native_node_id_to_facade True (Some (cpkt_make_node_id lib n)) = Some (m, owned) \<and>
    identifier_type m = (if id_zero n then CPKT_OPCUA_NODE_ID_NULL else identifier_type n) \<and> id_wf m \<and> cpkt_valid_node_id m \<and>
    id_need m = id_need n \<and> cpkt_opcua_node_id_equal (as_read n) m"
proof -
  have ns: "namespace_index n \<le> ushrt_max" and g: "length (id_guid n) = 16" and r: "id_readable n"
    using wf by (simp_all add: id_wf_def)
  note defs = cpkt_make_node_id_def cpkt_native_node_id_to_facade_def take_bit_small(1) [OF ns] Let_def
  note wfd = id_wf_def id_readable_def counted_def cpkt_valid_node_id_def id_need_def cpkt_opcua_node_id_equal_def id_zero_def as_read_def
  consider (null) "identifier_type n = 0" | (num) "identifier_type n = 1" | (str) "identifier_type n = 2"
    | (guid) "identifier_type n = 3" | (bytes) "identifier_type n = 4"
    using valid by (auto simp: cpkt_valid_node_id_def split: if_splits)
  then show ?thesis
  proof cases
    case null
    then show ?thesis
      using valid lib ns by (auto simp: defs ua_library_ok_def wfd cpkt_opcua_node_id_null_def take_bit_small)
  next
    case num
    have "numeric n \<le> 4294967295" using valid num by (simp add: cpkt_valid_node_id_def)
    then show ?thesis
      using num ns by (auto simp: defs wfd cpkt_opcua_node_id_null_def cpkt_opcua_node_id_numeric_def take_bit_small)
  next
    case str
    then obtain s where s: "id_string n = Some s" "NUL \<notin> set s"
      using valid wf by (auto simp: cpkt_valid_node_id_def id_wf_def)
    have "c_str (ua_bytes (UA_STRING lib (Some s)) @ [NUL]) = s"
      using lib s(2) c_str_text [of s "[]"] by (simp add: ua_library_ok_def ua_bytes_def)
    then show ?thesis
      using str s ns by (simp add: defs wfd cpkt_opcua_node_id_null_def cpkt_opcua_node_id_string_def)
  next
    case guid
    then show ?thesis
      using g ns native_guid_roundtrip [OF g] by (simp add: defs wfd cpkt_opcua_node_id_null_def)
  next
    case bytes
    have len: "length (id_bytes n) = byte_string_length n"
      by (rule id_bytes_length [OF valid r bytes])
    have "ua_bytes \<lparr>ua_length = byte_string_length n, ua_data = byte_string n\<rparr> = id_bytes n"
      by (simp add: ua_bytes_def id_bytes_def)
    moreover have "byte_string n \<noteq> None" "take (byte_string_length n) (the (byte_string n)) = id_bytes n" if "byte_string_length n \<noteq> 0"
      using that valid bytes by (auto simp: cpkt_valid_node_id_def id_bytes_def)
    ultimately show ?thesis
      using bytes ns len
      by (cases "byte_string_length n = 0") (auto simp: defs wfd cpkt_opcua_node_id_null_def cpkt_opcua_node_id_byte_string_def)
  qed
qed

lemma output_room:
  assumes "cpkt_native_node_id_to_facade ok u = Some (m, owned)" "id_wf m" "cpkt_valid_node_id m" "id_need m \<le> length b"
  shows "\<exists>k b'. cpkt_copy_native_node_id_to_output ok u (Some b) = (CPKT_OPCUA_OK, k, id_need m, Some b') \<and>
    cpkt_opcua_node_id_equal m k \<and> length b' = length b"
proof -
  consider (str) s where "identifier_type m = 2" "id_string m = Some s" "NUL \<notin> set s" | (bytes) "identifier_type m = 4"
    | (other) "identifier_type m \<in> {0, 1, 3}"
    using assms(2,3) by (auto simp: cpkt_valid_node_id_def id_wf_def split: if_splits)
  then show ?thesis
  proof cases
    case str
    then show ?thesis
      using assms(1,4) c_str_memcpy [OF str(3), of b]
      by (simp add: cpkt_copy_native_node_id_to_output_def id_need_def too_small_def Let_def cpkt_opcua_node_id_equal_def)
  next
    case bytes
    have len: "length (id_bytes m) = byte_string_length m"
      using id_bytes_length [OF assms(3) _ bytes] assms(2) by (simp add: id_wf_def)
    have t: "byte_string m \<noteq> None" "take (byte_string_length m) (the (byte_string m)) = id_bytes m" if "byte_string_length m \<noteq> 0"
      using that assms(3) bytes by (auto simp: cpkt_valid_node_id_def id_bytes_def)
    have "take (byte_string_length m) (memcpy_at 0 (id_bytes m) b) = id_bytes m"
      using len by (simp add: memcpy_at_def)
    then show ?thesis
      using assms(1,4) bytes t len
      by (cases "byte_string_length m = 0")
        (auto simp: cpkt_copy_native_node_id_to_output_def id_need_def too_small_def Let_def cpkt_opcua_node_id_equal_def)
  next
    case other
    then show ?thesis
      using assms(1) by (auto simp: cpkt_copy_native_node_id_to_output_def id_need_def cpkt_opcua_node_id_equal_def)
  qed
qed

lemma output_small:
  assumes "cpkt_native_node_id_to_facade ok u = Some (m, owned)" "id_need m \<noteq> 0" "too_small buffer (id_need m)"
  shows "cpkt_copy_native_node_id_to_output ok u buffer = (CPKT_OPCUA_ERR_RANGE, cpkt_opcua_node_id_null, id_need m, buffer)"
  using assms by (auto simp: cpkt_copy_native_node_id_to_output_def id_need_def Let_def split: if_splits)

text \<open>An identifier that needs no room needs no buffer.\<close>

lemma output_none:
  assumes "cpkt_native_node_id_to_facade ok u = Some (m, owned)" "id_need m = 0" "cpkt_valid_node_id m"
  shows "\<exists>k. cpkt_copy_native_node_id_to_output ok u None = (CPKT_OPCUA_OK, k, 0, None) \<and> cpkt_opcua_node_id_equal m k"
  using assms by (auto simp: cpkt_copy_native_node_id_to_output_def id_need_def Let_def cpkt_opcua_node_id_equal_def
      cpkt_valid_node_id_def split: if_splits)

text \<open>Memory is asked for only when the identifier is kept outside the structure.\<close>

lemma facade_memory:
  assumes "ua_library_ok lib" "cpkt_valid_node_id n"
  shows "cpkt_native_node_id_to_facade False (Some (cpkt_make_node_id lib n)) =
    (if id_need n \<noteq> 0 then None else cpkt_native_node_id_to_facade True (Some (cpkt_make_node_id lib n)))"
  using assms
  by (auto simp: cpkt_native_node_id_to_facade_def cpkt_make_node_id_def id_need_def ua_library_ok_def cpkt_valid_node_id_def
      Let_def split: if_splits)

lemma copy_facade_equal:
  assumes "cpkt_valid_node_id n"
  shows "\<exists>m owned. cpkt_copy_facade_node_id True n = (CPKT_OPCUA_OK, Some (m, owned)) \<and> cpkt_opcua_node_id_equal n m"
  using assms
  by (auto simp: cpkt_copy_facade_node_id_def cpkt_strdup_c89_def cpkt_memdup_c89_def cpkt_valid_node_id_def
      cpkt_opcua_node_id_equal_def split: option.splits if_splits)

section \<open>Properties\<close>

text \<open>
  C24: The halves in which the facade carries 64-bit values are exact.  Splitting a joined date and time or
  unsigned value gives the halves back, joining stays within 64 bits, and joining is a bijection between
  valid halves and the values of the type.
\<close>

theorem wide_value_halves:
  assumes "cpkt_valid_datetime_words h l" "cpkt_valid_uint64_words h' l'"
  shows "cpkt_datetime_from_native (cpkt_make_datetime \<lparr>dt_high32 = h, dt_low32 = l\<rparr>) = \<lparr>dt_high32 = h, dt_low32 = l\<rparr> \<and>
    cpkt_uint64_from_native (cpkt_make_uint64 \<lparr>u64_high32 = h', u64_low32 = l'\<rparr>) = \<lparr>u64_high32 = h', u64_low32 = l'\<rparr> \<and>
    bij_betw cpkt_make_datetime {v. cpkt_valid_datetime_words (dt_high32 v) (dt_low32 v)} {- (2 ^ 63)..<2 ^ 63} \<and>
    bij_betw cpkt_make_uint64 {v. cpkt_valid_uint64_words (u64_high32 v) (u64_low32 v)} {..<2 ^ 64}"
proof (intro conjI datetime_roundtrip(1) [OF assms(1)] uint64_roundtrip [OF assms(2)])
  have d: "v = \<lparr>dt_high32 = dt_high32 v, dt_low32 = dt_low32 v\<rparr>" for v :: cpkt_opcua_datetime by simp
  have u: "v = \<lparr>u64_high32 = u64_high32 v, u64_low32 = u64_low32 v\<rparr>" for v :: cpkt_opcua_uint64 by simp
  show "bij_betw cpkt_make_datetime {v. cpkt_valid_datetime_words (dt_high32 v) (dt_low32 v)} {- (2 ^ 63)..<2 ^ 63}"
  proof (rule bij_betw_byWitness [where f' = cpkt_datetime_from_native])
    show "\<forall>v\<in>{v. cpkt_valid_datetime_words (dt_high32 v) (dt_low32 v)}. cpkt_datetime_from_native (cpkt_make_datetime v) = v"
      using datetime_roundtrip(1) d by (metis mem_Collect_eq)
    show "cpkt_make_datetime ` {v. cpkt_valid_datetime_words (dt_high32 v) (dt_low32 v)} \<subseteq> {- (2 ^ 63)..<2 ^ 63}"
      using datetime_roundtrip(2,3) d by (metis (no_types, lifting) atLeastLessThan_iff image_subsetI mem_Collect_eq)
  qed (use datetime_inverse in \<open>auto simp del: power_numeral\<close>)
  show "bij_betw cpkt_make_uint64 {v. cpkt_valid_uint64_words (u64_high32 v) (u64_low32 v)} {..<2 ^ 64}"
  proof (rule bij_betw_byWitness [where f' = cpkt_uint64_from_native])
    show "\<forall>v\<in>{v. cpkt_valid_uint64_words (u64_high32 v) (u64_low32 v)}. cpkt_uint64_from_native (cpkt_make_uint64 v) = v"
      using uint64_roundtrip u by (metis mem_Collect_eq)
    show "cpkt_make_uint64 ` {v. cpkt_valid_uint64_words (u64_high32 v) (u64_low32 v)} \<subseteq> {..<2 ^ 64}"
    proof
      fix x assume "x \<in> cpkt_make_uint64 ` {v. cpkt_valid_uint64_words (u64_high32 v) (u64_low32 v)}"
      then obtain v where v: "cpkt_valid_uint64_words (u64_high32 v) (u64_low32 v)" "x = cpkt_make_uint64 v" by blast
      then have "x = u64_high32 v * 2 ^ 32 + u64_low32 v" using make_uint64_sum [OF v(1)] u [of v] by metis
      then show "x \<in> {..<2 ^ 64}" using v(1) by (simp add: cpkt_valid_uint64_words_def)
    qed
  qed (use uint64_inverse in \<open>auto simp del: power_numeral\<close>)
qed

theorem wide_value_halves_witness:
  "cpkt_datetime_from_native (cpkt_make_datetime \<lparr>dt_high32 = -1, dt_low32 = 5\<rparr>) = \<lparr>dt_high32 = -1, dt_low32 = 5\<rparr> \<and>
   cpkt_uint64_from_native (cpkt_make_uint64 \<lparr>u64_high32 = 4294967295, u64_low32 = 1\<rparr>) = \<lparr>u64_high32 = 4294967295, u64_low32 = 1\<rparr>"
  using wide_value_halves [of "-1" 5 4294967295 1] by (simp add: cpkt_valid_datetime_words_def cpkt_valid_uint64_words_def)

text \<open>
  C23: A valid node id that is handed to the library and comes back from it is copied to the caller as an
  equal node id when the caller's buffer has room for the identifier, or when that needs none; without room
  the caller gets a range error, the size that is needed and the null id, and without memory for an
  identifier that is kept outside the structure an allocation error; in both cases the buffer is untouched.
  The numeric id 0 of namespace 0, which the library does not tell from its null id, comes back as the null
  id.
\<close>

theorem native_node_id_output:
  assumes "ua_library_ok lib" "id_wf n" "cpkt_valid_node_id n"
  shows "if \<not> malloc_ok \<and> id_need n \<noteq> 0
    then cpkt_copy_native_node_id_to_output malloc_ok (Some (cpkt_make_node_id lib n)) buffer =
      (CPKT_OPCUA_ERR_ALLOC, cpkt_opcua_node_id_null, 0, buffer)
    else if id_need n \<noteq> 0 \<and> (case buffer of None \<Rightarrow> True | Some b \<Rightarrow> length b < id_need n)
    then cpkt_copy_native_node_id_to_output malloc_ok (Some (cpkt_make_node_id lib n)) buffer =
      (CPKT_OPCUA_ERR_RANGE, cpkt_opcua_node_id_null, id_need n, buffer)
    else \<exists>m b'. cpkt_copy_native_node_id_to_output malloc_ok (Some (cpkt_make_node_id lib n)) buffer =
        (CPKT_OPCUA_OK, m, id_need n, b') \<and> map_option length b' = map_option length buffer \<and>
      cpkt_opcua_node_id_equal (if id_zero n then cpkt_opcua_node_id_null else n) m"
proof -
  obtain m owned where m: "cpkt_native_node_id_to_facade True (Some (cpkt_make_node_id lib n)) = Some (m, owned)" "id_wf m"
      "cpkt_valid_node_id m" "id_need m = id_need n" "cpkt_opcua_node_id_equal (as_read n) m"
    using native_facade [OF assms] by auto
  note mem = facade_memory [OF assms(1,3)]
  show ?thesis
  proof (cases "\<not> malloc_ok \<and> id_need n \<noteq> 0")
    case True
    then show ?thesis using mem by (simp add: cpkt_copy_native_node_id_to_output_def)
  next
    case False
    then have f: "cpkt_native_node_id_to_facade malloc_ok (Some (cpkt_make_node_id lib n)) = Some (m, owned)"
      using mem m(1) by (cases malloc_ok) auto
    show ?thesis
    proof (cases "id_need n \<noteq> 0 \<and> too_small buffer (id_need n)")
      case True
      then show ?thesis
        using False output_small [OF f, of buffer] m(4) by (auto simp: too_small_def split: option.splits)
    next
      case room: False
      have "\<exists>k b'. cpkt_copy_native_node_id_to_output malloc_ok (Some (cpkt_make_node_id lib n)) buffer = (CPKT_OPCUA_OK, k, id_need n, b') \<and>
          map_option length b' = map_option length buffer \<and> cpkt_opcua_node_id_equal m k"
      proof (cases buffer)
        case None
        then show ?thesis using room output_none [OF f _ m(3)] m(4) by (auto simp: too_small_def)
      next
        case (Some b)
        then have "id_need m \<le> length b" using room m(4) by (auto simp: too_small_def)
        from output_room [OF f m(2,3) this] show ?thesis using Some m(4) by auto
      qed
      then have "\<exists>k b'. cpkt_copy_native_node_id_to_output malloc_ok (Some (cpkt_make_node_id lib n)) buffer = (CPKT_OPCUA_OK, k, id_need n, b') \<and>
          map_option length b' = map_option length buffer \<and> cpkt_opcua_node_id_equal (if id_zero n then cpkt_opcua_node_id_null else n) k"
        using node_id_equal_trans [OF m(5) [unfolded as_read_def]] by blast
      then show ?thesis
        using False room by (auto simp: too_small_def split: option.splits)
    qed
  qed
qed

definition plain_library :: ua_library where
  "plain_library =
     \<lparr>UA_NodeId_init = \<lparr>namespaceIndex = 0, identifierType = UA_NODEIDTYPE_NUMERIC, ua_numeric = 0,
        ua_string = \<lparr>ua_length = 0, ua_data = None\<rparr>, ua_guid = \<lparr>data1 = 0, data2 = 0, data3 = 0, data4 = replicate 8 NUL\<rparr>,
        ua_byteString = \<lparr>ua_length = 0, ua_data = None\<rparr>\<rparr>,
      UA_STRING = (\<lambda>s. \<lparr>ua_length = (case s of None \<Rightarrow> 0 | Some t \<Rightarrow> length t), ua_data = s\<rparr>),
      UA_EXPANDEDNODEID_NODEID = (\<lambda>n. \<lparr>nodeId = n, namespaceUri = \<lparr>ua_length = 0, ua_data = None\<rparr>, serverIndex = 0\<rparr>)\<rparr>"

theorem native_node_id_output_witness:
  "cpkt_copy_native_node_id_to_output True (Some (cpkt_make_node_id plain_library sensor_id)) (Some ''short'') =
     (CPKT_OPCUA_ERR_RANGE, cpkt_opcua_node_id_null, 6, Some ''short'') \<and>
   cpkt_copy_native_node_id_to_output False (Some (cpkt_make_node_id plain_library sensor_id)) (Some ''storage'') =
     (CPKT_OPCUA_ERR_ALLOC, cpkt_opcua_node_id_null, 0, Some ''storage'') \<and>
   (\<exists>m b'. cpkt_copy_native_node_id_to_output True (Some (cpkt_make_node_id plain_library sensor_id)) (Some ''storage'') =
      (CPKT_OPCUA_OK, m, 6, b') \<and> cpkt_opcua_node_id_equal sensor_id m)"
proof -
  have lib: "ua_library_ok plain_library" by (simp add: ua_library_ok_def plain_library_def)
  note out = native_node_id_output [OF lib sensor_wf(1,2)]
  show ?thesis
    using out [of True "Some ''short''"] out [of False "Some ''storage''"] out [of True "Some ''storage''"] sensor_wf(3,4) by auto
qed

end
