(* ===== verification/Postgres_Registry.thy ===== *)
theory Postgres_Registry
  imports Cpkt_Prelude "HOL-Library.Multiset"
begin

text \<open>
  The event registry of the PostgreSQL facade (\<^verbatim>\<open>src/src/postgres_events.c\<close>).  The library calls one
  dispatcher for all events of a connection; an owner keeps the application's registrations for the
  connection, and an entry for every result freezes them when the result is made.  Owners outlive their
  connection as long as they have entries.

  The C heap is modelled by the addresses that are allocated, so that a block freed twice, or used after it
  was freed, is a value (\<open>pg_fault\<close>).  Each operation is taken as one step;
  the registry's mutex does not appear.  A callback is called with what the source gives it and answers yes or no; calls that a
  callback makes into the registry itself are taken to come after the event, and the notice snapshots that
  \<^verbatim>\<open>postgres.c\<close> takes around a callback are left out.

  After the operations come the well-formed states \<open>pg_ok\<close> and \<open>pg_inv\<close>, and what the primitive changes to
  the two lists do to them.
\<close>

section \<open>Registrations, results and owners\<close>

text \<open>
  Addresses, connections, results of the library, callbacks and the application's pointers are numbers,
  with 0 for NULL.  Each structure carries its own address; a list linked through \<open>next\<close> is a list, and
  the structures that an owner or a result holds are nested in it.
\<close>

type_synonym addr = nat

datatype cpkt_postgres_event_id =
    CPKT_POSTGRES_EVENT_REGISTER | CPKT_POSTGRES_EVENT_CONNECTION_RESET | CPKT_POSTGRES_EVENT_CONNECTION_DESTROY
  | CPKT_POSTGRES_EVENT_RESULT_CREATE | CPKT_POSTGRES_EVENT_RESULT_COPY | CPKT_POSTGRES_EVENT_RESULT_DESTROY

record cpkt_postgres_event =
  ev_addr :: addr
  ev_callback :: nat
  ev_context :: nat
  ev_data :: nat
  ev_registered :: bool
  ev_owner :: addr

record cpkt_postgres_event_state =
  st_addr :: addr
  st_event :: addr
  st_data :: nat
  st_initialized :: bool

record cpkt_postgres_event_result =
  rs_addr :: addr
  rs_native :: nat
  rs_owner :: addr
  rs_states :: "cpkt_postgres_event_state list"
  rs_create_fired_count :: nat
  rs_last_create_complete :: bool
  rs_native_initialized :: bool

record cpkt_postgres_event_owner =
  ow_addr :: addr
  ow_native :: nat
  ow_events :: "cpkt_postgres_event list"
  ow_retired :: "cpkt_postgres_event list"
  ow_result_count :: nat
  ow_closed :: bool
  ow_native_registered :: bool

record cpkt_postgres_event_info =
  if_event :: addr
  if_connection :: nat
  if_result :: nat
  if_source :: nat
  if_destination :: nat

text \<open>
  The state: the two global lists, the addresses that are allocated, the next fresh address, the number of
  allocations asked for, the calls into the application with their answers, and whether freed memory has
  been used or freed again.
\<close>

record pg =
  pg_owners :: "cpkt_postgres_event_owner list"
  pg_results :: "cpkt_postgres_event_result list"
  pg_heap :: "addr list"
  pg_next :: addr
  pg_allocs :: nat
  pg_calls :: "((nat \<times> cpkt_postgres_event_id \<times> cpkt_postgres_event_info \<times> nat) \<times> bool) list"
  pg_fault :: bool

text \<open>
  What the environment decides: which allocations succeed, what the application's callbacks answer (given
  all earlier calls), whether the library accepts the dispatcher, and whether its
  \<open>PQfireResultCreateEvents\<close> reaches the dispatcher.
\<close>

record pg_world =
  alloc_ok :: "nat \<Rightarrow> bool"
  app :: "((nat \<times> cpkt_postgres_event_id \<times> cpkt_postgres_event_info \<times> nat) \<times> bool) list \<Rightarrow>
    nat \<times> cpkt_postgres_event_id \<times> cpkt_postgres_event_info \<times> nat \<Rightarrow> bool"
  pq_register :: "nat \<Rightarrow> bool"
  pq_fires :: "pg \<Rightarrow> nat \<Rightarrow> nat \<Rightarrow> addr option"

definition pg_init :: pg where
  "pg_init = \<lparr>pg_owners = [], pg_results = [], pg_heap = [], pg_next = 1, pg_allocs = 0, pg_calls = [], pg_fault = False\<rparr>"

definition cpkt_postgres_event_allocate :: "pg_world \<Rightarrow> pg \<Rightarrow> addr option \<times> pg" where
  "cpkt_postgres_event_allocate W s =
     (let s = s\<lparr>pg_allocs := pg_allocs s + 1\<rparr> in
      if alloc_ok W (pg_allocs s) then (Some (pg_next s), s\<lparr>pg_heap := pg_next s # pg_heap s, pg_next := pg_next s + 1\<rparr>)
      else (None, s))"

definition pg_free :: "addr \<Rightarrow> pg \<Rightarrow> pg" where
  "pg_free a s = (if a \<in> set (pg_heap s) then s\<lparr>pg_heap := remove1 a (pg_heap s)\<rparr> else s\<lparr>pg_fault := True\<rparr>)"

definition pg_free_all :: "addr list \<Rightarrow> pg \<Rightarrow> pg" where
  "pg_free_all = fold pg_free"

text \<open>Following a pointer, and storing through one.\<close>

definition owner_at :: "pg \<Rightarrow> addr \<Rightarrow> cpkt_postgres_event_owner option" where
  "owner_at s a = find (\<lambda>w. ow_addr w = a) (pg_owners s)"

definition event_at :: "pg \<Rightarrow> addr \<Rightarrow> cpkt_postgres_event option" where
  "event_at s a = find (\<lambda>e. ev_addr e = a) (concat (map (\<lambda>w. ow_events w @ ow_retired w) (pg_owners s)))"

definition upd_owner :: "addr \<Rightarrow> (cpkt_postgres_event_owner \<Rightarrow> cpkt_postgres_event_owner) \<Rightarrow> pg \<Rightarrow> pg" where
  "upd_owner a f s =
     (if owner_at s a = None then s\<lparr>pg_fault := True\<rparr>
      else s\<lparr>pg_owners := map (\<lambda>w. if ow_addr w = a then f w else w) (pg_owners s)\<rparr>)"

definition upd_result :: "addr \<Rightarrow> (cpkt_postgres_event_result \<Rightarrow> cpkt_postgres_event_result) \<Rightarrow> pg \<Rightarrow> pg" where
  "upd_result a f s = s\<lparr>pg_results := map (\<lambda>r. if rs_addr r = a then f r else r) (pg_results s)\<rparr>"

section \<open>Finding\<close>

definition cpkt_postgres_event_find_owner :: "pg \<Rightarrow> nat \<Rightarrow> cpkt_postgres_event_owner option" where
  "cpkt_postgres_event_find_owner s connection = find (\<lambda>w. ow_native w = connection \<and> \<not> ow_closed w) (pg_owners s)"

definition cpkt_postgres_event_find_result :: "pg \<Rightarrow> nat \<Rightarrow> cpkt_postgres_event_result option" where
  "cpkt_postgres_event_find_result s native = find (\<lambda>r. rs_native r = native) (pg_results s)"

definition cpkt_postgres_event_contains :: "cpkt_postgres_event_owner \<Rightarrow> addr \<Rightarrow> bool" where
  "cpkt_postgres_event_contains w e \<longleftrightarrow> e \<in> set (map ev_addr (ow_events w))"

definition cpkt_postgres_event_find_state :: "cpkt_postgres_event_result \<Rightarrow> addr \<Rightarrow> cpkt_postgres_event_state option" where
  "cpkt_postgres_event_find_state r e = find (\<lambda>t. st_event t = e) (rs_states r)"

section \<open>Disposal\<close>

text \<open>Claiming unlinks the owner; the claimed owner is returned to be freed.\<close>

definition cpkt_postgres_event_claim_disposal_locked :: "addr \<Rightarrow> pg \<Rightarrow> cpkt_postgres_event_owner option \<times> pg" where
  "cpkt_postgres_event_claim_disposal_locked a s =
     (case owner_at s a of
        None \<Rightarrow> (None, s\<lparr>pg_fault := True\<rparr>)
      | Some w \<Rightarrow>
          if \<not> ow_closed w \<or> ow_result_count w \<noteq> 0 then (None, s)
          else (Some w, s\<lparr>pg_owners := filter (\<lambda>x. ow_addr x \<noteq> a) (pg_owners s)\<rparr>))"

definition cpkt_postgres_event_dispose_owner :: "cpkt_postgres_event_owner \<Rightarrow> pg \<Rightarrow> pg" where
  "cpkt_postgres_event_dispose_owner w s =
     pg_free (ow_addr w) (pg_free_all (map ev_addr (ow_retired w)) (pg_free_all (map ev_addr (ow_events w)) s))"

definition claim_and_dispose :: "addr \<Rightarrow> pg \<Rightarrow> pg" where
  "claim_and_dispose a s =
     (case cpkt_postgres_event_claim_disposal_locked a s of
        (None, s) \<Rightarrow> s
      | (Some w, s) \<Rightarrow> cpkt_postgres_event_dispose_owner w s)"

section \<open>Result entries\<close>

fun make_states :: "pg_world \<Rightarrow> addr list \<Rightarrow> pg \<Rightarrow> cpkt_postgres_event_state list option \<times> pg" where
  "make_states W [] s = (Some [], s)"
| "make_states W (e # es) s =
     (case cpkt_postgres_event_allocate W s of
        (None, s) \<Rightarrow> (None, s)
      | (Some a, s) \<Rightarrow>
          (case make_states W es s of
             (None, s) \<Rightarrow> (None, pg_free a s)
           | (Some ts, s) \<Rightarrow> (Some (\<lparr>st_addr = a, st_event = e, st_data = 0, st_initialized = False\<rparr> # ts), s)))"

text \<open>The registrations that a new entry freezes.\<close>

definition frozen_events :: "cpkt_postgres_event_owner \<Rightarrow> cpkt_postgres_event_result option \<Rightarrow> addr list" where
  "frozen_events w source =
     (case source of
        None \<Rightarrow> map ev_addr (filter ev_registered (ow_events w))
      | Some r \<Rightarrow> map st_event (rs_states r))"

definition cpkt_postgres_event_make_result ::
    "pg_world \<Rightarrow> addr \<Rightarrow> nat \<Rightarrow> cpkt_postgres_event_result option \<Rightarrow> pg \<Rightarrow> cpkt_postgres_event_result option \<times> pg" where
  "cpkt_postgres_event_make_result W a native source s =
     (case owner_at s a of
        None \<Rightarrow> (None, s\<lparr>pg_fault := True\<rparr>)
      | Some w \<Rightarrow>
          (case cpkt_postgres_event_allocate W s of
             (None, s) \<Rightarrow> (None, s)
           | (Some ra, s) \<Rightarrow>
               (case make_states W (frozen_events w source) s of
                  (None, s) \<Rightarrow> (None, pg_free ra s)
                | (Some ts, s) \<Rightarrow>
                    let r = \<lparr>rs_addr = ra, rs_native = native, rs_owner = a, rs_states = ts, rs_create_fired_count = 0,
                             rs_last_create_complete = False, rs_native_initialized = False\<rparr>;
                        s = s\<lparr>pg_results := r # pg_results s\<rparr>
                    in (Some r, upd_owner a (\<lambda>w. w\<lparr>ow_result_count := (ow_result_count w + 1) mod 2 ^ 32\<rparr>) s))))"

section \<open>Dispatching\<close>

definition cpkt_postgres_event_call ::
    "pg_world \<Rightarrow> addr \<Rightarrow> cpkt_postgres_event_id \<Rightarrow> cpkt_postgres_event_info \<Rightarrow> pg \<Rightarrow> bool \<times> pg" where
  "cpkt_postgres_event_call W e i info s =
     (case event_at s e of
        None \<Rightarrow> (False, s\<lparr>pg_fault := True\<rparr>)
      | Some v \<Rightarrow>
          let call = (ev_callback v, i, info\<lparr>if_event := e\<rparr>, ev_context v); answer = app W (pg_calls s) call
          in (answer, s\<lparr>pg_calls := pg_calls s @ [(call, answer)]\<rparr>))"

abbreviation no_info :: cpkt_postgres_event_info where
  "no_info \<equiv> \<lparr>if_event = 0, if_connection = 0, if_result = 0, if_source = 0, if_destination = 0\<rparr>"

fun create_states ::
    "pg_world \<Rightarrow> cpkt_postgres_event_info \<Rightarrow> cpkt_postgres_event_state list \<Rightarrow> pg \<Rightarrow> bool \<times> cpkt_postgres_event_state list \<times> pg" where
  "create_states W info [] s = (True, [], s)"
| "create_states W info (t # ts) s =
     (let (ok, s) = (if st_initialized t then (True, s)
                     else cpkt_postgres_event_call W (st_event t) CPKT_POSTGRES_EVENT_RESULT_CREATE info s);
          (complete, ts, s) = create_states W info ts s
      in (ok \<and> complete, t\<lparr>st_initialized := ok\<rparr> # ts, s))"

definition cpkt_postgres_event_create :: "pg_world \<Rightarrow> cpkt_postgres_event_result \<Rightarrow> nat \<Rightarrow> pg \<Rightarrow> bool \<times> pg" where
  "cpkt_postgres_event_create W r connection s =
     (let (complete, ts, s) = create_states W (no_info\<lparr>if_connection := connection, if_result := rs_native r\<rparr>) (rs_states r) s
      in (complete, upd_result (rs_addr r) (\<lambda>r. r\<lparr>rs_states := ts\<rparr>) s))"

fun copy_states ::
    "pg_world \<Rightarrow> cpkt_postgres_event_info \<Rightarrow> cpkt_postgres_event_state list \<Rightarrow> cpkt_postgres_event_state list \<Rightarrow> pg \<Rightarrow>
     cpkt_postgres_event_state list \<times> pg" where
  "copy_states W info (t # ts) (u # us) s =
     (let (ok, s) = (if st_initialized u then cpkt_postgres_event_call W (st_event t) CPKT_POSTGRES_EVENT_RESULT_COPY info s
                     else (st_initialized t, s));
          (ts, s) = copy_states W info ts us s
      in (t\<lparr>st_initialized := ok \<or> st_initialized t\<rparr> # ts, s))"
| "copy_states W info ts us s = (ts, s)"

fun destroy_states :: "pg_world \<Rightarrow> cpkt_postgres_event_info \<Rightarrow> cpkt_postgres_event_state list \<Rightarrow> pg \<Rightarrow> pg" where
  "destroy_states W info [] s = s"
| "destroy_states W info (t # ts) s =
     destroy_states W info ts
       (if st_initialized t then snd (cpkt_postgres_event_call W (st_event t) CPKT_POSTGRES_EVENT_RESULT_DESTROY info s) else s)"

fun connection_events ::
    "pg_world \<Rightarrow> cpkt_postgres_event_id \<Rightarrow> cpkt_postgres_event_info \<Rightarrow> cpkt_postgres_event list \<Rightarrow> pg \<Rightarrow> pg" where
  "connection_events W i info [] s = s"
| "connection_events W i info (e # es) s =
     connection_events W i info es
       (if ev_registered e then snd (cpkt_postgres_event_call W (ev_addr e) i info s) else s)"

text \<open>Unlinking and freeing an entry, shared by the destroy event and \<open>cpkt_postgres_event_result_release\<close>.\<close>

definition drop_result :: "cpkt_postgres_event_result \<Rightarrow> addr \<Rightarrow> pg \<Rightarrow> pg" where
  "drop_result r a s =
     (let s = s\<lparr>pg_results := filter (\<lambda>x. rs_addr x \<noteq> rs_addr r) (pg_results s)\<rparr>;
          s = upd_owner a (\<lambda>w. w\<lparr>ow_result_count := (ow_result_count w + 2 ^ 32 - 1) mod 2 ^ 32\<rparr>) s;
          (claimed, s) = cpkt_postgres_event_claim_disposal_locked a s;
          s = pg_free (rs_addr r) (pg_free_all (map st_addr (rs_states r)) s)
      in case claimed of None \<Rightarrow> s | Some w \<Rightarrow> cpkt_postgres_event_dispose_owner w s)"

datatype pg_native_event =
    PGEVT_REGISTER | PGEVT_CONNRESET nat | PGEVT_CONNDESTROY nat | PGEVT_RESULTCREATE nat nat
  | PGEVT_RESULTCOPY nat nat | PGEVT_RESULTDESTROY nat | PGEVT_OTHER

definition dispatch_connection :: "pg_world \<Rightarrow> addr \<Rightarrow> cpkt_postgres_event_id \<Rightarrow> nat \<Rightarrow> pg \<Rightarrow> pg" where
  "dispatch_connection W a i connection s =
     (case owner_at s a of
        None \<Rightarrow> s\<lparr>pg_fault := True\<rparr>
      | Some w \<Rightarrow> connection_events W i (no_info\<lparr>if_connection := connection\<rparr>) (ow_events w) s)"

definition dispatch_create :: "pg_world \<Rightarrow> addr \<Rightarrow> nat \<Rightarrow> nat \<Rightarrow> pg \<Rightarrow> bool \<times> pg" where
  "dispatch_create W a connection native s =
     (let (r, s) = (case cpkt_postgres_event_find_result s native of
                      Some r \<Rightarrow> (Some r, s)
                    | None \<Rightarrow> cpkt_postgres_event_make_result W a native None s)
      in case r of
           None \<Rightarrow> (False, s)
         | Some r \<Rightarrow>
             let (complete, s) = cpkt_postgres_event_create W r connection s
             in (True, upd_result (rs_addr r)
                  (\<lambda>r. r\<lparr>rs_last_create_complete := complete, rs_create_fired_count := sz (rs_create_fired_count r + 1),
                        rs_native_initialized := True\<rparr>) s))"

definition dispatch_copy :: "pg_world \<Rightarrow> addr \<Rightarrow> nat \<Rightarrow> nat \<Rightarrow> pg \<Rightarrow> bool \<times> pg" where
  "dispatch_copy W a src dest s =
     (case cpkt_postgres_event_find_result s src of
        None \<Rightarrow> (False, s)
      | Some source \<Rightarrow>
          (case cpkt_postgres_event_make_result W a dest (Some source) s of
             (None, s) \<Rightarrow> (False, s)
           | (Some r, s) \<Rightarrow>
               let (ts, s) = copy_states W (no_info\<lparr>if_source := src, if_destination := dest\<rparr>) (rs_states r) (rs_states source) s
               in (True, upd_result (rs_addr r) (\<lambda>r. r\<lparr>rs_states := ts, rs_native_initialized := True\<rparr>) s)))"

definition dispatch_destroy :: "pg_world \<Rightarrow> addr \<Rightarrow> nat \<Rightarrow> pg \<Rightarrow> pg" where
  "dispatch_destroy W a native s =
     (case cpkt_postgres_event_find_result s native of
        None \<Rightarrow> s
      | Some r \<Rightarrow> drop_result r a (destroy_states W (no_info\<lparr>if_result := native\<rparr>) (rs_states r) s))"

text \<open>The dispatcher; \<open>a\<close> is the owner that was given to the library as the callback's context.\<close>

definition cpkt_postgres_native_event :: "pg_world \<Rightarrow> pg_native_event \<Rightarrow> addr \<Rightarrow> pg \<Rightarrow> bool \<times> pg" where
  "cpkt_postgres_native_event W ev a s =
     (case ev of
        PGEVT_REGISTER \<Rightarrow> (True, s)
      | PGEVT_CONNRESET connection \<Rightarrow> (True, dispatch_connection W a CPKT_POSTGRES_EVENT_CONNECTION_RESET connection s)
      | PGEVT_CONNDESTROY connection \<Rightarrow>
          let s = dispatch_connection W a CPKT_POSTGRES_EVENT_CONNECTION_DESTROY connection s;
              s = upd_owner a (\<lambda>w. w\<lparr>ow_closed := True, ow_native := 0\<rparr>) s
          in (True, claim_and_dispose a s)
      | PGEVT_RESULTCREATE connection native \<Rightarrow> dispatch_create W a connection native s
      | PGEVT_RESULTCOPY src dest \<Rightarrow> dispatch_copy W a src dest s
      | PGEVT_RESULTDESTROY native \<Rightarrow> (True, dispatch_destroy W a native s)
      | PGEVT_OTHER \<Rightarrow> (True, s))"

section \<open>Registering\<close>

definition unlink_owner :: "addr \<Rightarrow> pg \<Rightarrow> pg" where
  "unlink_owner a s = pg_free a (s\<lparr>pg_owners := filter (\<lambda>w. ow_addr w \<noteq> a) (pg_owners s)\<rparr>)"

text \<open>Give the owner back when nothing was ever registered with it.\<close>

definition drop_unused_owner :: "addr \<Rightarrow> pg \<Rightarrow> pg" where
  "drop_unused_owner a s =
     (case owner_at s a of
        None \<Rightarrow> s\<lparr>pg_fault := True\<rparr>
      | Some w \<Rightarrow> if ow_events w = [] \<and> \<not> ow_native_registered w then unlink_owner a s else s)"

definition registration_failed :: "addr \<Rightarrow> addr \<Rightarrow> pg \<Rightarrow> pg" where
  "registration_failed a ea s =
     (case owner_at s a of
        None \<Rightarrow> s\<lparr>pg_fault := True\<rparr>
      | Some w \<Rightarrow>
          let rest = filter (\<lambda>e. ev_addr e \<noteq> ea) (ow_events w); gone = filter (\<lambda>e. ev_addr e = ea) (ow_events w);
              s = (if ow_native_registered w then upd_owner a (\<lambda>w. w\<lparr>ow_events := rest, ow_retired := gone @ ow_retired w\<rparr>) s
                   else pg_free ea (upd_owner a (\<lambda>w. w\<lparr>ow_events := rest\<rparr>) s))
          in drop_unused_owner a s)"

text \<open>The part behind the lookup of the owner at \<open>a\<close>.\<close>

definition register_with :: "pg_world \<Rightarrow> addr \<Rightarrow> nat \<Rightarrow> nat \<Rightarrow> nat \<Rightarrow> pg \<Rightarrow> addr option \<times> pg" where
  "register_with W a connection callback context s =
     (case cpkt_postgres_event_allocate W s of
        (None, s) \<Rightarrow> (None, drop_unused_owner a s)
      | (Some ea, s) \<Rightarrow>
          let e = \<lparr>ev_addr = ea, ev_callback = callback, ev_context = context, ev_data = 0, ev_registered = False, ev_owner = a\<rparr>;
              first = (case owner_at s a of None \<Rightarrow> True | Some w \<Rightarrow> \<not> ow_native_registered w);
              s = upd_owner a (\<lambda>w. w\<lparr>ow_events := ow_events w @ [e]\<rparr>) s
          in if first \<and> \<not> pq_register W (pg_allocs s) then (None, registration_failed a ea s)
             else
               let s = (if first then upd_owner a (\<lambda>w. w\<lparr>ow_native_registered := True\<rparr>) s else s);
                   (accepted, s) = cpkt_postgres_event_call W ea CPKT_POSTGRES_EVENT_REGISTER
                     (no_info\<lparr>if_event := ea, if_connection := connection\<rparr>) s
               in if accepted
                  then (Some ea, upd_owner a (\<lambda>w. w\<lparr>ow_events := map (\<lambda>e. if ev_addr e = ea then e\<lparr>ev_registered := True\<rparr> else e)
                         (ow_events w)\<rparr>) s)
                  else (None, registration_failed a ea s))"

definition cpkt_postgres_event_register ::
    "pg_world \<Rightarrow> nat \<Rightarrow> nat \<Rightarrow> string option \<Rightarrow> nat \<Rightarrow> pg \<Rightarrow> addr option \<times> pg" where
  "cpkt_postgres_event_register W connection callback name context s =
     (if connection = 0 \<or> callback = 0 \<or> name = None \<or> name = Some [] then (None, s)
      else
        case cpkt_postgres_event_find_owner s connection of
          Some w \<Rightarrow>
            if \<exists>e \<in> set (ow_events w). ev_callback e = callback then (None, s)
            else register_with W (ow_addr w) connection callback context s
        | None \<Rightarrow>
            (case cpkt_postgres_event_allocate W s of
               (None, s) \<Rightarrow> (None, s)
             | (Some a, s) \<Rightarrow>
                 let w = \<lparr>ow_addr = a, ow_native = connection, ow_events = [], ow_retired = [], ow_result_count = 0,
                          ow_closed = False, ow_native_registered = False\<rparr>
                 in register_with W a connection callback context (s\<lparr>pg_owners := w # pg_owners s\<rparr>)))"

section \<open>The application's data\<close>

definition cpkt_postgres_event_set_connection_data :: "nat \<Rightarrow> addr \<Rightarrow> nat \<Rightarrow> pg \<Rightarrow> bool \<times> pg" where
  "cpkt_postgres_event_set_connection_data connection e d s =
     (case cpkt_postgres_event_find_owner s connection of
        None \<Rightarrow> (False, s)
      | Some w \<Rightarrow>
          if cpkt_postgres_event_contains w e
          then (True, upd_owner (ow_addr w) (\<lambda>w. w\<lparr>ow_events := map (\<lambda>v. if ev_addr v = e then v\<lparr>ev_data := d\<rparr> else v) (ow_events w)\<rparr>) s)
          else (False, s))"

definition cpkt_postgres_event_connection_data :: "nat \<Rightarrow> addr \<Rightarrow> pg \<Rightarrow> nat" where
  "cpkt_postgres_event_connection_data connection e s =
     (case cpkt_postgres_event_find_owner s connection of
        None \<Rightarrow> 0
      | Some w \<Rightarrow> (case find (\<lambda>v. ev_addr v = e) (ow_events w) of None \<Rightarrow> 0 | Some v \<Rightarrow> ev_data v))"

text \<open>The first state of the event gets the data.\<close>

fun store_data :: "addr \<Rightarrow> nat \<Rightarrow> cpkt_postgres_event_state list \<Rightarrow> cpkt_postgres_event_state list" where
  "store_data e d [] = []"
| "store_data e d (t # ts) = (if st_event t = e then t\<lparr>st_data := d\<rparr> # ts else t # store_data e d ts)"

definition cpkt_postgres_event_set_result_data :: "nat \<Rightarrow> addr \<Rightarrow> nat \<Rightarrow> pg \<Rightarrow> bool \<times> pg" where
  "cpkt_postgres_event_set_result_data native e d s =
     (case cpkt_postgres_event_find_result s native of
        None \<Rightarrow> (False, s)
      | Some r \<Rightarrow>
          (case cpkt_postgres_event_find_state r e of
             None \<Rightarrow> (False, s)
           | Some t \<Rightarrow> (True, upd_result (rs_addr r) (\<lambda>r. r\<lparr>rs_states := store_data e d (rs_states r)\<rparr>) s)))"

definition cpkt_postgres_event_result_data :: "nat \<Rightarrow> addr \<Rightarrow> pg \<Rightarrow> nat" where
  "cpkt_postgres_event_result_data native e s =
     (case cpkt_postgres_event_find_result s native of
        None \<Rightarrow> 0
      | Some r \<Rightarrow> (case cpkt_postgres_event_find_state r e of None \<Rightarrow> 0 | Some t \<Rightarrow> st_data t))"

section \<open>Results of the facade\<close>

definition cpkt_postgres_event_fire_result_create :: "pg_world \<Rightarrow> nat \<Rightarrow> nat \<Rightarrow> pg \<Rightarrow> bool \<times> pg" where
  "cpkt_postgres_event_fire_result_create W connection native s =
     (let before = (case cpkt_postgres_event_find_result s native of None \<Rightarrow> 0 | Some r \<Rightarrow> rs_create_fired_count r);
          (ok, s) = (case pq_fires W s connection native of
                       None \<Rightarrow> (True, s)
                     | Some a \<Rightarrow> cpkt_postgres_native_event W (PGEVT_RESULTCREATE connection native) a s)
      in if \<not> ok then (False, s)
         else case cpkt_postgres_event_find_result s native of
             None \<Rightarrow> (True, s)
           | Some r \<Rightarrow>
               if rs_create_fired_count r \<noteq> before then (rs_last_create_complete r, s)
               else cpkt_postgres_event_create W r connection s)"

definition cpkt_postgres_event_prepare_result :: "pg_world \<Rightarrow> nat \<Rightarrow> nat \<Rightarrow> pg \<Rightarrow> bool \<times> pg" where
  "cpkt_postgres_event_prepare_result W connection native s =
     (if connection = 0 \<or> native = 0 then (True, s)
      else case (cpkt_postgres_event_find_owner s connection, cpkt_postgres_event_find_result s native) of
          (Some w, None) \<Rightarrow>
            let (r, s) = cpkt_postgres_event_make_result W (ow_addr w) native None s in (r \<noteq> None, s)
        | _ \<Rightarrow> (True, s))"

definition cpkt_postgres_event_prepare_notice :: "pg_world \<Rightarrow> nat \<Rightarrow> nat \<Rightarrow> pg \<Rightarrow> bool \<times> pg" where
  "cpkt_postgres_event_prepare_notice W connection native s = cpkt_postgres_event_prepare_result W connection native s"

definition cpkt_postgres_event_prepare_copy :: "pg_world \<Rightarrow> nat \<Rightarrow> nat \<Rightarrow> bool \<Rightarrow> pg \<Rightarrow> bool \<times> pg" where
  "cpkt_postgres_event_prepare_copy W source dest copy_events s =
     (if source = 0 \<or> dest = 0 \<or> \<not> copy_events then (True, s)
      else case (cpkt_postgres_event_find_result s source, cpkt_postgres_event_find_result s dest) of
          (Some src, None) \<Rightarrow>
            let (r, s) = cpkt_postgres_event_make_result W (rs_owner src) dest (Some src) s in (r \<noteq> None, s)
        | _ \<Rightarrow> (True, s))"

definition cpkt_postgres_event_result_release :: "nat \<Rightarrow> pg \<Rightarrow> pg" where
  "cpkt_postgres_event_result_release native s =
     (case cpkt_postgres_event_find_result s native of
        None \<Rightarrow> s
      | Some r \<Rightarrow> drop_result r (rs_owner r) s)"

definition cpkt_postgres_event_release_uninitialized :: "nat \<Rightarrow> pg \<Rightarrow> pg" where
  "cpkt_postgres_event_release_uninitialized native s =
     (let native_initialized = (case cpkt_postgres_event_find_result s native of None \<Rightarrow> False | Some r \<Rightarrow> rs_native_initialized r)
      in if \<not> native_initialized then cpkt_postgres_event_result_release native s else s)"

definition cpkt_postgres_event_release_notice :: "nat \<Rightarrow> pg \<Rightarrow> pg" where
  "cpkt_postgres_event_release_notice native s = cpkt_postgres_event_release_uninitialized native s"

section \<open>Well-formed states\<close>

definition owner_addrs :: "cpkt_postgres_event_owner \<Rightarrow> addr list" where
  "owner_addrs w = ow_addr w # map ev_addr (ow_events w @ ow_retired w)"

definition result_addrs :: "cpkt_postgres_event_result \<Rightarrow> addr list" where
  "result_addrs r = rs_addr r # map st_addr (rs_states r)"

definition all_addrs :: "cpkt_postgres_event_owner list \<Rightarrow> cpkt_postgres_event_result list \<Rightarrow> addr list" where
  "all_addrs ws rs = concat (map owner_addrs ws) @ concat (map result_addrs rs)"

definition results_of :: "cpkt_postgres_event_result list \<Rightarrow> addr \<Rightarrow> nat" where
  "results_of rs a = length (filter (\<lambda>r. rs_owner r = a) rs)"

text \<open>
  An entry belongs to a live owner, and its registrations, each there once, are held by that owner. Where
  the flag \<open>F\<close> is set, only an entry that the library has initialised has states that are.
\<close>

definition result_ok :: "bool \<Rightarrow> cpkt_postgres_event_owner list \<Rightarrow> cpkt_postgres_event_result \<Rightarrow> bool" where
  "result_ok F ws r \<longleftrightarrow> (\<exists>w \<in> set ws. ow_addr w = rs_owner r \<and>
       st_event ` set (rs_states r) \<subseteq> ev_addr ` set (ow_events w @ ow_retired w)) \<and>
     distinct (map st_event (rs_states r)) \<and>
     (F \<and> \<not> rs_native_initialized r \<longrightarrow> (\<forall>t \<in> set (rs_states r). \<not> st_initialized t))"

definition owner_ok :: "cpkt_postgres_event_result list \<Rightarrow> cpkt_postgres_event_owner \<Rightarrow> bool" where
  "owner_ok rs w \<longleftrightarrow> ow_result_count w = results_of rs (ow_addr w) \<and> (\<not> ow_closed w \<longrightarrow> ow_native w \<noteq> 0) \<and>
     (\<forall>e \<in> set (ow_events w @ ow_retired w). ev_owner e = ow_addr w) \<and>
     (ow_native_registered w \<or> ow_retired w = [] \<and> ow_result_count w = 0)"

text \<open>
  The allocated addresses are those of the structures and of the blocks \<open>X\<close> that a function in progress
  still holds; the counters count; no pointer dangles; nothing was used after it was freed.
\<close>

definition pg_ok :: "bool \<Rightarrow> addr list \<Rightarrow> pg \<Rightarrow> bool" where
  "pg_ok F X s \<longleftrightarrow>
     mset (pg_heap s) = mset (all_addrs (pg_owners s) (pg_results s)) + mset X \<and>
     distinct (pg_heap s) \<and> (\<forall>a \<in> set (pg_heap s). a < pg_next s) \<and>
     (\<forall>w \<in> set (pg_owners s). owner_ok (pg_results s) w) \<and> (\<forall>r \<in> set (pg_results s). result_ok F (pg_owners s) r) \<and>
     distinct (map rs_native (pg_results s)) \<and> distinct (map ow_native (filter (\<lambda>w. \<not> ow_closed w) (pg_owners s))) \<and>
     length (pg_results s) < 2 ^ 32 \<and> \<not> pg_fault s"

text \<open>
  Between calls nothing is held, an owner is known to the library, and a closed owner is kept only for its
  results.
\<close>

definition pg_inv :: "bool \<Rightarrow> pg \<Rightarrow> bool" where
  "pg_inv F s \<longleftrightarrow> pg_ok F [] s \<and>
     (\<forall>w \<in> set (pg_owners s). ow_native_registered w \<and> (ow_closed w \<longrightarrow> ow_result_count w \<noteq> 0))"

lemma pg_ok_distinct: "pg_ok F X s \<Longrightarrow> distinct (all_addrs (pg_owners s) (pg_results s) @ X)"
  unfolding pg_ok_def by (metis mset_append mset_eq_imp_distinct_iff)

lemma pg_ok_owner_distinct: "pg_ok F X s \<Longrightarrow> distinct (map ow_addr (pg_owners s))"
proof -
  have "distinct (concat (map owner_addrs ws)) \<Longrightarrow> distinct (map ow_addr ws)" for ws
    by (induction ws) (auto simp: owner_addrs_def)
  then show "pg_ok F X s \<Longrightarrow> ?thesis"
    using pg_ok_distinct [of F X s] by (auto simp: all_addrs_def)
qed

lemma pg_ok_result_distinct: "pg_ok F X s \<Longrightarrow> distinct (map rs_addr (pg_results s))"
proof -
  have "distinct (concat (map result_addrs rs)) \<Longrightarrow> distinct (map rs_addr rs)" for rs
    by (induction rs) (auto simp: result_addrs_def)
  then show "pg_ok F X s \<Longrightarrow> ?thesis"
    using pg_ok_distinct [of F X s] by (auto simp: all_addrs_def)
qed

lemma distinct_find: "distinct (map f xs) \<Longrightarrow> x \<in> set xs \<Longrightarrow> find (\<lambda>y. f y = f x) xs = Some x"
  by (induction xs) (auto dest: image_eqI)

lemma find_member: "find P xs = Some x \<Longrightarrow> x \<in> set xs \<and> P x"
  by (metis find_Some_iff nth_mem)

text \<open>A structure and what stands before and behind it in its list.\<close>

lemma distinct_split:
  assumes "distinct (map f xs)" "x \<in> set xs"
  obtains us vs where "xs = us @ x # vs" "f x \<notin> f ` set us" "f x \<notin> f ` set vs"
  using split_list [OF assms(2)] assms(1) by auto

lemma map_update_split:
  "f x \<notin> f ` set us \<Longrightarrow> f x \<notin> f ` set vs \<Longrightarrow>
   map (\<lambda>y. if f y = f x then g y else y) (us @ x # vs) = us @ g x # vs"
proof -
  have "f x \<notin> f ` set zs \<Longrightarrow> map (\<lambda>y. if f y = f x then g y else y) zs = zs" for zs
    by (induction zs) auto
  then show "f x \<notin> f ` set us \<Longrightarrow> f x \<notin> f ` set vs \<Longrightarrow> ?thesis"
    by simp
qed

lemma filter_split:
  "f x \<notin> f ` set us \<Longrightarrow> f x \<notin> f ` set vs \<Longrightarrow> filter (\<lambda>y. f y \<noteq> f x) (us @ x # vs) = us @ vs"
proof -
  have "f x \<notin> f ` set zs \<Longrightarrow> filter (\<lambda>y. f y \<noteq> f x) zs = zs" for zs
    by (induction zs) auto
  then show "f x \<notin> f ` set us \<Longrightarrow> f x \<notin> f ` set vs \<Longrightarrow> ?thesis"
    by simp
qed

lemma owner_at_split:
  assumes "pg_ok F X s" "owner_at s a = Some w"
  obtains us vs where "pg_owners s = us @ w # vs" "ow_addr w = a" "a \<notin> ow_addr ` set us" "a \<notin> ow_addr ` set vs"
    "\<forall>f. map (\<lambda>x. if ow_addr x = a then f x else x) (pg_owners s) = us @ f w # vs"
    "filter (\<lambda>x. ow_addr x \<noteq> a) (pg_owners s) = us @ vs"
proof -
  have w: "w \<in> set (pg_owners s)" "ow_addr w = a"
    using assms(2) find_member unfolding owner_at_def by fastforce+
  obtain us vs where u: "pg_owners s = us @ w # vs" "ow_addr w \<notin> ow_addr ` set us" "ow_addr w \<notin> ow_addr ` set vs"
    using distinct_split [OF pg_ok_owner_distinct [OF assms(1)] w(1)] .
  show ?thesis
  proof (rule that [of us vs])
    show "\<forall>f. map (\<lambda>x. if ow_addr x = a then f x else x) (pg_owners s) = us @ f w # vs"
      using map_update_split [OF u(2,3)] u(1) w(2) by simp
    show "filter (\<lambda>x. ow_addr x \<noteq> a) (pg_owners s) = us @ vs"
      using filter_split [OF u(2,3)] u(1) w(2) by simp
  qed (use u w in auto)
qed

lemma owner_distinct:
  assumes "pg_ok F X s" "owner_at s a = Some w"
  shows "distinct (owner_addrs w)"
proof -
  have "w \<in> set (pg_owners s)" using find_member [OF assms(2) [unfolded owner_at_def]] by simp
  moreover have "distinct (concat (map owner_addrs (pg_owners s)))"
    using pg_ok_distinct [OF assms(1)] by (simp add: all_addrs_def)
  ultimately show ?thesis by (simp add: distinct_concat_iff)
qed

lemma upd_owner_eq: "owner_at s a = Some w \<Longrightarrow>
  upd_owner a f s = s\<lparr>pg_owners := map (\<lambda>x. if ow_addr x = a then f x else x) (pg_owners s)\<rparr>"
  by (simp add: upd_owner_def)

lemma owner_at_member: "pg_ok F X s \<Longrightarrow> w \<in> set (pg_owners s) \<Longrightarrow> owner_at s (ow_addr w) = Some w"
  unfolding owner_at_def using distinct_find [OF pg_ok_owner_distinct] by blast

lemma find_owner_at:
  assumes "pg_ok F X s" "cpkt_postgres_event_find_owner s c = Some w"
  shows "owner_at s (ow_addr w) = Some w" "ow_native w = c" "\<not> ow_closed w"
proof -
  have w: "w \<in> set (pg_owners s)" "ow_native w = c \<and> \<not> ow_closed w"
    using find_member [OF assms(2) [unfolded cpkt_postgres_event_find_owner_def]] by simp_all
  then show "owner_at s (ow_addr w) = Some w" "ow_native w = c" "\<not> ow_closed w"
    using owner_at_member [OF assms(1) w(1)] by simp_all
qed

lemma find_result_member:
  "cpkt_postgres_event_find_result s n = Some r \<Longrightarrow> r \<in> set (pg_results s) \<and> rs_native r = n"
  unfolding cpkt_postgres_event_find_result_def using find_member by fastforce

lemma find_result_none: "cpkt_postgres_event_find_result s n = None \<Longrightarrow> n \<notin> rs_native ` set (pg_results s)"
  unfolding cpkt_postgres_event_find_result_def by (auto simp: find_None_iff)

lemma result_split:
  assumes "pg_ok F X s" "r \<in> set (pg_results s)"
  obtains us vs where "pg_results s = us @ r # vs"
    "\<forall>f. upd_result (rs_addr r) f s = s\<lparr>pg_results := us @ f r # vs\<rparr>"
    "filter (\<lambda>x. rs_addr x \<noteq> rs_addr r) (pg_results s) = us @ vs"
proof -
  obtain us vs where u: "pg_results s = us @ r # vs" "rs_addr r \<notin> rs_addr ` set us" "rs_addr r \<notin> rs_addr ` set vs"
    using distinct_split [OF pg_ok_result_distinct [OF assms(1)] assms(2)] .
  show ?thesis
    by (rule that [of us vs])
      (use u map_update_split [OF u(2,3)] filter_split [OF u(2,3)] in \<open>simp_all add: upd_result_def\<close>)
qed

section \<open>Memory\<close>

lemma allocate_ok:
  assumes "pg_ok F X s" "cpkt_postgres_event_allocate W s = (p, s')"
  shows "case p of None \<Rightarrow> pg_ok F X s' | Some a \<Rightarrow> pg_ok F (a # X) s'"
    and "pg_owners s' = pg_owners s" "pg_results s' = pg_results s" "pg_calls s' = pg_calls s"
proof -
  have "pg_next s \<notin> set (pg_heap s)" using assms(1) by (auto simp: pg_ok_def)
  then show "case p of None \<Rightarrow> pg_ok F X s' | Some a \<Rightarrow> pg_ok F (a # X) s'"
    using assms
    by (auto simp: cpkt_postgres_event_allocate_def pg_ok_def Let_def less_Suc_eq split: if_splits)
  show "pg_owners s' = pg_owners s" "pg_results s' = pg_results s" "pg_calls s' = pg_calls s"
    using assms(2) by (auto simp: cpkt_postgres_event_allocate_def Let_def split: if_splits)
qed

lemma free_lists [simp]:
  "pg_owners (pg_free a s) = pg_owners s" "pg_results (pg_free a s) = pg_results s" "pg_calls (pg_free a s) = pg_calls s"
  by (simp_all add: pg_free_def)

lemma free_ok: "pg_ok F (a # X) s \<Longrightarrow> pg_ok F X (pg_free a s)"
proof -
  assume ok: "pg_ok F (a # X) s"
  then have "a \<in># mset (pg_heap s)" unfolding pg_ok_def by (metis mset.simps(2) union_iff union_single_eq_member add_mset_add_single)
  then have a: "a \<in> set (pg_heap s)" by simp
  then show ?thesis
    using ok set_remove1_subset [of a "pg_heap s"] unfolding pg_ok_def pg_free_def by auto
qed

lemma free_all_lists [simp]:
  "pg_owners (pg_free_all xs s) = pg_owners s" "pg_results (pg_free_all xs s) = pg_results s"
  "pg_calls (pg_free_all xs s) = pg_calls s"
  unfolding pg_free_all_def by (induction xs arbitrary: s) simp_all

lemma free_all_ok: "pg_ok F (xs @ X) s \<Longrightarrow> pg_ok F X (pg_free_all xs s)"
  unfolding pg_free_all_def by (induction xs arbitrary: s) (simp_all add: free_ok)

lemma pg_ok_perm: "pg_ok F X s \<Longrightarrow> mset X = mset Y \<Longrightarrow> pg_ok F Y s"
  by (simp add: pg_ok_def)

lemma dispose_ok: "pg_ok F (owner_addrs w @ X) s \<Longrightarrow> pg_ok F X (cpkt_postgres_event_dispose_owner w s)"
  unfolding cpkt_postgres_event_dispose_owner_def
  by (rule free_ok, rule free_all_ok, rule free_all_ok, erule pg_ok_perm) (simp add: owner_addrs_def)

section \<open>Changing the lists\<close>

lemma pg_ok_calls [simp]: "pg_ok F X (s\<lparr>pg_calls := c\<rparr>) = pg_ok F X s"
  by (simp add: pg_ok_def)

lemma owner_at_calls [simp]: "owner_at (s\<lparr>pg_calls := c\<rparr>) a = owner_at s a"
  by (simp add: owner_at_def)

lemma upd_owner_results: "owner_at s a = Some w \<Longrightarrow>
  upd_owner a f (s\<lparr>pg_results := rs\<rparr>) =
    s\<lparr>pg_results := rs, pg_owners := map (\<lambda>x. if ow_addr x = a then f x else x) (pg_owners s)\<rparr>"
  by (simp add: upd_owner_def owner_at_def)

lemma result_ok_other:
  "result_ok F (us @ w # vs) r \<Longrightarrow> ow_addr w' = ow_addr w \<Longrightarrow>
   (rs_owner r = ow_addr w \<Longrightarrow> st_event ` set (rs_states r) \<subseteq> ev_addr ` set (ow_events w' @ ow_retired w')) \<Longrightarrow>
   result_ok F (us @ w' # vs) r"
  unfolding result_ok_def by (auto simp: image_subset_iff)

lemma replace_owner:
  assumes ok: "pg_ok F X s" and w: "owner_at s a = Some w" and "f w = w'" "ow_addr w' = a"
    and "mset (owner_addrs w') + mset Y = mset (owner_addrs w) + mset X" "owner_ok (pg_results s) w'"
    and "\<And>r. r \<in> set (pg_results s) \<Longrightarrow> rs_owner r = a \<Longrightarrow> st_event ` set (rs_states r) \<subseteq> ev_addr ` set (ow_events w' @ ow_retired w')"
    and "ow_closed w' \<or> \<not> ow_closed w \<and> ow_native w' = ow_native w"
  shows "pg_ok F Y (upd_owner a f s)"
proof -
  obtain us vs where o: "pg_owners s = us @ w # vs" "ow_addr w = a" "a \<notin> ow_addr ` set us" "a \<notin> ow_addr ` set vs"
      "\<forall>f. map (\<lambda>x. if ow_addr x = a then f x else x) (pg_owners s) = us @ f w # vs"
      "filter (\<lambda>x. ow_addr x \<noteq> a) (pg_owners s) = us @ vs"
    by (rule owner_at_split [OF ok w])
  have upd: "upd_owner a f s = s\<lparr>pg_owners := us @ w' # vs\<rparr>"
    using upd_owner_eq [OF w] o(5) [rule_format, of f] assms(3) by simp
  have "mset (all_addrs (us @ w' # vs) (pg_results s)) + mset Y = mset (all_addrs (us @ w # vs) (pg_results s)) + mset X"
    using assms(5) by (simp add: all_addrs_def ac_simps)
  moreover have "result_ok F (us @ w' # vs) r" if "r \<in> set (pg_results s)" for r
    using result_ok_other [of F us w vs r w'] ok that assms(4,7) o(1,2) by (auto simp: pg_ok_def)
  moreover have "distinct (map ow_native (filter (\<lambda>w. \<not> ow_closed w) (us @ w' # vs)))"
  proof -
    have "distinct (map ow_native (filter (\<lambda>w. \<not> ow_closed w) (us @ w # vs)))"
      using ok o(1) by (simp add: pg_ok_def)
    then show ?thesis using assms(8) by (cases "ow_closed w"; cases "ow_closed w'"; simp)
  qed
  ultimately show ?thesis
    using ok o(1) assms(6) unfolding upd pg_ok_def by (auto simp: ac_simps)
qed

lemma results_of_cons: "results_of (r # rs) a = (if rs_owner r = a then 1 else 0) + results_of rs a"
  by (simp add: results_of_def)

lemma results_of_append: "results_of (xs @ ys) a = results_of xs a + results_of ys a"
  by (simp add: results_of_def)

lemma results_of_le: "results_of rs a \<le> length rs"
  by (simp add: results_of_def)

lemma owner_ok_other:
  "owner_ok rs w \<Longrightarrow> results_of rs' (ow_addr w) = results_of rs (ow_addr w) \<Longrightarrow> owner_ok rs' w"
  by (auto simp: owner_ok_def)

lemma owner_ok_count:
  "owner_ok rs w \<Longrightarrow> ow_native_registered w \<Longrightarrow> c = results_of rs' (ow_addr w) \<Longrightarrow> owner_ok rs' (w\<lparr>ow_result_count := c\<rparr>)"
  by (simp add: owner_ok_def)

lemma link_result:
  assumes ok: "pg_ok F (ra # map st_addr ts @ X) s" and w: "owner_at s a = Some w" and "ow_native_registered w"
    and "n \<notin> rs_native ` set (pg_results s)" "length (pg_results s) + 1 < 2 ^ 32"
    and "st_event ` set ts \<subseteq> ev_addr ` set (ow_events w @ ow_retired w)" "\<forall>t \<in> set ts. \<not> st_initialized t"
      "distinct (map st_event ts)"
    and r: "r = \<lparr>rs_addr = ra, rs_native = n, rs_owner = a, rs_states = ts, rs_create_fired_count = 0,
      rs_last_create_complete = False, rs_native_initialized = False\<rparr>"
  shows "pg_ok F X (upd_owner a (\<lambda>w. w\<lparr>ow_result_count := (ow_result_count w + 1) mod 2 ^ 32\<rparr>) (s\<lparr>pg_results := r # pg_results s\<rparr>))"
proof -
  let ?f = "\<lambda>w. w\<lparr>ow_result_count := (ow_result_count w + 1) mod 2 ^ 32\<rparr>"
  obtain us vs where o: "pg_owners s = us @ w # vs" "ow_addr w = a" "a \<notin> ow_addr ` set us" "a \<notin> ow_addr ` set vs"
      "\<forall>f. map (\<lambda>x. if ow_addr x = a then f x else x) (pg_owners s) = us @ f w # vs"
      "filter (\<lambda>x. ow_addr x \<noteq> a) (pg_owners s) = us @ vs"
    by (rule owner_at_split [OF ok w])
  have upd: "upd_owner a ?f (s\<lparr>pg_results := r # pg_results s\<rparr>) = s\<lparr>pg_results := r # pg_results s, pg_owners := us @ ?f w # vs\<rparr>"
    by (simp only: upd_owner_results [OF w] o(5) [rule_format, of ?f])
  have cnt: "ow_result_count w = results_of (pg_results s) a"
    using ok o(1,2) by (auto simp: pg_ok_def owner_ok_def)
  then have "(ow_result_count w + 1) mod 2 ^ 32 = results_of (r # pg_results s) a"
    using assms(5) results_of_le [of "pg_results s" a] r by (simp add: results_of_cons)
  moreover have "owner_ok (pg_results s) w" using ok o(1) by (auto simp: pg_ok_def)
  ultimately have "owner_ok (r # pg_results s) (?f w)"
    using assms(3) o(2) by (simp add: owner_ok_def)
  moreover have "owner_ok (r # pg_results s) x" if "x \<in> set us \<union> set vs" for x
  proof (rule owner_ok_other)
    show "owner_ok (pg_results s) x" using ok o(1) that by (auto simp: pg_ok_def)
    show "results_of (r # pg_results s) (ow_addr x) = results_of (pg_results s) (ow_addr x)"
      using o(3,4) that r by (auto simp: results_of_cons)
  qed
  moreover have "result_ok F (us @ ?f w # vs) x" if "x \<in> set (r # pg_results s)" for x
  proof (cases "x = r")
    case True
    then show ?thesis using r o(2) assms(6-8) by (auto simp: result_ok_def)
  next
    case False
    then have "result_ok F (us @ w # vs) x" using ok o(1) that by (auto simp: pg_ok_def)
    then show ?thesis by (auto simp: result_ok_def)
  qed
  ultimately show ?thesis
    using ok o(1) assms(4,5) r unfolding upd pg_ok_def
    by (auto simp: all_addrs_def owner_addrs_def result_addrs_def)
qed

lemma unlink_result:
  assumes ok: "pg_ok F X s" and r: "r \<in> set (pg_results s)"
  shows "pg_ok F (result_addrs r @ X) (upd_owner (rs_owner r)
      (\<lambda>w. w\<lparr>ow_result_count := (ow_result_count w + 2 ^ 32 - 1) mod 2 ^ 32\<rparr>)
      (s\<lparr>pg_results := filter (\<lambda>x. rs_addr x \<noteq> rs_addr r) (pg_results s)\<rparr>))"
    and "\<exists>w. owner_at s (rs_owner r) = Some w"
proof -
  let ?f = "\<lambda>w. w\<lparr>ow_result_count := (ow_result_count w + 2 ^ 32 - 1) mod 2 ^ 32\<rparr>" and ?a = "rs_owner r"
  have "result_ok F (pg_owners s) r" using ok r by (auto simp: pg_ok_def)
  then obtain w0 where "w0 \<in> set (pg_owners s)" "ow_addr w0 = ?a"
    by (auto simp: result_ok_def)
  then obtain w where w: "owner_at s ?a = Some w"
    using owner_at_member [OF ok] by metis
  then show "\<exists>w. owner_at s ?a = Some w" by blast
  obtain us vs where o: "pg_owners s = us @ w # vs" "ow_addr w = ?a" "?a \<notin> ow_addr ` set us" "?a \<notin> ow_addr ` set vs"
      "\<forall>f. map (\<lambda>x. if ow_addr x = ?a then f x else x) (pg_owners s) = us @ f w # vs"
      "filter (\<lambda>x. ow_addr x \<noteq> ?a) (pg_owners s) = us @ vs"
    by (rule owner_at_split [OF ok w])
  obtain xs ys where q: "pg_results s = xs @ r # ys"
      "\<forall>f. upd_result (rs_addr r) f s = s\<lparr>pg_results := xs @ f r # ys\<rparr>"
      "filter (\<lambda>x. rs_addr x \<noteq> rs_addr r) (pg_results s) = xs @ ys"
    by (rule result_split [OF ok r])
  have upd: "upd_owner ?a ?f (s\<lparr>pg_results := xs @ ys\<rparr>) = s\<lparr>pg_results := xs @ ys, pg_owners := us @ ?f w # vs\<rparr>"
    by (simp only: upd_owner_results [OF w] o(5) [rule_format, of ?f])
  have wok: "owner_ok (pg_results s) w" using ok o(1) by (auto simp: pg_ok_def)
  then have cnt: "ow_result_count w = results_of (xs @ ys) ?a + 1"
    using o(2) q(1) by (simp add: owner_ok_def results_of_append results_of_cons)
  moreover have "results_of (xs @ ys) ?a + 1 < 2 ^ 32"
    using ok q(1) results_of_le [of "xs @ ys" ?a] by (simp add: pg_ok_def)
  ultimately have "(ow_result_count w + 2 ^ 32 - 1) mod 2 ^ 32 = results_of (xs @ ys) (ow_addr w)"
    using o(2) by simp
  moreover have "ow_native_registered w" using wok cnt by (simp add: owner_ok_def)
  ultimately have "owner_ok (xs @ ys) (?f w)"
    by (intro owner_ok_count [OF wok])
  moreover have "owner_ok (xs @ ys) x" if "x \<in> set us \<union> set vs" for x
  proof (rule owner_ok_other)
    show "owner_ok (pg_results s) x" using ok o(1) that by (auto simp: pg_ok_def)
    show "results_of (xs @ ys) (ow_addr x) = results_of (pg_results s) (ow_addr x)"
      using o(3,4) that q(1) by (auto simp: results_of_append results_of_cons)
  qed
  moreover have "result_ok F (us @ ?f w # vs) x" if "x \<in> set (xs @ ys)" for x
  proof -
    have "result_ok F (us @ w # vs) x" using ok o(1) q(1) that by (auto simp: pg_ok_def)
    then show ?thesis by (auto simp: result_ok_def)
  qed
  ultimately show "pg_ok F (result_addrs r @ X) (upd_owner ?a ?f (s\<lparr>pg_results := filter (\<lambda>x. rs_addr x \<noteq> rs_addr r) (pg_results s)\<rparr>))"
    using ok o(1) q(1) unfolding q(3) upd pg_ok_def
    by (auto simp: all_addrs_def owner_addrs_def result_addrs_def)
qed

lemma replace_result:
  assumes ok: "pg_ok F X s" and r: "r \<in> set (pg_results s)"
    and "rs_addr (f r) = rs_addr r" "rs_native (f r) = rs_native r" "rs_owner (f r) = rs_owner r"
    and "map st_addr (rs_states (f r)) = map st_addr (rs_states r)" "map st_event (rs_states (f r)) = map st_event (rs_states r)"
    and "F \<Longrightarrow> \<not> rs_native_initialized (f r) \<Longrightarrow> \<forall>t \<in> set (rs_states (f r)). \<not> st_initialized t"
  shows "pg_ok F X (upd_result (rs_addr r) f s)"
proof -
  obtain xs ys where q: "pg_results s = xs @ r # ys"
      "\<forall>f. upd_result (rs_addr r) f s = s\<lparr>pg_results := xs @ f r # ys\<rparr>"
      "filter (\<lambda>x. rs_addr x \<noteq> rs_addr r) (pg_results s) = xs @ ys"
    by (rule result_split [OF ok r])
  have "st_event ` set (rs_states (f r)) = st_event ` set (rs_states r)"
    using assms(7) by (metis list.set_map)
  then have "result_ok F (pg_owners s) (f r)"
    using ok r assms(5,7,8) by (auto simp: pg_ok_def result_ok_def)
  moreover have "owner_ok (xs @ f r # ys) w" if "w \<in> set (pg_owners s)" for w
  proof (rule owner_ok_other)
    show "owner_ok (pg_results s) w" using ok that by (auto simp: pg_ok_def)
    show "results_of (xs @ f r # ys) (ow_addr w) = results_of (pg_results s) (ow_addr w)"
      using q(1) assms(5) by (simp add: results_of_append results_of_cons)
  qed
  moreover have "result_addrs (f r) = result_addrs r"
    using assms(3,6) by (simp add: result_addrs_def)
  ultimately show ?thesis
    using ok q(1) assms(4) unfolding q(2) [rule_format] pg_ok_def by (auto simp: all_addrs_def)
qed

lemma remove_owner:
  assumes ok: "pg_ok F X s" and w: "owner_at s a = Some w" and "ow_result_count w = 0"
  shows "pg_ok F (owner_addrs w @ X) (s\<lparr>pg_owners := filter (\<lambda>x. ow_addr x \<noteq> a) (pg_owners s)\<rparr>)"
proof -
  obtain us vs where o: "pg_owners s = us @ w # vs" "ow_addr w = a" "a \<notin> ow_addr ` set us" "a \<notin> ow_addr ` set vs"
      "\<forall>f. map (\<lambda>x. if ow_addr x = a then f x else x) (pg_owners s) = us @ f w # vs"
      "filter (\<lambda>x. ow_addr x \<noteq> a) (pg_owners s) = us @ vs"
    by (rule owner_at_split [OF ok w])
  have "owner_ok (pg_results s) w" using ok o(1) by (auto simp: pg_ok_def)
  then have none: "rs_owner r \<noteq> a" if "r \<in> set (pg_results s)" for r
    using assms(3) o(2) that by (auto simp: owner_ok_def results_of_def filter_empty_conv)
  have "result_ok F (us @ vs) r" if "r \<in> set (pg_results s)" for r
  proof -
    have "result_ok F (us @ w # vs) r" using ok o(1) that by (auto simp: pg_ok_def)
    then show ?thesis using none [OF that] o(2) by (auto simp: result_ok_def)
  qed
  moreover have "distinct (map ow_native (filter (\<lambda>w. \<not> ow_closed w) (us @ vs)))"
    using ok o(1) by (cases "ow_closed w") (auto simp: pg_ok_def)
  ultimately show ?thesis
    using ok o(1) unfolding o(6) pg_ok_def by (auto simp: all_addrs_def)
qed

end
