(* ===== verification/Postgres_Events.thy ===== *)
theory Postgres_Events
  imports Postgres_Registry
begin

text \<open>
  What the event registry guarantees.  \<open>accepted\<close> and \<open>destroyed\<close> count the calls into the application,
  \<open>pg_paired\<close> relates them to the entries; every operation keeps this and the well-formedness \<open>pg_inv\<close>.
  \<open>pg_step\<close> is any operation by the application, the facade or the library, within what the library
  promises of its events, and the properties hold in every state reachable by such steps.
\<close>

section \<open>Calls into the application\<close>

type_synonym pg_call = "(nat \<times> cpkt_postgres_event_id \<times> cpkt_postgres_event_info \<times> nat) \<times> bool"

text \<open>The accepted initialisations of a result for a registration, and the destructions it was told of.\<close>

definition accepts :: "nat \<Rightarrow> addr \<Rightarrow> pg_call \<Rightarrow> bool" where
  "accepts n e = (\<lambda>((cb, i, info, ctx), answer). answer \<and> if_event info = e \<and>
     (i = CPKT_POSTGRES_EVENT_RESULT_CREATE \<and> if_result info = n \<or> i = CPKT_POSTGRES_EVENT_RESULT_COPY \<and> if_destination info = n))"

definition destroys :: "nat \<Rightarrow> addr \<Rightarrow> pg_call \<Rightarrow> bool" where
  "destroys n e = (\<lambda>((cb, i, info, ctx), answer). if_event info = e \<and> i = CPKT_POSTGRES_EVENT_RESULT_DESTROY \<and> if_result info = n)"

definition accepted :: "nat \<Rightarrow> addr \<Rightarrow> pg_call list \<Rightarrow> nat" where
  "accepted n e cs = length (filter (accepts n e) cs)"

definition destroyed :: "nat \<Rightarrow> addr \<Rightarrow> pg_call list \<Rightarrow> nat" where
  "destroyed n e cs = length (filter (destroys n e) cs)"

definition init_count :: "addr \<Rightarrow> cpkt_postgres_event_state list \<Rightarrow> nat" where
  "init_count e ts = length (filter (\<lambda>t. st_initialized t \<and> st_event t = e) ts)"

lemma count_nil [simp]: "accepted n e [] = 0" "destroyed n e [] = 0" "init_count e [] = 0"
  by (simp_all add: accepted_def destroyed_def init_count_def)

lemma count_append [simp]:
  "accepted n e (cs @ ds) = accepted n e cs + accepted n e ds" "destroyed n e (cs @ ds) = destroyed n e cs + destroyed n e ds"
  "init_count e (ts @ us) = init_count e ts + init_count e us"
  by (simp_all add: accepted_def destroyed_def init_count_def)

lemma count_cons [simp]:
  "accepted n e (c # cs) = (if accepts n e c then 1 else 0) + accepted n e cs"
  "destroyed n e (c # cs) = (if destroys n e c then 1 else 0) + destroyed n e cs"
  "init_count e (t # ts) = (if st_initialized t \<and> st_event t = e then 1 else 0) + init_count e ts"
  by (simp_all add: accepted_def destroyed_def init_count_def)

definition live_event :: "pg \<Rightarrow> addr \<Rightarrow> bool" where
  "live_event s e \<longleftrightarrow> (\<exists>w \<in> set (pg_owners s). e \<in> ev_addr ` set (ow_events w @ ow_retired w))"

lemma live_event_at: "live_event s e \<Longrightarrow> \<exists>v. event_at s e = Some v"
  by (cases "event_at s e") (auto simp: live_event_def event_at_def find_None_iff)

lemma live_event_calls [simp]: "live_event (s\<lparr>pg_calls := c\<rparr>) = live_event s"
  by (simp add: live_event_def fun_eq_iff)

lemma call_live:
  assumes "live_event s e"
  obtains cb ctx answer where "cpkt_postgres_event_call W e i info s =
    (answer, s\<lparr>pg_calls := pg_calls s @ [((cb, i, info\<lparr>if_event := e\<rparr>, ctx), answer)]\<rparr>)"
  using live_event_at [OF assms] by (auto simp: cpkt_postgres_event_call_def Let_def)

lemma create_states_spec:
  assumes "\<forall>t \<in> set ts. live_event s (st_event t)" "create_states W info ts s = (c, ts', s')"
  shows "\<exists>cs. s' = s\<lparr>pg_calls := pg_calls s @ cs\<rparr> \<and> map st_addr ts' = map st_addr ts \<and> map st_event ts' = map st_event ts \<and>
    (\<forall>n e. destroyed n e cs = 0 \<and>
      accepted n e cs + (if n = if_result info then init_count e ts else 0) = (if n = if_result info then init_count e ts' else 0))"
  using assms
proof (induction ts arbitrary: s c ts' s')
  case Nil
  then show ?case by (intro exI [of _ "[]"]) simp
next
  case (Cons t ts)
  define h where "h = (if st_initialized t then (True, s)
      else cpkt_postgres_event_call W (st_event t) CPKT_POSTGRES_EVENT_RESULT_CREATE info s)"
  obtain ok s1 where h: "h = (ok, s1)" by fastforce
  obtain c2 ts2 s2 where r: "create_states W info ts s1 = (c2, ts2, s2)" by (metis prod_cases3)
  have res: "ts' = t\<lparr>st_initialized := ok\<rparr> # ts2" "s' = s2"
    using Cons.prems(2) h r by (simp_all add: h_def)
  obtain ds where ds: "s1 = s\<lparr>pg_calls := pg_calls s @ ds\<rparr>" "\<forall>n e. destroyed n e ds = 0 \<and>
      accepted n e ds + (if n = if_result info then init_count e [t] else 0) =
        (if n = if_result info then init_count e [t\<lparr>st_initialized := ok\<rparr>] else 0)"
  proof (cases "st_initialized t")
    case True
    then show ?thesis using h by (intro that [of "[]"]) (auto simp: h_def)
  next
    case False
    have "live_event s (st_event t)" using Cons.prems(1) by simp
    then obtain cb ctx answer where "cpkt_postgres_event_call W (st_event t) CPKT_POSTGRES_EVENT_RESULT_CREATE info s =
        (answer, s\<lparr>pg_calls := pg_calls s @ [((cb, CPKT_POSTGRES_EVENT_RESULT_CREATE, info\<lparr>if_event := st_event t\<rparr>, ctx), answer)]\<rparr>)"
      by (rule call_live)
    then show ?thesis
      using h False
      by (intro that [of "[((cb, CPKT_POSTGRES_EVENT_RESULT_CREATE, info\<lparr>if_event := st_event t\<rparr>, ctx), answer)]"])
        (auto simp: h_def accepts_def destroys_def)
  qed
  have "\<forall>t \<in> set ts. live_event s1 (st_event t)" using Cons.prems(1) ds(1) by simp
  from Cons.IH [OF this r] obtain cs where
    cs: "s2 = s1\<lparr>pg_calls := pg_calls s1 @ cs\<rparr>" "map st_addr ts2 = map st_addr ts" "map st_event ts2 = map st_event ts"
      "\<forall>n e. destroyed n e cs = 0 \<and>
        accepted n e cs + (if n = if_result info then init_count e ts else 0) = (if n = if_result info then init_count e ts2 else 0)"
    by blast
  have "destroyed n e (ds @ cs) = 0 \<and> accepted n e (ds @ cs) + (if n = if_result info then init_count e (t # ts) else 0) =
      (if n = if_result info then init_count e ts' else 0)" for n e
    using ds(2) [rule_format, of n e] cs(4) [rule_format, of n e] unfolding res(1) by (simp split: if_splits)
  moreover have "s' = s\<lparr>pg_calls := pg_calls s @ (ds @ cs)\<rparr>" "map st_addr ts' = map st_addr (t # ts)"
      "map st_event ts' = map st_event (t # ts)"
    using ds(1) cs(1-3) res by simp_all
  ultimately show ?case by blast
qed


lemma copy_states_spec:
  assumes "\<forall>t \<in> set ts. live_event s (st_event t) \<and> \<not> st_initialized t" "length ts = length us" "copy_states W info ts us s = (ts', s')"
  shows "\<exists>cs. s' = s\<lparr>pg_calls := pg_calls s @ cs\<rparr> \<and> map st_addr ts' = map st_addr ts \<and> map st_event ts' = map st_event ts \<and>
    (\<forall>n e. destroyed n e cs = 0 \<and> accepted n e cs = (if n = if_destination info then init_count e ts' else 0))"
  using assms
proof (induction ts arbitrary: us s ts' s')
  case Nil
  then show ?case by (intro exI [of _ "[]"]) simp
next
  case (Cons t ts)
  obtain u vs where us: "us = u # vs" using Cons.prems(2) by (cases us) auto
  define h where "h = (if st_initialized u then cpkt_postgres_event_call W (st_event t) CPKT_POSTGRES_EVENT_RESULT_COPY info s
      else (st_initialized t, s))"
  obtain ok s1 where h: "h = (ok, s1)" by fastforce
  obtain ts2 s2 where r: "copy_states W info ts vs s1 = (ts2, s2)" by fastforce
  have res: "ts' = t\<lparr>st_initialized := ok\<rparr> # ts2" "s' = s2"
    using Cons.prems(1,3) h r by (simp_all add: h_def us)
  obtain ds where ds: "s1 = s\<lparr>pg_calls := pg_calls s @ ds\<rparr>" "\<forall>n e. destroyed n e ds = 0 \<and>
      accepted n e ds = (if n = if_destination info then init_count e [t\<lparr>st_initialized := ok\<rparr>] else 0)"
  proof (cases "st_initialized u")
    case False
    then show ?thesis using h Cons.prems(1) by (intro that [of "[]"]) (auto simp: h_def)
  next
    case True
    have "live_event s (st_event t)" using Cons.prems(1) by simp
    then obtain cb ctx answer where "cpkt_postgres_event_call W (st_event t) CPKT_POSTGRES_EVENT_RESULT_COPY info s =
        (answer, s\<lparr>pg_calls := pg_calls s @ [((cb, CPKT_POSTGRES_EVENT_RESULT_COPY, info\<lparr>if_event := st_event t\<rparr>, ctx), answer)]\<rparr>)"
      by (rule call_live)
    then show ?thesis
      using h True
      by (intro that [of "[((cb, CPKT_POSTGRES_EVENT_RESULT_COPY, info\<lparr>if_event := st_event t\<rparr>, ctx), answer)]"])
        (auto simp: h_def accepts_def destroys_def)
  qed
  have "\<forall>t \<in> set ts. live_event s1 (st_event t) \<and> \<not> st_initialized t" "length ts = length vs"
    using Cons.prems(1,2) ds(1) us by simp_all
  from Cons.IH [OF this r] obtain cs where
    cs: "s2 = s1\<lparr>pg_calls := pg_calls s1 @ cs\<rparr>" "map st_addr ts2 = map st_addr ts" "map st_event ts2 = map st_event ts"
      "\<forall>n e. destroyed n e cs = 0 \<and> accepted n e cs = (if n = if_destination info then init_count e ts2 else 0)"
    by blast
  show ?case
    using ds cs by (intro exI [of _ "ds @ cs"]) (auto simp: res)
qed

lemma destroy_states_spec:
  assumes "\<forall>t \<in> set ts. live_event s (st_event t)"
  shows "\<exists>cs. destroy_states W info ts s = s\<lparr>pg_calls := pg_calls s @ cs\<rparr> \<and>
    (\<forall>n e. accepted n e cs = 0 \<and> destroyed n e cs = (if n = if_result info then init_count e ts else 0))"
  using assms
proof (induction ts arbitrary: s)
  case Nil
  then show ?case by (intro exI [of _ "[]"]) simp
next
  case (Cons t ts)
  define h where "h = (if st_initialized t
      then snd (cpkt_postgres_event_call W (st_event t) CPKT_POSTGRES_EVENT_RESULT_DESTROY info s) else s)"
  obtain ds where ds: "h = s\<lparr>pg_calls := pg_calls s @ ds\<rparr>" "\<forall>n e. accepted n e ds = 0 \<and>
      destroyed n e ds = (if n = if_result info then init_count e [t] else 0)"
  proof (cases "st_initialized t")
    case False
    then show ?thesis by (intro that [of "[]"]) (auto simp: h_def)
  next
    case True
    have "live_event s (st_event t)" using Cons.prems by simp
    then obtain cb ctx answer where "cpkt_postgres_event_call W (st_event t) CPKT_POSTGRES_EVENT_RESULT_DESTROY info s =
        (answer, s\<lparr>pg_calls := pg_calls s @ [((cb, CPKT_POSTGRES_EVENT_RESULT_DESTROY, info\<lparr>if_event := st_event t\<rparr>, ctx), answer)]\<rparr>)"
      by (rule call_live)
    then show ?thesis
      using True
      by (intro that [of "[((cb, CPKT_POSTGRES_EVENT_RESULT_DESTROY, info\<lparr>if_event := st_event t\<rparr>, ctx), answer)]"])
        (auto simp: h_def accepts_def destroys_def)
  qed
  have "\<forall>t \<in> set ts. live_event h (st_event t)" using Cons.prems ds(1) by simp
  from Cons.IH [OF this] obtain cs where cs: "destroy_states W info ts h = h\<lparr>pg_calls := pg_calls h @ cs\<rparr>"
      "\<forall>n e. accepted n e cs = 0 \<and> destroyed n e cs = (if n = if_result info then init_count e ts else 0)"
    by blast
  show ?case
    using ds cs by (intro exI [of _ "ds @ cs"]) (auto simp: h_def [symmetric])
qed

lemma connection_events_spec:
  assumes "\<forall>e \<in> set es. live_event s (ev_addr e)"
    "i \<in> {CPKT_POSTGRES_EVENT_CONNECTION_RESET, CPKT_POSTGRES_EVENT_CONNECTION_DESTROY}"
  shows "\<exists>cs. connection_events W i info es s = s\<lparr>pg_calls := pg_calls s @ cs\<rparr> \<and>
    (\<forall>n e. accepted n e cs = 0 \<and> destroyed n e cs = 0)"
  using assms(1)
proof (induction es arbitrary: s)
  case Nil
  then show ?case by (intro exI [of _ "[]"]) simp
next
  case (Cons v es)
  define h where "h = (if ev_registered v then snd (cpkt_postgres_event_call W (ev_addr v) i info s) else s)"
  obtain ds where ds: "h = s\<lparr>pg_calls := pg_calls s @ ds\<rparr>" "\<forall>n e. accepted n e ds = 0 \<and> destroyed n e ds = 0"
  proof (cases "ev_registered v")
    case False
    then show ?thesis by (intro that [of "[]"]) (auto simp: h_def)
  next
    case True
    have "live_event s (ev_addr v)" using Cons.prems by simp
    then obtain cb ctx answer where "cpkt_postgres_event_call W (ev_addr v) i info s =
        (answer, s\<lparr>pg_calls := pg_calls s @ [((cb, i, info\<lparr>if_event := ev_addr v\<rparr>, ctx), answer)]\<rparr>)"
      by (rule call_live)
    then show ?thesis
      using True assms(2)
      by (intro that [of "[((cb, i, info\<lparr>if_event := ev_addr v\<rparr>, ctx), answer)]"]) (auto simp: h_def accepts_def destroys_def)
  qed
  have "\<forall>e \<in> set es. live_event h (ev_addr e)" using Cons.prems ds(1) by simp
  from Cons.IH [OF this] obtain cs where cs: "connection_events W i info es h = h\<lparr>pg_calls := pg_calls h @ cs\<rparr>"
      "\<forall>n e. accepted n e cs = 0 \<and> destroyed n e cs = 0"
    by blast
  show ?case
    using ds cs by (intro exI [of _ "ds @ cs"]) (auto simp: h_def [symmetric])
qed

section \<open>Accepted results are destroyed once\<close>

definition pending :: "cpkt_postgres_event_result list \<Rightarrow> nat \<Rightarrow> addr \<Rightarrow> nat" where
  "pending rs n e = init_count e (concat (map rs_states (filter (\<lambda>r. rs_native r = n) rs)))"

text \<open>
  What a registration has accepted and not yet seen destroyed is what the entries have initialised, and
  what the entries \<open>G\<close> had that were dropped without a destruction.
\<close>

definition pg_paired :: "cpkt_postgres_event_result list \<Rightarrow> pg \<Rightarrow> bool" where
  "pg_paired G s \<longleftrightarrow> (\<forall>n e. accepted n e (pg_calls s) = destroyed n e (pg_calls s) + pending (pg_results s) n e + pending G n e)"

lemma pending_simps [simp]:
  "pending [] n e = 0"
  "pending (r # rs) n e = (if rs_native r = n then init_count e (rs_states r) else 0) + pending rs n e"
  "pending (xs @ ys) n e = pending xs n e + pending ys n e"
  by (simp_all add: pending_def)

lemma init_count_none: "\<forall>t \<in> set ts. \<not> st_initialized t \<Longrightarrow> init_count e ts = 0"
  by (simp add: init_count_def)

section \<open>New entries\<close>

lemma make_states_spec:
  assumes "pg_ok F X s" "make_states W es s = (p, s')"
  shows "pg_owners s' = pg_owners s \<and> pg_results s' = pg_results s \<and> pg_calls s' = pg_calls s \<and>
    (case p of None \<Rightarrow> pg_ok F X s'
     | Some ts \<Rightarrow> pg_ok F (map st_addr ts @ X) s' \<and> map st_event ts = es \<and> (\<forall>t \<in> set ts. \<not> st_initialized t))"
  using assms
proof (induction es arbitrary: X s p s')
  case Nil
  then show ?case by auto
next
  case (Cons e es)
  obtain q s1 where q: "cpkt_postgres_event_allocate W s = (q, s1)" by fastforce
  note al = allocate_ok [OF Cons.prems(1) q]
  show ?case
  proof (cases q)
    case None
    then show ?thesis using Cons.prems(2) q al by auto
  next
    case (Some a)
    obtain p2 s2 where p2: "make_states W es s1 = (p2, s2)" by fastforce
    have "pg_ok F (a # X) s1" using al(1) Some by simp
    note ih = Cons.IH [OF this p2]
    show ?thesis
    proof (cases p2)
      case n: None
      then have "pg_ok F X (pg_free a s2)" using ih free_ok by simp
      then show ?thesis using Cons.prems(2) q p2 Some n ih al by auto
    next
      case t: (Some ts)
      have "pg_ok F (map st_addr ts @ a # X) s2" using ih t by simp
      then have "pg_ok F (a # map st_addr ts @ X) s2" by (rule pg_ok_perm) simp
      then show ?thesis using Cons.prems(2) q p2 Some t ih al by auto
    qed
  qed
qed

lemma make_result_spec:
  assumes ok: "pg_ok F [] s" and w: "owner_at s a = Some w" "ow_native_registered w"
    and "n \<notin> rs_native ` set (pg_results s)" "length (pg_results s) + 1 < 2 ^ 32"
    and fr: "set (frozen_events w source) \<subseteq> ev_addr ` set (ow_events w @ ow_retired w)" "distinct (frozen_events w source)"
    and mk: "cpkt_postgres_event_make_result W a n source s = (p, s')"
  shows "pg_ok F [] s' \<and> pg_calls s' = pg_calls s \<and>
    (case p of None \<Rightarrow> pg_owners s' = pg_owners s \<and> pg_results s' = pg_results s
     | Some r \<Rightarrow> pg_results s' = r # pg_results s \<and> rs_native r = n \<and> rs_owner r = a \<and>
         (\<forall>t \<in> set (rs_states r). \<not> st_initialized t) \<and> \<not> rs_native_initialized r \<and>
         map st_event (rs_states r) = frozen_events w source \<and>
         pg_owners s' = map (\<lambda>x. if ow_addr x = a then x\<lparr>ow_result_count := (ow_result_count x + 1) mod 2 ^ 32\<rparr> else x) (pg_owners s))"
proof -
  obtain q s1 where q: "cpkt_postgres_event_allocate W s = (q, s1)" by fastforce
  note al = allocate_ok [OF ok q]
  show ?thesis
  proof (cases q)
    case None
    then show ?thesis using mk q al w by (auto simp: cpkt_postgres_event_make_result_def)
  next
    case (Some ra)
    obtain p2 s2 where p2: "make_states W (frozen_events w source) s1 = (p2, s2)" by fastforce
    have ok1: "pg_ok F [ra] s1" using al(1) Some by simp
    note ms = make_states_spec [OF ok1 p2]
    show ?thesis
    proof (cases p2)
      case None
      then have "pg_ok F [] (pg_free ra s2)" using ms free_ok by simp
      then show ?thesis using mk q Some p2 None ms al w by (auto simp: cpkt_postgres_event_make_result_def)
    next
      case t: (Some ts)
      let ?r = "\<lparr>rs_addr = ra, rs_native = n, rs_owner = a, rs_states = ts, rs_create_fired_count = 0,
          rs_last_create_complete = False, rs_native_initialized = False\<rparr>"
      let ?f = "\<lambda>w. w\<lparr>ow_result_count := (ow_result_count w + 1) mod 2 ^ 32\<rparr>"
      have ok2: "pg_ok F (ra # map st_addr ts @ []) s2"
        by (rule pg_ok_perm [of F "map st_addr ts @ [ra]"]) (use ms t in simp_all)
      have w2: "owner_at s2 a = Some w" using w(1) ms al by (simp add: owner_at_def)
      have res: "p = Some ?r" "s' = upd_owner a ?f (s2\<lparr>pg_results := ?r # pg_results s2\<rparr>)"
        using mk q Some p2 t w(1) by (simp_all add: cpkt_postgres_event_make_result_def Let_def)
      have "st_event ` set ts \<subseteq> ev_addr ` set (ow_events w @ ow_retired w)"
      proof -
        have "map st_event ts = frozen_events w source" using ms t by simp
        then show ?thesis using fr(1) by (metis list.set_map)
      qed
      moreover have "n \<notin> rs_native ` set (pg_results s2)" "length (pg_results s2) + 1 < 2 ^ 32" "\<forall>t\<in>set ts. \<not> st_initialized t"
        "distinct (map st_event ts)"
        using assms(4,5) fr(2) ms al t by simp_all
      ultimately have "pg_ok F [] s'"
        unfolding res(2) using link_result [OF ok2 w2 w(2), of n ?r] by blast
      then show ?thesis
        using ms al t unfolding res upd_owner_results [OF w2] by simp
    qed
  qed
qed


section \<open>Keeping the invariant\<close>

lemma pg_invI:
  assumes "pg_ok F [] s" "\<And>w. w \<in> set (pg_owners s) \<Longrightarrow> ow_native_registered w"
    "\<And>w. w \<in> set (pg_owners s) \<Longrightarrow> ow_closed w \<Longrightarrow> results_of (pg_results s) (ow_addr w) \<noteq> 0"
  shows "pg_inv F s"
  using assms unfolding pg_inv_def pg_ok_def owner_ok_def by fastforce

lemma pg_invD:
  assumes "pg_inv F s"
  shows "pg_ok F [] s" "w \<in> set (pg_owners s) \<Longrightarrow> ow_native_registered w"
    "w \<in> set (pg_owners s) \<Longrightarrow> ow_closed w \<Longrightarrow> results_of (pg_results s) (ow_addr w) \<noteq> 0"
  using assms unfolding pg_inv_def pg_ok_def owner_ok_def by fastforce+

lemma make_result_inv:
  assumes inv: "pg_inv F s" "pg_paired G s" and w: "owner_at s a = Some w"
    and new: "n \<notin> rs_native ` set (pg_results s)" "length (pg_results s) + 1 < 2 ^ 32"
    and fr: "set (frozen_events w source) \<subseteq> ev_addr ` set (ow_events w @ ow_retired w)" "distinct (frozen_events w source)"
    and mk: "cpkt_postgres_event_make_result W a n source s = (p, s')"
  shows "pg_inv F s' \<and> pg_paired G s'"
proof -
  have wm: "w \<in> set (pg_owners s)" "ow_addr w = a"
    using find_member [OF w [unfolded owner_at_def]] by simp_all
  note sp = make_result_spec [OF pg_invD(1) [OF inv(1)] w pg_invD(2) [OF inv(1) wm(1)] new fr mk]
  show ?thesis
  proof (cases p)
    case None
    then show ?thesis using sp inv by (auto simp: pg_inv_def pg_paired_def)
  next
    case (Some r)
    let ?f = "\<lambda>x. if ow_addr x = a then x\<lparr>ow_result_count := (ow_result_count x + 1) mod 2 ^ 32\<rparr> else x"
    have own: "pg_owners s' = map ?f (pg_owners s)" and res: "pg_results s' = r # pg_results s" "rs_owner r = a"
      using sp Some by simp_all
    have "pg_inv F s'"
    proof (rule pg_invI)
      show "pg_ok F [] s'" using sp by simp
      fix x assume "x \<in> set (pg_owners s')"
      then obtain y where y: "y \<in> set (pg_owners s)" "x = ?f y" unfolding own by auto
      then show "ow_native_registered x" using pg_invD(2) [OF inv(1) y(1)] by simp
      show "results_of (pg_results s') (ow_addr x) \<noteq> 0" if "ow_closed x"
        using pg_invD(3) [OF inv(1) y(1)] y(2) that res by (auto simp: results_of_cons split: if_splits)
    qed
    moreover have "pg_paired G s'"
      using inv(2) sp Some by (auto simp: pg_paired_def init_count_none)
    ultimately show ?thesis ..
  qed
qed

text \<open>An entry is replaced, and the calls account for the change.\<close>

lemma replace_result_inv:
  assumes inv: "pg_inv F s" "pg_paired G s" and r: "r \<in> set (pg_results s)"
    and f: "rs_addr (f r) = rs_addr r" "rs_native (f r) = rs_native r" "rs_owner (f r) = rs_owner r"
      "map st_addr (rs_states (f r)) = map st_addr (rs_states r)" "map st_event (rs_states (f r)) = map st_event (rs_states r)"
      "F \<Longrightarrow> \<not> rs_native_initialized (f r) \<Longrightarrow> \<forall>t \<in> set (rs_states (f r)). \<not> st_initialized t"
    and cs: "\<And>n e. destroyed n e cs = 0 \<and> accepted n e cs + (if n = rs_native r then init_count e (rs_states r) else 0) =
        (if n = rs_native r then init_count e (rs_states (f r)) else 0)"
  shows "pg_inv F (upd_result (rs_addr r) f (s\<lparr>pg_calls := pg_calls s @ cs\<rparr>)) \<and>
    pg_paired G (upd_result (rs_addr r) f (s\<lparr>pg_calls := pg_calls s @ cs\<rparr>))"
proof -
  let ?s = "s\<lparr>pg_calls := pg_calls s @ cs\<rparr>"
  have ok: "pg_ok F [] ?s" using pg_invD(1) [OF inv(1)] by simp
  have rm: "r \<in> set (pg_results ?s)" using r by simp
  obtain xs ys where q: "pg_results ?s = xs @ r # ys" "\<forall>f. upd_result (rs_addr r) f ?s = ?s\<lparr>pg_results := xs @ f r # ys\<rparr>"
      "filter (\<lambda>x. rs_addr x \<noteq> rs_addr r) (pg_results ?s) = xs @ ys"
    by (rule result_split [OF ok rm])
  note u = q(2) [rule_format, of f]
  have q1: "pg_results s = xs @ r # ys" using q(1) by simp
  have "pg_inv F (upd_result (rs_addr r) f ?s)"
  proof (rule pg_invI)
    show "pg_ok F [] (upd_result (rs_addr r) f ?s)" by (rule replace_result [OF ok rm, where f = f, OF f])
    fix w assume "w \<in> set (pg_owners (upd_result (rs_addr r) f ?s))"
    then have w: "w \<in> set (pg_owners s)" by (simp add: u)
    then show "ow_native_registered w" by (rule pg_invD(2) [OF inv(1)])
    show "results_of (pg_results (upd_result (rs_addr r) f ?s)) (ow_addr w) \<noteq> 0" if "ow_closed w"
      using pg_invD(3) [OF inv(1) w that] f(3) q1 by (simp add: u results_of_append results_of_cons)
  qed
  moreover have "pg_paired G (upd_result (rs_addr r) f ?s)"
    unfolding pg_paired_def
  proof (intro allI)
    fix n e
    have "accepted n e (pg_calls s) = destroyed n e (pg_calls s) + pending (pg_results s) n e + pending G n e"
      using inv(2) by (simp add: pg_paired_def)
    then show "accepted n e (pg_calls (upd_result (rs_addr r) f ?s)) =
        destroyed n e (pg_calls (upd_result (rs_addr r) f ?s)) + pending (pg_results (upd_result (rs_addr r) f ?s)) n e +
        pending G n e"
      using cs [of n e] f(2) q1 by (auto simp: u split: if_splits)
  qed
  ultimately show ?thesis ..
qed

lemma upd_result_twice:
  "(\<And>r. rs_addr (f r) = rs_addr r) \<Longrightarrow> upd_result a g (upd_result a f s) = upd_result a (\<lambda>r. g (f r)) s"
  by (simp add: upd_result_def cong: if_cong)

lemma result_events_live:
  assumes "pg_ok F X s" "r \<in> set (pg_results s)"
  shows "\<forall>t \<in> set (rs_states r). live_event s (st_event t)"
  using assms by (fastforce simp: pg_ok_def result_ok_def live_event_def)

lemma create_spec:
  assumes "pg_ok F [] s" "r \<in> set (pg_results s)" "cpkt_postgres_event_create W r c s = (b, s')"
  shows "\<exists>cs ts. s' = upd_result (rs_addr r) (\<lambda>r. r\<lparr>rs_states := ts\<rparr>) (s\<lparr>pg_calls := pg_calls s @ cs\<rparr>) \<and>
    map st_addr ts = map st_addr (rs_states r) \<and> map st_event ts = map st_event (rs_states r) \<and>
    (\<forall>n e. destroyed n e cs = 0 \<and> accepted n e cs + (if n = rs_native r then init_count e (rs_states r) else 0) =
        (if n = rs_native r then init_count e ts else 0))"
proof -
  obtain k ts s1 where c: "create_states W (no_info\<lparr>if_connection := c, if_result := rs_native r\<rparr>) (rs_states r) s = (k, ts, s1)"
    by (metis prod_cases3)
  let ?info = "no_info\<lparr>if_connection := c, if_result := rs_native r\<rparr>"
  obtain cs where cs: "s1 = s\<lparr>pg_calls := pg_calls s @ cs\<rparr>" "map st_addr ts = map st_addr (rs_states r)"
      "map st_event ts = map st_event (rs_states r)"
      "\<forall>n e. destroyed n e cs = 0 \<and> accepted n e cs + (if n = if_result ?info then init_count e (rs_states r) else 0) =
        (if n = if_result ?info then init_count e ts else 0)"
    using create_states_spec [OF result_events_live [OF assms(1,2)] c] by blast
  have "s' = upd_result (rs_addr r) (\<lambda>r. r\<lparr>rs_states := ts\<rparr>) (s\<lparr>pg_calls := pg_calls s @ cs\<rparr>)"
    using assms(3) c cs(1) by (simp add: cpkt_postgres_event_create_def)
  with cs(2-4) show ?thesis by (intro exI [of _ cs] exI [of _ ts]) simp
qed

lemma frozen_registered:
  assumes "pg_ok F X s" "owner_at s a = Some w"
  shows "set (frozen_events w None) \<subseteq> ev_addr ` set (ow_events w @ ow_retired w)" "distinct (frozen_events w None)"
  using owner_distinct [OF assms] by (auto simp: frozen_events_def owner_addrs_def distinct_map_filter)

lemma dispatch_create_inv:
  assumes inv: "pg_inv F s" "pg_paired G s" and w: "owner_at s a = Some w" and "length (pg_results s) + 1 < 2 ^ 32"
    and d: "dispatch_create W a c n s = (b, s')"
  shows "pg_inv F s' \<and> pg_paired G s' \<and> (b \<longrightarrow> (\<exists>x \<in> set (pg_results s'). rs_native x = n \<and> rs_native_initialized x))"
proof -
  obtain p s1 where p: "(case cpkt_postgres_event_find_result s n of
      Some r \<Rightarrow> (Some r, s) | None \<Rightarrow> cpkt_postgres_event_make_result W a n None s) = (p, s1)" by fastforce
  note fr = frozen_registered [OF pg_invD(1) [OF inv(1)] w]
  have wm: "w \<in> set (pg_owners s)" using find_member [OF w [unfolded owner_at_def]] by simp
  have s1: "pg_inv F s1 \<and> pg_paired G s1 \<and> (\<forall>r. p = Some r \<longrightarrow> r \<in> set (pg_results s1) \<and> rs_native r = n)"
  proof (cases "cpkt_postgres_event_find_result s n")
    case None
    then have mk: "cpkt_postgres_event_make_result W a n None s = (p, s1)" using p by simp
    note new = find_result_none [OF None]
    show ?thesis
      using make_result_inv [OF inv w new assms(4) fr mk]
        make_result_spec [OF pg_invD(1) [OF inv(1)] w pg_invD(2) [OF inv(1) wm] new assms(4) fr mk] by (auto split: option.splits)
  next
    case (Some r)
    then show ?thesis using p inv find_result_member [OF Some] by auto
  qed
  show ?thesis
  proof (cases p)
    case None
    then show ?thesis using d p s1 by (simp add: dispatch_create_def)
  next
    case (Some r)
    obtain k s2 where k: "cpkt_postgres_event_create W r c s1 = (k, s2)" by fastforce
    have r: "r \<in> set (pg_results s1)" using s1 Some by simp
    obtain cs ts where cs: "s2 = upd_result (rs_addr r) (\<lambda>r. r\<lparr>rs_states := ts\<rparr>) (s1\<lparr>pg_calls := pg_calls s1 @ cs\<rparr>)"
        "map st_addr ts = map st_addr (rs_states r)" "map st_event ts = map st_event (rs_states r)"
        "\<forall>n e. destroyed n e cs = 0 \<and> accepted n e cs + (if n = rs_native r then init_count e (rs_states r) else 0) =
          (if n = rs_native r then init_count e ts else 0)"
      using create_spec [OF pg_invD(1) r k] s1 by blast
    let ?g = "\<lambda>r. r\<lparr>rs_states := ts, rs_last_create_complete := k, rs_create_fired_count := sz (rs_create_fired_count r + 1),
        rs_native_initialized := True\<rparr>"
    have s': "s' = upd_result (rs_addr r) ?g (s1\<lparr>pg_calls := pg_calls s1 @ cs\<rparr>)"
      using d p Some k cs(1) by (simp add: dispatch_create_def upd_result_twice)
    have "pg_inv F s' \<and> pg_paired G s'"
      unfolding s' using s1 by (intro replace_result_inv) (use r cs(2-4) in auto)
    moreover have "?g r \<in> set (pg_results s')"
      unfolding s' using r by (force simp: upd_result_def)
    moreover have "b" "rs_native (?g r) = n" using d p Some s1 k by (auto simp: dispatch_create_def Let_def)
    ultimately show ?thesis by fastforce
  qed
qed

lemma dispatch_copy_inv:
  assumes inv: "pg_inv F s" "pg_paired G s"
    and owner: "\<And>r. cpkt_postgres_event_find_result s src = Some r \<Longrightarrow> rs_owner r = a"
    and new: "dest \<notin> rs_native ` set (pg_results s)" "length (pg_results s) + 1 < 2 ^ 32"
    and d: "dispatch_copy W a src dest s = (b, s')"
  shows "pg_inv F s' \<and> pg_paired G s'"
proof (cases "cpkt_postgres_event_find_result s src")
  case None
  then show ?thesis using d inv by (simp add: dispatch_copy_def)
next
  case (Some r)
  have r: "r \<in> set (pg_results s)" "rs_owner r = a" using find_result_member [OF Some] owner [OF Some] by simp_all
  then have "result_ok F (pg_owners s) r" using pg_invD(1) [OF inv(1)] by (auto simp: pg_ok_def)
  then obtain w where w: "w \<in> set (pg_owners s)" "ow_addr w = a"
      "st_event ` set (rs_states r) \<subseteq> ev_addr ` set (ow_events w @ ow_retired w)"
    using r(2) by (auto simp: result_ok_def)
  have wa: "owner_at s a = Some w" using owner_at_member [OF pg_invD(1) [OF inv(1)] w(1)] w(2) by simp
  have fr: "set (frozen_events w (Some r)) \<subseteq> ev_addr ` set (ow_events w @ ow_retired w)" "distinct (frozen_events w (Some r))"
    using w(3) \<open>result_ok F (pg_owners s) r\<close> by (simp_all add: frozen_events_def result_ok_def)
  obtain p s1 where mk: "cpkt_postgres_event_make_result W a dest (Some r) s = (p, s1)" by fastforce
  note i1 = make_result_inv [OF inv wa new fr mk]
  note sp = make_result_spec [OF pg_invD(1) [OF inv(1)] wa pg_invD(2) [OF inv(1) w(1)] new fr mk]
  show ?thesis
  proof (cases p)
    case None
    then show ?thesis using d Some mk i1 by (simp add: dispatch_copy_def)
  next
    case q: (Some x)
    let ?info = "no_info\<lparr>if_source := src, if_destination := dest\<rparr>"
    obtain ts s2 where c: "copy_states W ?info (rs_states x) (rs_states r) s1 = (ts, s2)" by fastforce
    have x: "x \<in> set (pg_results s1)" "rs_native x = dest" "map st_event (rs_states x) = map st_event (rs_states r)"
        "\<forall>t \<in> set (rs_states x). \<not> st_initialized t"
      using sp q by (simp_all add: frozen_events_def)
    have len: "length (rs_states x) = length (rs_states r)" using x(3) map_eq_imp_length_eq by blast
    obtain cs where cs: "s2 = s1\<lparr>pg_calls := pg_calls s1 @ cs\<rparr>" "map st_addr ts = map st_addr (rs_states x)"
        "map st_event ts = map st_event (rs_states x)"
        "\<forall>n e. destroyed n e cs = 0 \<and> accepted n e cs = (if n = if_destination ?info then init_count e ts else 0)"
      using copy_states_spec [OF _ len c] result_events_live [OF pg_invD(1) x(1)] x(4) i1 by blast
    let ?g = "\<lambda>r. r\<lparr>rs_states := ts, rs_native_initialized := True\<rparr>"
    have s': "s' = upd_result (rs_addr x) ?g (s1\<lparr>pg_calls := pg_calls s1 @ cs\<rparr>)"
      using d Some mk q c cs(1) by (simp add: dispatch_copy_def)
    show ?thesis
      unfolding s' using i1
      by (intro replace_result_inv) (use x cs(2-4) in \<open>auto simp: init_count_none\<close>)
  qed
qed

section \<open>Removing\<close>

lemma free_result_ok:
  "pg_ok F (result_addrs r @ X) s \<Longrightarrow> pg_ok F X (pg_free (rs_addr r) (pg_free_all (map st_addr (rs_states r)) s))"
  by (rule free_ok, rule free_all_ok, erule pg_ok_perm) (simp add: result_addrs_def)

lemma dispose_lists [simp]:
  "pg_owners (cpkt_postgres_event_dispose_owner w s) = pg_owners s" "pg_results (cpkt_postgres_event_dispose_owner w s) = pg_results s"
  "pg_calls (cpkt_postgres_event_dispose_owner w s) = pg_calls s"
  by (simp_all add: cpkt_postgres_event_dispose_owner_def)

text \<open>
  Dropping an entry whose initialised states were just told, or go to the account \<open>D\<close> of those dropped
  without; the owner goes with its last entry when it is closed.
\<close>

lemma drop_result_inv:
  assumes inv: "pg_inv F s" "pg_paired G s" and r: "r \<in> set (pg_results s)"
    and cs: "\<And>n e. accepted n e cs = 0 \<and> destroyed n e cs + pending D n e = (if n = rs_native r then init_count e (rs_states r) else 0)"
  shows "pg_inv F (drop_result r (rs_owner r) (s\<lparr>pg_calls := pg_calls s @ cs\<rparr>)) \<and>
    pg_paired (D @ G) (drop_result r (rs_owner r) (s\<lparr>pg_calls := pg_calls s @ cs\<rparr>))"
proof -
  let ?s = "s\<lparr>pg_calls := pg_calls s @ cs\<rparr>" and ?a = "rs_owner r"
  let ?f = "\<lambda>w. w\<lparr>ow_result_count := (ow_result_count w + 2 ^ 32 - 1) mod 2 ^ 32\<rparr>"
  define s0 where "s0 = ?s\<lparr>pg_results := filter (\<lambda>x. rs_addr x \<noteq> rs_addr r) (pg_results ?s)\<rparr>"
  define s1 where "s1 = upd_owner ?a ?f s0"
  have ok: "pg_ok F [] ?s" using pg_invD(1) [OF inv(1)] by simp
  have rm: "r \<in> set (pg_results ?s)" using r by simp
  have ok1: "pg_ok F (result_addrs r) s1"
    using unlink_result(1) [OF ok rm] by (simp add: s1_def s0_def)
  obtain w where w: "owner_at ?s ?a = Some w" using unlink_result(2) [OF ok rm] by blast
  obtain us vs where o: "pg_owners ?s = us @ w # vs" "ow_addr w = ?a" "?a \<notin> ow_addr ` set us" "?a \<notin> ow_addr ` set vs"
      "\<forall>f. map (\<lambda>x. if ow_addr x = ?a then f x else x) (pg_owners ?s) = us @ f w # vs"
      "filter (\<lambda>x. ow_addr x \<noteq> ?a) (pg_owners ?s) = us @ vs"
    by (rule owner_at_split [OF ok w])
  obtain xs ys where q: "pg_results ?s = xs @ r # ys" "\<forall>f. upd_result (rs_addr r) f ?s = ?s\<lparr>pg_results := xs @ f r # ys\<rparr>"
      "filter (\<lambda>x. rs_addr x \<noteq> rs_addr r) (pg_results ?s) = xs @ ys"
    by (rule result_split [OF ok rm])
  have s1: "pg_owners s1 = us @ ?f w # vs" "pg_results s1 = xs @ ys" "pg_calls s1 = pg_calls s @ cs"
    unfolding s1_def s0_def q(3) upd_owner_results [OF w] o(5) [rule_format, of ?f] by simp_all
  have at1: "owner_at s1 ?a = Some (?f w)"
    using owner_at_member [OF ok1, of "?f w"] s1(1) o(2) by simp
  have cnt: "ow_result_count (?f w) = results_of (xs @ ys) ?a"
    using ok1 s1(1,2) o(2) by (auto simp: pg_ok_def owner_ok_def)
  have others: "ow_native_registered x" "ow_closed x \<Longrightarrow> results_of (xs @ ys) (ow_addr x) \<noteq> 0" if "x \<in> set us \<union> set vs" for x
  proof -
    have x: "x \<in> set (pg_owners s)" "ow_addr x \<noteq> ?a" using that o(1,3,4) by (auto simp: image_iff)
    then show "ow_native_registered x" "ow_closed x \<Longrightarrow> results_of (xs @ ys) (ow_addr x) \<noteq> 0"
      using pg_invD(2,3) [OF inv(1) x(1)] q(1) by (auto simp: results_of_append results_of_cons)
  qed
  have wreg: "ow_native_registered w" using pg_invD(2) [OF inv(1)] o(1) by simp
  have paired: "pg_paired (D @ G) t" if "pg_results t = xs @ ys" "pg_calls t = pg_calls s @ cs" for t
    unfolding pg_paired_def
  proof (intro allI)
    fix n e
    have "accepted n e (pg_calls s) = destroyed n e (pg_calls s) + pending (xs @ r # ys) n e + pending G n e"
      using inv(2) q(1) by (simp add: pg_paired_def)
    then show "accepted n e (pg_calls t) = destroyed n e (pg_calls t) + pending (pg_results t) n e + pending (D @ G) n e"
      using cs [of n e] that by (auto split: if_splits)
  qed
  show ?thesis
  proof (cases "ow_closed w \<and> ow_result_count (?f w) = 0")
    case True
    let ?s2 = "s1\<lparr>pg_owners := us @ vs\<rparr>"
    have f1: "filter (\<lambda>x. ow_addr x \<noteq> ?a) (pg_owners s1) = us @ vs" using filter_split [of ow_addr "?f w" us vs] o(2-4) s1(1) by simp
    have "pg_ok F (owner_addrs (?f w) @ result_addrs r) ?s2"
      using remove_owner [OF ok1 at1] True f1 by simp
    then have ok3: "pg_ok F (owner_addrs (?f w)) (pg_free (rs_addr r) (pg_free_all (map st_addr (rs_states r)) ?s2))"
      by (intro free_result_ok) (erule pg_ok_perm, simp)
    define t where "t = cpkt_postgres_event_dispose_owner (?f w) (pg_free (rs_addr r) (pg_free_all (map st_addr (rs_states r)) ?s2))"
    have t: "drop_result r ?a ?s = t"
      unfolding drop_result_def Let_def s0_def [symmetric] s1_def [symmetric] cpkt_postgres_event_claim_disposal_locked_def at1 t_def
      using True f1 by simp
    have "pg_ok F [] t" unfolding t_def using dispose_ok [of F "?f w" "[]"] ok3 by simp
    moreover have "pg_owners t = us @ vs" "pg_results t = xs @ ys" "pg_calls t = pg_calls s @ cs"
      using s1 by (simp_all add: t_def)
    ultimately show ?thesis
      unfolding t using others paired by (auto intro!: pg_invI)
  next
    case False
    define t where "t = pg_free (rs_addr r) (pg_free_all (map st_addr (rs_states r)) s1)"
    have t: "drop_result r ?a ?s = t"
      unfolding drop_result_def Let_def s0_def [symmetric] s1_def [symmetric] cpkt_postgres_event_claim_disposal_locked_def at1 t_def
      using False by auto
    have "pg_ok F [] t" unfolding t_def using free_result_ok [of F r "[]"] ok1 by simp
    moreover have "pg_owners t = us @ ?f w # vs" "pg_results t = xs @ ys" "pg_calls t = pg_calls s @ cs"
      using s1 by (simp_all add: t_def)
    ultimately show ?thesis
      unfolding t using others paired wreg False cnt o(2) by (auto intro!: pg_invI)
  qed
qed


lemma dispatch_destroy_inv:
  assumes inv: "pg_inv F s" "pg_paired G s"
    and owner: "\<And>r. cpkt_postgres_event_find_result s n = Some r \<Longrightarrow> rs_owner r = a"
  shows "pg_inv F (dispatch_destroy W a n s) \<and> pg_paired G (dispatch_destroy W a n s)"
proof (cases "cpkt_postgres_event_find_result s n")
  case None
  then show ?thesis using inv by (simp add: dispatch_destroy_def)
next
  case (Some r)
  have r: "r \<in> set (pg_results s)" "rs_native r = n" "rs_owner r = a"
    using find_result_member [OF Some] owner [OF Some] by simp_all
  obtain cs where cs: "destroy_states W (no_info\<lparr>if_result := n\<rparr>) (rs_states r) s = s\<lparr>pg_calls := pg_calls s @ cs\<rparr>"
      "\<forall>m e. accepted m e cs = 0 \<and> destroyed m e cs = (if m = if_result (no_info\<lparr>if_result := n\<rparr>) then init_count e (rs_states r) else 0)"
    using destroy_states_spec [OF result_events_live [OF pg_invD(1) [OF inv(1)] r(1)]] by blast
  show ?thesis
    using drop_result_inv [OF inv r(1), of cs "[]"] cs r Some by (simp add: dispatch_destroy_def)
qed

text \<open>The entry that a release of a result not initialised by the library drops.\<close>

definition dropped_by :: "nat \<Rightarrow> pg \<Rightarrow> cpkt_postgres_event_result list" where
  "dropped_by n s = (case cpkt_postgres_event_find_result s n of
     None \<Rightarrow> [] | Some r \<Rightarrow> if rs_native_initialized r then [] else [r])"

lemma release_uninitialized_inv:
  assumes inv: "pg_inv F s" "pg_paired G s"
  shows "pg_inv F (cpkt_postgres_event_release_uninitialized n s) \<and>
    pg_paired (dropped_by n s @ G) (cpkt_postgres_event_release_uninitialized n s) \<and>
    (F \<longrightarrow> pending (dropped_by n s) m e = 0)"
proof (cases "\<exists>r. cpkt_postgres_event_find_result s n = Some r \<and> \<not> rs_native_initialized r")
  case False
  then have "cpkt_postgres_event_release_uninitialized n s = s" "dropped_by n s = []"
    by (auto simp: cpkt_postgres_event_release_uninitialized_def cpkt_postgres_event_result_release_def dropped_by_def
        split: option.splits)
  then show ?thesis using inv by simp
next
  case True
  then obtain r where f: "cpkt_postgres_event_find_result s n = Some r" "\<not> rs_native_initialized r" by blast
  have r: "r \<in> set (pg_results s)" using find_result_member [OF f(1)] by simp
  have eq: "cpkt_postgres_event_release_uninitialized n s = drop_result r (rs_owner r) s" "dropped_by n s = [r]"
    using f by (simp_all add: cpkt_postgres_event_release_uninitialized_def cpkt_postgres_event_result_release_def dropped_by_def)
  have "F \<Longrightarrow> \<forall>t \<in> set (rs_states r). \<not> st_initialized t"
    using pg_invD(1) [OF inv(1)] f(2) r by (auto simp: pg_ok_def result_ok_def)
  then have "F \<longrightarrow> pending [r] m e = 0" by (simp add: init_count_none)
  then show ?thesis
    using drop_result_inv [OF inv r, of "[]" "[r]"] unfolding eq by auto
qed

section \<open>Connections\<close>

lemma owner_events_live:
  assumes "owner_at s a = Some w" "e \<in> set (ow_events w)"
  shows "live_event s (ev_addr e)"
proof -
  have "w \<in> set (pg_owners s)" using find_member [OF assms(1) [unfolded owner_at_def]] by simp
  then show ?thesis using assms(2) by (auto simp: live_event_def)
qed

lemma dispatch_connection_spec:
  assumes "owner_at s a = Some w" "i \<in> {CPKT_POSTGRES_EVENT_CONNECTION_RESET, CPKT_POSTGRES_EVENT_CONNECTION_DESTROY}"
  shows "\<exists>cs. dispatch_connection W a i c s = s\<lparr>pg_calls := pg_calls s @ cs\<rparr> \<and> (\<forall>n e. accepted n e cs = 0 \<and> destroyed n e cs = 0)"
  using connection_events_spec [of "ow_events w" s i W "no_info\<lparr>if_connection := c\<rparr>"] owner_events_live [OF assms(1)] assms
  by (simp add: dispatch_connection_def)

lemma calls_inv: "pg_inv F (s\<lparr>pg_calls := c\<rparr>) = pg_inv F s"
  by (simp add: pg_inv_def)

lemma calls_paired:
  "pg_paired G s \<Longrightarrow> (\<forall>n e. accepted n e cs = 0 \<and> destroyed n e cs = 0) \<Longrightarrow> pg_paired G (s\<lparr>pg_calls := pg_calls s @ cs\<rparr>)"
  by (simp add: pg_paired_def)

lemma close_owner_inv:
  assumes inv: "pg_inv F s" "pg_paired G s" and w: "owner_at s a = Some w"
  shows "pg_inv F (claim_and_dispose a (upd_owner a (\<lambda>w. w\<lparr>ow_closed := True, ow_native := 0\<rparr>) s)) \<and>
    pg_paired G (claim_and_dispose a (upd_owner a (\<lambda>w. w\<lparr>ow_closed := True, ow_native := 0\<rparr>) s))"
proof -
  let ?f = "\<lambda>w. w\<lparr>ow_closed := True, ow_native := 0\<rparr>"
  note ok = pg_invD(1) [OF inv(1)]
  obtain us vs where o: "pg_owners s = us @ w # vs" "ow_addr w = a" "a \<notin> ow_addr ` set us" "a \<notin> ow_addr ` set vs"
      "\<forall>f. map (\<lambda>x. if ow_addr x = a then f x else x) (pg_owners s) = us @ f w # vs"
      "filter (\<lambda>x. ow_addr x \<noteq> a) (pg_owners s) = us @ vs"
    by (rule owner_at_split [OF ok w])
  define s1 where "s1 = upd_owner a ?f s"
  have s1: "s1 = s\<lparr>pg_owners := us @ ?f w # vs\<rparr>"
    unfolding s1_def upd_owner_eq [OF w] o(5) [rule_format, of ?f] by simp
  have wok: "owner_ok (pg_results s) w" using ok o(1) by (auto simp: pg_ok_def)
  have "result_ok F (pg_owners s) r" if "r \<in> set (pg_results s)" for r using ok that by (auto simp: pg_ok_def)
  then have ev: "st_event ` set (rs_states r) \<subseteq> ev_addr ` set (ow_events w @ ow_retired w)"
    if "r \<in> set (pg_results s)" "rs_owner r = a" for r
    using that o(1,3,4) by (fastforce simp: result_ok_def image_iff)
  have ok1: "pg_ok F [] s1"
    unfolding s1_def
    by (rule replace_owner [OF ok w refl]) (use o(2) wok ev in \<open>auto simp: owner_addrs_def owner_ok_def\<close>)
  have at1: "owner_at s1 a = Some (?f w)" using owner_at_member [OF ok1, of "?f w"] s1 o(2) by simp
  have others: "ow_native_registered x" "ow_closed x \<Longrightarrow> results_of (pg_results s) (ow_addr x) \<noteq> 0" if "x \<in> set us \<union> set vs" for x
    using pg_invD(2,3) [OF inv(1), of x] that o(1) by auto
  have wreg: "ow_native_registered w" using pg_invD(2) [OF inv(1)] o(1) by simp
  have paired: "pg_paired G t" if "pg_results t = pg_results s" "pg_calls t = pg_calls s" for t
    using inv(2) that by (simp add: pg_paired_def)
  show ?thesis
  proof (cases "ow_result_count w = 0")
    case True
    have f1: "filter (\<lambda>x. ow_addr x \<noteq> a) (pg_owners s1) = us @ vs" using filter_split [of ow_addr "?f w" us vs] o(2-4) s1 by simp
    have "pg_ok F (owner_addrs (?f w)) (s1\<lparr>pg_owners := us @ vs\<rparr>)"
      using remove_owner [OF ok1 at1] True f1 by simp
    then have "pg_ok F [] (cpkt_postgres_event_dispose_owner (?f w) (s1\<lparr>pg_owners := us @ vs\<rparr>))"
      using dispose_ok [of F "?f w" "[]"] by simp
    moreover have "claim_and_dispose a s1 = cpkt_postgres_event_dispose_owner (?f w) (s1\<lparr>pg_owners := us @ vs\<rparr>)"
      using True at1 f1 by (simp add: claim_and_dispose_def cpkt_postgres_event_claim_disposal_locked_def)
    ultimately show ?thesis
      unfolding s1_def [symmetric] using others paired s1 by (auto intro!: pg_invI)
  next
    case False
    have "claim_and_dispose a s1 = s1"
      using False at1 by (simp add: claim_and_dispose_def cpkt_postgres_event_claim_disposal_locked_def)
    moreover have "results_of (pg_results s) a \<noteq> 0" using False wok o(2) by (simp add: owner_ok_def)
    ultimately show ?thesis
      unfolding s1_def [symmetric] using ok1 others paired s1 wreg o(2) by (auto intro!: pg_invI)
  qed
qed

section \<open>Registering\<close>

lemma add_owner:
  assumes ok: "pg_ok F (a # X) s" and c: "c \<noteq> 0" "cpkt_postgres_event_find_owner s c = None"
    and w: "w = \<lparr>ow_addr = a, ow_native = c, ow_events = [], ow_retired = [], ow_result_count = 0,
      ow_closed = False, ow_native_registered = False\<rparr>"
  shows "pg_ok F X (s\<lparr>pg_owners := w # pg_owners s\<rparr>)"
proof -
  have "a \<notin> ow_addr ` set (pg_owners s)"
    using pg_ok_distinct [OF ok] by (auto simp: all_addrs_def owner_addrs_def)
  moreover have "rs_owner r \<in> ow_addr ` set (pg_owners s)" if "r \<in> set (pg_results s)" for r
  proof -
    have "result_ok F (pg_owners s) r" using ok that by (auto simp: pg_ok_def)
    then show ?thesis by (force simp: result_ok_def)
  qed
  ultimately have "results_of (pg_results s) a = 0"
    by (auto simp: results_of_def filter_empty_conv)
  then have "owner_ok (pg_results s) w" using c(1) w by (simp add: owner_ok_def)
  moreover have "result_ok F (w # pg_owners s) r" if "r \<in> set (pg_results s)" for r
    using ok that by (auto simp: pg_ok_def result_ok_def)
  moreover have "ow_native w \<notin> ow_native ` set (filter (\<lambda>w. \<not> ow_closed w) (pg_owners s))"
    using c(2) w by (auto simp: cpkt_postgres_event_find_owner_def find_None_iff)
  ultimately show ?thesis
    using ok w unfolding pg_ok_def by (auto simp: all_addrs_def owner_addrs_def)
qed

text \<open>All owners but one are as they are between calls.\<close>

definition rest_kept :: "addr \<Rightarrow> pg \<Rightarrow> bool" where
  "rest_kept a s \<longleftrightarrow> (\<forall>x \<in> set (pg_owners s). ow_addr x \<noteq> a \<longrightarrow>
     ow_native_registered x \<and> (ow_closed x \<longrightarrow> results_of (pg_results s) (ow_addr x) \<noteq> 0))"

lemma rest_kept_upd: "rest_kept a s \<Longrightarrow> (\<And>w. ow_addr (f w) = ow_addr w) \<Longrightarrow> rest_kept a (upd_owner a f s)"
  by (auto simp: rest_kept_def upd_owner_def)

lemma rest_kept_lists:
  "rest_kept a s \<Longrightarrow> pg_owners s' = pg_owners s \<Longrightarrow> pg_results s' = pg_results s \<Longrightarrow> rest_kept a s'"
  by (simp add: rest_kept_def)

lemma rest_kept_inv:
  assumes "pg_ok F [] s" "rest_kept a s" "owner_at s a = Some w" "ow_native_registered w" "\<not> ow_closed w"
  shows "pg_inv F s"
proof -
  have "x = w" if "x \<in> set (pg_owners s)" "ow_addr x = a" for x
    using owner_at_member [OF assms(1) that(1)] assms(3) that(2) by simp
  then show ?thesis using assms by (auto intro!: pg_invI simp: rest_kept_def)
qed

lemma upd_owner_lists [simp]:
  "pg_results (upd_owner a f s) = pg_results s" "pg_calls (upd_owner a f s) = pg_calls s" "pg_allocs (upd_owner a f s) = pg_allocs s"
  by (simp_all add: upd_owner_def)

lemma owner_at_upd:
  assumes "pg_ok F X s" "owner_at s a = Some w" "ow_addr (f w) = a"
  shows "owner_at (upd_owner a f s) a = Some (f w)"
proof -
  obtain us vs where o: "pg_owners s = us @ w # vs" "ow_addr w = a" "a \<notin> ow_addr ` set us" "a \<notin> ow_addr ` set vs"
      "\<forall>f. map (\<lambda>x. if ow_addr x = a then f x else x) (pg_owners s) = us @ f w # vs"
      "filter (\<lambda>x. ow_addr x \<noteq> a) (pg_owners s) = us @ vs"
    by (rule owner_at_split [OF assms(1,2)])
  have "find (\<lambda>x. ow_addr x = a) us = None" using o(3) by (auto simp: find_None_iff)
  then have "find (\<lambda>x. ow_addr x = a) (us @ f w # vs) = Some (f w)"
    using assms(3) by (induction us) (auto split: if_splits)
  then show ?thesis
    unfolding upd_owner_eq [OF assms(2)] o(5) [rule_format, of f] owner_at_def by simp
qed

lemma owner_events_kept:
  assumes "pg_ok F X s" "owner_at s a = Some w" "r \<in> set (pg_results s)" "rs_owner r = a"
  shows "st_event ` set (rs_states r) \<subseteq> ev_addr ` set (ow_events w @ ow_retired w)"
proof -
  have "result_ok F (pg_owners s) r" using assms(1,3) by (auto simp: pg_ok_def)
  then obtain x where x: "x \<in> set (pg_owners s)" "ow_addr x = a" "st_event ` set (rs_states r) \<subseteq> ev_addr ` set (ow_events x @ ow_retired x)"
    using assms(4) by (auto simp: result_ok_def)
  then show ?thesis using owner_at_member [OF assms(1) x(1)] assms(2) by simp
qed

lemma owner_at_ok: "pg_ok F X s \<Longrightarrow> owner_at s a = Some w \<Longrightarrow> owner_ok (pg_results s) w \<and> ow_addr w = a"
  using find_member unfolding owner_at_def pg_ok_def by fastforce

lemma drop_unused_inv:
  assumes ok: "pg_ok F [] s" and kept: "rest_kept a s" and w: "owner_at s a = Some w" "\<not> ow_closed w"
    and un: "ow_native_registered w \<or> ow_events w = []"
  shows "pg_inv F (drop_unused_owner a s)" "pg_results (drop_unused_owner a s) = pg_results s"
    "pg_calls (drop_unused_owner a s) = pg_calls s"
proof -
  note wok = owner_at_ok [OF ok w(1)]
  show "pg_results (drop_unused_owner a s) = pg_results s" "pg_calls (drop_unused_owner a s) = pg_calls s"
    using w(1) by (simp_all add: drop_unused_owner_def unlink_owner_def)
  show "pg_inv F (drop_unused_owner a s)"
  proof (cases "ow_native_registered w")
    case True
    then show ?thesis using rest_kept_inv [OF ok kept w(1) _ w(2)] w(1) by (simp add: drop_unused_owner_def)
  next
    case False
    let ?t = "s\<lparr>pg_owners := filter (\<lambda>x. ow_addr x \<noteq> a) (pg_owners s)\<rparr>"
    have z: "ow_events w = []" "ow_retired w = []" "ow_result_count w = 0" using False un wok by (auto simp: owner_ok_def)
    have "pg_ok F [a] ?t" using remove_owner [OF ok w(1) z(3)] z wok by (simp add: owner_addrs_def)
    then have "pg_ok F [] (pg_free a ?t)" by (rule free_ok)
    then show ?thesis
      using False z w(1) kept by (auto simp: drop_unused_owner_def unlink_owner_def rest_kept_def intro!: pg_invI)
  qed
qed

lemma mset_partition: "mset (filter P xs) + mset (filter (\<lambda>x. \<not> P x) xs) = mset xs"
  by (induction xs) auto

lemma registration_failed_inv:
  assumes ok: "pg_ok F [] s" and kept: "rest_kept a s" and w: "owner_at s a = Some w" "\<not> ow_closed w"
    and ea: "ea \<in> ev_addr ` set (ow_events w)"
    and un: "ow_native_registered w \<or> (\<forall>e \<in> set (ow_events w). ev_addr e = ea)"
  shows "pg_inv F (registration_failed a ea s)" "pg_results (registration_failed a ea s) = pg_results s"
    "pg_calls (registration_failed a ea s) = pg_calls s"
proof -
  note wok = owner_at_ok [OF ok w(1)]
  define rest where "rest = filter (\<lambda>e. ev_addr e \<noteq> ea) (ow_events w)"
  define gone where "gone = filter (\<lambda>e. ev_addr e = ea) (ow_events w)"
  have parts: "mset gone + mset rest = mset (ow_events w)"
    unfolding gone_def rest_def by (rule mset_partition)
  have ms: "mset (map ev_addr gone) + mset (map ev_addr rest) = mset (map ev_addr (ow_events w))"
    using arg_cong [OF parts, of "image_mset ev_addr"] by simp
  have sets: "set (rest @ gone @ ow_retired w) = set (ow_events w @ ow_retired w)"
    by (auto simp: rest_def gone_def)
  define s1 where "s1 = (if ow_native_registered w then upd_owner a (\<lambda>w. w\<lparr>ow_events := rest, ow_retired := gone @ ow_retired w\<rparr>) s
      else pg_free ea (upd_owner a (\<lambda>w. w\<lparr>ow_events := rest\<rparr>) s))"
  have eq: "registration_failed a ea s = drop_unused_owner a s1"
    using w(1) by (simp add: registration_failed_def Let_def s1_def rest_def gone_def)
  have "\<exists>w1. pg_ok F [] s1 \<and> rest_kept a s1 \<and> owner_at s1 a = Some w1 \<and> \<not> ow_closed w1 \<and> (ow_native_registered w1 \<or> ow_events w1 = [])"
  proof (cases "ow_native_registered w")
    case True
    let ?f = "\<lambda>w. w\<lparr>ow_events := rest, ow_retired := gone @ ow_retired w\<rparr>"
    have s1: "s1 = upd_owner a ?f s" using True by (simp add: s1_def)
    have "owner_ok (pg_results s) (?f w)" using wok sets True by (auto simp: owner_ok_def rest_def gone_def)
    moreover have "mset (owner_addrs (?f w)) + mset [] = mset (owner_addrs w) + mset []"
      using ms by (simp add: owner_addrs_def ac_simps)
    moreover have "st_event ` set (rs_states r) \<subseteq> ev_addr ` set (ow_events (?f w) @ ow_retired (?f w))"
      if "r \<in> set (pg_results s)" "rs_owner r = a" for r
      using owner_events_kept [OF ok w(1) that] sets by simp
    ultimately have "pg_ok F [] s1"
      unfolding s1 using w(2) wok by (intro replace_owner [OF ok w(1) refl]) auto
    then show ?thesis
      using owner_at_upd [OF ok w(1), of ?f] wok w(2) True rest_kept_upd [OF kept, of ?f] unfolding s1 by simp
  next
    case False
    let ?f = "\<lambda>w. w\<lparr>ow_events := rest\<rparr>"
    have un': "rest = []" "\<forall>e \<in> set (ow_events w). ev_addr e = ea" using False un by (auto simp: rest_def)
    have z: "ow_retired w = []" "ow_result_count w = 0" "results_of (pg_results s) a = 0" using False wok by (auto simp: owner_ok_def)
    have d: "distinct (map ev_addr (ow_events w))"
      using owner_distinct [OF ok w(1)] by (simp add: owner_addrs_def)
    have "map ev_addr (ow_events w) = [ea]"
      using ea un'(2) d by (cases "ow_events w"; cases "tl (ow_events w)") auto
    then have "mset (owner_addrs (?f w)) + mset [ea] = mset (owner_addrs w) + mset []"
      using z(1) un'(1) by (simp add: owner_addrs_def)
    moreover have "owner_ok (pg_results s) (?f w)" using wok un'(1) by (auto simp: owner_ok_def)
    moreover have "rs_owner r \<noteq> a" if "r \<in> set (pg_results s)" for r
      using z(3) that by (auto simp: results_of_def filter_empty_conv)
    ultimately have "pg_ok F [ea] (upd_owner a ?f s)"
      using w(2) wok by (intro replace_owner [OF ok w(1) refl]) auto
    then have "pg_ok F [] s1" using False free_ok by (simp add: s1_def)
    moreover have "owner_at s1 a = Some (?f w)"
      using owner_at_upd [OF ok w(1), of ?f] wok False by (simp add: s1_def owner_at_def)
    moreover have "rest_kept a s1"
      using rest_kept_lists [OF rest_kept_upd [OF kept, of ?f], of s1] False by (simp add: s1_def)
    ultimately show ?thesis using w(2) un'(1) by auto
  qed
  then obtain w1 where w1: "pg_ok F [] s1" "rest_kept a s1" "owner_at s1 a = Some w1" "\<not> ow_closed w1"
      "ow_native_registered w1 \<or> ow_events w1 = []" by blast
  show "pg_inv F (registration_failed a ea s)" unfolding eq by (rule drop_unused_inv(1) [OF w1])
  show "pg_results (registration_failed a ea s) = pg_results s" "pg_calls (registration_failed a ea s) = pg_calls s"
    unfolding eq drop_unused_inv(2,3) [OF w1] by (simp_all add: s1_def)
qed


lemma paired_lists: "pg_paired G s \<Longrightarrow> pg_results s' = pg_results s \<Longrightarrow> pg_calls s' = pg_calls s \<Longrightarrow> pg_paired G s'"
  by (simp add: pg_paired_def)

lemma map_events_ok:
  assumes ok: "pg_ok F X s" and w: "owner_at s a = Some w"
    and g: "\<And>e. ev_addr (g e) = ev_addr e" "\<And>e. ev_owner (g e) = ev_owner e"
  shows "pg_ok F X (upd_owner a (\<lambda>w. w\<lparr>ow_events := map g (ow_events w)\<rparr>) s)"
proof -
  let ?w = "w\<lparr>ow_events := map g (ow_events w)\<rparr>"
  note wok = owner_at_ok [OF ok w]
  have addrs: "map ev_addr (map g es) = map ev_addr es" "ev_addr ` g ` E = ev_addr ` E" for es E
    by (simp_all add: g(1) image_image comp_def)
  have "owner_ok (pg_results s) ?w" using wok by (auto simp: owner_ok_def g(2))
  moreover have "mset (owner_addrs ?w) + mset X = mset (owner_addrs w) + mset X"
    by (simp add: owner_addrs_def comp_def g(1))
  moreover have "st_event ` set (rs_states r) \<subseteq> ev_addr ` set (ow_events ?w @ ow_retired ?w)"
    if "r \<in> set (pg_results s)" "rs_owner r = a" for r
    using owner_events_kept [OF ok w that] by (simp add: image_Un addrs(2))
  ultimately show ?thesis
    using wok by (intro replace_owner [OF ok w refl]) (auto simp del: mset_map)
qed

lemma register_accept_inv:
  assumes ok: "pg_ok F [] s" and kept: "rest_kept a s" and w: "owner_at s a = Some w" "\<not> ow_closed w" "ow_native_registered w"
  shows "pg_inv F (upd_owner a (\<lambda>w. w\<lparr>ow_events := map (\<lambda>e. if ev_addr e = ea then e\<lparr>ev_registered := True\<rparr> else e) (ow_events w)\<rparr>) s)"
proof -
  let ?f = "\<lambda>w. w\<lparr>ow_events := map (\<lambda>e. if ev_addr e = ea then e\<lparr>ev_registered := True\<rparr> else e) (ow_events w)\<rparr>"
  have "pg_ok F [] (upd_owner a ?f s)" by (rule map_events_ok [OF ok w(1)]) simp_all
  then show ?thesis
    by (rule rest_kept_inv [OF _ rest_kept_upd [OF kept, of ?f] owner_at_upd [OF ok w(1), of ?f]])
      (use w owner_at_ok [OF ok w(1)] in auto)
qed

lemma register_with_eq:
  assumes "cpkt_postgres_event_allocate W s = (Some ea, s1)" "owner_at s1 a = Some w"
    and "s2 = upd_owner a (\<lambda>w. w\<lparr>ow_events := ow_events w @ [\<lparr>ev_addr = ea, ev_callback = cb, ev_context = ctx, ev_data = 0,
      ev_registered = False, ev_owner = a\<rparr>]\<rparr>) s1"
    and "s3 = (if \<not> ow_native_registered w then upd_owner a (\<lambda>w. w\<lparr>ow_native_registered := True\<rparr>) s2 else s2)"
    and "cpkt_postgres_event_call W ea CPKT_POSTGRES_EVENT_REGISTER (no_info\<lparr>if_event := ea, if_connection := c\<rparr>) s3 = (yes, s4)"
  shows "register_with W a c cb ctx s =
    (if \<not> ow_native_registered w \<and> \<not> pq_register W (pg_allocs s2) then (None, registration_failed a ea s2)
     else if yes
     then (Some ea, upd_owner a (\<lambda>w. w\<lparr>ow_events := map (\<lambda>e. if ev_addr e = ea then e\<lparr>ev_registered := True\<rparr> else e) (ow_events w)\<rparr>) s4)
     else (None, registration_failed a ea s4))"
  using assms by (cases "ow_native_registered w") (simp_all add: register_with_def Let_def)

lemma add_event:
  assumes ok: "pg_ok F [ea] s" and w: "owner_at s a = Some w" "\<not> ow_closed w"
    and e: "ev_addr e = ea" "ev_owner e = a"
  shows "pg_ok F [] (upd_owner a (\<lambda>w. w\<lparr>ow_events := ow_events w @ [e]\<rparr>) s)"
    "owner_at (upd_owner a (\<lambda>w. w\<lparr>ow_events := ow_events w @ [e]\<rparr>) s) a = Some (w\<lparr>ow_events := ow_events w @ [e]\<rparr>)"
proof -
  let ?f = "\<lambda>w. w\<lparr>ow_events := ow_events w @ [e]\<rparr>"
  note wok = owner_at_ok [OF ok w(1)]
  have "owner_ok (pg_results s) (?f w)" using wok e by (auto simp: owner_ok_def)
  moreover have "mset (owner_addrs (?f w)) + mset [] = mset (owner_addrs w) + mset [ea]"
    using e by (simp add: owner_addrs_def)
  moreover have "st_event ` set (rs_states r) \<subseteq> ev_addr ` set (ow_events (?f w) @ ow_retired (?f w))"
    if "r \<in> set (pg_results s)" "rs_owner r = a" for r
    using owner_events_kept [OF ok w(1) that] by auto
  ultimately show "pg_ok F [] (upd_owner a ?f s)"
    using w(2) wok by (intro replace_owner [OF ok w(1) refl]) auto
  show "owner_at (upd_owner a ?f s) a = Some (?f w)" using owner_at_upd [OF ok w(1), of ?f] wok by simp
qed

lemma mark_native:
  assumes ok: "pg_ok F [] s" and w: "owner_at s a = Some w" "\<not> ow_closed w" and k: "rest_kept a s"
    and s': "s' = (if \<not> ow_native_registered w then upd_owner a (\<lambda>w. w\<lparr>ow_native_registered := True\<rparr>) s else s)"
  shows "pg_ok F [] s' \<and> owner_at s' a = Some (w\<lparr>ow_native_registered := True\<rparr>) \<and> rest_kept a s'"
proof (cases "ow_native_registered w")
  case True
  then have "w\<lparr>ow_native_registered := True\<rparr> = w" by (cases w) simp
  then show ?thesis using True ok w k s' by simp
next
  case False
  note wok = owner_at_ok [OF ok w(1)]
  have "pg_ok F [] (upd_owner a (\<lambda>w. w\<lparr>ow_native_registered := True\<rparr>) s)"
    using w(2) wok owner_events_kept [OF ok w(1)]
    by (intro replace_owner [OF ok w(1) refl]) (auto simp: owner_addrs_def owner_ok_def)
  then show ?thesis
    using False owner_at_upd [OF ok w(1), of "\<lambda>w. w\<lparr>ow_native_registered := True\<rparr>"] wok rest_kept_upd [OF k] s' by simp
qed

text \<open>Registering once the registration is linked: the library, then the callback, may refuse.\<close>

lemma register_linked_inv:
  assumes al: "cpkt_postgres_event_allocate W s = (Some ea, s1)" "owner_at s1 a = Some w" "\<not> ow_closed w"
    and un: "ow_native_registered w \<or> ow_events w = []" and p1: "pg_paired G s1"
    and e: "e = \<lparr>ev_addr = ea, ev_callback = cb, ev_context = ctx, ev_data = 0, ev_registered = False, ev_owner = a\<rparr>"
    and s2: "s2 = upd_owner a (\<lambda>w. w\<lparr>ow_events := ow_events w @ [e]\<rparr>) s1"
    and ok2: "pg_ok F [] s2" and at2: "owner_at s2 a = Some (w\<lparr>ow_events := ow_events w @ [e]\<rparr>)" and k2: "rest_kept a s2"
    and reg: "register_with W a c cb ctx s = (p, s')"
  shows "pg_inv F s' \<and> pg_paired G s'"
proof (cases "\<not> ow_native_registered w \<and> \<not> pq_register W (pg_allocs s2)")
  case True
  then have "s' = registration_failed a ea s2"
    using reg al by (simp add: register_with_def Let_def s2 e)
  moreover have un2: "ow_native_registered (w\<lparr>ow_events := ow_events w @ [e]\<rparr>) \<or>
      (\<forall>x \<in> set (ow_events (w\<lparr>ow_events := ow_events w @ [e]\<rparr>)). ev_addr x = ea)"
    using True un e by simp
  ultimately show ?thesis
    using registration_failed_inv [OF ok2 k2 at2 _ _ un2] al(3) paired_lists [OF p1] by (simp add: s2 e)
next
  case False
  define s3 where "s3 = (if \<not> ow_native_registered w then upd_owner a (\<lambda>w. w\<lparr>ow_native_registered := True\<rparr>) s2 else s2)"
  let ?w3 = "(w\<lparr>ow_events := ow_events w @ [e]\<rparr>)\<lparr>ow_native_registered := True\<rparr>"
  let ?info = "no_info\<lparr>if_event := ea, if_connection := c\<rparr>"
  have ok3: "pg_ok F [] s3 \<and> owner_at s3 a = Some ?w3 \<and> rest_kept a s3"
    by (rule mark_native [OF ok2 at2 _ k2]) (simp_all add: al(3) s3_def)
  have l3: "pg_results s3 = pg_results s1" "pg_calls s3 = pg_calls s1" by (simp_all add: s3_def s2)
  have "live_event s3 ea" using owner_events_live [of s3 a ?w3 e] ok3 e by simp
  then obtain cb' ctx' ans where call: "cpkt_postgres_event_call W ea CPKT_POSTGRES_EVENT_REGISTER ?info s3 =
      (ans, s3\<lparr>pg_calls := pg_calls s3 @ [((cb', CPKT_POSTGRES_EVENT_REGISTER, ?info\<lparr>if_event := ea\<rparr>, ctx'), ans)]\<rparr>)"
    by (rule call_live)
  define s4 where "s4 = snd (cpkt_postgres_event_call W ea CPKT_POSTGRES_EVENT_REGISTER ?info s3)"
  have "cpkt_postgres_event_call W ea CPKT_POSTGRES_EVENT_REGISTER ?info s3 = (ans, s4)"
    using call by (simp add: s4_def)
  note eq = register_with_eq [OF al(1,2) s2 [unfolded e] s3_def this]
  have s4: "pg_ok F [] s4" "owner_at s4 a = Some ?w3" "rest_kept a s4" "pg_results s4 = pg_results s1"
    using ok3 call l3 rest_kept_lists [of a s3 s4] by (simp_all add: s4_def)
  have p4: "pg_paired G s4"
    using p1 l3 call by (simp add: s4_def pg_paired_def accepts_def destroys_def)
  show ?thesis
  proof (cases ans)
    case True
    have "s' = upd_owner a (\<lambda>w. w\<lparr>ow_events := map (\<lambda>e. if ev_addr e = ea then e\<lparr>ev_registered := True\<rparr> else e) (ow_events w)\<rparr>) s4"
      using reg False True unfolding eq by auto
    then show ?thesis
      using register_accept_inv [OF s4(1,3,2)] al(3) paired_lists [OF p4] by simp
  next
    case n: False
    have "s' = registration_failed a ea s4"
      using reg False n unfolding eq by auto
    then show ?thesis
      using registration_failed_inv [OF s4(1,3,2)] al(3) paired_lists [OF p4] e by simp
  qed
qed

lemma register_with_inv:
  assumes ok: "pg_ok F [] s" and paired: "pg_paired G s" and kept: "rest_kept a s" and w: "owner_at s a = Some w" "\<not> ow_closed w"
    and un: "ow_native_registered w \<or> ow_events w = []"
    and reg: "register_with W a c cb ctx s = (p, s')"
  shows "pg_inv F s' \<and> pg_paired G s'"
proof -
  obtain q s1 where q: "cpkt_postgres_event_allocate W s = (q, s1)" by fastforce
  note al = allocate_ok [OF ok q]
  have k1: "rest_kept a s1" using rest_kept_lists [OF kept al(2,3)] .
  have at1: "owner_at s1 a = Some w" using w(1) al(2) by (simp add: owner_at_def)
  have p1: "pg_paired G s1" using paired_lists [OF paired al(3,4)] .
  show ?thesis
  proof (cases q)
    case None
    then have ok1: "pg_ok F [] s1" using al(1) by simp
    have "s' = drop_unused_owner a s1" using reg q None by (simp add: register_with_def)
    then show ?thesis
      using drop_unused_inv [OF ok1 k1 at1 w(2) un] paired_lists [OF p1] by simp
  next
    case (Some ea)
    then have ok1: "pg_ok F [ea] s1" using al(1) by simp
    let ?e = "\<lparr>ev_addr = ea, ev_callback = cb, ev_context = ctx, ev_data = 0, ev_registered = False, ev_owner = a\<rparr>"
    have "rest_kept a (upd_owner a (\<lambda>w. w\<lparr>ow_events := ow_events w @ [?e]\<rparr>) s1)"
      by (rule rest_kept_upd [OF k1]) simp
    with register_linked_inv [OF q [unfolded Some] at1 w(2) un p1 refl refl] add_event [OF ok1 at1 w(2), of ?e] reg
    show ?thesis by simp
  qed
qed

lemma inv_rest_kept: "pg_inv F s \<Longrightarrow> rest_kept a s"
  using pg_invD(2,3) by (auto simp: rest_kept_def)

lemma register_inv:
  assumes inv: "pg_inv F s" "pg_paired G s" and reg: "cpkt_postgres_event_register W c cb name ctx s = (p, s')"
  shows "pg_inv F s' \<and> pg_paired G s'"
proof (cases "c = 0 \<or> cb = 0 \<or> name = None \<or> name = Some []")
  case True
  then show ?thesis using reg inv by (auto simp: cpkt_postgres_event_register_def)
next
  case args: False
  note ok = pg_invD(1) [OF inv(1)]
  show ?thesis
  proof (cases "cpkt_postgres_event_find_owner s c")
    case (Some w)
    note f = find_owner_at [OF ok Some]
    have wr: "ow_native_registered w" using pg_invD(2) [OF inv(1)] find_member [OF f(1) [unfolded owner_at_def]] by simp
    show ?thesis
    proof (cases "\<exists>e \<in> set (ow_events w). ev_callback e = cb")
      case True
      then show ?thesis using reg inv args Some by (auto simp: cpkt_postgres_event_register_def)
    next
      case False
      then have "register_with W (ow_addr w) c cb ctx s = (p, s')"
        using reg args Some by (auto simp: cpkt_postgres_event_register_def)
      then show ?thesis
        using register_with_inv [OF ok inv(2) inv_rest_kept [OF inv(1)] f(1,3)] wr by blast
    qed
  next
    case None
    obtain q s1 where q: "cpkt_postgres_event_allocate W s = (q, s1)" by fastforce
    note al = allocate_ok [OF ok q]
    have p1: "pg_paired G s1" using paired_lists [OF inv(2) al(3,4)] .
    show ?thesis
    proof (cases q)
      case n: None
      then have "s' = s1" using reg args None q by (auto simp: cpkt_postgres_event_register_def)
      moreover have "pg_inv F s1" using inv(1) al n by (simp add: pg_inv_def)
      ultimately show ?thesis using p1 by simp
    next
      case q': (Some a)
      let ?w = "\<lparr>ow_addr = a, ow_native = c, ow_events = [], ow_retired = [], ow_result_count = 0,
        ow_closed = False, ow_native_registered = False\<rparr>"
      let ?s2 = "s1\<lparr>pg_owners := ?w # pg_owners s1\<rparr>"
      have n1: "cpkt_postgres_event_find_owner s1 c = None"
        using None al(2) by (simp add: cpkt_postgres_event_find_owner_def)
      have ok2: "pg_ok F [] ?s2" using add_owner [OF _ _ n1 refl, of F a "[]"] al(1) q' args by simp
      have at2: "owner_at ?s2 a = Some ?w" by (simp add: owner_at_def)
      have k2: "rest_kept a ?s2" using inv_rest_kept [OF inv(1), of a] al by (simp add: rest_kept_def)
      have "register_with W a c cb ctx ?s2 = (p, s')"
        using reg args None q q' by (auto simp: cpkt_postgres_event_register_def Let_def)
      then show ?thesis
        using register_with_inv [OF ok2 _ k2 at2] paired_lists [OF p1, of ?s2] by simp
    qed
  qed
qed

section \<open>The other operations\<close>

lemma set_connection_data_inv:
  assumes inv: "pg_inv F s" "pg_paired G s" and d: "cpkt_postgres_event_set_connection_data c e v s = (b, s')"
  shows "pg_inv F s' \<and> pg_paired G s'"
proof (cases "cpkt_postgres_event_find_owner s c")
  case None
  then show ?thesis using d inv by (simp add: cpkt_postgres_event_set_connection_data_def)
next
  case (Some w)
  note ok = pg_invD(1) [OF inv(1)]
  note f = find_owner_at [OF ok Some]
  let ?f = "\<lambda>w. w\<lparr>ow_events := map (\<lambda>x. if ev_addr x = e then x\<lparr>ev_data := v\<rparr> else x) (ow_events w)\<rparr>"
  let ?t = "upd_owner (ow_addr w) ?f s"
  have "pg_ok F [] ?t" by (rule map_events_ok [OF ok f(1)]) simp_all
  then have "pg_inv F ?t"
    using pg_invD(2) [OF inv(1)] find_member [OF f(1) [unfolded owner_at_def]] f(3)
    by (intro rest_kept_inv [OF _ rest_kept_upd [OF inv_rest_kept [OF inv(1)], of ?f] owner_at_upd [OF ok f(1), of ?f]]) auto
  moreover have "pg_paired G ?t" by (rule paired_lists [OF inv(2)]) simp_all
  ultimately show ?thesis
    using d Some inv by (auto simp: cpkt_postgres_event_set_connection_data_def split: if_splits)
qed

lemma store_data_same:
  "map st_addr (store_data e d ts) = map st_addr ts" "map st_event (store_data e d ts) = map st_event ts"
  "init_count x (store_data e d ts) = init_count x ts" "map st_initialized (store_data e d ts) = map st_initialized ts"
  by (induction ts) auto

lemma set_result_data_inv:
  assumes inv: "pg_inv F s" "pg_paired G s" and d: "cpkt_postgres_event_set_result_data n e v s = (b, s')"
  shows "pg_inv F s' \<and> pg_paired G s'"
proof (cases "cpkt_postgres_event_find_result s n")
  case None
  then show ?thesis using d inv by (simp add: cpkt_postgres_event_set_result_data_def)
next
  case (Some r)
  note r = find_result_member [OF Some]
  let ?f = "\<lambda>r. r\<lparr>rs_states := store_data e v (rs_states r)\<rparr>"
  have "\<forall>t \<in> set (rs_states (?f r)). \<not> st_initialized t" if "F" "\<not> rs_native_initialized (?f r)"
  proof -
    have "\<forall>t \<in> set (rs_states r). \<not> st_initialized t"
      using that r pg_invD(1) [OF inv(1)] by (auto simp: pg_ok_def result_ok_def)
    then have "True \<notin> set (map st_initialized (rs_states r))" by auto
    then have "True \<notin> set (map st_initialized (store_data e v (rs_states r)))" unfolding store_data_same(4) .
    then show ?thesis by auto
  qed
  then have "pg_inv F (upd_result (rs_addr r) ?f (s\<lparr>pg_calls := pg_calls s @ []\<rparr>)) \<and>
      pg_paired G (upd_result (rs_addr r) ?f (s\<lparr>pg_calls := pg_calls s @ []\<rparr>))"
    using r by (intro replace_result_inv [OF inv]) (simp_all add: store_data_same)
  then show ?thesis
    using d Some inv by (auto simp: cpkt_postgres_event_set_result_data_def split: option.splits)
qed

lemma prepare_result_inv:
  assumes inv: "pg_inv F s" "pg_paired G s" and len: "length (pg_results s) + 1 < 2 ^ 32"
    and d: "cpkt_postgres_event_prepare_result W c n s = (b, s')"
  shows "pg_inv F s' \<and> pg_paired G s'"
proof (cases "c = 0 \<or> n = 0 \<or> cpkt_postgres_event_find_owner s c = None \<or> cpkt_postgres_event_find_result s n \<noteq> None")
  case True
  then show ?thesis using d inv by (auto simp: cpkt_postgres_event_prepare_result_def split: option.splits)
next
  case False
  then obtain w where w: "cpkt_postgres_event_find_owner s c = Some w" "cpkt_postgres_event_find_result s n = None" by auto
  obtain p s1 where mk: "cpkt_postgres_event_make_result W (ow_addr w) n None s = (p, s1)" by fastforce
  note at = find_owner_at(1) [OF pg_invD(1) [OF inv(1)] w(1)]
  have "pg_inv F s1 \<and> pg_paired G s1"
    by (rule make_result_inv [OF inv at find_result_none [OF w(2)] len frozen_registered [OF pg_invD(1) [OF inv(1)] at] mk])
  then show ?thesis using d False w mk by (simp add: cpkt_postgres_event_prepare_result_def)
qed

lemma prepare_copy_inv:
  assumes inv: "pg_inv F s" "pg_paired G s" and len: "length (pg_results s) + 1 < 2 ^ 32"
    and d: "cpkt_postgres_event_prepare_copy W src dest k s = (b, s')"
  shows "pg_inv F s' \<and> pg_paired G s'"
proof (cases "src = 0 \<or> dest = 0 \<or> \<not> k \<or> cpkt_postgres_event_find_result s src = None \<or> cpkt_postgres_event_find_result s dest \<noteq> None")
  case True
  then show ?thesis using d inv by (auto simp: cpkt_postgres_event_prepare_copy_def split: option.splits)
next
  case False
  then obtain r where r: "cpkt_postgres_event_find_result s src = Some r" "cpkt_postgres_event_find_result s dest = None" by auto
  note ok = pg_invD(1) [OF inv(1)]
  have rm: "r \<in> set (pg_results s)" using find_result_member [OF r(1)] by simp
  obtain w where w: "owner_at s (rs_owner r) = Some w" using unlink_result(2) [OF ok rm] by blast
  obtain p s1 where mk: "cpkt_postgres_event_make_result W (rs_owner r) dest (Some r) s = (p, s1)" by fastforce
  have "set (frozen_events w (Some r)) \<subseteq> ev_addr ` set (ow_events w @ ow_retired w)" "distinct (frozen_events w (Some r))"
    using owner_events_kept [OF ok w rm refl] ok rm by (auto simp: frozen_events_def pg_ok_def result_ok_def)
  from make_result_inv [OF inv w find_result_none [OF r(2)] len this mk] show ?thesis
    using d False r mk by (simp add: cpkt_postgres_event_prepare_copy_def)
qed

text \<open>
  A library whose \<open>PQfireResultCreateEvents\<close> reaches the dispatcher for every result that has an entry and
  is not yet initialised.
\<close>

definition fires_ok :: "pg_world \<Rightarrow> bool" where
  "fires_ok W \<longleftrightarrow> (\<forall>s c n r. cpkt_postgres_event_find_result s n = Some r \<and> \<not> rs_native_initialized r \<longrightarrow>
     pq_fires W s c n \<noteq> None)"

lemma fire_inv:
  assumes inv: "pg_inv F s" "pg_paired G s" and len: "length (pg_results s) + 1 < 2 ^ 32"
    and lib: "\<And>a. pq_fires W s c n = Some a \<Longrightarrow> owner_at s a \<noteq> None" and flag: "F \<Longrightarrow> fires_ok W"
    and d: "cpkt_postgres_event_fire_result_create W c n s = (b, s')"
  shows "pg_inv F s' \<and> pg_paired G s'"
proof -
  obtain ok s1 where f: "(case pq_fires W s c n of None \<Rightarrow> (True, s)
      | Some a \<Rightarrow> cpkt_postgres_native_event W (PGEVT_RESULTCREATE c n) a s) = (ok, s1)" by fastforce
  have i1: "pg_inv F s1 \<and> pg_paired G s1 \<and> (ok \<and> F \<longrightarrow> (\<forall>r. cpkt_postgres_event_find_result s1 n = Some r \<longrightarrow> rs_native_initialized r))"
  proof (cases "pq_fires W s c n")
    case None
    then have "s1 = s" using f by simp
    moreover have "rs_native_initialized r" if "F" "cpkt_postgres_event_find_result s n = Some r" for r
      using flag [OF that(1)] that(2) None unfolding fires_ok_def by blast
    ultimately show ?thesis using inv by simp
  next
    case (Some a)
    then obtain w where w: "owner_at s a = Some w" using lib by auto
    have "dispatch_create W a c n s = (ok, s1)" using f Some by (simp add: cpkt_postgres_native_event_def)
    note i = dispatch_create_inv [OF inv w len this]
    have "r = x" if "r \<in> set (pg_results s1)" "x \<in> set (pg_results s1)" "rs_native r = rs_native x" for r x
      using i that inj_on_contraD [of rs_native "set (pg_results s1)"] by (auto simp: pg_inv_def pg_ok_def distinct_map)
    then show ?thesis using i find_result_member by metis
  qed
  show ?thesis
  proof (cases "\<exists>r. ok \<and> cpkt_postgres_event_find_result s1 n = Some r \<and>
      rs_create_fired_count r = (case cpkt_postgres_event_find_result s n of None \<Rightarrow> 0 | Some r \<Rightarrow> rs_create_fired_count r)")
    case False
    then have "s' = s1"
      using d f by (auto simp: cpkt_postgres_event_fire_result_create_def Let_def split: if_splits option.splits)
    then show ?thesis using i1 by simp
  next
    case True
    then obtain r where r: "ok" "cpkt_postgres_event_find_result s1 n = Some r"
        "rs_create_fired_count r = (case cpkt_postgres_event_find_result s n of None \<Rightarrow> 0 | Some r \<Rightarrow> rs_create_fired_count r)" by blast
    have cr: "cpkt_postgres_event_create W r c s1 = (b, s')"
      using d f r by (simp add: cpkt_postgres_event_fire_result_create_def Let_def)
    have rm: "r \<in> set (pg_results s1)" "F \<Longrightarrow> rs_native_initialized r" using find_result_member [OF r(2)] i1 r by auto
    obtain cs ts where cs: "s' = upd_result (rs_addr r) (\<lambda>r. r\<lparr>rs_states := ts\<rparr>) (s1\<lparr>pg_calls := pg_calls s1 @ cs\<rparr>)"
        "map st_addr ts = map st_addr (rs_states r)" "map st_event ts = map st_event (rs_states r)"
        "\<forall>n e. destroyed n e cs = 0 \<and> accepted n e cs + (if n = rs_native r then init_count e (rs_states r) else 0) =
          (if n = rs_native r then init_count e ts else 0)"
      using create_spec [OF pg_invD(1) rm(1) cr] i1 by blast
    show ?thesis
      unfolding cs(1) using i1 by (intro replace_result_inv) (use rm cs(2-4) in auto)
  qed
qed

section \<open>Runs\<close>

text \<open>
  What happens to the registry: calls by the application and the facade, and events that the library
  dispatches, with the entries that are dropped without a destruction.  The library gives the dispatcher
  the owner it was registered with: a live one, for a connection event the open one of the connection,
  for a copy or a destruction the one of the result's entry.  A copy has a fresh address, and there are
  never \<open>2 ^ 32\<close> results.  Whether \<open>PQfireResultCreateEvents\<close> reaches the dispatcher is left open.
\<close>

inductive pg_step :: "pg_world \<Rightarrow> pg \<Rightarrow> cpkt_postgres_event_result list \<Rightarrow> pg \<Rightarrow> bool" for W where
  step_register: "cpkt_postgres_event_register W c cb name ctx s = (p, s') \<Longrightarrow> pg_step W s [] s'"
| step_connection_data: "cpkt_postgres_event_set_connection_data c e v s = (b, s') \<Longrightarrow> pg_step W s [] s'"
| step_result_data: "cpkt_postgres_event_set_result_data n e v s = (b, s') \<Longrightarrow> pg_step W s [] s'"
| step_reset: "owner_at s a = Some w \<Longrightarrow> ow_native w = c \<Longrightarrow> \<not> ow_closed w \<Longrightarrow>
    cpkt_postgres_native_event W (PGEVT_CONNRESET c) a s = (b, s') \<Longrightarrow> pg_step W s [] s'"
| step_close: "owner_at s a = Some w \<Longrightarrow> ow_native w = c \<Longrightarrow> \<not> ow_closed w \<Longrightarrow>
    cpkt_postgres_native_event W (PGEVT_CONNDESTROY c) a s = (b, s') \<Longrightarrow> pg_step W s [] s'"
| step_create: "owner_at s a = Some w \<Longrightarrow> length (pg_results s) + 1 < 2 ^ 32 \<Longrightarrow>
    cpkt_postgres_native_event W (PGEVT_RESULTCREATE c n) a s = (b, s') \<Longrightarrow> pg_step W s [] s'"
| step_copy: "(\<And>r. cpkt_postgres_event_find_result s src = Some r \<Longrightarrow> rs_owner r = a) \<Longrightarrow>
    cpkt_postgres_event_find_result s dest = None \<Longrightarrow> length (pg_results s) + 1 < 2 ^ 32 \<Longrightarrow>
    cpkt_postgres_native_event W (PGEVT_RESULTCOPY src dest) a s = (b, s') \<Longrightarrow> pg_step W s [] s'"
| step_destroy: "(\<And>r. cpkt_postgres_event_find_result s n = Some r \<Longrightarrow> rs_owner r = a) \<Longrightarrow>
    cpkt_postgres_native_event W (PGEVT_RESULTDESTROY n) a s = (b, s') \<Longrightarrow> pg_step W s [] s'"
| step_fire: "length (pg_results s) + 1 < 2 ^ 32 \<Longrightarrow>
    (\<And>a. pq_fires W s c n = Some a \<Longrightarrow> owner_at s a \<noteq> None) \<Longrightarrow>
    cpkt_postgres_event_fire_result_create W c n s = (b, s') \<Longrightarrow> pg_step W s [] s'"
| step_prepare: "length (pg_results s) + 1 < 2 ^ 32 \<Longrightarrow>
    cpkt_postgres_event_prepare_result W c n s = (b, s') \<Longrightarrow> pg_step W s [] s'"
| step_prepare_copy: "length (pg_results s) + 1 < 2 ^ 32 \<Longrightarrow>
    cpkt_postgres_event_prepare_copy W src dest k s = (b, s') \<Longrightarrow> pg_step W s [] s'"
| step_release: "pg_step W s (dropped_by n s) (cpkt_postgres_event_release_uninitialized n s)"

text \<open>A run reaches a state; \<open>G\<close> collects the entries dropped without a destruction.\<close>

inductive pg_run :: "pg_world \<Rightarrow> cpkt_postgres_event_result list \<Rightarrow> pg \<Rightarrow> bool" for W where
  run_init: "pg_run W [] pg_init"
| run_step: "pg_run W G s \<Longrightarrow> pg_step W s D s' \<Longrightarrow> pg_run W (D @ G) s'"

definition pg_reachable :: "pg_world \<Rightarrow> pg \<Rightarrow> bool" where
  "pg_reachable W s \<longleftrightarrow> (\<exists>G. pg_run W G s)"

lemma pg_init_inv: "pg_inv F pg_init" "pg_paired [] pg_init"
  by (simp_all add: pg_init_def pg_inv_def pg_ok_def all_addrs_def pg_paired_def)

lemma pg_step_inv:
  assumes "pg_step W s D s'" "pg_inv F s" "pg_paired G s" "F \<Longrightarrow> fires_ok W"
  shows "pg_inv F s' \<and> pg_paired (D @ G) s' \<and> (F \<longrightarrow> pending D m x = 0)"
  using assms(1)
proof cases
  case (step_reset a w c b)
  obtain cs where cs: "dispatch_connection W a CPKT_POSTGRES_EVENT_CONNECTION_RESET c s = s\<lparr>pg_calls := pg_calls s @ cs\<rparr>"
      "\<forall>n e. accepted n e cs = 0 \<and> destroyed n e cs = 0"
    using dispatch_connection_spec [OF step_reset(2)] by blast
  have "s' = s\<lparr>pg_calls := pg_calls s @ cs\<rparr>"
    using step_reset(5) cs(1) by (simp add: cpkt_postgres_native_event_def)
  then show ?thesis using step_reset(1) assms(2) calls_inv calls_paired [OF assms(3) cs(2)] by simp
next
  case (step_close a w c b)
  obtain cs where cs: "dispatch_connection W a CPKT_POSTGRES_EVENT_CONNECTION_DESTROY c s = s\<lparr>pg_calls := pg_calls s @ cs\<rparr>"
      "\<forall>n e. accepted n e cs = 0 \<and> destroyed n e cs = 0"
    using dispatch_connection_spec [OF step_close(2)] by blast
  have "owner_at (s\<lparr>pg_calls := pg_calls s @ cs\<rparr>) a = Some w" using step_close(2) by simp
  from close_owner_inv [OF _ calls_paired [OF assms(3) cs(2)] this] show ?thesis
    using step_close(1,5) assms(2) calls_inv cs(1) by (auto simp: cpkt_postgres_native_event_def)
next
  case (step_create a w c n b)
  then show ?thesis using dispatch_create_inv [OF assms(2,3)] by (auto simp: cpkt_postgres_native_event_def)
next
  case (step_copy src a dest b)
  then show ?thesis
    using dispatch_copy_inv [OF assms(2,3), of src a dest] find_result_none [OF step_copy(3)]
    by (simp add: cpkt_postgres_native_event_def)
next
  case (step_destroy n a b)
  then show ?thesis
    using dispatch_destroy_inv [OF assms(2,3), of n a W] by (auto simp: cpkt_postgres_native_event_def)
next
  case (step_register c cb name ctx p)
  then show ?thesis using register_inv [OF assms(2,3)] by simp
next
  case (step_connection_data c e v b)
  then show ?thesis using set_connection_data_inv [OF assms(2,3)] by simp
next
  case (step_result_data n e v b)
  then show ?thesis using set_result_data_inv [OF assms(2,3)] by simp
next
  case (step_fire c n b)
  then show ?thesis using fire_inv [OF assms(2,3) step_fire(2) _ assms(4) step_fire(4)] by simp
next
  case (step_prepare c n b)
  then show ?thesis using prepare_result_inv [OF assms(2,3) step_prepare(2,3)] by simp
next
  case (step_prepare_copy src dest k b)
  then show ?thesis using prepare_copy_inv [OF assms(2,3) step_prepare_copy(2,3)] by simp
next
  case (step_release n)
  then show ?thesis using release_uninitialized_inv [OF assms(2,3)] by simp
qed

lemma pg_run_inv:
  assumes "pg_run W G s" "F \<Longrightarrow> fires_ok W"
  shows "pg_inv F s \<and> pg_paired G s \<and> (F \<longrightarrow> pending G n e = 0)"
  using assms(1)
proof (induction rule: pg_run.induct)
  case run_init
  show ?case by (simp add: pg_init_inv)
next
  case (run_step G s D s')
  then show ?case
    using pg_step_inv [OF run_step.hyps(2) _ _ assms(2), where G = G and m = n and x = e] by auto
qed

lemma pg_reachable_inv: "pg_reachable W s \<Longrightarrow> pg_inv False s"
  unfolding pg_reachable_def using pg_run_inv [where F = False] by blast

section \<open>A run\<close>

definition quiet_pg :: pg_world where
  "quiet_pg = \<lparr>alloc_ok = \<lambda>_. True, app = \<lambda>_ _. True, pq_register = \<lambda>_. True, pq_fires = \<lambda>_ _ _. None\<rparr>"

definition run_registered :: pg where
  "run_registered = snd (cpkt_postgres_event_register quiet_pg 7 3 (Some ''log'') 5 pg_init)"

definition run_created :: pg where
  "run_created = snd (cpkt_postgres_native_event quiet_pg (PGEVT_RESULTCREATE 7 11) 1 run_registered)"

definition run_closed :: pg where
  "run_closed = snd (cpkt_postgres_native_event quiet_pg (PGEVT_CONNDESTROY 7) 1 run_created)"

definition run_destroyed :: pg where
  "run_destroyed = snd (cpkt_postgres_native_event quiet_pg (PGEVT_RESULTDESTROY 11) 1 run_closed)"

lemmas pg_run_defs = quiet_pg_def pg_init_def cpkt_postgres_event_register_def register_with_def
  cpkt_postgres_event_allocate_def cpkt_postgres_event_find_owner_def upd_owner_def owner_at_def event_at_def
  cpkt_postgres_event_call_def cpkt_postgres_native_event_def dispatch_create_def cpkt_postgres_event_find_result_def
  cpkt_postgres_event_make_result_def frozen_events_def cpkt_postgres_event_create_def upd_result_def
  dispatch_connection_def claim_and_dispose_def cpkt_postgres_event_claim_disposal_locked_def dispatch_destroy_def
  drop_result_def pg_free_def pg_free_all_def cpkt_postgres_event_dispose_owner_def Let_def

lemma run_registered_value:
  "run_registered = \<lparr>pg_owners = [\<lparr>ow_addr = 1, ow_native = 7,
       ow_events = [\<lparr>ev_addr = 2, ev_callback = 3, ev_context = 5, ev_data = 0, ev_registered = True, ev_owner = 1\<rparr>],
       ow_retired = [], ow_result_count = 0, ow_closed = False, ow_native_registered = True\<rparr>],
     pg_results = [], pg_heap = [2, 1], pg_next = 3, pg_allocs = 2,
     pg_calls = [((3, CPKT_POSTGRES_EVENT_REGISTER, no_info\<lparr>if_event := 2, if_connection := 7\<rparr>, 5), True)], pg_fault = False\<rparr>"
  by (simp add: run_registered_def pg_run_defs)

lemma run_created_value:
  "run_created = run_registered\<lparr>pg_owners := map (\<lambda>w. w\<lparr>ow_result_count := 1\<rparr>) (pg_owners run_registered),
     pg_results := [\<lparr>rs_addr = 3, rs_native = 11, rs_owner = 1,
       rs_states = [\<lparr>st_addr = 4, st_event = 2, st_data = 0, st_initialized = True\<rparr>],
       rs_create_fired_count = 1, rs_last_create_complete = True, rs_native_initialized = True\<rparr>],
     pg_heap := [4, 3, 2, 1], pg_next := 5, pg_allocs := 4,
     pg_calls := pg_calls run_registered @
       [((3, CPKT_POSTGRES_EVENT_RESULT_CREATE, no_info\<lparr>if_event := 2, if_connection := 7, if_result := 11\<rparr>, 5), True)]\<rparr>"
  by (simp add: run_created_def run_registered_value pg_run_defs c_limits sz_def)

lemma run_closed_value:
  "run_closed = run_created\<lparr>pg_owners := map (\<lambda>w. w\<lparr>ow_closed := True, ow_native := 0\<rparr>) (pg_owners run_created),
     pg_calls := pg_calls run_created @
       [((3, CPKT_POSTGRES_EVENT_CONNECTION_DESTROY, no_info\<lparr>if_event := 2, if_connection := 7\<rparr>, 5), True)]\<rparr>"
  by (simp add: run_closed_def run_created_value run_registered_value pg_run_defs)

lemma run_destroyed_value:
  "run_destroyed = run_closed\<lparr>pg_owners := [], pg_results := [], pg_heap := [],
     pg_calls := pg_calls run_closed @
       [((3, CPKT_POSTGRES_EVENT_RESULT_DESTROY, no_info\<lparr>if_event := 2, if_result := 11\<rparr>, 5), True)]\<rparr>"
  by (simp add: run_destroyed_def run_closed_value run_created_value run_registered_value pg_run_defs)

lemmas run_values = run_destroyed_value run_closed_value run_created_value run_registered_value

lemma run_reachable:
  "pg_run quiet_pg [] run_created" "pg_run quiet_pg [] run_destroyed"
proof -
  note step = run_step [where G = "[]" and D = "[]", simplified]
  have "pg_step quiet_pg pg_init [] run_registered"
    by (rule step_register [of quiet_pg 7 3 "Some ''log''" 5]) (simp add: run_registered_def prod_eq_iff)
  then have r: "pg_run quiet_pg [] run_registered" by (rule step [OF run_init])
  have "pg_step quiet_pg run_registered [] run_created"
    by (rule step_create [where a = 1 and c = 7 and n = 11])
      (simp_all add: run_created_def prod_eq_iff owner_at_def run_registered_value)
  then show c: "pg_run quiet_pg [] run_created" by (rule step [OF r])
  have "pg_step quiet_pg run_created [] run_closed"
    by (rule step_close [where a = 1 and c = 7], simp add: owner_at_def run_created_value run_registered_value)
      (simp_all add: run_closed_def prod_eq_iff)
  then have l: "pg_run quiet_pg [] run_closed" by (rule step [OF c])
  have "pg_step quiet_pg run_closed [] run_destroyed"
    by (rule step_destroy [where a = 1 and n = 11])
      (auto simp: run_destroyed_def prod_eq_iff cpkt_postgres_event_find_result_def run_values)
  then show "pg_run quiet_pg [] run_destroyed" by (rule step [OF l])
qed

lemma run_reaches: "pg_reachable quiet_pg run_created" "pg_reachable quiet_pg run_destroyed"
  using run_reachable by (auto simp: pg_reachable_def)

text \<open>
  A registration, a result prepared by the facade, its creation fired by the application, and its
  release: \<open>W\<close> tells whether the firing reaches the dispatcher.
\<close>

definition run_prepared :: "pg_world \<Rightarrow> pg" where
  "run_prepared W = snd (cpkt_postgres_event_prepare_result W 7 11 (snd (cpkt_postgres_event_register W 7 3 (Some ''log'') 5 pg_init)))"

definition run_fired :: "pg_world \<Rightarrow> pg" where
  "run_fired W = snd (cpkt_postgres_event_fire_result_create W 7 11 (run_prepared W))"

definition run_released :: "pg_world \<Rightarrow> pg" where
  "run_released W = cpkt_postgres_event_release_uninitialized 11 (run_fired W)"

text \<open>A library whose firing reaches the dispatcher.\<close>

definition firing_pg :: pg_world where
  "firing_pg = quiet_pg\<lparr>pq_fires := \<lambda>s c n. map_option rs_owner (cpkt_postgres_event_find_result s n)\<rparr>"

definition run_cleared :: pg where
  "run_cleared = snd (cpkt_postgres_native_event firing_pg (PGEVT_RESULTDESTROY 11) 1 (run_fired firing_pg))"

lemma firing_pg_ok: "fires_ok firing_pg"
  by (simp add: fires_ok_def firing_pg_def)

lemma run_prepared_value:
  assumes "W = quiet_pg \<or> W = firing_pg"
  shows "run_prepared W = run_registered\<lparr>pg_owners := map (\<lambda>w. w\<lparr>ow_result_count := 1\<rparr>) (pg_owners run_registered),
     pg_results := [\<lparr>rs_addr = 3, rs_native = 11, rs_owner = 1,
       rs_states = [\<lparr>st_addr = 4, st_event = 2, st_data = 0, st_initialized = False\<rparr>],
       rs_create_fired_count = 0, rs_last_create_complete = False, rs_native_initialized = False\<rparr>],
     pg_heap := [4, 3, 2, 1], pg_next := 5, pg_allocs := 4\<rparr>"
  using assms by (auto simp: run_prepared_def cpkt_postgres_event_prepare_result_def firing_pg_def run_registered_value pg_run_defs)

lemma run_fired_value:
  "run_fired firing_pg = run_created"
  "run_fired quiet_pg = run_created\<lparr>pg_results := [\<lparr>rs_addr = 3, rs_native = 11, rs_owner = 1,
       rs_states = [\<lparr>st_addr = 4, st_event = 2, st_data = 0, st_initialized = True\<rparr>],
       rs_create_fired_count = 0, rs_last_create_complete = False, rs_native_initialized = False\<rparr>]\<rparr>"
  by (simp_all add: run_fired_def run_prepared_value cpkt_postgres_event_fire_result_create_def run_created_value
      run_registered_value firing_pg_def pg_run_defs c_limits sz_def)

lemma run_fired_steps:
  assumes "W = quiet_pg \<or> W = firing_pg"
  shows "pg_run W [] (run_fired W)"
proof -
  note step = run_step [where G = "[]" and D = "[]", simplified]
  let ?s = "snd (cpkt_postgres_event_register W 7 3 (Some ''log'') 5 pg_init)"
  have s: "?s = run_registered" using assms by (auto simp: run_registered_value firing_pg_def pg_run_defs)
  have "pg_step W pg_init [] ?s"
    by (rule step_register [of W 7 3 "Some ''log''" 5]) (simp add: prod_eq_iff)
  then have r: "pg_run W [] ?s" by (rule step [OF run_init])
  have "pg_step W ?s [] (run_prepared W)"
    by (rule step_prepare [where c = 7 and n = 11]) (simp_all add: s run_registered_value, simp add: run_prepared_def prod_eq_iff s [unfolded run_registered_value])
  then have p: "pg_run W [] (run_prepared W)" by (rule step [OF r])
  have "pg_step W (run_prepared W) [] (run_fired W)"
  proof (rule step_fire [where c = 7 and n = 11])
    show "length (pg_results (run_prepared W)) + 1 < 2 ^ 32" using assms by (simp add: run_prepared_value)
    show "owner_at (run_prepared W) a \<noteq> None" if "pq_fires W (run_prepared W) 7 11 = Some a" for a
      using assms that
      by (auto simp: run_prepared_value run_registered_value quiet_pg_def firing_pg_def owner_at_def cpkt_postgres_event_find_result_def)
    show "cpkt_postgres_event_fire_result_create W 7 11 (run_prepared W) =
        (fst (cpkt_postgres_event_fire_result_create W 7 11 (run_prepared W)), run_fired W)"
      by (simp add: run_fired_def)
  qed
  then show ?thesis by (rule step [OF p])
qed

lemma run_cleared_step: "pg_run firing_pg [] run_cleared"
proof -
  have "pg_step firing_pg (run_fired firing_pg) [] run_cleared"
    by (rule step_destroy [where a = 1 and n = 11])
      (auto simp: run_cleared_def prod_eq_iff cpkt_postgres_event_find_result_def run_fired_value run_values)
  then show ?thesis
    using run_step [OF run_fired_steps [of firing_pg]] by simp
qed

text \<open>
  The defect of the fallback: when the firing does not reach the dispatcher, the creation is told by the
  facade itself, which does not mark the entry as initialised; a release then drops the entry, and the
  registration that has accepted the result never hears of its destruction.
\<close>

lemma fallback_create_unpaired:
  "pg_run quiet_pg (dropped_by 11 (run_fired quiet_pg)) (run_released quiet_pg) \<and>
   accepted 11 2 (pg_calls (run_released quiet_pg)) = 1 \<and> destroyed 11 2 (pg_calls (run_released quiet_pg)) = 0 \<and>
   cpkt_postgres_event_find_result (run_released quiet_pg) 11 = None"
proof -
  have "pg_run quiet_pg (dropped_by 11 (run_fired quiet_pg)) (run_released quiet_pg)"
    using run_step [OF run_fired_steps [of quiet_pg] step_release [of quiet_pg _ 11]] by (simp add: run_released_def)
  moreover have "accepted 11 2 (pg_calls (run_released quiet_pg)) = 1 \<and> destroyed 11 2 (pg_calls (run_released quiet_pg)) = 0 \<and>
      cpkt_postgres_event_find_result (run_released quiet_pg) 11 = None"
    unfolding run_released_def run_fired_value run_created_value run_registered_value
    by (simp add: cpkt_postgres_event_release_uninitialized_def cpkt_postgres_event_result_release_def
        pg_run_defs accepts_def destroys_def)
  ultimately show ?thesis by simp
qed

section \<open>Properties\<close>

text \<open>
  C19: Whatever the application, the facade and the library do with it, the registry frees every block at
  most once and uses none after it was freed; the blocks it holds are exactly those of its owners, their
  registrations and its entries; an owner's counter is the number of its entries, and every entry belongs
  to a live owner that still holds the registrations the entry has frozen.  When all connections are
  closed and no entry is left, nothing is.
\<close>

theorem registry_memory:
  assumes "pg_reachable W s"
  shows "\<not> pg_fault s \<and> mset (pg_heap s) = mset (all_addrs (pg_owners s) (pg_results s)) \<and> distinct (pg_heap s) \<and>
    (\<forall>w \<in> set (pg_owners s). ow_result_count w = results_of (pg_results s) (ow_addr w)) \<and>
    (\<forall>r \<in> set (pg_results s). \<exists>w \<in> set (pg_owners s). ow_addr w = rs_owner r \<and>
       st_event ` set (rs_states r) \<subseteq> ev_addr ` set (ow_events w @ ow_retired w)) \<and>
    (pg_results s = [] \<and> (\<forall>w \<in> set (pg_owners s). ow_closed w) \<longrightarrow> pg_owners s = [] \<and> pg_heap s = [])"
proof -
  have inv: "pg_inv False s" using pg_reachable_inv [OF assms] by simp
  then have "pg_owners s = [] \<and> pg_heap s = []" if "pg_results s = []" "\<forall>w \<in> set (pg_owners s). ow_closed w"
    using that by (cases "pg_owners s") (auto simp: pg_inv_def pg_ok_def owner_ok_def results_of_def all_addrs_def)
  then show ?thesis using inv by (auto simp: pg_inv_def pg_ok_def owner_ok_def result_ok_def)
qed

theorem registry_memory_witness:
  "mset (pg_heap run_created) = {#1, 2, 3, 4#} \<and> \<not> pg_fault run_created \<and>
   pg_owners run_destroyed = [] \<and> pg_heap run_destroyed = []"
  using registry_memory [OF run_reaches(1)] registry_memory [OF run_reaches(2)]
  by (simp add: run_values all_addrs_def owner_addrs_def result_addrs_def)

lemma pending_le_one:
  assumes "pg_ok F X s"
  shows "pending (pg_results s) n e \<le> 1"
proof -
  have "init_count e ts \<le> 1" if "distinct (map st_event ts)" for ts
    using that by (induction ts) (auto simp: init_count_def filter_empty_conv image_iff)
  then have "init_count e (rs_states r) \<le> 1" if "r \<in> set (pg_results s)" for r
    using assms that by (auto simp: pg_ok_def result_ok_def)
  moreover have "pending rs n e \<le> 1" if "distinct (map rs_native rs)" "\<forall>r \<in> set rs. init_count e (rs_states r) \<le> 1" for rs
    using that
  proof (induction rs)
    case (Cons r rs)
    have "pending rs n e = 0" if "rs_native r = n"
    proof -
      have "filter (\<lambda>x. rs_native x = n) rs = []" using Cons.prems(1) that by (auto simp: filter_empty_conv image_iff)
      then show ?thesis by (simp add: pending_def)
    qed
    then show ?case using Cons by auto
  qed simp
  ultimately show ?thesis using assms by (auto simp: pg_ok_def)
qed

text \<open>
  C20: Creations and destructions are accounted for.  For every result and every registration, the calls in
  which its callback accepted the result's creation or copy are one for each destruction it was told of,
  one more while an entry of the result holds it initialised (at most one does), and one for each entry
  of the result that held it initialised when a release dropped it without a destruction.  There is
  none of the last kind where \<open>PQfireResultCreateEvents\<close> reaches the dispatcher for every result that has an
  entry and is not yet initialised; then, without an entry, accepted and destroyed are equal.  In every
  case no callback is told of more destructions than it has accepted creations.
\<close>

theorem registry_pairing:
  assumes "pg_run W G s"
  shows "accepted n e (pg_calls s) = destroyed n e (pg_calls s) + pending (pg_results s) n e + pending G n e \<and>
    pending (pg_results s) n e \<le> 1 \<and>
    (cpkt_postgres_event_find_result s n = None \<longrightarrow> pending (pg_results s) n e = 0) \<and>
    (fires_ok W \<longrightarrow> pending G n e = 0)"
proof (intro conjI impI)
  have inv: "pg_inv False s \<and> pg_paired G s" using pg_run_inv [OF assms, of False] by blast
  then show "accepted n e (pg_calls s) = destroyed n e (pg_calls s) + pending (pg_results s) n e + pending G n e"
    by (simp add: pg_paired_def)
  show "pending (pg_results s) n e \<le> 1"
    using pending_le_one inv by (auto simp: pg_inv_def)
  show "pending (pg_results s) n e = 0" if "cpkt_postgres_event_find_result s n = None"
    using that by (auto simp: pending_def cpkt_postgres_event_find_result_def find_None_iff filter_empty_conv)
  show "pending G n e = 0" if "fires_ok W"
    using pg_run_inv [OF assms, of True] that by blast
qed

theorem registry_pairing_witness:
  "accepted 11 2 (pg_calls (run_fired firing_pg)) = 1 \<and> destroyed 11 2 (pg_calls (run_fired firing_pg)) = 0 \<and>
   accepted 11 2 (pg_calls run_cleared) = 1 \<and> destroyed 11 2 (pg_calls run_cleared) = 1 \<and>
   accepted 11 2 (pg_calls (run_released quiet_pg)) =
     destroyed 11 2 (pg_calls (run_released quiet_pg)) + pending (dropped_by 11 (run_fired quiet_pg)) 11 2"
proof -
  have "pending (pg_results (run_fired firing_pg)) 11 2 = 1" "accepted 11 2 (pg_calls (run_fired firing_pg)) = 1"
      "pending (pg_results run_cleared) 11 2 = 0" "accepted 11 2 (pg_calls run_cleared) = 1"
    unfolding run_cleared_def run_fired_value run_created_value run_registered_value
    by (simp_all add: pg_run_defs firing_pg_def accepts_def init_count_def)
  moreover have "pending (pg_results (run_released quiet_pg)) 11 2 = 0"
    using registry_pairing [of quiet_pg _ "run_released quiet_pg" 11 2] fallback_create_unpaired by blast
  ultimately show ?thesis
    using registry_pairing [OF run_fired_steps [of firing_pg], of 11 2] registry_pairing [OF run_cleared_step, of 11 2]
      registry_pairing [of quiet_pg _ "run_released quiet_pg" 11 2] fallback_create_unpaired
    by auto
qed

lemma find_map_kept: "(\<And>x. P (f x) = P x) \<Longrightarrow> find P (map f xs) = map_option f (find P xs)"
  by (induction xs) auto

lemma set_connection_data_get:
  assumes "pg_ok F [] s" "cpkt_postgres_event_set_connection_data c e v s = (b, s')"
  shows "if b then cpkt_postgres_event_connection_data c' e' s' =
      (if c' = c \<and> e' = e then v else cpkt_postgres_event_connection_data c' e' s) else s' = s"
proof (cases b)
  case True
  then obtain w where w: "cpkt_postgres_event_find_owner s c = Some w" "e \<in> ev_addr ` set (ow_events w)"
    and s': "s' = upd_owner (ow_addr w) (\<lambda>w. w\<lparr>ow_events := map (\<lambda>v'. if ev_addr v' = e then v'\<lparr>ev_data := v\<rparr> else v') (ow_events w)\<rparr>) s"
    using assms(2) by (auto simp: cpkt_postgres_event_set_connection_data_def cpkt_postgres_event_contains_def
        split: option.splits if_splits)
  note f = find_owner_at [OF assms(1) w(1)]
  let ?h = "\<lambda>v'. if ev_addr v' = e then v'\<lparr>ev_data := v\<rparr> else v'"
  let ?g = "\<lambda>x. if ow_addr x = ow_addr w then x\<lparr>ow_events := map ?h (ow_events x)\<rparr> else x"
  have o: "cpkt_postgres_event_find_owner s' c' = map_option ?g (cpkt_postgres_event_find_owner s c')"
    using f(1) unfolding s' upd_owner_def cpkt_postgres_event_find_owner_def by (simp add: find_map_kept)
  have h: "find (\<lambda>x. ev_addr x = e') (map ?h es) = map_option ?h (find (\<lambda>x. ev_addr x = e') es)" for es
    by (rule find_map_kept) simp
  have same: "x = w" if "cpkt_postgres_event_find_owner s c' = Some x" "ow_addr x = ow_addr w" for x
    using find_owner_at(1) [OF assms(1) that(1)] f(1) unfolding that(2) by simp
  have found: "find (\<lambda>x. ev_addr x = e) (ow_events w) \<noteq> None"
    using w(2) by (auto simp: find_None_iff)
  have cw: "c' = c" if "cpkt_postgres_event_find_owner s c' = Some w"
    using that w(1) by (auto simp: cpkt_postgres_event_find_owner_def dest: find_member)
  have "cpkt_postgres_event_connection_data c' e' s' =
      (if c' = c \<and> e' = e then v else cpkt_postgres_event_connection_data c' e' s)"
  proof (cases "cpkt_postgres_event_find_owner s c'")
    case None
    then show ?thesis using o w(1) by (auto simp: cpkt_postgres_event_connection_data_def)
  next
    case (Some x)
    show ?thesis
    proof (cases "ow_addr x = ow_addr w")
      case True
      then have "x = w" "c' = c" using same cw Some by auto
      moreover have "ev_addr y = e'" if "find (\<lambda>x. ev_addr x = e') (ow_events w) = Some y" for y
        using find_member [OF that] by simp
      ultimately show ?thesis
        using Some o h [of "ow_events w"] found
        by (cases "find (\<lambda>x. ev_addr x = e') (ow_events w)") (auto simp: cpkt_postgres_event_connection_data_def)
    next
      case False
      then have "c' \<noteq> c" using Some w(1) by auto
      then show ?thesis using Some o False by (simp add: cpkt_postgres_event_connection_data_def)
    qed
  qed
  then show ?thesis using True by simp
next
  case False
  then show ?thesis
    using assms(2) by (auto simp: cpkt_postgres_event_set_connection_data_def split: option.splits if_splits)
qed

lemma find_store_data:
  "find (\<lambda>t. st_event t = e') (store_data e d ts) =
     map_option (\<lambda>t. if e' = e then t\<lparr>st_data := d\<rparr> else t) (find (\<lambda>t. st_event t = e') ts)"
  by (induction ts) (auto simp: option.map_ident)

lemma set_result_data_get:
  assumes "pg_ok F [] s" "cpkt_postgres_event_set_result_data n e v s = (b, s')"
  shows "if b then cpkt_postgres_event_result_data n' e' s' =
      (if n' = n \<and> e' = e then v else cpkt_postgres_event_result_data n' e' s) else s' = s"
proof (cases b)
  case True
  then obtain r t where r: "cpkt_postgres_event_find_result s n = Some r" "cpkt_postgres_event_find_state r e = Some t"
    and s': "s' = upd_result (rs_addr r) (\<lambda>r. r\<lparr>rs_states := store_data e v (rs_states r)\<rparr>) s"
    using assms(2) by (auto simp: cpkt_postgres_event_set_result_data_def split: option.splits)
  let ?g = "\<lambda>x. if rs_addr x = rs_addr r then x\<lparr>rs_states := store_data e v (rs_states x)\<rparr> else x"
  have o: "cpkt_postgres_event_find_result s' n' = map_option ?g (cpkt_postgres_event_find_result s n')"
    unfolding s' upd_result_def cpkt_postgres_event_find_result_def by (simp add: find_map_kept)
  have same: "x = r" if "cpkt_postgres_event_find_result s n' = Some x" "rs_addr x = rs_addr r" for x
    using find_result_member [OF that(1)] find_result_member [OF r(1)] that(2) pg_ok_result_distinct [OF assms(1)]
    by (auto simp: distinct_map dest: inj_onD)
  have nr: "n' = n" if "cpkt_postgres_event_find_result s n' = Some r"
    using find_result_member [OF that] find_result_member [OF r(1)] by simp
  have "cpkt_postgres_event_result_data n' e' s' = (if n' = n \<and> e' = e then v else cpkt_postgres_event_result_data n' e' s)"
  proof (cases "cpkt_postgres_event_find_result s n'")
    case None
    then show ?thesis using o r(1) by (auto simp: cpkt_postgres_event_result_data_def)
  next
    case (Some x)
    show ?thesis
    proof (cases "rs_addr x = rs_addr r")
      case True
      then have "x = r" "n' = n" using same nr Some by auto
      then show ?thesis
        using Some o r(2)
        by (cases "find (\<lambda>t. st_event t = e') (rs_states r)")
          (auto simp: cpkt_postgres_event_result_data_def cpkt_postgres_event_find_state_def find_store_data)
    next
      case False
      then have "n' \<noteq> n" using Some r(1) by auto
      then show ?thesis using Some o False by (simp add: cpkt_postgres_event_result_data_def)
    qed
  qed
  then show ?thesis using True by simp
next
  case False
  then show ?thesis
    using assms(2) by (auto simp: cpkt_postgres_event_set_result_data_def split: option.splits)
qed

text \<open>
  C33: What the application stores with a registration is what it reads back, for a connection and for a
  result, and what it has stored elsewhere stays; a refused call changes nothing.
\<close>

theorem registry_data:
  assumes "pg_reachable W s" "cpkt_postgres_event_set_connection_data c e v s = (b, s1)"
    "cpkt_postgres_event_set_result_data n e v s = (d, s2)"
  shows "(if b then \<forall>c' e'. cpkt_postgres_event_connection_data c' e' s1 =
        (if c' = c \<and> e' = e then v else cpkt_postgres_event_connection_data c' e' s) else s1 = s) \<and>
    (if d then \<forall>n' e'. cpkt_postgres_event_result_data n' e' s2 =
        (if n' = n \<and> e' = e then v else cpkt_postgres_event_result_data n' e' s) else s2 = s)"
proof -
  have "pg_ok False [] s" using pg_reachable_inv [OF assms(1)] by (simp add: pg_inv_def)
  from set_connection_data_get [OF this assms(2)] set_result_data_get [OF this assms(3)] show ?thesis
    by (cases b; cases d; simp)
qed

theorem registry_data_witness:
  "cpkt_postgres_event_connection_data 7 2 (snd (cpkt_postgres_event_set_connection_data 7 2 9 run_created)) = 9 \<and>
   cpkt_postgres_event_result_data 11 2 (snd (cpkt_postgres_event_set_result_data 11 2 9 run_created)) = 9"
proof -
  have "fst (cpkt_postgres_event_set_connection_data 7 2 9 run_created)" "fst (cpkt_postgres_event_set_result_data 11 2 9 run_created)"
    by (simp_all add: run_values cpkt_postgres_event_set_connection_data_def cpkt_postgres_event_set_result_data_def
        cpkt_postgres_event_find_owner_def cpkt_postgres_event_find_result_def cpkt_postgres_event_find_state_def
        cpkt_postgres_event_contains_def)
  then show ?thesis
    using registry_data [OF run_reaches(1) prod.collapse [symmetric] prod.collapse [symmetric], of 7 2 9 11] by simp
qed

end
