(* ===== verification/Spec2Isabelle.thy ===== *)
theory Spec2Isabelle
  imports Audio_Ptt Audio_Mp3 Audio_Device Lua_Calls Sus_Stream Opcua_Native Postgres_Events
begin

text \<open>
  A verification of the bundle's C facades where they have logic of their own.  The bundle wraps third-party
  libraries behind C89 interfaces; most of it forwards calls, and the parts modelled here are those that
  keep state, buffers, memory or formats themselves.

  \<^bold>\<open>Conventions\<close> (\<open>Cpkt_Prelude\<close>).  \<open>size_t\<close> and \<open>unsigned long\<close> are naturals below 2 to the 64 with the
  wrap-around written out (LP64 targets), samples and Lua numbers are words, structures are records,
  enumerations are datatypes or their integers, and failing calls return the facade's result code.  Third-party code is always an
  argument: a record of functions, or a schedule of what another thread does between two accesses, with its documented behaviour
  as a named hypothesis (\<open>malloc_ok\<close>, \<open>mp3dec_ok\<close>, \<open>rb_ok\<close>, \<open>posix_ok\<close> on \<^verbatim>\<open>pipe\<close> and
  \<^verbatim>\<open>fork\<close>, \<open>lua_contract\<close>, \<open>ua_library_ok\<close>).  Two conditions that are not promised, \<open>waits_ok\<close> (waiting for a child is not interrupted
  twice in a row) and \<open>fires_ok\<close> (libpq reaches the dispatcher), guard single conclusions, and what holds without them is stated too.
  Loops that may wait for ever are \<open>partial_function (option)\<close>, whose value \<open>None\<close> is not returning; no
  fuel is used, and where a property says that such a loop returns, this is proved.

  \<^bold>\<open>Segmenters of\<close> \<^verbatim>\<open>src/src/audio.c\<close>.
  \<^item> \<open>Audio_Sample\<close>: results, magnitudes of floats on their bits, time conversions, checked additions.
  \<^item> \<open>Audio_Spool\<close>: \<^verbatim>\<open>struct cpkt_audio_vox_impl\<close>, its spool in memory and file and its prebuffer ring;
    the locales \<open>frame_store\<close>, \<open>frame_ring\<close> and \<open>segment_source\<close> are their contracts.
  \<^item> \<open>Audio_Segment\<close>, \<open>Audio_Vox\<close>, \<open>Audio_Ptt\<close>: emission, the voice-operated and the push-to-talk segmenter.
    Segments are consecutive slices of the pushed frames (\<open>seg_chain\<close>), pushes return, and the buffers
    hold exactly the history that they should.

  \<^bold>\<open>Sources of\<close> \<^verbatim>\<open>src/src/audio.c\<close>.
  \<^item> \<open>Audio_Format\<close>, \<open>Audio_Reader\<close>: enumerations, signatures, media types; the codec callbacks, with the
    locale \<open>byte_reader\<close>.
  \<^item> \<open>Audio_Url\<close>: the sliding window between libcurl and the decoder; reading it is reading the received
    stream.
  \<^item> \<open>Audio_Mp3\<close>: tags, synchronisation and the frame loop over the URL source.

  \<^bold>\<open>Devices of\<close> \<^verbatim>\<open>src/src/audio.c\<close> (Linux build).
  \<^item> \<open>Audio_S16\<close>: conversion between floats and 16-bit samples and their bytes.
  \<^item> \<open>Audio_Process\<close>: the recording and playback commands, their pipes, signals and ends.
  \<^item> \<open>Audio_Capture\<close>, \<open>Audio_Playback\<close>: reading and writing through a command or the library's ring, for every
    interleaving with the device thread; draining.
  \<^item> \<open>Audio_Device\<close>: descriptors, children, memory, ring and device over every sequence of calls; the
    contract of a handle is the locale \<open>device_handle\<close>, interpreted for capture and for playback.

  \<^bold>\<open>Lua runtime of\<close> \<^verbatim>\<open>src/src/lua_runtime.c\<close>.
  \<^item> \<open>Lua_Alloc\<close>: the limited, counting allocator over any allocator that meets the locale \<open>sys_allocator\<close>.
  \<^item> \<open>Lua_Runtime\<close>: the runtime, its chunks and every public operation; Lua is an argument that acts by
    requests for memory, hook calls and an end.
  \<^item> \<open>Lua_Memory\<close>, \<open>Lua_Calls\<close>: no leak and no excess over every sequence of calls; status, error text and
    stack after each of them.

  \<^bold>\<open>Speech facade,\<close> \<^verbatim>\<open>src/src/sus.c\<close>.
  \<^item> \<open>Sus_Catalog\<close>, \<open>Sus_Model\<close>: the curated models, the log bridge and model handles.
  \<^item> \<open>Sus_Files\<close>, \<open>Sus_Cache\<close>: the cached-model resolver over a file system whose calls may fail, and what
    it guarantees about checksums and files.
  \<^item> \<open>Sus_Text\<close>, \<open>Sus_Transcribe\<close>, \<open>Sus_Stream\<close>: the transcript, inference with its callbacks, and the
    composition with the voice-operated segmenter of the audio facade, which calls the transcriber's sink.

  \<^bold>\<open>OPC UA identifiers,\<close> \<^verbatim>\<open>src/src/opcua_identifiers.c\<close>.
  \<^item> \<open>Opcua_Text\<close>: copies into a caller's buffer, numbers, GUIDs and base64, with their round trips.
  \<^item> \<open>Opcua_Ids\<close>: node ids, expanded node ids, qualified names and localized texts.  The locale
    \<open>text_printer\<close> is the contract of the printers (asking for the size, a short buffer, a large one),
    \<open>text_codec\<close> extends it by a parser; five printers and parsers are interpretations of it.
  \<^item> \<open>Opcua_Native\<close>: 64-bit values in halves, and node ids to the library and back.

  \<^bold>\<open>PostgreSQL event registry,\<close> \<^verbatim>\<open>src/src/postgres_events.c\<close>.
  \<^item> \<open>Postgres_Registry\<close>: owners, registrations and result entries on an explicit set of allocated blocks, with
    every operation of the file; callbacks and libpq are arguments.
  \<^item> \<open>Postgres_Events\<close>: in every state reachable by calls and library events no block is freed twice, used after
    it was freed or forgotten; accepted results are told of their destruction once, but for those
    that a release drops after a creation that did not come through libpq; data is read back.  It is
    assumed that a callback does not call the registry while it is being called.

  \<^bold>\<open>Not modelled.\<close>  The facades of SQLite, OpenSSL, the PDF library, GSSAPI and SASL, the rest of the PostgreSQL facade and the
  client, server and value conversions of the OPC UA facade, are one-to-one forwarding to libraries that
  keep the state.  In the audio facade the set-up of codecs and the resampling MP3 read are left out, in
  the Lua runtime the C functions that run inside Lua through its stack interface, which belong to the
  Lua argument.  The command-line tool, examples, fuzzers and tests are left out.
\<close>

end
